(* ===== verification/Flexus_Prelude.thy ===== *)
theory Flexus_Prelude
  imports Main "HOL-Library.Word" "HOL-Library.Multiset" "HOL-Library.Signed_Division"
begin

text \<open>
  Shared vocabulary of the development: the failure values of the modelled C++ code, the
  error-propagating sequencing the components are written in, checked vector access, and the
  generic list, multiset and word facts the component proofs use.

  A C++ operation of the simulator can stop in four ways that matter here. A failing
  \<^verbatim>\<open>DBG_Assert\<close> or \<^verbatim>\<open>assert\<close> aborts the simulation; an index outside a vector or the front
  of an empty list is undefined behaviour; reading a variant as the wrong type throws; and the network simulator returns \<^verbatim>\<open>true\<close> to report
  an error to its caller, which passes it on until the component throws. Each is a value of
  \<open>fault\<close>, and an operation that can fail returns \<open>fault + 'a\<close>.
\<close>

section \<open>Outcomes\<close>

datatype fault =
    AssertionFailed   \<comment> \<open>a \<^verbatim>\<open>DBG_Assert\<close> / \<^verbatim>\<open>assert\<close> whose condition is false\<close>
  | OutOfBounds       \<comment> \<open>a container accessed outside its range (undefined behaviour)\<close>
  | BadGet            \<comment> \<open>\<^verbatim>\<open>boost::get\<close> on a variant holding another type (throws)\<close>
  | ErrorReturn       \<comment> \<open>an operation that reports failure to its caller\<close>
  | DivByZero         \<comment> \<open>an integer division by zero (undefined behaviour)\<close>
  | UndefinedBehaviour \<comment> \<open>a shift by at least the word width, or a conversion out of range\<close>
  | BadToken          \<comment> \<open>text input of another shape than its format; what is read is not modelled\<close>
  | OutOfFuel         \<comment> \<open>a modelled loop ran longer than its bound; proved not to happen\<close>

type_synonym 'a res = "fault + 'a"

named_theorems res_simps \<open>evaluation of sequenced fallible operations\<close>
named_theorems res_splits \<open>inversion of a successful fallible operation\<close>

definition bindE :: "'a res \<Rightarrow> ('a \<Rightarrow> 'b res) \<Rightarrow> 'b res" where
  "bindE m f = (case m of Inl e \<Rightarrow> Inl e | Inr x \<Rightarrow> f x)"

definition dbg_assert :: "bool \<Rightarrow> unit res" where
  "dbg_assert b = (if b then Inr () else Inl AssertionFailed)"

definition vec_at :: "'a list \<Rightarrow> nat \<Rightarrow> 'a res" where
  "vec_at xs i = (if i < length xs then Inr (xs ! i) else Inl OutOfBounds)"

definition vec_set :: "'a list \<Rightarrow> nat \<Rightarrow> 'a \<Rightarrow> 'a list res" where
  "vec_set xs i v = (if i < length xs then Inr (xs[i := v]) else Inl OutOfBounds)"

definition front :: "'a list \<Rightarrow> 'a res" where
  "front xs = (case xs of [] \<Rightarrow> Inl OutOfBounds | x # _ \<Rightarrow> Inr x)"

text \<open>A C array indexed by a signed integer, and C's truncating integer division.\<close>

definition arr_at :: "'a list \<Rightarrow> int \<Rightarrow> 'a res" where
  "arr_at xs i = (if 0 \<le> i then vec_at xs (nat i) else Inl OutOfBounds)"

definition arr_set :: "'a list \<Rightarrow> int \<Rightarrow> 'a \<Rightarrow> 'a list res" where
  "arr_set xs i v = (if 0 \<le> i then vec_set xs (nat i) v else Inl OutOfBounds)"

definition c_div :: "int \<Rightarrow> int \<Rightarrow> int res" where
  "c_div a b = (if b = 0 then Inl DivByZero else Inr (a sdiv b))"

text \<open>A loop over a list of indices whose body may fail, with the state threaded through.\<close>

fun foldE :: "('a \<Rightarrow> 's \<Rightarrow> 's res) \<Rightarrow> 'a list \<Rightarrow> 's \<Rightarrow> 's res" where
  "foldE f [] s = Inr s"
| "foldE f (x # xs) s = bindE (f x s) (foldE f xs)"

lemma bindE_Inr [simp, res_simps]: "bindE (Inr x) f = f x"
  by (simp add: bindE_def)

lemma bindE_Inl [simp, res_simps]: "bindE (Inl e) f = Inl e"
  by (simp add: bindE_def)

lemma bindE_Inr_iff [res_splits]: "bindE m f = Inr y \<longleftrightarrow> (\<exists>x. m = Inr x \<and> f x = Inr y)"
  by (cases m) auto

lemma bindE_Inl_iff: "bindE m f = Inl e \<longleftrightarrow> m = Inl e \<or> (\<exists>x. m = Inr x \<and> f x = Inl e)"
  by (cases m) auto

lemma bindE_Inr_right [simp]: "bindE m Inr = m"
  by (cases m) auto

lemma foldE_Nil_fun [simp]: "foldE f [] = Inr"
  by (rule ext) simp

lemma bindE_assoc: "bindE (bindE m f) g = bindE m (\<lambda>x. bindE (f x) g)"
  by (cases m) auto

lemma bindE_cong [fundef_cong]:
  "m = m' \<Longrightarrow> (\<And>x. m' = Inr x \<Longrightarrow> f x = g x) \<Longrightarrow> bindE m f = bindE m' g"
  by (cases m') auto

lemma dbg_assert_True [simp, res_simps]: "b \<Longrightarrow> dbg_assert b = Inr ()"
  by (simp add: dbg_assert_def)

lemma dbg_assert_False [simp, res_simps]: "\<not> b \<Longrightarrow> dbg_assert b = Inl AssertionFailed"
  by (simp add: dbg_assert_def)

lemma dbg_assert_Inr_iff [simp, res_splits]: "dbg_assert b = Inr u \<longleftrightarrow> b"
  by (simp add: dbg_assert_def)

lemma dbg_assert_Inl_iff [simp]: "dbg_assert b = Inl e \<longleftrightarrow> \<not> b \<and> e = AssertionFailed"
  by (auto simp: dbg_assert_def)

lemma vec_at_ok [simp, res_simps]: "i < length xs \<Longrightarrow> vec_at xs i = Inr (xs ! i)"
  by (simp add: vec_at_def)

lemma vec_at_Inr_iff [res_splits]: "vec_at xs i = Inr v \<longleftrightarrow> i < length xs \<and> v = xs ! i"
  by (auto simp: vec_at_def)

lemma vec_set_ok [simp, res_simps]: "i < length xs \<Longrightarrow> vec_set xs i v = Inr (xs[i := v])"
  by (simp add: vec_set_def)

lemma vec_set_Inr_iff [res_splits]: "vec_set xs i v = Inr ys \<longleftrightarrow> i < length xs \<and> ys = xs[i := v]"
  by (auto simp: vec_set_def)

lemma arr_at_ok [simp, res_simps]: "0 \<le> i \<Longrightarrow> nat i < length xs \<Longrightarrow> arr_at xs i = Inr (xs ! nat i)"
  by (simp add: arr_at_def)

lemma arr_at_Inr_iff [res_splits]: "arr_at xs i = Inr v \<longleftrightarrow> 0 \<le> i \<and> nat i < length xs \<and> v = xs ! nat i"
  by (auto simp: arr_at_def vec_at_def)

lemma arr_set_ok [simp, res_simps]:
  "0 \<le> i \<Longrightarrow> nat i < length xs \<Longrightarrow> arr_set xs i v = Inr (xs[nat i := v])"
  by (simp add: arr_set_def)

lemma c_div_pos: "0 \<le> a \<Longrightarrow> 0 < b \<Longrightarrow> c_div a b = Inr (a div b)"
  by (simp add: c_div_def signed_divide_int_def sgn_if)

lemma front_Cons [simp, res_simps]: "front (x # xs) = Inr x"
  by (simp add: front_def)

lemma front_ok: "xs \<noteq> [] \<Longrightarrow> front xs = Inr (hd xs)"
  by (cases xs) auto

lemma front_Inr_iff [res_splits]: "front xs = Inr v \<longleftrightarrow> xs \<noteq> [] \<and> v = hd xs"
  by (cases xs) (auto simp: front_def)

text \<open>Loops: an invariant kept by the body is kept by the loop, and a body that succeeds from
  every invariant state makes the loop succeed.\<close>

lemma foldE_inv:
  assumes step: "\<And>x s. x \<in> set xs \<Longrightarrow> P s \<Longrightarrow> \<exists>s'. f x s = Inr s' \<and> P s'"
    and start: "P s"
  shows "\<exists>s'. foldE f xs s = Inr s' \<and> P s'"
  using assms
proof (induction xs arbitrary: s)
  case Nil
  then show ?case by simp
next
  case (Cons x xs)
  from Cons.prems(1)[of x s] Cons.prems(2) obtain s1 where s1: "f x s = Inr s1" "P s1"
    by auto
  with Cons.IH[of s1] Cons.prems(1) show ?case by auto
qed

lemma foldE_inv_partial:
  assumes step: "\<And>x s s'. x \<in> set xs \<Longrightarrow> P s \<Longrightarrow> f x s = Inr s' \<Longrightarrow> P s'"
    and run: "foldE f xs s = Inr s'" and start: "P s"
  shows "P s'"
  using assms
proof (induction xs arbitrary: s)
  case Nil
  then show ?case by simp
next
  case (Cons x xs)
  then obtain s1 where "f x s = Inr s1" "foldE f xs s1 = Inr s'"
    by (auto simp: bindE_Inr_iff)
  with Cons show ?case by auto
qed

lemma foldE_append: "foldE f (xs @ ys) s = bindE (foldE f xs s) (foldE f ys)"
  by (induction xs arbitrary: s) (auto simp: bindE_assoc cong: bindE_cong)

section \<open>Lists\<close>

lemma nth_in_concat: "i < length xss \<Longrightarrow> x \<in> set (xss ! i) \<Longrightarrow> x \<in> set (concat xss)"
  by auto

lemma mset_concat_update:
  "i < length xss \<Longrightarrow>
   mset (concat (xss[i := ys])) + mset (xss ! i) = mset (concat xss) + mset ys"
proof (induction xss arbitrary: i)
  case Nil
  then show ?case by simp
next
  case (Cons xs xss)
  then show ?case by (cases i) (auto simp: ac_simps)
qed

lemma mset_concat_push:
  "i < length xss \<Longrightarrow> mset (concat (xss[i := xss ! i @ [x]])) = add_mset x (mset (concat xss))"
  using mset_concat_update[of i xss "xss ! i @ [x]"] by simp

lemma mset_concat_remove:
  assumes "i < length xss" "x \<in> set (xss ! i)"
  shows "add_mset x (mset (concat (xss[i := remove1 x (xss ! i)]))) = mset (concat xss)"
proof -
  from assms(2) obtain B where B: "mset (xss ! i) = add_mset x B"
    by (metis in_multiset_in_set mset_add)
  have "mset (concat (xss[i := remove1 x (xss ! i)])) + add_mset x B = mset (concat xss) + B"
    using mset_concat_update[of i xss "remove1 x (xss ! i)"] assms(1) B by simp
  then have "add_mset x (mset (concat (xss[i := remove1 x (xss ! i)]))) + B = mset (concat xss) + B"
    by simp
  then show ?thesis by (simp only: add_right_cancel)
qed

lemma distinct_concat_same_index:
  "distinct (concat xss) \<Longrightarrow> i < length xss \<Longrightarrow> j < length xss \<Longrightarrow>
   x \<in> set (xss ! i) \<Longrightarrow> x \<in> set (xss ! j) \<Longrightarrow> i = j"
proof (induction xss arbitrary: i j)
  case Nil
  then show ?case by simp
next
  case (Cons xs xss)
  then show ?case
    by (cases i; cases j) (fastforce simp: disjoint_iff dest: nth_mem)+
qed

lemma sum_list_map_update:
  fixes f :: "'a \<Rightarrow> nat"
  shows "i < length xs \<Longrightarrow> sum_list (map f (xs[i := y])) + f (xs ! i) = sum_list (map f xs) + f y"
proof (induction xs arbitrary: i)
  case (Cons x xs)
  then show ?case by (cases i) auto
qed simp

lemma all_nth_update:
  "i < length xs \<Longrightarrow> P y \<Longrightarrow> (\<forall>j < length xs. P (xs ! j)) \<Longrightarrow> (\<forall>j < length xs. P (xs[i := y] ! j))"
  by (auto simp: nth_list_update)

lemma map_update_same: "i < length xs \<Longrightarrow> f y = f (xs ! i) \<Longrightarrow> map f (xs[i := y]) = map f xs"
  by (metis list_update_id length_map map_update nth_map)

section \<open>Recency order\<close>

text \<open>The last distinct elements of a list in the order of their last use, and the use of one more.\<close>

definition recent :: "nat \<Rightarrow> 'a list \<Rightarrow> 'a list" where
  "recent n xs = drop (length xs - n) xs"

definition use_block :: "nat \<Rightarrow> 'a \<Rightarrow> 'a list \<Rightarrow> 'a list" where
  "use_block n t ts =
     (if t \<in> set ts then removeAll t ts @ [t] else if length ts < n then ts @ [t] else tl ts @ [t])"

lemma remdups_snoc: "remdups (xs @ [t]) = removeAll t (remdups xs) @ [t]"
  by (induction xs) auto

lemma length_removeAll_distinct: "distinct xs \<Longrightarrow> t \<in> set xs \<Longrightarrow> length (removeAll t xs) = length xs - 1"
  by (simp add: distinct_remove1_removeAll[symmetric] length_remove1)

lemma use_block_recent:
  assumes d: "distinct ds" and n: "0 < n"
  shows "use_block n t (recent n ds) = recent n (removeAll t ds @ [t])"
proof -
  let ?pre = "take (length ds - n) ds" and ?rec = "recent n ds"
  have ds: "?pre @ ?rec = ds" by (simp add: recent_def)
  have dj: "distinct ?pre" "distinct ?rec" "set ?pre \<inter> set ?rec = {}"
    using d ds by (metis distinct_append)+
  have len: "length ?pre = length ds - n" "length ?rec = min n (length ds)" by (auto simp: recent_def)
  have ra: "removeAll t ds = removeAll t ?pre @ removeAll t ?rec" by (metis ds removeAll_append)
  consider "t \<in> set ?rec" | "t \<notin> set ds" | "t \<in> set ?pre" using ds by (metis Un_iff set_append)
  then show ?thesis
  proof cases
    case 1
    then have "t \<notin> set ?pre" using dj(3) by blast
    then have "removeAll t ds = ?pre @ removeAll t ?rec" using ra by simp
    moreover have "length (removeAll t ?rec) = length ?rec - 1" "0 < length ?rec"
      using 1 dj(2) length_removeAll_distinct by (auto intro: length_pos_if_in_set)
    ultimately show ?thesis using 1 len by (simp add: use_block_def recent_def[of n "_ @ _"])
  next
    case 2
    have "t \<notin> set ?rec" using 2 ds by (metis Un_iff set_append)
    moreover have "removeAll t ds = ds" using 2 by simp
    moreover have "Suc (length ds) - n = Suc (length ds - n)" if "n \<le> length ds" using that by simp
    ultimately show ?thesis
      using len n by (auto simp: use_block_def recent_def[of n "_ @ _"] recent_def[of n ds] drop_Suc tl_drop not_less)
  next
    case 3
    then have t: "t \<notin> set ?rec" using dj(3) by blast
    then have "removeAll t ds = removeAll t ?pre @ ?rec" using ra by simp
    moreover have "length (removeAll t ?pre) = length ?pre - 1" "0 < length ?pre"
      by (rule length_removeAll_distinct[OF dj(1) 3], rule length_pos_if_in_set[OF 3])
    ultimately show ?thesis
      using t len n by (simp add: use_block_def recent_def[of n "_ @ _"] drop_Suc)
  qed
qed

end
