(* ===== verification/MapTable.thy ===== *)
theory MapTable
  imports Flexus_Prelude
begin

text \<open>
  Register renaming: \<^verbatim>\<open>components/uArchARM/MapTable.hpp\<close> with the constants of
  \<^verbatim>\<open>RegisterType.hpp\<close>.

  \<open>RegisterWindowMap\<close> translates op-code register names to architectural register numbers;
  \<open>PhysicalMap\<close> maps architectural names to physical registers. The physical map keeps four
  tables: the current (speculative) mapping of every name, the list of free physical registers,
  for every name the list of registers assigned to it from the oldest (architectural) to the
  newest version, and for every physical register the name it is assigned to (\<open>-1\<close> for none).
  \<open>pm_inv\<close> states how the four agree; the lemmas show that every operation keeps it, what each
  returns, and which misuse each assertion catches.
\<close>

section \<open>Register windows\<close>

datatype eRegisterType = xRegisters | vRegisters | ccBits

record reg =
  theType :: eRegisterType
  theIndex :: "32 word"

definition kGlobalRegCount :: "32 word" where "kGlobalRegCount = 32"
definition kGlobalRegSets :: "32 word" where "kGlobalRegSets = 1"
definition kNumWindows :: "32 word" where "kNumWindows = 0"
definition kRegistersPerWindow :: "32 word" where "kRegistersPerWindow = 0"
definition kWindowRegCount :: "32 word" where "kWindowRegCount = kRegistersPerWindow * kNumWindows"
definition kSpecialRegCount :: "32 word" where "kSpecialRegCount = 3"
definition kTotalRegs :: "32 word" where
  "kTotalRegs = kGlobalRegSets * kGlobalRegCount + kWindowRegCount + kSpecialRegCount"
definition kFirstSpecialReg :: "32 word" where
  "kFirstSpecialReg = kGlobalRegSets * kGlobalRegCount + kWindowRegCount"

lemmas reg_consts = kGlobalRegCount_def kGlobalRegSets_def kNumWindows_def kRegistersPerWindow_def
  kWindowRegCount_def kSpecialRegCount_def kTotalRegs_def kFirstSpecialReg_def

record RegisterWindowMap =
  theCWP :: "32 word"   \<comment> \<open>\<^verbatim>\<open>int32_t\<close>\<close>
  theAG :: bool
  theIG :: bool
  theMG :: bool

definition rwm_reset :: "RegisterWindowMap \<Rightarrow> RegisterWindowMap" where
  "rwm_reset w = w\<lparr>theCWP := 0, theAG := False, theIG := False, theMG := False\<rparr>"

definition rwm_rotate :: "RegisterWindowMap \<Rightarrow> reg \<Rightarrow> reg" where
  "rwm_rotate w aReg =
     (if theType aReg \<noteq> xRegisters then aReg
      else if theIndex aReg \<ge> kFirstSpecialReg then aReg
      else if theIndex aReg < kGlobalRegCount then
        (if theAG w \<and> theIndex aReg < kGlobalRegCount
           then aReg\<lparr>theIndex := theIndex aReg + kGlobalRegCount\<rparr>
         else if theMG w \<and> theIndex aReg < kGlobalRegCount
           then aReg\<lparr>theIndex := theIndex aReg + 2 * kGlobalRegCount\<rparr>
         else if theIG w \<and> theIndex aReg < kGlobalRegCount
           then aReg\<lparr>theIndex := theIndex aReg + 3 * kGlobalRegCount\<rparr>
         else aReg)
      else
        (let i = theIndex aReg + (kNumWindows - 1 - theCWP w) * kRegistersPerWindow
                 + (kGlobalRegSets - 1) * kGlobalRegCount
         in if i \<ge> kFirstSpecialReg then aReg\<lparr>theIndex := i - kWindowRegCount\<rparr>
            else aReg\<lparr>theIndex := i\<rparr>))"

definition setCWP :: "32 word \<Rightarrow> RegisterWindowMap \<Rightarrow> RegisterWindowMap res" where
  "setCWP aCWP w = bindE (dbg_assert (sint aCWP < 8)) (\<lambda>_. Inr (w\<lparr>theCWP := aCWP\<rparr>))"

definition incrementCWP :: "RegisterWindowMap \<Rightarrow> RegisterWindowMap" where
  "incrementCWP w =
     (let c = theCWP w + 1 in if sint c > 7 then w\<lparr>theCWP := 0\<rparr> else w\<lparr>theCWP := c\<rparr>)"

definition decrementCWP :: "RegisterWindowMap \<Rightarrow> RegisterWindowMap" where
  "decrementCWP w =
     (let c = theCWP w - 1 in if sint c < 0 then w\<lparr>theCWP := 7\<rparr> else w\<lparr>theCWP := c\<rparr>)"

definition setAG :: "bool \<Rightarrow> RegisterWindowMap \<Rightarrow> RegisterWindowMap" where
  "setAG b w = w\<lparr>theAG := b\<rparr>"
definition setIG :: "bool \<Rightarrow> RegisterWindowMap \<Rightarrow> RegisterWindowMap" where
  "setIG b w = w\<lparr>theIG := b\<rparr>"
definition setMG :: "bool \<Rightarrow> RegisterWindowMap \<Rightarrow> RegisterWindowMap" where
  "setMG b w = w\<lparr>theMG := b\<rparr>"

section \<open>The physical map\<close>

type_synonym regName = nat
type_synonym pRegister = nat

record PhysicalMap =
  theNameCount :: nat
  theRegisterCount :: nat
  theMappings :: "pRegister list"
  theFreeList :: "pRegister list"
  theAssignedRegisters :: "pRegister list list"
  theReverseMappings :: "int list"

text \<open>
  The constructor sizes the tables and calls \<^verbatim>\<open>reset\<close>; \<^verbatim>\<open>reset\<close> writes entry \<open>i\<close> of the
  mappings and of the reverse mappings for every name, so more names than registers writes past
  the end of \<^verbatim>\<open>theReverseMappings\<close>.
\<close>

definition pm_reset :: "PhysicalMap \<Rightarrow> PhysicalMap res" where
  "pm_reset m =
     (let n = theNameCount m; r = theRegisterCount m in
      if n \<le> length (theMappings m) \<and> n \<le> length (theReverseMappings m)
         \<and> n \<le> length (theAssignedRegisters m)
      then Inr (m\<lparr>theMappings := [0..<n] @ drop n (theMappings m),
                  theReverseMappings :=
                    map int [0..<n] @ replicate (length (theReverseMappings m) - n) (-1),
                  theAssignedRegisters :=
                    map (\<lambda>i. [i]) [0..<n] @ drop n (theAssignedRegisters m),
                  theFreeList := [n..<r]\<rparr>)
      else Inl OutOfBounds)"

definition pm_new :: "nat \<Rightarrow> nat \<Rightarrow> PhysicalMap res" where
  "pm_new aNameCount aRegisterCount =
     pm_reset \<lparr>theNameCount = aNameCount, theRegisterCount = aRegisterCount,
               theMappings = replicate aNameCount 0, theFreeList = [],
               theAssignedRegisters = replicate aNameCount [],
               theReverseMappings = replicate aRegisterCount 0\<rparr>"

definition pm_map :: "PhysicalMap \<Rightarrow> regName \<Rightarrow> pRegister res" where
  "pm_map m a =
     bindE (dbg_assert (a < length (theMappings m))) (\<lambda>_. vec_at (theMappings m) a)"

definition mapArchitectural :: "PhysicalMap \<Rightarrow> regName \<Rightarrow> pRegister res" where
  "mapArchitectural m a =
     bindE (dbg_assert (a < length (theAssignedRegisters m))) (\<lambda>_.
     bindE (vec_at (theAssignedRegisters m) a) front)"

definition pm_create :: "regName \<Rightarrow> PhysicalMap \<Rightarrow> ((pRegister \<times> pRegister) \<times> PhysicalMap) res" where
  "pm_create a m =
     bindE (dbg_assert (a < length (theMappings m))) (\<lambda>_.
     bindE (vec_at (theMappings m) a) (\<lambda>previous_reg.
     bindE (front (theFreeList m)) (\<lambda>new_reg.
     bindE (vec_at (theAssignedRegisters m) a) (\<lambda>assigned.
     bindE (vec_at (theReverseMappings m) new_reg) (\<lambda>rev.
     bindE (dbg_assert (rev = -1)) (\<lambda>_.
     Inr ((new_reg, previous_reg),
          m\<lparr>theFreeList := tl (theFreeList m),
            theMappings := (theMappings m)[a := new_reg],
            theAssignedRegisters := (theAssignedRegisters m)[a := assigned @ [new_reg]],
            theReverseMappings := (theReverseMappings m)[new_reg := int a]\<rparr>)))))))"

definition pm_free :: "pRegister \<Rightarrow> PhysicalMap \<Rightarrow> PhysicalMap res" where
  "pm_free r m =
     bindE (vec_at (theReverseMappings m) r) (\<lambda>arch_name.
     bindE (dbg_assert (arch_name \<ge> 0 \<and> arch_name < int (length (theAssignedRegisters m)))) (\<lambda>_.
     bindE (vec_at (theMappings m) (nat arch_name)) (\<lambda>cur.
     bindE (dbg_assert (cur \<noteq> r)) (\<lambda>_.
     bindE (vec_at (theAssignedRegisters m) (nat arch_name)) (\<lambda>assigned.
     bindE (dbg_assert (assigned \<noteq> [])) (\<lambda>_.
     bindE (dbg_assert (r \<in> set assigned)) (\<lambda>_.
     Inr (m\<lparr>theFreeList := theFreeList m @ [r],
            theReverseMappings := (theReverseMappings m)[r := -1],
            theAssignedRegisters :=
              (theAssignedRegisters m)[nat arch_name := remove1 r assigned]\<rparr>))))))))"

definition pm_restore :: "regName \<Rightarrow> pRegister \<Rightarrow> PhysicalMap \<Rightarrow> PhysicalMap res" where
  "pm_restore a r m =
     bindE (vec_set (theMappings m) a r) (\<lambda>ms. Inr (m\<lparr>theMappings := ms\<rparr>))"

text \<open>The counting loop of \<^verbatim>\<open>checkInvariants\<close>: \<^verbatim>\<open>++registers[x]\<close> for every listed register.\<close>

fun count_into :: "nat list \<Rightarrow> nat list \<Rightarrow> nat list res" where
  "count_into cs [] = Inr cs"
| "count_into cs (x # xs) =
     bindE (vec_at cs x) (\<lambda>c. count_into (cs[x := c + 1]) xs)"

definition checkInvariants :: "PhysicalMap \<Rightarrow> bool res" where
  "checkInvariants m =
     bindE (count_into (replicate (theRegisterCount m) 0) (theMappings m)) (\<lambda>cs.
     bindE (count_into cs (theFreeList m)) (\<lambda>cs'.
     Inr (\<not> (\<exists>c \<in> set cs'. c > 1))))"

section \<open>The invariant of the physical map\<close>

text \<open>
  Every physical register is in exactly one place, the free list or the version list of one name;
  the current mapping of a name is one of its versions; the reverse table names the owner.
\<close>

definition pm_inv :: "PhysicalMap \<Rightarrow> bool" where
  "pm_inv m \<longleftrightarrow>
     length (theMappings m) = theNameCount m \<and>
     length (theAssignedRegisters m) = theNameCount m \<and>
     length (theReverseMappings m) = theRegisterCount m \<and>
     mset (theFreeList m @ concat (theAssignedRegisters m)) = mset [0..<theRegisterCount m] \<and>
     (\<forall>a < theNameCount m. theMappings m ! a \<in> set (theAssignedRegisters m ! a)) \<and>
     (\<forall>r \<in> set (theFreeList m). theReverseMappings m ! r = -1) \<and>
     (\<forall>a < theNameCount m. \<forall>r \<in> set (theAssignedRegisters m ! a). theReverseMappings m ! r = int a)"

lemma pm_invD:
  assumes "pm_inv m"
  shows pm_lens: "length (theMappings m) = theNameCount m"
      "length (theAssignedRegisters m) = theNameCount m"
      "length (theReverseMappings m) = theRegisterCount m"
    and pm_mset: "mset (theFreeList m) + mset (concat (theAssignedRegisters m))
                  = mset [0..<theRegisterCount m]"
    and pm_cur: "a < theNameCount m \<Longrightarrow> theMappings m ! a \<in> set (theAssignedRegisters m ! a)"
    and pm_rev_free: "r \<in> set (theFreeList m) \<Longrightarrow> theReverseMappings m ! r = -1"
    and pm_rev_assigned: "a < theNameCount m \<Longrightarrow> r \<in> set (theAssignedRegisters m ! a) \<Longrightarrow>
                          theReverseMappings m ! r = int a"
  using assms unfolding pm_inv_def by auto

lemma pm_place:
  assumes "pm_inv m"
  shows "distinct (theFreeList m @ concat (theAssignedRegisters m))"
    and "set (theFreeList m) \<union> set (concat (theAssignedRegisters m)) = {0..<theRegisterCount m}"
proof -
  have eq: "mset (theFreeList m @ concat (theAssignedRegisters m)) = mset [0..<theRegisterCount m]"
    using assms by (simp add: pm_inv_def)
  from mset_eq_imp_distinct_iff[OF eq]
  show "distinct (theFreeList m @ concat (theAssignedRegisters m))" by simp
  from mset_eq_setD[OF eq]
  show "set (theFreeList m) \<union> set (concat (theAssignedRegisters m)) = {0..<theRegisterCount m}"
    by simp
qed

lemma pm_bounds:
  assumes "pm_inv m"
  shows pm_free_lt: "r \<in> set (theFreeList m) \<Longrightarrow> r < theRegisterCount m"
    and pm_assigned_lt: "a < theNameCount m \<Longrightarrow> r \<in> set (theAssignedRegisters m ! a) \<Longrightarrow>
                         r < theRegisterCount m"
    and pm_disjoint: "a < theNameCount m \<Longrightarrow> r \<in> set (theAssignedRegisters m ! a) \<Longrightarrow>
                      r \<notin> set (theFreeList m)"
proof -
  have len: "length (theAssignedRegisters m) = theNameCount m"
    by (rule pm_lens(2)[OF assms])
  show "r < theRegisterCount m" if "r \<in> set (theFreeList m)"
    using that pm_place(2)[OF assms] by (metis UnCI atLeastLessThan_iff)
  show "r < theRegisterCount m" if a: "a < theNameCount m" "r \<in> set (theAssignedRegisters m ! a)"
    using nth_in_concat[of a "theAssignedRegisters m" r] a len pm_place(2)[OF assms]
    by (metis UnCI atLeastLessThan_iff)
  show "r \<notin> set (theFreeList m)" if a: "a < theNameCount m" "r \<in> set (theAssignedRegisters m ! a)"
    using nth_in_concat[of a "theAssignedRegisters m" r] a len pm_place(1)[OF assms]
    by (auto simp: disjoint_iff)
qed

lemma pm_assigned_distinct:
  assumes "pm_inv m" "a < theNameCount m"
  shows "distinct (theAssignedRegisters m ! a)"
  using pm_place(1)[OF assms(1)] pm_lens(2)[OF assms(1)] assms(2)
  by (simp add: distinct_concat_iff)

lemma pm_owner_unique:
  assumes "pm_inv m" "a < theNameCount m" "b < theNameCount m"
    and "r \<in> set (theAssignedRegisters m ! a)" "r \<in> set (theAssignedRegisters m ! b)"
  shows "a = b"
  using pm_rev_assigned[OF assms(1,2,4)] pm_rev_assigned[OF assms(1,3,5)] by simp

text \<open>A register is free exactly when the reverse table says \<open>-1\<close>.\<close>

lemma pm_reverse_cases:
  assumes "pm_inv m" "r < theRegisterCount m"
  shows "(r \<in> set (theFreeList m) \<and> theReverseMappings m ! r = -1) \<or>
         (\<exists>a < theNameCount m. r \<in> set (theAssignedRegisters m ! a) \<and> theReverseMappings m ! r = int a)"
proof -
  have "r \<in> set (theFreeList m) \<or> r \<in> set (concat (theAssignedRegisters m))"
    using pm_place(2)[OF assms(1)] assms(2) by (metis UnE atLeastLessThan_iff le0)
  then show ?thesis
  proof
    assume "r \<in> set (theFreeList m)"
    then show ?thesis using pm_rev_free[OF assms(1)] by blast
  next
    assume "r \<in> set (concat (theAssignedRegisters m))"
    then obtain a where "a < theNameCount m" "r \<in> set (theAssignedRegisters m ! a)"
      using pm_lens(2)[OF assms(1)] by (auto dest!: in_set_conv_nth[THEN iffD1])
    then show ?thesis using pm_rev_assigned[OF assms(1)] by blast
  qed
qed

subsection \<open>Construction\<close>

lemma concat_singletons: "concat (map (\<lambda>i. [i]) xs) = xs"
  by (induction xs) auto

lemma pm_new_eq:
  "n \<le> r \<Longrightarrow> pm_new n r =
     Inr \<lparr>theNameCount = n, theRegisterCount = r, theMappings = [0..<n], theFreeList = [n..<r],
          theAssignedRegisters = map (\<lambda>i. [i]) [0..<n],
          theReverseMappings = map int [0..<n] @ replicate (r - n) (-1)\<rparr>"
  by (simp add: pm_new_def pm_reset_def)

lemma pm_new_inv:
  assumes le: "n \<le> r" and new: "pm_new n r = Inr m"
  shows "pm_inv m"
proof -
  have m: "m = \<lparr>theNameCount = n, theRegisterCount = r, theMappings = [0..<n],
      theFreeList = [n..<r], theAssignedRegisters = map (\<lambda>i. [i]) [0..<n],
      theReverseMappings = map int [0..<n] @ replicate (r - n) (-1)\<rparr>"
    using new pm_new_eq[OF le] by simp
  have "[0..<n] @ [n..<r] = [0..<r]" using upt_add_eq_append[of 0 n "r - n"] le by simp
  then have "mset ([n..<r] @ [0..<n]) = mset [0..<r]" by (metis mset_append union_commute)
  then show ?thesis
    unfolding m using le by (auto simp: pm_inv_def concat_singletons nth_append)
qed

text \<open>Constructing a physical map with at least as many registers as names succeeds, maps
  name \<open>i\<close> to register \<open>i\<close> both speculatively and architecturally, leaves all other registers
  free in increasing order, and establishes the invariant; with fewer registers than names it
  writes out of bounds.\<close>

theorem pm_new_establishes_inv:
  "if n \<le> r
   then \<exists>m. pm_new n r = Inr m \<and> pm_inv m \<and> theFreeList m = [n..<r]
        \<and> (\<forall>a<n. pm_map m a = Inr a \<and> mapArchitectural m a = Inr a)
   else pm_new n r = Inl OutOfBounds"
proof (cases "n \<le> r")
  case True
  with pm_new_inv[OF True pm_new_eq[OF True]] pm_new_eq[OF True] show ?thesis
    by (simp add: pm_map_def mapArchitectural_def)
next
  case False
  then show ?thesis by (simp add: pm_new_def pm_reset_def)
qed

theorem pm_new_establishes_inv_witness:
  "(\<exists>m. pm_new 2 4 = Inr m \<and> pm_inv m \<and> theFreeList m = [2, 3]
        \<and> pm_map m 1 = Inr 1 \<and> mapArchitectural m 1 = Inr 1) \<and> pm_new 4 2 = Inl OutOfBounds"
  using pm_new_establishes_inv[of 2 4] pm_new_establishes_inv[of 4 2] by (fastforce simp: upt_rec)

subsection \<open>Creating a mapping\<close>

lemma pm_create_eq:
  assumes inv: "pm_inv m" and a: "a < theNameCount m" and f: "theFreeList m = p # ps"
  shows "pm_create a m = Inr ((p, theMappings m ! a),
          m\<lparr>theFreeList := ps,
            theMappings := (theMappings m)[a := p],
            theAssignedRegisters := (theAssignedRegisters m)[a := theAssignedRegisters m ! a @ [p]],
            theReverseMappings := (theReverseMappings m)[p := int a]\<rparr>)"
proof -
  have "p < theRegisterCount m" "theReverseMappings m ! p = -1"
    using pm_free_lt[OF inv, of p] pm_rev_free[OF inv, of p] f by auto
  with pm_lens[OF inv] a f show ?thesis by (simp add: pm_create_def)
qed

lemma pm_create_inv:
  assumes inv: "pm_inv m" and a: "a < theNameCount m"
    and run: "pm_create a m = Inr ((p, q), m')"
  shows "pm_inv m'"
proof -
  from run obtain ps where f: "theFreeList m = p # ps"
    by (cases "theFreeList m") (auto simp: pm_create_def res_splits)
  have p: "p < theRegisterCount m" using pm_free_lt[OF inv, of p] f by simp
  have m': "m' = m\<lparr>theFreeList := ps, theMappings := (theMappings m)[a := p],
      theAssignedRegisters := (theAssignedRegisters m)[a := theAssignedRegisters m ! a @ [p]],
      theReverseMappings := (theReverseMappings m)[p := int a]\<rparr>"
    using run pm_create_eq[OF inv a f] by simp
  have fresh: "p \<notin> set ps" "\<And>b. b < theNameCount m \<Longrightarrow> p \<notin> set (theAssignedRegisters m ! b)"
    using pm_place(1)[OF inv] pm_disjoint[OF inv] f by auto
  have place: "mset (ps @ concat ((theAssignedRegisters m)[a := theAssignedRegisters m ! a @ [p]]))
      = mset [0..<theRegisterCount m]"
    using pm_mset[OF inv] mset_concat_push[of a "theAssignedRegisters m" p] pm_lens(2)[OF inv] a f
    by simp
  have cur: "(theMappings m)[a := p] ! b
      \<in> set ((theAssignedRegisters m)[a := theAssignedRegisters m ! a @ [p]] ! b)"
    if "b < theNameCount m" for b
    using pm_cur[OF inv that] that a pm_lens[OF inv] by (cases "b = a") auto
  have rf: "(theReverseMappings m)[p := int a] ! r = -1" if "r \<in> set ps" for r
    using pm_rev_free[OF inv, of r] that f fresh(1) by (metis list.set_intros(2) nth_list_update_neq)
  have ra: "(theReverseMappings m)[p := int a] ! r = int b"
    if "b < theNameCount m" "r \<in> set ((theAssignedRegisters m)[a := theAssignedRegisters m ! a @ [p]] ! b)"
    for b r
  proof (cases "r = p")
    case True
    with that fresh(2)[of b] a pm_lens[OF inv] have "b = a" by (cases "b = a") auto
    with True p pm_lens[OF inv] show ?thesis by simp
  next
    case False
    with that a pm_lens(2)[OF inv] have "r \<in> set (theAssignedRegisters m ! b)"
      by (cases "b = a") auto
    with False pm_rev_assigned[OF inv that(1)] show ?thesis by (simp add: nth_list_update_neq)
  qed
  show ?thesis
    unfolding m' pm_inv_def using place cur rf ra pm_lens[OF inv] by simp
qed

text \<open>C12: Renaming a name while a physical register is free never trips an assertion: it takes
  the oldest free register, which no name holds, reports the previous mapping of the name,
  redirects only that name, keeps its architectural register, and keeps the invariant.\<close>

theorem pm_create_correct:
  assumes "pm_inv m" and "a < theNameCount m" and "theFreeList m \<noteq> []"
  shows "\<exists>m'. pm_create a m = Inr ((hd (theFreeList m), theMappings m ! a), m')
    \<and> pm_inv m'
    \<and> theFreeList m' = tl (theFreeList m)
    \<and> (\<forall>b < theNameCount m. hd (theFreeList m) \<notin> set (theAssignedRegisters m ! b))
    \<and> pm_map m' a = Inr (hd (theFreeList m))
    \<and> (\<forall>b < theNameCount m. b \<noteq> a \<longrightarrow> pm_map m' b = pm_map m b)
    \<and> (\<forall>b < theNameCount m. mapArchitectural m' b = mapArchitectural m b)"
proof -
  from assms(3) obtain p ps where f: "theFreeList m = p # ps" by (cases "theFreeList m") auto
  note eq = pm_create_eq[OF assms(1,2) f]
  have fresh: "p \<notin> set (theAssignedRegisters m ! b)" if "b < theNameCount m" for b
    using pm_disjoint[OF assms(1) that, of p] f by auto
  have ne: "theAssignedRegisters m ! b \<noteq> []" if "b < theNameCount m" for b
    using pm_cur[OF assms(1) that] by auto
  have arch: "front ((theAssignedRegisters m)[a := theAssignedRegisters m ! a @ [p]] ! b)
      = front (theAssignedRegisters m ! b)" if "b < theNameCount m" for b
    using ne[OF that] assms(2) that pm_lens[OF assms(1)]
    by (cases "b = a") (auto simp: front_def split: list.splits)
  show ?thesis
    using eq pm_create_inv[OF assms(1,2) eq] f fresh arch assms(2) pm_lens[OF assms(1)]
    by (simp add: pm_map_def mapArchitectural_def)
qed

theorem pm_create_correct_witness:
  "\<exists>m m'. pm_new 2 4 = Inr m \<and> pm_create 0 m = Inr ((2, 0), m') \<and> theFreeList m' = [3]"
proof -
  let ?m = "\<lparr>theNameCount = 2, theRegisterCount = 4, theMappings = [0, 1], theFreeList = [2, 3],
      theAssignedRegisters = [[0], [1]], theReverseMappings = [0, 1, -1, -1]\<rparr>"
  have new: "pm_new 2 4 = Inr ?m"
    by (simp add: pm_new_def pm_reset_def upt_rec numeral_eq_Suc)
  have "pm_inv ?m" by (simp add: pm_inv_def upt_rec All_less_Suc numeral_2_eq_2)
  from pm_create_correct[of ?m 0, OF this] new show ?thesis by auto
qed

subsection \<open>Freeing a register\<close>

lemma pm_free_eq:
  assumes inv: "pm_inv m" and a: "a < theNameCount m"
    and r: "r \<in> set (theAssignedRegisters m ! a)" and old: "theMappings m ! a \<noteq> r"
  shows "pm_free r m = Inr (m\<lparr>theFreeList := theFreeList m @ [r],
      theReverseMappings := (theReverseMappings m)[r := -1],
      theAssignedRegisters := (theAssignedRegisters m)[a := remove1 r (theAssignedRegisters m ! a)]\<rparr>)"
proof -
  from r have "theAssignedRegisters m ! a \<noteq> []" by auto
  with pm_lens[OF inv] pm_assigned_lt[OF inv a r] pm_rev_assigned[OF inv a r] a r old
  show ?thesis by (simp add: pm_free_def)
qed

lemma pm_free_refused:
  assumes inv: "pm_inv m" and r: "r < theRegisterCount m"
    and no: "r \<in> set (theFreeList m) \<or> (\<exists>a < theNameCount m. theMappings m ! a = r)"
  shows "pm_free r m = Inl AssertionFailed"
  using no
proof
  assume "r \<in> set (theFreeList m)"
  with pm_rev_free[OF inv] pm_lens(3)[OF inv] r show ?thesis by (simp add: pm_free_def)
next
  assume "\<exists>a < theNameCount m. theMappings m ! a = r"
  then obtain a where a: "a < theNameCount m" "theMappings m ! a = r" by blast
  with pm_cur[OF inv a(1)] pm_rev_assigned[OF inv a(1), of r]
  have "theReverseMappings m ! r = int a" by simp
  with a pm_lens[OF inv] r show ?thesis by (simp add: pm_free_def)
qed

lemma pm_free_inv:
  assumes inv: "pm_inv m" and a: "a < theNameCount m"
    and r: "r \<in> set (theAssignedRegisters m ! a)" and old: "theMappings m ! a \<noteq> r"
    and run: "pm_free r m = Inr m'"
  shows "pm_inv m'"
proof -
  let ?A = "(theAssignedRegisters m)[a := remove1 r (theAssignedRegisters m ! a)]"
  have m': "m' = m\<lparr>theFreeList := theFreeList m @ [r],
      theReverseMappings := (theReverseMappings m)[r := -1], theAssignedRegisters := ?A\<rparr>"
    using run pm_free_eq[OF inv a r old] by simp
  have place: "mset ((theFreeList m @ [r]) @ concat ?A) = mset [0..<theRegisterCount m]"
    using pm_mset[OF inv] mset_concat_remove[of a "theAssignedRegisters m" r] pm_lens(2)[OF inv] a r
    by simp
  have cur: "theMappings m ! b \<in> set (?A ! b)" if "b < theNameCount m" for b
    using pm_cur[OF inv that] that a old pm_lens(2)[OF inv] pm_assigned_distinct[OF inv a]
    by (cases "b = a") auto
  have rlt: "r < length (theReverseMappings m)"
    using pm_assigned_lt[OF inv a r] pm_lens(3)[OF inv] by simp
  have rf: "(theReverseMappings m)[r := -1] ! x = -1" if "x \<in> set (theFreeList m @ [r])" for x
    using that rlt pm_rev_free[OF inv, of x] by (cases "x = r") auto
  have ra: "(theReverseMappings m)[r := -1] ! x = int b"
    if b: "b < theNameCount m" and x: "x \<in> set (?A ! b)" for b x
  proof -
    have xb: "x \<in> set (theAssignedRegisters m ! b)"
      using x b a pm_lens(2)[OF inv] by (cases "b = a") (auto dest: subsetD[OF set_remove1_subset])
    have "x \<noteq> r"
    proof
      assume "x = r"
      with pm_owner_unique[OF inv b a xb] r have "b = a" by simp
      with x \<open>x = r\<close> a pm_lens(2)[OF inv] pm_assigned_distinct[OF inv a] show False by simp
    qed
    with pm_rev_assigned[OF inv b xb] show ?thesis by simp
  qed
  show ?thesis
    unfolding m' pm_inv_def using place cur rf ra pm_lens[OF inv] by simp
qed

text \<open>C31: Freeing succeeds exactly for a register that is an outdated version of some name: a
  register already free, or one that is still the current mapping of a name, trips an assertion.
  A successful free appends the register to the free list, removes it from the versions of its
  name only, leaves every current mapping alone and keeps the invariant; freeing it again fails.\<close>

theorem pm_free_correct:
  assumes inv: "pm_inv m" and r: "r < theRegisterCount m"
  shows "pm_free r m =
     (case find (\<lambda>a. r \<in> set (theAssignedRegisters m ! a)) [0..<theNameCount m] of
        None \<Rightarrow> Inl AssertionFailed
      | Some a \<Rightarrow>
          if theMappings m ! a = r then Inl AssertionFailed
          else Inr (m\<lparr>theFreeList := theFreeList m @ [r],
                     theReverseMappings := (theReverseMappings m)[r := -1],
                     theAssignedRegisters :=
                       (theAssignedRegisters m)[a := remove1 r (theAssignedRegisters m ! a)]\<rparr>))
   \<and> (\<forall>m'. pm_free r m = Inr m' \<longrightarrow> pm_inv m' \<and> pm_free r m' = Inl AssertionFailed)"
proof (cases "find (\<lambda>a. r \<in> set (theAssignedRegisters m ! a)) [0..<theNameCount m]")
  case None
  then have "\<forall>a < theNameCount m. r \<notin> set (theAssignedRegisters m ! a)"
    by (auto simp: find_None_iff)
  with pm_reverse_cases[OF inv r] have "r \<in> set (theFreeList m)" by blast
  with pm_free_refused[OF inv r] None show ?thesis by simp
next
  case (Some a)
  then have a: "a < theNameCount m" "r \<in> set (theAssignedRegisters m ! a)"
    by (auto simp: find_Some_iff)
  show ?thesis
  proof (cases "theMappings m ! a = r")
    case True
    with pm_free_refused[OF inv r] a have "pm_free r m = Inl AssertionFailed" by blast
    with Some True show ?thesis by simp
  next
    case False
    note eq = pm_free_eq[OF inv a False]
    from pm_free_inv[OF inv a False eq] have "pm_inv (projr (pm_free r m))" using eq by simp
    moreover have "pm_free r (projr (pm_free r m)) = Inl AssertionFailed"
      by (rule pm_free_refused) (use calculation r eq in simp_all)
    ultimately show ?thesis using eq Some False by simp
  qed
qed

theorem pm_free_correct_witness:
  "\<exists>m m'. pm_create 0 \<lparr>theNameCount = 2, theRegisterCount = 4, theMappings = [0, 1],
        theFreeList = [2, 3], theAssignedRegisters = [[0], [1]],
        theReverseMappings = [0, 1, -1, -1]\<rparr> = Inr ((2, 0), m)
     \<and> pm_free 0 m = Inr m' \<and> theFreeList m' = [3, 0] \<and> pm_free 0 m' = Inl AssertionFailed
     \<and> pm_free 2 m = Inl AssertionFailed"
proof -
  let ?m = "\<lparr>theNameCount = 2, theRegisterCount = 4, theMappings = [2, 1],
        theFreeList = [3], theAssignedRegisters = [[0, 2], [1]],
        theReverseMappings = [0, 1, 0, -1]\<rparr>"
  have inv: "pm_inv ?m" by (simp add: pm_inv_def upt_rec All_less_Suc numeral_2_eq_2 add_mset_commute)
  have "pm_create 0 \<lparr>theNameCount = 2, theRegisterCount = 4, theMappings = [0, 1],
        theFreeList = [2, 3], theAssignedRegisters = [[0], [1]],
        theReverseMappings = [0, 1, -1, -1]\<rparr> = Inr ((2, 0), ?m)"
    by (simp add: pm_create_def)
  moreover have f0: "pm_free 0 ?m = Inr (?m\<lparr>theFreeList := [3, 0],
      theReverseMappings := [-1, 1, 0, -1], theAssignedRegisters := [[2], [1]]\<rparr>)"
    using pm_free_correct[OF inv, of 0] by (simp add: upt_rec)
  moreover have "pm_free 0 (?m\<lparr>theFreeList := [3, 0],
      theReverseMappings := [-1, 1, 0, -1], theAssignedRegisters := [[2], [1]]\<rparr>) = Inl AssertionFailed"
    using pm_free_correct[OF inv, of 0, THEN conjunct2] f0 by simp
  moreover have "pm_free 2 ?m = Inl AssertionFailed"
    using pm_free_correct[OF inv, of 2] by (simp add: upt_rec)
  ultimately show ?thesis by (intro exI conjI) simp_all
qed

subsection \<open>Undoing a rename\<close>

lemma pm_restore_inv:
  assumes inv: "pm_inv m" and a: "a < theNameCount m" and r: "r \<in> set (theAssignedRegisters m ! a)"
  shows "pm_restore a r m = Inr (m\<lparr>theMappings := (theMappings m)[a := r]\<rparr>)
    \<and> pm_inv (m\<lparr>theMappings := (theMappings m)[a := r]\<rparr>)"
proof -
  have "(theMappings m)[a := r] ! b \<in> set (theAssignedRegisters m ! b)" if "b < theNameCount m" for b
    using pm_cur[OF inv that] r that a pm_lens(1)[OF inv] by (cases "b = a") auto
  then show ?thesis
    using inv pm_lens[OF inv] a by (simp add: pm_restore_def pm_inv_def)
qed

text \<open>The squash of a rename: \<^verbatim>\<open>restore\<close> the previous mapping, then \<^verbatim>\<open>free\<close> the new register.\<close>

definition pm_undo :: "regName \<Rightarrow> pRegister \<times> pRegister \<Rightarrow> PhysicalMap \<Rightarrow> PhysicalMap res" where
  "pm_undo a np m = bindE (pm_restore a (snd np) m) (pm_free (fst np))"

text \<open>Undoing a rename right after it restores every current mapping, every version list and
  the whole reverse table; only the order of the free list changes (the register returns at its
  end), so no register is lost by a squash.\<close>

theorem pm_create_undo_roundtrip:
  assumes inv: "pm_inv m" and a: "a < theNameCount m" and f: "theFreeList m \<noteq> []"
  shows "bindE (pm_create a m) (\<lambda>(np, m'). pm_undo a np m')
       = Inr (m\<lparr>theFreeList := tl (theFreeList m) @ [hd (theFreeList m)]\<rparr>)"
proof -
  from f obtain p ps where f: "theFreeList m = p # ps" by (cases "theFreeList m") auto
  let ?q = "theMappings m ! a"
  let ?A = "(theAssignedRegisters m)[a := theAssignedRegisters m ! a @ [p]]"
  let ?m1 = "m\<lparr>theFreeList := ps, theMappings := (theMappings m)[a := p],
      theAssignedRegisters := ?A, theReverseMappings := (theReverseMappings m)[p := int a]\<rparr>"
  let ?m2 = "?m1\<lparr>theMappings := (theMappings ?m1)[a := ?q]\<rparr>"
  note eq = pm_create_eq[OF inv a f]
  have inv1: "pm_inv ?m1" using pm_create_inv[OF inv a eq] .
  have "?q \<in> set (theAssignedRegisters ?m1 ! a)"
    using pm_cur[OF inv a] a pm_lens(2)[OF inv] by simp
  from pm_restore_inv[OF inv1 _ this] a
  have res: "pm_restore a ?q ?m1 = Inr ?m2" and inv2: "pm_inv ?m2" by simp_all
  have pA: "p \<in> set (theAssignedRegisters ?m2 ! a)" using a pm_lens(2)[OF inv] by simp
  have fresh: "p \<notin> set (theAssignedRegisters m ! a)"
    using pm_disjoint[OF inv a, of p] f by auto
  then have pq: "theMappings ?m2 ! a \<noteq> p"
    using pm_cur[OF inv a] a pm_lens(1)[OF inv] by auto
  have rev: "(theReverseMappings m)[p := -1] = theReverseMappings m"
    using pm_rev_free[OF inv, of p] f by (metis list.set_intros(1) list_update_id)
  have rm: "remove1 p (theAssignedRegisters m ! a @ [p]) = theAssignedRegisters m ! a"
    using fresh by (simp add: remove1_append)
  have ms: "(theMappings m)[a := ?q] = theMappings m" by simp
  have aA: "(theAssignedRegisters m)[a := theAssignedRegisters m ! a] = theAssignedRegisters m" by simp
  have "pm_free p ?m2 = Inr (m\<lparr>theFreeList := ps @ [p]\<rparr>)"
    using pm_free_eq[OF inv2 _ pA pq] a pm_lens(2)[OF inv] rev rm by simp
  then show ?thesis using eq res f by (simp add: pm_undo_def)
qed

theorem pm_create_undo_roundtrip_witness:
  "bindE (pm_create 1 \<lparr>theNameCount = 2, theRegisterCount = 4, theMappings = [0, 1],
        theFreeList = [2, 3], theAssignedRegisters = [[0], [1]],
        theReverseMappings = [0, 1, -1, -1]\<rparr>) (\<lambda>(np, m'). pm_undo 1 np m')
   = Inr \<lparr>theNameCount = 2, theRegisterCount = 4, theMappings = [0, 1],
        theFreeList = [3, 2], theAssignedRegisters = [[0], [1]],
        theReverseMappings = [0, 1, -1, -1]\<rparr>"
proof -
  let ?m = "\<lparr>theNameCount = 2, theRegisterCount = 4, theMappings = [0, 1], theFreeList = [2, 3],
      theAssignedRegisters = [[0], [1]], theReverseMappings = [0, 1, -1, -1]\<rparr>"
  have "pm_inv ?m" by (simp add: pm_inv_def upt_rec All_less_Suc numeral_2_eq_2)
  from pm_create_undo_roundtrip[of ?m 1, OF this] show ?thesis by simp
qed

subsection \<open>The run-time check\<close>

lemma count_into_count:
  "set xs \<subseteq> {..<length cs} \<Longrightarrow>
   \<exists>cs'. count_into cs xs = Inr cs' \<and> length cs' = length cs \<and>
     (\<forall>i < length cs. cs' ! i = cs ! i + count (mset xs) i)"
proof (induction xs arbitrary: cs)
  case Nil
  then show ?case by simp
next
  case (Cons x xs)
  then obtain cs' where cs': "count_into (cs[x := cs ! x + 1]) xs = Inr cs'" "length cs' = length cs"
    "\<forall>i < length cs. cs' ! i = cs[x := cs ! x + 1] ! i + count (mset xs) i"
    using Cons.IH[of "cs[x := cs ! x + 1]"] by auto
  with Cons.prems show ?case by (auto simp: nth_list_update)
qed

text \<open>The run-time check \<^verbatim>\<open>checkInvariants\<close> accepts every map that satisfies the
  invariant: no register is both free and mapped, and no register is mapped by two names.\<close>

theorem checkInvariants_holds:
  assumes "pm_inv m"
  shows "checkInvariants m = Inr True"
proof -
  let ?n = "theRegisterCount m"
  have ms: "set (theMappings m) \<subseteq> {..<?n}"
    using pm_cur[OF assms] pm_assigned_lt[OF assms] pm_lens(1)[OF assms]
    by (auto simp: in_set_conv_nth)
  have fs: "set (theFreeList m) \<subseteq> {..<?n}" using pm_free_lt[OF assms] by auto
  obtain cs where cs: "count_into (replicate ?n 0) (theMappings m) = Inr cs" "length cs = ?n"
    "\<forall>i < ?n. cs ! i = count (mset (theMappings m)) i"
    using count_into_count[of "theMappings m" "replicate ?n 0"] ms by auto
  obtain cs' where cs': "count_into cs (theFreeList m) = Inr cs'" "length cs' = ?n"
    "\<forall>i < ?n. cs' ! i = cs ! i + count (mset (theFreeList m)) i"
    using count_into_count[of "theFreeList m" cs] fs cs(2) by auto
  have dm: "distinct (theMappings m)"
    unfolding distinct_conv_nth
    using pm_cur[OF assms] pm_owner_unique[OF assms] pm_lens(1)[OF assms] by metis
  have df: "distinct (theFreeList m)" using pm_place(1)[OF assms] by simp
  have "set (theMappings m) \<inter> set (theFreeList m) = {}"
    using pm_cur[OF assms] pm_disjoint[OF assms] pm_lens(1)[OF assms]
    by (auto simp: in_set_conv_nth)
  then have "\<forall>i. count (mset (theMappings m)) i + count (mset (theFreeList m)) i \<le> 1"
    using dm df by (auto simp: distinct_count_atmost_1 disjoint_iff not_in_iff)
  then have "\<forall>i < ?n. cs' ! i \<le> 1" using cs(3) cs'(3) by simp
  then have "\<not> (\<exists>c \<in> set cs'. c > 1)" using cs'(2) by (metis in_set_conv_nth not_less)
  with cs cs' show ?thesis by (simp add: checkInvariants_def)
qed

theorem checkInvariants_holds_witness:
  "checkInvariants \<lparr>theNameCount = 2, theRegisterCount = 4, theMappings = [2, 1],
        theFreeList = [3], theAssignedRegisters = [[0, 2], [1]],
        theReverseMappings = [0, 1, 0, -1]\<rparr> = Inr True"
  by (rule checkInvariants_holds)
    (simp add: pm_inv_def upt_rec All_less_Suc numeral_2_eq_2 add_mset_commute)

section \<open>Bursts of renames and their rollback\<close>

text \<open>
  Dispatch renames the destinations of a run of instructions one after the other, and a squash
  undoes them from the youngest to the oldest. Both are clients of the rename table: the burst
  below is written over any table with a \<^verbatim>\<open>create\<close> operation, and what it relies on is the
  contract \<open>rename_table\<close>.
\<close>

fun rename_run ::
  "(regName \<Rightarrow> 'm \<Rightarrow> ((pRegister \<times> pRegister) \<times> 'm) res) \<Rightarrow> regName list \<Rightarrow> 'm \<Rightarrow>
   ((regName \<times> pRegister \<times> pRegister) list \<times> 'm) res" where
  "rename_run cr [] m = Inr ([], m)"
| "rename_run cr (a # as) m =
     bindE (cr a m) (\<lambda>(np, m1). bindE (rename_run cr as m1) (\<lambda>(log, m2). Inr ((a, np) # log, m2)))"

fun rollback_run :: "(regName \<times> pRegister \<times> pRegister) list \<Rightarrow> PhysicalMap \<Rightarrow> PhysicalMap res" where
  "rollback_run [] m = Inr m"
| "rollback_run ((a, np) # log) m = bindE (rollback_run log m) (pm_undo a np)"

locale rename_table =
  fixes inv :: "'m \<Rightarrow> bool"
    and names :: "'m \<Rightarrow> nat"
    and avail :: "'m \<Rightarrow> pRegister list"
    and current :: "'m \<Rightarrow> regName \<Rightarrow> pRegister"
    and cr :: "regName \<Rightarrow> 'm \<Rightarrow> ((pRegister \<times> pRegister) \<times> 'm) res"
  assumes avail_distinct: "inv m \<Longrightarrow> distinct (avail m)"
    and avail_unmapped: "inv m \<Longrightarrow> a < names m \<Longrightarrow> current m a \<notin> set (avail m)"
    and create_ok: "inv m \<Longrightarrow> a < names m \<Longrightarrow> avail m = p # ps \<Longrightarrow>
      \<exists>m'. cr a m = Inr ((p, current m a), m') \<and> inv m' \<and> names m' = names m \<and> avail m' = ps \<and>
           (\<forall>b < names m. current m' b = (if b = a then p else current m b))"
begin

lemma burst_ok:
  assumes "inv m" "set as \<subseteq> {..<names m}" "length as \<le> length (avail m)"
  shows "\<exists>log m'. rename_run cr as m = Inr (log, m') \<and> inv m' \<and> names m' = names m
    \<and> map (fst \<circ> snd) log = take (length as) (avail m) \<and> map fst log = as
    \<and> avail m' = drop (length as) (avail m)
    \<and> (\<forall>b < names m. b \<notin> set as \<longrightarrow> current m' b = current m b)"
  using assms
proof (induction as arbitrary: m)
  case Nil
  then show ?case by simp
next
  case (Cons a as)
  then obtain p ps where f: "avail m = p # ps" by (cases "avail m") auto
  from create_ok[OF Cons.prems(1) _ f, of a] Cons.prems(2) obtain m1 where
    m1: "cr a m = Inr ((p, current m a), m1)" "inv m1" "names m1 = names m" "avail m1 = ps"
      "\<forall>b < names m. current m1 b = (if b = a then p else current m b)"
    by auto
  have pre: "set as \<subseteq> {..<names m1}" "length as \<le> length (avail m1)"
    using Cons.prems(2,3) m1(3,4) f by simp_all
  from Cons.IH[OF m1(2) pre, unfolded m1(3,4)] obtain log m2 where
    r: "rename_run cr as m1 = Inr (log, m2)" "inv m2" "names m2 = names m"
    "map (fst \<circ> snd) log = take (length as) ps" "map fst log = as"
    "avail m2 = drop (length as) ps"
    "\<forall>b < names m. b \<notin> set as \<longrightarrow> current m2 b = current m1 b"
    by blast
  have "rename_run cr (a # as) m = Inr ((a, p, current m a) # log, m2)"
    using m1(1) r(1) by simp
  moreover have "current m2 b = current m b" if "b < names m" "b \<notin> set (a # as)" for b
    using that r(7) m1(5) by simp
  ultimately show ?case
    using r(2-6) f by (intro exI[of _ "(a, p, current m a) # log"] exI[of _ m2] conjI)
      (simp_all add: comp_def)
qed

lemma burst_distinct:
  assumes "inv m" "set as \<subseteq> {..<names m}" "length as \<le> length (avail m)"
  shows "\<exists>log m'. rename_run cr as m = Inr (log, m') \<and> distinct (map (fst \<circ> snd) log)
    \<and> (\<forall>a < names m. current m a \<notin> set (map (fst \<circ> snd) log))"
proof -
  from burst_ok[OF assms] obtain log m' where r: "rename_run cr as m = Inr (log, m')"
    "map (fst \<circ> snd) log = take (length as) (avail m)" by blast
  have "current m a \<notin> set (take (length as) (avail m))" if "a < names m" for a
    using avail_unmapped[OF assms(1) that] by (meson in_set_takeD)
  with r avail_distinct[OF assms(1)] show ?thesis
    by (intro exI[of _ log] exI[of _ m'] conjI) (simp_all only: r(2) distinct_take, blast)
qed

end

interpretation pm: rename_table pm_inv theNameCount theFreeList "\<lambda>m a. theMappings m ! a" pm_create
proof
  show "distinct (theFreeList m)" if "pm_inv m" for m
    using pm_place(1)[OF that] by simp
  show "theMappings m ! a \<notin> set (theFreeList m)" if "pm_inv m" "a < theNameCount m" for m a
    using pm_disjoint[OF that pm_cur[OF that]] .
  show "\<exists>m'. pm_create a m = Inr ((p, theMappings m ! a), m') \<and> pm_inv m' \<and>
      theNameCount m' = theNameCount m \<and> theFreeList m' = ps \<and>
      (\<forall>b < theNameCount m. theMappings m' ! b = (if b = a then p else theMappings m ! b))"
    if "pm_inv m" "a < theNameCount m" "theFreeList m = p # ps" for m a p ps
    using pm_create_eq[OF that] pm_create_inv[OF that(1,2) pm_create_eq[OF that]] that(2)
      pm_lens(1)[OF that(1)] by auto
qed

text \<open>A burst of renames no longer than the free list always succeeds, and the physical
  registers it hands out are pairwise different and different from every register that was
  mapped before the burst.\<close>

theorem pm_burst_distinct:
  assumes "pm_inv m" "set as \<subseteq> {..<theNameCount m}" "length as \<le> length (theFreeList m)"
  shows "\<exists>log m'. rename_run pm_create as m = Inr (log, m') \<and> distinct (map (fst \<circ> snd) log)
    \<and> (\<forall>a < theNameCount m. theMappings m ! a \<notin> set (map (fst \<circ> snd) log))"
  using assms by (rule pm.burst_distinct)

theorem pm_burst_distinct_witness:
  "\<exists>log m'. rename_run pm_create [1, 1] \<lparr>theNameCount = 2, theRegisterCount = 4,
        theMappings = [0, 1], theFreeList = [2, 3], theAssignedRegisters = [[0], [1]],
        theReverseMappings = [0, 1, -1, -1]\<rparr> = Inr (log, m') \<and> distinct (map (fst \<circ> snd) log)"
proof -
  let ?m = "\<lparr>theNameCount = 2, theRegisterCount = 4, theMappings = [0, 1], theFreeList = [2, 3],
      theAssignedRegisters = [[0], [1]], theReverseMappings = [0, 1, -1, -1]\<rparr>"
  have "pm_inv ?m" by (simp add: pm_inv_def upt_rec All_less_Suc numeral_2_eq_2)
  from pm_burst_distinct[of ?m "[1, 1]", OF this] show ?thesis by auto
qed

lemma pm_undo_any_free:
  assumes inv: "pm_inv m" and a: "a < theNameCount m" and f: "theFreeList m = p # ps"
    and run: "pm_create a m = Inr ((p, q), m1)"
  shows "pm_undo a (p, q) (m1\<lparr>theFreeList := fs\<rparr>) = Inr (m\<lparr>theFreeList := fs @ [p]\<rparr>)"
proof -
  have q: "q = theMappings m ! a" and m1: "m1 = m\<lparr>theFreeList := ps,
      theMappings := (theMappings m)[a := p],
      theAssignedRegisters := (theAssignedRegisters m)[a := theAssignedRegisters m ! a @ [p]],
      theReverseMappings := (theReverseMappings m)[p := int a]\<rparr>"
    using run pm_create_eq[OF inv a f] by simp_all
  have fresh: "p \<notin> set (theAssignedRegisters m ! a)" using pm_disjoint[OF inv a, of p] f by auto
  then have pq: "q \<noteq> p" using pm_cur[OF inv a] q by auto
  have "p < theRegisterCount m" using pm_free_lt[OF inv, of p] f by simp
  moreover have "(theReverseMappings m)[p := -1] = theReverseMappings m"
    using pm_rev_free[OF inv, of p] f by (metis list.set_intros(1) list_update_id)
  moreover have "remove1 p (theAssignedRegisters m ! a @ [p]) = theAssignedRegisters m ! a"
    using fresh by (simp add: remove1_append)
  ultimately show ?thesis
    unfolding m1 using a q pq pm_lens[OF inv]
    by (simp add: pm_undo_def pm_restore_def pm_free_def)
qed

lemma pm_rollback_any_free:
  assumes "pm_inv m" "set as \<subseteq> {..<theNameCount m}" "length as \<le> length (theFreeList m)"
    and "rename_run pm_create as m = Inr (log, m')"
  shows "rollback_run log (m'\<lparr>theFreeList := fs\<rparr>)
       = Inr (m\<lparr>theFreeList := fs @ rev (take (length as) (theFreeList m))\<rparr>)"
  using assms
proof (induction as arbitrary: m log m')
  case Nil
  then show ?case by simp
next
  case (Cons a as)
  then obtain p ps where f: "theFreeList m = p # ps" by (cases "theFreeList m") auto
  have a: "a < theNameCount m" using Cons.prems(2) by simp
  from Cons.prems(4) obtain np m1 log1 where
    run: "pm_create a m = Inr (np, m1)" "rename_run pm_create as m1 = Inr (log1, m')"
      "log = (a, np) # log1"
    by (auto simp: res_splits)
  obtain q where np: "np = (p, q)" and fr: "theFreeList m1 = ps" "theNameCount m1 = theNameCount m"
    using run(1) pm_create_eq[OF Cons.prems(1) a f] by auto
  have inv1: "pm_inv m1" using pm_create_inv[OF Cons.prems(1) a] run(1) np by blast
  have "rollback_run log1 (m'\<lparr>theFreeList := fs\<rparr>)
      = Inr (m1\<lparr>theFreeList := fs @ rev (take (length as) ps)\<rparr>)"
    using Cons.IH[OF inv1 _ _ run(2)] Cons.prems(2,3) fr f by auto
  then show ?case
    using pm_undo_any_free[OF Cons.prems(1) a f] run(1) np run(3) f by simp
qed

text \<open>Rolling back a whole burst of renames, youngest first, restores the current mapping,
  the version lists and the reverse table of the state before the burst exactly; the free list
  holds the same registers again. This is the precise recovery a squash relies on.\<close>

theorem pm_rollback_restores:
  assumes "pm_inv m" "set as \<subseteq> {..<theNameCount m}" "length as \<le> length (theFreeList m)"
  shows "bindE (rename_run pm_create as m) (\<lambda>(log, m'). rollback_run log m')
     = Inr (m\<lparr>theFreeList := drop (length as) (theFreeList m)
                              @ rev (take (length as) (theFreeList m))\<rparr>)"
proof -
  from pm.burst_ok[OF assms] obtain log m' where
    run: "rename_run pm_create as m = Inr (log, m')"
      "theFreeList m' = drop (length as) (theFreeList m)"
    by blast
  have self: "m'\<lparr>theFreeList := theFreeList m'\<rparr> = m'" by simp
  show ?thesis
    using pm_rollback_any_free[OF assms run(1), of "theFreeList m'", unfolded self]
    by (simp add: run)
qed

theorem pm_rollback_restores_witness:
  "bindE (rename_run pm_create [1, 1, 0] \<lparr>theNameCount = 2, theRegisterCount = 6,
        theMappings = [0, 1], theFreeList = [2, 3, 4, 5], theAssignedRegisters = [[0], [1]],
        theReverseMappings = [0, 1, -1, -1, -1, -1]\<rparr>) (\<lambda>(log, m'). rollback_run log m')
   = Inr \<lparr>theNameCount = 2, theRegisterCount = 6, theMappings = [0, 1],
        theFreeList = [5, 4, 3, 2], theAssignedRegisters = [[0], [1]],
        theReverseMappings = [0, 1, -1, -1, -1, -1]\<rparr>"
proof -
  let ?m = "\<lparr>theNameCount = 2, theRegisterCount = 6, theMappings = [0, 1],
      theFreeList = [2, 3, 4, 5], theAssignedRegisters = [[0], [1]],
      theReverseMappings = [0, 1, -1, -1, -1, -1]\<rparr>"
  have "pm_inv ?m" by code_simp
  from pm_rollback_restores[of ?m "[1, 1, 0]", OF this] show ?thesis by simp
qed

section \<open>Register windows on ARM\<close>

text \<open>With the ARM register constants the window map never rotates: while no alternate global
  set is selected, every register name is its own architectural number, whatever the window
  pointer holds (the windowed branch of the code is unreachable).\<close>

theorem rotate_identity_on_ARM:
  assumes "\<not> theAG w" "\<not> theMG w" "\<not> theIG w"
  shows "rwm_rotate w r = r"
proof -
  have "kFirstSpecialReg = kGlobalRegCount" by (simp add: reg_consts)
  with assms show ?thesis by (auto simp: rwm_rotate_def Let_def not_le)
qed

theorem rotate_identity_on_ARM_witness:
  "rwm_rotate \<lparr>theCWP = 5, theAG = False, theIG = False, theMG = False\<rparr>
     \<lparr>theType = xRegisters, theIndex = 31\<rparr> = \<lparr>theType = xRegisters, theIndex = 31\<rparr>"
  by (rule rotate_identity_on_ARM) simp_all

end
