(* ===== verification/CoreRegisters.thy ===== *)
theory CoreRegisters
  imports MapTable
begin

text \<open>
  The register file, the bypass network and the register operations of the core:
  \<^verbatim>\<open>components/uArchARM/RegisterFile.hpp\<close>, \<^verbatim>\<open>BypassNetwork.hpp\<close> and the register part of
  \<^verbatim>\<open>CoreModel/registers.cpp\<close> (with \<^verbatim>\<open>resetARM\<close>'s reset of them).

  The vectors of vectors indexed by \<open>eRegisterType\<close> are functions from the register type to a
  list. A dependance stands for \<^verbatim>\<open>InstructionDependance\<close>: whether its instruction is complete
  is a parameter of the operations that ask, and the call-backs an operation makes
  (\<^verbatim>\<open>satisfy\<close>, \<^verbatim>\<open>squash\<close>, the bypass functions) are returned as the list of the dependances or
  handles called, in the order of the calls.
\<close>

section \<open>The register file\<close>

datatype eResourceStatus = kReady | kUnmapped | kNotReady

datatype register_value = RV_int64 "64 word" | RV_uint64 "64 word" | RV_bits "128 word"

definition get_uint64 :: "register_value \<Rightarrow> 64 word res" where
  "get_uint64 v = (case v of RV_uint64 w \<Rightarrow> Inr w | _ \<Rightarrow> Inl BadGet)"

type_synonym mapped_reg = "eRegisterType \<times> nat"

record 'd RegisterFile =
  theDependances :: "eRegisterType \<Rightarrow> 'd list list"
  theStatus :: "eRegisterType \<Rightarrow> eResourceStatus list"
  theRegs :: "eRegisterType \<Rightarrow> register_value list"
  theCollectCounts :: "eRegisterType \<Rightarrow> int list"

abbreviation row_set :: "(eRegisterType \<Rightarrow> 'a list) \<Rightarrow> mapped_reg \<Rightarrow> 'a \<Rightarrow> eRegisterType \<Rightarrow> 'a list" where
  "row_set f r v \<equiv> f(fst r := (f (fst r))[snd r := v])"

abbreviation row_at :: "(eRegisterType \<Rightarrow> 'a list) \<Rightarrow> mapped_reg \<Rightarrow> 'a" where
  "row_at f r \<equiv> f (fst r) ! snd r"

text \<open>All four tables have the same shape, so one range check stands for the access.\<close>

definition in_file :: "'d RegisterFile \<Rightarrow> mapped_reg \<Rightarrow> unit res" where
  "in_file rf r =
     (if snd r < length (theStatus rf (fst r)) \<and> snd r < length (theRegs rf (fst r))
         \<and> snd r < length (theDependances rf (fst r)) \<and> snd r < length (theCollectCounts rf (fst r))
      then Inr () else Inl OutOfBounds)"

definition rf_reset :: "'d RegisterFile \<Rightarrow> 'd RegisterFile" where
  "rf_reset rf = rf\<lparr>theDependances := (\<lambda>t. map (\<lambda>_. []) (theDependances rf t)),
                     theStatus := (\<lambda>t. map (\<lambda>_. kUnmapped) (theStatus rf t)),
                     theRegs := (\<lambda>t. map (\<lambda>_. RV_uint64 0) (theRegs rf t))\<rparr>"

definition rf_initialize :: "(eRegisterType \<Rightarrow> nat) \<Rightarrow> 'd RegisterFile" where
  "rf_initialize aSizes =
     rf_reset \<lparr>theDependances = (\<lambda>t. replicate (aSizes t) []),
               theStatus = (\<lambda>t. replicate (aSizes t) kReady),
               theRegs = (\<lambda>t. replicate (aSizes t) (RV_int64 0)),
               theCollectCounts = (\<lambda>t. replicate (aSizes t) 10)\<rparr>"

definition rf_collectAll :: "('d \<Rightarrow> bool) \<Rightarrow> 'd RegisterFile \<Rightarrow> 'd RegisterFile" where
  "rf_collectAll isComplete rf =
     rf\<lparr>theCollectCounts := (\<lambda>t. map (\<lambda>_. 10) (theCollectCounts rf t)),
        theDependances := (\<lambda>t. map (filter (\<lambda>d. \<not> isComplete d)) (theDependances rf t))\<rparr>"

definition rf_collect :: "('d \<Rightarrow> bool) \<Rightarrow> mapped_reg \<Rightarrow> 'd RegisterFile \<Rightarrow> 'd RegisterFile res" where
  "rf_collect isComplete r rf =
     bindE (in_file rf r) (\<lambda>_.
     let c = row_at (theCollectCounts rf) r - 1 in
     if c \<le> 0
     then Inr (rf\<lparr>theCollectCounts := row_set (theCollectCounts rf) r 10,
                  theDependances := row_set (theDependances rf) r
                    (filter (\<lambda>d. \<not> isComplete d) (row_at (theDependances rf) r))\<rparr>)
     else Inr (rf\<lparr>theCollectCounts := row_set (theCollectCounts rf) r c\<rparr>))"

definition rf_map :: "mapped_reg \<Rightarrow> 'd RegisterFile \<Rightarrow> 'd RegisterFile res" where
  "rf_map r rf =
     bindE (in_file rf r) (\<lambda>_.
     bindE (dbg_assert (row_at (theDependances rf) r = [])) (\<lambda>_.
     Inr (rf\<lparr>theStatus := row_set (theStatus rf) r kNotReady\<rparr>)))"

definition rf_squash :: "mapped_reg \<Rightarrow> 'd RegisterFile \<Rightarrow> ('d list \<times> 'd RegisterFile) res" where
  "rf_squash r rf =
     bindE (in_file rf r) (\<lambda>_.
     Inr (row_at (theDependances rf) r,
          if row_at (theStatus rf) r \<noteq> kUnmapped
          then rf\<lparr>theStatus := row_set (theStatus rf) r kNotReady\<rparr> else rf))"

definition rf_unmap :: "mapped_reg \<Rightarrow> 'd RegisterFile \<Rightarrow> 'd RegisterFile res" where
  "rf_unmap r rf =
     bindE (in_file rf r) (\<lambda>_.
     Inr (rf\<lparr>theStatus := row_set (theStatus rf) r kUnmapped,
            theDependances := row_set (theDependances rf) r []\<rparr>))"

definition rf_status :: "'d RegisterFile \<Rightarrow> mapped_reg \<Rightarrow> eResourceStatus res" where
  "rf_status rf r = bindE (in_file rf r) (\<lambda>_. Inr (row_at (theStatus rf) r))"

definition rf_setStatus :: "mapped_reg \<Rightarrow> eResourceStatus \<Rightarrow> 'd RegisterFile \<Rightarrow> 'd RegisterFile res" where
  "rf_setStatus r s rf =
     bindE (in_file rf r) (\<lambda>_. Inr (rf\<lparr>theStatus := row_set (theStatus rf) r s\<rparr>))"

definition rf_request ::
  "('d \<Rightarrow> bool) \<Rightarrow> mapped_reg \<Rightarrow> 'd \<Rightarrow> 'd RegisterFile \<Rightarrow> (eResourceStatus \<times> 'd RegisterFile) res" where
  "rf_request isComplete r d rf =
     bindE (rf_collect isComplete r rf) (\<lambda>rf.
     Inr (row_at (theStatus rf) r,
          rf\<lparr>theDependances := row_set (theDependances rf) r (row_at (theDependances rf) r @ [d])\<rparr>))"

definition rf_peek :: "'d RegisterFile \<Rightarrow> mapped_reg \<Rightarrow> register_value res" where
  "rf_peek rf r = bindE (in_file rf r) (\<lambda>_. Inr (row_at (theRegs rf) r))"

text \<open>
  With \<^verbatim>\<open>isW\<close> the code first computes the upper half of the old value and then overwrites the
  variable with the lower half of the new one, so the old value only matters for its type.
\<close>

definition rf_poke :: "mapped_reg \<Rightarrow> register_value \<Rightarrow> bool \<Rightarrow> 'd RegisterFile \<Rightarrow> 'd RegisterFile res" where
  "rf_poke r v isW rf =
     bindE (in_file rf r) (\<lambda>_.
     if isW then
       bindE (get_uint64 (row_at (theRegs rf) r)) (\<lambda>old.
       bindE (get_uint64 v) (\<lambda>new.
       Inr (rf\<lparr>theRegs := row_set (theRegs rf) r (RV_uint64 (and new 0xffffffff))\<rparr>)))
     else Inr (rf\<lparr>theRegs := row_set (theRegs rf) r v\<rparr>))"

definition rf_read :: "'d RegisterFile \<Rightarrow> mapped_reg \<Rightarrow> register_value res" where
  "rf_read rf r =
     bindE (rf_status rf r) (\<lambda>s. bindE (dbg_assert (s = kReady)) (\<lambda>_. rf_peek rf r))"

definition rf_write ::
  "('d \<Rightarrow> bool) \<Rightarrow> mapped_reg \<Rightarrow> register_value \<Rightarrow> bool \<Rightarrow> 'd RegisterFile \<Rightarrow>
   ('d list \<times> 'd RegisterFile) res" where
  "rf_write isComplete r v isW rf =
     bindE (rf_poke r v isW rf) (\<lambda>rf.
     let ds = filter (\<lambda>d. \<not> isComplete d) (row_at (theDependances rf) r) in
     Inr (ds, rf\<lparr>theStatus := row_set (theStatus rf) r kReady,
                 theDependances := row_set (theDependances rf) r ds\<rparr>))"

section \<open>The bypass network\<close>

text \<open>
  A bypass handle pairs an instruction with a function that takes the bypassed value and says
  whether it is done. \<open>isComplete\<close> and \<open>fire\<close> are parameters.
\<close>

record 'b BypassNetwork =
  theRegCounts :: "eRegisterType \<Rightarrow> nat"          \<comment> \<open>\<^verbatim>\<open>theXRegs, theVRegs, theCCRegs\<close>\<close>
  theDeps :: "eRegisterType \<Rightarrow> 'b list list"      \<comment> \<open>\<^verbatim>\<open>theXDeps, theVDeps, theCCDeps\<close>\<close>
  theCounts :: "eRegisterType \<Rightarrow> int list"       \<comment> \<open>\<^verbatim>\<open>theXCounts, theVCounts, theCCCounts\<close>\<close>

definition bn_reset :: "'b BypassNetwork \<Rightarrow> 'b BypassNetwork" where
  "bn_reset bn = bn\<lparr>theDeps := (\<lambda>t. replicate (theRegCounts bn t) []),
                     theCounts := (\<lambda>t. replicate (theRegCounts bn t) 10)\<rparr>"

definition doCollect :: "('b \<Rightarrow> bool) \<Rightarrow> 'b list \<Rightarrow> 'b list" where
  "doCollect isComplete aList = filter (\<lambda>b. \<not> isComplete b) aList"

definition bn_lookup :: "'b BypassNetwork \<Rightarrow> mapped_reg \<Rightarrow> 'b list res" where
  "bn_lookup bn r = vec_at (theDeps bn (fst r)) (snd r)"

definition bn_collect :: "('b \<Rightarrow> bool) \<Rightarrow> mapped_reg \<Rightarrow> 'b BypassNetwork \<Rightarrow> 'b BypassNetwork res" where
  "bn_collect isComplete r bn =
     bindE (vec_at (theCounts bn (fst r)) (snd r)) (\<lambda>c.
     if c - 1 \<le> 0 then
       bindE (bn_lookup bn r) (\<lambda>l.
       Inr (bn\<lparr>theCounts := row_set (theCounts bn) r 10,
              theDeps := row_set (theDeps bn) r (doCollect isComplete l)\<rparr>))
     else Inr (bn\<lparr>theCounts := row_set (theCounts bn) r (c - 1)\<rparr>))"

definition bn_collectAll :: "('b \<Rightarrow> bool) \<Rightarrow> 'b BypassNetwork \<Rightarrow> 'b BypassNetwork" where
  "bn_collectAll isComplete bn =
     bn\<lparr>theCounts := (\<lambda>t. map (\<lambda>_. 10) (theCounts bn t)),
        theDeps := (\<lambda>t. map (doCollect isComplete) (theDeps bn t))\<rparr>"

definition bn_connect :: "('b \<Rightarrow> bool) \<Rightarrow> mapped_reg \<Rightarrow> 'b \<Rightarrow> 'b BypassNetwork \<Rightarrow> 'b BypassNetwork res" where
  "bn_connect isComplete r h bn =
     bindE (bn_collect isComplete r bn) (\<lambda>bn.
     bindE (bn_lookup bn r) (\<lambda>l.
     Inr (bn\<lparr>theDeps := row_set (theDeps bn) r (l @ [h])\<rparr>)))"

definition bn_unmap :: "mapped_reg \<Rightarrow> 'b BypassNetwork \<Rightarrow> 'b BypassNetwork res" where
  "bn_unmap r bn =
     bindE (bn_lookup bn r) (\<lambda>_. Inr (bn\<lparr>theDeps := row_set (theDeps bn) r []\<rparr>))"

definition bn_write ::
  "('b \<Rightarrow> register_value \<Rightarrow> bool) \<Rightarrow> mapped_reg \<Rightarrow> register_value \<Rightarrow> 'b BypassNetwork \<Rightarrow>
   ('b list \<times> 'b BypassNetwork) res" where
  "bn_write fire r v bn =
     bindE (bn_lookup bn r) (\<lambda>l.
     Inr (l, bn\<lparr>theDeps := row_set (theDeps bn) r (filter (\<lambda>h. \<not> fire h v) l)\<rparr>))"

section \<open>The register operations of the core\<close>

record ('d, 'b) CoreRegs =
  theWindowMap :: RegisterWindowMap
  theArchitecturalWindowMap :: RegisterWindowMap
  theMapTables :: "eRegisterType \<Rightarrow> PhysicalMap"
  theRegisters :: "'d RegisterFile"
  theBypassNetwork :: "'b BypassNetwork"

definition mapRegister :: "mapped_reg \<Rightarrow> ('d, 'b) CoreRegs \<Rightarrow> ('d, 'b) CoreRegs res" where
  "mapRegister r c =
     bindE (rf_status (theRegisters c) r) (\<lambda>s.
     bindE (dbg_assert (s = kUnmapped)) (\<lambda>_.
     bindE (rf_map r (theRegisters c)) (\<lambda>rf. Inr (c\<lparr>theRegisters := rf\<rparr>))))"

definition unmapRegister :: "mapped_reg \<Rightarrow> ('d, 'b) CoreRegs \<Rightarrow> ('d, 'b) CoreRegs res" where
  "unmapRegister r c =
     bindE (rf_status (theRegisters c) r) (\<lambda>s.
     bindE (dbg_assert (s \<noteq> kUnmapped)) (\<lambda>_.
     bindE (rf_unmap r (theRegisters c)) (\<lambda>rf.
     bindE (bn_unmap r (theBypassNetwork c)) (\<lambda>bn.
     Inr (c\<lparr>theRegisters := rf, theBypassNetwork := bn\<rparr>)))))"

definition initializeRegister ::
  "mapped_reg \<Rightarrow> register_value \<Rightarrow> ('d, 'b) CoreRegs \<Rightarrow> ('d, 'b) CoreRegs res" where
  "initializeRegister r v c =
     bindE (rf_poke r v False (theRegisters c)) (\<lambda>rf.
     bindE (rf_setStatus r kReady rf) (\<lambda>rf. Inr (c\<lparr>theRegisters := rf\<rparr>)))"

definition readArchitecturalRegister :: "('d, 'b) CoreRegs \<Rightarrow> reg \<Rightarrow> bool \<Rightarrow> register_value res" where
  "readArchitecturalRegister c aRegister aRotate =
     (let r = (if aRotate then rwm_rotate (theArchitecturalWindowMap c) aRegister else aRegister) in
      bindE (mapArchitectural (theMapTables c (theType r)) (unat (theIndex r))) (\<lambda>i.
      rf_peek (theRegisters c) (theType r, i)))"

definition copyRegValue :: "mapped_reg \<Rightarrow> mapped_reg \<Rightarrow> ('d, 'b) CoreRegs \<Rightarrow> ('d, 'b) CoreRegs res" where
  "copyRegValue aSource aDest c =
     bindE (rf_peek (theRegisters c) aSource) (\<lambda>v.
     bindE (rf_poke aDest v False (theRegisters c)) (\<lambda>rf. Inr (c\<lparr>theRegisters := rf\<rparr>)))"

definition core_map :: "('d, 'b) CoreRegs \<Rightarrow> reg \<Rightarrow> mapped_reg res" where
  "core_map c aReg =
     (let r = rwm_rotate (theWindowMap c) aReg in
      bindE (pm_map (theMapTables c (theType r)) (unat (theIndex r))) (\<lambda>i. Inr (theType r, i)))"

definition core_create ::
  "reg \<Rightarrow> ('d, 'b) CoreRegs \<Rightarrow> ((mapped_reg \<times> mapped_reg) \<times> ('d, 'b) CoreRegs) res" where
  "core_create aReg c =
     (let r = rwm_rotate (theWindowMap c) aReg in
      bindE (pm_create (unat (theIndex r)) (theMapTables c (theType r))) (\<lambda>((new, prev), m).
      let c = c\<lparr>theMapTables := (theMapTables c)(theType r := m)\<rparr>;
          first = (theType aReg, new); second = (theType aReg, prev) in
      bindE (mapRegister first c) (\<lambda>c.
      bindE (rf_status (theRegisters c) second) (\<lambda>s.
      bindE (dbg_assert (s \<noteq> kUnmapped)) (\<lambda>_. Inr ((first, second), c))))))"

definition core_free :: "mapped_reg \<Rightarrow> ('d, 'b) CoreRegs \<Rightarrow> ('d, 'b) CoreRegs res" where
  "core_free r c =
     bindE (pm_free (snd r) (theMapTables c (fst r))) (\<lambda>m.
     unmapRegister r (c\<lparr>theMapTables := (theMapTables c)(fst r := m)\<rparr>))"

definition core_restore :: "reg \<Rightarrow> mapped_reg \<Rightarrow> ('d, 'b) CoreRegs \<Rightarrow> ('d, 'b) CoreRegs res" where
  "core_restore aName r c =
     bindE (dbg_assert (theType aName = fst r)) (\<lambda>_.
     let name = rwm_rotate (theWindowMap c) aName in
     bindE (pm_restore (unat (theIndex name)) (snd r) (theMapTables c (theType aName))) (\<lambda>m.
     Inr (c\<lparr>theMapTables := (theMapTables c)(theType aName := m)\<rparr>)))"

definition resetARM_regs :: "('d, 'b) CoreRegs \<Rightarrow> ('d, 'b) CoreRegs res" where
  "resetARM_regs c =
     bindE (pm_reset (theMapTables c xRegisters)) (\<lambda>mx.
     bindE (pm_reset (theMapTables c vRegisters)) (\<lambda>mv.
     bindE (pm_reset (theMapTables c ccBits)) (\<lambda>mc.
     Inr (c\<lparr>theWindowMap := rwm_reset (theWindowMap c),
            theArchitecturalWindowMap := rwm_reset (theArchitecturalWindowMap c),
            theMapTables := (theMapTables c)(xRegisters := mx, vRegisters := mv, ccBits := mc),
            theRegisters := rf_reset (theRegisters c),
            theBypassNetwork := bn_reset (theBypassNetwork c)\<rparr>))))"

definition readRegister :: "('d, 'b) CoreRegs \<Rightarrow> mapped_reg \<Rightarrow> register_value res" where
  "readRegister c r = rf_read (theRegisters c) r"

definition writeRegister ::
  "('d \<Rightarrow> bool) \<Rightarrow> mapped_reg \<Rightarrow> register_value \<Rightarrow> bool \<Rightarrow> ('d, 'b) CoreRegs \<Rightarrow>
   ('d list \<times> ('d, 'b) CoreRegs) res" where
  "writeRegister isComplete r v isW c =
     bindE (rf_write isComplete r v isW (theRegisters c)) (\<lambda>(ds, rf).
     Inr (ds, c\<lparr>theRegisters := rf\<rparr>))"

definition getXRegister :: "('d, 'b) CoreRegs \<Rightarrow> 32 word \<Rightarrow> 64 word res" where
  "getXRegister c aReg =
     bindE (core_map c \<lparr>theType = xRegisters, theIndex = aReg\<rparr>) (\<lambda>reg_p.
     bindE (readRegister c reg_p) get_uint64)"

definition setXRegister ::
  "('d \<Rightarrow> bool) \<Rightarrow> 32 word \<Rightarrow> 64 word \<Rightarrow> ('d, 'b) CoreRegs \<Rightarrow> ('d list \<times> ('d, 'b) CoreRegs) res" where
  "setXRegister isComplete aReg aVal c =
     bindE (core_map c \<lparr>theType = xRegisters, theIndex = aReg\<rparr>) (\<lambda>reg_p.
     writeRegister isComplete reg_p (RV_uint64 aVal) False c)"

section \<open>The invariant of the register state\<close>

text \<open>
  For each register type the rename table satisfies its own invariant, the register file and the
  bypass network have one entry per physical register, a free physical register is unmapped and
  has no dependances, and every version of an initialised (live) name is mapped. Names outside the
  live ones (\<^verbatim>\<open>fillXRegisters\<close> and \<^verbatim>\<open>fillVRegisters\<close> initialise 32 of the 35 x- and 64
  v-registers, \<^verbatim>\<open>resetPSTATE\<close> the first of the 5 condition registers) have a mapping but stay
  unmapped in the register file.
\<close>

definition regs_inv :: "nat \<Rightarrow> eRegisterType \<Rightarrow> ('d, 'b) CoreRegs \<Rightarrow> bool" where
  "regs_inv live t c \<longleftrightarrow>
     (let m = theMapTables c t; rf = theRegisters c; bn = theBypassNetwork c; n = theRegisterCount m in
      pm_inv m \<and> live \<le> theNameCount m \<and>
      length (theStatus rf t) = n \<and> length (theRegs rf t) = n \<and>
      length (theDependances rf t) = n \<and> length (theCollectCounts rf t) = n \<and>
      length (theDeps bn t) = n \<and> length (theCounts bn t) = n \<and>
      (\<forall>r \<in> set (theFreeList m). theStatus rf t ! r = kUnmapped \<and> theDependances rf t ! r = []) \<and>
      (\<forall>a < live. \<forall>r \<in> set (theAssignedRegisters m ! a). theStatus rf t ! r \<noteq> kUnmapped))"

definition core_inv :: "(eRegisterType \<Rightarrow> nat) \<Rightarrow> ('d, 'b) CoreRegs \<Rightarrow> bool" where
  "core_inv live c \<longleftrightarrow>
     \<not> theAG (theWindowMap c) \<and> \<not> theMG (theWindowMap c) \<and> \<not> theIG (theWindowMap c) \<and>
     list_all (\<lambda>t. regs_inv (live t) t c) [xRegisters, vRegisters, ccBits]"

lemma core_invD: "core_inv live c \<Longrightarrow> regs_inv (live t) t c"
  by (cases t) (simp_all add: core_inv_def)

lemma core_inv_rotate: "core_inv live c \<Longrightarrow> rwm_rotate (theWindowMap c) r = r"
proof -
  assume "core_inv live c"
  then have "\<not> theAG (theWindowMap c)" "\<not> theMG (theWindowMap c)" "\<not> theIG (theWindowMap c)"
    by (simp_all add: core_inv_def)
  moreover have "kFirstSpecialReg = kGlobalRegCount" by (simp add: reg_consts)
  ultimately show ?thesis by (auto simp: rwm_rotate_def Let_def not_le)
qed

lemma regs_invD:
  assumes "regs_inv live t c"
  shows ri_pm: "pm_inv (theMapTables c t)"
    and ri_live: "live \<le> theNameCount (theMapTables c t)"
    and ri_len: "length (theStatus (theRegisters c) t) = theRegisterCount (theMapTables c t)"
      "length (theRegs (theRegisters c) t) = theRegisterCount (theMapTables c t)"
      "length (theDependances (theRegisters c) t) = theRegisterCount (theMapTables c t)"
      "length (theCollectCounts (theRegisters c) t) = theRegisterCount (theMapTables c t)"
      "length (theDeps (theBypassNetwork c) t) = theRegisterCount (theMapTables c t)"
      "length (theCounts (theBypassNetwork c) t) = theRegisterCount (theMapTables c t)"
    and ri_free: "r \<in> set (theFreeList (theMapTables c t)) \<Longrightarrow>
        theStatus (theRegisters c) t ! r = kUnmapped \<and> theDependances (theRegisters c) t ! r = []"
    and ri_mapped: "a < live \<Longrightarrow> r \<in> set (theAssignedRegisters (theMapTables c t) ! a) \<Longrightarrow>
        theStatus (theRegisters c) t ! r \<noteq> kUnmapped"
  using assms unfolding regs_inv_def Let_def by auto

lemma in_file_ok:
  assumes "regs_inv live t c" "r < theRegisterCount (theMapTables c t)"
  shows "in_file (theRegisters c) (t, r) = Inr ()"
  using ri_len[OF assms(1)] assms(2) by (simp add: in_file_def)

text \<open>A register type is untouched by changes to the others.\<close>

lemma regs_inv_frame:
  assumes "regs_inv live t' c" "t' \<noteq> t"
    and "theMapTables c' t' = theMapTables c t'"
    and "theStatus (theRegisters c') t' = theStatus (theRegisters c) t'"
    and "theRegs (theRegisters c') t' = theRegs (theRegisters c) t'"
    and "theDependances (theRegisters c') t' = theDependances (theRegisters c) t'"
    and "theCollectCounts (theRegisters c') t' = theCollectCounts (theRegisters c) t'"
    and "theDeps (theBypassNetwork c') t' = theDeps (theBypassNetwork c) t'"
    and "theCounts (theBypassNetwork c') t' = theCounts (theBypassNetwork c) t'"
  shows "regs_inv live t' c'"
  using assms by (simp add: regs_inv_def Let_def)

subsection \<open>Creating a mapping in the core\<close>

lemma core_create_eq:
  assumes inv: "core_inv live c" and a: "a < live t" and ri: "unat i = a"
    and f: "theFreeList (theMapTables c t) = p # ps"
    and cr: "pm_create a (theMapTables c t) = Inr ((p, q), m')"
  shows "core_create \<lparr>theType = t, theIndex = i\<rparr> c = Inr (((t, p), (t, q)),
     c\<lparr>theMapTables := (theMapTables c)(t := m'),
       theRegisters := (theRegisters c)\<lparr>theStatus := row_set (theStatus (theRegisters c)) (t, p) kNotReady\<rparr>\<rparr>)"
proof -
  note R = core_invD[OF inv, of t]
  have an: "a < theNameCount (theMapTables c t)" using ri_live[OF R] a by simp
  have p: "p < theRegisterCount (theMapTables c t)"
    using pm_free_lt[OF ri_pm[OF R], of p] f by simp
  have q: "q = theMappings (theMapTables c t) ! a"
    using cr pm_create_eq[OF ri_pm[OF R] an f] by simp
  have qa: "q \<in> set (theAssignedRegisters (theMapTables c t) ! a)"
    using pm_cur[OF ri_pm[OF R] an] q by simp
  have ql: "q < theRegisterCount (theMapTables c t)" by (rule pm_assigned_lt[OF ri_pm[OF R] an qa])
  have qs: "theStatus (theRegisters c) t ! q \<noteq> kUnmapped" by (rule ri_mapped[OF R a qa])
  have pq: "p \<noteq> q" using pm_disjoint[OF ri_pm[OF R] an qa] f by auto
  have ps: "theStatus (theRegisters c) t ! p = kUnmapped" "theDependances (theRegisters c) t ! p = []"
    using ri_free[OF R, of p] f by auto
  show ?thesis
    using cr p ql qs pq ps ri_len[OF R] ri core_inv_rotate[OF inv]
    by (simp add: core_create_def Let_def mapRegister_def rf_status_def rf_map_def in_file_def)
qed

lemma core_create_inv:
  assumes inv: "core_inv live c" and a: "a < live t"
    and f: "theFreeList (theMapTables c t) = p # ps"
    and cr: "pm_create a (theMapTables c t) = Inr ((p, q), m')"
  shows "core_inv live (c\<lparr>theMapTables := (theMapTables c)(t := m'),
       theRegisters := (theRegisters c)\<lparr>theStatus := row_set (theStatus (theRegisters c)) (t, p) kNotReady\<rparr>\<rparr>)"
    (is "core_inv live ?c")
proof -
  note R = core_invD[OF inv, of t]
  have an: "a < theNameCount (theMapTables c t)" using ri_live[OF R] a by simp
  have m': "m' = (theMapTables c t)\<lparr>theFreeList := ps,
      theMappings := (theMappings (theMapTables c t))[a := p],
      theAssignedRegisters := (theAssignedRegisters (theMapTables c t))
         [a := theAssignedRegisters (theMapTables c t) ! a @ [p]],
      theReverseMappings := (theReverseMappings (theMapTables c t))[p := int a]\<rparr>"
    using cr pm_create_eq[OF ri_pm[OF R] an f] by simp
  have p: "p < length (theStatus (theRegisters c) t)" "p \<notin> set ps"
    using pm_free_lt[OF ri_pm[OF R], of p] f ri_len[OF R] pm_place(1)[OF ri_pm[OF R]] by auto
  have fresh: "b < theNameCount (theMapTables c t) \<Longrightarrow>
      p \<notin> set (theAssignedRegisters (theMapTables c t) ! b)" for b
    using pm_disjoint[OF ri_pm[OF R], of b p] f by auto
  have mapped: "(theStatus (theRegisters c) t)[p := kNotReady] ! r \<noteq> kUnmapped"
    if "b < live t" "r \<in> set (theAssignedRegisters m' ! b)" for b r
  proof (cases "r = p")
    case False
    with that have "r \<in> set (theAssignedRegisters (theMapTables c t) ! b)"
      using an pm_lens(2)[OF ri_pm[OF R]] by (cases "b = a") (auto simp: m')
    with False ri_mapped[OF R that(1)] show ?thesis by simp
  qed (use p in simp)
  have free: "(theStatus (theRegisters c) t)[p := kNotReady] ! r = kUnmapped \<and>
      theDependances (theRegisters c) t ! r = []" if "r \<in> set ps" for r
    using ri_free[OF R, of r] that f p(2) by (metis list.set_intros(2) nth_list_update_neq)
  have "regs_inv (live t) t ?c"
    using pm_create_inv[OF ri_pm[OF R] an cr] mapped free ri_len[OF R] ri_live[OF R]
    by (simp add: regs_inv_def Let_def m')
  moreover have "regs_inv (live t') t' ?c" if "t' \<noteq> t" for t'
    by (rule regs_inv_frame[OF core_invD[OF inv, of t'] that]) (use that in simp_all)
  ultimately have "regs_inv (live t') t' ?c" for t' by (cases "t' = t") simp_all
  then show ?thesis using inv by (simp add: core_inv_def)
qed

text \<open>Creating a mapping in the core, for an initialised name while its rename table has a
  free register, trips none of the assertions of the rename table, of \<^verbatim>\<open>mapRegister\<close> or of
  \<^verbatim>\<open>create\<close> itself: the new physical register becomes not-ready with no dependances, the
  previous one keeps its status, no register value changes, and the invariant of the register
  state is kept.\<close>

theorem core_create_correct:
  assumes inv: "core_inv live c" and a: "unat (theIndex r) < live (theType r)"
    and f: "theFreeList (theMapTables c (theType r)) \<noteq> []"
  shows "\<exists>c'. core_create r c =
       Inr (((theType r, hd (theFreeList (theMapTables c (theType r)))),
             (theType r, theMappings (theMapTables c (theType r)) ! unat (theIndex r))), c')
     \<and> core_inv live c'
     \<and> core_map c' r = Inr (theType r, hd (theFreeList (theMapTables c (theType r))))
     \<and> rf_status (theRegisters c') (theType r, hd (theFreeList (theMapTables c (theType r)))) = Inr kNotReady
     \<and> theDependances (theRegisters c') = theDependances (theRegisters c)
     \<and> theRegs (theRegisters c') = theRegs (theRegisters c)"
proof -
  let ?t = "theType r" and ?a = "unat (theIndex r)"
  let ?m = "theMapTables c (theType r)"
  note R = core_invD[OF inv, of ?t]
  have an: "?a < theNameCount ?m" using ri_live[OF R] a by simp
  obtain p ps where ps: "theFreeList ?m = p # ps" using f by (cases "theFreeList ?m") auto
  obtain m' where m': "pm_create ?a ?m = Inr ((p, theMappings ?m ! ?a), m')"
    "theMappings m' = (theMappings ?m)[?a := p]"
    using pm_create_eq[OF ri_pm[OF R] an ps] by auto
  have p: "p < theRegisterCount ?m" using pm_free_lt[OF ri_pm[OF R], of p] ps by simp
  define c' where "c' = c\<lparr>theMapTables := (theMapTables c)(?t := m'),
      theRegisters := (theRegisters c)
        \<lparr>theStatus := row_set (theStatus (theRegisters c)) (?t, p) kNotReady\<rparr>\<rparr>"
  have "\<lparr>theType = ?t, theIndex = theIndex r\<rparr> = r" by simp
  then have E: "core_create r c = Inr (((?t, p), (?t, theMappings ?m ! ?a)), c')"
    using core_create_eq[OF inv a refl ps m'(1)] by (simp only: c'_def)
  have I: "core_inv live c'"
    using core_create_inv[OF inv a ps m'(1)] by (simp only: c'_def)
  have "core_map c' r = Inr (?t, p)"
    using core_inv_rotate[OF I] m'(2) an pm_lens(1)[OF ri_pm[OF R]]
    by (simp add: core_map_def pm_map_def Let_def) (simp add: c'_def)
  moreover have "rf_status (theRegisters c') (?t, p) = Inr kNotReady"
    using p ri_len[OF R] by (simp add: c'_def rf_status_def in_file_def)
  ultimately show ?thesis using E I ps by (intro exI[of _ c']) (simp add: c'_def)
qed

text \<open>A small register state: two names and four registers of each type, all names initialised.\<close>

definition demo_core :: "(nat, nat) CoreRegs" where
  "demo_core =
     \<lparr>theWindowMap = \<lparr>theCWP = 0, theAG = False, theIG = False, theMG = False\<rparr>,
      theArchitecturalWindowMap = \<lparr>theCWP = 0, theAG = False, theIG = False, theMG = False\<rparr>,
      theMapTables = (\<lambda>_. \<lparr>theNameCount = 2, theRegisterCount = 4, theMappings = [2, 1],
        theFreeList = [3], theAssignedRegisters = [[0, 2], [1]],
        theReverseMappings = [0, 1, 0, -1]\<rparr>),
      theRegisters = \<lparr>theDependances = (\<lambda>_. [[], [], [7], []]),
        theStatus = (\<lambda>_. [kReady, kReady, kNotReady, kUnmapped]),
        theRegs = (\<lambda>_. [RV_uint64 5, RV_uint64 6, RV_uint64 0, RV_uint64 0]),
        theCollectCounts = (\<lambda>_. [10, 10, 10, 10])\<rparr>,
      theBypassNetwork = \<lparr>theRegCounts = (\<lambda>_. 4), theDeps = (\<lambda>_. [[], [], [], []]),
        theCounts = (\<lambda>_. [10, 10, 10, 10])\<rparr>\<rparr>"

lemma demo_core_inv: "core_inv (\<lambda>_. 2) demo_core"
  by code_simp

theorem core_create_correct_witness:
  "\<exists>c'. core_create \<lparr>theType = xRegisters, theIndex = 1\<rparr> demo_core
       = Inr (((xRegisters, 3), (xRegisters, 1)), c')
     \<and> rf_status (theRegisters c') (xRegisters, 3) = Inr kNotReady"
  using core_create_correct[OF demo_core_inv, of "\<lparr>theType = xRegisters, theIndex = 1\<rparr>"]
  by (auto simp: demo_core_def)

subsection \<open>Freeing a register in the core\<close>

text \<open>Freeing an outdated version of an initialised name succeeds: the physical register
  becomes unmapped with no dependance and no bypass handle left, returns to the end of the free
  list, and the invariant of the register state is kept.\<close>

theorem core_free_correct:
  assumes inv: "core_inv live c" and a: "a < live t"
    and r: "r \<in> set (theAssignedRegisters (theMapTables c t) ! a)"
    and old: "theMappings (theMapTables c t) ! a \<noteq> r"
  shows "\<exists>c'. core_free (t, r) c = Inr c' \<and> core_inv live c'
     \<and> theFreeList (theMapTables c' t) = theFreeList (theMapTables c t) @ [r]
     \<and> rf_status (theRegisters c') (t, r) = Inr kUnmapped
     \<and> theDependances (theRegisters c') t ! r = [] \<and> bn_lookup (theBypassNetwork c') (t, r) = Inr []"
proof -
  let ?m = "theMapTables c t" and ?rf = "theRegisters c" and ?bn = "theBypassNetwork c"
  note R = core_invD[OF inv, of t]
  have an: "a < theNameCount ?m" using ri_live[OF R] a by simp
  note F = pm_free_eq[OF ri_pm[OF R] an r old]
  obtain m' where m': "pm_free r ?m = Inr m'" using F by blast
  have m'_eq: "theFreeList m' = theFreeList ?m @ [r]" "theNameCount m' = theNameCount ?m"
      "theRegisterCount m' = theRegisterCount ?m"
      "theAssignedRegisters m' = (theAssignedRegisters ?m)[a := remove1 r (theAssignedRegisters ?m ! a)]"
    using m' F by auto
  have rl: "r < theRegisterCount ?m" by (rule pm_assigned_lt[OF ri_pm[OF R] an r])
  define c' where "c' = c\<lparr>theMapTables := (theMapTables c)(t := m'),
      theRegisters := ?rf\<lparr>theStatus := row_set (theStatus ?rf) (t, r) kUnmapped,
                        theDependances := row_set (theDependances ?rf) (t, r) []\<rparr>,
      theBypassNetwork := ?bn\<lparr>theDeps := row_set (theDeps ?bn) (t, r) []\<rparr>\<rparr>"
  have run: "core_free (t, r) c = Inr c'"
    using m' rl ri_len[OF R] ri_mapped[OF R a r]
    by (simp add: core_free_def unmapRegister_def rf_status_def rf_unmap_def bn_unmap_def bn_lookup_def
        in_file_def c'_def)
  have free: "(theStatus ?rf t)[r := kUnmapped] ! x = kUnmapped \<and> (theDependances ?rf t)[r := []] ! x = []"
    if "x \<in> set (theFreeList ?m @ [r])" for x
    using that ri_free[OF R, of x] rl ri_len[OF R] by (cases "x = r") auto
  have mapped: "(theStatus ?rf t)[r := kUnmapped] ! x \<noteq> kUnmapped"
    if b: "b < live t" and x: "x \<in> set (theAssignedRegisters m' ! b)" for b x
  proof -
    have bn: "b < theNameCount ?m" using b ri_live[OF R] by simp
    have pm': "pm_inv m'" by (rule pm_free_inv[OF ri_pm[OF R] an r old m'])
    have "x \<noteq> r"
      using pm_disjoint[OF pm', of b x] x bn m'_eq by auto
    moreover have "x \<in> set (theAssignedRegisters ?m ! b)"
      using x bn an pm_lens(2)[OF ri_pm[OF R]] m'_eq
      by (cases "b = a") (auto dest: subsetD[OF set_remove1_subset])
    ultimately show ?thesis using ri_mapped[OF R b] by simp
  qed
  have "regs_inv (live t) t c'"
    using pm_free_inv[OF ri_pm[OF R] an r old m'] free mapped ri_len[OF R] ri_live[OF R]
    by (simp add: regs_inv_def Let_def c'_def m'_eq(1-3))
  moreover have "regs_inv (live t') t' c'" if "t' \<noteq> t" for t'
    by (rule regs_inv_frame[OF core_invD[OF inv, of t'] that]) (use that in \<open>simp_all add: c'_def\<close>)
  ultimately have "regs_inv (live t') t' c'" for t' by (cases "t' = t") simp_all
  then have "core_inv live c'" using inv by (simp add: core_inv_def c'_def)
  with run rl ri_len[OF R] m'_eq show ?thesis
    by (simp add: c'_def rf_status_def in_file_def bn_lookup_def)
qed

theorem core_free_correct_witness:
  "\<exists>c'. core_free (vRegisters, 0) demo_core = Inr c' \<and> theFreeList (theMapTables c' vRegisters) = [3, 0]"
proof -
  have "0 \<in> set (theAssignedRegisters (theMapTables demo_core vRegisters) ! 0)"
       "theMappings (theMapTables demo_core vRegisters) ! 0 \<noteq> 0"
    by (simp_all add: demo_core_def)
  from core_free_correct[OF demo_core_inv _ this] show ?thesis by (auto simp: demo_core_def)
qed

section \<open>Reading back what was written\<close>

text \<open>Writing a register and reading it back returns the written value, or, for a 32-bit
  write, its low half zero-extended to 64 bits; the write makes the register ready, calls
  \<^verbatim>\<open>satisfy\<close> on exactly the dependances whose instruction is not complete, in the order in which
  they were registered, and forgets the others; no other register changes.\<close>

theorem rf_write_read_roundtrip:
  assumes "in_file rf r = Inr ()"
    and "isW \<Longrightarrow> \<exists>old. row_at (theRegs rf) r = RV_uint64 old"
    and "isW \<Longrightarrow> v = RV_uint64 w"
  shows "\<exists>rf'. rf_write isComplete r v isW rf
        = Inr (filter (\<lambda>d. \<not> isComplete d) (row_at (theDependances rf) r), rf')
     \<and> rf_read rf' r = Inr (if isW then RV_uint64 (ucast (ucast w :: 32 word)) else v)
     \<and> row_at (theDependances rf') r = filter (\<lambda>d. \<not> isComplete d) (row_at (theDependances rf) r)
     \<and> (\<forall>r'. r' \<noteq> r \<longrightarrow> rf_read rf' r' = rf_read rf r')"
proof -
  have low: "and w 0xffffffff = (ucast (ucast w :: 32 word) :: 64 word)"
  proof -
    have m: "(0xffffffff :: 64 word) = mask 32" by (simp add: mask_eq_exp_minus_1)
    show ?thesis unfolding m by (rule bit_word_eqI) (auto simp: bit_simps)
  qed
  define x where "x = (if isW then RV_uint64 (ucast (ucast w :: 32 word)) else v)"
  define ds where "ds = filter (\<lambda>d. \<not> isComplete d) (row_at (theDependances rf) r)"
  define rf' where "rf' = rf\<lparr>theRegs := row_set (theRegs rf) r x,
      theStatus := row_set (theStatus rf) r kReady, theDependances := row_set (theDependances rf) r ds\<rparr>"
  have run: "rf_write isComplete r v isW rf = Inr (ds, rf')"
    using assms low
    by (auto simp: rf_write_def rf_poke_def get_uint64_def x_def ds_def rf'_def Let_def)
  have "rf_read rf' r = Inr x"
    using assms(1)
    by (auto simp: rf_read_def rf_status_def rf_peek_def in_file_def rf'_def split: if_splits)
  moreover have "row_at (theDependances rf') r = ds"
    using assms(1) by (auto simp: in_file_def rf'_def split: if_splits)
  moreover have "rf_read rf' r' = rf_read rf r'" if "r' \<noteq> r" for r'
    using that
    by (cases r; cases r') (auto simp: rf_read_def rf_status_def rf_peek_def in_file_def rf'_def)
  ultimately show ?thesis using run by (auto simp: x_def ds_def)
qed

theorem rf_write_read_roundtrip_witness:
  "\<exists>rf'. rf_write (\<lambda>d. d = 3) (ccBits, 2) (RV_uint64 0x1234567890abcdef) True (theRegisters demo_core)
        = Inr ([7], rf') \<and> rf_read rf' (ccBits, 2) = Inr (RV_uint64 0x90abcdef)"
proof -
  have i: "in_file (theRegisters demo_core) (ccBits, 2) = Inr ()" by (simp add: demo_core_def in_file_def)
  show ?thesis
    using rf_write_read_roundtrip[OF i, of True "RV_uint64 0x1234567890abcdef" "0x1234567890abcdef"
        "\<lambda>d. d = 3"]
    by (auto simp: demo_core_def)
qed

section \<open>Start-up\<close>

definition kvRegs :: nat where "kvRegs = 64"
definition kccRegs :: nat where "kccRegs = 5"

definition reg_file_sizes :: "nat \<Rightarrow> eRegisterType \<Rightarrow> nat" where
  "reg_file_sizes theROBSize t = (case t of
      xRegisters \<Rightarrow> unat kTotalRegs + 3 * theROBSize
    | vRegisters \<Rightarrow> kvRegs + 4 * theROBSize
    | ccBits \<Rightarrow> kccRegs + 2 * theROBSize)"

definition map_name_count :: "eRegisterType \<Rightarrow> nat" where
  "map_name_count t = (case t of xRegisters \<Rightarrow> unat kTotalRegs | vRegisters \<Rightarrow> kvRegs | ccBits \<Rightarrow> kccRegs)"

text \<open>The register part of the core's constructor.\<close>

definition core_construct :: "nat \<Rightarrow> ('d, 'b) CoreRegs res" where
  "core_construct theROBSize =
     bindE (pm_new (map_name_count xRegisters) (reg_file_sizes theROBSize xRegisters)) (\<lambda>mx.
     bindE (pm_new (map_name_count vRegisters) (reg_file_sizes theROBSize vRegisters)) (\<lambda>mv.
     bindE (pm_new (map_name_count ccBits) (reg_file_sizes theROBSize ccBits)) (\<lambda>mc.
     resetARM_regs
       \<lparr>theWindowMap = \<lparr>theCWP = 0, theAG = False, theIG = False, theMG = False\<rparr>,
        theArchitecturalWindowMap = \<lparr>theCWP = 0, theAG = False, theIG = False, theMG = False\<rparr>,
        theMapTables = (\<lambda>t. case t of xRegisters \<Rightarrow> mx | vRegisters \<Rightarrow> mv | ccBits \<Rightarrow> mc),
        theRegisters = rf_initialize (reg_file_sizes theROBSize),
        theBypassNetwork = bn_reset \<lparr>theRegCounts = reg_file_sizes theROBSize,
                                     theDeps = (\<lambda>_. []), theCounts = (\<lambda>_. [])\<rparr>\<rparr>)))"

definition fillXRegisters :: "(nat \<Rightarrow> 64 word) \<Rightarrow> ('d, 'b) CoreRegs \<Rightarrow> ('d, 'b) CoreRegs res" where
  "fillXRegisters readXRegister =
     foldE (\<lambda>i. initializeRegister (xRegisters, i) (RV_uint64 (readXRegister i))) [0..<32]"

definition fillVRegisters :: "(nat \<Rightarrow> 64 word) \<Rightarrow> ('d, 'b) CoreRegs \<Rightarrow> ('d, 'b) CoreRegs res" where
  "fillVRegisters readVRegister =
     foldE (\<lambda>i. initializeRegister (vRegisters, i) (RV_uint64 (readVRegister i))) [0..<32]"

definition resetPSTATE_reg :: "64 word \<Rightarrow> ('d, 'b) CoreRegs \<Rightarrow> ('d, 'b) CoreRegs res" where
  "resetPSTATE_reg pstate = initializeRegister (ccBits, 0) (RV_uint64 pstate)"

definition arm_live :: "eRegisterType \<Rightarrow> nat" where
  "arm_live t = (case t of xRegisters \<Rightarrow> 32 | vRegisters \<Rightarrow> 32 | ccBits \<Rightarrow> 1)"

text \<open>The loop that initialises the first \<open>k\<close> registers of one type.\<close>

lemma initializeRegister_eq:
  assumes "i < length (theStatus (theRegisters c) t)" "i < length (theRegs (theRegisters c) t)"
    "i < length (theDependances (theRegisters c) t)" "i < length (theCollectCounts (theRegisters c) t)"
  shows "initializeRegister (t, i) v c = Inr (c\<lparr>theRegisters := (theRegisters c)\<lparr>
       theRegs := (theRegs (theRegisters c))(t := (theRegs (theRegisters c) t)[i := v]),
       theStatus := (theStatus (theRegisters c))(t := (theStatus (theRegisters c) t)[i := kReady])\<rparr>\<rparr>)"
  using assms by (simp add: initializeRegister_def rf_poke_def rf_setStatus_def in_file_def)

lemma fill_eq:
  assumes "k \<le> length (theStatus (theRegisters c) t)" "k \<le> length (theRegs (theRegisters c) t)"
    "k \<le> length (theDependances (theRegisters c) t)" "k \<le> length (theCollectCounts (theRegisters c) t)"
  shows "foldE (\<lambda>i. initializeRegister (t, i) (v i)) [0..<k] c =
    Inr (c\<lparr>theRegisters := (theRegisters c)\<lparr>
       theRegs := (theRegs (theRegisters c))(t := map v [0..<k] @ drop k (theRegs (theRegisters c) t)),
       theStatus := (theStatus (theRegisters c))
          (t := replicate k kReady @ drop k (theStatus (theRegisters c) t))\<rparr>\<rparr>)"
  using assms
proof (induction k)
  case 0
  then show ?case by simp
next
  case (Suc k)
  have upd: "(xs @ drop k ys)[k := y] = (xs @ [y]) @ drop (Suc k) ys"
    if "length xs = k" "k < length ys" for xs :: "'z list" and ys y
    using that by (simp add: list_update_append Cons_nth_drop_Suc[symmetric])
  let ?c = "c\<lparr>theRegisters := (theRegisters c)\<lparr>
       theRegs := (theRegs (theRegisters c))(t := map v [0..<k] @ drop k (theRegs (theRegisters c) t)),
       theStatus := (theStatus (theRegisters c))
          (t := replicate k kReady @ drop k (theStatus (theRegisters c) t))\<rparr>\<rparr>"
  have "foldE (\<lambda>i. initializeRegister (t, i) (v i)) [0..<Suc k] c = initializeRegister (t, k) (v k) ?c"
    using Suc by (simp add: foldE_append del: fun_upd_apply)
  also have "\<dots> = Inr (c\<lparr>theRegisters := (theRegisters c)\<lparr>
       theRegs := (theRegs (theRegisters c))
          (t := (map v [0..<k] @ [v k]) @ drop (Suc k) (theRegs (theRegisters c) t)),
       theStatus := (theStatus (theRegisters c))
          (t := (replicate k kReady @ [kReady]) @ drop (Suc k) (theStatus (theRegisters c) t))\<rparr>\<rparr>)"
    using Suc.prems upd[of "map v [0..<k]" "theRegs (theRegisters c) t" "v k"]
      upd[of "replicate k kReady" "theStatus (theRegisters c) t" kReady]
    by (subst initializeRegister_eq) simp_all
  finally show ?case by (simp add: replicate_append_same del: fun_upd_apply)
qed

text \<open>The state right after construction: fresh rename tables, every register unmapped.\<close>

definition fresh_core :: "nat \<Rightarrow> ('d, 'b) CoreRegs \<Rightarrow> bool" where
  "fresh_core rob c \<longleftrightarrow>
     \<not> theAG (theWindowMap c) \<and> \<not> theMG (theWindowMap c) \<and> \<not> theIG (theWindowMap c) \<and>
     (\<forall>t. let n = reg_file_sizes rob t in
        pm_new (map_name_count t) n = Inr (theMapTables c t) \<and>
        theStatus (theRegisters c) t = replicate n kUnmapped \<and> length (theRegs (theRegisters c) t) = n \<and>
        theDependances (theRegisters c) t = replicate n [] \<and>
        length (theCollectCounts (theRegisters c) t) = n \<and>
        length (theDeps (theBypassNetwork c) t) = n \<and> length (theCounts (theBypassNetwork c) t) = n)"

lemma map_name_count_le: "map_name_count t \<le> reg_file_sizes rob t"
  by (cases t) (simp_all add: map_name_count_def reg_file_sizes_def)

lemma pm_reset_new: "n \<le> r \<Longrightarrow> pm_new n r = Inr m \<Longrightarrow> pm_reset m = Inr m"
  by (auto simp: pm_new_eq pm_reset_def)

lemma core_construct_fresh:
  "\<exists>c. core_construct rob = Inr c \<and> fresh_core rob c"
proof -
  define m where "m t = projr (pm_new (map_name_count t) (reg_file_sizes rob t))" for t
  have m: "pm_new (map_name_count t) (reg_file_sizes rob t) = Inr (m t)" for t
    using pm_new_eq[OF map_name_count_le[of t rob]] by (simp add: m_def)
  have r: "pm_reset (m t) = Inr (m t)" for t
    by (rule pm_reset_new[OF map_name_count_le m])
  show ?thesis
    by (auto simp: core_construct_def resetARM_regs_def m r fresh_core_def rwm_reset_def rf_initialize_def
        rf_reset_def bn_reset_def map_replicate_const Let_def split: eRegisterType.splits)
qed

lemma fresh_regs_inv:
  assumes pm: "pm_new n r = Inr (theMapTables c t)" and le: "n \<le> r" "live \<le> n"
    and st: "theStatus (theRegisters c) t = replicate live kReady @ replicate (r - live) kUnmapped"
    and len: "length (theRegs (theRegisters c) t) = r"
      "theDependances (theRegisters c) t = replicate r []"
      "length (theCollectCounts (theRegisters c) t) = r"
      "length (theDeps (theBypassNetwork c) t) = r" "length (theCounts (theBypassNetwork c) t) = r"
  shows "regs_inv live t c"
proof -
  have inv: "pm_inv (theMapTables c t)"
    using pm_new_inv[OF le(1) pm] .
  have m: "theMapTables c t = \<lparr>theNameCount = n, theRegisterCount = r, theMappings = [0..<n],
      theFreeList = [n..<r], theAssignedRegisters = map (\<lambda>i. [i]) [0..<n],
      theReverseMappings = map int [0..<n] @ replicate (r - n) (-1)\<rparr>"
    using pm pm_new_eq[OF le(1)] by simp
  show ?thesis
    using inv le len st unfolding regs_inv_def Let_def by (auto simp: m nth_append)
qed

definition sized :: "(eRegisterType \<Rightarrow> nat) \<Rightarrow> ('d, 'b) CoreRegs \<Rightarrow> bool" where
  "sized n c \<longleftrightarrow> (\<forall>t. length (theStatus (theRegisters c) t) = n t \<and> length (theRegs (theRegisters c) t) = n t \<and>
     length (theDependances (theRegisters c) t) = n t \<and> length (theCollectCounts (theRegisters c) t) = n t)"

definition filled :: "eRegisterType \<Rightarrow> nat \<Rightarrow> (nat \<Rightarrow> register_value) \<Rightarrow> ('d, 'b) CoreRegs \<Rightarrow> ('d, 'b) CoreRegs \<Rightarrow> bool" where
  "filled t k v c c' \<longleftrightarrow>
     theMapTables c' = theMapTables c \<and> theWindowMap c' = theWindowMap c \<and>
     theBypassNetwork c' = theBypassNetwork c \<and>
     theDependances (theRegisters c') = theDependances (theRegisters c) \<and>
     theCollectCounts (theRegisters c') = theCollectCounts (theRegisters c) \<and>
     theRegs (theRegisters c') = (theRegs (theRegisters c))
       (t := map v [0..<k] @ drop k (theRegs (theRegisters c) t)) \<and>
     theStatus (theRegisters c') = (theStatus (theRegisters c))
       (t := replicate k kReady @ drop k (theStatus (theRegisters c) t))"

lemma fill_spec:
  assumes "sized n c" "k \<le> n t"
  shows "\<exists>c'. foldE (\<lambda>i. initializeRegister (t, i) (v i)) [0..<k] c = Inr c' \<and> filled t k v c c' \<and> sized n c'"
proof -
  have "k \<le> length (theStatus (theRegisters c) t)" "k \<le> length (theRegs (theRegisters c) t)"
    "k \<le> length (theDependances (theRegisters c) t)" "k \<le> length (theCollectCounts (theRegisters c) t)"
    using assms by (simp_all add: sized_def)
  from fill_eq[OF this, of v] obtain c' where
    c': "foldE (\<lambda>i. initializeRegister (t, i) (v i)) [0..<k] c = Inr c'" "filled t k v c c'"
    by (simp add: filled_def del: fun_upd_apply)
  moreover have "sized n c'" using c'(2) assms by (simp add: sized_def filled_def)
  ultimately show ?thesis by blast
qed

lemma startup_fill:
  assumes F: "fresh_core rob c0"
  shows "\<exists>c1 c2 c. fillXRegisters rx c0 = Inr c1 \<and> fillVRegisters rv c1 = Inr c2 \<and> resetPSTATE_reg ps c2 = Inr c
    \<and> filled xRegisters 32 (\<lambda>i. RV_uint64 (rx i)) c0 c1 \<and> filled vRegisters 32 (\<lambda>i. RV_uint64 (rv i)) c1 c2
    \<and> filled ccBits 1 (\<lambda>i. RV_uint64 ps) c2 c \<and> sized (reg_file_sizes rob) c"
proof -
  have s0: "sized (reg_file_sizes rob) c0"
    using F by (simp add: fresh_core_def sized_def Let_def)
  have big: "32 \<le> reg_file_sizes rob xRegisters" "32 \<le> reg_file_sizes rob vRegisters"
      "1 \<le> reg_file_sizes rob ccBits"
    by (simp_all add: reg_file_sizes_def reg_consts kvRegs_def kccRegs_def)
  have cc: "resetPSTATE_reg ps c = foldE (\<lambda>i. initializeRegister (ccBits, i) (RV_uint64 ps)) [0..<1] c" for c
    by (simp add: resetPSTATE_reg_def)
  obtain c1 where c1: "fillXRegisters rx c0 = Inr c1" "filled xRegisters 32 (\<lambda>i. RV_uint64 (rx i)) c0 c1"
      "sized (reg_file_sizes rob) c1"
    using fill_spec[OF s0 big(1), of "\<lambda>i. RV_uint64 (rx i)"] unfolding fillXRegisters_def by blast
  obtain c2 where c2: "fillVRegisters rv c1 = Inr c2" "filled vRegisters 32 (\<lambda>i. RV_uint64 (rv i)) c1 c2"
      "sized (reg_file_sizes rob) c2"
    using fill_spec[OF c1(3) big(2), of "\<lambda>i. RV_uint64 (rv i)"] unfolding fillVRegisters_def by blast
  obtain c where "resetPSTATE_reg ps c2 = Inr c" "filled ccBits 1 (\<lambda>i. RV_uint64 ps) c2 c"
      "sized (reg_file_sizes rob) c"
    using fill_spec[OF c2(3) big(3), of "\<lambda>i. RV_uint64 ps"] unfolding cc by blast
  with c1 c2 show ?thesis by blast
qed

lemma startup_regs_inv:
  assumes F: "fresh_core rob c0" and f: "filled xRegisters 32 vx c0 c1" "filled vRegisters 32 vv c1 c2"
    "filled ccBits 1 vc c2 c" and s: "sized (reg_file_sizes rob) c"
  shows "regs_inv (arm_live t) t c"
proof (rule fresh_regs_inv[OF _ map_name_count_le])
  show "pm_new (map_name_count t) (reg_file_sizes rob t) = Inr (theMapTables c t)"
    using F f by (simp add: fresh_core_def filled_def Let_def)
  show "arm_live t \<le> map_name_count t"
    by (cases t) (simp_all add: arm_live_def map_name_count_def reg_consts kvRegs_def kccRegs_def)
  have st: "theStatus (theRegisters c0) t = replicate (reg_file_sizes rob t) kUnmapped"
    using F by (simp add: fresh_core_def Let_def)
  have "1 \<le> reg_file_sizes rob ccBits" by (simp add: reg_file_sizes_def kccRegs_def)
  then show "theStatus (theRegisters c) t
      = replicate (arm_live t) kReady @ replicate (reg_file_sizes rob t - arm_live t) kUnmapped"
    using f st by (cases t) (simp_all add: filled_def arm_live_def)
  show "length (theRegs (theRegisters c) t) = reg_file_sizes rob t"
    "theDependances (theRegisters c) t = replicate (reg_file_sizes rob t) []"
    "length (theCollectCounts (theRegisters c) t) = reg_file_sizes rob t"
    "length (theDeps (theBypassNetwork c) t) = reg_file_sizes rob t"
    "length (theCounts (theBypassNetwork c) t) = reg_file_sizes rob t"
    using F f s by (simp_all add: fresh_core_def filled_def sized_def Let_def)
qed

text \<open>Start-up establishes the invariant: constructing the core's register state for any
  reorder-buffer size and then filling the 32 general and 32 vector registers and the condition
  register from the emulator succeeds and leaves a state in which those registers are live and
  the general registers read architecturally as the emulator's values.\<close>

theorem startup_establishes_core_inv:
  "\<exists>c :: ('d, 'b) CoreRegs. bindE (core_construct rob) (\<lambda>c. bindE (fillXRegisters rx c) (\<lambda>c.
       bindE (fillVRegisters rv c) (resetPSTATE_reg ps))) = Inr c
     \<and> core_inv arm_live c
     \<and> (\<forall>i < 32. readArchitecturalRegister c \<lparr>theType = xRegisters, theIndex = word_of_nat i\<rparr> False
            = Inr (RV_uint64 (rx i)))"
proof -
  obtain c0 :: "('d, 'b) CoreRegs" where c0: "core_construct rob = Inr c0" and F: "fresh_core rob c0"
    using core_construct_fresh by blast
  from startup_fill[OF F, of rx rv ps] obtain c1 c2 c where
    run: "fillXRegisters rx c0 = Inr c1" "fillVRegisters rv c1 = Inr c2" "resetPSTATE_reg ps c2 = Inr c"
    and f: "filled xRegisters 32 (\<lambda>i. RV_uint64 (rx i)) c0 c1"
      "filled vRegisters 32 (\<lambda>i. RV_uint64 (rv i)) c1 c2" "filled ccBits 1 (\<lambda>i. RV_uint64 ps) c2 c"
    and s: "sized (reg_file_sizes rob) c"
    by blast
  note R = startup_regs_inv[OF F f s]
  have "core_inv arm_live c"
    using F f R by (simp add: core_inv_def fresh_core_def filled_def)
  moreover have "readArchitecturalRegister c \<lparr>theType = xRegisters, theIndex = word_of_nat i\<rparr> False
      = Inr (RV_uint64 (rx i))" if i: "i < 32" for i
  proof -
    have ui: "unat (word_of_nat i :: 32 word) = i" using i by (simp add: unat_of_nat take_bit_nat_eq_self)
    have new: "pm_new (map_name_count xRegisters) (reg_file_sizes rob xRegisters) = Inr (theMapTables c xRegisters)"
      using F f by (simp add: fresh_core_def filled_def Let_def)
    have "mapArchitectural (theMapTables c xRegisters) i = Inr i"
      using new pm_new_eq[OF map_name_count_le, of xRegisters rob] i
      by (auto simp: mapArchitectural_def map_name_count_def reg_consts)
    moreover have "i < reg_file_sizes rob xRegisters" using i by (simp add: reg_file_sizes_def reg_consts)
    moreover have "theRegs (theRegisters c) xRegisters ! i = RV_uint64 (rx i)"
      using f i by (simp add: filled_def nth_append)
    ultimately show ?thesis
      using s ui by (simp add: readArchitecturalRegister_def rf_peek_def in_file_def sized_def)
  qed
  ultimately show ?thesis using c0 run by auto
qed

theorem startup_establishes_core_inv_witness:
  "\<exists>c :: (nat, nat) CoreRegs. bindE (core_construct 2) (\<lambda>c. bindE (fillXRegisters (\<lambda>i. word_of_nat i) c) (\<lambda>c.
       bindE (fillVRegisters (\<lambda>_. 0) c) (resetPSTATE_reg 7))) = Inr c
     \<and> core_inv arm_live c
     \<and> readArchitecturalRegister c \<lparr>theType = xRegisters, theIndex = 5\<rparr> False = Inr (RV_uint64 5)"
proof -
  have "\<exists>c :: (nat, nat) CoreRegs. bindE (core_construct 2) (\<lambda>c. bindE (fillXRegisters (\<lambda>i. word_of_nat i) c) (\<lambda>c.
       bindE (fillVRegisters (\<lambda>_. 0) c) (resetPSTATE_reg 7))) = Inr c
     \<and> core_inv arm_live c
     \<and> (\<forall>i < 32. readArchitecturalRegister c \<lparr>theType = xRegisters, theIndex = word_of_nat i\<rparr> False
            = Inr (RV_uint64 (word_of_nat i)))"
    by (rule startup_establishes_core_inv)
  then obtain c :: "(nat, nat) CoreRegs" where
    c: "bindE (core_construct 2) (\<lambda>c. bindE (fillXRegisters (\<lambda>i. word_of_nat i) c) (\<lambda>c.
       bindE (fillVRegisters (\<lambda>_. 0) c) (resetPSTATE_reg 7))) = Inr c" "core_inv arm_live c"
    and r: "\<forall>i < 32. readArchitecturalRegister c \<lparr>theType = xRegisters, theIndex = word_of_nat i\<rparr> False
            = Inr (RV_uint64 (word_of_nat i))"
    by blast
  from r have "readArchitecturalRegister c \<lparr>theType = xRegisters, theIndex = word_of_nat 5\<rparr> False
            = Inr (RV_uint64 (word_of_nat 5))"
    by (simp only:)
  with c show ?thesis by auto
qed

end
