(* ===== verification/NetChannel.thy ===== *)
theory NetChannel
  imports Flexus_Prelude
begin

text \<open>
  The links of the on-chip network simulator (\<^verbatim>\<open>components/NetShim/netcommon.hpp\<close>,
  \<^verbatim>\<open>channel.hpp\<close>, \<^verbatim>\<open>channel.cpp\<close>): messages, the buffered ports at the two ends of a
  channel, and the channel's transfer state machine.

  A message is a record moved from queue to queue; the doubly linked \<^verbatim>\<open>MessageStateList\<close>s are
  lists, and the head and tail pointers their ends. \<^verbatim>\<open>ChannelInputPort\<close> extends
  \<^verbatim>\<open>ChannelPort\<close> by its delay queue as a record extension; \<^verbatim>\<open>ChannelOutputPort\<close> has no
  fields of its own. A port names its channel, and a channel its two ports, by index. The global
  \<^verbatim>\<open>currTime\<close> is the parameter \<open>now\<close>. Counters are mathematical integers: the invariants
  bound them by the buffer depths, so the 32-bit counters of the code do not wrap.

  The invariants say that the occupancy counters equal the queue lengths and stay within the
  buffer depths; the lemmas show that each operation keeps them, conserves messages, preserves
  the order of messages per virtual channel, and trips no assertion.
\<close>

section \<open>Messages\<close>

abbreviation MAX_NET_VC :: nat where "MAX_NET_VC \<equiv> 2"
abbreviation MAX_PROT_VC :: nat where "MAX_PROT_VC \<equiv> 4"
abbreviation NUM_PRIORITIES :: nat where "NUM_PRIORITIES \<equiv> 4"
abbreviation MAX_VC :: nat where "MAX_VC \<equiv> 8"

definition BUILD_VC :: "int \<Rightarrow> int \<Rightarrow> int" where
  "BUILD_VC prot net = prot * int MAX_NET_VC + net"

definition NETVC_TO_PROTVC :: "int \<Rightarrow> int" where
  "NETVC_TO_PROTVC vc = vc sdiv int MAX_NET_VC"

record MessageState =
  srcNode :: int
  destNode :: int
  priority :: int
  networkVC :: int
  nextHop :: int
  nextVC :: int
  transmitLatency :: int
  flexusInFastMode :: bool
  serial :: int
  hopCount :: int
  bufferTime :: int
  atHeadTime :: int
  acceptTime :: int
  startTS :: int
  myList :: bool     \<comment> \<open>the message is linked into the container's list of active messages\<close>

definition reinit :: "int \<Rightarrow> int \<Rightarrow> int \<Rightarrow> int \<Rightarrow> bool \<Rightarrow> int \<Rightarrow> MessageState \<Rightarrow> MessageState" where
  "reinit src dest prio lat fast ts m = m\<lparr>srcNode := src, destNode := dest, priority := prio,
     networkVC := 0, nextHop := -1, nextVC := -1, bufferTime := 0, atHeadTime := 0, acceptTime := 0,
     transmitLatency := lat, myList := False, hopCount := -1, startTS := ts, flexusInFastMode := fast\<rparr>"

section \<open>Ports\<close>

record ChannelPort =
  bufferCount :: "int list"
  buffersUsed :: "int list"
  msl :: "MessageState list list"     \<comment> \<open>per virtual channel, head first\<close>
  channel :: "nat option"

definition INT_MAX :: int where "INT_MAX = 2147483647"

definition ChannelPort_new :: "int \<Rightarrow> ChannelPort res" where
  "ChannelPort_new bufferDepth =
     bindE (dbg_assert (bufferDepth > 0)) (\<lambda>_.
     Inr \<lparr>bufferCount = map (\<lambda>i. if (i = 0 \<or> i = 1) \<and> bufferDepth = INT_MAX then 1 else bufferDepth) [0..<MAX_VC],
          buffersUsed = replicate MAX_VC 0, msl = replicate MAX_VC [], channel = None\<rparr>)"

abbreviation vc_ok :: "int \<Rightarrow> bool" where
  "vc_ok vc \<equiv> 0 \<le> vc \<and> vc < int MAX_VC"

definition peekMessage :: "'z ChannelPort_scheme \<Rightarrow> int \<Rightarrow> MessageState option res" where
  "peekMessage p vc =
     bindE (dbg_assert (vc_ok vc)) (\<lambda>_.
     bindE (arr_at (msl p) vc) (\<lambda>q. Inr (case q of [] \<Rightarrow> None | m # _ \<Rightarrow> Some m)))"

definition hasMessage :: "'z ChannelPort_scheme \<Rightarrow> int \<Rightarrow> bool res" where
  "hasMessage p vc =
     bindE (dbg_assert (vc_ok vc)) (\<lambda>_. bindE (arr_at (msl p) vc) (\<lambda>q. Inr (q \<noteq> [])))"

definition hasBufferSpace :: "'z ChannelPort_scheme \<Rightarrow> int \<Rightarrow> bool res" where
  "hasBufferSpace p vc =
     bindE (dbg_assert (vc_ok vc)) (\<lambda>_.
     bindE (arr_at (buffersUsed p) vc) (\<lambda>u. bindE (arr_at (bufferCount p) vc) (\<lambda>c. Inr (u < c))))"

definition getBuffersUsed :: "'z ChannelPort_scheme \<Rightarrow> int" where
  "getBuffersUsed p = sum_list (buffersUsed p)"

definition setChannel :: "nat \<Rightarrow> 'z ChannelPort_scheme \<Rightarrow> 'z ChannelPort_scheme" where
  "setChannel c p = p\<lparr>channel := Some c\<rparr>"

definition isConnected :: "'z ChannelPort_scheme \<Rightarrow> bool" where
  "isConnected p \<longleftrightarrow> channel p \<noteq> None"

definition insertMessageHelper :: "int \<Rightarrow> MessageState \<Rightarrow> 'z ChannelPort_scheme \<Rightarrow> 'z ChannelPort_scheme res" where
  "insertMessageHelper now msg p =
     bindE (dbg_assert (vc_ok (networkVC msg))) (\<lambda>_.
     bindE (arr_at (msl p) (networkVC msg)) (\<lambda>q.
     let q' = (if q = [] then [msg\<lparr>atHeadTime := atHeadTime msg - now\<rparr>] else q @ [msg]) in
     bindE (arr_set (msl p) (networkVC msg) q') (\<lambda>ms. Inr (p\<lparr>msl := ms\<rparr>))))"

text \<open>\<^verbatim>\<open>ChannelPort::removeMessage\<close>; the overriding methods below call it and then adjust the
  statistics of the removed message (and of the new head).\<close>

definition removeMessage :: "int \<Rightarrow> int \<Rightarrow> 'z ChannelPort_scheme \<Rightarrow> (MessageState \<times> 'z ChannelPort_scheme) res" where
  "removeMessage now vc p =
     bindE (dbg_assert (vc_ok vc)) (\<lambda>_.
     bindE (arr_at (msl p) vc) (\<lambda>q.
     bindE (dbg_assert (q \<noteq> [])) (\<lambda>_.
     let msg = hd q;
         q' = (case tl q of [] \<Rightarrow> [] | h # t \<Rightarrow> h\<lparr>atHeadTime := atHeadTime h - now\<rparr> # t) in
     bindE (arr_set (msl p) vc q') (\<lambda>ms.
     bindE (arr_at (buffersUsed p) vc) (\<lambda>u.
     bindE (arr_set (buffersUsed p) vc (u - 1)) (\<lambda>us.
     Inr (msg\<lparr>atHeadTime := atHeadTime msg + now, bufferTime := bufferTime msg + now\<rparr>,
          p\<lparr>msl := ms, buffersUsed := us\<rparr>)))))))"

subsection \<open>Input ports\<close>

record ChannelInputPort = ChannelPort +
  channelLatency :: int
  delayList :: "(int \<times> MessageState) list"     \<comment> \<open>release time and message, head first\<close>

definition ChannelInputPort_new :: "int \<Rightarrow> int \<Rightarrow> ChannelInputPort res" where
  "ChannelInputPort_new bufferDepth latency =
     bindE (ChannelPort_new bufferDepth) (\<lambda>p.
     Inr (ChannelPort.extend p (ChannelInputPort.fields latency [])))"

definition ip_insertMessage :: "int \<Rightarrow> MessageState \<Rightarrow> ChannelInputPort \<Rightarrow> ChannelInputPort res" where
  "ip_insertMessage now msg p =
     bindE (arr_at (buffersUsed p) (networkVC msg)) (\<lambda>u.
     bindE (arr_at (bufferCount p) (networkVC msg)) (\<lambda>c.
     bindE (dbg_assert (u < c)) (\<lambda>_.
     bindE (arr_set (buffersUsed p) (networkVC msg) (u + 1)) (\<lambda>us.
     let delay = (if flexusInFastMode msg then now + 1 else now + channelLatency p) in
     Inr (p\<lparr>buffersUsed := us,
            delayList := delayList p @ [(delay, msg\<lparr>bufferTime := bufferTime msg - now\<rparr>)]\<rparr>)))))"

text \<open>\<^verbatim>\<open>drive\<close> releases the messages at the front of the delay queue whose time has come, telling
  the owner (\<^verbatim>\<open>netSwitch\<close> or \<^verbatim>\<open>netNode\<close>) of each one before queueing it. \<open>notify\<close> is the owner's
  \<^verbatim>\<open>notifyWaitingMessage\<close> on the owner's counters.\<close>

fun ip_release ::
  "(int \<Rightarrow> 'o \<Rightarrow> 'o res) \<Rightarrow> int \<Rightarrow> (int \<times> MessageState) list \<Rightarrow> ChannelInputPort \<times> 'o \<Rightarrow> (ChannelInputPort \<times> 'o) res" where
  "ip_release notify now [] (p, w) = Inr (p\<lparr>delayList := []\<rparr>, w)"
| "ip_release notify now ((d, m) # ds) (p, w) =
     (if d \<le> now
      then bindE (notify (networkVC m) w) (\<lambda>w'.
           bindE (insertMessageHelper now m p) (\<lambda>p'.
           ip_release notify now ds (p', w')))
      else Inr (p\<lparr>delayList := (d, m) # ds\<rparr>, w))"

definition ip_drive :: "(int \<Rightarrow> 'o \<Rightarrow> 'o res) \<Rightarrow> int \<Rightarrow> ChannelInputPort \<times> 'o \<Rightarrow> (ChannelInputPort \<times> 'o) res" where
  "ip_drive notify now pw = ip_release notify now (delayList (fst pw)) pw"

definition ip_removeMessage :: "int \<Rightarrow> int \<Rightarrow> ChannelInputPort \<Rightarrow> (MessageState \<times> ChannelInputPort) res" where
  "ip_removeMessage now vc p =
     bindE (removeMessage now vc p) (\<lambda>(msg, p').
     Inr (msg\<lparr>bufferTime := bufferTime msg - min (transmitLatency msg) (channelLatency p)\<rparr>, p'))"

definition setLocalDelay :: "ChannelInputPort \<Rightarrow> ChannelInputPort" where
  "setLocalDelay p = p\<lparr>channelLatency := 1\<rparr>"

subsection \<open>Channels and output ports\<close>

datatype ChannelState = CS_IDLE | CS_WAIT_FOR_ACCEPT | CS_TRANSFERRING

text \<open>A port is named by its owner: port \<open>p\<close> of switch \<open>s\<close>, or the port of a node.\<close>

datatype port_ref = SwitchPort nat nat | NodePort nat

record Channel =
  chan_id :: int
  busy :: int
  localLatencyDivider :: int
  state :: ChannelState
  fromPort :: "port_ref option"
  toPort :: "port_ref option"
  messagesWaiting :: int

definition Channel_new :: "int \<Rightarrow> Channel" where
  "Channel_new n = \<lparr>chan_id = n, busy = 0, localLatencyDivider = 1, state = CS_IDLE,
     fromPort = None, toPort = None, messagesWaiting = 0\<rparr>"

definition notifyWaitingMessage :: "Channel \<Rightarrow> Channel" where
  "notifyWaitingMessage c = c\<lparr>messagesWaiting := messagesWaiting c + 1\<rparr>"

definition setLocalLatencyDivider :: "int \<Rightarrow> Channel \<Rightarrow> Channel" where
  "setLocalLatencyDivider latency c = c\<lparr>localLatencyDivider := latency\<rparr>"

text \<open>\<^verbatim>\<open>ChannelOutputPort::insertMessage\<close> also counts the message at the port's channel; the
  channels are passed as the array they are kept in.\<close>

definition op_insertMessage ::
  "int \<Rightarrow> MessageState \<Rightarrow> ChannelPort \<Rightarrow> Channel list \<Rightarrow> (ChannelPort \<times> Channel list) res" where
  "op_insertMessage now msg p chs =
     bindE (hasBufferSpace p (networkVC msg)) (\<lambda>space.
     bindE (dbg_assert space) (\<lambda>_.
     bindE (arr_at (buffersUsed p) (networkVC msg)) (\<lambda>u.
     let msg = msg\<lparr>bufferTime := bufferTime msg - now\<rparr>;
         msg = (if u = 0 then msg\<lparr>acceptTime := acceptTime msg - now\<rparr> else msg) in
     bindE (arr_set (buffersUsed p) (networkVC msg) (u + 1)) (\<lambda>us.
     (case channel p of None \<Rightarrow> Inl OutOfBounds | Some c \<Rightarrow>
        bindE (vec_at chs c) (\<lambda>ch.
        bindE (vec_set chs c (notifyWaitingMessage ch)) (\<lambda>chs'.
        bindE (insertMessageHelper now msg (p\<lparr>buffersUsed := us\<rparr>)) (\<lambda>p'.
        Inr (p', chs')))))))))"

definition op_removeMessage :: "int \<Rightarrow> int \<Rightarrow> ChannelPort \<Rightarrow> (MessageState \<times> ChannelPort) res" where
  "op_removeMessage now vc p =
     bindE (removeMessage now vc p) (\<lambda>(msg, p').
     let msg = msg\<lparr>acceptTime := acceptTime msg + now\<rparr> in
     bindE (arr_at (msl p') vc) (\<lambda>q.
     bindE (arr_set (msl p') vc
        (case q of [] \<Rightarrow> [] | h # t \<Rightarrow> h\<lparr>acceptTime := acceptTime h - now\<rparr> # t)) (\<lambda>ms.
     Inr (msg, p'\<lparr>msl := ms\<rparr>))))"

text \<open>The transfer loop of \<^verbatim>\<open>CS_WAIT_FOR_ACCEPT\<close>: the lowest virtual channel that has a message at
  the sending port and space at the receiving port moves one message and the loop ends.\<close>

fun channel_accept ::
  "int \<Rightarrow> nat list \<Rightarrow> Channel \<times> ChannelPort \<times> ChannelInputPort \<Rightarrow> (Channel \<times> ChannelPort \<times> ChannelInputPort) res" where
  "channel_accept now [] s = Inr s"
| "channel_accept now (i # is) (ch, fp, tp) =
     bindE (hasMessage fp (int i)) (\<lambda>has.
     bindE (if has then hasBufferSpace tp (int i) else Inr False) (\<lambda>go.
     if go then
       bindE (op_removeMessage now (int i) fp) (\<lambda>(msg, fp').
       bindE (ip_insertMessage now msg tp) (\<lambda>tp'.
       bindE (c_div (transmitLatency msg + localLatencyDivider ch - 1) (localLatencyDivider ch)) (\<lambda>b.
       Inr (ch\<lparr>state := CS_TRANSFERRING, busy := (if b \<le> 0 then 1 else b),
               messagesWaiting := messagesWaiting ch - 1\<rparr>, fp', tp'))))
     else channel_accept now is (ch, fp, tp)))"

definition channel_transfer :: "Channel \<Rightarrow> Channel" where
  "channel_transfer ch = (let ch = ch\<lparr>busy := busy ch - 1\<rparr> in
     if busy ch \<le> 0 then ch\<lparr>state := CS_IDLE\<rparr> else ch)"

definition channel_wait ::
  "int \<Rightarrow> Channel \<times> ChannelPort \<times> ChannelInputPort \<Rightarrow> (Channel \<times> ChannelPort \<times> ChannelInputPort) res" where
  "channel_wait now s = (case s of (ch, fp, tp) \<Rightarrow>
     bindE (dbg_assert (busy ch \<le> 0)) (\<lambda>_.
     bindE (dbg_assert (messagesWaiting ch > 0)) (\<lambda>_.
     bindE (channel_accept now [0..<MAX_VC] (ch, fp, tp)) (\<lambda>(ch', fp', tp').
     if state ch' = CS_TRANSFERRING then Inr (channel_transfer ch', fp', tp')
     else Inr (ch', fp', tp')))))"

definition channel_drive ::
  "int \<Rightarrow> Channel \<times> ChannelPort \<times> ChannelInputPort \<Rightarrow> (Channel \<times> ChannelPort \<times> ChannelInputPort) res" where
  "channel_drive now s = (case s of (ch, fp, tp) \<Rightarrow>
     (case state ch of
        CS_IDLE \<Rightarrow>
          bindE (dbg_assert (busy ch \<le> 0)) (\<lambda>_.
          if messagesWaiting ch > 0 then channel_wait now (ch\<lparr>state := CS_WAIT_FOR_ACCEPT\<rparr>, fp, tp)
          else Inr (ch, fp, tp))
      | CS_WAIT_FOR_ACCEPT \<Rightarrow> channel_wait now (ch, fp, tp)
      | CS_TRANSFERRING \<Rightarrow> Inr (channel_transfer ch, fp, tp)))"

definition setFromPort :: "port_ref \<Rightarrow> Channel \<Rightarrow> Channel res" where
  "setFromPort r ch = (case fromPort ch of Some _ \<Rightarrow> Inl ErrorReturn | None \<Rightarrow> Inr (ch\<lparr>fromPort := Some r\<rparr>))"

definition setToPort :: "port_ref \<Rightarrow> Channel \<Rightarrow> Channel res" where
  "setToPort r ch = (case toPort ch of Some _ \<Rightarrow> Inl ErrorReturn | None \<Rightarrow> Inr (ch\<lparr>toPort := Some r\<rparr>))"

section \<open>Invariants\<close>

text \<open>What the network never changes about a message on its way.\<close>

type_synonym msg_ident = "int \<times> int \<times> int \<times> int \<times> bool \<times> int \<times> bool"

definition ident :: "MessageState \<Rightarrow> msg_ident" where
  "ident m = (serial m, srcNode m, destNode m, priority m, flexusInFastMode m, startTS m, myList m)"

lemma ident_simps [simp]:
  "ident (m\<lparr>atHeadTime := x\<rparr>) = ident m" "ident (m\<lparr>bufferTime := x\<rparr>) = ident m"
  "ident (m\<lparr>acceptTime := x\<rparr>) = ident m" "ident (m\<lparr>nextHop := x\<rparr>) = ident m"
  "ident (m\<lparr>nextVC := x\<rparr>) = ident m" "ident (m\<lparr>networkVC := x\<rparr>) = ident m"
  "ident (m\<lparr>hopCount := x\<rparr>) = ident m"
  "ident (m\<lparr>transmitLatency := x\<rparr>) = ident m"
  by (simp_all add: ident_def)

lemma ident_eqD: "ident m = ident m' \<Longrightarrow> destNode m = destNode m' \<and> priority m = priority m' \<and> serial m = serial m'
    \<and> srcNode m = srcNode m'"
  by (simp add: ident_def)

text \<open>A port with \<open>pend v\<close> further messages counted against virtual channel \<open>v\<close>.\<close>

definition port_inv :: "(nat \<Rightarrow> nat) \<Rightarrow> 'z ChannelPort_scheme \<Rightarrow> bool" where
  "port_inv pend p \<longleftrightarrow> length (bufferCount p) = MAX_VC \<and> length (buffersUsed p) = MAX_VC \<and> length (msl p) = MAX_VC \<and>
     (\<forall>v < MAX_VC. 0 < bufferCount p ! v \<and> buffersUsed p ! v = int (length (msl p ! v) + pend v) \<and>
        buffersUsed p ! v \<le> bufferCount p ! v \<and> (\<forall>m \<in> set (msl p ! v). networkVC m = int v))"

definition delayed :: "ChannelInputPort \<Rightarrow> nat \<Rightarrow> MessageState list" where
  "delayed p v = filter (\<lambda>m. networkVC m = int v) (map snd (delayList p))"

definition out_inv :: "ChannelPort \<Rightarrow> bool" where
  "out_inv p \<longleftrightarrow> port_inv (\<lambda>_. 0) p"

definition in_inv :: "ChannelInputPort \<Rightarrow> bool" where
  "in_inv p \<longleftrightarrow> port_inv (\<lambda>v. length (delayed p v)) p \<and> (\<forall>m \<in> set (map snd (delayList p)). vc_ok (networkVC m))"

text \<open>The messages of a port, and the messages that still have to leave it on one virtual channel.\<close>

definition port_msgs :: "'z ChannelPort_scheme \<Rightarrow> MessageState list" where
  "port_msgs p = concat (msl p)"

definition in_msgs :: "ChannelInputPort \<Rightarrow> MessageState list" where
  "in_msgs p = port_msgs p @ map snd (delayList p)"

definition in_seq :: "ChannelInputPort \<Rightarrow> nat \<Rightarrow> MessageState list" where
  "in_seq p v = msl p ! v @ delayed p v"

lemma port_invD:
  assumes "port_inv pend p"
  shows pi_len: "length (bufferCount p) = 8" "length (buffersUsed p) = 8" "length (msl p) = 8"
    and pi_pos: "v < 8 \<Longrightarrow> 0 < bufferCount p ! v"
    and pi_used: "v < 8 \<Longrightarrow> buffersUsed p ! v = int (length (msl p ! v) + pend v)"
    and pi_le: "v < 8 \<Longrightarrow> buffersUsed p ! v \<le> bufferCount p ! v"
    and pi_vc: "v < 8 \<Longrightarrow> m \<in> set (msl p ! v) \<Longrightarrow> networkVC m = int v"
  using assms by (auto simp: port_inv_def)

lemma port_inv_more [simp]:
  "port_inv pend (p\<lparr>channel := c\<rparr>) = port_inv pend p"
  by (simp add: port_inv_def)

subsection \<open>Queue steps\<close>

definition enq :: "int \<Rightarrow> MessageState list \<Rightarrow> MessageState \<Rightarrow> MessageState list" where
  "enq now q m = (if q = [] then [m\<lparr>atHeadTime := atHeadTime m - now\<rparr>] else q @ [m])"

definition deq :: "int \<Rightarrow> MessageState list \<Rightarrow> MessageState list" where
  "deq now q = (case tl q of [] \<Rightarrow> [] | h # t \<Rightarrow> h\<lparr>atHeadTime := atHeadTime h - now\<rparr> # t)"

lemma enq_simps [simp]:
  "map ident (enq now q m) = map ident q @ [ident m]" "length (enq now q m) = Suc (length q)"
  "map networkVC (enq now q m) = map networkVC q @ [networkVC m]" "enq now q m \<noteq> []"
  by (auto simp: enq_def)

lemma deq_simps [simp]:
  "map ident (deq now q) = map ident (tl q)" "length (deq now q) = length q - 1"
  "map networkVC (deq now q) = map networkVC (tl q)"
  by (cases q; simp add: deq_def split: list.split)+

text \<open>Facts about every message of a queue that depend on its identity and virtual channel only.\<close>

lemma networkVC_enq: "(\<forall>x \<in> set (enq now q m). networkVC x = k) \<longleftrightarrow> (\<forall>x \<in> set q. networkVC x = k) \<and> networkVC m = k"
  by (auto simp: enq_def)

lemma networkVC_deq: "\<forall>x \<in> set q. networkVC x = k \<Longrightarrow> \<forall>x \<in> set (deq now q). networkVC x = k"
  by (cases q; cases "tl q") (auto simp: deq_def)

lemma insertMessageHelper_eq:
  assumes "length (msl p) = 8" "networkVC m = int v" "v < 8"
  shows "insertMessageHelper now m p = Inr (p\<lparr>msl := (msl p)[v := enq now (msl p ! v) m]\<rparr>)"
  using assms by (simp add: insertMessageHelper_def enq_def Let_def)

lemma removeMessage_eq:
  assumes "port_inv pend p" "v < 8" "msl p ! v \<noteq> []"
  shows "removeMessage now (int v) p =
     Inr ((hd (msl p ! v))\<lparr>atHeadTime := atHeadTime (hd (msl p ! v)) + now, bufferTime := bufferTime (hd (msl p ! v)) + now\<rparr>,
          p\<lparr>msl := (msl p)[v := deq now (msl p ! v)],
            buffersUsed := (buffersUsed p)[v := buffersUsed p ! v - 1]\<rparr>)"
  using assms pi_len[OF assms(1)] by (simp add: removeMessage_def deq_def Let_def)

lemma removeMessage_empty:
  assumes "port_inv pend p" "v < 8" "msl p ! v = []"
  shows "removeMessage now (int v) p = Inl AssertionFailed"
  using assms pi_len[OF assms(1)] by (simp add: removeMessage_def)

lemma port_inv_remove:
  assumes I: "port_inv pend p" and v: "v < 8" and ne: "msl p ! v \<noteq> []"
    and q: "length q = length (msl p ! v) - 1" "\<forall>m \<in> set q. networkVC m = int v"
  shows "port_inv pend (p\<lparr>msl := (msl p)[v := q], buffersUsed := (buffersUsed p)[v := buffersUsed p ! v - 1]\<rparr>)"
proof -
  have "buffersUsed p ! v - 1 = int (length q + pend v)"
    using pi_used[OF I v] ne q(1) by (cases "msl p ! v") simp_all
  moreover have "buffersUsed p ! v - 1 \<le> bufferCount p ! v" using pi_le[OF I v] by simp
  ultimately show ?thesis
    using I q(2) v unfolding port_inv_def by (auto simp: nth_list_update)
qed

lemma hasMessage_eq:
  assumes "port_inv pend p" "v < 8"
  shows "hasMessage p (int v) = Inr (msl p ! v \<noteq> [])"
  using assms pi_len[OF assms(1)] by (simp add: hasMessage_def)

lemma peekMessage_eq:
  assumes "port_inv pend p" "v < 8"
  shows "peekMessage p (int v) = Inr (case msl p ! v of [] \<Rightarrow> None | m # _ \<Rightarrow> Some m)"
  using assms pi_len[OF assms(1)] by (simp add: peekMessage_def)

lemma hasBufferSpace_eq:
  assumes "port_inv pend p" "v < 8"
  shows "hasBufferSpace p (int v) = Inr (buffersUsed p ! v < bufferCount p ! v)"
  using assms pi_len[OF assms(1)] by (simp add: hasBufferSpace_def)

lemma ChannelPort_new_inv:
  "0 < b \<Longrightarrow> \<exists>p. ChannelPort_new b = Inr p \<and> out_inv p \<and> port_msgs p = [] \<and> channel p = None"
  by (simp add: ChannelPort_new_def out_inv_def port_inv_def port_msgs_def numeral_eq_Suc less_Suc_eq)

lemma ChannelInputPort_new_inv:
  "0 < b \<Longrightarrow> \<exists>p. ChannelInputPort_new b l = Inr p \<and> in_inv p \<and> in_msgs p = [] \<and> channel p = None \<and> channelLatency p = l"
  by (simp add: ChannelInputPort_new_def ChannelPort_new_def in_inv_def port_inv_def port_msgs_def in_msgs_def
      delayed_def ChannelPort.defs ChannelInputPort.defs numeral_eq_Suc less_Suc_eq)

subsection \<open>Port operations keep the invariants\<close>

lemma port_inv_insert:
  assumes I: "port_inv pend p" and v: "v < 8" and m: "networkVC m = int v"
    and le: "buffersUsed p ! v < bufferCount p ! v"
  shows "port_inv pend (p\<lparr>buffersUsed := (buffersUsed p)[v := buffersUsed p ! v + 1],
      msl := (msl p)[v := enq now (msl p ! v) m]\<rparr>)"
  using I v m le unfolding port_inv_def by (auto simp: nth_list_update networkVC_enq)

definition counted :: "nat \<Rightarrow> Channel list \<Rightarrow> Channel list" where
  "counted c chs = chs[c := notifyWaitingMessage (chs ! c)]"

definition op_entry :: "int \<Rightarrow> ChannelPort \<Rightarrow> MessageState \<Rightarrow> MessageState" where
  "op_entry now p m = (let m = m\<lparr>bufferTime := bufferTime m - now\<rparr> in
     if buffersUsed p ! nat (networkVC m) = 0 then m\<lparr>acceptTime := acceptTime m - now\<rparr> else m)"

lemma op_entry_simps [simp]: "ident (op_entry now p m) = ident m" "networkVC (op_entry now p m) = networkVC m"
  by (simp_all add: op_entry_def Let_def)

lemma op_insertMessage_eq:
  assumes I: "out_inv p" and m: "networkVC m = int v" "v < 8" and sp: "buffersUsed p ! v < bufferCount p ! v"
    and c: "channel p = Some c" "c < length chs"
  shows "op_insertMessage now m p chs = Inr (p\<lparr>buffersUsed := (buffersUsed p)[v := buffersUsed p ! v + 1],
      msl := (msl p)[v := enq now (msl p ! v) (op_entry now p m)]\<rparr>, counted c chs)"
proof -
  note P = I[unfolded out_inv_def]
  have "insertMessageHelper now m' (p\<lparr>buffersUsed := us\<rparr>)
      = Inr (p\<lparr>buffersUsed := us, msl := (msl p)[v := enq now (msl p ! v) m']\<rparr>)"
    if "networkVC m' = int v" for m' us
    using insertMessageHelper_eq[of "p\<lparr>buffersUsed := us\<rparr>" m' v now] that pi_len[OF P] m by simp
  then show ?thesis
    using m sp c pi_len[OF P] hasBufferSpace_eq[OF P m(2)]
    by (simp add: op_insertMessage_def op_entry_def counted_def Let_def)
qed

lemma op_insertMessage_full:
  assumes I: "out_inv p" and m: "networkVC m = int v" "v < 8" and sp: "\<not> buffersUsed p ! v < bufferCount p ! v"
  shows "op_insertMessage now m p chs = Inl AssertionFailed"
  using m sp hasBufferSpace_eq[OF I[unfolded out_inv_def] m(2)] by (simp add: op_insertMessage_def)

definition op_exit :: "int \<Rightarrow> MessageState list \<Rightarrow> MessageState list" where
  "op_exit now q = (case deq now q of [] \<Rightarrow> [] | h # t \<Rightarrow> h\<lparr>acceptTime := acceptTime h - now\<rparr> # t)"

lemma op_exit_simps [simp]:
  "map ident (op_exit now q) = map ident (tl q)" "length (op_exit now q) = length q - 1"
  "map networkVC (op_exit now q) = map networkVC (tl q)"
proof -
  have "map ident (op_exit now q) = map ident (deq now q) \<and> length (op_exit now q) = length (deq now q)
      \<and> map networkVC (op_exit now q) = map networkVC (deq now q)"
    by (cases "deq now q") (simp_all add: op_exit_def del: deq_simps)
  then show "map ident (op_exit now q) = map ident (tl q)" "length (op_exit now q) = length q - 1"
    "map networkVC (op_exit now q) = map networkVC (tl q)"
    by simp_all
qed

lemma networkVC_op_exit: "\<forall>x \<in> set q. networkVC x = k \<Longrightarrow> \<forall>x \<in> set (op_exit now q). networkVC x = k"
  using networkVC_deq[of q k now] by (cases "deq now q") (simp_all add: op_exit_def)

lemma op_removeMessage_ok:
  assumes I: "out_inv p" and v: "v < 8" and ne: "msl p ! v \<noteq> []"
  shows "\<exists>m. op_removeMessage now (int v) p = Inr (m, p\<lparr>msl := (msl p)[v := op_exit now (msl p ! v)],
       buffersUsed := (buffersUsed p)[v := buffersUsed p ! v - 1]\<rparr>)
     \<and> ident m = ident (hd (msl p ! v)) \<and> networkVC m = int v \<and> transmitLatency m = transmitLatency (hd (msl p ! v))"
  using removeMessage_eq[OF I[unfolded out_inv_def] v ne, of now] pi_len[OF I[unfolded out_inv_def]] v
    pi_vc[OF I[unfolded out_inv_def] v, of "hd (msl p ! v)"] ne
  by (simp add: op_removeMessage_def op_exit_def Let_def)

lemma out_inv_remove:
  assumes "out_inv p" "v < 8" "msl p ! v \<noteq> []"
  shows "out_inv (p\<lparr>msl := (msl p)[v := op_exit now (msl p ! v)],
     buffersUsed := (buffersUsed p)[v := buffersUsed p ! v - 1]\<rparr>)"
proof -
  note P = assms(1)[unfolded out_inv_def]
  have "\<forall>m \<in> set (op_exit now (msl p ! v)). networkVC m = int v"
    by (rule networkVC_op_exit) (use pi_vc[OF P assms(2)] in blast)
  then show ?thesis
    unfolding out_inv_def by (intro port_inv_remove[OF P assms(2,3)]) simp_all
qed

lemma ip_insertMessage_ok:
  assumes I: "in_inv p" and m: "networkVC m = int v" "v < 8" and sp: "buffersUsed p ! v < bufferCount p ! v"
  shows "\<exists>d m'. ip_insertMessage now m p = Inr (p\<lparr>buffersUsed := (buffersUsed p)[v := buffersUsed p ! v + 1],
       delayList := delayList p @ [(d, m')]\<rparr>) \<and> ident m' = ident m \<and> networkVC m' = int v
     \<and> d = (if flexusInFastMode m then now + 1 else now + channelLatency p)"
  using m sp pi_len[of "\<lambda>v. length (delayed p v)" p] I
  by (intro exI[of _ "if flexusInFastMode m then now + 1 else now + channelLatency p"]
      exI[of _ "m\<lparr>bufferTime := bufferTime m - now\<rparr>"])
    (simp add: ip_insertMessage_def Let_def in_inv_def)

lemma in_inv_insert:
  assumes I: "in_inv p" and m: "networkVC m = int v" "v < 8" and sp: "buffersUsed p ! v < bufferCount p ! v"
  shows "in_inv (p\<lparr>buffersUsed := (buffersUsed p)[v := buffersUsed p ! v + 1], delayList := delayList p @ [(d, m)]\<rparr>)"
  using I m sp unfolding in_inv_def port_inv_def
  by (auto simp: delayed_def nth_list_update)

subsection \<open>Bounded queues per virtual channel\<close>

text \<open>
  The contract of a buffer of the network: per virtual channel a first-in first-out queue of
  bounded capacity. \<open>put\<close> queues a message on the channel it carries and trips the assertion when
  that queue is full; \<open>get\<close> removes the oldest message of a channel and trips the assertion when
  there is none.
\<close>

locale vc_fifo =
  fixes inv :: "'p \<Rightarrow> bool"
    and contents :: "'p \<Rightarrow> nat \<Rightarrow> MessageState list"
    and capacity :: "'p \<Rightarrow> nat \<Rightarrow> int"
    and put :: "MessageState \<Rightarrow> 'p \<Rightarrow> 'p res"
    and get :: "nat \<Rightarrow> 'p \<Rightarrow> (MessageState \<times> 'p) res"
  assumes put_ok: "inv p \<Longrightarrow> networkVC m = int v \<Longrightarrow> v < 8 \<Longrightarrow> int (length (contents p v)) < capacity p v \<Longrightarrow>
      \<exists>p'. put m p = Inr p' \<and> inv p' \<and> map ident (contents p' v) = map ident (contents p v) @ [ident m]
        \<and> (\<forall>w. w < 8 \<longrightarrow> w \<noteq> v \<longrightarrow> contents p' w = contents p w) \<and> capacity p' = capacity p"
    and put_full: "inv p \<Longrightarrow> networkVC m = int v \<Longrightarrow> v < 8 \<Longrightarrow> \<not> int (length (contents p v)) < capacity p v \<Longrightarrow>
      put m p = Inl AssertionFailed"
    and get_ok: "inv p \<Longrightarrow> v < 8 \<Longrightarrow> contents p v \<noteq> [] \<Longrightarrow>
      \<exists>m p'. get v p = Inr (m, p') \<and> inv p' \<and> ident m = ident (hd (contents p v)) \<and> networkVC m = int v
        \<and> map ident (contents p' v) = map ident (tl (contents p v))
        \<and> (\<forall>w. w < 8 \<longrightarrow> w \<noteq> v \<longrightarrow> contents p' w = contents p w) \<and> capacity p' = capacity p"
    and get_empty: "inv p \<Longrightarrow> v < 8 \<Longrightarrow> contents p v = [] \<Longrightarrow> get v p = Inl AssertionFailed"
    and bounded: "inv p \<Longrightarrow> v < 8 \<Longrightarrow> int (length (contents p v)) \<le> capacity p v"
begin

fun get_run :: "nat \<Rightarrow> nat \<Rightarrow> 'p \<Rightarrow> (MessageState list \<times> 'p) res" where
  "get_run 0 v p = Inr ([], p)"
| "get_run (Suc n) v p = bindE (get v p) (\<lambda>(m, p'). bindE (get_run n v p') (\<lambda>(ms, p''). Inr (m # ms, p'')))"

lemma put_succeeds_iff:
  "inv p \<Longrightarrow> networkVC m = int v \<Longrightarrow> v < 8 \<Longrightarrow> (\<exists>p'. put m p = Inr p') \<longleftrightarrow> int (length (contents p v)) < capacity p v"
  using put_ok put_full by fastforce

lemma put_all:
  assumes "inv p" "v < 8" "\<forall>m \<in> set ms. networkVC m = int v"
    "int (length (contents p v) + length ms) \<le> capacity p v"
  shows "\<exists>p'. foldE put ms p = Inr p' \<and> inv p' \<and> map ident (contents p' v) = map ident (contents p v) @ map ident ms"
  using assms
proof (induction ms arbitrary: p)
  case Nil
  then show ?case by simp
next
  case (Cons m ms)
  then obtain p1 where p1: "put m p = Inr p1" "inv p1"
      "map ident (contents p1 v) = map ident (contents p v) @ [ident m]" "capacity p1 = capacity p"
    using put_ok[of p m v] by fastforce
  from p1(3) have len: "length (contents p1 v) = Suc (length (contents p v))"
    by (metis length_append_singleton length_map)
  have "\<exists>p'. foldE put ms p1 = Inr p' \<and> inv p' \<and> map ident (contents p' v) = map ident (contents p1 v) @ map ident ms"
    by (rule Cons.IH) (use p1 len Cons.prems in auto)
  with p1 show ?case by auto
qed

lemma get_all:
  assumes "inv p" "v < 8" "n \<le> length (contents p v)"
  shows "\<exists>ms p'. get_run n v p = Inr (ms, p') \<and> inv p' \<and> map ident ms = take n (map ident (contents p v))
    \<and> map ident (contents p' v) = drop n (map ident (contents p v))"
  using assms
proof (induction n arbitrary: p)
  case 0
  then show ?case by simp
next
  case (Suc n)
  then have ne: "contents p v \<noteq> []" by auto
  with Suc.prems obtain m p1 where p1: "get v p = Inr (m, p1)" "inv p1" "ident m = ident (hd (contents p v))"
      "map ident (contents p1 v) = map ident (tl (contents p v))"
    using get_ok[of p v] by blast
  from p1(4) have "length (contents p1 v) = length (contents p v) - 1" by (metis length_map length_tl)
  with Suc.IH[of p1] p1(2) Suc.prems obtain ms p2 where p2: "get_run n v p1 = Inr (ms, p2)" "inv p2"
      "map ident ms = take n (map ident (contents p1 v))" "map ident (contents p2 v) = drop n (map ident (contents p1 v))"
    by fastforce
  from ne p1 p2 show ?case
    by (cases "contents p v") (auto intro!: exI[of _ "m # ms"] exI[of _ p2])
qed

text \<open>First in, first out: after filling an empty queue, reading it returns the messages in the
  order they were queued.\<close>

theorem fill_drain:
  assumes "inv p" "v < 8" "contents p v = []" "\<forall>m \<in> set ms. networkVC m = int v" "int (length ms) \<le> capacity p v"
  shows "\<exists>p1 ms' p2. foldE put ms p = Inr p1 \<and> get_run (length ms) v p1 = Inr (ms', p2)
    \<and> map ident ms' = map ident ms \<and> contents p2 v = [] \<and> inv p2"
proof -
  obtain p1 where p1: "foldE put ms p = Inr p1" "inv p1" "map ident (contents p1 v) = map ident ms"
    using put_all[OF assms(1,2,4)] assms(3,5) by auto
  then have "length (contents p1 v) = length ms" by (metis length_map)
  with get_all[OF p1(2) assms(2), of "length ms"] p1(3) obtain ms' p2 where
    "get_run (length ms) v p1 = Inr (ms', p2)" "inv p2" "map ident ms' = map ident ms" "map ident (contents p2 v) = []"
    by auto
  with p1(1) show ?thesis by auto
qed

end

text \<open>An output port attached to a channel is such a queue; the channels are part of its state
  because queueing a message counts it at the channel.\<close>

definition attached :: "ChannelPort \<times> Channel list \<Rightarrow> bool" where
  "attached = (\<lambda>(p, chs). out_inv p \<and> (case channel p of None \<Rightarrow> False | Some c \<Rightarrow> c < length chs))"

definition op_put :: "int \<Rightarrow> MessageState \<Rightarrow> ChannelPort \<times> Channel list \<Rightarrow> (ChannelPort \<times> Channel list) res" where
  "op_put now m = (\<lambda>(p, chs). op_insertMessage now m p chs)"

definition op_get :: "int \<Rightarrow> nat \<Rightarrow> ChannelPort \<times> Channel list \<Rightarrow> (MessageState \<times> ChannelPort \<times> Channel list) res" where
  "op_get now v = (\<lambda>(p, chs). bindE (op_removeMessage now (int v) p) (\<lambda>(m, p'). Inr (m, p', chs)))"

interpretation opq: vc_fifo attached "\<lambda>s v. msl (fst s) ! v" "\<lambda>s v. bufferCount (fst s) ! v" "op_put now" "op_get now"
  for now
proof (unfold_locales, goal_cases)
  case (1 s m v)
  obtain p chs where s: "s = (p, chs)" by (cases s)
  with 1 obtain c where c: "channel p = Some c" "c < length chs" and I: "out_inv p"
    by (auto simp: attached_def split: option.splits)
  have sp: "buffersUsed p ! v < bufferCount p ! v" using pi_used[OF I[unfolded out_inv_def] 1(3)] 1(4) s by simp
  let ?p = "p\<lparr>buffersUsed := (buffersUsed p)[v := buffersUsed p ! v + 1],
      msl := (msl p)[v := enq now (msl p ! v) (op_entry now p m)]\<rparr>"
  have "out_inv ?p" using port_inv_insert[OF I[unfolded out_inv_def] 1(3) _ sp, of "op_entry now p m"] 1(2)
    by (simp add: out_inv_def)
  then show ?case
    using op_insertMessage_eq[OF I 1(2,3) sp c, of now] 1(2,3) s c pi_len[OF I[unfolded out_inv_def]]
    by (intro exI[of _ "(?p, counted c chs)"]) (simp add: op_put_def attached_def counted_def)
next
  case (2 s m v)
  obtain p chs where s: "s = (p, chs)" by (cases s)
  with 2 have I: "out_inv p" by (simp add: attached_def)
  show ?case
    using op_insertMessage_full[OF I 2(2,3), of now chs] pi_used[OF I[unfolded out_inv_def] 2(3)] 2(4) s
    by (simp add: op_put_def)
next
  case (3 s v)
  obtain p chs where s: "s = (p, chs)" by (cases s)
  with 3 have I: "out_inv p" and ne: "msl p ! v \<noteq> []" by (auto simp: attached_def)
  let ?p = "p\<lparr>msl := (msl p)[v := op_exit now (msl p ! v)], buffersUsed := (buffersUsed p)[v := buffersUsed p ! v - 1]\<rparr>"
  obtain m where "op_removeMessage now (int v) p = Inr (m, ?p)" "ident m = ident (hd (msl p ! v))" "networkVC m = int v"
    using op_removeMessage_ok[OF I 3(2) ne, of now] by blast
  then show ?case
    using 3 s out_inv_remove[OF I 3(2) ne, of now] pi_len[OF I[unfolded out_inv_def]]
    by (intro exI[of _ m] exI[of _ "(?p, chs)"]) (simp add: op_get_def attached_def)
next
  case (4 s v)
  then show ?case
    using removeMessage_empty[of "\<lambda>_. 0" "fst s" v now]
    by (auto simp: op_get_def attached_def out_inv_def op_removeMessage_def)
next
  case (5 s v)
  then show ?case
    using pi_used[of "\<lambda>_. 0" "fst s" v] pi_le[of "\<lambda>_. 0" "fst s" v]
    by (auto simp: attached_def out_inv_def)
qed

section \<open>Links\<close>

text \<open>Identity and virtual channel of a message: what a link preserves.\<close>

type_synonym msg_tag = "int \<times> msg_ident"

definition tag :: "MessageState \<Rightarrow> msg_tag" where
  "tag m = (networkVC m, ident m)"

lemma tag_simps [simp]:
  "tag (m\<lparr>atHeadTime := x\<rparr>) = tag m" "tag (m\<lparr>bufferTime := x\<rparr>) = tag m" "tag (m\<lparr>acceptTime := x\<rparr>) = tag m"
  by (simp_all add: tag_def)

lemma map_tag_zip: "map tag xs = zip (map networkVC xs) (map ident xs)"
  by (induction xs) (simp_all add: tag_def)

lemma map_tag_eq: "map networkVC xs = map networkVC ys \<Longrightarrow> map ident xs = map ident ys \<Longrightarrow> map tag xs = map tag ys"
  by (simp only: map_tag_zip)

lemma map_tag_enq [simp]: "map tag (enq now q m) = map tag q @ [tag m]"
  using map_tag_eq[of "enq now q m" "q @ [m]"] by simp

lemma map_tag_deq [simp]: "map tag (deq now q) = map tag (tl q)"
  by (rule map_tag_eq) simp_all

lemma map_tag_op_exit [simp]: "map tag (op_exit now q) = map tag (tl q)"
  by (rule map_tag_eq) simp_all

lemma tag_eqI: "networkVC m = networkVC m' \<Longrightarrow> ident m = ident m' \<Longrightarrow> tag m = tag m'"
  by (simp add: tag_def)

definition tags :: "MessageState list \<Rightarrow> msg_tag multiset" where
  "tags ms = mset (map tag ms)"

lemma tags_append [simp]: "tags (xs @ ys) = tags xs + tags ys"
  by (simp add: tags_def)

lemma tags_Nil [simp]: "tags [] = {#}"
  by (simp add: tags_def)

lemma tags_Cons [simp]: "tags (m # ms) = add_mset (tag m) (tags ms)"
  by (simp add: tags_def)

lemma size_tags [simp]: "size (tags ms) = length ms"
  by (simp add: tags_def)

lemma port_msgs_update:
  assumes "v < length (msl p)"
  shows "tags (concat ((msl p)[v := q])) + tags (msl p ! v) = tags (concat (msl p)) + tags q"
proof -
  have "image_mset tag (mset (concat ((msl p)[v := q])) + mset (msl p ! v)) = image_mset tag (mset (concat (msl p)) + mset q)"
    using mset_concat_update[OF assms, of q] by simp
  then show ?thesis by (simp add: tags_def)
qed

lemma tags_map_cong: "map tag xs = map tag ys \<Longrightarrow> tags xs = tags ys"
  by (simp add: tags_def)

text \<open>Adding a message to a queue of a port adds it to the port, removing the head removes it.\<close>

lemma port_tags_enq:
  assumes "v < length (msl p)"
  shows "tags (concat ((msl p)[v := enq now (msl p ! v) m])) = add_mset (tag m) (tags (port_msgs p))"
proof -
  have "tags (enq now (msl p ! v) m) = tags (msl p ! v) + {#tag m#}"
    using tags_map_cong[of "enq now (msl p ! v) m" "msl p ! v @ [m]"] by simp
  then have "tags (concat ((msl p)[v := enq now (msl p ! v) m])) + tags (msl p ! v)
      = add_mset (tag m) (tags (port_msgs p)) + tags (msl p ! v)"
    using port_msgs_update[OF assms, of "enq now (msl p ! v) m"] by (simp add: port_msgs_def)
  then show ?thesis by (simp only: add_right_cancel)
qed

lemma port_tags_deq:
  assumes "v < length (msl p)" "msl p ! v \<noteq> []" "map tag q = map tag (tl (msl p ! v))"
  shows "add_mset (tag (hd (msl p ! v))) (tags (concat ((msl p)[v := q]))) = tags (port_msgs p)"
  using port_msgs_update[OF assms(1), of q] tags_map_cong[OF assms(3)] assms(2)
  by (cases "msl p ! v") (simp_all add: port_msgs_def)

subsection \<open>One transfer\<close>

definition ready :: "ChannelPort \<Rightarrow> ChannelInputPort \<Rightarrow> nat \<Rightarrow> bool" where
  "ready fp tp v \<longleftrightarrow> msl fp ! v \<noteq> [] \<and> buffersUsed tp ! v < bufferCount tp ! v"

text \<open>The cycles a message occupies a channel: its transmission latency over the divider, rounded
  up, and at least one.\<close>

definition occupancy :: "Channel \<Rightarrow> MessageState \<Rightarrow> int" where
  "occupancy ch m = (let b = (transmitLatency m + localLatencyDivider ch - 1) sdiv localLatencyDivider ch in
     if b \<le> 0 then 1 else b)"

definition sender_after :: "int \<Rightarrow> nat \<Rightarrow> ChannelPort \<Rightarrow> ChannelPort" where
  "sender_after now v fp = fp\<lparr>msl := (msl fp)[v := op_exit now (msl fp ! v)],
     buffersUsed := (buffersUsed fp)[v := buffersUsed fp ! v - 1]\<rparr>"

definition receiver_after :: "int \<Rightarrow> MessageState \<Rightarrow> nat \<Rightarrow> ChannelInputPort \<Rightarrow> ChannelInputPort" where
  "receiver_after d m v tp = tp\<lparr>buffersUsed := (buffersUsed tp)[v := buffersUsed tp ! v + 1],
     delayList := delayList tp @ [(d, m)]\<rparr>"

definition occupied :: "int \<Rightarrow> Channel \<Rightarrow> Channel" where
  "occupied b ch = ch\<lparr>state := CS_TRANSFERRING, busy := b, messagesWaiting := messagesWaiting ch - 1\<rparr>"

lemma channel_accept_go:
  assumes "out_inv fp" "in_inv tp" "v < 8" "ready fp tp v" "0 < localLatencyDivider ch"
  shows "\<exists>d m. channel_accept now (v # is) (ch, fp, tp) =
      Inr (occupied (occupancy ch (hd (msl fp ! v))) ch, sender_after now v fp, receiver_after d m v tp)
    \<and> tag m = tag (hd (msl fp ! v))
    \<and> d = (if flexusInFastMode (hd (msl fp ! v)) then now + 1 else now + channelLatency tp)"
proof -
  have ne: "msl fp ! v \<noteq> []" and sp: "buffersUsed tp ! v < bufferCount tp ! v" using assms(4) by (auto simp: ready_def)
  note T = assms(2)[unfolded in_inv_def, THEN conjunct1] and F = assms(1)[unfolded out_inv_def]
  obtain m where m: "op_removeMessage now (int v) fp = Inr (m, sender_after now v fp)"
      "ident m = ident (hd (msl fp ! v))" "networkVC m = int v" "transmitLatency m = transmitLatency (hd (msl fp ! v))"
    using op_removeMessage_ok[OF assms(1,3) ne, of now] unfolding sender_after_def by blast
  obtain d m' where m': "ip_insertMessage now m tp = Inr (receiver_after d m' v tp)"
      "ident m' = ident m" "networkVC m' = int v" "d = (if flexusInFastMode m then now + 1 else now + channelLatency tp)"
    using ip_insertMessage_ok[OF assms(2) m(3) assms(3) sp, of now] unfolding receiver_after_def by blast
  have "networkVC (hd (msl fp ! v)) = int v" using pi_vc[OF F assms(3)] ne by simp
  then have t: "tag m' = tag (hd (msl fp ! v))" using m m' by (simp add: tag_def)
  have f: "flexusInFastMode m = flexusInFastMode (hd (msl fp ! v))" using m(2) by (simp add: ident_def)
  show ?thesis
    using m m' t f ne sp assms(5) hasMessage_eq[OF F assms(3)] hasBufferSpace_eq[OF T assms(3)]
    by (intro exI[of _ d] exI[of _ m']) (simp add: c_div_def occupied_def occupancy_def Let_def)
qed

lemma channel_accept_skip:
  assumes "out_inv fp" "in_inv tp" "v < 8" "\<not> ready fp tp v"
  shows "channel_accept now (v # is) (ch, fp, tp) = channel_accept now is (ch, fp, tp)"
  using assms hasMessage_eq[of "\<lambda>_. 0" fp v] hasBufferSpace_eq[of "\<lambda>v. length (delayed tp v)" tp v]
  by (auto simp: ready_def out_inv_def in_inv_def)

lemma channel_accept_find:
  assumes "out_inv fp" "in_inv tp" "\<forall>v \<in> set is. v < 8"
  shows "channel_accept now is (ch, fp, tp) =
     (case find (ready fp tp) is of None \<Rightarrow> Inr (ch, fp, tp) | Some v \<Rightarrow> channel_accept now [v] (ch, fp, tp))"
  using assms(3)
proof (induction "is")
  case Nil
  then show ?case by simp
next
  case (Cons v vs)
  show ?case
  proof (cases "ready fp tp v")
    case True
    with Cons.prems assms have "channel_accept now (v # vs) (ch, fp, tp) = channel_accept now [v] (ch, fp, tp)"
      using hasMessage_eq[of "\<lambda>_. 0" fp v] hasBufferSpace_eq[of "\<lambda>v. length (delayed tp v)" tp v]
      by (simp add: ready_def out_inv_def in_inv_def)
    with True show ?thesis by simp
  next
    case False
    with Cons channel_accept_skip[OF assms(1,2) _ False] show ?thesis by simp
  qed
qed

text \<open>Order on a link: the messages still to be read at the receiver, oldest first, followed by
  those still at the sender.\<close>

definition link_seq :: "ChannelPort \<Rightarrow> ChannelInputPort \<Rightarrow> nat \<Rightarrow> msg_tag list" where
  "link_seq fp tp v = map tag (in_seq tp v @ msl fp ! v)"

lemma moved_facts:
  assumes F: "out_inv fp" and T: "in_inv tp" and v: "v < 8" and r: "ready fp tp v" and m: "tag m = tag (hd (msl fp ! v))"
  shows "out_inv (sender_after now v fp)" "in_inv (receiver_after d m v tp)"
    and "tags (port_msgs fp) = add_mset (tag m) (tags (port_msgs (sender_after now v fp)))"
    and "in_msgs (receiver_after d m v tp) = in_msgs tp @ [m]"
    and "w < 8 \<Longrightarrow> link_seq (sender_after now v fp) (receiver_after d m v tp) w = link_seq fp tp w"
proof -
  note P = F[unfolded out_inv_def]
  have ne: "msl fp ! v \<noteq> []" and sp: "buffersUsed tp ! v < bufferCount tp ! v" using r by (auto simp: ready_def)
  have mv: "networkVC m = int v" using m pi_vc[OF P v, of "hd (msl fp ! v)"] ne by (simp add: tag_def)
  show "out_inv (sender_after now v fp)" using out_inv_remove[OF F v ne] by (simp add: sender_after_def)
  show "in_inv (receiver_after d m v tp)" using in_inv_insert[OF T mv v sp] by (simp add: receiver_after_def)
  show "tags (port_msgs fp) = add_mset (tag m) (tags (port_msgs (sender_after now v fp)))"
    using port_tags_deq[of v fp "op_exit now (msl fp ! v)"] pi_len[OF P] v ne m
    by (simp add: sender_after_def port_msgs_def)
  show "in_msgs (receiver_after d m v tp) = in_msgs tp @ [m]"
    by (simp add: receiver_after_def in_msgs_def port_msgs_def)
  show "link_seq (sender_after now v fp) (receiver_after d m v tp) w = link_seq fp tp w" if "w < 8"
    using that v ne m mv pi_len[OF P]
    by (cases "w = v"; cases "msl fp ! v")
      (auto simp: link_seq_def in_seq_def sender_after_def receiver_after_def delayed_def)
qed

subsection \<open>The channel state machine\<close>

definition channel_inv :: "Channel \<Rightarrow> ChannelPort \<Rightarrow> bool" where
  "channel_inv ch fp \<longleftrightarrow> messagesWaiting ch = int (length (port_msgs fp)) \<and> 0 < localLatencyDivider ch
     \<and> (state ch = CS_TRANSFERRING \<longleftrightarrow> 0 < busy ch) \<and> (state ch = CS_WAIT_FOR_ACCEPT \<longrightarrow> 0 < messagesWaiting ch)"

definition link_inv :: "Channel \<Rightarrow> ChannelPort \<Rightarrow> ChannelInputPort \<Rightarrow> bool" where
  "link_inv ch fp tp \<longleftrightarrow> out_inv fp \<and> in_inv tp \<and> channel_inv ch fp"

text \<open>What one cycle of a channel does to it and its ports: nothing moves, or exactly one message.\<close>

definition link_moved :: "int \<Rightarrow> Channel \<times> ChannelPort \<times> ChannelInputPort \<Rightarrow> Channel \<times> ChannelPort \<times> ChannelInputPort \<Rightarrow> nat \<Rightarrow> bool" where
  "link_moved now s s' v \<longleftrightarrow> (case s of (ch, fp, tp) \<Rightarrow> case s' of (ch', fp', tp') \<Rightarrow>
     ready fp tp v \<and> (\<forall>w < v. \<not> ready fp tp w) \<and> ch' = channel_transfer (occupied (occupancy ch (hd (msl fp ! v))) ch) \<and>
     fp' = sender_after now v fp \<and>
     (\<exists>m. tp' = receiver_after (if flexusInFastMode (hd (msl fp ! v)) then now + 1 else now + channelLatency tp) m v tp
        \<and> tag m = tag (hd (msl fp ! v))))"

lemma find_upt_Some: "find P [0..<n] = Some v \<longleftrightarrow> v < n \<and> P v \<and> (\<forall>w < v. \<not> P w)"
  by (auto simp: find_Some_iff)

lemma find_upt_None: "find P [0..<n] = None \<longleftrightarrow> (\<forall>w < n. \<not> P w)"
  by (auto simp: find_None_iff)

lemma channel_wait_cases:
  assumes L: "link_inv ch fp tp" and st: "state ch \<noteq> CS_TRANSFERRING" and w: "0 < messagesWaiting ch"
  shows "(\<forall>v < 8. \<not> ready fp tp v) \<and> channel_wait now (ch, fp, tp) = Inr (ch, fp, tp) \<or>
    (\<exists>v < 8. \<exists>s'. channel_wait now (ch, fp, tp) = Inr s' \<and> link_moved now (ch, fp, tp) s' v)"
proof -
  have F: "out_inv fp" and T: "in_inv tp" and d: "0 < localLatencyDivider ch" and b: "busy ch \<le> 0"
    using L st by (auto simp: link_inv_def channel_inv_def)
  show ?thesis
  proof (cases "find (ready fp tp) [0..<8]")
    case None
    then have "channel_wait now (ch, fp, tp) = Inr (ch, fp, tp)"
      using channel_accept_find[OF F T, of "[0..<8]" now ch] w b st by (simp add: channel_wait_def)
    with None show ?thesis by (simp only: find_upt_None) blast
  next
    case (Some v)
    then have v: "v < 8" "ready fp tp v" "\<forall>w < v. \<not> ready fp tp w" by (auto simp only: find_upt_Some)
    obtain d m where m: "channel_accept now [v] (ch, fp, tp) =
        Inr (occupied (occupancy ch (hd (msl fp ! v))) ch, sender_after now v fp, receiver_after d m v tp)"
        "tag m = tag (hd (msl fp ! v))" "d = (if flexusInFastMode (hd (msl fp ! v)) then now + 1 else now + channelLatency tp)"
      using channel_accept_go[OF F T v(1,2) d] by blast
    have "channel_wait now (ch, fp, tp) =
        Inr (channel_transfer (occupied (occupancy ch (hd (msl fp ! v))) ch), sender_after now v fp, receiver_after d m v tp)"
      using channel_accept_find[OF F T, of "[0..<8]" now ch] w b Some m(1) by (simp add: channel_wait_def occupied_def)
    then show ?thesis
      using v m by (intro disjI2 exI[of _ v] conjI exI) (auto simp: link_moved_def)
  qed
qed

lemma link_moved_inv:
  assumes L: "link_inv ch fp tp" and v: "v < 8" and mv: "link_moved now (ch, fp, tp) (ch', fp', tp') v"
  shows "link_inv ch' fp' tp'" "w < 8 \<Longrightarrow> link_seq fp' tp' w = link_seq fp tp w"
    "tags (port_msgs fp') + tags (in_msgs tp') = tags (port_msgs fp) + tags (in_msgs tp)"
    "channel fp' = channel fp" "channel tp' = channel tp" "fromPort ch' = fromPort ch" "toPort ch' = toPort ch"
    "msl tp' = msl tp" "bufferCount fp' = bufferCount fp" "bufferCount tp' = bufferCount tp"
    "channelLatency tp' = channelLatency tp" "length (port_msgs fp) = Suc (length (port_msgs fp'))"
proof -
  have F: "out_inv fp" and T: "in_inv tp" and C: "channel_inv ch fp" using L by (auto simp: link_inv_def)
  from mv obtain m d where e: "ready fp tp v" "fp' = sender_after now v fp" "tp' = receiver_after d m v tp"
      "tag m = tag (hd (msl fp ! v))" "ch' = channel_transfer (occupied (occupancy ch (hd (msl fp ! v))) ch)"
    by (auto simp: link_moved_def)
  note mf = moved_facts[OF F T v e(1) e(4)]
  have M: "out_inv fp'" "in_inv tp'" "tags (port_msgs fp) = add_mset (tag m) (tags (port_msgs fp'))"
      "in_msgs tp' = in_msgs tp @ [m]" "w < 8 \<Longrightarrow> link_seq fp' tp' w = link_seq fp tp w" for w
    unfolding e(2,3) by (rule mf; assumption?)+
  have "size (tags (port_msgs fp)) = Suc (size (tags (port_msgs fp')))" by (simp only: M(3) size_add_mset)
  then show len: "length (port_msgs fp) = Suc (length (port_msgs fp'))" by simp
  have "0 < occupancy ch (hd (msl fp ! v))" by (simp add: occupancy_def Let_def)
  with C len have "channel_inv ch' fp'"
    by (auto simp: channel_inv_def e(5) channel_transfer_def occupied_def Let_def)
  with M(1,2) show "link_inv ch' fp' tp'" by (simp add: link_inv_def)
  show "w < 8 \<Longrightarrow> link_seq fp' tp' w = link_seq fp tp w" by (rule M(5))
  show "tags (port_msgs fp') + tags (in_msgs tp') = tags (port_msgs fp) + tags (in_msgs tp)" using M(3,4) by simp
  show "channel fp' = channel fp" "channel tp' = channel tp" "fromPort ch' = fromPort ch" "toPort ch' = toPort ch"
    "msl tp' = msl tp" "bufferCount fp' = bufferCount fp" "bufferCount tp' = bufferCount tp"
    "channelLatency tp' = channelLatency tp"
    by (simp_all add: e sender_after_def receiver_after_def channel_transfer_def occupied_def Let_def)
qed

lemma channel_drive_cases:
  assumes L: "link_inv ch fp tp"
  shows "(\<exists>ch'. channel_drive now (ch, fp, tp) = Inr (ch', fp, tp) \<and> link_inv ch' fp tp
        \<and> fromPort ch' = fromPort ch \<and> toPort ch' = toPort ch
        \<and> (state ch \<noteq> CS_TRANSFERRING \<longrightarrow> (\<forall>v < 8. \<not> ready fp tp v))) \<or>
    (\<exists>v < 8. \<exists>s'. channel_drive now (ch, fp, tp) = Inr s' \<and> link_moved now (ch, fp, tp) s' v \<and> state ch \<noteq> CS_TRANSFERRING)"
proof (cases "state ch")
  case CS_IDLE
  have b: "busy ch \<le> 0" using L CS_IDLE by (auto simp: link_inv_def channel_inv_def)
  show ?thesis
  proof (cases "0 < messagesWaiting ch")
    case True
    let ?c = "ch\<lparr>state := CS_WAIT_FOR_ACCEPT\<rparr>"
    have L': "link_inv ?c fp tp" using L True CS_IDLE by (simp add: link_inv_def channel_inv_def)
    have d: "channel_drive now (ch, fp, tp) = channel_wait now (?c, fp, tp)"
      using CS_IDLE b True by (simp add: channel_drive_def)
    have mv: "link_moved now (?c, fp, tp) s' v = link_moved now (ch, fp, tp) s' v" for s' v
      by (simp add: link_moved_def occupied_def occupancy_def)
    from channel_wait_cases[OF L', of now] True show ?thesis
      unfolding d mv using L' CS_IDLE by auto
  next
    case False
    then have "port_msgs fp = []" using L by (simp add: link_inv_def channel_inv_def)
    then have "\<forall>v < 8. msl fp ! v = []"
      using L pi_len[of "\<lambda>_. 0" fp] by (auto simp: port_msgs_def link_inv_def out_inv_def)
    with False b CS_IDLE L show ?thesis by (simp add: channel_drive_def ready_def)
  qed
next
  case CS_WAIT_FOR_ACCEPT
  then have "0 < messagesWaiting ch" using L unfolding link_inv_def channel_inv_def by blast
  with channel_wait_cases[OF L, of now] CS_WAIT_FOR_ACCEPT L show ?thesis
    by (simp add: channel_drive_def) blast
next
  case CS_TRANSFERRING
  then have "channel_inv (channel_transfer ch) fp"
    using L by (auto simp: link_inv_def channel_inv_def channel_transfer_def Let_def)
  moreover have "fromPort (channel_transfer ch) = fromPort ch" "toPort (channel_transfer ch) = toPort ch"
    by (simp_all add: channel_transfer_def Let_def)
  ultimately show ?thesis
    using CS_TRANSFERRING L by (simp add: channel_drive_def link_inv_def)
qed

text \<open>The effect of a channel cycle on everything the rest of the network can see.\<close>

lemma channel_drive_ok:
  assumes L: "link_inv ch fp tp"
  shows "\<exists>ch' fp' tp'. channel_drive now (ch, fp, tp) = Inr (ch', fp', tp') \<and> link_inv ch' fp' tp'
    \<and> (\<forall>v < 8. link_seq fp' tp' v = link_seq fp tp v)
    \<and> tags (port_msgs fp') + tags (in_msgs tp') = tags (port_msgs fp) + tags (in_msgs tp)
    \<and> channel fp' = channel fp \<and> channel tp' = channel tp \<and> fromPort ch' = fromPort ch \<and> toPort ch' = toPort ch
    \<and> msl tp' = msl tp \<and> length (port_msgs fp) \<le> Suc (length (port_msgs fp'))"
  using channel_drive_cases[OF L, of now]
proof
  assume "\<exists>v < 8. \<exists>s'. channel_drive now (ch, fp, tp) = Inr s' \<and> link_moved now (ch, fp, tp) s' v \<and> state ch \<noteq> CS_TRANSFERRING"
  then obtain v ch' fp' tp' where mv: "v < 8" "channel_drive now (ch, fp, tp) = Inr (ch', fp', tp')"
      "link_moved now (ch, fp, tp) (ch', fp', tp') v"
    by (metis prod_cases3)
  with link_moved_inv[OF L mv(1,3)] show ?thesis by simp
qed auto

text \<open>C3: One cycle of a channel between a well-formed sending and receiving port trips no
  assertion, keeps the occupancy and waiting counters exact, moves at most one message, and on
  every virtual channel leaves the sequence of messages (those already at the receiver, oldest
  first, then those still at the sender) unchanged: links lose, duplicate and reorder nothing.\<close>

theorem channel_drive_correct:
  assumes "link_inv ch fp tp"
  shows "\<exists>ch' fp' tp'. channel_drive now (ch, fp, tp) = Inr (ch', fp', tp') \<and> link_inv ch' fp' tp'
    \<and> (\<forall>v < MAX_VC. link_seq fp' tp' v = link_seq fp tp v) \<and> length (port_msgs fp) \<le> Suc (length (port_msgs fp'))"
  using channel_drive_ok[OF assms, of now] by blast

text \<open>A link with two messages of different virtual channels waiting.\<close>

definition demo_msg :: "int \<Rightarrow> int \<Rightarrow> MessageState" where
  "demo_msg n v = \<lparr>srcNode = 0, destNode = 1, priority = v div 2, networkVC = v, nextHop = -1, nextVC = -1,
     transmitLatency = 3, flexusInFastMode = False, serial = n, hopCount = -1, bufferTime = 0, atHeadTime = 0,
     acceptTime = 0, startTS = 0, myList = True\<rparr>"

definition demo_from :: ChannelPort where
  "demo_from = \<lparr>bufferCount = replicate 8 2, buffersUsed = [0,0,1,0,2,0,0,0],
     msl = [[], [], [demo_msg 7 2], [], [demo_msg 4 4, demo_msg 5 4], [], [], []], channel = Some 0\<rparr>"

definition demo_to :: ChannelInputPort where
  "demo_to = \<lparr>bufferCount = replicate 8 1, buffersUsed = [0,0,1,0,0,0,0,0],
     msl = [[], [], [demo_msg 3 2], [], [], [], [], []], channel = Some 0, channelLatency = 2, delayList = []\<rparr>"

definition demo_channel :: Channel where
  "demo_channel = (Channel_new 0)\<lparr>messagesWaiting := 3, localLatencyDivider := 2\<rparr>"

lemma demo_link: "link_inv demo_channel demo_from demo_to"
  by code_simp

theorem channel_drive_correct_witness:
  "\<exists>ch' fp' tp'. channel_drive 10 (demo_channel, demo_from, demo_to) = Inr (ch', fp', tp') \<and> link_inv ch' fp' tp'
    \<and> link_seq fp' tp' 4 = link_seq demo_from demo_to 4 \<and> length (port_msgs demo_from) \<le> Suc (length (port_msgs fp'))"
proof -
  have "(4 :: nat) < MAX_VC" by simp
  then show ?thesis using channel_drive_correct[OF demo_link, of 10] by blast
qed

text \<open>C4: Progress with priority to the lowest virtual channel: a channel that is not occupied
  and has some virtual channel with a message at the sender and space at the receiver moves, in
  the next cycle, the head message of the lowest such virtual channel, and is then occupied for
  the message's transmission latency divided by the local divider, rounded up and at least one
  cycle, this cycle included.\<close>

theorem channel_drive_progress:
  assumes L: "link_inv ch fp tp" and st: "state ch \<noteq> CS_TRANSFERRING"
    and v: "v < MAX_VC" "ready fp tp v" "\<And>w. w < v \<Longrightarrow> \<not> ready fp tp w"
  shows "\<exists>ch' fp' tp'. channel_drive now (ch, fp, tp) = Inr (ch', fp', tp')
    \<and> msl fp' = (msl fp)[v := op_exit now (msl fp ! v)]
    \<and> map tag (delayed tp' v) = map tag (delayed tp v) @ [tag (hd (msl fp ! v))]
    \<and> busy ch' = occupancy ch (hd (msl fp ! v)) - 1
    \<and> state ch' = (if occupancy ch (hd (msl fp ! v)) = 1 then CS_IDLE else CS_TRANSFERRING)"
proof -
  from channel_drive_cases[OF L, of now] st v obtain u s' where u: "u < 8"
      "channel_drive now (ch, fp, tp) = Inr s'" "link_moved now (ch, fp, tp) s' u"
    by blast
  have "u = v" using u(3) v(2,3) by (auto simp: link_moved_def) (meson linorder_neqE_nat)
  have F: "out_inv fp" using L by (simp add: link_inv_def)
  have "hd (msl fp ! v) \<in> set (msl fp ! v)" using v(2) by (simp add: ready_def)
  then have nv: "networkVC (hd (msl fp ! v)) = int v"
    using pi_vc[OF F[unfolded out_inv_def] v(1)] by blast
  obtain ch' fp' tp' where s': "s' = (ch', fp', tp')" by (cases s') auto
  obtain m d where e: "fp' = sender_after now v fp" "tp' = receiver_after d m v tp" "tag m = tag (hd (msl fp ! v))"
      "ch' = channel_transfer (occupied (occupancy ch (hd (msl fp ! v))) ch)"
    using u(3) \<open>u = v\<close> by (auto simp: link_moved_def s')
  have "0 < occupancy ch (hd (msl fp ! v))" by (simp add: occupancy_def Let_def)
  with u(2) show ?thesis
    unfolding s' using e nv
    by (intro exI[of _ ch'] exI[of _ fp'] exI[of _ tp'])
      (auto simp: sender_after_def receiver_after_def delayed_def tag_def channel_transfer_def occupied_def Let_def)
qed

theorem channel_drive_progress_witness:
  "\<exists>ch' fp' tp'. channel_drive 10 (demo_channel, demo_from, demo_to) = Inr (ch', fp', tp')
    \<and> msl fp' = (msl demo_from)[4 := op_exit 10 (msl demo_from ! 4)]
    \<and> map tag (delayed tp' 4) = map tag (delayed demo_to 4) @ [tag (hd (msl demo_from ! 4))]
    \<and> busy ch' = occupancy demo_channel (hd (msl demo_from ! 4)) - 1
    \<and> state ch' = (if occupancy demo_channel (hd (msl demo_from ! 4)) = 1 then CS_IDLE else CS_TRANSFERRING)"
proof -
  have st: "state demo_channel \<noteq> CS_TRANSFERRING" by code_simp
  have r: "ready demo_from demo_to 4" by code_simp
  have "\<forall>w < 4. \<not> ready demo_from demo_to w" by code_simp
  then show ?thesis using channel_drive_progress[OF demo_link st _ r, of 10] by simp
qed

section \<open>Releasing delayed messages\<close>

definition due :: "int \<Rightarrow> int \<times> MessageState \<Rightarrow> bool" where
  "due now = (\<lambda>(d, m). d \<le> now)"

definition due_msgs :: "int \<Rightarrow> ChannelInputPort \<Rightarrow> MessageState list" where
  "due_msgs now p = map snd (takeWhile (due now) (delayList p))"

fun enq_all :: "int \<Rightarrow> MessageState list \<Rightarrow> MessageState list list \<Rightarrow> MessageState list list" where
  "enq_all now [] ms = ms"
| "enq_all now (m # xs) ms = enq_all now xs (ms[nat (networkVC m) := enq now (ms ! nat (networkVC m)) m])"

definition drained :: "int \<Rightarrow> ChannelInputPort \<Rightarrow> ChannelInputPort" where
  "drained now p = p\<lparr>msl := enq_all now (due_msgs now p) (msl p), delayList := dropWhile (due now) (delayList p)\<rparr>"

lemma length_enq_all [simp]: "length (enq_all now xs ms) = length ms"
  by (induction xs arbitrary: ms) auto

lemma enq_all_tags:
  "\<forall>m \<in> set xs. vc_ok (networkVC m) \<Longrightarrow> length ms = 8 \<Longrightarrow> v < 8 \<Longrightarrow>
   map tag (enq_all now xs ms ! v) = map tag (ms ! v) @ map tag (filter (\<lambda>m. networkVC m = int v) xs)"
proof (induction xs arbitrary: ms)
  case (Cons m xs)
  then have "nat (networkVC m) < 8" by auto
  with Cons show ?case by (auto simp: nth_list_update)
qed simp

lemma ip_release_eq:
  assumes "length (msl p) = 8" "\<forall>m \<in> set (map snd ds). vc_ok (networkVC m)"
  shows "ip_release notify now ds (p, w) =
    bindE (foldE (\<lambda>m. notify (networkVC m)) (map snd (takeWhile (due now) ds)) w) (\<lambda>w'.
    Inr (p\<lparr>msl := enq_all now (map snd (takeWhile (due now) ds)) (msl p), delayList := dropWhile (due now) ds\<rparr>, w'))"
  using assms
proof (induction ds arbitrary: p w)
  case Nil
  then show ?case by simp
next
  case (Cons dm ds)
  obtain d m where dm: "dm = (d, m)" by (cases dm)
  from Cons.prems dm have v: "0 \<le> networkVC m" "networkVC m < 8" by auto
  let ?p = "p\<lparr>msl := (msl p)[nat (networkVC m) := enq now (msl p ! nat (networkVC m)) m]\<rparr>"
  have ins: "insertMessageHelper now m p = Inr ?p"
    by (rule insertMessageHelper_eq) (use v Cons.prems in auto)
  have "ip_release notify now ds (?p, w') =
      bindE (foldE (\<lambda>m. notify (networkVC m)) (map snd (takeWhile (due now) ds)) w') (\<lambda>w'.
      Inr (?p\<lparr>msl := enq_all now (map snd (takeWhile (due now) ds)) (msl ?p), delayList := dropWhile (due now) ds\<rparr>, w'))" for w'
    by (rule Cons.IH) (use Cons.prems in auto)
  then show ?case
    by (cases "d \<le> now") (simp_all add: dm due_def ins bindE_assoc cong: bindE_cong)
qed

lemma ip_drive_eq:
  assumes "in_inv p"
  shows "ip_drive notify now (p, w) =
    bindE (foldE (\<lambda>m. notify (networkVC m)) (due_msgs now p) w) (\<lambda>w'. Inr (drained now p, w'))"
  using assms pi_len[of "\<lambda>v. length (delayed p v)" p]
  by (simp add: ip_drive_def ip_release_eq in_inv_def drained_def due_msgs_def)

lemma due_split: "map snd (delayList p) = due_msgs now p @ map snd (delayList (drained now p))"
  by (simp add: due_msgs_def drained_def flip: map_append)

lemma delayed_split: "delayed p v = filter (\<lambda>m. networkVC m = int v) (due_msgs now p) @ delayed (drained now p) v"
  unfolding delayed_def due_split[of p now] by simp

lemma drained_tags:
  assumes "in_inv p" "v < 8"
  shows "map tag (msl (drained now p) ! v) = map tag (msl p ! v) @ map tag (filter (\<lambda>m. networkVC m = int v) (due_msgs now p))"
proof -
  have "\<forall>m \<in> set (due_msgs now p). vc_ok (networkVC m)"
    using assms(1) due_split[of p now] by (simp add: in_inv_def)
  then show ?thesis
    using assms pi_len[of "\<lambda>v. length (delayed p v)" p]
    by (simp add: drained_def enq_all_tags in_inv_def)
qed

lemma drained_seq: "in_inv p \<Longrightarrow> v < 8 \<Longrightarrow> map tag (in_seq (drained now p) v) = map tag (in_seq p v)"
  by (simp add: in_seq_def drained_tags delayed_split[of p v now])

lemma drained_length:
  "in_inv p \<Longrightarrow> v < 8 \<Longrightarrow> length (msl (drained now p) ! v)
     = length (msl p ! v) + length (filter (\<lambda>m. networkVC m = int v) (due_msgs now p))"
  using arg_cong[OF drained_tags, of p v length now] by simp

lemma tag_in_tags: "m \<in> set xs \<Longrightarrow> tag m \<in># tags xs"
  by (simp add: tags_def)

lemma tags_memD: "t \<in># tags xs \<Longrightarrow> \<exists>m \<in> set xs. t = tag m"
  by (auto simp: tags_def)

lemma tag_networkVC_set:
  assumes "map tag xs = map tag ys" "\<forall>m \<in> set ys. networkVC m = k"
  shows "\<forall>m \<in> set xs. networkVC m = k"
proof
  fix m assume "m \<in> set xs"
  then have "tag m \<in># tags ys" using tag_in_tags tags_map_cong[OF assms(1)] by fastforce
  then obtain m' where "m' \<in> set ys" "tag m = tag m'" using tags_memD by blast
  with assms(2) show "networkVC m = k" by (simp add: tag_def)
qed

lemma drained_inv: assumes I: "in_inv p" shows "in_inv (drained now p)"
proof -
  note P = I[unfolded in_inv_def, THEN conjunct1]
  have "buffersUsed p ! v = int (length (msl (drained now p) ! v) + length (delayed (drained now p) v))" if "v < 8" for v
    using pi_used[OF P that] drained_length[OF I that, of now] delayed_split[of p v now] by simp
  moreover have "\<forall>m \<in> set (msl (drained now p) ! v). networkVC m = int v" if v: "v < 8" for v
  proof (rule tag_networkVC_set)
    show "map tag (msl (drained now p) ! v) = map tag (msl p ! v @ filter (\<lambda>m. networkVC m = int v) (due_msgs now p))"
      using drained_tags[OF I v] by simp
    show "\<forall>m \<in> set (msl p ! v @ filter (\<lambda>m. networkVC m = int v) (due_msgs now p)). networkVC m = int v"
      using pi_vc[OF P v] by auto
  qed
  moreover have "\<forall>m \<in> set (map snd (delayList (drained now p))). vc_ok (networkVC m)"
    using I due_split[of p now] by (simp add: in_inv_def)
  moreover have "bufferCount (drained now p) = bufferCount p" "buffersUsed (drained now p) = buffersUsed p"
    "length (msl (drained now p)) = length (msl p)"
    by (simp_all add: drained_def)
  ultimately show ?thesis
    using pi_len[OF P] pi_pos[OF P] pi_le[OF P] unfolding in_inv_def port_inv_def by auto
qed

lemma enq_all_mset:
  "\<forall>m \<in> set xs. vc_ok (networkVC m) \<Longrightarrow> length ms = 8 \<Longrightarrow> tags (concat (enq_all now xs ms)) = tags (concat ms) + tags xs"
proof (induction xs arbitrary: ms)
  case (Cons m xs)
  then have v: "nat (networkVC m) < length ms" by auto
  have "tags (concat (ms[nat (networkVC m) := enq now (ms ! nat (networkVC m)) m])) = add_mset (tag m) (tags (concat ms))"
    using port_tags_enq[of "nat (networkVC m)" "\<lparr>bufferCount = [], buffersUsed = [], msl = ms, channel = None\<rparr>" now m] v
    by (simp add: port_msgs_def)
  with Cons show ?case by simp
qed simp

lemma drained_mset:
  assumes I: "in_inv p" shows "tags (in_msgs (drained now p)) = tags (in_msgs p)"
proof -
  have "\<forall>m \<in> set (due_msgs now p). vc_ok (networkVC m)"
    using I due_split[of p now] by (simp add: in_inv_def)
  moreover have "length (msl p) = 8" using I pi_len by (auto simp: in_inv_def)
  moreover have "tags (map snd (delayList p)) = tags (due_msgs now p) + tags (map snd (delayList (drained now p)))"
    by (simp only: due_split[of p now] tags_append)
  ultimately show ?thesis
    by (simp add: in_msgs_def port_msgs_def enq_all_mset drained_def)
qed

subsection \<open>Notifying the owner\<close>

text \<open>\<^verbatim>\<open>NetSwitch::notifyWaitingMessage\<close> and \<^verbatim>\<open>NetNode::notifyWaitingMessage\<close> on the counters of the
  owner of a port.\<close>

definition sw_notify :: "int \<Rightarrow> int list \<Rightarrow> int list res" where
  "sw_notify vc w = bindE (arr_at w vc) (\<lambda>n. arr_set w vc (n + 1))"

definition node_notify :: "int \<Rightarrow> int \<Rightarrow> int res" where
  "node_notify vc w = Inr (w + 1)"

lemma sw_notify_all:
  "\<forall>m \<in> set ms. vc_ok (networkVC m) \<Longrightarrow> length w = 8 \<Longrightarrow>
   \<exists>w'. foldE (\<lambda>m. sw_notify (networkVC m)) ms w = Inr w' \<and> length w' = 8
     \<and> (\<forall>v < 8. w' ! v = w ! v + int (length (filter (\<lambda>m. networkVC m = int v) ms)))"
proof (induction ms arbitrary: w)
  case (Cons m ms)
  let ?w = "w[nat (networkVC m) := w ! nat (networkVC m) + 1]"
  have v: "nat (networkVC m) < 8" "0 \<le> networkVC m" using Cons.prems by auto
  then have 1: "sw_notify (networkVC m) w = Inr ?w" using Cons.prems by (simp add: sw_notify_def)
  obtain w' where w': "foldE (\<lambda>m. sw_notify (networkVC m)) ms ?w = Inr w'" "length w' = 8"
      "\<forall>v < 8. w' ! v = ?w ! v + int (length (filter (\<lambda>m. networkVC m = int v) ms))"
    using Cons.IH[of ?w] Cons.prems by auto
  have "\<forall>u < 8. w' ! u = w ! u + int (length (filter (\<lambda>m. networkVC m = int u) (m # ms)))"
    using w'(3) Cons.prems(2) v by (auto simp: nth_list_update)
  with 1 w' show ?case by auto
qed simp

lemma node_notify_all: "foldE (\<lambda>m. node_notify (networkVC m)) ms w = Inr (w + int (length ms))"
  by (induction ms arbitrary: w) (auto simp: node_notify_def)

lemma in_inv_due_ok: "in_inv p \<Longrightarrow> \<forall>m \<in> set (due_msgs now p). vc_ok (networkVC m)"
  using due_split[of p now] by (simp add: in_inv_def)

text \<open>Driving an input port of a switch moves exactly the due messages from the front of the
  delay queue into their virtual channels, keeps the port invariant and the per-channel order, and
  raises the switch's waiting counter of each virtual channel by the number of messages that
  became readable there.\<close>

theorem ip_drive_switch_correct:
  assumes I: "in_inv p" and w: "length w = MAX_VC"
  shows "\<exists>p' w'. ip_drive sw_notify now (p, w) = Inr (p', w') \<and> in_inv p' \<and> length w' = MAX_VC
    \<and> delayList p' = dropWhile (\<lambda>(d, m). d \<le> now) (delayList p)
    \<and> (\<forall>v < MAX_VC. map tag (in_seq p' v) = map tag (in_seq p v)
        \<and> w' ! v - w ! v = int (length (msl p' ! v)) - int (length (msl p ! v)))"
proof -
  obtain w' where w': "foldE (\<lambda>m. sw_notify (networkVC m)) (due_msgs now p) w = Inr w'" "length w' = 8"
      "\<forall>v < 8. w' ! v = w ! v + int (length (filter (\<lambda>m. networkVC m = int v) (due_msgs now p)))"
    using sw_notify_all[OF in_inv_due_ok[OF I] w] by blast
  then have "ip_drive sw_notify now (p, w) = Inr (drained now p, w')" by (simp add: ip_drive_eq[OF I])
  moreover have "delayList (drained now p) = dropWhile (\<lambda>(d, m). d \<le> now) (delayList p)"
    by (simp add: drained_def due_def)
  ultimately show ?thesis
    using w'(2,3) drained_inv[OF I] drained_seq[OF I] drained_length[OF I] by auto
qed

theorem ip_drive_switch_correct_witness:
  "\<exists>p' w'. ip_drive sw_notify 7 (demo_to\<lparr>buffersUsed := [0,0,1,0,1,0,0,0], delayList := [(7, demo_msg 4 4)]\<rparr>, replicate 8 0)
      = Inr (p', w') \<and> in_inv p' \<and> length w' = MAX_VC \<and> delayList p' = []
    \<and> w' ! 4 - replicate 8 0 ! 4 = int (length (msl p' ! 4)) - int (length (msl demo_to ! 4))"
proof -
  let ?p = "demo_to\<lparr>buffersUsed := [0,0,1,0,1,0,0,0], delayList := [(7, demo_msg 4 4)]\<rparr>"
  have "in_inv ?p" by code_simp
  from ip_drive_switch_correct[OF this, of "replicate 8 0" 7] show ?thesis by fastforce
qed

text \<open>The output port of a channel is a first-in first-out queue per virtual channel: filling
  an empty queue within its depth never trips an assertion, and removing the messages again
  returns them in the order they were inserted.\<close>

theorem output_port_fifo:
  assumes "attached (p, chs)" "v < MAX_VC" "msl p ! v = []" "\<forall>m \<in> set ms. networkVC m = int v"
    and "int (length ms) \<le> bufferCount p ! v"
  shows "\<exists>s ms' s'. foldE (op_put now) ms (p, chs) = Inr s \<and> opq.get_run later (length ms) v s = Inr (ms', s')
    \<and> map ident ms' = map ident ms \<and> msl (fst s') ! v = [] \<and> attached s'"
proof -
  obtain s where s: "foldE (op_put now) ms (p, chs) = Inr s" "attached s" "map ident (msl (fst s) ! v) = map ident ms"
    using opq.put_all[of "(p, chs)" v ms now] assms by auto
  then have "length (msl (fst s) ! v) = length ms" by (metis length_map)
  with opq.get_all[OF s(2) assms(2), of "length ms" later] s(3) obtain ms' s' where
    "opq.get_run later (length ms) v s = Inr (ms', s')" "attached s'" "map ident ms' = map ident ms"
    "msl (fst s') ! v = []"
    by auto
  with s(1) show ?thesis by blast
qed

theorem output_port_fifo_witness:
  "\<exists>s ms' s'. foldE (op_put 3) [demo_msg 8 6, demo_msg 9 6] (demo_from, [demo_channel]) = Inr s
    \<and> opq.get_run 5 (length [demo_msg 8 6, demo_msg 9 6]) 6 s = Inr (ms', s')
    \<and> map ident ms' = map ident [demo_msg 8 6, demo_msg 9 6] \<and> msl (fst s') ! 6 = [] \<and> attached s'"
  by (rule output_port_fifo) code_simp+

end
