(* ===== verification/NetSwitch.thy ===== *)
theory NetSwitch
  imports NetChannel
begin

text \<open>
  The switches of the network simulator (\<^verbatim>\<open>components/NetShim/netswitch.hpp\<close>,
  \<^verbatim>\<open>netswitch.cpp\<close>): the internal buffer with its cursor, the adaptive routing table, and the
  arbitration loop that forwards messages from the internal buffer and the input ports to output
  ports.

  Inserting into an output port counts the message at the port's channel, so the switch operations
  thread the array of channels. The scan of the internal buffer is bounded by fuel, one more than
  the number of messages in the buffer; the arbitration over ports by the number of ports. The
  lemmas show that the loops never reach these bounds.
\<close>

section \<open>The internal buffer\<close>

record NetSwitchInternalBuffer =
  ib_bufferCount :: "int list"
  ib_buffersUsed :: "int list"
  ageBuffer :: "MessageState list list"
  currMessage :: "nat option"     \<comment> \<open>position in the list of \<^verbatim>\<open>currPriority\<close>, or null\<close>
  currPriority :: nat

definition NetSwitchInternalBuffer_new :: "int \<Rightarrow> NetSwitchInternalBuffer res" where
  "NetSwitchInternalBuffer_new bufferDepth =
     bindE (dbg_assert (bufferDepth \<ge> 0)) (\<lambda>_.
     Inr \<lparr>ib_bufferCount = replicate MAX_VC bufferDepth, ib_buffersUsed = replicate MAX_VC 0,
          ageBuffer = replicate MAX_VC [], currMessage = None, currPriority = 0\<rparr>)"

definition isFull :: "NetSwitchInternalBuffer \<Rightarrow> int \<Rightarrow> bool res" where
  "isFull b vc = bindE (arr_at (ib_buffersUsed b) vc) (\<lambda>u.
     bindE (arr_at (ib_bufferCount b) vc) (\<lambda>c. Inr (u \<ge> c)))"

definition ib_hasMessage :: "NetSwitchInternalBuffer \<Rightarrow> bool" where
  "ib_hasMessage b = list_ex (\<lambda>u. u > 0) (ib_buffersUsed b)"

definition ib_insertMessage :: "int \<Rightarrow> MessageState \<Rightarrow> NetSwitchInternalBuffer \<Rightarrow> NetSwitchInternalBuffer res" where
  "ib_insertMessage now msg b = (let vc = networkVC msg in
     bindE (isFull b vc) (\<lambda>full.
     bindE (dbg_assert (\<not> full)) (\<lambda>_.
     bindE (arr_at (ib_buffersUsed b) vc) (\<lambda>u.
     bindE (arr_set (ib_buffersUsed b) vc (u + 1)) (\<lambda>us.
     bindE (arr_at (ageBuffer b) vc) (\<lambda>q.
     bindE (arr_set (ageBuffer b) vc
        (q @ [msg\<lparr>atHeadTime := atHeadTime msg - now, bufferTime := bufferTime msg - now\<rparr>])) (\<lambda>qs.
     Inr (b\<lparr>ib_buffersUsed := us, ageBuffer := qs\<rparr>))))))))"

definition gotoFirstMessage :: "nat \<Rightarrow> NetSwitchInternalBuffer \<Rightarrow> NetSwitchInternalBuffer res" where
  "gotoFirstMessage vc b = bindE (vec_at (ageBuffer b) vc) (\<lambda>q.
     Inr (b\<lparr>currPriority := vc, currMessage := (if q = [] then None else Some 0)\<rparr>))"

definition ib_getMessage :: "NetSwitchInternalBuffer \<Rightarrow> MessageState option res" where
  "ib_getMessage b = (case currMessage b of None \<Rightarrow> Inr None
     | Some i \<Rightarrow> bindE (vec_at (ageBuffer b) (currPriority b)) (\<lambda>q. bindE (vec_at q i) (\<lambda>m. Inr (Some m))))"

text \<open>The flag is the return value: true when there is no next message.\<close>

definition nextMessage :: "NetSwitchInternalBuffer \<Rightarrow> (bool \<times> NetSwitchInternalBuffer) res" where
  "nextMessage b = (case currMessage b of None \<Rightarrow> Inr (True, b)
     | Some i \<Rightarrow> bindE (vec_at (ageBuffer b) (currPriority b)) (\<lambda>q.
         if i + 1 < length q then Inr (False, b\<lparr>currMessage := Some (i + 1)\<rparr>)
         else Inr (True, b\<lparr>currMessage := None\<rparr>)))"

text \<open>\<^verbatim>\<open>removeMessage\<close> unlinks the message at the cursor and calls \<^verbatim>\<open>nextMessage\<close> before the node is
  freed: the cursor then is at the message that followed, which has moved to the position of the
  removed one. The code relinks the list of the message's own virtual channel; a message in the
  list of another one would corrupt the lists.\<close>

definition ib_removeMessage :: "int \<Rightarrow> NetSwitchInternalBuffer \<Rightarrow> (MessageState \<times> NetSwitchInternalBuffer) res" where
  "ib_removeMessage now b = (case currMessage b of None \<Rightarrow> Inl AssertionFailed
     | Some i \<Rightarrow>
       bindE (vec_at (ageBuffer b) (currPriority b)) (\<lambda>q.
       bindE (vec_at q i) (\<lambda>msg.
       bindE (arr_at (ib_buffersUsed b) (networkVC msg)) (\<lambda>u.
       bindE (arr_set (ib_buffersUsed b) (networkVC msg) (u - 1)) (\<lambda>us.
       if networkVC msg \<noteq> int (currPriority b) then Inl OutOfBounds
       else let q' = take i q @ drop (Suc i) q in
         Inr (msg\<lparr>atHeadTime := atHeadTime msg + now, bufferTime := bufferTime msg + now\<rparr>,
              b\<lparr>ib_buffersUsed := us, ageBuffer := (ageBuffer b)[currPriority b := q'],
                currMessage := (if i < length q' then Some i else None)\<rparr>))))))"

section \<open>The switch\<close>

record NetSwitch =
  sw_name :: int
  numNodes :: nat
  numPorts :: nat
  crossbarBandwidth :: int
  nextStartingPort :: nat
  inputPorts :: "ChannelInputPort list"
  outputPorts :: "ChannelPort list"
  internalBuffer :: NetSwitchInternalBuffer
  routingTable :: "int list list"
  vcTable :: "int list list"
  sw_messagesWaiting :: "int list"

definition NetSwitch_new :: "int \<Rightarrow> int \<Rightarrow> int \<Rightarrow> int \<Rightarrow> int \<Rightarrow> int \<Rightarrow> int \<Rightarrow> int \<Rightarrow> NetSwitch res" where
  "NetSwitch_new nm nodes ports inDepth outDepth vcDepth bandwidth latency =
     bindE (dbg_assert (nodes > 0)) (\<lambda>_.
     bindE (dbg_assert (ports > 0)) (\<lambda>_.
     bindE (dbg_assert (inDepth > 0)) (\<lambda>_.
     bindE (dbg_assert (outDepth > 0)) (\<lambda>_.
     bindE (dbg_assert (vcDepth \<ge> 0)) (\<lambda>_.
     bindE (dbg_assert (bandwidth \<noteq> 0)) (\<lambda>_.
     bindE (ChannelInputPort_new inDepth latency) (\<lambda>ip.
     bindE (ChannelPort_new outDepth) (\<lambda>op.
     bindE (NetSwitchInternalBuffer_new vcDepth) (\<lambda>ib.
     Inr \<lparr>sw_name = nm, numNodes = nat nodes, numPorts = nat ports, crossbarBandwidth = bandwidth,
          nextStartingPort = 0, inputPorts = replicate (nat ports) ip, outputPorts = replicate (nat ports) op,
          internalBuffer = ib,
          routingTable = replicate (nat nodes) (replicate (nat ports * MAX_NET_VC) (-1)),
          vcTable = replicate (nat nodes) (replicate (nat ports * MAX_NET_VC) (-1)),
          sw_messagesWaiting = replicate MAX_VC 0\<rparr>)))))))))"

text \<open>The part of \<^verbatim>\<open>attachChannel\<close> that changes the switch: the port remembers its channel.
  \<open>setToPort\<close> and \<open>setFromPort\<close> are the channel's part.\<close>

definition attachChannel :: "nat \<Rightarrow> nat \<Rightarrow> int \<Rightarrow> bool \<Rightarrow> NetSwitch \<times> Channel list \<Rightarrow> (NetSwitch \<times> Channel list) res" where
  "attachChannel sw_id c port isInput = (\<lambda>(sw, chs).
     bindE (dbg_assert (port \<ge> 0 \<and> port < int (numPorts sw))) (\<lambda>_.
     bindE (vec_at chs c) (\<lambda>ch.
     if isInput then
       bindE (setToPort (SwitchPort sw_id (nat port)) ch) (\<lambda>ch'.
       bindE (arr_at (inputPorts sw) port) (\<lambda>p.
       Inr (sw\<lparr>inputPorts := (inputPorts sw)[nat port := setChannel c p]\<rparr>, chs[c := ch'])))
     else
       bindE (setFromPort (SwitchPort sw_id (nat port)) ch) (\<lambda>ch'.
       bindE (arr_at (outputPorts sw) port) (\<lambda>p.
       Inr (sw\<lparr>outputPorts := (outputPorts sw)[nat port := setChannel c p]\<rparr>, chs[c := ch']))))))"

subsection \<open>Routing\<close>

text \<open>The entries of the row of the destination are tried in order up to the first unused one;
  the result is the output port and virtual channel that \<^verbatim>\<open>routingPolicy\<close> stores in the message,
  or none when it returns true.\<close>

fun route_search :: "ChannelPort list \<Rightarrow> int \<Rightarrow> (int \<times> int) list \<Rightarrow> (int \<times> int) option res" where
  "route_search ops prio [] = Inr None"
| "route_search ops prio ((routingPort, routingVC) # es) =
     (if routingPort \<ge> 0
      then bindE (arr_at ops routingPort) (\<lambda>op.
           bindE (hasBufferSpace op (BUILD_VC prio routingVC)) (\<lambda>space.
           if space then Inr (Some (routingPort, BUILD_VC prio routingVC))
           else route_search ops prio es))
      else Inr None)"

definition routingPolicy :: "NetSwitch \<Rightarrow> MessageState \<Rightarrow> (int \<times> int) option res" where
  "routingPolicy sw msg =
     bindE (arr_at (routingTable sw) (destNode msg)) (\<lambda>row.
     bindE (arr_at (vcTable sw) (destNode msg)) (\<lambda>vcs.
     route_search (outputPorts sw) (priority msg) (zip row vcs)))"

definition set_route :: "int \<times> int \<Rightarrow> MessageState \<Rightarrow> MessageState" where
  "set_route r msg = msg\<lparr>nextHop := fst r, nextVC := snd r\<rparr>"

definition sendMessageToOutput :: "int \<Rightarrow> MessageState \<Rightarrow> NetSwitch \<times> Channel list \<Rightarrow> (NetSwitch \<times> Channel list) res" where
  "sendMessageToOutput now msg = (\<lambda>(sw, chs).
     let msg = msg\<lparr>networkVC := nextVC msg, nextVC := -1, hopCount := hopCount msg + 1\<rparr> in
     bindE (arr_at (outputPorts sw) (nextHop msg)) (\<lambda>op.
     bindE (op_insertMessage now msg op chs) (\<lambda>(op', chs').
     Inr (sw\<lparr>outputPorts := (outputPorts sw)[nat (nextHop msg) := op']\<rparr>, chs'))))"

subsection \<open>Arbitration\<close>

fun drive_internal ::
  "nat \<Rightarrow> int \<Rightarrow> int \<Rightarrow> NetSwitch \<times> Channel list \<Rightarrow> (int \<times> NetSwitch \<times> Channel list) res" where
  "drive_internal 0 now bandwidth s = Inl OutOfFuel"
| "drive_internal (Suc fuel) now bandwidth (sw, chs) =
     bindE (ib_getMessage (internalBuffer sw)) (\<lambda>om.
     (case om of
        None \<Rightarrow> Inr (bandwidth, sw, chs)
      | Some msg \<Rightarrow>
          if bandwidth > 0 then
            bindE (routingPolicy sw msg) (\<lambda>r.
            bindE (case r of
                None \<Rightarrow> Inr (bandwidth, sw, chs)
              | Some route \<Rightarrow>
                  bindE (ib_removeMessage now (internalBuffer sw)) (\<lambda>(m, ib).
                  bindE (sendMessageToOutput now (set_route route m) (sw\<lparr>internalBuffer := ib\<rparr>, chs)) (\<lambda>(sw', chs').
                  Inr (bandwidth - 1, sw', chs')))) (\<lambda>(bandwidth', sw', chs').
            bindE (nextMessage (internalBuffer sw')) (\<lambda>(end_reached, ib).
            if end_reached then Inr (bandwidth', sw'\<lparr>internalBuffer := ib\<rparr>, chs')
            else drive_internal fuel now bandwidth' (sw'\<lparr>internalBuffer := ib\<rparr>, chs'))))
          else Inr (bandwidth, sw, chs)))"

definition drive_port ::
  "int \<Rightarrow> nat \<Rightarrow> nat \<Rightarrow> int \<times> NetSwitch \<times> Channel list \<Rightarrow> (int \<times> NetSwitch \<times> Channel list) res" where
  "drive_port now vc currPort = (\<lambda>(bandwidth, sw, chs).
     bindE (vec_at (inputPorts sw) currPort) (\<lambda>ip.
     bindE (peekMessage ip (int vc)) (\<lambda>om.
     (case om of
        None \<Rightarrow> Inr (bandwidth, sw, chs)
      | Some msg \<Rightarrow>
          bindE (routingPolicy sw msg) (\<lambda>r.
          (case r of
             Some route \<Rightarrow>
               bindE (ip_removeMessage now (int vc) ip) (\<lambda>(m, ip').
               bindE (sendMessageToOutput now (set_route route m)
                  (sw\<lparr>inputPorts := (inputPorts sw)[currPort := ip']\<rparr>, chs)) (\<lambda>(sw', chs').
               bindE (vec_at (sw_messagesWaiting sw') vc) (\<lambda>w.
               Inr (bandwidth - 1, sw'\<lparr>sw_messagesWaiting := (sw_messagesWaiting sw')[vc := w - 1]\<rparr>, chs'))))
           | None \<Rightarrow>
               bindE (isFull (internalBuffer sw) (networkVC msg)) (\<lambda>full.
               if \<not> full then
                 bindE (ip_removeMessage now (int vc) ip) (\<lambda>(m, ip').
                 bindE (ib_insertMessage now m (internalBuffer sw)) (\<lambda>ib.
                 bindE (vec_at (sw_messagesWaiting sw) vc) (\<lambda>w.
                 Inr (bandwidth, sw\<lparr>inputPorts := (inputPorts sw)[currPort := ip'], internalBuffer := ib,
                        sw_messagesWaiting := (sw_messagesWaiting sw)[vc := w - 1]\<rparr>, chs))))
               else Inr (bandwidth, sw, chs))))))))"

text \<open>The \<^verbatim>\<open>do ... while\<close> loop over the ports, round robin from \<^verbatim>\<open>nextStartingPort\<close>.\<close>

fun drive_ports ::
  "nat \<Rightarrow> int \<Rightarrow> nat \<Rightarrow> nat \<Rightarrow> int \<times> NetSwitch \<times> Channel list \<Rightarrow> (int \<times> NetSwitch \<times> Channel list) res" where
  "drive_ports 0 now vc currPort s = Inl OutOfFuel"
| "drive_ports (Suc fuel) now vc currPort s =
     bindE (drive_port now vc currPort s) (\<lambda>(bandwidth, sw, chs).
     let next = (currPort + 1) mod numPorts sw in
     if next \<noteq> nextStartingPort sw \<and> bandwidth \<noteq> 0
     then drive_ports fuel now vc next (bandwidth, sw, chs)
     else Inr (bandwidth, sw, chs))"

definition drive_vc ::
  "int \<Rightarrow> nat \<Rightarrow> int \<times> NetSwitch \<times> Channel list \<Rightarrow> (int \<times> NetSwitch \<times> Channel list) res" where
  "drive_vc now vc = (\<lambda>(bandwidth, sw, chs).
     bindE (gotoFirstMessage vc (internalBuffer sw)) (\<lambda>ib.
     bindE (drive_internal (Suc (length (ageBuffer ib ! vc))) now bandwidth (sw\<lparr>internalBuffer := ib\<rparr>, chs))
       (\<lambda>(bandwidth, sw, chs).
     bindE (vec_at (sw_messagesWaiting sw) vc) (\<lambda>w.
     if w = 0 then Inr (bandwidth, sw, chs)
     else drive_ports (numPorts sw) now vc (nextStartingPort sw) (bandwidth, sw, chs)))))"

definition sw_drive :: "int \<Rightarrow> NetSwitch \<times> Channel list \<Rightarrow> (NetSwitch \<times> Channel list) res" where
  "sw_drive now = (\<lambda>(sw, chs).
     bindE (foldE (drive_vc now) [0..<MAX_VC] (crossbarBandwidth sw, sw, chs)) (\<lambda>(_, sw, chs).
     Inr (sw\<lparr>nextStartingPort := (nextStartingPort sw + 1) mod numPorts sw\<rparr>, chs)))"

definition driveInputPort :: "int \<Rightarrow> nat \<Rightarrow> NetSwitch \<Rightarrow> NetSwitch res" where
  "driveInputPort now i sw =
     bindE (vec_at (inputPorts sw) i) (\<lambda>ip.
     bindE (ip_drive sw_notify now (ip, sw_messagesWaiting sw)) (\<lambda>(ip', w).
     Inr (sw\<lparr>inputPorts := (inputPorts sw)[i := ip'], sw_messagesWaiting := w\<rparr>)))"

definition driveInputPorts :: "int \<Rightarrow> NetSwitch \<Rightarrow> NetSwitch res" where
  "driveInputPorts now sw = foldE (driveInputPort now) [0..<numPorts sw] sw"

subsection \<open>Topology and routing tables\<close>

text \<open>\<^verbatim>\<open>checkTopology\<close> prints a warning for each unconnected port and reports no error;
  \<open>unused_ports\<close> are the ports it warns about.\<close>

definition unused_ports :: "NetSwitch \<Rightarrow> nat list" where
  "unused_ports sw = filter (\<lambda>i. \<not> isConnected (inputPorts sw ! i) \<or> \<not> isConnected (outputPorts sw ! i)) [0..<numPorts sw]"

definition sw_checkTopology :: "NetSwitch \<Rightarrow> bool" where
  "sw_checkTopology sw = False"

fun check_row :: "ChannelPort list \<Rightarrow> int list \<Rightarrow> bool res" where
  "check_row ops [] = Inr False"
| "check_row ops (r # rs) =
     bindE (if r \<noteq> -1 then bindE (arr_at ops r) (\<lambda>op. Inr (\<not> isConnected op)) else Inr False) (\<lambda>bad.
     bindE (check_row ops rs) (\<lambda>rest. Inr (bad \<or> rest)))"

fun check_rows :: "ChannelPort list \<Rightarrow> int list list \<Rightarrow> bool res" where
  "check_rows ops [] = Inr False"
| "check_rows ops (row # rows) =
     bindE (vec_at row 0) (\<lambda>first.
     bindE (check_row ops row) (\<lambda>bad.
     bindE (check_rows ops rows) (\<lambda>rest. Inr (first = -1 \<or> bad \<or> rest))))"

definition checkRoutingTable :: "NetSwitch \<Rightarrow> bool res" where
  "checkRoutingTable sw = check_rows (outputPorts sw) (routingTable sw)"

text \<open>The search of \<^verbatim>\<open>addRoutingEntry\<close> through a row: an equal entry ends it without a change, an
  unused one is filled, and a full row is an error.\<close>

fun add_entry :: "int \<Rightarrow> int \<Rightarrow> int list \<Rightarrow> int list \<Rightarrow> (int list \<times> int list) res" where
  "add_entry port vc (r # rs) (v # vs) =
     (if r = port \<and> v = vc then Inr (r # rs, v # vs)
      else if r < 0 then Inr (port # rs, vc # vs)
      else bindE (add_entry port vc rs vs) (\<lambda>(rs', vs'). Inr (r # rs', v # vs')))"
| "add_entry port vc _ _ = Inl ErrorReturn"

definition addRoutingEntry :: "int \<Rightarrow> int \<Rightarrow> int \<Rightarrow> NetSwitch \<Rightarrow> NetSwitch res" where
  "addRoutingEntry node port vc sw =
     bindE (dbg_assert (node < int (numNodes sw) \<and> node \<ge> 0)) (\<lambda>_.
     bindE (dbg_assert (port < int (numPorts sw) \<and> port \<ge> 0)) (\<lambda>_.
     bindE (dbg_assert (vc < int MAX_NET_VC \<and> vc \<ge> 0)) (\<lambda>_.
     bindE (arr_at (routingTable sw) node) (\<lambda>row.
     bindE (arr_at (vcTable sw) node) (\<lambda>vcs.
     bindE (add_entry port vc row vcs) (\<lambda>(row', vcs').
     Inr (sw\<lparr>routingTable := (routingTable sw)[nat node := row'],
             vcTable := (vcTable sw)[nat node := vcs']\<rparr>)))))))"

definition setLocalDelayOnly :: "int \<Rightarrow> NetSwitch \<Rightarrow> NetSwitch res" where
  "setLocalDelayOnly port sw =
     bindE (dbg_assert (port \<ge> 0 \<and> port < int (numPorts sw))) (\<lambda>_.
     bindE (arr_at (inputPorts sw) port) (\<lambda>p.
     Inr (sw\<lparr>inputPorts := (inputPorts sw)[nat port := setLocalDelay p]\<rparr>)))"

section \<open>Invariants\<close>

text \<open>A message bound for one of the nodes, on a virtual channel of its own protocol class.\<close>

definition tag_ok :: "nat \<Rightarrow> msg_tag \<Rightarrow> bool" where
  "tag_ok n = (\<lambda>(vc, ser, src, dest, prio, fast, ts, listed). listed \<and> 0 \<le> dest \<and> dest < int n \<and> 0 \<le> prio \<and> prio < int NUM_PRIORITIES
     \<and> 0 \<le> vc \<and> NETVC_TO_PROTVC vc = prio)"

definition ib_inv :: "NetSwitchInternalBuffer \<Rightarrow> bool" where
  "ib_inv b \<longleftrightarrow> length (ib_bufferCount b) = MAX_VC \<and> length (ib_buffersUsed b) = MAX_VC \<and> length (ageBuffer b) = MAX_VC \<and>
     (\<forall>v < MAX_VC. ib_buffersUsed b ! v = int (length (ageBuffer b ! v)) \<and> ib_buffersUsed b ! v \<le> ib_bufferCount b ! v
        \<and> (\<forall>m \<in> set (ageBuffer b ! v). networkVC m = int v)) \<and>
     (case currMessage b of None \<Rightarrow> True
      | Some i \<Rightarrow> currPriority b < MAX_VC \<and> i < length (ageBuffer b ! currPriority b))"

definition waiting_at :: "NetSwitch \<Rightarrow> nat \<Rightarrow> nat" where
  "waiting_at sw v = sum_list (map (\<lambda>p. length (msl p ! v)) (inputPorts sw))"

definition entry_ok :: "NetSwitch \<Rightarrow> int \<times> int \<Rightarrow> bool" where
  "entry_ok sw = (\<lambda>(r, v). r < 0 \<or> (r < int (numPorts sw) \<and> 0 \<le> v \<and> v < int MAX_NET_VC \<and> isConnected (outputPorts sw ! nat r)))"

definition routes_ok :: "NetSwitch \<Rightarrow> bool" where
  "routes_ok sw \<longleftrightarrow> length (routingTable sw) = numNodes sw \<and> length (vcTable sw) = numNodes sw \<and>
     (\<forall>d < numNodes sw. \<forall>e \<in> set (zip (routingTable sw ! d) (vcTable sw ! d)). entry_ok sw e)"

definition sw_msgs :: "NetSwitch \<Rightarrow> MessageState list" where
  "sw_msgs sw = concat (map in_msgs (inputPorts sw)) @ concat (ageBuffer (internalBuffer sw)) @ concat (map port_msgs (outputPorts sw))"

definition ports_inv :: "NetSwitch \<Rightarrow> bool" where
  "ports_inv sw \<longleftrightarrow> nextStartingPort sw < numPorts sw \<and> length (inputPorts sw) = numPorts sw \<and> length (outputPorts sw) = numPorts sw
     \<and> (\<forall>i < numPorts sw. in_inv (inputPorts sw ! i) \<and> out_inv (outputPorts sw ! i)) \<and> ib_inv (internalBuffer sw)
     \<and> length (sw_messagesWaiting sw) = MAX_VC \<and> (\<forall>v < MAX_VC. sw_messagesWaiting sw ! v = int (waiting_at sw v))"

text \<open>Every message in an output port was put there by an entry of the routing table for its
  destination.\<close>

definition routed_tag :: "NetSwitch \<Rightarrow> nat \<Rightarrow> msg_tag \<Rightarrow> bool" where
  "routed_tag sw i = (\<lambda>(vc, ser, src, dest, rest). int i \<in> set (routingTable sw ! nat dest))"

definition routed_ok :: "NetSwitch \<Rightarrow> bool" where
  "routed_ok sw \<longleftrightarrow> (\<forall>i < numPorts sw. \<forall>m \<in> set (port_msgs (outputPorts sw ! i)). routed_tag sw i (tag m))"

definition sw_inv :: "NetSwitch \<Rightarrow> bool" where
  "sw_inv sw \<longleftrightarrow> ports_inv sw \<and> routes_ok sw \<and> routed_ok sw \<and> (\<forall>m \<in> set (sw_msgs sw). tag_ok (numNodes sw) (tag m))"

text \<open>The output ports and their channels: each connected port has a channel of its own, which
  counts the port's messages.\<close>

definition out_chans :: "NetSwitch \<Rightarrow> nat set" where
  "out_chans sw = {c. Some c \<in> channel ` set (outputPorts sw)}"

definition sw_linked :: "NetSwitch \<Rightarrow> Channel list \<Rightarrow> bool" where
  "sw_linked sw chs \<longleftrightarrow>
     (\<forall>i < length (outputPorts sw). \<forall>j < length (outputPorts sw). isConnected (outputPorts sw ! i) \<longrightarrow>
        channel (outputPorts sw ! i) = channel (outputPorts sw ! j) \<longrightarrow> i = j) \<and>
     (\<forall>i < length (outputPorts sw). case channel (outputPorts sw ! i) of None \<Rightarrow> True
        | Some c \<Rightarrow> c < length chs \<and> messagesWaiting (chs ! c) = int (length (port_msgs (outputPorts sw ! i))))"

text \<open>What a switch may change in the array of channels: it may count messages at its own ones.\<close>

definition chan_frame :: "nat set \<Rightarrow> Channel list \<Rightarrow> Channel list \<Rightarrow> bool" where
  "chan_frame C chs chs' \<longleftrightarrow> length chs' = length chs \<and> (\<forall>c < length chs. c \<notin> C \<longrightarrow> chs' ! c = chs ! c) \<and>
     (\<forall>c < length chs. \<exists>w \<ge> messagesWaiting (chs ! c). chs' ! c = (chs ! c)\<lparr>messagesWaiting := w\<rparr>)"

definition sw_static :: "NetSwitch \<Rightarrow> nat \<times> nat \<times> nat \<times> int list list \<times> int list list \<times> nat option list \<times> nat option list" where
  "sw_static sw = (numNodes sw, numPorts sw, nextStartingPort sw, routingTable sw, vcTable sw,
     map channel (inputPorts sw), map channel (outputPorts sw))"

definition idents :: "MessageState list \<Rightarrow> msg_ident multiset" where
  "idents ms = mset (map ident ms)"

lemma idents_simps [simp]:
  "idents [] = {#}" "idents (m # ms) = add_mset (ident m) (idents ms)" "idents (xs @ ys) = idents xs + idents ys"
  "size (idents ms) = length ms"
  by (simp_all add: idents_def)

lemma idents_tags: "idents ms = image_mset snd (tags ms)"
  by (simp add: idents_def tags_def image_mset.compositionality comp_def tag_def)

lemma tags_idents: "tags xs = tags ys \<Longrightarrow> idents xs = idents ys"
  by (simp add: idents_tags)

lemma idents_concat_update:
  assumes "i < length xs"
  shows "idents (concat (map f (xs[i := y]))) + idents (f (xs ! i)) = idents (concat (map f xs)) + idents (f y)"
proof -
  have "mset (concat (map f (xs[i := y]))) + mset (f (xs ! i)) = mset (concat (map f xs)) + mset (f y)"
    using mset_concat_update[of i "map f xs" "f y"] assms by (simp add: map_update)
  from arg_cong[OF this, of "image_mset ident"] show ?thesis by (simp add: idents_def)
qed

lemma chan_frame_refl [simp]: "chan_frame C chs chs"
  by (auto simp: chan_frame_def intro!: exI[of _ "messagesWaiting x" for x])

lemma chan_frame_trans: "chan_frame C a b \<Longrightarrow> chan_frame C b c \<Longrightarrow> chan_frame C a c"
proof -
  assume ab: "chan_frame C a b" and bc: "chan_frame C b c"
  have "\<exists>w \<ge> messagesWaiting (a ! k). c ! k = (a ! k)\<lparr>messagesWaiting := w\<rparr>" if k: "k < length a" for k
  proof -
    obtain w where w: "w \<ge> messagesWaiting (a ! k)" "b ! k = (a ! k)\<lparr>messagesWaiting := w\<rparr>"
      using ab k unfolding chan_frame_def by blast
    have "k < length b" using ab k by (simp add: chan_frame_def)
    then obtain w' where "w' \<ge> messagesWaiting (b ! k)" "c ! k = (b ! k)\<lparr>messagesWaiting := w'\<rparr>"
      using bc unfolding chan_frame_def by blast
    with w show ?thesis by (intro exI[of _ w']) auto
  qed
  with ab bc show ?thesis by (simp add: chan_frame_def)
qed

lemma counted_frame:
  assumes "c < length chs" "c \<in> C" shows "chan_frame C chs (counted c chs)"
proof -
  have "\<exists>w \<ge> messagesWaiting (chs ! k). counted c chs ! k = (chs ! k)\<lparr>messagesWaiting := w\<rparr>" if "k < length chs" for k
  proof (cases "k = c")
    case True
    then show ?thesis using assms
      by (intro exI[of _ "messagesWaiting (chs ! c) + 1"]) (simp add: counted_def notifyWaitingMessage_def)
  next
    case False
    then show ?thesis by (intro exI[of _ "messagesWaiting (chs ! k)"]) (simp add: counted_def)
  qed
  moreover have "counted c chs ! k = chs ! k" if "k \<notin> C" for k
    using that assms(2) by (cases "k = c") (auto simp: counted_def)
  ultimately show ?thesis by (simp add: chan_frame_def counted_def)
qed

lemma tag_ok_vc:
  assumes "0 \<le> vc" "NETVC_TO_PROTVC vc = prio" "prio < 4"
  shows "vc < 8"
  using assms by (simp add: NETVC_TO_PROTVC_def signed_divide_int_def sgn_if split: if_splits)

lemma BUILD_VC_ok:
  assumes "0 \<le> prio" "prio < 4" "0 \<le> rv" "rv < 2"
  shows "0 \<le> BUILD_VC prio rv" "BUILD_VC prio rv < 8" "NETVC_TO_PROTVC (BUILD_VC prio rv) = prio"
  using assms by (auto simp: BUILD_VC_def NETVC_TO_PROTVC_def signed_divide_int_def sgn_if)

section \<open>The internal buffer is a bounded queue per virtual channel\<close>

lemma ib_invD:
  assumes "ib_inv b"
  shows ib_len: "length (ib_bufferCount b) = 8" "length (ib_buffersUsed b) = 8" "length (ageBuffer b) = 8"
    and ib_used: "v < 8 \<Longrightarrow> ib_buffersUsed b ! v = int (length (ageBuffer b ! v))"
    and ib_le: "v < 8 \<Longrightarrow> ib_buffersUsed b ! v \<le> ib_bufferCount b ! v"
    and ib_vc: "v < 8 \<Longrightarrow> m \<in> set (ageBuffer b ! v) \<Longrightarrow> networkVC m = int v"
    and ib_cur: "currMessage b = Some i \<Longrightarrow> currPriority b < 8 \<and> i < length (ageBuffer b ! currPriority b)"
  using assms by (auto simp: ib_inv_def)

lemma isFull_eq: "ib_inv b \<Longrightarrow> v < 8 \<Longrightarrow> isFull b (int v) = Inr (ib_buffersUsed b ! v \<ge> ib_bufferCount b ! v)"
  by (simp add: isFull_def ib_len)

lemma ib_insert_ok:
  assumes I: "ib_inv b" and m: "networkVC m = int v" "v < 8" and sp: "\<not> ib_buffersUsed b ! v \<ge> ib_bufferCount b ! v"
  shows "\<exists>m'. ib_insertMessage now m b = Inr (b\<lparr>ib_buffersUsed := (ib_buffersUsed b)[v := ib_buffersUsed b ! v + 1],
      ageBuffer := (ageBuffer b)[v := ageBuffer b ! v @ [m']]\<rparr>) \<and> tag m' = tag m"
  using m sp isFull_eq[OF I m(2)] ib_len[OF I]
  by (intro exI[of _ "m\<lparr>atHeadTime := atHeadTime m - now, bufferTime := bufferTime m - now\<rparr>"])
    (simp add: ib_insertMessage_def Let_def tag_def)

lemma ib_insert_inv:
  assumes I: "ib_inv b" and m: "networkVC m = int v" "v < 8" and sp: "\<not> ib_buffersUsed b ! v \<ge> ib_bufferCount b ! v"
  shows "ib_inv (b\<lparr>ib_buffersUsed := (ib_buffersUsed b)[v := ib_buffersUsed b ! v + 1],
      ageBuffer := (ageBuffer b)[v := ageBuffer b ! v @ [m]]\<rparr>)"
  using I m sp unfolding ib_inv_def by (auto simp: nth_list_update split: option.splits)

definition ib_cut :: "nat \<Rightarrow> NetSwitchInternalBuffer \<Rightarrow> NetSwitchInternalBuffer" where
  "ib_cut i b = (let v = currPriority b; q' = take i (ageBuffer b ! v) @ drop (Suc i) (ageBuffer b ! v) in
     b\<lparr>ib_buffersUsed := (ib_buffersUsed b)[v := ib_buffersUsed b ! v - 1], ageBuffer := (ageBuffer b)[v := q'],
       currMessage := (if i < length q' then Some i else None)\<rparr>)"

lemma ib_remove_ok:
  assumes I: "ib_inv b" and c: "currMessage b = Some i"
  shows "\<exists>m. ib_removeMessage now b = Inr (m, ib_cut i b) \<and> tag m = tag (ageBuffer b ! currPriority b ! i)"
proof -
  have v: "currPriority b < 8" and i: "i < length (ageBuffer b ! currPriority b)" using ib_cur[OF I c] by auto
  then have "networkVC (ageBuffer b ! currPriority b ! i) = int (currPriority b)" using ib_vc[OF I v] nth_mem by blast
  then show ?thesis
    using c v i ib_len[OF I] by (simp add: ib_removeMessage_def ib_cut_def Let_def tag_def)
qed

lemma ib_cut_inv:
  assumes I: "ib_inv b" and c: "currMessage b = Some i"
  shows "ib_inv (ib_cut i b)"
proof -
  have v: "currPriority b < 8" and i: "i < length (ageBuffer b ! currPriority b)" using ib_cur[OF I c] by auto
  let ?q = "ageBuffer b ! currPriority b"
  have len: "int (length (take i ?q @ drop (Suc i) ?q)) = ib_buffersUsed b ! currPriority b - 1"
    using ib_used[OF I v] i by simp
  have vc: "\<forall>m \<in> set (take i ?q @ drop (Suc i) ?q). networkVC m = int (currPriority b)"
    using ib_vc[OF I v] by (auto dest: in_set_takeD in_set_dropD)
  show ?thesis
    using I v i len vc unfolding ib_inv_def ib_cut_def Let_def
    by (auto simp: nth_list_update)
qed

definition ib_get :: "int \<Rightarrow> nat \<Rightarrow> NetSwitchInternalBuffer \<Rightarrow> (MessageState \<times> NetSwitchInternalBuffer) res" where
  "ib_get now v b = bindE (gotoFirstMessage v b) (ib_removeMessage now)"

lemma goto_inv: "ib_inv b \<Longrightarrow> v < 8 \<Longrightarrow> \<exists>b'. gotoFirstMessage v b = Inr b' \<and> ib_inv b'
    \<and> ageBuffer b' = ageBuffer b \<and> ib_bufferCount b' = ib_bufferCount b
    \<and> currPriority b' = v \<and> currMessage b' = (if ageBuffer b ! v = [] then None else Some 0)"
  by (simp add: gotoFirstMessage_def ib_len) (auto simp: ib_inv_def)

interpretation ibq: vc_fifo ib_inv "\<lambda>b v. ageBuffer b ! v" "\<lambda>b v. ib_bufferCount b ! v" "ib_insertMessage now" "ib_get now"
  for now
proof (unfold_locales, goal_cases)
  case (1 b m v)
  then have sp: "\<not> ib_buffersUsed b ! v \<ge> ib_bufferCount b ! v" using ib_used[of b v] by simp
  then obtain m' where m': "ib_insertMessage now m b = Inr (b\<lparr>ib_buffersUsed := (ib_buffersUsed b)[v := ib_buffersUsed b ! v + 1],
      ageBuffer := (ageBuffer b)[v := ageBuffer b ! v @ [m']]\<rparr>)" "tag m' = tag m"
    using ib_insert_ok[OF 1(1-3)] by blast
  moreover have "networkVC m' = int v" "ident m' = ident m" using m'(2) 1(2) by (simp_all add: tag_def)
  ultimately show ?case
    using ib_insert_inv[OF 1(1) _ 1(3) sp, of m'] ib_len[OF 1(1)] 1(3) by simp
next
  case (2 b m v)
  then show ?case
    using isFull_eq[OF 2(1,3)] ib_used[OF 2(1,3)] by (simp add: ib_insertMessage_def Let_def)
next
  case (3 b v)
  then obtain b' where b': "gotoFirstMessage v b = Inr b'" "ib_inv b'" "ageBuffer b' = ageBuffer b"
      "ib_bufferCount b' = ib_bufferCount b" "currPriority b' = v" "currMessage b' = Some 0"
    using goto_inv[of b v] by auto
  obtain m where m: "ib_removeMessage now b' = Inr (m, ib_cut 0 b')" "tag m = tag (ageBuffer b ! v ! 0)"
    using ib_remove_ok[OF b'(2,6), of now] b' by auto
  have "networkVC (ageBuffer b ! v ! 0) = int v" using ib_vc[OF 3(1,2)] 3(3) by (simp add: nth_mem)
  then show ?case
    using 3 b' m ib_cut_inv[OF b'(2,6)] ib_len[OF 3(1)]
    by (intro exI[of _ m] exI[of _ "ib_cut 0 b'"])
      (simp add: ib_get_def ib_cut_def Let_def tag_def hd_conv_nth drop_Suc)
next
  case (4 b v)
  then show ?case using goto_inv[of b v] by (auto simp: ib_get_def ib_removeMessage_def)
next
  case (5 b v)
  then show ?case using ib_used[of b v] ib_le[of b v] by simp
qed

section \<open>Routing\<close>

text \<open>A route found by the table: a connected output port with space on a virtual channel of the
  message's own protocol class.\<close>

definition good_route :: "NetSwitch \<Rightarrow> int \<Rightarrow> int \<Rightarrow> int \<times> int \<Rightarrow> bool" where
  "good_route sw dest prio = (\<lambda>(r, v). r \<in> set (routingTable sw ! nat dest) \<and> 0 \<le> r \<and> r < int (numPorts sw) \<and> 0 \<le> v \<and> v < int MAX_VC \<and> NETVC_TO_PROTVC v = prio
     \<and> isConnected (outputPorts sw ! nat r)
     \<and> buffersUsed (outputPorts sw ! nat r) ! nat v < bufferCount (outputPorts sw ! nat r) ! nat v)"

lemma route_search_ok:
  assumes "\<forall>e \<in> set es. entry_ok sw e \<and> fst e \<in> set (routingTable sw ! nat dest)" "length (outputPorts sw) = numPorts sw" "\<forall>i < numPorts sw. out_inv (outputPorts sw ! i)"
    "0 \<le> prio" "prio < 4"
  shows "\<exists>r. route_search (outputPorts sw) prio es = Inr r \<and> (case r of None \<Rightarrow> True | Some rt \<Rightarrow> good_route sw dest prio rt)"
  using assms(1)
proof (induction es)
  case Nil
  then show ?case by simp
next
  case (Cons e es)
  obtain r v where e: "e = (r, v)" by (cases e)
  show ?case
  proof (cases "r \<ge> 0")
    case True
    with Cons.prems e have r: "r < int (numPorts sw)" "0 \<le> v" "v < 2" "isConnected (outputPorts sw ! nat r)"
        "r \<in> set (routingTable sw ! nat dest)"
      by (auto simp: entry_ok_def)
    note B = BUILD_VC_ok[OF assms(4,5) r(2,3)]
    have oi: "port_inv (\<lambda>_. 0) (outputPorts sw ! nat r)" using assms(3) r(1) True by (simp add: out_inv_def)
    have hs: "hasBufferSpace (outputPorts sw ! nat r) (BUILD_VC prio v)
        = Inr (buffersUsed (outputPorts sw ! nat r) ! nat (BUILD_VC prio v) < bufferCount (outputPorts sw ! nat r) ! nat (BUILD_VC prio v))"
      using hasBufferSpace_eq[OF oi, of "nat (BUILD_VC prio v)"] B by simp
    from Cons show ?thesis
      using True r B assms(2) hs by (auto simp: e good_route_def)
  next
    case False
    then show ?thesis by (simp add: e)
  qed
qed

lemma routingPolicy_ok:
  assumes "sw_inv sw" "tag_ok (numNodes sw) (tag m)"
  shows "\<exists>r. routingPolicy sw m = Inr r \<and> (case r of None \<Rightarrow> True | Some rt \<Rightarrow> good_route sw (destNode m) (priority m) rt)"
proof -
  have d: "0 \<le> destNode m" "destNode m < int (numNodes sw)" "0 \<le> priority m" "priority m < 4"
    using assms(2) by (auto simp: tag_ok_def tag_def ident_def)
  have ro: "routes_ok sw" and po: "ports_inv sw" using assms(1) by (auto simp: sw_inv_def)
  have n: "nat (destNode m) < numNodes sw" using d by linarith
  have "\<forall>e \<in> set (zip (routingTable sw ! nat (destNode m)) (vcTable sw ! nat (destNode m))).
      entry_ok sw e \<and> fst e \<in> set (routingTable sw ! nat (destNode m))"
    using ro n unfolding routes_ok_def by (auto dest: set_zip_leftD)
  from route_search_ok[OF this _ _ d(3,4)] po ro d n show ?thesis
    by (simp add: routingPolicy_def routes_ok_def ports_inv_def)
qed

section \<open>Forwarding a message\<close>

lemma tags_concat_update:
  assumes "i < length xs"
  shows "tags (concat (map f (xs[i := y]))) + tags (f (xs ! i)) = tags (concat (map f xs)) + tags (f y)"
proof -
  have "mset (concat (map f (xs[i := y]))) + mset (f (xs ! i)) = mset (concat (map f xs)) + mset (f y)"
    using mset_concat_update[of i "map f xs" "f y"] assms by (simp add: map_update)
  from arg_cong[OF this, of "image_mset tag"] show ?thesis by (simp add: tags_def)
qed

lemma multiset_swap: "(T' :: 'a multiset) + F = T + F' \<Longrightarrow> F' = add_mset x F \<Longrightarrow> T' = add_mset x T"
  by (metis add_mset_add_single add_right_cancel union_mset_add_mset_left union_mset_add_mset_right)

lemma routes_ok_static:
  assumes "sw_static sw' = sw_static sw" "length (outputPorts sw) = numPorts sw" "routes_ok sw"
  shows "routes_ok sw'"
proof -
  have st: "numNodes sw' = numNodes sw" "numPorts sw' = numPorts sw" "routingTable sw' = routingTable sw"
      "vcTable sw' = vcTable sw" "map channel (outputPorts sw') = map channel (outputPorts sw)"
    using assms(1) by (simp_all add: sw_static_def)
  have len: "length (outputPorts sw') = length (outputPorts sw)" using st(5) by (metis length_map)
  have "isConnected (outputPorts sw' ! i) = isConnected (outputPorts sw ! i)" if "i < numPorts sw" for i
    using st(5) len assms(2) that unfolding isConnected_def by (metis nth_map)
  then have "entry_ok sw e \<Longrightarrow> entry_ok sw' e" for e
    using st by (auto simp: entry_ok_def)
  then show ?thesis using assms(3) st unfolding routes_ok_def by metis
qed

text \<open>The contract of the steps of the arbitration loop.\<close>

definition sw_to :: "NetSwitch \<times> Channel list \<Rightarrow> NetSwitch \<times> Channel list \<Rightarrow> bool" where
  "sw_to s s' = (case s of (sw, chs) \<Rightarrow> case s' of (sw', chs') \<Rightarrow>
     sw_inv sw' \<and> sw_linked sw' chs' \<and> sw_static sw' = sw_static sw \<and> chan_frame (out_chans sw) chs chs' \<and>
     idents (sw_msgs sw') = idents (sw_msgs sw))"

lemma sw_to_refl: "sw_inv sw \<Longrightarrow> sw_linked sw chs \<Longrightarrow> sw_to (sw, chs) (sw, chs)"
  by (simp add: sw_to_def)

lemma out_chans_static: "sw_static sw' = sw_static sw \<Longrightarrow> out_chans sw' = out_chans sw"
proof -
  assume "sw_static sw' = sw_static sw"
  then have "set (map channel (outputPorts sw')) = set (map channel (outputPorts sw))" by (simp only: sw_static_def prod.inject)
  then show ?thesis by (simp add: out_chans_def)
qed

lemma sw_to_trans: assumes "sw_to s s'" "sw_to s' s''" shows "sw_to s s''"
proof -
  obtain a b c d e f where s: "s = (a, b)" "s' = (c, d)" "s'' = (e, f)" by (cases s; cases s'; cases s'') simp
  have 1: "sw_static c = sw_static a" "chan_frame (out_chans a) b d" "idents (sw_msgs c) = idents (sw_msgs a)"
    and 2: "sw_inv e" "sw_linked e f" "sw_static e = sw_static c" "chan_frame (out_chans c) d f" "idents (sw_msgs e) = idents (sw_msgs c)"
    using assms by (simp_all add: sw_to_def s)
  have "chan_frame (out_chans a) b f"
    using chan_frame_trans[OF 1(2)] 2(4) out_chans_static[OF 1(1)] by simp
  with 1 2 show ?thesis by (simp add: sw_to_def s)
qed

definition rerouted :: "int \<Rightarrow> MessageState \<Rightarrow> msg_tag" where
  "rerouted vc m = (vc, ident m)"

lemma sw_linkedD:
  assumes "sw_linked sw chs" "i < length (outputPorts sw)" "channel (outputPorts sw ! i) = Some c"
  shows "c < length chs" "messagesWaiting (chs ! c) = int (length (port_msgs (outputPorts sw ! i)))"
proof -
  have "case channel (outputPorts sw ! i) of None \<Rightarrow> True
      | Some c \<Rightarrow> c < length chs \<and> messagesWaiting (chs ! c) = int (length (port_msgs (outputPorts sw ! i)))"
    using assms(1,2) unfolding sw_linked_def by blast
  with assms(3) show "c < length chs" "messagesWaiting (chs ! c) = int (length (port_msgs (outputPorts sw ! i)))"
    by simp_all
qed

lemma send_ok:
  assumes len: "length (outputPorts sw) = numPorts sw" and oi: "\<forall>i < numPorts sw. out_inv (outputPorts sw ! i)"
    and gr: "good_route sw dest prio (r, vc)" and L: "sw_linked sw chs"
  shows "\<exists>op' chs'. sendMessageToOutput now (set_route (r, vc) m) (sw, chs) = Inr (sw\<lparr>outputPorts := (outputPorts sw)[nat r := op']\<rparr>, chs')
    \<and> out_inv op' \<and> channel op' = channel (outputPorts sw ! nat r)
    \<and> tags (port_msgs op') = add_mset (rerouted vc m) (tags (port_msgs (outputPorts sw ! nat r)))
    \<and> sw_linked (sw\<lparr>outputPorts := (outputPorts sw)[nat r := op']\<rparr>) chs' \<and> chan_frame (out_chans sw) chs chs'"
proof -
  let ?op = "outputPorts sw ! nat r" and ?v = "nat vc"
  have r: "0 \<le> r" "nat r < numPorts sw" "?v < 8" "0 \<le> vc" "buffersUsed ?op ! ?v < bufferCount ?op ! ?v"
    using gr by (auto simp: good_route_def)
  have I: "out_inv ?op" using oi r(2) by simp
  obtain c where c: "channel ?op = Some c" using gr by (auto simp: good_route_def isConnected_def)
  have cl: "c < length chs" "messagesWaiting (chs ! c) = int (length (port_msgs ?op))"
    using sw_linkedD[OF L _ c] r(2) len by simp_all
  define m' where "m' = (set_route (r, vc) m)\<lparr>networkVC := vc, nextVC := -1, hopCount := hopCount m + 1\<rparr>"
  have m': "networkVC m' = int ?v" "ident m' = ident m" "nextHop m' = r" using r(4) by (simp_all add: m'_def set_route_def)
  define op' where "op' = ?op\<lparr>buffersUsed := (buffersUsed ?op)[?v := buffersUsed ?op ! ?v + 1],
      msl := (msl ?op)[?v := enq now (msl ?op ! ?v) (op_entry now ?op m')]\<rparr>"
  have ins: "op_insertMessage now m' ?op chs = Inr (op', counted c chs)"
    using op_insertMessage_eq[OF I m'(1) r(3,5) c cl(1)] by (simp add: op'_def)
  have send: "sendMessageToOutput now (set_route (r, vc) m) (sw, chs) = Inr (sw\<lparr>outputPorts := (outputPorts sw)[nat r := op']\<rparr>, counted c chs)"
    using ins r(1,2) len by (simp add: sendMessageToOutput_def Let_def m'_def set_route_def)
  have ti: "tags (port_msgs op') = add_mset (rerouted vc m) (tags (port_msgs ?op))"
    using port_tags_enq[of ?v ?op now "op_entry now ?op m'"] pi_len[OF I[unfolded out_inv_def]] r(3,4) m'
    by (simp add: op'_def port_msgs_def rerouted_def tag_def)
  then have sz: "length (port_msgs op') = Suc (length (port_msgs ?op))"
    by (metis size_add_mset size_tags)
  have oi': "out_inv op'" using port_inv_insert[OF I[unfolded out_inv_def] r(3) _ r(5), of "op_entry now ?op m'"] m'
    by (simp add: out_inv_def op'_def)
  have ch: "channel op' = channel ?op" by (simp add: op'_def)
  have same: "channel ((outputPorts sw)[nat r := op'] ! i) = channel (outputPorts sw ! i)" if "i < numPorts sw" for i
    using ch r(2) len that by (cases "i = nat r") simp_all
  have uniq: "channel (outputPorts sw ! i) \<noteq> Some c" if "i < numPorts sw" "i \<noteq> nat r" for i
    using L that r(2) len c unfolding sw_linked_def isConnected_def by (metis option.distinct(1))
  have "sw_linked (sw\<lparr>outputPorts := (outputPorts sw)[nat r := op']\<rparr>) (counted c chs)"
  proof -
    have "case channel (outputPorts sw ! i) of None \<Rightarrow> True | Some c' \<Rightarrow> c' < length (counted c chs)
        \<and> messagesWaiting (counted c chs ! c') = int (length (port_msgs ((outputPorts sw)[nat r := op'] ! i)))"
      if i: "i < numPorts sw" for i
    proof (cases "i = nat r")
      case True
      then show ?thesis using c cl sz r(2) len by (simp add: counted_def notifyWaitingMessage_def)
    next
      case False
      with L i len uniq[OF i False] show ?thesis
        unfolding sw_linked_def by (auto simp: counted_def nth_list_update split: option.splits)
    qed
    with L same len show ?thesis
      unfolding sw_linked_def isConnected_def by (simp cong: option.case_cong) blast
  qed
  moreover have "chan_frame (out_chans sw) chs (counted c chs)"
  proof -
    have "Some c \<in> channel ` set (outputPorts sw)" using c r(2) len by (metis image_eqI nth_mem)
    with cl(1) show ?thesis by (intro counted_frame) (simp_all add: out_chans_def)
  qed
  ultimately show ?thesis using send oi' ch ti by blast
qed

subsection \<open>Taking a message out of an input port\<close>

definition taken :: "int \<Rightarrow> nat \<Rightarrow> ChannelInputPort \<Rightarrow> ChannelInputPort" where
  "taken now v p = p\<lparr>msl := (msl p)[v := deq now (msl p ! v)], buffersUsed := (buffersUsed p)[v := buffersUsed p ! v - 1]\<rparr>"

lemma ip_remove_ok:
  assumes I: "in_inv p" and v: "v < 8" and ne: "msl p ! v \<noteq> []"
  shows "\<exists>m. ip_removeMessage now (int v) p = Inr (m, taken now v p) \<and> tag m = tag (hd (msl p ! v))"
  using removeMessage_eq[OF I[unfolded in_inv_def, THEN conjunct1] v ne, of now]
  by (simp add: ip_removeMessage_def taken_def tag_def ident_def)

lemma taken_facts:
  assumes I: "in_inv p" and v: "v < 8" and ne: "msl p ! v \<noteq> []"
  shows "in_inv (taken now v p)" "tags (in_msgs p) = add_mset (tag (hd (msl p ! v))) (tags (in_msgs (taken now v p)))"
    "channel (taken now v p) = channel p"
    "w < 8 \<Longrightarrow> length (msl (taken now v p) ! w) = length (msl p ! w) - (if w = v then 1 else 0)"
proof -
  note P = I[unfolded in_inv_def, THEN conjunct1]
  have "\<forall>m \<in> set (deq now (msl p ! v)). networkVC m = int v"
    by (rule networkVC_deq) (use pi_vc[OF P v] in blast)
  from port_inv_remove[OF P v ne _ this] I show "in_inv (taken now v p)"
    by (simp add: in_inv_def taken_def delayed_def)
  have "add_mset (tag (hd (msl p ! v))) (tags (port_msgs (taken now v p))) = tags (port_msgs p)"
    using port_tags_deq[of v p "deq now (msl p ! v)"] pi_len[OF P] v ne by (simp add: port_msgs_def taken_def)
  moreover have "delayList (taken now v p) = delayList p" by (simp add: taken_def)
  ultimately show "tags (in_msgs p) = add_mset (tag (hd (msl p ! v))) (tags (in_msgs (taken now v p)))"
    by (simp add: in_msgs_def)
  show "channel (taken now v p) = channel p" by (simp add: taken_def)
  show "w < 8 \<Longrightarrow> length (msl (taken now v p) ! w) = length (msl p ! w) - (if w = v then 1 else 0)"
    using pi_len[OF P] by (auto simp: taken_def nth_list_update)
qed

lemma waiting_at_taken:
  assumes "i < length (inputPorts sw)" "v < 8" "in_inv (inputPorts sw ! i)" "msl (inputPorts sw ! i) ! v \<noteq> []" "w < 8"
  shows "sum_list (map (\<lambda>p. length (msl p ! w)) ((inputPorts sw)[i := taken now v (inputPorts sw ! i)]))
      + (if w = v then 1 else 0) = waiting_at sw w"
proof -
  obtain k where "length (msl (inputPorts sw ! i) ! v) = Suc k" using assms(4) by (cases "msl (inputPorts sw ! i) ! v") auto
  then show ?thesis
    using sum_list_map_update[OF assms(1), of "\<lambda>p. length (msl p ! w)" "taken now v (inputPorts sw ! i)"]
      taken_facts(4)[OF assms(3,2,4,5), of now]
    by (auto simp: waiting_at_def)
qed

subsection \<open>Assembling a step\<close>

lemma tag_ok_rerouted:
  "tag_ok n (tag m) \<Longrightarrow> 0 \<le> vc \<Longrightarrow> NETVC_TO_PROTVC vc = priority m \<Longrightarrow> tag_ok n (rerouted vc m)"
  by (auto simp: tag_ok_def tag_def rerouted_def ident_def)

text \<open>A step that exchanges the tag of one message and keeps the static part and the ports
  well-formed keeps the invariant of the switch and the identities of its messages.\<close>

lemma sw_step:
  assumes S: "sw_inv sw" and po: "ports_inv sw'" and st: "sw_static sw' = sw_static sw" and rt: "routed_ok sw'"
    and t: "tags (sw_msgs sw') + A = tags (sw_msgs sw) + B" and B: "\<forall>x \<in># B. tag_ok (numNodes sw) x"
    and AB: "image_mset snd A = image_mset snd B"
  shows "sw_inv sw'" "idents (sw_msgs sw') = idents (sw_msgs sw)"
proof -
  have "tag_ok (numNodes sw) x" if "x \<in># tags (sw_msgs sw')" for x
  proof -
    have "x \<in># tags (sw_msgs sw) + B" using that t by (metis union_iff)
    then show ?thesis using B S tags_memD by (fastforce simp: sw_inv_def)
  qed
  then have "\<forall>m \<in> set (sw_msgs sw'). tag_ok (numNodes sw) (tag m)" using tag_in_tags by blast
  moreover have "numNodes sw' = numNodes sw" using st by (simp add: sw_static_def)
  moreover have "routes_ok sw'"
    by (rule routes_ok_static[OF st]) (use S in \<open>simp_all add: sw_inv_def ports_inv_def\<close>)
  ultimately show "sw_inv sw'" using po rt by (simp add: sw_inv_def)
  have "idents (sw_msgs sw') + image_mset snd A = idents (sw_msgs sw) + image_mset snd A"
    using arg_cong[OF t, of "image_mset snd"] AB by (simp add: idents_tags)
  then show "idents (sw_msgs sw') = idents (sw_msgs sw)" by simp
qed

lemma routed_ok_insert:
  assumes R: "routed_ok sw" and r: "r < numPorts sw" and len: "length (outputPorts sw) = numPorts sw"
    and t: "tags (port_msgs op') = add_mset x (tags (port_msgs (outputPorts sw ! r)))" and x: "routed_tag sw r x"
    and eq: "numPorts sw' = numPorts sw" "outputPorts sw' = (outputPorts sw)[r := op']" "routingTable sw' = routingTable sw"
  shows "routed_ok sw'"
proof -
  have "routed_tag sw i (tag m)" if i: "i < numPorts sw" and m: "m \<in> set (port_msgs ((outputPorts sw)[r := op'] ! i))" for i m
  proof (cases "i = r")
    case True
    with m r len have "tag m \<in># add_mset x (tags (port_msgs (outputPorts sw ! r)))" using tag_in_tags t by fastforce
    then consider "tag m = x" | m' where "m' \<in> set (port_msgs (outputPorts sw ! r))" "tag m = tag m'"
      using tags_memD by fastforce
    then show ?thesis using True x R r by cases (auto simp: routed_ok_def)
  next
    case False
    with m i R show ?thesis by (simp add: routed_ok_def)
  qed
  moreover have "routed_tag sw' = routed_tag sw" by (simp add: routed_tag_def eq(3) fun_eq_iff)
  ultimately show ?thesis by (simp add: routed_ok_def eq)
qed

lemma static_update:
  assumes "i < length (outputPorts sw)" "channel op' = channel (outputPorts sw ! i)"
  shows "map channel ((outputPorts sw)[i := op']) = map channel (outputPorts sw)"
  using assms by (rule map_update_same)

lemma sw_invD:
  assumes "sw_inv sw"
  shows swi_ports: "ports_inv sw" and swi_routes: "routes_ok sw" and swi_routed: "routed_ok sw"
    and swi_len: "length (inputPorts sw) = numPorts sw" "length (outputPorts sw) = numPorts sw"
    and swi_in: "i < numPorts sw \<Longrightarrow> in_inv (inputPorts sw ! i)"
    and swi_out: "i < numPorts sw \<Longrightarrow> out_inv (outputPorts sw ! i)"
    and swi_ib: "ib_inv (internalBuffer sw)"
    and swi_wait_len: "length (sw_messagesWaiting sw) = 8"
    and swi_wait: "v < 8 \<Longrightarrow> sw_messagesWaiting sw ! v = int (waiting_at sw v)"
    and swi_msg: "m \<in> set (sw_msgs sw) \<Longrightarrow> tag_ok (numNodes sw) (tag m)"
  using assms by (auto simp: sw_inv_def ports_inv_def)

lemma in_port_msg:
  assumes "sw_inv sw" "i < numPorts sw" "v < 8" "m \<in> set (msl (inputPorts sw ! i) ! v)"
  shows "m \<in> set (sw_msgs sw)"
proof -
  have "length (msl (inputPorts sw ! i)) = 8"
    using swi_in[OF assms(1,2)] pi_len(3) by (auto simp: in_inv_def)
  then have "m \<in> set (in_msgs (inputPorts sw ! i))" using assms(3,4) by (auto simp: in_msgs_def port_msgs_def)
  then show ?thesis using swi_len(1)[OF assms(1)] assms(2) nth_mem unfolding sw_msgs_def by fastforce
qed

lemma ib_msg:
  assumes "sw_inv sw" "v < 8" "m \<in> set (ageBuffer (internalBuffer sw) ! v)"
  shows "m \<in> set (sw_msgs sw)"
  using ib_len(3)[OF swi_ib[OF assms(1)]] assms(2,3) by (auto simp: sw_msgs_def)

text \<open>Forwarding the head of an input queue to an output port.\<close>

lemma forward_from_input:
  assumes S: "sw_inv sw" and L: "sw_linked sw chs" and i: "i < numPorts sw" and v: "v < 8"
    and ne: "msl (inputPorts sw ! i) ! v \<noteq> []" and m: "tag m = tag (hd (msl (inputPorts sw ! i) ! v))"
    and gr: "good_route sw (destNode m) (priority m) rt"
  shows "\<exists>sw' chs'. sendMessageToOutput now (set_route rt m)
        (sw\<lparr>inputPorts := (inputPorts sw)[i := taken now v (inputPorts sw ! i)]\<rparr>, chs) = Inr (sw', chs')
     \<and> sw_messagesWaiting sw' = sw_messagesWaiting sw
     \<and> sw_to (sw, chs) (sw'\<lparr>sw_messagesWaiting := (sw_messagesWaiting sw)[v := sw_messagesWaiting sw ! v - 1]\<rparr>, chs')"
proof -
  let ?ip = "inputPorts sw ! i" and ?r = "nat (fst rt)"
  define sw1 where "sw1 = sw\<lparr>inputPorts := (inputPorts sw)[i := taken now v ?ip]\<rparr>"
  note T = taken_facts[OF swi_in[OF S i] v ne]
  have r: "?r < numPorts sw" "0 \<le> snd rt" "NETVC_TO_PROTVC (snd rt) = priority m"
    using gr by (cases rt; auto simp: good_route_def)+
  have "good_route sw1 (destNode m) (priority m) (fst rt, snd rt)" "sw_linked sw1 chs" "out_chans sw1 = out_chans sw"
    using gr L by (simp_all add: sw1_def good_route_def sw_linked_def out_chans_def cong: option.case_cong)
  then obtain op' chs' where o: "sendMessageToOutput now (set_route rt m) (sw1, chs) = Inr (sw1\<lparr>outputPorts := (outputPorts sw)[?r := op']\<rparr>, chs')"
      "out_inv op'" "channel op' = channel (outputPorts sw ! ?r)"
      "tags (port_msgs op') = add_mset (rerouted (snd rt) m) (tags (port_msgs (outputPorts sw ! ?r)))"
      "sw_linked (sw1\<lparr>outputPorts := (outputPorts sw)[?r := op']\<rparr>) chs'" "chan_frame (out_chans sw) chs chs'"
    using send_ok[of sw1 "destNode m" "priority m" "fst rt" "snd rt" chs now m] swi_len(2)[OF S] swi_out[OF S] by (auto simp: sw1_def)
  let ?sw = "sw1\<lparr>outputPorts := (outputPorts sw)[?r := op'],
      sw_messagesWaiting := (sw_messagesWaiting sw)[v := sw_messagesWaiting sw ! v - 1]\<rparr>"
  have wt: "(sw_messagesWaiting sw)[v := sw_messagesWaiting sw ! v - 1] ! w = int (waiting_at ?sw w)" if w: "w < 8" for w
    using waiting_at_taken[of i sw v w now] i v w ne swi_len(1)[OF S] swi_in[OF S i] swi_wait[OF S w] swi_wait_len[OF S]
    by (auto simp: sw1_def waiting_at_def nth_list_update)
  have po: "ports_inv ?sw"
    using swi_ports[OF S] i r(1) o(2) T(1) wt unfolding ports_inv_def by (auto simp: sw1_def nth_list_update)
  have st: "sw_static ?sw = sw_static sw"
    using static_update[of ?r sw op'] r(1) o(3) swi_len[OF S] i T(3) map_update_same[of i "inputPorts sw" channel]
    by (simp add: sw_static_def sw1_def)
  have "tags (concat (map in_msgs (inputPorts sw))) = add_mset (tag m) (tags (concat (map in_msgs ((inputPorts sw)[i := taken now v ?ip]))))"
    using multiset_swap[OF sym[OF tags_concat_update[of i "inputPorts sw" in_msgs "taken now v ?ip"]], of "tag m"]
      T(2) m i swi_len(1)[OF S] by simp
  moreover have "tags (concat (map port_msgs ((outputPorts sw)[?r := op']))) = add_mset (rerouted (snd rt) m) (tags (concat (map port_msgs (outputPorts sw))))"
    using multiset_swap[OF tags_concat_update[of ?r "outputPorts sw" port_msgs op']] o(4) r(1) swi_len(2)[OF S] by simp
  ultimately have tg: "tags (sw_msgs ?sw) + {#tag m#} = tags (sw_msgs sw) + {#rerouted (snd rt) m#}"
    by (simp add: sw_msgs_def sw1_def)
  have "fst rt = int ?r" "fst rt \<in> set (routingTable sw ! nat (destNode m))" using gr by (auto simp: good_route_def split: prod.splits)
  then have "routed_tag sw ?r (rerouted (snd rt) m)" by (simp add: routed_tag_def rerouted_def ident_def)
  then have rk: "routed_ok ?sw"
    by (rule routed_ok_insert[OF swi_routed[OF S] r(1) swi_len(2)[OF S] o(4)]) (simp_all add: sw1_def)
  have "tag_ok (numNodes sw) (tag m)"
    using swi_msg[OF S in_port_msg[OF S i v]] m ne by (metis list.set_sel(1))
  then have "tag_ok (numNodes sw) (rerouted (snd rt) m)" using tag_ok_rerouted r(2,3) by blast
  then have "sw_inv ?sw" "idents (sw_msgs ?sw) = idents (sw_msgs sw)"
    using sw_step[OF S po st rk tg] by (simp_all add: rerouted_def tag_def)
  moreover have "sw_linked ?sw chs'" using o(5) by (simp add: sw_linked_def cong: option.case_cong)
  ultimately have "sw_to (sw, chs) (?sw, chs')" using st o(6) by (simp add: sw_to_def)
  with o(1) show ?thesis by (simp add: sw1_def)
qed

text \<open>Storing the head of an input queue in the internal buffer.\<close>

lemma store_from_input:
  assumes S: "sw_inv sw" and L: "sw_linked sw chs" and i: "i < numPorts sw" and v: "v < 8"
    and ne: "msl (inputPorts sw ! i) ! v \<noteq> []" and m: "tag m = tag (hd (msl (inputPorts sw ! i) ! v))"
    and sp: "\<not> ib_buffersUsed (internalBuffer sw) ! v \<ge> ib_bufferCount (internalBuffer sw) ! v"
  shows "\<exists>ib. ib_insertMessage now m (internalBuffer sw) = Inr ib
     \<and> sw_to (sw, chs) (sw\<lparr>inputPorts := (inputPorts sw)[i := taken now v (inputPorts sw ! i)], internalBuffer := ib,
          sw_messagesWaiting := (sw_messagesWaiting sw)[v := sw_messagesWaiting sw ! v - 1]\<rparr>, chs)"
proof -
  let ?ip = "inputPorts sw ! i" and ?b = "internalBuffer sw"
  note T = taken_facts[OF swi_in[OF S i] v ne] and I = swi_ib[OF S]
  have "networkVC (hd (msl ?ip ! v)) = int v"
    using swi_in[OF S i] pi_vc[of "\<lambda>v. length (delayed ?ip v)" ?ip v "hd (msl ?ip ! v)"] v ne by (simp add: in_inv_def)
  then have mv: "networkVC m = int v" using m by (simp add: tag_def)
  obtain m' where m': "ib_insertMessage now m ?b = Inr (?b\<lparr>ib_buffersUsed := (ib_buffersUsed ?b)[v := ib_buffersUsed ?b ! v + 1],
      ageBuffer := (ageBuffer ?b)[v := ageBuffer ?b ! v @ [m']]\<rparr>)" "tag m' = tag m"
    using ib_insert_ok[OF I mv v sp] by blast
  let ?ib = "?b\<lparr>ib_buffersUsed := (ib_buffersUsed ?b)[v := ib_buffersUsed ?b ! v + 1],
      ageBuffer := (ageBuffer ?b)[v := ageBuffer ?b ! v @ [m']]\<rparr>"
  let ?sw = "sw\<lparr>inputPorts := (inputPorts sw)[i := taken now v ?ip], internalBuffer := ?ib,
          sw_messagesWaiting := (sw_messagesWaiting sw)[v := sw_messagesWaiting sw ! v - 1]\<rparr>"
  have ibi: "ib_inv ?ib" using ib_insert_inv[OF I _ v sp, of m'] m'(2) mv by (simp add: tag_def)
  have wt: "(sw_messagesWaiting sw)[v := sw_messagesWaiting sw ! v - 1] ! w = int (waiting_at ?sw w)" if w: "w < 8" for w
    using waiting_at_taken[of i sw v w now] i v w ne swi_len(1)[OF S] swi_in[OF S i] swi_wait[OF S w] swi_wait_len[OF S]
    by (auto simp: waiting_at_def nth_list_update)
  have po: "ports_inv ?sw"
    using swi_ports[OF S] i ibi T(1) wt unfolding ports_inv_def by (auto simp: nth_list_update)
  have st: "sw_static ?sw = sw_static sw"
    using swi_len[OF S] i T(3) map_update_same[of i "inputPorts sw" channel] by (simp add: sw_static_def)
  have "tags (concat (map in_msgs (inputPorts sw))) = add_mset (tag m) (tags (concat (map in_msgs ((inputPorts sw)[i := taken now v ?ip]))))"
    using multiset_swap[OF sym[OF tags_concat_update[of i "inputPorts sw" in_msgs "taken now v ?ip"]], of "tag m"]
      T(2) m i swi_len(1)[OF S] by simp
  moreover have "tags (concat ((ageBuffer ?b)[v := ageBuffer ?b ! v @ [m']])) = add_mset (tag m') (tags (concat (ageBuffer ?b)))"
    using mset_concat_push[of v "ageBuffer ?b" m'] ib_len(3)[OF I] v by (simp add: tags_def del: mset_concat)
  ultimately have tg: "tags (sw_msgs ?sw) + {#} = tags (sw_msgs sw) + {#}"
    using m'(2) by (simp add: sw_msgs_def)
  have "sw_inv ?sw" "idents (sw_msgs ?sw) = idents (sw_msgs sw)" using sw_step[OF S po st _ tg] swi_routed[OF S] by (simp_all add: routed_ok_def routed_tag_def)
  moreover have "sw_linked ?sw chs" using L by (simp add: sw_linked_def cong: option.case_cong)
  ultimately show ?thesis using m'(1) st by (simp add: sw_to_def)
qed

section \<open>Arbitration keeps the invariant\<close>

text \<open>What a loop step may do: reach a state that \<open>sw_to\<close> relates to the one before.\<close>

definition reaches :: "NetSwitch \<times> Channel list \<Rightarrow> (int \<times> NetSwitch \<times> Channel list) res \<Rightarrow> bool" where
  "reaches s r \<longleftrightarrow> (\<exists>b sw chs. r = Inr (b, sw, chs) \<and> sw_to s (sw, chs))"

lemma reachesI: "r = Inr (b, sw, chs) \<Longrightarrow> sw_to s (sw, chs) \<Longrightarrow> reaches s r"
  by (auto simp: reaches_def)

lemma drive_port_ok:
  assumes S: "sw_inv sw" and L: "sw_linked sw chs" and v: "v < 8" and i: "i < numPorts sw"
  shows "reaches (sw, chs) (drive_port now v i (b, sw, chs))"
proof -
  let ?ip = "inputPorts sw ! i"
  have P: "port_inv (\<lambda>v. length (delayed ?ip v)) ?ip" using swi_in[OF S i] by (simp add: in_inv_def)
  have at: "vec_at (inputPorts sw) i = Inr ?ip" using i swi_len(1)[OF S] by simp
  show ?thesis
  proof (cases "msl ?ip ! v")
    case Nil
    then show ?thesis
      using at peekMessage_eq[OF P v] sw_to_refl[OF S L] by (simp add: drive_port_def reaches_def)
  next
    case (Cons m q)
    then have ne: "msl ?ip ! v \<noteq> []" and hd: "hd (msl ?ip ! v) = m" by simp_all
    have mv: "networkVC m = int v" using pi_vc[OF P v, of m] Cons by simp
    have tm: "tag_ok (numNodes sw) (tag m)" using swi_msg[OF S in_port_msg[OF S i v, of m]] Cons by simp
    obtain r where r: "routingPolicy sw m = Inr r" "case r of None \<Rightarrow> True | Some rt \<Rightarrow> good_route sw (destNode m) (priority m) rt"
      using routingPolicy_ok[OF S tm] by blast
    obtain m' where m': "ip_removeMessage now (int v) ?ip = Inr (m', taken now v ?ip)" "tag m' = tag (hd (msl ?ip ! v))"
      using ip_remove_ok[OF swi_in[OF S i] v ne] by blast
    have prio: "priority m' = priority m" "destNode m' = destNode m" using m'(2) hd by (simp_all add: tag_def ident_def)
    show ?thesis
    proof (cases r)
      case (Some rt)
      then have "good_route sw (destNode m') (priority m') rt" using r(2) prio by simp
      from forward_from_input[OF S L i v ne m'(2) this, of now] show ?thesis
        using at peekMessage_eq[OF P v] Cons r(1) Some m'(1) swi_wait_len[OF S] v
        by (auto simp: drive_port_def reaches_def)
    next
      case None
      have full: "isFull (internalBuffer sw) (networkVC m) = Inr (ib_buffersUsed (internalBuffer sw) ! v \<ge> ib_bufferCount (internalBuffer sw) ! v)"
        using isFull_eq[OF swi_ib[OF S] v] mv by simp
      show ?thesis
      proof (cases "ib_buffersUsed (internalBuffer sw) ! v \<ge> ib_bufferCount (internalBuffer sw) ! v")
        case True
        then show ?thesis
          using at peekMessage_eq[OF P v] Cons r(1) None full sw_to_refl[OF S L] by (simp add: drive_port_def reaches_def)
      next
        case False
        from store_from_input[OF S L i v ne m'(2) False, of now] show ?thesis
          using at peekMessage_eq[OF P v] Cons r(1) None full False m'(1) swi_wait_len[OF S] v
          by (auto simp: drive_port_def reaches_def)
      qed
    qed
  qed
qed

text \<open>The round robin over the ports ends within \<open>numPorts\<close> steps: before port \<open>start + k\<close> there
  are \<open>numPorts - k\<close> left.\<close>

lemma sw_toD:
  assumes "sw_to (sw, chs) (sw', chs')"
  shows "sw_inv sw'" "sw_linked sw' chs'" "numPorts sw' = numPorts sw" "nextStartingPort sw' = nextStartingPort sw"
    "length (sw_messagesWaiting sw') = 8"
  using assms swi_wait_len[of sw'] by (auto simp: sw_to_def sw_static_def)

lemma drive_ports_ok:
  assumes "sw_inv sw" "sw_linked sw chs" "v < 8" "k < numPorts sw" "numPorts sw - k \<le> fuel"
  shows "reaches (sw, chs) (drive_ports fuel now v ((nextStartingPort sw + k) mod numPorts sw) (b, sw, chs))"
  using assms
proof (induction fuel arbitrary: sw chs b k)
  case 0
  then show ?case by simp
next
  case (Suc fuel)
  let ?n = "numPorts sw" and ?i = "(nextStartingPort sw + k) mod numPorts sw"
  have i: "?i < ?n" using Suc.prems(4) by simp
  obtain b' sw' chs' where d: "drive_port now v ?i (b, sw, chs) = Inr (b', sw', chs')" "sw_to (sw, chs) (sw', chs')"
    using drive_port_ok[OF Suc.prems(1-3) i, of now b] by (auto simp: reaches_def)
  note D = sw_toD[OF d(2)]
  have nxt: "(?i + 1) mod ?n = (nextStartingPort sw + Suc k) mod ?n" by (simp add: mod_Suc_eq)
  show ?case
  proof (cases "(?i + 1) mod ?n \<noteq> nextStartingPort sw \<and> b' \<noteq> 0")
    case True
    have "Suc k < ?n"
    proof (rule ccontr)
      assume "\<not> Suc k < ?n"
      with Suc.prems(4) have "Suc k = ?n" by simp
      with nxt have "(?i + 1) mod ?n = nextStartingPort sw mod ?n" by simp
      also have "\<dots> = nextStartingPort sw" using swi_ports[OF Suc.prems(1)] by (simp add: ports_inv_def)
      finally show False using True by simp
    qed
    with Suc.IH[OF D(1,2) Suc.prems(3), of "Suc k" b'] D Suc.prems(5)
    have "reaches (sw', chs') (drive_ports fuel now v ((nextStartingPort sw + Suc k) mod ?n) (b', sw', chs'))"
      by simp
    with d(2) have "reaches (sw, chs) (drive_ports fuel now v ((?i + 1) mod ?n) (b', sw', chs'))"
      unfolding nxt reaches_def using sw_to_trans by blast
    with True d(1) D show ?thesis by (simp add: Let_def)
  next
    case False
    with d D show ?thesis by (auto simp: Let_def reaches_def)
  qed
qed

subsection \<open>The scan of the internal buffer\<close>

definition ib_left :: "NetSwitchInternalBuffer \<Rightarrow> nat" where
  "ib_left b = (case currMessage b of None \<Rightarrow> 0 | Some i \<Rightarrow> length (ageBuffer b ! currPriority b) - i)"

lemma nextMessage_ok:
  assumes I: "ib_inv b"
  shows "\<exists>e b'. nextMessage b = Inr (e, b') \<and> ib_inv b' \<and> ageBuffer b' = ageBuffer b \<and> ib_buffersUsed b' = ib_buffersUsed b
    \<and> ib_bufferCount b' = ib_bufferCount b \<and> currPriority b' = currPriority b
    \<and> (\<not> e \<longrightarrow> Suc (ib_left b') = ib_left b)"
proof (cases "currMessage b")
  case None
  then show ?thesis using I by (auto simp: nextMessage_def)
next
  case (Some i)
  with ib_cur[OF I] have c: "currPriority b < 8" "i < length (ageBuffer b ! currPriority b)" by auto
  let ?b = "if i + 1 < length (ageBuffer b ! currPriority b) then b\<lparr>currMessage := Some (i + 1)\<rparr> else b\<lparr>currMessage := None\<rparr>"
  have "nextMessage b = Inr (\<not> i + 1 < length (ageBuffer b ! currPriority b), ?b)"
    using Some c ib_len(3)[OF I] by (simp add: nextMessage_def)
  moreover have "ib_inv ?b" using I c by (auto simp: ib_inv_def)
  moreover have "i + 1 < length (ageBuffer b ! currPriority b) \<longrightarrow> Suc (ib_left ?b) = ib_left b"
    using Some by (auto simp: ib_left_def)
  ultimately show ?thesis by auto
qed

lemma forward_from_internal:
  assumes S: "sw_inv sw" and L: "sw_linked sw chs" and c: "currMessage (internalBuffer sw) = Some i"
    and m: "tag m = tag (ageBuffer (internalBuffer sw) ! currPriority (internalBuffer sw) ! i)"
    and gr: "good_route sw (destNode m) (priority m) rt"
  shows "\<exists>sw' chs'. sendMessageToOutput now (set_route rt m) (sw\<lparr>internalBuffer := ib_cut i (internalBuffer sw)\<rparr>, chs) = Inr (sw', chs')
     \<and> internalBuffer sw' = ib_cut i (internalBuffer sw) \<and> sw_to (sw, chs) (sw', chs')"
proof -
  let ?b = "internalBuffer sw" and ?r = "nat (fst rt)"
  let ?v = "currPriority ?b"
  note I = swi_ib[OF S]
  have v: "?v < 8" and i: "i < length (ageBuffer ?b ! ?v)" using ib_cur[OF I c] by auto
  define sw1 where "sw1 = sw\<lparr>internalBuffer := ib_cut i ?b\<rparr>"
  have r: "?r < numPorts sw" "0 \<le> snd rt" "NETVC_TO_PROTVC (snd rt) = priority m"
    using gr by (cases rt; auto simp: good_route_def)+
  have "good_route sw1 (destNode m) (priority m) (fst rt, snd rt)" "sw_linked sw1 chs" "out_chans sw1 = out_chans sw"
    using gr L by (simp_all add: sw1_def good_route_def sw_linked_def out_chans_def cong: option.case_cong)
  then obtain op' chs' where o: "sendMessageToOutput now (set_route rt m) (sw1, chs) = Inr (sw1\<lparr>outputPorts := (outputPorts sw)[?r := op']\<rparr>, chs')"
      "out_inv op'" "channel op' = channel (outputPorts sw ! ?r)"
      "tags (port_msgs op') = add_mset (rerouted (snd rt) m) (tags (port_msgs (outputPorts sw ! ?r)))"
      "sw_linked (sw1\<lparr>outputPorts := (outputPorts sw)[?r := op']\<rparr>) chs'" "chan_frame (out_chans sw) chs chs'"
    using send_ok[of sw1 "destNode m" "priority m" "fst rt" "snd rt" chs now m] swi_len(2)[OF S] swi_out[OF S] by (auto simp: sw1_def)
  let ?sw = "sw1\<lparr>outputPorts := (outputPorts sw)[?r := op']\<rparr>"
  have po: "ports_inv ?sw"
    using swi_ports[OF S] r(1) o(2) ib_cut_inv[OF I c]
    unfolding ports_inv_def by (auto simp: sw1_def nth_list_update waiting_at_def)
  have st: "sw_static ?sw = sw_static sw"
    using static_update[of ?r sw op'] r(1) o(3) swi_len[OF S] by (simp add: sw_static_def sw1_def)
  have "ageBuffer ?b ! ?v = take i (ageBuffer ?b ! ?v) @ (ageBuffer ?b ! ?v ! i) # drop (Suc i) (ageBuffer ?b ! ?v)"
    using i by (rule id_take_nth_drop)
  then have q: "tags (ageBuffer ?b ! ?v) = add_mset (tag m) (tags (take i (ageBuffer ?b ! ?v) @ drop (Suc i) (ageBuffer ?b ! ?v)))"
    using m by (metis tags_append tags_Cons union_mset_add_mset_right)
  have "tags (concat (ageBuffer ?b)) = add_mset (tag m) (tags (concat (ageBuffer (ib_cut i ?b))))"
    using multiset_swap[OF sym[OF tags_concat_update[of ?v "ageBuffer ?b" "\<lambda>x. x"]] q] v ib_len(3)[OF I]
    by (simp add: ib_cut_def Let_def)
  moreover have "tags (concat (map port_msgs ((outputPorts sw)[?r := op']))) = add_mset (rerouted (snd rt) m) (tags (concat (map port_msgs (outputPorts sw))))"
    using multiset_swap[OF tags_concat_update[of ?r "outputPorts sw" port_msgs op']] o(4) r(1) swi_len(2)[OF S] by simp
  ultimately have tg: "tags (sw_msgs ?sw) + {#tag m#} = tags (sw_msgs sw) + {#rerouted (snd rt) m#}"
    by (simp add: sw_msgs_def sw1_def)
  have "fst rt = int ?r" "fst rt \<in> set (routingTable sw ! nat (destNode m))" using gr by (auto simp: good_route_def split: prod.splits)
  then have "routed_tag sw ?r (rerouted (snd rt) m)" by (simp add: routed_tag_def rerouted_def ident_def)
  then have rk: "routed_ok ?sw"
    by (rule routed_ok_insert[OF swi_routed[OF S] r(1) swi_len(2)[OF S] o(4)]) (simp_all add: sw1_def)
  have "tag_ok (numNodes sw) (tag m)"
    using swi_msg[OF S ib_msg[OF S v]] m i nth_mem by metis
  then have "tag_ok (numNodes sw) (rerouted (snd rt) m)" using tag_ok_rerouted r(2,3) by blast
  then have "sw_inv ?sw" "idents (sw_msgs ?sw) = idents (sw_msgs sw)"
    using sw_step[OF S po st rk tg] by (simp_all add: rerouted_def tag_def)
  then have "sw_to (sw, chs) (?sw, chs')" using st o(5,6) by (simp add: sw_to_def)
  with o(1) show ?thesis by (simp add: sw1_def)
qed

lemma ib_left_cut:
  assumes I: "ib_inv b" and c: "currMessage b = Some i"
  shows "ib_left (ib_cut i b) < ib_left b" "currPriority (ib_cut i b) = currPriority b"
    "length (ageBuffer (ib_cut i b) ! currPriority b) < length (ageBuffer b ! currPriority b)"
proof -
  have v: "currPriority b < 8" and i: "i < length (ageBuffer b ! currPriority b)" using ib_cur[OF I c] by auto
  then show "ib_left (ib_cut i b) < ib_left b" "currPriority (ib_cut i b) = currPriority b"
    "length (ageBuffer (ib_cut i b) ! currPriority b) < length (ageBuffer b ! currPriority b)"
    using c ib_len(3)[OF I] by (auto simp: ib_left_def ib_cut_def Let_def)
qed

lemma sw_to_buffer:
  assumes "sw_inv sw" "sw_linked sw chs" "ib_inv ib" "ageBuffer ib = ageBuffer (internalBuffer sw)"
  shows "sw_to (sw, chs) (sw\<lparr>internalBuffer := ib\<rparr>, chs)"
proof -
  let ?sw = "sw\<lparr>internalBuffer := ib\<rparr>"
  have "sw_msgs ?sw = sw_msgs sw" using assms(4) by (simp add: sw_msgs_def)
  moreover have "ports_inv ?sw" using swi_ports[OF assms(1)] assms(3) by (simp add: ports_inv_def waiting_at_def)
  moreover have "sw_static ?sw = sw_static sw" by (simp add: sw_static_def)
  moreover have "sw_linked ?sw chs" using assms(2) by (simp add: sw_linked_def cong: option.case_cong)
  ultimately show ?thesis
    using sw_step[OF assms(1), of ?sw "{#}" "{#}"] swi_routed[OF assms(1)] by (simp add: sw_to_def routed_ok_def routed_tag_def)
qed

text \<open>One step of the scan: forward the message at the cursor when there is a route, and advance.\<close>

lemma internal_step:
  assumes S: "sw_inv sw" and L: "sw_linked sw chs" and c: "currMessage (internalBuffer sw) = Some i"
  shows "\<exists>m r b' sw' chs' e ib. ib_getMessage (internalBuffer sw) = Inr (Some m) \<and> routingPolicy sw m = Inr r
    \<and> (case r of None \<Rightarrow> Inr (bw, sw, chs)
        | Some route \<Rightarrow> bindE (ib_removeMessage now (internalBuffer sw)) (\<lambda>(m, ib).
            bindE (sendMessageToOutput now (set_route route m) (sw\<lparr>internalBuffer := ib\<rparr>, chs)) (\<lambda>(sw', chs').
            Inr (bw - 1, sw', chs')))) = Inr (b', sw', chs')
    \<and> nextMessage (internalBuffer sw') = Inr (e, ib) \<and> sw_to (sw, chs) (sw'\<lparr>internalBuffer := ib\<rparr>, chs')
    \<and> (\<not> e \<longrightarrow> ib_left ib < ib_left (internalBuffer sw))"
proof -
  let ?b = "internalBuffer sw"
  note I = swi_ib[OF S]
  have v: "currPriority ?b < 8" and i: "i < length (ageBuffer ?b ! currPriority ?b)" using ib_cur[OF I c] by auto
  let ?m = "ageBuffer ?b ! currPriority ?b ! i"
  have get: "ib_getMessage ?b = Inr (Some ?m)" using c v i ib_len(3)[OF I] by (simp add: ib_getMessage_def)
  have "tag_ok (numNodes sw) (tag ?m)" by (rule swi_msg[OF S ib_msg[OF S v nth_mem[OF i]]])
  then obtain r where r: "routingPolicy sw ?m = Inr r" "case r of None \<Rightarrow> True | Some rt \<Rightarrow> good_route sw (destNode ?m) (priority ?m) rt"
    using routingPolicy_ok[OF S] by blast
  show ?thesis
  proof (cases r)
    case None
    obtain e ib where n: "nextMessage ?b = Inr (e, ib)" "ib_inv ib" "ageBuffer ib = ageBuffer ?b" "\<not> e \<longrightarrow> Suc (ib_left ib) = ib_left ?b"
      using nextMessage_ok[OF I] by blast
    with sw_to_buffer[OF S L n(2,3)] None get r(1) show ?thesis
      by (intro exI[of _ ?m] exI[of _ r] exI[of _ bw] exI[of _ sw] exI[of _ chs] exI[of _ e] exI[of _ ib]) auto
  next
    case (Some rt)
    obtain m where m: "ib_removeMessage now ?b = Inr (m, ib_cut i ?b)" "tag m = tag ?m"
      using ib_remove_ok[OF I c] by blast
    have "good_route sw (destNode m) (priority m) rt" using r(2) Some m(2) by (simp add: tag_def ident_def)
    then obtain sw' chs' where f: "sendMessageToOutput now (set_route rt m) (sw\<lparr>internalBuffer := ib_cut i ?b\<rparr>, chs) = Inr (sw', chs')"
        "internalBuffer sw' = ib_cut i ?b" "sw_to (sw, chs) (sw', chs')"
      using forward_from_internal[OF S L c m(2)] by blast
    obtain e ib where n: "nextMessage (internalBuffer sw') = Inr (e, ib)" "ib_inv ib" "ageBuffer ib = ageBuffer (internalBuffer sw')"
        "\<not> e \<longrightarrow> Suc (ib_left ib) = ib_left (internalBuffer sw')"
      using nextMessage_ok[OF ib_cut_inv[OF I c]] f(2) by metis
    have "sw_to (sw, chs) (sw'\<lparr>internalBuffer := ib\<rparr>, chs')"
      using sw_to_trans[OF f(3) sw_to_buffer[OF sw_toD(1,2)[OF f(3)] n(2,3)]] .
    moreover have "\<not> e \<longrightarrow> ib_left ib < ib_left ?b" using n(4) f(2) ib_left_cut(1)[OF I c] by auto
    ultimately show ?thesis
      using Some get r(1) m(1) f(1) n(1)
      by (intro exI[of _ ?m] exI[of _ r] exI[of _ "bw - 1"] exI[of _ sw'] exI[of _ chs'] exI[of _ e] exI[of _ ib]) simp
  qed
qed

lemma drive_internal_ok:
  assumes "sw_inv sw" "sw_linked sw chs" "ib_left (internalBuffer sw) < fuel"
  shows "reaches (sw, chs) (drive_internal fuel now bw (sw, chs))"
  using assms
proof (induction fuel arbitrary: sw chs bw)
  case 0
  then show ?case by simp
next
  case (Suc fuel)
  show ?case
  proof (cases "currMessage (internalBuffer sw)")
    case None
    then show ?thesis using sw_to_refl[OF Suc.prems(1,2)] by (simp add: reaches_def ib_getMessage_def)
  next
    case (Some i)
    obtain m r b' sw' chs' e ib where st: "ib_getMessage (internalBuffer sw) = Inr (Some m)" "routingPolicy sw m = Inr r"
      "(case r of None \<Rightarrow> Inr (bw, sw, chs)
        | Some route \<Rightarrow> bindE (ib_removeMessage now (internalBuffer sw)) (\<lambda>(m, ib).
            bindE (sendMessageToOutput now (set_route route m) (sw\<lparr>internalBuffer := ib\<rparr>, chs)) (\<lambda>(sw', chs').
            Inr (bw - 1, sw', chs')))) = Inr (b', sw', chs')"
      "nextMessage (internalBuffer sw') = Inr (e, ib)" "sw_to (sw, chs) (sw'\<lparr>internalBuffer := ib\<rparr>, chs')"
      "\<not> e \<longrightarrow> ib_left ib < ib_left (internalBuffer sw)"
      using internal_step[OF Suc.prems(1,2) Some, of bw now] by blast
    show ?thesis
    proof (cases "bw > 0")
      case False
      then show ?thesis using st(1) sw_to_refl[OF Suc.prems(1,2)] by (simp add: reaches_def)
    next
      case True
      have run: "drive_internal (Suc fuel) now bw (sw, chs) = (if e then Inr (b', sw'\<lparr>internalBuffer := ib\<rparr>, chs')
          else drive_internal fuel now b' (sw'\<lparr>internalBuffer := ib\<rparr>, chs'))"
        using True st(1-4) by simp
      have "reaches (sw'\<lparr>internalBuffer := ib\<rparr>, chs') (drive_internal fuel now b' (sw'\<lparr>internalBuffer := ib\<rparr>, chs'))" if "\<not> e"
        using Suc.IH[OF sw_toD(1,2)[OF st(5)], of b'] st(6) Suc.prems(3) that by simp
      then show ?thesis unfolding run using st(5) sw_to_trans by (auto simp: reaches_def)
    qed
  qed
qed

subsection \<open>A whole cycle\<close>

lemma drive_vc_ok:
  assumes S: "sw_inv sw" and L: "sw_linked sw chs" and v: "v < 8"
  shows "reaches (sw, chs) (drive_vc now v (bw, sw, chs))"
proof -
  obtain ib where ib: "gotoFirstMessage v (internalBuffer sw) = Inr ib" "ib_inv ib" "ageBuffer ib = ageBuffer (internalBuffer sw)"
      "currPriority ib = v" "currMessage ib = (if ageBuffer (internalBuffer sw) ! v = [] then None else Some 0)"
    using goto_inv[OF swi_ib[OF S] v] by blast
  let ?sw = "sw\<lparr>internalBuffer := ib\<rparr>"
  have to1: "sw_to (sw, chs) (?sw, chs)" by (rule sw_to_buffer[OF S L ib(2,3)])
  have "ib_left ib < Suc (length (ageBuffer ib ! v))" using ib by (simp add: ib_left_def)
  with drive_internal_ok[OF sw_toD(1,2)[OF to1], of "Suc (length (ageBuffer ib ! v))" now bw]
  obtain b2 sw2 chs2 where d: "drive_internal (Suc (length (ageBuffer ib ! v))) now bw (?sw, chs) = Inr (b2, sw2, chs2)"
      "sw_to (?sw, chs) (sw2, chs2)"
    by (auto simp: reaches_def)
  have to2: "sw_to (sw, chs) (sw2, chs2)" by (rule sw_to_trans[OF to1 d(2)])
  note D = sw_toD[OF to2]
  have "nextStartingPort sw2 < numPorts sw2" using swi_ports[OF D(1)] by (simp add: ports_inv_def)
  with drive_ports_ok[OF D(1,2) v, of 0 "numPorts sw2" now b2]
  have "reaches (sw2, chs2) (drive_ports (numPorts sw2) now v (nextStartingPort sw2) (b2, sw2, chs2))" by simp
  then have "reaches (sw, chs) (drive_ports (numPorts sw2) now v (nextStartingPort sw2) (b2, sw2, chs2))"
    using to2 sw_to_trans unfolding reaches_def by blast
  then show ?thesis
    using ib(1) d(1) to2 D(5) v by (simp add: drive_vc_def reaches_def)
qed

lemma sw_drive_ok:
  assumes S: "sw_inv sw" and L: "sw_linked sw chs"
  shows "\<exists>sw' chs'. sw_drive now (sw, chs) = Inr (sw', chs') \<and> sw_inv sw' \<and> sw_linked sw' chs'
    \<and> chan_frame (out_chans sw) chs chs' \<and> idents (sw_msgs sw') = idents (sw_msgs sw)
    \<and> sw_static (sw'\<lparr>nextStartingPort := nextStartingPort sw\<rparr>) = sw_static sw
    \<and> nextStartingPort sw' = (nextStartingPort sw + 1) mod numPorts sw"
proof -
  let ?P = "\<lambda>s :: int \<times> NetSwitch \<times> Channel list. sw_to (sw, chs) (snd s)"
  have "\<exists>s. foldE (drive_vc now) [0..<8] (crossbarBandwidth sw, sw, chs) = Inr s \<and> ?P s"
  proof (rule foldE_inv[where P = ?P])
    fix v s assume v: "v \<in> set [0..<8]" and P: "?P s"
    obtain b sw1 chs1 where s: "s = (b, sw1, chs1)" by (cases s) auto
    have to1: "sw_to (sw, chs) (sw1, chs1)" using P s by simp
    obtain b2 sw2 chs2 where "drive_vc now v (b, sw1, chs1) = Inr (b2, sw2, chs2)" "sw_to (sw1, chs1) (sw2, chs2)"
      using drive_vc_ok[OF sw_toD(1,2)[OF to1], of v now b] v by (auto simp: reaches_def)
    then show "\<exists>s'. drive_vc now v s = Inr s' \<and> ?P s'" using s sw_to_trans[OF to1] by auto
  qed (simp add: sw_to_refl[OF S L])
  then obtain b sw1 chs1 where r: "foldE (drive_vc now) [0..<8] (crossbarBandwidth sw, sw, chs) = Inr (b, sw1, chs1)"
      "sw_to (sw, chs) (sw1, chs1)"
    by auto
  note D = sw_toD[OF r(2)]
  let ?sw = "sw1\<lparr>nextStartingPort := (nextStartingPort sw1 + 1) mod numPorts sw1\<rparr>"
  have "sw_inv ?sw"
  proof -
    have "ports_inv ?sw" using swi_ports[OF D(1)] by (auto simp: ports_inv_def waiting_at_def)
    moreover have "routes_ok ?sw" using swi_routes[OF D(1)] by (simp add: routes_ok_def entry_ok_def)
    moreover have "routed_ok ?sw" using swi_routed[OF D(1)] by (simp add: routed_ok_def routed_tag_def)
    ultimately show ?thesis using D(1) by (simp add: sw_inv_def sw_msgs_def)
  qed
  moreover have "sw_linked ?sw chs1" using D(2) by (simp add: sw_linked_def cong: option.case_cong)
  moreover have "sw_drive now (sw, chs) = Inr (?sw, chs1)" using r(1) by (simp add: sw_drive_def)
  moreover have "sw_static (?sw\<lparr>nextStartingPort := nextStartingPort sw\<rparr>) = sw_static sw"
    using r(2) by (simp add: sw_to_def sw_static_def)
  moreover have "sw_msgs ?sw = sw_msgs sw1" by (simp add: sw_msgs_def)
  ultimately show ?thesis using r(2) D(3,4) by (auto simp: sw_to_def)
qed

lemma driveInputPort_ok:
  assumes S: "sw_inv sw" and L: "sw_linked sw chs" and i: "i < numPorts sw"
  shows "\<exists>sw'. driveInputPort now i sw = Inr sw' \<and> sw_to (sw, chs) (sw', chs)"
proof -
  let ?ip = "inputPorts sw ! i"
  note I = swi_in[OF S i]
  obtain w' where w': "foldE (\<lambda>m. sw_notify (networkVC m)) (due_msgs now ?ip) (sw_messagesWaiting sw) = Inr w'" "length w' = 8"
      "\<forall>v < 8. w' ! v = sw_messagesWaiting sw ! v + int (length (filter (\<lambda>m. networkVC m = int v) (due_msgs now ?ip)))"
    using sw_notify_all[OF in_inv_due_ok[OF I] swi_wait_len[OF S]] by blast
  let ?sw = "sw\<lparr>inputPorts := (inputPorts sw)[i := drained now ?ip], sw_messagesWaiting := w'\<rparr>"
  have run: "driveInputPort now i sw = Inr ?sw"
    using i swi_len(1)[OF S] w'(1) by (simp add: driveInputPort_def ip_drive_eq[OF I])
  have "w' ! v = int (waiting_at ?sw v)" if v: "v < 8" for v
    using sum_list_map_update[of i "inputPorts sw" "\<lambda>p. length (msl p ! v)" "drained now ?ip"] i swi_len(1)[OF S]
      drained_length[OF I v, of now] w'(3) v swi_wait[OF S v] by (simp add: waiting_at_def)
  then have po: "ports_inv ?sw"
    using swi_ports[OF S] i w'(2) drained_inv[OF I] unfolding ports_inv_def by (auto simp: nth_list_update)
  have st: "sw_static ?sw = sw_static sw"
    using map_update_same[of i "inputPorts sw" channel "drained now ?ip"] i swi_len(1)[OF S]
    by (simp add: sw_static_def drained_def)
  have "tags (sw_msgs ?sw) = tags (sw_msgs sw)"
    using tags_concat_update[of i "inputPorts sw" in_msgs "drained now ?ip"] drained_mset[OF I] i swi_len(1)[OF S]
    by (simp add: sw_msgs_def)
  then have "sw_inv ?sw" "idents (sw_msgs ?sw) = idents (sw_msgs sw)"
    using sw_step[OF S po st, of "{#}" "{#}"] swi_routed[OF S] by (simp_all add: routed_ok_def routed_tag_def)
  moreover have "sw_linked ?sw chs" using L by (simp add: sw_linked_def cong: option.case_cong)
  ultimately show ?thesis using run st by (simp add: sw_to_def)
qed

lemma driveInputPorts_ok:
  assumes S: "sw_inv sw" and L: "sw_linked sw chs"
  shows "\<exists>sw'. driveInputPorts now sw = Inr sw' \<and> sw_to (sw, chs) (sw', chs)"
  unfolding driveInputPorts_def
proof (rule foldE_inv)
  fix i s assume i: "i \<in> set [0..<numPorts sw]" and P: "sw_to (sw, chs) (s, chs)"
  then obtain s' where "driveInputPort now i s = Inr s'" "sw_to (s, chs) (s', chs)"
    using driveInputPort_ok[OF sw_toD(1,2)[OF P], of i now] sw_toD(3)[OF P] by auto
  with sw_to_trans[OF P] show "\<exists>s'. driveInputPort now i s = Inr s' \<and> sw_to (sw, chs) (s', chs)" by blast
qed (rule sw_to_refl[OF S L])

section \<open>Correctness of a switch\<close>

text \<open>C2: One arbitration cycle of a switch whose output ports are linked to their channels always
  completes: it trips no assertion, overruns no buffer, stays within the bounds of its two loops,
  and keeps the invariant (exact occupancy and waiting counters, every message on a virtual channel
  of its own protocol class, routing table and cursor intact). No message is lost, duplicated or
  altered in its identity, the channels of the output ports count exactly what they hold, other
  channels are untouched, and the round-robin starting port advances by one.\<close>

theorem sw_drive_correct:
  assumes "sw_inv sw" and "sw_linked sw chs"
  shows "\<exists>sw' chs'. sw_drive now (sw, chs) = Inr (sw', chs') \<and> sw_inv sw' \<and> sw_linked sw' chs'
    \<and> idents (sw_msgs sw') = idents (sw_msgs sw) \<and> chan_frame (out_chans sw) chs chs'
    \<and> nextStartingPort sw' = (nextStartingPort sw + 1) mod numPorts sw"
  using sw_drive_ok[OF assms, of now] by blast

text \<open>A switch with two ports, both connected, and three messages to node 1, which is reached
  through port 1.\<close>

definition demo_in :: "MessageState list list \<Rightarrow> ChannelInputPort" where
  "demo_in qs = \<lparr>bufferCount = replicate 8 2, buffersUsed = map (\<lambda>q. int (length q)) qs, msl = qs, channel = Some 0,
     channelLatency = 1, delayList = []\<rparr>"

definition demo_out :: "nat \<Rightarrow> ChannelPort" where
  "demo_out c = \<lparr>bufferCount = replicate 8 2, buffersUsed = replicate 8 0, msl = replicate 8 [], channel = Some c\<rparr>"

definition demo_ib :: "MessageState list \<Rightarrow> NetSwitchInternalBuffer" where
  "demo_ib q = \<lparr>ib_bufferCount = replicate 8 4, ib_buffersUsed = (replicate 8 0)[0 := int (length q)],
     ageBuffer = (replicate 8 [])[0 := q], currMessage = None, currPriority = 0\<rparr>"

definition demo_switch :: "int \<Rightarrow> MessageState list \<Rightarrow> MessageState list list \<Rightarrow> MessageState list list \<Rightarrow> NetSwitch" where
  "demo_switch bandwidth ib q0 q1 = \<lparr>sw_name = 0, numNodes = 2, numPorts = 2, crossbarBandwidth = bandwidth, nextStartingPort = 0,
     inputPorts = [demo_in q0, demo_in q1], outputPorts = [demo_out 1, demo_out 3], internalBuffer = demo_ib ib,
     routingTable = [[0, -1, -1, -1], [1, -1, -1, -1]], vcTable = [[0, -1, -1, -1], [0, -1, -1, -1]],
     sw_messagesWaiting = map2 (\<lambda>a b. int (length a + length b)) q0 q1\<rparr>"

definition demo_channels :: "Channel list" where
  "demo_channels = [Channel_new 0, Channel_new 1, Channel_new 2, Channel_new 3]"

definition busy_switch :: NetSwitch where
  "busy_switch = demo_switch 1 []
     ((replicate 8 [])[0 := [demo_msg 1 0], 4 := [demo_msg 2 4]]) ((replicate 8 [])[4 := [demo_msg 3 4]])"

lemma busy_switch_ok: "sw_inv busy_switch" "sw_linked busy_switch demo_channels"
  by code_simp+

theorem sw_drive_correct_witness:
  "\<exists>sw' chs'. sw_drive 5 (busy_switch, demo_channels) = Inr (sw', chs') \<and> sw_inv sw' \<and> sw_linked sw' chs'
    \<and> idents (sw_msgs sw') = idents (sw_msgs busy_switch) \<and> chan_frame (out_chans busy_switch) demo_channels chs'
    \<and> nextStartingPort sw' = (nextStartingPort busy_switch + 1) mod numPorts busy_switch"
  by (rule sw_drive_correct[OF busy_switch_ok])

text \<open>The arbitration loop tests the remaining bandwidth only after it has handled a port, and only
  against zero: entering the ports of a virtual channel with no bandwidth left forwards a message,
  makes the counter negative and lets the loop run over all ports. The switch below has a bandwidth
  of one message per cycle and forwards three.\<close>

theorem crossbar_bandwidth_exceeded:
  "crossbarBandwidth busy_switch = 1 \<and>
   (case sw_drive 5 (busy_switch, demo_channels) of Inl _ \<Rightarrow> False
    | Inr (sw', _) \<Rightarrow> length (concat (map port_msgs (outputPorts sw'))) = 3)"
  by code_simp

text \<open>Removing a message from the internal buffer advances the cursor, and the scan advances it
  again: with bandwidth to spare and two messages that can be routed, only the first is sent.\<close>

theorem internal_scan_skips:
  "(case sw_drive 5 (demo_switch 4 [demo_msg 1 0, demo_msg 2 0] (replicate 8 []) (replicate 8 []), demo_channels) of
      Inl _ \<Rightarrow> False
    | Inr (sw', _) \<Rightarrow> map serial (concat (map port_msgs (outputPorts sw'))) = [1]
        \<and> map serial (ageBuffer (internalBuffer sw') ! 0) = [2])"
  by code_simp

section \<open>Routing tables\<close>

text \<open>A row of the table as the list of routes it offers, in order of preference.\<close>

definition row_routes :: "int list \<Rightarrow> int list \<Rightarrow> (int \<times> int) list" where
  "row_routes row vcs = takeWhile (\<lambda>(r, v). r \<ge> 0) (zip row vcs)"

definition row_shape :: "int list \<Rightarrow> int list \<Rightarrow> bool" where
  "row_shape row vcs \<longleftrightarrow> length row = length vcs \<and> list_all (\<lambda>r. r < 0) (drop (length (row_routes row vcs)) row)"

lemma row_routes_Cons [simp]:
  "row_routes (r # rs) (v # vs) = (if r \<ge> 0 then (r, v) # row_routes rs vs else [])"
  by (simp add: row_routes_def)

lemma row_routes_Nil [simp]: "row_routes [] vs = []" "row_routes rs [] = []"
  by (simp_all add: row_routes_def)

lemma row_shape_Cons:
  "row_shape (r # rs) (v # vs) = (if r \<ge> 0 then row_shape rs vs else length rs = length vs \<and> list_all (\<lambda>r. r < 0) (r # rs))"
  by (simp add: row_shape_def)

lemma row_routes_all_negative: "list_all (\<lambda>r. r < 0) rs \<Longrightarrow> row_routes rs vs = []"
  by (cases rs; cases vs) simp_all

text \<open>Adding a route to a row appends it to the routes offered unless it is there already, and
  fails exactly when it is new and the row is full.\<close>

lemma add_entry_spec:
  assumes "0 \<le> port" "row_shape row vcs"
  shows "add_entry port vc row vcs =
    (if (port, vc) \<in> set (row_routes row vcs) then Inr (row, vcs)
     else if length (row_routes row vcs) = length row then Inl ErrorReturn
     else Inr (row[length (row_routes row vcs) := port], vcs[length (row_routes row vcs) := vc]))"
  using assms(2)
proof (induction row arbitrary: vcs)
  case Nil
  then show ?case by simp
next
  case (Cons r rs)
  then obtain v vs where vcs: "vcs = v # vs" by (cases vcs) (auto simp: row_shape_def)
  show ?case
  proof (cases "r \<ge> 0")
    case True
    with Cons.prems have "row_shape rs vs" by (simp add: vcs row_shape_Cons)
    from Cons.IH[OF this] True show ?thesis by (simp add: vcs)
  next
    case False
    with assms(1) show ?thesis by (auto simp: vcs)
  qed
qed

lemma row_routes_append:
  assumes "row_shape row vcs" "length (row_routes row vcs) < length row" "0 \<le> port"
  shows "row_routes (row[length (row_routes row vcs) := port]) (vcs[length (row_routes row vcs) := vc])
      = row_routes row vcs @ [(port, vc)]"
    "row_shape (row[length (row_routes row vcs) := port]) (vcs[length (row_routes row vcs) := vc])"
  using assms(1,2)
proof (induction row arbitrary: vcs)
  case Nil
  { case 1 then show ?case by simp }
  { case 2 then show ?case by simp }
next
  case (Cons r rs)
  { case 1
    then obtain v vs where vcs: "vcs = v # vs" by (cases vcs) (auto simp: row_shape_def)
    then show ?case
      using 1 Cons.IH(1)[of vs] assms(3) by (auto simp: row_shape_Cons row_routes_all_negative split: if_splits) }
  { case 2
    then obtain v vs where vcs: "vcs = v # vs" by (cases vcs) (auto simp: row_shape_def)
    then show ?case
      using 2 Cons.IH(2)[of vs] assms(3)
      by (auto simp: row_shape_Cons row_shape_def row_routes_all_negative split: if_splits) }
qed

definition sw_routes :: "NetSwitch \<Rightarrow> nat \<Rightarrow> (int \<times> int) list" where
  "sw_routes sw d = row_routes (routingTable sw ! d) (vcTable sw ! d)"

definition tables_shape :: "NetSwitch \<Rightarrow> bool" where
  "tables_shape sw \<longleftrightarrow> length (routingTable sw) = numNodes sw \<and> length (vcTable sw) = numNodes sw \<and>
     (\<forall>d < numNodes sw. length (routingTable sw ! d) = numPorts sw * MAX_NET_VC \<and>
        row_shape (routingTable sw ! d) (vcTable sw ! d))"

lemma add_entry_result:
  assumes "row_shape row vcs" "0 \<le> port"
  shows "if (port, vc) \<notin> set (row_routes row vcs) \<and> length (row_routes row vcs) = length row
     then add_entry port vc row vcs = Inl ErrorReturn
     else \<exists>row' vcs'. add_entry port vc row vcs = Inr (row', vcs') \<and> row_shape row' vcs' \<and> length row' = length row
       \<and> row_routes row' vcs' = row_routes row vcs @ (if (port, vc) \<in> set (row_routes row vcs) then [] else [(port, vc)])"
proof -
  have "length (row_routes row vcs) \<le> length row" using length_takeWhile_le[of _ "zip row vcs"] by (fastforce simp: row_routes_def)
  then show ?thesis
    using add_entry_spec[OF assms(2,1), of vc] row_routes_append[OF assms(1) _ assms(2), of vc] assms(1) by auto
qed

text \<open>Adding a routing entry with valid arguments appends the route to the routes of that
  destination unless it is already there (then nothing changes), leaves the routes of all other
  destinations alone and keeps the shape of the tables; it fails exactly when the route is new and
  the destination already has a route for every port and network virtual channel.\<close>

theorem addRoutingEntry_correct:
  assumes T: "tables_shape sw" and node: "0 \<le> node" "node < int (numNodes sw)"
    and port: "0 \<le> port" "port < int (numPorts sw)" and vc: "0 \<le> vc" "vc < int MAX_NET_VC"
  shows "if (port, vc) \<notin> set (sw_routes sw (nat node)) \<and> length (sw_routes sw (nat node)) = numPorts sw * MAX_NET_VC
    then addRoutingEntry node port vc sw = Inl ErrorReturn
    else \<exists>sw'. addRoutingEntry node port vc sw = Inr sw' \<and> tables_shape sw'
      \<and> sw_routes sw' (nat node) = sw_routes sw (nat node) @ (if (port, vc) \<in> set (sw_routes sw (nat node)) then [] else [(port, vc)])
      \<and> (\<forall>d < numNodes sw. d \<noteq> nat node \<longrightarrow> sw_routes sw' d = sw_routes sw d)"
proof -
  let ?n = "nat node"
  have n: "?n < numNodes sw" using node by linarith
  have sh: "row_shape (routingTable sw ! ?n) (vcTable sw ! ?n)" "length (routingTable sw ! ?n) = numPorts sw * 2"
      "length (routingTable sw) = numNodes sw" "length (vcTable sw) = numNodes sw"
    using T n by (simp_all add: tables_shape_def)
  have run: "addRoutingEntry node port vc sw = bindE (add_entry port vc (routingTable sw ! ?n) (vcTable sw ! ?n)) (\<lambda>(row', vcs').
      Inr (sw\<lparr>routingTable := (routingTable sw)[?n := row'], vcTable := (vcTable sw)[?n := vcs']\<rparr>))"
    using node port vc n sh by (simp add: addRoutingEntry_def)
  show ?thesis
  proof (cases "(port, vc) \<notin> set (sw_routes sw ?n) \<and> length (sw_routes sw ?n) = numPorts sw * MAX_NET_VC")
    case True
    then show ?thesis using add_entry_result[OF sh(1) port(1), of vc] sh(2) by (simp add: run sw_routes_def)
  next
    case False
    then obtain row' vcs' where e: "add_entry port vc (routingTable sw ! ?n) (vcTable sw ! ?n) = Inr (row', vcs')"
        "row_shape row' vcs'" "length row' = numPorts sw * 2"
        "row_routes row' vcs' = sw_routes sw ?n @ (if (port, vc) \<in> set (sw_routes sw ?n) then [] else [(port, vc)])"
      using add_entry_result[OF sh(1) port(1), of vc] sh(2) by (auto simp: sw_routes_def split: if_splits)
    let ?sw = "sw\<lparr>routingTable := (routingTable sw)[?n := row'], vcTable := (vcTable sw)[?n := vcs']\<rparr>"
    have "tables_shape ?sw" using T e(2,3) n by (auto simp: tables_shape_def nth_list_update)
    moreover have "sw_routes ?sw ?n = row_routes row' vcs'" "\<forall>d < numNodes sw. d \<noteq> ?n \<longrightarrow> sw_routes ?sw d = sw_routes sw d"
      using n sh(3,4) by (simp_all add: sw_routes_def)
    moreover have "addRoutingEntry node port vc sw = Inr ?sw" by (simp add: run e(1))
    ultimately show ?thesis using False e(4) by auto
  qed
qed

theorem addRoutingEntry_correct_witness:
  "\<exists>sw'. addRoutingEntry 1 0 1 busy_switch = Inr sw' \<and> tables_shape sw' \<and> sw_routes sw' (nat 1) = [(1, 0), (0, 1)]
     \<and> sw_routes sw' 0 = [(0, 0)]"
proof -
  have T: "tables_shape busy_switch" by code_simp
  have n: "numNodes busy_switch = 2" "numPorts busy_switch = 2" by code_simp+
  have r: "sw_routes busy_switch (nat 1) = [(1, 0)]" "sw_routes busy_switch 0 = [(0, 0)]" by code_simp+
  show ?thesis using addRoutingEntry_correct[OF T, of 1 0 1] r(2) unfolding n r(1) by auto
qed

text \<open>Routing takes the first route offered whose output port has space.\<close>

definition has_space :: "NetSwitch \<Rightarrow> int \<Rightarrow> int \<times> int \<Rightarrow> bool" where
  "has_space sw prio = (\<lambda>(r, v). buffersUsed (outputPorts sw ! nat r) ! nat (BUILD_VC prio v)
     < bufferCount (outputPorts sw ! nat r) ! nat (BUILD_VC prio v))"

lemma route_search_find:
  assumes "\<forall>e \<in> set es. entry_ok sw e" "length (outputPorts sw) = numPorts sw" "\<forall>i < numPorts sw. out_inv (outputPorts sw ! i)"
    "0 \<le> prio" "prio < 4"
  shows "route_search (outputPorts sw) prio es =
    Inr (map_option (\<lambda>(r, v). (r, BUILD_VC prio v)) (find (has_space sw prio) (takeWhile (\<lambda>(r, v). r \<ge> 0) es)))"
  using assms(1)
proof (induction es)
  case Nil
  then show ?case by simp
next
  case (Cons e es)
  obtain r v where e: "e = (r, v)" by (cases e)
  show ?case
  proof (cases "r \<ge> 0")
    case True
    with Cons.prems e have r: "r < int (numPorts sw)" "0 \<le> v" "v < 2" by (auto simp: entry_ok_def)
    note B = BUILD_VC_ok[OF assms(4,5) r(2,3)]
    have oi: "port_inv (\<lambda>_. 0) (outputPorts sw ! nat r)" using assms(3) r(1) True by (simp add: out_inv_def)
    have "hasBufferSpace (outputPorts sw ! nat r) (BUILD_VC prio v) = Inr (has_space sw prio (r, v))"
      using hasBufferSpace_eq[OF oi, of "nat (BUILD_VC prio v)"] B by (simp add: has_space_def)
    with Cons show ?thesis using True r assms(2) by (simp add: e)
  next
    case False
    then show ?thesis by (simp add: e)
  qed
qed

text \<open>C6: For every message of a switch the routing policy completes and chooses the first of the
  routes offered for its destination whose output port has a free buffer on the message's protocol
  class; it reports no route exactly when none has one.\<close>

theorem routingPolicy_correct:
  assumes S: "sw_inv sw" and m: "m \<in> set (sw_msgs sw)"
  shows "routingPolicy sw m = Inr (map_option (\<lambda>(r, v). (r, BUILD_VC (priority m) v))
     (find (has_space sw (priority m)) (sw_routes sw (nat (destNode m)))))"
proof -
  have d: "0 \<le> destNode m" "destNode m < int (numNodes sw)" "0 \<le> priority m" "priority m < 4"
    using swi_msg[OF S m] by (auto simp: tag_ok_def tag_def ident_def)
  have n: "nat (destNode m) < numNodes sw" using d by linarith
  have ro: "length (routingTable sw) = numNodes sw" "length (vcTable sw) = numNodes sw"
      "\<forall>e \<in> set (zip (routingTable sw ! nat (destNode m)) (vcTable sw ! nat (destNode m))). entry_ok sw e"
    using swi_routes[OF S] n unfolding routes_ok_def by blast+
  have "\<forall>i < numPorts sw. out_inv (outputPorts sw ! i)" using swi_out[OF S] by blast
  from route_search_find[OF ro(3) swi_len(2)[OF S] this d(3,4)] show ?thesis
    using d n ro(1,2) by (simp add: routingPolicy_def sw_routes_def row_routes_def)
qed

theorem routingPolicy_correct_witness:
  "routingPolicy busy_switch (demo_msg 2 4) = Inr (map_option (\<lambda>(r, v). (r, BUILD_VC (priority (demo_msg 2 4)) v))
     (find (has_space busy_switch (priority (demo_msg 2 4))) (sw_routes busy_switch (nat (destNode (demo_msg 2 4))))))
   \<and> routingPolicy busy_switch (demo_msg 2 4) = Inr (Some (1, 4))"
proof -
  have "demo_msg 2 4 \<in> set (sw_msgs busy_switch)" by code_simp
  from routingPolicy_correct[OF busy_switch_ok(1) this] show ?thesis by (rule conjI) code_simp
qed

text \<open>The check that \<^verbatim>\<open>validateNetwork\<close> runs on every switch.\<close>

lemma check_row_False:
  "check_row ops rs = Inr False \<Longrightarrow> \<forall>r \<in> set rs. r = -1 \<or> (0 \<le> r \<and> nat r < length ops \<and> isConnected (ops ! nat r))"
  by (induction rs) (auto simp: bindE_Inr_iff arr_at_Inr_iff split: if_splits)

lemma check_rows_False:
  "check_rows ops rows = Inr False \<Longrightarrow> \<forall>row \<in> set rows. row \<noteq> [] \<and> row ! 0 \<noteq> -1 \<and>
     (\<forall>r \<in> set row. r = -1 \<or> (0 \<le> r \<and> nat r < length ops \<and> isConnected (ops ! nat r)))"
proof (induction rows)
  case (Cons row rows)
  from Cons.prems have "check_row ops row = Inr False" "check_rows ops rows = Inr False" "row \<noteq> []" "row ! 0 \<noteq> -1"
    by (auto simp: bindE_Inr_iff vec_at_Inr_iff)
  with Cons.IH check_row_False[of ops row] show ?case by simp
qed simp

definition vcs_ok :: "NetSwitch \<Rightarrow> bool" where
  "vcs_ok sw \<longleftrightarrow> list_all2 (list_all2 (\<lambda>r v. r \<ge> 0 \<longrightarrow> 0 \<le> v \<and> v < int MAX_NET_VC)) (routingTable sw) (vcTable sw)"

text \<open>A switch whose routing table passes the check can be routed on: every destination has a
  first route, and every entry of the table leads to an existing, connected output port. Together
  with the virtual channels that \<^verbatim>\<open>addRoutingEntry\<close> accepts, this is the routing invariant the
  arbitration relies on.\<close>

theorem checkRoutingTable_sound:
  assumes chk: "checkRoutingTable sw = Inr False" and T: "tables_shape sw" and V: "vcs_ok sw"
    and len: "length (outputPorts sw) = numPorts sw"
  shows "routes_ok sw \<and> (\<forall>d < numNodes sw. sw_routes sw d \<noteq> [])"
proof -
  have R: "row \<noteq> [] \<and> row ! 0 \<noteq> -1 \<and> (\<forall>r \<in> set row. r = -1 \<or> (0 \<le> r \<and> nat r < numPorts sw \<and> isConnected (outputPorts sw ! nat r)))"
    if "row \<in> set (routingTable sw)" for row
    using check_rows_False[OF chk[unfolded checkRoutingTable_def]] that len by simp
  have "entry_ok sw e" if d: "d < numNodes sw" and e: "e \<in> set (zip (routingTable sw ! d) (vcTable sw ! d))" for d e
  proof -
    obtain k where k: "k < length (routingTable sw ! d)" "k < length (vcTable sw ! d)" "e = (routingTable sw ! d ! k, vcTable sw ! d ! k)"
      using e by (auto simp: set_zip)
    have "routingTable sw ! d \<in> set (routingTable sw)" using T d by (simp add: tables_shape_def)
    then have "routingTable sw ! d ! k = -1 \<or> (0 \<le> routingTable sw ! d ! k \<and> nat (routingTable sw ! d ! k) < numPorts sw
        \<and> isConnected (outputPorts sw ! nat (routingTable sw ! d ! k)))"
      using R k(1) nth_mem by blast
    moreover have "routingTable sw ! d ! k \<ge> 0 \<longrightarrow> 0 \<le> vcTable sw ! d ! k \<and> vcTable sw ! d ! k < int MAX_NET_VC"
      using V T d k by (simp add: vcs_ok_def list_all2_conv_all_nth tables_shape_def)
    ultimately show ?thesis by (auto simp: k(3) entry_ok_def)
  qed
  moreover have "sw_routes sw d \<noteq> []" if d: "d < numNodes sw" for d
  proof -
    have "routingTable sw ! d \<in> set (routingTable sw)" using T d by (simp add: tables_shape_def)
    with R[OF this] have "routingTable sw ! d \<noteq> []" "routingTable sw ! d ! 0 \<ge> 0" by (auto dest: nth_mem[of 0])
    moreover have "length (vcTable sw ! d) = length (routingTable sw ! d)"
      using T d unfolding tables_shape_def row_shape_def by metis
    ultimately show ?thesis by (cases "routingTable sw ! d"; cases "vcTable sw ! d") (auto simp: sw_routes_def)
  qed
  ultimately show ?thesis using T by (auto simp: routes_ok_def tables_shape_def)
qed

theorem checkRoutingTable_sound_witness:
  "checkRoutingTable busy_switch = Inr False \<and> routes_ok busy_switch \<and> sw_routes busy_switch 1 \<noteq> []"
proof -
  have c: "checkRoutingTable busy_switch = Inr False" and T: "tables_shape busy_switch" and V: "vcs_ok busy_switch"
    and l: "length (outputPorts busy_switch) = numPorts busy_switch" and n: "(1 :: nat) < numNodes busy_switch"
    by code_simp+
  from checkRoutingTable_sound[OF c T V l] c n show ?thesis by blast
qed

end
