(* ===== verification/NetContainer.thy ===== *)
theory NetContainer
  imports NetSwitch
begin

text \<open>
  The network as a whole (\<^verbatim>\<open>components/NetShim/netnode.hpp\<close>, \<^verbatim>\<open>netnode.cpp\<close>,
  \<^verbatim>\<open>netcontainer.hpp\<close>, \<^verbatim>\<open>netcontainer.cpp\<close>): the nodes, the container that owns channels,
  switches and nodes, the actions of the topology and routing statements of its configuration file,
  the insertion and delivery of messages, and the cycle that drives everything.

  The callbacks of the surrounding simulator are parameters: \<open>avail\<close> for
  \<^verbatim>\<open>isNodeAvailablePtr\<close> and \<open>deliver\<close> for \<^verbatim>\<open>deliverMessagePtr\<close>, both on a state of the
  environment. The list of active messages is kept as the serial numbers of its messages, and a
  message knows whether it is linked into it (\<open>myList\<close>). The text of the configuration file is not
  modelled: a topology statement is given by its two parsed end points, a route by its numbers.
\<close>

section \<open>Nodes\<close>

record NetNode =
  nodeId :: int
  fromNodePort :: ChannelPort
  toNodePort :: ChannelInputPort
  node_messagesWaiting :: int

definition NetNode_new :: "int \<Rightarrow> NetNode res" where
  "NetNode_new n =
     bindE (ChannelPort_new INT_MAX) (\<lambda>op.
     bindE (ChannelInputPort_new 1 1) (\<lambda>ip.
     Inr \<lparr>nodeId = n, fromNodePort = op, toNodePort = ip, node_messagesWaiting = 0\<rparr>))"

definition addFromChannel :: "nat \<Rightarrow> nat \<Rightarrow> NetNode \<times> Channel list \<Rightarrow> (NetNode \<times> Channel list) res" where
  "addFromChannel n c = (\<lambda>(node, chs).
     bindE (vec_at chs c) (\<lambda>ch.
     bindE (setFromPort (NodePort n) ch) (\<lambda>ch'.
     Inr (node\<lparr>fromNodePort := setChannel c (fromNodePort node)\<rparr>, chs[c := ch']))))"

definition addToChannel :: "nat \<Rightarrow> nat \<Rightarrow> NetNode \<times> Channel list \<Rightarrow> (NetNode \<times> Channel list) res" where
  "addToChannel n c = (\<lambda>(node, chs).
     bindE (vec_at chs c) (\<lambda>ch.
     bindE (setToPort (NodePort n) ch) (\<lambda>ch'.
     Inr (node\<lparr>toNodePort := setChannel c (toNodePort node)\<rparr>, chs[c := ch']))))"

definition node_insertMessage :: "int \<Rightarrow> MessageState \<Rightarrow> NetNode \<times> Channel list \<Rightarrow> (NetNode \<times> Channel list) res" where
  "node_insertMessage now msg = (\<lambda>(node, chs).
     bindE (op_insertMessage now msg (fromNodePort node) chs) (\<lambda>(op, chs').
     Inr (node\<lparr>fromNodePort := op\<rparr>, chs')))"

definition node_driveInputPorts :: "int \<Rightarrow> NetNode \<Rightarrow> NetNode res" where
  "node_driveInputPorts now node =
     bindE (ip_drive node_notify now (toNodePort node, node_messagesWaiting node)) (\<lambda>(ip, w).
     Inr (node\<lparr>toNodePort := ip, node_messagesWaiting := w\<rparr>))"

definition node_checkTopology :: "NetNode \<Rightarrow> bool" where
  "node_checkTopology node = (\<not> isConnected (fromNodePort node) \<or> \<not> isConnected (toNodePort node))"

definition getInfiniteBufferUsed :: "NetNode \<Rightarrow> int" where
  "getInfiniteBufferUsed node = int MAX_NET_VC * getBuffersUsed (fromNodePort node)"

definition isOutputAvailable :: "NetNode \<Rightarrow> int \<Rightarrow> bool res" where
  "isOutputAvailable node vc = hasBufferSpace (fromNodePort node) vc"

section \<open>The container\<close>

record NetContainer =
  channels :: "Channel list"
  switches :: "NetSwitch list"
  nodes :: "NetNode list"
  activeList :: "int list"
  activeMessages :: int
  nc_channelLatency :: int
  channelLatencyData :: int
  channelLatencyControl :: int
  channelBandwidth :: int
  localChannelLatencyDivider :: int
  nc_numNodes :: int
  numSwitches :: int
  switchInputBuffers :: int
  switchOutputBuffers :: int
  switchInternalBuffersPerVC :: int
  switchBandwidth :: int
  switchPorts :: int
  numChannels :: int
  maxChannelIndex :: int

definition NetContainer_new :: NetContainer where
  "NetContainer_new = \<lparr>channels = [], switches = [], nodes = [], activeList = [], activeMessages = 0,
     nc_channelLatency = -1, channelLatencyData = -1, channelLatencyControl = -1, channelBandwidth = -1,
     localChannelLatencyDivider = -1, nc_numNodes = -1, numSwitches = -1, switchInputBuffers = -1,
     switchOutputBuffers = -1, switchInternalBuffersPerVC = -1, switchBandwidth = -1, switchPorts = -1,
     numChannels = 0, maxChannelIndex = -1\<rparr>"

text \<open>True when an error was found.\<close>

definition validateParameters :: "NetContainer \<Rightarrow> bool" where
  "validateParameters nc = (if numChannels nc > 0 then False else
     \<not> (nc_channelLatency nc > 0 \<and> channelLatencyData nc > 0 \<and> channelLatencyControl nc > 0 \<and>
        localChannelLatencyDivider nc > 0 \<and> nc_numNodes nc > 0 \<and> numSwitches nc > 0 \<and>
        switchInputBuffers nc > 0 \<and> switchOutputBuffers nc > 0 \<and> switchInternalBuffersPerVC nc > -1 \<and>
        switchBandwidth nc > 0 \<and> switchPorts nc > 1))"

fun collectE :: "('a \<Rightarrow> 'b res) \<Rightarrow> 'a list \<Rightarrow> 'b list res" where
  "collectE f [] = Inr []"
| "collectE f (x # xs) = bindE (f x) (\<lambda>y. bindE (collectE f xs) (\<lambda>ys. Inr (y # ys)))"

definition allocateNetworkStructures :: "NetContainer \<Rightarrow> NetContainer res" where
  "allocateNetworkStructures nc =
     (if numChannels nc > 0 then Inl ErrorReturn else
      let n = (numSwitches nc * switchPorts nc) * 2 in
      bindE (collectE (\<lambda>i. NetSwitch_new (int i) (nc_numNodes nc) (switchPorts nc) (switchInputBuffers nc)
          (switchOutputBuffers nc) (switchInternalBuffersPerVC nc) (switchBandwidth nc) (nc_channelLatency nc))
          [0..<nat (numSwitches nc)]) (\<lambda>sws.
      bindE (collectE (\<lambda>i. NetNode_new (int i)) [0..<nat (nc_numNodes nc)]) (\<lambda>ns.
      Inr (nc\<lparr>numChannels := n, maxChannelIndex := 0, channels := map (\<lambda>i. Channel_new (int i)) [0..<nat n],
              switches := sws, nodes := ns\<rparr>))))"

subsection \<open>Topology\<close>

definition on_switch :: "int \<Rightarrow> (NetSwitch \<times> Channel list \<Rightarrow> (NetSwitch \<times> Channel list) res) \<Rightarrow> NetContainer \<Rightarrow> NetContainer res" where
  "on_switch s f nc =
     bindE (arr_at (switches nc) s) (\<lambda>sw.
     bindE (f (sw, channels nc)) (\<lambda>(sw', chs).
     Inr (nc\<lparr>switches := (switches nc)[nat s := sw'], channels := chs\<rparr>)))"

definition on_node :: "int \<Rightarrow> (NetNode \<times> Channel list \<Rightarrow> (NetNode \<times> Channel list) res) \<Rightarrow> NetContainer \<Rightarrow> NetContainer res" where
  "on_node n f nc =
     bindE (arr_at (nodes nc) n) (\<lambda>node.
     bindE (f (node, channels nc)) (\<lambda>(node', chs).
     Inr (nc\<lparr>nodes := (nodes nc)[nat n := node'], channels := chs\<rparr>)))"

definition attachSwitchChannels :: "int \<Rightarrow> int \<Rightarrow> bool \<Rightarrow> NetContainer \<Rightarrow> NetContainer res" where
  "attachSwitchChannels sw port destination nc = (let c = nat (maxChannelIndex nc) in
     bindE (on_switch sw (attachChannel (nat sw) c port destination) nc) (\<lambda>nc.
     on_switch sw (attachChannel (nat sw) (c + 1) port (\<not> destination)) nc))"

definition on_channel :: "nat \<Rightarrow> (Channel \<Rightarrow> Channel) \<Rightarrow> NetContainer \<Rightarrow> NetContainer res" where
  "on_channel c f nc = bindE (vec_at (channels nc) c) (\<lambda>ch. Inr (nc\<lparr>channels := (channels nc)[c := f ch]\<rparr>))"

definition attachNodeChannels :: "int \<Rightarrow> NetContainer \<Rightarrow> NetContainer res" where
  "attachNodeChannels node nc = (let c = nat (maxChannelIndex nc) in
     bindE (on_node node (addFromChannel (nat node) c) nc) (\<lambda>nc.
     bindE (on_node node (addToChannel (nat node) (c + 1)) nc) (\<lambda>nc.
     bindE (on_channel c (setLocalLatencyDivider (localChannelLatencyDivider nc)) nc) (\<lambda>nc.
     on_channel (c + 1) (setLocalLatencyDivider (localChannelLatencyDivider nc)) nc))))"

text \<open>An end point of a topology statement as \<^verbatim>\<open>readTopSrcDest\<close> returns it.\<close>

datatype endpoint = is_node: EndNode int | EndSwitch int int

definition readTopSrcDest_check :: "endpoint \<Rightarrow> NetContainer \<Rightarrow> unit res" where
  "readTopSrcDest_check e nc = (case e of
     EndNode node \<Rightarrow> if node \<ge> nc_numNodes nc then Inl ErrorReturn else Inr ()
   | EndSwitch sw port \<Rightarrow> Inr ())"

definition attach_node_to_switch :: "int \<Rightarrow> int \<Rightarrow> int \<Rightarrow> NetContainer \<Rightarrow> NetContainer res" where
  "attach_node_to_switch node sw port nc =
     bindE (attachNodeChannels node nc) (\<lambda>nc.
     bindE (attachSwitchChannels sw port True nc) (\<lambda>nc.
     on_switch sw (\<lambda>(s, chs). bindE (setLocalDelayOnly port s) (\<lambda>s'. Inr (s', chs))) nc))"

definition handleTopology :: "endpoint \<Rightarrow> endpoint \<Rightarrow> NetContainer \<Rightarrow> NetContainer res" where
  "handleTopology src dest nc =
     bindE (readTopSrcDest_check src nc) (\<lambda>_.
     bindE (readTopSrcDest_check dest nc) (\<lambda>_.
     if is_node src \<and> is_node dest then Inl ErrorReturn
     else if maxChannelIndex nc \<ge> numChannels nc - 1 then Inl ErrorReturn
     else bindE (case (src, dest) of
         (EndSwitch sw port, EndNode node) \<Rightarrow> attach_node_to_switch node sw port nc
       | (EndNode node, EndSwitch sw port) \<Rightarrow> attach_node_to_switch node sw port nc
       | (EndSwitch sw0 port0, EndSwitch sw1 port1) \<Rightarrow>
           bindE (attachSwitchChannels sw0 port0 False nc) (attachSwitchChannels sw1 port1 True)
       | (EndNode _, EndNode _) \<Rightarrow> Inl ErrorReturn) (\<lambda>nc.
     Inr (nc\<lparr>maxChannelIndex := maxChannelIndex nc + 2\<rparr>))))"

text \<open>A route statement: the switch, the destination node and the ports in order of preference.\<close>

fun handleRoute_ports :: "int \<Rightarrow> int \<Rightarrow> (int \<times> int) list \<Rightarrow> NetContainer \<Rightarrow> NetContainer res" where
  "handleRoute_ports sw node [] nc = Inr nc"
| "handleRoute_ports sw node ((port, vc) # ps) nc =
     (if port \<ge> switchPorts nc \<or> port < 0 then Inl ErrorReturn
      else if vc \<ge> int MAX_NET_VC \<or> vc < 0 then Inl ErrorReturn
      else bindE (on_switch sw (\<lambda>(s, chs). bindE (addRoutingEntry node port vc s) (\<lambda>s'. Inr (s', chs))) nc)
        (handleRoute_ports sw node ps))"

definition handleRoute :: "int \<Rightarrow> int \<Rightarrow> (int \<times> int) list \<Rightarrow> NetContainer \<Rightarrow> NetContainer res" where
  "handleRoute sw node ps nc =
     (if sw \<ge> numSwitches nc \<or> sw < 0 then Inl ErrorReturn
      else if node \<ge> nc_numNodes nc \<or> node < 0 then Inl ErrorReturn
      else handleRoute_ports sw node ps nc)"

text \<open>True when an error was found; all nodes and switches are checked.\<close>

definition validateNetwork :: "NetContainer \<Rightarrow> bool res" where
  "validateNetwork nc =
     bindE (collectE checkRoutingTable (switches nc)) (\<lambda>bad.
     Inr (list_ex node_checkTopology (nodes nc) \<or> list_ex sw_checkTopology (switches nc) \<or> list_ex (\<lambda>b. b) bad))"

subsection \<open>Messages\<close>

definition transmit_latency :: "NetContainer \<Rightarrow> MessageState \<Rightarrow> int res" where
  "transmit_latency nc msg =
     (if flexusInFastMode msg then Inr 1
      else if channelBandwidth nc > 0 then c_div (transmitLatency msg + channelBandwidth nc - 1) (channelBandwidth nc)
      else if transmitLatency msg > 8 then Inr (channelLatencyData nc)
      else Inr (channelLatencyControl nc))"

definition nc_insertMessage :: "int \<Rightarrow> MessageState \<Rightarrow> NetContainer \<Rightarrow> NetContainer res" where
  "nc_insertMessage now msg nc =
     (if srcNode msg < 0 \<or> srcNode msg \<ge> nc_numNodes nc then Inl ErrorReturn
      else if destNode msg < 0 \<or> destNode msg \<ge> nc_numNodes nc then Inl ErrorReturn
      else if priority msg < 0 \<or> priority msg \<ge> int NUM_PRIORITIES then Inl ErrorReturn
      else
        bindE (transmit_latency nc msg) (\<lambda>lat.
        let msg = msg\<lparr>myList := True, transmitLatency := lat, networkVC := BUILD_VC (priority msg) 0\<rparr> in
        on_node (srcNode msg) (node_insertMessage now msg)
          (nc\<lparr>activeList := activeList nc @ [serial msg], activeMessages := activeMessages nc + 1\<rparr>)))"

text \<open>Unlinking a message that is not in the list of active messages would follow dangling links.\<close>

definition nc_deliverMessage :: "(MessageState \<Rightarrow> 'e \<Rightarrow> 'e res) \<Rightarrow> MessageState \<Rightarrow> NetContainer \<times> 'e \<Rightarrow> (NetContainer \<times> 'e) res" where
  "nc_deliverMessage deliver msg = (\<lambda>(nc, env).
     bindE (dbg_assert (myList msg)) (\<lambda>_.
     bindE (deliver msg env) (\<lambda>env'.
     if serial msg \<notin> set (activeList nc) then Inl OutOfBounds
     else let nc' = nc\<lparr>activeList := remove1 (serial msg) (activeList nc), activeMessages := activeMessages nc - 1\<rparr> in
       bindE (if activeMessages nc' = 0 then dbg_assert (activeList nc' = []) else Inr ()) (\<lambda>_.
       Inr (nc', env')))))"

definition networkEmpty :: "NetContainer \<Rightarrow> bool" where
  "networkEmpty nc = (activeList nc = [])"

subsection \<open>One cycle\<close>

definition node_drive_vc ::
  "(int \<Rightarrow> int \<Rightarrow> 'e \<Rightarrow> bool) \<Rightarrow> (MessageState \<Rightarrow> 'e \<Rightarrow> 'e res) \<Rightarrow> int \<Rightarrow> nat \<Rightarrow> nat \<Rightarrow> NetContainer \<times> 'e \<Rightarrow> (NetContainer \<times> 'e) res" where
  "node_drive_vc avail deliver now n i = (\<lambda>(nc, env).
     bindE (vec_at (nodes nc) n) (\<lambda>node.
     bindE (hasMessage (toNodePort node) (int i)) (\<lambda>has.
     if has \<and> avail (nodeId node) (NETVC_TO_PROTVC (int i)) env then
       bindE (ip_removeMessage now (int i) (toNodePort node)) (\<lambda>(msg, ip).
       let nc = nc\<lparr>nodes := (nodes nc)[n := node\<lparr>toNodePort := ip\<rparr>]\<rparr> in
       if destNode msg \<noteq> nodeId node then Inl ErrorReturn
       else bindE (nc_deliverMessage deliver msg (nc, env)) (\<lambda>(nc, env).
         Inr (nc\<lparr>nodes := (nodes nc)[n := node\<lparr>toNodePort := ip, node_messagesWaiting := node_messagesWaiting node - 1\<rparr>]\<rparr>, env)))
     else Inr (nc, env))))"

definition node_drive ::
  "(int \<Rightarrow> int \<Rightarrow> 'e \<Rightarrow> bool) \<Rightarrow> (MessageState \<Rightarrow> 'e \<Rightarrow> 'e res) \<Rightarrow> int \<Rightarrow> nat \<Rightarrow> NetContainer \<times> 'e \<Rightarrow> (NetContainer \<times> 'e) res" where
  "node_drive avail deliver now n = (\<lambda>(nc, env).
     bindE (vec_at (nodes nc) n) (\<lambda>node.
     if node_messagesWaiting node = 0 then Inr (nc, env)
     else foldE (node_drive_vc avail deliver now n) [0..<MAX_VC] (nc, env)))"

text \<open>The ports a channel points to.\<close>

definition out_at :: "NetContainer \<Rightarrow> port_ref \<Rightarrow> ChannelPort" where
  "out_at nc r = (case r of SwitchPort s p \<Rightarrow> outputPorts (switches nc ! s) ! p | NodePort n \<Rightarrow> fromNodePort (nodes nc ! n))"

definition in_at :: "NetContainer \<Rightarrow> port_ref \<Rightarrow> ChannelInputPort" where
  "in_at nc r = (case r of SwitchPort s p \<Rightarrow> inputPorts (switches nc ! s) ! p | NodePort n \<Rightarrow> toNodePort (nodes nc ! n))"

definition set_out :: "port_ref \<Rightarrow> ChannelPort \<Rightarrow> NetContainer \<Rightarrow> NetContainer" where
  "set_out r op nc = (case r of
     SwitchPort s p \<Rightarrow> nc\<lparr>switches := (switches nc)[s := (switches nc ! s)\<lparr>outputPorts := (outputPorts (switches nc ! s))[p := op]\<rparr>]\<rparr>
   | NodePort n \<Rightarrow> nc\<lparr>nodes := (nodes nc)[n := (nodes nc ! n)\<lparr>fromNodePort := op\<rparr>]\<rparr>)"

definition set_in :: "port_ref \<Rightarrow> ChannelInputPort \<Rightarrow> NetContainer \<Rightarrow> NetContainer" where
  "set_in r ip nc = (case r of
     SwitchPort s p \<Rightarrow> nc\<lparr>switches := (switches nc)[s := (switches nc ! s)\<lparr>inputPorts := (inputPorts (switches nc ! s))[p := ip]\<rparr>]\<rparr>
   | NodePort n \<Rightarrow> nc\<lparr>nodes := (nodes nc)[n := (nodes nc ! n)\<lparr>toNodePort := ip\<rparr>]\<rparr>)"

definition ref_ok :: "NetContainer \<Rightarrow> port_ref \<Rightarrow> bool" where
  "ref_ok nc r = (case r of
     SwitchPort s p \<Rightarrow> s < length (switches nc) \<and> p < length (inputPorts (switches nc ! s)) \<and> p < length (outputPorts (switches nc ! s))
   | NodePort n \<Rightarrow> n < length (nodes nc))"

text \<open>\<^verbatim>\<open>Channel::drive\<close> on the ports the channel points to; with a null port it works as long as it
  has nothing to transfer.\<close>

definition nc_channel_drive :: "int \<Rightarrow> nat \<Rightarrow> NetContainer \<Rightarrow> NetContainer res" where
  "nc_channel_drive now c nc =
     bindE (vec_at (channels nc) c) (\<lambda>ch.
     (case (fromPort ch, toPort ch) of
        (Some f, Some t) \<Rightarrow>
          if ref_ok nc f \<and> ref_ok nc t then
            bindE (channel_drive now (ch, out_at nc f, in_at nc t)) (\<lambda>(ch', fp, tp).
            Inr ((set_in t tp (set_out f fp nc))\<lparr>channels := (channels nc)[c := ch']\<rparr>))
          else Inl OutOfBounds
      | _ \<Rightarrow>
          (case state ch of
             CS_TRANSFERRING \<Rightarrow> Inr (nc\<lparr>channels := (channels nc)[c := channel_transfer ch]\<rparr>)
           | CS_WAIT_FOR_ACCEPT \<Rightarrow> Inl OutOfBounds
           | CS_IDLE \<Rightarrow> bindE (dbg_assert (busy ch \<le> 0)) (\<lambda>_.
               if messagesWaiting ch > 0 then Inl OutOfBounds else Inr nc))))"

definition nc_drive ::
  "(int \<Rightarrow> int \<Rightarrow> 'e \<Rightarrow> bool) \<Rightarrow> (MessageState \<Rightarrow> 'e \<Rightarrow> 'e res) \<Rightarrow> int \<Rightarrow> NetContainer \<times> 'e \<Rightarrow> (NetContainer \<times> 'e) res" where
  "nc_drive avail deliver now = (\<lambda>(nc, env).
     bindE (foldE (\<lambda>i. on_switch (int i) (sw_drive now)) [0..<nat (numSwitches nc)] nc) (\<lambda>nc.
     bindE (foldE (\<lambda>i. on_switch (int i) (\<lambda>(s, chs). bindE (driveInputPorts now s) (\<lambda>s'. Inr (s', chs))))
        [0..<nat (numSwitches nc)] nc) (\<lambda>nc.
     bindE (foldE (\<lambda>i. on_node (int i) (\<lambda>(n, chs). bindE (node_driveInputPorts now n) (\<lambda>n'. Inr (n', chs))))
        [0..<nat (nc_numNodes nc)] nc) (\<lambda>nc.
     bindE (foldE (nc_channel_drive now) [0..<nat (maxChannelIndex nc)] nc) (\<lambda>nc.
     foldE (node_drive avail deliver now) [0..<nat (nc_numNodes nc)] (nc, env))))))"

section \<open>The invariant of the network\<close>

definition node_msgs :: "NetNode \<Rightarrow> MessageState list" where
  "node_msgs n = port_msgs (fromNodePort n) @ in_msgs (toNodePort n)"

definition net_msgs :: "NetContainer \<Rightarrow> MessageState list" where
  "net_msgs nc = concat (map sw_msgs (switches nc)) @ concat (map node_msgs (nodes nc))"

definition node_inv :: "nat \<Rightarrow> nat \<Rightarrow> NetNode \<Rightarrow> bool" where
  "node_inv N n node \<longleftrightarrow> nodeId node = int n \<and> out_inv (fromNodePort node) \<and> in_inv (toNodePort node)
     \<and> node_messagesWaiting node = int (length (port_msgs (toNodePort node)))
     \<and> (\<forall>m \<in> set (node_msgs node). tag_ok N (tag m)) \<and> (\<forall>m \<in> set (in_msgs (toNodePort node)). destNode m = int n)"

text \<open>All ports of the network, and the wiring: channels below \<^verbatim>\<open>maxChannelIndex\<close> join an output
  port to an input port, each of which belongs to that channel; no node is joined directly to a
  node.\<close>

definition all_refs :: "NetContainer \<Rightarrow> port_ref list" where
  "all_refs nc = concat (map (\<lambda>s. map (SwitchPort s) [0..<numPorts (switches nc ! s)]) [0..<length (switches nc)])
     @ map NodePort [0..<length (nodes nc)]"

definition chan_wired :: "NetContainer \<Rightarrow> nat \<Rightarrow> bool" where
  "chan_wired nc c \<longleftrightarrow> (case (fromPort (channels nc ! c), toPort (channels nc ! c)) of
       (Some f, Some t) \<Rightarrow> f \<in> set (all_refs nc) \<and> t \<in> set (all_refs nc)
         \<and> channel (out_at nc f) = Some c \<and> channel (in_at nc t) = Some c
         \<and> (case (f, t) of (NodePort _, NodePort _) \<Rightarrow> False | _ \<Rightarrow> True)
     | _ \<Rightarrow> False)"

definition port_wired :: "NetContainer \<Rightarrow> port_ref \<Rightarrow> bool" where
  "port_wired nc r \<longleftrightarrow>
     (case channel (out_at nc r) of None \<Rightarrow> True | Some c \<Rightarrow> int c < maxChannelIndex nc \<and> fromPort (channels nc ! c) = Some r) \<and>
     (case channel (in_at nc r) of None \<Rightarrow> True | Some c \<Rightarrow> int c < maxChannelIndex nc \<and> toPort (channels nc ! c) = Some r)"

definition wired :: "NetContainer \<Rightarrow> bool" where
  "wired nc \<longleftrightarrow> maxChannelIndex nc \<le> int (length (channels nc)) \<and>
     (\<forall>c < nat (maxChannelIndex nc). chan_wired nc c) \<and> (\<forall>r \<in> set (all_refs nc). port_wired nc r)"

text \<open>A route to a port that leads straight to a node is a route for that node only.\<close>

definition delivers :: "NetContainer \<Rightarrow> bool" where
  "delivers nc \<longleftrightarrow> (\<forall>s < length (switches nc). \<forall>p < numPorts (switches nc ! s). \<forall>d < length (nodes nc).
     int p \<in> set (routingTable (switches nc ! s) ! d) \<longrightarrow>
     (case channel (outputPorts (switches nc ! s) ! p) of None \<Rightarrow> True
      | Some c \<Rightarrow> (case toPort (channels nc ! c) of Some (NodePort n) \<Rightarrow> n = d | _ \<Rightarrow> True)))"

definition chans_inv :: "NetContainer \<Rightarrow> bool" where
  "chans_inv nc \<longleftrightarrow> (\<forall>c < nat (maxChannelIndex nc).
     case fromPort (channels nc ! c) of None \<Rightarrow> False | Some f \<Rightarrow> channel_inv (channels nc ! c) (out_at nc f))"

definition parts_inv :: "NetContainer \<Rightarrow> bool" where
  "parts_inv nc \<longleftrightarrow> nc_numNodes nc = int (length (nodes nc)) \<and> numSwitches nc = int (length (switches nc)) \<and>
     (\<forall>s < length (switches nc). sw_inv (switches nc ! s) \<and> numNodes (switches nc ! s) = length (nodes nc)) \<and>
     (\<forall>n < length (nodes nc). node_inv (length (nodes nc)) n (nodes nc ! n))"

definition active_inv :: "NetContainer \<Rightarrow> bool" where
  "active_inv nc \<longleftrightarrow> distinct (activeList nc) \<and> activeMessages nc = int (length (activeList nc)) \<and>
     mset (activeList nc) = mset (map serial (net_msgs nc))"

definition net_inv :: "NetContainer \<Rightarrow> bool" where
  "net_inv nc \<longleftrightarrow> wired nc \<and> delivers nc \<and> chans_inv nc \<and> parts_inv nc \<and> active_inv nc"

lemma all_refs_iff: "r \<in> set (all_refs nc) \<longleftrightarrow> (case r of
    SwitchPort s p \<Rightarrow> s < length (switches nc) \<and> p < numPorts (switches nc ! s) | NodePort n \<Rightarrow> n < length (nodes nc))"
  by (cases r) (auto simp: all_refs_def image_iff)

lemma serials_idents: "mset (map serial ms) = image_mset fst (idents ms)"
  by (simp add: idents_def image_mset.compositionality comp_def ident_def)

lemma active_inv_idents:
  assumes "active_inv nc" "idents (net_msgs nc') = idents (net_msgs nc)"
    "activeList nc' = activeList nc" "activeMessages nc' = activeMessages nc"
  shows "active_inv nc'"
  using assms unfolding active_inv_def serials_idents by simp

lemma net_invD:
  assumes "net_inv nc"
  shows ni_wired: "wired nc" and ni_delivers: "delivers nc" and ni_chans: "chans_inv nc" and ni_parts: "parts_inv nc"
    and ni_active: "active_inv nc"
    and ni_sw: "s < length (switches nc) \<Longrightarrow> sw_inv (switches nc ! s)"
    and ni_swn: "s < length (switches nc) \<Longrightarrow> numNodes (switches nc ! s) = length (nodes nc)"
    and ni_node: "n < length (nodes nc) \<Longrightarrow> node_inv (length (nodes nc)) n (nodes nc ! n)"
    and ni_num: "nc_numNodes nc = int (length (nodes nc))" "numSwitches nc = int (length (switches nc))"
    and ni_max: "maxChannelIndex nc \<le> int (length (channels nc))"
  using assms by (auto simp: net_inv_def parts_inv_def wired_def)

lemma wired_out:
  assumes "wired nc" "r \<in> set (all_refs nc)" "channel (out_at nc r) = Some c"
  shows "c < nat (maxChannelIndex nc)" "c < length (channels nc)" "fromPort (channels nc ! c) = Some r"
proof -
  have "port_wired nc r" "maxChannelIndex nc \<le> int (length (channels nc))" using assms(1,2) by (auto simp: wired_def)
  with assms(3) show "c < nat (maxChannelIndex nc)" "c < length (channels nc)" "fromPort (channels nc ! c) = Some r"
    by (auto simp: port_wired_def)
qed

lemma chans_invD:
  assumes "chans_inv nc" "c < nat (maxChannelIndex nc)" "fromPort (channels nc ! c) = Some f"
  shows "channel_inv (channels nc ! c) (out_at nc f)"
proof -
  have "case fromPort (channels nc ! c) of None \<Rightarrow> False | Some f \<Rightarrow> channel_inv (channels nc ! c) (out_at nc f)"
    using assms(1,2) unfolding chans_inv_def by blast
  with assms(3) show ?thesis by simp
qed

text \<open>The switches of a network are linked to their channels.\<close>

lemma net_sw_linked:
  assumes N: "net_inv nc" and s: "s < length (switches nc)"
  shows "sw_linked (switches nc ! s) (channels nc)"
proof -
  let ?sw = "switches nc ! s"
  have len: "length (outputPorts ?sw) = numPorts ?sw" using swi_len(2)[OF ni_sw[OF N s]] .
  have ref: "SwitchPort s p \<in> set (all_refs nc)" if "p < numPorts ?sw" for p using that s by (simp add: all_refs_iff)
  have at: "out_at nc (SwitchPort s p) = outputPorts ?sw ! p" for p by (simp add: out_at_def)
  have W: "c < nat (maxChannelIndex nc)" "c < length (channels nc)" "fromPort (channels nc ! c) = Some (SwitchPort s p)"
    if "p < numPorts ?sw" "channel (outputPorts ?sw ! p) = Some c" for p c
    using wired_out[OF ni_wired[OF N] ref[OF that(1)]] that(2) at by auto
  have "messagesWaiting (channels nc ! c) = int (length (port_msgs (outputPorts ?sw ! p)))"
    if "p < numPorts ?sw" "channel (outputPorts ?sw ! p) = Some c" for p c
    using chans_invD[OF ni_chans[OF N] W(1,3)[OF that]] at by (simp add: channel_inv_def)
  moreover have "p = q" if "p < numPorts ?sw" "q < numPorts ?sw" "channel (outputPorts ?sw ! p) = Some c" "channel (outputPorts ?sw ! q) = Some c" for p q c
    using W(3)[OF that(1,3)] W(3)[OF that(2,4)] by simp
  ultimately show ?thesis
    unfolding sw_linked_def len isConnected_def using W(2) by (auto split: option.splits)
qed

subsection \<open>Steps that keep the wiring\<close>

definition same_shape :: "NetContainer \<Rightarrow> NetContainer \<Rightarrow> bool" where
  "same_shape nc nc' \<longleftrightarrow> maxChannelIndex nc' = maxChannelIndex nc \<and> nc_numNodes nc' = nc_numNodes nc \<and> numSwitches nc' = numSwitches nc
     \<and> map (\<lambda>ch. (fromPort ch, toPort ch)) (channels nc') = map (\<lambda>ch. (fromPort ch, toPort ch)) (channels nc)
     \<and> map numPorts (switches nc') = map numPorts (switches nc) \<and> map numNodes (switches nc') = map numNodes (switches nc)
     \<and> map routingTable (switches nc') = map routingTable (switches nc) \<and> length (nodes nc') = length (nodes nc)
     \<and> (\<forall>r \<in> set (all_refs nc). channel (out_at nc' r) = channel (out_at nc r) \<and> channel (in_at nc' r) = channel (in_at nc r))"

lemma same_shapeD:
  assumes "same_shape nc nc'"
  shows ss_max: "maxChannelIndex nc' = maxChannelIndex nc"
    and ss_len: "length (channels nc') = length (channels nc)" "length (switches nc') = length (switches nc)" "length (nodes nc') = length (nodes nc)"
    and ss_from: "c < length (channels nc) \<Longrightarrow> fromPort (channels nc' ! c) = fromPort (channels nc ! c)"
    and ss_to: "c < length (channels nc) \<Longrightarrow> toPort (channels nc' ! c) = toPort (channels nc ! c)"
    and ss_ports: "s < length (switches nc) \<Longrightarrow> numPorts (switches nc' ! s) = numPorts (switches nc ! s)"
    and ss_nodes: "s < length (switches nc) \<Longrightarrow> numNodes (switches nc' ! s) = numNodes (switches nc ! s)"
    and ss_table: "s < length (switches nc) \<Longrightarrow> routingTable (switches nc' ! s) = routingTable (switches nc ! s)"
    and ss_chan: "r \<in> set (all_refs nc) \<Longrightarrow> channel (out_at nc' r) = channel (out_at nc r)"
      "r \<in> set (all_refs nc) \<Longrightarrow> channel (in_at nc' r) = channel (in_at nc r)"
    and ss_num: "nc_numNodes nc' = nc_numNodes nc" "numSwitches nc' = numSwitches nc"
proof -
  have m: "map (\<lambda>ch. (fromPort ch, toPort ch)) (channels nc') = map (\<lambda>ch. (fromPort ch, toPort ch)) (channels nc)"
    "map numPorts (switches nc') = map numPorts (switches nc)" "map numNodes (switches nc') = map numNodes (switches nc)"
    "map routingTable (switches nc') = map routingTable (switches nc)" "length (nodes nc') = length (nodes nc)"
    using assms by (simp_all add: same_shape_def)
  show l: "length (channels nc') = length (channels nc)" "length (switches nc') = length (switches nc)" "length (nodes nc') = length (nodes nc)"
    using m by (metis length_map)+
  show "c < length (channels nc) \<Longrightarrow> fromPort (channels nc' ! c) = fromPort (channels nc ! c)"
    "c < length (channels nc) \<Longrightarrow> toPort (channels nc' ! c) = toPort (channels nc ! c)"
    using arg_cong[OF m(1), of "\<lambda>xs. xs ! c"] l by simp_all
  show "s < length (switches nc) \<Longrightarrow> numPorts (switches nc' ! s) = numPorts (switches nc ! s)"
    "s < length (switches nc) \<Longrightarrow> numNodes (switches nc' ! s) = numNodes (switches nc ! s)"
    "s < length (switches nc) \<Longrightarrow> routingTable (switches nc' ! s) = routingTable (switches nc ! s)"
    using arg_cong[OF m(2), of "\<lambda>xs. xs ! s"] arg_cong[OF m(3), of "\<lambda>xs. xs ! s"] arg_cong[OF m(4), of "\<lambda>xs. xs ! s"] l by simp_all
qed (use assms in \<open>simp_all add: same_shape_def\<close>)

lemma same_shape_refs: "same_shape nc nc' \<Longrightarrow> set (all_refs nc') = set (all_refs nc)"
  by (auto simp: all_refs_iff ss_len ss_ports split: port_ref.splits)

lemma same_shape_wired:
  assumes S: "same_shape nc nc'" and W: "wired nc"
  shows "wired nc'"
proof -
  have max: "maxChannelIndex nc \<le> int (length (channels nc))" using W by (simp add: wired_def)
  have "chan_wired nc' c" if "c < nat (maxChannelIndex nc)" for c
  proof -
    have cl: "c < length (channels nc)" using that max by linarith
    have "chan_wired nc c" using W that by (simp add: wired_def)
    then show ?thesis
      using ss_from[OF S cl] ss_to[OF S cl] same_shape_refs[OF S] ss_chan[OF S]
      by (auto simp: chan_wired_def split: option.splits)
  qed
  moreover have "port_wired nc' r" if r: "r \<in> set (all_refs nc)" for r
  proof -
    have P: "port_wired nc r" using W r by (simp add: wired_def)
    show ?thesis
      using P ss_chan[OF S r] ss_max[OF S] ss_from[OF S] ss_to[OF S] max
      by (auto simp: port_wired_def split: option.splits)
  qed
  ultimately show ?thesis using max by (simp add: wired_def ss_max[OF S] ss_len[OF S] same_shape_refs[OF S])
qed

lemma same_shape_delivers:
  assumes S: "same_shape nc nc'" and W: "wired nc" and D: "delivers nc"
  shows "delivers nc'"
proof -
  have "case channel (outputPorts (switches nc' ! s) ! p) of None \<Rightarrow> True
      | Some c \<Rightarrow> (case toPort (channels nc' ! c) of Some (NodePort n) \<Rightarrow> n = d | _ \<Rightarrow> True)"
    if s: "s < length (switches nc)" and p: "p < numPorts (switches nc ! s)" and d: "d < length (nodes nc)"
      and r: "int p \<in> set (routingTable (switches nc ! s) ! d)" for s p d
  proof -
    have ref: "SwitchPort s p \<in> set (all_refs nc)" using s p by (simp add: all_refs_iff)
    have ch: "channel (outputPorts (switches nc' ! s) ! p) = channel (outputPorts (switches nc ! s) ! p)"
      using ss_chan(1)[OF S ref] by (simp add: out_at_def)
    have old: "case channel (outputPorts (switches nc ! s) ! p) of None \<Rightarrow> True
      | Some c \<Rightarrow> (case toPort (channels nc ! c) of Some (NodePort n) \<Rightarrow> n = d | _ \<Rightarrow> True)"
      using D s p d r unfolding delivers_def by blast
    show ?thesis
    proof (cases "channel (outputPorts (switches nc ! s) ! p)")
      case (Some c)
      then have "c < length (channels nc)" using wired_out(2)[OF W ref] by (simp add: out_at_def)
      with old Some ch ss_to[OF S] show ?thesis by simp
    qed (simp add: ch)
  qed
  then show ?thesis unfolding delivers_def using ss_len[OF S] ss_ports[OF S] ss_table[OF S] by simp
qed

text \<open>A change of one switch and of the counts of its own channels.\<close>

lemma chan_frame_ends:
  assumes "chan_frame C chs chs'" "c < length chs"
  shows "fromPort (chs' ! c) = fromPort (chs ! c)" "toPort (chs' ! c) = toPort (chs ! c)" "state (chs' ! c) = state (chs ! c)"
    "busy (chs' ! c) = busy (chs ! c)" "localLatencyDivider (chs' ! c) = localLatencyDivider (chs ! c)"
    "messagesWaiting (chs ! c) \<le> messagesWaiting (chs' ! c)"
proof -
  obtain w where "w \<ge> messagesWaiting (chs ! c)" "chs' ! c = (chs ! c)\<lparr>messagesWaiting := w\<rparr>"
    using assms unfolding chan_frame_def by blast
  then show "fromPort (chs' ! c) = fromPort (chs ! c)" "toPort (chs' ! c) = toPort (chs ! c)" "state (chs' ! c) = state (chs ! c)"
    "busy (chs' ! c) = busy (chs ! c)" "localLatencyDivider (chs' ! c) = localLatencyDivider (chs ! c)"
    "messagesWaiting (chs ! c) \<le> messagesWaiting (chs' ! c)"
    by simp_all
qed

lemma net_sw_update:
  assumes N: "net_inv nc" and s: "s < length (switches nc)" and I: "sw_inv sw'" and L: "sw_linked sw' chs'"
    and F: "chan_frame (out_chans (switches nc ! s)) (channels nc) chs'"
    and st: "sw_static (sw'\<lparr>nextStartingPort := k\<rparr>) = sw_static (switches nc ! s)"
    and id: "idents (sw_msgs sw') = idents (sw_msgs (switches nc ! s))"
  shows "net_inv (nc\<lparr>switches := (switches nc)[s := sw'], channels := chs'\<rparr>)" (is "net_inv ?nc")
    and "idents (net_msgs (nc\<lparr>switches := (switches nc)[s := sw'], channels := chs'\<rparr>)) = idents (net_msgs nc)"
    and "same_shape nc (nc\<lparr>switches := (switches nc)[s := sw'], channels := chs'\<rparr>)"
proof -
  let ?sw = "switches nc ! s"
  have sd: "numPorts sw' = numPorts ?sw" "numNodes sw' = numNodes ?sw" "routingTable sw' = routingTable ?sw"
      "map channel (inputPorts sw') = map channel (inputPorts ?sw)" "map channel (outputPorts sw') = map channel (outputPorts ?sw)"
    using st by (simp_all add: sw_static_def)
  have len: "length (outputPorts sw') = numPorts ?sw" "length (inputPorts sw') = numPorts ?sw"
      "length (outputPorts ?sw) = numPorts ?sw" "length (inputPorts ?sw) = numPorts ?sw"
    using swi_len[OF I] swi_len[OF ni_sw[OF N s]] sd(1) by simp_all
  have co: "channel (outputPorts sw' ! p) = channel (outputPorts ?sw ! p)" "channel (inputPorts sw' ! p) = channel (inputPorts ?sw ! p)"
    if "p < numPorts ?sw" for p
    using arg_cong[OF sd(5), of "\<lambda>xs. xs ! p"] arg_cong[OF sd(4), of "\<lambda>xs. xs ! p"] len that by simp_all
  have oa: "out_at ?nc r = (case r of SwitchPort t p \<Rightarrow> if t = s then outputPorts sw' ! p else out_at nc r | _ \<Rightarrow> out_at nc r)"
      "in_at ?nc r = (case r of SwitchPort t p \<Rightarrow> if t = s then inputPorts sw' ! p else in_at nc r | _ \<Rightarrow> in_at nc r)" for r
    using s by (auto simp: out_at_def in_at_def split: port_ref.splits)
  have lc: "length chs' = length (channels nc)" using F by (simp add: chan_frame_def)
  have "map (\<lambda>ch. (fromPort ch, toPort ch)) chs' = map (\<lambda>ch. (fromPort ch, toPort ch)) (channels nc)"
    using lc chan_frame_ends[OF F] by (auto intro!: nth_equalityI)
  moreover have "channel (out_at ?nc r) = channel (out_at nc r) \<and> channel (in_at ?nc r) = channel (in_at nc r)" if "r \<in> set (all_refs nc)" for r
  proof (cases r)
    case (SwitchPort t p)
    with that have "p < numPorts (switches nc ! t)" by (simp add: all_refs_iff)
    then show ?thesis using co unfolding oa by (auto simp: SwitchPort out_at_def in_at_def)
  qed (simp add: oa)
  ultimately show SS: "same_shape nc ?nc"
    using sd s by (simp add: same_shape_def map_update_same)
  have ci: "chans_inv ?nc"
    unfolding chans_inv_def
  proof (intro allI impI)
    fix c assume c: "c < nat (maxChannelIndex ?nc)"
    then have cm: "c < nat (maxChannelIndex nc)" and cl: "c < length (channels nc)" using ni_max[OF N] by simp_all
    have "chan_wired nc c" using ni_wired[OF N] cm by (simp add: wired_def)
    then obtain f where f: "fromPort (channels nc ! c) = Some f" "f \<in> set (all_refs nc)" "channel (out_at nc f) = Some c"
      by (auto simp: chan_wired_def split: option.splits)
    note old = chans_invD[OF ni_chans[OF N] cm f(1)]
    have "messagesWaiting (chs' ! c) = int (length (port_msgs (out_at ?nc f)))"
    proof (cases "\<exists>p. f = SwitchPort s p")
      case True
      then obtain p where p: "f = SwitchPort s p" by blast
      with f(2) have pl: "p < numPorts ?sw" by (simp add: all_refs_iff)
      have "channel (outputPorts sw' ! p) = Some c" using co(1)[OF pl] f(3) by (simp add: p out_at_def)
      from sw_linkedD(2)[OF L _ this] show ?thesis using pl len s by (simp add: p out_at_def)
    next
      case False
      have "c \<notin> out_chans ?sw"
      proof
        assume "c \<in> out_chans ?sw"
        then obtain p where p: "p < numPorts ?sw" "channel (outputPorts ?sw ! p) = Some c"
          using len(3) by (auto simp: out_chans_def in_set_conv_nth)
        then have "fromPort (channels nc ! c) = Some (SwitchPort s p)"
          using wired_out(3)[OF ni_wired[OF N], of "SwitchPort s p" c] s by (simp add: all_refs_iff out_at_def)
        with f(1) False show False by auto
      qed
      then have "chs' ! c = channels nc ! c" using F cl by (simp add: chan_frame_def)
      moreover have "out_at ?nc f = out_at nc f" using False unfolding oa by (cases f) auto
      ultimately show ?thesis using old by (simp add: channel_inv_def)
    qed
    moreover have "channel_inv (chs' ! c) (out_at ?nc f)" if "messagesWaiting (chs' ! c) = int (length (port_msgs (out_at ?nc f)))"
      using old that chan_frame_ends[OF F cl] unfolding channel_inv_def by (metis le_less_trans less_le_trans)
    ultimately show "case fromPort (channels ?nc ! c) of None \<Rightarrow> False | Some f \<Rightarrow> channel_inv (channels ?nc ! c) (out_at ?nc f)"
      using f(1) chan_frame_ends(1)[OF F cl] by simp
  qed
  show im: "idents (net_msgs ?nc) = idents (net_msgs nc)"
    using idents_concat_update[OF s, of sw_msgs sw'] id by (simp add: net_msgs_def)
  have "parts_inv ?nc"
    using ni_parts[OF N] s I sd(2) ni_swn[OF N s] by (auto simp: parts_inv_def nth_list_update)
  with same_shape_wired[OF SS ni_wired[OF N]] same_shape_delivers[OF SS ni_wired[OF N] ni_delivers[OF N]] ci
    active_inv_idents[OF ni_active[OF N] im]
  show "net_inv ?nc" by (simp add: net_inv_def)
qed

subsection \<open>The phases of a cycle\<close>

text \<open>What every phase but delivery guarantees.\<close>

definition net_to :: "NetContainer \<Rightarrow> NetContainer \<Rightarrow> bool" where
  "net_to nc nc' \<longleftrightarrow> net_inv nc' \<and> same_shape nc nc' \<and> idents (net_msgs nc') = idents (net_msgs nc)"

lemma same_shape_refl: "same_shape nc nc"
  by (simp add: same_shape_def)

lemma same_shape_trans: "same_shape a b \<Longrightarrow> same_shape b c \<Longrightarrow> same_shape a c"
  using same_shape_refs[of a b] by (simp add: same_shape_def)

lemma net_to_refl: "net_inv nc \<Longrightarrow> net_to nc nc"
  by (simp add: net_to_def same_shape_refl)

lemma net_to_trans: "net_to a b \<Longrightarrow> net_to b c \<Longrightarrow> net_to a c"
  using same_shape_trans by (auto simp: net_to_def)

lemma net_to_num: "net_to nc nc' \<Longrightarrow> nat (numSwitches nc) = length (switches nc') \<and> nat (nc_numNodes nc) = length (nodes nc')
    \<and> maxChannelIndex nc' = maxChannelIndex nc"
  using ni_num[of nc'] ss_num[of nc nc'] ss_max[of nc nc'] by (auto simp: net_to_def)

lemma net_phase:
  assumes N: "net_inv nc" and step: "\<And>i nc'. i \<in> set is \<Longrightarrow> net_to nc nc' \<Longrightarrow> \<exists>nc''. f i nc' = Inr nc'' \<and> net_to nc' nc''"
  shows "\<exists>nc'. foldE f is nc = Inr nc' \<and> net_to nc nc'"
proof (rule foldE_inv)
  fix i nc' assume "i \<in> set is" "net_to nc nc'"
  with step show "\<exists>nc''. f i nc' = Inr nc'' \<and> net_to nc nc''" using net_to_trans by blast
qed (rule net_to_refl[OF N])

lemma switch_phase:
  assumes N: "net_inv nc"
  shows "\<exists>nc'. foldE (\<lambda>i. on_switch (int i) (sw_drive now)) [0..<nat (numSwitches nc)] nc = Inr nc' \<and> net_to nc nc'"
proof (rule net_phase[OF N])
  fix i nc' assume i: "i \<in> set [0..<nat (numSwitches nc)]" and T: "net_to nc nc'"
  have N': "net_inv nc'" using T by (simp add: net_to_def)
  have s: "i < length (switches nc')" using i net_to_num[OF T] by simp
  from sw_drive_ok[OF ni_sw[OF N' s] net_sw_linked[OF N' s], of now] obtain sw' chs' where
    d: "sw_drive now (switches nc' ! i, channels nc') = Inr (sw', chs')" "sw_inv sw'" "sw_linked sw' chs'"
      "chan_frame (out_chans (switches nc' ! i)) (channels nc') chs'" "idents (sw_msgs sw') = idents (sw_msgs (switches nc' ! i))"
      "sw_static (sw'\<lparr>nextStartingPort := nextStartingPort (switches nc' ! i)\<rparr>) = sw_static (switches nc' ! i)"
    by blast
  from net_sw_update[OF N' s d(2-4,6,5)] d(1) s
  show "\<exists>nc''. on_switch (int i) (sw_drive now) nc' = Inr nc'' \<and> net_to nc' nc''"
    by (simp add: on_switch_def net_to_def)
qed

lemma input_phase:
  assumes N: "net_inv nc"
  shows "\<exists>nc'. foldE (\<lambda>i. on_switch (int i) (\<lambda>(s, chs). bindE (driveInputPorts now s) (\<lambda>s'. Inr (s', chs))))
      [0..<nat (numSwitches nc)] nc = Inr nc' \<and> net_to nc nc'"
proof (rule net_phase[OF N])
  fix i nc' assume i: "i \<in> set [0..<nat (numSwitches nc)]" and T: "net_to nc nc'"
  have N': "net_inv nc'" using T by (simp add: net_to_def)
  have s: "i < length (switches nc')" using i net_to_num[OF T] by simp
  let ?sw = "switches nc' ! i"
  obtain sw' where d: "driveInputPorts now ?sw = Inr sw'" "sw_to (?sw, channels nc') (sw', channels nc')"
    using driveInputPorts_ok[OF ni_sw[OF N' s] net_sw_linked[OF N' s], of now] by blast
  have "sw_static (sw'\<lparr>nextStartingPort := nextStartingPort ?sw\<rparr>) = sw_static ?sw"
    using d(2) by (simp add: sw_to_def sw_static_def)
  from net_sw_update[OF N' s, of sw' "channels nc'", OF _ _ _ this] d s
  show "\<exists>nc''. on_switch (int i) (\<lambda>(s, chs). bindE (driveInputPorts now s) (\<lambda>s'. Inr (s', chs))) nc' = Inr nc'' \<and> net_to nc' nc''"
    by (simp add: on_switch_def net_to_def sw_to_def)
qed

text \<open>A change of one node that leaves its output port alone.\<close>

lemma net_node_update:
  assumes N: "net_inv nc" and n: "n < length (nodes nc)" and I: "node_inv (length (nodes nc)) n node'"
    and eq: "fromNodePort node' = fromNodePort (nodes nc ! n)" "channel (toNodePort node') = channel (toNodePort (nodes nc ! n))"
  shows "wired (nc\<lparr>nodes := (nodes nc)[n := node']\<rparr>)" "delivers (nc\<lparr>nodes := (nodes nc)[n := node']\<rparr>)"
    "chans_inv (nc\<lparr>nodes := (nodes nc)[n := node']\<rparr>)" "parts_inv (nc\<lparr>nodes := (nodes nc)[n := node']\<rparr>)"
    "same_shape nc (nc\<lparr>nodes := (nodes nc)[n := node']\<rparr>)"
proof -
  let ?nc = "nc\<lparr>nodes := (nodes nc)[n := node']\<rparr>"
  have oa: "out_at ?nc r = out_at nc r" "channel (in_at ?nc r) = channel (in_at nc r)" if "r \<in> set (all_refs nc)" for r
    using n eq that by (cases r; simp add: out_at_def in_at_def all_refs_iff nth_list_update)+
  then show SS: "same_shape nc ?nc" by (simp add: same_shape_def)
  show "wired ?nc" "delivers ?nc"
    using same_shape_wired[OF SS ni_wired[OF N]] same_shape_delivers[OF SS ni_wired[OF N] ni_delivers[OF N]] by simp_all
  show "parts_inv ?nc" using ni_parts[OF N] n I by (auto simp: parts_inv_def nth_list_update)
  show "chans_inv ?nc" unfolding chans_inv_def
  proof (intro allI impI)
    fix c assume c: "c < nat (maxChannelIndex ?nc)"
    then have "chan_wired nc c" using ni_wired[OF N] by (simp add: wired_def)
    then obtain f where f: "fromPort (channels nc ! c) = Some f" "f \<in> set (all_refs nc)" by (auto simp: chan_wired_def split: option.splits)
    with chans_invD[OF ni_chans[OF N] _ f(1)] c oa(1)[OF f(2)]
    show "case fromPort (channels ?nc ! c) of None \<Rightarrow> False | Some f \<Rightarrow> channel_inv (channels ?nc ! c) (out_at ?nc f)" by simp
  qed
qed

lemma node_drained_inv:
  assumes I: "node_inv N n node"
  shows "\<exists>node'. node_driveInputPorts now node = Inr node' \<and> node_inv N n node' \<and> fromNodePort node' = fromNodePort node
    \<and> channel (toNodePort node') = channel (toNodePort node) \<and> idents (node_msgs node') = idents (node_msgs node)"
proof -
  let ?ip = "toNodePort node"
  have ii: "in_inv ?ip" and w: "node_messagesWaiting node = int (length (port_msgs ?ip))" using I by (auto simp: node_inv_def)
  let ?node = "node\<lparr>toNodePort := drained now ?ip, node_messagesWaiting := node_messagesWaiting node + int (length (due_msgs now ?ip))\<rparr>"
  have run: "node_driveInputPorts now node = Inr ?node"
    by (simp add: node_driveInputPorts_def ip_drive_eq[OF ii] node_notify_all)
  have tg: "tags (in_msgs (drained now ?ip)) = tags (in_msgs ?ip)" by (rule drained_mset[OF ii])
  have "length (in_msgs (drained now ?ip)) = length (in_msgs ?ip)" using arg_cong[OF tg, of size] by simp
  then have "length (port_msgs (drained now ?ip)) = length (port_msgs ?ip) + length (due_msgs now ?ip)"
    using arg_cong[OF due_split[of ?ip now], of length] by (simp add: in_msgs_def)
  moreover have "\<forall>m \<in> set (in_msgs (drained now ?ip)). destNode m = int n \<and> tag_ok N (tag m)"
  proof
    fix m assume "m \<in> set (in_msgs (drained now ?ip))"
    then have "tag m \<in># tags (in_msgs ?ip)" using tg tag_in_tags by metis
    then obtain m' where "m' \<in> set (in_msgs ?ip)" "tag m = tag m'" using tags_memD by blast
    moreover have "destNode m = destNode m'" using calculation(2) by (simp add: tag_def ident_def)
    ultimately show "destNode m = int n \<and> tag_ok N (tag m)" using I by (simp add: node_inv_def node_msgs_def)
  qed
  ultimately have "node_inv N n ?node"
    using I w drained_inv[OF ii] by (auto simp: node_inv_def node_msgs_def)
  moreover have "idents (node_msgs ?node) = idents (node_msgs node)"
    using tags_idents[OF tg] by (simp add: node_msgs_def)
  ultimately show ?thesis using run by (auto simp: drained_def)
qed

lemma node_input_phase:
  assumes N: "net_inv nc"
  shows "\<exists>nc'. foldE (\<lambda>i. on_node (int i) (\<lambda>(n, chs). bindE (node_driveInputPorts now n) (\<lambda>n'. Inr (n', chs))))
      [0..<nat (nc_numNodes nc)] nc = Inr nc' \<and> net_to nc nc'"
proof (rule net_phase[OF N])
  fix i nc' assume i: "i \<in> set [0..<nat (nc_numNodes nc)]" and T: "net_to nc nc'"
  have N': "net_inv nc'" using T by (simp add: net_to_def)
  have n: "i < length (nodes nc')" using i net_to_num[OF T] by simp
  obtain node' where d: "node_driveInputPorts now (nodes nc' ! i) = Inr node'" "node_inv (length (nodes nc')) i node'"
      "fromNodePort node' = fromNodePort (nodes nc' ! i)" "channel (toNodePort node') = channel (toNodePort (nodes nc' ! i))"
      "idents (node_msgs node') = idents (node_msgs (nodes nc' ! i))"
    using node_drained_inv[OF ni_node[OF N' n], of now] by blast
  let ?nc = "nc'\<lparr>nodes := (nodes nc')[i := node']\<rparr>"
  have im: "idents (net_msgs ?nc) = idents (net_msgs nc')"
    using idents_concat_update[OF n, of node_msgs node'] d(5) by (simp add: net_msgs_def)
  have "net_inv ?nc"
    using net_node_update[OF N' n d(2-4)] active_inv_idents[OF ni_active[OF N'] im] by (simp add: net_inv_def)
  then have "net_to nc' ?nc" using net_node_update(5)[OF N' n d(2-4)] im by (simp add: net_to_def)
  with d(1) n show "\<exists>nc''. on_node (int i) (\<lambda>(n, chs). bindE (node_driveInputPorts now n) (\<lambda>n'. Inr (n', chs))) nc' = Inr nc'' \<and> net_to nc' nc''"
    by (simp add: on_node_def)
qed

subsection \<open>Replacing the ports of a channel\<close>

lemma out_at_set_out:
  assumes "parts_inv nc" "r \<in> set (all_refs nc)"
  shows "out_at (set_out r op nc) r' = (if r' = r then op else out_at nc r')" "in_at (set_out r op nc) r' = in_at nc r'"
    "all_refs (set_out r op nc) = all_refs nc"
proof -
  have len: "length (outputPorts (switches nc ! s)) = numPorts (switches nc ! s)" if "s < length (switches nc)" for s
    using assms(1) swi_len(2) that by (auto simp: parts_inv_def)
  show "out_at (set_out r op nc) r' = (if r' = r then op else out_at nc r')" "in_at (set_out r op nc) r' = in_at nc r'"
    using assms(2) len by (auto simp: out_at_def in_at_def set_out_def all_refs_iff nth_list_update split: port_ref.splits)
  show "all_refs (set_out r op nc) = all_refs nc"
    using assms(2)
    by (auto simp: all_refs_def set_out_def all_refs_iff nth_list_update split: port_ref.splits intro!: arg_cong[of _ _ concat])
qed

lemma in_at_set_in:
  assumes "parts_inv nc" "r \<in> set (all_refs nc)"
  shows "in_at (set_in r ip nc) r' = (if r' = r then ip else in_at nc r')" "out_at (set_in r ip nc) r' = out_at nc r'"
    "all_refs (set_in r ip nc) = all_refs nc"
proof -
  have len: "length (inputPorts (switches nc ! s)) = numPorts (switches nc ! s)" if "s < length (switches nc)" for s
    using assms(1) swi_len(1) that by (auto simp: parts_inv_def)
  show "in_at (set_in r ip nc) r' = (if r' = r then ip else in_at nc r')" "out_at (set_in r ip nc) r' = out_at nc r'"
    using assms(2) len by (auto simp: out_at_def in_at_def set_in_def all_refs_iff nth_list_update split: port_ref.splits)
  show "all_refs (set_in r ip nc) = all_refs nc"
    using assms(2)
    by (auto simp: all_refs_def set_in_def all_refs_iff nth_list_update split: port_ref.splits intro!: arg_cong[of _ _ concat])
qed

lemma sw_set_out:
  assumes S: "sw_inv sw" and p: "p < numPorts sw" and I: "out_inv op'" and ch: "channel op' = channel (outputPorts sw ! p)"
    and sub: "tags (port_msgs op') \<subseteq># tags (port_msgs (outputPorts sw ! p))"
  shows "sw_inv (sw\<lparr>outputPorts := (outputPorts sw)[p := op']\<rparr>)" (is "sw_inv ?sw")
    and "tags (sw_msgs (sw\<lparr>outputPorts := (outputPorts sw)[p := op']\<rparr>)) + tags (port_msgs (outputPorts sw ! p)) = tags (sw_msgs sw) + tags (port_msgs op')"
proof -
  note len = swi_len[OF S]
  show tg: "tags (sw_msgs ?sw) + tags (port_msgs (outputPorts sw ! p)) = tags (sw_msgs sw) + tags (port_msgs op')"
    using tags_concat_update[of p "outputPorts sw" port_msgs op'] p len by (simp add: sw_msgs_def ac_simps)
  obtain X where X: "tags (port_msgs (outputPorts sw ! p)) = tags (port_msgs op') + X" using sub by (auto simp: subset_mset.le_iff_add)
  then have sm: "tags (sw_msgs sw) = tags (sw_msgs ?sw) + X" using tg by (simp add: ac_simps)
  have po: "ports_inv ?sw" using swi_ports[OF S] I p by (auto simp: ports_inv_def nth_list_update waiting_at_def)
  have "sw_static ?sw = sw_static sw" using ch p len by (simp add: sw_static_def map_update_same)
  then have "routes_ok ?sw" using routes_ok_static[OF _ len(2) swi_routes[OF S]] by blast
  moreover have "tag_ok (numNodes sw) (tag m)" if "m \<in> set (sw_msgs ?sw)" for m
  proof -
    have "tag m \<in># tags (sw_msgs sw)" using tag_in_tags[OF that] sm by simp
    then show ?thesis using tags_memD swi_msg[OF S] by metis
  qed
  moreover have "routed_tag sw i (tag m)" if i: "i < numPorts sw" and m: "m \<in> set (port_msgs ((outputPorts sw)[p := op'] ! i))" for i m
  proof -
    have "tag m \<in># tags (port_msgs (outputPorts sw ! i))"
      using m i p len X tag_in_tags by (cases "i = p") fastforce+
    then show ?thesis using tags_memD swi_routed[OF S] i unfolding routed_ok_def by metis
  qed
  ultimately show "sw_inv ?sw" using po by (simp add: sw_inv_def routed_ok_def routed_tag_def)
qed

lemma sw_set_in:
  assumes S: "sw_inv sw" and p: "p < numPorts sw" and I: "in_inv ip'" and ch: "channel ip' = channel (inputPorts sw ! p)"
    and ms: "msl ip' = msl (inputPorts sw ! p)" and tk: "\<forall>m \<in> set (in_msgs ip'). tag_ok (numNodes sw) (tag m)"
  shows "sw_inv (sw\<lparr>inputPorts := (inputPorts sw)[p := ip']\<rparr>)" (is "sw_inv ?sw")
    and "tags (sw_msgs (sw\<lparr>inputPorts := (inputPorts sw)[p := ip']\<rparr>)) + tags (in_msgs (inputPorts sw ! p)) = tags (sw_msgs sw) + tags (in_msgs ip')"
proof -
  note len = swi_len[OF S]
  show tg: "tags (sw_msgs ?sw) + tags (in_msgs (inputPorts sw ! p)) = tags (sw_msgs sw) + tags (in_msgs ip')"
    using tags_concat_update[of p "inputPorts sw" in_msgs ip'] p len by (simp add: sw_msgs_def ac_simps)
  have "waiting_at ?sw v = waiting_at sw v" for v
    using sum_list_map_update[of p "inputPorts sw" "\<lambda>q. length (msl q ! v)" ip'] p len ms by (simp add: waiting_at_def)
  then have po: "ports_inv ?sw" using swi_ports[OF S] I p by (auto simp: ports_inv_def nth_list_update)
  have "sw_static ?sw = sw_static sw" using ch p len by (simp add: sw_static_def map_update_same)
  then have "routes_ok ?sw" using routes_ok_static[OF _ len(2) swi_routes[OF S]] by blast
  moreover have "tag_ok (numNodes sw) (tag m)" if "m \<in> set (sw_msgs ?sw)" for m
  proof -
    have "tag m \<in># tags (sw_msgs sw) + tags (in_msgs ip')" using tag_in_tags[OF that] tg by (metis union_iff)
    then show ?thesis using tags_memD swi_msg[OF S] tk by fastforce
  qed
  moreover have "routed_ok ?sw" using swi_routed[OF S] by (simp add: routed_ok_def routed_tag_def)
  ultimately show "sw_inv ?sw" using po by (simp add: sw_inv_def)
qed

lemma mset_chain:
  fixes a b :: "'a multiset"
  assumes "a + x = b + x'" "x' + q = x + q'"
  shows "a + q = b + q'"
proof -
  have "(a + q) + x = (a + x) + q" by (simp only: ac_simps)
  also have "\<dots> = b + (x' + q)" using assms(1) by (simp only: add.assoc)
  also have "\<dots> = (b + q') + x" using assms(2) by (simp only: ac_simps)
  finally show ?thesis by (simp only: add_right_cancel)
qed

lemma set_out_parts:
  assumes P: "parts_inv nc" and r: "r \<in> set (all_refs nc)" and I: "out_inv op'" and ch: "channel op' = channel (out_at nc r)"
    and sub: "tags (port_msgs op') \<subseteq># tags (port_msgs (out_at nc r))"
  shows "parts_inv (set_out r op' nc) \<and> tags (net_msgs (set_out r op' nc)) + tags (port_msgs (out_at nc r)) = tags (net_msgs nc) + tags (port_msgs op')"
proof (cases r)
  case (SwitchPort s p)
  let ?sw = "switches nc ! s"
  have s: "s < length (switches nc)" "p < numPorts ?sw" using r SwitchPort by (simp_all add: all_refs_iff)
  have S: "sw_inv ?sw" using P s by (simp add: parts_inv_def)
  have sub': "tags (port_msgs op') \<subseteq># tags (port_msgs (outputPorts ?sw ! p))" and ch': "channel op' = channel (outputPorts ?sw ! p)"
    using sub ch by (simp_all add: SwitchPort out_at_def)
  note W = sw_set_out[OF S s(2) I ch' sub']
  have A: "parts_inv (set_out r op' nc)" using P W(1) s(1) by (auto simp: parts_inv_def set_out_def SwitchPort nth_list_update)
  have "tags (net_msgs (set_out r op' nc)) + tags (port_msgs (out_at nc r)) = tags (net_msgs nc) + tags (port_msgs op')"
    using mset_chain[OF tags_concat_update[OF s(1), of sw_msgs "?sw\<lparr>outputPorts := (outputPorts ?sw)[p := op']\<rparr>"] W(2)]
    by (simp add: net_msgs_def set_out_def out_at_def SwitchPort ac_simps)
  with A show ?thesis by blast
next
  case (NodePort n)
  let ?n = "nodes nc ! n"
  have n: "n < length (nodes nc)" using r NodePort by (simp add: all_refs_iff)
  have NI: "node_inv (length (nodes nc)) n ?n" using P n by (simp add: parts_inv_def)
  have "tag_ok (length (nodes nc)) (tag m)" if "m \<in> set (port_msgs op')" for m
  proof -
    have "tag m \<in># tags (port_msgs (fromNodePort ?n))"
      using mset_subset_eqD[OF sub tag_in_tags[OF that]] by (simp add: NodePort out_at_def)
    then obtain m' where "m' \<in> set (port_msgs (fromNodePort ?n))" "tag m = tag m'" using tags_memD by blast
    then show ?thesis using NI by (auto simp: node_inv_def node_msgs_def)
  qed
  then have "node_inv (length (nodes nc)) n (?n\<lparr>fromNodePort := op'\<rparr>)" using NI I by (auto simp: node_inv_def node_msgs_def)
  then have A: "parts_inv (set_out r op' nc)" using P n by (auto simp: parts_inv_def set_out_def NodePort nth_list_update)
  have "tags (net_msgs (set_out r op' nc)) + tags (port_msgs (out_at nc r)) = tags (net_msgs nc) + tags (port_msgs op')"
    using tags_concat_update[OF n, of node_msgs "?n\<lparr>fromNodePort := op'\<rparr>"]
    by (simp add: net_msgs_def set_out_def out_at_def NodePort node_msgs_def ac_simps)
  with A show ?thesis by blast
qed

lemma set_in_parts:
  assumes P: "parts_inv nc" and r: "r \<in> set (all_refs nc)" and I: "in_inv ip'" and ch: "channel ip' = channel (in_at nc r)"
    and ms: "msl ip' = msl (in_at nc r)" and tk: "\<forall>m \<in> set (in_msgs ip'). tag_ok (length (nodes nc)) (tag m)"
    and dest: "\<And>n. r = NodePort n \<Longrightarrow> \<forall>m \<in> set (in_msgs ip'). destNode m = int n"
  shows "parts_inv (set_in r ip' nc) \<and> tags (net_msgs (set_in r ip' nc)) + tags (in_msgs (in_at nc r)) = tags (net_msgs nc) + tags (in_msgs ip')"
proof (cases r)
  case (SwitchPort s p)
  let ?sw = "switches nc ! s"
  have s: "s < length (switches nc)" "p < numPorts ?sw" using r SwitchPort by (simp_all add: all_refs_iff)
  have S: "sw_inv ?sw" "numNodes ?sw = length (nodes nc)" using P s by (simp_all add: parts_inv_def)
  have W: "sw_inv (?sw\<lparr>inputPorts := (inputPorts ?sw)[p := ip']\<rparr>)"
      "tags (sw_msgs (?sw\<lparr>inputPorts := (inputPorts ?sw)[p := ip']\<rparr>)) + tags (in_msgs (inputPorts ?sw ! p)) = tags (sw_msgs ?sw) + tags (in_msgs ip')"
    using sw_set_in[OF S(1) s(2) I] ch ms tk S(2) by (simp_all add: SwitchPort in_at_def)
  have A: "parts_inv (set_in r ip' nc)" using P W(1) s(1) by (auto simp: parts_inv_def set_in_def SwitchPort nth_list_update)
  have "tags (net_msgs (set_in r ip' nc)) + tags (in_msgs (in_at nc r)) = tags (net_msgs nc) + tags (in_msgs ip')"
    using mset_chain[OF tags_concat_update[OF s(1), of sw_msgs "?sw\<lparr>inputPorts := (inputPorts ?sw)[p := ip']\<rparr>"] W(2)]
    by (simp add: net_msgs_def set_in_def in_at_def SwitchPort ac_simps)
  with A show ?thesis by blast
next
  case (NodePort n)
  let ?n = "nodes nc ! n"
  have n: "n < length (nodes nc)" using r NodePort by (simp add: all_refs_iff)
  have NI: "node_inv (length (nodes nc)) n ?n" using P n by (simp add: parts_inv_def)
  have "port_msgs ip' = port_msgs (toNodePort ?n)" using ms by (simp add: NodePort in_at_def port_msgs_def)
  then have "node_inv (length (nodes nc)) n (?n\<lparr>toNodePort := ip'\<rparr>)"
    using NI I tk dest[OF NodePort] by (auto simp: node_inv_def node_msgs_def)
  then have A: "parts_inv (set_in r ip' nc)" using P n by (auto simp: parts_inv_def set_in_def NodePort nth_list_update)
  have "tags (net_msgs (set_in r ip' nc)) + tags (in_msgs (in_at nc r)) = tags (net_msgs nc) + tags (in_msgs ip')"
    using tags_concat_update[OF n, of node_msgs "?n\<lparr>toNodePort := ip'\<rparr>"]
    by (simp add: net_msgs_def set_in_def in_at_def NodePort node_msgs_def ac_simps)
  with A show ?thesis by blast
qed

subsection \<open>Driving a channel\<close>

lemma out_at_inv: "parts_inv nc \<Longrightarrow> r \<in> set (all_refs nc) \<Longrightarrow> out_inv (out_at nc r)"
  by (cases r) (auto simp: all_refs_iff out_at_def parts_inv_def node_inv_def swi_out)

lemma in_at_inv: "parts_inv nc \<Longrightarrow> r \<in> set (all_refs nc) \<Longrightarrow> in_inv (in_at nc r)"
  by (cases r) (auto simp: all_refs_iff in_at_def parts_inv_def node_inv_def swi_in)

lemma port_tag_ok:
  assumes P: "parts_inv nc" and r: "r \<in> set (all_refs nc)"
  shows "m \<in> set (port_msgs (out_at nc r)) \<Longrightarrow> tag_ok (length (nodes nc)) (tag m)"
    and "m \<in> set (in_msgs (in_at nc r)) \<Longrightarrow> tag_ok (length (nodes nc)) (tag m)"
proof -
  have sw: "sw_inv (switches nc ! s)" "numNodes (switches nc ! s) = length (nodes nc)" if "s < length (switches nc)" for s
    using P that by (simp_all add: parts_inv_def)
  have sm: "set (port_msgs (outputPorts (switches nc ! s) ! p)) \<subseteq> set (sw_msgs (switches nc ! s))"
    "set (in_msgs (inputPorts (switches nc ! s) ! p)) \<subseteq> set (sw_msgs (switches nc ! s))"
    if "s < length (switches nc)" "p < numPorts (switches nc ! s)" for s p
    using that swi_len[OF sw(1)[OF that(1)]] nth_mem[of p] unfolding sw_msgs_def by fastforce+
  have "(\<forall>m \<in> set (port_msgs (out_at nc r)). tag_ok (length (nodes nc)) (tag m)) \<and> (\<forall>m \<in> set (in_msgs (in_at nc r)). tag_ok (length (nodes nc)) (tag m))"
  proof (cases r)
    case (SwitchPort s p)
    then have "s < length (switches nc)" "p < numPorts (switches nc ! s)" using r by (simp_all add: all_refs_iff)
    with sm[OF this] swi_msg[OF sw(1)] sw(2) show ?thesis by (auto simp: SwitchPort out_at_def in_at_def)
  next
    case (NodePort n)
    then have "node_inv (length (nodes nc)) n (nodes nc ! n)" using r P by (simp add: all_refs_iff parts_inv_def)
    then show ?thesis by (auto simp: NodePort out_at_def in_at_def node_inv_def node_msgs_def)
  qed
  then show "m \<in> set (port_msgs (out_at nc r)) \<Longrightarrow> tag_ok (length (nodes nc)) (tag m)"
    "m \<in> set (in_msgs (in_at nc r)) \<Longrightarrow> tag_ok (length (nodes nc)) (tag m)"
    by blast+
qed

lemma set_out_shape:
  assumes "r \<in> set (all_refs nc)"
  shows "map numPorts (switches (set_out r op nc)) = map numPorts (switches nc) \<and> map numNodes (switches (set_out r op nc)) = map numNodes (switches nc)
    \<and> map routingTable (switches (set_out r op nc)) = map routingTable (switches nc) \<and> length (nodes (set_out r op nc)) = length (nodes nc)"
proof (cases r)
  case (SwitchPort s p)
  then have "s < length (switches nc)" using assms by (simp add: all_refs_iff)
  then show ?thesis unfolding SwitchPort set_out_def by (simp del: map_update) (intro conjI map_update_same; simp)
qed (simp add: set_out_def)

lemma set_in_shape:
  assumes "r \<in> set (all_refs nc)"
  shows "map numPorts (switches (set_in r op nc)) = map numPorts (switches nc) \<and> map numNodes (switches (set_in r op nc)) = map numNodes (switches nc)
    \<and> map routingTable (switches (set_in r op nc)) = map routingTable (switches nc) \<and> length (nodes (set_in r op nc)) = length (nodes nc)"
proof (cases r)
  case (SwitchPort s p)
  then have "s < length (switches nc)" using assms by (simp add: all_refs_iff)
  then show ?thesis unfolding SwitchPort set_in_def by (simp del: map_update) (intro conjI map_update_same; simp)
qed (simp add: set_in_def)

lemma to_node_dest:
  assumes N: "net_inv nc" and c: "c < nat (maxChannelIndex nc)" and f: "fromPort (channels nc ! c) = Some f" and t: "toPort (channels nc ! c) = Some (NodePort n)"
    and m: "m \<in> set (port_msgs (out_at nc f))"
  shows "destNode m = int n"
proof -
  have W: "chan_wired nc c" using ni_wired[OF N] c by (simp add: wired_def)
  with f t obtain s p where f': "f = SwitchPort s p" by (cases f) (simp_all add: chan_wired_def)
  have sp: "s < length (switches nc)" "p < numPorts (switches nc ! s)" "channel (outputPorts (switches nc ! s) ! p) = Some c"
    and fr: "f \<in> set (all_refs nc)"
    using W f t by (simp_all add: chan_wired_def f' all_refs_iff out_at_def)
  have d: "0 \<le> destNode m" "nat (destNode m) < length (nodes nc)"
    using port_tag_ok(1)[OF ni_parts[OF N] fr m] by (auto simp: tag_ok_def tag_def ident_def)
  have "routed_tag (switches nc ! s) p (tag m)"
    using swi_routed[OF ni_sw[OF N sp(1)]] sp(2) m by (simp add: routed_ok_def f' out_at_def)
  then have "int p \<in> set (routingTable (switches nc ! s) ! nat (destNode m))"
    by (simp add: routed_tag_def tag_def ident_def)
  then have "case channel (outputPorts (switches nc ! s) ! p) of None \<Rightarrow> True
      | Some c \<Rightarrow> (case toPort (channels nc ! c) of Some (NodePort n) \<Rightarrow> n = nat (destNode m) | _ \<Rightarrow> True)"
    using ni_delivers[OF N] sp(1,2) d(2) unfolding delivers_def by blast
  then show ?thesis using sp(3) t d(1) by simp
qed

lemma channel_step:
  assumes N: "net_inv nc" and c: "c < nat (maxChannelIndex nc)"
  shows "\<exists>nc'. nc_channel_drive now c nc = Inr nc' \<and> net_to nc nc'"
proof -
  let ?ch = "channels nc ! c"
  note P = ni_parts[OF N]
  have cl: "c < length (channels nc)" using c ni_max[OF N] by linarith
  have W: "chan_wired nc c" using ni_wired[OF N] c by (simp add: wired_def)
  then obtain f t where ft: "fromPort ?ch = Some f" "toPort ?ch = Some t" "f \<in> set (all_refs nc)" "t \<in> set (all_refs nc)"
      "channel (out_at nc f) = Some c" "channel (in_at nc t) = Some c"
    by (auto simp: chan_wired_def split: option.splits)
  let ?fp = "out_at nc f" and ?tp = "in_at nc t"
  have "link_inv ?ch ?fp ?tp"
    using out_at_inv[OF P ft(3)] in_at_inv[OF P ft(4)] chans_invD[OF ni_chans[OF N] c ft(1)] by (simp add: link_inv_def)
  from channel_drive_ok[OF this, of now] obtain ch' fp' tp' where
    d: "channel_drive now (?ch, ?fp, ?tp) = Inr (ch', fp', tp')" "link_inv ch' fp' tp'"
      "tags (port_msgs fp') + tags (in_msgs tp') = tags (port_msgs ?fp) + tags (in_msgs ?tp)"
      "channel fp' = channel ?fp" "channel tp' = channel ?tp" "fromPort ch' = fromPort ?ch" "toPort ch' = toPort ?ch" "msl tp' = msl ?tp"
      "\<forall>v<8. link_seq fp' tp' v = link_seq ?fp ?tp v"
    by blast
  have I: "out_inv fp'" "in_inv tp'" "channel_inv ch' fp'" using d(2) by (simp_all add: link_inv_def)
  have sub: "tags (port_msgs fp') \<subseteq># tags (port_msgs ?fp)" using channel_drive_cases[OF \<open>link_inv ?ch ?fp ?tp\<close>, of now]
  proof
    assume "\<exists>ch'. channel_drive now (?ch, ?fp, ?tp) = Inr (ch', ?fp, ?tp) \<and> link_inv ch' ?fp ?tp \<and> fromPort ch' = fromPort ?ch \<and> toPort ch' = toPort ?ch
        \<and> (state ?ch \<noteq> CS_TRANSFERRING \<longrightarrow> (\<forall>v < 8. \<not> ready ?fp ?tp v))"
    then show ?thesis using d(1) by auto
  next
    assume "\<exists>v < 8. \<exists>s'. channel_drive now (?ch, ?fp, ?tp) = Inr s' \<and> link_moved now (?ch, ?fp, ?tp) s' v \<and> state ?ch \<noteq> CS_TRANSFERRING"
    then obtain v where v: "v < 8" "link_moved now (?ch, ?fp, ?tp) (ch', fp', tp') v" using d(1) by auto
    then obtain m where "ready ?fp ?tp v" "fp' = sender_after now v ?fp" "tag m = tag (hd (msl ?fp ! v))" by (auto simp: link_moved_def)
    then have "tags (port_msgs ?fp) = add_mset (tag m) (tags (port_msgs fp'))"
      using moved_facts(3)[OF out_at_inv[OF P ft(3)] in_at_inv[OF P ft(4)] v(1)] by blast
    then show ?thesis by simp
  qed
  have ref: "ref_ok nc f" "ref_ok nc t"
    using ft(3,4) swi_len[OF ni_sw[OF N]] by (auto simp: ref_ok_def all_refs_iff split: port_ref.splits)
  let ?nc1 = "set_out f fp' nc"
  let ?nc2 = "set_in t tp' ?nc1"
  let ?nc = "?nc2\<lparr>channels := (channels nc)[c := ch']\<rparr>"
  have run: "nc_channel_drive now c nc = Inr ?nc" using cl ft(1,2) ref d(1) by (simp add: nc_channel_drive_def)
  note A = out_at_set_out[OF P ft(3), of fp'] and P1 = set_out_parts[OF P ft(3) I(1) d(4) sub]
  have n1: "length (nodes ?nc1) = length (nodes nc)" by (simp add: set_out_def split: port_ref.splits)
  have inm: "tag_ok (length (nodes nc)) (tag m) \<and> (\<forall>n. t = NodePort n \<longrightarrow> destNode m = int n)" if "m \<in> set (in_msgs tp')" for m
  proof -
    have "tag m \<in># tags (port_msgs ?fp) + tags (in_msgs ?tp)" using tag_in_tags[OF that] d(3) by (metis union_iff)
    then obtain m' where m': "tag m = tag m'" "m' \<in> set (port_msgs ?fp) \<or> m' \<in> set (in_msgs ?tp)" using tags_memD by fastforce
    have dm: "destNode m = destNode m'" using m'(1) by (simp add: tag_def ident_def)
    have "destNode m' = int n" if tn: "t = NodePort n" for n
      using m'(2)
    proof
      assume "m' \<in> set (port_msgs ?fp)"
      then show ?thesis using to_node_dest[OF N c ft(1)] ft(2) tn by simp
    next
      assume "m' \<in> set (in_msgs ?tp)"
      then show ?thesis using ni_node[OF N, of n] ft(4) tn by (simp add: node_inv_def all_refs_iff in_at_def)
    qed
    then show ?thesis using m' dm port_tag_ok[OF P ft(3)] port_tag_ok[OF P ft(4)] by auto
  qed
  have P2: "parts_inv ?nc2 \<and> tags (net_msgs ?nc2) + tags (in_msgs (in_at ?nc1 t)) = tags (net_msgs ?nc1) + tags (in_msgs tp')"
    by (rule set_in_parts) (use P1 ft(4) I(2) d(5,8) A n1 inm in auto)
  have refs1: "t \<in> set (all_refs ?nc1)" using ft(4) A(3) by simp
  note B = in_at_set_in[OF conjunct1[OF P1] refs1, of tp']
  have "tags (net_msgs ?nc2) + (tags (port_msgs ?fp) + tags (in_msgs ?tp)) = tags (net_msgs nc) + (tags (port_msgs ?fp) + tags (in_msgs ?tp))"
    using P1 P2 d(3) A(2) by (metis (no_types, opaque_lifting) add.assoc add.commute)
  then have tg: "tags (net_msgs ?nc2) = tags (net_msgs nc)" by (simp only: add_right_cancel)
  have at: "out_at ?nc r = (if r = f then fp' else out_at nc r)" "in_at ?nc r = (if r = t then tp' else in_at nc r)" for r
    using A B by (simp_all add: out_at_def in_at_def cong: port_ref.case_cong)
  have same: "switches ?nc = switches ?nc2" "nodes ?nc = nodes ?nc2" "maxChannelIndex ?nc = maxChannelIndex nc"
      "nc_numNodes ?nc = nc_numNodes nc" "numSwitches ?nc = numSwitches nc" "activeList ?nc = activeList nc" "activeMessages ?nc = activeMessages nc"
    by (simp_all add: set_in_def set_out_def split: port_ref.splits)
  have sh: "map numPorts (switches ?nc2) = map numPorts (switches nc)" "map numNodes (switches ?nc2) = map numNodes (switches nc)"
      "map routingTable (switches ?nc2) = map routingTable (switches nc)" "length (nodes ?nc2) = length (nodes nc)"
    using set_out_shape[OF ft(3), of fp'] set_in_shape[OF refs1, of tp'] by simp_all
  have "map (\<lambda>ch. (fromPort ch, toPort ch)) ((channels nc)[c := ch']) = map (\<lambda>ch. (fromPort ch, toPort ch)) (channels nc)"
    by (rule map_update_same[OF cl]) (simp add: d(6,7))
  moreover have "channel (out_at ?nc r) = channel (out_at nc r) \<and> channel (in_at ?nc r) = channel (in_at nc r)" for r
    using d(4,5) by (simp add: at)
  ultimately have SS: "same_shape nc ?nc" unfolding same_shape_def same using sh by simp
  have ci: "chans_inv ?nc" unfolding chans_inv_def
  proof (intro allI impI)
    fix k assume k: "k < nat (maxChannelIndex ?nc)"
    then have km: "k < nat (maxChannelIndex nc)" by (simp only: same)
    then have "chan_wired nc k" using ni_wired[OF N] by (simp add: wired_def)
    then obtain g where g: "fromPort (channels nc ! k) = Some g" "channel (out_at nc g) = Some k" by (auto simp: chan_wired_def split: option.splits)
    have old: "channel_inv (channels nc ! k) (out_at nc g)" by (rule chans_invD[OF ni_chans[OF N] km g(1)])
    show "case fromPort (channels ?nc ! k) of None \<Rightarrow> False | Some f \<Rightarrow> channel_inv (channels ?nc ! k) (out_at ?nc f)"
    proof (cases "k = c")
      case True
      then show ?thesis using cl d(6) ft(1) I(3) by (simp add: at)
    next
      case False
      then have "g \<noteq> f" using g(2) ft(5) by auto
      then show ?thesis using False g(1) old by (simp add: at)
    qed
  qed
  have nm: "net_msgs ?nc = net_msgs ?nc2" by (simp add: net_msgs_def)
  have im: "idents (net_msgs ?nc) = idents (net_msgs nc)" unfolding nm by (rule tags_idents[OF tg])
  have "parts_inv ?nc" using P2 by (simp add: parts_inv_def)
  with same_shape_wired[OF SS ni_wired[OF N]] same_shape_delivers[OF SS ni_wired[OF N] ni_delivers[OF N]] ci
    active_inv_idents[OF ni_active[OF N] im same(6,7)]
  have "net_inv ?nc" by (simp add: net_inv_def)
  with run SS im show ?thesis by (auto simp: net_to_def)
qed

lemma channel_phase:
  assumes N: "net_inv nc"
  shows "\<exists>nc'. foldE (nc_channel_drive now) [0..<nat (maxChannelIndex nc)] nc = Inr nc' \<and> net_to nc nc'"
proof (rule net_phase[OF N])
  fix c nc' assume c: "c \<in> set [0..<nat (maxChannelIndex nc)]" and T: "net_to nc nc'"
  then show "\<exists>nc''. nc_channel_drive now c nc' = Inr nc'' \<and> net_to nc' nc''"
    using channel_step[of nc' c now] net_to_num[OF T] by (simp add: net_to_def)
qed

subsection \<open>Delivery\<close>

text \<open>A delivery phase hands the messages \<open>ms\<close>, in this order, to the callback and removes exactly
  these from the network.\<close>

definition delivered :: "(MessageState \<Rightarrow> 'e \<Rightarrow> 'e res) \<Rightarrow> MessageState list \<Rightarrow> NetContainer \<times> 'e \<Rightarrow> NetContainer \<times> 'e \<Rightarrow> bool" where
  "delivered deliver ms s s' \<longleftrightarrow> (case s of (nc, env) \<Rightarrow> case s' of (nc', env') \<Rightarrow>
     net_inv nc' \<and> same_shape nc nc' \<and> idents (net_msgs nc) = idents (net_msgs nc') + idents ms \<and> foldE deliver ms env = Inr env')"

lemma delivered_none: "net_inv nc \<Longrightarrow> delivered deliver [] (nc, env) (nc, env)"
  by (simp add: delivered_def same_shape_refl)

lemma delivered_append: "delivered deliver ms s s' \<Longrightarrow> delivered deliver ms' s' s'' \<Longrightarrow> delivered deliver (ms @ ms') s s''"
  using same_shape_trans by (auto simp: delivered_def foldE_append ac_simps)

lemma node_taken:
  assumes I: "node_inv N n node" and v: "v < 8" and ne: "msl (toNodePort node) ! v \<noteq> []"
  shows "node_inv N n (node\<lparr>toNodePort := taken now v (toNodePort node), node_messagesWaiting := node_messagesWaiting node - 1\<rparr>)"
    and "idents (node_msgs node) = add_mset (ident (hd (msl (toNodePort node) ! v)))
       (idents (node_msgs (node\<lparr>toNodePort := taken now v (toNodePort node), node_messagesWaiting := node_messagesWaiting node - 1\<rparr>)))"
    and "hd (msl (toNodePort node) ! v) \<in> set (in_msgs (toNodePort node))"
proof -
  let ?ip = "toNodePort node"
  have ii: "in_inv ?ip" using I by (simp add: node_inv_def)
  note T = taken_facts[OF ii v ne]
  have l8: "length (msl ?ip) = 8" using ii pi_len(3) by (auto simp: in_inv_def)
  show hd: "hd (msl ?ip ! v) \<in> set (in_msgs ?ip)" using ne v l8 by (auto simp: in_msgs_def port_msgs_def intro!: bexI[of _ "msl ?ip ! v"])
  have "add_mset (tag (hd (msl ?ip ! v))) (tags (port_msgs (taken now v ?ip))) = tags (port_msgs ?ip)"
    using port_tags_deq[of v ?ip "deq now (msl ?ip ! v)"] l8 v ne by (simp add: port_msgs_def taken_def)
  from arg_cong[OF this, of size] have "length (port_msgs ?ip) = Suc (length (port_msgs (taken now v ?ip)))" by simp
  moreover have "destNode m = int n \<and> tag_ok N (tag m)" if "m \<in> set (in_msgs (taken now v ?ip))" for m
  proof -
    have "tag m \<in># tags (in_msgs ?ip)" using tag_in_tags[OF that] T(2)[of now] by simp
    then obtain m' where m': "m' \<in> set (in_msgs ?ip)" "tag m = tag m'" using tags_memD by blast
    moreover have "destNode m = destNode m'" using m'(2) by (simp add: tag_def ident_def)
    ultimately show ?thesis using I by (simp add: node_inv_def node_msgs_def)
  qed
  ultimately show "node_inv N n (node\<lparr>toNodePort := taken now v ?ip, node_messagesWaiting := node_messagesWaiting node - 1\<rparr>)"
    using I T(1) by (auto simp: node_inv_def node_msgs_def)
  have "idents (in_msgs ?ip) = add_mset (ident (hd (msl ?ip ! v))) (idents (in_msgs (taken now v ?ip)))"
    by (simp add: idents_tags T(2)[of now]) (simp add: tag_def)
  then show "idents (node_msgs node) = add_mset (ident (hd (msl ?ip ! v)))
       (idents (node_msgs (node\<lparr>toNodePort := taken now v ?ip, node_messagesWaiting := node_messagesWaiting node - 1\<rparr>)))"
    by (simp add: node_msgs_def)
qed

lemma node_drive_vc_ok:
  assumes N: "net_inv nc" and n: "n < length (nodes nc)" and v: "v < 8" and cb: "\<And>m e. \<exists>e'. deliver m e = Inr e'"
  shows "\<exists>s' ms. node_drive_vc avail deliver now n v (nc, env) = Inr s' \<and> delivered deliver ms (nc, env) s'"
proof -
  let ?node = "nodes nc ! n"
  let ?ip = "toNodePort ?node"
  have I: "node_inv (length (nodes nc)) n ?node" by (rule ni_node[OF N n])
  have ii: "in_inv ?ip" and id: "nodeId ?node = int n" using I by (auto simp: node_inv_def)
  have has: "hasMessage ?ip (int v) = Inr (msl ?ip ! v \<noteq> [])" using hasMessage_eq[OF ii[unfolded in_inv_def, THEN conjunct1] v] .
  show ?thesis
  proof (cases "msl ?ip ! v \<noteq> [] \<and> avail (nodeId ?node) (NETVC_TO_PROTVC (int v)) env")
    case False
    then show ?thesis using n has delivered_none[OF N, of deliver env] by (auto simp: node_drive_vc_def)
  next
    case True
    then have ne: "msl ?ip ! v \<noteq> []" by simp
    note K = node_taken(1,2)[OF I v ne, of now] node_taken(3)[OF I v ne]
    obtain m where m: "ip_removeMessage now (int v) ?ip = Inr (m, taken now v ?ip)" "tag m = tag (hd (msl ?ip ! v))"
      using ip_remove_ok[OF ii v ne] by blast
    have idm: "ident m = ident (hd (msl ?ip ! v))" using m(2) by (simp add: tag_def)
    have "destNode (hd (msl ?ip ! v)) = int n" "tag_ok (length (nodes nc)) (tag (hd (msl ?ip ! v)))"
      using I K(3) by (auto simp: node_inv_def node_msgs_def)
    with m(2) have md: "destNode m = int n" "myList m" by (auto simp: tag_def ident_def tag_ok_def)
    obtain env' where env': "deliver m env = Inr env'" using cb by blast
    let ?node' = "?node\<lparr>toNodePort := taken now v ?ip, node_messagesWaiting := node_messagesWaiting ?node - 1\<rparr>"
    let ?nc0 = "nc\<lparr>nodes := (nodes nc)[n := ?node']\<rparr>"
    let ?nc = "?nc0\<lparr>activeList := remove1 (serial m) (activeList nc), activeMessages := activeMessages nc - 1\<rparr>"
    have net: "idents (net_msgs nc) = add_mset (ident m) (idents (net_msgs ?nc0))"
    proof -
      have "idents (concat (map node_msgs ((nodes nc)[n := ?node']))) + idents (node_msgs ?node)
          = idents (concat (map node_msgs (nodes nc))) + idents (node_msgs ?node')"
        by (rule idents_concat_update[OF n])
      then show ?thesis using K(2) idm by (simp add: net_msgs_def)
    qed
    then have mem: "mset (activeList nc) = add_mset (serial m) (mset (map serial (net_msgs ?nc0)))"
      using ni_active[OF N] unfolding active_inv_def serials_idents by (simp add: ident_def)
    then have ser: "serial m \<in> set (activeList nc)" by (metis set_mset_mset union_single_eq_member)
    have am: "activeMessages nc = int (length (activeList nc))" "distinct (activeList nc)"
      using ni_active[OF N] by (simp_all add: active_inv_def)
    have pos: "activeList nc \<noteq> []" using ser by auto
    have ai: "active_inv ?nc"
    proof -
      have "mset (remove1 (serial m) (activeList nc)) = mset (map serial (net_msgs ?nc))"
        using mem by (simp add: net_msgs_def)
      then show ?thesis using am ser pos by (simp add: active_inv_def length_remove1 of_nat_diff Suc_leI)
    qed
    have chk: "activeMessages nc = 1 \<Longrightarrow> remove1 (serial m) (activeList nc) = []"
      using am ser length_remove1[of "serial m" "activeList nc"] by (auto simp flip: length_0_conv)
    have run: "node_drive_vc avail deliver now n v (nc, env) = Inr (?nc, env')"
      using n has True m(1) id md env' ser chk by (simp add: node_drive_vc_def nc_deliverMessage_def Let_def)
    note U = net_node_update[OF N n K(1)]
    have "fromNodePort ?node' = fromNodePort ?node" "channel (toNodePort ?node') = channel ?ip" by (simp_all add: taken_def)
    note U = U[OF this]
    have "net_inv ?nc"
      using U(1-4) ai by (simp add: net_inv_def wired_def chan_wired_def port_wired_def delivers_def chans_inv_def parts_inv_def all_refs_def out_at_def in_at_def
          cong: option.case_cong port_ref.case_cong)
    moreover have "same_shape nc ?nc" using U(5) by (simp add: same_shape_def out_at_def in_at_def cong: port_ref.case_cong)
    moreover have "idents (net_msgs nc) = idents (net_msgs ?nc) + idents [m]" using net by (simp add: net_msgs_def)
    ultimately have "delivered deliver [m] (nc, env) (?nc, env')" using env' by (simp add: delivered_def)
    with run show ?thesis by blast
  qed
qed

lemma node_drive_ok:
  assumes N: "net_inv nc" and n: "n < length (nodes nc)" and cb: "\<And>m e. \<exists>e'. deliver m e = Inr e'"
  shows "\<exists>s' ms. node_drive avail deliver now n (nc, env) = Inr s' \<and> delivered deliver ms (nc, env) s'"
proof (cases "node_messagesWaiting (nodes nc ! n) = 0")
  case True
  then show ?thesis using n delivered_none[OF N, of deliver env] by (auto simp: node_drive_def)
next
  case False
  have "\<exists>s'. foldE (node_drive_vc avail deliver now n) [0..<8] (nc, env) = Inr s' \<and> (\<exists>ms. delivered deliver ms (nc, env) s')"
  proof (rule foldE_inv)
    fix v s assume v: "v \<in> set [0..<8]" and P: "\<exists>ms. delivered deliver ms (nc, env) s"
    obtain nc1 env1 where s: "s = (nc1, env1)" by (cases s)
    from P obtain ms where ms: "delivered deliver ms (nc, env) (nc1, env1)" using s by blast
    then have "net_inv nc1" "n < length (nodes nc1)" using n ss_len(3)[of nc nc1] by (auto simp: delivered_def)
    with node_drive_vc_ok[of nc1 n v deliver avail now env1] v cb obtain s' ms' where
      "node_drive_vc avail deliver now n v (nc1, env1) = Inr s'" "delivered deliver ms' (nc1, env1) s'" by auto
    with delivered_append[OF ms] s
    show "\<exists>s'. node_drive_vc avail deliver now n v s = Inr s' \<and> (\<exists>ms. delivered deliver ms (nc, env) s')" by blast
  qed (rule exI, rule delivered_none[OF N])
  with False n show ?thesis by (auto simp: node_drive_def)
qed

lemma delivery_phase:
  assumes N: "net_inv nc" and cb: "\<And>m e. \<exists>e'. deliver m e = Inr e'"
  shows "\<exists>s' ms. foldE (node_drive avail deliver now) [0..<nat (nc_numNodes nc)] (nc, env) = Inr s' \<and> delivered deliver ms (nc, env) s'"
proof -
  have "\<exists>s'. foldE (node_drive avail deliver now) [0..<nat (nc_numNodes nc)] (nc, env) = Inr s' \<and> (\<exists>ms. delivered deliver ms (nc, env) s')"
  proof (rule foldE_inv)
    fix n s assume n: "n \<in> set [0..<nat (nc_numNodes nc)]" and P: "\<exists>ms. delivered deliver ms (nc, env) s"
    obtain nc1 env1 where s: "s = (nc1, env1)" by (cases s)
    from P obtain ms where ms: "delivered deliver ms (nc, env) (nc1, env1)" using s by blast
    then have "net_inv nc1" "n < length (nodes nc1)" using n ni_num(1)[OF N] ss_len(3)[of nc nc1] by (auto simp: delivered_def)
    with node_drive_ok[of nc1 n deliver avail now env1] cb obtain s' ms' where
      "node_drive avail deliver now n (nc1, env1) = Inr s'" "delivered deliver ms' (nc1, env1) s'" by auto
    with delivered_append[OF ms] s
    show "\<exists>s'. node_drive avail deliver now n s = Inr s' \<and> (\<exists>ms. delivered deliver ms (nc, env) s')" by blast
  qed (rule exI, rule delivered_none[OF N])
  then show ?thesis by blast
qed

section \<open>Correctness of the network\<close>

lemma nc_drive_ok:
  assumes N: "net_inv nc" and cb: "\<And>m e. \<exists>e'. deliver m e = Inr e'"
  shows "\<exists>s' ms. nc_drive avail deliver now (nc, env) = Inr s' \<and> delivered deliver ms (nc, env) s'"
proof -
  obtain nc1 where 1: "foldE (\<lambda>i. on_switch (int i) (sw_drive now)) [0..<nat (numSwitches nc)] nc = Inr nc1" "net_to nc nc1"
    using switch_phase[OF N] by blast
  then have N1: "net_inv nc1" by (simp add: net_to_def)
  obtain nc2 where 2: "foldE (\<lambda>i. on_switch (int i) (\<lambda>(s, chs). bindE (driveInputPorts now s) (\<lambda>s'. Inr (s', chs))))
      [0..<nat (numSwitches nc1)] nc1 = Inr nc2" "net_to nc1 nc2"
    using input_phase[OF N1] by blast
  then have N2: "net_inv nc2" by (simp add: net_to_def)
  obtain nc3 where 3: "foldE (\<lambda>i. on_node (int i) (\<lambda>(n, chs). bindE (node_driveInputPorts now n) (\<lambda>n'. Inr (n', chs))))
      [0..<nat (nc_numNodes nc2)] nc2 = Inr nc3" "net_to nc2 nc3"
    using node_input_phase[OF N2] by blast
  then have N3: "net_inv nc3" by (simp add: net_to_def)
  obtain nc4 where 4: "foldE (nc_channel_drive now) [0..<nat (maxChannelIndex nc3)] nc3 = Inr nc4" "net_to nc3 nc4"
    using channel_phase[OF N3] by blast
  then have N4: "net_inv nc4" by (simp add: net_to_def)
  obtain s' ms where 5: "foldE (node_drive avail deliver now) [0..<nat (nc_numNodes nc4)] (nc4, env) = Inr s'" "delivered deliver ms (nc4, env) s'"
    using delivery_phase[where deliver = deliver, OF N4 cb] by blast
  have "net_to nc nc4" using net_to_trans 1(2) 2(2) 3(2) 4(2) by blast
  then have "delivered deliver ms (nc, env) s'"
    using 5(2) same_shape_trans[of nc nc4] by (auto simp: delivered_def net_to_def)
  moreover have "nc_drive avail deliver now (nc, env) = Inr s'"
    using 1(1) 2(1) 3(1) 4(1) 5(1) by (simp add: nc_drive_def)
  ultimately show ?thesis by blast
qed

text \<open>C1: One cycle of the whole network completes whenever the delivery callback does: no
  assertion fires, no buffer or array is overrun, no loop runs away and no message reaches a wrong
  node. The network invariant is kept, and the messages in the network before the cycle are exactly
  those in it after the cycle together with those handed to the callback, which is called with
  these messages and no others.\<close>

theorem nc_drive_correct:
  assumes "net_inv nc" and "\<And>m e. \<exists>e'. deliver m e = Inr e'"
  shows "\<exists>nc' env' ms. nc_drive avail deliver now (nc, env) = Inr (nc', env') \<and> net_inv nc'
    \<and> idents (net_msgs nc) = idents (net_msgs nc') + idents ms \<and> foldE deliver ms env = Inr env'
    \<and> activeMessages nc' = int (length (net_msgs nc'))"
proof -
  obtain nc' env' ms where d: "nc_drive avail deliver now (nc, env) = Inr (nc', env')" "delivered deliver ms (nc, env) (nc', env')"
    using nc_drive_ok[of nc deliver avail now env] assms by auto
  then have N: "net_inv nc'" by (simp add: delivered_def)
  have "size (mset (activeList nc')) = size (mset (map serial (net_msgs nc')))"
    using ni_active[OF N] by (simp only: active_inv_def)
  then have "activeMessages nc' = int (length (net_msgs nc'))" using ni_active[OF N] by (simp add: active_inv_def)
  with d N show ?thesis by (auto simp: delivered_def)
qed

text \<open>Two nodes joined by one switch of two ports, with a message of either node waiting to enter.\<close>

definition demo_link_channel :: "int \<Rightarrow> port_ref \<Rightarrow> port_ref \<Rightarrow> int \<Rightarrow> Channel" where
  "demo_link_channel k f t w = (Channel_new k)\<lparr>fromPort := Some f, toPort := Some t, messagesWaiting := w\<rparr>"

definition demo_port_in :: "nat \<Rightarrow> int \<Rightarrow> ChannelInputPort" where
  "demo_port_in c d = \<lparr>bufferCount = replicate 8 d, buffersUsed = replicate 8 0, msl = replicate 8 [], channel = Some c,
     channelLatency = 1, delayList = []\<rparr>"

definition demo_node :: "nat \<Rightarrow> nat \<Rightarrow> nat \<Rightarrow> MessageState \<Rightarrow> NetNode" where
  "demo_node n out inp m = \<lparr>nodeId = int n,
     fromNodePort = \<lparr>bufferCount = [1, 1, INT_MAX, INT_MAX, INT_MAX, INT_MAX, INT_MAX, INT_MAX],
        buffersUsed = (replicate 8 0)[nat (networkVC m) := 1], msl = (replicate 8 [])[nat (networkVC m) := [m]], channel = Some out\<rparr>,
     toNodePort = demo_port_in inp 1, node_messagesWaiting = 0\<rparr>"

definition demo_net_switch :: NetSwitch where
  "demo_net_switch = \<lparr>sw_name = 0, numNodes = 2, numPorts = 2, crossbarBandwidth = 4, nextStartingPort = 0,
     inputPorts = [demo_port_in 0 2, demo_port_in 2 2], outputPorts = [demo_out 1, demo_out 3], internalBuffer = demo_ib [],
     routingTable = [[0, -1, -1, -1], [1, -1, -1, -1]], vcTable = [[0, -1, -1, -1], [0, -1, -1, -1]],
     sw_messagesWaiting = replicate 8 0\<rparr>"

definition demo_net :: NetContainer where
  "demo_net = NetContainer_new\<lparr>nc_channelLatency := 2, channelLatencyData := 4, channelLatencyControl := 1,
     localChannelLatencyDivider := 1, nc_numNodes := 2, numSwitches := 1, switchInputBuffers := 2, switchOutputBuffers := 2,
     switchInternalBuffersPerVC := 4, switchBandwidth := 4, switchPorts := 2, numChannels := 4, maxChannelIndex := 4,
     channels := [demo_link_channel 0 (NodePort 0) (SwitchPort 0 0) 1, demo_link_channel 1 (SwitchPort 0 0) (NodePort 0) 0,
       demo_link_channel 2 (NodePort 1) (SwitchPort 0 1) 1, demo_link_channel 3 (SwitchPort 0 1) (NodePort 1) 0],
     switches := [demo_net_switch],
     nodes := [demo_node 0 0 1 (demo_msg 11 4), demo_node 1 2 3 ((demo_msg 12 2)\<lparr>srcNode := 1, destNode := 0\<rparr>)],
     activeList := [11, 12], activeMessages := 2\<rparr>"

lemma demo_net_inv: "net_inv demo_net"
proof -
  have "wired demo_net" by code_simp
  moreover have "delivers demo_net"
    by (simp add: delivers_def demo_net_def demo_net_switch_def demo_link_channel_def demo_out_def NetContainer_new_def
        Channel_new_def numeral_2_eq_2 less_Suc_eq)
  moreover have "chans_inv demo_net" by code_simp
  moreover have "parts_inv demo_net" by code_simp
  moreover have "active_inv demo_net" by code_simp
  ultimately show ?thesis by (simp add: net_inv_def)
qed

theorem nc_drive_correct_witness:
  "\<exists>nc' env' ms. nc_drive (\<lambda>_ _ _. True) (\<lambda>m log. Inr (log @ [m])) 2 (demo_net, []) = Inr (nc', env') \<and> net_inv nc'
    \<and> idents (net_msgs demo_net) = idents (net_msgs nc') + idents ms \<and> foldE (\<lambda>m log. Inr (log @ [m])) ms [] = Inr env'
    \<and> activeMessages nc' = int (length (net_msgs nc'))"
  by (rule nc_drive_correct[OF demo_net_inv]) simp

subsection \<open>Inserting a message\<close>

text \<open>Rejected messages leave through the error return before anything has changed.\<close>

lemma nc_insertMessage_invalid:
  "srcNode m < 0 \<or> srcNode m \<ge> nc_numNodes nc \<or> destNode m < 0 \<or> destNode m \<ge> nc_numNodes nc \<or> priority m < 0 \<or> priority m \<ge> 4
   \<Longrightarrow> nc_insertMessage now m nc = Inl ErrorReturn"
  by (auto simp: nc_insertMessage_def)

lemma transmit_latency_total: "\<exists>l. transmit_latency nc m = Inr l"
  by (auto simp: transmit_latency_def c_div_def)

lemma node_port_inserted:
  assumes I: "node_inv N n node" and m: "networkVC m = int v" "v < 8" "tag_ok N (tag m)"
    and sp: "buffersUsed (fromNodePort node) ! v < bufferCount (fromNodePort node) ! v"
    and c: "channel (fromNodePort node) = Some c" "c < length chs"
  shows "\<exists>op'. node_insertMessage now m (node, chs) = Inr (node\<lparr>fromNodePort := op'\<rparr>, counted c chs)
    \<and> node_inv N n (node\<lparr>fromNodePort := op'\<rparr>) \<and> channel op' = Some c
    \<and> tags (port_msgs op') = add_mset (tag m) (tags (port_msgs (fromNodePort node)))"
proof -
  let ?op = "fromNodePort node"
  have oi: "out_inv ?op" using I by (simp add: node_inv_def)
  note P = oi[unfolded out_inv_def]
  define op' where "op' = ?op\<lparr>buffersUsed := (buffersUsed ?op)[v := buffersUsed ?op ! v + 1],
      msl := (msl ?op)[v := enq now (msl ?op ! v) (op_entry now ?op m)]\<rparr>"
  have run: "node_insertMessage now m (node, chs) = Inr (node\<lparr>fromNodePort := op'\<rparr>, counted c chs)"
    using op_insertMessage_eq[OF oi m(1,2) sp c] by (simp add: node_insertMessage_def op'_def)
  have oi': "out_inv op'" using port_inv_insert[OF P m(2) _ sp, of "op_entry now ?op m"] m(1) by (simp add: out_inv_def op'_def)
  have tg: "tags (port_msgs op') = add_mset (tag m) (tags (port_msgs ?op))"
    using port_tags_enq[of v ?op now "op_entry now ?op m"] pi_len[OF P] m by (simp add: op'_def port_msgs_def tag_def)
  have "tag_ok N (tag x)" if "x \<in> set (port_msgs op')" for x
  proof -
    have "tag x = tag m \<or> tag x \<in># tags (port_msgs ?op)" using tag_in_tags[OF that] tg by auto
    then show ?thesis using m(3) tags_memD I by (fastforce simp: node_inv_def node_msgs_def)
  qed
  then have "node_inv N n (node\<lparr>fromNodePort := op'\<rparr>)" using I oi' by (auto simp: node_inv_def node_msgs_def)
  moreover have "channel op' = Some c" using c by (simp add: op'_def)
  ultimately show ?thesis using run tg by blast
qed

lemma counted_ends:
  assumes "c < length chs"
  shows "map (\<lambda>ch. (fromPort ch, toPort ch)) (counted c chs) = map (\<lambda>ch. (fromPort ch, toPort ch)) chs"
  unfolding counted_def by (rule map_update_same[OF assms]) (simp add: notifyWaitingMessage_def)

text \<open>The message as it enters the network.\<close>

definition entered :: "MessageState \<Rightarrow> msg_ident" where
  "entered m = (serial m, srcNode m, destNode m, priority m, flexusInFastMode m, startTS m, True)"

text \<open>Insertion where there is room, and where there is none.\<close>

lemma nc_insert_room:
  assumes N: "net_inv nc" and src: "0 \<le> srcNode m" "srcNode m < nc_numNodes nc" and dst: "0 \<le> destNode m" "destNode m < nc_numNodes nc"
    and pr: "0 \<le> priority m" "priority m < int NUM_PRIORITIES" and ser: "serial m \<notin> set (activeList nc)"
    and con: "isConnected (fromNodePort (nodes nc ! nat (srcNode m)))"
    and room: "isOutputAvailable (nodes nc ! nat (srcNode m)) (BUILD_VC (priority m) 0) = Inr True"
  shows "\<exists>nc'. nc_insertMessage now m nc = Inr nc' \<and> net_inv nc' \<and> idents (net_msgs nc') = add_mset (entered m) (idents (net_msgs nc))"
proof -
  let ?n = "nat (srcNode m)" and ?v = "nat (BUILD_VC (priority m) 0)"
  let ?node = "nodes nc ! ?n"
  have n: "?n < length (nodes nc)" using src ni_num(1)[OF N] by linarith
  note I = ni_node[OF N n]
  note B = BUILD_VC_ok[OF pr(1), of 0]
  obtain l where l: "transmit_latency nc m = Inr l" using transmit_latency_total by blast
  let ?m = "m\<lparr>myList := True, transmitLatency := l, networkVC := BUILD_VC (priority m) 0\<rparr>"
  have v: "?v < 8" "networkVC ?m = int ?v" using B pr(2) by auto
  have tk: "tag_ok (length (nodes nc)) (tag ?m)" using dst pr B ni_num(1)[OF N] by (simp add: tag_ok_def tag_def ident_def)
  have P: "port_inv (\<lambda>_. 0) (fromNodePort ?node)" using I by (simp add: node_inv_def out_inv_def)
  have sp: "buffersUsed (fromNodePort ?node) ! ?v < bufferCount (fromNodePort ?node) ! ?v"
    using room hasBufferSpace_eq[OF P v(1)] v(2) by (simp add: isOutputAvailable_def)
  obtain c where c: "channel (fromNodePort ?node) = Some c" using con by (auto simp: isConnected_def)
  have ref: "NodePort ?n \<in> set (all_refs nc)" using n by (simp add: all_refs_iff)
  have oc: "channel (out_at nc (NodePort ?n)) = Some c" using c by (simp add: out_at_def)
  note W = wired_out[OF ni_wired[OF N] ref oc]
  obtain op' where op': "node_insertMessage now ?m (?node, channels nc) = Inr (?node\<lparr>fromNodePort := op'\<rparr>, counted c (channels nc))"
      "node_inv (length (nodes nc)) ?n (?node\<lparr>fromNodePort := op'\<rparr>)" "channel op' = Some c"
      "tags (port_msgs op') = add_mset (tag ?m) (tags (port_msgs (fromNodePort ?node)))"
    using node_port_inserted[OF I v(2,1) tk sp c W(2)] by blast
  let ?nc = "nc\<lparr>activeList := activeList nc @ [serial m], activeMessages := activeMessages nc + 1,
      nodes := (nodes nc)[?n := ?node\<lparr>fromNodePort := op'\<rparr>], channels := counted c (channels nc)\<rparr>"
  have run: "nc_insertMessage now m nc = Inr ?nc"
    using src dst pr l n op'(1) by (simp add: nc_insertMessage_def on_node_def Let_def)
  have oa: "out_at ?nc r = (if r = NodePort ?n then op' else out_at nc r)" "in_at ?nc r = in_at nc r" if "r \<in> set (all_refs nc)" for r
    using n that by (cases r; simp add: out_at_def in_at_def all_refs_iff nth_list_update)+
  have SS: "same_shape nc ?nc" using counted_ends[OF W(2)] oa op'(3) oc by (simp add: same_shape_def)
  have ci: "chans_inv ?nc" unfolding chans_inv_def
  proof (intro allI impI)
    fix k assume "k < nat (maxChannelIndex ?nc)"
    then have km: "k < nat (maxChannelIndex nc)" by simp
    then have "chan_wired nc k" using ni_wired[OF N] by (simp add: wired_def)
    then obtain g where g: "fromPort (channels nc ! k) = Some g" "channel (out_at nc g) = Some k" "g \<in> set (all_refs nc)"
      by (auto simp: chan_wired_def split: option.splits)
    have old: "channel_inv (channels nc ! k) (out_at nc g)" by (rule chans_invD[OF ni_chans[OF N] km g(1)])
    show "case fromPort (channels ?nc ! k) of None \<Rightarrow> False | Some f \<Rightarrow> channel_inv (channels ?nc ! k) (out_at ?nc f)"
    proof (cases "k = c")
      case True
      then have "g = NodePort ?n" using W(3) g(1) by simp
      moreover have "length (port_msgs op') = Suc (length (port_msgs (fromNodePort ?node)))" using arg_cong[OF op'(4), of size] by simp
      ultimately show ?thesis using True W(2,3) old oa(1)[OF ref]
        by (auto simp: counted_def notifyWaitingMessage_def channel_inv_def out_at_def)
    next
      case False
      then have "g \<noteq> NodePort ?n" using g(2) oc by auto
      then show ?thesis using False g(1) old oa(1)[OF g(3)] by (simp add: counted_def)
    qed
  qed
  have im: "idents (net_msgs ?nc) = add_mset (entered m) (idents (net_msgs nc))"
  proof -
    have "idents (port_msgs op') = add_mset (entered m) (idents (port_msgs (fromNodePort ?node)))"
      unfolding idents_tags op'(4) by (simp add: tag_def ident_def entered_def)
    then have "idents (node_msgs (?node\<lparr>fromNodePort := op'\<rparr>)) = add_mset (entered m) (idents (node_msgs ?node))" by (simp add: node_msgs_def)
    from multiset_swap[OF idents_concat_update[OF n, of node_msgs] this] show ?thesis by (simp add: net_msgs_def)
  qed
  have "active_inv ?nc" using ni_active[OF N] ser im unfolding active_inv_def serials_idents by (simp add: entered_def)
  moreover have "parts_inv ?nc" using ni_parts[OF N] n op'(2) by (auto simp: parts_inv_def nth_list_update)
  ultimately have "net_inv ?nc"
    using same_shape_wired[OF SS ni_wired[OF N]] same_shape_delivers[OF SS ni_wired[OF N] ni_delivers[OF N]] ci by (simp add: net_inv_def)
  with run im show ?thesis by blast
qed

lemma nc_insert_full:
  assumes N: "net_inv nc" and src: "0 \<le> srcNode m" "srcNode m < nc_numNodes nc" and dst: "0 \<le> destNode m" "destNode m < nc_numNodes nc"
    and pr: "0 \<le> priority m" "priority m < int NUM_PRIORITIES"
    and full: "isOutputAvailable (nodes nc ! nat (srcNode m)) (BUILD_VC (priority m) 0) \<noteq> Inr True"
  shows "nc_insertMessage now m nc = Inl AssertionFailed"
proof -
  let ?n = "nat (srcNode m)" and ?v = "nat (BUILD_VC (priority m) 0)"
  let ?node = "nodes nc ! ?n"
  have n: "?n < length (nodes nc)" using src ni_num(1)[OF N] by linarith
  have oi: "out_inv (fromNodePort ?node)" using ni_node[OF N n] by (simp add: node_inv_def)
  obtain l where l: "transmit_latency nc m = Inr l" using transmit_latency_total by blast
  let ?m = "m\<lparr>myList := True, transmitLatency := l, networkVC := BUILD_VC (priority m) 0\<rparr>"
  have v: "?v < 8" "networkVC ?m = int ?v" using BUILD_VC_ok[OF pr(1), of 0] pr(2) by auto
  have "\<not> buffersUsed (fromNodePort ?node) ! ?v < bufferCount (fromNodePort ?node) ! ?v"
    using full hasBufferSpace_eq[OF oi[unfolded out_inv_def] v(1)] v(2) by (simp add: isOutputAvailable_def)
  from op_insertMessage_full[OF oi v(2,1) this] show ?thesis
    using src dst pr l n by (simp add: nc_insertMessage_def on_node_def Let_def node_insertMessage_def)
qed

text \<open>C5: Inserting a message with a fresh serial number at a connected node has exactly three outcomes. A source, destination or priority out of
  range is reported as an error; without room on the message's virtual channel the assertion fails that callers avoid by asking
  first; otherwise the insertion succeeds, keeps the network invariant and adds exactly this message to the network.\<close>

theorem nc_insertMessage_correct:
  assumes "net_inv nc" "serial m \<notin> set (activeList nc)" "isConnected (fromNodePort (nodes nc ! nat (srcNode m)))"
  shows "if \<not> (srcNode m \<in> {0..<nc_numNodes nc} \<and> destNode m \<in> {0..<nc_numNodes nc} \<and> priority m \<in> {0..<int NUM_PRIORITIES})
      then nc_insertMessage now m nc = Inl ErrorReturn
    else if isOutputAvailable (nodes nc ! nat (srcNode m)) (BUILD_VC (priority m) 0) \<noteq> Inr True
      then nc_insertMessage now m nc = Inl AssertionFailed
    else \<exists>nc'. nc_insertMessage now m nc = Inr nc' \<and> net_inv nc' \<and> idents (net_msgs nc') = add_mset (entered m) (idents (net_msgs nc))"
proof (cases "srcNode m \<in> {0..<nc_numNodes nc} \<and> destNode m \<in> {0..<nc_numNodes nc} \<and> priority m \<in> {0..<int NUM_PRIORITIES}")
  case True
  then have v: "0 \<le> srcNode m" "srcNode m < nc_numNodes nc" "0 \<le> destNode m" "destNode m < nc_numNodes nc" "0 \<le> priority m" "priority m < int NUM_PRIORITIES"
    by simp_all
  show ?thesis
  proof (cases "isOutputAvailable (nodes nc ! nat (srcNode m)) (BUILD_VC (priority m) 0) = Inr True")
    case room: True
    show ?thesis using True room nc_insert_room[OF assms(1) v assms(2,3) room, of now] by (simp only: if_False if_True simp_thms)
  next
    case full: False
    show ?thesis using True full nc_insert_full[OF assms(1) v full, of now] by (simp only: if_False if_True simp_thms)
  qed
next
  case False
  then show ?thesis by (auto simp: nc_insertMessage_def)
qed

theorem nc_insertMessage_correct_witness:
  "\<exists>nc'. nc_insertMessage 3 (demo_msg 13 6) demo_net = Inr nc' \<and> net_inv nc'
    \<and> idents (net_msgs nc') = add_mset (entered (demo_msg 13 6)) (idents (net_msgs demo_net))"
proof -
  have h: "serial (demo_msg 13 6) \<notin> set (activeList demo_net)" "isConnected (fromNodePort (nodes demo_net ! nat (srcNode (demo_msg 13 6))))" by code_simp+
  have v: "srcNode (demo_msg 13 6) \<in> {0..<nc_numNodes demo_net} \<and> destNode (demo_msg 13 6) \<in> {0..<nc_numNodes demo_net} \<and>
    priority (demo_msg 13 6) \<in> {0..<int NUM_PRIORITIES}" by code_simp
  have r: "isOutputAvailable (nodes demo_net ! nat (srcNode (demo_msg 13 6))) (BUILD_VC (priority (demo_msg 13 6)) 0) = Inr True" by code_simp
  show ?thesis using nc_insertMessage_correct[OF demo_net_inv h, of 3] v r by (simp only: if_False if_True simp_thms)
qed

text \<open>The occupancy computed for a message on entry: one cycle in fast mode; with a channel
  bandwidth the number of cycles is the size divided by the bandwidth, rounded up; without one it is
  the configured data latency for sizes above eight and the control latency otherwise.\<close>

theorem transmit_latency_correct:
  assumes "0 \<le> transmitLatency m"
  shows "\<exists>l. transmit_latency nc m = Inr l \<and>
    (if flexusInFastMode m then l = 1
     else if channelBandwidth nc > 0
     then (l - 1) * channelBandwidth nc < transmitLatency m \<and> transmitLatency m \<le> l * channelBandwidth nc
     else l = (if transmitLatency m > 8 then channelLatencyData nc else channelLatencyControl nc))"
proof -
  have "((s + b - 1) div b - 1) * b < s \<and> s \<le> (s + b - 1) div b * b" if b: "0 < b" for s b :: int
  proof -
    have "(s + b - 1) div b * b + (s + b - 1) mod b = s + b - 1" by simp
    moreover have "0 \<le> (s + b - 1) mod b" "(s + b - 1) mod b < b" using b by simp_all
    ultimately show ?thesis unfolding left_diff_distrib mult_1 by linarith
  qed
  then show ?thesis using assms by (simp add: transmit_latency_def c_div_pos)
qed

theorem transmit_latency_correct_witness:
  "\<exists>l. transmit_latency (demo_net\<lparr>channelBandwidth := 16\<rparr>) ((demo_msg 1 0)\<lparr>transmitLatency := 72\<rparr>) = Inr l
     \<and> (l - 1) * 16 < 72 \<and> 72 \<le> l * (16 :: int)"
proof -
  have "0 \<le> transmitLatency ((demo_msg 1 0)\<lparr>transmitLatency := 72\<rparr>)" by simp
  from transmit_latency_correct[OF this, of "demo_net\<lparr>channelBandwidth := 16\<rparr>"] show ?thesis
    by (simp add: demo_msg_def)
qed

end
