(* ===== verification/MMUConfig.thy ===== *)
theory MMUConfig
  imports Flexus_Prelude
begin

text \<open>
  The configuration side of the memory management unit (\<^verbatim>\<open>components/MMU\<close>): the bit-field
  helpers of \<^verbatim>\<open>bitUtilities.cpp\<close>, the system registers the translation uses
  (\<^verbatim>\<open>mmuRegisters.hpp\<close>), the translation granules with their address range limits and initial
  lookup level (\<^verbatim>\<open>ARMTranslationGranules.cpp\<close>), and \<^verbatim>\<open>mmu_t\<close>, which decodes the registers
  (\<^verbatim>\<open>MMUUtil.cpp\<close>).

  \<^verbatim>\<open>uint64_t\<close> registers and addresses are 64-bit words. The small \<^verbatim>\<open>uint8_t\<close> and \<^verbatim>\<open>unsigned\<close>
  fields are natural numbers, with the truncation to eight bits written out where a wider value is
  stored. The two range limits are computed in the source with \<^verbatim>\<open>pow\<close> in double precision and
  converted back; the model states the exactly rounded result.
\<close>

unbundle bit_operations_syntax

section \<open>Bit fields (bitUtilities.cpp)\<close>

type_synonym address = "64 word"

definition shl64 :: "address \<Rightarrow> nat \<Rightarrow> address res" where
  "shl64 x n = (if n < 64 then Inr (push_bit n x) else Inl UndefinedBehaviour)"

definition shr64 :: "address \<Rightarrow> nat \<Rightarrow> address res" where
  "shr64 x n = (if n < 64 then Inr (drop_bit n x) else Inl UndefinedBehaviour)"

definition extractBitsWithBounds :: "address \<Rightarrow> nat \<Rightarrow> nat \<Rightarrow> address res" where
  "extractBitsWithBounds input upperBitBound lowerBitBound =
     bindE (shr64 input lowerBitBound) (\<lambda>result.
     bindE (shl64 1 (nat ((int upperBitBound - int lowerBitBound + 1) mod 2 ^ 32))) (\<lambda>top.
     Inr (result AND (top - 1))))"

definition extractBitsWithRange :: "address \<Rightarrow> nat \<Rightarrow> nat \<Rightarrow> address res" where
  "extractBitsWithRange input lbound numBits =
     bindE (shr64 input lbound) (\<lambda>result.
     bindE (shl64 1 numBits) (\<lambda>top.
     Inr (result AND (top - 1))))"

definition extractSingleBitAsBool :: "address \<Rightarrow> nat \<Rightarrow> bool res" where
  "extractSingleBitAsBool input bitshift =
     bindE (shr64 input bitshift) (\<lambda>r. Inr (r AND 1 \<noteq> 0))"

text \<open>The arithmetic reading of a bit field: a quotient and a remainder.\<close>

definition field :: "nat \<Rightarrow> nat \<Rightarrow> nat \<Rightarrow> nat" where
  "field x lsb n = x div 2 ^ lsb mod 2 ^ n"

section \<open>Registers (mmuRegisters.hpp)\<close>

record bit_configs_t =
  M_Bit :: nat
  EE_Bit :: nat
  EoE_Bit :: nat
  TGran4_Base :: nat
  TGran16_Base :: nat
  TGran64_Base :: nat
  TGran_NumBits :: nat
  TG0_Base :: nat
  TG0_NumBits :: nat
  TG1_Base :: nat
  TG1_NumBits :: nat
  PARange_Base :: nat
  PARange_NumBits :: nat
  TG0_SZ_Base :: nat
  TG1_SZ_Base :: nat
  TGn_SZ_NumBits :: nat

record mmu_regs_t =
  SCTLR :: "address list"   \<comment> \<open>four exception levels\<close>
  TCR :: "address list"     \<comment> \<open>four exception levels\<close>
  TTBR0 :: "address list"   \<comment> \<open>four exception levels\<close>
  TTBR1 :: "address list"   \<comment> \<open>three entries, of which EL1 and EL2 are used\<close>
  ID_AA64MMFR0_EL1 :: address

definition regs_shape :: "mmu_regs_t \<Rightarrow> bool" where
  "regs_shape r \<longleftrightarrow> length (SCTLR r) = 4 \<and> length (TCR r) = 4 \<and> length (TTBR0 r) = 4 \<and> length (TTBR1 r) = 3"

abbreviation (input) EL1 :: nat where "EL1 \<equiv> 1"
abbreviation (input) EL2 :: nat where "EL2 \<equiv> 2"
abbreviation (input) EL3 :: nat where "EL3 \<equiv> 3"

text \<open>The copy constructor fills a freshly allocated object \<open>junk\<close>; the entry of \<^verbatim>\<open>TTBR1\<close> for
  exception level zero is left as it was.\<close>

definition mmu_regs_copy :: "mmu_regs_t \<Rightarrow> mmu_regs_t \<Rightarrow> mmu_regs_t" where
  "mmu_regs_copy junk copyMe =
     (let r = foldl (\<lambda>r i. r\<lparr>SCTLR := (SCTLR r)[i := SCTLR copyMe ! i], TCR := (TCR r)[i := TCR copyMe ! i],
                        TTBR0 := (TTBR0 r)[i := TTBR0 copyMe ! i]\<rparr>) junk [0..<4]
      in r\<lparr>TTBR1 := (TTBR1 r)[EL1 := TTBR1 copyMe ! EL1, EL2 := TTBR1 copyMe ! EL2],
           ID_AA64MMFR0_EL1 := ID_AA64MMFR0_EL1 copyMe\<rparr>)"

section \<open>Translation granules (ARMTranslationGranules.cpp)\<close>

datatype granule_class = TranslationGranule_class | TG0_class | TG1_class

record Granule =
  granule_kind :: granule_class   \<comment> \<open>the dynamic type, which selects the virtual range limits\<close>
  KBSize :: nat
  logKBSize :: nat
  granuleShift :: nat
  granuleEntries :: nat
  PARange_RawValue :: nat
  PAddrWidth :: nat
  IAddrOffset :: nat

text \<open>The integer part of the logarithm the constructor takes with \<^verbatim>\<open>log2\<close>.\<close>

fun ilog2 :: "nat \<Rightarrow> nat" where
  "ilog2 n = (if n < 2 then 0 else Suc (ilog2 (n div 2)))"

declare ilog2.simps [simp del]

abbreviation u8 :: "nat \<Rightarrow> nat" where
  "u8 n \<equiv> n mod 256"

text \<open>The default constructor leaves \<^verbatim>\<open>PARange_RawValue\<close> uninitialised (\<open>junk\<close>).\<close>

definition TranslationGranule_default :: "granule_class \<Rightarrow> nat \<Rightarrow> Granule" where
  "TranslationGranule_default k junk =
     \<lparr>granule_kind = k, KBSize = 4096, logKBSize = 12, granuleShift = 9, granuleEntries = 512,
      PARange_RawValue = junk, PAddrWidth = 48, IAddrOffset = 48\<rparr>"

text \<open>Below eight bytes the logarithm is undefined or the shift wraps and \<^verbatim>\<open>exp2\<close> exceeds every
  integer.\<close>

definition TranslationGranule_new :: "granule_class \<Rightarrow> nat \<Rightarrow> nat \<Rightarrow> nat \<Rightarrow> nat \<Rightarrow> Granule res" where
  "TranslationGranule_new k junk ksize PASize IASize =
     (if ksize < 8 then Inl UndefinedBehaviour
      else Inr \<lparr>granule_kind = k, KBSize = ksize, logKBSize = ilog2 ksize, granuleShift = ilog2 ksize - 3,
                granuleEntries = 2 ^ (ilog2 ksize - 3), PARange_RawValue = junk,
                PAddrWidth = u8 PASize, IAddrOffset = u8 IASize\<rparr>)"

definition TG0_Granule_new :: "nat \<Rightarrow> nat \<Rightarrow> nat \<Rightarrow> nat \<Rightarrow> Granule res" where
  "TG0_Granule_new junk granuleSize PAddrSize IAOffset = TranslationGranule_new TG0_class junk granuleSize PAddrSize IAOffset"

definition TG1_Granule_new :: "nat \<Rightarrow> nat \<Rightarrow> nat \<Rightarrow> nat \<Rightarrow> Granule res" where
  "TG1_Granule_new junk granuleSize PAddrSize IAOffset = TranslationGranule_new TG1_class junk granuleSize PAddrSize IAOffset"

definition setPARange_Raw :: "nat \<Rightarrow> Granule \<Rightarrow> Granule" where
  "setPARange_Raw v g = g\<lparr>PARange_RawValue := u8 v\<rparr>"

definition setPAddrWidth :: "nat \<Rightarrow> Granule \<Rightarrow> Granule" where
  "setPAddrWidth v g = g\<lparr>PAddrWidth := u8 v\<rparr>"

definition setIAddrOffset :: "nat \<Rightarrow> Granule \<Rightarrow> Granule" where
  "setIAddrOffset v g = g\<lparr>IAddrOffset := u8 v\<rparr>"

definition NumBitsResolvedPerTTAccess :: "Granule \<Rightarrow> nat" where
  "NumBitsResolvedPerTTAccess g = nat ((int (logKBSize g) - 3) mod 256)"

definition getIAddrSize :: "Granule \<Rightarrow> nat" where
  "getIAddrSize g = nat ((64 - int (IAddrOffset g)) mod 256)"

definition granule_getInitialLookupLevel :: "Granule \<Rightarrow> nat" where
  "granule_getInitialLookupLevel g =
     (let TnSz = IAddrOffset g in
      if KBSize g = 2 ^ 12 then (if TnSz \<ge> 34 then 2 else if TnSz \<ge> 25 then 1 else 0)
      else if KBSize g = 2 ^ 14 then
        (if TnSz \<ge> 39 then 3 else if TnSz \<ge> 28 then 2 else if TnSz \<ge> 17 then 1 else 0)
      else if KBSize g = 2 ^ 16 then
        (if TnSz \<ge> 35 then 3 else if TnSz \<ge> 22 then 2 else if TnSz \<ge> 16 then 1 else 1)
      else 0)"

text \<open>
  \<^verbatim>\<open>pow(2, k) - 1\<close> with \<open>k = 64 - TnSz\<close>, converted to an unsigned 64-bit integer: exact up to
  \<open>k = 53\<close>, rounded up to \<open>2 ^ k\<close> beyond, out of range at \<open>k = 64\<close>; a negative exponent gives a value
  truncated to zero.
\<close>

definition TG0_upper_limit :: "nat \<Rightarrow> address res" where
  "TG0_upper_limit TnSz =
     (if TnSz = 0 then Inl UndefinedBehaviour
      else if TnSz < 11 then Inr (push_bit (64 - TnSz) 1)
      else if TnSz \<le> 64 then Inr (push_bit (64 - TnSz) 1 - 1)
      else Inr 0)"

text \<open>
  \<^verbatim>\<open>pow(2, 64) - pow(2, k)\<close> with \<open>k = 64 - TnSz\<close>: exact while \<open>TnSz \<le> 53\<close>; for smaller \<open>k\<close> the
  difference is rounded to \<open>2 ^ 64\<close>, which no 64-bit integer holds.
\<close>

definition TG1_lower_limit :: "nat \<Rightarrow> address res" where
  "TG1_lower_limit TnSz =
     (if TnSz \<le> 53 then Inr (- push_bit (64 - TnSz) 1) else Inl UndefinedBehaviour)"

definition GetLowerAddressRangeLimit :: "Granule \<Rightarrow> address res" where
  "GetLowerAddressRangeLimit g = (case granule_kind g of
      TranslationGranule_class \<Rightarrow> Inl AssertionFailed
    | TG0_class \<Rightarrow> Inr 0
    | TG1_class \<Rightarrow> TG1_lower_limit (IAddrOffset g))"

definition GetUpperAddressRangeLimit :: "Granule \<Rightarrow> address res" where
  "GetUpperAddressRangeLimit g = (case granule_kind g of
      TranslationGranule_class \<Rightarrow> Inl AssertionFailed
    | TG0_class \<Rightarrow> TG0_upper_limit (IAddrOffset g)
    | TG1_class \<Rightarrow> Inr 0xffffffffffffffff)"

section \<open>The register view of the MMU (MMUUtil.cpp)\<close>

record mmu_t =
  mmu_regs :: mmu_regs_t
  aarch64_bit_configs :: bit_configs_t
  Gran0 :: "Granule option"   \<comment> \<open>shared pointers, null until the granules are set up\<close>
  Gran1 :: "Granule option"

definition deref :: "'a option \<Rightarrow> 'a res" where
  "deref p = (case p of None \<Rightarrow> Inl UndefinedBehaviour | Some x \<Rightarrow> Inr x)"

definition TTE_isValid :: "address \<Rightarrow> bool res" where
  "TTE_isValid rawDescriptor = extractSingleBitAsBool rawDescriptor 0"

definition TTE_isTableEntry :: "address \<Rightarrow> bool res" where
  "TTE_isTableEntry rawDescriptor = extractSingleBitAsBool rawDescriptor 1"

definition TTE_isBlockEntry :: "address \<Rightarrow> bool res" where
  "TTE_isBlockEntry rawDescriptor = bindE (extractSingleBitAsBool rawDescriptor 1) (\<lambda>b. Inr (\<not> b))"

definition aarch64_configs :: bit_configs_t where
  "aarch64_configs =
     \<lparr>M_Bit = 0, EE_Bit = 25, EoE_Bit = 24,
      TGran4_Base = 28, TGran16_Base = 20, TGran64_Base = 24, TGran_NumBits = 4,
      TG0_Base = 14, TG0_NumBits = 2, TG1_Base = 30, TG1_NumBits = 2,
      PARange_Base = 0, PARange_NumBits = 4,
      TG0_SZ_Base = 0, TG1_SZ_Base = 16, TGn_SZ_NumBits = 6\<rparr>"

definition setupBitConfigs :: "mmu_t \<Rightarrow> mmu_t" where
  "setupBitConfigs m = m\<lparr>aarch64_bit_configs := aarch64_configs\<rparr>"

definition copy_entries :: "nat list \<Rightarrow> 'a list \<Rightarrow> 'a list \<Rightarrow> 'a list" where
  "copy_entries is src dst = foldl (\<lambda>d i. d[i := src ! i]) dst is"

definition initRegsFromQEMUObject :: "mmu_regs_t \<Rightarrow> mmu_t \<Rightarrow> mmu_t" where
  "initRegsFromQEMUObject q m =
     (let m = setupBitConfigs m; r = mmu_regs m in
      m\<lparr>mmu_regs := r\<lparr>SCTLR := copy_entries [EL1, EL2, EL3] (SCTLR q) (SCTLR r),
                        TCR := copy_entries [EL1, EL2, EL3] (TCR q) (TCR r),
                        TTBR0 := copy_entries [EL1, EL2, EL3] (TTBR0 q) (TTBR0 r),
                        TTBR1 := copy_entries [EL1, EL2] (TTBR1 q) (TTBR1 r),
                        ID_AA64MMFR0_EL1 := ID_AA64MMFR0_EL1 q\<rparr>\<rparr>)"

definition IsExcLevelEnabled :: "nat \<Rightarrow> mmu_t \<Rightarrow> bool res" where
  "IsExcLevelEnabled EL m =
     bindE (dbg_assert (EL > 0 \<and> EL \<le> 3)) (\<lambda>_.
     bindE (vec_at (SCTLR (mmu_regs m)) EL) (\<lambda>r.
     extractSingleBitAsBool r (M_Bit (aarch64_bit_configs m))))"

definition is4KGranuleSupported :: "mmu_t \<Rightarrow> bool res" where
  "is4KGranuleSupported m =
     bindE (extractBitsWithRange (ID_AA64MMFR0_EL1 (mmu_regs m)) (TGran4_Base (aarch64_bit_configs m))
              (TGran_NumBits (aarch64_bit_configs m))) (\<lambda>v. Inr (v = 0))"

definition is16KGranuleSupported :: "mmu_t \<Rightarrow> bool res" where
  "is16KGranuleSupported m =
     bindE (extractBitsWithRange (ID_AA64MMFR0_EL1 (mmu_regs m)) (TGran16_Base (aarch64_bit_configs m))
              (TGran_NumBits (aarch64_bit_configs m))) (\<lambda>v. Inr (v = 1))"

definition is64KGranuleSupported :: "mmu_t \<Rightarrow> bool res" where
  "is64KGranuleSupported m =
     bindE (extractBitsWithRange (ID_AA64MMFR0_EL1 (mmu_regs m)) (TGran64_Base (aarch64_bit_configs m))
              (TGran_NumBits (aarch64_bit_configs m))) (\<lambda>v. Inr (v = 0))"

definition getGranuleSize :: "nat \<Rightarrow> mmu_t \<Rightarrow> nat res" where
  "getGranuleSize granuleNum m =
     bindE (vec_at (TCR (mmu_regs m)) EL1) (\<lambda>tcr.
     if granuleNum = 0 then
       bindE (extractBitsWithRange tcr (TG0_Base (aarch64_bit_configs m)) (TG0_NumBits (aarch64_bit_configs m))) (\<lambda>sz.
       if sz = 0 then Inr (2 ^ 12) else if sz = 1 then Inr (2 ^ 16) else if sz = 3 then Inr (2 ^ 14)
       else Inl AssertionFailed)
     else
       bindE (extractBitsWithRange tcr (TG1_Base (aarch64_bit_configs m)) (TG1_NumBits (aarch64_bit_configs m))) (\<lambda>sz.
       if sz = 2 then Inr (2 ^ 12) else if sz = 3 then Inr (2 ^ 16) else if sz = 1 then Inr (2 ^ 14)
       else Inl AssertionFailed))"

definition parsePASizeFromRegs :: "mmu_t \<Rightarrow> nat res" where
  "parsePASizeFromRegs m =
     bindE (extractBitsWithRange (ID_AA64MMFR0_EL1 (mmu_regs m)) (PARange_Base (aarch64_bit_configs m))
              (PARange_NumBits (aarch64_bit_configs m))) (\<lambda>p.
     if p = 0 then Inr 32 else if p = 1 then Inr 36 else if p = 2 then Inr 40 else if p = 3 then Inr 42
     else if p = 4 then Inr 44 else if p = 5 then Inr 48 else if p = 6 then Inr 52
     else Inl AssertionFailed)"

definition getIAOffsetValue :: "bool \<Rightarrow> mmu_t \<Rightarrow> nat res" where
  "getIAOffsetValue isBR0 m =
     bindE (vec_at (TCR (mmu_regs m)) EL1) (\<lambda>tcr.
     bindE (if isBR0
            then extractBitsWithRange tcr (TG0_SZ_Base (aarch64_bit_configs m)) (TGn_SZ_NumBits (aarch64_bit_configs m))
            else extractBitsWithRange tcr (TG1_SZ_Base (aarch64_bit_configs m)) (TGn_SZ_NumBits (aarch64_bit_configs m)))
       (\<lambda>ret. Inr (unat ret mod 2 ^ 32)))"

definition setupAddressSpaceSizesAndGranules :: "nat \<Rightarrow> mmu_t \<Rightarrow> mmu_t res" where
  "setupAddressSpaceSizesAndGranules junk m =
     bindE (getGranuleSize 0 m) (\<lambda>TG0_Size.
     bindE (getGranuleSize 1 m) (\<lambda>TG1_Size.
     bindE (parsePASizeFromRegs m) (\<lambda>_.
     let PASize = 48 in
     bindE (getIAOffsetValue True m) (\<lambda>BR0_Offset.
     bindE (getIAOffsetValue False m) (\<lambda>BR1_Offset.
     bindE (TG0_Granule_new junk TG0_Size PASize BR0_Offset) (\<lambda>g0.
     bindE (TG1_Granule_new junk TG1_Size PASize BR1_Offset) (\<lambda>g1.
     Inr (m\<lparr>Gran0 := Some g0, Gran1 := Some g1\<rparr>))))))))"

definition checkBR0RangeForVAddr :: "address \<Rightarrow> mmu_t \<Rightarrow> int res" where
  "checkBR0RangeForVAddr theVaddr m =
     bindE (deref (Gran0 m)) (\<lambda>g0.
     bindE (GetUpperAddressRangeLimit g0) (\<lambda>upperBR0Bound.
     bindE (deref (Gran1 m)) (\<lambda>g1.
     bindE (GetLowerAddressRangeLimit g1) (\<lambda>lowerBR1Bound.
     Inr (if theVaddr \<le> upperBR0Bound then 0 else if theVaddr \<ge> lowerBR1Bound then 1 else - 1)))))"

definition getInitialLookupLevel :: "bool \<Rightarrow> mmu_t \<Rightarrow> nat res" where
  "getInitialLookupLevel isBR0 m =
     bindE (deref (if isBR0 then Gran0 m else Gran1 m)) (\<lambda>g. Inr (granule_getInitialLookupLevel g))"

definition getIASize :: "bool \<Rightarrow> mmu_t \<Rightarrow> nat res" where
  "getIASize isBR0 m = bindE (deref (if isBR0 then Gran0 m else Gran1 m)) (\<lambda>g. Inr (getIAddrSize g))"

definition getPAWidth :: "bool \<Rightarrow> mmu_t \<Rightarrow> nat res" where
  "getPAWidth isBR0 m = bindE (deref (if isBR0 then Gran0 m else Gran1 m)) (\<lambda>g. Inr (PAddrWidth g))"


section \<open>Bit fields as quotients and remainders\<close>

lemma extractBitsWithRange_eq:
  "l < 64 \<Longrightarrow> n < 64 \<Longrightarrow> extractBitsWithRange x l n = Inr (take_bit n (drop_bit l x))"
  by (simp add: extractBitsWithRange_def shr64_def shl64_def push_bit_eq_mult take_bit_eq_mask mask_eq_exp_minus_1)

lemma extractBitsWithBounds_eq:
  "l \<le> u \<Longrightarrow> u - l < 63 \<Longrightarrow> l < 64 \<Longrightarrow>
   extractBitsWithBounds x u l = Inr (take_bit (u - l + 1) (drop_bit l x))"
proof -
  assume a: "l \<le> u" "u - l < 63" "l < 64"
  then have e: "nat ((int u - int l + 1) mod 2 ^ 32) = u - l + 1"
    by (simp add: mod_pos_pos_trivial nat_diff_distrib of_nat_diff)
  show ?thesis
    unfolding extractBitsWithBounds_def shr64_def shl64_def e using a
    by (simp add: push_bit_eq_mult take_bit_eq_mask mask_eq_exp_minus_1)
qed

lemma extractBitsWithBounds_width:
  "l + n = Suc u \<Longrightarrow> 0 < n \<Longrightarrow> n < 64 \<Longrightarrow> l < 64 \<Longrightarrow>
   extractBitsWithBounds x u l = Inr (take_bit n (drop_bit l x))"
proof -
  assume a: "l + n = Suc u" "0 < n" "n < 64" "l < 64"
  then have "n = u - l + 1" "l \<le> u" by simp_all
  then show ?thesis using a extractBitsWithBounds_eq[of l u x] by simp
qed

lemma extractSingleBitAsBool_eq [simp]:
  "n < 64 \<Longrightarrow> extractSingleBitAsBool x n = Inr (bit x n)"
  by (simp add: extractSingleBitAsBool_def shr64_def and_one_eq bit_iff_odd_drop_bit odd_iff_mod_2_eq_one)

lemma unat_field: "unat (take_bit n (drop_bit l x)) = field (unat x) l n"
proof -
  have "unat (take_bit n (drop_bit l x)) = take_bit n (drop_bit l (unat x))"
    by (simp only: unsigned_take_bit_eq unat_drop_bit_eq)
  then show ?thesis by (simp add: field_def take_bit_eq_mod drop_bit_eq_div)
qed

lemma field_less: "field x l n < 2 ^ n"
  by (simp add: field_def)


section \<open>Decoding the control register\<close>

text \<open>The architectural tables of the granule fields: the logarithm of the granule size by the value of
  the field, \<open>None\<close> for the reserved value.\<close>

definition tg0_log :: "nat \<Rightarrow> nat option" where
  "tg0_log v = (if v = 0 then Some 12 else if v = 1 then Some 16 else if v = 3 then Some 14 else None)"

definition tg1_log :: "nat \<Rightarrow> nat option" where
  "tg1_log v = (if v = 2 then Some 12 else if v = 3 then Some 16 else if v = 1 then Some 14 else None)"

definition granule_of :: "granule_class \<Rightarrow> nat \<Rightarrow> nat \<Rightarrow> nat \<Rightarrow> Granule" where
  "granule_of k junk lg T =
     \<lparr>granule_kind = k, KBSize = 2 ^ lg, logKBSize = lg, granuleShift = lg - 3, granuleEntries = 2 ^ (lg - 3),
      PARange_RawValue = junk, PAddrWidth = 48, IAddrOffset = T\<rparr>"

lemma ilog2_power [simp]: "ilog2 (2 ^ n) = n"
proof (induction n)
  case (Suc n)
  have "ilog2 (2 ^ Suc n) = Suc (ilog2 (2 ^ Suc n div 2))"
    using one_le_power[of "2::nat" n] by (subst ilog2.simps) simp
  then show ?case using Suc by simp
qed (simp add: ilog2.simps)

lemma TranslationGranule_new_power:
  "3 \<le> lg \<Longrightarrow> T < 256 \<Longrightarrow> TranslationGranule_new k junk (2 ^ lg) 48 T = Inr (granule_of k junk lg T)"
  using power_increasing[of 3 lg "2::nat"] by (simp add: TranslationGranule_new_def granule_of_def)

lemma word_eq_field_iff:
  "v < 2 ^ n \<Longrightarrow> n < 64 \<Longrightarrow> take_bit n (drop_bit l x) = (of_nat v :: address) \<longleftrightarrow> field (unat x) l n = v"
proof -
  assume "v < 2 ^ n" "n < 64"
  then have "v < 2 ^ 64" using power_strict_increasing[of n 64 "2::nat"] by linarith
  then have "unat (of_nat v :: address) = v" by (simp add: unat_of_nat)
  then show ?thesis by (simp add: word_unat_eq_iff unat_field)
qed

lemmas word_eq_field_numerals =
  word_eq_field_iff[of 0, simplified] word_eq_field_iff[of 1, simplified]
  word_eq_field_iff[of "numeral k", simplified] for k


lemma getGranuleSize_eq:
  assumes "aarch64_bit_configs m = aarch64_configs" "regs_shape (mmu_regs m)"
  shows "getGranuleSize i m =
     (case (if i = 0 then tg0_log (field (unat (TCR (mmu_regs m) ! 1)) 14 2)
            else tg1_log (field (unat (TCR (mmu_regs m) ! 1)) 30 2)) of
        None \<Rightarrow> Inl AssertionFailed | Some lg \<Rightarrow> Inr (2 ^ lg))"
  using assms
  by (simp add: getGranuleSize_def regs_shape_def vec_at_def aarch64_configs_def extractBitsWithRange_eq
        word_eq_field_numerals tg0_log_def tg1_log_def)

lemma getIAOffsetValue_eq:
  assumes "aarch64_bit_configs m = aarch64_configs" "regs_shape (mmu_regs m)"
  shows "getIAOffsetValue b m = Inr (field (unat (TCR (mmu_regs m) ! 1)) (if b then 0 else 16) 6)"
proof -
  define w where "w = TCR (mmu_regs m) ! 1"
  have F: "unat (take_bit 6 (drop_bit l w)) mod 2 ^ 32 = field (unat w) l 6" for l
    using field_less[of "unat w" l 6] by (simp add: unat_field)
  have "getIAOffsetValue b m =
      Inr (unat (take_bit 6 (drop_bit (if b then 0 else 16) w)) mod 2 ^ 32)"
    using assms by (auto simp: getIAOffsetValue_def regs_shape_def vec_at_def aarch64_configs_def
        extractBitsWithRange_eq w_def)
  then show ?thesis unfolding F by (simp add: w_def)
qed

lemma parsePASizeFromRegs_ok:
  assumes "aarch64_bit_configs m = aarch64_configs"
  shows "parsePASizeFromRegs m =
     (if field (unat (ID_AA64MMFR0_EL1 (mmu_regs m))) 0 4 \<le> 6
      then Inr ([32, 36, 40, 42, 44, 48, 52] ! field (unat (ID_AA64MMFR0_EL1 (mmu_regs m))) 0 4)
      else Inl AssertionFailed)"
proof -
  define v where "v = field (unat (ID_AA64MMFR0_EL1 (mmu_regs m))) 0 4"
  have eq: "(take_bit 4 (ID_AA64MMFR0_EL1 (mmu_regs m)) = of_nat k) = (v = k)" if "k < 16" for k
    using word_eq_field_iff[of k 4 0 "ID_AA64MMFR0_EL1 (mmu_regs m)"] that by (simp add: v_def)
  note eqs = eq[of 0, simplified] eq[of 1, simplified] eq[of 2, simplified] eq[of 3, simplified]
    eq[of 4, simplified] eq[of 5, simplified] eq[of 6, simplified]
  have P: "parsePASizeFromRegs m = (if v = 0 then Inr 32 else if v = 1 then Inr 36 else if v = 2 then Inr 40
      else if v = 3 then Inr 42 else if v = 4 then Inr 44 else if v = 5 then Inr 48 else if v = 6 then Inr 52
      else Inl AssertionFailed)"
    using assms by (simp add: parsePASizeFromRegs_def aarch64_configs_def extractBitsWithRange_eq eqs)
  consider "v = 0" | "v = 1" | "v = 2" | "v = 3" | "v = 4" | "v = 5" | "v = 6" | "6 < v" by linarith
  then show ?thesis unfolding v_def[symmetric] P by cases simp_all
qed

lemma copy_entries_length [simp]: "length (copy_entries is src dst) = length dst"
  unfolding copy_entries_def by (induction "is" arbitrary: dst) auto

lemma initRegs_shape: "regs_shape (mmu_regs m) \<Longrightarrow> regs_shape (mmu_regs (initRegsFromQEMUObject q m))"
  by (simp add: regs_shape_def initRegsFromQEMUObject_def setupBitConfigs_def Let_def)

lemma initRegs_configs [simp]: "aarch64_bit_configs (initRegsFromQEMUObject q m) = aarch64_configs"
  by (simp add: initRegsFromQEMUObject_def setupBitConfigs_def Let_def)

lemma initRegs_regs:
  assumes "regs_shape (mmu_regs m)"
  shows "TCR (mmu_regs (initRegsFromQEMUObject q m)) ! 1 = TCR q ! 1"
    "TTBR0 (mmu_regs (initRegsFromQEMUObject q m)) ! 1 = TTBR0 q ! 1"
    "TTBR1 (mmu_regs (initRegsFromQEMUObject q m)) ! 1 = TTBR1 q ! 1"
    "ID_AA64MMFR0_EL1 (mmu_regs (initRegsFromQEMUObject q m)) = ID_AA64MMFR0_EL1 q"
  using assms by (auto simp: regs_shape_def initRegsFromQEMUObject_def setupBitConfigs_def Let_def copy_entries_def)

lemma setup_granules_effect:
  assumes "regs_shape (mmu_regs m)"
  shows "setupAddressSpaceSizesAndGranules junk (initRegsFromQEMUObject q m) =
    (case (tg0_log (field (unat (TCR q ! 1)) 14 2), tg1_log (field (unat (TCR q ! 1)) 30 2)) of
       (Some lg0, Some lg1) \<Rightarrow>
         if field (unat (ID_AA64MMFR0_EL1 q)) 0 4 \<le> 6
         then Inr ((initRegsFromQEMUObject q m)
                \<lparr>Gran0 := Some (granule_of TG0_class junk lg0 (field (unat (TCR q ! 1)) 0 6)),
                 Gran1 := Some (granule_of TG1_class junk lg1 (field (unat (TCR q ! 1)) 16 6))\<rparr>)
         else Inl AssertionFailed
     | _ \<Rightarrow> Inl AssertionFailed)"
proof -
  note R = initRegs_shape[OF assms, of q] initRegs_regs[OF assms, of q]
  have F: "field x l 6 < 256" for x l using field_less[of x l 6] by simp
  have L: "tg0_log v = Some lg \<Longrightarrow> 3 \<le> lg" "tg1_log v = Some lg \<Longrightarrow> 3 \<le> lg" for v lg
    by (auto simp: tg0_log_def tg1_log_def split: if_splits)
  show ?thesis
    by (auto simp: setupAddressSpaceSizesAndGranules_def getGranuleSize_eq[OF initRegs_configs R(1)]
        getIAOffsetValue_eq[OF initRegs_configs R(1)] parsePASizeFromRegs_ok[OF initRegs_configs] R[simplified]
        TG0_Granule_new_def TG1_Granule_new_def TranslationGranule_new_power[OF L(1) F]
        TranslationGranule_new_power[OF L(2) F] split: option.splits)
qed

text \<open>C36: Resynchronising the MMU from the emulator's registers. After the registers are copied, setting up
  the granules succeeds exactly when the two granule fields of TCR_EL1 hold an architecturally defined
  value and the physical address range field is at most six. The granules then have the size the
  architecture assigns to the field values, an input address offset equal to T0SZ respectively T1SZ,
  and a physical width of 48 bits whatever the range field says; nothing else changes.\<close>
theorem setup_granules_correct:
  assumes "regs_shape (mmu_regs m)"
  shows "setupAddressSpaceSizesAndGranules junk (initRegsFromQEMUObject q m) =
    (case (tg0_log (field (unat (TCR q ! 1)) 14 2), tg1_log (field (unat (TCR q ! 1)) 30 2)) of
       (Some lg0, Some lg1) \<Rightarrow>
         if field (unat (ID_AA64MMFR0_EL1 q)) 0 4 \<le> 6
         then Inr ((initRegsFromQEMUObject q m)
                \<lparr>Gran0 := Some (granule_of TG0_class junk lg0 (field (unat (TCR q ! 1)) 0 6)),
                 Gran1 := Some (granule_of TG1_class junk lg1 (field (unat (TCR q ! 1)) 16 6))\<rparr>)
         else Inl AssertionFailed
     | _ \<Rightarrow> Inl AssertionFailed)"
  by (rule setup_granules_effect[OF assms])

definition demo_regs :: mmu_regs_t where
  "demo_regs = \<lparr>SCTLR = [0, 1, 0, 0], TCR = [0, 0x80190010, 0, 0], TTBR0 = [0, 0x1000, 0, 0], TTBR1 = [0, 0x2000, 0],
                ID_AA64MMFR0_EL1 = 0\<rparr>"

definition blank_mmu :: mmu_t where
  "blank_mmu = \<lparr>mmu_regs = \<lparr>SCTLR = [0, 0, 0, 0], TCR = [0, 0, 0, 0], TTBR0 = [0, 0, 0, 0], TTBR1 = [0, 0, 0],
                             ID_AA64MMFR0_EL1 = 0\<rparr>,
                aarch64_bit_configs = aarch64_configs, Gran0 = None, Gran1 = None\<rparr>"

theorem setup_granules_correct_witness:
  "\<exists>m. setupAddressSpaceSizesAndGranules 0 (initRegsFromQEMUObject demo_regs blank_mmu) = Inr m \<and>
       Gran0 m = Some (granule_of TG0_class 0 12 16) \<and> Gran1 m = Some (granule_of TG1_class 0 12 25)"
proof -
  have "regs_shape (mmu_regs blank_mmu)" by (simp add: regs_shape_def blank_mmu_def)
  from setup_granules_correct[OF this, of 0 demo_regs]
  show ?thesis by (simp add: demo_regs_def field_def tg0_log_def tg1_log_def)
qed

section \<open>The two address ranges\<close>

lemma unat_exp64: "k < 64 \<Longrightarrow> unat (push_bit k 1 :: address) = 2 ^ k"
proof -
  assume "k < 64"
  then have "(2::nat) ^ k < 2 ^ 64" by (rule power_strict_increasing) simp
  moreover have "(push_bit k 1 :: address) = of_nat (2 ^ k)" by (simp add: push_bit_eq_mult)
  ultimately show ?thesis by (simp only: unat_of_nat) simp
qed

lemma TG0_upper_limit_unat:
  assumes "11 \<le> T" "T \<le> 64"
  shows "\<exists>w. TG0_upper_limit T = Inr w \<and> unat w = 2 ^ (64 - T) - 1"
proof -
  have "unat (push_bit (64 - T) 1 - 1 :: address) = 2 ^ (64 - T) - 1"
    using unat_exp64[of "64 - T"] assms by (subst unat_sub) (auto simp: word_le_nat_alt)
  then show ?thesis using assms by (simp add: TG0_upper_limit_def)
qed

lemma TG1_lower_limit_unat:
  assumes "0 < T" "T \<le> 53"
  shows "\<exists>w. TG1_lower_limit T = Inr w \<and> unat w = 2 ^ 64 - 2 ^ (64 - T)"
proof -
  have le: "(2::nat) ^ (64 - T) \<le> 2 ^ 64" by (rule power_increasing) auto
  have "(- push_bit (64 - T) 1 :: address) = of_nat (2 ^ 64 - 2 ^ (64 - T))"
    using le by (simp add: of_nat_diff push_bit_eq_mult)
  moreover have "(2::nat) ^ 64 - 2 ^ (64 - T) < 2 ^ 64" by simp
  ultimately have "unat (- push_bit (64 - T) 1 :: address) = 2 ^ 64 - 2 ^ (64 - T)"
    by (simp add: unat_of_nat)
  then show ?thesis using assms by (simp add: TG1_lower_limit_def)
qed

text \<open>An address lies in the lower range when its \<open>T0\<close> most significant bits are zero, in the upper
  range when its \<open>T1\<close> most significant bits are one.\<close>

definition in_lower_range :: "nat \<Rightarrow> address \<Rightarrow> bool" where
  "in_lower_range T va \<longleftrightarrow> unat va div 2 ^ (64 - T) = 0"

definition in_upper_range :: "nat \<Rightarrow> address \<Rightarrow> bool" where
  "in_upper_range T va \<longleftrightarrow> unat va div 2 ^ (64 - T) = 2 ^ T - 1"

lemma lower_range_iff: "in_lower_range T va \<longleftrightarrow> unat va \<le> 2 ^ (64 - T) - 1"
  by (simp add: in_lower_range_def div_eq_0_iff Suc_le_eq[symmetric] le_diff_conv2 le_diff_conv)

lemma upper_range_iff:
  assumes "0 < T" "T \<le> 64"
  shows "in_upper_range T va \<longleftrightarrow> 2 ^ 64 - 2 ^ (64 - T) \<le> unat va"
proof -
  define k where "k = (2::nat) ^ (64 - T)"
  have kp: "0 < k" by (simp add: k_def)
  have e: "(2::nat) ^ 64 = 2 ^ T * k" using assms by (simp add: k_def flip: power_add)
  have lt: "unat va < 2 ^ T * k" using unsigned_less[of va] e by simp
  have "unat va div k < 2 ^ T" using lt by (simp add: less_mult_imp_div_less)
  moreover have "(2::nat) ^ T - 1 \<le> unat va div k \<longleftrightarrow> (2 ^ T - 1) * k \<le> unat va"
    using kp by (simp add: less_eq_div_iff_mult_less_eq)
  moreover have "2 ^ 64 - k = (2 ^ T - 1) * k" using e by (simp add: diff_mult_distrib)
  ultimately show ?thesis unfolding in_upper_range_def k_def[symmetric] by (metis One_nat_def Suc_pred le_antisym less_Suc_eq_le order_refl zero_less_numeral zero_less_power)
qed

text \<open>C33: The choice of the translation table. With T0SZ from 11 to 63 and T1SZ from 1 to 53, an address is sent to
  the first table base exactly when its T0SZ leading bits are zero, to the second exactly when its
  T1SZ leading bits are one, and rejected otherwise; no address satisfies both conditions, so the
  order of the two tests does not matter.\<close>
theorem checkBR0RangeForVAddr_correct:
  assumes "Gran0 m = Some g0" "granule_kind g0 = TG0_class" "11 \<le> IAddrOffset g0" "IAddrOffset g0 \<le> 63"
    and "Gran1 m = Some g1" "granule_kind g1 = TG1_class" "0 < IAddrOffset g1" "IAddrOffset g1 \<le> 53"
  shows "checkBR0RangeForVAddr va m =
      Inr (if in_lower_range (IAddrOffset g0) va then 0 else if in_upper_range (IAddrOffset g1) va then 1 else -1) \<and>
    \<not> (in_lower_range (IAddrOffset g0) va \<and> in_upper_range (IAddrOffset g1) va)"
proof -
  obtain u where u: "TG0_upper_limit (IAddrOffset g0) = Inr u" "unat u = 2 ^ (64 - IAddrOffset g0) - 1"
    using TG0_upper_limit_unat[of "IAddrOffset g0"] assms(3,4) by auto
  obtain l where l: "TG1_lower_limit (IAddrOffset g1) = Inr l" "unat l = 2 ^ 64 - 2 ^ (64 - IAddrOffset g1)"
    using TG1_lower_limit_unat[of "IAddrOffset g1"] assms(7,8) by auto
  have lo: "va \<le> u \<longleftrightarrow> in_lower_range (IAddrOffset g0) va"
    by (simp add: word_le_nat_alt u lower_range_iff)
  have hi: "l \<le> va \<longleftrightarrow> in_upper_range (IAddrOffset g1) va"
    using assms(7,8) by (simp add: word_le_nat_alt l upper_range_iff)
  have "(2::nat) ^ (64 - IAddrOffset g0) \<le> 2 ^ 53" "(2::nat) ^ (64 - IAddrOffset g1) \<le> 2 ^ 63"
    using power_increasing[of "64 - IAddrOffset g0" 53 "2::nat"] power_increasing[of "64 - IAddrOffset g1" 63 "2::nat"]
      assms(3,7) by auto
  then have "\<not> (in_lower_range (IAddrOffset g0) va \<and> in_upper_range (IAddrOffset g1) va)"
    using lower_range_iff[of "IAddrOffset g0" va] upper_range_iff[of "IAddrOffset g1" va] assms(7,8) by auto
  then show ?thesis
    using assms by (simp add: checkBR0RangeForVAddr_def deref_def GetUpperAddressRangeLimit_def
        GetLowerAddressRangeLimit_def u(1) l(1) lo hi)
qed

definition demo_mmu :: mmu_t where
  "demo_mmu = \<lparr>mmu_regs = demo_regs, aarch64_bit_configs = aarch64_configs,
     Gran0 = Some (granule_of TG0_class 0 12 16), Gran1 = Some (granule_of TG1_class 0 12 25)\<rparr>"

theorem checkBR0RangeForVAddr_correct_witness:
  "checkBR0RangeForVAddr 0x0000ffffffffffff demo_mmu = Inr 0 \<and>
   checkBR0RangeForVAddr 0x0001000000000000 demo_mmu = Inr (-1) \<and>
   checkBR0RangeForVAddr 0xffffff8000000000 demo_mmu = Inr 1"
  using checkBR0RangeForVAddr_correct[of demo_mmu "granule_of TG0_class 0 12 16" "granule_of TG1_class 0 12 25"]
  by (simp add: demo_mmu_def granule_of_def in_lower_range_def in_upper_range_def)

section \<open>The initial lookup level\<close>

text \<open>The table of initial lookup levels agrees with the architecture's rule for every granule size the
  registers can select: with a granule of \<open>2 ^ lg\<close> bytes a level resolves \<open>lg - 3\<close> address bits, and
  for T\<open>n\<close>SZ from 16 to 39 a walk of an address of \<open>64 - TnSZ\<close> bits needs the least number of levels
  that covers the bits above the page offset and ends at level 3.\<close>
theorem initial_lookup_level_correct:
  assumes "lg \<in> {12, 14, 16}" "16 \<le> T" "T \<le> 39"
  shows "granule_getInitialLookupLevel (granule_of k junk lg T) \<le> 3 \<and>
    NumBitsResolvedPerTTAccess (granule_of k junk lg T) = lg - 3 \<and>
    (let n = 4 - granule_getInitialLookupLevel (granule_of k junk lg T); bits = 64 - T - lg
     in bits \<le> n * (lg - 3) \<and> (n - 1) * (lg - 3) < bits)"
  using assms by (auto simp: granule_getInitialLookupLevel_def granule_of_def NumBitsResolvedPerTTAccess_def Let_def)

theorem initial_lookup_level_correct_witness:
  "granule_getInitialLookupLevel (granule_of TG0_class 0 14 25) = 1 \<and>
   50 - 25 \<le> (3::nat) * 11 \<and> (3 - 1) * 11 < (50 - 25 :: nat)"
  using initial_lookup_level_correct[of 14 25 TG0_class 0]
  by (simp add: granule_getInitialLookupLevel_def granule_of_def Let_def)

end
