(* ===== verification/TranslationRequest.thy ===== *)
theory TranslationRequest
  imports Flexus_Prelude
begin

text \<open>
  Translation requests (\<^verbatim>\<open>CommonQEMU/Translation.hpp\<close>), which the fetch unit and the core send to the MMU and
  which the MMU and the page walker fill in.
\<close>

section \<open>Translation requests (Translation.hpp)\<close>

datatype eTranslationType = eStore | eLoad | eFetch
datatype eTLBstatus = kTLBunresolved | kTLBmiss | kTLBhit
datatype eTLBtype = kINST | kDATA | kNONE

record Translation =
  theVaddr :: "64 word"
  thePaddr :: "64 word"
  thePSTATE :: int
  theIndex :: nat
  theType :: eTranslationType
  theTLBstatus :: eTLBstatus
  theTLBtype :: eTLBtype
  theException :: int
  theTTEEntry :: "64 word"
  theReady :: bool
  theWaiting :: bool
  theDone :: bool
  theCurrentTranslationLevel :: nat
  rawTTEValue :: "64 word"
  theID :: nat
  theAnnul :: bool
  theTimeoutCounter :: nat
  thePageFault :: bool
  trace_addresses :: "64 word list"
  inTraceMode :: bool
  theInstruction :: "nat option"   \<comment> \<open>a counted pointer, null until it is set\<close>

text \<open>The constructor initialises some members of the allocated object \<open>junk\<close>; the request takes the
  next value of the static counter \<^verbatim>\<open>translationID\<close>.\<close>

definition Translation_new :: "nat \<Rightarrow> Translation \<Rightarrow> Translation \<times> nat" where
  "Translation_new translationID junk =
     (junk\<lparr>theVaddr := 0, thePaddr := 0, theTLBstatus := kTLBunresolved, theTLBtype := kNONE, theReady := False,
           theWaiting := False, theDone := False, theCurrentTranslationLevel := 0, rawTTEValue := 0,
           theID := translationID, theAnnul := False, theTimeoutCounter := 0, thePageFault := False,
           trace_addresses := [], inTraceMode := False, theInstruction := None\<rparr>,
      (translationID + 1) mod 2 ^ 64)"

definition Translation_copy :: "Translation \<Rightarrow> Translation \<Rightarrow> Translation" where
  "Translation_copy junk aTr =
     junk\<lparr>theVaddr := theVaddr aTr, thePSTATE := thePSTATE aTr, theType := theType aTr, thePaddr := thePaddr aTr,
          theException := theException aTr, theTTEEntry := theTTEEntry aTr, theTLBstatus := theTLBstatus aTr,
          theTLBtype := theTLBtype aTr, theTimeoutCounter := theTimeoutCounter aTr, theReady := theReady aTr,
          theID := of_bool (theReady aTr), theWaiting := theReady aTr, thePageFault := thePageFault aTr,
          trace_addresses := trace_addresses aTr, inTraceMode := inTraceMode aTr, theInstruction := None\<rparr>"

definition Translation_assign :: "Translation \<Rightarrow> Translation \<Rightarrow> Translation" where
  "Translation_assign this rhs =
     this\<lparr>theVaddr := theVaddr rhs, thePSTATE := thePSTATE rhs, theType := theType rhs, thePaddr := thePaddr rhs,
          theException := theException rhs, theTTEEntry := theTTEEntry rhs, theTLBstatus := theTLBstatus rhs,
          theTLBtype := theTLBtype rhs, theTimeoutCounter := theTimeoutCounter rhs, theReady := theReady rhs,
          theID := theID rhs, theWaiting := theReady rhs, thePageFault := thePageFault rhs,
          trace_addresses := trace_addresses rhs, inTraceMode := inTraceMode rhs\<rparr>"

definition isInstr :: "Translation \<Rightarrow> bool" where
  "isInstr t \<longleftrightarrow> theTLBtype t = kINST"

definition isData :: "Translation \<Rightarrow> bool" where
  "isData t \<longleftrightarrow> theTLBtype t = kDATA"

definition setData :: "Translation \<Rightarrow> Translation" where
  "setData t = t\<lparr>theTLBtype := kDATA\<rparr>"

definition setInstr :: "Translation \<Rightarrow> Translation" where
  "setInstr t = t\<lparr>theTLBtype := kINST\<rparr>"

definition setHit :: "Translation \<Rightarrow> Translation" where
  "setHit t = t\<lparr>theTLBstatus := kTLBhit\<rparr>"

definition setMiss :: "Translation \<Rightarrow> Translation" where
  "setMiss t = t\<lparr>theTLBstatus := kTLBmiss\<rparr>"

definition setPagefault :: "Translation \<Rightarrow> Translation res" where
  "setPagefault t = bindE (dbg_assert (\<not> thePageFault t)) (\<lambda>_. Inr (t\<lparr>thePageFault := True\<rparr>))"

definition setInstruction :: "nat option \<Rightarrow> Translation \<Rightarrow> Translation" where
  "setInstruction i t = t\<lparr>theInstruction := i\<rparr>"

definition toggleWaiting :: "Translation \<Rightarrow> Translation" where
  "toggleWaiting t = t\<lparr>theWaiting := \<not> theWaiting t\<rparr>"

definition toggleReady :: "Translation \<Rightarrow> Translation" where
  "toggleReady t = t\<lparr>theReady := \<not> theReady t\<rparr>"

definition setDone :: "Translation \<Rightarrow> Translation res" where
  "setDone t = bindE (dbg_assert (\<not> theDone t)) (\<lambda>_. Inr (t\<lparr>theDone := True\<rparr>))"

definition setAnnul :: "Translation \<Rightarrow> Translation" where
  "setAnnul t = t\<lparr>theAnnul := True\<rparr>"

definition translation_tick :: "Translation \<Rightarrow> Translation res" where
  "translation_tick t =
     (let n = (theTimeoutCounter t + 1) mod 2 ^ 64 in
      bindE (dbg_assert (\<not> n > 1000)) (\<lambda>_. Inr (t\<lparr>theTimeoutCounter := n\<rparr>)))"

end
