(* ===== verification/PageWalk.thy ===== *)
theory PageWalk
  imports MMUConfig TranslationRequest
begin

text \<open>
  The hardware page walker: the per-level
  address resolvers (\<^verbatim>\<open>MMU/TTResolvers.cpp\<close>) and \<^verbatim>\<open>PageWalk\<close> (\<^verbatim>\<open>MMU/pageWalk.cpp\<close>) with both
  of its modes: \<^verbatim>\<open>push_back_trace\<close>, which completes a walk at once, and the timing mode, in which
  \<^verbatim>\<open>cycle\<close> issues one memory request per level and continues when the core has delivered the
  descriptor.

  A request is shared by pointer between the walker, the MMU and the core, so requests live in a store
  from pointers to values (\<open>heap\<close>) and queues hold pointers. The memory the emulator reads is a
  parameter. \<open>resynced\<close> records the instructions on which \<^verbatim>\<open>forceResync\<close> was called.
\<close>

unbundle bit_operations_syntax

section \<open>Address resolvers (TTResolvers.cpp)\<close>

datatype resolver_class = L0Resolver_class | L1Resolver_class | L2Resolver_class | L3Resolver_class

record TTResolver =
  resolver_kind :: resolver_class   \<comment> \<open>the dynamic type\<close>
  resolver_isBR0 :: bool
  RawTTBRReg :: address
  TTBR_LSB :: nat
  TTBR_MSB :: nat
  offset_LSB :: nat
  offset_MSB :: nat
  IAddressWidth :: nat
  PAddressWidth :: nat
  TnSz :: nat

text \<open>The base constructor; the four bit positions are set by every derived constructor.\<close>

definition TTResolver_new :: "resolver_class \<Rightarrow> bool \<Rightarrow> Granule \<Rightarrow> address \<Rightarrow> nat \<Rightarrow> TTResolver" where
  "TTResolver_new k abro aGranule aTTBR aWidth =
     \<lparr>resolver_kind = k, resolver_isBR0 = abro, RawTTBRReg = aTTBR, TTBR_LSB = 0, TTBR_MSB = 0, offset_LSB = 0,
      offset_MSB = 0, IAddressWidth = nat ((64 - int (getIAddrSize aGranule)) mod 256), PAddressWidth = aWidth,
      TnSz = IAddrOffset aGranule\<rparr>"

definition set_positions :: "nat \<Rightarrow> nat \<Rightarrow> nat \<Rightarrow> TTResolver \<Rightarrow> TTResolver" where
  "set_positions x lsb y r =
     r\<lparr>TTBR_LSB := u8 x, TTBR_MSB := nat ((int (PAddressWidth r) - 1) mod 256), offset_LSB := lsb, offset_MSB := u8 y\<rparr>"

definition L0Resolver_new :: "bool \<Rightarrow> Granule \<Rightarrow> address \<Rightarrow> nat \<Rightarrow> TTResolver res" where
  "L0Resolver_new abro aGranule aTTBR aPhysAddrWidth =
     (let r = TTResolver_new L0Resolver_class abro aGranule aTTBR aPhysAddrWidth in
      bindE (dbg_assert (TnSz r \<ge> 16 \<and> TnSz r \<le> 24)) (\<lambda>_.
      let x = 28 - TnSz r; y = x + 35 in Inr (set_positions x 39 y r)))"

definition L1Resolver_new :: "bool \<Rightarrow> Granule \<Rightarrow> address \<Rightarrow> nat \<Rightarrow> TTResolver res" where
  "L1Resolver_new abro aGranule aTTBR aPhysAddrWidth =
     (let r = TTResolver_new L1Resolver_class abro aGranule aTTBR aPhysAddrWidth;
          x = (if TnSz r \<ge> 25 \<and> TnSz r \<le> 33 then 37 - TnSz r else 12); y = x + 26
      in Inr (set_positions x 30 y r))"

definition L2Resolver_new :: "bool \<Rightarrow> Granule \<Rightarrow> address \<Rightarrow> nat \<Rightarrow> TTResolver res" where
  "L2Resolver_new abro aGranule aTTBR aPhysAddrWidth =
     (let r = TTResolver_new L2Resolver_class abro aGranule aTTBR aPhysAddrWidth;
          x = (if TnSz r \<ge> 34 \<and> TnSz r \<le> 39 then 46 - TnSz r else 12); y = x + 17
      in Inr (set_positions x 21 y r))"

definition L3Resolver_new :: "bool \<Rightarrow> Granule \<Rightarrow> address \<Rightarrow> nat \<Rightarrow> TTResolver res" where
  "L3Resolver_new abro aGranule aTTBR aPhysAddrWidth =
     Inr (set_positions 12 12 20 (TTResolver_new L3Resolver_class abro aGranule aTTBR aPhysAddrWidth))"

definition maskAndShiftInputAddress :: "TTResolver \<Rightarrow> address \<Rightarrow> address res" where
  "maskAndShiftInputAddress r anAddr =
     bindE (extractBitsWithBounds anAddr (offset_MSB r) (offset_LSB r)) (\<lambda>output. shl64 output 3)"

definition resolve :: "TTResolver \<Rightarrow> address \<Rightarrow> address res" where
  "resolve r inputAddress =
     bindE (extractBitsWithBounds (RawTTBRReg r) (TTBR_MSB r) (TTBR_LSB r)) (\<lambda>output.
     bindE (shl64 output (TTBR_LSB r)) (\<lambda>output.
     bindE (maskAndShiftInputAddress r inputAddress) (\<lambda>index.
     Inr (output OR index))))"

definition updateRawBaseRegister :: "address \<Rightarrow> TTResolver \<Rightarrow> TTResolver" where
  "updateRawBaseRegister newTTBR r = r\<lparr>RawTTBRReg := newTTBR\<rparr>"

definition L0_getBlockOutputBits :: "address \<Rightarrow> address res" where
  "L0_getBlockOutputBits raw = Inr 0"

definition L1_getBlockOutputBits :: "address \<Rightarrow> address res" where
  "L1_getBlockOutputBits raw = bindE (extractBitsWithBounds raw 47 30) (\<lambda>output. shl64 output 30)"

definition L2_getBlockOutputBits :: "address \<Rightarrow> address res" where
  "L2_getBlockOutputBits raw = bindE (extractBitsWithBounds raw 47 21) (\<lambda>output. shl64 output 21)"

definition L3_getBlockOutputBits :: "address \<Rightarrow> address res" where
  "L3_getBlockOutputBits raw = bindE (extractBitsWithBounds raw 47 12) (\<lambda>output. shl64 output 12)"

definition getBlockOutputBits :: "TTResolver \<Rightarrow> address \<Rightarrow> address res" where
  "getBlockOutputBits r raw = (case resolver_kind r of
      L0Resolver_class \<Rightarrow> L0_getBlockOutputBits raw
    | L1Resolver_class \<Rightarrow> L1_getBlockOutputBits raw
    | L2Resolver_class \<Rightarrow> L2_getBlockOutputBits raw
    | L3Resolver_class \<Rightarrow> L3_getBlockOutputBits raw)"

section \<open>The walker (TranslationState.hpp, pageWalk.cpp)\<close>

record TranslationState =
  ELRegime :: nat
  requiredTableLookups :: nat
  currentLookupLevel :: nat
  isBR0 :: bool
  granuleSize :: nat
  TTAddressResolver :: "TTResolver option"
  BlockSizeFromTTs :: nat

type_synonym transport = "nat \<times> TranslationState"

record walker =
  heap :: "nat \<Rightarrow> Translation"
  pw_MMU :: "mmu_t option"
  theTranslationTransports :: "transport list"
  theMemoryTranslations :: "nat list"
  trace_address :: address
  TheInitialized :: bool
  resynced :: "nat list"

definition upd :: "nat \<Rightarrow> Translation \<Rightarrow> walker \<Rightarrow> walker" where
  "upd p t w = w\<lparr>heap := (heap w)(p := t)\<rparr>"

definition TranslationState_new :: TranslationState where
  "TranslationState_new = \<lparr>ELRegime = 0, requiredTableLookups = 0, currentLookupLevel = 0, isBR0 = False,
     granuleSize = 0, TTAddressResolver = None, BlockSizeFromTTs = 0\<rparr>"

definition setMMU :: "mmu_t option \<Rightarrow> walker \<Rightarrow> walker" where
  "setMMU m w = w\<lparr>pw_MMU := m\<rparr>"

definition annulAll :: "walker \<Rightarrow> walker" where
  "annulAll w = (if TheInitialized w \<and> theTranslationTransports w \<noteq> [] then w\<lparr>theTranslationTransports := []\<rparr> else w)"

definition pushMemoryRequest :: "nat \<Rightarrow> walker \<Rightarrow> walker" where
  "pushMemoryRequest p w = w\<lparr>theMemoryTranslations := theMemoryTranslations w @ [p]\<rparr>"

definition popMemoryRequest :: "walker \<Rightarrow> (nat \<times> walker) res" where
  "popMemoryRequest w = (case theMemoryTranslations w of [] \<Rightarrow> Inl AssertionFailed
     | p # q \<Rightarrow> Inr (p, w\<lparr>theMemoryTranslations := q\<rparr>))"

definition hasMemoryRequest :: "walker \<Rightarrow> bool" where
  "hasMemoryRequest w \<longleftrightarrow> theMemoryTranslations w \<noteq> []"

definition preWalk :: "transport \<Rightarrow> walker \<Rightarrow> walker res" where
  "preWalk tr w = (let (p, st) = tr; t = heap w p in
     bindE (deref (TTAddressResolver st)) (\<lambda>r.
     bindE (resolve r (theVaddr t)) (\<lambda>a.
     let w = (upd p (t\<lparr>thePaddr := a\<rparr>) w)\<lparr>trace_address := a\<rparr>
     in Inr (if inTraceMode t then w else pushMemoryRequest p w))))"

definition setupTTResolver :: "TranslationState \<Rightarrow> address \<Rightarrow> walker \<Rightarrow> TranslationState res" where
  "setupTTResolver st TTDescriptor w =
     bindE (deref (pw_MMU w)) (\<lambda>m.
     bindE (getPAWidth (isBR0 st) m) (\<lambda>PAWidth.
     bindE (deref (if isBR0 st then Gran0 m else Gran1 m)) (\<lambda>g.
     bindE (if currentLookupLevel st = 0 then L0Resolver_new (isBR0 st) g TTDescriptor PAWidth
            else if currentLookupLevel st = 1 then L1Resolver_new (isBR0 st) g TTDescriptor PAWidth
            else if currentLookupLevel st = 2 then L2Resolver_new (isBR0 st) g TTDescriptor PAWidth
            else if currentLookupLevel st = 3 then L3Resolver_new (isBR0 st) g TTDescriptor PAWidth
            else Inl AssertionFailed) (\<lambda>r.
     Inr (st\<lparr>TTAddressResolver := Some r\<rparr>)))))"

definition walk_block_size :: "nat \<Rightarrow> nat res" where
  "walk_block_size level = (if level = 1 then Inr (2 ^ 30) else if level = 2 then Inr (2 ^ 21) else Inl AssertionFailed)"

definition page_offset_mask :: "nat \<Rightarrow> address" where
  "page_offset_mask sz = of_nat (nat ((int sz - 1) mod 2 ^ 32))"

definition walk :: "transport \<Rightarrow> walker \<Rightarrow> (bool \<times> transport \<times> walker) res" where
  "walk tr w = (let (p, st) = tr; t = heap w p in
     bindE (extractSingleBitAsBool (rawTTEValue t) 0) (\<lambda>validBit.
     if \<not> validBit then
       (case (isData t, theInstruction t) of
          (True, Some i) \<Rightarrow> bindE (setDone t) (\<lambda>t. Inr (False, tr, (upd p t w)\<lparr>resynced := resynced w @ [i]\<rparr>))
        | _ \<Rightarrow> bindE (setPagefault t) (\<lambda>t. bindE (setDone t) (\<lambda>t. Inr (False, tr, upd p t w))))
     else
     bindE (extractSingleBitAsBool (rawTTEValue t) 1) (\<lambda>isNextLevelTableEntry.
     if currentLookupLevel st = 3 then
       bindE (deref (TTAddressResolver st)) (\<lambda>r.
       bindE (getBlockOutputBits r (rawTTEValue t)) (\<lambda>shiftedRegionBits.
       let st = st\<lparr>BlockSizeFromTTs := 2 ^ 12\<rparr>;
           t = t\<lparr>thePaddr := shiftedRegionBits OR (theVaddr t AND page_offset_mask (granuleSize st))\<rparr>
       in bindE (setDone t) (\<lambda>t. Inr (True, (p, st), upd p t w))))
     else if isNextLevelTableEntry then
       (let st = st\<lparr>currentLookupLevel := u8 (currentLookupLevel st + 1)\<rparr> in
        bindE (setupTTResolver st (rawTTEValue t) w) (\<lambda>st. Inr (False, (p, st), w)))
     else
       bindE (deref (TTAddressResolver st)) (\<lambda>r.
       bindE (getBlockOutputBits r (rawTTEValue t)) (\<lambda>shiftedRegionBits.
       bindE (walk_block_size (currentLookupLevel st)) (\<lambda>bsize.
       let st = st\<lparr>BlockSizeFromTTs := bsize\<rparr>;
           t = t\<lparr>thePaddr := shiftedRegionBits OR (theVaddr t AND of_nat (bsize - 1))\<rparr>
       in bindE (setDone t) (\<lambda>t. Inr (True, (p, st), upd p t w))))))))"

definition InitialTranslationSetup :: "transport \<Rightarrow> walker \<Rightarrow> (bool \<times> transport) res" where
  "InitialTranslationSetup tr w = (let (p, st) = tr in
     bindE (deref (pw_MMU w)) (\<lambda>m.
     bindE (checkBR0RangeForVAddr (theVaddr (heap w p)) m) (\<lambda>br.
     if br = - 1 then Inr (False, tr)
     else
       (let st = st\<lparr>isBR0 := (br = 0)\<rparr> in
       bindE (getInitialLookupLevel (isBR0 st) m) (\<lambda>initialLevel.
       bindE (getGranuleSize (of_bool (isBR0 st)) m) (\<lambda>gsize.
       let st = st\<lparr>requiredTableLookups := u8 (4 - initialLevel), currentLookupLevel := initialLevel,
                   granuleSize := gsize, ELRegime := 1\<rparr>
       in bindE (if isBR0 st then vec_at (TTBR0 (mmu_regs m)) (ELRegime st)
                 else vec_at (TTBR1 (mmu_regs m)) (ELRegime st)) (\<lambda>initialTTBR.
          bindE (setupTTResolver st initialTTBR w) (\<lambda>st. Inr (True, (p, st)))))))))) "

definition preTranslate :: "transport \<Rightarrow> walker \<Rightarrow> walker res" where
  "preTranslate tr w = (let (p, st) = tr; t = heap w p in
     if theCurrentTranslationLevel t < requiredTableLookups st
     then preWalk tr (upd p (t\<lparr>theCurrentTranslationLevel := u8 (theCurrentTranslationLevel t + 1)\<rparr>) w)
     else Inr w)"

definition translate :: "transport \<Rightarrow> walker \<Rightarrow> (transport \<times> walker) res" where
  "translate tr w = bindE (walk tr w) (\<lambda>(_, tr, w). Inr (tr, w))"

definition push_back :: "nat \<Rightarrow> walker \<Rightarrow> (bool \<times> walker) res" where
  "push_back p w =
     bindE (InitialTranslationSetup (p, TranslationState_new) w) (\<lambda>(ok, tr).
     if \<not> ok then Inr (False, w)
     else Inr (True, w\<lparr>theTranslationTransports := theTranslationTransports w @ [tr], TheInitialized := True\<rparr>))"

text \<open>The loop of \<^verbatim>\<open>push_back_trace\<close> has no bound in the source; the model counts iterations.\<close>

fun trace_loop :: "(address \<Rightarrow> address) \<Rightarrow> nat \<Rightarrow> transport \<Rightarrow> walker \<Rightarrow> walker res" where
  "trace_loop readPhys 0 tr w = Inl OutOfFuel"
| "trace_loop readPhys (Suc fuel) tr w =
     bindE (preTranslate tr w) (\<lambda>w.
     let p = fst tr; t = heap w p;
         w = upd p (t\<lparr>rawTTEValue := readPhys (trace_address w), trace_addresses := trace_addresses t @ [trace_address w]\<rparr>) w
     in bindE (translate tr w) (\<lambda>(tr, w).
        if theDone (heap w p) then Inr w else trace_loop readPhys fuel tr w))"

definition push_back_trace :: "(address \<Rightarrow> address) \<Rightarrow> nat \<Rightarrow> nat \<Rightarrow> walker \<Rightarrow> (bool \<times> walker) res" where
  "push_back_trace readPhys fuel p w =
     bindE (InitialTranslationSetup (p, TranslationState_new) w) (\<lambda>(ok, tr).
     if \<not> ok then Inr (False, w) else bindE (trace_loop readPhys fuel tr w) (\<lambda>w. Inr (True, w)))"

definition cycle :: "walker \<Rightarrow> walker res" where
  "cycle w = (case theTranslationTransports w of [] \<Rightarrow> Inr w
   | (p, st) # rest \<Rightarrow>
     bindE (translation_tick (heap w p)) (\<lambda>t.
     let w = upd p t w in
     if theDone t then Inr (w\<lparr>theTranslationTransports := rest\<rparr>)
     else if theReady t then
       (if \<not> theWaiting t then
          bindE (preTranslate (p, st) w) (\<lambda>w.
          let w = upd p (toggleReady (heap w p)) w in
          if theDone (heap w p) then Inr w
          else Inr (upd p (toggleWaiting (heap w p)) w))
        else
          bindE (translate (p, st) w) (\<lambda>(tr, w).
          Inr (upd p (toggleWaiting (heap w p)) (w\<lparr>theTranslationTransports := tr # rest\<rparr>))))
     else Inr w))"

text \<open>The core's side of a walk request (\<^verbatim>\<open>CoreImpl::complete\<close>): the descriptor read from memory is stored
  in the request, which becomes ready again.\<close>

definition memory_reply :: "address \<Rightarrow> nat \<Rightarrow> walker \<Rightarrow> walker" where
  "memory_reply val p w = upd p (toggleReady ((heap w p)\<lparr>rawTTEValue := val\<rparr>)) w"


section \<open>Arithmetic of table and output addresses\<close>

lemma unat_or_disjoint: "x AND y = 0 \<Longrightarrow> unat (x OR y) = unat x + unat y"
proof -
  assume "x AND y = 0"
  then have "unat x AND unat y = 0" by (metis unsigned_and_eq unsigned_0)
  then have "unat x + unat y = unat x OR unat y" by (rule disjunctive_add_eq_or)
  then show ?thesis by (simp add: unsigned_or_eq)
qed

lemma unat_shifted_field:
  fixes x :: address
  assumes "k + n \<le> 64"
  shows "unat (push_bit k (take_bit n (drop_bit l x))) = field (unat x) l n * 2 ^ k"
proof -
  have "field (unat x) l n * 2 ^ k < 2 ^ n * 2 ^ k" using field_less[of "unat x" l n] by simp
  also have "\<dots> \<le> 2 ^ 64" using assms power_increasing[of "n + k" 64 "2::nat"] by (simp add: power_add)
  finally have lt: "field (unat x) l n * 2 ^ k < 2 ^ LENGTH(64)" by simp
  have "unat (push_bit k (take_bit n (drop_bit l x))) = take_bit LENGTH(64) (push_bit k (field (unat x) l n))"
    by (simp only: unsigned_push_bit_eq unat_field)
  then show ?thesis using lt by (simp add: push_bit_eq_mult take_bit_nat_eq_self)
qed

lemma shifted_fields_disjoint:
  fixes x y :: address
  assumes "m + j \<le> k"
  shows "push_bit k (take_bit n (drop_bit l x)) AND push_bit j (take_bit m (drop_bit i y)) = 0"
  using assms by (auto intro!: bit_eqI simp: bit_simps)

lemma offset_mask:
  fixes v :: address
  assumes "k < 64"
  shows "v AND of_nat (2 ^ k - 1) = take_bit k v"
  using assms by (simp add: take_bit_eq_mask mask_eq_exp_minus_1 of_nat_diff)

lemma unat_block_or_offset:
  fixes x v :: address
  assumes "k + n \<le> 64"
  shows "unat (push_bit k (take_bit n (drop_bit l x)) OR take_bit k v) = field (unat x) l n * 2 ^ k + unat v mod 2 ^ k"
proof -
  have "push_bit k (take_bit n (drop_bit l x)) AND take_bit k v = 0"
    using shifted_fields_disjoint[of k 0 k n l x 0 v] by simp
  moreover have "unat (take_bit k v) = unat v mod 2 ^ k"
    using unat_field[of k 0 v] by (simp add: field_def)
  ultimately show ?thesis by (simp add: unat_or_disjoint unat_shifted_field[OF assms])
qed

text \<open>The address of the descriptor that translates \<open>va\<close> at a level: the table base, aligned to the size of
  a table of \<open>2 ^ w\<close> descriptors, plus eight bytes per index.\<close>

definition descriptor_address :: "nat \<Rightarrow> nat \<Rightarrow> nat \<Rightarrow> nat \<Rightarrow> nat" where
  "descriptor_address lsb w base va = field base (w + 3) (45 - w) * 2 ^ (w + 3) + 8 * field va lsb w"

section \<open>The contract of a lookup level\<close>

text \<open>
  What the walker relies on at each level: for the admissible values of T\<open>n\<close>SZ the constructor succeeds and
  places the table index at bit \<open>lsb\<close> with \<open>wd T\<close> bits. Levels 1 to 3 moreover may end a walk, with an
  output address whose low \<open>lsb\<close> bits are free for the offset.
\<close>

locale table_level =
  fixes mk :: "bool \<Rightarrow> Granule \<Rightarrow> address \<Rightarrow> nat \<Rightarrow> TTResolver res"
    and lsb :: nat and wd :: "nat \<Rightarrow> nat" and admits :: "nat \<Rightarrow> bool"
  assumes lsb_bound: "lsb \<le> 39"
    and wd_bound: "admits T \<Longrightarrow> 0 < wd T \<and> wd T \<le> 9"
    and mk_positions: "admits (IAddrOffset g) \<Longrightarrow> \<exists>r. mk b g ttbr 48 = Inr r \<and> RawTTBRReg r = ttbr \<and>
      TTBR_LSB r = wd (IAddrOffset g) + 3 \<and> TTBR_MSB r = 47 \<and>
      offset_LSB r = lsb \<and> offset_MSB r = lsb + wd (IAddrOffset g) - 1"
begin

lemma resolve_address:
  assumes "admits (IAddrOffset g)"
  shows "\<exists>r a. mk b g ttbr 48 = Inr r \<and> resolve r va = Inr a \<and>
    unat a = descriptor_address lsb (wd (IAddrOffset g)) (unat ttbr) (unat va)"
proof -
  define w where "w = wd (IAddrOffset g)"
  have w: "0 < w" "w \<le> 9" using wd_bound[OF assms] by (simp_all add: w_def)
  obtain r where r: "mk b g ttbr 48 = Inr r" "RawTTBRReg r = ttbr" "TTBR_LSB r = w + 3" "TTBR_MSB r = 47"
      "offset_LSB r = lsb" "offset_MSB r = lsb + w - 1"
    using mk_positions[OF assms, of b ttbr] by (auto simp: w_def)
  have e1: "extractBitsWithBounds ttbr 47 (w + 3) = Inr (take_bit (45 - w) (drop_bit (w + 3) ttbr))"
    using w by (intro extractBitsWithBounds_width) auto
  have e2: "extractBitsWithBounds va (lsb + w - 1) lsb = Inr (take_bit w (drop_bit lsb va))"
    using w lsb_bound by (intro extractBitsWithBounds_width) auto
  define a where "a = push_bit (w + 3) (take_bit (45 - w) (drop_bit (w + 3) ttbr)) OR push_bit 3 (take_bit w (drop_bit lsb va))"
  have "resolve r va = Inr a"
    using w by (simp add: resolve_def maskAndShiftInputAddress_def r e1 e2[simplified] shl64_def a_def)
  moreover have "unat a = descriptor_address lsb w (unat ttbr) (unat va)"
    using w shifted_fields_disjoint[of w 3 "w + 3" "45 - w" "w + 3" ttbr lsb va]
    by (simp only: a_def unat_or_disjoint) (simp add: unat_shifted_field descriptor_address_def)
  ultimately show ?thesis using r(1) by (auto simp: w_def)
qed

end

locale block_level = table_level +
  fixes out :: "address \<Rightarrow> address res"
  assumes lsb_pos: "0 < lsb"
    and out_bits: "out raw = bindE (extractBitsWithBounds raw 47 lsb) (\<lambda>b. shl64 b lsb)"
begin

lemma output_address:
  "\<exists>bits. out raw = Inr bits \<and>
     unat (bits OR (va AND of_nat (2 ^ lsb - 1))) = field (unat raw) lsb (48 - lsb) * 2 ^ lsb + unat va mod 2 ^ lsb"
proof -
  have "extractBitsWithBounds raw 47 lsb = Inr (take_bit (48 - lsb) (drop_bit lsb raw))"
    using lsb_bound lsb_pos by (intro extractBitsWithBounds_width) auto
  moreover have "va AND of_nat (2 ^ lsb - 1) = take_bit lsb va" using lsb_bound by (intro offset_mask) simp
  ultimately show ?thesis
    using lsb_bound unat_block_or_offset[of lsb "48 - lsb" lsb raw va] by (simp only: out_bits) (simp add: shl64_def)
qed

end

lemmas resolver_simps = L0Resolver_new_def L1Resolver_new_def L2Resolver_new_def L3Resolver_new_def
  TTResolver_new_def set_positions_def

interpretation lv0: table_level L0Resolver_new 39 "\<lambda>T. 25 - T" "\<lambda>T. 16 \<le> T \<and> T \<le> 24"
  by unfold_locales (auto simp: resolver_simps dbg_assert_def Let_def)

interpretation lv1: block_level L1Resolver_new 30 "\<lambda>T. if 25 \<le> T then 34 - T else 9" "\<lambda>T. T \<le> 33" L1_getBlockOutputBits
  by unfold_locales (auto simp: resolver_simps Let_def L1_getBlockOutputBits_def)

interpretation lv2: block_level L2Resolver_new 21 "\<lambda>T. if 34 \<le> T then 43 - T else 9" "\<lambda>T. T \<le> 39" L2_getBlockOutputBits
  by unfold_locales (auto simp: resolver_simps Let_def L2_getBlockOutputBits_def)

interpretation lv3: block_level L3Resolver_new 12 "\<lambda>_. 9" "\<lambda>_. True" L3_getBlockOutputBits
  by unfold_locales (auto simp: resolver_simps L3_getBlockOutputBits_def)


section \<open>The reference walk\<close>

text \<open>
  The reference: the table walk of the 4KB granule in plain arithmetic, by the two low bits of a descriptor. A descriptor
  whose bit 0 is clear is invalid; 11 is a table, and at the last level a page; 01 is a block of levels 1 and 2, and is
  reserved at level 0 and at level 3, where the architecture treats it as invalid. \<open>n\<close> is the number of levels below the
  current one, so the current level resolves \<open>w\<close> bits from bit \<open>12 + 9 * n\<close>. The result is the list of descriptor
  addresses read and the outcome, with the level of a reserved descriptor. The attributes of a descriptor (access flag, permissions),
  which the program does not look at, are not part of the reference.
\<close>

datatype walk_outcome = Mapped nat | Faulted | Reserved nat

fun arm_walk :: "(nat \<Rightarrow> nat) \<Rightarrow> nat \<Rightarrow> nat \<Rightarrow> nat \<Rightarrow> nat \<Rightarrow> nat list \<times> walk_outcome" where
  "arm_walk mem va n w base =
     (let lsb = 12 + 9 * n; a = descriptor_address lsb w base va; d = mem a in
      if even d then ([a], Faulted)
      else if odd (d div 2) then
        (if n = 0 then ([a], Mapped (field d 12 36 * 2 ^ 12 + va mod 2 ^ 12))
         else (let (as, out) = arm_walk mem va (n - 1) 9 d in (a # as, out)))
      else if n = 0 \<or> n = 3 then ([a], Reserved (3 - n))
      else ([a], Mapped (field d lsb (48 - lsb) * 2 ^ lsb + va mod 2 ^ lsb)))"

declare arm_walk.simps [simp del]

definition mem_nat :: "(address \<Rightarrow> address) \<Rightarrow> nat \<Rightarrow> nat" where
  "mem_nat rd a = unat (rd (of_nat a))"

lemma mem_nat_unat [simp]: "mem_nat rd (unat a) = unat (rd a)"
  by (simp add: mem_nat_def)

section \<open>Walker states that sit at a level\<close>

definition level_resolver :: "nat \<Rightarrow> bool \<Rightarrow> Granule \<Rightarrow> address \<Rightarrow> nat \<Rightarrow> TTResolver res" where
  "level_resolver n = (if n = 0 then L3Resolver_new else if n = 1 then L2Resolver_new
     else if n = 2 then L1Resolver_new else L0Resolver_new)"

definition level_width :: "nat \<Rightarrow> nat \<Rightarrow> nat" where
  "level_width T n = (if n = 3 then 25 - T else if n = 2 then (if 25 \<le> T then 34 - T else 9)
     else if n = 1 then (if 34 \<le> T then 43 - T else 9) else 9)"

definition level_admits :: "nat \<Rightarrow> nat \<Rightarrow> bool" where
  "level_admits n T \<longleftrightarrow> n = 0 \<and> T \<le> 39 \<or> n = 1 \<and> T \<le> 39 \<or> n = 2 \<and> T \<le> 33 \<or> n = 3 \<and> 16 \<le> T \<and> T \<le> 24"

definition at_level :: "mmu_t \<Rightarrow> nat \<Rightarrow> nat \<Rightarrow> address \<Rightarrow> TranslationState \<Rightarrow> bool" where
  "at_level m T n base st \<longleftrightarrow> level_admits n T \<and> currentLookupLevel st = 3 - n \<and> granuleSize st = 4096 \<and>
     (\<exists>g r. (if isBR0 st then Gran0 m else Gran1 m) = Some g \<and> IAddrOffset g = T \<and> PAddrWidth g = 48 \<and>
        level_resolver n (isBR0 st) g base 48 = Inr r \<and> TTAddressResolver st = Some r)"

lemma level_cases:
  assumes "level_admits n T"
  obtains "n = 0" | "n = 1" | "n = 2" | "n = 3"
  using assms by (auto simp: level_admits_def)

lemma level_admits_pred:
  "level_admits (Suc n) T \<Longrightarrow> level_admits n T \<and> level_width T n = 9"
  by (auto simp: level_admits_def level_width_def)

lemma level_resolve:
  assumes "level_admits n (IAddrOffset g)"
  shows "\<exists>r a. level_resolver n b g base 48 = Inr r \<and> resolve r va = Inr a \<and>
     unat a = descriptor_address (12 + 9 * n) (level_width (IAddrOffset g) n) (unat base) (unat va)"
  using assms
proof (cases rule: level_cases)
  case 1 then show ?thesis
    using lv3.resolve_address[where g = g and b = b and ttbr = base and va = va] by (simp add: level_resolver_def level_width_def)
next
  case 2 then show ?thesis
    using lv2.resolve_address[where g = g and b = b and ttbr = base and va = va] assms by (simp add: level_resolver_def level_width_def level_admits_def)
next
  case 3 then show ?thesis
    using lv1.resolve_address[where g = g and b = b and ttbr = base and va = va] assms by (simp add: level_resolver_def level_width_def level_admits_def)
next
  case 4 then show ?thesis
    using lv0.resolve_address[where g = g and b = b and ttbr = base and va = va] assms by (simp add: level_resolver_def level_width_def level_admits_def)
qed

lemma level_kind:
  assumes "level_resolver n b g base pw = Inr r"
  shows "resolver_kind r = (if n = 0 then L3Resolver_class else if n = 1 then L2Resolver_class
     else if n = 2 then L1Resolver_class else L0Resolver_class)"
  using assms by (auto simp: level_resolver_def resolver_simps Let_def dbg_assert_def split: if_splits)

lemma level_output:
  assumes "level_resolver n b g base pw = Inr r" "n < 3"
  shows "\<exists>bits. getBlockOutputBits r raw = Inr bits \<and>
    unat (bits OR (va AND of_nat (2 ^ (12 + 9 * n) - 1))) =
      field (unat raw) (12 + 9 * n) (48 - (12 + 9 * n)) * 2 ^ (12 + 9 * n) + unat va mod 2 ^ (12 + 9 * n)"
proof -
  consider "n = 0" | "n = 1" | "n = 2" using assms(2) by linarith
  then show ?thesis
    using lv1.output_address[of raw va] lv2.output_address[of raw va] lv3.output_address[of raw va] level_kind[OF assms(1)]
    by cases (simp_all add: getBlockOutputBits_def)
qed


section \<open>One lookup\<close>

lemma upd_simps [simp]:
  "heap (upd p t w) = (heap w)(p := t)" "pw_MMU (upd p t w) = pw_MMU w" "trace_address (upd p t w) = trace_address w"
  "theTranslationTransports (upd p t w) = theTranslationTransports w"
  "theMemoryTranslations (upd p t w) = theMemoryTranslations w" "TheInitialized (upd p t w) = TheInitialized w"
  "resynced (upd p t w) = resynced w" "upd p t (upd p u w) = upd p t w"
  "upd p t (w\<lparr>trace_address := a\<rparr>) = (upd p t w)\<lparr>trace_address := a\<rparr>"
  by (simp_all add: upd_def)

lemma descriptor_bits:
  fixes x :: address
  shows "bit x 0 \<longleftrightarrow> odd (unat x)" "bit x (Suc 0) \<longleftrightarrow> odd (unat x div 2)"
proof -
  have "bit (unat x) n \<longleftrightarrow> bit x n" if "n < 64" for n
    using that by (simp add: bit_unsigned_iff)
  from this[of 0] this[of "Suc 0"] show "bit x 0 \<longleftrightarrow> odd (unat x)" "bit x (Suc 0) \<longleftrightarrow> odd (unat x div 2)"
    by (simp_all add: bit_0 bit_Suc)
qed

definition requested :: "nat \<Rightarrow> address \<Rightarrow> walker \<Rightarrow> walker" where
  "requested p a w =
     (let t = heap w p;
          w1 = (upd p (t\<lparr>theCurrentTranslationLevel := theCurrentTranslationLevel t + 1, thePaddr := a\<rparr>) w)\<lparr>trace_address := a\<rparr>
      in if inTraceMode t then w1 else pushMemoryRequest p w1)"

lemma preTranslate_step:
  assumes "at_level m T n base st" "theCurrentTranslationLevel (heap w p) < requiredTableLookups st"
    "requiredTableLookups st \<le> 4"
  shows "\<exists>a. preTranslate (p, st) w = Inr (requested p a w) \<and>
    unat a = descriptor_address (12 + 9 * n) (level_width T n) (unat base) (unat (theVaddr (heap w p)))"
proof -
  obtain g r where g: "(if isBR0 st then Gran0 m else Gran1 m) = Some g" "IAddrOffset g = T" "PAddrWidth g = 48"
      "level_resolver n (isBR0 st) g base 48 = Inr r" "TTAddressResolver st = Some r" "level_admits n T"
    using assms(1) by (auto simp: at_level_def)
  obtain a where a: "resolve r (theVaddr (heap w p)) = Inr a"
      "unat a = descriptor_address (12 + 9 * n) (level_width T n) (unat base) (unat (theVaddr (heap w p)))"
    using level_resolve[of n g "isBR0 st" base "theVaddr (heap w p)"] g by auto
  have "preTranslate (p, st) w = Inr (requested p a w)"
    using assms(2,3) a g(5) by (simp add: preTranslate_def preWalk_def requested_def deref_def Let_def)
  then show ?thesis using a(2) by blast
qed

definition faulted :: "nat \<Rightarrow> walker \<Rightarrow> walker" where
  "faulted p w = (let t = heap w p in
     case (isData t, theInstruction t) of
       (True, Some i) \<Rightarrow> (upd p (t\<lparr>theDone := True\<rparr>) w)\<lparr>resynced := resynced w @ [i]\<rparr>
     | _ \<Rightarrow> upd p (t\<lparr>thePageFault := True, theDone := True\<rparr>) w)"

definition mapped :: "nat \<Rightarrow> address \<Rightarrow> walker \<Rightarrow> walker" where
  "mapped p pa w = upd p ((heap w p)\<lparr>thePaddr := pa, theDone := True\<rparr>) w"

lemma walk_invalid:
  assumes "even (unat (rawTTEValue (heap w p)))" "\<not> theDone (heap w p)" "\<not> thePageFault (heap w p)"
  shows "walk (p, st) w = Inr (False, (p, st), faulted p w)"
  using assms
  by (simp add: walk_def Let_def descriptor_bits faulted_def setDone_def setPagefault_def dbg_assert_def
      split: option.split bool.split)

lemma walk_table:
  assumes "odd (unat (rawTTEValue (heap w p)))" "odd (unat (rawTTEValue (heap w p)) div 2)"
    and "at_level m T (Suc n) base st" "pw_MMU w = Some m"
  shows "\<exists>st'. walk (p, st) w = Inr (False, (p, st'), w) \<and> at_level m T n (rawTTEValue (heap w p)) st' \<and>
    requiredTableLookups st' = requiredTableLookups st"
proof -
  obtain g where g: "(if isBR0 st then Gran0 m else Gran1 m) = Some g" "IAddrOffset g = T" "PAddrWidth g = 48"
    and lv: "level_admits (Suc n) T" "currentLookupLevel st = 3 - Suc n" "granuleSize st = 4096"
    using assms(3) by (auto simp: at_level_def)
  have n: "level_admits n T" using level_admits_pred[OF lv(1)] by simp
  obtain r where r: "level_resolver n (isBR0 st) g (rawTTEValue (heap w p)) 48 = Inr r"
    using level_resolve[of n g] n g(2) by blast
  define st' where "st' = st\<lparr>currentLookupLevel := 3 - n, TTAddressResolver := Some r\<rparr>"
  have lt: "n < 3" using lv(1) by (auto simp: level_admits_def)
  have "setupTTResolver (st\<lparr>currentLookupLevel := 3 - n\<rparr>) (rawTTEValue (heap w p)) w = Inr st'"
    using r g assms(4) lt by (auto simp: setupTTResolver_def getPAWidth_def deref_def level_resolver_def st'_def
        numeral_eq_Suc less_Suc_eq split: if_splits)
  moreover have "(3 - Suc n + 1) mod 256 = 3 - n" "3 - Suc n \<noteq> 3" using lt by auto
  ultimately have "walk (p, st) w = Inr (False, (p, st'), w)"
    using assms(1,2) lv(2) by (simp add: walk_def descriptor_bits Let_def)
  moreover have "at_level m T n (rawTTEValue (heap w p)) st'"
    using n g r lv(3) by (simp add: at_level_def st'_def)
  ultimately show ?thesis by (auto simp: st'_def)
qed

lemma walk_leaf:
  assumes "odd (unat (rawTTEValue (heap w p)))" "n = 0 \<or> even (unat (rawTTEValue (heap w p)) div 2)" "n < 3"
    and "at_level m T n base st" "\<not> theDone (heap w p)"
  shows "\<exists>st' pa. walk (p, st) w = Inr (True, (p, st'), mapped p pa w) \<and>
    unat pa = field (unat (rawTTEValue (heap w p))) (12 + 9 * n) (48 - (12 + 9 * n)) * 2 ^ (12 + 9 * n)
              + unat (theVaddr (heap w p)) mod 2 ^ (12 + 9 * n)"
proof -
  obtain g r where g: "level_resolver n (isBR0 st) g base 48 = Inr r" "TTAddressResolver st = Some r"
      "currentLookupLevel st = 3 - n" "granuleSize st = 4096"
    using assms(4) by (auto simp: at_level_def)
  define off :: address where "off = of_nat (2 ^ (12 + 9 * n) - 1)"
  obtain bits where b: "getBlockOutputBits r (rawTTEValue (heap w p)) = Inr bits"
      "unat (bits OR (theVaddr (heap w p) AND off)) =
         field (unat (rawTTEValue (heap w p))) (12 + 9 * n) (48 - (12 + 9 * n)) * 2 ^ (12 + 9 * n)
           + unat (theVaddr (heap w p)) mod 2 ^ (12 + 9 * n)"
    using level_output[OF g(1) assms(3), of "rawTTEValue (heap w p)" "theVaddr (heap w p)"] unfolding off_def by blast
  consider "n = 0" | "n = 1" | "n = 2" using assms(3) by linarith
  then have "\<exists>st'. walk (p, st) w = Inr (True, (p, st'), mapped p (bits OR (theVaddr (heap w p) AND off)) w)"
    using assms(1,2,5) b(1) g
    by cases (simp_all add: walk_def descriptor_bits deref_def setDone_def dbg_assert_def mapped_def off_def
        page_offset_mask_def walk_block_size_def Let_def)
  then show ?thesis using b(2) by blast
qed

lemma walk_reserved:
  assumes "odd (unat (rawTTEValue (heap w p)))" "even (unat (rawTTEValue (heap w p)) div 2)"
    and "at_level m T 3 base st"
  shows "walk (p, st) w = Inl AssertionFailed"
proof -
  obtain g r where g: "level_resolver 3 (isBR0 st) g base 48 = Inr r" "TTAddressResolver st = Some r"
      "currentLookupLevel st = 0"
    using assms(3) by (auto simp: at_level_def)
  have "getBlockOutputBits r x = Inr 0" for x
    using level_kind[OF g(1)] by (simp add: getBlockOutputBits_def L0_getBlockOutputBits_def)
  then show ?thesis using assms(1,2) g
    by (simp add: walk_def descriptor_bits deref_def walk_block_size_def Let_def)
qed


section \<open>The trace walk\<close>

text \<open>What a completed trace walk leaves behind, by the outcome of the reference. A reserved descriptor of level 3 is not
  refused: the walk ends as if it were a page.\<close>

definition fault_effect :: "walker \<Rightarrow> nat \<Rightarrow> walker \<Rightarrow> bool" where
  "fault_effect w p w' = (case (isData (heap w p), theInstruction (heap w p)) of
      (True, Some i) \<Rightarrow> \<not> thePageFault (heap w' p) \<and> resynced w' = resynced w @ [i]
    | _ \<Rightarrow> thePageFault (heap w' p) \<and> resynced w' = resynced w)"

definition trace_result :: "walker \<Rightarrow> nat \<Rightarrow> nat list \<Rightarrow> walk_outcome \<Rightarrow> walker res \<Rightarrow> bool" where
  "trace_result w p as out res = (case res of
      Inl e \<Rightarrow> out = Reserved 0 \<and> e = AssertionFailed
    | Inr w' \<Rightarrow> theDone (heap w' p) \<and> theVaddr (heap w' p) = theVaddr (heap w p) \<and>
        map unat (trace_addresses (heap w' p)) = map unat (trace_addresses (heap w p)) @ as \<and>
        theTranslationTransports w' = theTranslationTransports w \<and> theMemoryTranslations w' = theMemoryTranslations w \<and>
        (case out of Mapped pa \<Rightarrow> unat (thePaddr (heap w' p)) = pa \<and> \<not> thePageFault (heap w' p) \<and> resynced w' = resynced w
         | Faulted \<Rightarrow> fault_effect w p w'
         | Reserved l \<Rightarrow> l = 3 \<and> \<not> thePageFault (heap w' p) \<and> resynced w' = resynced w))"

definition fetched :: "(address \<Rightarrow> address) \<Rightarrow> nat \<Rightarrow> address \<Rightarrow> walker \<Rightarrow> walker" where
  "fetched rd p a w = (let w1 = requested p a w; t = heap w1 p in
     upd p (t\<lparr>rawTTEValue := rd a, trace_addresses := trace_addresses t @ [a]\<rparr>) w1)"

lemma fetched_simps:
  assumes "inTraceMode (heap w p)"
  shows "heap (fetched rd p a w) p =
      (heap w p)\<lparr>theCurrentTranslationLevel := theCurrentTranslationLevel (heap w p) + 1, thePaddr := a,
                rawTTEValue := rd a, trace_addresses := trace_addresses (heap w p) @ [a]\<rparr>"
    "pw_MMU (fetched rd p a w) = pw_MMU w" "theTranslationTransports (fetched rd p a w) = theTranslationTransports w"
    "theMemoryTranslations (fetched rd p a w) = theMemoryTranslations w" "resynced (fetched rd p a w) = resynced w"
  using assms by (simp_all add: fetched_def requested_def Let_def)

lemma trace_loop_step:
  assumes "at_level m T n base st" "theCurrentTranslationLevel (heap w p) < requiredTableLookups st"
    "requiredTableLookups st \<le> 4" "inTraceMode (heap w p)"
  shows "\<exists>a. unat a = descriptor_address (12 + 9 * n) (level_width T n) (unat base) (unat (theVaddr (heap w p))) \<and>
    trace_loop rd (Suc fuel) (p, st) w =
      bindE (walk (p, st) (fetched rd p a w)) (\<lambda>(_, tr, w).
        if theDone (heap w p) then Inr w else trace_loop rd fuel tr w)"
proof -
  obtain a where a: "preTranslate (p, st) w = Inr (requested p a w)"
      "unat a = descriptor_address (12 + 9 * n) (level_width T n) (unat base) (unat (theVaddr (heap w p)))"
    using preTranslate_step[OF assms(1-3)] by blast
  have "trace_address (requested p a w) = a" using assms(4) by (simp add: requested_def Let_def)
  then have "trace_loop rd (Suc fuel) (p, st) w =
      bindE (walk (p, st) (fetched rd p a w)) (\<lambda>(_, tr, w).
        if theDone (heap w p) then Inr w else trace_loop rd fuel tr w)"
    using a(1) by (simp add: translate_def fetched_def Let_def bindE_def split: sum.split prod.split)
  then show ?thesis using a(2) by blast
qed

lemma trace_step_invalid:
  assumes "inTraceMode (heap w p)" "\<not> theDone (heap w p)" "\<not> thePageFault (heap w p)" "even (unat (rd a))"
  shows "trace_result w p [unat a] Faulted
    (bindE (walk (p, st) (fetched rd p a w)) (\<lambda>(_, tr, w). if theDone (heap w p) then Inr w else k tr w))"
proof -
  note fs = fetched_simps[OF assms(1), of rd a]
  have "walk (p, st) (fetched rd p a w) = Inr (False, (p, st), faulted p (fetched rd p a w))"
    using assms fs by (intro walk_invalid) simp_all
  then show ?thesis using assms fs
    by (simp add: trace_result_def faulted_def fault_effect_def Let_def isData_def split: option.split bool.split)
qed

lemma trace_step_leaf:
  assumes "inTraceMode (heap w p)" "\<not> theDone (heap w p)" "\<not> thePageFault (heap w p)" "odd (unat (rd a))"
    "n = 0 \<or> even (unat (rd a) div 2)" "n < 3" "at_level m T n base st"
  shows "trace_result w p [unat a]
      (Mapped (field (unat (rd a)) (12 + 9 * n) (48 - (12 + 9 * n)) * 2 ^ (12 + 9 * n)
               + unat (theVaddr (heap w p)) mod 2 ^ (12 + 9 * n)))
    (bindE (walk (p, st) (fetched rd p a w)) (\<lambda>(_, tr, w). if theDone (heap w p) then Inr w else k tr w))"
proof -
  note fs = fetched_simps[OF assms(1), of rd a]
  obtain st' pa where "walk (p, st) (fetched rd p a w) = Inr (True, (p, st'), mapped p pa (fetched rd p a w))"
    "unat pa = field (unat (rd a)) (12 + 9 * n) (48 - (12 + 9 * n)) * 2 ^ (12 + 9 * n)
       + unat (theVaddr (heap w p)) mod 2 ^ (12 + 9 * n)"
    using walk_leaf[of "fetched rd p a w" p n m T base st] assms fs by auto
  then show ?thesis using assms fs by (simp add: trace_result_def mapped_def)
qed

lemma trace_step_table:
  assumes "inTraceMode (heap w p)" "trace_result (fetched rd p a w) p bs out res"
  shows "trace_result w p (unat a # bs) out res"
proof -
  note fs = fetched_simps[OF assms(1), of rd a]
  have "fault_effect (fetched rd p a w) p = fault_effect w p"
    by (rule ext) (simp add: fault_effect_def isData_def fs split: option.split bool.split)
  then show ?thesis using assms(2) fs
    by (simp add: trace_result_def split: sum.splits walk_outcome.splits)
qed

lemma arm_walk_step:
  assumes "arm_walk (mem_nat rd) va n w base = (as, out)" "unat a = descriptor_address (12 + 9 * n) w base va" "n \<le> 3"
  obtains (fault) "even (unat (rd a))" "as = [unat a]" "out = Faulted"
  | (leaf) "odd (unat (rd a))" "n = 0 \<or> even (unat (rd a) div 2)" "n < 3" "as = [unat a]"
      "out = Mapped (field (unat (rd a)) (12 + 9 * n) (48 - (12 + 9 * n)) * 2 ^ (12 + 9 * n) + va mod 2 ^ (12 + 9 * n))"
  | (descend) n' bs where "odd (unat (rd a))" "odd (unat (rd a) div 2)" "n = Suc n'" "as = unat a # bs"
      "arm_walk (mem_nat rd) va n' 9 (unat (rd a)) = (bs, out)"
  | (rsvd) "odd (unat (rd a))" "even (unat (rd a) div 2)" "n = 3" "out = Reserved 0"
  | (page_rsvd) "odd (unat (rd a))" "n = 0" "as = [unat a]" "out = Reserved 3"
proof -
  have m: "mem_nat rd (descriptor_address (12 + 9 * n) w base va) = unat (rd a)"
    by (simp flip: assms(2))
  have eq: "(as, out) = (if even (unat (rd a)) then ([unat a], Faulted)
      else if odd (unat (rd a) div 2) then
        (if n = 0 then ([unat a], Mapped (field (unat (rd a)) 12 36 * 2 ^ 12 + va mod 2 ^ 12))
         else (let (as, out) = arm_walk (mem_nat rd) va (n - 1) 9 (unat (rd a)) in (unat a # as, out)))
      else if n = 0 \<or> n = 3 then ([unat a], Reserved (3 - n))
      else ([unat a], Mapped (field (unat (rd a)) (12 + 9 * n) (48 - (12 + 9 * n)) * 2 ^ (12 + 9 * n) + va mod 2 ^ (12 + 9 * n))))"
    using assms(1) unfolding arm_walk.simps[of "mem_nat rd" va n w base] Let_def m unfolding assms(2)[symmetric] by simp
  consider "even (unat (rd a))" | "odd (unat (rd a))" "n = 0" "odd (unat (rd a) div 2)" | "odd (unat (rd a))" "n = 0" "even (unat (rd a) div 2)"
    | "odd (unat (rd a))" "n \<noteq> 0" "odd (unat (rd a) div 2)"
    | "odd (unat (rd a))" "n \<noteq> 0" "even (unat (rd a) div 2)" "n = 3"
    | "odd (unat (rd a))" "n \<noteq> 0" "even (unat (rd a) div 2)" "n \<noteq> 3" by blast
  then show thesis
  proof cases
    case 1 then show thesis using eq fault by simp
  next
    case 2 then show thesis using eq leaf by simp
  next
    case 3 then show thesis using eq page_rsvd by simp
  next
    case 4
    obtain bs o' where b: "arm_walk (mem_nat rd) va (n - 1) 9 (unat (rd a)) = (bs, o')" by fastforce
    then show thesis using eq 4 descend[of "n - 1" bs] by simp
  next
    case 5 then show thesis using eq rsvd by simp
  next
    case 6 then show thesis using eq leaf assms(3) by simp
  qed
qed

text \<open>The walk of a reserved last-level descriptor ends as that of a page does.\<close>

lemma page_result:
  "trace_result w p as (Mapped pa) res \<Longrightarrow> trace_result w p as (Reserved 3) res"
  by (auto simp: trace_result_def split: sum.splits)

lemma trace_loop_correct:
  assumes "at_level m T n base st" "pw_MMU w = Some m" "inTraceMode (heap w p)" "\<not> theDone (heap w p)"
    "\<not> thePageFault (heap w p)" "theCurrentTranslationLevel (heap w p) + Suc n = requiredTableLookups st"
    "requiredTableLookups st \<le> 4" "Suc n \<le> fuel"
    "arm_walk (mem_nat rd) (unat (theVaddr (heap w p))) n (level_width T n) (unat base) = (as, out)"
  shows "trace_result w p as out (trace_loop rd fuel (p, st) w)"
  using assms
proof (induction n arbitrary: base st w fuel as rule: less_induct)
  case (less n base st w fuel as)
  note prems = less.prems
  obtain f where f: "fuel = Suc f" using prems(8) by (cases fuel) auto
  obtain a where a: "unat a = descriptor_address (12 + 9 * n) (level_width T n) (unat base) (unat (theVaddr (heap w p)))"
    "trace_loop rd (Suc f) (p, st) w = bindE (walk (p, st) (fetched rd p a w)) (\<lambda>(_, tr, w).
        if theDone (heap w p) then Inr w else trace_loop rd f tr w)"
    using trace_loop_step[OF prems(1), where w = w and p = p and fuel = f and rd = rd] prems(3,6,7) by auto
  note fs = fetched_simps[OF prems(3), of rd a]
  have adm: "level_admits n T" using prems(1) by (simp add: at_level_def)
  then have "n \<le> 3" by (auto simp: level_admits_def)
  from prems(9) a(1) this show ?case
  proof (cases rule: arm_walk_step)
    case fault
    then show ?thesis unfolding f a(2) using prems(3-5) trace_step_invalid[of w p rd a st "trace_loop rd f"] by simp
  next
    case leaf
    then show ?thesis unfolding f a(2) using prems(1,3-5) trace_step_leaf by simp
  next
    case (descend n' bs)
    obtain st' where st': "walk (p, st) (fetched rd p a w) = Inr (False, (p, st'), fetched rd p a w)"
        "at_level m T n' (rd a) st'" "requiredTableLookups st' = requiredTableLookups st"
      using walk_table[of "fetched rd p a w" p m T n' base st] descend prems(1,2) fs by auto
    have "level_width T n' = 9" using level_admits_pred[of n' T] adm descend(3) by simp
    then have "trace_result (fetched rd p a w) p bs out (trace_loop rd f (p, st') (fetched rd p a w))"
      using prems descend(3,5) st'(3) f fs by (intro less.IH[OF _ st'(2)]) simp_all
    moreover have "trace_loop rd fuel (p, st) w = trace_loop rd f (p, st') (fetched rd p a w)"
      using a(2) f st'(1) fs prems(4) by simp
    ultimately show ?thesis using trace_step_table[OF prems(3)] descend(4) by simp
  next
    case rsvd
    then have "walk (p, st) (fetched rd p a w) = Inl AssertionFailed"
      using walk_reserved[of "fetched rd p a w" p m T base st] prems(1) fs by simp
    then show ?thesis using a(2) f rsvd(4) by (simp add: trace_result_def)
  next
    case page_rsvd
    then show ?thesis unfolding f a(2) page_rsvd(3,4) using prems(1,3-5) by (intro page_result[OF trace_step_leaf]) simp_all
  qed
qed


section \<open>Starting a walk\<close>

text \<open>An MMU set up for 4KB granules in both ranges, with input sizes the architecture allows for them.\<close>

definition mmu_ready :: "mmu_t \<Rightarrow> nat \<Rightarrow> nat \<Rightarrow> nat \<Rightarrow> bool" where
  "mmu_ready m junk T0 T1 \<longleftrightarrow> regs_shape (mmu_regs m) \<and> aarch64_bit_configs m = aarch64_configs \<and>
     field (unat (TCR (mmu_regs m) ! 1)) 14 2 = 0 \<and> field (unat (TCR (mmu_regs m) ! 1)) 30 2 = 2 \<and>
     Gran0 m = Some (granule_of TG0_class junk 12 T0) \<and> Gran1 m = Some (granule_of TG1_class junk 12 T1) \<and>
     16 \<le> T0 \<and> T0 \<le> 39 \<and> 16 \<le> T1 \<and> T1 \<le> 39"

text \<open>The reference translation: the table base is chosen by the leading bits, and the walk starts at the
  level that leaves between one and nine index bits for the first lookup.\<close>

definition levels_below :: "nat \<Rightarrow> nat" where
  "levels_below T = (60 - T) div 9 - 1"

definition arm_translate ::
    "(nat \<Rightarrow> nat) \<Rightarrow> nat \<Rightarrow> nat \<Rightarrow> nat \<Rightarrow> nat \<Rightarrow> nat \<Rightarrow> (nat list \<times> walk_outcome) option" where
  "arm_translate mem ttbr0 ttbr1 T0 T1 va =
     (if va < 2 ^ (64 - T0)
      then Some (arm_walk mem va (levels_below T0) (64 - T0 - (12 + 9 * levels_below T0)) ttbr0)
      else if 2 ^ 64 - 2 ^ (64 - T1) \<le> va
      then Some (arm_walk mem va (levels_below T1) (64 - T1 - (12 + 9 * levels_below T1)) ttbr1)
      else None)"

lemma levels_below_eq:
  assumes "16 \<le> T" "T \<le> 39"
  shows "levels_below T = (if T \<ge> 34 then 1 else if T \<ge> 25 then 2 else 3)"
proof -
  have "(60 - T) div 9 = (if T \<ge> 34 then 2 else if T \<ge> 25 then 3 else 4)"
    using assms by (auto intro: div_nat_eqI)
  then show ?thesis by (simp add: levels_below_def)
qed

lemma initial_level_facts:
  assumes "16 \<le> T" "T \<le> 39"
  shows "level_admits (levels_below T) T" "level_width T (levels_below T) = 64 - T - (12 + 9 * levels_below T)"
    "granule_getInitialLookupLevel (granule_of k junk 12 T) = 3 - levels_below T" "levels_below T \<le> 3"
  using assms by (auto simp: levels_below_eq level_admits_def level_width_def granule_getInitialLookupLevel_def
      granule_of_def Let_def)

lemma ready_range:
  assumes "mmu_ready m junk T0 T1"
  shows "checkBR0RangeForVAddr va m = Inr (if unat va < 2 ^ (64 - T0) then 0
     else if 2 ^ 64 - 2 ^ (64 - T1) \<le> unat va then 1 else - 1)"
proof -
  obtain u where u: "TG0_upper_limit T0 = Inr u" "unat u = 2 ^ (64 - T0) - 1"
    using TG0_upper_limit_unat[of T0] assms by (auto simp: mmu_ready_def)
  obtain l where l: "TG1_lower_limit T1 = Inr l" "unat l = 2 ^ 64 - 2 ^ (64 - T1)"
    using TG1_lower_limit_unat[of T1] assms by (auto simp: mmu_ready_def)
  have "va \<le> u \<longleftrightarrow> unat va < 2 ^ (64 - T0)"
    by (simp add: word_le_nat_alt u(2) Suc_le_eq[symmetric] le_diff_conv2)
  then show ?thesis using assms u(1) l
    by (simp add: checkBR0RangeForVAddr_def mmu_ready_def deref_def granule_of_def GetUpperAddressRangeLimit_def
        GetLowerAddressRangeLimit_def word_le_nat_alt)
qed

lemma setup_at_level:
  assumes "mmu_ready m junk T0 T1" "pw_MMU w = Some m" "T = (if isBR0 st then T0 else T1)"
    "currentLookupLevel st = 3 - levels_below T" "granuleSize st = 4096"
  shows "\<exists>r. setupTTResolver st base w = Inr (st\<lparr>TTAddressResolver := Some r\<rparr>) \<and>
    at_level m T (levels_below T) base (st\<lparr>TTAddressResolver := Some r\<rparr>)"
proof -
  define n where "n = levels_below T"
  obtain g where g: "(if isBR0 st then Gran0 m else Gran1 m) = Some g" "IAddrOffset g = T" "PAddrWidth g = 48"
    using assms(1,3) by (cases "isBR0 st") (auto simp: mmu_ready_def granule_of_def)
  have T: "16 \<le> T" "T \<le> 39" using assms(1,3) by (auto simp: mmu_ready_def)
  note f = initial_level_facts[OF T, folded n_def]
  obtain r where r: "level_resolver n (isBR0 st) g base 48 = Inr r"
    using level_resolve[of n g] f(1) g(2) by blast
  have "setupTTResolver st base w = Inr (st\<lparr>TTAddressResolver := Some r\<rparr>)"
    using r g assms(2,4) f(4)[unfolded le_less] unfolding n_def[symmetric]
    by (auto simp: setupTTResolver_def getPAWidth_def deref_def level_resolver_def
        numeral_eq_Suc less_Suc_eq split: if_splits)
  moreover have "at_level m T n base (st\<lparr>TTAddressResolver := Some r\<rparr>)"
    using f(1) g r assms(4,5) by (simp add: at_level_def n_def)
  ultimately show ?thesis unfolding n_def by blast
qed

lemma InitialTranslationSetup_correct:
  assumes "mmu_ready m junk T0 T1" "pw_MMU w = Some m"
    "br = (unat (theVaddr (heap w p)) < 2 ^ (64 - T0))" "T = (if br then T0 else T1)"
    "br \<or> 2 ^ 64 - 2 ^ (64 - T1) \<le> unat (theVaddr (heap w p))"
  shows "\<exists>st. InitialTranslationSetup (p, TranslationState_new) w = Inr (True, (p, st)) \<and>
    at_level m T (levels_below T) (if br then TTBR0 (mmu_regs m) ! 1 else TTBR1 (mmu_regs m) ! 1) st \<and>
    requiredTableLookups st = Suc (levels_below T)"
proof -
  define st1 where "st1 = TranslationState_new\<lparr>isBR0 := br, requiredTableLookups := Suc (levels_below T),
    currentLookupLevel := 3 - levels_below T, granuleSize := 4096, ELRegime := 1\<rparr>"
  define base where "base = (if br then TTBR0 (mmu_regs m) ! 1 else TTBR1 (mmu_regs m) ! 1)"
  have T: "16 \<le> T" "T \<le> 39" using assms(1,4) by (auto simp: mmu_ready_def)
  obtain r where r: "setupTTResolver st1 base w = Inr (st1\<lparr>TTAddressResolver := Some r\<rparr>)"
      "at_level m T (levels_below T) base (st1\<lparr>TTAddressResolver := Some r\<rparr>)"
    using setup_at_level[OF assms(1,2), of T st1 base] assms(4) by (auto simp: st1_def)
  have chk: "checkBR0RangeForVAddr (theVaddr (heap w p)) m = Inr (if br then 0 else 1)"
    using ready_range[OF assms(1)] assms(3,5) by auto
  have lvl: "getInitialLookupLevel br m = Inr (3 - levels_below T)"
    using assms(1,4) initial_level_facts(3)[OF T] by (auto simp: getInitialLookupLevel_def mmu_ready_def deref_def)
  have gs: "getGranuleSize i m = Inr 4096" for i
    using assms(1) getGranuleSize_eq[of m i] by (simp add: mmu_ready_def tg0_log_def tg1_log_def)
  have "(4 - (3 - levels_below T)) mod 256 = Suc (levels_below T)" using initial_level_facts(4)[OF T] by simp
  moreover have "(if br then vec_at (TTBR0 (mmu_regs m)) 1 else vec_at (TTBR1 (mmu_regs m)) 1) = Inr base"
    using assms(1) by (simp add: mmu_ready_def regs_shape_def vec_at_def base_def)
  ultimately have "InitialTranslationSetup (p, TranslationState_new) w = Inr (True, (p, st1\<lparr>TTAddressResolver := Some r\<rparr>))"
    using r(1) assms(2) chk lvl gs
    by (cases br) (simp_all add: InitialTranslationSetup_def deref_def Let_def st1_def)
  moreover have "requiredTableLookups (st1\<lparr>TTAddressResolver := Some r\<rparr>) = Suc (levels_below T)"
    by (simp add: st1_def)
  ultimately show ?thesis using r(2) unfolding base_def by blast
qed


lemma arm_walk_length: "length (fst (arm_walk mem va n w base)) \<le> Suc n"
proof (induction n arbitrary: w base)
  case (Suc n)
  obtain bs o' where "arm_walk mem va n 9 (mem (descriptor_address (12 + 9 * Suc n) w base va)) = (bs, o')" by fastforce
  then show ?case using Suc[of 9 "mem (descriptor_address (12 + 9 * Suc n) w base va)"]
    by (subst arm_walk.simps) (simp add: Let_def)
qed (subst arm_walk.simps, simp add: Let_def)

text \<open>C7: \<^verbatim>\<open>push_back_trace\<close> performs the table walk of the 4KB granule. For an MMU set up with 4KB granules and a fresh
  trace-mode request, the walk takes at most four lookups, reads exactly the descriptors the reference reads, and, when
  these are defined for their level, returns: with the physical address the reference computes, for pages and for 1GB and 2MB
  blocks, or, at an invalid descriptor, with a page fault, or a resync of the instruction of a data access. Of the two
  reserved encodings, a block at level 0 trips an assertion and one at level 3 is taken for a page instead of faulting.
  An address in neither range is rejected without touching the request.\<close>
theorem push_back_trace_correct:
  assumes "mmu_ready m junk T0 T1" "pw_MMU w = Some m" "4 \<le> fuel"
    "inTraceMode (heap w p)" "\<not> theDone (heap w p)" "\<not> thePageFault (heap w p)" "theCurrentTranslationLevel (heap w p) = 0"
  shows "case arm_translate (mem_nat readPhys) (unat (TTBR0 (mmu_regs m) ! 1)) (unat (TTBR1 (mmu_regs m) ! 1)) T0 T1
            (unat (theVaddr (heap w p))) of
      None \<Rightarrow> push_back_trace readPhys fuel p w = Inr (False, w)
    | Some (as, out) \<Rightarrow> length as \<le> 4 \<and>
        (\<exists>res. push_back_trace readPhys fuel p w = bindE res (\<lambda>w'. Inr (True, w')) \<and> trace_result w p as out res)"
proof (cases "unat (theVaddr (heap w p)) < 2 ^ (64 - T0) \<or> 2 ^ 64 - 2 ^ (64 - T1) \<le> unat (theVaddr (heap w p))")
  case False
  have "InitialTranslationSetup (p, TranslationState_new) w = Inr (False, (p, TranslationState_new))"
    using ready_range[OF assms(1)] False assms(2) by (simp add: InitialTranslationSetup_def deref_def)
  then show ?thesis using False by (simp add: arm_translate_def push_back_trace_def)
next
  case True
  define br where "br = (unat (theVaddr (heap w p)) < 2 ^ (64 - T0))"
  define T where "T = (if br then T0 else T1)"
  define base where "base = (if br then TTBR0 (mmu_regs m) ! 1 else TTBR1 (mmu_regs m) ! 1)"
  have T: "16 \<le> T" "T \<le> 39" using assms(1) by (auto simp: mmu_ready_def T_def)
  obtain st where st: "InitialTranslationSetup (p, TranslationState_new) w = Inr (True, (p, st))"
      "at_level m T (levels_below T) base st" "requiredTableLookups st = Suc (levels_below T)"
    using InitialTranslationSetup_correct[OF assms(1,2) br_def T_def] True by (auto simp: br_def base_def)
  obtain as out where w: "arm_walk (mem_nat readPhys) (unat (theVaddr (heap w p))) (levels_below T)
      (level_width T (levels_below T)) (unat base) = (as, out)" by fastforce
  have "trace_result w p as out (trace_loop readPhys fuel (p, st) w)"
    using assms st(3) w initial_level_facts(4)[OF T] by (intro trace_loop_correct[OF st(2) assms(2)]) simp_all
  moreover have "length as \<le> 4"
    using arm_walk_length[of "mem_nat readPhys" "unat (theVaddr (heap w p))" "levels_below T"
        "level_width T (levels_below T)" "unat base"] w initial_level_facts(4)[OF T] by simp
  moreover have "arm_translate (mem_nat readPhys) (unat (TTBR0 (mmu_regs m) ! 1)) (unat (TTBR1 (mmu_regs m) ! 1)) T0 T1
      (unat (theVaddr (heap w p))) = Some (as, out)"
    using w True initial_level_facts(2)[OF T]
    by (cases br) (simp_all add: arm_translate_def T_def base_def br_def)
  ultimately show ?thesis using st(1) by (auto simp: push_back_trace_def)
qed


text \<open>A small memory image for concrete walks: tables at 0x1000, 0x3000 and 0x4000 map the page 0x5000 of the
  lower range, one 2MB block follows.\<close>

definition demo_mem :: "address \<Rightarrow> address" where
  "demo_mem a = (if a = 0x1000 then 0x3003 else if a = 0x3000 then 0x4003 else if a = 0x4000 then 0x6003
     else if a = 0x4008 then 0x40000001 else if a = 0x6028 then 0x77000003 else 0)"

definition blank_tr :: Translation where
  "blank_tr = \<lparr>theVaddr = 0, thePaddr = 0, thePSTATE = 0, theIndex = 0, theType = eLoad, theTLBstatus = kTLBunresolved,
     theTLBtype = kDATA, theException = 0, theTTEEntry = 0, theReady = False, theWaiting = False, theDone = False,
     theCurrentTranslationLevel = 0, rawTTEValue = 0, theID = 0, theAnnul = False, theTimeoutCounter = 0,
     thePageFault = False, trace_addresses = [], inTraceMode = True, theInstruction = None\<rparr>"

definition demo_walker :: "Translation \<Rightarrow> walker" where
  "demo_walker t = \<lparr>heap = (\<lambda>_. t), pw_MMU = Some demo_mmu, theTranslationTransports = [], theMemoryTranslations = [],
     trace_address = 0, TheInitialized = False, resynced = []\<rparr>"

lemma demo_mmu_ready: "mmu_ready demo_mmu 0 16 25"
  by (simp add: mmu_ready_def demo_mmu_def demo_regs_def regs_shape_def field_def)

theorem push_back_trace_correct_witness:
  "\<exists>w. push_back_trace demo_mem 4 7 (demo_walker (blank_tr\<lparr>theVaddr := 0x5123\<rparr>)) = Inr (True, w) \<and>
     thePaddr (heap w 7) = 0x77000123 \<and> trace_addresses (heap w 7) = [0x1000, 0x3000, 0x4000, 0x6028]"
proof -
  have "arm_translate (mem_nat demo_mem) (unat (TTBR0 (mmu_regs demo_mmu) ! 1)) (unat (TTBR1 (mmu_regs demo_mmu) ! 1)) 16 25 0x5123 =
      Some ([0x1000, 0x3000, 0x4000, 0x6028], Mapped 0x77000123)"
    by (simp add: arm_translate_def levels_below_def demo_mmu_def demo_regs_def arm_walk.simps descriptor_address_def
        field_def mem_nat_def demo_mem_def)
  moreover have "case arm_translate (mem_nat demo_mem) (unat (TTBR0 (mmu_regs demo_mmu) ! 1)) (unat (TTBR1 (mmu_regs demo_mmu) ! 1))
       16 25 (unat (theVaddr (heap (demo_walker (blank_tr\<lparr>theVaddr := 0x5123\<rparr>)) 7))) of
      None \<Rightarrow> push_back_trace demo_mem 4 7 (demo_walker (blank_tr\<lparr>theVaddr := 0x5123\<rparr>)) =
        Inr (False, demo_walker (blank_tr\<lparr>theVaddr := 0x5123\<rparr>))
    | Some (as, out) \<Rightarrow> length as \<le> 4 \<and>
        (\<exists>res. push_back_trace demo_mem 4 7 (demo_walker (blank_tr\<lparr>theVaddr := 0x5123\<rparr>)) = bindE res (\<lambda>w'. Inr (True, w')) \<and>
           trace_result (demo_walker (blank_tr\<lparr>theVaddr := 0x5123\<rparr>)) 7 as out res)"
    by (rule push_back_trace_correct[OF demo_mmu_ready]) (simp_all add: demo_walker_def blank_tr_def)
  ultimately obtain res where r: "push_back_trace demo_mem 4 7 (demo_walker (blank_tr\<lparr>theVaddr := 0x5123\<rparr>)) = bindE res (\<lambda>w'. Inr (True, w'))"
      "trace_result (demo_walker (blank_tr\<lparr>theVaddr := 0x5123\<rparr>)) 7 [0x1000, 0x3000, 0x4000, 0x6028] (Mapped 0x77000123) res"
    by (auto simp: demo_walker_def)
  then obtain w where w: "res = Inr w" "unat (thePaddr (heap w 7)) = unat (0x77000123 :: address)"
      "map unat (trace_addresses (heap w 7)) = map unat [0x1000, 0x3000, 0x4000, 0x6028 :: address]"
    by (cases res) (simp_all add: trace_result_def demo_walker_def blank_tr_def)
  have "thePaddr (heap w 7) = 0x77000123" using w(2) by (simp only: word_unat_eq_iff)
  moreover have "trace_addresses (heap w 7) = [0x1000, 0x3000, 0x4000, 0x6028]"
    using w(3) by (rule map_injective) (simp add: inj_def word_unat_eq_iff)
  ultimately show ?thesis using r(1) w(1) by simp
qed


section \<open>The timing walk\<close>

text \<open>
  The environment of the walker in timing mode: after the cycle that issues a lookup, the reply arrives
  \<open>k\<close> cycles later, and the next cycle consumes it. \<open>timing_walk\<close> runs the head walk with one delay per lookup.
\<close>

fun idle :: "nat \<Rightarrow> walker \<Rightarrow> walker res" where
  "idle 0 w = Inr w"
| "idle (Suc k) w = bindE (cycle w) (idle k)"

definition timing_round :: "(address \<Rightarrow> address) \<Rightarrow> nat \<Rightarrow> nat \<Rightarrow> walker \<Rightarrow> walker res" where
  "timing_round rd k p w =
     bindE (cycle w) (\<lambda>w1. bindE (idle k w1) (\<lambda>w2. cycle (memory_reply (rd (thePaddr (heap w1 p))) p w2)))"

fun timing_walk :: "(address \<Rightarrow> address) \<Rightarrow> nat list \<Rightarrow> nat \<Rightarrow> walker \<Rightarrow> walker res" where
  "timing_walk rd [] p w = Inl OutOfFuel"
| "timing_walk rd (k # ks) p w =
     bindE (timing_round rd k p w) (\<lambda>w. if theDone (heap w p) then Inr w else timing_walk rd ks p w)"

definition awaiting :: "nat \<Rightarrow> transport \<Rightarrow> transport list \<Rightarrow> walker \<Rightarrow> bool" where
  "awaiting p tr rest w \<longleftrightarrow> theTranslationTransports w = tr # rest \<and> fst tr = p \<and> \<not> theReady (heap w p) \<and> \<not> theDone (heap w p)"

lemma cycle_idle:
  assumes "awaiting p tr rest w" "theTimeoutCounter (heap w p) + 1 \<le> 1000"
  shows "cycle w = Inr (upd p ((heap w p)\<lparr>theTimeoutCounter := theTimeoutCounter (heap w p) + 1\<rparr>) w)"
  using assms by (cases tr) (simp add: awaiting_def cycle_def translation_tick_def dbg_assert_def Let_def)

lemma idle_waits:
  assumes "awaiting p tr rest w" "theTimeoutCounter (heap w p) + k \<le> 1000"
  shows "idle k w = Inr (upd p ((heap w p)\<lparr>theTimeoutCounter := theTimeoutCounter (heap w p) + k\<rparr>) w)"
  using assms
proof (induction k arbitrary: w)
  case 0
  then show ?case by (simp add: upd_def)
next
  case (Suc k)
  define w1 where "w1 = upd p ((heap w p)\<lparr>theTimeoutCounter := theTimeoutCounter (heap w p) + 1\<rparr>) w"
  have "cycle w = Inr w1" using cycle_idle[of p tr rest w] Suc.prems by (simp add: w1_def)
  moreover have "idle k w1 = Inr (upd p ((heap w1 p)\<lparr>theTimeoutCounter := theTimeoutCounter (heap w1 p) + k\<rparr>) w1)"
    using Suc.prems by (intro Suc.IH) (auto simp: awaiting_def w1_def)
  ultimately show ?case by (simp add: w1_def)
qed

text \<open>The state a walk step starts from in timing mode.\<close>

definition primed :: "(address \<Rightarrow> address) \<Rightarrow> nat \<Rightarrow> nat \<Rightarrow> address \<Rightarrow> walker \<Rightarrow> walker" where
  "primed rd k p a w = (upd p ((heap w p)\<lparr>theTimeoutCounter := theTimeoutCounter (heap w p) + k + 2,
        theCurrentTranslationLevel := theCurrentTranslationLevel (heap w p) + 1, thePaddr := a, rawTTEValue := rd a,
        theReady := True, theWaiting := True\<rparr>) w)
      \<lparr>trace_address := a, theMemoryTranslations := theMemoryTranslations w @ [p]\<rparr>"

lemma primed_simps [simp]:
  "heap (primed rd k p a w) p = (heap w p)\<lparr>theTimeoutCounter := theTimeoutCounter (heap w p) + k + 2,
        theCurrentTranslationLevel := theCurrentTranslationLevel (heap w p) + 1, thePaddr := a, rawTTEValue := rd a,
        theReady := True, theWaiting := True\<rparr>"
  "pw_MMU (primed rd k p a w) = pw_MMU w" "theTranslationTransports (primed rd k p a w) = theTranslationTransports w"
  "theMemoryTranslations (primed rd k p a w) = theMemoryTranslations w @ [p]" "resynced (primed rd k p a w) = resynced w"
  by (simp_all add: primed_def)

lemma cycle_consume:
  assumes "theTranslationTransports w = (p, st) # rest" "theReady (heap w p)" "theWaiting (heap w p)" "\<not> theDone (heap w p)"
    "theTimeoutCounter (heap w p) + 1 \<le> 1000"
  shows "cycle w = bindE (walk (p, st) (upd p ((heap w p)\<lparr>theTimeoutCounter := theTimeoutCounter (heap w p) + 1\<rparr>) w)) (\<lambda>(_, tr, w).
        Inr (upd p (toggleWaiting (heap w p)) (w\<lparr>theTranslationTransports := tr # rest\<rparr>)))"
  using assms by (simp add: cycle_def translation_tick_def dbg_assert_def Let_def translate_def bindE_def
      split: sum.split prod.split)

definition replied :: "(address \<Rightarrow> address) \<Rightarrow> nat \<Rightarrow> nat \<Rightarrow> address \<Rightarrow> walker \<Rightarrow> walker" where
  "replied rd k p a w = upd p ((heap (primed rd k p a w) p)\<lparr>theTimeoutCounter := theTimeoutCounter (heap w p) + 1 + k\<rparr>) (primed rd k p a w)"

lemma replied_ticked:
  "upd p ((heap (replied rd k p a w) p)\<lparr>theTimeoutCounter := theTimeoutCounter (heap (replied rd k p a w) p) + 1\<rparr>) (replied rd k p a w)
     = primed rd k p a w"
  by (cases w; cases "heap w p") (simp add: replied_def primed_def upd_def)

lemma timing_round_step:
  assumes "at_level m T n base st" "theCurrentTranslationLevel (heap w p) < requiredTableLookups st"
    "requiredTableLookups st \<le> 4" "theTranslationTransports w = (p, st) # rest"
    "theReady (heap w p)" "\<not> theWaiting (heap w p)" "\<not> theDone (heap w p)" "\<not> inTraceMode (heap w p)"
    "theTimeoutCounter (heap w p) + k + 2 \<le> 1000"
  shows "\<exists>a. unat a = descriptor_address (12 + 9 * n) (level_width T n) (unat base) (unat (theVaddr (heap w p))) \<and>
    timing_round rd k p w = bindE (walk (p, st) (primed rd k p a w)) (\<lambda>(_, tr, w).
        Inr (upd p (toggleWaiting (heap w p)) (w\<lparr>theTranslationTransports := tr # rest\<rparr>)))"
proof -
  define t where "t = heap w p"
  define w0 where "w0 = upd p (t\<lparr>theTimeoutCounter := theTimeoutCounter t + 1\<rparr>) w"
  obtain a where a: "preTranslate (p, st) w0 = Inr (requested p a w0)"
      "unat a = descriptor_address (12 + 9 * n) (level_width T n) (unat base) (unat (theVaddr (heap w p)))"
    using preTranslate_step[OF assms(1), of w0 p] assms(2,3) by (auto simp: w0_def t_def)
  define t1 where "t1 = t\<lparr>theTimeoutCounter := theTimeoutCounter t + 1,
    theCurrentTranslationLevel := theCurrentTranslationLevel t + 1, thePaddr := a, theReady := False, theWaiting := True\<rparr>"
  define w1 where "w1 = (upd p t1 w)\<lparr>trace_address := a, theMemoryTranslations := theMemoryTranslations w @ [p]\<rparr>"
  have w1: "cycle w = Inr w1"
    using assms(4-9) a(1) by (simp add: cycle_def translation_tick_def dbg_assert_def Let_def w0_def t_def[symmetric]
        requested_def pushMemoryRequest_def toggleReady_def toggleWaiting_def w1_def t1_def)
  have aw: "awaiting p (p, st) rest w1" using assms(4,7) by (simp add: awaiting_def w1_def t1_def t_def)
  have "idle k w1 = Inr (upd p (t1\<lparr>theTimeoutCounter := theTimeoutCounter t1 + k\<rparr>) w1)"
    using idle_waits[OF aw, of k] assms(9) by (simp add: w1_def t1_def t_def)
  then have "timing_round rd k p w =
      cycle (memory_reply (rd a) p (upd p (t1\<lparr>theTimeoutCounter := theTimeoutCounter t1 + k\<rparr>) w1))"
    using w1 by (simp add: timing_round_def) (simp add: w1_def t1_def)
  also have "memory_reply (rd a) p (upd p (t1\<lparr>theTimeoutCounter := theTimeoutCounter t1 + k\<rparr>) w1) = replied rd k p a w"
    by (cases "heap w p") (simp add: memory_reply_def toggleReady_def w1_def t1_def t_def replied_def primed_def upd_def)
  also have "cycle \<dots> = bindE (walk (p, st) (primed rd k p a w)) (\<lambda>(_, tr, w).
        Inr (upd p (toggleWaiting (heap w p)) (w\<lparr>theTranslationTransports := tr # rest\<rparr>)))"
    using cycle_consume[of "replied rd k p a w" p st rest] assms(4,7,9)
    unfolding replied_ticked by (simp add: replied_def)
  finally show ?thesis using a(2) by blast
qed


text \<open>What a completed timing walk leaves behind: the transport is still at the head, marked done and neither
  waiting, so the next cycle removes it; one memory request was issued per lookup.\<close>

definition timing_result :: "walker \<Rightarrow> nat \<Rightarrow> transport list \<Rightarrow> nat list \<Rightarrow> walk_outcome \<Rightarrow> walker res \<Rightarrow> bool" where
  "timing_result w p rest as out res = (case res of
      Inl e \<Rightarrow> out = Reserved 0 \<and> e = AssertionFailed
    | Inr w' \<Rightarrow> theDone (heap w' p) \<and> \<not> theWaiting (heap w' p) \<and> theVaddr (heap w' p) = theVaddr (heap w p) \<and>
        map fst (theTranslationTransports w') = p # map fst rest \<and> tl (theTranslationTransports w') = rest \<and>
        theMemoryTranslations w' = theMemoryTranslations w @ replicate (length as) p \<and>
        (case out of Mapped pa \<Rightarrow> unat (thePaddr (heap w' p)) = pa \<and> \<not> thePageFault (heap w' p) \<and> resynced w' = resynced w
         | Faulted \<Rightarrow> fault_effect w p w'
         | Reserved l \<Rightarrow> l = 3 \<and> \<not> thePageFault (heap w' p) \<and> resynced w' = resynced w))"

lemma timing_step_invalid:
  assumes "\<not> theDone (heap w p)" "\<not> thePageFault (heap w p)" "even (unat (rd a))"
  shows "timing_result w p rest [unat a] Faulted
    (bindE (bindE (walk (p, st) (primed rd k p a w)) (\<lambda>(_, tr, w).
        Inr (upd p (toggleWaiting (heap w p)) (w\<lparr>theTranslationTransports := tr # rest\<rparr>))))
      (\<lambda>w. if theDone (heap w p) then Inr w else K w))"
proof -
  have "walk (p, st) (primed rd k p a w) = Inr (False, (p, st), faulted p (primed rd k p a w))"
    using assms by (intro walk_invalid) simp_all
  then show ?thesis using assms
    by (simp add: timing_result_def faulted_def fault_effect_def Let_def isData_def toggleWaiting_def
        split: option.split bool.split)
qed

lemma timing_step_leaf:
  assumes "\<not> theDone (heap w p)" "\<not> thePageFault (heap w p)" "odd (unat (rd a))"
    "n = 0 \<or> even (unat (rd a) div 2)" "n < 3" "at_level m T n base st"
  shows "timing_result w p rest [unat a]
      (Mapped (field (unat (rd a)) (12 + 9 * n) (48 - (12 + 9 * n)) * 2 ^ (12 + 9 * n)
               + unat (theVaddr (heap w p)) mod 2 ^ (12 + 9 * n)))
    (bindE (bindE (walk (p, st) (primed rd k p a w)) (\<lambda>(_, tr, w).
        Inr (upd p (toggleWaiting (heap w p)) (w\<lparr>theTranslationTransports := tr # rest\<rparr>))))
      (\<lambda>w. if theDone (heap w p) then Inr w else K w))"
proof -
  obtain st' pa where "walk (p, st) (primed rd k p a w) = Inr (True, (p, st'), mapped p pa (primed rd k p a w))"
    "unat pa = field (unat (rd a)) (12 + 9 * n) (48 - (12 + 9 * n)) * 2 ^ (12 + 9 * n)
       + unat (theVaddr (heap w p)) mod 2 ^ (12 + 9 * n)"
    using walk_leaf[of "primed rd k p a w" p n m T base st] assms by auto
  then show ?thesis using assms by (simp add: timing_result_def mapped_def toggleWaiting_def)
qed

lemma page_timing_result:
  "timing_result w p rest as (Mapped pa) res \<Longrightarrow> timing_result w p rest as (Reserved 3) res"
  by (auto simp: timing_result_def split: sum.splits)

definition walked :: "(address \<Rightarrow> address) \<Rightarrow> nat \<Rightarrow> nat \<Rightarrow> address \<Rightarrow> transport list \<Rightarrow> walker \<Rightarrow> walker" where
  "walked rd k p a trs w = (let w1 = primed rd k p a w in
     upd p (toggleWaiting (heap w1 p)) (w1\<lparr>theTranslationTransports := trs\<rparr>))"

lemma walked_simps [simp]:
  "heap (walked rd k p a trs w) p = (heap w p)\<lparr>theTimeoutCounter := theTimeoutCounter (heap w p) + k + 2,
        theCurrentTranslationLevel := theCurrentTranslationLevel (heap w p) + 1, thePaddr := a, rawTTEValue := rd a,
        theReady := True, theWaiting := False\<rparr>"
  "pw_MMU (walked rd k p a trs w) = pw_MMU w" "theTranslationTransports (walked rd k p a trs w) = trs"
  "theMemoryTranslations (walked rd k p a trs w) = theMemoryTranslations w @ [p]"
  "resynced (walked rd k p a trs w) = resynced w"
  by (simp_all add: walked_def Let_def toggleWaiting_def)

lemma timing_step_table:
  assumes "timing_result (walked rd k p a trs w) p rest bs out res"
  shows "timing_result w p rest (unat a # bs) out res"
proof -
  have "fault_effect (walked rd k p a trs w) p = fault_effect w p"
    by (rule ext) (simp add: fault_effect_def isData_def split: option.split bool.split)
  then show ?thesis using assms
    by (simp add: timing_result_def split: sum.splits walk_outcome.splits)
qed

lemma timing_walk_correct:
  assumes "at_level m T n base st" "pw_MMU w = Some m" "theTranslationTransports w = (p, st) # rest"
    "theReady (heap w p)" "\<not> theWaiting (heap w p)" "\<not> theDone (heap w p)" "\<not> inTraceMode (heap w p)"
    "\<not> thePageFault (heap w p)" "theCurrentTranslationLevel (heap w p) + Suc n = requiredTableLookups st"
    "requiredTableLookups st \<le> 4" "Suc n \<le> length ks" "theTimeoutCounter (heap w p) + sum_list (map (\<lambda>k. k + 2) ks) \<le> 1000"
    "arm_walk (mem_nat rd) (unat (theVaddr (heap w p))) n (level_width T n) (unat base) = (as, out)"
  shows "timing_result w p rest as out (timing_walk rd ks p w)"
  using assms
proof (induction n arbitrary: base st w ks as rule: less_induct)
  case (less n base st w ks as)
  note prems = less.prems
  obtain k f where f: "ks = k # f" using prems(11) by (cases ks) auto
  obtain a where a: "unat a = descriptor_address (12 + 9 * n) (level_width T n) (unat base) (unat (theVaddr (heap w p)))"
    "timing_round rd k p w = bindE (walk (p, st) (primed rd k p a w)) (\<lambda>(_, tr, w).
        Inr (upd p (toggleWaiting (heap w p)) (w\<lparr>theTranslationTransports := tr # rest\<rparr>)))"
    using timing_round_step[OF prems(1), where w = w and p = p and k = k and rd = rd and rest = rest] prems(3-10,12) f by auto
  have adm: "level_admits n T" using prems(1) by (simp add: at_level_def)
  then have "n \<le> 3" by (auto simp: level_admits_def)
  from prems(13) a(1) this show ?case
  proof (cases rule: arm_walk_step)
    case fault
    then show ?thesis using prems(6,8) timing_step_invalid[of w p rd a rest st k "timing_walk rd f p"] by (simp add: f a(2))
  next
    case leaf
    then show ?thesis using prems(1,6,8) timing_step_leaf[of w p rd a n m T base st rest k "timing_walk rd f p"]
      by (simp add: f a(2))
  next
    case (descend n' bs)
    obtain st' where st': "walk (p, st) (primed rd k p a w) = Inr (False, (p, st'), primed rd k p a w)"
        "at_level m T n' (rd a) st'" "requiredTableLookups st' = requiredTableLookups st"
      using walk_table[of "primed rd k p a w" p m T n' base st] descend prems(1,2) by auto
    let ?w = "walked rd k p a ((p, st') # rest) w"
    have "level_width T n' = 9" using level_admits_pred[of n' T] adm descend(3) by simp
    then have "timing_result ?w p rest bs out (timing_walk rd f p ?w)"
      using prems descend(3,5) st'(3) f by (intro less.IH[OF _ st'(2)]) simp_all
    moreover have "timing_walk rd ks p w = timing_walk rd f p ?w"
      using a(2) f st'(1) prems(6) by (simp add: walked_def Let_def toggleWaiting_def)
    ultimately show ?thesis using timing_step_table descend(4) by simp
  next
    case rsvd
    then have "walk (p, st) (primed rd k p a w) = Inl AssertionFailed"
      using walk_reserved[of "primed rd k p a w" p m T base st] prems(1) by simp
    then show ?thesis using a(2) f rsvd(4) by (simp add: timing_result_def)
  next
    case page_rsvd
    have "timing_result w p rest [unat a] (Reserved 3) (bindE (timing_round rd k p w) (\<lambda>w. if theDone (heap w p) then Inr w else timing_walk rd f p w))"
      unfolding a(2) using page_rsvd(1,2) prems(1,6,8) by (intro page_timing_result[OF timing_step_leaf]) simp_all
    then show ?thesis using page_rsvd(3,4) by (simp add: f)
  qed
qed


text \<open>C13: The walk of timing mode computes the same translation. A request that finds no other walk under way, is accepted by \<^verbatim>\<open>push_back\<close> and
  driven by \<^verbatim>\<open>cycle\<close>, ends after at most four lookups with the outcome of the reference and one memory
  request per lookup, however the memory delays are spread over the lookups, as long as they add up to no more
  than the walker's limit of 1000 cycles. Reserved descriptors are treated as in trace mode.\<close>
theorem timing_mode_correct:
  assumes "mmu_ready m junk T0 T1" "pw_MMU w = Some m" "theTranslationTransports w = []"
    "theReady (heap w p)" "\<not> theWaiting (heap w p)" "\<not> theDone (heap w p)" "\<not> inTraceMode (heap w p)"
    "\<not> thePageFault (heap w p)" "theCurrentTranslationLevel (heap w p) = 0"
    "4 \<le> length ks" "theTimeoutCounter (heap w p) + sum_list (map (\<lambda>k. k + 2) ks) \<le> 1000"
  shows "case arm_translate (mem_nat rd) (unat (TTBR0 (mmu_regs m) ! 1)) (unat (TTBR1 (mmu_regs m) ! 1)) T0 T1
            (unat (theVaddr (heap w p))) of
      None \<Rightarrow> push_back p w = Inr (False, w)
    | Some (as, out) \<Rightarrow> (\<exists>w1. push_back p w = Inr (True, w1) \<and> heap w1 = heap w \<and> theMemoryTranslations w1 = theMemoryTranslations w \<and>
        timing_result w1 p [] as out (timing_walk rd ks p w1))"
proof (cases "unat (theVaddr (heap w p)) < 2 ^ (64 - T0) \<or> 2 ^ 64 - 2 ^ (64 - T1) \<le> unat (theVaddr (heap w p))")
  case False
  have "InitialTranslationSetup (p, TranslationState_new) w = Inr (False, (p, TranslationState_new))"
    using ready_range[OF assms(1)] False assms(2) by (simp add: InitialTranslationSetup_def deref_def)
  then show ?thesis using False by (simp add: arm_translate_def push_back_def)
next
  case True
  define br where "br = (unat (theVaddr (heap w p)) < 2 ^ (64 - T0))"
  define T where "T = (if br then T0 else T1)"
  define base where "base = (if br then TTBR0 (mmu_regs m) ! 1 else TTBR1 (mmu_regs m) ! 1)"
  have T: "16 \<le> T" "T \<le> 39" using assms(1) by (auto simp: mmu_ready_def T_def)
  obtain st where st: "InitialTranslationSetup (p, TranslationState_new) w = Inr (True, (p, st))"
      "at_level m T (levels_below T) base st" "requiredTableLookups st = Suc (levels_below T)"
    using InitialTranslationSetup_correct[OF assms(1,2) br_def T_def] True by (auto simp: br_def base_def)
  define w1 where "w1 = w\<lparr>theTranslationTransports := [(p, st)], TheInitialized := True\<rparr>"
  obtain as out where w: "arm_walk (mem_nat rd) (unat (theVaddr (heap w p))) (levels_below T)
      (level_width T (levels_below T)) (unat base) = (as, out)" by fastforce
  have "timing_result w1 p [] as out (timing_walk rd ks p w1)"
    using assms st(3) w initial_level_facts(4)[OF T] by (intro timing_walk_correct[OF st(2)]) (simp_all add: w1_def)
  moreover have "arm_translate (mem_nat rd) (unat (TTBR0 (mmu_regs m) ! 1)) (unat (TTBR1 (mmu_regs m) ! 1)) T0 T1
      (unat (theVaddr (heap w p))) = Some (as, out)"
    using w True initial_level_facts(2)[OF T]
    by (cases br) (simp_all add: arm_translate_def T_def base_def br_def)
  moreover have "push_back p w = Inr (True, w1)" using st(1) assms(3) by (simp add: push_back_def w1_def)
  ultimately show ?thesis by (simp add: w1_def)
qed

theorem timing_mode_correct_witness:
  "\<exists>w1 w2. push_back 7 (demo_walker (blank_tr\<lparr>theVaddr := 0x200abc, theReady := True, inTraceMode := False\<rparr>)) = Inr (True, w1) \<and>
     timing_walk demo_mem [5, 0, 90, 7] 7 w1 = Inr w2 \<and> unat (thePaddr (heap w2 7)) = 0x40000abc \<and>
     theMemoryTranslations w2 = [7, 7, 7]"
proof -
  let ?t = "blank_tr\<lparr>theVaddr := 0x200abc, theReady := True, inTraceMode := False\<rparr>"
  have a: "arm_translate (mem_nat demo_mem) (unat (TTBR0 (mmu_regs demo_mmu) ! 1)) (unat (TTBR1 (mmu_regs demo_mmu) ! 1)) 16 25
      (unat (theVaddr (heap (demo_walker ?t) 7))) = Some ([0x1000, 0x3000, 0x4008], Mapped 0x40000abc)"
    by (simp add: arm_translate_def levels_below_def demo_mmu_def demo_regs_def arm_walk.simps descriptor_address_def
        field_def mem_nat_def demo_mem_def demo_walker_def)
  have "case arm_translate (mem_nat demo_mem) (unat (TTBR0 (mmu_regs demo_mmu) ! 1)) (unat (TTBR1 (mmu_regs demo_mmu) ! 1)) 16 25
            (unat (theVaddr (heap (demo_walker ?t) 7))) of
      None \<Rightarrow> push_back 7 (demo_walker ?t) = Inr (False, demo_walker ?t)
    | Some (as, out) \<Rightarrow> (\<exists>w1. push_back 7 (demo_walker ?t) = Inr (True, w1) \<and> heap w1 = heap (demo_walker ?t) \<and>
        theMemoryTranslations w1 = theMemoryTranslations (demo_walker ?t) \<and>
        timing_result w1 7 [] as out (timing_walk demo_mem [5, 0, 90, 7] 7 w1))"
    by (rule timing_mode_correct[OF demo_mmu_ready]) (simp_all add: demo_walker_def blank_tr_def)
  then obtain w1 where w1: "push_back 7 (demo_walker ?t) = Inr (True, w1)" "theMemoryTranslations w1 = []"
      "timing_result w1 7 [] [0x1000, 0x3000, 0x4008] (Mapped 0x40000abc) (timing_walk demo_mem [5, 0, 90, 7] 7 w1)"
    unfolding a by (auto simp: demo_walker_def)
  then show ?thesis
    by (cases "timing_walk demo_mem [5, 0, 90, 7] 7 w1") (simp_all add: timing_result_def)
qed

text \<open>C37: The time limit of a walk. While its memory reply is outstanding, a walk can be cycled exactly until its
  timeout counter reaches 1000; the next cycle trips the assertion.\<close>
theorem walk_timeout:
  assumes "awaiting p tr rest w" "theTimeoutCounter (heap w p) \<le> 1000"
  shows "(case idle k w of Inl e \<Rightarrow> e = AssertionFailed \<and> 1000 < theTimeoutCounter (heap w p) + k
          | Inr w' \<Rightarrow> theTimeoutCounter (heap w p) + k \<le> 1000 \<and> theTimeoutCounter (heap w' p) = theTimeoutCounter (heap w p) + k)"
  using assms
proof (induction k arbitrary: w)
  case (Suc k)
  show ?case
  proof (cases "theTimeoutCounter (heap w p) = 1000")
    case True
    then have "cycle w = Inl AssertionFailed"
      using Suc.prems(1) by (cases tr) (simp add: awaiting_def cycle_def translation_tick_def dbg_assert_def Let_def)
    then show ?thesis using True by simp
  next
    case False
    define w1 where "w1 = upd p ((heap w p)\<lparr>theTimeoutCounter := theTimeoutCounter (heap w p) + 1\<rparr>) w"
    have "cycle w = Inr w1" using cycle_idle[of p tr rest w] Suc.prems False by (simp add: w1_def)
    moreover have "awaiting p tr rest w1" "theTimeoutCounter (heap w1 p) \<le> 1000"
      using Suc.prems False by (auto simp: awaiting_def w1_def)
    ultimately show ?thesis using Suc.IH[of w1] by (simp add: w1_def split: sum.splits)
  qed
qed simp

theorem walk_timeout_witness:
  "case idle 3 ((demo_walker (blank_tr\<lparr>theTimeoutCounter := 998\<rparr>))\<lparr>theTranslationTransports := [(7, TranslationState_new)]\<rparr>) of
     Inl e \<Rightarrow> e = AssertionFailed | Inr _ \<Rightarrow> False"
  using walk_timeout[of 7 "(7, TranslationState_new)" "[]"
      "(demo_walker (blank_tr\<lparr>theTimeoutCounter := 998\<rparr>))\<lparr>theTranslationTransports := [(7, TranslationState_new)]\<rparr>" 3]
  by (simp add: awaiting_def demo_walker_def blank_tr_def split: sum.splits)

section \<open>Granules of different sizes\<close>

definition mixed_mmu :: mmu_t where
  "mixed_mmu = \<lparr>mmu_regs = demo_regs\<lparr>TCR := [0, 0xC0190010, 0, 0]\<rparr>, aarch64_bit_configs = aarch64_configs,
     Gran0 = Some (granule_of TG0_class 0 12 16), Gran1 = Some (granule_of TG1_class 0 16 25)\<rparr>"


lemmas walk_evals = push_back_trace_def InitialTranslationSetup_def deref_def checkBR0RangeForVAddr_def
  GetUpperAddressRangeLimit_def GetLowerAddressRangeLimit_def TG0_upper_limit_def TG1_lower_limit_def
  getInitialLookupLevel_def granule_getInitialLookupLevel_def getGranuleSize_def vec_at_def extractBitsWithRange_eq
  setupTTResolver_def getPAWidth_def resolver_simps dbg_assert_def preTranslate_def preWalk_def resolve_def
  maskAndShiftInputAddress_def translate_def walk_def getBlockOutputBits_def L3_getBlockOutputBits_def
  page_offset_mask_def setDone_def extractBitsWithBounds_def shr64_def shl64_def descriptor_bits

text \<open>The granule size used for the page offset is looked up with the range flag as the granule number, which
  selects the other range's granule. With 4KB pages in the lower range and 64KB pages in the upper one, the
  address 0x5123 of a page mapped to 0x77000000 is translated to 0x77005123: four page-number bits are merged
  into the physical address.\<close>
theorem granule_size_of_other_range:
  "map_sum id (\<lambda>(ok, w). (ok, thePaddr (heap w 7)))
     (push_back_trace demo_mem 4 7 ((demo_walker (blank_tr\<lparr>theVaddr := 0x5123\<rparr>))\<lparr>pw_MMU := Some mixed_mmu\<rparr>))
   = Inr (True, 0x77005123)"
proof -
  have four: "(4::nat) = Suc (Suc (Suc (Suc 0)))" by simp
  show ?thesis unfolding four
    by (simp add: walk_evals mixed_mmu_def demo_regs_def demo_walker_def blank_tr_def granule_of_def aarch64_configs_def
        TranslationState_new_def Let_def demo_mem_def)
qed

end
