(* ===== verification/MMU.thy ===== *)
theory MMU
  imports PageWalk
begin

text \<open>
  The MMU component (\<^verbatim>\<open>MMU/MMUImpl.cpp\<close>): the instruction and data TLBs, the queues of translation requests,
  and the handlers that move requests between them: \<^verbatim>\<open>busCycle\<close>, \<^verbatim>\<open>resyncMMU\<close>, the request ports and
  \<^verbatim>\<open>drive\<close>.

  A TLB is an unordered map; its entries are kept in iteration order, and \<open>rehash\<close> stands for the
  reordering an insertion may cause: the theorems hold for every permutation. The emulator's address
  translation \<open>l2p\<close> and registers are parameters. Replies and memory requests sent through the
  channels are appended to output lists, replies with the value of the request at that moment.
  Erasing from the vector of standing requests continues with the element that takes the erased
  position.
\<close>

unbundle bit_operations_syntax

section \<open>Translation lookaside buffers\<close>

record TLBentry =
  theRate :: nat
  entry_Vaddr :: address
  entry_Paddr :: address

record TLB =
  theTLB :: "(address \<times> TLBentry) list"
  theSize :: nat

definition TLBentry_new :: "address \<Rightarrow> TLBentry" where
  "TLBentry_new anAddress = \<lparr>theRate = 0, entry_Vaddr = anAddress, entry_Paddr = 0\<rparr>"

definition touch :: "address \<Rightarrow> TLBentry \<Rightarrow> TLBentry" where
  "touch anAddress e = (if entry_Vaddr e = anAddress then e\<lparr>theRate := 0\<rparr> else e\<lparr>theRate := (theRate e + 1) mod 2 ^ 64\<rparr>)"

fun lookUp_loop :: "address \<Rightarrow> (address \<times> TLBentry) list \<Rightarrow> bool \<times> address \<Rightarrow> bool \<times> address" where
  "lookUp_loop anAddress [] ret = ret"
| "lookUp_loop anAddress ((k, e) # es) ret =
     lookUp_loop anAddress es (if entry_Vaddr e = anAddress then (True, entry_Paddr e) else ret)"

definition lookUp :: "address \<Rightarrow> TLB \<Rightarrow> (bool \<times> address) \<times> TLB" where
  "lookUp anAddress tlb =
     (lookUp_loop anAddress (theTLB tlb) (False, 0), tlb\<lparr>theTLB := map (\<lambda>(k, e). (k, touch anAddress e)) (theTLB tlb)\<rparr>)"

fun evict_scan :: "(address \<times> TLBentry) list \<Rightarrow> address \<times> TLBentry \<Rightarrow> address \<times> TLBentry" where
  "evict_scan [] res = res"
| "evict_scan (e # es) res = evict_scan es (if theRate (snd e) > theRate (snd res) then e else res)"

definition evict :: "TLB \<Rightarrow> TLB res" where
  "evict tlb = (case theTLB tlb of [] \<Rightarrow> Inl UndefinedBehaviour
     | e # es \<Rightarrow> (let res = evict_scan (e # es) e in Inr (tlb\<lparr>theTLB := filter (\<lambda>x. fst x \<noteq> fst res) (e # es)\<rparr>)))"

definition tlb_index :: "((address \<times> TLBentry) list \<Rightarrow> (address \<times> TLBentry) list) \<Rightarrow> address \<Rightarrow> TLB \<Rightarrow> TLB res" where
  "tlb_index rehash anAddress tlb =
     (if anAddress \<in> fst ` set (theTLB tlb) then Inr tlb
      else bindE (if length (theTLB tlb) = theSize tlb then evict tlb else Inr tlb) (\<lambda>tlb.
           Inr (tlb\<lparr>theTLB := rehash ((anAddress, TLBentry_new anAddress) # theTLB tlb)\<rparr>)))"

definition tlb_assign :: "address \<Rightarrow> address \<Rightarrow> TLB \<Rightarrow> TLB" where
  "tlb_assign anAddress pa tlb =
     tlb\<lparr>theTLB := map (\<lambda>(k, e). if k = anAddress then (k, e\<lparr>entry_Paddr := pa\<rparr>) else (k, e)) (theTLB tlb)\<rparr>"

definition tlb_set ::
    "((address \<times> TLBentry) list \<Rightarrow> (address \<times> TLBentry) list) \<Rightarrow> address \<Rightarrow> address \<Rightarrow> TLB \<Rightarrow> TLB res" where
  "tlb_set rehash anAddress pa tlb = bindE (tlb_index rehash anAddress tlb) (\<lambda>tlb. Inr (tlb_assign anAddress pa tlb))"

definition tlb_resize :: "nat \<Rightarrow> TLB \<Rightarrow> TLB" where
  "tlb_resize aSize tlb = tlb\<lparr>theSize := aSize\<rparr>"

section \<open>The component\<close>

record mmu_unit =
  walker_created :: bool
  thePageWalker :: walker
  theInstrTLB :: TLB
  theDataTLB :: TLB
  theLookUpEntries :: "nat list"
  thePageWalkEntries :: "nat list"
  alreadyPW :: "address set"
  standingEntries :: "nat list"
  theMMU :: "mmu_t option"
  theMMUInitialized :: bool
  PerfectTLB :: bool
  iTranslationReply :: "(nat \<times> Translation) list"
  dTranslationReply :: "(nat \<times> Translation) list"
  MemoryRequestOut :: "nat list"
  ResyncOut :: "int list"

definition PAGEMASK :: address where
  "PAGEMASK = NOT 0xFFF"

definition page_of :: "address \<Rightarrow> address" where
  "page_of va = va AND PAGEMASK"

abbreviation req :: "mmu_unit \<Rightarrow> nat \<Rightarrow> Translation" where
  "req u p \<equiv> heap (thePageWalker u) p"

definition put :: "nat \<Rightarrow> Translation \<Rightarrow> mmu_unit \<Rightarrow> mmu_unit" where
  "put p t u = u\<lparr>thePageWalker := upd p t (thePageWalker u)\<rparr>"

definition sendTLBresponse :: "nat \<Rightarrow> mmu_unit \<Rightarrow> mmu_unit" where
  "sendTLBresponse p u =
     (if isInstr (req u p) then u\<lparr>iTranslationReply := iTranslationReply u @ [(p, req u p)]\<rparr>
      else u\<lparr>dTranslationReply := dTranslationReply u @ [(p, req u p)]\<rparr>)"

definition initialize :: "nat \<Rightarrow> nat \<Rightarrow> mmu_unit \<Rightarrow> mmu_unit" where
  "initialize iTLBSize dTLBSize u =
     u\<lparr>walker_created := True,
       thePageWalker := setMMU (theMMU u) ((thePageWalker u)\<lparr>theTranslationTransports := [], theMemoryTranslations := [],
                                           TheInitialized := False\<rparr>),
       theMMUInitialized := False, theInstrTLB := tlb_resize iTLBSize (theInstrTLB u),
       theDataTLB := tlb_resize dTLBSize (theDataTLB u)\<rparr>"

definition bus_lookUp :: "nat \<Rightarrow> mmu_unit \<Rightarrow> (bool \<times> address) \<times> mmu_unit" where
  "bus_lookUp p u =
     (if isInstr (req u p)
      then (let (r, tlb) = lookUp (page_of (theVaddr (req u p))) (theInstrTLB u) in (r, u\<lparr>theInstrTLB := tlb\<rparr>))
      else (let (r, tlb) = lookUp (page_of (theVaddr (req u p))) (theDataTLB u) in (r, u\<lparr>theDataTLB := tlb\<rparr>)))"

definition bus_hit :: "nat \<Rightarrow> address \<Rightarrow> mmu_unit \<Rightarrow> mmu_unit" where
  "bus_hit p pa u =
     sendTLBresponse p (put p ((setHit (req u p))\<lparr>thePaddr := pa OR (theVaddr (req u p) AND NOT PAGEMASK)\<rparr>) u)"

definition bus_miss :: "(bool \<Rightarrow> address \<Rightarrow> address) \<Rightarrow> nat \<Rightarrow> mmu_unit \<Rightarrow> mmu_unit res" where
  "bus_miss l2p p u = (let pageAddr = page_of (theVaddr (req u p)) in
     if pageAddr \<notin> alreadyPW u then
       (let u = put p (setMiss (req u p)) u in
        bindE (push_back p (thePageWalker u)) (\<lambda>(ok, w).
        let u = u\<lparr>thePageWalker := w\<rparr> in
        if ok then Inr (u\<lparr>alreadyPW := insert pageAddr (alreadyPW u), thePageWalkEntries := thePageWalkEntries u @ [p]\<rparr>)
        else Inr (sendTLBresponse p
               (put p ((setHit (req u p))\<lparr>thePaddr := l2p (isInstr (req u p)) (theVaddr (req u p))\<rparr>) u))))
     else Inr (u\<lparr>standingEntries := standingEntries u @ [p]\<rparr>))"

definition process_lookup :: "(bool \<Rightarrow> address \<Rightarrow> address) \<Rightarrow> nat \<Rightarrow> mmu_unit \<Rightarrow> mmu_unit res" where
  "process_lookup l2p p u =
     bindE (dbg_assert (isInstr (req u p) \<noteq> isData (req u p))) (\<lambda>_.
     let ((hit, pa), u) = bus_lookUp p u in
     if PerfectTLB u then
       (let perfectPaddr = l2p (isInstr (req u p)) (theVaddr (req u p)) in
        bindE (if perfectPaddr = 0xFFFFFFFFFFFFFFFF then setPagefault (req u p) else Inr (req u p)) (\<lambda>t.
        Inr (bus_hit p perfectPaddr (put p t u))))
     else if hit then Inr (bus_hit p pa u)
     else bus_miss l2p p u)"

definition standing_match :: "nat \<Rightarrow> mmu_unit \<Rightarrow> nat \<Rightarrow> bool" where
  "standing_match p u q \<longleftrightarrow>
     theVaddr (req u q) AND page_of (theVaddr (req u p)) = page_of (theVaddr (req u p)) \<and>
     isInstr (req u p) = isInstr (req u q)"

definition release_standing :: "nat \<Rightarrow> mmu_unit \<Rightarrow> mmu_unit" where
  "release_standing p u = (let pageAddr = page_of (theVaddr (req u p)) in
     if pageAddr \<in> alreadyPW u then
       u\<lparr>alreadyPW := alreadyPW u - {pageAddr},
         theLookUpEntries := theLookUpEntries u @ filter (standing_match p u) (standingEntries u),
         standingEntries := filter (\<lambda>q. \<not> standing_match p u q) (standingEntries u)\<rparr>
     else u)"

definition finish_walk ::
    "((address \<times> TLBentry) list \<Rightarrow> (address \<times> TLBentry) list) \<Rightarrow> nat \<Rightarrow> mmu_unit \<Rightarrow> mmu_unit res" where
  "finish_walk rehash p u = (let u = release_standing p u; t = req u p in
     bindE (dbg_assert (isInstr t \<noteq> isData t)) (\<lambda>_.
     bindE (if isInstr t
            then bindE (tlb_set rehash (page_of (theVaddr t)) (thePaddr t AND PAGEMASK) (theInstrTLB u)) (\<lambda>tlb.
                 Inr (u\<lparr>theInstrTLB := tlb\<rparr>))
            else bindE (tlb_set rehash (page_of (theVaddr t)) (thePaddr t AND PAGEMASK) (theDataTLB u)) (\<lambda>tlb.
                 Inr (u\<lparr>theDataTLB := tlb\<rparr>))) (\<lambda>u.
     Inr (sendTLBresponse p u))))"

fun walks_loop ::
    "((address \<times> TLBentry) list \<Rightarrow> (address \<times> TLBentry) list) \<Rightarrow> nat list \<Rightarrow> mmu_unit \<Rightarrow> mmu_unit res" where
  "walks_loop rehash [] u = Inr (u\<lparr>thePageWalkEntries := []\<rparr>)"
| "walks_loop rehash (p # ps) u =
     (if theAnnul (req u p) then walks_loop rehash ps u
      else if theDone (req u p) then bindE (finish_walk rehash p u) (walks_loop rehash ps)
      else Inr (u\<lparr>thePageWalkEntries := p # ps\<rparr>))"

definition busCycle ::
    "((address \<times> TLBentry) list \<Rightarrow> (address \<times> TLBentry) list) \<Rightarrow> (bool \<Rightarrow> address \<Rightarrow> address) \<Rightarrow> mmu_unit \<Rightarrow> mmu_unit res" where
  "busCycle rehash l2p u =
     bindE (foldE (process_lookup l2p) (theLookUpEntries u) (u\<lparr>theLookUpEntries := []\<rparr>)) (\<lambda>u.
     walks_loop rehash (thePageWalkEntries u) u)"

definition processMemoryRequests :: "mmu_unit \<Rightarrow> mmu_unit" where
  "processMemoryRequests u =
     u\<lparr>MemoryRequestOut := MemoryRequestOut u @ theMemoryTranslations (thePageWalker u),
       thePageWalker := (thePageWalker u)\<lparr>theMemoryTranslations := []\<rparr>\<rparr>"

definition mmu_drive ::
    "((address \<times> TLBentry) list \<Rightarrow> (address \<times> TLBentry) list) \<Rightarrow> (bool \<Rightarrow> address \<Rightarrow> address) \<Rightarrow> mmu_unit \<Rightarrow> mmu_unit res" where
  "mmu_drive rehash l2p u =
     bindE (busCycle rehash l2p u) (\<lambda>u.
     bindE (cycle (thePageWalker u)) (\<lambda>w.
     Inr (processMemoryRequests (u\<lparr>thePageWalker := w\<rparr>))))"

text \<open>The register block read from the emulator; \<open>readSCTLR\<close> and \<open>readReg\<close> stand for its accessors, \<open>junk\<close> for the
  entries of the freshly allocated block that are not read.\<close>

datatype qemu_reg = kMMU_TCR | kMMU_TTBR0 | kMMU_TTBR1 | kMMU_ID_AA64MMFR0_EL1

definition getMMURegsFromQEMU :: "(nat \<Rightarrow> address) \<Rightarrow> (qemu_reg \<Rightarrow> nat \<Rightarrow> address) \<Rightarrow> address \<Rightarrow> mmu_regs_t" where
  "getMMURegsFromQEMU readSCTLR readReg junk =
     \<lparr>SCTLR = [readSCTLR 0, readSCTLR 1, readSCTLR 2, readSCTLR 3],
      TCR = [readReg kMMU_TCR 0, readReg kMMU_TCR 1, readReg kMMU_TCR 2, readReg kMMU_TCR 3],
      TTBR0 = [junk, readReg kMMU_TTBR0 1, readReg kMMU_TTBR0 2, readReg kMMU_TTBR0 3],
      TTBR1 = [junk, readReg kMMU_TTBR1 1, readReg kMMU_TTBR1 2],
      ID_AA64MMFR0_EL1 = readReg kMMU_ID_AA64MMFR0_EL1 0\<rparr>"

text \<open>A resynchronisation reads the emulator's registers \<open>q\<close> into a new \<^verbatim>\<open>mmu_t\<close> and drops all requests.\<close>

definition resyncMMU :: "mmu_regs_t \<Rightarrow> nat \<Rightarrow> int \<Rightarrow> mmu_unit \<Rightarrow> mmu_unit res" where
  "resyncMMU q junk anIndex u =
     bindE (setupAddressSpaceSizesAndGranules junk (initRegsFromQEMUObject q blank_mmu)) (\<lambda>m.
     Inr (u\<lparr>theMMU := Some m, theMMUInitialized := True,
            thePageWalker := (if walker_created u then annulAll (thePageWalker u) else thePageWalker u),
            thePageWalkEntries := [], alreadyPW := {}, standingEntries := [], theLookUpEntries := [],
            ResyncOut := ResyncOut u @ [anIndex]\<rparr>))"

definition push_request :: "nat \<Rightarrow> nat \<Rightarrow> mmu_unit \<Rightarrow> mmu_unit" where
  "push_request anIndex p u =
     (let u = put p (toggleReady ((req u p)\<lparr>theIndex := anIndex\<rparr>)) u
      in u\<lparr>theLookUpEntries := theLookUpEntries u @ [p]\<rparr>)"

text \<open>The trace-mode port looks the unmasked address up, walks at once and caches the result.\<close>

definition ensure_mmu :: "mmu_regs_t \<Rightarrow> nat \<Rightarrow> mmu_unit \<Rightarrow> mmu_unit res" where
  "ensure_mmu q junk u =
     (if theMMUInitialized u then Inr u
      else bindE (setupAddressSpaceSizesAndGranules junk (initRegsFromQEMUObject q blank_mmu)) (\<lambda>m.
           Inr (u\<lparr>theMMU := Some m, thePageWalker := setMMU (Some m) (thePageWalker u), theMMUInitialized := True\<rparr>)))"

definition push_TLBReqIn ::
    "((address \<times> TLBentry) list \<Rightarrow> (address \<times> TLBentry) list) \<Rightarrow> (address \<Rightarrow> address) \<Rightarrow> nat \<Rightarrow> mmu_regs_t \<Rightarrow> nat \<Rightarrow>
     nat \<Rightarrow> mmu_unit \<Rightarrow> mmu_unit res" where
  "push_TLBReqIn rehash readPhys fuel q junk p u =
     (if PerfectTLB u then Inr u
      else let va = theVaddr (req u p); ((hit, _), tlb) = lookUp va (if isInstr (req u p) then theInstrTLB u else theDataTLB u);
               u = (if isInstr (req u p) then u\<lparr>theInstrTLB := tlb\<rparr> else u\<lparr>theDataTLB := tlb\<rparr>)
      in if hit then Inr u
      else bindE (ensure_mmu q junk u) (\<lambda>u.
           bindE (push_back_trace readPhys fuel p (thePageWalker u)) (\<lambda>(_, w).
           let u = u\<lparr>thePageWalker := w\<rparr> in
           bindE (tlb_set rehash va (thePaddr (req u p)) (if isInstr (req u p) then theInstrTLB u else theDataTLB u)) (\<lambda>tlb.
           Inr (if isInstr (req u p) then u\<lparr>theInstrTLB := tlb\<rparr> else u\<lparr>theDataTLB := tlb\<rparr>)))))"


section \<open>The contract of a lookaside buffer\<close>

text \<open>
  What the MMU relies on: an insertion is found afterwards, and every other key either keeps its value or
  is forgotten. A buffer with this law never returns a stale value.
\<close>

locale lookaside =
  fixes get :: "'t \<Rightarrow> 'k \<Rightarrow> 'v option" and ins :: "'k \<Rightarrow> 'v \<Rightarrow> 't \<Rightarrow> 't res" and ok :: "'t \<Rightarrow> bool"
  assumes ins_ok: "ok t \<Longrightarrow> \<exists>t'. ins k v t = Inr t' \<and> ok t' \<and> get t' k = Some v \<and>
    (\<forall>j. j \<noteq> k \<longrightarrow> get t' j = None \<or> get t' j = get t j)"
begin

lemma run_never_stale:
  assumes "ok t"
  shows "\<exists>t'. foldE (\<lambda>(k, v). ins k v) ops t = Inr t' \<and> ok t' \<and>
    (\<forall>k. get t' k = None \<or> get t' k = (case map_of (rev ops) k of Some v \<Rightarrow> Some v | None \<Rightarrow> get t k))"
  using assms
proof (induction ops rule: rev_induct)
  case (snoc op ops)
  obtain k v where op: "op = (k, v)" by (cases op)
  obtain t1 where t1: "foldE (\<lambda>(k, v). ins k v) ops t = Inr t1" "ok t1"
      "\<forall>k. get t1 k = None \<or> get t1 k = (case map_of (rev ops) k of Some v \<Rightarrow> Some v | None \<Rightarrow> get t k)"
    using snoc by blast
  obtain t2 where t2: "ins k v t1 = Inr t2" "ok t2" "get t2 k = Some v"
      "\<forall>j. j \<noteq> k \<longrightarrow> get t2 j = None \<or> get t2 j = get t1 j"
    using ins_ok[OF t1(2)] by blast
  have "get t2 j = None \<or> get t2 j = (case map_of (rev (ops @ [op])) j of Some v \<Rightarrow> Some v | None \<Rightarrow> get t j)" for j
    using t1(3)[rule_format, of j] t2(3) t2(4)[rule_format, of j] by (cases "j = k") (auto simp: op)
  moreover have "foldE (\<lambda>(k, v). ins k v) (ops @ [op]) t = Inr t2" using t1(1) t2(1) by (simp add: foldE_append op)
  ultimately show ?case using t2(2) by blast
qed auto

end

section \<open>TLBs meet the contract\<close>

definition tlb_get :: "TLB \<Rightarrow> address \<Rightarrow> address option" where
  "tlb_get tlb a = map_option entry_Paddr (map_of (theTLB tlb) a)"

definition tlb_ok :: "TLB \<Rightarrow> bool" where
  "tlb_ok tlb \<longleftrightarrow> 0 < theSize tlb \<and> length (theTLB tlb) \<le> theSize tlb \<and> distinct (map fst (theTLB tlb)) \<and>
     (\<forall>(k, e) \<in> set (theTLB tlb). entry_Vaddr e = k)"

text \<open>The entries an eviction may choose: those whose rate is largest.\<close>

definition oldest :: "TLB \<Rightarrow> address \<Rightarrow> bool" where
  "oldest tlb k \<longleftrightarrow> (\<exists>e. (k, e) \<in> set (theTLB tlb) \<and> (\<forall>x \<in> set (theTLB tlb). theRate (snd x) \<le> theRate e))"

lemma lookUp_loop_map_of:
  "\<forall>(k, e) \<in> set es. entry_Vaddr e = k \<Longrightarrow> distinct (map fst es) \<Longrightarrow>
   lookUp_loop a es ret = (case map_of es a of None \<Rightarrow> ret | Some e \<Rightarrow> (True, entry_Paddr e))"
proof (induction es arbitrary: ret)
  case (Cons x es)
  obtain k e where x: "x = (k, e)" by (cases x)
  have "entry_Vaddr e = k" using Cons.prems(1) by (simp add: x)
  moreover have "map_of es k = None" using Cons.prems(2) by (simp add: x map_of_eq_None_iff)
  ultimately show ?case using Cons by (cases "k = a") (auto simp: x)
qed simp

lemma map_of_touch: "map_of (map (\<lambda>(k, e). (k, touch a e)) es) b = map_option (touch a) (map_of es b)"
  by (induction es) auto

lemma touch_simps [simp]: "entry_Vaddr (touch a e) = entry_Vaddr e" "entry_Paddr (touch a e) = entry_Paddr e"
  by (simp_all add: touch_def)

lemma lookUp_correct:
  assumes "tlb_ok tlb" "lookUp a tlb = (r, tlb')"
  shows "r = (case tlb_get tlb a of None \<Rightarrow> (False, 0) | Some pa \<Rightarrow> (True, pa))" "tlb_ok tlb'" "tlb_get tlb' = tlb_get tlb"
    "theSize tlb' = theSize tlb"
proof -
  have d: "distinct (map fst (theTLB tlb))" "\<forall>(k, e) \<in> set (theTLB tlb). entry_Vaddr e = k"
    using assms(1) by (simp_all add: tlb_ok_def)
  have r: "r = lookUp_loop a (theTLB tlb) (False, 0)"
    and t: "tlb' = tlb\<lparr>theTLB := map (\<lambda>(k, e). (k, touch a e)) (theTLB tlb)\<rparr>"
    using assms(2) by (simp_all add: lookUp_def)
  show "r = (case tlb_get tlb a of None \<Rightarrow> (False, 0) | Some pa \<Rightarrow> (True, pa))"
    unfolding r lookUp_loop_map_of[OF d(2,1)] by (simp add: tlb_get_def split: option.split)
  have "map fst (map (\<lambda>(k, e). (k, touch a e)) (theTLB tlb)) = map fst (theTLB tlb)" by (simp add: case_prod_beta comp_def)
  then show "tlb_ok tlb'" using assms(1) unfolding t tlb_ok_def by (auto simp del: map_map)
  show "tlb_get tlb' = tlb_get tlb"
    by (rule ext) (simp add: t tlb_get_def map_of_touch option.map_comp comp_def)
  show "theSize tlb' = theSize tlb" by (simp add: t)
qed

lemma evict_scan_max:
  "evict_scan es r \<in> insert r (set es) \<and> theRate (snd r) \<le> theRate (snd (evict_scan es r)) \<and>
   (\<forall>x \<in> set es. theRate (snd x) \<le> theRate (snd (evict_scan es r)))"
proof (induction es arbitrary: r)
  case (Cons e es)
  show ?case using Cons[of "if theRate (snd r) < theRate (snd e) then e else r"] by (auto split: if_splits)
qed simp

lemma evict_correct:
  assumes "tlb_ok tlb" "length (theTLB tlb) = theSize tlb"
  shows "\<exists>k. evict tlb = Inr (tlb\<lparr>theTLB := filter (\<lambda>x. fst x \<noteq> k) (theTLB tlb)\<rparr>) \<and> oldest tlb k"
proof -
  obtain e es where t: "theTLB tlb = e # es" using assms by (cases "theTLB tlb") (auto simp: tlb_ok_def)
  define r where "r = evict_scan (e # es) e"
  have "r \<in> set (theTLB tlb)" "\<forall>x \<in> set (theTLB tlb). theRate (snd x) \<le> theRate (snd r)"
    using evict_scan_max[of "e # es" e] by (auto simp: r_def t)
  then have "oldest tlb (fst r)" unfolding oldest_def by (intro exI[of _ "snd r"]) simp
  moreover have "evict tlb = Inr (tlb\<lparr>theTLB := filter (\<lambda>x. fst x \<noteq> fst r) (theTLB tlb)\<rparr>)"
    by (simp add: evict_def t r_def Let_def del: evict_scan.simps)
  ultimately show ?thesis by blast
qed


lemma map_of_perm:
  assumes "mset xs = mset ys" "distinct (map fst ys)"
  shows "map_of xs = map_of ys" "distinct (map fst xs)" "length xs = length ys" "set xs = set ys"
proof -
  show d: "distinct (map fst xs)" using assms by (metis mset_eq_imp_distinct_iff mset_map)
  show "set xs = set ys" using assms(1) by (rule mset_eq_setD)
  then show "map_of xs = map_of ys" using map_of_inject_set[OF d assms(2)] by simp
  show "length xs = length ys" using assms(1) by (rule mset_eq_length)
qed

lemma map_of_filter_key: "map_of (filter (\<lambda>x. fst x \<noteq> k) es) j = (if j = k then None else map_of es j)"
  by (induction es) auto

lemma length_filter_key:
  "k \<in> fst ` set es \<Longrightarrow> length (filter (\<lambda>x. fst x \<noteq> k) es) < length es"
  by (auto intro!: length_filter_less)

lemma tlb_assign_facts:
  "theSize (tlb_assign a pa tlb) = theSize tlb" "length (theTLB (tlb_assign a pa tlb)) = length (theTLB tlb)"
  "tlb_get (tlb_assign a pa tlb) j = (if j = a \<and> tlb_get tlb a \<noteq> None then Some pa else tlb_get tlb j)"
  "tlb_ok (tlb_assign a pa tlb) = tlb_ok tlb"
proof -
  define f where "f = (\<lambda>(k, e). if k = a then (k, e\<lparr>entry_Paddr := pa\<rparr>) else (k, e :: TLBentry))"
  have m: "map_of (map f es) j = (if j = a then map_option (entry_Paddr_update (\<lambda>_. pa)) (map_of es j) else map_of es j)" for es j
    by (induction es) (auto simp: f_def)
  have k: "map fst (map f es) = map fst es" for es by (auto simp: f_def)
  have v: "(\<forall>(k, e) \<in> set (map f es). entry_Vaddr e = k) \<longleftrightarrow> (\<forall>(k, e) \<in> set es. entry_Vaddr e = k)" for es
    by (induction es) (auto simp: f_def split: if_splits)
  have t: "tlb_assign a pa tlb = tlb\<lparr>theTLB := map f (theTLB tlb)\<rparr>" by (simp add: tlb_assign_def f_def)
  show "theSize (tlb_assign a pa tlb) = theSize tlb" "length (theTLB (tlb_assign a pa tlb)) = length (theTLB tlb)"
    by (simp_all add: t)
  show "tlb_get (tlb_assign a pa tlb) j = (if j = a \<and> tlb_get tlb a \<noteq> None then Some pa else tlb_get tlb j)"
    by (cases "map_of (theTLB tlb) a") (auto simp: t tlb_get_def m)
  show "tlb_ok (tlb_assign a pa tlb) = tlb_ok tlb" unfolding tlb_ok_def t using k v by (simp del: map_map)
qed

lemma tlb_index_correct:
  assumes perm: "\<And>es. mset (rehash es) = mset es" and ok: "tlb_ok tlb"
  shows "\<exists>tlb'. tlb_index rehash a tlb = Inr tlb' \<and> tlb_ok tlb' \<and> theSize tlb' = theSize tlb \<and> tlb_get tlb' a \<noteq> None \<and>
    (\<exists>victim. (\<forall>j. j \<noteq> a \<longrightarrow> tlb_get tlb' j = (if victim = Some j then None else tlb_get tlb j)) \<and>
      (\<forall>v. victim = Some v \<longrightarrow> tlb_get tlb a = None \<and> length (theTLB tlb) = theSize tlb \<and> oldest tlb v))"
proof (cases "a \<in> fst ` set (theTLB tlb)")
  case True
  then have "tlb_get tlb a \<noteq> None" by (auto simp: tlb_get_def map_of_eq_None_iff)
  then show ?thesis using True ok by (intro exI[of _ tlb]) (auto simp: tlb_index_def intro!: exI[of _ None])
next
  case False
  define full where "full = (length (theTLB tlb) = theSize tlb)"
  obtain k where k: "evict tlb = Inr (tlb\<lparr>theTLB := filter (\<lambda>x. fst x \<noteq> k) (theTLB tlb)\<rparr>)" "oldest tlb k" if full
    using evict_correct[OF ok] by (auto simp: full_def)
  define es where "es = (if full then filter (\<lambda>x. fst x \<noteq> k) (theTLB tlb) else theTLB tlb)"
  define new where "new = (a, TLBentry_new a) # es"
  have e: "tlb_index rehash a tlb = Inr (tlb\<lparr>theTLB := rehash new\<rparr>)"
    using False k by (auto simp: tlb_index_def new_def es_def full_def)
  have sub: "set es \<subseteq> set (theTLB tlb)" by (auto simp: es_def)
  have d: "distinct (map fst new)" using False sub ok by (auto simp: new_def es_def tlb_ok_def distinct_map_filter)
  have "length es < theSize tlb"
    using ok length_filter_key[of k "theTLB tlb"] k(2) by (cases full) (force simp: es_def full_def tlb_ok_def oldest_def)+
  then have "tlb_ok (tlb\<lparr>theTLB := rehash new\<rparr>)"
    using ok sub map_of_perm[OF perm d] by (auto simp: tlb_ok_def new_def TLBentry_new_def)
  moreover have "tlb_get (tlb\<lparr>theTLB := rehash new\<rparr>) j =
      (if j = a then Some 0 else if full \<and> j = k then None else tlb_get tlb j)" for j
    using map_of_perm(1)[OF perm d]
    by (simp add: tlb_get_def new_def es_def map_of_filter_key TLBentry_new_def)
  moreover have "tlb_get tlb a = None" using False by (simp add: tlb_get_def map_of_eq_None_iff)
  ultimately show ?thesis
    using e k(2) by (intro exI[of _ "tlb\<lparr>theTLB := rehash new\<rparr>"]) (auto simp: full_def split: if_splits intro!: exI[of _ "if full then Some k else None"])
qed

text \<open>C34: Inserting a translation into a TLB of positive capacity succeeds whatever the iteration order of the
  underlying map: the capacity is respected, the page is found with its new frame, and every other page
  keeps its frame, except that when the page is new and the TLB full, one page with the largest rate - the
  one unused for the most lookups - is dropped.\<close>
theorem tlb_set_correct:
  assumes perm: "\<And>es. mset (rehash es) = mset es" and ok: "tlb_ok tlb"
  shows "\<exists>tlb'. tlb_set rehash a pa tlb = Inr tlb' \<and> tlb_ok tlb' \<and> theSize tlb' = theSize tlb \<and> tlb_get tlb' a = Some pa \<and>
    (\<exists>victim. (\<forall>j. j \<noteq> a \<longrightarrow> tlb_get tlb' j = (if victim = Some j then None else tlb_get tlb j)) \<and>
      (\<forall>v. victim = Some v \<longrightarrow> tlb_get tlb a = None \<and> length (theTLB tlb) = theSize tlb \<and> oldest tlb v))"
proof -
  obtain t1 victim where t1: "tlb_index rehash a tlb = Inr t1" "tlb_ok t1" "theSize t1 = theSize tlb" "tlb_get t1 a \<noteq> None"
      "\<forall>j. j \<noteq> a \<longrightarrow> tlb_get t1 j = (if victim = Some j then None else tlb_get tlb j)"
      "\<forall>v. victim = Some v \<longrightarrow> tlb_get tlb a = None \<and> length (theTLB tlb) = theSize tlb \<and> oldest tlb v"
    using tlb_index_correct[OF assms, of a] by blast
  have "tlb_set rehash a pa tlb = Inr (tlb_assign a pa t1)" using t1(1) by (simp add: tlb_set_def)
  moreover have "tlb_ok (tlb_assign a pa t1)" "theSize (tlb_assign a pa t1) = theSize tlb" "tlb_get (tlb_assign a pa t1) a = Some pa"
      "\<forall>j. j \<noteq> a \<longrightarrow> tlb_get (tlb_assign a pa t1) j = (if victim = Some j then None else tlb_get tlb j)"
    using t1(2-5) tlb_assign_facts[of a pa t1] by simp_all
  ultimately show ?thesis using t1(6) by blast
qed


definition demo_tlb :: TLB where
  "demo_tlb = \<lparr>theTLB = [(0x1000, \<lparr>theRate = 3, entry_Vaddr = 0x1000, entry_Paddr = 0x8000\<rparr>),
                          (0x2000, \<lparr>theRate = 9, entry_Vaddr = 0x2000, entry_Paddr = 0x9000\<rparr>)], theSize = 2\<rparr>"

theorem tlb_set_correct_witness:
  "\<exists>tlb'. tlb_set rev 0x3000 0x7000 demo_tlb = Inr tlb' \<and> tlb_get tlb' 0x3000 = Some 0x7000 \<and> length (theTLB tlb') \<le> 2"
proof -
  have "tlb_ok demo_tlb" by (simp add: tlb_ok_def demo_tlb_def)
  from tlb_set_correct[where rehash = rev and a = "0x3000" and pa = "0x7000", OF _ this]
  show ?thesis by (auto simp: tlb_ok_def demo_tlb_def)
qed

lemma tlb_lookaside:
  assumes "\<And>es. mset (rehash es) = mset es"
  shows "lookaside tlb_get (tlb_set rehash) tlb_ok"
proof
  fix t k v assume "tlb_ok t"
  obtain t1 where t1: "tlb_index rehash k t = Inr t1" "tlb_ok t1" "tlb_get t1 k \<noteq> None"
      "\<forall>j. j \<noteq> k \<longrightarrow> tlb_get t1 j = None \<or> tlb_get t1 j = tlb_get t j"
    using tlb_index_correct[OF assms \<open>tlb_ok t\<close>, of k] by metis
  then show "\<exists>t'. tlb_set rehash k v t = Inr t' \<and> tlb_ok t' \<and> tlb_get t' k = Some v \<and>
      (\<forall>j. j \<noteq> k \<longrightarrow> tlb_get t' j = None \<or> tlb_get t' j = tlb_get t j)"
    using tlb_assign_facts[of k v t1] by (intro exI[of _ "tlb_assign k v t1"]) (auto simp: tlb_set_def)
qed

interpretation plain_tlb: lookaside tlb_get "tlb_set id" tlb_ok
  by (rule tlb_lookaside) simp

text \<open>A TLB never returns a stale translation: after any sequence of insertions, in whatever order the map keeps
  its entries, a page that is found has the frame of the last insertion for it, or the frame it had at the
  start when it was not inserted since.\<close>
theorem tlb_never_stale:
  assumes "\<And>es. mset (rehash es) = mset es" "tlb_ok tlb"
  shows "\<exists>tlb'. foldE (\<lambda>(va, pa). tlb_set rehash va pa) ops tlb = Inr tlb' \<and> tlb_ok tlb' \<and>
    (\<forall>va. tlb_get tlb' va = None \<or>
          tlb_get tlb' va = (case map_of (rev ops) va of Some pa \<Rightarrow> Some pa | None \<Rightarrow> tlb_get tlb va))"
  by (rule lookaside.run_never_stale[OF tlb_lookaside[OF assms(1)] assms(2)])

theorem tlb_never_stale_witness:
  "\<exists>tlb'. foldE (\<lambda>(va, pa). tlb_set id va pa) [(0x3000, 1), (0x1000, 2), (0x3000, 4)] demo_tlb = Inr tlb' \<and>
     tlb_get tlb' 0x3000 \<in> {None, Some 4}"
proof -
  have "tlb_ok demo_tlb" by (simp add: tlb_ok_def demo_tlb_def)
  from tlb_never_stale[where rehash = id and ops = "[(0x3000, 1), (0x1000, 2), (0x3000, 4)]", OF _ this]
  show ?thesis by fastforce
qed

section \<open>Requests are conserved\<close>

definition pending :: "mmu_unit \<Rightarrow> nat list" where
  "pending u = theLookUpEntries u @ thePageWalkEntries u @ standingEntries u"

definition answered :: "mmu_unit \<Rightarrow> nat list" where
  "answered u = map fst (iTranslationReply u) @ map fst (dTranslationReply u)"

text \<open>A request that may wait in the unit: it is for instructions or data, and not annulled.\<close>

definition sane :: "Translation \<Rightarrow> bool" where
  "sane t \<longleftrightarrow> isInstr t \<noteq> isData t \<and> \<not> theAnnul t"

definition walker_ready :: "mmu_t option \<Rightarrow> bool" where
  "walker_ready mo \<longleftrightarrow> (\<exists>m junk T0 T1. mo = Some m \<and> mmu_ready m junk T0 T1)"

definition core_ok :: "mmu_unit \<Rightarrow> bool" where
  "core_ok u \<longleftrightarrow> tlb_ok (theInstrTLB u) \<and> tlb_ok (theDataTLB u) \<and> walker_ready (pw_MMU (thePageWalker u))"

definition unit_ok :: "mmu_unit \<Rightarrow> bool" where
  "unit_ok u \<longleftrightarrow> core_ok u \<and> (\<forall>p \<in> set (pending u). sane (req u p))"

definition account :: "mmu_unit \<Rightarrow> nat multiset" where
  "account u = mset (pending u) + mset (answered u)"

text \<open>The effect of handling request \<open>p\<close>, which is in no queue when the handler starts.\<close>

definition handled :: "nat \<Rightarrow> mmu_unit \<Rightarrow> mmu_unit \<Rightarrow> bool" where
  "handled p u u' \<longleftrightarrow> core_ok u' \<and> (\<forall>q. q \<noteq> p \<longrightarrow> req u' q = req u q) \<and> sane (req u' p) \<and>
     account u' = add_mset p (account u) \<and> theLookUpEntries u' = theLookUpEntries u \<and> PerfectTLB u' = PerfectTLB u \<and>
     set (pending u') \<subseteq> insert p (set (pending u))"

lemma push_back_total:
  assumes "mmu_ready m junk T0 T1" "pw_MMU w = Some m"
  shows "\<exists>ok trs i. push_back p w = Inr (ok, w\<lparr>theTranslationTransports := trs, TheInitialized := i\<rparr>)"
proof (cases "unat (theVaddr (heap w p)) < 2 ^ (64 - T0) \<or> 2 ^ 64 - 2 ^ (64 - T1) \<le> unat (theVaddr (heap w p))")
  case False
  then have "push_back p w = Inr (False, w)"
    using ready_range[OF assms(1)] assms(2) by (simp add: push_back_def InitialTranslationSetup_def deref_def)
  then show ?thesis by (intro exI[of _ False] exI[of _ "theTranslationTransports w"] exI[of _ "TheInitialized w"]) simp
next
  case True
  then obtain st where "InitialTranslationSetup (p, TranslationState_new) w = Inr (True, (p, st))"
    using InitialTranslationSetup_correct[OF assms refl refl] by blast
  then show ?thesis by (auto simp: push_back_def)
qed


lemma put_simps [simp]:
  "theInstrTLB (put p t u) = theInstrTLB u" "theDataTLB (put p t u) = theDataTLB u"
  "heap (thePageWalker (put p t u)) = (heap (thePageWalker u))(p := t)" "pw_MMU (thePageWalker (put p t u)) = pw_MMU (thePageWalker u)"
  "theLookUpEntries (put p t u) = theLookUpEntries u" "thePageWalkEntries (put p t u) = thePageWalkEntries u"
  "standingEntries (put p t u) = standingEntries u" "PerfectTLB (put p t u) = PerfectTLB u"
  "iTranslationReply (put p t u) = iTranslationReply u" "dTranslationReply (put p t u) = dTranslationReply u"
  "alreadyPW (put p t u) = alreadyPW u"
  by (simp_all add: put_def)

lemma send_simps [simp]:
  "theInstrTLB (sendTLBresponse p u) = theInstrTLB u" "theDataTLB (sendTLBresponse p u) = theDataTLB u"
  "thePageWalker (sendTLBresponse p u) = thePageWalker u" "theLookUpEntries (sendTLBresponse p u) = theLookUpEntries u"
  "thePageWalkEntries (sendTLBresponse p u) = thePageWalkEntries u" "standingEntries (sendTLBresponse p u) = standingEntries u"
  "PerfectTLB (sendTLBresponse p u) = PerfectTLB u"
  by (simp_all add: sendTLBresponse_def)

lemma pending_put [simp]: "pending (put p t u) = pending u"
  by (simp add: pending_def)

lemma pending_send [simp]: "pending (sendTLBresponse p u) = pending u"
  by (simp add: pending_def)

lemma account_put [simp]: "account (put p t u) = account u"
  by (simp add: account_def pending_def answered_def)

lemma account_send [simp]: "account (sendTLBresponse p u) = add_mset p (account u)"
  by (simp add: account_def pending_def answered_def sendTLBresponse_def)

lemma core_put [simp]: "core_ok (put p t u) = core_ok u"
  by (simp add: core_ok_def)

lemma core_send [simp]: "core_ok (sendTLBresponse p u) = core_ok u"
  by (simp add: core_ok_def)

lemma answer_handled:
  assumes "core_ok u" "sane t"
  shows "handled p u (sendTLBresponse p (put p t u))"
  using assms by (auto simp: handled_def)

lemma handled_trans:
  assumes "handled p u1 u2" "core_ok u \<Longrightarrow> core_ok u1" "\<forall>q. q \<noteq> p \<longrightarrow> req u1 q = req u q" "account u1 = account u"
    "theLookUpEntries u1 = theLookUpEntries u" "PerfectTLB u1 = PerfectTLB u" "pending u1 = pending u"
  shows "handled p u u2"
  using assms by (auto simp: handled_def)

lemma bus_lookUp_facts:
  assumes "core_ok u" "bus_lookUp p u = (r, u1)"
  shows "core_ok u1" "thePageWalker u1 = thePageWalker u" "account u1 = account u" "pending u1 = pending u"
    "theLookUpEntries u1 = theLookUpEntries u" "PerfectTLB u1 = PerfectTLB u"
proof -
  obtain r1 t1 where t1: "lookUp (page_of (theVaddr (req u p))) (theInstrTLB u) = (r1, t1)" by fastforce
  obtain r2 t2 where t2: "lookUp (page_of (theVaddr (req u p))) (theDataTLB u) = (r2, t2)" by fastforce
  have k: "tlb_ok t1" "tlb_ok t2"
    using lookUp_correct(2)[OF _ t1] lookUp_correct(2)[OF _ t2] assms(1) by (simp_all add: core_ok_def)
  show "core_ok u1" "thePageWalker u1 = thePageWalker u" "account u1 = account u" "pending u1 = pending u"
    "theLookUpEntries u1 = theLookUpEntries u" "PerfectTLB u1 = PerfectTLB u"
    using assms k t1 t2 by (auto simp: bus_lookUp_def core_ok_def account_def pending_def answered_def split: if_splits)
qed

lemma sane_updates [simp]:
  "sane (setHit t) = sane t" "sane (setMiss t) = sane t" "sane (t\<lparr>thePaddr := a\<rparr>) = sane t" "sane (t\<lparr>thePageFault := b\<rparr>) = sane t"
  by (simp_all add: sane_def setHit_def setMiss_def isInstr_def isData_def)

lemma bus_miss_handled:
  assumes "core_ok u" "sane (req u p)"
  shows "\<exists>u'. bus_miss l2p p u = Inr u' \<and> handled p u u'"
proof (cases "page_of (theVaddr (req u p)) \<in> alreadyPW u")
  case True
  then show ?thesis using assms
    by (auto simp: bus_miss_def handled_def core_ok_def account_def pending_def answered_def)
next
  case False
  define u1 where "u1 = put p (setMiss (req u p)) u"
  obtain m junk T0 T1 where m: "pw_MMU (thePageWalker u1) = Some m" "mmu_ready m junk T0 T1"
    using assms(1) by (auto simp: core_ok_def walker_ready_def u1_def)
  obtain ok trs i where pb: "push_back p (thePageWalker u1) =
      Inr (ok, (thePageWalker u1)\<lparr>theTranslationTransports := trs, TheInitialized := i\<rparr>)"
    using push_back_total[OF m(2,1)] by blast
  define u2 where "u2 = u1\<lparr>thePageWalker := (thePageWalker u1)\<lparr>theTranslationTransports := trs, TheInitialized := i\<rparr>\<rparr>"
  have u2: "core_ok u2" "account u2 = account u" "pending u2 = pending u" "theLookUpEntries u2 = theLookUpEntries u"
      "PerfectTLB u2 = PerfectTLB u" "heap (thePageWalker u2) = (heap (thePageWalker u))(p := setMiss (req u p))"
    using assms(1) m by (auto simp: u2_def u1_def core_ok_def account_def pending_def answered_def put_def)
  show ?thesis
  proof (cases ok)
    case True
    define u3 where "u3 = u2\<lparr>alreadyPW := insert (page_of (theVaddr (req u p))) (alreadyPW u2), thePageWalkEntries := thePageWalkEntries u2 @ [p]\<rparr>"
    have "bus_miss l2p p u = Inr u3"
      using False True pb by (simp add: bus_miss_def u3_def u2_def u1_def[symmetric])
    moreover have "core_ok u3" "account u3 = add_mset p (account u2)" "set (pending u3) \<subseteq> insert p (set (pending u2))"
      using u2(1) by (auto simp: u3_def core_ok_def account_def pending_def answered_def)
    then have "handled p u u3" using u2 assms(2) by (simp add: handled_def u3_def)
    ultimately show ?thesis by blast
  next
    case notok: False
    define t where "t = (setHit (req u2 p))\<lparr>thePaddr := l2p (isInstr (req u2 p)) (theVaddr (req u2 p))\<rparr>"
    have "bus_miss l2p p u = Inr (sendTLBresponse p (put p t u2))"
      using False notok pb by (simp add: bus_miss_def u2_def t_def u1_def[symmetric])
    moreover have "handled p u2 (sendTLBresponse p (put p t u2))"
      using u2(1,6) assms(2) by (intro answer_handled) (simp_all add: t_def)
    then have "handled p u (sendTLBresponse p (put p t u2))"
      by (rule handled_trans) (simp_all add: u2)
    ultimately show ?thesis by blast
  qed
qed


lemma process_lookup_handled:
  assumes "core_ok u" "sane (req u p)" "PerfectTLB u \<Longrightarrow> \<not> thePageFault (req u p)"
  shows "\<exists>u'. process_lookup l2p p u = Inr u' \<and> handled p u u'"
proof -
  obtain hit pa u1 where u1: "bus_lookUp p u = ((hit, pa), u1)" by (cases "bus_lookUp p u") auto
  note f = bus_lookUp_facts[OF assms(1) u1]
  have lift: "handled p u u2" if "handled p u1 u2" for u2
    using that f by (auto intro: handled_trans)
  have hit: "handled p u1 (bus_hit p x (put p t u1))" if "sane t" for x t
  proof -
    have "handled p (put p t u1) (bus_hit p x (put p t u1))"
      unfolding bus_hit_def using f(1) that by (intro answer_handled) simp_all
    then show ?thesis by (rule handled_trans) simp_all
  qed
  have put_id: "put p (req u1 p) u1 = u1" by (simp add: put_def upd_def)
  have as: "isInstr (req u p) \<noteq> isData (req u p)" using assms(2) by (simp add: sane_def)
  consider "PerfectTLB u" | "\<not> PerfectTLB u" hit | "\<not> PerfectTLB u" "\<not> hit" by blast
  then show ?thesis
  proof cases
    case 1
    define pp where "pp = l2p (isInstr (req u p)) (theVaddr (req u p))"
    obtain t where "(if pp = 0xFFFFFFFFFFFFFFFF then setPagefault (req u p) else Inr (req u p)) = Inr t" "sane t"
      using assms(2,3) 1 by (cases "pp = 0xFFFFFFFFFFFFFFFF") (auto simp: setPagefault_def dbg_assert_def)
    moreover from this have "process_lookup l2p p u = Inr (bus_hit p pp (put p t u1))"
      using 1 as f u1 by (auto simp: process_lookup_def dbg_assert_def pp_def Let_def split: if_splits)
    ultimately show ?thesis using lift hit by blast
  next
    case 2
    then have "process_lookup l2p p u = Inr (bus_hit p pa u1)"
      using as f u1 by (simp add: process_lookup_def dbg_assert_def)
    moreover have "handled p u1 (bus_hit p pa u1)" using hit[of "req u1 p" pa] put_id f(2) assms(2) by simp
    ultimately show ?thesis using lift by blast
  next
    case 3
    then have "process_lookup l2p p u = bus_miss l2p p u1"
      using as f u1 by (simp add: process_lookup_def dbg_assert_def)
    then show ?thesis using bus_miss_handled[of u1 p l2p] f(1,2) assms(2) lift by auto
  qed
qed

lemma lookups_conserve:
  assumes "core_ok u" "\<forall>p \<in> set ps \<union> set (pending u). sane (req u p)"
    "PerfectTLB u \<Longrightarrow> distinct ps \<and> (\<forall>p \<in> set ps. \<not> thePageFault (req u p))"
  shows "\<exists>u'. foldE (process_lookup l2p) ps u = Inr u' \<and> unit_ok u' \<and> account u' = mset ps + account u \<and>
    theLookUpEntries u' = theLookUpEntries u"
  using assms
proof (induction ps arbitrary: u)
  case Nil
  then show ?case by (simp add: unit_ok_def)
next
  case (Cons p ps)
  obtain u1 where u1: "process_lookup l2p p u = Inr u1" "handled p u u1"
    using process_lookup_handled[of u p l2p] Cons.prems by auto
  have "\<exists>u'. foldE (process_lookup l2p) ps u1 = Inr u' \<and> unit_ok u' \<and> account u' = mset ps + account u1 \<and>
      theLookUpEntries u' = theLookUpEntries u1"
  proof (rule Cons.IH)
    show "\<forall>q \<in> set ps \<union> set (pending u1). sane (req u1 q)"
    proof
      fix q assume "q \<in> set ps \<union> set (pending u1)"
      then have "q = p \<or> q \<noteq> p \<and> q \<in> set (p # ps) \<union> set (pending u)" using u1(2) by (auto simp: handled_def)
      then show "sane (req u1 q)" using u1(2) Cons.prems(2) by (auto simp: handled_def)
    qed
    show "PerfectTLB u1 \<Longrightarrow> distinct ps \<and> (\<forall>q \<in> set ps. \<not> thePageFault (req u1 q))"
      using u1(2) Cons.prems(3) by (auto simp: handled_def)
  qed (use u1(2) in \<open>simp add: handled_def\<close>)
  then show ?case using u1 by (auto simp: handled_def)
qed


text \<open>The loop over the walks holds the walks still to be examined itself; the other queues and the replies:\<close>

definition others :: "mmu_unit \<Rightarrow> nat list" where
  "others u = theLookUpEntries u @ standingEntries u @ answered u"

definition waiting :: "mmu_unit \<Rightarrow> nat list" where
  "waiting u = theLookUpEntries u @ standingEntries u"

lemma release_facts:
  "mset (others (release_standing p u)) = mset (others u)" "set (waiting (release_standing p u)) = set (waiting u)"
  "thePageWalker (release_standing p u) = thePageWalker u" "core_ok (release_standing p u) = core_ok u"
proof -
  have "mset xs = mset (filter P xs) + mset (filter (\<lambda>x. \<not> P x) xs)" for xs :: "nat list" and P
    by (induction xs) auto
  then show "mset (others (release_standing p u)) = mset (others u)"
    by (simp add: release_standing_def others_def answered_def Let_def)
  show "set (waiting (release_standing p u)) = set (waiting u)"
    by (auto simp: release_standing_def waiting_def Let_def)
qed (simp_all add: release_standing_def core_ok_def Let_def)

lemma finish_walk_correct:
  assumes perm: "\<And>es. mset (rehash es) = mset es" and "core_ok u" "sane (req u p)"
  shows "\<exists>u'. finish_walk rehash p u = Inr u' \<and> core_ok u' \<and> thePageWalker u' = thePageWalker u \<and>
    mset (others u') = add_mset p (mset (others u)) \<and> set (waiting u') = set (waiting u)"
proof -
  define u1 where "u1 = release_standing p u"
  note r = release_facts[of p u, folded u1_def]
  have ok: "tlb_ok (theInstrTLB u1)" "tlb_ok (theDataTLB u1)" using r(4) assms(2) by (simp_all add: core_ok_def)
  obtain ti td where t: "tlb_set rehash (page_of (theVaddr (req u p))) (thePaddr (req u p) AND PAGEMASK) (theInstrTLB u1) = Inr ti"
      "tlb_ok ti" "tlb_set rehash (page_of (theVaddr (req u p))) (thePaddr (req u p) AND PAGEMASK) (theDataTLB u1) = Inr td" "tlb_ok td"
    using lookaside.ins_ok[OF tlb_lookaside[OF perm] ok(1)] lookaside.ins_ok[OF tlb_lookaside[OF perm] ok(2)] by metis
  define u2 where "u2 = (if isInstr (req u p) then u1\<lparr>theInstrTLB := ti\<rparr> else u1\<lparr>theDataTLB := td\<rparr>)"
  have "isInstr (req u p) \<noteq> isData (req u p)" using assms(3) by (simp add: sane_def)
  then have "finish_walk rehash p u = Inr (sendTLBresponse p u2)"
    using t(1,3) r(3) by (simp add: finish_walk_def Let_def u1_def[symmetric] u2_def dbg_assert_def)
  moreover have "core_ok u2" "thePageWalker u2 = thePageWalker u" "others u2 = others u1" "waiting u2 = waiting u1"
    using r t(2,4) assms(2) by (auto simp: u2_def core_ok_def others_def waiting_def answered_def)
  moreover have "mset (others (sendTLBresponse p u2)) = add_mset p (mset (others u2))" "waiting (sendTLBresponse p u2) = waiting u2"
    by (simp_all add: others_def waiting_def answered_def sendTLBresponse_def)
  ultimately show ?thesis using r by simp
qed

lemma walks_loop_correct:
  assumes perm: "\<And>es. mset (rehash es) = mset es"
    and "core_ok u" "\<forall>p \<in> set ps \<union> set (waiting u). sane (req u p)"
  shows "\<exists>u'. walks_loop rehash ps u = Inr u' \<and> unit_ok u' \<and> account u' = mset ps + mset (others u) \<and>
    (\<forall>p \<in> set (thePageWalkEntries u'). p \<in> set ps) \<and>
    (thePageWalkEntries u' = [] \<or> \<not> theDone (req u' (hd (thePageWalkEntries u'))))"
  using assms(2,3)
proof (induction ps arbitrary: u)
  case Nil
  then show ?case
    by (simp add: unit_ok_def core_ok_def account_def pending_def others_def waiting_def answered_def)
next
  case (Cons p ps)
  have s: "sane (req u p)" using Cons.prems(2) by simp
  show ?case
  proof (cases "theDone (req u p)")
    case False
    then show ?thesis using Cons.prems s
      by (auto simp: unit_ok_def core_ok_def account_def pending_def others_def waiting_def answered_def sane_def)
  next
    case True
    obtain u1 where u1: "finish_walk rehash p u = Inr u1" "core_ok u1" "thePageWalker u1 = thePageWalker u"
        "mset (others u1) = add_mset p (mset (others u))" "set (waiting u1) = set (waiting u)"
      using finish_walk_correct[OF perm Cons.prems(1) s] by blast
    have "\<forall>q \<in> set ps \<union> set (waiting u1). sane (req u1 q)" using Cons.prems(2) u1(3,5) by auto
    from Cons.IH[OF u1(2) this] show ?thesis using True s u1(1,4) by (auto simp: sane_def)
  qed
qed

text \<open>C32: The bus cycle of the MMU loses and duplicates no request. From a unit with sound TLBs, a configured
  walker and well-formed requests, it completes; every lookup request is answered, starts a walk or waits
  for the walk of its page, finished walks are answered and release waiting requests, and the requests
  pending or answered afterwards are exactly those pending or answered before. No finished walk is left at
  the head of the queue.\<close>
theorem busCycle_conserves:
  assumes "\<And>es. mset (rehash es) = mset es" "unit_ok u"
    "PerfectTLB u \<Longrightarrow> distinct (theLookUpEntries u) \<and> (\<forall>p \<in> set (theLookUpEntries u). \<not> thePageFault (req u p))"
  shows "\<exists>u'. busCycle rehash l2p u = Inr u' \<and> unit_ok u' \<and>
    mset (pending u') + mset (answered u') = mset (pending u) + mset (answered u) \<and>
    (thePageWalkEntries u' = [] \<or> \<not> theDone (req u' (hd (thePageWalkEntries u'))))"
proof -
  let ?u0 = "u\<lparr>theLookUpEntries := []\<rparr>"
  have "core_ok ?u0" "\<forall>p \<in> set (theLookUpEntries u) \<union> set (pending ?u0). sane (req ?u0 p)"
    using assms(2) by (auto simp: unit_ok_def core_ok_def pending_def)
  then obtain u1 where u1: "foldE (process_lookup l2p) (theLookUpEntries u) ?u0 = Inr u1" "unit_ok u1"
      "account u1 = mset (theLookUpEntries u) + account ?u0" "theLookUpEntries u1 = []"
    using lookups_conserve[of ?u0 "theLookUpEntries u" l2p] assms(3) by auto
  have "core_ok u1" "\<forall>p \<in> set (thePageWalkEntries u1) \<union> set (waiting u1). sane (req u1 p)"
    using u1(2) by (auto simp: unit_ok_def pending_def waiting_def)
  then obtain u2 where "walks_loop rehash (thePageWalkEntries u1) u1 = Inr u2" "unit_ok u2"
      "account u2 = mset (thePageWalkEntries u1) + mset (others u1)"
      "thePageWalkEntries u2 = [] \<or> \<not> theDone (req u2 (hd (thePageWalkEntries u2)))"
    using walks_loop_correct[OF assms(1)] by blast
  moreover have "mset (thePageWalkEntries u1) + mset (others u1) = account u1"
    by (simp add: others_def account_def pending_def)
  moreover have "mset (theLookUpEntries u) + account ?u0 = account u"
    by (simp add: account_def pending_def answered_def)
  ultimately show ?thesis using u1 by (simp add: busCycle_def account_def)
qed


definition empty_tlb :: TLB where
  "empty_tlb = \<lparr>theTLB = [], theSize = 2\<rparr>"

definition demo_unit :: "walker \<Rightarrow> mmu_unit" where
  "demo_unit w = \<lparr>walker_created = True, thePageWalker = w, theInstrTLB = empty_tlb, theDataTLB = empty_tlb,
     theLookUpEntries = [], thePageWalkEntries = [], alreadyPW = {}, standingEntries = [], theMMU = Some demo_mmu,
     theMMUInitialized = True, PerfectTLB = False, iTranslationReply = [], dTranslationReply = [], MemoryRequestOut = [],
     ResyncOut = []\<rparr>"

definition timing_tr :: Translation where
  "timing_tr = blank_tr\<lparr>theVaddr := 0x5123, theReady := True, inTraceMode := False\<rparr>"

theorem busCycle_conserves_witness:
  "\<exists>u'. busCycle rev (\<lambda>_ _. 0) ((demo_unit (demo_walker timing_tr))\<lparr>theLookUpEntries := [3, 5]\<rparr>) = Inr u' \<and>
     mset (pending u') + mset (answered u') = {#3, 5#}"
proof -
  have "unit_ok ((demo_unit (demo_walker timing_tr))\<lparr>theLookUpEntries := [3, 5]\<rparr>)"
    using demo_mmu_ready
    by (auto simp: unit_ok_def core_ok_def walker_ready_def demo_unit_def demo_walker_def empty_tlb_def tlb_ok_def pending_def sane_def
        isInstr_def isData_def timing_tr_def blank_tr_def)
  from busCycle_conserves[where rehash = rev and l2p = "\<lambda>_ _. 0", OF _ this]
  show ?thesis by (auto simp: demo_unit_def pending_def answered_def)
qed

section \<open>Release of standing requests, faults and resynchronisation\<close>

lemma page_of_and: "page_of va = page_of va' \<Longrightarrow> va' AND page_of va = page_of va"
  unfolding page_of_def by (metis and.assoc and.commute and.idem)

text \<open>When a walk finishes whose page is marked as being walked, every standing request of the same page and the
  same kind goes back to the lookup queue, in order. A standing request of the other kind stays standing while the mark of its
  page is cleared: no walk is in flight any more that would release it.\<close>
theorem release_standing_kinds:
  assumes "page_of (theVaddr (req u p)) \<in> alreadyPW u" "q \<in> set (standingEntries u)"
    "page_of (theVaddr (req u q)) = page_of (theVaddr (req u p))"
  shows "if isInstr (req u q) = isInstr (req u p)
    then q \<in> set (theLookUpEntries (release_standing p u)) \<and> q \<notin> set (standingEntries (release_standing p u))
    else q \<in> set (standingEntries (release_standing p u)) \<and> page_of (theVaddr (req u q)) \<notin> alreadyPW (release_standing p u)"
  using assms page_of_and[of "theVaddr (req u p)" "theVaddr (req u q)"]
  by (auto simp: release_standing_def standing_match_def Let_def)

theorem release_standing_kinds_witness:
  "let u = (demo_unit (demo_walker timing_tr))\<lparr>standingEntries := [4], alreadyPW := {0x5000},
             thePageWalker := (demo_walker timing_tr)\<lparr>heap := (\<lambda>_. timing_tr)(4 := setInstr timing_tr)\<rparr>\<rparr>
   in 4 \<in> set (standingEntries (release_standing 3 u)) \<and> 0x5000 \<notin> alreadyPW (release_standing 3 u)"
  using release_standing_kinds[of "(demo_unit (demo_walker timing_tr))\<lparr>standingEntries := [4], alreadyPW := {0x5000},
             thePageWalker := (demo_walker timing_tr)\<lparr>heap := (\<lambda>_. timing_tr)(4 := setInstr timing_tr)\<rparr>\<rparr>" 3 4]
  by (simp add: Let_def timing_tr_def blank_tr_def setInstr_def page_of_def PAGEMASK_def isInstr_def)

text \<open>A walk that ended in a page fault is cached. The bus cycle inserts the physical address of every finished walk
  into the TLB without looking at the fault flag; for a fault this address is the one of the invalid
  descriptor, so the next lookup of the page hits with the frame that holds the translation table.\<close>
theorem fault_is_cached:
  assumes "\<And>es. mset (rehash es) = mset es" "unit_ok u" "theLookUpEntries u = []" "thePageWalkEntries u = [p]"
    "theDone (req u p)" "isData (req u p)"
  shows "\<exists>u'. busCycle rehash l2p u = Inr u' \<and>
    tlb_get (theDataTLB u') (page_of (theVaddr (req u p))) = Some (thePaddr (req u p) AND PAGEMASK)"
proof -
  have ok: "tlb_ok (theDataTLB (release_standing p u))"
    using assms(2) release_facts(4)[of p u] by (simp add: unit_ok_def core_ok_def)
  obtain td where td: "tlb_set rehash (page_of (theVaddr (req u p))) (thePaddr (req u p) AND PAGEMASK)
       (theDataTLB (release_standing p u)) = Inr td"
      "tlb_get td (page_of (theVaddr (req u p))) = Some (thePaddr (req u p) AND PAGEMASK)"
    using lookaside.ins_ok[OF tlb_lookaside[OF assms(1)] ok] by blast
  have s: "\<not> theAnnul (req u p)" "\<not> isInstr (req u p)"
    using assms(2,4,6) by (auto simp: unit_ok_def pending_def sane_def)
  have e: "u\<lparr>theLookUpEntries := []\<rparr> = u" using assms(3) by (cases u) simp
  have "busCycle rehash l2p u = walks_loop rehash [p] u"
    unfolding busCycle_def assms(3) e by (simp add: assms(4))
  also have "\<dots> = bindE (finish_walk rehash p u) (walks_loop rehash [])"
    using assms(5) s by simp
  also have "finish_walk rehash p u = Inr (sendTLBresponse p ((release_standing p u)\<lparr>theDataTLB := td\<rparr>))"
    using s assms(6) td(1) release_facts(3)[of p u] by (simp add: finish_walk_def Let_def dbg_assert_def)
  finally show ?thesis using td(2) by simp
qed

theorem fault_is_cached_witness:
  "\<exists>u'. busCycle id (\<lambda>_ _. 0) ((demo_unit (demo_walker (timing_tr\<lparr>theDone := True, thePageFault := True, thePaddr := 0x6028\<rparr>)))
        \<lparr>thePageWalkEntries := [3]\<rparr>) = Inr u' \<and> tlb_get (theDataTLB u') 0x5000 = Some 0x6000"
proof -
  let ?u = "(demo_unit (demo_walker (timing_tr\<lparr>theDone := True, thePageFault := True, thePaddr := 0x6028\<rparr>)))\<lparr>thePageWalkEntries := [3]\<rparr>"
  have "unit_ok ?u"
    using demo_mmu_ready
    by (auto simp: unit_ok_def core_ok_def walker_ready_def demo_unit_def demo_walker_def empty_tlb_def tlb_ok_def pending_def sane_def
        isInstr_def isData_def timing_tr_def blank_tr_def)
  from fault_is_cached[where rehash = id and l2p = "\<lambda>_ _. 0" and p = 3, OF _ this]
  show ?thesis
    by (simp add: demo_unit_def demo_walker_def timing_tr_def blank_tr_def isData_def page_of_def PAGEMASK_def)
qed

text \<open>A resynchronisation drops every pending request and sets the component's MMU up from the emulator's
  registers, but the page walker keeps the configuration it was given before: walks continue with the
  register values from before the resynchronisation.\<close>
theorem resync_keeps_old_walker_mmu:
  assumes "resyncMMU q junk i u = Inr u'"
  shows "pending u' = [] \<and> alreadyPW u' = {} \<and> (walker_created u \<and> TheInitialized (thePageWalker u) \<longrightarrow> theTranslationTransports (thePageWalker u') = []) \<and>
    (\<exists>m. theMMU u' = Some m \<and> setupAddressSpaceSizesAndGranules junk (initRegsFromQEMUObject q blank_mmu) = Inr m) \<and>
    pw_MMU (thePageWalker u') = pw_MMU (thePageWalker u) \<and> theInstrTLB u' = theInstrTLB u \<and> theDataTLB u' = theDataTLB u"
  using assms by (auto simp: resyncMMU_def pending_def annulAll_def bindE_Inr_iff)

theorem resync_keeps_old_walker_mmu_witness:
  "\<exists>u'. resyncMMU (demo_regs\<lparr>TCR := [0, 0x80190019, 0, 0]\<rparr>) 0 7 (demo_unit (demo_walker timing_tr)) = Inr u' \<and>
     theMMU u' \<noteq> pw_MMU (thePageWalker u') \<and> pw_MMU (thePageWalker u') = Some demo_mmu"
proof -
  have sh: "regs_shape (mmu_regs blank_mmu)" by (simp add: regs_shape_def blank_mmu_def)
  obtain m where m: "setupAddressSpaceSizesAndGranules 0 (initRegsFromQEMUObject (demo_regs\<lparr>TCR := [0, 0x80190019, 0, 0]\<rparr>) blank_mmu) = Inr m"
      "Gran0 m = Some (granule_of TG0_class 0 12 25)"
    using setup_granules_effect[OF sh, of 0 "demo_regs\<lparr>TCR := [0, 0x80190019, 0, 0]\<rparr>"]
    by (auto simp: demo_regs_def field_def tg0_log_def tg1_log_def)
  obtain u' where u': "resyncMMU (demo_regs\<lparr>TCR := [0, 0x80190019, 0, 0]\<rparr>) 0 7 (demo_unit (demo_walker timing_tr)) = Inr u'"
    by (simp add: resyncMMU_def m(1))
  have "m \<noteq> demo_mmu" using m(2) by (auto simp: demo_mmu_def granule_of_def)
  then show ?thesis using resync_keeps_old_walker_mmu[OF u'] m u' by (auto simp: demo_unit_def demo_walker_def)
qed

end
