(* ===== verification/DirectoryState.thy ===== *)
theory DirectoryState
  imports Flexus_Prelude
begin

text \<open>
  The sharer sets of the coherence directory of the CMP cache: the full bit vector of
  \<^verbatim>\<open>CMPCache/SimpleDirectoryState.hpp\<close> and the limited-pointer scheme of
  \<^verbatim>\<open>CMPCache/LimitedDirectoryState.hpp\<close>, which keeps exact sharers while there are few and falls back to a
  coarse vector of whole groups. A \<^verbatim>\<open>boost::dynamic_bitset\<close> is a list of booleans; its accesses are
  checked, as boost's assertions do. Both classes are instances of one contract: a directory may
  report a cache that holds no copy, never miss one that does.
\<close>

section \<open>Bit sets\<close>

type_synonym bitset = "bool list"

fun find_from :: "bitset \<Rightarrow> nat \<Rightarrow> nat option" where
  "find_from [] i = None"
| "find_from (b # bs) i = (if b then Some i else find_from bs (Suc i))"

definition find_first :: "bitset \<Rightarrow> nat option" where
  "find_first bs = find_from bs 0"

definition find_next :: "bitset \<Rightarrow> nat \<Rightarrow> nat option" where
  "find_next bs n = (if length bs = 0 \<or> n \<ge> length bs - 1 then None else find_from (drop (Suc n) bs) (Suc n))"

definition bit_count :: "bitset \<Rightarrow> nat" where
  "bit_count bs = length (filter id bs)"

definition reset_bits :: "bitset \<Rightarrow> bitset" where
  "reset_bits bs = replicate (length bs) False"

definition resize_bits :: "nat \<Rightarrow> bitset \<Rightarrow> bitset" where
  "resize_bits n bs = take n bs @ replicate (n - length bs) False"

definition or_bits :: "bitset \<Rightarrow> bitset \<Rightarrow> bitset res" where
  "or_bits a b = bindE (dbg_assert (length a = length b)) (\<lambda>_. Inr (map2 (\<or>) a b))"

definition and_bits :: "bitset \<Rightarrow> bitset \<Rightarrow> bitset res" where
  "and_bits a b = bindE (dbg_assert (length a = length b)) (\<lambda>_. Inr (map2 (\<and>) a b))"

lemma find_from_bounds: "find_from bs i = Some n \<Longrightarrow> i \<le> n \<and> n < i + length bs"
proof (induction bs arbitrary: i)
  case (Cons b bs)
  show ?case using Cons.prems Cons.IH[of "Suc i"] by (auto split: if_splits)
qed simp

lemma find_next_greater: "find_next bs n = Some m \<Longrightarrow> n < m \<and> m < length bs"
  using find_from_bounds[of "drop (Suc n) bs" "Suc n" m] by (auto simp: find_next_def split: if_splits)

section \<open>The full bit vector (SimpleDirectoryState.hpp)\<close>

record SimpleDirectoryState =
  theSharers :: bitset
  theNumSharers :: int

definition Simple_new :: "nat \<Rightarrow> SimpleDirectoryState" where
  "Simple_new aNumSharers = \<lparr>theSharers = replicate aNumSharers False, theNumSharers = int aNumSharers\<rparr>"

definition isSharer :: "int \<Rightarrow> SimpleDirectoryState \<Rightarrow> bool res" where
  "isSharer sharer s = arr_at (theSharers s) sharer"

definition noSharers :: "SimpleDirectoryState \<Rightarrow> bool" where
  "noSharers s \<longleftrightarrow> \<not> (\<exists>b \<in> set (theSharers s). b)"

definition oneSharer :: "SimpleDirectoryState \<Rightarrow> bool" where
  "oneSharer s \<longleftrightarrow> bit_count (theSharers s) = 1"

definition manySharers :: "SimpleDirectoryState \<Rightarrow> bool" where
  "manySharers s \<longleftrightarrow> bit_count (theSharers s) > 1"

definition countSharers :: "SimpleDirectoryState \<Rightarrow> nat" where
  "countSharers s = bit_count (theSharers s)"

text \<open>The loops over the set bits: from \<^verbatim>\<open>find_first\<close> along \<^verbatim>\<open>find_next\<close> to the end.\<close>

function sharer_walk :: "bitset \<Rightarrow> nat option \<Rightarrow> nat list" where
  "sharer_walk bs None = []"
| "sharer_walk bs (Some n) = n # sharer_walk bs (find_next bs n)"
  by pat_completeness auto
termination
proof (relation "measure (\<lambda>(bs, p). case p of None \<Rightarrow> 0 | Some n \<Rightarrow> Suc (length bs - n))", goal_cases)
  case (2 bs n)
  then show ?case using find_next_greater[of bs n] by (cases "find_next bs n") auto
qed simp

definition getSharerList :: "bitset \<Rightarrow> nat list" where
  "getSharerList bs = sharer_walk bs (find_first bs)"

definition getOtherSharers :: "int \<Rightarrow> bitset \<Rightarrow> nat list" where
  "getOtherSharers exclude bs = filter (\<lambda>n. int n \<noteq> exclude) (sharer_walk bs (find_first bs))"

definition getFirstSharer :: "bitset \<Rightarrow> int" where
  "getFirstSharer bs = (case find_first bs of None \<Rightarrow> - 1 | Some n \<Rightarrow> int n)"

text \<open>A negative position is converted to a huge unsigned one, from which nothing is found.\<close>

definition getNextSharer :: "int \<Rightarrow> bitset \<Rightarrow> int" where
  "getNextSharer sharer bs =
     (if sharer < 0 then - 1 else case find_next bs (nat sharer) of None \<Rightarrow> - 1 | Some n \<Rightarrow> int n)"

definition removeSharer :: "int \<Rightarrow> SimpleDirectoryState \<Rightarrow> SimpleDirectoryState res" where
  "removeSharer sharer s =
     bindE (dbg_assert (sharer < int (length (theSharers s)))) (\<lambda>_.
     bindE (arr_set (theSharers s) sharer False) (\<lambda>b. Inr (s\<lparr>theSharers := b\<rparr>)))"

definition addSharer :: "int \<Rightarrow> SimpleDirectoryState \<Rightarrow> SimpleDirectoryState res" where
  "addSharer sharer s =
     bindE (dbg_assert (sharer < int (length (theSharers s)))) (\<lambda>_.
     bindE (arr_set (theSharers s) sharer True) (\<lambda>b. Inr (s\<lparr>theSharers := b\<rparr>)))"

definition setSharer :: "int \<Rightarrow> SimpleDirectoryState \<Rightarrow> SimpleDirectoryState res" where
  "setSharer sharer s =
     bindE (arr_set (reset_bits (theSharers s)) sharer True) (\<lambda>b. Inr (s\<lparr>theSharers := b\<rparr>))"

definition reset_sharers :: "SimpleDirectoryState \<Rightarrow> SimpleDirectoryState" where
  "reset_sharers s = s\<lparr>theSharers := reset_bits (theSharers s)\<rparr>"

definition reset_size :: "nat \<Rightarrow> SimpleDirectoryState \<Rightarrow> SimpleDirectoryState" where
  "reset_size n s = s\<lparr>theSharers := reset_bits (resize_bits n (theSharers s)), theNumSharers := int n\<rparr>"

text \<open>The assignments from an integer and from a fixed-size bit set run over \<^verbatim>\<open>theNumSharers\<close> positions; \<open>src i\<close> is the
  source's bit.\<close>

fun assign_bits :: "(nat \<Rightarrow> bool \<Rightarrow> bool res) \<Rightarrow> nat \<Rightarrow> nat \<Rightarrow> bitset \<Rightarrow> bitset res" where
  "assign_bits src i 0 bs = Inr bs"
| "assign_bits src i (Suc k) bs =
     bindE (vec_at bs i) (\<lambda>old. bindE (src i old) (\<lambda>b. bindE (vec_set bs i b) (assign_bits src (Suc i) k)))"

definition assign_int :: "64 word \<Rightarrow> SimpleDirectoryState \<Rightarrow> SimpleDirectoryState res" where
  "assign_int w s =
     bindE (assign_bits (\<lambda>i old. Inr (bit w i)) 0 (nat (theNumSharers s)) (theSharers s)) (\<lambda>b. Inr (s\<lparr>theSharers := b\<rparr>))"

definition or_int :: "64 word \<Rightarrow> SimpleDirectoryState \<Rightarrow> SimpleDirectoryState res" where
  "or_int w s =
     bindE (assign_bits (\<lambda>i old. Inr (old \<or> bit w i)) 0 (nat (theNumSharers s)) (theSharers s)) (\<lambda>b. Inr (s\<lparr>theSharers := b\<rparr>))"

definition assign_fixed :: "bitset \<Rightarrow> SimpleDirectoryState \<Rightarrow> SimpleDirectoryState res" where
  "assign_fixed f s =
     bindE (assign_bits (\<lambda>i old. vec_at f i) 0 (nat (theNumSharers s)) (theSharers s)) (\<lambda>b. Inr (s\<lparr>theSharers := b\<rparr>))"

definition or_fixed :: "bitset \<Rightarrow> SimpleDirectoryState \<Rightarrow> SimpleDirectoryState res" where
  "or_fixed f s =
     bindE (assign_bits (\<lambda>i old. bindE (vec_at f i) (\<lambda>b. Inr (old \<or> b))) 0 (nat (theNumSharers s)) (theSharers s))
       (\<lambda>b. Inr (s\<lparr>theSharers := b\<rparr>))"

definition simple_and :: "SimpleDirectoryState \<Rightarrow> SimpleDirectoryState \<Rightarrow> SimpleDirectoryState res" where
  "simple_and a s = bindE (and_bits (theSharers s) (theSharers a)) (\<lambda>b. Inr (s\<lparr>theSharers := b\<rparr>))"

definition bits2State :: "bitset \<Rightarrow> SimpleDirectoryState \<Rightarrow> SimpleDirectoryState" where
  "bits2State aState aDefaultState = \<lparr>theSharers = aState, theNumSharers = theNumSharers aDefaultState\<rparr>"

subsection \<open>Vectors of directory states\<close>

definition isNonShared_bits :: "bitset list \<Rightarrow> int \<Rightarrow> bool res" where
  "isNonShared_bits state requester = (case state of [] \<Rightarrow> Inr True
     | b # bs \<Rightarrow> bindE (foldE (\<lambda>x acc. or_bits acc x) bs b) (\<lambda>sharers.
         if \<not> (\<exists>x \<in> set sharers. x) then Inr True
         else bindE (arr_at sharers requester) (\<lambda>r. Inr (r \<and> bit_count sharers = 1))))"

definition isNonShared :: "SimpleDirectoryState list \<Rightarrow> int \<Rightarrow> bool res" where
  "isNonShared state requester = isNonShared_bits (map theSharers state) requester"

definition getPresenceVector :: "SimpleDirectoryState list \<Rightarrow> bitset" where
  "getPresenceVector state = map (\<lambda>s. \<not> noSharers s) state"

definition mapE :: "('a \<Rightarrow> 'b res) \<Rightarrow> 'a list \<Rightarrow> 'b list res" where
  "mapE f xs = foldE (\<lambda>x acc. bindE (f x) (\<lambda>y. Inr (acc @ [y]))) xs []"

definition presence2State :: "bitset \<Rightarrow> SimpleDirectoryState \<Rightarrow> int \<Rightarrow> SimpleDirectoryState list res" where
  "presence2State presence defaultState sharer =
     mapE (\<lambda>p. if p then setSharer sharer defaultState else Inr defaultState) presence"

definition setPresence_one :: "int \<Rightarrow> bool \<Rightarrow> bool \<Rightarrow> SimpleDirectoryState \<Rightarrow> SimpleDirectoryState res" where
  "setPresence_one sharer present excl s =
     (if present then (if excl then setSharer sharer s else addSharer sharer s) else removeSharer sharer s)"

fun setPresence_loop :: "(bool \<Rightarrow> bool \<Rightarrow> 's \<Rightarrow> 's res) \<Rightarrow> bitset \<Rightarrow> bitset \<Rightarrow> nat \<Rightarrow> nat \<Rightarrow> 's list \<Rightarrow> 's list res" where
  "setPresence_loop one presence exclusive i 0 state = Inr state"
| "setPresence_loop one presence exclusive i (Suc k) state =
     bindE (vec_at presence i) (\<lambda>p.
     bindE (if p then vec_at exclusive i else Inr False) (\<lambda>e.
     bindE (vec_at state i) (\<lambda>s.
     bindE (one p e s) (\<lambda>s'.
     setPresence_loop one presence exclusive (Suc i) k (state[i := s'])))))"

definition setPresence :: "int \<Rightarrow> bitset \<Rightarrow> bitset \<Rightarrow> SimpleDirectoryState list \<Rightarrow> SimpleDirectoryState list res" where
  "setPresence sharer presence exclusive state =
     setPresence_loop (setPresence_one sharer) presence exclusive 0 (length presence) state"

text \<open>\<^verbatim>\<open>std::transform\<close> into a vector that must be long enough already.\<close>

definition copyState :: "SimpleDirectoryState list \<Rightarrow> bitset list \<Rightarrow> bitset list res" where
  "copyState orig copy =
     (if length orig \<le> length copy then Inr (map theSharers orig @ drop (length orig) copy) else Inl OutOfBounds)"

definition copyState_back :: "bitset list \<Rightarrow> SimpleDirectoryState list \<Rightarrow> SimpleDirectoryState \<Rightarrow> SimpleDirectoryState list res" where
  "copyState_back orig copy aDefaultState =
     (if length orig \<le> length copy then Inr (map (\<lambda>b. bits2State b aDefaultState) orig @ drop (length orig) copy)
      else Inl OutOfBounds)"

section \<open>The limited-pointer scheme (LimitedDirectoryState.hpp)\<close>

record LimitedDirectoryState =
  lim_Sharers :: bitset
  lim_NumSharers :: int
  theNumPointers :: int
  theGranularity :: int
  coarse_vector :: bool

definition Limited_new :: "nat \<Rightarrow> int \<Rightarrow> int \<Rightarrow> LimitedDirectoryState res" where
  "Limited_new aNumSharers aNumPointers aGranularity =
     bindE (dbg_assert (aNumPointers > 0)) (\<lambda>_.
     Inr \<lparr>lim_Sharers = replicate aNumSharers False, lim_NumSharers = int aNumSharers, theNumPointers = aNumPointers,
          theGranularity = aGranularity, coarse_vector = False\<rparr>)"

fun set_group :: "int \<Rightarrow> nat \<Rightarrow> bitset \<Rightarrow> bitset res" where
  "set_group base 0 bs = Inr bs"
| "set_group base (Suc k) bs = bindE (arr_set bs base True) (set_group (base + 1) k)"

text \<open>Setting the whole group of a sharer whose bit is clear.\<close>

definition add_group :: "int \<Rightarrow> int \<Rightarrow> bitset \<Rightarrow> bitset res" where
  "add_group g sharer bs =
     bindE (arr_at bs sharer) (\<lambda>present.
     if present then Inr bs
     else bindE (c_div sharer g) (\<lambda>q. set_group (q * g) (nat g) bs))"

definition coarsen :: "int \<Rightarrow> nat list \<Rightarrow> bitset \<Rightarrow> bitset res" where
  "coarsen g slist bs = foldE (\<lambda>n. add_group g (int n)) slist (reset_bits bs)"

definition lim_removeSharer :: "int \<Rightarrow> LimitedDirectoryState \<Rightarrow> LimitedDirectoryState res" where
  "lim_removeSharer sharer s =
     bindE (dbg_assert (sharer < int (length (lim_Sharers s)))) (\<lambda>_.
     if coarse_vector s then Inr s
     else bindE (arr_set (lim_Sharers s) sharer False) (\<lambda>b. Inr (s\<lparr>lim_Sharers := b\<rparr>)))"

text \<open>The step shared by the operations that may overflow the pointers: fall back to the coarse vector of \<open>src\<close>.\<close>

definition limit :: "bitset \<Rightarrow> LimitedDirectoryState \<Rightarrow> LimitedDirectoryState res" where
  "limit src s =
     (if int (bit_count src) > theNumPointers s
      then bindE (coarsen (theGranularity s) (getSharerList src) (lim_Sharers s)) (\<lambda>b.
           Inr (s\<lparr>lim_Sharers := b, coarse_vector := True\<rparr>))
      else Inr (s\<lparr>lim_Sharers := src, coarse_vector := False\<rparr>))"

definition lim_addSharer :: "int \<Rightarrow> LimitedDirectoryState \<Rightarrow> LimitedDirectoryState res" where
  "lim_addSharer sharer s =
     bindE (dbg_assert (sharer < int (length (lim_Sharers s)))) (\<lambda>_.
     if \<not> coarse_vector s then
       bindE (arr_set (lim_Sharers s) sharer True) (\<lambda>b. limit b (s\<lparr>lim_Sharers := b\<rparr>))
     else bindE (add_group (theGranularity s) sharer (lim_Sharers s)) (\<lambda>b. Inr (s\<lparr>lim_Sharers := b\<rparr>)))"

definition lim_setSharer :: "int \<Rightarrow> LimitedDirectoryState \<Rightarrow> LimitedDirectoryState res" where
  "lim_setSharer sharer s =
     bindE (arr_set (reset_bits (lim_Sharers s)) sharer True) (\<lambda>b.
     Inr (s\<lparr>lim_Sharers := b, coarse_vector := False\<rparr>))"

definition lim_reset :: "LimitedDirectoryState \<Rightarrow> LimitedDirectoryState" where
  "lim_reset s = s\<lparr>lim_Sharers := reset_bits (lim_Sharers s), coarse_vector := False\<rparr>"

definition lim_reset_size :: "nat \<Rightarrow> LimitedDirectoryState \<Rightarrow> LimitedDirectoryState" where
  "lim_reset_size n s = s\<lparr>lim_Sharers := reset_bits (resize_bits n (lim_Sharers s)), coarse_vector := False\<rparr>"

definition lim_assign_int :: "64 word \<Rightarrow> LimitedDirectoryState \<Rightarrow> LimitedDirectoryState res" where
  "lim_assign_int w s =
     bindE (assign_bits (\<lambda>i old. Inr (bit w i)) 0 (nat (lim_NumSharers s)) (lim_Sharers s)) (\<lambda>b.
     limit b (s\<lparr>lim_Sharers := b\<rparr>))"

definition lim_or_int :: "64 word \<Rightarrow> LimitedDirectoryState \<Rightarrow> LimitedDirectoryState res" where
  "lim_or_int w s =
     bindE (assign_bits (\<lambda>i old. Inr (old \<or> bit w i)) 0 (nat (lim_NumSharers s)) (lim_Sharers s)) (\<lambda>b.
     limit b (s\<lparr>lim_Sharers := b\<rparr>))"

definition lim_assign_simple :: "SimpleDirectoryState \<Rightarrow> LimitedDirectoryState \<Rightarrow> LimitedDirectoryState res" where
  "lim_assign_simple a s = limit (theSharers a) s"

definition lim_and :: "LimitedDirectoryState \<Rightarrow> LimitedDirectoryState \<Rightarrow> LimitedDirectoryState res" where
  "lim_and a s = bindE (and_bits (lim_Sharers s) (lim_Sharers a)) (\<lambda>b. limit b (s\<lparr>lim_Sharers := b\<rparr>))"

definition to_simple :: "LimitedDirectoryState \<Rightarrow> SimpleDirectoryState" where
  "to_simple s = \<lparr>theSharers = lim_Sharers s, theNumSharers = lim_NumSharers s\<rparr>"

definition Limited_of_simple :: "SimpleDirectoryState \<Rightarrow> int \<Rightarrow> int \<Rightarrow> LimitedDirectoryState res" where
  "Limited_of_simple aState aNumPointers aGranularity =
     bindE (dbg_assert (aNumPointers > 0)) (\<lambda>_.
     limit (theSharers aState) \<lparr>lim_Sharers = theSharers aState, lim_NumSharers = theNumSharers aState,
        theNumPointers = aNumPointers, theGranularity = aGranularity, coarse_vector = False\<rparr>)"

definition lim_setPresence_one :: "int \<Rightarrow> bool \<Rightarrow> bool \<Rightarrow> LimitedDirectoryState \<Rightarrow> LimitedDirectoryState res" where
  "lim_setPresence_one sharer present excl s =
     (if present then (if excl then lim_setSharer sharer s else lim_addSharer sharer s) else lim_removeSharer sharer s)"

definition lim_setPresence :: "int \<Rightarrow> bitset \<Rightarrow> bitset \<Rightarrow> LimitedDirectoryState list \<Rightarrow> LimitedDirectoryState list res" where
  "lim_setPresence sharer presence exclusive state =
     setPresence_loop (lim_setPresence_one sharer) presence exclusive 0 (length presence) state"


section \<open>Sharer sets\<close>

definition members :: "bitset \<Rightarrow> nat set" where
  "members bs = {i. i < length bs \<and> bs ! i}"

lemma members_update [simp]:
  "i < length bs \<Longrightarrow> members (bs[i := b]) = (if b then insert i (members bs) else members bs - {i})"
  by (auto simp: members_def nth_list_update split: if_splits)

lemma members_reset [simp]: "members (reset_bits bs) = {}"
  by (auto simp: members_def reset_bits_def)

lemma length_reset [simp]: "length (reset_bits bs) = length bs"
  by (simp add: reset_bits_def)

lemma members_map2:
  "length a = length b \<Longrightarrow> members (map2 (\<or>) a b) = members a \<union> members b"
  "length a = length b \<Longrightarrow> members (map2 (\<and>) a b) = members a \<inter> members b"
  by (auto simp: members_def)

lemma members_eval: "members bs = set (filter (\<lambda>i. bs ! i) [0..<length bs])"
  by (auto simp: members_def)

lemma card_members: "bit_count bs = card (members bs)"
  by (simp add: bit_count_def members_def length_filter_conv_card)

lemma find_next_from: "find_next bs n = find_from (drop (Suc n) bs) (Suc n)"
  by (auto simp: find_next_def)

lemma sharer_walk_from:
  "sharer_walk bs (find_from (drop n bs) n) = filter (\<lambda>i. bs ! i) [n..<length bs]"
proof (induction "length bs - n" arbitrary: n)
  case 0
  then show ?case by simp
next
  case (Suc k)
  then have n: "n < length bs" by simp
  have IH: "sharer_walk bs (find_from (drop (Suc n) bs) (Suc n)) = filter (\<lambda>i. bs ! i) [Suc n..<length bs]"
    using Suc by (intro Suc.hyps(1)) simp
  have "drop n bs = bs ! n # drop (Suc n) bs" using n by (rule Cons_nth_drop_Suc[symmetric])
  then show ?case using n IH by (simp add: upt_conv_Cons find_next_from)
qed

lemma getSharerList_eq: "getSharerList bs = filter (\<lambda>i. bs ! i) [0..<length bs]"
  using sharer_walk_from[of bs 0] by (simp add: getSharerList_def find_first_def)

lemma set_getSharerList [simp]: "set (getSharerList bs) = members bs"
  by (auto simp: getSharerList_eq members_def)

section \<open>The contract of a directory entry\<close>

datatype dir_op = AddSharer nat | RemoveSharer nat | SetSharer nat | ResetSharers

fun dir_spec :: "nat set \<Rightarrow> dir_op \<Rightarrow> nat set" where
  "dir_spec S (AddSharer x) = insert x S"
| "dir_spec S (RemoveSharer x) = S - {x}"
| "dir_spec S (SetSharer x) = {x}"
| "dir_spec S ResetSharers = {}"

fun op_range :: "nat \<Rightarrow> dir_op \<Rightarrow> bool" where
  "op_range n (AddSharer x) = (x < n)"
| "op_range n (RemoveSharer x) = (x < n)"
| "op_range n (SetSharer x) = (x < n)"
| "op_range n ResetSharers = True"

fun dir_step :: "(int \<Rightarrow> 's \<Rightarrow> 's res) \<Rightarrow> (int \<Rightarrow> 's \<Rightarrow> 's res) \<Rightarrow> (int \<Rightarrow> 's \<Rightarrow> 's res) \<Rightarrow> ('s \<Rightarrow> 's) \<Rightarrow> dir_op \<Rightarrow> 's \<Rightarrow> 's res" where
  "dir_step add rem st clr (AddSharer x) s = add (int x) s"
| "dir_step add rem st clr (RemoveSharer x) s = rem (int x) s"
| "dir_step add rem st clr (SetSharer x) s = st (int x) s"
| "dir_step add rem st clr ResetSharers s = Inr (clr s)"

text \<open>
  \<open>abs\<close> is the set of caches the entry reports, \<open>wf n\<close> its well-formedness for \<open>n\<close> caches, and
  \<open>precise\<close> says that it reports no cache too many.
\<close>

locale sharer_tracker =
  fixes abs :: "'s \<Rightarrow> nat set" and wf :: "nat \<Rightarrow> 's \<Rightarrow> bool" and precise :: "'s \<Rightarrow> bool"
    and add :: "int \<Rightarrow> 's \<Rightarrow> 's res" and rem :: "int \<Rightarrow> 's \<Rightarrow> 's res" and st :: "int \<Rightarrow> 's \<Rightarrow> 's res" and clr :: "'s \<Rightarrow> 's"
  assumes add_ok: "wf n s \<Longrightarrow> x < n \<Longrightarrow> \<exists>s'. add (int x) s = Inr s' \<and> wf n s' \<and> insert x (abs s) \<subseteq> abs s' \<and>
      (precise s' \<longrightarrow> precise s \<and> abs s' = insert x (abs s))"
    and rem_ok: "wf n s \<Longrightarrow> x < n \<Longrightarrow> \<exists>s'. rem (int x) s = Inr s' \<and> wf n s' \<and> abs s - {x} \<subseteq> abs s' \<and>
      (precise s' \<longrightarrow> precise s \<and> abs s' = abs s - {x})"
    and st_ok: "wf n s \<Longrightarrow> x < n \<Longrightarrow> \<exists>s'. st (int x) s = Inr s' \<and> wf n s' \<and> abs s' = {x}"
    and clr_ok: "wf n s \<Longrightarrow> wf n (clr s) \<and> abs (clr s) = {}"
begin

lemma step_tracks:
  assumes "wf n s" "op_range n p" "S \<subseteq> abs s" "precise s \<Longrightarrow> abs s = S"
  shows "\<exists>s'. dir_step add rem st clr p s = Inr s' \<and> wf n s' \<and> dir_spec S p \<subseteq> abs s' \<and>
    (precise s' \<longrightarrow> abs s' = dir_spec S p)"
proof (cases p)
  case (AddSharer x)
  then show ?thesis using add_ok[OF assms(1), of x] assms(2-4) by auto
next
  case (RemoveSharer x)
  then show ?thesis using rem_ok[OF assms(1), of x] assms(2-4) by fastforce
next
  case (SetSharer x)
  then show ?thesis using st_ok[OF assms(1), of x] assms(2) by auto
next
  case ResetSharers
  then show ?thesis using clr_ok[OF assms(1)] by simp
qed

lemma run_tracks:
  assumes "wf n s" "\<forall>p \<in> set ops. op_range n p" "S \<subseteq> abs s" "precise s \<Longrightarrow> abs s = S"
  shows "\<exists>s'. foldE (dir_step add rem st clr) ops s = Inr s' \<and> wf n s' \<and> foldl dir_spec S ops \<subseteq> abs s' \<and>
    (precise s' \<longrightarrow> abs s' = foldl dir_spec S ops)"
  using assms
proof (induction ops arbitrary: s S)
  case (Cons p ops)
  obtain s1 where s1: "dir_step add rem st clr p s = Inr s1" "wf n s1" "dir_spec S p \<subseteq> abs s1"
      "precise s1 \<longrightarrow> abs s1 = dir_spec S p"
    using step_tracks[of n s p S] Cons.prems by auto
  then show ?case using Cons.IH[of s1 "dir_spec S p"] Cons.prems(2) by auto
qed auto

end

section \<open>The full bit vector is exact\<close>

definition simple_wf :: "nat \<Rightarrow> SimpleDirectoryState \<Rightarrow> bool" where
  "simple_wf n s \<longleftrightarrow> length (theSharers s) = n \<and> theNumSharers s = int n"

interpretation simple_dir: sharer_tracker "\<lambda>s. members (theSharers s)" simple_wf "\<lambda>_. True"
  addSharer removeSharer setSharer reset_sharers
  by unfold_locales
    (auto simp: simple_wf_def addSharer_def removeSharer_def setSharer_def reset_sharers_def dbg_assert_def arr_set_def vec_set_def)

section \<open>The limited-pointer scheme over-approximates\<close>

definition limited_wf :: "int \<Rightarrow> nat \<Rightarrow> nat \<Rightarrow> LimitedDirectoryState \<Rightarrow> bool" where
  "limited_wf np g n s \<longleftrightarrow> length (lim_Sharers s) = n \<and> lim_NumSharers s = int n \<and> theNumPointers s = np \<and>
     theGranularity s = int g \<and> 0 < np \<and> 0 < g \<and> g dvd n \<and>
     (\<not> coarse_vector s \<longrightarrow> int (card (members (lim_Sharers s))) \<le> np)"

lemma set_group_correct:
  "base + k \<le> length bs \<Longrightarrow>
   \<exists>bs'. set_group (int base) k bs = Inr bs' \<and> length bs' = length bs \<and> members bs' = members bs \<union> {base..<base + k}"
proof (induction k arbitrary: base bs)
  case (Suc k)
  have "base < length bs" using Suc.prems by simp
  moreover obtain bs' where "set_group (int (Suc base)) k (bs[base := True]) = Inr bs'" "length bs' = length bs"
      "members bs' = insert base (members bs) \<union> {Suc base..<Suc base + k}"
    using Suc.IH[of "Suc base" "bs[base := True]"] Suc.prems by auto
  moreover have "insert base {Suc base..<Suc base + k} = {base..<base + Suc k}" by auto
  ultimately show ?case by (auto simp: arr_set_def vec_set_def algebra_simps)
qed simp

lemma group_in_range:
  assumes "(x::nat) < n" "0 < g" "g dvd n"
  shows "x div g * g + g \<le> n"
proof -
  obtain c where c: "n = g * c" using assms(3) by blast
  have "x div g < c" using assms(1) c by (simp add: less_mult_imp_div_less mult.commute)
  then have "Suc (x div g) * g \<le> c * g" by (intro mult_le_mono1) simp
  then show ?thesis using c by (simp add: mult.commute)
qed

lemma group_interval: "0 < g \<Longrightarrow> {x div g * g..<x div g * g + g} = {j. j div g = (x::nat) div g}"
proof safe
  fix j assume g: "0 < g" and j: "j \<in> {x div g * g..<x div g * g + g}"
  then show "j div g = x div g" by (intro div_nat_eqI) (auto simp: mult.commute)
next
  fix j assume "0 < g" "j div g = x div g"
  then show "j \<in> {x div g * g..<x div g * g + g}"
    using div_times_less_eq_dividend[of j g] dividend_less_div_times[of g j] by auto
qed

lemma add_group_correct:
  assumes "x < length bs" "0 < g" "g dvd length bs"
  shows "\<exists>bs'. add_group (int g) (int x) bs = Inr bs' \<and> length bs' = length bs \<and>
    members bs' = (if x \<in> members bs then members bs else members bs \<union> {j. j div g = x div g})"
proof (cases "bs ! x")
  case True
  then show ?thesis using assms(1) by (auto simp: add_group_def arr_at_def vec_at_def members_def)
next
  case False
  obtain bs' where bs': "set_group (int (x div g * g)) g bs = Inr bs'" "length bs' = length bs"
      "members bs' = members bs \<union> {j. j div g = x div g}"
    using set_group_correct[of "x div g * g" g bs] group_in_range[OF assms] group_interval[OF assms(2)] by auto
  have "int x sdiv int g = int (x div g)"
    by (cases "x = 0") (use assms(2) in \<open>simp_all add: signed_divide_int_def zdiv_int\<close>)
  then have "add_group (int g) (int x) bs = Inr bs'"
    using False assms bs'(1) by (simp add: add_group_def arr_at_def vec_at_def c_div_def)
  then show ?thesis using bs' False by (auto simp: members_def)
qed


text \<open>The groups of a set of caches.\<close>

definition groups :: "nat \<Rightarrow> nat set \<Rightarrow> nat set" where
  "groups g S = {j. \<exists>i \<in> S. j div g = i div g}"

lemma groups_superset: "S \<subseteq> groups g S"
  by (auto simp: groups_def)

lemma add_groups_run:
  assumes "\<forall>x \<in> set xs. x < length bs" "0 < g" "g dvd length bs" "members bs = groups g S"
  shows "\<exists>bs'. foldE (\<lambda>n. add_group (int g) (int n)) xs bs = Inr bs' \<and> length bs' = length bs \<and> members bs' = groups g (S \<union> set xs)"
  using assms
proof (induction xs arbitrary: bs S)
  case (Cons x xs)
  obtain b1 where b1: "add_group (int g) (int x) bs = Inr b1" "length b1 = length bs"
      "members b1 = (if x \<in> members bs then members bs else members bs \<union> {j. j div g = x div g})"
    using add_group_correct[of x bs g] Cons.prems by auto
  have "members b1 = groups g (insert x S)" using b1(3) Cons.prems(4) by (auto simp: groups_def)
  then show ?case using Cons.IH[of b1 "insert x S"] Cons.prems b1 by auto
qed auto

lemma limit_correct:
  assumes "length src = length (lim_Sharers s)" "0 < theGranularity s" "theGranularity s dvd int (length (lim_Sharers s))"
  shows "\<exists>b. limit src s = Inr (s\<lparr>lim_Sharers := b, coarse_vector := int (bit_count src) > theNumPointers s\<rparr>) \<and>
    length b = length (lim_Sharers s) \<and>
    members b = (if int (bit_count src) > theNumPointers s then groups (nat (theGranularity s)) (members src) else members src)"
proof -
  define g where "g = nat (theGranularity s)"
  have g: "theGranularity s = int g" "0 < g" "g dvd length (lim_Sharers s)"
    using assms(2,3) by (auto simp: g_def int_dvd_int_iff[symmetric])
  have r: "\<forall>x \<in> set (getSharerList src). x < length (reset_bits (lim_Sharers s))"
    using assms(1) by (auto simp: members_def)
  have "\<exists>b. coarsen (int g) (getSharerList src) (lim_Sharers s) = Inr b \<and> length b = length (lim_Sharers s) \<and> members b = groups g (members src)"
    using add_groups_run[OF r g(2), of "{}"] g(3) by (simp add: coarsen_def groups_def)
  then show ?thesis using assms(1) by (auto simp: limit_def g(1))
qed

lemma limited_add:
  assumes "limited_wf np g n s" "x < n"
  shows "\<exists>s'. lim_addSharer (int x) s = Inr s' \<and> limited_wf np g n s' \<and> insert x (members (lim_Sharers s)) \<subseteq> members (lim_Sharers s') \<and>
    (\<not> coarse_vector s' \<longrightarrow> \<not> coarse_vector s \<and> members (lim_Sharers s') = insert x (members (lim_Sharers s)))"
proof (cases "coarse_vector s")
  case True
  obtain b where "add_group (int g) (int x) (lim_Sharers s) = Inr b" "length b = n"
      "insert x (members (lim_Sharers s)) \<subseteq> members b"
    using add_group_correct[of x "lim_Sharers s" g] assms by (auto simp: limited_wf_def split: if_splits)
  then show ?thesis using assms True by (auto simp: lim_addSharer_def dbg_assert_def limited_wf_def)
next
  case False
  define src where "src = (lim_Sharers s)[x := True]"
  obtain b where b: "limit src (s\<lparr>lim_Sharers := src\<rparr>) =
      Inr (s\<lparr>lim_Sharers := b, coarse_vector := int (bit_count src) > np\<rparr>)" "length b = n"
      "members b = (if int (bit_count src) > np then groups g (members src) else members src)"
  proof -
    have len: "length src = n" "theGranularity s = int g" "theNumPointers s = np" "0 < g" "g dvd n"
      using assms(1) by (auto simp: src_def limited_wf_def)
    then show ?thesis using limit_correct[of src "s\<lparr>lim_Sharers := src\<rparr>"] that by auto
  qed
  have "lim_addSharer (int x) s = Inr (s\<lparr>lim_Sharers := b, coarse_vector := int (bit_count src) > np\<rparr>)"
    using assms False b(1) by (simp add: lim_addSharer_def dbg_assert_def arr_set_def vec_set_def limited_wf_def src_def)
  moreover have "members src = insert x (members (lim_Sharers s))" using assms by (simp add: src_def limited_wf_def)
  ultimately show ?thesis using b(2,3) assms False groups_superset[of "members src" g]
    by (auto simp: limited_wf_def card_members)
qed

lemma card_remove_le: "int (card A) \<le> np \<Longrightarrow> int (card (A - {x})) \<le> np"
  using card_Diff1_le[of A x] by linarith

interpretation limited_dir: sharer_tracker "\<lambda>s. members (lim_Sharers s)" "limited_wf np g" "\<lambda>s. \<not> coarse_vector s"
  lim_addSharer lim_removeSharer lim_setSharer lim_reset for np g
proof
  fix n s x assume "limited_wf np g n s" "x < n"
  then show "\<exists>s'. lim_addSharer (int x) s = Inr s' \<and> limited_wf np g n s' \<and> insert x (members (lim_Sharers s)) \<subseteq> members (lim_Sharers s') \<and>
    (\<not> coarse_vector s' \<longrightarrow> \<not> coarse_vector s \<and> members (lim_Sharers s') = insert x (members (lim_Sharers s)))"
    by (rule limited_add)
next
  fix n s x assume "limited_wf np g n s" "x < n"
  then show "\<exists>s'. lim_removeSharer (int x) s = Inr s' \<and> limited_wf np g n s' \<and> members (lim_Sharers s) - {x} \<subseteq> members (lim_Sharers s') \<and>
    (\<not> coarse_vector s' \<longrightarrow> \<not> coarse_vector s \<and> members (lim_Sharers s') = members (lim_Sharers s) - {x})"
    by (cases "coarse_vector s")
      (auto simp: limited_wf_def lim_removeSharer_def dbg_assert_def arr_set_def vec_set_def card_remove_le)
next
  fix n s x assume "limited_wf np g n s" "x < n"
  then show "\<exists>s'. lim_setSharer (int x) s = Inr s' \<and> limited_wf np g n s' \<and> members (lim_Sharers s') = {x}"
    by (auto simp: limited_wf_def lim_setSharer_def arr_set_def vec_set_def)
next
  fix n s assume "limited_wf np g n s"
  then show "limited_wf np g n (lim_reset s) \<and> members (lim_Sharers (lim_reset s)) = {}"
    by (simp add: limited_wf_def lim_reset_def)
qed

text \<open>C35: The limited-pointer directory never forgets a sharer. For any sequence of additions, removals, exclusive
  assignments and resets of caches below \<open>n\<close>, starting from an empty entry whose group size divides \<open>n\<close>, all
  operations succeed and the entry reports every cache the exact set contains; while it has not fallen
  back to the coarse vector it reports exactly that set.\<close>
theorem limited_never_forgets:
  assumes "0 < np" "0 < g" "g dvd n" "\<forall>p \<in> set ops. op_range n p"
  shows "\<exists>s0 s. Limited_new n np (int g) = Inr s0 \<and>
    foldE (dir_step lim_addSharer lim_removeSharer lim_setSharer lim_reset) ops s0 = Inr s \<and>
    foldl dir_spec {} ops \<subseteq> members (lim_Sharers s) \<and>
    (\<not> coarse_vector s \<longrightarrow> members (lim_Sharers s) = foldl dir_spec {} ops \<and> int (card (members (lim_Sharers s))) \<le> np)"
proof -
  define s0 where "s0 = \<lparr>lim_Sharers = replicate n False, lim_NumSharers = int n, theNumPointers = np, theGranularity = int g,
    coarse_vector = False\<rparr>"
  have m: "members (replicate n False) = {}" by (auto simp: members_def)
  have s0: "Limited_new n np (int g) = Inr s0" "limited_wf np g n s0" "members (lim_Sharers s0) = {}"
    using assms m by (simp_all add: Limited_new_def dbg_assert_def s0_def limited_wf_def)
  obtain s where "foldE (dir_step lim_addSharer lim_removeSharer lim_setSharer lim_reset) ops s0 = Inr s"
      "limited_wf np g n s" "foldl dir_spec {} ops \<subseteq> members (lim_Sharers s)"
      "\<not> coarse_vector s \<longrightarrow> members (lim_Sharers s) = foldl dir_spec {} ops"
    using limited_dir.run_tracks[OF s0(2) assms(4), of "{}"] s0(3) by auto
  then show ?thesis using s0(1) by (auto simp: limited_wf_def)
qed

theorem limited_never_forgets_witness:
  "\<exists>s0 s. Limited_new 8 2 (int 4) = Inr s0 \<and>
    foldE (dir_step lim_addSharer lim_removeSharer lim_setSharer lim_reset)
      [AddSharer 1, AddSharer 6, AddSharer 7, RemoveSharer 1] s0 = Inr s \<and> {6, 7} \<subseteq> members (lim_Sharers s)"
proof -
  have e: "foldl dir_spec {} [AddSharer 1, AddSharer 6, AddSharer 7, RemoveSharer 1] = {6, 7}" by auto
  have "\<forall>p \<in> set [AddSharer 1, AddSharer 6, AddSharer 7, RemoveSharer 1]. op_range 8 p" by simp
  from limited_never_forgets[of 2 4 8, OF _ _ _ this, unfolded e] show ?thesis by auto
qed

text \<open>The full bit vector is exact: any sequence of operations on caches in range succeeds, and afterwards the entry
  reports exactly the caches the sequence leaves; the list of sharers it produces is the increasing
  enumeration of that set, and the count its cardinality.\<close>
theorem simple_is_exact:
  assumes "\<forall>p \<in> set ops. op_range n p"
  shows "\<exists>s. foldE (dir_step addSharer removeSharer setSharer reset_sharers) ops (Simple_new n) = Inr s \<and>
    set (getSharerList (theSharers s)) = foldl dir_spec {} ops \<and> sorted_wrt (<) (getSharerList (theSharers s)) \<and>
    countSharers s = card (foldl dir_spec {} ops)"
proof -
  have "members (theSharers (Simple_new n)) = {}" "simple_wf n (Simple_new n)"
    by (auto simp: Simple_new_def members_def simple_wf_def)
  then obtain s where "foldE (dir_step addSharer removeSharer setSharer reset_sharers) ops (Simple_new n) = Inr s"
      "members (theSharers s) = foldl dir_spec {} ops"
    using simple_dir.run_tracks[of n "Simple_new n" ops "{}"] assms by auto
  moreover have "sorted_wrt (<) (getSharerList (theSharers s))"
    unfolding getSharerList_eq by (intro sorted_wrt_filter) simp
  ultimately show ?thesis by (simp add: countSharers_def card_members)
qed

theorem simple_is_exact_witness:
  "\<exists>s. foldE (dir_step addSharer removeSharer setSharer reset_sharers) [AddSharer 3, AddSharer 1, RemoveSharer 3] (Simple_new 4) = Inr s \<and>
     countSharers s = 1"
  using simple_is_exact[of "[AddSharer 3, AddSharer 1, RemoveSharer 3]" 4] by auto

section \<open>Sizes the limited scheme cannot handle\<close>

text \<open>Group sizes that do not divide the number of caches are not rejected at construction but break the first
  overflow of the pointers: with ten caches in groups of four, adding cache 9 to an entry that already
  holds its one pointer sets bits beyond the vector. Resetting an entry to fewer caches leaves its number
  of sharers unchanged, so that a following assignment runs past the shrunken vector.\<close>
theorem limited_sizes_unchecked:
  "bindE (Limited_new 10 1 4) (\<lambda>s. bindE (lim_addSharer 0 s) (lim_addSharer 9)) = Inl OutOfBounds \<and>
   bindE (Limited_new 8 1 4) (\<lambda>s. lim_assign_int 1 (lim_reset_size 4 s)) = Inl OutOfBounds"
proof
  have n: "(10::nat) = Suc (Suc (Suc (Suc (Suc (Suc (Suc (Suc (Suc (Suc 0)))))))))" "(8::nat) = Suc (Suc (Suc (Suc (Suc (Suc (Suc (Suc 0)))))))"
    "(4::nat) = Suc (Suc (Suc (Suc 0)))" "(9::nat) = Suc (Suc (Suc (Suc (Suc (Suc (Suc (Suc (Suc 0))))))))" by simp_all
  show "bindE (Limited_new 10 1 4) (\<lambda>s. bindE (lim_addSharer 0 s) (lim_addSharer 9)) = Inl OutOfBounds"
    by (simp add: Limited_new_def dbg_assert_def lim_addSharer_def arr_set_def arr_at_def vec_set_def vec_at_def limit_def bit_count_def
        coarsen_def getSharerList_eq add_group_def c_div_def n reset_bits_def)
  show "bindE (Limited_new 8 1 4) (\<lambda>s. lim_assign_int 1 (lim_reset_size 4 s)) = Inl OutOfBounds"
    by (simp add: Limited_new_def dbg_assert_def lim_assign_int_def lim_reset_size_def reset_bits_def resize_bits_def n vec_at_def vec_set_def)
qed


section \<open>Presence vectors and shared regions\<close>

lemma setPresence_loop_correct:
  assumes "i + k = length presence" "length exclusive = length presence" "length state = length presence"
    and "\<And>j. i \<le> j \<Longrightarrow> j < length presence \<Longrightarrow> \<exists>s'. one (presence ! j) (presence ! j \<and> exclusive ! j) (state ! j) = Inr s' \<and> Q j s'"
  shows "\<exists>state'. setPresence_loop one presence exclusive i k state = Inr state' \<and> length state' = length state \<and>
    (\<forall>j < i. state' ! j = state ! j) \<and> (\<forall>j. i \<le> j \<and> j < length presence \<longrightarrow> Q j (state' ! j))"
  using assms
proof (induction k arbitrary: i state)
  case (Suc k)
  have i: "i < length presence" using Suc.prems(1) by simp
  obtain s' where s': "one (presence ! i) (presence ! i \<and> exclusive ! i) (state ! i) = Inr s'" "Q i s'"
    using Suc.prems(4)[of i] i by auto
  have "\<exists>state'. setPresence_loop one presence exclusive (Suc i) k (state[i := s']) = Inr state' \<and>
      length state' = length (state[i := s']) \<and> (\<forall>j < Suc i. state' ! j = state[i := s'] ! j) \<and>
      (\<forall>j. Suc i \<le> j \<and> j < length presence \<longrightarrow> Q j (state' ! j))"
    using Suc.prems by (intro Suc.IH) auto
  then obtain st where st: "setPresence_loop one presence exclusive (Suc i) k (state[i := s']) = Inr st" "length st = length state"
      "\<forall>j < Suc i. st ! j = state[i := s'] ! j" "\<forall>j. Suc i \<le> j \<and> j < length presence \<longrightarrow> Q j (st ! j)" by auto
  have "st ! i = s'" using st(3) i Suc.prems(3) by simp
  then have "\<forall>j. i \<le> j \<and> j < length presence \<longrightarrow> Q j (st ! j)" using st(4) s'(2) by (metis Suc_leI le_neq_implies_less)
  moreover have "setPresence_loop one presence exclusive i (Suc k) state = Inr st"
    using i Suc.prems(2,3) s'(1) st(1) by (cases "presence ! i") (auto simp: vec_at_def)
  ultimately show ?case using st(2,3) by auto
qed auto

text \<open>Updating the presence of a cache over the blocks of a region. Where the vectors have the length of the region
  and the cache is in range, the update succeeds, and for every block the limited-pointer entry reports
  the cache if it is now present, only the cache if it is exclusive there, and still every other sharer
  unless the cache became exclusive.\<close>
theorem lim_setPresence_correct:
  assumes "length exclusive = length presence" "length state = length presence" "x < n"
    "\<forall>s \<in> set state. limited_wf np g n s"
  shows "\<exists>state'. lim_setPresence (int x) presence exclusive state = Inr state' \<and> length state' = length state \<and>
    (\<forall>j < length presence. limited_wf np g n (state' ! j) \<and>
       (presence ! j \<longrightarrow> x \<in> members (lim_Sharers (state' ! j))) \<and>
       (if presence ! j \<and> exclusive ! j then members (lim_Sharers (state' ! j)) = {x}
        else members (lim_Sharers (state ! j)) - {x} \<subseteq> members (lim_Sharers (state' ! j))))"
proof -
  let ?Q = "\<lambda>j s'. limited_wf np g n s' \<and> (presence ! j \<longrightarrow> x \<in> members (lim_Sharers s')) \<and>
       (if presence ! j \<and> exclusive ! j then members (lim_Sharers s') = {x}
        else members (lim_Sharers (state ! j)) - {x} \<subseteq> members (lim_Sharers s'))"
  have "\<exists>s'. lim_setPresence_one (int x) (presence ! j) (presence ! j \<and> exclusive ! j) (state ! j) = Inr s' \<and> ?Q j s'"
    if "j < length presence" for j
  proof -
    have w: "limited_wf np g n (state ! j)" using assms(2,4) that by simp
    show ?thesis
      using limited_dir.add_ok[OF w assms(3)] limited_dir.rem_ok[OF w assms(3)] limited_dir.st_ok[OF w assms(3)]
      by (cases "presence ! j"; cases "exclusive ! j") (auto simp: lim_setPresence_one_def)
  qed
  then show ?thesis
    using setPresence_loop_correct[of 0 "length presence" presence exclusive state "lim_setPresence_one (int x)" ?Q] assms(1,2)
    by (simp add: lim_setPresence_def)
qed


definition demo_limited :: LimitedDirectoryState where
  "demo_limited = \<lparr>lim_Sharers = [True, False, False, False], lim_NumSharers = 4, theNumPointers = 1, theGranularity = 2,
     coarse_vector = False\<rparr>"

theorem lim_setPresence_correct_witness:
  "\<exists>state'. lim_setPresence (int 3) [True, False, True] [False, False, True] [demo_limited, demo_limited, demo_limited] = Inr state' \<and>
     3 \<in> members (lim_Sharers (state' ! 0)) \<and> members (lim_Sharers (state' ! 2)) = {3}"
proof -
  have "members [True, False, False, False] = {0}" by (simp add: members_eval upt_rec)
  then have "limited_wf 1 2 4 demo_limited" by (simp add: limited_wf_def demo_limited_def)
  then have "\<forall>s \<in> set [demo_limited, demo_limited, demo_limited]. limited_wf 1 2 4 s" by simp
  from lim_setPresence_correct[of "[False, False, True]" "[True, False, True]", OF _ _ _ this, of 3]
  obtain st where st: "lim_setPresence (int 3) [True, False, True] [False, False, True] [demo_limited, demo_limited, demo_limited] = Inr st"
      "\<forall>j < 3. ([True, False, True] ! j \<longrightarrow> 3 \<in> members (lim_Sharers (st ! j))) \<and>
         ([True, False, True] ! j \<and> [False, False, True] ! j \<longrightarrow> members (lim_Sharers (st ! j)) = {3})"
    by (auto simp: eval_nat_numeral split: if_splits)
  then show ?thesis using st(2)[rule_format, of 0] st(2)[rule_format, of 2] by (intro exI[of _ st]) simp
qed

lemma or_bits_fold:
  assumes "\<forall>b \<in> set bs. length b = length a"
  shows "\<exists>c. foldE (\<lambda>x acc. or_bits acc x) bs a = Inr c \<and> length c = length a \<and> members c = members a \<union> (\<Union>b \<in> set bs. members b)"
  using assms
proof (induction bs arbitrary: a)
  case (Cons b bs)
  have l: "length (map2 (\<or>) a b) = length a" using Cons.prems by simp
  obtain c where "foldE (\<lambda>x acc. or_bits acc x) bs (map2 (\<or>) a b) = Inr c" "length c = length a"
      "members c = members (map2 (\<or>) a b) \<union> (\<Union>b \<in> set bs. members b)"
    using Cons.IH[of "map2 (\<or>) a b"] Cons.prems l by auto
  moreover have "members (map2 (\<or>) a b) = members a \<union> members b" using Cons.prems by (intro members_map2) simp
  moreover have "or_bits a b = Inr (map2 (\<or>) a b)" using Cons.prems by (simp add: or_bits_def dbg_assert_def)
  ultimately show ?case by (intro exI[of _ c]) (simp add: Un_assoc)
qed simp

lemma none_members: "(\<exists>x \<in> set bs. x) \<longleftrightarrow> members bs \<noteq> {}"
proof -
  have "(\<exists>x \<in> set bs. x) \<longleftrightarrow> (\<exists>i < length bs. bs ! i)" by (metis in_set_conv_nth)
  then show ?thesis by (simp add: members_def)
qed

text \<open>A region is reported as not shared exactly when no cache other than the requester holds any of its blocks; with
  directory entries of equal size and a requester in range the test always returns.\<close>
theorem isNonShared_correct:
  assumes "\<forall>s \<in> set state. length (theSharers s) = n" "r < n"
  shows "isNonShared state (int r) = Inr ((\<Union>s \<in> set state. members (theSharers s)) \<subseteq> {r})"
proof (cases state)
  case Nil
  then show ?thesis by (simp add: isNonShared_def isNonShared_bits_def)
next
  case (Cons s ss)
  obtain c where c: "foldE (\<lambda>x acc. or_bits acc x) (map theSharers ss) (theSharers s) = Inr c" "length c = n"
      "members c = (\<Union>s \<in> set state. members (theSharers s))"
    using or_bits_fold[of "map theSharers ss" "theSharers s"] assms(1) Cons by auto
  have fin: "finite (members c)" by (simp add: members_def)
  have "c ! r \<longleftrightarrow> r \<in> members c" using assms(2) c(2) by (simp add: members_def)
  moreover have "r \<in> members c \<and> card (members c) = 1 \<longleftrightarrow> members c = {r}"
    by (auto simp: card_Suc_eq)
  ultimately have "isNonShared state (int r) = Inr (members c = {} \<or> members c = {r})"
    using c(1,2) assms(2) by (simp add: isNonShared_def isNonShared_bits_def Cons none_members arr_at_def vec_at_def card_members)
  then show ?thesis using c(3) by (simp add: subset_singleton_iff)
qed

theorem isNonShared_correct_witness:
  "isNonShared [\<lparr>theSharers = [False, True], theNumSharers = 2\<rparr>, \<lparr>theSharers = [False, False], theNumSharers = 2\<rparr>] 1 = Inr True"
proof -
  have "members [False, True] = {1}" "members [False, False] = {}" by (simp_all add: members_eval upt_rec)
  then show ?thesis
    using isNonShared_correct[of "[\<lparr>theSharers = [False, True], theNumSharers = 2\<rparr>, \<lparr>theSharers = [False, False], theNumSharers = 2\<rparr>]" 2 1]
    by simp
qed

end
