(* ===== verification/StdCache.thy ===== *)
theory StdCache
  imports Flexus_Prelude
begin

text \<open>
  The tag array of the functional cache (\<^verbatim>\<open>FastCache/StdCache.hpp\<close>, \<^verbatim>\<open>LookupResult.hpp\<close>,
  \<^verbatim>\<open>CoherenceStates.hpp\<close>): a vector of sets, each a multi-index container with a sequence order (least
  recently used block first), a unique index by tag and a unique index by way.

  A set is the list of its blocks in sequence order. An iterator to a block stays valid while the
  block is in the container, whatever its position, so it is represented by the block's way, which is
  unique in its set and never changes. A modification that would break the uniqueness of the tags
  erases the block and leaves the iterator dangling: it is a fault.
\<close>

unbundle bit_operations_syntax

section \<open>Coherence states\<close>

datatype CoherenceState_t = kMigratory | kModified | kOwned | kExclusive | kShared | kInvalid

fun state_bits :: "CoherenceState_t \<Rightarrow> nat" where
  "state_bits kMigratory = 0x0F"
| "state_bits kModified = 0x07"
| "state_bits kOwned = 0x05"
| "state_bits kExclusive = 0x03"
| "state_bits kShared = 0x01"
| "state_bits kInvalid = 0x00"

definition isValid :: "CoherenceState_t \<Rightarrow> bool" where
  "isValid s = (state_bits s AND 1 \<noteq> 0)"

section \<open>The array\<close>

record BlockEntry =
  be_tag :: "64 word"
  be_state :: CoherenceState_t
  be_way :: nat

record StdCache =
  theNumSets :: nat
  theAssoc :: nat
  theBlockSize :: nat
  blockShift :: nat
  blockSetMask :: "64 word"
  blockTagMask :: "64 word"
  theBlocks :: "BlockEntry list list"
  theTextFlexpoints :: bool
  theAllocateInProgress :: bool
  theAllocateAddr :: "64 word"

record StdLookupResult =
  lr_address :: "64 word"
  lr_state :: CoherenceState_t
  lr_set :: nat
  lr_block :: nat

fun log_base2 :: "nat \<Rightarrow> nat" where
  "log_base2 val = (if val div 2 = 0 then 0 else Suc (log_base2 (val div 2)))"

declare log_base2.simps [simp del]

definition get_set :: "StdCache \<Rightarrow> 64 word \<Rightarrow> nat" where
  "get_set c addr = unat (drop_bit (blockShift c) addr AND blockSetMask c)"

definition get_tag :: "StdCache \<Rightarrow> 64 word \<Rightarrow> 64 word" where
  "get_tag c addr = addr AND blockTagMask c"

definition StdCache_new :: "int \<Rightarrow> int \<Rightarrow> int \<Rightarrow> bool \<Rightarrow> StdCache res" where
  "StdCache_new aBlockSize aNumSets anAssociativity aTextFlexpoints =
     bindE (dbg_assert (anAssociativity > 0)) (\<lambda>_.
     bindE (dbg_assert (aNumSets > 0)) (\<lambda>_.
     bindE (dbg_assert (aBlockSize > 0)) (\<lambda>_.
     bindE (dbg_assert (aNumSets AND (aNumSets - 1) = 0)) (\<lambda>_.
     bindE (dbg_assert (aBlockSize AND (aBlockSize - 1) = 0)) (\<lambda>_.
     Inr \<lparr>theNumSets = nat aNumSets, theAssoc = nat anAssociativity, theBlockSize = nat aBlockSize,
          blockShift = log_base2 (nat aBlockSize), blockSetMask = of_int (aNumSets - 1),
          blockTagMask = of_int (NOT (aBlockSize - 1)), theBlocks = replicate (nat aNumSets) [],
          theTextFlexpoints = aTextFlexpoints, theAllocateInProgress = False, theAllocateAddr = 0\<rparr>)))))"

subsection \<open>The containers\<close>

definition by_tag :: "64 word \<Rightarrow> BlockEntry list \<Rightarrow> BlockEntry option" where
  "by_tag t xs = find (\<lambda>b. be_tag b = t) xs"

definition by_way :: "nat \<Rightarrow> BlockEntry list \<Rightarrow> BlockEntry option" where
  "by_way w xs = find (\<lambda>b. be_way b = w) xs"

definition relocate_end :: "nat \<Rightarrow> BlockEntry list \<Rightarrow> BlockEntry list" where
  "relocate_end w xs = filter (\<lambda>b. be_way b \<noteq> w) xs @ filter (\<lambda>b. be_way b = w) xs"

definition relocate_begin :: "nat \<Rightarrow> BlockEntry list \<Rightarrow> BlockEntry list" where
  "relocate_begin w xs = filter (\<lambda>b. be_way b = w) xs @ filter (\<lambda>b. be_way b \<noteq> w) xs"

definition modify_block :: "nat \<Rightarrow> (BlockEntry \<Rightarrow> BlockEntry) \<Rightarrow> BlockEntry list \<Rightarrow> BlockEntry list" where
  "modify_block w f xs = map (\<lambda>b. if be_way b = w then f b else b) xs"

definition ChangeBlockState :: "CoherenceState_t \<Rightarrow> BlockEntry \<Rightarrow> BlockEntry" where
  "ChangeBlockState st entry = entry\<lparr>be_state := st\<rparr>"

definition ReplaceBlock :: "64 word \<Rightarrow> CoherenceState_t \<Rightarrow> BlockEntry \<Rightarrow> BlockEntry" where
  "ReplaceBlock t st entry = entry\<lparr>be_state := st, be_tag := t\<rparr>"

definition modify_tag :: "nat \<Rightarrow> 64 word \<Rightarrow> CoherenceState_t \<Rightarrow> BlockEntry list \<Rightarrow> BlockEntry list res" where
  "modify_tag w t st xs =
     (if \<exists>b \<in> set xs. be_way b \<noteq> w \<and> be_tag b = t then Inl UndefinedBehaviour
      else Inr (modify_block w (ReplaceBlock t st) xs))"

definition push_block :: "(BlockEntry list \<Rightarrow> BlockEntry \<Rightarrow> BlockEntry list) \<Rightarrow> BlockEntry \<Rightarrow> BlockEntry list \<Rightarrow> BlockEntry list" where
  "push_block place b xs = (if \<exists>x \<in> set xs. be_tag x = be_tag b \<or> be_way x = be_way b then xs else place xs b)"

definition push_front :: "BlockEntry \<Rightarrow> BlockEntry list \<Rightarrow> BlockEntry list" where
  "push_front = push_block (\<lambda>xs b. b # xs)"

definition push_end :: "BlockEntry \<Rightarrow> BlockEntry list \<Rightarrow> BlockEntry list" where
  "push_end = push_block (\<lambda>xs b. xs @ [b])"

subsection \<open>Operations\<close>

definition set_blocks :: "nat \<Rightarrow> BlockEntry list \<Rightarrow> StdCache \<Rightarrow> StdCache" where
  "set_blocks i xs c = c\<lparr>theBlocks := (theBlocks c)[i := xs]\<rparr>"

definition block_of :: "StdLookupResult \<Rightarrow> StdCache \<Rightarrow> BlockEntry res" where
  "block_of r c = bindE (vec_at (theBlocks c) (lr_set r)) (\<lambda>xs.
     case by_way (lr_block r) xs of None \<Rightarrow> Inl UndefinedBehaviour | Some b \<Rightarrow> Inr b)"

definition cache_lookup :: "64 word \<Rightarrow> StdCache \<Rightarrow> (StdLookupResult \<times> StdCache) res" where
  "cache_lookup tagset c =
     (let t = get_tag c tagset; set_index = get_set c tagset in
      bindE (vec_at (theBlocks c) set_index) (\<lambda>xs.
      case by_tag t xs of
        Some b \<Rightarrow> Inr (\<lparr>lr_address = t, lr_state = be_state b, lr_set = set_index, lr_block = be_way b\<rparr>, c)
      | None \<Rightarrow>
          if length xs < theAssoc c then
            (let w = length xs mod 2 ^ 16 in
             Inr (\<lparr>lr_address = t, lr_state = kInvalid, lr_set = set_index, lr_block = w\<rparr>,
                  set_blocks set_index (push_front \<lparr>be_tag = t, be_state = kInvalid, be_way = w\<rparr> xs) c))
          else
            bindE (front xs) (\<lambda>b.
            Inr (\<lparr>lr_address = t, lr_state = kInvalid, lr_set = set_index, lr_block = be_way b\<rparr>, c))))"

definition getState :: "StdLookupResult \<Rightarrow> StdCache \<Rightarrow> CoherenceState_t res" where
  "getState r c = bindE (block_of r c) (\<lambda>b.
     Inr (if be_tag b = lr_address r then be_state b else lr_state r))"

definition update_lru :: "StdLookupResult \<Rightarrow> StdCache \<Rightarrow> StdCache res" where
  "update_lru r c = bindE (block_of r c) (\<lambda>_.
     Inr (set_blocks (lr_set r) (relocate_end (lr_block r) (theBlocks c ! lr_set r)) c))"

definition make_block_lru :: "StdLookupResult \<Rightarrow> StdCache \<Rightarrow> StdCache res" where
  "make_block_lru r c = bindE (block_of r c) (\<lambda>_.
     Inr (set_blocks (lr_set r) (relocate_begin (lr_block r) (theBlocks c ! lr_set r)) c))"

definition change_block :: "CoherenceState_t \<Rightarrow> StdLookupResult \<Rightarrow> StdCache \<Rightarrow> StdCache res" where
  "change_block new_state r c = bindE (block_of r c) (\<lambda>_.
     Inr (set_blocks (lr_set r) (modify_block (lr_block r) (ChangeBlockState new_state) (theBlocks c ! lr_set r)) c))"

definition replace_block :: "64 word \<Rightarrow> CoherenceState_t \<Rightarrow> StdLookupResult \<Rightarrow> StdCache \<Rightarrow> StdCache res" where
  "replace_block new_tag new_state r c = bindE (block_of r c) (\<lambda>_.
     bindE (modify_tag (lr_block r) new_tag new_state (theBlocks c ! lr_set r)) (\<lambda>xs.
     Inr (set_blocks (lr_set r) xs c)))"

definition updateState :: "CoherenceState_t \<Rightarrow> bool \<Rightarrow> bool \<Rightarrow> StdLookupResult \<Rightarrow> StdCache \<Rightarrow> StdCache res" where
  "updateState new_state make_MRU make_LRU r c =
     bindE (change_block new_state r c) (\<lambda>c.
     if make_MRU then update_lru r c else if make_LRU then make_block_lru r c else Inr c)"

definition getSetTags :: "64 word \<Rightarrow> StdCache \<Rightarrow> 64 word list res" where
  "getSetTags addr c =
     (let set_index = get_set c addr in
      bindE (vec_at (theBlocks c) set_index) (\<lambda>xs.
      Inr ((if theAllocateInProgress c \<and> get_set c (theAllocateAddr c) = set_index then [theAllocateAddr c] else []) @
           map be_tag (filter (\<lambda>b. isValid (be_state b)) xs))))"

section \<open>The invariant\<close>

definition set_ok :: "StdCache \<Rightarrow> nat \<Rightarrow> BlockEntry list \<Rightarrow> bool" where
  "set_ok c i xs \<longleftrightarrow>
     length xs \<le> theAssoc c \<and> distinct (map be_tag xs) \<and> be_way ` set xs = {..<length xs} \<and>
     (\<forall>b \<in> set xs. isValid (be_state b) \<longrightarrow> get_set c (be_tag b) = i \<and> get_tag c (be_tag b) = be_tag b)"

definition geometry_ok :: "StdCache \<Rightarrow> bool" where
  "geometry_ok c \<longleftrightarrow>
     0 < theAssoc c \<and> theAssoc c \<le> 2 ^ 16 \<and> length (theBlocks c) = theNumSets c \<and>
     theNumSets c = 2 ^ log_base2 (theNumSets c) \<and> log_base2 (theNumSets c) < 32 \<and>
     theBlockSize c = 2 ^ blockShift c \<and> blockShift c < 32 \<and>
     blockSetMask c = mask (log_base2 (theNumSets c)) \<and> blockTagMask c = NOT (mask (blockShift c))"

definition cache_ok :: "StdCache \<Rightarrow> bool" where
  "cache_ok c \<longleftrightarrow> geometry_ok c \<and> (\<forall>i < length (theBlocks c). set_ok c i (theBlocks c ! i))"

text \<open>What the array says about a block, and what a lookup result must satisfy to be used.\<close>

definition state_in :: "64 word \<Rightarrow> BlockEntry list \<Rightarrow> CoherenceState_t" where
  "state_in t xs = (case by_tag t xs of None \<Rightarrow> kInvalid | Some b \<Rightarrow> be_state b)"

definition state_of :: "StdCache \<Rightarrow> 64 word \<Rightarrow> CoherenceState_t" where
  "state_of c t = state_in t (theBlocks c ! get_set c t)"

definition pending :: "StdLookupResult \<Rightarrow> 64 word \<Rightarrow> StdCache \<Rightarrow> bool" where
  "pending r t c \<longleftrightarrow>
     lr_address r = t \<and> get_tag c t = t \<and> lr_set r = get_set c t \<and>
     (\<exists>b \<in> set (theBlocks c ! get_set c t). be_way b = lr_block r \<and>
        (be_tag b = t \<or>
         lr_state r = kInvalid \<and> t \<notin> be_tag ` set (theBlocks c ! get_set c t) \<and>
         length (theBlocks c ! get_set c t) = theAssoc c))"

subsection \<open>Sets\<close>

lemma isValid_iff [simp]: "isValid s \<longleftrightarrow> s \<noteq> kInvalid"
  by (cases s) (simp_all add: isValid_def and_one_eq)

lemma ways_distinct: "be_way ` set xs = {..<length xs} \<Longrightarrow> distinct (map be_way xs)"
  by (metis card_distinct card_lessThan length_map list.set_map)

lemma by_tag_Some_iff:
  "distinct (map be_tag xs) \<Longrightarrow> by_tag t xs = Some b \<longleftrightarrow> b \<in> set xs \<and> be_tag b = t"
  unfolding by_tag_def by (induction xs) auto

lemma by_tag_None_iff: "by_tag t xs = None \<longleftrightarrow> t \<notin> be_tag ` set xs"
  unfolding by_tag_def by (auto simp: find_None_iff)

lemma by_way_Some_iff:
  "distinct (map be_way xs) \<Longrightarrow> by_way w xs = Some b \<longleftrightarrow> b \<in> set xs \<and> be_way b = w"
  unfolding by_way_def by (induction xs) auto

lemma state_in_member: "distinct (map be_tag xs) \<Longrightarrow> b \<in> set xs \<Longrightarrow> state_in (be_tag b) xs = be_state b"
  using by_tag_Some_iff[of xs "be_tag b" b] by (simp add: state_in_def)

lemma state_in_absent: "t \<notin> be_tag ` set xs \<Longrightarrow> state_in t xs = kInvalid"
  unfolding state_in_def by (simp add: by_tag_None_iff[symmetric])

lemma mset_relocate [simp]:
  "mset (relocate_end w xs) = mset xs" "mset (relocate_begin w xs) = mset xs"
  by (simp_all add: relocate_end_def relocate_begin_def add.commute flip: multiset_partition)

lemma set_relocate [simp]: "set (relocate_end w xs) = set xs" "set (relocate_begin w xs) = set xs"
  by (metis mset_relocate(1) set_mset_mset) (metis mset_relocate(2) set_mset_mset)

lemma perm_distinct_map: "mset ys = mset xs \<Longrightarrow> distinct (map f ys) = distinct (map f xs)"
  by (metis mset_map mset_eq_imp_distinct_iff)

lemma state_in_perm:
  assumes "distinct (map be_tag xs)" "mset ys = mset xs"
  shows "state_in t ys = state_in t xs"
proof (cases "t \<in> be_tag ` set xs")
  case True
  then obtain b where "b \<in> set xs" "be_tag b = t" by auto
  with assms show ?thesis
    using state_in_member[of xs b] state_in_member[of ys b] perm_distinct_map[OF assms(2), of be_tag]
    by (metis mset_eq_setD)
next
  case False
  with mset_eq_setD[OF assms(2)] show ?thesis by (simp add: state_in_absent)
qed

lemma set_ok_perm: "mset ys = mset xs \<Longrightarrow> set_ok c i ys \<longleftrightarrow> set_ok c i xs"
  using mset_eq_setD[of ys xs] mset_eq_length[of ys xs] perm_distinct_map[of ys xs be_tag]
  by (simp add: set_ok_def)

lemma length_modify_block [simp]: "length (modify_block w f xs) = length xs"
  by (simp add: modify_block_def)

lemma ways_modify_block:
  "(\<And>b. be_way (f b) = be_way b) \<Longrightarrow> map be_way (modify_block w f xs) = map be_way xs"
  by (simp add: modify_block_def)

lemma tags_change [simp]: "map be_tag (modify_block w (ChangeBlockState st) xs) = map be_tag xs"
  by (simp add: modify_block_def ChangeBlockState_def)

lemma tags_image_change [simp]:
  "be_tag ` set (modify_block w (ChangeBlockState st) xs) = be_tag ` set xs"
  by (metis list.set_map tags_change)

lemma ways_image_modify:
  "(\<And>b. be_way (f b) = be_way b) \<Longrightarrow> be_way ` set (modify_block w f xs) = be_way ` set xs"
  by (metis list.set_map ways_modify_block)

lemma be_way_updates [simp]:
  "be_way (ChangeBlockState st b) = be_way b" "be_way (ReplaceBlock t st b) = be_way b"
  by (simp_all add: ChangeBlockState_def ReplaceBlock_def)

lemma be_state_updates [simp]:
  "be_state (ChangeBlockState st b) = st" "be_state (ReplaceBlock t st b) = st"
  "be_tag (ChangeBlockState st b) = be_tag b" "be_tag (ReplaceBlock t st b) = t"
  by (simp_all add: ChangeBlockState_def ReplaceBlock_def)

lemma in_modify_block:
  "x \<in> set (modify_block w f xs) \<longleftrightarrow> (\<exists>b \<in> set xs. x = (if be_way b = w then f b else b))"
  by (simp only: modify_block_def set_map image_iff)

lemma state_in_change:
  assumes d: "distinct (map be_tag xs)" "distinct (map be_way xs)" and b: "b \<in> set xs" "be_way b = w"
  shows "state_in t (modify_block w (ChangeBlockState st) xs) = (if t = be_tag b then st else state_in t xs)"
proof (cases "t \<in> be_tag ` set xs")
  case True
  then obtain x where x: "x \<in> set xs" "be_tag x = t" by auto
  let ?x = "if be_way x = w then ChangeBlockState st x else x"
  have "state_in (be_tag ?x) (modify_block w (ChangeBlockState st) xs) = be_state ?x"
    by (rule state_in_member) (use x d in \<open>auto simp: in_modify_block\<close>)
  moreover have "be_way x = w \<longleftrightarrow> t = be_tag b"
    using d b x by (auto simp: distinct_map inj_on_def)
  ultimately show ?thesis using x d by (auto simp: state_in_member)
next
  case False
  with b show ?thesis by (auto simp: state_in_absent)
qed

lemma set_ok_change:
  assumes "set_ok c i xs" "b \<in> set xs" "be_way b = w" "get_set c (be_tag b) = i" "get_tag c (be_tag b) = be_tag b"
  shows "set_ok c i (modify_block w (ChangeBlockState st) xs)"
proof -
  have u: "x = b" if "x \<in> set xs" "be_way x = w" for x
    using ways_distinct[of xs] assms that by (auto simp: set_ok_def distinct_map inj_on_def)
  have "x = ChangeBlockState st b \<or> x \<in> set xs" if "x \<in> set (modify_block w (ChangeBlockState st) xs)" for x
    using that u by (auto simp only: in_modify_block split: if_splits)
  then have "\<forall>x \<in> set (modify_block w (ChangeBlockState st) xs).
      isValid (be_state x) \<longrightarrow> get_set c (be_tag x) = i \<and> get_tag c (be_tag x) = be_tag x"
    using assms by (fastforce simp: set_ok_def)
  with assms(1) show ?thesis by (simp add: set_ok_def ways_image_modify)
qed

lemma other_blocks:
  "distinct (map be_way xs) \<Longrightarrow> b \<in> set xs \<Longrightarrow> be_way b = w \<Longrightarrow> x \<in> set xs \<Longrightarrow> be_way x = w \<longleftrightarrow> x = b"
  by (auto simp: distinct_map inj_on_def)

lemma tags_replace:
  assumes "distinct (map be_way xs)" "distinct (map be_tag xs)" "b \<in> set xs" "be_way b = w" "t \<notin> be_tag ` set xs"
  shows "distinct (map be_tag (modify_block w (ReplaceBlock t st) xs))"
    and "be_tag ` set (modify_block w (ReplaceBlock t st) xs) = insert t (be_tag ` set xs - {be_tag b})"
proof -
  have "inj_on (\<lambda>x. be_tag (if be_way x = w then ReplaceBlock t st x else x)) (set xs)"
    using assms other_blocks[OF assms(1,3,4)] by (auto simp: inj_on_def distinct_map image_iff)
  then show "distinct (map be_tag (modify_block w (ReplaceBlock t st) xs))"
    using assms(2) by (simp add: modify_block_def distinct_map comp_def)
  show "be_tag ` set (modify_block w (ReplaceBlock t st) xs) = insert t (be_tag ` set xs - {be_tag b})"
    using assms other_blocks[OF assms(1,3,4)]
    by (auto simp: modify_block_def image_iff distinct_map inj_on_def split: if_splits)
qed

lemma state_in_replace:
  assumes d: "distinct (map be_way xs)" "distinct (map be_tag xs)" and b: "b \<in> set xs" "be_way b = w"
    and t: "t \<notin> be_tag ` set xs"
  shows "state_in x (modify_block w (ReplaceBlock t st) xs) =
    (if x = t then st else if x = be_tag b then kInvalid else state_in x xs)"
proof -
  let ?ys = "modify_block w (ReplaceBlock t st) xs"
  note tr = tags_replace[OF d b t, of st]
  consider "x = t" | "x \<noteq> t" "x = be_tag b \<or> x \<notin> be_tag ` set xs" | y where "x \<noteq> t" "x \<noteq> be_tag b" "y \<in> set xs" "be_tag y = x"
    by auto
  then show ?thesis
  proof cases
    case 1
    have "ReplaceBlock t st b \<in> set ?ys" using b unfolding in_modify_block by (metis (full_types))
    with 1 show ?thesis using state_in_member[OF tr(1), of "ReplaceBlock t st b"] by simp
  next
    case 2
    then show ?thesis using tr(2) by (auto simp: state_in_absent)
  next
    case 3
    then have "y \<in> set ?ys" using b other_blocks[OF d(1) b] by (auto simp: in_modify_block)
    with 3 show ?thesis using state_in_member[OF tr(1), of y] state_in_member[OF d(2), of y] by auto
  qed
qed

lemma set_ok_replace:
  assumes "set_ok c i xs" "b \<in> set xs" "be_way b = w" "t \<notin> be_tag ` set xs" "get_set c t = i" "get_tag c t = t"
  shows "set_ok c i (modify_block w (ReplaceBlock t st) xs)"
proof -
  have "distinct (map be_way xs)" using assms(1) by (simp add: set_ok_def ways_distinct)
  then show ?thesis
    using assms by (auto simp: set_ok_def ways_image_modify tags_replace in_modify_block split: if_splits)
qed

lemma push_front_new:
  assumes "set_ok c i xs" "length xs < theAssoc c" "theAssoc c \<le> 2 ^ 16" "t \<notin> be_tag ` set xs"
    and "b = \<lparr>be_tag = t, be_state = kInvalid, be_way = length xs mod 2 ^ 16\<rparr>"
  shows "push_front b xs = b # xs" "set_ok c i (b # xs)" "state_in x (b # xs) = state_in x xs"
proof -
  have w: "length xs mod 65536 = length xs" using assms(2,3) by simp
  have "length xs \<notin> be_way ` set xs" using assms(1) by (simp add: set_ok_def)
  then show "push_front b xs = b # xs"
    using assms(4) by (auto simp: push_front_def push_block_def assms(5) w image_iff)
  show "set_ok c i (b # xs)"
    using assms(1,2,4) by (auto simp: set_ok_def assms(5) w)
  show "state_in x (b # xs) = state_in x xs"
    using assms(4) unfolding by_tag_None_iff[symmetric]
    by (cases "t = x") (simp_all add: state_in_def by_tag_def assms(5))
qed

subsection \<open>Addresses\<close>

lemma set_blocks_frame [simp]:
  "get_set (set_blocks i xs c) = get_set c" "get_tag (set_blocks i xs c) = get_tag c"
  "theAssoc (set_blocks i xs c) = theAssoc c" "length (theBlocks (set_blocks i xs c)) = length (theBlocks c)"
  "theNumSets (set_blocks i xs c) = theNumSets c" "theBlockSize (set_blocks i xs c) = theBlockSize c"
  by (auto simp: set_blocks_def get_set_def get_tag_def fun_eq_iff)

lemma set_blocks_ok [simp]:
  "geometry_ok (set_blocks i xs c) = geometry_ok c" "set_ok (set_blocks i xs c) = set_ok c"
  by (auto simp: set_blocks_def geometry_ok_def set_ok_def get_set_def get_tag_def fun_eq_iff)

lemma theBlocks_set_blocks: "theBlocks (set_blocks i xs c) = (theBlocks c)[i := xs]"
  by (simp add: set_blocks_def)

lemma geometry_get_set: "geometry_ok c \<Longrightarrow> get_set c a < length (theBlocks c)"
  by (simp add: geometry_ok_def get_set_def flip: take_bit_eq_mask) 
    (metis take_bit_nat_less_exp unsigned_take_bit_eq)

lemma get_tag_idem [simp]: "get_tag c (get_tag c a) = get_tag c a"
  by (simp add: get_tag_def and.assoc)

lemma get_set_get_tag: "geometry_ok c \<Longrightarrow> get_set c (get_tag c a) = get_set c a"
  unfolding geometry_ok_def get_set_def get_tag_def
  by (auto intro!: arg_cong[where f = unat] bit_word_eqI simp: bit_simps)

subsection \<open>Replacing one set of the array\<close>

definition geometry :: "StdCache \<Rightarrow> nat \<times> nat \<times> nat \<times> nat \<times> 64 word \<times> 64 word" where
  "geometry c = (theNumSets c, theAssoc c, theBlockSize c, blockShift c, blockSetMask c, blockTagMask c)"

lemma geometry_set_blocks [simp]: "geometry (set_blocks i xs c) = geometry c"
  by (simp add: geometry_def set_blocks_def)

lemma geometryD:
  "geometry c' = geometry c \<Longrightarrow> get_tag c' = get_tag c" "geometry c' = geometry c \<Longrightarrow> get_set c' = get_set c"
  "geometry c' = geometry c \<Longrightarrow> theAssoc c' = theAssoc c"
  by (auto simp: geometry_def get_tag_def get_set_def fun_eq_iff)

lemma cache_ok_set_blocks: "cache_ok c \<Longrightarrow> set_ok c i xs \<Longrightarrow> cache_ok (set_blocks i xs c)"
  by (cases "i < length (theBlocks c)")
    (auto simp: cache_ok_def theBlocks_set_blocks nth_list_update list_update_beyond)

lemma cache_ok_set: "cache_ok c \<Longrightarrow> set_ok c (get_set c a) (theBlocks c ! get_set c a)"
  by (simp add: cache_ok_def geometry_get_set)

lemma state_of_set_blocks:
  "cache_ok c \<Longrightarrow> state_of (set_blocks (get_set c a) xs c) x =
     (if get_set c x = get_set c a then state_in x xs else state_of c x)"
  by (auto simp: state_of_def theBlocks_set_blocks nth_list_update cache_ok_def geometry_get_set)

definition keeps :: "nat \<Rightarrow> BlockEntry list \<Rightarrow> BlockEntry list \<Rightarrow> bool" where
  "keeps n xs ys \<longleftrightarrow>
     (\<forall>b \<in> set xs. \<exists>b' \<in> set ys. be_way b' = be_way b \<and> be_tag b' = be_tag b) \<and>
     (length xs = n \<longrightarrow> length ys = length xs \<and> be_tag ` set ys = be_tag ` set xs)"

definition same_ways :: "BlockEntry list \<Rightarrow> BlockEntry list \<Rightarrow> bool" where
  "same_ways xs ys \<longleftrightarrow> (\<forall>b \<in> set xs. \<exists>b' \<in> set ys. be_way b' = be_way b \<and> be_tag b' = be_tag b)"

definition stays :: "StdCache \<Rightarrow> StdCache \<Rightarrow> bool" where
  "stays c c' \<longleftrightarrow> geometry c' = geometry c \<and> (\<forall>r t. pending r t c \<longrightarrow> pending r t c') \<and>
     length (theBlocks c') = length (theBlocks c) \<and> (\<forall>i < length (theBlocks c). same_ways (theBlocks c ! i) (theBlocks c' ! i))"

lemma same_ways_refl [simp]: "same_ways xs xs"
  by (auto simp: same_ways_def)

lemma same_ways_trans: "same_ways xs ys \<Longrightarrow> same_ways ys zs \<Longrightarrow> same_ways xs zs"
  unfolding same_ways_def by metis

lemma stays_refl [simp]: "stays c c"
  by (simp add: stays_def)

lemma stays_trans [trans]: "stays a b \<Longrightarrow> stays b c \<Longrightarrow> stays a c"
  by (auto simp: stays_def intro: same_ways_trans)

lemma stays_set_blocks:
  assumes "keeps (theAssoc c) (theBlocks c ! i) ys"
  shows "stays c (set_blocks i ys c)"
proof -
  have "pending r t (set_blocks i ys c)" if "pending r t c" for r t
  proof (cases "get_set c t = i \<and> i < length (theBlocks c)")
    case True
    with that obtain b where b: "b \<in> set (theBlocks c ! i)" "be_way b = lr_block r"
        "be_tag b = t \<or> lr_state r = kInvalid \<and> t \<notin> be_tag ` set (theBlocks c ! i) \<and> length (theBlocks c ! i) = theAssoc c"
      by (auto simp: pending_def)
    from assms b(1) obtain b' where "b' \<in> set ys" "be_way b' = be_way b" "be_tag b' = be_tag b"
      by (auto simp: keeps_def)
    with True that b assms show ?thesis
      unfolding pending_def keeps_def by (auto simp: theBlocks_set_blocks)
  next
    case False
    then have "theBlocks (set_blocks i ys c) ! get_set c t = theBlocks c ! get_set c t"
      by (cases "i < length (theBlocks c)") (auto simp: theBlocks_set_blocks list_update_beyond)
    with that show ?thesis by (simp add: pending_def)
  qed
  moreover have "same_ways (theBlocks c ! j) (theBlocks (set_blocks i ys c) ! j)" if "j < length (theBlocks c)" for j
    using assms that by (cases "j = i") (auto simp: theBlocks_set_blocks keeps_def same_ways_def)
  ultimately show ?thesis by (simp add: stays_def)
qed

lemma keeps_perm: "mset ys = mset xs \<Longrightarrow> keeps n xs ys"
  using mset_eq_setD[of ys xs] mset_eq_length[of ys xs] by (auto simp: keeps_def)

lemma keeps_change: "keeps n xs (modify_block w (ChangeBlockState st) xs)"
proof -
  have "(if be_way b = w then ChangeBlockState st b else b) \<in> set (modify_block w (ChangeBlockState st) xs)"
    if "b \<in> set xs" for b
    using that in_modify_block by blast
  then show ?thesis
    by (simp add: keeps_def) (metis be_state_updates(3) be_way_updates(1))
qed

lemma keeps_push: "length xs < n \<Longrightarrow> keeps n xs (b # xs)"
  by (auto simp: keeps_def)

lemma pending_block:
  assumes "cache_ok c" "pending r t c"
  obtains b where "block_of r c = Inr b" "b \<in> set (theBlocks c ! get_set c t)" "be_way b = lr_block r"
    "be_tag b = t \<or> lr_state r = kInvalid \<and> t \<notin> be_tag ` set (theBlocks c ! get_set c t) \<and>
       length (theBlocks c ! get_set c t) = theAssoc c"
proof -
  have d: "distinct (map be_way (theBlocks c ! get_set c t))"
    using cache_ok_set[OF assms(1), of t] by (simp add: set_ok_def ways_distinct)
  from assms(2) obtain b where b: "b \<in> set (theBlocks c ! get_set c t)" "be_way b = lr_block r"
    "be_tag b = t \<or> lr_state r = kInvalid \<and> t \<notin> be_tag ` set (theBlocks c ! get_set c t) \<and>
       length (theBlocks c ! get_set c t) = theAssoc c"
    by (auto simp: pending_def)
  then have "by_way (lr_block r) (theBlocks c ! get_set c t) = Some b"
    using by_way_Some_iff[OF d] by simp
  moreover have "lr_set r = get_set c t" "get_set c t < length (theBlocks c)"
    using assms by (auto simp: pending_def cache_ok_def geometry_get_set)
  ultimately have "block_of r c = Inr b" by (simp add: block_of_def)
  with b that show thesis by blast
qed

subsection \<open>The operations of the array\<close>

lemma cache_lookup_ok:
  assumes ok: "cache_ok c" and t: "t = get_tag c a"
  shows "\<exists>r c'. cache_lookup a c = Inr (r, c') \<and> cache_ok c' \<and> state_of c' = state_of c \<and> pending r t c' \<and>
    getState r c' = Inr (state_of c t) \<and> stays c c'"
proof -
  let ?xs = "theBlocks c ! get_set c t"
  have g: "geometry_ok c" and so: "set_ok c (get_set c t) ?xs"
    using ok cache_ok_set by (auto simp: cache_ok_def)
  have i: "get_set c a = get_set c t" "get_tag c t = t" "get_set c t < length (theBlocks c)"
    using g t by (simp_all add: get_set_get_tag geometry_get_set)
  have d: "distinct (map be_tag ?xs)" "distinct (map be_way ?xs)"
    using so by (auto simp: set_ok_def ways_distinct)
  show ?thesis
  proof (cases "by_tag t ?xs")
    case (Some b)
    let ?r = "\<lparr>lr_address = t, lr_state = be_state b, lr_set = get_set c t, lr_block = be_way b\<rparr>"
    from Some d have b: "b \<in> set ?xs" "be_tag b = t" by (auto simp: by_tag_Some_iff)
    have "block_of ?r c = Inr b"
      using i by_way_Some_iff[OF d(2), of "be_way b" b] b by (simp add: block_of_def)
    moreover have "cache_lookup a c = Inr (?r, c)" "pending ?r t c" "state_of c t = be_state b"
      using Some i b by (auto simp: cache_lookup_def t[symmetric] pending_def state_of_def state_in_def)
    ultimately show ?thesis using ok b by (auto simp: getState_def)
  next
    case None
    then have n: "t \<notin> be_tag ` set ?xs" "state_of c t = kInvalid"
      by (auto simp: by_tag_None_iff state_of_def state_in_absent)
    show ?thesis
    proof (cases "length ?xs < theAssoc c")
      case True
      let ?w = "length ?xs mod 2 ^ 16"
      let ?b = "\<lparr>be_tag = t, be_state = kInvalid, be_way = ?w\<rparr>"
      let ?r = "\<lparr>lr_address = t, lr_state = kInvalid, lr_set = get_set c t, lr_block = ?w\<rparr>"
      let ?c = "set_blocks (get_set c t) (?b # ?xs) c"
      have pf': "push_front ?b ?xs = ?b # ?xs" "set_ok c (get_set c t) (?b # ?xs)" "\<And>x. state_in x (?b # ?xs) = state_in x ?xs"
        using push_front_new[OF so True _ n(1) refl] g by (simp_all add: geometry_ok_def)
      have "cache_lookup a c = Inr (?r, ?c)"
        using None i True pf'(1) by (simp add: cache_lookup_def t[symmetric] Let_def)
      moreover have okc: "cache_ok ?c" by (rule cache_ok_set_blocks[OF ok pf'(2)])
      moreover have "state_of ?c = state_of c"
        using state_of_set_blocks[OF ok, of t "?b # ?xs"] pf'(3) by (auto simp: fun_eq_iff state_of_def)
      moreover have p: "pending ?r t ?c" using i by (simp add: pending_def theBlocks_set_blocks)
      moreover have "stays c ?c" by (rule stays_set_blocks) (simp add: keeps_push True)
      moreover have "getState ?r ?c = Inr kInvalid"
        by (simp add: getState_def block_of_def theBlocks_set_blocks i by_way_def)
      ultimately show ?thesis using n(2) by metis
    next
      case False
      then have len: "length ?xs = theAssoc c" using so by (simp add: set_ok_def)
      then obtain b ys where xs: "?xs = b # ys"
        using g by (cases ?xs) (auto simp: geometry_ok_def)
      let ?r = "\<lparr>lr_address = t, lr_state = kInvalid, lr_set = get_set c t, lr_block = be_way b\<rparr>"
      have "cache_lookup a c = Inr (?r, c)"
        using None i False xs by (simp add: cache_lookup_def t[symmetric] Let_def)
      moreover have p: "pending ?r t c" using i n len xs by (simp add: pending_def)
      moreover have "getState ?r c = Inr kInvalid"
        by (rule pending_block[OF ok p]) (use n in \<open>auto simp: getState_def\<close>)
      ultimately show ?thesis using n(2) ok by auto
    qed
  qed
qed

lemma relocated_ok:
  assumes "cache_ok c" "mset xs = mset (theBlocks c ! get_set c a)"
  shows "cache_ok (set_blocks (get_set c a) xs c)" "state_of (set_blocks (get_set c a) xs c) = state_of c"
    "stays c (set_blocks (get_set c a) xs c)"
proof -
  note so = cache_ok_set[OF assms(1), of a]
  show "cache_ok (set_blocks (get_set c a) xs c)"
    using cache_ok_set_blocks[OF assms(1)] so set_ok_perm[OF assms(2)] by blast
  show "state_of (set_blocks (get_set c a) xs c) = state_of c"
    using so state_in_perm[OF _ assms(2)] state_of_set_blocks[OF assms(1)]
    by (auto simp: fun_eq_iff state_of_def set_ok_def)
  show "stays c (set_blocks (get_set c a) xs c)"
    by (rule stays_set_blocks[OF keeps_perm[OF assms(2)]])
qed

lemma update_lru_ok:
  assumes "cache_ok c" "pending r t c"
  shows "\<exists>c'. update_lru r c = Inr c' \<and> cache_ok c' \<and> state_of c' = state_of c \<and> stays c c'"
proof -
  from assms obtain b where "block_of r c = Inr b" by (rule pending_block)
  moreover have "lr_set r = get_set c t" using assms(2) by (simp add: pending_def)
  ultimately show ?thesis
    using relocated_ok[OF assms(1), of "relocate_end (lr_block r) (theBlocks c ! get_set c t)" t]
    by (simp add: update_lru_def)
qed

lemma make_block_lru_ok:
  assumes "cache_ok c" "pending r t c"
  shows "\<exists>c'. make_block_lru r c = Inr c' \<and> cache_ok c' \<and> state_of c' = state_of c \<and> stays c c'"
proof -
  from assms obtain b where "block_of r c = Inr b" by (rule pending_block)
  moreover have "lr_set r = get_set c t" using assms(2) by (simp add: pending_def)
  ultimately show ?thesis
    using relocated_ok[OF assms(1), of "relocate_begin (lr_block r) (theBlocks c ! get_set c t)" t]
    by (simp add: make_block_lru_def)
qed

lemma change_block_ok:
  assumes ok: "cache_ok c" and p: "pending r t c" and pr: "t \<in> be_tag ` set (theBlocks c ! get_set c t)"
  shows "\<exists>c'. change_block st r c = Inr c' \<and> cache_ok c' \<and> state_of c' = (state_of c)(t := st) \<and> stays c c'"
proof -
  let ?xs = "theBlocks c ! get_set c t"
  let ?ys = "modify_block (lr_block r) (ChangeBlockState st) ?xs"
  let ?c = "set_blocks (get_set c t) ?ys c"
  note so = cache_ok_set[OF ok, of t]
  then have d: "distinct (map be_tag ?xs)" "distinct (map be_way ?xs)" by (auto simp: set_ok_def ways_distinct)
  from ok p obtain b where b: "block_of r c = Inr b" "b \<in> set ?xs" "be_way b = lr_block r" "be_tag b = t"
    by (rule pending_block) (use pr in auto)
  have "lr_set r = get_set c t" "get_tag c t = t" using p by (auto simp: pending_def)
  moreover have "cache_ok ?c"
    using cache_ok_set_blocks[OF ok] set_ok_change[OF so b(2,3)] b(4) \<open>get_tag c t = t\<close> by simp
  moreover have "state_of ?c = (state_of c)(t := st)"
    using state_of_set_blocks[OF ok, of t ?ys] state_in_change[OF d b(2,3)] b(4)
    by (auto simp: fun_eq_iff state_of_def)
  moreover have "stays c ?c" by (rule stays_set_blocks[OF keeps_change])
  ultimately show ?thesis using b(1) by (simp add: change_block_def)
qed

lemma stays_block:
  assumes "stays c c'" "cache_ok c'" "block_of r c = Inr b"
  shows "\<exists>b'. block_of r c' = Inr b' \<and> be_tag b' = be_tag b"
proof -
  let ?xs = "theBlocks c ! lr_set r" and ?ys = "theBlocks c' ! lr_set r"
  from assms(3) have i: "lr_set r < length (theBlocks c)" and "by_way (lr_block r) ?xs = Some b"
    by (auto simp: block_of_def bindE_Inr_iff vec_at_Inr_iff split: option.splits)
  then have "b \<in> set ?xs" "be_way b = lr_block r"
    by (auto simp: by_way_def find_Some_iff)
  with assms(1) i obtain b' where b': "b' \<in> set ?ys" "be_way b' = lr_block r" "be_tag b' = be_tag b"
    unfolding stays_def same_ways_def by metis
  have "distinct (map be_way ?ys)"
    using assms(1,2) i by (auto simp: stays_def cache_ok_def set_ok_def ways_distinct)
  then have "by_way (lr_block r) ?ys = Some b'" using b' by (simp add: by_way_Some_iff)
  with b' i assms(1) show ?thesis by (auto simp: block_of_def stays_def)
qed

lemma updateState_ok:
  assumes "cache_ok c" "pending r t c" "t \<in> be_tag ` set (theBlocks c ! get_set c t)"
  shows "\<exists>c'. updateState st m l r c = Inr c' \<and> cache_ok c' \<and> state_of c' = (state_of c)(t := st) \<and> stays c c'"
proof -
  from change_block_ok[OF assms, of st] obtain c1 where c1: "change_block st r c = Inr c1" "cache_ok c1"
    "state_of c1 = (state_of c)(t := st)" "stays c c1" by auto
  then have p: "pending r t c1" using assms(2) by (simp add: stays_def)
  from update_lru_ok[OF c1(2) p] make_block_lru_ok[OF c1(2) p] c1 show ?thesis
    by (auto simp: updateState_def intro: stays_trans)
qed

lemma replace_block_ok:
  assumes ok: "cache_ok c" and p: "pending r t c" and b: "block_of r c = Inr b" "be_tag b \<noteq> t"
  shows "\<exists>c'. replace_block t st r c = Inr c' \<and> cache_ok c' \<and> pending r t c' \<and> geometry c' = geometry c \<and>
    state_of c' = (\<lambda>x. if x = t then st else if x = be_tag b \<and> get_set c x = get_set c t then kInvalid else state_of c x)"
proof -
  let ?xs = "theBlocks c ! get_set c t"
  let ?ys = "modify_block (lr_block r) (ReplaceBlock t st) ?xs"
  let ?c = "set_blocks (get_set c t) ?ys c"
  note so = cache_ok_set[OF ok, of t]
  then have d: "distinct (map be_way ?xs)" "distinct (map be_tag ?xs)" by (auto simp: set_ok_def ways_distinct)
  from ok p have bx: "b \<in> set ?xs" "be_way b = lr_block r" "t \<notin> be_tag ` set ?xs"
    by (rule pending_block; use b in auto)+
  have q: "lr_set r = get_set c t" "get_tag c t = t" "get_set c t < length (theBlocks c)" "lr_address r = t"
    using p ok by (auto simp: pending_def cache_ok_def geometry_get_set)
  have "modify_tag (lr_block r) t st ?xs = Inr ?ys" using bx(3) by (auto simp: modify_tag_def)
  then have "replace_block t st r c = Inr ?c" using b q by (simp add: replace_block_def)
  moreover have "cache_ok ?c"
    using cache_ok_set_blocks[OF ok] set_ok_replace[OF so bx] q(2) by simp
  moreover have "state_of ?c = (\<lambda>x. if x = t then st else if x = be_tag b \<and> get_set c x = get_set c t then kInvalid else state_of c x)"
    using state_of_set_blocks[OF ok, of t ?ys] state_in_replace[OF d bx]
    by (auto simp: fun_eq_iff state_of_def)
  moreover have "ReplaceBlock t st b \<in> set ?ys" using bx unfolding in_modify_block by (metis (full_types))
  then have "pending r t ?c"
    using q bx unfolding pending_def by (auto simp: theBlocks_set_blocks intro!: bexI[of _ "ReplaceBlock t st b"])
  ultimately show ?thesis by simp
qed

section \<open>The contract of a cache array\<close>

text \<open>What the protocol relies on (\<^verbatim>\<open>AbstractCache\<close>): a lookup changes no block's state and gives a handle on
  the block's state; through the handle the state of that block alone can be changed.\<close>

locale abstract_cache =
  fixes ok :: "'c \<Rightarrow> bool"
    and contents :: "'c \<Rightarrow> 'a \<Rightarrow> CoherenceState_t"
    and line :: "'c \<Rightarrow> 'a \<Rightarrow> 'a"
    and usable :: "'r \<Rightarrow> 'a \<Rightarrow> 'c \<Rightarrow> bool"
    and lookup :: "'a \<Rightarrow> 'c \<Rightarrow> ('r \<times> 'c) res"
    and current :: "'r \<Rightarrow> 'c \<Rightarrow> CoherenceState_t res"
    and change :: "CoherenceState_t \<Rightarrow> bool \<Rightarrow> bool \<Rightarrow> 'r \<Rightarrow> 'c \<Rightarrow> 'c res"
    and touch :: "'r \<Rightarrow> 'c \<Rightarrow> 'c res"
    and stable :: "'c \<Rightarrow> 'c \<Rightarrow> bool"
  assumes lookup_law: "ok c \<Longrightarrow> \<exists>r c'. lookup a c = Inr (r, c') \<and> ok c' \<and> contents c' = contents c \<and>
      usable r (line c a) c' \<and> current r c' = Inr (contents c (line c a)) \<and> stable c c'"
    and change_law: "ok c \<Longrightarrow> usable r t c \<Longrightarrow> contents c t \<noteq> kInvalid \<Longrightarrow>
      \<exists>c'. change st m l r c = Inr c' \<and> ok c' \<and> contents c' = (contents c)(t := st) \<and> stable c c'"
    and touch_law: "ok c \<Longrightarrow> usable r t c \<Longrightarrow>
      \<exists>c'. touch r c = Inr c' \<and> ok c' \<and> contents c' = contents c \<and> stable c c'"
    and stable_usable: "stable c c' \<Longrightarrow> usable r t c \<Longrightarrow> usable r t c'"
    and stable_trans: "stable c c' \<Longrightarrow> stable c' c'' \<Longrightarrow> stable c c''"
begin

lemma lookup_then_change:
  assumes "ok c" "contents c (line c a) \<noteq> kInvalid"
  shows "\<exists>c'. bindE (lookup a c) (\<lambda>(r, c). change st m l r c) = Inr c' \<and> ok c' \<and>
    contents c' = (contents c)(line c a := st) \<and> stable c c'"
proof -
  from lookup_law[OF assms(1), of a] obtain r c1 where c1: "lookup a c = Inr (r, c1)" "ok c1"
    "contents c1 = contents c" "usable r (line c a) c1" "stable c c1" by blast
  from change_law[OF c1(2,4), of st m l] assms(2) c1(3) obtain c2 where
    "change st m l r c1 = Inr c2" "ok c2" "contents c2 = (contents c)(line c a := st)" "stable c1 c2" by auto
  with c1 stable_trans show ?thesis by auto
qed

lemma lookups_harmless:
  assumes "ok c"
  shows "\<exists>c'. foldE (\<lambda>a c. bindE (lookup a c) (\<lambda>(r, c). Inr c)) as c = Inr c' \<and> ok c' \<and> contents c' = contents c"
proof -
  have "\<exists>c'. foldE (\<lambda>a c. bindE (lookup a c) (\<lambda>(r, c). Inr c)) as c = Inr c' \<and> (ok c' \<and> contents c' = contents c)"
  proof (rule foldE_inv)
    fix x s assume "ok s \<and> contents s = contents c"
    with lookup_law[of s x] show "\<exists>s'. bindE (lookup x s) (\<lambda>(r, c). Inr c) = Inr s' \<and> (ok s' \<and> contents s' = contents c)"
      by auto
  qed (use assms in simp)
  then show ?thesis .
qed

end

lemma present_tag: "state_of c t \<noteq> kInvalid \<Longrightarrow> t \<in> be_tag ` set (theBlocks c ! get_set c t)"
  using state_in_absent by (auto simp: state_of_def)

interpretation std: abstract_cache cache_ok state_of get_tag pending cache_lookup getState updateState update_lru stays
proof (unfold_locales, goal_cases)
  case (1 c a)
  then show ?case using cache_lookup_ok[of c "get_tag c a" a] by blast
next
  case (2 c r t st m l)
  show ?case by (rule updateState_ok[OF 2(1,2) present_tag[OF 2(3)]])
next
  case (3 c r t)
  then show ?case by (rule update_lru_ok)
next
  case (4 c c' r t)
  then show ?case by (simp add: stays_def)
next
  case (5 c c' c'')
  then show ?case by (rule stays_trans)
qed

section \<open>Construction\<close>

lemma log_base2_power [simp]: "log_base2 (2 ^ k) = k"
  by (induction k) (simp_all add: log_base2.simps)

lemma and_pred_power:
  "0 < (n :: nat) \<Longrightarrow> n AND (n - 1) = 0 \<Longrightarrow> n = 2 ^ log_base2 n"
proof (induction n rule: less_induct)
  case (less n)
  show ?case
  proof (cases "even n")
    case True
    then obtain m where m: "n = 2 * m" by blast
    with less.prems have "0 < m" "(2 * m - 1) div 2 = m - 1" by auto
    then have "m AND (m - 1) = 0"
      using less.prems(2) and_nat_rec[of "2 * m" "2 * m - 1"] m by simp
    then have "m = 2 ^ log_base2 m" by (intro less.IH) (use \<open>0 < m\<close> m in auto)
    moreover have "log_base2 n = Suc (log_base2 m)" using m \<open>0 < m\<close> by (subst log_base2.simps) simp
    ultimately show ?thesis by (metis m power_Suc)
  next
    case False
    then obtain m where m: "n = 2 * m + 1" by (meson oddE)
    then have "m = 0"
      using less.prems(2) and_nat_rec[of "2 * m + 1" "2 * m"] by simp
    with m show ?thesis by (simp add: log_base2.simps)
  qed
qed

lemma and_pred_int:
  assumes "0 < n" "n AND (n - 1) = (0 :: int)"
  shows "nat n = 2 ^ log_base2 (nat n)" "n = 2 ^ log_base2 (nat n)"
proof -
  have "int (nat n AND (nat n - 1)) = 0"
    using assms by (simp add: of_nat_and_eq of_nat_diff)
  with assms show p: "nat n = 2 ^ log_base2 (nat n)" by (intro and_pred_power) auto
  have "n = int (nat n)" using assms(1) by simp
  also have "int (nat n) = int (2 ^ log_base2 (nat n))" by (rule arg_cong[OF p])
  also have "\<dots> = 2 ^ log_base2 (nat n)" by simp
  finally show "n = 2 ^ log_base2 (nat n)" .
qed

lemma log_base2_bound: "n = 2 ^ log_base2 n \<Longrightarrow> n < 2 ^ 31 \<Longrightarrow> log_base2 n < 31"
  by (metis power_strict_increasing_iff one_less_numeral_iff semiring_norm(76))

lemma StdCache_new_fields:
  assumes "StdCache_new bs ns as txt = Inr c" "bs < 2 ^ 31" "ns < 2 ^ 31" "as \<le> 2 ^ 16"
  shows "geometry_ok c" "theBlocks c = replicate (nat ns) []" "theNumSets c = nat ns" "theBlockSize c = nat bs"
    "theAssoc c = nat as"
proof -
  from assms(1) have f: "0 < as" "0 < ns" "0 < bs" "ns AND (ns - 1) = 0" "bs AND (bs - 1) = 0"
    and c: "c = \<lparr>theNumSets = nat ns, theAssoc = nat as, theBlockSize = nat bs,
          blockShift = log_base2 (nat bs), blockSetMask = of_int (ns - 1),
          blockTagMask = of_int (NOT (bs - 1)), theBlocks = replicate (nat ns) [],
          theTextFlexpoints = txt, theAllocateInProgress = False, theAllocateAddr = 0\<rparr>"
    by (auto simp: StdCache_new_def bindE_Inr_iff)
  have p: "nat ns = 2 ^ log_base2 (nat ns)" "nat bs = 2 ^ log_base2 (nat bs)"
    by (rule and_pred_int(1)[OF f(2,4)], rule and_pred_int(1)[OF f(3,5)])
  have e: "ns = 2 ^ log_base2 (nat ns)" "bs = 2 ^ log_base2 (nat bs)"
    by (rule and_pred_int(2)[OF f(2,4)], rule and_pred_int(2)[OF f(3,5)])
  have "nat ns < 2 ^ 31" "nat bs < 2 ^ 31" using assms by auto
  with p have l: "log_base2 (nat ns) < 31" "log_base2 (nat bs) < 31" using log_base2_bound by auto
  have "(of_int (ns - 1) :: 64 word) = mask (log_base2 (nat ns))"
    by (subst e(1)) (simp add: mask_eq_exp_minus_1)
  moreover have "(of_int (NOT (bs - 1)) :: 64 word) = NOT (mask (log_base2 (nat bs)))"
    by (subst e(2)) (simp add: mask_eq_exp_minus_1 of_int_not_eq)
  ultimately show "geometry_ok c" using f l p assms by (simp add: geometry_ok_def c)
  show "theBlocks c = replicate (nat ns) []" "theNumSets c = nat ns" "theBlockSize c = nat bs" "theAssoc c = nat as"
    by (simp_all add: c)
qed

lemma take_bit_unat64 [simp]: "take_bit 64 (unat (a :: 64 word)) = unat a"
  using unsigned_less[where 'b = 64 and 'a = nat, of a] by (simp add: take_bit_nat_eq_self)

lemma get_set_div:
  assumes "geometry_ok c"
  shows "get_set c a = unat a div theBlockSize c mod theNumSets c"
proof -
  let ?k = "log_base2 (theNumSets c)"
  have n: "theNumSets c = 2 ^ ?k" "theBlockSize c = 2 ^ blockShift c" "blockSetMask c = mask ?k"
    using assms by (auto simp: geometry_ok_def)
  have "get_set c a = take_bit ?k (drop_bit (blockShift c) (unat a))"
    by (simp only: get_set_def n(3) flip: take_bit_eq_mask) (simp add: unsigned_take_bit_eq unsigned_drop_bit_eq)
  then show ?thesis by (simp only: n(2) take_bit_eq_mod drop_bit_eq_div) (metis n(1))
qed

lemma get_tag_mod:
  assumes "geometry_ok c"
  shows "unat (get_tag c a) = unat a - unat a mod theBlockSize c"
proof -
  let ?j = "blockShift c"
  have "get_tag c a = push_bit ?j (drop_bit ?j a)"
    using assms by (auto simp: geometry_ok_def get_tag_def bit_simps intro!: bit_word_eqI)
  then have "unat (get_tag c a) = take_bit LENGTH(64) (push_bit ?j (drop_bit ?j (take_bit LENGTH(64) (unat a))))"
    by (simp only: unsigned_push_bit_eq unsigned_drop_bit_eq)
  then have "unat (get_tag c a) = take_bit 64 (unat a div 2 ^ ?j * 2 ^ ?j)"
    by (simp add: push_bit_eq_mult drop_bit_eq_div)
  moreover have "unat a div 2 ^ ?j * 2 ^ ?j < 2 ^ 64"
    by (rule le_less_trans[OF div_times_less_eq_dividend]) (use unsigned_less[of a] in simp)
  moreover have "theBlockSize c = 2 ^ ?j" using assms by (simp add: geometry_ok_def)
  ultimately show ?thesis by (simp add: take_bit_nat_eq_self minus_mod_eq_div_mult)
qed

lemma power_and_pred: "(2 ^ k :: int) AND (2 ^ k - 1) = 0"
  using take_bit_eq_mask[of k "2 ^ k :: int"] by (simp add: mask_eq_exp_minus_1)

text \<open>The constructor accepts exactly the sizes that are powers of two with a positive associativity,
  and then gives an empty array that satisfies the invariant, in which the set of an address is its
  block number modulo the number of sets and the tag is the address of the first byte of its block.\<close>

theorem StdCache_new_correct:
  assumes "bs < 2 ^ 31" "ns < 2 ^ 31" "as \<le> 2 ^ 16"
  shows "if 0 < as \<and> (\<exists>j. bs = 2 ^ j) \<and> (\<exists>k. ns = 2 ^ k)
    then \<exists>c. StdCache_new bs ns as txt = Inr c \<and> cache_ok c \<and> (\<forall>t. state_of c t = kInvalid) \<and>
      (\<forall>a. get_set c a = unat a div nat bs mod nat ns \<and> unat (get_tag c a) = unat a - unat a mod nat bs)
    else StdCache_new bs ns as txt = Inl AssertionFailed"
proof (cases "0 < as \<and> (\<exists>j. bs = 2 ^ j) \<and> (\<exists>k. ns = 2 ^ k)")
  case True
  then obtain c where c: "StdCache_new bs ns as txt = Inr c"
    by (auto simp: StdCache_new_def power_and_pred)
  note f = StdCache_new_fields[OF c assms]
  have "cache_ok c" using f by (auto simp: cache_ok_def set_ok_def)
  moreover have "state_of c t = kInvalid" for t
    using geometry_get_set[OF f(1), of t] f by (simp add: state_of_def state_in_def by_tag_def)
  ultimately show ?thesis
    using True c f get_set_div[OF f(1)] get_tag_mod[OF f(1)] by auto
next
  case False
  have "0 < n \<Longrightarrow> n AND (n - 1) = 0 \<Longrightarrow> \<exists>k. n = 2 ^ k" for n :: int
    using and_pred_int(2) by blast
  with False have "\<not> (0 < as \<and> 0 < ns \<and> 0 < bs \<and> ns AND (ns - 1) = 0 \<and> bs AND (bs - 1) = 0)" by blast
  with False show ?thesis unfolding StdCache_new_def if_not_P[OF False] by (auto simp: dbg_assert_def)
qed

theorem StdCache_new_correct_witness:
  "\<exists>c. StdCache_new 64 16 4 False = Inr c \<and> cache_ok c"
proof -
  have "(64 :: int) = 2 ^ 6" "(16 :: int) = 2 ^ 4" by simp_all
  then have h: "0 < (4 :: int) \<and> (\<exists>j. (64 :: int) = 2 ^ j) \<and> (\<exists>k. (16 :: int) = 2 ^ k)" by (metis zero_less_numeral)
  show ?thesis using StdCache_new_correct[of 64 16 4 False, unfolded if_P[OF h]] by auto
qed

end
