(* ===== verification/MemoryMessages.thy ===== *)
theory MemoryMessages
  imports Flexus_Prelude
begin

text \<open>
  The messages the caches exchange (\<^verbatim>\<open>CommonQEMU/Slices/MemoryMessage.hpp\<close>): their types and the fields
  the functional caches, the fetch unit and memory read or write. The other fields (data, serial number, branch and
  page-walk marks) are carried along unchanged and are left out. A transport carries a message with its
  destination and its transaction tracker (\<^verbatim>\<open>DestinationMessage.hpp\<close>, \<^verbatim>\<open>TransactionTracker.hpp\<close>), both counted
  pointers that may be null; of these, too, the fields that are only carried along are left out.
\<close>

datatype (plugins only:) MemoryMessageType =
    LoadReq | StoreReq | StorePrefetchReq | FetchReq | NonAllocatingStoreReq | RMWReq | CmpxReq
  | AtomicPreloadReq | FlushReq | ReadReq | WriteReq | WriteAllocate | UpgradeReq
  | UpgradeAllocate | Flush | EvictDirty | EvictWritable | EvictClean | SVBClean | LoadReply
  | StoreReply | StorePrefetchReply | FetchReply | RMWReply | CmpxReply | AtomicPreloadReply
  | MissReply | MissReplyWritable | MissReplyDirty | UpgradeReply | NonAllocatingStoreReply
  | Invalidate | Downgrade | Probe | DownProbe | ReturnReq | InvalidateAck | InvUpdateAck
  | DowngradeAck | DownUpdateAck | ProbedNotPresent | ProbedClean | ProbedWritable
  | ProbedDirty | DownProbePresent | DownProbeNotPresent | ReturnReply | StreamFetch
  | PrefetchReadNoAllocReq | PrefetchReadAllocReq | PrefetchInsert | PrefetchInsertWritable
  | PrefetchReadReply | PrefetchWritableReply | PrefetchDirtyReply | PrefetchReadRedundant
  | StreamFetchWritableReply | StreamFetchRejected | ReturnNAck | ReturnReplyDirty | FetchFwd
  | ReadFwd | WriteFwd | FwdNAck | FwdReply | FwdReplyOwned | FwdReplyWritable | FwdReplyDirty
  | ReadAck | ReadAckDirty | FetchAck | FetchAckDirty | WriteAck | UpgradeAck | NASAck
  | ReadNAck | FetchNAck | WriteNAck | UpgradeNAck | NASNAck | MissNotify | MissNotifyData
  | BackInvalidate | InvalidateNAck | ProtocolMessage | EvictAck | WriteRetry
  | NumMemoryMessageTypes

datatype tFillLevel = eUnknown | eL1 | eL2 | eL3 | eLocalMem | eRemoteMem | ePrefetchBuffer | ePeerL1Cache
  | eL2Prefetcher | eL1I | eCore | ePeerL2 | eDirectory | NumFillLevels

record MemoryMessage =
  mm_type :: MemoryMessageType
  mm_address :: "64 word"
  mm_coreIdx :: int
  mm_dstream :: bool
  mm_PC :: "64 word"
  mm_reqSize :: int
  mm_ackRequired :: bool
  mm_ackRequiresData :: bool
  mm_fillLevel :: tFillLevel

definition MemoryMessage_new :: "MemoryMessageType \<Rightarrow> MemoryMessage" where
  "MemoryMessage_new aType = \<lparr>mm_type = aType, mm_address = 0, mm_coreIdx = 0, mm_dstream = True,
     mm_PC = 0, mm_reqSize = 0, mm_ackRequired = True, mm_ackRequiresData = False,
     mm_fillLevel = eUnknown\<rparr>"

text \<open>The copy constructor copies neither the core index nor the fill level.\<close>

definition MemoryMessage_copy :: "MemoryMessage \<Rightarrow> MemoryMessage" where
  "MemoryMessage_copy aMsg = aMsg\<lparr>mm_coreIdx := 0, mm_fillLevel := eUnknown\<rparr>"

definition MemoryMessage_at :: "MemoryMessageType \<Rightarrow> 64 word \<Rightarrow> MemoryMessage" where
  "MemoryMessage_at aType anAddress = (MemoryMessage_new aType)\<lparr>mm_address := anAddress\<rparr>"

definition newFetch :: "64 word \<Rightarrow> 64 word \<Rightarrow> MemoryMessage" where
  "newFetch anAddress vPC = (MemoryMessage_at FetchReq anAddress)\<lparr>mm_PC := vPC\<rparr>"

definition isEvictType :: "MemoryMessage \<Rightarrow> bool" where
  "isEvictType m \<longleftrightarrow> mm_type m \<in> {EvictDirty, EvictWritable, EvictClean}"

section \<open>Transports\<close>

datatype tFillType = eCold | eReplacement | eCoherence | eDGP | eDMA | ePrefetch | eFetch | eNAW | eDataPrivate
  | eDataSharedRO | eDataSharedRW

datatype tStateType = eInvalid | eShared | eModified

datatype DestinationType = Requester | Directory | RemoteDirectory | Source | Memory | Multicast | Other

record DestinationMessage =
  dm_type :: DestinationType
  dm_requester :: int

record TransactionTracker =
  tt_Address :: "64 word option"
  tt_Initiator :: "nat option"
  tt_Source :: "string option"
  tt_Responder :: "nat option"
  tt_CompletionCycle :: "nat option"
  tt_NetworkTrafficRequired :: "bool option"
  tt_PreviousState :: "tStateType option"
  tt_FillType :: "tFillType option"
  tt_FillLevel :: "tFillLevel option"
  tt_Fetch :: "bool option"

definition TransactionTracker_new :: TransactionTracker where
  "TransactionTracker_new = \<lparr>tt_Address = None, tt_Initiator = None, tt_Source = None, tt_Responder = None,
     tt_CompletionCycle = None, tt_NetworkTrafficRequired = None, tt_PreviousState = None, tt_FillType = None, tt_FillLevel = None, tt_Fetch = None\<rparr>"

record MemoryTransport =
  mt_msg :: MemoryMessage
  mt_dest :: "DestinationMessage option"
  mt_tracker :: "TransactionTracker option"

end
