(* ===== verification/FastCache.thy ===== *)
theory FastCache
  imports StdCache MemoryMessages
begin

text \<open>
  The functional cache (\<^verbatim>\<open>FastCache/FastCacheImpl.cpp\<close>) and its coherence protocols
  (\<^verbatim>\<open>CoherenceProtocol.hpp\<close>, \<^verbatim>\<open>InclusiveMESI.hpp\<close>, \<^verbatim>\<open>InclusiveMOESI.hpp\<close>) over the tag array of
  \<^verbatim>\<open>StdCache\<close>.

  A protocol is a table from state and request to the template arguments of an action; the action
  templates are one function that follows the specialisations and fails where only the generic
  template applies.

  The neighbours are parameters. A message sent up (\<^verbatim>\<open>SnoopOutI\<close>, \<^verbatim>\<open>SnoopOutD\<close>) returns the changed
  message and a new state of the upper caches. A message sent down (\<^verbatim>\<open>RequestOut\<close>) may snoop this cache
  any number of times before it returns, and may choose what to do next from the answers: such a call is
  a tree of type \<open>'l lower_call\<close>. Every message sent is also recorded in a log. Statistics are not
  modelled.
\<close>

unbundle bit_operations_syntax

section \<open>Requests and actions\<close>

datatype access_t = kReadAccess | kWriteAccess | kFetchAccess | kUpgrade | kEvictClean
  | kEvictWritable | kEvictDirty | kStoreAccess | kNAWAccess | kUnknownAccess

definition message2access :: "MemoryMessageType \<Rightarrow> access_t res" where
  "message2access type =
     (if type = ReadReq then Inr kReadAccess
      else if type = WriteReq then Inr kWriteAccess
      else if type = FetchReq then Inr kFetchAccess
      else if type = UpgradeReq then Inr kUpgrade
      else if type = EvictClean then Inr kEvictClean
      else if type = EvictWritable then Inr kEvictWritable
      else if type = EvictDirty then Inr kEvictDirty
      else if type = LoadReq then Inr kReadAccess
      else if type = RMWReq \<or> type = CmpxReq \<or> type = StoreReq then Inr kStoreAccess
      else if type = NonAllocatingStoreReq then Inr kNAWAccess
      else Inl AssertionFailed)"

datatype action_arg = POISON | SendNone | SendUpgrade | SendWrite | SendRead | SendFetch | NoAllocate
  | Allocate | SameState | M_State | O_State | E_State | S_State | I_State | UpdateLRU | NoUpdateLRU
  | FillWritable | FillValid | FillDepend | FillDirty | NoResponse | DependState | SnoopDepend
  | MigratoryDepend | DoSnoop | NoSnoop | SendNAW

type_synonym request_action = "action_arg \<times> action_arg \<times> action_arg \<times> action_arg \<times> action_arg"

abbreviation poison :: request_action where
  "poison \<equiv> (POISON, POISON, POISON, POISON, POISON)"

abbreviation (input) if_traces :: "bool \<Rightarrow> request_action \<Rightarrow> request_action option" where
  "if_traces using_traces a \<equiv> Some (if using_traces then a else poison)"

section \<open>The MESI table\<close>

fun mesi_request :: "bool \<Rightarrow> CoherenceState_t \<Rightarrow> access_t \<Rightarrow> request_action option" where
  "mesi_request tr kModified kReadAccess = Some (SendNone, NoAllocate, DependState, UpdateLRU, FillDirty)"
| "mesi_request tr kModified kWriteAccess = Some (SendNone, NoAllocate, E_State, UpdateLRU, FillDirty)"
| "mesi_request tr kModified kStoreAccess = Some (SendNone, NoAllocate, SameState, UpdateLRU, FillDirty)"
| "mesi_request tr kModified kNAWAccess = Some (SendNone, NoAllocate, SameState, UpdateLRU, FillDirty)"
| "mesi_request tr kModified kFetchAccess = Some (SendNone, NoAllocate, SameState, UpdateLRU, FillValid)"
| "mesi_request tr kModified kUpgrade = Some (SendNone, NoAllocate, E_State, UpdateLRU, FillDirty)"
| "mesi_request tr kModified kEvictClean = Some (SendNone, NoAllocate, SameState, UpdateLRU, NoResponse)"
| "mesi_request tr kModified kEvictWritable = Some poison"
| "mesi_request tr kModified kEvictDirty = Some poison"
| "mesi_request tr kExclusive kReadAccess = Some (SendNone, NoAllocate, SameState, UpdateLRU, FillValid)"
| "mesi_request tr kExclusive kWriteAccess = Some (SendNone, NoAllocate, SameState, UpdateLRU, FillWritable)"
| "mesi_request tr kExclusive kStoreAccess = Some (SendNone, NoAllocate, M_State, UpdateLRU, FillWritable)"
| "mesi_request tr kExclusive kNAWAccess = Some (SendNone, NoAllocate, M_State, UpdateLRU, FillWritable)"
| "mesi_request tr kExclusive kFetchAccess = Some (SendNone, NoAllocate, SameState, UpdateLRU, FillValid)"
| "mesi_request tr kExclusive kUpgrade = Some (SendNone, NoAllocate, SameState, UpdateLRU, FillWritable)"
| "mesi_request tr kExclusive kEvictClean = Some (SendNone, NoAllocate, SameState, UpdateLRU, NoResponse)"
| "mesi_request tr kExclusive kEvictWritable = Some (SendNone, NoAllocate, SameState, UpdateLRU, NoResponse)"
| "mesi_request tr kExclusive kEvictDirty = Some (SendNone, NoAllocate, M_State, UpdateLRU, NoResponse)"
| "mesi_request tr kShared kReadAccess = Some (SendNone, NoAllocate, SameState, UpdateLRU, FillValid)"
| "mesi_request tr kShared kWriteAccess = Some (SendUpgrade, NoAllocate, E_State, UpdateLRU, FillWritable)"
| "mesi_request tr kShared kStoreAccess = Some (SendUpgrade, NoAllocate, M_State, UpdateLRU, FillWritable)"
| "mesi_request tr kShared kNAWAccess = Some (SendUpgrade, NoAllocate, M_State, UpdateLRU, FillWritable)"
| "mesi_request tr kShared kFetchAccess = Some (SendNone, NoAllocate, SameState, UpdateLRU, FillValid)"
| "mesi_request tr kShared kUpgrade = Some (SendUpgrade, NoAllocate, E_State, UpdateLRU, FillWritable)"
| "mesi_request tr kShared kEvictClean = Some (SendNone, NoAllocate, SameState, UpdateLRU, NoResponse)"
| "mesi_request tr kShared kEvictWritable = if_traces tr (SendNone, NoAllocate, SameState, UpdateLRU, NoResponse)"
| "mesi_request tr kShared kEvictDirty = if_traces tr (SendUpgrade, NoAllocate, M_State, UpdateLRU, NoResponse)"
| "mesi_request tr kInvalid kReadAccess = Some (SendRead, Allocate, DependState, UpdateLRU, FillDepend)"
| "mesi_request tr kInvalid kWriteAccess = Some (SendWrite, Allocate, E_State, UpdateLRU, FillDepend)"
| "mesi_request tr kInvalid kStoreAccess = Some (SendWrite, Allocate, M_State, UpdateLRU, FillDepend)"
| "mesi_request tr kInvalid kNAWAccess = Some (SendNAW, NoAllocate, SameState, NoUpdateLRU, FillDepend)"
| "mesi_request tr kInvalid kFetchAccess = Some (SendFetch, Allocate, DependState, UpdateLRU, FillValid)"
| "mesi_request tr kInvalid kUpgrade = if_traces tr (SendWrite, Allocate, M_State, UpdateLRU, FillDepend)"
| "mesi_request tr kInvalid kEvictClean = if_traces tr (SendNone, NoAllocate, SameState, NoUpdateLRU, NoResponse)"
| "mesi_request tr kInvalid kEvictWritable = if_traces tr (SendNone, NoAllocate, SameState, NoUpdateLRU, NoResponse)"
| "mesi_request tr kInvalid kEvictDirty = if_traces tr (SendNone, NoAllocate, SameState, NoUpdateLRU, NoResponse)"
| "mesi_request tr _ _ = None"

section \<open>The MOESI table\<close>

fun moesi_request :: "bool \<Rightarrow> CoherenceState_t \<Rightarrow> access_t \<Rightarrow> request_action option" where
  "moesi_request tr kModified kReadAccess = Some (SendNone, NoAllocate, E_State, UpdateLRU, FillDirty)"
| "moesi_request tr kModified kWriteAccess = Some (SendNone, NoAllocate, E_State, UpdateLRU, FillDirty)"
| "moesi_request tr kModified kNAWAccess = Some (SendNone, NoAllocate, E_State, UpdateLRU, FillDirty)"
| "moesi_request tr kModified kFetchAccess = Some (SendNone, NoAllocate, SameState, UpdateLRU, FillValid)"
| "moesi_request tr kModified kUpgrade = Some (SendNone, NoAllocate, E_State, UpdateLRU, FillDirty)"
| "moesi_request tr kModified kEvictClean = Some (SendNone, NoAllocate, SameState, UpdateLRU, NoResponse)"
| "moesi_request tr kModified kEvictWritable = Some poison"
| "moesi_request tr kModified kEvictDirty = Some poison"
| "moesi_request tr kOwned kReadAccess = Some (SendNone, NoAllocate, SameState, UpdateLRU, FillValid)"
| "moesi_request tr kOwned kWriteAccess = Some (SendUpgrade, NoAllocate, E_State, UpdateLRU, FillWritable)"
| "moesi_request tr kOwned kNAWAccess = Some (SendUpgrade, NoAllocate, E_State, UpdateLRU, FillWritable)"
| "moesi_request tr kOwned kFetchAccess = Some (SendNone, NoAllocate, SameState, UpdateLRU, FillValid)"
| "moesi_request tr kOwned kUpgrade = Some (SendUpgrade, NoAllocate, E_State, UpdateLRU, FillWritable)"
| "moesi_request tr kOwned kEvictClean = Some (SendNone, NoAllocate, SameState, UpdateLRU, NoResponse)"
| "moesi_request tr kOwned kEvictWritable = if_traces tr (SendNone, NoAllocate, SameState, UpdateLRU, NoResponse)"
| "moesi_request tr kOwned kEvictDirty = if_traces tr (SendUpgrade, NoAllocate, M_State, UpdateLRU, NoResponse)"
| "moesi_request tr kExclusive kReadAccess = Some (SendNone, NoAllocate, SameState, UpdateLRU, FillValid)"
| "moesi_request tr kExclusive kWriteAccess = Some (SendNone, NoAllocate, SameState, UpdateLRU, FillWritable)"
| "moesi_request tr kExclusive kNAWAccess = Some (SendNone, NoAllocate, M_State, UpdateLRU, FillWritable)"
| "moesi_request tr kExclusive kFetchAccess = Some (SendNone, NoAllocate, SameState, UpdateLRU, FillValid)"
| "moesi_request tr kExclusive kUpgrade = Some (SendNone, NoAllocate, SameState, UpdateLRU, FillWritable)"
| "moesi_request tr kExclusive kEvictClean = Some (SendNone, NoAllocate, SameState, UpdateLRU, NoResponse)"
| "moesi_request tr kExclusive kEvictWritable = Some (SendNone, NoAllocate, SameState, UpdateLRU, NoResponse)"
| "moesi_request tr kExclusive kEvictDirty = Some (SendNone, NoAllocate, M_State, UpdateLRU, NoResponse)"
| "moesi_request tr kShared kReadAccess = Some (SendNone, NoAllocate, SameState, UpdateLRU, FillValid)"
| "moesi_request tr kShared kWriteAccess = Some (SendUpgrade, NoAllocate, E_State, UpdateLRU, FillWritable)"
| "moesi_request tr kShared kNAWAccess = Some (SendUpgrade, NoAllocate, E_State, UpdateLRU, FillWritable)"
| "moesi_request tr kShared kFetchAccess = Some (SendNone, NoAllocate, SameState, UpdateLRU, FillValid)"
| "moesi_request tr kShared kUpgrade = Some (SendUpgrade, NoAllocate, E_State, UpdateLRU, FillWritable)"
| "moesi_request tr kShared kEvictClean = Some (SendNone, NoAllocate, SameState, UpdateLRU, NoResponse)"
| "moesi_request tr kShared kEvictWritable = if_traces tr (SendNone, NoAllocate, SameState, UpdateLRU, NoResponse)"
| "moesi_request tr kShared kEvictDirty = if_traces tr (SendUpgrade, NoAllocate, M_State, UpdateLRU, NoResponse)"
| "moesi_request tr kInvalid kReadAccess = Some (SendRead, Allocate, DependState, UpdateLRU, FillDepend)"
| "moesi_request tr kInvalid kWriteAccess = Some (SendWrite, Allocate, E_State, UpdateLRU, FillDepend)"
| "moesi_request tr kInvalid kNAWAccess = Some (SendNAW, NoAllocate, SameState, NoUpdateLRU, FillDepend)"
| "moesi_request tr kInvalid kFetchAccess = Some (SendFetch, Allocate, DependState, UpdateLRU, FillValid)"
| "moesi_request tr kInvalid kUpgrade = if_traces tr (SendWrite, Allocate, M_State, UpdateLRU, FillDepend)"
| "moesi_request tr kInvalid kEvictClean = if_traces tr (SendNone, NoAllocate, SameState, NoUpdateLRU, NoResponse)"
| "moesi_request tr kInvalid kEvictWritable = if_traces tr (SendNone, NoAllocate, SameState, NoUpdateLRU, NoResponse)"
| "moesi_request tr kInvalid kEvictDirty = if_traces tr (SendNone, NoAllocate, SameState, NoUpdateLRU, NoResponse)"
| "moesi_request tr _ _ = None"

section \<open>Snoop tables\<close>

datatype snoop_resp = Resp MemoryMessageType | RespArg action_arg

text \<open>Response, whether to continue the snoop upwards, next state, move to most or to least recently used.\<close>

type_synonym snoop_action = "snoop_resp \<times> action_arg \<times> action_arg \<times> bool \<times> bool"

definition mesi_snoop :: "bool \<Rightarrow> bool \<Rightarrow> CoherenceState_t \<Rightarrow> MemoryMessageType \<Rightarrow> snoop_action option" where
  "mesi_snoop dLRU sLRU s t =
     (if t = ReturnReq then
        (case s of
           kModified \<Rightarrow> Some (Resp ReturnReplyDirty, NoSnoop, S_State, False, sLRU)
         | kExclusive \<Rightarrow> Some (Resp ReturnReply, DoSnoop, S_State, False, sLRU)
         | kShared \<Rightarrow> Some (Resp ReturnReply, NoSnoop, SameState, False, False)
         | kInvalid \<Rightarrow> Some (Resp ReturnNAck, NoSnoop, SameState, False, False)
         | _ \<Rightarrow> None)
      else if t = Invalidate then
        (case s of
           kModified \<Rightarrow> Some (Resp InvUpdateAck, DoSnoop, I_State, False, True)
         | kExclusive \<Rightarrow> Some (RespArg SnoopDepend, DoSnoop, I_State, False, True)
         | kShared \<Rightarrow> Some (Resp InvalidateAck, DoSnoop, I_State, False, True)
         | kInvalid \<Rightarrow> Some (Resp Invalidate, NoSnoop, SameState, False, False)
         | _ \<Rightarrow> None)
      else if t = Downgrade then
        (case s of
           kModified \<Rightarrow> Some (Resp DownUpdateAck, DoSnoop, S_State, False, True)
         | kExclusive \<Rightarrow> Some (RespArg SnoopDepend, DoSnoop, S_State, False, True)
         | kShared \<Rightarrow> Some (Resp DowngradeAck, NoSnoop, SameState, False, False)
         | kInvalid \<Rightarrow> Some (Resp DowngradeAck, NoSnoop, SameState, False, False)
         | _ \<Rightarrow> None)
      else None)"

definition moesi_snoop :: "bool \<Rightarrow> bool \<Rightarrow> CoherenceState_t \<Rightarrow> MemoryMessageType \<Rightarrow> snoop_action option" where
  "moesi_snoop dLRU sLRU s t =
     (if t = ReturnReq then
        (case s of
           kModified \<Rightarrow> Some (Resp ReturnReplyDirty, NoSnoop, S_State, False, sLRU)
         | kExclusive \<Rightarrow> Some (Resp ReturnReply, DoSnoop, DependState, False, sLRU)
         | kOwned \<Rightarrow> Some (Resp ReturnReplyDirty, NoSnoop, S_State, False, False)
         | kShared \<Rightarrow> Some (Resp ReturnReply, NoSnoop, SameState, False, False)
         | kInvalid \<Rightarrow> Some (Resp ReturnNAck, NoSnoop, SameState, False, False)
         | _ \<Rightarrow> None)
      else if t = Invalidate then
        (case s of
           kModified \<Rightarrow> Some (Resp InvUpdateAck, DoSnoop, I_State, False, True)
         | kOwned \<Rightarrow> Some (Resp InvalidateAck, DoSnoop, I_State, False, True)
         | kExclusive \<Rightarrow> Some (RespArg SnoopDepend, DoSnoop, I_State, False, True)
         | kShared \<Rightarrow> Some (Resp InvalidateAck, DoSnoop, I_State, False, True)
         | kInvalid \<Rightarrow> Some (Resp Invalidate, NoSnoop, SameState, False, False)
         | _ \<Rightarrow> None)
      else if t = Downgrade then
        (case s of
           kModified \<Rightarrow> Some (Resp DownUpdateAck, DoSnoop, O_State, False, dLRU)
         | kExclusive \<Rightarrow> Some (RespArg SnoopDepend, DoSnoop, DependState, False, dLRU)
         | kOwned \<Rightarrow> Some (RespArg POISON, POISON, POISON, False, False)
         | kShared \<Rightarrow> Some (RespArg POISON, POISON, POISON, False, False)
         | kInvalid \<Rightarrow> Some (Resp DowngradeAck, NoSnoop, SameState, False, False)
         | _ \<Rightarrow> None)
      else None)"

section \<open>The component\<close>

datatype protocol = InclusiveMESI | InclusiveMOESI

datatype fc_port = RequestOut | SnoopOutI | SnoopOutD

record ('u, 'l) FastCache =
  theCache :: StdCache
  theProtocol :: protocol
  UsingTraces :: bool
  DowngradeLRU :: bool
  SnoopLRU :: bool
  CleanEvictions :: bool
  theBlockMask :: "64 word"
  theEvictMessage :: MemoryMessage
  theInvalidateMessage :: MemoryMessage
  upper_caches :: 'u
  lower_level :: 'l
  fc_sent :: "(fc_port \<times> MemoryMessage) list"

text \<open>The level below answers a request, possibly after snooping this cache, or fails an assertion.\<close>

datatype 'l lower_call = Reply MemoryMessage 'l | Stop | Snoop MemoryMessage "MemoryMessage \<Rightarrow> 'l lower_call"

record ('u, 'l) neighbours =
  to_I :: "MemoryMessage \<Rightarrow> 'u \<Rightarrow> MemoryMessage \<times> 'u"
  to_D :: "MemoryMessage \<Rightarrow> 'u \<Rightarrow> MemoryMessage \<times> 'u"
  to_lower :: "MemoryMessage \<Rightarrow> 'l \<Rightarrow> 'l lower_call"

definition getCoherenceAction :: "('u, 'l) FastCache \<Rightarrow> CoherenceState_t \<Rightarrow> access_t \<Rightarrow> request_action res" where
  "getCoherenceAction fc s a =
     (case (case theProtocol fc of
              InclusiveMESI \<Rightarrow> mesi_request (UsingTraces fc) s a
            | InclusiveMOESI \<Rightarrow> moesi_request (UsingTraces fc) s a) of
        None \<Rightarrow> Inl AssertionFailed | Some act \<Rightarrow> Inr act)"

definition getSnoopAction :: "('u, 'l) FastCache \<Rightarrow> CoherenceState_t \<Rightarrow> MemoryMessageType \<Rightarrow> snoop_action res" where
  "getSnoopAction fc s t =
     (case (case theProtocol fc of
              InclusiveMESI \<Rightarrow> mesi_snoop (DowngradeLRU fc) (SnoopLRU fc) s t
            | InclusiveMOESI \<Rightarrow> moesi_snoop (DowngradeLRU fc) (SnoopLRU fc) s t) of
        None \<Rightarrow> Inl AssertionFailed | Some act \<Rightarrow> Inr act)"

definition on_cache :: "(StdCache \<Rightarrow> StdCache res) \<Rightarrow> ('u, 'l) FastCache \<Rightarrow> ('u, 'l) FastCache res" where
  "on_cache f fc = bindE (f (theCache fc)) (\<lambda>c. Inr (fc\<lparr>theCache := c\<rparr>))"

subsection \<open>Messages to the upper caches\<close>

definition send_I :: "('u, 'l) neighbours \<Rightarrow> MemoryMessage \<Rightarrow> ('u, 'l) FastCache \<Rightarrow> MemoryMessage \<times> ('u, 'l) FastCache" where
  "send_I nb m fc = (let (m', u) = to_I nb m (upper_caches fc) in
     (m', fc\<lparr>upper_caches := u, fc_sent := fc_sent fc @ [(SnoopOutI, m)]\<rparr>))"

definition send_D :: "('u, 'l) neighbours \<Rightarrow> MemoryMessage \<Rightarrow> ('u, 'l) FastCache \<Rightarrow> MemoryMessage \<times> ('u, 'l) FastCache" where
  "send_D nb m fc = (let (m', u) = to_D nb m (upper_caches fc) in
     (m', fc\<lparr>upper_caches := u, fc_sent := fc_sent fc @ [(SnoopOutD, m)]\<rparr>))"

definition continueSnoop :: "('u, 'l) neighbours \<Rightarrow> MemoryMessage \<Rightarrow> ('u, 'l) FastCache \<Rightarrow> MemoryMessage \<times> ('u, 'l) FastCache" where
  "continueSnoop nb msg fc =
     (let dup_msg = MemoryMessage_copy msg;
          (dup_msg, fc) = (if mm_type msg \<noteq> Downgrade then send_I nb dup_msg fc else (dup_msg, fc));
          (msg, fc) = send_D nb msg fc
      in (if mm_type msg = ReturnNAck \<and> mm_type dup_msg \<noteq> ReturnNAck then msg\<lparr>mm_type := mm_type dup_msg\<rparr> else msg, fc))"

definition sendInvalidate :: "('u, 'l) neighbours \<Rightarrow> 64 word \<Rightarrow> bool \<Rightarrow> bool \<Rightarrow> ('u, 'l) FastCache \<Rightarrow> bool \<times> ('u, 'l) FastCache" where
  "sendInvalidate nb addr icache dcache fc =
     (let m = (theInvalidateMessage fc)\<lparr>mm_address := addr\<rparr>;
          (was_dirty, m, fc) =
            (if icache then
               (let (m, fc) = send_I nb (m\<lparr>mm_type := Invalidate\<rparr>) fc in (mm_type m = InvUpdateAck, m, fc))
             else (False, m, fc));
          (m, fc) = (if dcache then send_D nb (m\<lparr>mm_type := Invalidate\<rparr>) fc else (m, fc))
      in (was_dirty \<or> mm_type m = InvUpdateAck, fc\<lparr>theInvalidateMessage := m\<rparr>))"

subsection \<open>Snoops\<close>

definition SnoopAction ::
  "('u, 'l) neighbours \<Rightarrow> snoop_action \<Rightarrow> StdLookupResult \<Rightarrow> MemoryMessage \<Rightarrow> ('u, 'l) FastCache \<Rightarrow>
   (MemoryMessage \<times> ('u, 'l) FastCache) res" where
  "SnoopAction nb act lookup message fc = (case act of (resp, snoop, nstate, mru, lru) \<Rightarrow>
     let change = (\<lambda>st message fc. bindE (on_cache (updateState st mru lru lookup) fc) (\<lambda>fc. Inr (message, fc))) in
     case resp of
       Resp t \<Rightarrow>
         if snoop = NoSnoop \<and> nstate = SameState \<and> \<not> mru \<and> \<not> lru then Inr (message\<lparr>mm_type := t\<rparr>, fc)
         else if snoop = NoSnoop \<and> nstate = S_State then change kShared (message\<lparr>mm_type := t\<rparr>) fc
         else if snoop = DoSnoop \<and> nstate = S_State then
           (let (message, fc) = continueSnoop nb message fc in change kShared (message\<lparr>mm_type := t\<rparr>) fc)
         else if snoop = DoSnoop \<and> nstate = I_State then
           (let (message, fc) = continueSnoop nb message fc in change kInvalid (message\<lparr>mm_type := t\<rparr>) fc)
         else if snoop = DoSnoop \<and> nstate = O_State then
           (let (message, fc) = continueSnoop nb message fc in change kOwned (message\<lparr>mm_type := t\<rparr>) fc)
         else if t = ReturnReply \<and> snoop = DoSnoop \<and> nstate = DependState then
           (let (message, fc) = continueSnoop nb (message\<lparr>mm_type := Downgrade\<rparr>) fc in
            change (if mm_type message = DownUpdateAck then kOwned else kShared) (message\<lparr>mm_type := ReturnReply\<rparr>) fc)
         else Inl AssertionFailed
     | RespArg a \<Rightarrow>
         if a = SnoopDepend \<and> snoop = DoSnoop \<and> nstate = I_State then
           (let (message, fc) = continueSnoop nb message fc in
            change kInvalid (if mm_type message = Invalidate then message\<lparr>mm_type := InvalidateAck\<rparr> else message) fc)
         else if a = SnoopDepend \<and> snoop = DoSnoop \<and> nstate = S_State then
           (let (message, fc) = continueSnoop nb message fc in
            change kShared (if mm_type message = Downgrade then message\<lparr>mm_type := DowngradeAck\<rparr> else message) fc)
         else if a = SnoopDepend \<and> snoop = DoSnoop \<and> nstate = DependState then
           (let (message, fc) = continueSnoop nb message fc in
            if mm_type message = DownUpdateAck then change kOwned message fc
            else change kShared (message\<lparr>mm_type := DowngradeAck\<rparr>) fc)
         else Inl AssertionFailed)"

definition push_SnoopIn ::
  "('u, 'l) neighbours \<Rightarrow> MemoryMessage \<Rightarrow> ('u, 'l) FastCache \<Rightarrow> (MemoryMessage \<times> ('u, 'l) FastCache) res" where
  "push_SnoopIn nb aMessage fc =
     (let tagset = mm_address aMessage AND theBlockMask fc in
      bindE (cache_lookup tagset (theCache fc)) (\<lambda>(snp_lookup, c).
      let fc = fc\<lparr>theCache := c\<rparr> in
      bindE (getState snp_lookup c) (\<lambda>st.
      bindE (getSnoopAction fc st (mm_type aMessage)) (\<lambda>act.
      bindE (SnoopAction nb act snp_lookup aMessage fc) (\<lambda>(aMessage, fc).
      bindE (cache_lookup tagset (theCache fc)) (\<lambda>(_, c). Inr (aMessage, fc\<lparr>theCache := c\<rparr>)))))))"

subsection \<open>Messages to the lower level\<close>

primrec run_call :: "('u, 'l) neighbours \<Rightarrow> 'l lower_call \<Rightarrow> ('u, 'l) FastCache \<Rightarrow> (MemoryMessage \<times> ('u, 'l) FastCache) res" where
  "run_call nb (Reply m l) fc = Inr (m, fc\<lparr>lower_level := l\<rparr>)"
| "run_call nb Stop fc = Inl AssertionFailed"
| "run_call nb (Snoop m k) fc = bindE (push_SnoopIn nb m fc) (\<lambda>(m', fc'). run_call nb (k m') fc')"

definition forwardMessage ::
  "('u, 'l) neighbours \<Rightarrow> MemoryMessage \<Rightarrow> ('u, 'l) FastCache \<Rightarrow> (MemoryMessage \<times> ('u, 'l) FastCache) res" where
  "forwardMessage nb msg fc =
     run_call nb (to_lower nb msg (lower_level fc)) (fc\<lparr>fc_sent := fc_sent fc @ [(RequestOut, msg)]\<rparr>)"

definition protocol_evict :: "('u, 'l) neighbours \<Rightarrow> 64 word \<Rightarrow> CoherenceState_t \<Rightarrow> ('u, 'l) FastCache \<Rightarrow> MemoryMessageType \<times> ('u, 'l) FastCache" where
  "protocol_evict nb tagset st fc =
     (let (was_dirty, fc) = sendInvalidate nb tagset True True fc in
      (if was_dirty \<or> st = kModified \<or> theProtocol fc = InclusiveMOESI \<and> st = kOwned then EvictDirty
       else if st = kExclusive then EvictWritable else EvictClean, fc))"

definition fc_evict :: "('u, 'l) neighbours \<Rightarrow> 64 word \<Rightarrow> CoherenceState_t \<Rightarrow> ('u, 'l) FastCache \<Rightarrow> ('u, 'l) FastCache res" where
  "fc_evict nb aTagset aLineState fc =
     (let fc = fc\<lparr>theEvictMessage := (theEvictMessage fc)\<lparr>mm_address := aTagset\<rparr>\<rparr>;
          (type, fc) = protocol_evict nb aTagset aLineState fc;
          fc = fc\<lparr>theEvictMessage := (theEvictMessage fc)\<lparr>mm_type := type\<rparr>\<rparr>
      in if type = EvictDirty \<or> CleanEvictions fc then
           bindE (forwardMessage nb (theEvictMessage fc) fc) (\<lambda>(m, fc). Inr (fc\<lparr>theEvictMessage := m\<rparr>))
         else Inr fc)"

definition allocate :: "('u, 'l) neighbours \<Rightarrow> CoherenceState_t \<Rightarrow> StdLookupResult \<Rightarrow> ('u, 'l) FastCache \<Rightarrow> ('u, 'l) FastCache res" where
  "allocate nb new_state lookup fc =
     (let new_tag = get_tag (theCache fc) (lr_address lookup);
          fc = fc\<lparr>theCache := (theCache fc)\<lparr>theAllocateInProgress := True, theAllocateAddr := new_tag\<rparr>\<rparr> in
      bindE (block_of lookup (theCache fc)) (\<lambda>block.
      bindE (if be_tag block \<noteq> new_tag then
               bindE (if isValid (be_state block) then fc_evict nb (be_tag block) (be_state block) fc else Inr fc)
                 (on_cache (replace_block new_tag new_state lookup))
             else on_cache (change_block new_state lookup) fc) (\<lambda>fc.
      bindE (on_cache (update_lru lookup) fc) (\<lambda>fc.
      Inr (fc\<lparr>theCache := (theCache fc)\<lparr>theAllocateInProgress := False\<rparr>\<rparr>)))))"

subsection \<open>Requests\<close>

definition doCoherenceAction ::
  "('u, 'l) neighbours \<Rightarrow> request_action \<Rightarrow> StdLookupResult \<Rightarrow> MemoryMessage \<Rightarrow> ('u, 'l) FastCache \<Rightarrow>
   (MemoryMessage \<times> ('u, 'l) FastCache) res" where
  "doCoherenceAction nb act lookup message fc =
     (let answer = (\<lambda>t message. message\<lparr>mm_type := t\<rparr>);
          updateLRU = (\<lambda>message fc. bindE (on_cache (update_lru lookup) fc) (\<lambda>fc. Inr (message, fc)));
          changeState = (\<lambda>st message fc. bindE (on_cache (updateState st True False lookup) fc) (\<lambda>fc. Inr (message, fc)));
          alloc = (\<lambda>st message fc. bindE (allocate nb st lookup fc) (\<lambda>fc. Inr (message, fc)))
      in
      if act = (SendNone, NoAllocate, SameState, NoUpdateLRU, NoResponse) then Inr (message, fc)
      else if act = (SendNone, NoAllocate, SameState, UpdateLRU, FillWritable) then updateLRU (answer MissReplyWritable message) fc
      else if act = (SendNone, NoAllocate, DependState, UpdateLRU, FillDirty) then
        (if mm_type message = LoadReq then updateLRU (answer MissReplyDirty message) fc
         else changeState kExclusive (answer MissReplyDirty message) fc)
      else if act = (SendNone, NoAllocate, SameState, UpdateLRU, FillDirty) then updateLRU (answer MissReplyDirty message) fc
      else if act = (SendNone, NoAllocate, E_State, UpdateLRU, FillDirty) then changeState kExclusive (answer MissReplyDirty message) fc
      else if act = (SendNone, NoAllocate, SameState, UpdateLRU, FillValid) then updateLRU (answer MissReply message) fc
      else if act = (SendNone, NoAllocate, M_State, UpdateLRU, FillWritable) then changeState kModified (answer MissReplyWritable message) fc
      else if act = (SendNone, NoAllocate, SameState, UpdateLRU, NoResponse) then updateLRU message fc
      else if act = (SendUpgrade, NoAllocate, M_State, UpdateLRU, FillWritable) then
        bindE (forwardMessage nb (answer UpgradeReq message) fc) (\<lambda>(message, fc).
        changeState kModified (answer MissReplyWritable message) fc)
      else if act = (SendUpgrade, NoAllocate, E_State, UpdateLRU, FillWritable) then
        bindE (forwardMessage nb (answer UpgradeReq message) fc) (\<lambda>(message, fc).
        changeState kExclusive (answer MissReplyWritable message) fc)
      else if act = (SendNone, NoAllocate, M_State, UpdateLRU, NoResponse) then changeState kModified message fc
      else if act = (SendNone, NoAllocate, E_State, UpdateLRU, NoResponse) then changeState kExclusive message fc
      else if act = (SendUpgrade, NoAllocate, M_State, UpdateLRU, NoResponse) then
        bindE (forwardMessage nb (answer UpgradeReq message) fc) (\<lambda>(message, fc). changeState kModified message fc)
      else if act = (SendUpgrade, NoAllocate, E_State, UpdateLRU, NoResponse) then
        bindE (forwardMessage nb (answer UpgradeReq message) fc) (\<lambda>(message, fc). changeState kExclusive message fc)
      else if act = (SendRead, Allocate, DependState, UpdateLRU, FillDepend) then
        (let is_load = (mm_type message = LoadReq) in
         bindE (forwardMessage nb (answer ReadReq message) fc) (\<lambda>(message, fc).
         if mm_type message = MissReply then alloc kShared message fc
         else if mm_type message = MissReplyWritable then alloc kExclusive message fc
         else if mm_type message = MissReplyDirty then alloc (if is_load then kModified else kExclusive) message fc
         else if mm_type message = FwdReplyOwned then alloc kOwned (answer MissReply message) fc
         else Inl AssertionFailed))
      else if act = (SendWrite, Allocate, M_State, UpdateLRU, FillDepend) then
        bindE (forwardMessage nb (answer WriteReq message) fc) (\<lambda>(message, fc). alloc kModified message fc)
      else if act = (SendWrite, Allocate, E_State, UpdateLRU, FillDepend) then
        bindE (forwardMessage nb (answer WriteReq message) fc) (\<lambda>(message, fc). alloc kExclusive message fc)
      else if act = (SendFetch, Allocate, S_State, UpdateLRU, FillValid) then
        bindE (forwardMessage nb (answer FetchReq message) fc) (\<lambda>(message, fc). alloc kShared (answer MissReply message) fc)
      else if act = (SendFetch, Allocate, DependState, UpdateLRU, FillValid) then
        bindE (forwardMessage nb (answer FetchReq message) fc) (\<lambda>(message, fc).
        alloc (if mm_type message = FwdReplyOwned then kOwned else kShared) (answer MissReply message) fc)
      else if act = (SendNAW, NoAllocate, SameState, NoUpdateLRU, FillDepend) then forwardMessage nb message fc
      else Inl AssertionFailed)"

definition push_RequestIn ::
  "('u, 'l) neighbours \<Rightarrow> MemoryMessage \<Rightarrow> ('u, 'l) FastCache \<Rightarrow> (MemoryMessage \<times> ('u, 'l) FastCache) res" where
  "push_RequestIn nb aMessage fc =
     (let tagset = mm_address aMessage AND theBlockMask fc in
      bindE (message2access (mm_type aMessage)) (\<lambda>access_type.
      bindE (cache_lookup tagset (theCache fc)) (\<lambda>(lookup, c).
      let fc = fc\<lparr>theCache := c\<rparr> in
      bindE (getState lookup c) (\<lambda>st.
      bindE (getCoherenceAction fc st access_type) (\<lambda>act.
      doCoherenceAction nb act lookup aMessage fc)))))"

definition push_FetchRequestIn ::
  "('u, 'l) neighbours \<Rightarrow> MemoryMessage \<Rightarrow> ('u, 'l) FastCache \<Rightarrow> (MemoryMessage \<times> ('u, 'l) FastCache) res" where
  "push_FetchRequestIn nb aMessage fc = push_RequestIn nb (aMessage\<lparr>mm_dstream := False\<rparr>) fc"

subsection \<open>Region probes\<close>

datatype RegionScoutMessageType = eRegionProbe | eRegionStateProbe | eRegionMissReply | eRegionHitReply
  | eRegionIsShared | eRegionNonShared | eRegionGlobalMiss | eRegionPartialMiss | eRegionProbeOwner
  | eRegionOwnerReply | eRegionSetOwner | eRegionEvict | eBlockProbe | eBlockScoutProbe | eBlockMissReply
  | eBlockHitReply | eSetTagProbe | eRVASetTagProbe | eSetTagReply | eRVASetTagReply

record RegionScoutMessage =
  rs_type :: RegionScoutMessageType
  rs_region :: "64 word"
  rs_tags :: "64 word list"

text \<open>Apart from the probe for the tags of a set, every probe calls an operation that this array does not
  support and that fails an assertion.\<close>

definition push_RegionProbe :: "RegionScoutMessage \<Rightarrow> ('u, 'l) FastCache \<Rightarrow> RegionScoutMessage res" where
  "push_RegionProbe aMessage fc =
     (if rs_type aMessage = eSetTagProbe then
        bindE (getSetTags (rs_region aMessage) (theCache fc)) (\<lambda>ts.
        Inr (aMessage\<lparr>rs_tags := rs_tags aMessage @ ts\<rparr>))
      else Inl AssertionFailed)"

subsection \<open>Initialisation\<close>

record FastCacheConfiguration =
  cfg_Size :: int
  cfg_Associativity :: int
  cfg_BlockSize :: int
  cfg_CleanEvictions :: bool
  cfg_Protocol :: string
  cfg_UsingTraces :: bool
  cfg_TextFlexpoints :: bool
  cfg_DowngradeLRU :: bool
  cfg_SnoopLRU :: bool

definition GenerateCoherenceProtocol :: "string \<Rightarrow> protocol res" where
  "GenerateCoherenceProtocol name =
     (if name = ''InclusiveMOESI'' then Inr InclusiveMOESI
      else if name = ''InclusiveMESI'' then Inr InclusiveMESI else Inl AssertionFailed)"

definition FastCache_initialize :: "FastCacheConfiguration \<Rightarrow> int \<Rightarrow> 'u \<Rightarrow> 'l \<Rightarrow> ('u, 'l) FastCache res" where
  "FastCache_initialize cfg index u l =
     bindE (GenerateCoherenceProtocol (cfg_Protocol cfg)) (\<lambda>proto.
     bindE (dbg_assert (cfg_BlockSize cfg AND (cfg_BlockSize cfg - 1) = 0)) (\<lambda>_.
     bindE (dbg_assert (cfg_BlockSize cfg \<ge> 4)) (\<lambda>_.
     bindE (c_div (cfg_Size cfg) (cfg_BlockSize cfg)) (\<lambda>q.
     bindE (c_div q (cfg_Associativity cfg)) (\<lambda>num_sets.
     bindE (dbg_assert (num_sets AND (num_sets - 1) = 0)) (\<lambda>_.
     bindE (dbg_assert (cfg_BlockSize cfg * num_sets * cfg_Associativity cfg = cfg_Size cfg)) (\<lambda>_.
     bindE (StdCache_new (cfg_BlockSize cfg) num_sets (cfg_Associativity cfg) (cfg_TextFlexpoints cfg)) (\<lambda>c.
     Inr \<lparr>theCache = c, theProtocol = proto, UsingTraces = cfg_UsingTraces cfg,
          DowngradeLRU = cfg_DowngradeLRU cfg, SnoopLRU = cfg_SnoopLRU cfg,
          CleanEvictions = cfg_CleanEvictions cfg, theBlockMask = of_int (NOT (cfg_BlockSize cfg - 1)),
          theEvictMessage = (MemoryMessage_new EvictDirty)\<lparr>mm_coreIdx := index\<rparr>,
          theInvalidateMessage = MemoryMessage_new Invalidate,
          upper_caches = u, lower_level = l, fc_sent = []\<rparr>))))))))"

section \<open>Invariant and safety\<close>

definition fc_ok :: "('u, 'l) FastCache \<Rightarrow> bool" where
  "fc_ok fc \<longleftrightarrow> cache_ok (theCache fc) \<and> theBlockMask fc = blockTagMask (theCache fc)"

definition config :: "('u, 'l) FastCache \<Rightarrow> protocol \<times> bool \<times> bool \<times> bool \<times> bool \<times> 64 word" where
  "config fc = (theProtocol fc, UsingTraces fc, DowngradeLRU fc, SnoopLRU fc, CleanEvictions fc, theBlockMask fc)"

abbreviation block_state :: "('u, 'l) FastCache \<Rightarrow> 64 word \<Rightarrow> CoherenceState_t" where
  "block_state fc \<equiv> state_of (theCache fc)"

abbreviation block_addr :: "('u, 'l) FastCache \<Rightarrow> MemoryMessage \<Rightarrow> 64 word" where
  "block_addr fc m \<equiv> mm_address m AND theBlockMask fc"

text \<open>A state reached through snoops only: the array keeps its invariant and every lookup result that
  was in use stays usable.\<close>

definition snooped :: "('u, 'l) FastCache \<Rightarrow> ('u, 'l) FastCache \<Rightarrow> bool" where
  "snooped fc fc' \<longleftrightarrow> fc_ok fc' \<and> config fc' = config fc \<and> stays (theCache fc) (theCache fc')"

definition outcome :: "('a \<Rightarrow> bool) \<Rightarrow> 'a res \<Rightarrow> bool" where
  "outcome P r \<longleftrightarrow> (case r of Inl e \<Rightarrow> e = AssertionFailed | Inr x \<Rightarrow> P x)"

lemma outcome_simps [simp]:
  "outcome P (Inr x) \<longleftrightarrow> P x" "outcome P (Inl e) \<longleftrightarrow> e = AssertionFailed"
  by (simp_all add: outcome_def)

lemma outcome_bindE: "outcome P m \<Longrightarrow> (\<And>x. P x \<Longrightarrow> outcome Q (f x)) \<Longrightarrow> outcome Q (bindE m f)"
  by (cases m) auto

lemma outcome_Inr: "outcome P m \<Longrightarrow> m = Inr x \<Longrightarrow> P x"
  by simp

lemma snooped_refl: "fc_ok fc \<Longrightarrow> snooped fc fc"
  by (simp add: snooped_def)

lemma snooped_trans: "snooped a b \<Longrightarrow> snooped b c \<Longrightarrow> snooped a c"
  unfolding snooped_def by (metis stays_trans)

lemma snooped_ok: "snooped a b \<Longrightarrow> fc_ok b"
  by (simp add: snooped_def)

subsection \<open>Messages upwards leave the cache alone\<close>

lemma send_frame [simp]:
  "theCache (snd (send_I nb m fc)) = theCache fc" "config (snd (send_I nb m fc)) = config fc"
  "theCache (snd (send_D nb m fc)) = theCache fc" "config (snd (send_D nb m fc)) = config fc"
  by (simp_all add: send_I_def send_D_def config_def split: prod.split)

lemma continueSnoop_frame [simp]:
  "theCache (snd (continueSnoop nb m fc)) = theCache fc" "config (snd (continueSnoop nb m fc)) = config fc"
  by (simp_all add: continueSnoop_def Let_def send_I_def send_D_def config_def case_prod_unfold)

lemma sendInvalidate_frame [simp]:
  "theCache (snd (sendInvalidate nb a i d fc)) = theCache fc" "config (snd (sendInvalidate nb a i d fc)) = config fc"
  by (simp_all add: sendInvalidate_def Let_def send_I_def send_D_def config_def case_prod_unfold)

lemma fc_ok_cong: "theCache fc' = theCache fc \<Longrightarrow> config fc' = config fc \<Longrightarrow> fc_ok fc' = fc_ok fc"
  by (simp add: fc_ok_def config_def)

lemma upward_snooped: "fc_ok fc \<Longrightarrow> snooped fc (snd (continueSnoop nb m fc))"
  "fc_ok fc \<Longrightarrow> snooped fc (snd (sendInvalidate nb a i d fc))"
  unfolding snooped_def by (auto intro: fc_ok_cong[THEN iffD2])

lemma fc_ok_tag: "fc_ok fc \<Longrightarrow> block_addr fc m = get_tag (theCache fc) (mm_address m)"
  by (simp add: fc_ok_def get_tag_def)

lemma fc_ok_tag_idem: "fc_ok fc \<Longrightarrow> get_tag (theCache fc) (block_addr fc m) = block_addr fc m"
  by (simp add: fc_ok_tag)

subsection \<open>Operations on the array inside the component\<close>

lemma config_cache [simp]: "config (fc\<lparr>theCache := c\<rparr>) = config fc"
  by (simp add: config_def)

lemma snooped_cache: "fc_ok fc \<Longrightarrow> cache_ok c \<Longrightarrow> stays (theCache fc) c \<Longrightarrow> snooped fc (fc\<lparr>theCache := c\<rparr>)"
  by (auto simp: snooped_def fc_ok_def stays_def geometry_def)

lemma fc_lookup:
  assumes "fc_ok fc"
  obtains r c where "cache_lookup (block_addr fc m) (theCache fc) = Inr (r, c)" "snooped fc (fc\<lparr>theCache := c\<rparr>)"
    "state_of c = block_state fc" "pending r (block_addr fc m) c" "getState r c = Inr (block_state fc (block_addr fc m))"
    "cache_ok c"
proof -
  have ok: "cache_ok (theCache fc)" using assms by (simp add: fc_ok_def)
  from std.lookup_law[OF ok, of "block_addr fc m"] obtain r c where
    "cache_lookup (block_addr fc m) (theCache fc) = Inr (r, c)" "cache_ok c" "state_of c = block_state fc"
    "pending r (block_addr fc m) c" "getState r c = Inr (block_state fc (block_addr fc m))" "stays (theCache fc) c"
    unfolding fc_ok_tag_idem[OF assms] by blast
  with that[of r c] snooped_cache[OF assms] show thesis by blast
qed

lemma fc_change:
  assumes "fc_ok fc" "pending r t (theCache fc)" "t \<in> be_tag ` set (theBlocks (theCache fc) ! get_set (theCache fc) t)"
  obtains c where "on_cache (updateState st m l r) fc = Inr (fc\<lparr>theCache := c\<rparr>)" "snooped fc (fc\<lparr>theCache := c\<rparr>)"
    "state_of c = (block_state fc)(t := st)"
proof -
  have ok: "cache_ok (theCache fc)" using assms(1) by (simp add: fc_ok_def)
  from updateState_ok[OF ok assms(2,3), of st m l] obtain c where "updateState st m l r (theCache fc) = Inr c"
    "cache_ok c" "state_of c = (block_state fc)(t := st)" "stays (theCache fc) c" by blast
  with that[of c] snooped_cache[OF assms(1)] show thesis by (simp add: on_cache_def)
qed

lemma fc_touch:
  assumes "fc_ok fc" "pending r t (theCache fc)"
  obtains c where "on_cache (update_lru r) fc = Inr (fc\<lparr>theCache := c\<rparr>)" "snooped fc (fc\<lparr>theCache := c\<rparr>)"
    "state_of c = block_state fc"
proof -
  have ok: "cache_ok (theCache fc)" using assms(1) by (simp add: fc_ok_def)
  from std.touch_law[OF ok assms(2)] obtain c where "update_lru r (theCache fc) = Inr c"
    "cache_ok c" "state_of c = block_state fc" "stays (theCache fc) c" by blast
  with that[of c] snooped_cache[OF assms(1)] show thesis by (simp add: on_cache_def)
qed

subsection \<open>Snoops\<close>

lemma snoop_invalid:
  "getSnoopAction fc kInvalid t = Inr act \<Longrightarrow> \<exists>t'. act = (Resp t', NoSnoop, SameState, False, False)"
  by (auto simp: getSnoopAction_def mesi_snoop_def moesi_snoop_def split: protocol.splits if_splits)

definition only_at :: "64 word \<Rightarrow> ('u, 'l) FastCache \<Rightarrow> ('u, 'l) FastCache \<Rightarrow> bool" where
  "only_at t fc fc' \<longleftrightarrow> snooped fc fc' \<and> (\<forall>x. x \<noteq> t \<longrightarrow> block_state fc' x = block_state fc x) \<and>
     (block_state fc t = kInvalid \<longrightarrow> block_state fc' t = kInvalid)"

lemma snoop_change:
  assumes "fc_ok fc" "pending r t (theCache fc)" "block_state fc t \<noteq> kInvalid"
    and k: "fc1 = fc \<or> (\<exists>m. fc1 = snd (continueSnoop nb m fc))"
  shows "\<exists>fc'. bindE (on_cache (updateState st mru lru r) fc1) (\<lambda>fc. Inr (m', fc)) = Inr (m', fc') \<and>
    only_at t fc fc' \<and> block_state fc' t = st \<and> upper_caches fc' = upper_caches fc1 \<and> fc_sent fc' = fc_sent fc1"
proof -
  have f: "snooped fc fc1" "theCache fc1 = theCache fc"
    using k upward_snooped(1)[OF assms(1)] snooped_refl[OF assms(1)] by auto
  from fc_change[OF snooped_ok[OF f(1)], of r t st mru lru] f(2) assms(2) present_tag[OF assms(3)] obtain c where
    "on_cache (updateState st mru lru r) fc1 = Inr (fc1\<lparr>theCache := c\<rparr>)" "snooped fc1 (fc1\<lparr>theCache := c\<rparr>)"
    "state_of c = (block_state fc1)(t := st)" by auto
  moreover from this(2) have "snooped fc (fc1\<lparr>theCache := c\<rparr>)" by (rule snooped_trans[OF f(1)])
  ultimately show ?thesis using f(2) assms(3) by (auto simp: only_at_def)
qed

lemma only_at_refl: "fc_ok fc \<Longrightarrow> only_at t fc fc"
  by (simp add: only_at_def snooped_refl)

lemma only_at_trans: "only_at t a b \<Longrightarrow> only_at t b c \<Longrightarrow> only_at t a c"
  unfolding only_at_def using snooped_trans by metis

lemma SnoopAction_ok:
  assumes "fc_ok fc" "pending r t (theCache fc)" "block_state fc t \<noteq> kInvalid"
  shows "outcome (\<lambda>p. only_at t fc (snd p)) (SnoopAction nb act r m fc)"
proof -
  have ch: "outcome (\<lambda>p. only_at t fc (snd p)) (bindE (on_cache (updateState st mru lru r) fc1) (\<lambda>fc. Inr (m', fc)))"
    if "fc1 = fc \<or> (\<exists>m. fc1 = snd (continueSnoop nb m fc))" for fc1 st mru lru m'
    using snoop_change[OF assms that, of st mru lru m'] by auto
  have up: "outcome (\<lambda>p. only_at t fc (snd p)) (bindE (on_cache (updateState st mru lru r) (snd (continueSnoop nb m fc))) (\<lambda>fc. Inr (m', fc)))"
    for m st mru lru m'
    by (rule ch) blast
  obtain resp snoop nstate mru lru where act: "act = (resp, snoop, nstate, mru, lru)" by (cases act)
  show ?thesis
    by (cases resp) (simp_all add: SnoopAction_def act Let_def case_prod_unfold up ch only_at_refl[OF assms(1)])
qed

lemma push_SnoopIn_ok:
  assumes "fc_ok fc"
  shows "outcome (\<lambda>p. only_at (block_addr fc m) fc (snd p)) (push_SnoopIn nb m fc)"
proof -
  let ?t = "block_addr fc m"
  from assms obtain r c where l: "cache_lookup ?t (theCache fc) = Inr (r, c)" "snooped fc (fc\<lparr>theCache := c\<rparr>)"
    "state_of c = block_state fc" "pending r ?t c" "getState r c = Inr (block_state fc ?t)" "cache_ok c"
    by (rule fc_lookup)
  let ?fc = "fc\<lparr>theCache := c\<rparr>"
  have o1: "only_at ?t fc ?fc" using l by (simp add: only_at_def)
  have act: "outcome (\<lambda>p. only_at ?t fc (snd p)) (SnoopAction nb act r m ?fc)"
    if "getSnoopAction ?fc (block_state fc ?t) (mm_type m) = Inr act" for act
  proof (cases "block_state fc ?t = kInvalid")
    case True
    with that snoop_invalid obtain t' where "act = (Resp t', NoSnoop, SameState, False, False)" by metis
    with o1 show ?thesis by (simp add: SnoopAction_def)
  next
    case False
    have "outcome (\<lambda>p. only_at ?t ?fc (snd p)) (SnoopAction nb act r m ?fc)"
      by (rule SnoopAction_ok) (use l False snooped_ok in auto)
    then show ?thesis
      using only_at_trans[OF o1] by (cases "SnoopAction nb act r m ?fc") auto
  qed
  have again: "outcome (\<lambda>p. only_at ?t fc (snd p)) (bindE (cache_lookup ?t (theCache fc')) (\<lambda>(_, c). Inr (m', fc'\<lparr>theCache := c\<rparr>)))"
    if "only_at ?t fc fc'" for m' fc'
  proof -
    have ok: "fc_ok fc'" and bm: "block_addr fc' m = ?t"
      using that by (auto simp: only_at_def snooped_def config_def)
    from fc_lookup[OF ok, of m] obtain r c where "cache_lookup ?t (theCache fc') = Inr (r, c)"
      "snooped fc' (fc'\<lparr>theCache := c\<rparr>)" "state_of c = block_state fc'" unfolding bm by metis
    moreover from this have "only_at ?t fc' (fc'\<lparr>theCache := c\<rparr>)" by (simp add: only_at_def)
    ultimately show ?thesis using only_at_trans[OF that] by simp
  qed
  have "outcome (\<lambda>_. True) (getSnoopAction ?fc (block_state fc ?t) (mm_type m))"
    by (auto simp: getSnoopAction_def split: option.splits)
  then show ?thesis
    unfolding push_SnoopIn_def Let_def l(1,5) bindE_Inr prod.case
    by (cases "getSnoopAction ?fc (block_state fc ?t) (mm_type m)")
      (auto simp: act case_prod_unfold intro!: outcome_bindE[OF act] again[unfolded case_prod_unfold])
qed

subsection \<open>Calls to the lower level\<close>

lemma snooped_env: "fc_ok fc \<Longrightarrow> theCache fc' = theCache fc \<Longrightarrow> config fc' = config fc \<Longrightarrow> snooped fc fc'"
  unfolding snooped_def using fc_ok_cong[of fc' fc] by simp

lemma run_call_ok: "fc_ok fc \<Longrightarrow> outcome (\<lambda>p. snooped fc (snd p)) (run_call nb call fc)"
proof (induction call arbitrary: fc)
  case (Reply m l)
  then show ?case by (auto intro!: snooped_env simp: config_def)
next
  case Stop
  then show ?case by simp
next
  case (Snoop m k)
  have "outcome (\<lambda>p. snooped fc (snd p)) (run_call nb (k m') fc')" if "only_at (block_addr fc m) fc fc'" for m' fc'
  proof -
    have s: "snooped fc fc'" using that by (simp add: only_at_def)
    have "outcome (\<lambda>p. snooped fc' (snd p)) (run_call nb (k m') fc')"
      by (rule Snoop.IH[OF _ snooped_ok[OF s]]) simp
    then show ?thesis
      using snooped_trans[OF s] by (cases "run_call nb (k m') fc'") auto
  qed
  with push_SnoopIn_ok[OF Snoop.prems, of m nb] show ?case
    by (auto simp: case_prod_unfold intro!: outcome_bindE)
qed

lemma forwardMessage_ok:
  assumes "fc_ok fc"
  shows "outcome (\<lambda>p. snooped fc (snd p)) (forwardMessage nb m fc)"
proof -
  let ?fc = "fc\<lparr>fc_sent := fc_sent fc @ [(RequestOut, m)]\<rparr>"
  have s: "snooped fc ?fc" by (rule snooped_env[OF assms]) (simp_all add: config_def)
  from run_call_ok[OF snooped_ok[OF s], of nb "to_lower nb m (lower_level fc)"] show ?thesis
    unfolding forwardMessage_def
    using snooped_trans[OF s] by (cases "run_call nb (to_lower nb m (lower_level fc)) ?fc") auto
qed

lemma protocol_evict_frame [simp]:
  "theCache (snd (protocol_evict nb t st fc)) = theCache fc" "config (snd (protocol_evict nb t st fc)) = config fc"
  by (simp_all add: protocol_evict_def case_prod_unfold Let_def)

lemma config_messages [simp]:
  "config (fc\<lparr>theEvictMessage := m\<rparr>) = config fc" "config (fc\<lparr>lower_level := l\<rparr>) = config fc"
  "config (fc\<lparr>fc_sent := x\<rparr>) = config fc"
  by (simp_all add: config_def)

lemma fc_evict_ok:
  assumes "fc_ok fc"
  shows "outcome (snooped fc) (fc_evict nb t st fc)"
proof -
  let ?f1 = "fc\<lparr>theEvictMessage := (theEvictMessage fc)\<lparr>mm_address := t\<rparr>\<rparr>"
  let ?p = "protocol_evict nb t st ?f1"
  let ?f2 = "(snd ?p)\<lparr>theEvictMessage := (theEvictMessage (snd ?p))\<lparr>mm_type := fst ?p\<rparr>\<rparr>"
  have s: "snooped fc ?f2" by (rule snooped_env[OF assms]) simp_all
  have "outcome (snooped fc) (bindE (forwardMessage nb (theEvictMessage ?f2) ?f2) (\<lambda>(m, fc). Inr (fc\<lparr>theEvictMessage := m\<rparr>)))"
  proof (rule outcome_bindE[OF forwardMessage_ok[OF snooped_ok[OF s]]])
    fix x :: "MemoryMessage \<times> ('a, 'b) FastCache" assume "snooped ?f2 (snd x)"
    with s have "snooped fc (snd x)" by (rule snooped_trans)
    moreover have "snooped (snd x) ((snd x)\<lparr>theEvictMessage := fst x\<rparr>)"
      by (rule snooped_env) (use \<open>snooped fc (snd x)\<close> snooped_ok in auto)
    ultimately show "outcome (snooped fc) (case x of (m, fc) \<Rightarrow> Inr (fc\<lparr>theEvictMessage := m\<rparr>))"
      by (auto simp: case_prod_unfold intro: snooped_trans)
  qed
  with s show ?thesis
    unfolding fc_evict_def Let_def by (simp add: case_prod_unfold)
qed

lemma alloc_mark [simp]:
  "cache_ok (c\<lparr>theAllocateInProgress := b\<rparr>) = cache_ok c" "cache_ok (c\<lparr>theAllocateAddr := a\<rparr>) = cache_ok c"
  "state_of (c\<lparr>theAllocateInProgress := b\<rparr>) = state_of c" "state_of (c\<lparr>theAllocateAddr := a\<rparr>) = state_of c"
  "geometry (c\<lparr>theAllocateInProgress := b\<rparr>) = geometry c" "geometry (c\<lparr>theAllocateAddr := a\<rparr>) = geometry c"
  "pending r t (c\<lparr>theAllocateInProgress := b\<rparr>) = pending r t c" "pending r t (c\<lparr>theAllocateAddr := a\<rparr>) = pending r t c"
  "block_of r (c\<lparr>theAllocateInProgress := b\<rparr>) = block_of r c" "block_of r (c\<lparr>theAllocateAddr := a\<rparr>) = block_of r c"
  by (simp_all add: cache_ok_def geometry_ok_def set_ok_def get_set_def get_tag_def state_of_def geometry_def
      pending_def block_of_def fun_eq_iff)

lemma stays_mark [simp]:
  "stays c (c'\<lparr>theAllocateInProgress := b\<rparr>) = stays c c'" "stays c (c'\<lparr>theAllocateAddr := a\<rparr>) = stays c c'"
  by (simp_all add: stays_def)

lemma fc_ok_mark [simp]:
  "fc_ok (fc\<lparr>theCache := (theCache fc)\<lparr>theAllocateInProgress := b\<rparr>\<rparr>) = fc_ok fc"
  "fc_ok (fc\<lparr>theCache := (theCache fc)\<lparr>theAllocateInProgress := b, theAllocateAddr := a\<rparr>\<rparr>) = fc_ok fc"
  by (simp_all add: fc_ok_def)

definition marked :: "64 word \<Rightarrow> ('u, 'l) FastCache \<Rightarrow> ('u, 'l) FastCache" where
  "marked t fc = fc\<lparr>theCache := (theCache fc)\<lparr>theAllocateInProgress := True, theAllocateAddr := t\<rparr>\<rparr>"

lemma snooped_marked: "fc_ok fc \<Longrightarrow> snooped fc (marked t fc)"
  by (simp add: marked_def snooped_def)

text \<open>Once the victim is gone, the new block takes its place.\<close>

lemma place_block:
  assumes ok: "fc_ok fc" and p: "pending r t (theCache fc)" and b: "block_of r (theCache fc) = Inr b"
    and P: "P = (if be_tag b \<noteq> t then replace_block t st r else change_block st r)"
  shows "\<exists>c. bindE (on_cache P fc) (\<lambda>fc.
      bindE (on_cache (update_lru r) fc) (\<lambda>fc. Inr (fc\<lparr>theCache := (theCache fc)\<lparr>theAllocateInProgress := False\<rparr>\<rparr>))) =
      Inr (fc\<lparr>theCache := c\<rparr>) \<and> fc_ok (fc\<lparr>theCache := c\<rparr>) \<and>
    state_of c = (\<lambda>x. if x = t then st
       else if x = be_tag b \<and> get_set (theCache fc) x = get_set (theCache fc) t then kInvalid else block_state fc x)"
proof -
  have c0: "cache_ok (theCache fc)" using ok by (simp add: fc_ok_def)
  have "\<exists>c. P (theCache fc) = Inr c \<and> cache_ok c \<and> pending r t c \<and> geometry c = geometry (theCache fc) \<and>
    state_of c = (\<lambda>x. if x = t then st
       else if x = be_tag b \<and> get_set (theCache fc) x = get_set (theCache fc) t then kInvalid else block_state fc x)"
  proof (cases "be_tag b = t")
    case True
    have "b \<in> set (theBlocks (theCache fc) ! get_set (theCache fc) t)"
      by (rule pending_block[OF c0 p]) (use b in simp)
    with True have "t \<in> be_tag ` set (theBlocks (theCache fc) ! get_set (theCache fc) t)" by auto
    from change_block_ok[OF c0 p this, of st] True p show ?thesis by (auto simp: P stays_def fun_eq_iff)
  next
    case False
    with replace_block_ok[OF c0 p b, of st] show ?thesis by (simp add: P)
  qed
  then obtain c where c: "P (theCache fc) = Inr c" "cache_ok c" "pending r t c" "geometry c = geometry (theCache fc)"
    "state_of c = (\<lambda>x. if x = t then st
       else if x = be_tag b \<and> get_set (theCache fc) x = get_set (theCache fc) t then kInvalid else block_state fc x)"
    by blast
  from update_lru_ok[OF c(2,3)] obtain c' where c': "update_lru r c = Inr c'" "cache_ok c'" "state_of c' = state_of c"
    "stays c c'" by blast
  moreover have "blockTagMask c' = blockTagMask (theCache fc)"
    using c(4) c'(4) by (simp add: stays_def geometry_def)
  ultimately show ?thesis
    using c ok by (auto simp: on_cache_def fc_ok_def intro!: exI[of _ "c'\<lparr>theAllocateInProgress := False\<rparr>"])
qed

definition evict_victim :: "('u, 'l) neighbours \<Rightarrow> 64 word \<Rightarrow> BlockEntry \<Rightarrow> ('u, 'l) FastCache \<Rightarrow> ('u, 'l) FastCache res" where
  "evict_victim nb t b fc =
     (if be_tag b \<noteq> t \<and> isValid (be_state b) then fc_evict nb (be_tag b) (be_state b) (marked t fc) else Inr (marked t fc))"

lemma allocate_split:
  assumes p: "pending r t (theCache fc)" and b: "block_of r (theCache fc) = Inr b"
  shows "allocate nb st r fc = bindE (evict_victim nb t b fc) (\<lambda>fc.
    bindE (on_cache (if be_tag b \<noteq> t then replace_block t st r else change_block st r) fc) (\<lambda>fc.
    bindE (on_cache (update_lru r) fc) (\<lambda>fc. Inr (fc\<lparr>theCache := (theCache fc)\<lparr>theAllocateInProgress := False\<rparr>\<rparr>))))"
proof -
  have t: "lr_address r = t" "get_tag (theCache fc) t = t" using p by (auto simp: pending_def)
  show ?thesis
    unfolding allocate_def Let_def t marked_def[of t fc, symmetric]
    using b by (simp add: bindE_assoc marked_def evict_victim_def)
qed

lemma allocate_ok:
  assumes ok: "fc_ok fc" and p: "pending r t (theCache fc)"
  shows "outcome (\<lambda>fc'. fc_ok fc' \<and> config fc' = config fc \<and> block_state fc' t = st) (allocate nb st r fc)"
proof -
  from pending_block[OF _ p] ok obtain b where b: "block_of r (theCache fc) = Inr b" by (auto simp: fc_ok_def)
  note m = snooped_marked[OF ok, of t]
  have e: "outcome (snooped fc) (evict_victim nb t b fc)"
  proof (cases "be_tag b \<noteq> t \<and> isValid (be_state b)")
    case True
    with fc_evict_ok[OF snooped_ok[OF m], of nb "be_tag b" "be_state b"] snooped_trans[OF m] show ?thesis
      by (cases "fc_evict nb (be_tag b) (be_state b) (marked t fc)") (auto simp: evict_victim_def)
  qed (use m in \<open>auto simp: evict_victim_def\<close>)
  show ?thesis
    unfolding allocate_split[OF p b]
  proof (rule outcome_bindE[OF e])
    fix fc1 assume s: "snooped fc fc1"
    then have f: "fc_ok fc1" "pending r t (theCache fc1)" "cache_ok (theCache fc1)"
      using p by (auto simp: snooped_def stays_def fc_ok_def)
    from s stays_block[OF _ f(3) b] obtain b' where b': "block_of r (theCache fc1) = Inr b'" "be_tag b' = be_tag b"
      by (auto simp: snooped_def)
    show "outcome (\<lambda>fc'. fc_ok fc' \<and> config fc' = config fc \<and> block_state fc' t = st)
      (bindE (on_cache (if be_tag b \<noteq> t then replace_block t st r else change_block st r) fc1) (\<lambda>fc.
       bindE (on_cache (update_lru r) fc) (\<lambda>fc. Inr (fc\<lparr>theCache := (theCache fc)\<lparr>theAllocateInProgress := False\<rparr>\<rparr>))))"
      using place_block[OF f(1,2) b'(1) refl, of st] s b'(2) by (auto simp: snooped_def)
  qed
qed

subsection \<open>Requests\<close>

text \<open>Reasoning about a request is the same whether the neighbours are arbitrary (the request may then
  fail an assertion, and snoops may arrive while it waits) or well behaved (it must then return). The
  locale states what the steps of an action need of a judgement \<open>W\<close> on results; the actions are then
  treated once. \<open>R\<close> relates the type of the answer to the final state of the block.\<close>

definition tag_in :: "64 word \<Rightarrow> StdCache \<Rightarrow> bool" where
  "tag_in t c \<longleftrightarrow> t \<in> be_tag ` set (theBlocks c ! get_set c t)"

lemma stays_tag_in:
  assumes "stays c c'" "cache_ok c" "tag_in t c"
  shows "tag_in t c'"
proof -
  from assms(3) obtain b where b: "b \<in> set (theBlocks c ! get_set c t)" "be_tag b = t" by (auto simp: tag_in_def)
  have "get_set c t < length (theBlocks c)" using assms(2) by (simp add: cache_ok_def geometry_get_set)
  with assms(1) have "same_ways (theBlocks c ! get_set c t) (theBlocks c' ! get_set c t)" by (simp add: stays_def)
  with b obtain b' where "b' \<in> set (theBlocks c' ! get_set c t)" "be_tag b' = t" unfolding same_ways_def by metis
  moreover have "get_set c' = get_set c" using assms(1) geometryD(2)[of c' c] by (simp add: stays_def)
  ultimately show ?thesis by (auto simp: tag_in_def)
qed

definition ready :: "('u, 'l) FastCache \<Rightarrow> StdLookupResult \<Rightarrow> 64 word \<Rightarrow> bool" where
  "ready fc r t \<longleftrightarrow> fc_ok fc \<and> pending r t (theCache fc)"

definition read_reply :: "MemoryMessageType \<Rightarrow> bool" where
  "read_reply t \<longleftrightarrow> t = MissReply \<or> t = MissReplyWritable \<or> t = MissReplyDirty \<or> t = FwdReplyOwned"

text \<open>What a requester may rely on: after a store the block is modified; after a write or upgrade request
  it is writable; after a read or fetch it is present; write permission is only passed on by a cache that
  has it; and a dirty block stops being dirty only by handing the dirty data to the requester.\<close>

definition granted :: "access_t \<Rightarrow> CoherenceState_t \<Rightarrow> MemoryMessageType \<Rightarrow> CoherenceState_t \<Rightarrow> bool" where
  "granted a s0 reply s1 \<longleftrightarrow>
     (a = kStoreAccess \<longrightarrow> s1 = kModified) \<and>
     (a = kWriteAccess \<or> a = kUpgrade \<longrightarrow> s1 = kExclusive \<or> s1 = kModified) \<and>
     (a = kReadAccess \<or> a = kFetchAccess \<longrightarrow> s1 \<noteq> kInvalid) \<and>
     (a \<noteq> kNAWAccess \<longrightarrow> reply = MissReplyWritable \<or> reply = MissReplyDirty \<longrightarrow> s1 = kExclusive \<or> s1 = kModified) \<and>
     (s0 = kModified \<longrightarrow> s1 = kModified \<or> reply = MissReplyDirty)"

lemma access_type:
  "message2access ty = Inr kEvictClean \<longleftrightarrow> ty = EvictClean" "message2access ty = Inr kEvictWritable \<longleftrightarrow> ty = EvictWritable"
  "message2access ty = Inr kEvictDirty \<longleftrightarrow> ty = EvictDirty" "message2access ty \<noteq> Inr kUnknownAccess"
  "message2access ty = Inr kReadAccess \<longleftrightarrow> ty = ReadReq \<or> ty = LoadReq" "message2access ty = Inr kNAWAccess \<longleftrightarrow> ty = NonAllocatingStoreReq"
  by (auto simp: message2access_def)

text \<open>The requests a cache sends to the level below it.\<close>

definition lower_request :: "MemoryMessageType \<Rightarrow> bool" where
  "lower_request t \<longleftrightarrow> t \<in> {ReadReq, FetchReq, WriteReq, UpgradeReq, NonAllocatingStoreReq, EvictDirty, EvictWritable, EvictClean}"

locale request_logic =
  fixes nb :: "('u, 'l) neighbours"
    and W :: "('u, 'l) FastCache \<Rightarrow> StdLookupResult \<Rightarrow> 64 word \<Rightarrow> (MemoryMessageType \<Rightarrow> CoherenceState_t \<Rightarrow> bool) \<Rightarrow>
      (MemoryMessage \<times> ('u, 'l) FastCache) res \<Rightarrow> bool"
  assumes skip: "ready fc r t \<Longrightarrow> R (mm_type m) (block_state fc t) \<Longrightarrow> W fc r t R (Inr (m, fc))"
    and touch: "ready fc r t \<Longrightarrow> R (mm_type m) (block_state fc t) \<Longrightarrow>
      W fc r t R (bindE (on_cache (update_lru r) fc) (\<lambda>fc. Inr (m, fc)))"
    and change: "ready fc r t \<Longrightarrow> tag_in t (theCache fc) \<Longrightarrow> R (mm_type m) st \<Longrightarrow>
      W fc r t R (bindE (on_cache (updateState st True False r) fc) (\<lambda>fc. Inr (m, fc)))"
    and alloc: "ready fc r t \<Longrightarrow> R (mm_type m) st \<Longrightarrow> W fc r t R (bindE (allocate nb st r fc) (\<lambda>fc. Inr (m, fc)))"
    and forward: "ready fc r t \<Longrightarrow> lower_request (mm_type m) \<Longrightarrow>
      (\<And>m' fc1. ready fc1 r t \<Longrightarrow> (tag_in t (theCache fc) \<Longrightarrow> tag_in t (theCache fc1)) \<Longrightarrow>
         (mm_type m = ReadReq \<Longrightarrow> \<not> read_reply (mm_type m') \<Longrightarrow> W fc1 r t R (Inl AssertionFailed)) \<Longrightarrow>
         W fc1 r t R (f m' fc1)) \<Longrightarrow>
      W fc r t R (bindE (forwardMessage nb m fc) (\<lambda>(m', fc1). f m' fc1))"
begin

lemma do_touch:
  assumes "ready fc r t"
  shows "R MissReplyWritable (block_state fc t) \<Longrightarrow>
      W fc r t R (doCoherenceAction nb (SendNone, NoAllocate, SameState, UpdateLRU, FillWritable) r m fc)"
    and "R MissReplyDirty (block_state fc t) \<Longrightarrow>
      W fc r t R (doCoherenceAction nb (SendNone, NoAllocate, SameState, UpdateLRU, FillDirty) r m fc)"
    and "R MissReply (block_state fc t) \<Longrightarrow>
      W fc r t R (doCoherenceAction nb (SendNone, NoAllocate, SameState, UpdateLRU, FillValid) r m fc)"
    and "R (mm_type m) (block_state fc t) \<Longrightarrow>
      W fc r t R (doCoherenceAction nb (SendNone, NoAllocate, SameState, UpdateLRU, NoResponse) r m fc)"
    and "R (mm_type m) (block_state fc t) \<Longrightarrow>
      W fc r t R (doCoherenceAction nb (SendNone, NoAllocate, SameState, NoUpdateLRU, NoResponse) r m fc)"
  unfolding doCoherenceAction_def Let_def
  by (simp_all add: touch[OF assms] skip[OF assms])

lemma do_change:
  assumes "ready fc r t" "tag_in t (theCache fc)"
  shows "R MissReplyDirty kExclusive \<Longrightarrow>
      W fc r t R (doCoherenceAction nb (SendNone, NoAllocate, E_State, UpdateLRU, FillDirty) r m fc)"
    and "R MissReplyWritable kModified \<Longrightarrow>
      W fc r t R (doCoherenceAction nb (SendNone, NoAllocate, M_State, UpdateLRU, FillWritable) r m fc)"
    and "R (mm_type m) kModified \<Longrightarrow>
      W fc r t R (doCoherenceAction nb (SendNone, NoAllocate, M_State, UpdateLRU, NoResponse) r m fc)"
    and "(if mm_type m = LoadReq then R MissReplyDirty (block_state fc t) else R MissReplyDirty kExclusive) \<Longrightarrow>
      W fc r t R (doCoherenceAction nb (SendNone, NoAllocate, DependState, UpdateLRU, FillDirty) r m fc)"
  unfolding doCoherenceAction_def Let_def
  by (simp_all add: change[OF assms] touch[OF assms(1)])

lemma do_upgrade:
  assumes "ready fc r t" "tag_in t (theCache fc)"
  shows "R MissReplyWritable kModified \<Longrightarrow>
      W fc r t R (doCoherenceAction nb (SendUpgrade, NoAllocate, M_State, UpdateLRU, FillWritable) r m fc)"
    and "R MissReplyWritable kExclusive \<Longrightarrow>
      W fc r t R (doCoherenceAction nb (SendUpgrade, NoAllocate, E_State, UpdateLRU, FillWritable) r m fc)"
    and "(\<And>x. R x kModified) \<Longrightarrow>
      W fc r t R (doCoherenceAction nb (SendUpgrade, NoAllocate, M_State, UpdateLRU, NoResponse) r m fc)"
  unfolding doCoherenceAction_def Let_def
  using assms by (simp_all add: forward change lower_request_def)

lemma do_allocate:
  assumes "ready fc r t"
  shows "R MissReply kShared \<Longrightarrow> R MissReplyWritable kExclusive \<Longrightarrow>
      R MissReplyDirty (if mm_type m = LoadReq then kModified else kExclusive) \<Longrightarrow> R MissReply kOwned \<Longrightarrow>
      W fc r t R (doCoherenceAction nb (SendRead, Allocate, DependState, UpdateLRU, FillDepend) r m fc)"
    and "(\<And>x. R x kModified) \<Longrightarrow>
      W fc r t R (doCoherenceAction nb (SendWrite, Allocate, M_State, UpdateLRU, FillDepend) r m fc)"
    and "(\<And>x. R x kExclusive) \<Longrightarrow>
      W fc r t R (doCoherenceAction nb (SendWrite, Allocate, E_State, UpdateLRU, FillDepend) r m fc)"
    and "R MissReply kShared \<Longrightarrow> R MissReply kOwned \<Longrightarrow>
      W fc r t R (doCoherenceAction nb (SendFetch, Allocate, DependState, UpdateLRU, FillValid) r m fc)"
  unfolding doCoherenceAction_def Let_def
  using assms by (simp_all add: forward alloc read_reply_def lower_request_def)

lemma do_bypass:
  assumes "ready fc r t" "mm_type m = NonAllocatingStoreReq" "\<And>x y. R x y"
  shows "W fc r t R (doCoherenceAction nb (SendNAW, NoAllocate, SameState, NoUpdateLRU, FillDepend) r m fc)"
  using forward[OF assms(1), where f = "\<lambda>m fc. Inr (m, fc)" and R = R and m = m] assms(2,3)
  by (simp add: doCoherenceAction_def Let_def skip lower_request_def)

lemma request_action:
  assumes rd: "ready fc r t" and acc: "message2access (mm_type m) = Inr acc"
    and act: "getCoherenceAction fc (block_state fc t) acc = Inr act" "act \<noteq> poison"
  shows "W fc r t (granted acc (block_state fc t)) (doCoherenceAction nb act r m fc)"
proof -
  have tin: "tag_in t (theCache fc)" if "block_state fc t \<noteq> kInvalid"
    using that present_tag by (simp add: tag_in_def)
  show ?thesis
    using acc tin act(1)[symmetric] act(2)
    by (cases "theProtocol fc"; cases "block_state fc t"; cases acc)
      (simp_all add: getCoherenceAction_def do_touch[OF rd] do_change[OF rd] do_upgrade[OF rd]
        do_allocate[OF rd] do_bypass[OF rd] access_type granted_def split: if_splits)
qed

end

subsection \<open>Arbitrary neighbours\<close>

definition ends :: "('u, 'l) FastCache \<Rightarrow> 64 word \<Rightarrow> (MemoryMessageType \<Rightarrow> CoherenceState_t \<Rightarrow> bool) \<Rightarrow>
    MemoryMessage \<times> ('u, 'l) FastCache \<Rightarrow> bool" where
  "ends fc t R p \<longleftrightarrow> fc_ok (snd p) \<and> config (snd p) = config fc \<and> R (mm_type (fst p)) (block_state (snd p) t)"

lemma ends_snooped: "snooped fc fc1 \<Longrightarrow> ends fc1 t R = ends fc t R"
  by (auto simp: ends_def snooped_def fun_eq_iff)

lemma snooped_ready:
  assumes "ready fc r t" "snooped fc fc1"
  shows "ready fc1 r t" "tag_in t (theCache fc) \<Longrightarrow> tag_in t (theCache fc1)"
  using assms stays_tag_in[of "theCache fc" "theCache fc1" t] by (auto simp: ready_def snooped_def stays_def fc_ok_def)

interpretation any: request_logic nb "\<lambda>fc r t R. outcome (ends fc t R)" for nb :: "('u, 'l) neighbours"
proof (unfold_locales, goal_cases)
  case (1 fc r t R m)
  then show ?case by (simp add: ends_def ready_def)
next
  case (2 fc r t R m)
  then have f: "fc_ok fc" "pending r t (theCache fc)" by (auto simp: ready_def)
  show ?case by (rule fc_touch[OF f]) (use 2(2) in \<open>auto simp: ends_def snooped_def\<close>)
next
  case (3 fc r t R m st)
  then have f: "fc_ok fc" "pending r t (theCache fc)" "t \<in> be_tag ` set (theBlocks (theCache fc) ! get_set (theCache fc) t)"
    by (auto simp: ready_def tag_in_def)
  show ?case
    by (rule fc_change[OF f, where st = st and m = True and l = False]) (use 3(3) in \<open>auto simp: ends_def snooped_def\<close>)
next
  case (4 fc r t R m st)
  then have f: "fc_ok fc" "pending r t (theCache fc)" by (auto simp: ready_def)
  show ?case by (rule outcome_bindE[OF allocate_ok[OF f, of st nb]]) (use 4(2) in \<open>auto simp: ends_def\<close>)
next
  case (5 fc r t m R f)
  then have ok: "fc_ok fc" by (simp add: ready_def)
  show ?case
  proof (rule outcome_bindE[OF forwardMessage_ok[OF ok]])
    fix x :: "MemoryMessage \<times> ('u, 'l) FastCache"
    assume s: "snooped fc (snd x)"
    have "outcome (ends (snd x) t R) (f (fst x) (snd x))"
      by (rule 5(3)) (use snooped_ready[OF 5(1) s] in auto)
    with ends_snooped[OF s, of t R] show "outcome (ends fc t R) (case x of (m', fc1) \<Rightarrow> f m' fc1)"
      by (simp add: case_prod_unfold)
  qed
qed

lemma do_poison: "doCoherenceAction nb poison r m fc = Inl AssertionFailed"
  by (simp add: doCoherenceAction_def Let_def)

lemma outcome_action: "outcome (\<lambda>_. True) (getCoherenceAction fc s a)"
  by (auto simp: getCoherenceAction_def split: option.splits)

text \<open>C8: Whatever the neighbours answer, and whatever snoops the lower level sends before it answers, a
  request either fails an assertion or returns with the invariant of the tag array and the
  configuration intact, never with an out-of-range access or a dangling iterator; and when it returns, the
  requester has the permission it asked for, this cache has every permission it passed on, and a dirty
  block became clean only by handing the dirty data to the requester.\<close>

theorem push_RequestIn_safe:
  assumes "fc_ok fc" "message2access (mm_type m) = Inr acc"
  shows "outcome (ends fc (block_addr fc m) (granted acc (block_state fc (block_addr fc m)))) (push_RequestIn nb m fc)"
proof -
  let ?t = "block_addr fc m"
  from assms(1) obtain r c where l: "cache_lookup ?t (theCache fc) = Inr (r, c)" "snooped fc (fc\<lparr>theCache := c\<rparr>)"
    "state_of c = block_state fc" "pending r ?t c" "getState r c = Inr (block_state fc ?t)" "cache_ok c"
    by (rule fc_lookup)
  let ?fc = "fc\<lparr>theCache := c\<rparr>"
  have rd: "ready ?fc r ?t" using l snooped_ok[OF l(2)] by (simp add: ready_def)
  have "outcome (ends ?fc ?t (granted acc (block_state fc ?t))) (doCoherenceAction nb act r m ?fc)"
    if "getCoherenceAction ?fc (block_state fc ?t) acc = Inr act" for act
    using any.request_action[OF rd assms(2), of act nb] that l(3)
    by (cases "act = poison") (auto simp: do_poison)
  then show ?thesis
    unfolding push_RequestIn_def Let_def assms(2) l(1,5) bindE_Inr prod.case ends_snooped[OF l(2), symmetric]
    using outcome_action[of ?fc "block_state fc ?t" acc]
    by (cases "getCoherenceAction ?fc (block_state fc ?t) acc") auto
qed

subsection \<open>Well-behaved neighbours\<close>

text \<open>A lower level that answers without snooping this cache, and answers reads as a cache or memory does.\<close>

definition quiet :: "('u, 'l) neighbours \<Rightarrow> bool" where
  "quiet nb \<longleftrightarrow> (\<forall>m l. lower_request (mm_type m) \<longrightarrow> (\<exists>m' l'. to_lower nb m l = Reply m' l' \<and> (mm_type m = ReadReq \<longrightarrow> read_reply (mm_type m'))))"

lemma quiet_forward:
  assumes "quiet nb" "lower_request (mm_type m)"
  obtains m' l where "forwardMessage nb m fc = Inr (m', fc\<lparr>lower_level := l, fc_sent := fc_sent fc @ [(RequestOut, m)]\<rparr>)"
    "mm_type m = ReadReq \<longrightarrow> read_reply (mm_type m')"
proof -
  from assms obtain m' l where "to_lower nb m (lower_level fc) = Reply m' l" "mm_type m = ReadReq \<longrightarrow> read_reply (mm_type m')"
    unfolding quiet_def by blast
  with that[of m' l] show thesis by (simp add: forwardMessage_def)
qed

text \<open>The messages an eviction sends: the block is invalidated in both kinds of upper caches, and the
  lower level hears of it when the block was dirty anywhere, or always if clean evictions are configured.\<close>

definition inv_I :: "64 word \<Rightarrow> ('u, 'l) FastCache \<Rightarrow> MemoryMessage" where
  "inv_I t fc = (theInvalidateMessage fc)\<lparr>mm_address := t, mm_type := Invalidate\<rparr>"

definition ack_I :: "('u, 'l) neighbours \<Rightarrow> 64 word \<Rightarrow> ('u, 'l) FastCache \<Rightarrow> MemoryMessage \<times> 'u" where
  "ack_I nb t fc = to_I nb (inv_I t fc) (upper_caches fc)"

definition inv_D :: "('u, 'l) neighbours \<Rightarrow> 64 word \<Rightarrow> ('u, 'l) FastCache \<Rightarrow> MemoryMessage" where
  "inv_D nb t fc = (fst (ack_I nb t fc))\<lparr>mm_type := Invalidate\<rparr>"

definition ack_D :: "('u, 'l) neighbours \<Rightarrow> 64 word \<Rightarrow> ('u, 'l) FastCache \<Rightarrow> MemoryMessage \<times> 'u" where
  "ack_D nb t fc = to_D nb (inv_D nb t fc) (snd (ack_I nb t fc))"

definition dirty_above :: "('u, 'l) neighbours \<Rightarrow> 64 word \<Rightarrow> ('u, 'l) FastCache \<Rightarrow> bool" where
  "dirty_above nb t fc \<longleftrightarrow> mm_type (fst (ack_I nb t fc)) = InvUpdateAck \<or> mm_type (fst (ack_D nb t fc)) = InvUpdateAck"

definition evict_type :: "('u, 'l) neighbours \<Rightarrow> 64 word \<Rightarrow> CoherenceState_t \<Rightarrow> ('u, 'l) FastCache \<Rightarrow> MemoryMessageType" where
  "evict_type nb t st fc =
     (if dirty_above nb t fc \<or> st = kModified \<or> theProtocol fc = InclusiveMOESI \<and> st = kOwned then EvictDirty
      else if st = kExclusive then EvictWritable else EvictClean)"

definition evict_log :: "('u, 'l) neighbours \<Rightarrow> 64 word \<Rightarrow> CoherenceState_t \<Rightarrow> ('u, 'l) FastCache \<Rightarrow> (fc_port \<times> MemoryMessage) list" where
  "evict_log nb t st fc =
     [(SnoopOutI, inv_I t fc), (SnoopOutD, inv_D nb t fc)] @
     (if evict_type nb t st fc = EvictDirty \<or> CleanEvictions fc
      then [(RequestOut, (theEvictMessage fc)\<lparr>mm_address := t, mm_type := evict_type nb t st fc\<rparr>)] else [])"

lemma sendInvalidate_log:
  "fst (sendInvalidate nb t True True fc) = dirty_above nb t fc"
  "fc_sent (snd (sendInvalidate nb t True True fc)) = fc_sent fc @ [(SnoopOutI, inv_I t fc), (SnoopOutD, inv_D nb t fc)]"
  "theEvictMessage (snd (sendInvalidate nb t True True fc)) = theEvictMessage fc"
  by (simp_all add: sendInvalidate_def send_I_def send_D_def Let_def case_prod_unfold dirty_above_def inv_I_def
      inv_D_def ack_I_def ack_D_def)

lemma sendInvalidate_config:
  "theProtocol (snd (sendInvalidate nb t i d fc)) = theProtocol fc"
  "CleanEvictions (snd (sendInvalidate nb t i d fc)) = CleanEvictions fc"
  using sendInvalidate_frame(2)[of nb t i d fc] by (auto simp: config_def)

lemma inv_evict_message [simp]:
  "inv_I t (fc\<lparr>theEvictMessage := m\<rparr>) = inv_I t fc" "ack_I nb t (fc\<lparr>theEvictMessage := m\<rparr>) = ack_I nb t fc"
  "inv_D nb t (fc\<lparr>theEvictMessage := m\<rparr>) = inv_D nb t fc" "ack_D nb t (fc\<lparr>theEvictMessage := m\<rparr>) = ack_D nb t fc"
  "dirty_above nb t (fc\<lparr>theEvictMessage := m\<rparr>) = dirty_above nb t fc"
  by (simp_all add: inv_I_def ack_I_def inv_D_def ack_D_def dirty_above_def)

lemma quiet_evict:
  assumes "quiet nb"
  shows "\<exists>fc'. fc_evict nb t st fc = Inr fc' \<and> theCache fc' = theCache fc \<and> config fc' = config fc \<and>
    fc_sent fc' = fc_sent fc @ evict_log nb t st fc"
proof -
  let ?f1 = "fc\<lparr>theEvictMessage := (theEvictMessage fc)\<lparr>mm_address := t\<rparr>\<rparr>"
  let ?f2 = "snd (protocol_evict nb t st ?f1)"
  let ?f3 = "?f2\<lparr>theEvictMessage := (theEvictMessage ?f2)\<lparr>mm_type := evict_type nb t st fc\<rparr>\<rparr>"
  have ty: "fst (protocol_evict nb t st ?f1) = evict_type nb t st fc"
    by (simp add: protocol_evict_def case_prod_unfold Let_def sendInvalidate_log sendInvalidate_config evict_type_def)
  have f3: "theCache ?f3 = theCache fc" "config ?f3 = config fc" "theEvictMessage ?f2 = theEvictMessage ?f1"
    "fc_sent ?f3 = fc_sent fc @ [(SnoopOutI, inv_I t fc), (SnoopOutD, inv_D nb t fc)]" "CleanEvictions ?f3 = CleanEvictions fc"
    by (simp_all add: protocol_evict_def case_prod_unfold Let_def sendInvalidate_log sendInvalidate_config)
  have e: "fc_evict nb t st fc = (if evict_type nb t st fc = EvictDirty \<or> CleanEvictions ?f3 then
      bindE (forwardMessage nb (theEvictMessage ?f3) ?f3) (\<lambda>(m, fc). Inr (fc\<lparr>theEvictMessage := m\<rparr>)) else Inr ?f3)"
    unfolding fc_evict_def Let_def case_prod_unfold ty by simp
  have lr: "lower_request (mm_type (theEvictMessage ?f3))"
    using f3(3) by (simp only: FastCache.simps MemoryMessage.simps) (simp add: evict_type_def lower_request_def)
  obtain m' l where fw: "forwardMessage nb (theEvictMessage ?f3) ?f3 =
      Inr (m', ?f3\<lparr>lower_level := l, fc_sent := fc_sent ?f3 @ [(RequestOut, theEvictMessage ?f3)]\<rparr>)"
    by (rule quiet_forward[OF assms lr])
  show ?thesis
    unfolding e fw using f3 by (auto simp: evict_log_def)
qed

lemma marked_frame [simp]: "config (marked t fc) = config fc" "fc_sent (marked t fc) = fc_sent fc"
  by (simp_all add: marked_def)

lemma log_marked [simp]: "evict_log nb x st (marked t fc) = evict_log nb x st fc"
  by (simp add: evict_log_def evict_type_def dirty_above_def ack_I_def ack_D_def inv_I_def inv_D_def marked_def)

lemma quiet_allocate:
  assumes q: "quiet nb" and rd: "ready fc r t" and b: "block_of r (theCache fc) = Inr b"
  shows "\<exists>fc'. allocate nb st r fc = Inr fc' \<and> fc_ok fc' \<and> config fc' = config fc \<and>
    block_state fc' = (\<lambda>x. if x = t then st
       else if x = be_tag b \<and> get_set (theCache fc) x = get_set (theCache fc) t then kInvalid else block_state fc x) \<and>
    fc_sent fc' = fc_sent fc @ (if be_tag b \<noteq> t \<and> be_state b \<noteq> kInvalid then evict_log nb (be_tag b) (be_state b) fc else [])"
proof -
  have f: "fc_ok fc" "pending r t (theCache fc)" using rd by (auto simp: ready_def)
  from quiet_evict[OF q, of "be_tag b" "be_state b" "marked t fc"]
  obtain fc1 where e: "evict_victim nb t b fc = Inr fc1" "theCache fc1 = theCache (marked t fc)" "config fc1 = config fc"
    "fc_sent fc1 = fc_sent fc @ (if be_tag b \<noteq> t \<and> be_state b \<noteq> kInvalid then evict_log nb (be_tag b) (be_state b) fc else [])"
    by (cases "be_tag b \<noteq> t \<and> be_state b \<noteq> kInvalid") (auto simp: evict_victim_def)
  have ok1: "fc_ok fc1" using f(1) e(2,3) by (simp add: fc_ok_def marked_def config_def)
  have m: "pending r t (theCache fc1)" "block_of r (theCache fc1) = Inr b" "block_state fc1 = block_state fc"
    "get_set (theCache fc1) = get_set (theCache fc)"
    using f(2) b e(2) by (auto simp: marked_def get_set_def fun_eq_iff)
  from place_block[OF ok1 m(1,2) refl, of st] obtain c where c: "bindE (on_cache (if be_tag b \<noteq> t then replace_block t st r else change_block st r) fc1) (\<lambda>fc.
      bindE (on_cache (update_lru r) fc) (\<lambda>fc. Inr (fc\<lparr>theCache := (theCache fc)\<lparr>theAllocateInProgress := False\<rparr>\<rparr>))) =
      Inr (fc1\<lparr>theCache := c\<rparr>)" "fc_ok (fc1\<lparr>theCache := c\<rparr>)"
    "state_of c = (\<lambda>x. if x = t then st
       else if x = be_tag b \<and> get_set (theCache fc) x = get_set (theCache fc) t then kInvalid else block_state fc x)"
    unfolding m(3,4) by blast
  then have "allocate nb st r fc = Inr (fc1\<lparr>theCache := c\<rparr>)"
    unfolding allocate_split[OF f(2) b] e(1) by simp
  with c e show ?thesis by auto
qed

text \<open>A request changes no block but its own and the one that has to make room for it.\<close>

definition returns ::
  "('u, 'l) neighbours \<Rightarrow> ('u, 'l) FastCache \<Rightarrow> StdLookupResult \<Rightarrow> 64 word \<Rightarrow> (MemoryMessageType \<Rightarrow> CoherenceState_t \<Rightarrow> bool) \<Rightarrow>
   (MemoryMessage \<times> ('u, 'l) FastCache) res \<Rightarrow> bool" where
  "returns nb fc r t R res \<longleftrightarrow> (quiet nb \<longrightarrow> (\<exists>p. res = Inr p \<and> ends fc t R p \<and>
     (\<forall>x. x \<noteq> t \<longrightarrow> block_state (snd p) x = block_state fc x \<or>
        block_state (snd p) x = kInvalid \<and> (\<exists>b. block_of r (theCache fc) = Inr b \<and> be_tag b = x))))"

lemma returns_cong:
  "theCache fc1 = theCache fc \<Longrightarrow> config fc1 = config fc \<Longrightarrow> returns nb fc1 r t R = returns nb fc r t R"
  by (simp add: returns_def ends_def fun_eq_iff)

interpretation settled: request_logic nb "returns nb" for nb :: "('u, 'l) neighbours"
proof (unfold_locales, goal_cases)
  case (1 fc r t R m)
  then show ?case by (simp add: returns_def ends_def ready_def)
next
  case (2 fc r t R m)
  then have f: "fc_ok fc" "pending r t (theCache fc)" by (auto simp: ready_def)
  show ?case by (rule fc_touch[OF f]) (use 2(2) in \<open>auto simp: returns_def ends_def snooped_def\<close>)
next
  case (3 fc r t R m st)
  then have f: "fc_ok fc" "pending r t (theCache fc)" "t \<in> be_tag ` set (theBlocks (theCache fc) ! get_set (theCache fc) t)"
    by (auto simp: ready_def tag_in_def)
  show ?case
    by (rule fc_change[OF f, where st = st and m = True and l = False]) (use 3(3) in \<open>auto simp: returns_def ends_def snooped_def\<close>)
next
  case (4 fc r t R m st)
  then obtain b where b: "block_of r (theCache fc) = Inr b"
    by (metis pending_block ready_def fc_ok_def)
  show ?case
  proof (cases "quiet nb")
    case True
    from quiet_allocate[OF True 4(1) b, of st] obtain fc' where "allocate nb st r fc = Inr fc'" "fc_ok fc'" "config fc' = config fc"
      "block_state fc' = (\<lambda>x. if x = t then st
         else if x = be_tag b \<and> get_set (theCache fc) x = get_set (theCache fc) t then kInvalid else block_state fc x)" by blast
    with b 4(2) show ?thesis by (auto simp: returns_def ends_def)
  qed (simp add: returns_def)
next
  case (5 fc r t m R f)
  show ?case
  proof (cases "quiet nb")
    case True
    then obtain m' l where fw: "forwardMessage nb m fc = Inr (m', fc\<lparr>lower_level := l, fc_sent := fc_sent fc @ [(RequestOut, m)]\<rparr>)"
      "mm_type m = ReadReq \<longrightarrow> read_reply (mm_type m')" by (rule quiet_forward[OF _ 5(2)])
    let ?fc = "fc\<lparr>lower_level := l, fc_sent := fc_sent fc @ [(RequestOut, m)]\<rparr>"
    have "returns nb ?fc r t R (f m' ?fc)"
      by (rule 5(3)) (use 5(1) fw(2) in \<open>auto simp: ready_def fc_ok_def\<close>)
    moreover have "returns nb ?fc r t R = returns nb fc r t R" by (rule returns_cong) simp_all
    ultimately show ?thesis using fw(1) by simp
  qed (simp add: returns_def)
qed

text \<open>C9: When the lower level answers without snooping back, every request that the protocol's table
  defines for the state of the block returns; the requester is granted what it asked for, and no other
  block changes its state except the one replaced to make room, which becomes invalid.\<close>

theorem push_RequestIn_correct:
  assumes ok: "fc_ok fc" and acc: "message2access (mm_type m) = Inr acc" and q: "quiet nb"
    and act: "getCoherenceAction fc (block_state fc (block_addr fc m)) acc = Inr act" "act \<noteq> poison"
  shows "\<exists>m' fc'. push_RequestIn nb m fc = Inr (m', fc') \<and> fc_ok fc' \<and> config fc' = config fc \<and>
    granted acc (block_state fc (block_addr fc m)) (mm_type m') (block_state fc' (block_addr fc m)) \<and>
    (\<exists>v. \<forall>x. x \<noteq> block_addr fc m \<longrightarrow> block_state fc' x = (if x = v then kInvalid else block_state fc x))"
proof -
  let ?t = "block_addr fc m"
  from ok obtain r c where l: "cache_lookup ?t (theCache fc) = Inr (r, c)" "snooped fc (fc\<lparr>theCache := c\<rparr>)"
    "state_of c = block_state fc" "pending r ?t c" "getState r c = Inr (block_state fc ?t)" "cache_ok c"
    by (rule fc_lookup)
  let ?fc = "fc\<lparr>theCache := c\<rparr>"
  have rd: "ready ?fc r ?t" using l snooped_ok[OF l(2)] by (simp add: ready_def)
  have a: "getCoherenceAction ?fc (block_state fc ?t) acc = Inr act" using act(1)
    by (cases "theProtocol fc") (simp_all add: getCoherenceAction_def)
  from settled.request_action[OF rd acc, of act nb] a act(2) l(3) q obtain p where
    p: "doCoherenceAction nb act r m ?fc = Inr p" "ends ?fc ?t (granted acc (block_state fc ?t)) p"
    "\<And>x. x \<noteq> ?t \<Longrightarrow> block_state (snd p) x = block_state fc x \<or>
        block_state (snd p) x = kInvalid \<and> (\<exists>b. block_of r c = Inr b \<and> be_tag b = x)"
    by (auto simp: returns_def)
  have "push_RequestIn nb m fc = Inr p"
    unfolding push_RequestIn_def Let_def acc l(1,5) bindE_Inr prod.case a p(1) by simp
  moreover have "\<exists>v. \<forall>x. x \<noteq> ?t \<longrightarrow> block_state (snd p) x = (if x = v then kInvalid else block_state fc x)"
  proof (cases "\<forall>x. x \<noteq> ?t \<longrightarrow> block_state (snd p) x = block_state fc x")
    case True
    then show ?thesis by (intro exI[of _ ?t]) simp
  next
    case False
    then obtain v where "v \<noteq> ?t" "block_state (snd p) v \<noteq> block_state fc v" by blast
    with p(3) show ?thesis by (intro exI[of _ v]) (metis Inr_inject)
  qed
  ultimately show ?thesis using p(2) by (cases p) (auto simp: ends_def)
qed

section \<open>Replacement\<close>

lemma lookup_full:
  assumes ok: "cache_ok c" and t: "t = get_tag c a" "t \<notin> be_tag ` set (theBlocks c ! get_set c t)"
    and b: "theBlocks c ! get_set c t = b # bs" "length (b # bs) = theAssoc c"
  shows "cache_lookup a c = Inr (\<lparr>lr_address = t, lr_state = kInvalid, lr_set = get_set c t, lr_block = be_way b\<rparr>, c)"
    and "block_of \<lparr>lr_address = t, lr_state = kInvalid, lr_set = get_set c t, lr_block = be_way b\<rparr> c = Inr b"
proof -
  have g: "geometry_ok c" using ok by (simp add: cache_ok_def)
  have i: "get_set c a = get_set c t" "get_set c t < length (theBlocks c)"
    using g by (simp_all add: t(1) get_set_get_tag geometry_get_set)
  have "by_tag t (b # bs) = None" using t(2) b(1) by (simp add: by_tag_None_iff)
  then show "cache_lookup a c = Inr (\<lparr>lr_address = t, lr_state = kInvalid, lr_set = get_set c t, lr_block = be_way b\<rparr>, c)"
    using i b by (simp add: cache_lookup_def t(1)[symmetric])
  show "block_of \<lparr>lr_address = t, lr_state = kInvalid, lr_set = get_set c t, lr_block = be_way b\<rparr> c = Inr b"
    using i b by (simp add: block_of_def by_way_def)
qed

definition miss_request :: "access_t \<Rightarrow> MemoryMessageType" where
  "miss_request acc = (if acc = kReadAccess then ReadReq else if acc = kFetchAccess then FetchReq else WriteReq)"

lemma miss_action:
  assumes "acc = kReadAccess \<or> acc = kFetchAccess \<or> acc = kWriteAccess \<or> acc = kStoreAccess"
    and "forwardMessage nb (m\<lparr>mm_type := miss_request acc\<rparr>) fc = Inr (m', fc')"
    and "acc = kReadAccess \<longrightarrow> read_reply (mm_type m')"
    and "getCoherenceAction fc kInvalid acc = Inr act"
  shows "\<exists>st m''. st \<noteq> kInvalid \<and> doCoherenceAction nb act r m fc = bindE (allocate nb st r fc') (\<lambda>fc. Inr (m'', fc))"
proof -
  have act: "act = (if acc = kReadAccess then (SendRead, Allocate, DependState, UpdateLRU, FillDepend)
      else if acc = kFetchAccess then (SendFetch, Allocate, DependState, UpdateLRU, FillValid)
      else (SendWrite, Allocate, if acc = kStoreAccess then M_State else E_State, UpdateLRU, FillDepend))"
    using assms(1) assms(4)[symmetric] by (cases "theProtocol fc") (auto simp: getCoherenceAction_def)
  have ex: "\<exists>st'. st' \<noteq> kInvalid \<and> (\<exists>m''. bindE (allocate nb st r fc') (\<lambda>fc. Inr (x, fc)) =
      bindE (allocate nb st' r fc') (\<lambda>fc. Inr (m'', fc)))" if "st \<noteq> kInvalid" for st x
    using that by blast
  have wf: ?thesis if "acc = kFetchAccess \<or> acc = kWriteAccess \<or> acc = kStoreAccess"
    using that assms(2) unfolding act
    by (elim disjE) (simp_all add: doCoherenceAction_def Let_def miss_request_def ex)
  have rd: ?thesis if "acc = kReadAccess"
    using that assms(2,3) unfolding act read_reply_def
    by (simp add: doCoherenceAction_def Let_def miss_request_def) (elim disjE; simp add: ex)
  show ?thesis using assms(1) wf rd by blast
qed

lemma log_forwarded [simp]:
  "evict_log nb x st (fc\<lparr>lower_level := l, fc_sent := y\<rparr>) = evict_log nb x st fc"
  by (simp add: evict_log_def evict_type_def dirty_above_def ack_I_def ack_D_def inv_I_def inv_D_def)

text \<open>C10: Above a lower level that does not snoop back, a read, fetch or write, or in the MESI protocol a store, that misses in a full set first asks the
  lower level for the block and then replaces the least recently used block of the set: unless it was invalid already, that block is invalidated in the instruction and data
  caches above, the lower level is told of the eviction when the block was dirty here or above (or when
  clean evictions are configured), and all other blocks keep their states.\<close>

theorem miss_evicts_lru:
  assumes ok: "fc_ok fc" and q: "quiet nb" and acc: "message2access (mm_type m) = Inr acc"
      "acc = kReadAccess \<or> acc = kFetchAccess \<or> acc = kWriteAccess \<or> acc = kStoreAccess \<and> theProtocol fc = InclusiveMESI"
    and t: "t = block_addr fc m" "t \<notin> be_tag ` set (theBlocks (theCache fc) ! get_set (theCache fc) t)"
    and b: "theBlocks (theCache fc) ! get_set (theCache fc) t = b # bs" "length (b # bs) = theAssoc (theCache fc)"
  shows "\<exists>m' fc'. push_RequestIn nb m fc = Inr (m', fc') \<and> block_state fc' t \<noteq> kInvalid \<and>
    (\<forall>x. x \<noteq> t \<longrightarrow> block_state fc' x = (if x = be_tag b \<and> be_state b \<noteq> kInvalid then kInvalid else block_state fc x)) \<and>
    fc_sent fc' = fc_sent fc @ [(RequestOut, m\<lparr>mm_type := miss_request acc\<rparr>)] @
      (if be_state b = kInvalid then [] else evict_log nb (be_tag b) (be_state b) fc)"
proof -
  have c0: "cache_ok (theCache fc)" using ok by (simp add: fc_ok_def)
  have tt: "t = get_tag (theCache fc) (block_addr fc m)" using fc_ok_tag_idem[OF ok] t(1) by simp
  let ?r = "\<lparr>lr_address = t, lr_state = kInvalid, lr_set = get_set (theCache fc) t, lr_block = be_way b\<rparr>"
  note l = lookup_full[OF c0 tt t(2) b(1,2)]
  have p: "pending ?r t (theCache fc)" using t(2) b(1,2) tt by (simp add: pending_def)
  have inv: "block_state fc t = kInvalid" using t(2) by (simp add: state_of_def state_in_absent)
  have bt: "be_tag b \<noteq> t" "be_state b \<noteq> kInvalid \<longrightarrow> get_set (theCache fc) (be_tag b) = get_set (theCache fc) t"
    using t(2) b cache_ok_set[OF c0, of t] by (auto simp: set_ok_def)
  have bs: "block_state fc (be_tag b) = be_state b" if "get_set (theCache fc) (be_tag b) = get_set (theCache fc) t"
    using b(1) that by (simp add: state_of_def state_in_def by_tag_def)
  have gs: "getState ?r (theCache fc) = Inr kInvalid" using l(2) bt by (simp add: getState_def)
  have lr: "lower_request (mm_type (m\<lparr>mm_type := miss_request acc\<rparr>))" by (simp add: miss_request_def lower_request_def)
  obtain m' lw where fw: "forwardMessage nb (m\<lparr>mm_type := miss_request acc\<rparr>) fc =
      Inr (m', fc\<lparr>lower_level := lw, fc_sent := fc_sent fc @ [(RequestOut, m\<lparr>mm_type := miss_request acc\<rparr>)]\<rparr>)"
      "mm_type (m\<lparr>mm_type := miss_request acc\<rparr>) = ReadReq \<longrightarrow> read_reply (mm_type m')"
    by (rule quiet_forward[OF q lr])
  let ?fc = "fc\<lparr>lower_level := lw, fc_sent := fc_sent fc @ [(RequestOut, m\<lparr>mm_type := miss_request acc\<rparr>)]\<rparr>"
  obtain act where act: "getCoherenceAction fc kInvalid acc = Inr act"
    using acc(2) by (cases "theProtocol fc") (auto simp: getCoherenceAction_def)
  have "acc = kReadAccess \<longrightarrow> read_reply (mm_type m')" using fw(2) by (auto simp: miss_request_def)
  from miss_action[OF _ fw(1) this act, of ?r] acc(2) obtain st m'' where
    st: "st \<noteq> kInvalid" "doCoherenceAction nb act ?r m fc = bindE (allocate nb st ?r ?fc) (\<lambda>fc. Inr (m'', fc))" by blast
  have rd: "ready ?fc ?r t" using ok p by (simp add: ready_def fc_ok_def)
  have "block_of ?r (theCache ?fc) = Inr b" using l(2) by simp
  from quiet_allocate[OF q rd this, of st] obtain fc' where
    "allocate nb st ?r ?fc = Inr fc'" "block_state fc' = (\<lambda>x. if x = t then st
       else if x = be_tag b \<and> get_set (theCache ?fc) x = get_set (theCache ?fc) t then kInvalid else block_state ?fc x)"
    "fc_sent fc' = fc_sent ?fc @ (if be_tag b \<noteq> t \<and> be_state b \<noteq> kInvalid then evict_log nb (be_tag b) (be_state b) ?fc else [])"
    by blast
  moreover have "push_RequestIn nb m fc = doCoherenceAction nb act ?r m fc"
    unfolding push_RequestIn_def Let_def acc(1) t(1)[symmetric] l(1)[folded t(1)] bindE_Inr prod.case
    by (simp add: gs act)
  ultimately show ?thesis using st bt bs by auto
qed

section \<open>Snoops in the MESI protocol\<close>

definition snoop_answer :: "MemoryMessageType \<Rightarrow> CoherenceState_t \<Rightarrow> MemoryMessageType \<Rightarrow> MemoryMessageType" where
  "snoop_answer ty s0 up =
     (if ty = Invalidate then
        (if s0 = kModified then InvUpdateAck
         else if s0 = kExclusive then (if up = Invalidate then InvalidateAck else up)
         else if s0 = kShared then InvalidateAck else Invalidate)
      else if ty = Downgrade then
        (if s0 = kModified then DownUpdateAck
         else if s0 = kExclusive then (if up = Downgrade then DowngradeAck else up) else DowngradeAck)
      else (if s0 = kModified then ReturnReplyDirty else if s0 = kInvalid then ReturnNAck else ReturnReply))"

definition snoop_request :: "MemoryMessageType \<Rightarrow> bool" where
  "snoop_request ty \<longleftrightarrow> ty = Invalidate \<or> ty = Downgrade \<or> ty = ReturnReq"

definition mesi_state :: "CoherenceState_t \<Rightarrow> bool" where
  "mesi_state s \<longleftrightarrow> s \<noteq> kOwned \<and> s \<noteq> kMigratory"

lemma continueSnoop_cache: "fst (continueSnoop nb m (fc\<lparr>theCache := c\<rparr>)) = fst (continueSnoop nb m fc)"
  by (simp add: continueSnoop_def Let_def case_prod_unfold send_I_def send_D_def)

lemma SnoopAction_mesi:
  assumes ok: "fc_ok fc" and p: "pending r t (theCache fc)" and pr: "theProtocol fc = InclusiveMESI"
    and s: "block_state fc t = s0" "mesi_state s0" and ty: "snoop_request (mm_type m)"
  shows "\<exists>m' fc'. bindE (getSnoopAction fc s0 (mm_type m)) (\<lambda>act. SnoopAction nb act r m fc) = Inr (m', fc') \<and>
    only_at t fc fc' \<and> mm_type m' = snoop_answer (mm_type m) s0 (mm_type (fst (continueSnoop nb m fc))) \<and>
    block_state fc' t = (if mm_type m = Invalidate \<or> s0 = kInvalid then kInvalid else kShared)"
proof (cases "s0 = kInvalid \<or> s0 = kShared \<and> mm_type m \<noteq> Invalidate")
  case True
  with ty pr s only_at_refl[OF ok, of t] show ?thesis
    by (auto simp: getSnoopAction_def mesi_snoop_def SnoopAction_def Let_def snoop_request_def snoop_answer_def)
next
  case False
  then have v: "block_state fc t \<noteq> kInvalid" using s by simp
  have up: "\<exists>m'' fc'. bindE (on_cache (updateState st mru lru r) (snd (continueSnoop nb m fc))) (\<lambda>fc. Inr (m', fc)) = Inr (m'', fc') \<and>
      only_at t fc fc' \<and> mm_type m'' = mm_type m' \<and> block_state fc' t = st" for st mru lru m'
    using snoop_change[OF ok p v, of "snd (continueSnoop nb m fc)" nb st mru lru m'] by blast
  have here: "\<exists>m'' fc'. bindE (on_cache (updateState st mru lru r) fc) (\<lambda>fc. Inr (m', fc)) = Inr (m'', fc') \<and>
      only_at t fc fc' \<and> mm_type m'' = mm_type m' \<and> block_state fc' t = st" for st mru lru m'
    using snoop_change[OF ok p v, of fc nb st mru lru m'] by blast
  let ?m = "fst (continueSnoop nb m fc)"
  show ?thesis
    using False s(2) ty pr up[of kInvalid _ _ "?m\<lparr>mm_type := InvUpdateAck\<rparr>"] up[of kInvalid _ _ "?m\<lparr>mm_type := InvalidateAck\<rparr>"]
      up[of kInvalid _ _ ?m] up[of kShared _ _ "?m\<lparr>mm_type := DownUpdateAck\<rparr>"] up[of kShared _ _ "?m\<lparr>mm_type := DowngradeAck\<rparr>"]
      up[of kShared _ _ ?m] up[of kShared _ _ "?m\<lparr>mm_type := ReturnReply\<rparr>"] here[of kShared _ _ "m\<lparr>mm_type := ReturnReplyDirty\<rparr>"]
    by (cases s0)
      (auto simp: getSnoopAction_def mesi_snoop_def SnoopAction_def Let_def snoop_request_def snoop_answer_def mesi_state_def case_prod_unfold)
qed

lemma push_SnoopIn_mesi:
  assumes ok: "fc_ok fc" and pr: "theProtocol fc = InclusiveMESI"
    and s: "block_state fc (block_addr fc m) = s0" "mesi_state s0" and ty: "snoop_request (mm_type m)"
  shows "\<exists>m' fc'. push_SnoopIn nb m fc = Inr (m', fc') \<and> only_at (block_addr fc m) fc fc' \<and>
    mm_type m' = snoop_answer (mm_type m) s0 (mm_type (fst (continueSnoop nb m fc))) \<and>
    block_state fc' (block_addr fc m) = (if mm_type m = Invalidate \<or> s0 = kInvalid then kInvalid else kShared)"
proof -
  let ?t = "block_addr fc m"
  from ok obtain r c where l: "cache_lookup ?t (theCache fc) = Inr (r, c)" "snooped fc (fc\<lparr>theCache := c\<rparr>)"
    "state_of c = block_state fc" "pending r ?t c" "getState r c = Inr (block_state fc ?t)" "cache_ok c"
    by (rule fc_lookup)
  let ?fc = "fc\<lparr>theCache := c\<rparr>"
  from SnoopAction_mesi[OF snooped_ok[OF l(2)], of r ?t s0 m nb] l pr s ty obtain m' fc1 where
    f1: "bindE (getSnoopAction ?fc s0 (mm_type m)) (\<lambda>act. SnoopAction nb act r m ?fc) = Inr (m', fc1)" "only_at ?t ?fc fc1"
    "mm_type m' = snoop_answer (mm_type m) s0 (mm_type (fst (continueSnoop nb m fc)))"
    "block_state fc1 ?t = (if mm_type m = Invalidate \<or> s0 = kInvalid then kInvalid else kShared)"
    by (auto simp: continueSnoop_cache)
  have o1: "only_at ?t fc ?fc" using l by (simp add: only_at_def)
  have o2: "only_at ?t fc fc1" by (rule only_at_trans[OF o1 f1(2)])
  then have ok1: "fc_ok fc1" and bm: "block_addr fc1 m = ?t" by (auto simp: only_at_def snooped_def config_def)
  from fc_lookup[OF ok1, of m] obtain r' c' where l': "cache_lookup ?t (theCache fc1) = Inr (r', c')"
    "snooped fc1 (fc1\<lparr>theCache := c'\<rparr>)" "state_of c' = block_state fc1" unfolding bm by metis
  have "only_at ?t fc1 (fc1\<lparr>theCache := c'\<rparr>)" using l' by (simp add: only_at_def)
  then have "only_at ?t fc (fc1\<lparr>theCache := c'\<rparr>)" by (rule only_at_trans[OF o2])
  moreover have "push_SnoopIn nb m fc = Inr (m', fc1\<lparr>theCache := c'\<rparr>)"
    unfolding push_SnoopIn_def Let_def l(1,5) bindE_Inr prod.case s(1) bindE_assoc[symmetric] f1(1) l'(1) ..
  ultimately show ?thesis using f1(3,4) l'(3) by auto
qed

definition dirty_ack :: "MemoryMessageType \<Rightarrow> bool" where
  "dirty_ack ty \<longleftrightarrow> ty = InvUpdateAck \<or> ty = DownUpdateAck \<or> ty = ReturnReplyDirty"

text \<open>In the MESI protocol every invalidation, downgrade and return request is answered; afterwards the
  block is absent, or at most shared, and no other block has changed. An invalidation or downgrade of a
  block that is dirty here, or exclusive here and dirty above, is answered with the dirty data.\<close>

theorem mesi_snoop_correct:
  assumes ok: "fc_ok fc" and pr: "theProtocol fc = InclusiveMESI"
    and s: "mesi_state (block_state fc (block_addr fc m))" and ty: "snoop_request (mm_type m)"
  shows "\<exists>m' fc'. push_SnoopIn nb m fc = Inr (m', fc') \<and> fc_ok fc' \<and>
    (\<forall>x. x \<noteq> block_addr fc m \<longrightarrow> block_state fc' x = block_state fc x) \<and>
    block_state fc' (block_addr fc m) \<in> (if mm_type m = Invalidate then {kInvalid} else {kShared, kInvalid}) \<and>
    (block_state fc (block_addr fc m) = kModified \<or>
     block_state fc (block_addr fc m) = kExclusive \<and> dirty_ack (mm_type (fst (continueSnoop nb m fc))) \<and> mm_type m \<noteq> ReturnReq
       \<longrightarrow> dirty_ack (mm_type m'))"
proof -
  from push_SnoopIn_mesi[OF ok pr refl s ty, of nb] obtain m' fc' where
    p: "push_SnoopIn nb m fc = Inr (m', fc')" "only_at (block_addr fc m) fc fc'"
    "mm_type m' = snoop_answer (mm_type m) (block_state fc (block_addr fc m)) (mm_type (fst (continueSnoop nb m fc)))"
    "block_state fc' (block_addr fc m) = (if mm_type m = Invalidate \<or> block_state fc (block_addr fc m) = kInvalid then kInvalid else kShared)"
    by blast
  moreover have "fc_ok fc'" "\<forall>x. x \<noteq> block_addr fc m \<longrightarrow> block_state fc' x = block_state fc x"
    using p(2) by (auto simp: only_at_def snooped_ok)
  ultimately show ?thesis
    using ty by (auto simp: snoop_answer_def dirty_ack_def snoop_request_def)
qed

text \<open>A return request to a block held exclusively by a MESI cache is passed up, but its answer is
  always a clean reply, even when a cache above answered that its copy was dirty; the block ends shared.\<close>

theorem mesi_return_hides_dirty:
  assumes "fc_ok fc" "theProtocol fc = InclusiveMESI" "block_state fc (block_addr fc m) = kExclusive" "mm_type m = ReturnReq"
    and "mm_type (fst (continueSnoop nb m fc)) = ReturnReplyDirty"
  shows "\<exists>m' fc'. push_SnoopIn nb m fc = Inr (m', fc') \<and> mm_type m' = ReturnReply \<and> block_state fc' (block_addr fc m) = kShared"
  using push_SnoopIn_mesi[OF assms(1,2,3), of nb] assms(4)
  by (auto simp: mesi_state_def snoop_request_def snoop_answer_def)

section \<open>A small cache\<close>

definition demo_cache :: "BlockEntry list \<Rightarrow> StdCache" where
  "demo_cache xs = \<lparr>theNumSets = 2, theAssoc = 2, theBlockSize = 64, blockShift = 6, blockSetMask = 1,
     blockTagMask = NOT 63, theBlocks = [xs, []], theTextFlexpoints = False, theAllocateInProgress = False, theAllocateAddr = 0\<rparr>"

definition demo_fc :: "BlockEntry list \<Rightarrow> (unit, unit) FastCache" where
  "demo_fc xs = \<lparr>theCache = demo_cache xs, theProtocol = InclusiveMESI, UsingTraces = False, DowngradeLRU = False,
     SnoopLRU = False, CleanEvictions = False, theBlockMask = NOT 63,
     theEvictMessage = MemoryMessage_new EvictDirty, theInvalidateMessage = MemoryMessage_new Invalidate,
     upper_caches = (), lower_level = (), fc_sent = []\<rparr>"

definition demo_nb :: "MemoryMessageType \<Rightarrow> (unit, unit) neighbours" where
  "demo_nb ty = \<lparr>to_I = (\<lambda>m u. (m\<lparr>mm_type := ty\<rparr>, u)), to_D = (\<lambda>m u. (m\<lparr>mm_type := ty\<rparr>, u)),
     to_lower = (\<lambda>m l. Reply (m\<lparr>mm_type := MissReplyWritable\<rparr>) l)\<rparr>"

definition demo_msg :: "MemoryMessageType \<Rightarrow> 64 word \<Rightarrow> MemoryMessage" where
  "demo_msg ty a = (MemoryMessage_new ty)\<lparr>mm_address := a\<rparr>"

abbreviation entry :: "64 word \<Rightarrow> CoherenceState_t \<Rightarrow> nat \<Rightarrow> BlockEntry" where
  "entry t st w \<equiv> \<lparr>be_tag = t, be_state = st, be_way = w\<rparr>"

lemma demo_quiet: "quiet (demo_nb ty)"
  by (simp add: quiet_def demo_nb_def read_reply_def)

lemma demo_geometry: "geometry_ok (demo_cache xs)"
proof -
  have "log_base2 2 = 1" using log_base2_power[of 1] by simp
  moreover have "(mask 6 :: 64 word) = 63" "(mask (Suc 0) :: 64 word) = 1" by (simp_all add: mask_eq_exp_minus_1)
  ultimately show ?thesis by (simp add: geometry_ok_def demo_cache_def)
qed

lemma demo_ok:
  assumes "set_ok (demo_cache xs) 0 xs"
  shows "fc_ok (demo_fc xs)"
proof -
  have "set_ok (demo_cache xs) i (theBlocks (demo_cache xs) ! i)" if "i < 2" for i
    using that assms by (cases i) (auto simp: demo_cache_def set_ok_def)
  then show ?thesis using demo_geometry[of xs] by (simp add: fc_ok_def cache_ok_def demo_fc_def demo_cache_def)
qed

lemma demo_set_ok: "st1 \<noteq> kInvalid \<Longrightarrow> set_ok (demo_cache xs) 0 [entry 0 st1 1, entry 128 st2 0]"
  by (auto simp: set_ok_def demo_cache_def get_set_def get_tag_def lessThan_Suc)

definition demo_set :: "CoherenceState_t \<Rightarrow> BlockEntry list" where
  "demo_set st = [entry 0 st 1, entry 128 kShared 0]"

lemma demo_fc_ok: "st \<noteq> kInvalid \<Longrightarrow> fc_ok (demo_fc (demo_set st))"
  unfolding demo_set_def by (rule demo_ok[OF demo_set_ok])

lemma demo_state: "block_state (demo_fc (demo_set st)) 0 = st"
  by (simp add: demo_fc_def demo_cache_def demo_set_def state_of_def state_in_def by_tag_def get_set_def)

lemma demo_fields [simp]:
  "theBlockMask (demo_fc xs) = NOT 63" "theProtocol (demo_fc xs) = InclusiveMESI" "UsingTraces (demo_fc xs) = False"
  "mm_type (demo_msg ty a) = ty" "mm_address (demo_msg ty a) = a"
  by (simp_all add: demo_fc_def demo_msg_def MemoryMessage_new_def)

theorem push_RequestIn_safe_witness:
  "outcome (ends (demo_fc (demo_set kModified)) 0 (granted kStoreAccess kModified))
    (push_RequestIn (demo_nb InvalidateAck) (demo_msg StoreReq 0) (demo_fc (demo_set kModified)))"
  using push_RequestIn_safe[of "demo_fc (demo_set kModified)" "demo_msg StoreReq 0" kStoreAccess "demo_nb InvalidateAck"]
    demo_fc_ok[of kModified] by (simp add: message2access_def demo_state)

theorem push_RequestIn_correct_witness:
  "\<exists>m' fc'. push_RequestIn (demo_nb InvalidateAck) (demo_msg StoreReq 0) (demo_fc (demo_set kShared)) = Inr (m', fc') \<and>
    block_state fc' 0 = kModified"
  using push_RequestIn_correct[of "demo_fc (demo_set kShared)" "demo_msg StoreReq 0" kStoreAccess "demo_nb InvalidateAck"
      "(SendUpgrade, NoAllocate, M_State, UpdateLRU, FillWritable)"] demo_fc_ok[of kShared] demo_quiet
  by (auto simp: message2access_def demo_state getCoherenceAction_def granted_def)

theorem mesi_snoop_correct_witness:
  "\<exists>m' fc'. push_SnoopIn (demo_nb InvalidateAck) (demo_msg Invalidate 0) (demo_fc (demo_set kModified)) = Inr (m', fc') \<and>
    block_state fc' 0 = kInvalid \<and> dirty_ack (mm_type m')"
  using mesi_snoop_correct[of "demo_fc (demo_set kModified)" "demo_msg Invalidate 0" "demo_nb InvalidateAck"] demo_fc_ok[of kModified]
  by (auto simp: demo_state mesi_state_def snoop_request_def)

theorem mesi_return_hides_dirty_witness:
  "\<exists>m' fc'. push_SnoopIn (demo_nb ReturnReplyDirty) (demo_msg ReturnReq 0) (demo_fc (demo_set kExclusive)) = Inr (m', fc') \<and>
    mm_type m' = ReturnReply \<and> block_state fc' 0 = kShared"
proof -
  have "mm_type (fst (continueSnoop (demo_nb ReturnReplyDirty) (demo_msg ReturnReq 0) (demo_fc (demo_set kExclusive)))) = ReturnReplyDirty"
    by (simp add: continueSnoop_def send_I_def send_D_def demo_nb_def Let_def)
  then show ?thesis
    using mesi_return_hides_dirty[of "demo_fc (demo_set kExclusive)" "demo_msg ReturnReq 0" "demo_nb ReturnReplyDirty"] demo_fc_ok[of kExclusive]
    by (simp add: demo_state)
qed

theorem miss_evicts_lru_witness:
  "\<exists>m' fc'. push_RequestIn (demo_nb InvalidateAck) (demo_msg LoadReq 256) (demo_fc (demo_set kModified)) = Inr (m', fc') \<and>
    block_state fc' 0 = kInvalid \<and> (RequestOut, demo_msg EvictDirty 0) \<in> set (fc_sent fc')"
proof -
  let ?fc = "demo_fc (demo_set kModified)" and ?nb = "demo_nb InvalidateAck"
  have a: "block_addr ?fc (demo_msg LoadReq 256) = 256" by simp
  have g: "get_set (theCache ?fc) 256 = 0" by (simp add: demo_fc_def demo_cache_def get_set_def)
  have x: "theBlocks (theCache ?fc) ! 0 = demo_set kModified" "theAssoc (theCache ?fc) = 2"
    by (simp_all add: demo_fc_def demo_cache_def)
  have e: "(RequestOut, demo_msg EvictDirty 0) \<in> set (evict_log ?nb 0 kModified ?fc)"
    by (simp add: evict_log_def evict_type_def demo_fc_def demo_msg_def MemoryMessage_new_def)
  show ?thesis
    using miss_evicts_lru[of ?fc ?nb "demo_msg LoadReq 256" kReadAccess 256 "entry 0 kModified 1" "[entry 128 kShared 0]"]
      demo_fc_ok[of kModified] demo_quiet e unfolding a g x by (auto simp: message2access_def demo_set_def)
qed

end
