(* ===== verification/FastCacheLRU.thy ===== *)
theory FastCacheLRU
  imports FastCache
begin

text \<open>
  The replacement order of the functional cache against a reference definition: after any sequence of
  loads, a set holds exactly the most recent distinct blocks that map to it, in the order of their last
  use. The theory also has the initialisation of the component.
\<close>

section \<open>Loads\<close>

definition load :: "64 word \<Rightarrow> MemoryMessage" where
  "load a = (MemoryMessage_new LoadReq)\<lparr>mm_address := a\<rparr>"

definition run_loads :: "('u, 'l) neighbours \<Rightarrow> 64 word list \<Rightarrow> ('u, 'l) FastCache \<Rightarrow> ('u, 'l) FastCache res" where
  "run_loads nb as fc = foldE (\<lambda>a fc. bindE (push_RequestIn nb (load a) fc) (\<lambda>p. Inr (snd p))) as fc"

lemma load_fields [simp]: "mm_type (load a) = LoadReq" "mm_address (load a) = a"
  by (simp_all add: load_def MemoryMessage_new_def)

text \<open>A lower level that never leaves the reader the owner of a dirty shared block.\<close>

definition plain_lower :: "('u, 'l) neighbours \<Rightarrow> bool" where
  "plain_lower nb \<longleftrightarrow> (\<forall>m l. lower_request (mm_type m) \<longrightarrow> (\<exists>m' l'. to_lower nb m l = Reply m' l' \<and>
     (mm_type m = ReadReq \<longrightarrow> mm_type m' = MissReply \<or> mm_type m' = MissReplyWritable \<or> mm_type m' = MissReplyDirty)))"

lemma plain_quiet: "plain_lower nb \<Longrightarrow> quiet nb"
  unfolding plain_lower_def quiet_def read_reply_def by metis

definition all_valid :: "StdCache \<Rightarrow> bool" where
  "all_valid c \<longleftrightarrow> (\<forall>xs \<in> set (theBlocks c). \<forall>b \<in> set xs. be_state b = kModified \<or> be_state b = kExclusive \<or> be_state b = kShared)"

lemma tags_relocate:
  assumes "distinct (map be_way ys)" "distinct (map be_tag ys)" "b \<in> set ys" "be_way b = w"
  shows "map be_tag (relocate_end w ys) = removeAll (be_tag b) (map be_tag ys) @ [be_tag b]"
proof -
  have w: "be_way x = w \<longleftrightarrow> x = b" if "x \<in> set ys" for x
    using other_blocks[OF assms(1,3,4) that] .
  have t: "be_way x = w \<longleftrightarrow> be_tag x = be_tag b" if "x \<in> set ys" for x
    using w[OF that] assms(2,3) that by (auto simp: distinct_map inj_on_def)
  have 1: "filter (\<lambda>x. be_way x \<noteq> w) ys = filter (\<lambda>x. be_tag b \<noteq> be_tag x) ys" by (rule filter_cong) (use t in auto)
  have "distinct zs \<Longrightarrow> b \<in> set zs \<Longrightarrow> filter (\<lambda>x. x = b) zs = [b]" for zs
    by (induction zs) (auto simp: filter_empty_conv)
  moreover have "filter (\<lambda>x. be_way x = w) ys = filter (\<lambda>x. x = b) ys" by (rule filter_cong) (use w in auto)
  moreover have "distinct ys" using assms(1) by (simp add: distinct_map)
  ultimately have 2: "filter (\<lambda>x. be_way x = w) ys = [b]" using assms(3) by simp
  show ?thesis unfolding relocate_end_def 1 2 by (simp add: removeAll_filter_not_eq filter_map comp_def)
qed

lemma quiet_allocate_blocks:
  assumes q: "quiet nb" and rd: "ready fc r t" and b: "block_of r (theCache fc) = Inr b"
    and f: "f = (if be_tag b \<noteq> t then ReplaceBlock t st else ChangeBlockState st)"
  shows "\<exists>fc'. allocate nb st r fc = Inr fc' \<and> fc_ok fc' \<and> config fc' = config fc \<and> geometry (theCache fc') = geometry (theCache fc) \<and>
    theBlocks (theCache fc') = (theBlocks (theCache fc))[lr_set r :=
      relocate_end (lr_block r) (modify_block (lr_block r) f (theBlocks (theCache fc) ! lr_set r))]"
proof -
  have p: "pending r t (theCache fc)" using rd by (simp add: ready_def)
  from quiet_evict[OF q, of "be_tag b" "be_state b" "marked t fc"]
  obtain fc1 where e: "evict_victim nb t b fc = Inr fc1" "theCache fc1 = theCache (marked t fc)"
    by (cases "be_tag b \<noteq> t \<and> be_state b \<noteq> kInvalid") (auto simp: evict_victim_def)
  from quiet_allocate[OF q rd b, of st] obtain fc' where a: "allocate nb st r fc = Inr fc'" "fc_ok fc'" "config fc' = config fc" by blast
  have "lr_set r < length (theBlocks (theCache fc))"
    using b by (auto simp: block_of_def bindE_Inr_iff vec_at_Inr_iff)
  with a(1) e(2) have "theBlocks (theCache fc') = (theBlocks (theCache fc))[lr_set r :=
      relocate_end (lr_block r) (modify_block (lr_block r) f (theBlocks (theCache fc) ! lr_set r))]"
    "geometry (theCache fc') = geometry (theCache fc)"
    unfolding allocate_split[OF p b] e(1)
    by (auto simp: f on_cache_def bindE_Inr_iff replace_block_def change_block_def modify_tag_def update_lru_def
        set_blocks_def marked_def geometry_def split: if_splits)
  with a show ?thesis by blast
qed

lemma miss_lookup:
  assumes ok: "cache_ok c" and t: "t = get_tag c a" and xs: "xs = theBlocks c ! get_set c t" and n: "t \<notin> be_tag ` set xs"
  shows "\<exists>r c1 b zs. cache_lookup a c = Inr (r, c1) \<and> cache_ok c1 \<and> pending r t c1 \<and> block_of r c1 = Inr b \<and>
    lr_set r = get_set c t \<and> lr_block r = be_way b \<and> getState r c1 = Inr kInvalid \<and> geometry c1 = geometry c \<and>
    theBlocks c1 = (theBlocks c)[get_set c t := b # zs] \<and>
    (b # zs = xs \<and> length xs = theAssoc c \<and> be_tag b \<noteq> t \<or> be_tag b = t \<and> zs = xs \<and> length xs < theAssoc c)"
proof -
  have so: "set_ok c (get_set c t) xs" using cache_ok_set[OF ok, of t] xs by simp
  have g: "geometry_ok c" using ok by (simp add: cache_ok_def)
  have i: "get_set c a = get_set c t" "get_tag c t = t" "get_set c t < length (theBlocks c)"
    using g by (simp_all add: t get_set_get_tag geometry_get_set)
  from cache_lookup_ok[OF ok t] obtain r c1 where l: "cache_lookup a c = Inr (r, c1)" "cache_ok c1" "pending r t c1"
    "getState r c1 = Inr (state_of c t)" "stays c c1" by blast
  have inv: "state_of c t = kInvalid" using n xs by (simp add: state_of_def state_in_absent)
  have none: "by_tag t xs = None" using n by (simp add: by_tag_None_iff)
  have geo: "geometry c1 = geometry c" using l(5) by (simp add: stays_def)
  show ?thesis
  proof (cases "length xs < theAssoc c")
    case True
    let ?w = "length xs mod 2 ^ 16"
    let ?b = "\<lparr>be_tag = t, be_state = kInvalid, be_way = ?w\<rparr>"
    have "push_front ?b xs = ?b # xs" using push_front_new(1)[OF so True _ n refl] g by (simp add: geometry_ok_def)
    then have e: "r = \<lparr>lr_address = t, lr_state = kInvalid, lr_set = get_set c t, lr_block = ?w\<rparr>"
      "theBlocks c1 = (theBlocks c)[get_set c t := ?b # xs]"
      using l(1) none True i xs by (auto simp: cache_lookup_def t[symmetric] Let_def theBlocks_set_blocks)
    moreover have "block_of r c1 = Inr ?b" using i(3) by (simp add: e block_of_def by_way_def)
    ultimately show ?thesis using l inv geo True by (intro exI[of _ r] exI[of _ c1] exI[of _ ?b] exI[of _ xs]) auto
  next
    case False
    then have len: "length xs = theAssoc c" using so by (simp add: set_ok_def)
    then obtain b bs where b: "xs = b # bs" using g by (cases xs) (auto simp: geometry_ok_def)
    note lf = lookup_full[OF ok t n[unfolded xs] b[unfolded xs] len[unfolded b]]
    have e: "r = \<lparr>lr_address = t, lr_state = kInvalid, lr_set = get_set c t, lr_block = be_way b\<rparr>" "c1 = c"
      using lf(1) l(1) by auto
    moreover have "be_tag b \<noteq> t" using n b by auto
    moreover have "theBlocks c = (theBlocks c)[get_set c t := b # bs]" using b xs by (metis list_update_id)
    ultimately show ?thesis
      using l inv geo lf(2) len b by (intro exI[of _ r] exI[of _ c1] exI[of _ b] exI[of _ bs]) auto
  qed
qed

lemma placed_tags:
  assumes "distinct (map be_way (b # zs))" "t \<notin> be_tag ` set zs" "distinct (map be_tag zs)"
    and "f = (if be_tag b \<noteq> t then ReplaceBlock t st else ChangeBlockState st)"
  shows "map be_tag (relocate_end (be_way b) (modify_block (be_way b) f (b # zs))) = map be_tag zs @ [t]"
    and "set (relocate_end (be_way b) (modify_block (be_way b) f (b # zs))) = insert (f b) (set zs)"
proof -
  have f: "be_tag (f b) = t" "\<And>x. be_way (f x) = be_way x" using assms(4) by auto
  have "modify_block (be_way b) f zs = zs" using assms(1) by (auto simp: modify_block_def image_iff intro!: map_idI)
  then have m: "modify_block (be_way b) f (b # zs) = f b # zs" by (simp add: modify_block_def)
  have "map be_tag (relocate_end (be_way b) (f b # zs)) = removeAll (be_tag (f b)) (map be_tag (f b # zs)) @ [be_tag (f b)]"
    by (rule tags_relocate) (use assms f in auto)
  then show "map be_tag (relocate_end (be_way b) (modify_block (be_way b) f (b # zs))) = map be_tag zs @ [t]"
    using assms(2) f(1) by (simp add: m)
  show "set (relocate_end (be_way b) (modify_block (be_way b) f (b # zs))) = insert (f b) (set zs)"
    by (simp add: m)
qed

definition load_done :: "('u, 'l) FastCache \<Rightarrow> 64 word \<Rightarrow> ('u, 'l) FastCache \<Rightarrow> bool" where
  "load_done fc t fc' \<longleftrightarrow> fc_ok fc' \<and> config fc' = config fc \<and> geometry (theCache fc') = geometry (theCache fc) \<and>
     all_valid (theCache fc') \<and> (\<exists>ys. theBlocks (theCache fc') = (theBlocks (theCache fc))[get_set (theCache fc) t := ys] \<and>
       map be_tag ys = use_block (theAssoc (theCache fc)) t (map be_tag (theBlocks (theCache fc) ! get_set (theCache fc) t)))"

lemma all_valid_update:
  assumes "all_valid c" "theBlocks c' = (theBlocks c)[i := ys]"
    and "\<And>b. b \<in> set ys \<Longrightarrow> be_state b = kModified \<or> be_state b = kExclusive \<or> be_state b = kShared"
  shows "all_valid c'"
  using assms set_update_subset_insert[of "theBlocks c" i ys] unfolding all_valid_def by fastforce

lemma load_hit:
  assumes ok: "fc_ok fc" and pr: "theProtocol fc = InclusiveMESI" and av: "all_valid (theCache fc)"
    and t: "t = block_addr fc (load a)" and b: "b \<in> set (theBlocks (theCache fc) ! get_set (theCache fc) t)" "be_tag b = t"
  shows "\<exists>m' fc'. push_RequestIn nb (load a) fc = Inr (m', fc') \<and> load_done fc t fc'"
proof -
  let ?c = "theCache fc"
  let ?xs = "theBlocks ?c ! get_set ?c t"
  have c0: "cache_ok ?c" using ok by (simp add: fc_ok_def)
  have tt: "get_tag ?c t = t" unfolding t by (rule fc_ok_tag_idem[OF ok])
  have so: "set_ok ?c (get_set ?c t) ?xs" by (rule cache_ok_set[OF c0])
  have i: "get_set ?c t < length (theBlocks ?c)" using c0 by (simp add: cache_ok_def geometry_get_set)
  have d: "distinct (map be_tag ?xs)" "distinct (map be_way ?xs)" using so by (auto simp: set_ok_def ways_distinct)
  let ?r = "\<lparr>lr_address = t, lr_state = be_state b, lr_set = get_set ?c t, lr_block = be_way b\<rparr>"
  have "by_tag t ?xs = Some b" "by_way (be_way b) ?xs = Some b" using d b by (simp_all add: by_tag_Some_iff by_way_Some_iff)
  then have l: "cache_lookup t ?c = Inr (?r, ?c)" "block_of ?r ?c = Inr b"
    using i tt by (simp_all add: cache_lookup_def block_of_def)
  have st: "be_state b = kModified \<or> be_state b = kExclusive \<or> be_state b = kShared"
    using av b i by (auto simp: all_valid_def)
  let ?ys = "relocate_end (be_way b) ?xs"
  let ?fc = "fc\<lparr>theCache := set_blocks (get_set ?c t) ?ys ?c\<rparr>"
  have "\<exists>m'. push_RequestIn nb (load a) fc = Inr (m', ?fc)"
    unfolding push_RequestIn_def Let_def t[symmetric]
    using st l pr b
    by (elim disjE) (simp_all add: message2access_def getState_def getCoherenceAction_def doCoherenceAction_def on_cache_def update_lru_def)
  moreover have "fc_ok ?fc"
    using snooped_cache[OF ok] relocated_ok(1,3)[OF c0, of ?ys t] snooped_ok by fastforce
  moreover have "all_valid (theCache ?fc)"
    by (rule all_valid_update[OF av, where i = "get_set ?c t" and ys = ?ys])
      (use av i in \<open>auto simp: theBlocks_set_blocks all_valid_def\<close>)
  moreover have "map be_tag ?ys = use_block (theAssoc ?c) t (map be_tag ?xs)"
    using tags_relocate[OF d(2,1) b(1) refl] b by (auto simp: use_block_def)
  ultimately show ?thesis by (auto simp: load_done_def theBlocks_set_blocks)
qed

lemma load_miss:
  assumes ok: "fc_ok fc" and pr: "theProtocol fc = InclusiveMESI" and av: "all_valid (theCache fc)" and pl: "plain_lower nb"
    and t: "t = block_addr fc (load a)" and n: "t \<notin> be_tag ` set (theBlocks (theCache fc) ! get_set (theCache fc) t)"
  shows "\<exists>m' fc'. push_RequestIn nb (load a) fc = Inr (m', fc') \<and> load_done fc t fc'"
proof -
  let ?c = "theCache fc"
  let ?xs = "theBlocks ?c ! get_set ?c t"
  have c0: "cache_ok ?c" using ok by (simp add: fc_ok_def)
  have tt: "t = get_tag ?c t" unfolding t by (rule fc_ok_tag_idem[OF ok, symmetric])
  have i: "get_set ?c t < length (theBlocks ?c)" using c0 by (simp add: cache_ok_def geometry_get_set)
  from miss_lookup[OF c0 tt refl n] obtain r c1 b zs where l: "cache_lookup t ?c = Inr (r, c1)" "cache_ok c1" "pending r t c1"
    "block_of r c1 = Inr b" "lr_set r = get_set ?c t" "lr_block r = be_way b" "getState r c1 = Inr kInvalid" "geometry c1 = geometry ?c"
    "theBlocks c1 = (theBlocks ?c)[get_set ?c t := b # zs]"
    "b # zs = ?xs \<and> length ?xs = theAssoc ?c \<and> be_tag b \<noteq> t \<or> be_tag b = t \<and> zs = ?xs \<and> length ?xs < theAssoc ?c" by blast
  obtain m' lw where fw: "to_lower nb ((load a)\<lparr>mm_type := ReadReq\<rparr>) (lower_level fc) = Reply m' lw"
    "mm_type m' = MissReply \<or> mm_type m' = MissReplyWritable \<or> mm_type m' = MissReplyDirty"
    using pl[unfolded plain_lower_def, THEN spec, THEN spec, of "(load a)\<lparr>mm_type := ReadReq\<rparr>" "lower_level fc"]
    by (auto simp: lower_request_def)
  define fc1 where "fc1 = fc\<lparr>theCache := c1, fc_sent := fc_sent fc @ [(RequestOut, (load a)\<lparr>mm_type := ReadReq\<rparr>)], lower_level := lw\<rparr>"
  define st where "st = (if mm_type m' = MissReply then kShared else if mm_type m' = MissReplyWritable then kExclusive else kModified)"
  have f1: "theCache fc1 = c1" "config fc1 = config fc" by (simp_all add: fc1_def config_def)
  have push: "push_RequestIn nb (load a) fc = bindE (allocate nb st r fc1) (\<lambda>fc. Inr (m', fc))"
    unfolding push_RequestIn_def Let_def t[symmetric]
    using l fw pr by (auto simp: message2access_def getCoherenceAction_def doCoherenceAction_def forwardMessage_def fc1_def st_def)
  have rd: "ready fc1 r t"
    using ok l(2,3,8) by (simp add: ready_def fc_ok_def geometry_def fc1_def)
  define f where "f = (if be_tag b \<noteq> t then ReplaceBlock t st else ChangeBlockState st)"
  let ?ys = "relocate_end (be_way b) (modify_block (be_way b) f (b # zs))"
  from quiet_allocate_blocks[OF plain_quiet[OF pl] rd _ f_def] l f1 i obtain fc' where
    a: "allocate nb st r fc1 = Inr fc'" "fc_ok fc'" "config fc' = config fc" "geometry (theCache fc') = geometry ?c"
    "theBlocks (theCache fc') = (theBlocks ?c)[get_set ?c t := ?ys]" by auto
  have "set_ok c1 (get_set ?c t) (b # zs)"
    using l(2,9) i by (auto simp: cache_ok_def)
  then have w: "be_way ` set (b # zs) = {..<length (b # zs)}" "distinct (map be_tag (b # zs))" by (simp_all only: set_ok_def)
  note d = ways_distinct[OF w(1)] w(2)
  have nz: "t \<notin> be_tag ` set zs" using n l(10) by (metis image_insert insertCI list.simps(15))
  note pt = placed_tags[OF d(1) nz _ f_def]
  have "tl (map be_tag ?xs) = map be_tag zs" if "b # zs = ?xs" by (metis that list.sel(3) list.simps(9))
  then have "use_block (theAssoc ?c) t (map be_tag ?xs) = map be_tag zs @ [t]"
    using n l(10) by (auto simp: use_block_def)
  then have "map be_tag ?ys = use_block (theAssoc ?c) t (map be_tag ?xs)" using pt(1) d(2) by simp
  moreover have "be_state x = kModified \<or> be_state x = kExclusive \<or> be_state x = kShared" if "x \<in> set ?ys" for x
  proof -
    have "set zs \<subseteq> set ?xs" using l(10) by (metis list.set_intros(2) subsetI)
    then have "x = f b \<or> x \<in> set ?xs" using that pt(2) d(2) by auto
    moreover have "?xs \<in> set (theBlocks ?c)" using i by simp
    moreover have "be_state (f b) = st" by (simp add: f_def)
    ultimately show ?thesis using av unfolding all_valid_def st_def by metis
  qed
  ultimately show ?thesis
    using push a all_valid_update[OF av a(5)] by (auto simp: load_done_def)
qed

lemma load_step:
  assumes "fc_ok fc" "theProtocol fc = InclusiveMESI" "all_valid (theCache fc)" "plain_lower nb"
  shows "\<exists>m' fc'. push_RequestIn nb (load a) fc = Inr (m', fc') \<and> load_done fc (block_addr fc (load a)) fc'"
proof (cases "block_addr fc (load a) \<in> be_tag ` set (theBlocks (theCache fc) ! get_set (theCache fc) (block_addr fc (load a)))")
  case True
  then obtain b where "b \<in> set (theBlocks (theCache fc) ! get_set (theCache fc) (block_addr fc (load a)))"
    "be_tag b = block_addr fc (load a)" by auto
  then show ?thesis by (rule load_hit[OF assms(1-3) refl])
next
  case False
  then show ?thesis by (rule load_miss[OF assms refl])
qed

section \<open>The reference order\<close>

definition history :: "StdCache \<Rightarrow> nat \<Rightarrow> 64 word list \<Rightarrow> 64 word list" where
  "history c i as = remdups (filter (\<lambda>t. get_set c t = i) (map (get_tag c) as))"

lemma history_snoc:
  "history c i (as @ [a]) =
     (if get_set c (get_tag c a) = i then removeAll (get_tag c a) (history c i as) @ [get_tag c a] else history c i as)"
  by (simp add: history_def remdups_snoc)

lemma distinct_history: "distinct (history c i as)"
  by (simp add: history_def)

text \<open>C11: Starting from an empty MESI cache, after any sequence of loads, over a lower level that answers
  reads without snooping back, every set holds exactly the most recently used distinct blocks that map to it, as
  many as its associativity allows, least recently used first.\<close>

theorem loads_lru:
  assumes ok: "fc_ok fc" and pr: "theProtocol fc = InclusiveMESI" and pl: "plain_lower nb"
    and empty: "\<forall>i < length (theBlocks (theCache fc)). theBlocks (theCache fc) ! i = []"
  shows "\<exists>fc'. run_loads nb as fc = Inr fc' \<and> fc_ok fc' \<and>
    (\<forall>i < length (theBlocks (theCache fc)).
       map be_tag (theBlocks (theCache fc') ! i) = recent (theAssoc (theCache fc)) (history (theCache fc) i as))"
proof -
  let ?c = "theCache fc" and ?n = "theAssoc (theCache fc)"
  have "\<exists>fc'. run_loads nb as fc = Inr fc' \<and> fc_ok fc' \<and> config fc' = config fc \<and> geometry (theCache fc') = geometry ?c \<and>
    all_valid (theCache fc') \<and> length (theBlocks (theCache fc')) = length (theBlocks ?c) \<and>
    (\<forall>i < length (theBlocks ?c). map be_tag (theBlocks (theCache fc') ! i) = recent ?n (history ?c i as))"
  proof (induction as rule: rev_induct)
    case Nil
    show ?case using ok empty by (auto simp: run_loads_def all_valid_def history_def recent_def in_set_conv_nth)
  next
    case (snoc a as)
    then obtain fc1 where f1: "run_loads nb as fc = Inr fc1" "fc_ok fc1" "config fc1 = config fc" "geometry (theCache fc1) = geometry ?c"
      "all_valid (theCache fc1)" "length (theBlocks (theCache fc1)) = length (theBlocks ?c)"
      "\<And>i. i < length (theBlocks ?c) \<Longrightarrow> map be_tag (theBlocks (theCache fc1) ! i) = recent ?n (history ?c i as)" by blast
    have g: "get_tag (theCache fc1) = get_tag ?c" "get_set (theCache fc1) = get_set ?c" "theAssoc (theCache fc1) = ?n"
      using geometryD[OF f1(4)] by auto
    have t: "block_addr fc1 (load a) = get_tag ?c a" using fc_ok_tag[OF f1(2), of "load a"] g by simp
    have "theProtocol fc1 = InclusiveMESI" using f1(3) pr by (simp add: config_def)
    from load_step[OF f1(2) this f1(5) pl, of a] obtain m' fc' ys where
      p: "push_RequestIn nb (load a) fc1 = Inr (m', fc')" "fc_ok fc'" "config fc' = config fc1"
      "geometry (theCache fc') = geometry (theCache fc1)" "all_valid (theCache fc')"
      "theBlocks (theCache fc') = (theBlocks (theCache fc1))[get_set ?c (get_tag ?c a) := ys]"
      "map be_tag ys = use_block ?n (get_tag ?c a) (map be_tag (theBlocks (theCache fc1) ! get_set ?c (get_tag ?c a)))"
      unfolding load_done_def t g by blast
    have n: "0 < ?n" and gs: "get_set ?c (get_tag ?c a) < length (theBlocks ?c)"
      using ok geometry_get_set[of ?c] by (simp_all add: fc_ok_def cache_ok_def) (simp add: geometry_ok_def)
    have "run_loads nb (as @ [a]) fc = Inr fc'"
      using f1(1) p(1) by (simp add: run_loads_def foldE_append)
    moreover have "map be_tag (theBlocks (theCache fc') ! i) = recent ?n (history ?c i (as @ [a]))" if "i < length (theBlocks ?c)" for i
      using that f1(6,7) p(6,7) gs use_block_recent[OF distinct_history n]
      by (auto simp: history_snoc nth_list_update)
    ultimately show ?case using p f1 by auto
  qed
  then show ?thesis by blast
qed

theorem loads_lru_witness:
  "\<exists>fc'. run_loads (demo_nb InvalidateAck) [0, 128, 0, 256] (demo_fc []) = Inr fc' \<and>
    map be_tag (theBlocks (theCache fc') ! 0) = [0, 256]"
proof -
  let ?fc = "demo_fc []"
  have h: "fc_ok ?fc" by (rule demo_ok) (simp add: set_ok_def)
  have p: "plain_lower (demo_nb InvalidateAck)" by (simp add: plain_lower_def demo_nb_def)
  have e: "\<forall>i < length (theBlocks (theCache ?fc)). theBlocks (theCache ?fc) ! i = []"
    by (simp add: demo_fc_def demo_cache_def All_less_Suc numeral_2_eq_2)
  have "recent (theAssoc (theCache ?fc)) (history (theCache ?fc) 0 [0, 128, 0, 256]) = [0, 256]" "0 < length (theBlocks (theCache ?fc))"
    by (simp_all add: history_def recent_def get_set_def get_tag_def demo_fc_def demo_cache_def)
  with loads_lru[OF h _ p e, of "[0, 128, 0, 256]"] show ?thesis by auto
qed

section \<open>Initialisation\<close>

text \<open>A configuration whose sizes are powers of two and consistent yields an empty cache that satisfies
  the invariant, with the configured protocol and number of sets.\<close>

theorem FastCache_initialize_correct:
  assumes size: "cfg_BlockSize cfg = 2 ^ j" "2 \<le> j" "0 < cfg_Associativity cfg" "cfg_Associativity cfg \<le> 2 ^ 16"
      "cfg_Size cfg = 2 ^ j * 2 ^ k * cfg_Associativity cfg" "cfg_Size cfg < 2 ^ 31"
    and proto: "GenerateCoherenceProtocol (cfg_Protocol cfg) = Inr p"
  shows "\<exists>fc. FastCache_initialize cfg index u l = Inr fc \<and> fc_ok fc \<and> theProtocol fc = p \<and>
    theNumSets (theCache fc) = 2 ^ k \<and> (\<forall>i < theNumSets (theCache fc). theBlocks (theCache fc) ! i = [])"
proof -
  let ?a = "cfg_Associativity cfg"
  have sz: "0 < (2 :: int) ^ j" "0 < (2 :: int) ^ k" by simp_all
  have "2 ^ j * 2 ^ k * ?a sdiv 2 ^ j = 2 ^ k * ?a" "2 ^ k * ?a sdiv ?a = 2 ^ k"
    using size(3) sz by (simp_all add: signed_divide_int_def sgn_if)
  then have q: "c_div (cfg_Size cfg) (cfg_BlockSize cfg) = Inr (2 ^ k * ?a)" "c_div (2 ^ k * ?a) ?a = Inr (2 ^ k)"
    using size by (simp_all add: c_div_def)
  have "2 ^ j * 1 * 1 \<le> cfg_Size cfg" "1 * 2 ^ k * 1 \<le> cfg_Size cfg"
    unfolding size(5) by (intro mult_mono; use size(3) in simp)+
  then have b: "(2 :: int) ^ j < 2 ^ 31" "(2 :: int) ^ k < 2 ^ 31" using size(6) by auto
  have "(2 :: int) ^ 2 \<le> 2 ^ j" by (rule power_increasing) (use size(2) in auto)
  then have four: "4 \<le> cfg_BlockSize cfg" using size(1) by simp
  obtain c where c: "StdCache_new (2 ^ j) (2 ^ k) ?a (cfg_TextFlexpoints cfg) = Inr c"
    using size(3) by (auto simp: StdCache_new_def power_and_pred)
  note f = StdCache_new_fields[OF c b size(4)]
  have "cache_ok c" using f by (auto simp: cache_ok_def set_ok_def)
  moreover have "blockTagMask c = of_int (NOT (2 ^ j - 1))"
    using c by (auto simp: StdCache_new_def bindE_Inr_iff)
  ultimately show ?thesis
    using proto four q c f size by (auto simp: FastCache_initialize_def power_and_pred fc_ok_def)
qed

definition demo_cfg :: FastCacheConfiguration where
  "demo_cfg = \<lparr>cfg_Size = 65536, cfg_Associativity = 2, cfg_BlockSize = 64, cfg_CleanEvictions = False,
     cfg_Protocol = ''InclusiveMESI'', cfg_UsingTraces = True, cfg_TextFlexpoints = False, cfg_DowngradeLRU = False,
     cfg_SnoopLRU = False\<rparr>"

theorem FastCache_initialize_correct_witness:
  "\<exists>fc. FastCache_initialize demo_cfg 0 () () = Inr fc \<and> fc_ok fc \<and> theNumSets (theCache fc) = 512"
  using FastCache_initialize_correct[of demo_cfg 6 9 InclusiveMESI 0 "()" "()"]
  by (auto simp: demo_cfg_def GenerateCoherenceProtocol_def)

end
