(* ===== verification/FastMemoryLoopback.thy ===== *)
theory FastMemoryLoopback
  imports FastCacheLRU
begin

text \<open>
  The memory of the trace simulator (\<^verbatim>\<open>FastMemoryLoopback/FastMemoryLoopbackImpl.cpp\<close>): it answers a request by
  rewriting the message in place, counts, and turns an access of a device into a snoop of the cache above.
  Below a functional cache it is one instance of the level that cache relies on.
\<close>

record MemStats =
  theReadRequests_stat :: nat
  theWriteRequests_stat :: nat
  theEvictDirtys_stat :: nat
  theEvictCleans_stat :: nat
  theEvictWritables_stat :: nat
  theNonAllocatingStoreReq_stat :: nat
  theUpgradeRequest_stat :: nat
  theWriteDMA_stat :: nat
  theReadDMA_stat :: nat

definition MemStats_new :: MemStats where
  "MemStats_new = \<lparr>theReadRequests_stat = 0, theWriteRequests_stat = 0, theEvictDirtys_stat = 0, theEvictCleans_stat = 0,
     theEvictWritables_stat = 0, theNonAllocatingStoreReq_stat = 0, theUpgradeRequest_stat = 0, theWriteDMA_stat = 0,
     theReadDMA_stat = 0\<rparr>"

definition push_FromCache :: "MemoryMessage \<Rightarrow> MemStats \<Rightarrow> (MemoryMessage \<times> MemStats) res" where
  "push_FromCache message s =
     (let type = mm_type message in
      if type = LoadReq \<or> type = FetchReq then
        Inr (message\<lparr>mm_type := MissReply, mm_fillLevel := eLocalMem\<rparr>, s\<lparr>theReadRequests_stat := theReadRequests_stat s + 1\<rparr>)
      else if type = ReadReq \<or> type = PrefetchReadNoAllocReq \<or> type = PrefetchReadAllocReq then
        Inr (message\<lparr>mm_type := MissReply, mm_fillLevel := eLocalMem\<rparr>, s\<lparr>theReadRequests_stat := theReadRequests_stat s + 1\<rparr>)
      else if type = StoreReq \<or> type = StorePrefetchReq \<or> type = RMWReq \<or> type = CmpxReq \<or> type = WriteReq \<or> type = WriteAllocate then
        Inr (message, s\<lparr>theWriteRequests_stat := theWriteRequests_stat s + 1\<rparr>)
      else if type = UpgradeReq \<or> type = UpgradeAllocate then
        Inr (message\<lparr>mm_type := MissReplyWritable, mm_fillLevel := eLocalMem\<rparr>, s\<lparr>theUpgradeRequest_stat := theUpgradeRequest_stat s + 1\<rparr>)
      else if type = EvictDirty then Inr (message, s\<lparr>theEvictDirtys_stat := theEvictDirtys_stat s + 1\<rparr>)
      else if type = EvictWritable then Inr (message, s\<lparr>theEvictWritables_stat := theEvictWritables_stat s + 1\<rparr>)
      else if type = EvictClean then Inr (message, s\<lparr>theEvictCleans_stat := theEvictCleans_stat s + 1\<rparr>)
      else if type = NonAllocatingStoreReq then
        Inr (message\<lparr>mm_type := NonAllocatingStoreReply, mm_fillLevel := eLocalMem\<rparr>,
             s\<lparr>theNonAllocatingStoreReq_stat := theNonAllocatingStoreReq_stat s + 1\<rparr>)
      else Inl AssertionFailed)"

text \<open>An access of a device. The port \<open>ToCache\<close> is a call into the cache above, which may change the message.\<close>

definition push_DMA ::
  "(MemoryMessage \<Rightarrow> 'c \<Rightarrow> (MemoryMessage \<times> 'c) res) \<Rightarrow> MemoryMessage \<Rightarrow> MemStats \<Rightarrow> 'c \<Rightarrow> (MemoryMessage \<times> MemStats \<times> 'c) res" where
  "push_DMA ToCache message s c =
     (if mm_type message = WriteReq then
        (let s = s\<lparr>theWriteDMA_stat := theWriteDMA_stat s + 1\<rparr> in
         bindE (ToCache (message\<lparr>mm_type := Invalidate\<rparr>) c) (\<lambda>(message, c). Inr (message, s, c)))
      else
        (let s = s\<lparr>theReadDMA_stat := theReadDMA_stat s + 1\<rparr> in
         bindE (dbg_assert (mm_type message = ReadReq)) (\<lambda>_.
         bindE (ToCache (message\<lparr>mm_type := Downgrade\<rparr>) c) (\<lambda>(message, c). Inr (message, s, c)))))"

section \<open>Memory below a functional cache\<close>

text \<open>The cache sends its requests to \<open>FromCache\<close>, and \<open>ToCache\<close> is its snoop port.\<close>

definition memory_lower :: "MemoryMessage \<Rightarrow> MemStats \<Rightarrow> MemStats lower_call" where
  "memory_lower m s = (case push_FromCache m s of Inl _ \<Rightarrow> Stop | Inr (m', s') \<Rightarrow> Reply m' s')"

definition over_memory :: "('u, MemStats) neighbours \<Rightarrow> ('u, MemStats) neighbours" where
  "over_memory nb = nb\<lparr>to_lower := memory_lower\<rparr>"

definition dma_access :: "('u, MemStats) neighbours \<Rightarrow> MemoryMessage \<Rightarrow> ('u, MemStats) FastCache \<Rightarrow> (MemoryMessage \<times> ('u, MemStats) FastCache) res" where
  "dma_access nb m fc = bindE (push_DMA (push_SnoopIn (over_memory nb)) m (lower_level fc) fc) (\<lambda>(m, s, fc). Inr (m, fc\<lparr>lower_level := s\<rparr>))"

lemma memory_forward:
  fixes m :: MemoryMessage
  assumes "lower_request (mm_type m)"
  shows "\<exists>m' l. forwardMessage (over_memory nb) m fc = Inr (m', fc\<lparr>lower_level := l, fc_sent := fc_sent fc @ [(RequestOut, m)]\<rparr>) \<and>
    (mm_type m = ReadReq \<or> mm_type m = FetchReq \<longrightarrow> mm_type m' = MissReply)"
proof -
  from assms obtain m' l where "push_FromCache m (lower_level fc) = Inr (m', l)" "mm_type m = ReadReq \<or> mm_type m = FetchReq \<longrightarrow> mm_type m' = MissReply"
    by (auto simp: lower_request_def push_FromCache_def)
  then show ?thesis by (intro exI[of _ m'] exI[of _ l]) (simp add: forwardMessage_def over_memory_def memory_lower_def)
qed

lemma memory_plain: "plain_lower (over_memory nb)"
  unfolding plain_lower_def
proof (intro allI impI)
  fix m :: MemoryMessage and s assume "lower_request (mm_type m)"
  then show "\<exists>m' l'. to_lower (over_memory nb) m s = Reply m' l' \<and>
     (mm_type m = ReadReq \<longrightarrow> mm_type m' = MissReply \<or> mm_type m' = MissReplyWritable \<or> mm_type m' = MissReplyDirty)"
    by (auto simp: over_memory_def memory_lower_def lower_request_def push_FromCache_def)
qed

lemma memory_quiet: "quiet (over_memory nb)"
  by (rule plain_quiet[OF memory_plain])

text \<open>A cache that uses the MESI protocol above memory only ever has blocks in the states of that protocol: memory never
  hands over ownership.\<close>

definition processor_access :: "access_t \<Rightarrow> bool" where
  "processor_access a \<longleftrightarrow> a = kReadAccess \<or> a = kFetchAccess \<or> a = kStoreAccess \<or> a = kWriteAccess \<or> a = kNAWAccess"

lemma mesi_states: "mesi_state kModified" "mesi_state kExclusive" "mesi_state kShared" "mesi_state kInvalid" "\<not> mesi_state kOwned" "\<not> mesi_state kMigratory"
  by (simp_all add: mesi_state_def)

lemma mesi_miss:
  assumes rd: "ready fc r t" and m: "lower_request (mm_type m)" "mm_type m = ReadReq \<or> mm_type m = FetchReq"
    and f: "\<And>m' fc. mm_type m' = MissReply \<Longrightarrow> f m' fc = bindE (allocate (over_memory nb) kShared r fc) (\<lambda>fc. Inr (g m', fc))"
  shows "returns (over_memory nb) fc r t (\<lambda>_. mesi_state) (bindE (forwardMessage (over_memory nb) m fc) (\<lambda>(m', fc). f m' fc))"
proof -
  let ?nb = "over_memory nb"
  from memory_forward[OF m(1), of nb fc] m(2) obtain m' l where fw: "forwardMessage ?nb m fc = Inr (m', fc\<lparr>lower_level := l, fc_sent := fc_sent fc @ [(RequestOut, m)]\<rparr>)"
    "mm_type m' = MissReply" by blast
  let ?fc = "fc\<lparr>lower_level := l, fc_sent := fc_sent fc @ [(RequestOut, m)]\<rparr>"
  have "ready ?fc r t" using rd by (simp add: ready_def fc_ok_def)
  then have "returns ?nb ?fc r t (\<lambda>_. mesi_state) (f m' ?fc)" unfolding f[OF fw(2)]
    by (rule settled.alloc) (simp add: mesi_state_def)
  moreover have "returns ?nb ?fc r t (\<lambda>_. mesi_state) = returns ?nb fc r t (\<lambda>_. mesi_state)" by (rule returns_cong) simp_all
  ultimately show ?thesis using fw(1) by simp
qed

lemma mesi_action:
  assumes rd: "ready fc r t" and acc: "message2access (mm_type m) = Inr acc" "processor_access acc"
    and pr: "theProtocol fc = InclusiveMESI" and s: "mesi_state (block_state fc t)"
    and act: "getCoherenceAction fc (block_state fc t) acc = Inr act"
  shows "act \<noteq> poison" "returns (over_memory nb) fc r t (\<lambda>_. mesi_state) (doCoherenceAction (over_memory nb) act r m fc)"
proof -
  let ?R = "\<lambda>(_ :: MemoryMessageType) st. mesi_state st"
  have tin: "tag_in t (theCache fc)" if "block_state fc t \<noteq> kInvalid" using that present_tag by (simp add: tag_in_def)
  show "act \<noteq> poison"
    using acc(2) pr s act by (cases "block_state fc t") (auto simp: processor_access_def mesi_state_def getCoherenceAction_def)
  have rdm: "returns (over_memory nb) fc r t ?R (doCoherenceAction (over_memory nb) (SendRead, Allocate, DependState, UpdateLRU, FillDepend) r m fc)"
    unfolding doCoherenceAction_def Let_def
    by (simp, intro conjI impI; rule mesi_miss[OF rd, where g = "\<lambda>x. x"]; simp add: lower_request_def)
  have fem: "returns (over_memory nb) fc r t ?R (doCoherenceAction (over_memory nb) (SendFetch, Allocate, DependState, UpdateLRU, FillValid) r m fc)"
    unfolding doCoherenceAction_def Let_def
    by simp (rule mesi_miss[OF rd, where g = "\<lambda>x. x\<lparr>mm_type := MissReply\<rparr>"], simp_all add: lower_request_def)
  have byp: "returns (over_memory nb) fc r t ?R (doCoherenceAction (over_memory nb) (SendNAW, NoAllocate, SameState, NoUpdateLRU, FillDepend) r m fc)"
    if "mm_type m = NonAllocatingStoreReq"
  proof -
    have "lower_request (mm_type m)" using that by (simp add: lower_request_def)
    from memory_forward[OF this, of nb fc] obtain m' l where "forwardMessage (over_memory nb) m fc = Inr (m', fc\<lparr>lower_level := l, fc_sent := fc_sent fc @ [(RequestOut, m)]\<rparr>)" by blast
    then show ?thesis using rd s by (simp add: doCoherenceAction_def Let_def returns_def ends_def ready_def fc_ok_def)
  qed
  note R = settled.do_touch[OF rd, where R = ?R] settled.do_change[OF rd, where R = ?R] settled.do_upgrade[OF rd, where R = ?R]
    settled.do_allocate(2,3)[OF rd, where R = ?R]
  show "returns (over_memory nb) fc r t ?R (doCoherenceAction (over_memory nb) act r m fc)"
    using acc tin act[symmetric] pr s rdm fem byp
    by (cases "block_state fc t"; cases acc)
      (simp_all add: getCoherenceAction_def processor_access_def R access_type mesi_states split: if_splits)
qed

section \<open>Runs of a processor and a device\<close>

datatype memory_event = Access MemoryMessage | Device MemoryMessage

definition event_ok :: "memory_event \<Rightarrow> bool" where
  "event_ok e = (case e of
     Access m \<Rightarrow> mm_type m \<in> {LoadReq, ReadReq, FetchReq, StoreReq, RMWReq, CmpxReq, WriteReq, NonAllocatingStoreReq}
   | Device m \<Rightarrow> mm_type m = ReadReq \<or> mm_type m = WriteReq)"

definition event_do :: "('u, MemStats) neighbours \<Rightarrow> memory_event \<Rightarrow> ('u, MemStats) FastCache \<Rightarrow> (MemoryMessage \<times> ('u, MemStats) FastCache) res" where
  "event_do nb e fc = (case e of Access m \<Rightarrow> push_RequestIn (over_memory nb) m fc | Device m \<Rightarrow> dma_access nb m fc)"

definition run_events :: "('u, MemStats) neighbours \<Rightarrow> memory_event list \<Rightarrow> ('u, MemStats) FastCache \<Rightarrow> ('u, MemStats) FastCache res" where
  "run_events nb es fc = foldE (\<lambda>e fc. bindE (event_do nb e fc) (\<lambda>p. Inr (snd p))) es fc"

definition mesi_cache :: "('u, 'l) FastCache \<Rightarrow> bool" where
  "mesi_cache fc \<longleftrightarrow> fc_ok fc \<and> theProtocol fc = InclusiveMESI \<and> (\<forall>x. mesi_state (block_state fc x))"

lemma access_event:
  assumes "event_ok (Access m)"
  obtains acc where "message2access (mm_type m) = Inr acc" "processor_access acc"
  using assms that by (auto simp: event_ok_def message2access_def processor_access_def)

lemma config_protocol: "config fc' = config fc \<Longrightarrow> theProtocol fc' = theProtocol fc"
  by (simp add: config_def)

lemma access_ok:
  assumes c: "mesi_cache fc" and e: "message2access (mm_type m) = Inr acc" "processor_access acc"
  shows "\<exists>m' fc'. push_RequestIn (over_memory nb) m fc = Inr (m', fc') \<and> mesi_cache fc' \<and> config fc' = config fc \<and>
    granted acc (block_state fc (block_addr fc m)) (mm_type m') (block_state fc' (block_addr fc m))"
proof -
  let ?t = "block_addr fc m" and ?nb = "over_memory nb"
  have ok: "fc_ok fc" and pr: "theProtocol fc = InclusiveMESI" and ms: "\<And>x. mesi_state (block_state fc x)"
    using c by (auto simp: mesi_cache_def)
  from ok obtain r c where l: "cache_lookup ?t (theCache fc) = Inr (r, c)" "snooped fc (fc\<lparr>theCache := c\<rparr>)"
    "state_of c = block_state fc" "pending r ?t c" "getState r c = Inr (block_state fc ?t)" "cache_ok c"
    by (rule fc_lookup)
  let ?fc = "fc\<lparr>theCache := c\<rparr>"
  have rd: "ready ?fc r ?t" using l snooped_ok[OF l(2)] by (simp add: ready_def)
  obtain act where act: "getCoherenceAction ?fc (block_state fc ?t) acc = Inr act"
    using e(2) pr ms[of ?t] by (cases "block_state fc ?t") (auto simp: processor_access_def getCoherenceAction_def mesi_state_def)
  have bs: "block_state ?fc ?t = block_state fc ?t" using l(3) by simp
  have np: "act \<noteq> poison" and mr: "returns ?nb ?fc r ?t (\<lambda>_. mesi_state) (doCoherenceAction ?nb act r m ?fc)"
    using mesi_action(1)[OF rd e, of act] mesi_action(2)[OF rd e, of act nb] pr ms[of ?t] act bs by simp_all
  have "returns ?nb ?fc r ?t (granted acc (block_state fc ?t)) (doCoherenceAction ?nb act r m ?fc)"
    using settled.request_action[OF rd e(1), of act ?nb] act np bs by simp
  then obtain p where p: "doCoherenceAction ?nb act r m ?fc = Inr p" "ends ?fc ?t (granted acc (block_state fc ?t)) p" "mesi_state (block_state (snd p) ?t)"
    "\<And>x. x \<noteq> ?t \<Longrightarrow> block_state (snd p) x = block_state fc x \<or> block_state (snd p) x = kInvalid"
    using mr memory_quiet[of nb] l(3) by (auto simp: returns_def ends_def) metis
  have "push_RequestIn ?nb m fc = Inr p"
    unfolding push_RequestIn_def Let_def e(1) l(1,5) bindE_Inr prod.case act p(1) by simp
  moreover have "mesi_state (block_state (snd p) x)" for x
    using p(3) p(4)[of x] ms[of x] by (cases "x = ?t") (auto simp: mesi_state_def)
  moreover have "fc_ok (snd p)" "config (snd p) = config fc" using p(2) by (auto simp: ends_def config_def)
  ultimately show ?thesis using p(2) pr config_protocol[of "snd p" fc]
    by (intro exI[of _ "fst p"] exI[of _ "snd p"]) (auto simp: mesi_cache_def ends_def)
qed

lemma device_ok:
  assumes c: "mesi_cache fc" and ty: "mm_type m = ReadReq \<or> mm_type m = WriteReq" and a: "a = block_addr fc m"
  shows "\<exists>m' fc'. dma_access nb m fc = Inr (m', fc') \<and> mesi_cache fc' \<and> config fc' = config fc \<and>
    (\<forall>x. x \<noteq> a \<longrightarrow> block_state fc' x = block_state fc x) \<and>
    block_state fc' a = (if mm_type m = WriteReq \<or> block_state fc a = kInvalid then kInvalid else kShared) \<and>
    (block_state fc a = kModified \<longrightarrow> dirty_ack (mm_type m'))"
proof -
  let ?m = "m\<lparr>mm_type := if mm_type m = WriteReq then Invalidate else Downgrade\<rparr>"
  have ok: "fc_ok fc" and pr: "theProtocol fc = InclusiveMESI" and ms: "\<And>x. mesi_state (block_state fc x)"
    using c by (auto simp: mesi_cache_def)
  have bm: "block_addr fc ?m = a" by (simp add: a)
  have sr: "snoop_request (mm_type ?m)" by (simp add: snoop_request_def)
  from push_SnoopIn_mesi[OF ok pr refl ms sr, of "over_memory nb"] obtain m' fc' where
    p: "push_SnoopIn (over_memory nb) ?m fc = Inr (m', fc')" "only_at a fc fc'"
    "mm_type m' = snoop_answer (mm_type ?m) (block_state fc a) (mm_type (fst (continueSnoop (over_memory nb) ?m fc)))"
    "block_state fc' a = (if mm_type ?m = Invalidate \<or> block_state fc a = kInvalid then kInvalid else kShared)"
    unfolding bm by blast
  obtain s where d: "dma_access nb m fc = Inr (m', fc'\<lparr>lower_level := s\<rparr>)"
    using ty p(1) by (auto simp: dma_access_def push_DMA_def)
  have o: "snooped fc fc'" "\<And>x. x \<noteq> a \<Longrightarrow> block_state fc' x = block_state fc x" using p(2) by (auto simp: only_at_def)
  have f: "fc_ok (fc'\<lparr>lower_level := s\<rparr>)" "config (fc'\<lparr>lower_level := s\<rparr>) = config fc"
    using o(1) fc_ok_cong[of "fc'\<lparr>lower_level := s\<rparr>" fc'] by (auto simp: snooped_def)
  have "mesi_state (block_state fc' x)" for x using o(2)[of x] p(4) ms[of x] by (cases "x = a") (auto simp: mesi_state_def)
  then have "mesi_cache (fc'\<lparr>lower_level := s\<rparr>)" using f pr config_protocol[of "fc'\<lparr>lower_level := s\<rparr>" fc] by (simp add: mesi_cache_def)
  then show ?thesis using d f o(2) p(3,4) sr ty
    by (intro exI[of _ m'] exI[of _ "fc'\<lparr>lower_level := s\<rparr>"]) (auto simp: snoop_answer_def dirty_ack_def)
qed

lemma event_keeps:
  assumes "mesi_cache fc" "event_ok e"
  shows "\<exists>m' fc'. event_do nb e fc = Inr (m', fc') \<and> mesi_cache fc' \<and> config fc' = config fc"
proof (cases e)
  case (Access m)
  from access_event[of m] assms(2) Access obtain acc where "message2access (mm_type m) = Inr acc" "processor_access acc" by blast
  from access_ok[OF assms(1) this, of nb] show ?thesis by (auto simp: event_do_def Access)
next
  case (Device m)
  from device_ok[OF assms(1) _ refl, of m nb] assms(2) show ?thesis by (auto simp: event_do_def Device event_ok_def)
qed

lemma run_events_ok:
  assumes "mesi_cache fc" "\<forall>e \<in> set es. event_ok e"
  shows "\<exists>fc'. run_events nb es fc = Inr fc' \<and> mesi_cache fc' \<and> config fc' = config fc"
  using assms
proof (induction es arbitrary: fc)
  case Nil
  then show ?case by (simp add: run_events_def)
next
  case (Cons e es)
  from event_keeps[OF Cons.prems(1), of e nb] Cons.prems(2) obtain m' fc1 where "event_do nb e fc = Inr (m', fc1)" "mesi_cache fc1" "config fc1 = config fc" by auto
  with Cons.IH[of fc1] Cons.prems(2) show ?case by (simp add: run_events_def)
qed

text \<open>C17: A functional cache that runs the MESI protocol directly above memory serves every sequence of processor accesses and
  device accesses, in any order: none fails an assertion of the cache or of memory. After such a sequence a processor access is
  granted what it needs; a device write leaves no copy of its block in the cache, a device read leaves at most a shared one, the
  other blocks keep their state, and a modified block is handed over dirty.\<close>

theorem memory_events_coherent:
  assumes "mesi_cache fc" "\<forall>e \<in> set es. event_ok e"
  shows "\<exists>fc'. run_events nb es fc = Inr fc' \<and> config fc' = config fc \<and>
    (\<forall>m acc. event_ok (Access m) \<and> message2access (mm_type m) = Inr acc \<longrightarrow> (\<exists>m' fc''. event_do nb (Access m) fc' = Inr (m', fc'') \<and>
       granted acc (block_state fc' (block_addr fc' m)) (mm_type m') (block_state fc'' (block_addr fc' m)))) \<and>
    (\<forall>m. event_ok (Device m) \<longrightarrow> (\<exists>m' fc''. event_do nb (Device m) fc' = Inr (m', fc'') \<and>
       block_state fc'' = (block_state fc')(block_addr fc' m :=
         (if mm_type m = WriteReq \<or> block_state fc' (block_addr fc' m) = kInvalid then kInvalid else kShared)) \<and>
       (block_state fc' (block_addr fc' m) = kModified \<longrightarrow> dirty_ack (mm_type m'))))"
proof -
  from run_events_ok[OF assms, of nb] obtain fc' where f: "run_events nb es fc = Inr fc'" "mesi_cache fc'" "config fc' = config fc" by blast
  have "\<exists>m' fc''. event_do nb (Access m) fc' = Inr (m', fc'') \<and>
       granted acc (block_state fc' (block_addr fc' m)) (mm_type m') (block_state fc'' (block_addr fc' m))"
    if "event_ok (Access m)" "message2access (mm_type m) = Inr acc" for m acc
  proof -
    from access_event[OF that(1)] that(2) have "processor_access acc" by (metis Inr_inject)
    from access_ok[OF f(2) that(2) this, of nb] show ?thesis by (auto simp: event_do_def)
  qed
  moreover have "\<exists>m' fc''. event_do nb (Device m) fc' = Inr (m', fc'') \<and>
       block_state fc'' = (block_state fc')(block_addr fc' m :=
         (if mm_type m = WriteReq \<or> block_state fc' (block_addr fc' m) = kInvalid then kInvalid else kShared)) \<and>
       (block_state fc' (block_addr fc' m) = kModified \<longrightarrow> dirty_ack (mm_type m'))" if "event_ok (Device m)" for m
  proof -
    have ty: "mm_type m = ReadReq \<or> mm_type m = WriteReq" using that by (simp add: event_ok_def)
    from device_ok[OF f(2) ty refl, of nb] obtain m' fc'' where "dma_access nb m fc' = Inr (m', fc'')"
      "\<forall>x. x \<noteq> block_addr fc' m \<longrightarrow> block_state fc'' x = block_state fc' x"
      "block_state fc'' (block_addr fc' m) = (if mm_type m = WriteReq \<or> block_state fc' (block_addr fc' m) = kInvalid then kInvalid else kShared)"
      "block_state fc' (block_addr fc' m) = kModified \<longrightarrow> dirty_ack (mm_type m')" by blast
    then show ?thesis by (intro exI[of _ m'] exI[of _ fc'']) (auto simp: event_do_def fun_eq_iff)
  qed
  ultimately show ?thesis using f(1,3) by blast
qed

definition demo_over :: "(unit, MemStats) FastCache" where
  "demo_over = \<lparr>theCache = demo_cache [], theProtocol = InclusiveMESI, UsingTraces = False, DowngradeLRU = False,
     SnoopLRU = False, CleanEvictions = False, theBlockMask = NOT 63,
     theEvictMessage = MemoryMessage_new EvictDirty, theInvalidateMessage = MemoryMessage_new Invalidate,
     upper_caches = (), lower_level = MemStats_new, fc_sent = []\<rparr>"

definition demo_upper :: "(unit, MemStats) neighbours" where
  "demo_upper = \<lparr>to_I = (\<lambda>m u. (m\<lparr>mm_type := InvalidateAck\<rparr>, u)), to_D = (\<lambda>m u. (m\<lparr>mm_type := InvalidateAck\<rparr>, u)), to_lower = memory_lower\<rparr>"

lemma demo_over_mesi: "mesi_cache demo_over"
proof -
  have "fc_ok (demo_fc [])" by (rule demo_ok) (simp add: set_ok_def)
  then have "fc_ok demo_over" by (simp add: fc_ok_def demo_fc_def demo_over_def)
  moreover have "block_state demo_over x = kInvalid" for x
    using geometry_get_set[OF demo_geometry[of "[]"], of x]
    by (auto simp: demo_over_def state_of_def state_in_def by_tag_def nth_Cons demo_cache_def split: nat.splits)
  ultimately show ?thesis by (simp add: mesi_cache_def demo_over_def mesi_state_def)
qed

theorem memory_events_coherent_witness:
  "\<exists>fc' m' fc''. run_events demo_upper [Access (FastCache.demo_msg StoreReq 64), Device (FastCache.demo_msg ReadReq 64)] demo_over = Inr fc' \<and>
     event_do demo_upper (Device (FastCache.demo_msg WriteReq 64)) fc' = Inr (m', fc'') \<and> block_state fc'' 64 = kInvalid"
proof -
  let ?es = "[Access (FastCache.demo_msg StoreReq 64), Device (FastCache.demo_msg ReadReq 64)]"
  let ?w = "FastCache.demo_msg WriteReq 64"
  have es: "\<forall>e \<in> set ?es. event_ok e" "event_ok (Device ?w)" by (simp_all add: event_ok_def)
  from memory_events_coherent[OF demo_over_mesi es(1), of demo_upper] es(2) obtain fc' m' fc'' where
    f: "run_events demo_upper ?es demo_over = Inr fc'" "event_do demo_upper (Device ?w) fc' = Inr (m', fc'')"
      "block_state fc'' = (block_state fc')(block_addr fc' ?w := kInvalid)" "config fc' = config demo_over" by fastforce
  have "theBlockMask fc' = NOT 63" using f(4) by (simp add: config_def demo_over_def)
  then show ?thesis using f by (intro exI conjI) auto
qed

end
