(* ===== verification/MTManager.thy ===== *)
theory MTManager
  imports Flexus_Prelude
begin

text \<open>
  The thread scheduler of a multithreaded core (\<^verbatim>\<open>MTManager/MTManagerComponentImpl.cpp\<close>): address generation and
  fetch ask it each cycle which thread they serve, and each thread asks it whether it may dispatch and execute.
  The input ports are functions of the port index, and the cycle counter of the simulator is part of them.
\<close>

section \<open>State and ports\<close>

record ScheduleState =
  theRoundRobinPtr :: nat
  theThreadThisCycle :: nat
  theLastScheduledCycle :: nat

definition ScheduleState_new :: ScheduleState where
  "ScheduleState_new = \<lparr>theRoundRobinPtr = 0, theThreadThisCycle = 0, theLastScheduledCycle = 0\<rparr>"

record MTManager =
  mt_Cores :: nat
  mt_Threads :: nat
  FrontEndPolicy :: int
  BackEndPolicy :: int
  theFAGSchedules :: "ScheduleState list"
  theFSchedules :: "ScheduleState list"
  theDSchedules :: "ScheduleState list"
  theEXSchedules :: "ScheduleState list"

definition kFE_ICount :: int where "kFE_ICount = 1"

definition kBE_SmartRoundRobin :: int where "kBE_SmartRoundRobin = 1"

record mt_ports =
  EXStalled :: "nat \<Rightarrow> bool"
  FAGStalled :: "nat \<Rightarrow> bool"
  FStalled :: "nat \<Rightarrow> bool"
  DStalled :: "nat \<Rightarrow> bool"
  FAQ_ICount :: "nat \<Rightarrow> int"
  FIQ_ICount :: "nat \<Rightarrow> int"
  ROB_ICount :: "nat \<Rightarrow> int"
  cycleCount :: nat

definition mt_initialize :: "nat \<Rightarrow> nat \<Rightarrow> int \<Rightarrow> int \<Rightarrow> MTManager" where
  "mt_initialize cores threads fe be =
     (let s = replicate cores ScheduleState_new
      in \<lparr>mt_Cores = cores, mt_Threads = threads, FrontEndPolicy = fe, BackEndPolicy = be,
          theFAGSchedules = s, theFSchedules = s, theDSchedules = s, theEXSchedules = s\<rparr>)"

section \<open>Scheduling\<close>

text \<open>The sum is a signed 32-bit integer, whose overflow is undefined.\<close>

definition int32_ok :: "int \<Rightarrow> int res" where
  "int32_ok x = (if - (2 ^ 31) \<le> x \<and> x < 2 ^ 31 then Inr x else Inl UndefinedBehaviour)"

definition getICount :: "mt_ports \<Rightarrow> MTManager \<Rightarrow> nat \<Rightarrow> nat \<Rightarrow> int res" where
  "getICount ports m aCore aThread =
     (let i = aCore * mt_Threads m + aThread in
      bindE (int32_ok (FAQ_ICount ports i)) (\<lambda>sum.
      bindE (int32_ok (sum + FIQ_ICount ports i)) (\<lambda>sum.
      int32_ok (sum + ROB_ICount ports i))))"

definition isFAGStalled :: "mt_ports \<Rightarrow> MTManager \<Rightarrow> nat \<Rightarrow> nat \<Rightarrow> bool" where
  "isFAGStalled ports m aCore aThread = FAGStalled ports (aCore * mt_Threads m + aThread)"

definition isFStalled :: "mt_ports \<Rightarrow> MTManager \<Rightarrow> nat \<Rightarrow> nat \<Rightarrow> bool" where
  "isFStalled ports m aCore aThread = FStalled ports (aCore * mt_Threads m + aThread)"

definition isDStalled :: "mt_ports \<Rightarrow> MTManager \<Rightarrow> nat \<Rightarrow> nat \<Rightarrow> bool" where
  "isDStalled ports m aCore aThread = DStalled ports (aCore * mt_Threads m + aThread)"

definition isEXStalled :: "mt_ports \<Rightarrow> MTManager \<Rightarrow> nat \<Rightarrow> nat \<Rightarrow> bool" where
  "isEXStalled ports m aCore aThread = EXStalled ports (aCore * mt_Threads m + aThread)"

fun read_icounts :: "mt_ports \<Rightarrow> MTManager \<Rightarrow> nat \<Rightarrow> nat list \<Rightarrow> 32 word list res" where
  "read_icounts ports m aCore [] = Inr []"
| "read_icounts ports m aCore (i # is) =
     bindE (getICount ports m aCore i) (\<lambda>c. bindE (read_icounts ports m aCore is) (\<lambda>cs. Inr (word_of_int c # cs)))"

fun scan_icount :: "(nat \<Rightarrow> bool) \<Rightarrow> 32 word list \<Rightarrow> nat \<Rightarrow> nat \<Rightarrow> nat \<Rightarrow> nat \<Rightarrow> 32 word \<Rightarrow> nat res" where
  "scan_icount stalled icount threads 0 td selected_td min_icount = Inr selected_td"
| "scan_icount stalled icount threads (Suc i) td selected_td min_icount =
     bindE (vec_at icount td) (\<lambda>c.
     if c < min_icount \<and> \<not> stalled td then scan_icount stalled icount threads i ((td + 1) mod threads) td c
     else scan_icount stalled icount threads i ((td + 1) mod threads) selected_td min_icount)"

definition scheduled :: "mt_ports \<Rightarrow> MTManager \<Rightarrow> nat \<Rightarrow> ScheduleState \<Rightarrow> ScheduleState res" where
  "scheduled ports m selected_td aSchedule =
     (if mt_Threads m = 0 then Inl DivByZero
      else Inr (aSchedule\<lparr>theThreadThisCycle := selected_td, theRoundRobinPtr := (theRoundRobinPtr aSchedule + 1) mod mt_Threads m,
                          theLastScheduledCycle := cycleCount ports\<rparr>))"

definition scheduleICount :: "mt_ports \<Rightarrow> MTManager \<Rightarrow> nat \<Rightarrow> (nat \<Rightarrow> nat \<Rightarrow> bool) \<Rightarrow> ScheduleState \<Rightarrow> ScheduleState res" where
  "scheduleICount ports m aCore isStalled aSchedule =
     bindE (read_icounts ports m aCore [0 ..< mt_Threads m]) (\<lambda>icount.
     bindE (scan_icount (isStalled aCore) icount (mt_Threads m) (mt_Threads m) (theRoundRobinPtr aSchedule) (theRoundRobinPtr aSchedule) (- 1))
       (\<lambda>selected_td. scheduled ports m selected_td aSchedule))"

fun skip_stalled :: "(nat \<Rightarrow> bool) \<Rightarrow> nat \<Rightarrow> nat \<Rightarrow> nat \<Rightarrow> nat" where
  "skip_stalled stalled threads 0 selected_td = selected_td"
| "skip_stalled stalled threads (Suc i) selected_td =
     (if stalled selected_td then skip_stalled stalled threads i ((selected_td + 1) mod threads) else selected_td)"

definition scheduleExecuteRoundRobin :: "mt_ports \<Rightarrow> MTManager \<Rightarrow> nat \<Rightarrow> ScheduleState \<Rightarrow> ScheduleState res" where
  "scheduleExecuteRoundRobin ports m aCore aSchedule =
     scheduled ports m (skip_stalled (isEXStalled ports m aCore) (mt_Threads m) (mt_Threads m) (theRoundRobinPtr aSchedule)) aSchedule"

definition scheduleDispatchRoundRobin :: "mt_ports \<Rightarrow> MTManager \<Rightarrow> nat \<Rightarrow> ScheduleState \<Rightarrow> ScheduleState res" where
  "scheduleDispatchRoundRobin ports m aCore aSchedule =
     scheduled ports m (skip_stalled (isDStalled ports m aCore) (mt_Threads m) (mt_Threads m) (theRoundRobinPtr aSchedule)) aSchedule"

definition scheduleStrictRoundRobin :: "mt_ports \<Rightarrow> MTManager \<Rightarrow> ScheduleState \<Rightarrow> ScheduleState" where
  "scheduleStrictRoundRobin ports m aSchedule =
     (let ptr = theRoundRobinPtr aSchedule + 1
      in aSchedule\<lparr>theThreadThisCycle := theRoundRobinPtr aSchedule, theRoundRobinPtr := (if ptr = mt_Threads m then 0 else ptr),
                   theLastScheduledCycle := cycleCount ports\<rparr>)"

definition scheduleThread :: "mt_ports \<Rightarrow> MTManager \<Rightarrow> ScheduleState list \<Rightarrow> (nat \<Rightarrow> nat \<Rightarrow> bool) \<Rightarrow> nat \<Rightarrow> (nat \<times> ScheduleState list) res" where
  "scheduleThread ports m aSchedules isStalled aCoreIndex =
     bindE (dbg_assert (aCoreIndex < mt_Cores m)) (\<lambda>_.
     bindE (vec_at aSchedules aCoreIndex) (\<lambda>sched.
     bindE (if FrontEndPolicy m = kFE_ICount then scheduleICount ports m aCoreIndex isStalled sched
            else Inr (scheduleStrictRoundRobin ports m sched)) (\<lambda>sched.
     Inr (theThreadThisCycle sched, aSchedules[aCoreIndex := sched]))))"

definition scheduleFAGThread :: "mt_ports \<Rightarrow> nat \<Rightarrow> MTManager \<Rightarrow> (nat \<times> MTManager) res" where
  "scheduleFAGThread ports aCoreIndex m =
     bindE (scheduleThread ports m (theFAGSchedules m) (isFAGStalled ports m) aCoreIndex) (\<lambda>(td, s). Inr (td, m\<lparr>theFAGSchedules := s\<rparr>))"

definition scheduleFThread :: "mt_ports \<Rightarrow> nat \<Rightarrow> MTManager \<Rightarrow> (nat \<times> MTManager) res" where
  "scheduleFThread ports aCoreIndex m =
     bindE (scheduleThread ports m (theFSchedules m) (isFStalled ports m) aCoreIndex) (\<lambda>(td, s). Inr (td, m\<lparr>theFSchedules := s\<rparr>))"

definition runThisEX :: "mt_ports \<Rightarrow> nat \<Rightarrow> MTManager \<Rightarrow> (bool \<times> MTManager) res" where
  "runThisEX ports anIndex m =
     (if mt_Threads m = 0 then Inl DivByZero
      else
        let core_index = anIndex div mt_Threads m; thread_index = anIndex mod mt_Threads m in
        bindE (dbg_assert (core_index < mt_Cores m)) (\<lambda>_.
        bindE (vec_at (theEXSchedules m) core_index) (\<lambda>sched.
        bindE (if theLastScheduledCycle sched \<noteq> cycleCount ports then
                 if BackEndPolicy m = kBE_SmartRoundRobin then scheduleExecuteRoundRobin ports m core_index sched
                 else Inr (scheduleStrictRoundRobin ports m sched)
               else Inr sched) (\<lambda>sched.
        Inr (theThreadThisCycle sched = thread_index, m\<lparr>theEXSchedules := (theEXSchedules m)[core_index := sched]\<rparr>)))))"

definition runThisD :: "mt_ports \<Rightarrow> nat \<Rightarrow> MTManager \<Rightarrow> (bool \<times> MTManager) res" where
  "runThisD ports anIndex m =
     (if mt_Threads m = 0 then Inl DivByZero
      else
        let core_index = anIndex div mt_Threads m; thread_index = anIndex mod mt_Threads m in
        bindE (dbg_assert (core_index < mt_Cores m)) (\<lambda>_.
        bindE (vec_at (theDSchedules m) core_index) (\<lambda>sched.
        bindE (if theLastScheduledCycle sched \<noteq> cycleCount ports then
                 if BackEndPolicy m = kBE_SmartRoundRobin then scheduleDispatchRoundRobin ports m core_index sched
                 else Inr (scheduleStrictRoundRobin ports m sched)
               else Inr sched) (\<lambda>sched.
        Inr (theThreadThisCycle sched = thread_index, m\<lparr>theDSchedules := (theDSchedules m)[core_index := sched]\<rparr>)))))"

section \<open>The invariant\<close>

definition sched_ok :: "nat \<Rightarrow> ScheduleState \<Rightarrow> bool" where
  "sched_ok threads s \<longleftrightarrow> theRoundRobinPtr s < threads \<and> theThreadThisCycle s < threads"

definition mt_ok :: "MTManager \<Rightarrow> bool" where
  "mt_ok m \<longleftrightarrow> 0 < mt_Threads m \<and> (\<forall>ss \<in> {theFAGSchedules m, theFSchedules m, theDSchedules m, theEXSchedules m}.
     length ss = mt_Cores m \<and> (\<forall>s \<in> set ss. sched_ok (mt_Threads m) s))"

text \<open>The instruction counts of the queues and the re-order buffer are far from the limits of their type.\<close>

definition counts_ok :: "mt_ports \<Rightarrow> bool" where
  "counts_ok ports \<longleftrightarrow> (\<forall>i. 0 \<le> FAQ_ICount ports i \<and> FAQ_ICount ports i < 2 ^ 29 \<and> 0 \<le> FIQ_ICount ports i \<and> FIQ_ICount ports i < 2 ^ 29 \<and>
     0 \<le> ROB_ICount ports i \<and> ROB_ICount ports i < 2 ^ 29)"

definition in_flight_count :: "mt_ports \<Rightarrow> MTManager \<Rightarrow> nat \<Rightarrow> nat \<Rightarrow> int" where
  "in_flight_count ports m c t = (let i = c * mt_Threads m + t in FAQ_ICount ports i + FIQ_ICount ports i + ROB_ICount ports i)"

lemma mt_initialize_ok: "0 < threads \<Longrightarrow> mt_ok (mt_initialize cores threads fe be)"
  by (simp add: mt_ok_def mt_initialize_def Let_def sched_ok_def ScheduleState_new_def)

lemma getICount_ok: "counts_ok ports \<Longrightarrow> getICount ports m c t = Inr (in_flight_count ports m c t)"
  by (simp add: counts_ok_def getICount_def in_flight_count_def Let_def int32_ok_def) (smt (verit, best))

lemma read_icounts_ok: "counts_ok ports \<Longrightarrow> read_icounts ports m c ts = Inr (map (\<lambda>t. word_of_int (in_flight_count ports m c t)) ts)"
  by (induction ts) (simp_all add: getICount_ok)

lemma icount_word:
  assumes "counts_ok ports"
  shows "uint (word_of_int (in_flight_count ports m c t) :: 32 word) = in_flight_count ports m c t"
    "(word_of_int (in_flight_count ports m c t) :: 32 word) < - 1"
proof -
  let ?x = "in_flight_count ports m c t"
  have b: "0 \<le> ?x" "?x < 3 * 2 ^ 29" using assms unfolding counts_ok_def in_flight_count_def Let_def by (smt (verit, best))+
  then show u: "uint (word_of_int ?x :: 32 word) = ?x" by (simp add: unsigned_of_int take_bit_int_eq_self)
  have "uint (- 1 :: 32 word) = 2 ^ 32 - 1" by (simp add: unsigned_minus_1_eq_mask mask_eq_exp_minus_1)
  then show "(word_of_int ?x :: 32 word) < - 1" using b u by (simp add: word_less_def)
qed

section \<open>Choosing a thread\<close>

text \<open>The threads in the order in which a scan starting at \<open>ptr\<close> visits them.\<close>

definition visits :: "nat \<Rightarrow> nat \<Rightarrow> nat \<Rightarrow> nat list" where
  "visits threads ptr n = map (\<lambda>k. (ptr + k) mod threads) [0 ..< n]"

lemma visits_Suc: "ptr < threads \<Longrightarrow> visits threads ptr (Suc n) = ptr # visits threads ((ptr + 1) mod threads) n"
proof -
  assume "ptr < threads"
  have "(ptr + Suc k) mod threads = ((ptr + 1) mod threads + k) mod threads" for k by (simp add: mod_add_left_eq)
  then have "map (\<lambda>k. (ptr + k) mod threads) (map Suc [0 ..< n]) = map (\<lambda>k. ((ptr + 1) mod threads + k) mod threads) [0 ..< n]" by simp
  then show ?thesis using \<open>ptr < threads\<close> unfolding visits_def by (simp add: upt_conv_Cons map_Suc_upt[symmetric] del: map_map upt_Suc)
qed

lemma set_visits: "ptr < threads \<Longrightarrow> set (visits threads ptr threads) = {..< threads}"
proof (intro set_eqI iffI)
  fix t assume p: "ptr < threads" and "t \<in> {..< threads}"
  then have "t = (ptr + (t + threads - ptr) mod threads) mod threads" by (simp add: mod_add_right_eq)
  then show "t \<in> set (visits threads ptr threads)" using p by (auto simp: visits_def intro!: image_eqI[of _ _ "(t + threads - ptr) mod threads"])
qed (auto simp: visits_def)

text \<open>Of the threads that can run, the first one with the smallest count.\<close>

definition best :: "(nat \<Rightarrow> bool) \<Rightarrow> (nat \<Rightarrow> int) \<Rightarrow> nat list \<Rightarrow> nat \<Rightarrow> bool" where
  "best stalled cnt ts t \<longleftrightarrow> (\<exists>pre post. ts = pre @ t # post \<and> \<not> stalled t \<and> (\<forall>j \<in> set pre. \<not> stalled j \<longrightarrow> cnt t < cnt j) \<and>
     (\<forall>j \<in> set post. \<not> stalled j \<longrightarrow> cnt t \<le> cnt j))"

lemma scan_icount_spec:
  assumes "ptr < threads" "length icount = threads"
  shows "\<exists>t. scan_icount stalled icount threads n ptr sel mn = Inr t \<and>
    (if \<exists>j \<in> set (visits threads ptr n). \<not> stalled j \<and> icount ! j < mn
     then best stalled (\<lambda>j. uint (icount ! j)) (visits threads ptr n) t \<and> icount ! t < mn
     else t = sel)"
  using assms
proof (induction n arbitrary: ptr sel mn)
  case 0
  then show ?case by (simp add: visits_def)
next
  case (Suc n)
  let ?p = "(ptr + 1) mod threads" and ?c = "icount ! ptr"
  have p: "?p < threads" using Suc.prems by simp
  note v = visits_Suc[OF Suc.prems(1)]
  show ?case
  proof (cases "?c < mn \<and> \<not> stalled ptr")
    case True
    from Suc.IH[OF p Suc.prems(2), of ptr ?c] obtain t where t: "scan_icount stalled icount threads n ?p ptr ?c = Inr t"
      "if \<exists>j \<in> set (visits threads ?p n). \<not> stalled j \<and> icount ! j < ?c
       then best stalled (\<lambda>j. uint (icount ! j)) (visits threads ?p n) t \<and> icount ! t < ?c else t = ptr" by blast
    have r: "scan_icount stalled icount threads (Suc n) ptr sel mn = Inr t" using True t(1) Suc.prems by simp
    have "best stalled (\<lambda>j. uint (icount ! j)) (visits threads ptr (Suc n)) t \<and> icount ! t < mn"
    proof (cases "\<exists>j \<in> set (visits threads ?p n). \<not> stalled j \<and> icount ! j < ?c")
      case True
      have l: "icount ! t < ?c" and bt: "best stalled (\<lambda>j. uint (icount ! j)) (visits threads ?p n) t" using t(2) unfolding if_P[OF True] by blast+
      from bt obtain pre post where b: "visits threads ?p n = pre @ t # post" "\<not> stalled t" "\<forall>j \<in> set pre. \<not> stalled j \<longrightarrow> uint (icount ! t) < uint (icount ! j)"
        "\<forall>j \<in> set post. \<not> stalled j \<longrightarrow> uint (icount ! t) \<le> uint (icount ! j)" unfolding best_def by blast
      have "best stalled (\<lambda>j. uint (icount ! j)) (visits threads ptr (Suc n)) t"
        unfolding best_def by (rule exI[of _ "ptr # pre"], rule exI[of _ post]) (use b l in \<open>auto simp: v word_less_def\<close>)
      then show ?thesis using l \<open>?c < mn \<and> \<not> stalled ptr\<close> by auto
    next
      case False
      then have "t = ptr" using t(2) by auto
      moreover have "uint ?c \<le> uint (icount ! j)" if "j \<in> set (visits threads ?p n)" "\<not> stalled j" for j
        using False that by (auto simp: word_less_def not_less)
      then have "best stalled (\<lambda>j. uint (icount ! j)) (visits threads ptr (Suc n)) ptr"
        unfolding best_def by (intro exI[of _ "[]"] exI[of _ "visits threads ?p n"]) (use \<open>?c < mn \<and> \<not> stalled ptr\<close> in \<open>auto simp: v\<close>)
      ultimately show ?thesis using \<open>?c < mn \<and> \<not> stalled ptr\<close> by simp
    qed
    moreover have "\<exists>j \<in> set (visits threads ptr (Suc n)). \<not> stalled j \<and> icount ! j < mn" using True by (auto simp: v)
    ultimately show ?thesis using r by auto
  next
    case False
    from Suc.IH[OF p Suc.prems(2), of sel mn] obtain t where t: "scan_icount stalled icount threads n ?p sel mn = Inr t"
      "if \<exists>j \<in> set (visits threads ?p n). \<not> stalled j \<and> icount ! j < mn
       then best stalled (\<lambda>j. uint (icount ! j)) (visits threads ?p n) t \<and> icount ! t < mn else t = sel" by blast
    have r: "scan_icount stalled icount threads (Suc n) ptr sel mn = Inr t" using False t(1) Suc.prems by auto
    have e: "(\<exists>j \<in> set (visits threads ptr (Suc n)). \<not> stalled j \<and> icount ! j < mn) = (\<exists>j \<in> set (visits threads ?p n). \<not> stalled j \<and> icount ! j < mn)"
      using False by (auto simp: v)
    have "best stalled (\<lambda>j. uint (icount ! j)) (visits threads ptr (Suc n)) t"
      if b: "best stalled (\<lambda>j. uint (icount ! j)) (visits threads ?p n) t" "icount ! t < mn"
    proof -
      from b(1) obtain pre post where q: "visits threads ?p n = pre @ t # post" "\<not> stalled t" "\<forall>j \<in> set pre. \<not> stalled j \<longrightarrow> uint (icount ! t) < uint (icount ! j)"
        "\<forall>j \<in> set post. \<not> stalled j \<longrightarrow> uint (icount ! t) \<le> uint (icount ! j)" unfolding best_def by blast
      have "\<not> stalled ptr \<longrightarrow> uint (icount ! t) < uint ?c" using False b(2) by (auto simp: word_less_def)
      then show ?thesis unfolding best_def by (intro exI[of _ "ptr # pre"] exI[of _ post]) (use q in \<open>auto simp: v\<close>)
    qed
    then show ?thesis using r t(2) e by (auto split: if_splits)
  qed
qed

definition first_ready :: "(nat \<Rightarrow> bool) \<Rightarrow> nat list \<Rightarrow> nat \<Rightarrow> bool" where
  "first_ready stalled ts t \<longleftrightarrow> (\<exists>pre post. ts = pre @ t # post \<and> \<not> stalled t \<and> (\<forall>j \<in> set pre. stalled j))"

lemma skip_stalled_spec:
  "ptr < threads \<Longrightarrow> (if \<exists>j \<in> set (visits threads ptr n). \<not> stalled j then first_ready stalled (visits threads ptr n) (skip_stalled stalled threads n ptr)
     else skip_stalled stalled threads n ptr = (ptr + n) mod threads)"
proof (induction n arbitrary: ptr)
  case 0
  then show ?case by (simp add: visits_def)
next
  case (Suc n)
  note v = visits_Suc[OF Suc.prems]
  show ?case
  proof (cases "stalled ptr")
    case False
    have "first_ready stalled (visits threads ptr (Suc n)) ptr" unfolding first_ready_def
      by (intro exI[of _ "[]"] exI[of _ "visits threads ((ptr + 1) mod threads) n"]) (use False in \<open>simp add: v\<close>)
    then show ?thesis using False by (auto simp: v)
  next
    case True
    let ?p = "(ptr + 1) mod threads" and ?t = "skip_stalled stalled threads n ((ptr + 1) mod threads)"
    have "?p < threads" using Suc.prems by simp
    note ih = Suc.IH[OF this]
    have m: "(?p + n) mod threads = (ptr + Suc n) mod threads" by (simp add: mod_add_left_eq)
    have s: "skip_stalled stalled threads (Suc n) ptr = ?t" using True by simp
    have "first_ready stalled (visits threads ptr (Suc n)) ?t" if f: "first_ready stalled (visits threads ?p n) ?t"
    proof -
      from f obtain pre post where "visits threads ?p n = pre @ ?t # post" "\<not> stalled ?t" "\<forall>j \<in> set pre. stalled j" unfolding first_ready_def by blast
      then show ?thesis unfolding first_ready_def by (intro exI[of _ "ptr # pre"] exI[of _ post]) (use True in \<open>simp add: v\<close>)
    qed
    then show ?thesis using ih True unfolding s m[symmetric] by (auto simp: v split: if_splits)
  qed
qed

text \<open>Which thread a policy chooses from the state of a schedule.\<close>

definition smart_choice :: "(nat \<Rightarrow> bool) \<Rightarrow> nat \<Rightarrow> nat \<Rightarrow> nat \<Rightarrow> bool" where
  "smart_choice stalled threads ptr t \<longleftrightarrow> (if \<exists>j < threads. \<not> stalled j then first_ready stalled (visits threads ptr threads) t else t = ptr)"

definition icount_choice :: "(nat \<Rightarrow> bool) \<Rightarrow> (nat \<Rightarrow> int) \<Rightarrow> nat \<Rightarrow> nat \<Rightarrow> nat \<Rightarrow> bool" where
  "icount_choice stalled cnt threads ptr t \<longleftrightarrow> (if \<exists>j < threads. \<not> stalled j then best stalled cnt (visits threads ptr threads) t else t = ptr)"

lemma smart_choice_skip: "ptr < threads \<Longrightarrow> smart_choice stalled threads ptr (skip_stalled stalled threads threads ptr)"
  using skip_stalled_spec[of ptr threads threads stalled] set_visits[of ptr threads] by (auto simp: smart_choice_def split: if_splits)

lemma choice_range:
  "ptr < threads \<Longrightarrow> smart_choice stalled threads ptr t \<Longrightarrow> t < threads"
  "ptr < threads \<Longrightarrow> icount_choice stalled cnt threads ptr t \<Longrightarrow> t < threads"
proof -
  assume p: "ptr < threads"
  have m: "t \<in> set (visits threads ptr threads) \<Longrightarrow> t < threads" using set_visits[OF p] by auto
  show "smart_choice stalled threads ptr t \<Longrightarrow> t < threads" using m p unfolding smart_choice_def first_ready_def by (auto split: if_splits)
  show "icount_choice stalled cnt threads ptr t \<Longrightarrow> t < threads" using m p unfolding icount_choice_def best_def by (auto split: if_splits)
qed

lemma icount_choice_ready:
  assumes "icount_choice stalled cnt threads ptr t" "ptr < threads" "j < threads" "\<not> stalled j"
  shows "\<not> stalled t" "cnt t \<le> cnt j"
proof -
  from assms obtain pre post where b: "visits threads ptr threads = pre @ t # post" "\<not> stalled t" "\<forall>j \<in> set pre. \<not> stalled j \<longrightarrow> cnt t < cnt j"
    "\<forall>j \<in> set post. \<not> stalled j \<longrightarrow> cnt t \<le> cnt j" unfolding icount_choice_def best_def by (metis (no_types, lifting))
  then show "\<not> stalled t" by simp
  have "j \<in> set (pre @ t # post)" using assms(2,3) set_visits b(1) by (metis lessThan_iff)
  then show "cnt t \<le> cnt j" using b assms(4) by auto
qed

lemma scheduleICount_ok:
  assumes c: "counts_ok ports" and s: "sched_ok (mt_Threads m) s"
  shows "\<exists>t. scheduleICount ports m core st s = scheduled ports m t s \<and>
    icount_choice (st core) (in_flight_count ports m core) (mt_Threads m) (theRoundRobinPtr s) t"
proof -
  let ?T = "mt_Threads m" and ?p = "theRoundRobinPtr s"
  let ?ic = "map (\<lambda>t. word_of_int (in_flight_count ports m core t) :: 32 word) [0 ..< ?T]"
  have p: "?p < ?T" using s by (simp add: sched_ok_def)
  have w: "?ic ! j < - 1" "uint (?ic ! j) = in_flight_count ports m core j" if "j < ?T" for j using that icount_word[OF c] by simp_all
  from scan_icount_spec[OF p, of ?ic "st core" ?T ?p "- 1"] obtain t where t: "scan_icount (st core) ?ic ?T ?T ?p ?p (- 1) = Inr t"
    "if \<exists>j \<in> set (visits ?T ?p ?T). \<not> st core j \<and> ?ic ! j < - 1
     then best (st core) (\<lambda>j. uint (?ic ! j)) (visits ?T ?p ?T) t \<and> ?ic ! t < - 1 else t = ?p" by auto
  have e: "(\<exists>j \<in> set (visits ?T ?p ?T). \<not> st core j \<and> ?ic ! j < - 1) = (\<exists>j < ?T. \<not> st core j)"
    using w(1) by (auto simp: set_visits[OF p])
  have "best (st core) (in_flight_count ports m core) (visits ?T ?p ?T) t" if b: "best (st core) (\<lambda>j. uint (?ic ! j)) (visits ?T ?p ?T) t"
  proof -
    from b obtain pre post where q: "visits ?T ?p ?T = pre @ t # post" "\<not> st core t" "\<forall>j \<in> set pre. \<not> st core j \<longrightarrow> uint (?ic ! t) < uint (?ic ! j)"
      "\<forall>j \<in> set post. \<not> st core j \<longrightarrow> uint (?ic ! t) \<le> uint (?ic ! j)" unfolding best_def by blast
    have "set (pre @ t # post) = {..< ?T}" using set_visits[OF p] q(1) by simp
    then have "t < ?T" "\<forall>j \<in> set pre. j < ?T" "\<forall>j \<in> set post. j < ?T" by auto
    then have "\<forall>j \<in> set pre. \<not> st core j \<longrightarrow> in_flight_count ports m core t < in_flight_count ports m core j"
      "\<forall>j \<in> set post. \<not> st core j \<longrightarrow> in_flight_count ports m core t \<le> in_flight_count ports m core j"
      using q(3,4) by (simp_all add: w(2) del: nth_map)
    then show ?thesis unfolding best_def using q(1,2) by blast
  qed
  then have "icount_choice (st core) (in_flight_count ports m core) ?T ?p t" using t(2) unfolding e icount_choice_def by (auto split: if_splits)
  then show ?thesis using t(1) by (intro exI[of _ t]) (simp add: scheduleICount_def read_icounts_ok[OF c])
qed

lemma scheduled_ok:
  assumes "sched_ok (mt_Threads m) s" "t < mt_Threads m"
  shows "\<exists>s'. scheduled ports m t s = Inr s' \<and> sched_ok (mt_Threads m) s' \<and> theThreadThisCycle s' = t \<and>
    theRoundRobinPtr s' = (theRoundRobinPtr s + 1) mod mt_Threads m \<and> theLastScheduledCycle s' = cycleCount ports"
  using assms by (simp add: scheduled_def sched_ok_def)

lemma strict_ok:
  assumes "sched_ok (mt_Threads m) s"
  shows "sched_ok (mt_Threads m) (scheduleStrictRoundRobin ports m s)" "theThreadThisCycle (scheduleStrictRoundRobin ports m s) = theRoundRobinPtr s"
    "theRoundRobinPtr (scheduleStrictRoundRobin ports m s) = (theRoundRobinPtr s + 1) mod mt_Threads m"
    "theLastScheduledCycle (scheduleStrictRoundRobin ports m s) = cycleCount ports"
  using assms by (auto simp: scheduleStrictRoundRobin_def sched_ok_def Let_def)

definition front_choice :: "mt_ports \<Rightarrow> MTManager \<Rightarrow> (nat \<Rightarrow> nat \<Rightarrow> bool) \<Rightarrow> nat \<Rightarrow> nat \<Rightarrow> nat \<Rightarrow> bool" where
  "front_choice ports m st core ptr t \<longleftrightarrow>
     (if FrontEndPolicy m = kFE_ICount then icount_choice (st core) (in_flight_count ports m core) (mt_Threads m) ptr t else t = ptr)"

lemma scheduleThread_ok:
  assumes c: "counts_ok ports" and l: "core < mt_Cores m" "length ss = mt_Cores m" and s: "\<forall>s \<in> set ss. sched_ok (mt_Threads m) s"
  shows "\<exists>t s'. scheduleThread ports m ss st core = Inr (t, ss[core := s']) \<and> sched_ok (mt_Threads m) s' \<and> t < mt_Threads m \<and>
    front_choice ports m st core (theRoundRobinPtr (ss ! core)) t \<and> theRoundRobinPtr s' = (theRoundRobinPtr (ss ! core) + 1) mod mt_Threads m"
proof -
  let ?s = "ss ! core"
  have ok: "sched_ok (mt_Threads m) ?s" using s l by simp
  show ?thesis
  proof (cases "FrontEndPolicy m = kFE_ICount")
    case True
    from scheduleICount_ok[OF c ok, of core st] obtain t where t: "scheduleICount ports m core st ?s = scheduled ports m t ?s"
      "icount_choice (st core) (in_flight_count ports m core) (mt_Threads m) (theRoundRobinPtr ?s) t" by blast
    have "t < mt_Threads m" using choice_range(2)[OF _ t(2)] ok by (simp add: sched_ok_def)
    from scheduled_ok[OF ok this, of ports] t \<open>t < mt_Threads m\<close> True l show ?thesis by (auto simp: scheduleThread_def front_choice_def)
  next
    case False
    then show ?thesis using strict_ok[OF ok, of ports] ok l by (auto simp: scheduleThread_def front_choice_def sched_ok_def)
  qed
qed

lemma mt_okD:
  assumes "mt_ok m"
  shows "0 < mt_Threads m" "length (theFSchedules m) = mt_Cores m" "\<forall>s \<in> set (theFSchedules m). sched_ok (mt_Threads m) s"
    "length (theFAGSchedules m) = mt_Cores m" "\<forall>s \<in> set (theFAGSchedules m). sched_ok (mt_Threads m) s"
    "length (theDSchedules m) = mt_Cores m" "\<forall>s \<in> set (theDSchedules m). sched_ok (mt_Threads m) s"
    "length (theEXSchedules m) = mt_Cores m" "\<forall>s \<in> set (theEXSchedules m). sched_ok (mt_Threads m) s"
  using assms by (auto simp: mt_ok_def)

lemma sched_set: "sched_ok T s' \<Longrightarrow> \<forall>s \<in> set ss. sched_ok T s \<Longrightarrow> \<forall>s \<in> set (ss[c := s']). sched_ok T s"
  by (auto dest: set_update_subset_insert[THEN subsetD])

lemma scheduleFThread_ok:
  assumes "mt_ok m" "counts_ok ports" "core < mt_Cores m"
  shows "\<exists>t m'. scheduleFThread ports core m = Inr (t, m') \<and> mt_ok m' \<and> t < mt_Threads m \<and> mt_Threads m' = mt_Threads m \<and> mt_Cores m' = mt_Cores m \<and>
    FrontEndPolicy m' = FrontEndPolicy m \<and> front_choice ports m (isFStalled ports m) core (theRoundRobinPtr (theFSchedules m ! core)) t \<and>
    theRoundRobinPtr (theFSchedules m' ! core) = (theRoundRobinPtr (theFSchedules m ! core) + 1) mod mt_Threads m"
proof -
  note d = mt_okD[OF assms(1)]
  from scheduleThread_ok[OF assms(2,3) d(2,3), of "isFStalled ports m"] obtain t s' where r: "scheduleThread ports m (theFSchedules m) (isFStalled ports m) core = Inr (t, (theFSchedules m)[core := s'])"
    "sched_ok (mt_Threads m) s'" "t < mt_Threads m" "front_choice ports m (isFStalled ports m) core (theRoundRobinPtr (theFSchedules m ! core)) t"
    "theRoundRobinPtr s' = (theRoundRobinPtr (theFSchedules m ! core) + 1) mod mt_Threads m" by blast
  have "mt_ok (m\<lparr>theFSchedules := (theFSchedules m)[core := s']\<rparr>)" using assms(1) sched_set[OF r(2) d(3), of core] by (simp add: mt_ok_def)
  then show ?thesis using r d(2) assms(3) by (simp add: scheduleFThread_def)
qed

lemma scheduleFAGThread_ok:
  assumes "mt_ok m" "counts_ok ports" "core < mt_Cores m"
  shows "\<exists>t m'. scheduleFAGThread ports core m = Inr (t, m') \<and> mt_ok m' \<and> t < mt_Threads m \<and>
    front_choice ports m (isFAGStalled ports m) core (theRoundRobinPtr (theFAGSchedules m ! core)) t"
proof -
  note d = mt_okD[OF assms(1)]
  from scheduleThread_ok[OF assms(2,3) d(4,5), of "isFAGStalled ports m"] obtain t s' where r: "scheduleThread ports m (theFAGSchedules m) (isFAGStalled ports m) core = Inr (t, (theFAGSchedules m)[core := s'])"
    "sched_ok (mt_Threads m) s'" "t < mt_Threads m" "front_choice ports m (isFAGStalled ports m) core (theRoundRobinPtr (theFAGSchedules m ! core)) t" by blast
  have "mt_ok (m\<lparr>theFAGSchedules := (theFAGSchedules m)[core := s']\<rparr>)" using assms(1) sched_set[OF r(2) d(5), of core] by (simp add: mt_ok_def)
  then show ?thesis using r by (simp add: scheduleFAGThread_def)
qed

section \<open>One thread per cycle\<close>

text \<open>Threads ask one after the other whether they may run; the first question of a cycle decides.\<close>

fun ask_all :: "(nat \<Rightarrow> MTManager \<Rightarrow> (bool \<times> MTManager) res) \<Rightarrow> nat list \<Rightarrow> MTManager \<Rightarrow> (bool list \<times> MTManager) res" where
  "ask_all run [] m = Inr ([], m)"
| "ask_all run (i # is) m = bindE (run i m) (\<lambda>(b, m). bindE (ask_all run is m) (\<lambda>(bs, m). Inr (b # bs, m)))"

definition back_choice :: "mt_ports \<Rightarrow> MTManager \<Rightarrow> (nat \<Rightarrow> nat \<Rightarrow> bool) \<Rightarrow> nat \<Rightarrow> nat \<Rightarrow> nat \<Rightarrow> bool" where
  "back_choice ports m st core ptr t \<longleftrightarrow>
     (if BackEndPolicy m = kBE_SmartRoundRobin then smart_choice (st core) (mt_Threads m) ptr t else t = ptr)"

locale thread_grant =
  fixes run :: "mt_ports \<Rightarrow> nat \<Rightarrow> MTManager \<Rightarrow> (bool \<times> MTManager) res"
    and schedules :: "MTManager \<Rightarrow> ScheduleState list"
    and stalled :: "mt_ports \<Rightarrow> MTManager \<Rightarrow> nat \<Rightarrow> nat \<Rightarrow> bool"
  assumes keeps: "\<lbrakk>mt_ok m; c < mt_Cores m; x < mt_Threads m; theLastScheduledCycle (schedules m ! c) = cycleCount ports\<rbrakk> \<Longrightarrow>
      run ports (c * mt_Threads m + x) m = Inr (theThreadThisCycle (schedules m ! c) = x, m)"
    and decides: "\<lbrakk>mt_ok m; c < mt_Cores m; x < mt_Threads m; theLastScheduledCycle (schedules m ! c) \<noteq> cycleCount ports\<rbrakk> \<Longrightarrow>
      \<exists>t m'. run ports (c * mt_Threads m + x) m = Inr (t = x, m') \<and> mt_ok m' \<and> mt_Cores m' = mt_Cores m \<and> mt_Threads m' = mt_Threads m \<and>
        theThreadThisCycle (schedules m' ! c) = t \<and> theLastScheduledCycle (schedules m' ! c) = cycleCount ports \<and>
        t < mt_Threads m \<and> back_choice ports m (stalled ports m) c (theRoundRobinPtr (schedules m ! c)) t"
    and in_range: "\<lbrakk>mt_ok m; c < mt_Cores m\<rbrakk> \<Longrightarrow> theThreadThisCycle (schedules m ! c) < mt_Threads m"
begin

lemma settled:
  assumes "mt_ok m" "c < mt_Cores m" "theLastScheduledCycle (schedules m ! c) = cycleCount ports" "\<forall>x \<in> set xs. x < mt_Threads m"
  shows "ask_all (run ports) (map (\<lambda>x. c * mt_Threads m + x) xs) m = Inr (map (\<lambda>x. x = theThreadThisCycle (schedules m ! c)) xs, m)"
  using assms(4) keeps[OF assms(1,2) _ assms(3)] by (induction xs) auto

lemma one_thread:
  assumes ok: "mt_ok m" and c: "c < mt_Cores m" and xs: "\<forall>x \<in> set xs. x < mt_Threads m" "xs \<noteq> []"
  shows "\<exists>t < mt_Threads m. \<exists>m'. ask_all (run ports) (map (\<lambda>x. c * mt_Threads m + x) xs) m = Inr (map (\<lambda>x. x = t) xs, m') \<and> mt_ok m' \<and>
    (if theLastScheduledCycle (schedules m ! c) = cycleCount ports then t = theThreadThisCycle (schedules m ! c)
     else back_choice ports m (stalled ports m) c (theRoundRobinPtr (schedules m ! c)) t)"
proof (cases "theLastScheduledCycle (schedules m ! c) = cycleCount ports")
  case True
  then show ?thesis using settled[OF ok c True xs(1)] in_range[OF ok c] ok by auto
next
  case False
  obtain x ys where x: "xs = x # ys" using xs(2) by (cases xs) auto
  then have "x < mt_Threads m" using xs(1) by simp
  from decides[OF ok c this False] obtain t m' where t: "run ports (c * mt_Threads m + x) m = Inr (t = x, m')" "mt_ok m'" "mt_Cores m' = mt_Cores m"
    "mt_Threads m' = mt_Threads m" "theThreadThisCycle (schedules m' ! c) = t" "theLastScheduledCycle (schedules m' ! c) = cycleCount ports" "t < mt_Threads m"
    "back_choice ports m (stalled ports m) c (theRoundRobinPtr (schedules m ! c)) t" by blast
  have "ask_all (run ports) (map (\<lambda>x. c * mt_Threads m + x) ys) m' = Inr (map (\<lambda>x. x = t) ys, m')"
    using settled[OF t(2) _ t(6), of ys] c xs(1) t(3,4,5) x by simp
  then show ?thesis using t False x by (auto simp: eq_commute[of t])
qed

end

lemma back_schedule_ok:
  assumes s: "sched_ok (mt_Threads m) s"
  shows "\<exists>s'. (if BackEndPolicy m = kBE_SmartRoundRobin then scheduled ports m (skip_stalled (st c) (mt_Threads m) (mt_Threads m) (theRoundRobinPtr s)) s
     else Inr (scheduleStrictRoundRobin ports m s)) = Inr s' \<and> sched_ok (mt_Threads m) s' \<and> theLastScheduledCycle s' = cycleCount ports \<and>
     back_choice ports m st c (theRoundRobinPtr s) (theThreadThisCycle s')"
proof (cases "BackEndPolicy m = kBE_SmartRoundRobin")
  case True
  let ?t = "skip_stalled (st c) (mt_Threads m) (mt_Threads m) (theRoundRobinPtr s)"
  have p: "theRoundRobinPtr s < mt_Threads m" using s by (simp add: sched_ok_def)
  note ch = smart_choice_skip[OF p, of "st c"]
  from scheduled_ok[OF s choice_range(1)[OF p ch], of ports] True ch show ?thesis by (auto simp: back_choice_def)
next
  case False
  then show ?thesis using strict_ok[OF s, of ports] by (auto simp: back_choice_def)
qed

interpretation execute: thread_grant runThisEX theEXSchedules isEXStalled
proof
  fix m :: MTManager and c x and ports :: mt_ports
  assume ok: "mt_ok m" and c: "c < mt_Cores m"
  note d = mt_okD[OF ok]
  then have s: "sched_ok (mt_Threads m) (theEXSchedules m ! c)" using c by simp
  then show "theThreadThisCycle (theEXSchedules m ! c) < mt_Threads m" by (simp add: sched_ok_def)
  assume x: "x < mt_Threads m"
  {
    assume "theLastScheduledCycle (theEXSchedules m ! c) = cycleCount ports"
    then show "runThisEX ports (c * mt_Threads m + x) m = Inr (theThreadThisCycle (theEXSchedules m ! c) = x, m)"
      using x c d by (simp add: runThisEX_def)
  }
  assume "theLastScheduledCycle (theEXSchedules m ! c) \<noteq> cycleCount ports"
  moreover from back_schedule_ok[OF s, of ports "isEXStalled ports m" c] obtain s' where s': "(if BackEndPolicy m = kBE_SmartRoundRobin
      then scheduleExecuteRoundRobin ports m c (theEXSchedules m ! c) else Inr (scheduleStrictRoundRobin ports m (theEXSchedules m ! c))) = Inr s'"
    "sched_ok (mt_Threads m) s'" "theLastScheduledCycle s' = cycleCount ports"
    "back_choice ports m (isEXStalled ports m) c (theRoundRobinPtr (theEXSchedules m ! c)) (theThreadThisCycle s')" unfolding scheduleExecuteRoundRobin_def by blast
  ultimately have "runThisEX ports (c * mt_Threads m + x) m = Inr (theThreadThisCycle s' = x, m\<lparr>theEXSchedules := (theEXSchedules m)[c := s']\<rparr>)"
    using x c d by (simp add: runThisEX_def)
  moreover have "mt_ok (m\<lparr>theEXSchedules := (theEXSchedules m)[c := s']\<rparr>)" using ok sched_set[OF s'(2) d(9), of c] by (simp add: mt_ok_def)
  ultimately show "\<exists>t m'. runThisEX ports (c * mt_Threads m + x) m = Inr (t = x, m') \<and> mt_ok m' \<and> mt_Cores m' = mt_Cores m \<and> mt_Threads m' = mt_Threads m \<and>
      theThreadThisCycle (theEXSchedules m' ! c) = t \<and> theLastScheduledCycle (theEXSchedules m' ! c) = cycleCount ports \<and>
      t < mt_Threads m \<and> back_choice ports m (isEXStalled ports m) c (theRoundRobinPtr (theEXSchedules m ! c)) t"
    using s' c d by (intro exI[of _ "theThreadThisCycle s'"] exI[of _ "m\<lparr>theEXSchedules := (theEXSchedules m)[c := s']\<rparr>"]) (simp add: sched_ok_def)
qed

interpretation dispatch: thread_grant runThisD theDSchedules isDStalled
proof
  fix m :: MTManager and c x and ports :: mt_ports
  assume ok: "mt_ok m" and c: "c < mt_Cores m"
  note d = mt_okD[OF ok]
  then have s: "sched_ok (mt_Threads m) (theDSchedules m ! c)" using c by simp
  then show "theThreadThisCycle (theDSchedules m ! c) < mt_Threads m" by (simp add: sched_ok_def)
  assume x: "x < mt_Threads m"
  {
    assume "theLastScheduledCycle (theDSchedules m ! c) = cycleCount ports"
    then show "runThisD ports (c * mt_Threads m + x) m = Inr (theThreadThisCycle (theDSchedules m ! c) = x, m)"
      using x c d by (simp add: runThisD_def)
  }
  assume "theLastScheduledCycle (theDSchedules m ! c) \<noteq> cycleCount ports"
  moreover from back_schedule_ok[OF s, of ports "isDStalled ports m" c] obtain s' where s': "(if BackEndPolicy m = kBE_SmartRoundRobin
      then scheduleDispatchRoundRobin ports m c (theDSchedules m ! c) else Inr (scheduleStrictRoundRobin ports m (theDSchedules m ! c))) = Inr s'"
    "sched_ok (mt_Threads m) s'" "theLastScheduledCycle s' = cycleCount ports"
    "back_choice ports m (isDStalled ports m) c (theRoundRobinPtr (theDSchedules m ! c)) (theThreadThisCycle s')" unfolding scheduleDispatchRoundRobin_def by blast
  ultimately have "runThisD ports (c * mt_Threads m + x) m = Inr (theThreadThisCycle s' = x, m\<lparr>theDSchedules := (theDSchedules m)[c := s']\<rparr>)"
    using x c d by (simp add: runThisD_def)
  moreover have "mt_ok (m\<lparr>theDSchedules := (theDSchedules m)[c := s']\<rparr>)" using ok sched_set[OF s'(2) d(7), of c] by (simp add: mt_ok_def)
  ultimately show "\<exists>t m'. runThisD ports (c * mt_Threads m + x) m = Inr (t = x, m') \<and> mt_ok m' \<and> mt_Cores m' = mt_Cores m \<and> mt_Threads m' = mt_Threads m \<and>
      theThreadThisCycle (theDSchedules m' ! c) = t \<and> theLastScheduledCycle (theDSchedules m' ! c) = cycleCount ports \<and>
      t < mt_Threads m \<and> back_choice ports m (isDStalled ports m) c (theRoundRobinPtr (theDSchedules m ! c)) t"
    using s' c d by (intro exI[of _ "theThreadThisCycle s'"] exI[of _ "m\<lparr>theDSchedules := (theDSchedules m)[c := s']\<rparr>"]) (simp add: sched_ok_def)
qed

section \<open>Properties\<close>

text \<open>C27: In a cycle exactly one thread of a core executes and exactly one dispatches, however often and in whatever order
  its threads ask: the answers single out the thread chosen at the first question of the cycle. A smart policy passes
  over stalled threads and takes the first one in round-robin order that can run; the strict policy takes the next one.\<close>

theorem one_thread_per_cycle:
  assumes "mt_ok m" "c < mt_Cores m" "\<forall>x \<in> set xs. x < mt_Threads m" "xs \<noteq> []"
  shows "(\<exists>t < mt_Threads m. \<exists>m'. ask_all (runThisEX ports) (map (\<lambda>x. c * mt_Threads m + x) xs) m = Inr (map (\<lambda>x. x = t) xs, m') \<and> mt_ok m' \<and>
      (if theLastScheduledCycle (theEXSchedules m ! c) = cycleCount ports then t = theThreadThisCycle (theEXSchedules m ! c)
       else back_choice ports m (isEXStalled ports m) c (theRoundRobinPtr (theEXSchedules m ! c)) t)) \<and>
    (\<exists>t < mt_Threads m. \<exists>m'. ask_all (runThisD ports) (map (\<lambda>x. c * mt_Threads m + x) xs) m = Inr (map (\<lambda>x. x = t) xs, m') \<and> mt_ok m' \<and>
      (if theLastScheduledCycle (theDSchedules m ! c) = cycleCount ports then t = theThreadThisCycle (theDSchedules m ! c)
       else back_choice ports m (isDStalled ports m) c (theRoundRobinPtr (theDSchedules m ! c)) t))"
  using execute.one_thread[OF assms] dispatch.one_thread[OF assms] by blast

definition demo_mt :: MTManager where
  "demo_mt = mt_initialize 1 2 0 1"

definition demo_ports :: mt_ports where
  "demo_ports = \<lparr>EXStalled = (\<lambda>i. i = 0), FAGStalled = (\<lambda>_. False), FStalled = (\<lambda>_. False), DStalled = (\<lambda>_. False), FAQ_ICount = (\<lambda>_. 0),
     FIQ_ICount = (\<lambda>_. 0), ROB_ICount = (\<lambda>_. 0), cycleCount = 7\<rparr>"

theorem one_thread_per_cycle_witness:
  "\<exists>m'. ask_all (runThisEX demo_ports) [1, 0, 1] demo_mt = Inr ([True, False, True], m')"
proof -
  have ok: "mt_ok demo_mt" by (simp add: demo_mt_def mt_initialize_ok)
  have s: "mt_Threads demo_mt = 2" "mt_Cores demo_mt = 1" "theLastScheduledCycle (theEXSchedules demo_mt ! 0) = 0" "theRoundRobinPtr (theEXSchedules demo_mt ! 0) = 0"
    "BackEndPolicy demo_mt = kBE_SmartRoundRobin" by (simp_all add: demo_mt_def mt_initialize_def Let_def ScheduleState_new_def kBE_SmartRoundRobin_def)
  from one_thread_per_cycle[OF ok, of 0 "[1, 0, 1]" demo_ports, THEN conjunct1] obtain t m' where t: "t < 2"
    "ask_all (runThisEX demo_ports) [1, 0, 1] demo_mt = Inr ([1 = t, 0 = t, 1 = t], m')" "back_choice demo_ports demo_mt (isEXStalled demo_ports demo_mt) 0 0 t"
    by (auto simp: s demo_ports_def)
  have "isEXStalled demo_ports demo_mt 0 = (\<lambda>j. j = 0)" by (simp add: isEXStalled_def demo_ports_def fun_eq_iff)
  then have "t \<noteq> 0" using t(3) by (auto simp: back_choice_def smart_choice_def first_ready_def s split: if_splits dest: spec[of _ "1 :: nat"])
  then show ?thesis using t(1,2) by (auto simp: less_2_cases_iff)
qed

fun schedule_cycles :: "mt_ports list \<Rightarrow> nat \<Rightarrow> MTManager \<Rightarrow> (nat list \<times> MTManager) res" where
  "schedule_cycles [] core m = Inr ([], m)"
| "schedule_cycles (ports # pss) core m =
     bindE (scheduleFThread ports core m) (\<lambda>(t, m). bindE (schedule_cycles pss core m) (\<lambda>(ts, m). Inr (t # ts, m)))"

lemma strict_cycles:
  assumes "mt_ok m" "core < mt_Cores m" "FrontEndPolicy m \<noteq> kFE_ICount" "\<forall>ports \<in> set pss. counts_ok ports"
  shows "\<exists>m'. schedule_cycles pss core m = Inr (visits (mt_Threads m) (theRoundRobinPtr (theFSchedules m ! core)) (length pss), m') \<and> mt_ok m'"
  using assms
proof (induction pss arbitrary: m)
  case Nil
  then show ?case by (simp add: visits_def)
next
  case (Cons ports pss)
  let ?p = "theRoundRobinPtr (theFSchedules m ! core)"
  have p: "?p < mt_Threads m" using mt_okD(2,3)[OF Cons.prems(1)] Cons.prems(2) by (simp add: sched_ok_def)
  from scheduleFThread_ok[OF Cons.prems(1) _ Cons.prems(2), of ports] Cons.prems(4) obtain t m' where r: "scheduleFThread ports core m = Inr (t, m')" "mt_ok m'"
    "mt_Threads m' = mt_Threads m" "mt_Cores m' = mt_Cores m" "FrontEndPolicy m' = FrontEndPolicy m"
    "front_choice ports m (isFStalled ports m) core ?p t" "theRoundRobinPtr (theFSchedules m' ! core) = (?p + 1) mod mt_Threads m" by auto
  have "t = ?p" using r(6) Cons.prems(3) by (simp add: front_choice_def)
  moreover from Cons.IH[OF r(2)] Cons.prems r obtain m'' where "schedule_cycles pss core m' = Inr (visits (mt_Threads m) ((?p + 1) mod mt_Threads m) (length pss), m'')" "mt_ok m''"
    by auto
  ultimately show ?case using r(1) visits_Suc[OF p, of "length pss"] by simp
qed

text \<open>C40: Strict round-robin is fair: over consecutive cycles the fetch unit of a core serves its threads in cyclic order,
  whatever their state, so within as many cycles as there are threads each of them has had its turn.\<close>

theorem round_robin_fair:
  assumes "mt_ok m" "core < mt_Cores m" "FrontEndPolicy m \<noteq> kFE_ICount" "\<forall>ports \<in> set pss. counts_ok ports" "length pss = mt_Threads m"
  shows "\<exists>ts m'. schedule_cycles pss core m = Inr (ts, m') \<and> set ts = {..< mt_Threads m} \<and> distinct ts \<and> mt_ok m'"
proof -
  let ?p = "theRoundRobinPtr (theFSchedules m ! core)"
  have p: "?p < mt_Threads m" using mt_okD(2,3)[OF assms(1)] assms(2) by (simp add: sched_ok_def)
  have "set (visits (mt_Threads m) ?p (length pss)) = {..< mt_Threads m}" using set_visits[OF p] assms(5) by simp
  moreover have "length (visits (mt_Threads m) ?p (length pss)) = mt_Threads m" by (simp add: visits_def assms(5))
  ultimately have "distinct (visits (mt_Threads m) ?p (length pss))" using card_distinct[of "visits (mt_Threads m) ?p (length pss)"] by simp
  then show ?thesis using strict_cycles[OF assms(1-4)] \<open>set _ = _\<close> by blast
qed

theorem round_robin_fair_witness:
  "\<exists>ts m'. schedule_cycles [demo_ports, demo_ports] 0 demo_mt = Inr (ts, m') \<and> set ts = {..< 2}"
proof -
  have "mt_ok demo_mt" "0 < mt_Cores demo_mt" "FrontEndPolicy demo_mt \<noteq> kFE_ICount" "mt_Threads demo_mt = 2" "counts_ok demo_ports"
    by (simp_all add: demo_mt_def mt_initialize_ok) (simp_all add: mt_initialize_def Let_def kFE_ICount_def counts_ok_def demo_ports_def)
  then show ?thesis using round_robin_fair[of demo_mt 0 "[demo_ports, demo_ports]"] by auto
qed

end
