(* ===== verification/CacheCheckpoint.thy ===== *)
theory CacheCheckpoint
  imports StdCache
begin

text \<open>
  Saving and loading the tag array of the functional cache (\<^verbatim>\<open>StdCache::saveState\<close> and
  \<^verbatim>\<open>StdCache::loadState\<close>), as text and as a binary archive.

  The text form is modelled as the tokens the stream operators write and read: the white space between
  them has no meaning. A wrong bracket where the reader checks one makes it report failure; text in which
  a number stands for a bracket the reader does not check, a bracket for a number, or which ends early, is
  the outcome \<open>BadToken\<close>: what the variables of the reader then hold is not modelled. The binary archive is
  the sequence of values written to it.
\<close>

unbundle bit_operations_syntax

section \<open>Text\<close>

datatype token = Sym char | Num nat

definition save_code :: "CoherenceState_t \<Rightarrow> nat res" where
  "save_code st = (case st of
     kModified \<Rightarrow> Inr 7 | kOwned \<Rightarrow> Inr 3 | kExclusive \<Rightarrow> Inr 5 | kShared \<Rightarrow> Inr 1 | kInvalid \<Rightarrow> Inr 0
   | _ \<Rightarrow> Inl AssertionFailed)"

definition load_code :: "nat \<Rightarrow> CoherenceState_t res" where
  "load_code n = (if n = 7 then Inr kModified else if n = 3 then Inr kOwned else if n = 5 then Inr kExclusive
     else if n = 1 then Inr kShared else if n = 0 then Inr kInvalid else Inl AssertionFailed)"

definition tag_shift :: "StdCache \<Rightarrow> nat" where
  "tag_shift c = blockShift c + log_base2 (theNumSets c)"

definition entry_tokens :: "nat \<Rightarrow> nat \<Rightarrow> token list" where
  "entry_tokens st t = [Sym CHR ''['', Num st, Num t, Sym CHR '']'']"

definition save_block :: "StdCache \<Rightarrow> BlockEntry \<Rightarrow> token list \<Rightarrow> token list res" where
  "save_block c b out =
     bindE (save_code (be_state b)) (\<lambda>n. Inr (out @ entry_tokens n (unat (drop_bit (tag_shift c) (be_tag b)))))"

definition save_set :: "StdCache \<Rightarrow> BlockEntry list \<Rightarrow> token list \<Rightarrow> token list res" where
  "save_set c xs out =
     bindE (foldE (save_block c) xs (out @ [Sym CHR ''{''])) (\<lambda>out.
     Inr (out @ concat (replicate (theAssoc c - length xs) (entry_tokens 0 0)) @ [Sym CHR ''}'', Sym CHR ''<''] @
          map Num [0..<theAssoc c] @ [Sym CHR ''>'']))"

definition saveState_text :: "StdCache \<Rightarrow> token list res" where
  "saveState_text c = foldE (save_set c) (theBlocks c) []"

fun read_sym :: "token list \<Rightarrow> (char \<times> token list) res" where
  "read_sym (Sym x # ts) = Inr (x, ts)"
| "read_sym _ = Inl BadToken"

fun read_num :: "token list \<Rightarrow> (nat \<times> token list) res" where
  "read_num (Num x # ts) = Inr (x, ts)"
| "read_num _ = Inl BadToken"

fun expect :: "char \<Rightarrow> token list \<Rightarrow> token list res" where
  "expect x (Sym y # ts) = (if y \<noteq> x then Inl ErrorReturn else Inr ts)"
| "expect x (Num _ # ts) = Inl ErrorReturn"
| "expect x [] = Inl BadToken"

definition load_block :: "StdCache \<Rightarrow> nat \<Rightarrow> nat \<Rightarrow> token list \<times> BlockEntry list \<Rightarrow> (token list \<times> BlockEntry list) res" where
  "load_block c set_index j = (\<lambda>(ts, xs).
     bindE (read_sym ts) (\<lambda>(_, ts).
     bindE (read_num ts) (\<lambda>(load_state, ts).
     bindE (read_num ts) (\<lambda>(load_tag, ts).
     bindE (read_sym ts) (\<lambda>(_, ts).
     bindE (load_code load_state) (\<lambda>st.
     if set_index * 2 ^ blockShift c \<ge> 2 ^ 31 then Inl UndefinedBehaviour else
     Inr (ts, push_end \<lparr>be_tag = push_bit (tag_shift c) (of_nat load_tag) OR of_nat (set_index * 2 ^ blockShift c),
                        be_state = st, be_way = j\<rparr> xs)))))))"

definition load_set :: "nat \<Rightarrow> token list \<times> StdCache \<Rightarrow> (token list \<times> StdCache) res" where
  "load_set i = (\<lambda>(ts, c).
     bindE (expect CHR ''{'' ts) (\<lambda>ts.
     bindE (foldE (load_block c i) [0..<theAssoc c] (ts, theBlocks c ! i)) (\<lambda>(ts, xs).
     bindE (expect CHR ''}'' ts) (\<lambda>ts.
     bindE (expect CHR ''<'' ts) (\<lambda>ts.
     bindE (foldE (\<lambda>_ ts. bindE (read_num ts) (\<lambda>(_, ts). Inr ts)) [0..<theAssoc c] ts) (\<lambda>ts.
     bindE (expect CHR ''>'' ts) (\<lambda>ts.
     Inr (ts, set_blocks i xs c))))))))"

definition loadState_text :: "token list \<Rightarrow> StdCache \<Rightarrow> StdCache res" where
  "loadState_text ts c = bindE (foldE load_set [0..<theNumSets c] (ts, c)) (\<lambda>p. Inr (snd p))"

section \<open>Binary\<close>

record archive =
  ar_set_count :: nat
  ar_associativity :: nat
  ar_blocks :: "(64 word \<times> char) list"

definition state_char :: "CoherenceState_t \<Rightarrow> char res" where
  "state_char st = (case st of
     kModified \<Rightarrow> Inr CHR ''M'' | kOwned \<Rightarrow> Inr CHR ''O'' | kExclusive \<Rightarrow> Inr CHR ''E'' | kShared \<Rightarrow> Inr CHR ''S''
   | kInvalid \<Rightarrow> Inr CHR ''I'' | _ \<Rightarrow> Inl AssertionFailed)"

definition char_state :: "char \<Rightarrow> CoherenceState_t res" where
  "char_state x = (if x = CHR ''M'' then Inr kModified else if x = CHR ''O'' then Inr kOwned
     else if x = CHR ''E'' then Inr kExclusive else if x = CHR ''S'' then Inr kShared
     else if x = CHR ''I'' then Inr kInvalid else Inl AssertionFailed)"

definition save_bin_set :: "StdCache \<Rightarrow> BlockEntry list \<Rightarrow> (64 word \<times> char) list \<Rightarrow> (64 word \<times> char) list res" where
  "save_bin_set c xs out =
     bindE (foldE (\<lambda>b out. bindE (state_char (be_state b)) (\<lambda>x. Inr (out @ [(be_tag b, x)]))) xs out) (\<lambda>out.
     Inr (out @ replicate (theAssoc c - length xs) (0, CHR ''I'')))"

definition saveState_bin :: "StdCache \<Rightarrow> archive res" where
  "saveState_bin c =
     bindE (foldE (save_bin_set c) (theBlocks c) []) (\<lambda>bs.
     Inr \<lparr>ar_set_count = theNumSets c, ar_associativity = theAssoc c, ar_blocks = bs\<rparr>)"

definition load_bin_block :: "nat \<Rightarrow> (64 word \<times> char) list \<times> BlockEntry list \<Rightarrow> ((64 word \<times> char) list \<times> BlockEntry list) res" where
  "load_bin_block w = (\<lambda>(bs, xs).
     (case bs of [] \<Rightarrow> Inl ErrorReturn
      | (t, x) # bs \<Rightarrow> bindE (char_state x) (\<lambda>st. Inr (bs, push_end \<lparr>be_tag = t, be_state = st, be_way = w\<rparr> xs))))"

definition load_bin_set :: "nat \<Rightarrow> (64 word \<times> char) list \<times> StdCache \<Rightarrow> ((64 word \<times> char) list \<times> StdCache) res" where
  "load_bin_set i = (\<lambda>(bs, c).
     bindE (foldE load_bin_block [0..<theAssoc c] (bs, theBlocks c ! i)) (\<lambda>(bs, xs). Inr (bs, set_blocks i xs c)))"

definition loadState_bin :: "archive \<Rightarrow> StdCache \<Rightarrow> StdCache res" where
  "loadState_bin ar c =
     bindE (dbg_assert (ar_set_count ar = theNumSets c)) (\<lambda>_.
     bindE (dbg_assert (ar_associativity ar = theAssoc c)) (\<lambda>_.
     bindE (foldE load_bin_set [0..<theNumSets c] (ar_blocks ar, c)) (\<lambda>p. Inr (snd p))))"

section \<open>What is restored\<close>

definition blank :: "StdCache \<Rightarrow> StdCache" where
  "blank c = c\<lparr>theBlocks := replicate (theNumSets c) []\<rparr>"

definition contents :: "BlockEntry list \<Rightarrow> (64 word \<times> CoherenceState_t) list" where
  "contents xs = map (\<lambda>b. (be_tag b, be_state b)) xs"

definition restores :: "StdCache \<Rightarrow> StdCache \<Rightarrow> bool" where
  "restores c c' \<longleftrightarrow> cache_ok c' \<and> geometry c' = geometry c \<and> state_of c' = state_of c \<and>
     (\<forall>i < theNumSets c. filter (\<lambda>(t, st). isValid st) (contents (theBlocks c' ! i)) =
        filter (\<lambda>(t, st). isValid st) (contents (theBlocks c ! i)))"

fun push_all :: "nat \<Rightarrow> (64 word \<times> CoherenceState_t) list \<Rightarrow> BlockEntry list \<Rightarrow> BlockEntry list" where
  "push_all j [] xs = xs"
| "push_all j ((t, st) # es) xs = push_all (Suc j) es (push_end \<lparr>be_tag = t, be_state = st, be_way = j\<rparr> xs)"

fun numbered :: "nat \<Rightarrow> (64 word \<times> CoherenceState_t) list \<Rightarrow> BlockEntry list" where
  "numbered j [] = []"
| "numbered j ((t, st) # es) = \<lparr>be_tag = t, be_state = st, be_way = j\<rparr> # numbered (Suc j) es"

lemma numbered_facts [simp]:
  "map be_tag (numbered j es) = map fst es" "contents (numbered j es) = es" "length (numbered j es) = length es"
  by (induction j es rule: numbered.induct) (simp_all add: contents_def)

lemma numbered_ways [simp]: "be_way ` set (numbered j es) = {j..<j + length es}"
  by (induction j es rule: numbered.induct) auto

lemma numbered_tags [simp]: "be_tag ` set (numbered j es) = fst ` set es"
  by (metis list.set_map numbered_facts(1))

lemma push_end_new:
  "t \<notin> be_tag ` set xs \<Longrightarrow> j \<notin> be_way ` set xs \<Longrightarrow>
   push_end \<lparr>be_tag = t, be_state = st, be_way = j\<rparr> xs = xs @ [\<lparr>be_tag = t, be_state = st, be_way = j\<rparr>]"
  by (auto simp: push_end_def push_block_def)

lemma push_all_distinct:
  "distinct (map fst es) \<Longrightarrow> fst ` set es \<inter> be_tag ` set xs = {} \<Longrightarrow> be_way ` set xs \<subseteq> {..<j} \<Longrightarrow>
   push_all j es xs = xs @ numbered j es"
proof (induction j es xs rule: push_all.induct)
  case (2 j t st es xs)
  have "push_end \<lparr>be_tag = t, be_state = st, be_way = j\<rparr> xs = xs @ [\<lparr>be_tag = t, be_state = st, be_way = j\<rparr>]"
    by (rule push_end_new) (use 2(2-) in auto)
  moreover have "be_way ` set xs \<subseteq> {..<Suc j}" using 2(4) by auto
  ultimately show ?case using 2 by (auto simp: image_iff)
qed simp

lemma push_all_append: "push_all j (es @ es') xs = push_all (j + length es) es' (push_all j es xs)"
  by (induction j es xs rule: push_all.induct) simp_all

lemma push_all_present:
  "\<forall>e \<in> set es. fst e \<in> be_tag ` set xs \<Longrightarrow> push_all j es xs = xs"
proof (induction j es xs rule: push_all.induct)
  case (2 j t st es xs)
  then have "push_end \<lparr>be_tag = t, be_state = st, be_way = j\<rparr> xs = xs"
    by (auto simp: push_end_def push_block_def image_iff)
  with 2 show ?case by simp
qed simp

text \<open>The padding adds at most one invalid block: all its entries have the same tag.\<close>

lemma push_all_padding:
  assumes "be_way ` set xs \<subseteq> {..<j}"
  shows "push_all j (replicate n (t, kInvalid)) xs =
    (if n = 0 \<or> t \<in> be_tag ` set xs then xs else xs @ [\<lparr>be_tag = t, be_state = kInvalid, be_way = j\<rparr>])"
proof (cases "n = 0 \<or> t \<in> be_tag ` set xs")
  case True
  then show ?thesis by (auto intro!: push_all_present)
next
  case False
  then obtain m where n: "n = Suc m" using not0_implies_Suc by blast
  have "push_end \<lparr>be_tag = t, be_state = kInvalid, be_way = j\<rparr> xs = xs @ [\<lparr>be_tag = t, be_state = kInvalid, be_way = j\<rparr>]"
    by (rule push_end_new) (use False assms in auto)
  then show ?thesis using False by (auto simp: n intro!: push_all_present)
qed

definition row :: "nat \<Rightarrow> 64 word \<Rightarrow> BlockEntry list \<Rightarrow> (64 word \<times> CoherenceState_t) list" where
  "row n t0 xs = contents xs @ replicate (n - length xs) (t0, kInvalid)"

lemma contents_append: "contents (xs @ ys) = contents xs @ contents ys"
  by (simp add: contents_def)

lemma upt_first: "[j..<j + Suc n] = j # [Suc j..<Suc j + n]"
  using upt_conv_Cons[of j "j + Suc n"] by simp

lemma restored_row:
  assumes so: "set_ok c i xs" and ys: "ys = push_all 0 (row (theAssoc c) t0 xs) []"
  shows "set_ok c i ys" "state_in t ys = state_in t xs"
    "filter (\<lambda>(t, st). isValid st) (contents ys) = filter (\<lambda>(t, st). isValid st) (contents xs)"
proof -
  let ?ns = "numbered 0 (contents xs)" and ?pad = "\<lparr>be_tag = t0, be_state = kInvalid, be_way = length xs\<rparr>"
  have d: "distinct (map be_tag xs)" "length xs \<le> theAssoc c" using so by (auto simp: set_ok_def)
  have c: "map fst (contents xs) = map be_tag xs" "length (contents xs) = length xs" "fst ` set (contents xs) = be_tag ` set xs"
    by (auto simp: contents_def comp_def image_image)
  have "push_all 0 (contents xs) [] = ?ns"
    using push_all_distinct[of "contents xs" "[]" 0] d(1) c by simp
  then have y: "ys = (if theAssoc c - length xs = 0 \<or> t0 \<in> be_tag ` set xs then ?ns else ?ns @ [?pad])"
    using push_all_padding[of ?ns "length xs" "theAssoc c - length xs" t0] by (simp add: ys row_def push_all_append c atLeast0LessThan)
  have st: "be_state b = kInvalid \<or> get_set c (be_tag b) = i \<and> get_tag c (be_tag b) = be_tag b" if "b \<in> set ?ns" for b
  proof -
    have "(be_tag b, be_state b) \<in> set (contents ?ns)" unfolding contents_def[of ?ns] using that by auto
    then have "(be_tag b, be_state b) \<in> set (contents xs)" by simp
    with so show ?thesis by (auto simp: contents_def set_ok_def)
  qed
  then show "set_ok c i ys" using d c by (auto simp: y set_ok_def atLeast0LessThan)
  show "filter (\<lambda>(t, st). isValid st) (contents ys) = filter (\<lambda>(t, st). isValid st) (contents xs)"
    by (simp add: y contents_append contents_def[of "[_]"])
  have m: "state_in t zs = (case map_of (contents zs) t of None \<Rightarrow> kInvalid | Some s \<Rightarrow> s)" for zs
    unfolding state_in_def by_tag_def contents_def by (induction zs) auto
  have "contents ys = contents xs \<or> contents ys = contents xs @ [(t0, kInvalid)]"
    by (simp add: y contents_append contents_def[of "[_]"])
  then show "state_in t ys = state_in t xs"
    unfolding m by (elim disjE) (simp_all add: map_add_def split: option.split)
qed

text \<open>Reading back, one set after the other, what was written.\<close>

lemma foldE_output:
  assumes "\<And>x out. x \<in> set xs \<Longrightarrow> f x out = Inr (out @ g x)"
  shows "foldE f xs out = Inr (out @ concat (map g xs))"
  using assms by (induction xs arbitrary: out) auto

lemma load_rows:
  assumes step: "\<And>i ts bs. i < n \<Longrightarrow> length bs = n \<Longrightarrow> bs ! i = [] \<Longrightarrow>
      load i (g i @ ts, c\<lparr>theBlocks := bs\<rparr>) = Inr (ts, c\<lparr>theBlocks := bs[i := R i]\<rparr>)"
  shows "foldE load [0..<n] (concat (map g [0..<n]), c\<lparr>theBlocks := replicate n []\<rparr>) = Inr ([], c\<lparr>theBlocks := map R [0..<n]\<rparr>)"
proof -
  have "k \<le> n \<Longrightarrow> foldE load [0..<k] (concat (map g [0..<n]), c\<lparr>theBlocks := replicate n []\<rparr>) =
      Inr (concat (map g [k..<n]), c\<lparr>theBlocks := map R [0..<k] @ replicate (n - k) []\<rparr>)" for k
  proof (induction k)
    case (Suc k)
    let ?bs = "map R [0..<k] @ replicate (n - k) []"
    have "concat (map g [k..<n]) = g k @ concat (map g [Suc k..<n])" using Suc.prems by (simp add: upt_conv_Cons)
    moreover have "load k (g k @ concat (map g [Suc k..<n]), c\<lparr>theBlocks := ?bs\<rparr>) =
        Inr (concat (map g [Suc k..<n]), c\<lparr>theBlocks := ?bs[k := R k]\<rparr>)"
      by (rule step) (use Suc.prems in \<open>auto simp: nth_append\<close>)
    moreover have "?bs[k := R k] = map R [0..<Suc k] @ replicate (n - Suc k) []"
      using Suc.prems by (simp add: list_update_append Suc_diff_Suc[symmetric])
    ultimately show ?case using Suc by (simp add: foldE_append)
  qed simp
  from this[of n] show ?thesis by simp
qed

lemma restores_rows:
  assumes ok: "cache_ok c" and c': "c' = c\<lparr>theBlocks := map (\<lambda>i. push_all 0 (row (theAssoc c) (t0 i) (theBlocks c ! i)) []) [0..<theNumSets c]\<rparr>"
  shows "restores c c'"
proof -
  have g: "geometry_ok c" "length (theBlocks c) = theNumSets c" using ok by (auto simp: cache_ok_def geometry_ok_def)
  have gs: "get_set c' = get_set c" "get_tag c' = get_tag c" "geometry c' = geometry c" "length (theBlocks c') = theNumSets c"
    by (auto simp: c' get_set_def get_tag_def geometry_def fun_eq_iff)
  have nth: "theBlocks c' ! i = push_all 0 (row (theAssoc c) (t0 i) (theBlocks c ! i)) []" if "i < theNumSets c" for i
    using that by (simp add: c')
  have so: "set_ok c i (theBlocks c ! i)" if "i < theNumSets c" for i using ok that g(2) by (simp add: cache_ok_def)
  note rr = restored_row[OF so nth]
  have "set_ok c' = set_ok c" using gs(1,2) by (auto simp: set_ok_def fun_eq_iff c')
  moreover have "geometry_ok c'" using g by (simp add: geometry_ok_def c')
  ultimately have "cache_ok c'" using rr(1) gs(4) by (simp add: cache_ok_def)
  moreover have "state_of c' = state_of c"
    using rr(2) gs(1) geometry_get_set[OF g(1)] g(2) by (auto simp: state_of_def fun_eq_iff)
  ultimately show ?thesis using gs rr(3) by (simp add: restores_def)
qed

section \<open>Round trips\<close>

definition no_migratory :: "StdCache \<Rightarrow> bool" where
  "no_migratory c \<longleftrightarrow> (\<forall>xs \<in> set (theBlocks c). \<forall>b \<in> set xs. be_state b \<noteq> kMigratory)"

definition bin_entry :: "64 word \<times> CoherenceState_t \<Rightarrow> 64 word \<times> char" where
  "bin_entry e = (fst e, case snd e of kModified \<Rightarrow> CHR ''M'' | kOwned \<Rightarrow> CHR ''O'' | kExclusive \<Rightarrow> CHR ''E'' | kShared \<Rightarrow> CHR ''S'' | _ \<Rightarrow> CHR ''I'')"

lemma save_bin_row:
  assumes "\<forall>b \<in> set xs. be_state b \<noteq> kMigratory"
  shows "save_bin_set c xs out = Inr (out @ map bin_entry (row (theAssoc c) 0 xs))"
proof -
  have "foldE (\<lambda>b out. bindE (state_char (be_state b)) (\<lambda>x. Inr (out @ [(be_tag b, x)]))) xs out =
      Inr (out @ concat (map (\<lambda>b. [bin_entry (be_tag b, be_state b)]) xs))"
    by (rule foldE_output) (use assms in \<open>auto simp: state_char_def bin_entry_def split: CoherenceState_t.splits\<close>)
  moreover have "concat (map (\<lambda>b. [bin_entry (be_tag b, be_state b)]) xs) = map bin_entry (contents xs)"
    by (simp add: contents_def concat_map_singleton comp_def)
  ultimately show ?thesis
    by (simp add: save_bin_set_def row_def) (simp add: bin_entry_def)
qed

lemma load_bin_row:
  "\<forall>e \<in> set es. snd e \<noteq> kMigratory \<Longrightarrow>
   foldE load_bin_block [j..<j + length es] (map bin_entry es @ bs, xs) = Inr (bs, push_all j es xs)"
proof (induction j es xs rule: push_all.induct)
  case (2 j t st es xs)
  have "[j..<j + length ((t, st) # es)] = j # [Suc j..<Suc j + length es]" using upt_first by simp
  moreover have "load_bin_block j (bin_entry (t, st) # map bin_entry es @ bs, xs) =
      Inr (map bin_entry es @ bs, push_end \<lparr>be_tag = t, be_state = st, be_way = j\<rparr> xs)"
    using 2(2) by (cases st) (simp_all add: load_bin_block_def bin_entry_def char_state_def)
  ultimately show ?case using 2 by simp
qed simp

lemma row_facts:
  assumes "set_ok c i xs"
  shows "length (row (theAssoc c) t0 xs) = theAssoc c"
    and "\<forall>b \<in> set xs. be_state b \<noteq> kMigratory \<Longrightarrow> \<forall>e \<in> set (row (theAssoc c) t0 xs). snd e \<noteq> kMigratory"
  using assms by (auto simp: row_def contents_def set_ok_def)

lemma sets_of: "cache_ok c \<Longrightarrow> i < theNumSets c \<Longrightarrow> set_ok c i (theBlocks c ! i)"
  by (simp add: cache_ok_def geometry_ok_def)

lemma blocks_upt: "cache_ok c \<Longrightarrow> map f (theBlocks c) = map (\<lambda>i. f (theBlocks c ! i)) [0..<theNumSets c]"
  by (rule nth_equalityI) (simp_all add: cache_ok_def geometry_ok_def)

lemma nth_no_migratory:
  "cache_ok c \<Longrightarrow> no_migratory c \<Longrightarrow> i < theNumSets c \<Longrightarrow> \<forall>b \<in> set (theBlocks c ! i). be_state b \<noteq> kMigratory"
  by (auto simp: no_migratory_def cache_ok_def geometry_ok_def)

text \<open>C38: Loading a binary checkpoint into an empty array of the same geometry restores the saved array: the
  invariant holds, every block has its state, and the valid blocks of every set are in the same recency order.\<close>

theorem checkpoint_bin_roundtrip:
  assumes ok: "cache_ok c" and nm: "no_migratory c"
  shows "\<exists>ar c'. saveState_bin c = Inr ar \<and> loadState_bin ar (blank c) = Inr c' \<and> restores c c'"
proof -
  let ?g = "\<lambda>i. map bin_entry (row (theAssoc c) 0 (theBlocks c ! i))"
  let ?R = "\<lambda>i. push_all 0 (row (theAssoc c) 0 (theBlocks c ! i)) []"
  have "foldE (save_bin_set c) (theBlocks c) [] = Inr ([] @ concat (map (\<lambda>xs. map bin_entry (row (theAssoc c) 0 xs)) (theBlocks c)))"
    by (rule foldE_output) (use nm in \<open>auto simp: save_bin_row no_migratory_def\<close>)
  then have save: "saveState_bin c = Inr \<lparr>ar_set_count = theNumSets c, ar_associativity = theAssoc c, ar_blocks = concat (map ?g [0..<theNumSets c])\<rparr>"
    by (simp add: saveState_bin_def blocks_upt[OF ok])
  have "foldE load_bin_set [0..<theNumSets c] (concat (map ?g [0..<theNumSets c]), c\<lparr>theBlocks := replicate (theNumSets c) []\<rparr>) =
      Inr ([], c\<lparr>theBlocks := map ?R [0..<theNumSets c]\<rparr>)"
  proof (rule load_rows)
    fix i ts and bs :: "BlockEntry list list"
    assume i: "i < theNumSets c" "length bs = theNumSets c" "bs ! i = []"
    let ?es = "row (theAssoc c) 0 (theBlocks c ! i)"
    note rf = row_facts[OF sets_of[OF ok i(1)], of 0]
    have "foldE load_bin_block [0..<theAssoc c] (map bin_entry ?es @ ts, []) = Inr (ts, ?R i)"
      using load_bin_row[of ?es 0 ts "[]"] rf nth_no_migratory[OF ok nm i(1)] by simp
    with i show "load_bin_set i (?g i @ ts, c\<lparr>theBlocks := bs\<rparr>) = Inr (ts, c\<lparr>theBlocks := bs[i := ?R i]\<rparr>)"
      by (simp add: load_bin_set_def set_blocks_def)
  qed
  then show ?thesis
    using restores_rows[OF ok refl, of "\<lambda>_. 0"] by (auto simp: save loadState_bin_def blank_def)
qed

definition tok :: "nat \<Rightarrow> 64 word \<times> CoherenceState_t \<Rightarrow> token list" where
  "tok sh e = entry_tokens (case snd e of kModified \<Rightarrow> 7 | kOwned \<Rightarrow> 3 | kExclusive \<Rightarrow> 5 | kShared \<Rightarrow> 1 | _ \<Rightarrow> 0) (unat (drop_bit sh (fst e)))"

definition home :: "StdCache \<Rightarrow> nat \<Rightarrow> 64 word \<Rightarrow> bool" where
  "home c i t \<longleftrightarrow> get_set c t = i \<and> get_tag c t = t"

definition homed :: "StdCache \<Rightarrow> bool" where
  "homed c \<longleftrightarrow> (\<forall>i < theNumSets c. \<forall>b \<in> set (theBlocks c ! i). home c i (be_tag b))"

lemma home_tag:
  assumes g: "geometry_ok c" and h: "home c i t"
  shows "push_bit (tag_shift c) (of_nat (unat (drop_bit (tag_shift c) t))) OR of_nat (i * 2 ^ blockShift c) = t"
proof -
  let ?k = "log_base2 (theNumSets c)"
  have f: "blockSetMask c = mask ?k" "blockTagMask c = NOT (mask (blockShift c))" using g by (auto simp: geometry_ok_def)
  have "i = unat (drop_bit (blockShift c) t AND mask ?k)" using h f by (simp add: home_def get_set_def)
  then have e: "of_nat (i * 2 ^ blockShift c) = push_bit (blockShift c) (drop_bit (blockShift c) t AND mask ?k)"
    by (simp only: of_nat_mult of_nat_power of_nat_numeral of_nat_unat unsigned_ucast_eq ucast_id push_bit_eq_mult)
  have low: "bit t n \<Longrightarrow> blockShift c \<le> n" for n
    using h f by (metis bit_and_iff bit_mask_iff bit_not_iff home_def get_tag_def impossible_bit linorder_not_less)
  show ?thesis
    unfolding e
  proof (rule bit_word_eqI)
    fix n assume "n < LENGTH(64)"
    then show "bit (push_bit (tag_shift c) (of_nat (unat (drop_bit (tag_shift c) t))) OR
        push_bit (blockShift c) (drop_bit (blockShift c) t AND mask ?k)) n = bit t n"
      using low[of n] by (cases "tag_shift c \<le> n") (auto simp: bit_simps tag_shift_def)
  qed
qed

lemma home_pad:
  assumes g: "geometry_ok c" and i: "i < theNumSets c" "tag_shift c \<le> 31"
  shows "home c i (of_nat (i * 2 ^ blockShift c))" "drop_bit (tag_shift c) (of_nat (i * 2 ^ blockShift c) :: 64 word) = 0"
    "i * 2 ^ blockShift c < 2 ^ 31"
proof -
  let ?k = "log_base2 (theNumSets c)" and ?b = "blockShift c"
  let ?t = "of_nat (i * 2 ^ ?b) :: 64 word"
  have n: "theNumSets c = 2 ^ ?k" "theBlockSize c = 2 ^ ?b" using g by (auto simp: geometry_ok_def)
  have "i * 2 ^ ?b < 2 ^ ?k * 2 ^ ?b" using i(1) n(1) by simp
  also have "\<dots> = 2 ^ tag_shift c" by (simp add: tag_shift_def power_add)
  finally have lt: "i * 2 ^ ?b < 2 ^ tag_shift c" .
  also have "\<dots> \<le> 2 ^ 31" by (rule power_increasing) (use i(2) in auto)
  finally show l31: "i * 2 ^ ?b < 2 ^ 31" .
  have u: "unat ?t = i * 2 ^ ?b"
    by (simp only: unat_of_nat) (use l31 in \<open>simp add: take_bit_nat_eq_self\<close>)
  have "get_set c ?t = i" using get_set_div[OF g, of ?t] i(1) by (simp only: u n(2)) simp
  moreover have "unat (get_tag c ?t) = unat ?t" using get_tag_mod[OF g, of ?t] by (simp only: u n(2)) simp
  then have "get_tag c ?t = ?t" by (simp only: word_unat_eq_iff)
  ultimately show "home c i ?t" by (simp only: home_def)
  have "unat (drop_bit (tag_shift c) ?t) = 0" using lt by (simp only: unsigned_drop_bit_eq u) (use l31 in \<open>simp add: drop_bit_eq_div take_bit_nat_eq_self\<close>)
  then show "drop_bit (tag_shift c) ?t = 0" by (simp only: unat_eq_0)
qed

lemma tok_row:
  assumes "\<forall>b \<in> set xs. be_state b \<noteq> kMigratory" "drop_bit (tag_shift c) t0 = 0"
  shows "save_set c xs out = Inr (out @ [Sym CHR ''{''] @ concat (map (tok (tag_shift c)) (row (theAssoc c) t0 xs)) @
    [Sym CHR ''}'', Sym CHR ''<''] @ map Num [0..<theAssoc c] @ [Sym CHR ''>''])"
proof -
  have "foldE (save_block c) xs out = Inr (out @ concat (map (\<lambda>b. tok (tag_shift c) (be_tag b, be_state b)) xs))" for out
    by (rule foldE_output) (use assms(1) in \<open>auto simp: save_block_def save_code_def tok_def split: CoherenceState_t.splits\<close>)
  moreover have "tok (tag_shift c) (t0, kInvalid) = entry_tokens 0 0" using assms(2) by (simp add: tok_def)
  ultimately show ?thesis by (simp add: save_set_def row_def contents_def comp_def)
qed

lemma load_text_row:
  assumes g: "geometry_ok c" and b: "i * 2 ^ blockShift c < 2 ^ 31"
  shows "\<forall>e \<in> set es. snd e \<noteq> kMigratory \<and> home c i (fst e) \<Longrightarrow>
   foldE (load_block c i) [j..<j + length es] (concat (map (tok (tag_shift c)) es) @ ts, xs) = Inr (ts, push_all j es xs)"
proof (induction j es xs rule: push_all.induct)
  case (2 j t st es xs)
  have "[j..<j + length ((t, st) # es)] = j # [Suc j..<Suc j + length es]" using upt_first by simp
  moreover have "load_block c i j (tok (tag_shift c) (t, st) @ rest, xs) =
      Inr (rest, push_end \<lparr>be_tag = t, be_state = st, be_way = j\<rparr> xs)" for rest
    using 2(2) b home_tag[OF g, of i t] by (cases st) (simp_all add: load_block_def tok_def entry_tokens_def load_code_def)
  ultimately show ?case using 2 by simp
qed simp

lemma skip_numbers: "foldE (\<lambda>_ ts. bindE (read_num ts) (\<lambda>(_, ts). Inr ts)) [0..<n] (map Num [0..<n] @ ts) = Inr ts"
proof -
  have "foldE (\<lambda>_ ts. bindE (read_num ts) (\<lambda>(_, ts). Inr ts)) xs (map Num xs @ ts) = Inr ts" for xs :: "nat list"
    by (induction xs) auto
  then show ?thesis .
qed

lemma load_block_frame: "load_block (c\<lparr>theBlocks := bs\<rparr>) = load_block c"
proof -
  have "blockShift (c\<lparr>theBlocks := bs\<rparr>) = blockShift c" "tag_shift (c\<lparr>theBlocks := bs\<rparr>) = tag_shift c"
    by (simp_all add: tag_shift_def)
  then show ?thesis by (intro ext) (simp only: load_block_def)
qed

definition set_text :: "StdCache \<Rightarrow> (nat \<Rightarrow> 64 word) \<Rightarrow> nat \<Rightarrow> token list" where
  "set_text c t0 i = [Sym CHR ''{''] @ concat (map (tok (tag_shift c)) (row (theAssoc c) (t0 i) (theBlocks c ! i))) @
     [Sym CHR ''}'', Sym CHR ''<''] @ map Num [0..<theAssoc c] @ [Sym CHR ''>'']"

lemma foldE_index: "foldE (\<lambda>i. f (zs ! i)) [0..<length zs] s = foldE f zs s"
proof -
  have "foldE f (map h xs) s = foldE (\<lambda>i. f (h i)) xs s" for h xs s
    by (induction xs arbitrary: s) (auto intro: bindE_cong)
  from this[of "\<lambda>i. zs ! i"] show ?thesis by (metis map_nth)
qed

lemma saveState_text_out:
  assumes ok: "cache_ok c" and nm: "no_migratory c" and t0: "\<And>i. i < theNumSets c \<Longrightarrow> drop_bit (tag_shift c) (t0 i) = 0"
  shows "saveState_text c = Inr (concat (map (set_text c t0) [0..<theNumSets c]))"
proof -
  have len: "length (theBlocks c) = theNumSets c" using ok by (simp add: cache_ok_def geometry_ok_def)
  have "foldE (\<lambda>i. save_set c (theBlocks c ! i)) [0..<theNumSets c] [] = Inr ([] @ concat (map (set_text c t0) [0..<theNumSets c]))"
    by (rule foldE_output) (use tok_row t0 nth_no_migratory[OF ok nm] in \<open>auto simp: set_text_def\<close>)
  then show ?thesis using foldE_index[of "save_set c" "theBlocks c" "[]"] len by (simp add: saveState_text_def)
qed

text \<open>The text checkpoint restores the saved array in the same way, when every block, valid or not, is in
  the set its tag belongs to and a set number shifted to its place in an address fits 32 bits.\<close>

theorem checkpoint_text_roundtrip:
  assumes ok: "cache_ok c" and nm: "no_migratory c" and hm: "homed c" and sh: "tag_shift c \<le> 31"
  shows "\<exists>ts c'. saveState_text c = Inr ts \<and> loadState_text ts (blank c) = Inr c' \<and> restores c c'"
proof -
  have g: "geometry_ok c" using ok by (simp add: cache_ok_def)
  let ?t0 = "\<lambda>i. of_nat (i * 2 ^ blockShift c) :: 64 word"
  let ?es = "\<lambda>i. row (theAssoc c) (?t0 i) (theBlocks c ! i)"
  let ?g = "\<lambda>i. [Sym CHR ''{''] @ concat (map (tok (tag_shift c)) (?es i)) @
    [Sym CHR ''}'', Sym CHR ''<''] @ map Num [0..<theAssoc c] @ [Sym CHR ''>'']"
  let ?R = "\<lambda>i. push_all 0 (?es i) []"
  have len: "length (theBlocks c) = theNumSets c" using g by (simp add: geometry_ok_def)
  have "set_text c ?t0 = ?g" by (rule ext) (simp add: set_text_def)
  moreover have "saveState_text c = Inr (concat (map (set_text c ?t0) [0..<theNumSets c]))"
    by (rule saveState_text_out[OF ok nm home_pad(2)[OF g _ sh]])
  ultimately have save: "saveState_text c = Inr (concat (map ?g [0..<theNumSets c]))" by (simp only:)
  have "foldE load_set [0..<theNumSets c] (concat (map ?g [0..<theNumSets c]), c\<lparr>theBlocks := replicate (theNumSets c) []\<rparr>) =
      Inr ([], c\<lparr>theBlocks := map ?R [0..<theNumSets c]\<rparr>)"
  proof (rule load_rows)
    fix i ts and bs :: "BlockEntry list list"
    assume i: "i < theNumSets c" "length bs = theNumSets c" "bs ! i = []"
    note rf = row_facts[OF sets_of[OF ok i(1)], of "?t0 i"]
    have "\<forall>e \<in> set (?es i). home c i (fst e)"
      using hm i(1) home_pad(1)[OF g i(1) sh] by (auto simp: row_def contents_def homed_def)
    then have "foldE (load_block c i) [0..<theAssoc c] (concat (map (tok (tag_shift c)) (?es i)) @ rest, []) = Inr (rest, ?R i)" for rest
      using load_text_row[OF g home_pad(3)[OF g i(1) sh], of "?es i" 0 rest "[]"] rf nth_no_migratory[OF ok nm i(1)] by simp
    with i show "load_set i (?g i @ ts, c\<lparr>theBlocks := bs\<rparr>) = Inr (ts, c\<lparr>theBlocks := bs[i := ?R i]\<rparr>)"
      by (simp add: load_set_def set_blocks_def load_block_frame skip_numbers)
  qed
  then show ?thesis
    using restores_rows[OF ok refl, of ?t0] by (auto simp: save loadState_text_def blank_def)
qed

section \<open>An example\<close>

definition saved_cache :: StdCache where
  "saved_cache = \<lparr>theNumSets = 2, theAssoc = 2, theBlockSize = 64, blockShift = 6, blockSetMask = 1, blockTagMask = NOT 63,
     theBlocks = [[\<lparr>be_tag = 128, be_state = kModified, be_way = 1\<rparr>, \<lparr>be_tag = 0, be_state = kShared, be_way = 0\<rparr>],
                  [\<lparr>be_tag = 64, be_state = kExclusive, be_way = 0\<rparr>]],
     theTextFlexpoints = False, theAllocateInProgress = False, theAllocateAddr = 0\<rparr>"

lemma saved_log: "log_base2 2 = 1"
  using log_base2_power[of 1] by simp

lemma saved_ok: "cache_ok saved_cache"
proof -
  have "(mask 6 :: 64 word) = 63" "(mask (Suc 0) :: 64 word) = 1" by (simp_all add: mask_eq_exp_minus_1)
  then have "geometry_ok saved_cache" using saved_log by (simp add: geometry_ok_def saved_cache_def)
  moreover have "set_ok saved_cache i (theBlocks saved_cache ! i)" if "i < 2" for i
  proof -
    from that have "i = 0 \<or> i = Suc 0" by auto
    then show ?thesis by (elim disjE) (auto simp: set_ok_def saved_cache_def get_set_def get_tag_def lessThan_Suc)
  qed
  ultimately show ?thesis by (simp add: cache_ok_def saved_cache_def)
qed

lemma saved_no_migratory: "no_migratory saved_cache"
  by (simp add: no_migratory_def saved_cache_def)

lemma saved_homed: "homed saved_cache"
proof -
  have "\<forall>xs \<in> set (theBlocks saved_cache). \<forall>b \<in> set xs. isValid (be_state b)"
    by (simp add: saved_cache_def isValid_def)
  then have "isValid (be_state b)" if "i < theNumSets saved_cache" "b \<in> set (theBlocks saved_cache ! i)" for i b
    using that saved_ok by (auto simp: cache_ok_def geometry_ok_def)
  then show ?thesis using sets_of[OF saved_ok] by (auto simp: homed_def home_def set_ok_def)
qed

lemma saved_state: "state_of saved_cache 64 = kExclusive"
  by (simp add: saved_cache_def state_of_def state_in_def by_tag_def get_set_def)

theorem checkpoint_bin_roundtrip_witness:
  "\<exists>ar c'. saveState_bin saved_cache = Inr ar \<and> loadState_bin ar (blank saved_cache) = Inr c' \<and> state_of c' 64 = kExclusive"
  using checkpoint_bin_roundtrip[OF saved_ok saved_no_migratory] saved_state by (auto simp: restores_def)

theorem checkpoint_text_roundtrip_witness:
  "\<exists>ts c'. saveState_text saved_cache = Inr ts \<and> loadState_text ts (blank saved_cache) = Inr c' \<and> state_of c' 64 = kExclusive"
proof -
  have "tag_shift saved_cache \<le> 31" using saved_log by (simp add: tag_shift_def saved_cache_def)
  from checkpoint_text_roundtrip[OF saved_ok saved_no_migratory saved_homed this] saved_state
  show ?thesis by (auto simp: restores_def)
qed

end
