(* ===== verification/InstructionCache.thy ===== *)
theory InstructionCache
  imports CacheCheckpoint
begin

text \<open>
  The instruction cache of the fetch unit: the sequenced map and the set-associative table of
  \<^verbatim>\<open>CommonQEMU/seq_map.hpp\<close> and the structure \<^verbatim>\<open>SimCache\<close> of \<^verbatim>\<open>uFetch/uFetchImpl.cpp\<close>, which keeps which blocks
  are present and their recency order. The locale \<open>line_cache\<close> is what the fetch unit relies on. A checkpoint
  written by the functional cache (\<^verbatim>\<open>FastCache/StdCache.hpp\<close>) loads into this cache with the same blocks.

  An iterator of the code is a key or, at the end, nothing; it always belongs to the set the table has selected
  last. The statistics \<^verbatim>\<open>theSetCounts\<close> are kept because they are indexed by the same set number.
\<close>

section \<open>Sequenced maps\<close>

type_synonym seq_map = "(64 word \<times> int) list"

definition seq_find :: "64 word \<Rightarrow> seq_map \<Rightarrow> 64 word option" where
  "seq_find key m = (if key \<in> fst ` set m then Some key else None)"

definition seq_insert :: "64 word \<times> int \<Rightarrow> seq_map \<Rightarrow> bool \<times> seq_map" where
  "seq_insert apair m = (if fst apair \<in> fst ` set m then (False, m) else (True, m @ [apair]))"

definition seq_erase :: "64 word \<Rightarrow> seq_map \<Rightarrow> seq_map" where
  "seq_erase key m = filter (\<lambda>e. fst e \<noteq> key) m"

definition seq_move_back :: "64 word \<Rightarrow> seq_map \<Rightarrow> seq_map" where
  "seq_move_back key m = filter (\<lambda>e. fst e \<noteq> key) m @ filter (\<lambda>e. fst e = key) m"

definition seq_front_key :: "seq_map \<Rightarrow> 64 word res" where
  "seq_front_key m = bindE (front m) (\<lambda>e. Inr (fst e))"

definition seq_pop_front :: "seq_map \<Rightarrow> seq_map res" where
  "seq_pop_front m = bindE (front m) (\<lambda>_. Inr (tl m))"

section \<open>The set-associative table\<close>

record set_assoc =
  sa_Table :: "seq_map list"
  sa_CurrIndex :: "64 word"
  sa_SetCounts :: "int list"
  sa_IndexMask :: "64 word"
  sa_Sets :: nat
  sa_Assoc :: nat

definition sa_init :: "nat \<Rightarrow> nat \<Rightarrow> set_assoc res" where
  "sa_init sz assoc =
     (if assoc = 0 then Inl DivByZero
      else let n = sz div assoc in
        Inr \<lparr>sa_Table = replicate n [], sa_CurrIndex = 0, sa_SetCounts = replicate n 0,
             sa_IndexMask = of_nat ((n + (2 ^ 32 - 1)) mod 2 ^ 32), sa_Sets = n, sa_Assoc = assoc\<rparr>)"

definition makeIndex :: "64 word \<Rightarrow> set_assoc \<Rightarrow> 64 word" where
  "makeIndex key t = key AND sa_IndexMask t"

definition sa_current :: "set_assoc \<Rightarrow> seq_map res" where
  "sa_current t = vec_at (sa_Table t) (unat (sa_CurrIndex t))"

definition sa_store :: "seq_map \<Rightarrow> set_assoc \<Rightarrow> set_assoc res" where
  "sa_store m t = bindE (vec_set (sa_Table t) (unat (sa_CurrIndex t)) m) (\<lambda>ms. Inr (t\<lparr>sa_Table := ms\<rparr>))"

definition sa_find :: "64 word \<Rightarrow> set_assoc \<Rightarrow> (64 word option \<times> set_assoc) res" where
  "sa_find key t =
     (let t = t\<lparr>sa_CurrIndex := makeIndex key t\<rparr> in bindE (sa_current t) (\<lambda>m. Inr (seq_find key m, t)))"

definition sa_size :: "set_assoc \<Rightarrow> nat res" where
  "sa_size t = bindE (sa_current t) (\<lambda>m. Inr (length m))"

definition sa_front_key :: "set_assoc \<Rightarrow> 64 word res" where
  "sa_front_key t = bindE (sa_current t) seq_front_key"

definition sa_pop_front :: "set_assoc \<Rightarrow> set_assoc res" where
  "sa_pop_front t = bindE (sa_current t) (\<lambda>m. bindE (seq_pop_front m) (\<lambda>m. sa_store m t))"

definition sa_move_back :: "64 word \<Rightarrow> set_assoc \<Rightarrow> set_assoc res" where
  "sa_move_back iter t = bindE (sa_current t) (\<lambda>m. sa_store (seq_move_back iter m) t)"

definition sa_erase :: "64 word \<Rightarrow> set_assoc \<Rightarrow> set_assoc res" where
  "sa_erase iter t = bindE (sa_current t) (\<lambda>m. sa_store (seq_erase iter m) t)"

definition sa_insert :: "64 word \<times> int \<Rightarrow> set_assoc \<Rightarrow> (bool \<times> set_assoc) res" where
  "sa_insert apair t =
     (let i = makeIndex (fst apair) t; t = t\<lparr>sa_CurrIndex := i\<rparr> in
      bindE (vec_at (sa_SetCounts t) (unat i)) (\<lambda>n.
      let t = t\<lparr>sa_SetCounts := (sa_SetCounts t)[unat i := n + 1]\<rparr> in
      bindE (sa_current t) (\<lambda>m.
      let (b, m) = seq_insert apair m in bindE (sa_store m t) (\<lambda>t. Inr (b, t)))))"

section \<open>The cache\<close>

record SimCache =
  sc_Cache :: set_assoc
  theCacheSize :: int
  theCacheAssoc :: int
  theCacheBlockShift :: int
  sc_BlockSize :: int

text \<open>The macro \<^verbatim>\<open>LOG2\<close> knows the powers of two up to the 26th.\<close>

definition LOG2 :: "int \<Rightarrow> int" where
  "LOG2 x = (case find (\<lambda>k. 2 ^ k = x) [0..<27] of Some k \<Rightarrow> int k | None \<Rightarrow> - 65535)"

definition SimCache_init :: "int \<Rightarrow> int \<Rightarrow> int \<Rightarrow> SimCache res" where
  "SimCache_init aCacheSize aCacheAssoc aBlockSize =
     bindE (c_div aCacheSize aBlockSize) (\<lambda>n.
     bindE (sa_init (nat (n mod 2 ^ 32)) (nat (aCacheAssoc mod 2 ^ 32))) (\<lambda>t.
     Inr \<lparr>sc_Cache = t, theCacheSize = aCacheSize, theCacheAssoc = aCacheAssoc,
          theCacheBlockShift = LOG2 aBlockSize, sc_BlockSize = aBlockSize\<rparr>))"

definition sc_block :: "64 word \<Rightarrow> SimCache \<Rightarrow> 64 word res" where
  "sc_block addr c =
     (if 0 \<le> theCacheBlockShift c \<and> theCacheBlockShift c < 64 then Inr (drop_bit (nat (theCacheBlockShift c)) addr)
      else Inl UndefinedBehaviour)"

definition sc_insert :: "64 word \<Rightarrow> SimCache \<Rightarrow> (64 word \<times> SimCache) res" where
  "sc_insert addr c =
     bindE (sc_block addr c) (\<lambda>addr.
     bindE (sa_find addr (sc_Cache c)) (\<lambda>(iter, t).
     if iter \<noteq> None then bindE (sa_move_back addr t) (\<lambda>t. Inr (0, c\<lparr>sc_Cache := t\<rparr>))
     else
       bindE (sa_size t) (\<lambda>n.
       bindE (if int n \<ge> theCacheAssoc c then
                bindE (sa_front_key t) (\<lambda>k. bindE (sa_pop_front t) (\<lambda>t. Inr (push_bit (nat (theCacheBlockShift c)) k, t)))
              else Inr (0, t)) (\<lambda>(ret_val, t).
       bindE (sa_insert (addr, 0) t) (\<lambda>(_, t). Inr (ret_val, c\<lparr>sc_Cache := t\<rparr>))))))"

definition sc_lookup :: "64 word \<Rightarrow> SimCache \<Rightarrow> (bool \<times> SimCache) res" where
  "sc_lookup addr c =
     bindE (sc_block addr c) (\<lambda>addr.
     bindE (sa_find addr (sc_Cache c)) (\<lambda>(iter, t).
     if iter \<noteq> None then bindE (sa_move_back addr t) (\<lambda>t. Inr (True, c\<lparr>sc_Cache := t\<rparr>))
     else Inr (False, c\<lparr>sc_Cache := t\<rparr>)))"

definition sc_inval :: "64 word \<Rightarrow> SimCache \<Rightarrow> (bool \<times> SimCache) res" where
  "sc_inval addr c =
     bindE (sc_block addr c) (\<lambda>addr.
     bindE (sa_find addr (sc_Cache c)) (\<lambda>(iter, t).
     if iter \<noteq> None then bindE (sa_erase addr t) (\<lambda>t. Inr (True, c\<lparr>sc_Cache := t\<rparr>))
     else Inr (False, c\<lparr>sc_Cache := t\<rparr>)))"

text \<open>Loading a text checkpoint; its format is the one of the functional cache.\<close>

definition loadArray_block :: "nat \<Rightarrow> nat \<Rightarrow> token list \<times> SimCache \<Rightarrow> (token list \<times> SimCache) res" where
  "loadArray_block tagShift i = (\<lambda>(ts, c).
     bindE (read_sym ts) (\<lambda>(_, ts).
     bindE (read_num ts) (\<lambda>(load_state, ts).
     bindE (read_num ts) (\<lambda>(load_tag, ts).
     bindE (read_sym ts) (\<lambda>(_, ts).
     if odd load_state then
       bindE (sa_insert (push_bit tagShift (of_nat load_tag) OR of_nat i, 0) (sc_Cache c)) (\<lambda>(_, t).
       bindE (sa_size t) (\<lambda>n.
       bindE (dbg_assert (n \<le> sa_Assoc t)) (\<lambda>_. Inr (ts, c\<lparr>sc_Cache := t\<rparr>))))
     else Inr (ts, c))))))"

definition loadArray_set :: "nat \<Rightarrow> token list \<times> SimCache \<Rightarrow> (token list \<times> SimCache) res" where
  "loadArray_set i = (\<lambda>(ts, c).
     let tagShift = LOG2 (int (sa_Sets (sc_Cache c))); assoc = sa_Assoc (sc_Cache c) in
     bindE (expect CHR ''{'' ts) (\<lambda>ts.
     bindE (if tagShift < 0 \<or> 64 \<le> tagShift then Inl UndefinedBehaviour
            else foldE (\<lambda>_. loadArray_block (nat tagShift) i) [0..<assoc] (ts, c)) (\<lambda>(ts, c).
     bindE (expect CHR ''}'' ts) (\<lambda>ts.
     bindE (expect CHR ''<'' ts) (\<lambda>ts.
     bindE (foldE (\<lambda>_ ts. bindE (read_num ts) (\<lambda>(_, ts). Inr ts)) [0..<assoc] ts) (\<lambda>ts.
     bindE (expect CHR ''>'' ts) (\<lambda>ts. Inr (ts, c))))))))"

text \<open>An expected bracket that is missing makes \<^verbatim>\<open>loadArray\<close> report failure, which \<^verbatim>\<open>loadState\<close> asserts against; a
  missing file leaves the cache as it is.\<close>

definition loadArray :: "token list \<Rightarrow> SimCache \<Rightarrow> SimCache res" where
  "loadArray ts c = bindE (foldE loadArray_set [0..<sa_Sets (sc_Cache c)] (ts, c)) (\<lambda>p. Inr (snd p))"

definition sc_loadState :: "token list option \<Rightarrow> SimCache \<Rightarrow> SimCache res" where
  "sc_loadState file c = (case file of None \<Rightarrow> Inr c
     | Some ts \<Rightarrow> (case loadArray ts c of Inl ErrorReturn \<Rightarrow> Inl AssertionFailed | r \<Rightarrow> r))"

section \<open>The invariant\<close>

text \<open>The cache as lists of block numbers, one for each set, least recently used first.\<close>

definition keys_of :: "SimCache \<Rightarrow> 64 word list list" where
  "keys_of c = map (map fst) (sa_Table (sc_Cache c))"

definition ic_line :: "SimCache \<Rightarrow> 64 word \<Rightarrow> 64 word" where
  "ic_line c a = drop_bit (nat (theCacheBlockShift c)) a"

definition ic_index :: "SimCache \<Rightarrow> 64 word \<Rightarrow> nat" where
  "ic_index c b = unat (b AND sa_IndexMask (sc_Cache c))"

abbreviation ic_set :: "SimCache \<Rightarrow> 64 word \<Rightarrow> 64 word list" where
  "ic_set c a \<equiv> keys_of c ! ic_index c (ic_line c a)"

definition cached :: "SimCache \<Rightarrow> 64 word \<Rightarrow> bool" where
  "cached c a \<longleftrightarrow> ic_line c a \<in> set (ic_set c a)"

definition ic_geometry :: "SimCache \<Rightarrow> 64 word \<times> nat \<times> nat \<times> nat \<times> int \<times> int" where
  "ic_geometry c = (sa_IndexMask (sc_Cache c), sa_Sets (sc_Cache c), sa_Assoc (sc_Cache c), length (sa_SetCounts (sc_Cache c)),
     theCacheAssoc c, theCacheBlockShift c)"

definition ic_set_ok :: "SimCache \<Rightarrow> nat \<Rightarrow> 64 word list \<Rightarrow> bool" where
  "ic_set_ok c i ks \<longleftrightarrow> distinct ks \<and> length ks \<le> sa_Assoc (sc_Cache c) \<and>
     (\<forall>b \<in> set ks. ic_index c b = i \<and> ic_line c (push_bit (nat (theCacheBlockShift c)) b) = b)"

definition ic_ok :: "SimCache \<Rightarrow> bool" where
  "ic_ok c \<longleftrightarrow> 0 \<le> theCacheBlockShift c \<and> theCacheBlockShift c < 64 \<and>
     (\<exists>k \<le> 26. sa_Sets (sc_Cache c) = 2 ^ k \<and> sa_IndexMask (sc_Cache c) = mask k) \<and>
     0 < sa_Assoc (sc_Cache c) \<and> theCacheAssoc c = int (sa_Assoc (sc_Cache c)) \<and>
     length (sa_SetCounts (sc_Cache c)) = sa_Sets (sc_Cache c) \<and> length (keys_of c) = sa_Sets (sc_Cache c) \<and>
     (\<forall>i < sa_Sets (sc_Cache c). ic_set_ok c i (keys_of c ! i))"

lemma ic_geometryD:
  assumes "ic_geometry c' = ic_geometry c"
  shows "ic_line c' = ic_line c" "ic_index c' = ic_index c" "ic_set_ok c' = ic_set_ok c"
  using assms by (auto simp: ic_geometry_def ic_line_def ic_index_def ic_set_ok_def fun_eq_iff)

lemma ic_index_less: "ic_ok c \<Longrightarrow> ic_index c b < length (keys_of c)"
  unfolding ic_ok_def ic_index_def
  by (auto simp flip: take_bit_eq_mask) (metis take_bit_nat_less_exp unsigned_take_bit_eq)

lemma ic_set_okD: "ic_ok c \<Longrightarrow> ic_set_ok c (ic_index c b) (keys_of c ! ic_index c b)"
  using ic_index_less[of c b] by (simp add: ic_ok_def)

lemma ic_ok_update:
  assumes "ic_ok c" "ic_geometry c' = ic_geometry c" "keys_of c' = (keys_of c)[i := ks]" "ic_set_ok c i ks"
  shows "ic_ok c'"
proof -
  have "ic_set_ok c' j (keys_of c' ! j)" if "j < length (keys_of c)" for j
    using assms ic_geometryD[OF assms(2)] that by (cases "j = i") (auto simp: ic_ok_def)
  then show ?thesis using assms by (auto simp: ic_ok_def ic_geometry_def)
qed

text \<open>The code selects the set of a key and works on it; each operation replaces that set.\<close>

definition sa_put :: "64 word \<Rightarrow> seq_map \<Rightarrow> set_assoc \<Rightarrow> set_assoc" where
  "sa_put key m t = t\<lparr>sa_CurrIndex := makeIndex key t, sa_Table := (sa_Table t)[unat (makeIndex key t) := m]\<rparr>"

definition in_table :: "64 word \<Rightarrow> set_assoc \<Rightarrow> bool" where
  "in_table key t \<longleftrightarrow> unat (makeIndex key t) < length (sa_Table t) \<and> length (sa_SetCounts t) = length (sa_Table t)"

abbreviation sa_at :: "64 word \<Rightarrow> set_assoc \<Rightarrow> seq_map" where
  "sa_at key t \<equiv> sa_Table t ! unat (makeIndex key t)"

lemma sa_put_simps [simp]:
  "sa_IndexMask (sa_put key m t) = sa_IndexMask t" "sa_Sets (sa_put key m t) = sa_Sets t" "sa_Assoc (sa_put key m t) = sa_Assoc t"
  "sa_SetCounts (sa_put key m t) = sa_SetCounts t" "makeIndex k (sa_put key m t) = makeIndex k t"
  "in_table k (sa_put key m t) = in_table k t"
  "sa_Table (sa_put key m t) = (sa_Table t)[unat (makeIndex key t) := m]"
  "sa_CurrIndex (sa_put key m t) = makeIndex key t"
  by (simp_all add: sa_put_def makeIndex_def in_table_def)

lemma sa_find_put: "in_table key t \<Longrightarrow> sa_find key t = Inr (seq_find key (sa_at key t), sa_put key (sa_at key t) t)"
  by (simp add: sa_find_def sa_current_def in_table_def sa_put_def Let_def makeIndex_def)

lemma sa_put_put [simp]: "sa_put key m' (sa_put key m t) = sa_put key m' t"
  by (simp add: sa_put_def makeIndex_def)

lemma sa_at_put [simp]: "in_table key t \<Longrightarrow> sa_at key (sa_put key m t) = m"
  by (simp add: in_table_def)

lemma sa_ops_put:
  assumes "in_table key t"
  shows "sa_size (sa_put key m t) = Inr (length m)" "sa_front_key (sa_put key m t) = seq_front_key m"
    "sa_pop_front (sa_put key m t) = bindE (seq_pop_front m) (\<lambda>m. Inr (sa_put key m t))"
    "sa_move_back k (sa_put key m t) = Inr (sa_put key (seq_move_back k m) t)"
    "sa_erase k (sa_put key m t) = Inr (sa_put key (seq_erase k m) t)"
  using assms
  by (simp_all add: sa_size_def sa_front_key_def sa_pop_front_def sa_move_back_def sa_erase_def sa_current_def sa_store_def in_table_def)
     (auto simp: sa_put_def makeIndex_def intro!: bindE_cong)

lemma sa_insert_put:
  assumes "in_table key t"
  shows "\<exists>t'. sa_insert (key, v) t = Inr (fst (seq_insert (key, v) (sa_at key t)), t') \<and>
    sa_Table t' = (sa_Table t)[unat (makeIndex key t) := snd (seq_insert (key, v) (sa_at key t))] \<and>
    sa_IndexMask t' = sa_IndexMask t \<and> sa_Sets t' = sa_Sets t \<and> sa_Assoc t' = sa_Assoc t \<and>
    length (sa_SetCounts t') = length (sa_SetCounts t) \<and> sa_CurrIndex t' = makeIndex key t"
  using assms
  by (auto simp: sa_insert_def in_table_def Let_def sa_current_def sa_store_def makeIndex_def split: prod.split)

section \<open>The operations on the lists of blocks\<close>

lemma keys_erase: "map fst (seq_erase k m) = removeAll k (map fst m)"
  by (induction m) (auto simp: seq_erase_def)

lemma filter_key: "distinct (map fst m) \<Longrightarrow> k \<in> fst ` set m \<Longrightarrow> map fst (filter (\<lambda>e. fst e = k) m) = [k]"
proof (induction m)
  case (Cons e m)
  have "k \<notin> fst ` set m \<Longrightarrow> filter (\<lambda>e. fst e = k) m = []" by (auto simp: filter_empty_conv)
  with Cons show ?case by auto
qed simp

lemma keys_move_back:
  "distinct (map fst m) \<Longrightarrow> k \<in> fst ` set m \<Longrightarrow> map fst (seq_move_back k m) = removeAll k (map fst m) @ [k]"
  using filter_key[of m k] keys_erase[of k m] by (simp add: seq_move_back_def seq_erase_def)

lemma keys_insert: "map fst (snd (seq_insert (k, v) m)) = (if k \<in> set (map fst m) then map fst m else map fst m @ [k])"
  by (simp add: seq_insert_def)

lemma ic_in_table: "ic_ok c \<Longrightarrow> in_table b (sc_Cache c)"
  using ic_index_less[of c b] by (auto simp: in_table_def makeIndex_def ic_index_def ic_ok_def keys_of_def)

lemma ic_at: "ic_ok c \<Longrightarrow> map fst (sa_at b (sc_Cache c)) = keys_of c ! ic_index c b"
  using ic_index_less[of c b] by (simp add: keys_of_def ic_index_def makeIndex_def)

lemma sc_block_ok: "ic_ok c \<Longrightarrow> sc_block a c = Inr (ic_line c a)"
  by (simp add: sc_block_def ic_line_def ic_ok_def)

lemma seq_find_cached: "ic_ok c \<Longrightarrow> seq_find (ic_line c a) (sa_at (ic_line c a) (sc_Cache c)) = (if cached c a then Some (ic_line c a) else None)"
  using ic_at[of c "ic_line c a"] by (auto simp: seq_find_def cached_def simp flip: set_map)

text \<open>Replacing the set of a block, with the list \<open>ks\<close> of its keys.\<close>

lemma ic_put:
  assumes "ic_ok c"
  shows "ic_geometry (c\<lparr>sc_Cache := sa_put b m (sc_Cache c)\<rparr>) = ic_geometry c"
    "keys_of (c\<lparr>sc_Cache := sa_put b m (sc_Cache c)\<rparr>) = (keys_of c)[ic_index c b := map fst m]"
  by (simp_all add: ic_geometry_def keys_of_def map_update ic_index_def makeIndex_def)

lemma ic_set_ok_removeAll: "ic_set_ok c i ks \<Longrightarrow> ic_set_ok c i (removeAll b ks)"
  by (auto simp: ic_set_ok_def distinct_removeAll removeAll_filter_not_eq intro: order_trans[OF length_filter_le])

lemma drop_push_drop: "drop_bit s (push_bit s (drop_bit s t)) = drop_bit s (t :: 64 word)"
  by (rule bit_word_eqI) (auto simp: bit_simps dest: bit_imp_le_length)

lemma ic_set_ok_use:
  assumes "ic_set_ok c i ks" "ic_index c b = i" "0 < sa_Assoc (sc_Cache c)" "b = ic_line c a"
  shows "ic_set_ok c i (use_block (sa_Assoc (sc_Cache c)) b ks)"
proof -
  have "ic_line c (push_bit (nat (theCacheBlockShift c)) b) = b" by (simp add: assms(4) ic_line_def drop_push_drop)
  moreover have "length (removeAll b ks) < sa_Assoc (sc_Cache c)" if "b \<in> set ks"
    using that assms(1,3) length_removeAll_distinct[of ks b] by (auto simp: ic_set_ok_def)
  moreover have "b \<notin> set (tl ks)" "distinct (tl ks)" if "b \<notin> set ks"
    using that assms(1) list.set_sel(2)[of ks] by (cases ks; auto simp: ic_set_ok_def)+
  ultimately show ?thesis using assms(1,2,3) by (cases ks) (auto simp: ic_set_ok_def use_block_def distinct_removeAll)
qed

lemma cached_move:
  assumes "ic_ok c" "cached c a"
  shows "map fst (seq_move_back (ic_line c a) (sa_at (ic_line c a) (sc_Cache c))) = use_block (sa_Assoc (sc_Cache c)) (ic_line c a) (ic_set c a)"
proof -
  let ?m = "sa_at (ic_line c a) (sc_Cache c)"
  have m: "map fst ?m = ic_set c a" using ic_at assms(1) by blast
  have "distinct (map fst ?m)" using ic_set_okD[OF assms(1), of "ic_line c a"] m by (simp add: ic_set_ok_def)
  moreover have "ic_line c a \<in> fst ` set ?m" using assms(2) m by (simp add: cached_def flip: set_map)
  ultimately show ?thesis using keys_move_back[of ?m "ic_line c a"] m assms(2) by (simp add: use_block_def cached_def)
qed

lemma sc_lookup_spec:
  assumes ok: "ic_ok c"
  shows "\<exists>c'. sc_lookup a c = Inr (cached c a, c') \<and> ic_ok c' \<and> ic_geometry c' = ic_geometry c \<and>
    keys_of c' = (if cached c a then (keys_of c)[ic_index c (ic_line c a) := use_block (sa_Assoc (sc_Cache c)) (ic_line c a) (ic_set c a)]
                  else keys_of c)"
proof -
  let ?b = "ic_line c a" and ?t = "sc_Cache c"
  note it = ic_in_table[OF ok, of ?b]
  define m where "m = (if cached c a then seq_move_back ?b (sa_at ?b ?t) else sa_at ?b ?t)"
  have r: "sc_lookup a c = Inr (cached c a, c\<lparr>sc_Cache := sa_put ?b m ?t\<rparr>)"
    by (simp add: sc_lookup_def sc_block_ok[OF ok] sa_find_put[OF it] seq_find_cached[OF ok] m_def sa_ops_put[OF it])
  have k: "map fst m = (if cached c a then use_block (sa_Assoc ?t) ?b (ic_set c a) else ic_set c a)"
    using cached_move[OF ok] ic_at[OF ok, of ?b] by (simp add: m_def)
  have "ic_set_ok c (ic_index c ?b) (map fst m)"
    using k ic_set_okD[OF ok, of ?b] ic_set_ok_use[of c _ _ ?b a] ok by (simp add: ic_ok_def)
  then have "ic_ok (c\<lparr>sc_Cache := sa_put ?b m ?t\<rparr>)" using ic_ok_update[OF ok] ic_put[OF ok] by blast
  then show ?thesis using r ic_put[OF ok, of ?b m] k by auto
qed

lemma sc_inval_spec:
  assumes ok: "ic_ok c"
  shows "\<exists>c'. sc_inval a c = Inr (cached c a, c') \<and> ic_ok c' \<and> ic_geometry c' = ic_geometry c \<and>
    keys_of c' = (keys_of c)[ic_index c (ic_line c a) := removeAll (ic_line c a) (ic_set c a)]"
proof -
  let ?b = "ic_line c a" and ?t = "sc_Cache c"
  note it = ic_in_table[OF ok, of ?b]
  define m where "m = (if cached c a then seq_erase ?b (sa_at ?b ?t) else sa_at ?b ?t)"
  have r: "sc_inval a c = Inr (cached c a, c\<lparr>sc_Cache := sa_put ?b m ?t\<rparr>)"
    by (simp add: sc_inval_def sc_block_ok[OF ok] sa_find_put[OF it] seq_find_cached[OF ok] m_def sa_ops_put[OF it])
  have k: "map fst m = removeAll ?b (ic_set c a)"
    using ic_at[OF ok, of ?b] by (auto simp: m_def keys_erase cached_def)
  then have "ic_ok (c\<lparr>sc_Cache := sa_put ?b m ?t\<rparr>)"
    using ic_ok_update[OF ok] ic_put[OF ok] ic_set_ok_removeAll[OF ic_set_okD[OF ok, of ?b]] by metis
  then show ?thesis using r ic_put[OF ok, of ?b m] k by auto
qed

text \<open>The address of the block an insertion displaces; zero when it displaces none.\<close>

definition displaced :: "SimCache \<Rightarrow> 64 word \<Rightarrow> 64 word" where
  "displaced c a = (if cached c a \<or> length (ic_set c a) < sa_Assoc (sc_Cache c) then 0
     else push_bit (nat (theCacheBlockShift c)) (hd (ic_set c a)))"

lemma sc_insert_spec:
  assumes ok: "ic_ok c"
  shows "\<exists>c'. sc_insert a c = Inr (displaced c a, c') \<and> ic_ok c' \<and> ic_geometry c' = ic_geometry c \<and>
    keys_of c' = (keys_of c)[ic_index c (ic_line c a) := use_block (sa_Assoc (sc_Cache c)) (ic_line c a) (ic_set c a)]"
proof -
  let ?b = "ic_line c a" and ?t = "sc_Cache c"
  note it = ic_in_table[OF ok, of ?b]
  define m where "m = sa_at ?b ?t"
  have mk: "map fst m = ic_set c a" using ic_at[OF ok, of ?b] by (simp add: m_def)
  then have ml: "length m = length (ic_set c a)" by (metis length_map)
  have pos: "0 < sa_Assoc ?t" "theCacheAssoc c = int (sa_Assoc ?t)" using ok by (simp_all add: ic_ok_def)
  have ln: "length (ic_set c a) \<le> sa_Assoc ?t" using ic_set_okD[OF ok, of ?b] by (simp add: ic_set_ok_def)
  have "\<exists>c'. sc_insert a c = Inr (displaced c a, c') \<and> ic_geometry c' = ic_geometry c \<and>
    keys_of c' = (keys_of c)[ic_index c ?b := use_block (sa_Assoc ?t) ?b (ic_set c a)]"
  proof (cases "cached c a")
    case True
    then show ?thesis
      using cached_move[OF ok] ic_put[OF ok, of ?b]
      by (simp add: sc_insert_def sc_block_ok[OF ok] sa_find_put[OF it] seq_find_cached[OF ok] sa_ops_put[OF it] displaced_def)
  next
    case False
    define m' where "m' = (if length m < sa_Assoc ?t then m else tl m)"
    let ?t1 = "sa_put ?b m' ?t"
    have ne: "m \<noteq> []" if "\<not> length m < sa_Assoc ?t" using that pos by auto
    from sa_insert_put[of ?b ?t1 0] it obtain t' where t': "sa_insert (?b, 0) ?t1 = Inr (fst (seq_insert (?b, 0) m'), t')"
      "sa_Table t' = (sa_Table ?t)[unat (makeIndex ?b ?t) := snd (seq_insert (?b, 0) m')]"
      "sa_IndexMask t' = sa_IndexMask ?t" "sa_Sets t' = sa_Sets ?t" "sa_Assoc t' = sa_Assoc ?t" "length (sa_SetCounts t') = length (sa_SetCounts ?t)"
      using sa_at_put[OF it, of m'] by (auto simp: in_table_def)
    have f: "sa_find ?b ?t = Inr (None, sa_put ?b m ?t)"
      using False sa_find_put[OF it] seq_find_cached[OF ok, of a] by (simp add: m_def)
    have "(if int (length m) \<ge> theCacheAssoc c then bindE (sa_front_key (sa_put ?b m ?t)) (\<lambda>k.
            bindE (sa_pop_front (sa_put ?b m ?t)) (\<lambda>t. Inr (push_bit (nat (theCacheBlockShift c)) k, t)))
          else Inr (0, sa_put ?b m ?t)) = Inr (displaced c a, ?t1)"
    proof (cases "length m < sa_Assoc ?t")
      case True
      then show ?thesis using ml pos by (simp add: displaced_def m'_def)
    next
      case full: False
      then have "hd (ic_set c a) = fst (hd m)" using ne by (simp add: hd_map flip: mk)
      then show ?thesis
        using full False ne[OF full] ml pos
        by (simp add: displaced_def m'_def sa_ops_put[OF it] seq_front_key_def seq_pop_front_def front_ok)
    qed
    then have res: "sc_insert a c = Inr (displaced c a, c\<lparr>sc_Cache := t'\<rparr>)"
      by (simp add: sc_insert_def sc_block_ok[OF ok] f sa_ops_put(1)[OF it] t'(1))
    have "?b \<notin> set (map fst m)" using False by (simp only: mk cached_def) simp
    then have "?b \<notin> set (map fst m')" by (cases m) (auto simp: m'_def)
    moreover have "map fst m' = (if length (ic_set c a) < sa_Assoc ?t then ic_set c a else tl (ic_set c a))"
      using mk ml by (simp add: m'_def map_tl)
    ultimately have "map fst (snd (seq_insert (?b, 0) m')) = use_block (sa_Assoc ?t) ?b (ic_set c a)"
      using False by (simp add: keys_insert use_block_def cached_def)
    then have "keys_of (c\<lparr>sc_Cache := t'\<rparr>) = (keys_of c)[ic_index c ?b := use_block (sa_Assoc ?t) ?b (ic_set c a)]"
      by (simp add: keys_of_def t'(2) map_update ic_index_def makeIndex_def)
    then show ?thesis using res t' by (auto simp: ic_geometry_def)
  qed
  moreover have "ic_set_ok c (ic_index c ?b) (use_block (sa_Assoc ?t) ?b (ic_set c a))"
    using ic_set_ok_use[OF ic_set_okD[OF ok] refl pos(1) refl] .
  ultimately show ?thesis using ic_ok_update[OF ok] by blast
qed

section \<open>The contract of the cache\<close>

locale line_cache =
  fixes ok :: "'c \<Rightarrow> bool" and geo :: "'c \<Rightarrow> 'g" and line :: "'c \<Rightarrow> 64 word \<Rightarrow> 64 word" and present :: "'c \<Rightarrow> 64 word \<Rightarrow> bool"
    and lookup :: "64 word \<Rightarrow> 'c \<Rightarrow> (bool \<times> 'c) res" and insert_line :: "64 word \<Rightarrow> 'c \<Rightarrow> (64 word \<times> 'c) res"
    and inval :: "64 word \<Rightarrow> 'c \<Rightarrow> (bool \<times> 'c) res"
  assumes geo_line: "geo c' = geo c \<Longrightarrow> line c' = line c"
    and lookup_law: "ok c \<Longrightarrow> \<exists>c'. lookup a c = Inr (present c a, c') \<and> ok c' \<and> geo c' = geo c \<and> present c' = present c"
    and insert_law: "ok c \<Longrightarrow> \<exists>v c'. insert_line a c = Inr (v, c') \<and> ok c' \<and> geo c' = geo c \<and> present c' a \<and>
      (\<forall>b. present c' b \<longrightarrow> present c b \<or> line c b = line c a) \<and> (\<forall>b. present c b \<longrightarrow> present c' b \<or> line c b = line c v) \<and>
      (v \<noteq> 0 \<longrightarrow> present c v \<and> \<not> present c' v)"
    and inval_law: "ok c \<Longrightarrow> \<exists>c'. inval a c = Inr (present c a, c') \<and> ok c' \<and> geo c' = geo c \<and>
      (\<forall>b. present c' b \<longleftrightarrow> present c b \<and> line c b \<noteq> line c a)"
begin

text \<open>Filling a line only when it is absent, as the fetch unit does.\<close>

lemma fill:
  assumes "ok c"
  shows "\<exists>v c'. bindE (lookup a c) (\<lambda>(hit, c). if hit then Inr (0, c) else insert_line a c) = Inr (v, c') \<and>
    ok c' \<and> geo c' = geo c \<and> present c' a \<and> (\<forall>b. present c' b \<longrightarrow> present c b \<or> line c b = line c a) \<and>
    (\<forall>b. present c b \<longrightarrow> present c' b \<or> line c b = line c v) \<and> (v \<noteq> 0 \<longrightarrow> present c v \<and> \<not> present c' v)"
proof -
  from lookup_law[OF assms] obtain c1 where c1: "lookup a c = Inr (present c a, c1)" "ok c1" "geo c1 = geo c" "present c1 = present c"
    by blast
  show ?thesis
  proof (cases "present c a")
    case True
    then show ?thesis using c1 by simp
  next
    case False
    then show ?thesis using insert_law[OF c1(2), of a] c1 geo_line[OF c1(3)] by simp
  qed
qed

end

lemma cached_line: "ic_line c b = ic_line c a \<Longrightarrow> cached c b = cached c a"
  by (simp add: cached_def)

lemma cached_update:
  assumes "ic_ok c" "ic_geometry c' = ic_geometry c" "keys_of c' = (keys_of c)[ic_index c (ic_line c a) := ks]"
  shows "cached c' b \<longleftrightarrow> (if ic_index c (ic_line c b) = ic_index c (ic_line c a) then ic_line c b \<in> set ks else cached c b)"
  using ic_index_less[OF assms(1)] ic_geometryD[OF assms(2)] assms(3) by (auto simp: cached_def)

lemma set_use_block:
  "b \<in> set (use_block n t ts) \<longleftrightarrow> b = t \<or> b \<in> set (if t \<in> set ts \<or> length ts < n then ts else tl ts)"
  by (auto simp: use_block_def)

lemma in_set_split: "xs \<noteq> [] \<Longrightarrow> b \<in> set xs \<longleftrightarrow> b = hd xs \<or> b \<in> set (tl xs)"
  by (cases xs) auto

interpretation sim_cache: line_cache ic_ok ic_geometry ic_line cached sc_lookup sc_insert sc_inval
proof
  show "ic_geometry c' = ic_geometry c \<Longrightarrow> ic_line c' = ic_line c" for c' c by (rule ic_geometryD(1))
next
  fix c a assume ok: "ic_ok c"
  note bt = ic_set_okD[OF ok, of "ic_line c a", unfolded ic_set_ok_def]
  show "\<exists>c'. sc_lookup a c = Inr (cached c a, c') \<and> ic_ok c' \<and> ic_geometry c' = ic_geometry c \<and> cached c' = cached c"
  proof -
    from sc_lookup_spec[OF ok, of a] obtain c' where c': "sc_lookup a c = Inr (cached c a, c')" "ic_ok c'" "ic_geometry c' = ic_geometry c"
      "keys_of c' = (keys_of c)[ic_index c (ic_line c a) := (if cached c a then use_block (sa_Assoc (sc_Cache c)) (ic_line c a) (ic_set c a) else ic_set c a)]"
      by (auto split: if_splits)
    have "cached c' b = cached c b" for b
      unfolding cached_update[OF ok c'(3,4)] by (auto simp: set_use_block cached_def)
    then show ?thesis using c' by blast
  qed
  show "\<exists>c'. sc_inval a c = Inr (cached c a, c') \<and> ic_ok c' \<and> ic_geometry c' = ic_geometry c \<and>
      (\<forall>b. cached c' b \<longleftrightarrow> cached c b \<and> ic_line c b \<noteq> ic_line c a)"
  proof -
    from sc_inval_spec[OF ok, of a] obtain c' where c': "sc_inval a c = Inr (cached c a, c')" "ic_ok c'" "ic_geometry c' = ic_geometry c"
      "keys_of c' = (keys_of c)[ic_index c (ic_line c a) := removeAll (ic_line c a) (ic_set c a)]"
      by blast
    have "cached c' b \<longleftrightarrow> cached c b \<and> ic_line c b \<noteq> ic_line c a" for b
      unfolding cached_update[OF ok c'(3,4)] by (auto simp: cached_def)
    then show ?thesis using c' by blast
  qed
  show "\<exists>v c'. sc_insert a c = Inr (v, c') \<and> ic_ok c' \<and> ic_geometry c' = ic_geometry c \<and> cached c' a \<and>
      (\<forall>b. cached c' b \<longrightarrow> cached c b \<or> ic_line c b = ic_line c a) \<and> (\<forall>b. cached c b \<longrightarrow> cached c' b \<or> ic_line c b = ic_line c v) \<and>
      (v \<noteq> 0 \<longrightarrow> cached c v \<and> \<not> cached c' v)"
  proof -
    let ?ks = "ic_set c a" and ?n = "sa_Assoc (sc_Cache c)"
    from sc_insert_spec[OF ok, of a] obtain c' where c': "sc_insert a c = Inr (displaced c a, c')" "ic_ok c'" "ic_geometry c' = ic_geometry c"
      "keys_of c' = (keys_of c)[ic_index c (ic_line c a) := use_block ?n (ic_line c a) ?ks]"
      by blast
    note cu = cached_update[OF ok c'(3,4)]
    have ne: "?ks \<noteq> []" if "\<not> length ?ks < ?n" using that ok by (auto simp: ic_ok_def)
    have full: "hd ?ks \<in> set ?ks \<and> hd ?ks \<notin> set (tl ?ks) \<and> ic_line c (displaced c a) = hd ?ks \<and> ic_index c (hd ?ks) = ic_index c (ic_line c a)"
      if "\<not> cached c a" "\<not> length ?ks < ?n"
      using that bt ne[OF that(2)] by (cases ?ks) (auto simp: displaced_def)
    have 1: "cached c' a" by (simp add: cu set_use_block)
    have 2: "cached c b \<or> ic_line c b = ic_line c a" if "cached c' b" for b
      using that list.set_sel(2)[of ?ks] unfolding cu by (auto simp: set_use_block cached_def split: if_splits) (metis list.sel(2) list.set_sel(2))+
    have 3: "cached c' b \<or> ic_line c b = ic_line c (displaced c a)" if "cached c b" for b
      using that full ne in_set_split[of ?ks "ic_line c b"] unfolding cu by (auto simp: set_use_block cached_def)
    have 4: "cached c (displaced c a) \<and> \<not> cached c' (displaced c a)" if "displaced c a \<noteq> 0"
    proof -
      have f: "\<not> cached c a" "\<not> length ?ks < ?n" using that by (auto simp: displaced_def split: if_splits)
      then show ?thesis using full[OF f] f unfolding cu by (auto simp: set_use_block cached_def)
    qed
    show ?thesis using c' 1 2 3 4 by blast
  qed
qed

section \<open>Start and replacement order\<close>

lemma LOG2_power: "k < 27 \<Longrightarrow> LOG2 (2 ^ k) = int k"
proof -
  assume k: "k < 27"
  have "find (\<lambda>j. 2 ^ j = (2 :: int) ^ k) [0..<27] = Some k"
    unfolding find_Some_iff by (rule exI[of _ k]) (use k in \<open>auto simp: nth_upt\<close>)
  then show ?thesis by (simp add: LOG2_def)
qed

lemma SimCache_init_ok:
  assumes "0 < assoc" "s < 27" "k < 27" "assoc * 2 ^ k < 2 ^ 31"
  shows "\<exists>c. SimCache_init (int (assoc * 2 ^ k * 2 ^ s)) (int assoc) (2 ^ s) = Inr c \<and> ic_ok c \<and>
    theCacheBlockShift c = int s \<and> sa_Sets (sc_Cache c) = 2 ^ k \<and> sa_Assoc (sc_Cache c) = assoc \<and> keys_of c = replicate (2 ^ k) []"
proof -
  let ?n = "assoc * 2 ^ k"
  have "2 ^ k \<le> (2 :: nat) ^ 26" by (rule power_increasing) (use assms(3) in auto)
  then have b1: "2 ^ k < (2 :: nat) ^ 32" by simp
  have "assoc * 1 \<le> ?n" by (rule mult_le_mono2) simp
  then have "assoc < 2 ^ 31" using assms(4) by (metis le_less_trans mult.right_neutral)
  then have b: "2 ^ k < (2 :: nat) ^ 32" "assoc < 2 ^ 32" "?n < 2 ^ 32" using assms(4) b1 by auto
  have "c_div (int (?n * 2 ^ s)) (2 ^ s) = Inr (int ?n)" using c_div_pos[of "int (?n * 2 ^ s)" "2 ^ s"] by simp
  moreover have "nat (int ?n mod 2 ^ 32) = ?n" "nat (int assoc mod 2 ^ 32) = assoc"
    using b by (auto simp del: of_nat_mult of_nat_power)
  moreover have "(2 ^ k + (2 ^ 32 - 1)) mod 2 ^ 32 = (2 ^ k - 1 :: nat)"
  proof -
    have "2 ^ k + (2 ^ 32 - 1) = (2 ^ k - 1) + (2 :: nat) ^ 32" by simp
    then show ?thesis using b(1) by (simp only: mod_add_self2) simp
  qed
  moreover have "of_nat (2 ^ k - 1) = (mask k :: 64 word)" by (simp add: mask_eq_exp_minus_1 of_nat_diff)
  ultimately show ?thesis
    using assms LOG2_power[OF assms(2)]
    by (auto simp: SimCache_init_def sa_init_def Let_def ic_ok_def keys_of_def ic_set_ok_def simp del: of_nat_mult of_nat_power intro!: exI[of _ k])
qed

definition sc_access :: "64 word \<Rightarrow> SimCache \<Rightarrow> SimCache res" where
  "sc_access a c = bindE (sc_lookup a c) (\<lambda>(hit, c). if hit then Inr c else bindE (sc_insert a c) (\<lambda>(_, c). Inr c))"

lemma sc_access_spec:
  assumes "ic_ok c"
  shows "\<exists>c'. sc_access a c = Inr c' \<and> ic_ok c' \<and> ic_geometry c' = ic_geometry c \<and>
    keys_of c' = (keys_of c)[ic_index c (ic_line c a) := use_block (sa_Assoc (sc_Cache c)) (ic_line c a) (ic_set c a)]"
proof -
  from sc_lookup_spec[OF assms, of a] obtain c1 where c1: "sc_lookup a c = Inr (cached c a, c1)" "ic_ok c1" "ic_geometry c1 = ic_geometry c"
    "keys_of c1 = (if cached c a then (keys_of c)[ic_index c (ic_line c a) := use_block (sa_Assoc (sc_Cache c)) (ic_line c a) (ic_set c a)] else keys_of c)"
    by blast
  show ?thesis
  proof (cases "cached c a")
    case True
    then show ?thesis using c1 by (simp add: sc_access_def)
  next
    case False
    from sc_insert_spec[OF c1(2), of a] obtain v c2 where "sc_insert a c1 = Inr (v, c2)" "ic_ok c2" "ic_geometry c2 = ic_geometry c1"
      "keys_of c2 = (keys_of c1)[ic_index c1 (ic_line c1 a) := use_block (sa_Assoc (sc_Cache c1)) (ic_line c1 a) (ic_set c1 a)]"
      by blast
    moreover have "sa_Assoc (sc_Cache c1) = sa_Assoc (sc_Cache c)" using c1(3) by (simp add: ic_geometry_def)
    ultimately show ?thesis using False c1 ic_geometryD[OF c1(3)] by (simp add: sc_access_def)
  qed
qed

lemma accesses_lru:
  assumes "ic_ok c" "\<forall>i < sa_Sets (sc_Cache c). keys_of c ! i = recent (sa_Assoc (sc_Cache c)) (remdups (filter (\<lambda>b. ic_index c b = i) bs))"
  shows "\<exists>c'. foldE sc_access as c = Inr c' \<and> ic_ok c' \<and> ic_geometry c' = ic_geometry c \<and>
    (\<forall>i < sa_Sets (sc_Cache c). keys_of c' ! i =
       recent (sa_Assoc (sc_Cache c)) (remdups (filter (\<lambda>b. ic_index c b = i) (bs @ map (ic_line c) as))))"
  using assms
proof (induction as arbitrary: c bs)
  case (Cons a as)
  let ?b = "ic_line c a" and ?n = "sa_Assoc (sc_Cache c)"
  from sc_access_spec[OF Cons.prems(1), of a] obtain c1 where c1: "sc_access a c = Inr c1" "ic_ok c1" "ic_geometry c1 = ic_geometry c"
    "keys_of c1 = (keys_of c)[ic_index c ?b := use_block ?n ?b (ic_set c a)]" by blast
  note g = ic_geometryD[OF c1(3)]
  have s: "sa_Sets (sc_Cache c1) = sa_Sets (sc_Cache c)" "sa_Assoc (sc_Cache c1) = ?n" using c1(3) by (simp_all add: ic_geometry_def)
  have len: "length (keys_of c) = sa_Sets (sc_Cache c)" "0 < ?n" using Cons.prems(1) by (simp_all add: ic_ok_def)
  have "keys_of c1 ! i = recent ?n (remdups (filter (\<lambda>b. ic_index c b = i) (bs @ [?b])))" if "i < sa_Sets (sc_Cache c)" for i
    using that Cons.prems(2) len use_block_recent[of "remdups (filter (\<lambda>b. ic_index c b = i) bs)" ?n ?b]
    by (auto simp: c1(4) nth_list_update remdups_snoc)
  then have "\<forall>i < sa_Sets (sc_Cache c1). keys_of c1 ! i = recent (sa_Assoc (sc_Cache c1)) (remdups (filter (\<lambda>b. ic_index c1 b = i) (bs @ [?b])))"
    using s g by simp
  from Cons.IH[OF c1(2) this] show ?case using c1 s g by simp
qed simp

text \<open>C25: The instruction cache replaces the least recently used block: started empty with a size that is a power of
  two of sets, after any sequence of accesses every set holds the last distinct blocks that map to it, as many as
  its associativity, in the order of their last use.\<close>

theorem icache_lru:
  assumes "0 < assoc" "s < 27" "k < 27" "assoc * 2 ^ k < 2 ^ 31"
  shows "\<exists>c c'. SimCache_init (int (assoc * 2 ^ k * 2 ^ s)) (int assoc) (2 ^ s) = Inr c \<and> foldE sc_access as c = Inr c' \<and> ic_ok c' \<and>
    (\<forall>i < 2 ^ k. keys_of c' ! i = recent assoc (remdups (filter (\<lambda>b. unat b mod 2 ^ k = i) (map (drop_bit s) as))))"
proof -
  from SimCache_init_ok[OF assms] obtain c where c: "SimCache_init (int (assoc * 2 ^ k * 2 ^ s)) (int assoc) (2 ^ s) = Inr c" "ic_ok c"
    "theCacheBlockShift c = int s" "sa_Sets (sc_Cache c) = 2 ^ k" "sa_Assoc (sc_Cache c) = assoc" "keys_of c = replicate (2 ^ k) []" by blast
  obtain j where j: "sa_Sets (sc_Cache c) = 2 ^ j" "sa_IndexMask (sc_Cache c) = mask j" using c(2) by (auto simp: ic_ok_def)
  then have "j = k" using c(4) by simp
  then have "ic_index c b = unat b mod 2 ^ k" for b
    using j(2) by (simp add: ic_index_def flip: take_bit_eq_mask) (metis take_bit_eq_mod unsigned_take_bit_eq)
  moreover have "ic_line c = drop_bit s" using c(3) by (simp add: ic_line_def fun_eq_iff)
  moreover from accesses_lru[OF c(2), of "[]" as] c(4,6) obtain c' where "foldE sc_access as c = Inr c'" "ic_ok c'"
    "\<forall>i < 2 ^ k. keys_of c' ! i = recent (sa_Assoc (sc_Cache c)) (remdups (filter (\<lambda>b. ic_index c b = i) (map (ic_line c) as)))"
    by (auto simp: recent_def)
  ultimately show ?thesis using c(1,5) by auto
qed

theorem icache_lru_witness:
  "\<exists>c c'. SimCache_init (int (2 * 2 ^ 1 * 2 ^ 6)) (int 2) (2 ^ 6) = Inr c \<and> foldE sc_access [0, 128, 64, 0, 256] c = Inr c' \<and>
     keys_of c' ! 0 = [0, 4]"
  using icache_lru[of 2 6 1 "[0, 128, 64, 0, 256]"] by (auto simp: recent_def)

section \<open>Checkpoints of the functional cache\<close>

text \<open>The key under which a saved tag of set \<open>i\<close> is inserted.\<close>

lemma loaded_key:
  fixes t :: "64 word"
  assumes "i = unat (drop_bit s t AND mask k)"
  shows "push_bit k (of_nat (unat (drop_bit (s + k) t))) OR of_nat i = drop_bit s t"
proof -
  have "of_nat i = drop_bit s t AND mask k" by (simp add: assms)
  then show ?thesis by (auto intro!: bit_word_eqI simp: bit_simps add.assoc)
qed

definition loaded :: "nat \<Rightarrow> (64 word \<times> CoherenceState_t) list \<Rightarrow> 64 word list" where
  "loaded s es = map (drop_bit s \<circ> fst) (filter (\<lambda>e. isValid (snd e)) es)"

lemma loadArray_row:
  assumes "ic_ok c" "i < sa_Sets (sc_Cache c)" "sa_Sets (sc_Cache c) = 2 ^ k" "theCacheBlockShift c = int s"
    and "\<forall>e \<in> set es. snd e \<noteq> kMigratory \<and> (isValid (snd e) \<longrightarrow> i = unat (drop_bit s (fst e) AND mask k))"
    and "ic_set_ok c i (keys_of c ! i @ loaded s es)" "length js = length es"
  shows "\<exists>c'. foldE (\<lambda>_. loadArray_block k i) js (concat (map (tok (s + k)) es) @ ts, c) = Inr (ts, c') \<and> ic_ok c' \<and>
    ic_geometry c' = ic_geometry c \<and> keys_of c' = (keys_of c)[i := keys_of c ! i @ loaded s es]"
  using assms
proof (induction es arbitrary: c js)
  case Nil
  then show ?case by (simp add: loaded_def)
next
  case (Cons e es)
  obtain t st where e: "e = (t, st)" by (cases e)
  from Cons.prems(7) obtain j js' where js: "js = j # js'" "length js' = length es" by (cases js) auto
  note ok = Cons.prems(1)
  show ?case
  proof (cases "isValid st")
    case False
    then have "tok (s + k) e @ rest = [Sym CHR ''['', Num 0, Num (unat (drop_bit (s + k) t)), Sym CHR '']''] @ rest" for rest
      by (simp add: tok_def e entry_tokens_def)
    then have "loadArray_block k i (tok (s + k) e @ rest, c) = Inr (rest, c)" for rest
      by (simp add: loadArray_block_def)
    moreover have "loaded s (e # es) = loaded s es" using False by (simp add: loaded_def e)
    ultimately show ?thesis using Cons.IH[OF ok Cons.prems(2-4) _ _ js(2)] Cons.prems(5,6) by (simp add: js)
  next
    case True
    let ?b = "drop_bit s t" and ?ks = "keys_of c ! i"
    have key: "push_bit k (of_nat (unat (drop_bit (s + k) t))) OR of_nat i = ?b"
      by (rule loaded_key) (use Cons.prems(5) True in \<open>simp add: e\<close>)
    have ld: "loaded s (e # es) = ?b # loaded s es" using True by (simp add: loaded_def e)
    have so: "ic_set_ok c i (?ks @ [?b])" "ic_index c ?b = i" "?b \<notin> set ?ks"
      using Cons.prems(6) by (auto simp: ic_set_ok_def ld)
    have mk: "map fst (sa_at ?b (sc_Cache c)) = ?ks" using ic_at[OF ok, of ?b] so(2) by simp
    from sa_insert_put[OF ic_in_table[OF ok], of ?b 0] obtain r t' where t': "sa_insert (?b, 0) (sc_Cache c) = Inr (r, t')"
      "sa_Table t' = (sa_Table (sc_Cache c))[unat (makeIndex ?b (sc_Cache c)) := snd (seq_insert (?b, 0) (sa_at ?b (sc_Cache c)))]"
      "sa_IndexMask t' = sa_IndexMask (sc_Cache c)" "sa_Sets t' = sa_Sets (sc_Cache c)" "sa_Assoc t' = sa_Assoc (sc_Cache c)"
      "length (sa_SetCounts t') = length (sa_SetCounts (sc_Cache c))" "sa_CurrIndex t' = makeIndex ?b (sc_Cache c)" by blast
    let ?c1 = "c\<lparr>sc_Cache := t'\<rparr>"
    have kn: "map fst (snd (seq_insert (?b, 0) (sa_at ?b (sc_Cache c)))) = ?ks @ [?b]" using so(3) by (simp only: keys_insert mk) simp
    have g1: "ic_geometry ?c1 = ic_geometry c" by (simp add: ic_geometry_def t')
    have k1: "keys_of ?c1 = (keys_of c)[i := ?ks @ [?b]]"
      using so(2) kn by (simp add: keys_of_def t'(2) map_update makeIndex_def ic_index_def)
    have ok1: "ic_ok ?c1" by (rule ic_ok_update[OF ok g1 k1 so(1)])
    have "sa_size t' = Inr (length (?ks @ [?b]))"
      using ic_in_table[OF ok, of ?b] arg_cong[OF kn, of length] by (simp add: sa_size_def sa_current_def t'(2,7) in_table_def)
    moreover have "length (?ks @ [?b]) \<le> sa_Assoc t'" using so(1) by (simp add: ic_set_ok_def t'(5))
    moreover obtain n where "odd n" "tok (s + k) e = [Sym CHR ''['', Num n, Num (unat (drop_bit (s + k) t)), Sym CHR '']'']"
      by (rule that[of "case st of kModified \<Rightarrow> 7 | kOwned \<Rightarrow> 3 | kExclusive \<Rightarrow> 5 | kShared \<Rightarrow> 1 | _ \<Rightarrow> 0"])
        (use True Cons.prems(5) in \<open>cases st; simp add: tok_def e entry_tokens_def\<close>)+
    ultimately have step: "loadArray_block k i (tok (s + k) e @ rest, c) = Inr (rest, ?c1)" for rest
      by (simp add: loadArray_block_def key[simplified] t'(1))
    have i: "i < length (keys_of c)" using Cons.prems(1,2) by (simp add: ic_ok_def)
    have "ic_set_ok ?c1 i (keys_of ?c1 ! i @ loaded s es)"
      using Cons.prems(6) i by (simp add: k1 ld ic_geometryD(3)[OF g1])
    then have "\<exists>c'. foldE (\<lambda>_. loadArray_block k i) js' (concat (map (tok (s + k)) es) @ ts, ?c1) = Inr (ts, c') \<and> ic_ok c' \<and>
      ic_geometry c' = ic_geometry ?c1 \<and> keys_of c' = (keys_of ?c1)[i := keys_of ?c1 ! i @ loaded s es]"
      using Cons.prems(2-5) by (intro Cons.IH[OF ok1 _ _ _ _ _ js(2)]) (simp_all add: t'(4))
    then show ?thesis using step i g1 by (auto simp: js k1 ld)
  qed
qed

text \<open>One set after the other.\<close>

lemma loadArray_sets:
  assumes "\<And>i c ts. i < n \<Longrightarrow> I c \<Longrightarrow> keys_of c ! i = [] \<Longrightarrow> length (keys_of c) = n \<Longrightarrow>
      \<exists>c'. loadArray_set i (g i @ ts, c) = Inr (ts, c') \<and> I c' \<and> keys_of c' = (keys_of c)[i := R i]"
    and "I c" "keys_of c = replicate n []"
  shows "\<exists>c'. foldE loadArray_set [0..<n] (concat (map g [0..<n]), c) = Inr ([], c') \<and> I c' \<and> keys_of c' = map R [0..<n]"
proof -
  have "j \<le> n \<Longrightarrow> \<exists>c'. foldE loadArray_set [0..<j] (concat (map g [0..<n]), c) = Inr (concat (map g [j..<n]), c') \<and> I c' \<and>
      keys_of c' = map R [0..<j] @ replicate (n - j) []" for j
  proof (induction j)
    case (Suc j)
    then obtain c1 where c1: "foldE loadArray_set [0..<j] (concat (map g [0..<n]), c) = Inr (concat (map g [j..<n]), c1)" "I c1"
      "keys_of c1 = map R [0..<j] @ replicate (n - j) []" by auto
    have j: "j < n" using Suc.prems by simp
    have "concat (map g [j..<n]) = g j @ concat (map g [Suc j..<n])" using j by (simp add: upt_conv_Cons)
    moreover obtain c' where "loadArray_set j (g j @ concat (map g [Suc j..<n]), c1) = Inr (concat (map g [Suc j..<n]), c')" "I c'"
      "keys_of c' = (keys_of c1)[j := R j]"
      using assms(1)[OF j c1(2), of "concat (map g [Suc j..<n])"] j by (auto simp: c1(3) nth_append)
    moreover have "(map R [0..<j] @ replicate (n - j) [])[j := R j] = map R [0..<Suc j] @ replicate (n - Suc j) []"
      using j by (simp add: list_update_append Suc_diff_Suc[symmetric])
    ultimately show ?case using c1 by (simp add: foldE_append)
  qed (use assms(2,3) in simp)
  from this[of n] show ?thesis by simp
qed

definition fits :: "StdCache \<Rightarrow> SimCache \<Rightarrow> bool" where
  "fits sc c \<longleftrightarrow> sa_Sets (sc_Cache c) = theNumSets sc \<and> sa_Assoc (sc_Cache c) = theAssoc sc \<and> theCacheBlockShift c = int (blockShift sc)"

definition valid_lines :: "StdCache \<Rightarrow> nat \<Rightarrow> 64 word list" where
  "valid_lines sc i = map (\<lambda>b. drop_bit (blockShift sc) (be_tag b)) (filter (\<lambda>b. isValid (be_state b)) (theBlocks sc ! i))"

lemma loaded_row: "loaded s (row n 0 xs) = map (\<lambda>b. drop_bit s (be_tag b)) (filter (\<lambda>b. isValid (be_state b)) xs)"
  by (simp add: loaded_def row_def contents_def filter_map comp_def) 

lemma drop_tag_inj:
  assumes "geometry_ok sc" "get_tag sc t = t" "get_tag sc u = u" "drop_bit (blockShift sc) t = drop_bit (blockShift sc) u"
  shows "t = u"
proof -
  have "v = push_bit (blockShift sc) (drop_bit (blockShift sc) v)" if "get_tag sc v = v" for v
  proof -
    have "v AND NOT (mask (blockShift sc)) = v" using that assms(1) by (simp add: get_tag_def geometry_ok_def)
    moreover have "push_bit (blockShift sc) (drop_bit (blockShift sc) v) = v AND NOT (mask (blockShift sc))"
      by (auto intro!: bit_word_eqI simp: bit_simps)
    ultimately show ?thesis by simp
  qed
  then show ?thesis using assms(2-4) by metis
qed

lemma pow2_inj: "(2 :: nat) ^ a = 2 ^ b \<Longrightarrow> a = b"
  by simp

lemma valid_lines_ok:
  assumes ok: "cache_ok sc" and ic: "ic_ok c" and f: "fits sc c" and i: "i < theNumSets sc"
  shows "ic_set_ok c i (valid_lines sc i)"
    and "b \<in> set (theBlocks sc ! i) \<Longrightarrow> isValid (be_state b) \<Longrightarrow>
      i = unat (drop_bit (blockShift sc) (be_tag b) AND mask (log_base2 (theNumSets sc)))"
proof -
  let ?vs = "filter (\<lambda>b. isValid (be_state b)) (theBlocks sc ! i)" and ?s = "blockShift sc"
  have g: "geometry_ok sc" using ok by (simp add: cache_ok_def)
  have k: "theNumSets sc = 2 ^ log_base2 (theNumSets sc)" "blockSetMask sc = mask (log_base2 (theNumSets sc))"
    using g by (auto simp: geometry_ok_def)
  obtain j where j: "theNumSets sc = 2 ^ j" "sa_IndexMask (sc_Cache c) = mask j" using ic f by (auto simp: ic_ok_def fits_def)
  then have "j = log_base2 (theNumSets sc)" using k(1) by (metis pow2_inj)
  then have im: "sa_IndexMask (sc_Cache c) = blockSetMask sc" using j(2) k(2) by simp
  have so: "set_ok sc i (theBlocks sc ! i)" using sets_of[OF ok i] .
  have v: "get_set sc (be_tag b) = i" "get_tag sc (be_tag b) = be_tag b" if "b \<in> set ?vs" for b
    using that so by (auto simp: set_ok_def)
  show "i = unat (drop_bit ?s (be_tag b) AND mask (log_base2 (theNumSets sc)))" if "b \<in> set (theBlocks sc ! i)" "isValid (be_state b)"
    using that v(1)[of b] k(2) by (simp add: get_set_def)
  have "distinct (map be_tag ?vs)" using so by (auto simp: set_ok_def intro: distinct_map_filter)
  moreover have "inj_on (drop_bit ?s) (be_tag ` set ?vs)"
    by (rule inj_onI) (use drop_tag_inj[OF g] v(2) in blast)
  ultimately have "distinct (map (drop_bit ?s) (map be_tag ?vs))" by (simp only: distinct_map set_map)
  then have "distinct (valid_lines sc i)" by (simp add: valid_lines_def comp_def)
  moreover have "length (valid_lines sc i) \<le> sa_Assoc (sc_Cache c)"
    using so f by (auto simp: set_ok_def fits_def valid_lines_def intro: order_trans[OF length_filter_le])
  moreover have "ic_index c (drop_bit ?s (be_tag b)) = i" if "b \<in> set ?vs" for b
    using v(1)[OF that] by (simp add: ic_index_def im get_set_def)
  ultimately show "ic_set_ok c i (valid_lines sc i)"
    using f by (auto simp: ic_set_ok_def valid_lines_def ic_line_def fits_def drop_push_drop)
qed

lemma loadArray_saved_set:
  assumes ok: "cache_ok sc" and nm: "no_migratory sc" and ic: "ic_ok c" and f: "fits sc c" and i: "i < theNumSets sc"
    and e: "keys_of c ! i = []"
  shows "\<exists>c'. loadArray_set i (set_text sc (\<lambda>_. 0) i @ ts, c) = Inr (ts, c') \<and> (ic_ok c' \<and> fits sc c') \<and>
    keys_of c' = (keys_of c)[i := valid_lines sc i]"
proof -
  let ?k = "log_base2 (theNumSets sc)" and ?es = "row (theAssoc sc) 0 (theBlocks sc ! i)" and ?s = "blockShift sc"
  have k: "theNumSets sc = 2 ^ ?k" using ok by (simp add: cache_ok_def geometry_ok_def)
  obtain j where j: "j \<le> 26" "theNumSets sc = 2 ^ j" using ic f by (auto simp: ic_ok_def fits_def)
  then have "j = ?k" using k by (metis pow2_inj)
  then have lg: "LOG2 (int (sa_Sets (sc_Cache c))) = int ?k"
    using LOG2_power[of ?k] j f by (simp add: fits_def) 
  have rf: "length ?es = theAssoc sc" "\<forall>e \<in> set ?es. snd e \<noteq> kMigratory"
    using row_facts[OF sets_of[OF ok i]] nth_no_migratory[OF ok nm i] by auto
  have vl: "loaded ?s ?es = valid_lines sc i" by (simp add: loaded_row valid_lines_def)
  have "isValid (snd e) \<longrightarrow> i = unat (drop_bit ?s (fst e) AND mask ?k)" if "e \<in> set ?es" for e
    using that valid_lines_ok(2)[OF ok ic f i] by (auto simp: row_def contents_def)
  then have "\<forall>e \<in> set ?es. snd e \<noteq> kMigratory \<and> (isValid (snd e) \<longrightarrow> i = unat (drop_bit ?s (fst e) AND mask ?k))" using rf(2) by blast
  moreover have "ic_set_ok c i (keys_of c ! i @ loaded ?s ?es)" using valid_lines_ok(1)[OF ok ic f i] by (simp add: e vl)
  moreover define rest where "rest = [Sym CHR ''}'', Sym CHR ''<''] @ map Num [0..<theAssoc sc] @ [Sym CHR ''>''] @ ts"
  ultimately obtain c' where c'': "foldE (\<lambda>_. loadArray_block ?k i) [0..<theAssoc sc] (concat (map (tok (?s + ?k)) ?es) @ rest, c) = Inr (rest, c')"
    "ic_ok c'" "ic_geometry c' = ic_geometry c" "keys_of c' = (keys_of c)[i := loaded ?s ?es]"
    using loadArray_row[OF ic, of i ?k ?s ?es "[0..<theAssoc sc]" rest] i k f rf(1) by (simp add: fits_def e) metis
  have "loadArray_set i (set_text sc (\<lambda>_. 0) i @ ts, c) = Inr (ts, c')"
    using c''(1) f lg skip_numbers[of "theAssoc sc" "Sym CHR ''>'' # ts"] j(1) \<open>j = ?k\<close>
    by (simp add: loadArray_set_def set_text_def Let_def tag_shift_def fits_def rest_def)
  moreover have "fits sc c'" using f c''(3) by (simp add: fits_def ic_geometry_def)
  ultimately show ?thesis using c'' vl by auto
qed

lemma state_in_iff:
  assumes "distinct (map be_tag xs)"
  shows "state_in t xs \<noteq> kInvalid \<longleftrightarrow> (\<exists>b \<in> set xs. isValid (be_state b) \<and> be_tag b = t)"
proof (cases "by_tag t xs")
  case None
  then show ?thesis using by_tag_None_iff[of t xs] by (auto simp: state_in_def)
next
  case (Some b)
  then have "b' \<in> set xs \<and> be_tag b' = t \<longleftrightarrow> b' = b" for b' by (metis by_tag_Some_iff[OF assms] option.inject)
  then show ?thesis using Some by (simp add: state_in_def) metis
qed

text \<open>The fetch unit starts from the checkpoint of the functional instruction cache: when the two have the same
  geometry, the text the functional cache writes is accepted by the empty cache of the fetch unit, which then
  holds exactly the valid blocks of the saved cache, every set in the same recency order.\<close>

theorem icache_checkpoint:
  assumes ok: "cache_ok sc" and nm: "no_migratory sc" and ic: "ic_ok c" and f: "fits sc c" and e: "keys_of c = replicate (theNumSets sc) []"
  shows "\<exists>ts c'. saveState_text sc = Inr ts \<and> sc_loadState (Some ts) c = Inr c' \<and> ic_ok c' \<and>
    (\<forall>i < theNumSets sc. keys_of c' ! i = valid_lines sc i) \<and> (\<forall>a. cached c' a \<longleftrightarrow> state_of sc (get_tag sc a) \<noteq> kInvalid)"
proof -
  have g: "geometry_ok sc" "length (theBlocks sc) = theNumSets sc" using ok by (auto simp: cache_ok_def geometry_ok_def)
  have save: "saveState_text sc = Inr (concat (map (set_text sc (\<lambda>_. 0)) [0..<theNumSets sc]))"
    by (rule saveState_text_out[OF ok nm]) simp
  have "\<exists>c'. foldE loadArray_set [0..<theNumSets sc] (concat (map (set_text sc (\<lambda>_. 0)) [0..<theNumSets sc]), c) = Inr ([], c') \<and>
      (ic_ok c' \<and> fits sc c') \<and> keys_of c' = map (valid_lines sc) [0..<theNumSets sc]"
    by (rule loadArray_sets) (use loadArray_saved_set[OF ok nm] ic f e in auto)
  then obtain c' where c': "loadArray (concat (map (set_text sc (\<lambda>_. 0)) [0..<theNumSets sc])) c = Inr c'" "ic_ok c'" "fits sc c'"
    "keys_of c' = map (valid_lines sc) [0..<theNumSets sc]"
    using f by (auto simp: loadArray_def fits_def)
  have "cached c' a \<longleftrightarrow> state_of sc (get_tag sc a) \<noteq> kInvalid" for a
  proof -
    let ?s = "blockShift sc" and ?i = "get_set sc a"
    have i: "?i < theNumSets sc" using geometry_get_set[OF g(1), of a] g(2) by simp
    have line: "ic_line c' a = drop_bit ?s a" using c'(3) by (simp add: ic_line_def fits_def)
    obtain j where j: "theNumSets sc = 2 ^ j" "sa_IndexMask (sc_Cache c') = mask j" using c'(2,3) by (auto simp: ic_ok_def fits_def)
    moreover have "theNumSets sc = 2 ^ log_base2 (theNumSets sc)" using g(1) by (simp add: geometry_ok_def)
    ultimately have "j = log_base2 (theNumSets sc)" by (metis pow2_inj)
    then have "ic_index c' (ic_line c' a) = ?i" using j(2) g(1) line by (simp add: ic_index_def get_set_def geometry_ok_def)
    then have "cached c' a \<longleftrightarrow> drop_bit ?s a \<in> set (valid_lines sc ?i)" using i c'(4) by (simp add: cached_def line)
    also have "\<dots> \<longleftrightarrow> (\<exists>b \<in> set (theBlocks sc ! ?i). isValid (be_state b) \<and> be_tag b = get_tag sc a)"
    proof -
      have "drop_bit ?s (get_tag sc a) = drop_bit ?s a"
        using g(1) by (simp only: get_tag_def geometry_ok_def) (rule bit_word_eqI, auto simp: bit_simps dest: bit_imp_le_length)
      then have "drop_bit ?s (be_tag b) = drop_bit ?s a \<longleftrightarrow> be_tag b = get_tag sc a"
        if "b \<in> set (theBlocks sc ! ?i)" "isValid (be_state b)" for b
        using that sets_of[OF ok i] drop_tag_inj[OF g(1), of "be_tag b" "get_tag sc a"] by (auto simp: set_ok_def)
      then show ?thesis by (auto simp: valid_lines_def image_iff) (metis isValid_iff)+
    qed
    also have "\<dots> \<longleftrightarrow> state_of sc (get_tag sc a) \<noteq> kInvalid"
      using sets_of[OF ok i] get_set_get_tag[OF g(1), of a] state_in_iff[of "theBlocks sc ! ?i" "get_tag sc a"]
      by (simp add: state_of_def set_ok_def)
    finally show ?thesis .
  qed
  then show ?thesis using save c' by (auto simp: sc_loadState_def)
qed

theorem icache_checkpoint_witness:
  "\<exists>c ts c'. SimCache_init 256 2 64 = Inr c \<and> saveState_text saved_cache = Inr ts \<and> sc_loadState (Some ts) c = Inr c' \<and>
     keys_of c' ! 0 = [2, 0] \<and> cached c' 64 \<and> \<not> cached c' 192"
proof -
  from SimCache_init_ok[of 2 6 1] obtain c where c: "SimCache_init 256 2 64 = Inr c" "ic_ok c" "theCacheBlockShift c = 6"
    "sa_Sets (sc_Cache c) = 2" "sa_Assoc (sc_Cache c) = 2" "keys_of c = replicate 2 []" by auto
  have "fits saved_cache c" using c by (simp add: fits_def saved_cache_def)
  moreover have "theNumSets saved_cache = 2" by (simp add: saved_cache_def)
  ultimately obtain ts c' where r: "saveState_text saved_cache = Inr ts" "sc_loadState (Some ts) c = Inr c'"
    "keys_of c' ! 0 = valid_lines saved_cache 0" "\<forall>a. cached c' a \<longleftrightarrow> state_of saved_cache (get_tag saved_cache a) \<noteq> kInvalid"
    using icache_checkpoint[OF saved_ok saved_no_migratory c(2)] c(6) by auto
  have "valid_lines saved_cache 0 = [2, 0]" by (simp add: valid_lines_def saved_cache_def)
  moreover have "state_of saved_cache (get_tag saved_cache 64) = kExclusive" "state_of saved_cache (get_tag saved_cache 192) = kInvalid"
    by (simp_all add: saved_cache_def state_of_def state_in_def by_tag_def get_set_def get_tag_def)
  ultimately show ?thesis using r c(1) by (intro exI[of _ c] exI[of _ ts] exI[of _ c']) simp
qed

end
