(* ===== verification/BranchPredictor.thy ===== *)
theory BranchPredictor
  imports Flexus_Prelude
begin

text \<open>
  The combining branch predictor (\<^verbatim>\<open>CommonQEMU/BranchPredictor.cpp\<close>, types in
  \<^verbatim>\<open>uFetch/uFetchTypes.hpp\<close>): a branch target buffer, a bimodal table, a \<^verbatim>\<open>gshare\<close> table indexed by the
  branch history, and a meta table that chooses between the two. The detailed simulator uses
  \<^verbatim>\<open>CombiningImpl\<close>, the trace simulator \<^verbatim>\<open>FastCombiningImpl\<close>; both have the same state.

  A set of the branch target buffer is the list of its entries in recency order. Table sizes are the
  non-negative literals of the constructors. An index is computed at 64 bits and narrowed to a signed
  32-bit value, as in the code.
\<close>

unbundle bit_operations_syntax

section \<open>Data\<close>

datatype eBranchType = kNonBranch | kConditional | kUnconditional | kCall | kReturn | kLastBranchType

datatype eDirection = kStronglyTaken | kTaken | kNotTaken | kStronglyNotTaken

fun dir_num :: "eDirection \<Rightarrow> nat" where
  "dir_num kStronglyTaken = 0"
| "dir_num kTaken = 1"
| "dir_num kNotTaken = 2"
| "dir_num kStronglyNotTaken = 3"

definition dir_of :: "nat \<Rightarrow> eDirection" where
  "dir_of n = (if n = 0 then kStronglyTaken else if n = 1 then kTaken else if n = 2 then kNotTaken else kStronglyNotTaken)"

text \<open>Directions are compared by their numbers.\<close>

instantiation eDirection :: linorder
begin

definition less_eq_eDirection :: "eDirection \<Rightarrow> eDirection \<Rightarrow> bool" where
  "less_eq_eDirection a b \<longleftrightarrow> dir_num a \<le> dir_num b"

definition less_eDirection :: "eDirection \<Rightarrow> eDirection \<Rightarrow> bool" where
  "less_eDirection a b \<longleftrightarrow> dir_num a < dir_num b"

instance
proof
  fix a b :: eDirection
  show "a \<le> b \<Longrightarrow> b \<le> a \<Longrightarrow> a = b" by (cases a; cases b) (simp_all add: less_eq_eDirection_def)
qed (auto simp: less_eq_eDirection_def less_eDirection_def)

end

record BPredState =
  thePredictedType :: eBranchType
  thePredictedTarget :: "64 word"
  thePrediction :: eDirection
  theBimodalPrediction :: eDirection
  theMetaPrediction :: eDirection
  theGSharePrediction :: eDirection
  theGShareShiftReg :: "32 word"
  bps_Serial :: "32 word"

record FetchAddr =
  theAddress :: "64 word"
  fa_BPState :: "BPredState option"

record BranchFeedback =
  fb_PC :: "64 word"
  theActualType :: eBranchType
  theActualDirection :: eDirection
  theActualTarget :: "64 word"
  fb_BPState :: "BPredState option"

section \<open>Two-bit counters\<close>

definition moreTaken :: "eDirection \<Rightarrow> eDirection" where
  "moreTaken aDirection = (if aDirection = kStronglyTaken then kStronglyTaken else dir_of (dir_num aDirection - 1))"

definition moreNotTaken :: "eDirection \<Rightarrow> eDirection" where
  "moreNotTaken aDirection = (if aDirection = kStronglyNotTaken then kStronglyNotTaken else dir_of (dir_num aDirection + 1))"

definition apply_dir :: "eDirection \<Rightarrow> eDirection \<Rightarrow> eDirection" where
  "apply_dir aDirection aState = (if aDirection \<le> kTaken then moreTaken aState else moreNotTaken aState)"

definition reverse_dir :: "eDirection \<Rightarrow> eDirection" where
  "reverse_dir direction = (if direction \<ge> kNotTaken then kTaken else kNotTaken)"

text \<open>A table is filled with the two weak directions in turn.\<close>

primrec fill_table :: "nat \<Rightarrow> eDirection \<Rightarrow> eDirection list" where
  "fill_table 0 direction = []"
| "fill_table (Suc n) direction = direction # fill_table n (reverse_dir direction)"

definition to_int32 :: "64 word \<Rightarrow> int" where
  "to_int32 w = sint (ucast w :: 32 word)"

section \<open>The history-indexed table\<close>

record gShare =
  thePatternTable :: "eDirection list"
  theShiftReg :: "32 word"
  theShiftRegSize :: int
  thePatternMask :: "32 word"

definition gShare_reset :: "gShare \<Rightarrow> gShare" where
  "gShare_reset g = g\<lparr>thePatternTable := fill_table (2 ^ nat (theShiftRegSize g)) kNotTaken, theShiftReg := 0\<rparr>"

definition gShare_new :: "nat \<Rightarrow> gShare res" where
  "gShare_new aSize = (if aSize > 30 then Inl UndefinedBehaviour
     else Inr (gShare_reset \<lparr>thePatternTable = [], theShiftReg = 0, theShiftRegSize = int aSize, thePatternMask = 2 ^ aSize - 1\<rparr>))"

definition gs_index :: "64 word \<Rightarrow> 32 word \<Rightarrow> gShare \<Rightarrow> int" where
  "gs_index anAddress aShiftReg g = to_int32 ((ucast aShiftReg XOR drop_bit 2 anAddress) AND ucast (thePatternMask g))"

definition shiftIn :: "eDirection \<Rightarrow> gShare \<Rightarrow> gShare" where
  "shiftIn aDirection g =
     (let r = push_bit 1 (theShiftReg g) AND thePatternMask g in
      g\<lparr>theShiftReg := if aDirection \<ge> kNotTaken then r OR 1 else r\<rparr>)"

definition setShiftReg :: "32 word \<Rightarrow> gShare \<Rightarrow> gShare" where
  "setShiftReg aPreviousShiftRegState g = g\<lparr>theShiftReg := aPreviousShiftRegState AND thePatternMask g\<rparr>"

definition gs_direction :: "64 word \<Rightarrow> 32 word \<Rightarrow> gShare \<Rightarrow> eDirection res" where
  "gs_direction anAddress aShiftRegState g = arr_at (thePatternTable g) (gs_index anAddress aShiftRegState g)"

definition gs_update :: "64 word \<Rightarrow> 32 word \<Rightarrow> eDirection \<Rightarrow> gShare \<Rightarrow> gShare res" where
  "gs_update anAddress aShiftRegState aDirection g =
     bindE (arr_set (thePatternTable g) (gs_index anAddress aShiftRegState g) aDirection) (\<lambda>t. Inr (g\<lparr>thePatternTable := t\<rparr>))"

section \<open>The address-indexed tables\<close>

record Bimodal =
  theTable :: "eDirection list"
  bim_Size :: int
  bim_IndexMask :: "64 word"

definition Bimodal_reset :: "Bimodal \<Rightarrow> Bimodal" where
  "Bimodal_reset b = b\<lparr>theTable := fill_table (nat (bim_Size b)) kNotTaken\<rparr>"

definition Bimodal_new :: "nat \<Rightarrow> Bimodal res" where
  "Bimodal_new aSize =
     bindE (dbg_assert ((int aSize - 1) AND int aSize = 0)) (\<lambda>_.
     Inr (Bimodal_reset \<lparr>theTable = [], bim_Size = int aSize, bim_IndexMask = of_int (int aSize - 1)\<rparr>))"

definition bim_index :: "64 word \<Rightarrow> Bimodal \<Rightarrow> int" where
  "bim_index anAddress b = to_int32 ((drop_bit 19 anAddress XOR drop_bit 2 anAddress) AND bim_IndexMask b)"

definition bim_direction :: "64 word \<Rightarrow> Bimodal \<Rightarrow> eDirection res" where
  "bim_direction anAddress b = arr_at (theTable b) (bim_index anAddress b)"

definition bim_update :: "64 word \<Rightarrow> eDirection \<Rightarrow> Bimodal \<Rightarrow> Bimodal res" where
  "bim_update anAddress aDirection b =
     bindE (arr_set (theTable b) (bim_index anAddress b) aDirection) (\<lambda>t. Inr (b\<lparr>theTable := t\<rparr>))"

section \<open>The branch target buffer\<close>

record BTBEntry =
  be_PC :: "64 word"
  theBranchType :: eBranchType
  theTarget :: "64 word"

record BTB =
  btb_sets :: "BTBEntry list list"
  theBTBSets :: nat
  theBTBAssoc :: nat
  btb_IndexMask :: "64 word"

definition BTB_new :: "nat \<Rightarrow> nat \<Rightarrow> BTB res" where
  "BTB_new aBTBSets aBTBAssoc =
     bindE (dbg_assert ((int aBTBSets - 1) AND int aBTBSets = 0)) (\<lambda>_.
     Inr \<lparr>btb_sets = replicate aBTBSets [], theBTBSets = aBTBSets, theBTBAssoc = aBTBAssoc, btb_IndexMask = of_int (int aBTBSets - 1)\<rparr>)"

definition btb_index :: "64 word \<Rightarrow> BTB \<Rightarrow> int" where
  "btb_index anAddress t = to_int32 (drop_bit 2 anAddress AND btb_IndexMask t)"

definition btb_find :: "64 word \<Rightarrow> BTB \<Rightarrow> BTBEntry option res" where
  "btb_find anAddress t =
     bindE (arr_at (btb_sets t) (btb_index anAddress t)) (\<lambda>xs. Inr (find (\<lambda>e. be_PC e = anAddress) xs))"

definition btb_contains :: "64 word \<Rightarrow> BTB \<Rightarrow> bool res" where
  "btb_contains anAddress t = bindE (btb_find anAddress t) (\<lambda>e. Inr (e \<noteq> None))"

definition btb_type :: "64 word \<Rightarrow> BTB \<Rightarrow> eBranchType res" where
  "btb_type anAddress t =
     bindE (btb_find anAddress t) (\<lambda>iter. Inr (case iter of None \<Rightarrow> kNonBranch | Some e \<Rightarrow> theBranchType e))"

definition btb_target :: "64 word \<Rightarrow> BTB \<Rightarrow> 64 word option res" where
  "btb_target anAddress t = bindE (btb_find anAddress t) (\<lambda>iter. Inr (map_option theTarget iter))"

definition btb_store :: "int \<Rightarrow> BTBEntry list \<Rightarrow> BTB \<Rightarrow> BTB res" where
  "btb_store idx xs t = bindE (arr_set (btb_sets t) idx xs) (\<lambda>ss. Inr (t\<lparr>btb_sets := ss\<rparr>))"

definition btb_update :: "64 word \<Rightarrow> eBranchType \<Rightarrow> 64 word \<Rightarrow> BTB \<Rightarrow> (bool \<times> BTB) res" where
  "btb_update aPC aType aTarget t =
     (let idx = btb_index aPC t in
      bindE (arr_at (btb_sets t) idx) (\<lambda>xs.
      case find (\<lambda>e. be_PC e = aPC) xs of
        Some e \<Rightarrow>
          let others = filter (\<lambda>e. be_PC e \<noteq> aPC) xs in
          if aType = kNonBranch then bindE (btb_store idx others t) (\<lambda>t. Inr (False, t))
          else
            let e = e\<lparr>theBranchType := aType\<rparr>;
                e = (if aTarget \<noteq> 0 then e\<lparr>theTarget := aTarget\<rparr> else e)
            in bindE (btb_store idx (others @ [e]) t) (\<lambda>t. Inr (False, t))
      | None \<Rightarrow>
          if aType \<noteq> kNonBranch then
            bindE (if length xs \<ge> theBTBAssoc t then bindE (front xs) (\<lambda>_. Inr (tl xs)) else Inr xs) (\<lambda>xs.
            bindE (btb_store idx (xs @ [\<lparr>be_PC = aPC, theBranchType = aType, theTarget = aTarget\<rparr>]) t) (\<lambda>t. Inr (True, t)))
          else Inr (False, t)))"

section \<open>The combining predictor\<close>

record BPStats =
  theBranches :: int
  theBranches_Unconditional :: int
  theBranches_Conditional :: int
  theBranches_Call :: int
  theBranches_Return :: int
  thePredictions :: int
  thePredictions_Bimodal :: int
  thePredictions_GShare :: int
  thePredictions_Unconditional :: int
  theCorrect :: int
  theCorrect_Bimodal :: int
  theCorrect_GShare :: int
  theCorrect_Unconditional :: int
  theMispredict :: int
  theMispredict_NewBranch :: int
  theMispredict_Direction :: int
  theMispredict_Meta :: int
  theMispredict_MetaGShare :: int
  theMispredict_MetaBimod :: int
  theMispredict_Target :: int

definition no_stats :: BPStats where
  "no_stats = \<lparr>theBranches = 0, theBranches_Unconditional = 0, theBranches_Conditional = 0, theBranches_Call = 0,
     theBranches_Return = 0, thePredictions = 0, thePredictions_Bimodal = 0, thePredictions_GShare = 0,
     thePredictions_Unconditional = 0, theCorrect = 0, theCorrect_Bimodal = 0, theCorrect_GShare = 0,
     theCorrect_Unconditional = 0, theMispredict = 0, theMispredict_NewBranch = 0, theMispredict_Direction = 0,
     theMispredict_Meta = 0, theMispredict_MetaGShare = 0, theMispredict_MetaBimod = 0, theMispredict_Target = 0\<rparr>"

abbreviation (input) tick :: "((int \<Rightarrow> int) \<Rightarrow> BPStats \<Rightarrow> BPStats) \<Rightarrow> BPStats \<Rightarrow> BPStats" where
  "tick counter s \<equiv> counter (\<lambda>n. n + 1) s"

record Combining =
  theSerial :: "32 word"
  theBTB :: BTB
  theBimodal :: Bimodal
  theMeta :: Bimodal
  theGShare :: gShare
  bp_stats :: BPStats

definition new_predictor :: "nat \<Rightarrow> nat \<Rightarrow> nat \<Rightarrow> Combining res" where
  "new_predictor btbSets bimodal meta =
     bindE (BTB_new btbSets 16) (\<lambda>t. bindE (Bimodal_new bimodal) (\<lambda>b. bindE (Bimodal_new meta) (\<lambda>m. bindE (gShare_new 13) (\<lambda>g.
     Inr \<lparr>theSerial = 0, theBTB = t, theBimodal = b, theMeta = m, theGShare = g, bp_stats = no_stats\<rparr>))))"

definition CombiningImpl_new :: "Combining res" where
  "CombiningImpl_new = new_predictor 2048 16384 16384"

definition FastCombiningImpl_new :: "Combining res" where
  "FastCombiningImpl_new = new_predictor 1024 32768 8192"

definition isBranch :: "64 word \<Rightarrow> Combining \<Rightarrow> bool res" where
  "isBranch anAddress p = btb_contains anAddress (theBTB p)"

definition predictConditional :: "64 word \<Rightarrow> BPredState \<Rightarrow> Combining \<Rightarrow> (64 word \<times> BPredState \<times> Combining) res" where
  "predictConditional anAddress st p =
     bindE (bim_direction anAddress (theBimodal p)) (\<lambda>bimodal.
     bindE (gs_direction anAddress (theShiftReg (theGShare p)) (theGShare p)) (\<lambda>gshare.
     bindE (bim_direction anAddress (theMeta p)) (\<lambda>meta.
     let (prediction, s) =
           (if meta \<ge> kNotTaken then (gshare, tick thePredictions_GShare_update (tick thePredictions_update (bp_stats p)))
            else (bimodal, tick thePredictions_Bimodal_update (tick thePredictions_update (bp_stats p))));
         st = st\<lparr>thePrediction := prediction, theBimodalPrediction := bimodal, theMetaPrediction := meta,
                 theGSharePrediction := gshare, theGShareShiftReg := theShiftReg (theGShare p)\<rparr>;
         p = p\<lparr>bp_stats := s, theGShare := shiftIn gshare (theGShare p)\<rparr>
     in bindE (if prediction \<le> kTaken then btb_target anAddress (theBTB p) else Inr None) (\<lambda>target.
        Inr (case target of Some t \<Rightarrow> t | None \<Rightarrow> 0, st, p)))))"

definition start_state :: "eBranchType \<Rightarrow> 32 word \<Rightarrow> BPredState" where
  "start_state ty serial = \<lparr>thePredictedType = ty, thePredictedTarget = 0, thePrediction = kStronglyTaken,
     theBimodalPrediction = kStronglyTaken, theMetaPrediction = kStronglyTaken, theGSharePrediction = kStronglyTaken,
     theGShareShiftReg = 0, bps_Serial = serial\<rparr>"

text \<open>An unconditional branch or a call: the target is read from the buffer.\<close>

definition predict_jump :: "64 word \<Rightarrow> BPredState \<Rightarrow> Combining \<Rightarrow> (BPredState \<times> Combining) res" where
  "predict_jump anAddress st p =
     (let p = p\<lparr>bp_stats := tick thePredictions_Unconditional_update (tick thePredictions_update (bp_stats p))\<rparr> in
      bindE (btb_target anAddress (theBTB p)) (\<lambda>target.
      Inr (st\<lparr>thePredictedTarget := (case target of Some t \<Rightarrow> t | None \<Rightarrow> 0), theGShareShiftReg := theShiftReg (theGShare p)\<rparr>, p)))"

definition predict_state :: "64 word \<Rightarrow> Combining \<Rightarrow> (BPredState \<times> Combining) res" where
  "predict_state anAddress p =
     bindE (btb_type anAddress (theBTB p)) (\<lambda>ty.
     let st = start_state ty (theSerial p); p = p\<lparr>theSerial := theSerial p + 1\<rparr> in
     case ty of
       kNonBranch \<Rightarrow> Inr (st, p)
     | kConditional \<Rightarrow>
         bindE (predictConditional anAddress st p) (\<lambda>(target, st, p). Inr (st\<lparr>thePredictedTarget := target\<rparr>, p))
     | kUnconditional \<Rightarrow> predict_jump anAddress st p
     | kCall \<Rightarrow> predict_jump anAddress st p
     | kReturn \<Rightarrow> Inr (st, p)
     | kLastBranchType \<Rightarrow> Inr (st, p))"

definition predict :: "FetchAddr \<Rightarrow> Combining \<Rightarrow> (64 word \<times> FetchAddr \<times> Combining) res" where
  "predict aFetch p =
     bindE (predict_state (theAddress aFetch) p) (\<lambda>(st, p).
     Inr (thePredictedTarget st, aFetch\<lparr>fa_BPState := Some st\<rparr>, p))"

definition count_branch :: "eBranchType \<Rightarrow> BPStats \<Rightarrow> BPStats" where
  "count_branch ty s = (case ty of
     kConditional \<Rightarrow> tick theBranches_Conditional_update (tick theBranches_update s)
   | kUnconditional \<Rightarrow> tick theBranches_Unconditional_update (tick theBranches_update s)
   | kCall \<Rightarrow> tick theBranches_Call_update (tick theBranches_update s)
   | kReturn \<Rightarrow> tick theBranches_Return_update (tick theBranches_update s)
   | _ \<Rightarrow> s)"

definition stats :: "BranchFeedback \<Rightarrow> BPStats \<Rightarrow> BPStats" where
  "stats fb s =
     count_branch (theActualType fb)
      (case fb_BPState fb of
         None \<Rightarrow> tick theMispredict_NewBranch_update (tick theMispredict_update s)
       | Some st \<Rightarrow>
           if theActualType fb \<noteq> thePredictedType st then tick theMispredict_NewBranch_update (tick theMispredict_update s)
           else if theActualType fb = kConditional then
             if thePrediction st \<ge> kNotTaken \<and> theActualDirection fb \<ge> kNotTaken then
               (if theMetaPrediction st \<ge> kNotTaken then tick theCorrect_GShare_update (tick theCorrect_update s)
                else tick theCorrect_Bimodal_update (tick theCorrect_update s))
             else if thePrediction st \<le> kTaken \<and> theActualDirection fb \<le> kTaken then
               (if theActualTarget fb = thePredictedTarget st then
                  (if theMetaPrediction st \<ge> kNotTaken then tick theCorrect_GShare_update (tick theCorrect_update s)
                   else tick theCorrect_Bimodal_update (tick theCorrect_update s))
                else tick theMispredict_Target_update (tick theMispredict_update s))
             else if (theBimodalPrediction st \<ge> kNotTaken) = (theGSharePrediction st \<ge> kNotTaken) then
               tick theMispredict_Direction_update (tick theMispredict_update s)
             else if (thePrediction st \<ge> kNotTaken) = (theGSharePrediction st \<ge> kNotTaken) then
               tick theMispredict_MetaGShare_update (tick theMispredict_Meta_update (tick theMispredict_update s))
             else tick theMispredict_MetaBimod_update (tick theMispredict_Meta_update (tick theMispredict_update s))
           else if theActualTarget fb = thePredictedTarget st then
             tick theCorrect_Unconditional_update (tick theCorrect_update s)
           else tick theMispredict_Target_update (tick theMispredict_update s))"

text \<open>The update of the tables for a conditional branch that was predicted.\<close>

definition learn :: "64 word \<Rightarrow> eDirection \<Rightarrow> BPredState \<Rightarrow> Combining \<Rightarrow> Combining res" where
  "learn pc dir st p =
     (let g = (if (theGSharePrediction st \<ge> kNotTaken) \<noteq> (dir \<ge> kNotTaken)
               then shiftIn dir (setShiftReg (theGShareShiftReg st) (theGShare p)) else theGShare p);
          p = p\<lparr>theGShare := g\<rparr> in
      bindE (bim_direction pc (theBimodal p)) (\<lambda>bimodal.
      bindE (gs_direction pc (theGShareShiftReg st) (theGShare p)) (\<lambda>gshare.
      bindE (bim_direction pc (theMeta p)) (\<lambda>meta.
      bindE (bim_update pc (apply_dir dir bimodal) (theBimodal p)) (\<lambda>b.
      bindE (gs_update pc (theGShareShiftReg st) (apply_dir dir gshare) (theGShare p)) (\<lambda>g.
      let p = p\<lparr>theBimodal := b, theGShare := g\<rparr> in
      if (gshare \<ge> kNotTaken) \<noteq> (bimodal \<ge> kNotTaken) then
        bindE (bim_update pc (if (dir \<ge> kNotTaken) = (gshare \<ge> kNotTaken) then moreNotTaken meta else moreTaken meta) (theMeta p))
          (\<lambda>m. Inr (p\<lparr>theMeta := m\<rparr>))
      else Inr p))))))"

definition feedback :: "BranchFeedback \<Rightarrow> Combining \<Rightarrow> Combining res" where
  "feedback fb p =
     (let p = p\<lparr>bp_stats := stats fb (bp_stats p)\<rparr> in
      bindE (btb_update (fb_PC fb) (theActualType fb) (theActualTarget fb) (theBTB p)) (\<lambda>(is_new, t).
      let p = p\<lparr>theBTB := t\<rparr> in
      if theActualType fb = kConditional then
        if is_new then
          bindE (bim_update (fb_PC fb) (theActualDirection fb) (theBimodal p)) (\<lambda>b.
          Inr (p\<lparr>theBimodal := b, theGShare := shiftIn (theActualDirection fb) (theGShare p)\<rparr>))
        else (case fb_BPState fb of
                Some st \<Rightarrow> learn (fb_PC fb) (theActualDirection fb) st p
              | None \<Rightarrow> Inr p)
      else (case fb_BPState fb of
              Some st \<Rightarrow>
                if thePredictedTarget st \<noteq> theActualTarget fb \<and> \<not> is_new
                then Inr (p\<lparr>theGShare := setShiftReg (theGShareShiftReg st) (theGShare p)\<rparr>) else Inr p
            | None \<Rightarrow> Inr p)))"

section \<open>The predictor of the trace simulator\<close>

text \<open>The counters of this class compare targets after narrowing them to 32 bits.\<close>

definition fast_stats :: "eBranchType \<Rightarrow> eDirection \<Rightarrow> 32 word \<Rightarrow> BPredState \<Rightarrow> BPStats \<Rightarrow> BPStats" where
  "fast_stats anActualType anActualDirection anActualTarget st s =
     count_branch anActualType
      (if anActualType \<noteq> thePredictedType st then tick theMispredict_NewBranch_update (tick theMispredict_update s)
       else if anActualType = kConditional then
         if thePrediction st \<ge> kNotTaken \<and> anActualDirection \<ge> kNotTaken then
           (if theMetaPrediction st \<ge> kNotTaken then tick theCorrect_GShare_update (tick theCorrect_update s)
            else tick theCorrect_Bimodal_update (tick theCorrect_update s))
         else if thePrediction st \<le> kTaken \<and> anActualDirection \<le> kTaken then
           (if anActualTarget = ucast (thePredictedTarget st) then
              (if theMetaPrediction st \<ge> kNotTaken then tick theCorrect_GShare_update (tick theCorrect_update s)
               else tick theCorrect_Bimodal_update (tick theCorrect_update s))
            else tick theMispredict_Target_update (tick theMispredict_update s))
         else if (theBimodalPrediction st \<ge> kNotTaken) = (theGSharePrediction st \<ge> kNotTaken) then
           tick theMispredict_Direction_update (tick theMispredict_update s)
         else if (thePrediction st \<ge> kNotTaken) = (theGSharePrediction st \<ge> kNotTaken) then
           tick theMispredict_MetaGShare_update (tick theMispredict_Meta_update (tick theMispredict_update s))
         else tick theMispredict_MetaBimod_update (tick theMispredict_Meta_update (tick theMispredict_update s))
       else if anActualTarget = ucast (thePredictedTarget st) then
         tick theCorrect_Unconditional_update (tick theCorrect_update s)
       else tick theMispredict_Target_update (tick theMispredict_update s))"

definition fast_predict :: "64 word \<Rightarrow> BPredState \<Rightarrow> Combining \<Rightarrow> (BPredState \<times> Combining) res" where
  "fast_predict anAddress aBPState p =
     bindE (btb_type anAddress (theBTB p)) (\<lambda>ty.
     let st = aBPState\<lparr>thePredictedType := ty, bps_Serial := theSerial p, thePredictedTarget := 0, thePrediction := kStronglyTaken,
                theBimodalPrediction := kStronglyTaken, theMetaPrediction := kStronglyTaken,
                theGSharePrediction := kStronglyTaken, theGShareShiftReg := 0\<rparr>;
         p = p\<lparr>theSerial := theSerial p + 1\<rparr> in
     case ty of
       kNonBranch \<Rightarrow> Inr (st, p)
     | kConditional \<Rightarrow>
         bindE (predictConditional anAddress st p) (\<lambda>(target, st, p). Inr (st\<lparr>thePredictedTarget := target\<rparr>, p))
     | kUnconditional \<Rightarrow> predict_jump anAddress st p
     | kCall \<Rightarrow> predict_jump anAddress st p
     | kReturn \<Rightarrow> Inr (st, p)
     | kLastBranchType \<Rightarrow> Inr (st, p))"

definition fast_feedback :: "64 word \<Rightarrow> eBranchType \<Rightarrow> eDirection \<Rightarrow> 64 word \<Rightarrow> BPredState \<Rightarrow> Combining \<Rightarrow> Combining res" where
  "fast_feedback anAddress anActualType anActualDirection anActualTarget aBPState p =
     (let p = p\<lparr>bp_stats := fast_stats anActualType anActualDirection (ucast anActualTarget) aBPState (bp_stats p)\<rparr> in
      bindE (btb_update anAddress anActualType anActualTarget (theBTB p)) (\<lambda>(is_new, t).
      let p = p\<lparr>theBTB := t\<rparr> in
      if anActualType = kConditional then
        if is_new then
          bindE (bim_update anAddress anActualDirection (theBimodal p)) (\<lambda>b.
          Inr (p\<lparr>theBimodal := b, theGShare := shiftIn anActualDirection (theGShare p)\<rparr>))
        else if thePredictedType aBPState \<noteq> kNonBranch then learn anAddress anActualDirection aBPState p
        else Inr p
      else if thePredictedType aBPState \<noteq> kNonBranch \<and> thePredictedTarget aBPState \<noteq> anActualTarget \<and> \<not> is_new
        then Inr (p\<lparr>theGShare := setShiftReg (theGShareShiftReg aBPState) (theGShare p)\<rparr>)
      else Inr p))"

section \<open>Checkpoints\<close>

text \<open>
  The archive holds the values in the order they are written. The same member function serves for saving
  and for loading, so its last statement also runs when a state is saved.
\<close>

record bp_archive =
  ar_btb :: "BTBEntry list list \<times> nat \<times> nat \<times> 64 word"
  ar_bimodal :: "eDirection list \<times> int \<times> 64 word"
  ar_meta :: "eDirection list \<times> int \<times> 64 word"
  ar_gshare :: "eDirection list \<times> int \<times> 32 word \<times> 32 word"

definition gShare_serialize_end :: "gShare \<Rightarrow> gShare" where
  "gShare_serialize_end g = g\<lparr>theShiftReg := theShiftReg g AND of_int (theShiftRegSize g)\<rparr>"

definition bim_fields :: "Bimodal \<Rightarrow> eDirection list \<times> int \<times> 64 word" where
  "bim_fields b = (theTable b, bim_Size b, bim_IndexMask b)"

definition saveState :: "Combining \<Rightarrow> bp_archive \<times> Combining" where
  "saveState p =
     (let t = theBTB p; g = theGShare p in
      (\<lparr>ar_btb = (btb_sets t, theBTBSets t, theBTBAssoc t, btb_IndexMask t), ar_bimodal = bim_fields (theBimodal p),
        ar_meta = bim_fields (theMeta p), ar_gshare = (thePatternTable g, theShiftRegSize g, thePatternMask g, theShiftReg g)\<rparr>,
       p\<lparr>theGShare := gShare_serialize_end g\<rparr>))"

text \<open>Entries are appended to the sets of the buffer that is loaded into; an entry whose address is already
  there is not inserted.\<close>

definition append_entry :: "BTBEntry list \<Rightarrow> BTBEntry \<Rightarrow> BTBEntry list" where
  "append_entry xs e = (if be_PC e \<in> be_PC ` set xs then xs else xs @ [e])"

definition load_sets :: "BTBEntry list list \<Rightarrow> BTBEntry list list \<Rightarrow> BTBEntry list list" where
  "load_sets saved ss = map (\<lambda>i. foldl append_entry (if i < length ss then ss ! i else []) (saved ! i)) [0..<length saved]"

definition loadState :: "bp_archive \<Rightarrow> Combining \<Rightarrow> Combining" where
  "loadState ar p =
     (case ar_btb ar of (sets, n, assoc, msk) \<Rightarrow> case ar_bimodal ar of (bt, bn, bm) \<Rightarrow> case ar_meta ar of (mt, mn, mm) \<Rightarrow>
      case ar_gshare ar of (gt, gn, gm, _) \<Rightarrow>
      p\<lparr>theBTB := \<lparr>btb_sets = load_sets sets (btb_sets (theBTB p)), theBTBSets = n, theBTBAssoc = assoc, btb_IndexMask = msk\<rparr>,
        theBimodal := \<lparr>theTable = bt, bim_Size = bn, bim_IndexMask = bm\<rparr>,
        theMeta := \<lparr>theTable = mt, bim_Size = mn, bim_IndexMask = mm\<rparr>,
        theGShare := gShare_serialize_end ((theGShare p)\<lparr>thePatternTable := gt, theShiftRegSize := gn, thePatternMask := gm\<rparr>)\<rparr>)"

section \<open>Directions\<close>

lemma taken_iff [simp]: "d \<le> kTaken \<longleftrightarrow> \<not> kNotTaken \<le> d"
  by (cases d) (simp_all add: less_eq_eDirection_def)

lemma not_taken_simps [simp]:
  "kNotTaken \<le> kNotTaken" "kNotTaken \<le> kStronglyNotTaken" "\<not> kNotTaken \<le> kTaken" "\<not> kNotTaken \<le> kStronglyTaken"
  by (simp_all add: less_eq_eDirection_def)

text \<open>Two outcomes in the same direction make a counter predict it, and it then stays with it.\<close>

lemma apply_dir_keeps: "(kNotTaken \<le> x \<longleftrightarrow> kNotTaken \<le> d) \<Longrightarrow> kNotTaken \<le> apply_dir d x \<longleftrightarrow> kNotTaken \<le> d"
  by (cases d; cases x) (simp_all add: apply_dir_def moreTaken_def moreNotTaken_def dir_of_def)

lemma apply_dir_twice: "kNotTaken \<le> apply_dir d (apply_dir d x) \<longleftrightarrow> kNotTaken \<le> d"
  by (cases d; cases x) (simp_all add: apply_dir_def moreTaken_def moreNotTaken_def dir_of_def)

section \<open>Indices\<close>

lemma unat_and_mask: "unat (w AND mask k :: 'a::len word) = unat w mod 2 ^ k"
  by (simp only: take_bit_eq_mask[symmetric] unsigned_take_bit_eq) (simp only: take_bit_eq_mod)

lemma to_int32_mask:
  assumes "k \<le> 31"
  shows "to_int32 (w AND mask k) = int (unat w mod 2 ^ k)"
proof -
  let ?v = "w AND mask k"
  have "unat w mod 2 ^ k < 2 ^ k" by simp
  also have "\<dots> \<le> (2 :: nat) ^ 31" by (rule power_increasing) (use assms in auto)
  finally have lt: "unat ?v < 2 ^ 31" by (simp add: unat_and_mask)
  then have "unat (ucast ?v :: 32 word) = unat ?v"
    by (simp only: unsigned_ucast_eq) (rule take_bit_nat_eq_self, simp)
  then have "uint (ucast ?v :: 32 word) = int (unat ?v)" by (simp only: uint_nat)
  moreover have "sint (u :: 32 word) = signed_take_bit 31 (uint u)" for u by (simp add: sint_uint)
  ultimately have "to_int32 ?v = signed_take_bit 31 (int (unat ?v))" by (simp only: to_int32_def)
  also have "\<dots> = int (unat ?v)"
  proof -
    have "signed_take_bit 31 (int m) = int m" if "m < 2 ^ 31" for m
      by (rule signed_take_bit_int_eq_self) (use that in auto)
    from this[OF lt] show ?thesis .
  qed
  finally show ?thesis by (simp only: unat_and_mask)
qed

section \<open>The invariant\<close>

definition gs_bits :: "gShare \<Rightarrow> nat" where
  "gs_bits g = nat (theShiftRegSize g)"

definition gs_ok :: "gShare \<Rightarrow> bool" where
  "gs_ok g \<longleftrightarrow> 0 < theShiftRegSize g \<and> theShiftRegSize g \<le> 30 \<and> thePatternMask g = mask (gs_bits g) \<and>
     length (thePatternTable g) = 2 ^ gs_bits g \<and> take_bit (gs_bits g) (theShiftReg g) = theShiftReg g"

definition bim_ok :: "Bimodal \<Rightarrow> bool" where
  "bim_ok b \<longleftrightarrow> (\<exists>k \<le> 30. bim_Size b = 2 ^ k \<and> bim_IndexMask b = mask k \<and> length (theTable b) = 2 ^ k)"

definition btb_set_ok :: "BTB \<Rightarrow> nat \<Rightarrow> BTBEntry list \<Rightarrow> bool" where
  "btb_set_ok t i xs \<longleftrightarrow> length xs \<le> theBTBAssoc t \<and> distinct (map be_PC xs) \<and>
     (\<forall>e \<in> set xs. btb_index (be_PC e) t = int i \<and> theBranchType e \<noteq> kNonBranch)"

definition btb_ok :: "BTB \<Rightarrow> bool" where
  "btb_ok t \<longleftrightarrow> (\<exists>k \<le> 30. theBTBSets t = 2 ^ k \<and> btb_IndexMask t = mask k \<and> length (btb_sets t) = 2 ^ k) \<and>
     0 < theBTBAssoc t \<and> (\<forall>i < length (btb_sets t). btb_set_ok t i (btb_sets t ! i))"

definition bp_ok :: "Combining \<Rightarrow> bool" where
  "bp_ok p \<longleftrightarrow> btb_ok (theBTB p) \<and> bim_ok (theBimodal p) \<and> bim_ok (theMeta p) \<and> gs_ok (theGShare p)"

text \<open>What the tables hold for an address.\<close>

definition gs_at :: "gShare \<Rightarrow> 64 word \<Rightarrow> 32 word \<Rightarrow> eDirection" where
  "gs_at g a r = thePatternTable g ! nat (gs_index a r g)"

definition bim_at :: "Bimodal \<Rightarrow> 64 word \<Rightarrow> eDirection" where
  "bim_at b a = theTable b ! nat (bim_index a b)"

definition btb_set :: "BTB \<Rightarrow> 64 word \<Rightarrow> BTBEntry list" where
  "btb_set t a = btb_sets t ! nat (btb_index a t)"

definition btb_entry :: "BTB \<Rightarrow> 64 word \<Rightarrow> BTBEntry option" where
  "btb_entry t a = find (\<lambda>e. be_PC e = a) (btb_set t a)"

lemma gs_index_bound:
  assumes "gs_ok g"
  shows "0 \<le> gs_index a r g" "nat (gs_index a r g) < length (thePatternTable g)"
proof -
  have n: "gs_bits g \<le> 30" "thePatternMask g = mask (gs_bits g)" "length (thePatternTable g) = 2 ^ gs_bits g"
    using assms by (auto simp: gs_ok_def gs_bits_def)
  have "(ucast (mask (gs_bits g) :: 32 word) :: 64 word) = mask (gs_bits g)"
    using n(1) by (intro bit_word_eqI) (auto simp: bit_simps)
  then show "0 \<le> gs_index a r g" "nat (gs_index a r g) < length (thePatternTable g)"
    using n by (simp_all add: gs_index_def to_int32_mask)
qed

lemma bim_index_bound: "bim_ok b \<Longrightarrow> 0 \<le> bim_index a b \<and> nat (bim_index a b) < length (theTable b)"
  by (auto simp: bim_ok_def bim_index_def to_int32_mask)

lemma btb_index_bound: "btb_ok t \<Longrightarrow> 0 \<le> btb_index a t \<and> nat (btb_index a t) < length (btb_sets t)"
  by (auto simp: btb_ok_def btb_index_def to_int32_mask)

lemma gs_reads: "gs_ok g \<Longrightarrow> gs_direction a r g = Inr (gs_at g a r)"
  using gs_index_bound[of g a r] by (simp add: gs_direction_def gs_at_def)

lemma gs_writes: "gs_ok g \<Longrightarrow> gs_update a r d g = Inr (g\<lparr>thePatternTable := (thePatternTable g)[nat (gs_index a r g) := d]\<rparr>)"
  using gs_index_bound[of g a r] by (simp add: gs_update_def)

lemma bim_reads: "bim_ok b \<Longrightarrow> bim_direction a b = Inr (bim_at b a)"
  using bim_index_bound[of b a] by (simp add: bim_direction_def bim_at_def)

lemma bim_writes: "bim_ok b \<Longrightarrow> bim_update a d b = Inr (b\<lparr>theTable := (theTable b)[nat (bim_index a b) := d]\<rparr>)"
  using bim_index_bound[of b a] by (simp add: bim_update_def)

lemma btb_reads:
  assumes "btb_ok t"
  shows "btb_find a t = Inr (btb_entry t a)"
    "btb_type a t = Inr (case btb_entry t a of None \<Rightarrow> kNonBranch | Some e \<Rightarrow> theBranchType e)"
    "btb_target a t = Inr (map_option theTarget (btb_entry t a))"
proof -
  show "btb_find a t = Inr (btb_entry t a)"
    using btb_index_bound[OF assms, of a] by (simp add: btb_find_def btb_entry_def btb_set_def)
  then show "btb_type a t = Inr (case btb_entry t a of None \<Rightarrow> kNonBranch | Some e \<Rightarrow> theBranchType e)"
    "btb_target a t = Inr (map_option theTarget (btb_entry t a))"
    by (simp_all add: btb_type_def btb_target_def)
qed

lemma gs_ok_keep [simp]:
  "gs_ok (g\<lparr>thePatternTable := xs[i := d]\<rparr>) \<longleftrightarrow> gs_ok (g\<lparr>thePatternTable := xs\<rparr>)"
  by (simp add: gs_ok_def gs_bits_def)

lemma gs_ok_write: "gs_ok g \<Longrightarrow> gs_ok (g\<lparr>thePatternTable := (thePatternTable g)[i := d]\<rparr>)"
  by simp

lemma gs_ok_shiftIn: "gs_ok g \<Longrightarrow> gs_ok (shiftIn d g)"
proof -
  assume ok: "gs_ok g"
  then have "gs_bits g \<noteq> 0" by (simp add: gs_ok_def gs_bits_def)
  then have "take_bit (gs_bits g) (1 :: 32 word) = 1" by (cases "gs_bits g") simp_all
  with ok show ?thesis
    by (simp add: gs_ok_def shiftIn_def gs_bits_def Let_def take_bit_or flip: take_bit_eq_mask)
qed

lemma history_fields [simp]:
  "thePatternTable (shiftIn d g) = thePatternTable g" "thePatternTable (setShiftReg r g) = thePatternTable g"
  "thePatternMask (shiftIn d g) = thePatternMask g" "thePatternMask (setShiftReg r g) = thePatternMask g"
  "gs_bits (shiftIn d g) = gs_bits g" "gs_bits (setShiftReg r g) = gs_bits g"
  by (simp_all add: shiftIn_def setShiftReg_def Let_def gs_bits_def)

lemma gs_ok_setShiftReg: "gs_ok g \<Longrightarrow> gs_ok (setShiftReg r g)"
  by (simp add: gs_ok_def setShiftReg_def gs_bits_def flip: take_bit_eq_mask)

lemma bim_ok_write: "bim_ok b \<Longrightarrow> bim_ok (b\<lparr>theTable := (theTable b)[i := d]\<rparr>)"
  by (simp add: bim_ok_def)

lemmas bp_reads = gs_reads gs_writes bim_reads bim_writes btb_reads
lemmas bp_keeps = gs_ok_write gs_ok_shiftIn gs_ok_setShiftReg bim_ok_write

section \<open>The buffer\<close>

lemma find_filter_other: "a \<noteq> pc \<Longrightarrow> find (\<lambda>e. be_PC e = a) (filter (\<lambda>e. be_PC e \<noteq> pc) xs) = find (\<lambda>e. be_PC e = a) xs"
  by (induction xs) auto

lemma find_append: "find P (xs @ ys) = (case find P xs of None \<Rightarrow> find P ys | Some x \<Rightarrow> Some x)"
  by (induction xs) auto

lemma find_none_iff: "find (\<lambda>e. be_PC e = a) xs = None \<longleftrightarrow> a \<notin> be_PC ` set xs"
  by (induction xs) auto

lemma find_pc: "find (\<lambda>e. be_PC e = a) xs = Some e \<Longrightarrow> be_PC e = a \<and> e \<in> set xs"
  by (induction xs) (auto split: if_splits)

lemma find_tl:
  assumes "distinct (map be_PC xs)" "xs \<noteq> []"
  shows "find (\<lambda>e. be_PC e = a) (tl xs) = (if a = be_PC (hd xs) then None else find (\<lambda>e. be_PC e = a) xs)"
  using assms by (cases xs) (auto simp: find_none_iff)

text \<open>Replacing a set keeps the invariant and changes what is found only for addresses of that set.\<close>

lemma btb_store_ok:
  assumes ok: "btb_ok t" and s: "btb_set_ok t (nat (btb_index pc t)) xs"
  shows "\<exists>t'. btb_store (btb_index pc t) xs t = Inr t' \<and> btb_ok t' \<and> theBTBAssoc t' = theBTBAssoc t \<and>
    (\<forall>a. btb_set t' a = (if btb_index a t = btb_index pc t then xs else btb_set t a)) \<and> (\<forall>a. btb_index a t' = btb_index a t)"
proof -
  note b = btb_index_bound[OF ok, of pc]
  let ?t = "t\<lparr>btb_sets := (btb_sets t)[nat (btb_index pc t) := xs]\<rparr>"
  have ix: "btb_index a ?t = btb_index a t" for a by (simp add: btb_index_def)
  then have so: "btb_set_ok ?t i ys = btb_set_ok t i ys" for i ys by (simp add: btb_set_ok_def)
  have "btb_set_ok t i ((btb_sets t)[nat (btb_index pc t) := xs] ! i)" if "i < length (btb_sets t)" for i
    using ok s that by (cases "i = nat (btb_index pc t)") (auto simp: btb_ok_def)
  with ok have "btb_ok ?t" by (simp add: btb_ok_def so)
  moreover have "btb_set ?t a = (if btb_index a t = btb_index pc t then xs else btb_set t a)" for a
    using b btb_index_bound[OF ok, of a] by (auto simp: btb_set_def ix nth_list_update nat_eq_iff)
  ultimately show ?thesis using b ix by (simp add: btb_store_def)
qed

lemma btb_set_ok_at: "btb_ok t \<Longrightarrow> btb_set_ok t (nat (btb_index a t)) (btb_set t a)"
  using btb_index_bound[of t a] by (simp add: btb_ok_def btb_set_def)

definition entry_after :: "64 word \<Rightarrow> eBranchType \<Rightarrow> 64 word \<Rightarrow> BTBEntry option \<Rightarrow> BTBEntry" where
  "entry_after pc ty tg old = \<lparr>be_PC = pc, theBranchType = ty,
     theTarget = if tg \<noteq> 0 then tg else (case old of None \<Rightarrow> 0 | Some e \<Rightarrow> theTarget e)\<rparr>"

definition evicts :: "BTB \<Rightarrow> 64 word \<Rightarrow> eBranchType \<Rightarrow> 64 word \<Rightarrow> bool" where
  "evicts t pc ty a \<longleftrightarrow> btb_entry t pc = None \<and> ty \<noteq> kNonBranch \<and> length (btb_set t pc) = theBTBAssoc t \<and>
     a = be_PC (hd (btb_set t pc))"

definition next_set :: "BTB \<Rightarrow> 64 word \<Rightarrow> eBranchType \<Rightarrow> 64 word \<Rightarrow> BTBEntry list" where
  "next_set t pc ty tg =
     (let xs = btb_set t pc; e = btb_entry t pc in
      (if e \<noteq> None then filter (\<lambda>x. be_PC x \<noteq> pc) xs
       else if ty \<noteq> kNonBranch \<and> length xs = theBTBAssoc t then tl xs else xs) @
      (if ty = kNonBranch then [] else [entry_after pc ty tg e]))"

lemma distinct_map_tl: "distinct (map f xs) \<Longrightarrow> distinct (map f (tl xs))"
  by (cases xs) auto

lemma next_set_ok:
  assumes ok: "btb_ok t"
  shows "btb_set_ok t (nat (btb_index pc t)) (next_set t pc ty tg)"
proof -
  have s: "btb_set_ok t (nat (btb_index pc t)) (btb_set t pc)" and pos: "0 < theBTBAssoc t"
    using ok btb_set_ok_at by (auto simp: btb_ok_def)
  have ix: "0 \<le> btb_index pc t" using btb_index_bound[OF ok, of pc] by simp
  have tl: "x \<in> set (tl (btb_set t pc)) \<Longrightarrow> x \<in> set (btb_set t pc)" for x by (cases "btb_set t pc") auto
  show ?thesis
  proof (cases "btb_entry t pc")
    case None
    then have n: "pc \<notin> be_PC ` set (btb_set t pc)" by (simp add: btb_entry_def find_none_iff)
    moreover from n have "pc \<notin> be_PC ` set (tl (btb_set t pc))" using tl by auto
    ultimately show ?thesis
      using s pos None distinct_map_tl[of be_PC "btb_set t pc"]
      ix by (auto simp: btb_set_ok_def next_set_def Let_def entry_after_def dest!: tl)
  next
    case (Some e)
    then have e: "e \<in> set (btb_set t pc)" "be_PC e = pc" using find_pc by (auto simp: btb_entry_def)
    have "length (filter (\<lambda>x. be_PC x \<noteq> pc) (btb_set t pc)) < length (btb_set t pc)"
      using e by (intro length_filter_less) auto
    then show ?thesis
      using s Some ix by (auto simp: btb_set_ok_def next_set_def Let_def entry_after_def distinct_map_filter)
  qed
qed

lemma next_set_find:
  assumes ok: "btb_ok t"
  shows "find (\<lambda>e. be_PC e = pc) (next_set t pc ty tg) = (if ty = kNonBranch then None else Some (entry_after pc ty tg (btb_entry t pc)))"
    "a \<noteq> pc \<Longrightarrow> btb_index a t = btb_index pc t \<Longrightarrow>
     find (\<lambda>e. be_PC e = a) (next_set t pc ty tg) = (if evicts t pc ty a then None else btb_entry t a)"
proof -
  have d: "distinct (map be_PC (btb_set t pc))" "0 < theBTBAssoc t" "length (btb_set t pc) \<le> theBTBAssoc t"
    using btb_set_ok_at[OF ok, of pc] ok by (auto simp: btb_set_ok_def btb_ok_def)
  have o: "pc \<notin> be_PC ` set (filter (\<lambda>x. be_PC x \<noteq> pc) (btb_set t pc))" by auto
  show "find (\<lambda>e. be_PC e = pc) (next_set t pc ty tg) = (if ty = kNonBranch then None else Some (entry_after pc ty tg (btb_entry t pc)))"
  proof (cases "btb_entry t pc")
    case None
    then have n: "pc \<notin> be_PC ` set (btb_set t pc)" by (simp add: btb_entry_def find_none_iff)
    then have "pc \<notin> be_PC ` set (tl (btb_set t pc))" by (cases "btb_set t pc") auto
    with n None show ?thesis by (simp add: next_set_def Let_def find_append entry_after_def find_none_iff[THEN iffD2])
  next
    case (Some e)
    then show ?thesis using o by (simp add: next_set_def Let_def find_append entry_after_def find_none_iff[THEN iffD2])
  qed
  assume a: "a \<noteq> pc" "btb_index a t = btb_index pc t"
  then have sa: "btb_set t a = btb_set t pc" by (simp add: btb_set_def)
  have t: "length (btb_set t pc) = theBTBAssoc t \<Longrightarrow> btb_set t pc \<noteq> []" using d(2) by auto
  show "find (\<lambda>e. be_PC e = a) (next_set t pc ty tg) = (if evicts t pc ty a then None else btb_entry t a)"
    using a(1) find_tl[OF d(1) t, of a]
    by (auto simp: next_set_def Let_def find_append entry_after_def evicts_def btb_entry_def sa find_filter_other split: option.splits)
qed

lemma btb_update_store:
  assumes ok: "btb_ok t"
  shows "\<exists>t'. btb_update pc ty tg t = Inr (btb_entry t pc = None \<and> ty \<noteq> kNonBranch, t') \<and> btb_ok t' \<and> theBTBAssoc t' = theBTBAssoc t \<and>
    (\<forall>a. btb_set t' a = (if btb_index a t = btb_index pc t then next_set t pc ty tg else btb_set t a)) \<and> (\<forall>a. btb_index a t' = btb_index a t)"
proof (cases "btb_entry t pc = None \<and> ty = kNonBranch")
  case True
  moreover have "btb_index a t = btb_index pc t \<Longrightarrow> btb_set t a = btb_set t pc" for a by (simp add: btb_set_def)
  ultimately show ?thesis using ok btb_index_bound[OF ok, of pc]
    by (auto simp: btb_update_def Let_def btb_entry_def btb_set_def next_set_def)
next
  case False
  have s: "length (btb_set t pc) \<le> theBTBAssoc t" "0 < theBTBAssoc t"
    using btb_set_ok_at[OF ok, of pc] ok by (auto simp: btb_set_ok_def btb_ok_def)
  have at: "arr_at (btb_sets t) (btb_index pc t) = Inr (btb_set t pc)"
    using btb_index_bound[OF ok, of pc] by (simp add: btb_set_def)
  have pc: "btb_entry t pc = Some e \<Longrightarrow> be_PC e = pc" for e using find_pc by (auto simp: btb_entry_def)
  have f: "length (btb_set t pc) = theBTBAssoc t \<Longrightarrow> front (btb_set t pc) = Inr (hd (btb_set t pc))"
    using s by (intro front_ok) auto
  have "btb_update pc ty tg t = bindE (btb_store (btb_index pc t) (next_set t pc ty tg) t)
    (\<lambda>t'. Inr (btb_entry t pc = None \<and> ty \<noteq> kNonBranch, t'))"
  proof (cases "btb_entry t pc")
    case None
    with False s f show ?thesis
      by (simp add: btb_update_def at Let_def next_set_def entry_after_def flip: btb_entry_def)
  next
    case (Some e)
    with pc[OF Some] show ?thesis
      by (cases e) (simp add: btb_update_def at Let_def next_set_def entry_after_def flip: btb_entry_def)
  qed
  with btb_store_ok[OF ok next_set_ok[OF ok], of pc ty tg] show ?thesis by auto
qed

lemma btb_update_spec:
  assumes "btb_ok t"
  shows "\<exists>t'. btb_update pc ty tg t = Inr (btb_entry t pc = None \<and> ty \<noteq> kNonBranch, t') \<and> btb_ok t' \<and>
    btb_entry t' pc = (if ty = kNonBranch then None else Some (entry_after pc ty tg (btb_entry t pc))) \<and>
    (\<forall>a. a \<noteq> pc \<longrightarrow> btb_entry t' a = (if evicts t pc ty a then None else btb_entry t a)) \<and>
    (ty \<noteq> kNonBranch \<longrightarrow> last (btb_set t' pc) = entry_after pc ty tg (btb_entry t pc))"
proof -
  from btb_update_store[OF assms, of pc ty tg] obtain t' where
    t': "btb_update pc ty tg t = Inr (btb_entry t pc = None \<and> ty \<noteq> kNonBranch, t')" "btb_ok t'"
      "\<And>a. btb_set t' a = (if btb_index a t = btb_index pc t then next_set t pc ty tg else btb_set t a)" by blast
  have "btb_entry t' pc = (if ty = kNonBranch then None else Some (entry_after pc ty tg (btb_entry t pc)))"
    unfolding btb_entry_def[of t'] by (simp only: t'(3) next_set_find(1)[OF assms] refl if_True)
  moreover have "btb_entry t' a = (if evicts t pc ty a then None else btb_entry t a)" if "a \<noteq> pc" for a
  proof (cases "btb_index a t = btb_index pc t")
    case True
    then have "btb_set t' a = next_set t pc ty tg" using t'(3) by simp
    then show ?thesis using next_set_find(2)[OF assms that True, of ty tg] by (simp only: btb_entry_def[of t'])
  next
    case False
    moreover have "\<not> evicts t pc ty a"
    proof
      assume e: "evicts t pc ty a"
      then have "btb_set t pc \<noteq> []" using assms by (auto simp: evicts_def btb_ok_def)
      then have "hd (btb_set t pc) \<in> set (btb_set t pc)" by simp
      with e btb_set_ok_at[OF assms, of pc] btb_index_bound[OF assms, of pc] have "btb_index a t = btb_index pc t"
        by (auto simp: evicts_def btb_set_ok_def)
      with False show False ..
    qed
    ultimately show ?thesis by (simp add: btb_entry_def t'(3))
  qed
  moreover have "ty \<noteq> kNonBranch \<longrightarrow> last (btb_set t' pc) = entry_after pc ty tg (btb_entry t pc)"
    by (simp add: t'(3) next_set_def Let_def)
  ultimately show ?thesis using t'(1,2) by blast
qed

text \<open>C16: Updating the branch target buffer keeps its invariant and reports a new entry exactly when a branch was
  not there. Afterwards the address has the new type and, unless the target is zero, the new target; a
  non-branch is forgotten. No other address is affected, except that a new entry in a full set replaces the
  least recently updated one. The updated entry becomes the most recent of its set.\<close>

theorem btb_update_correct:
  assumes "btb_ok t"
  shows "\<exists>t'. btb_update pc ty tg t = Inr (btb_entry t pc = None \<and> ty \<noteq> kNonBranch, t') \<and> btb_ok t' \<and>
    btb_entry t' pc = (if ty = kNonBranch then None else Some (entry_after pc ty tg (btb_entry t pc))) \<and>
    (\<forall>a. a \<noteq> pc \<longrightarrow> btb_entry t' a = (if evicts t pc ty a then None else btb_entry t a)) \<and>
    (ty \<noteq> kNonBranch \<longrightarrow> last (btb_set t' pc) = entry_after pc ty tg (btb_entry t pc))"
  using assms by (rule btb_update_spec)

section \<open>Predicting and learning keep the invariant\<close>

lemma predictConditional_ok:
  assumes "bp_ok p"
  shows "predictConditional a st p =
    (let b = bim_at (theBimodal p) a; g = gs_at (theGShare p) a (theShiftReg (theGShare p)); m = bim_at (theMeta p) a;
         pr = (if kNotTaken \<le> m then g else b);
         s = (if kNotTaken \<le> m then tick thePredictions_GShare_update (tick thePredictions_update (bp_stats p))
              else tick thePredictions_Bimodal_update (tick thePredictions_update (bp_stats p)))
     in Inr (if kNotTaken \<le> pr then 0 else case btb_entry (theBTB p) a of None \<Rightarrow> 0 | Some e \<Rightarrow> theTarget e,
          st\<lparr>thePrediction := pr, theBimodalPrediction := b, theMetaPrediction := m, theGSharePrediction := g,
             theGShareShiftReg := theShiftReg (theGShare p)\<rparr>,
          p\<lparr>bp_stats := s, theGShare := shiftIn g (theGShare p)\<rparr>))"
  using assms by (auto simp: predictConditional_def bp_ok_def bp_reads Let_def split: option.splits)

lemma predict_state_ok:
  assumes ok: "bp_ok p"
  shows "\<exists>st p'. predict_state a p = Inr (st, p') \<and> bp_ok p' \<and> theBTB p' = theBTB p \<and> theBimodal p' = theBimodal p \<and> theMeta p' = theMeta p \<and>
    thePatternTable (theGShare p') = thePatternTable (theGShare p) \<and> theSerial p' = theSerial p + 1 \<and> bps_Serial st = theSerial p \<and>
    thePredictedType st = (case btb_entry (theBTB p) a of None \<Rightarrow> kNonBranch | Some e \<Rightarrow> theBranchType e)"
proof -
  have b: "btb_ok (theBTB p)" "gs_ok (theGShare p)" using ok by (auto simp: bp_ok_def)
  note c = predictConditional_ok[of "p\<lparr>theSerial := theSerial p + 1\<rparr>" a "start_state kConditional (theSerial p)"]
  show ?thesis
    using ok c b by (auto simp: predict_state_def bp_ok_def bp_reads predict_jump_def start_state_def Let_def
        gs_ok_shiftIn split: eBranchType.splits option.splits)
qed

lemma gs_index_history [simp]: "gs_index a r (shiftIn d g) = gs_index a r g" "gs_index a r (setShiftReg r' g) = gs_index a r g"
  by (simp_all add: gs_index_def)

lemma gs_at_history [simp]: "gs_at (shiftIn d g) a r = gs_at g a r" "gs_at (setShiftReg r' g) a r = gs_at g a r"
  by (simp_all add: gs_at_def)

definition repaired :: "eDirection \<Rightarrow> BPredState \<Rightarrow> gShare \<Rightarrow> gShare" where
  "repaired d st g = (if (kNotTaken \<le> theGSharePrediction st) \<noteq> (kNotTaken \<le> d)
     then shiftIn d (setShiftReg (theGShareShiftReg st) g) else g)"

definition gs_write :: "64 word \<Rightarrow> 32 word \<Rightarrow> eDirection \<Rightarrow> gShare \<Rightarrow> gShare" where
  "gs_write a r d g = g\<lparr>thePatternTable := (thePatternTable g)[nat (gs_index a r g) := d]\<rparr>"

definition bim_write :: "64 word \<Rightarrow> eDirection \<Rightarrow> Bimodal \<Rightarrow> Bimodal" where
  "bim_write a d b = b\<lparr>theTable := (theTable b)[nat (bim_index a b) := d]\<rparr>"

lemma repaired_ok: "gs_ok g \<Longrightarrow> gs_ok (repaired d st g)"
  by (simp add: repaired_def gs_ok_shiftIn gs_ok_setShiftReg)

lemma learn_result:
  assumes "bp_ok p"
  shows "\<exists>p'. learn pc d st p = Inr p' \<and>
    theGShare p' = gs_write pc (theGShareShiftReg st) (apply_dir d (gs_at (theGShare p) pc (theGShareShiftReg st))) (repaired d st (theGShare p)) \<and>
    theBimodal p' = bim_write pc (apply_dir d (bim_at (theBimodal p) pc)) (theBimodal p) \<and> bim_ok (theMeta p') \<and>
    theBTB p' = theBTB p \<and> bp_stats p' = bp_stats p"
proof -
  have ok: "bim_ok (theBimodal p)" "bim_ok (theMeta p)" "gs_ok (theGShare p)" "gs_ok (repaired d st (theGShare p))"
    using assms repaired_ok by (auto simp: bp_ok_def)
  have r: "(if (kNotTaken \<le> theGSharePrediction st) \<noteq> (kNotTaken \<le> d) then shiftIn d (setShiftReg (theGShareShiftReg st) (theGShare p))
      else theGShare p) = repaired d st (theGShare p)" by (simp add: repaired_def)
  have at: "gs_at (repaired d st (theGShare p)) a r = gs_at (theGShare p) a r" for a r by (simp add: repaired_def)
  have reads: "bim_direction pc (theBimodal p) = Inr (bim_at (theBimodal p) pc)" "bim_direction pc (theMeta p) = Inr (bim_at (theMeta p) pc)"
    "bim_update pc x (theBimodal p) = Inr (bim_write pc x (theBimodal p))" "bim_update pc x (theMeta p) = Inr (bim_write pc x (theMeta p))"
    "gs_direction pc w (repaired d st (theGShare p)) = Inr (gs_at (theGShare p) pc w)"
    "gs_update pc w x (repaired d st (theGShare p)) = Inr (gs_write pc w x (repaired d st (theGShare p)))" for x w
    using ok by (simp_all add: bp_reads bim_write_def gs_write_def at)
  have w: "bim_ok (bim_write pc x (theMeta p))" for x using ok by (simp add: bim_write_def bim_ok_write)
  show ?thesis
    unfolding learn_def Let_def r
    by (cases "(kNotTaken \<le> gs_at (theGShare p) pc (theGShareShiftReg st)) \<noteq> (kNotTaken \<le> bim_at (theBimodal p) pc)")
       (auto simp: reads ok w)
qed

lemma learn_ok:
  assumes "bp_ok p"
  shows "\<exists>p'. learn pc d st p = Inr p' \<and> bp_ok p' \<and> gs_bits (theGShare p') = gs_bits (theGShare p) \<and> bp_stats p' = bp_stats p \<and> theBTB p' = theBTB p \<and>
    theShiftReg (theGShare p') = theShiftReg (repaired d st (theGShare p))"
proof -
  from learn_result[OF assms(1), of pc d st] obtain p' where p': "learn pc d st p = Inr p'"
    "theGShare p' = gs_write pc (theGShareShiftReg st) (apply_dir d (gs_at (theGShare p) pc (theGShareShiftReg st))) (repaired d st (theGShare p))"
    "theBimodal p' = bim_write pc (apply_dir d (bim_at (theBimodal p) pc)) (theBimodal p)" "bim_ok (theMeta p')" "theBTB p' = theBTB p"
    "bp_stats p' = bp_stats p" by blast
  have "gs_ok (repaired d st (theGShare p))" using assms(1) repaired_ok by (auto simp: bp_ok_def)
  then have "bp_ok p'" using assms(1) p'(4) by (simp add: p'(2,3,5) bp_ok_def gs_write_def bim_write_def bim_ok_write)
  moreover have "theShiftReg (theGShare p') = theShiftReg (repaired d st (theGShare p))"
    by (simp add: p' gs_write_def)
  moreover have "gs_bits (theGShare p') = gs_bits (theGShare p)"
    by (simp add: p' gs_write_def gs_bits_def repaired_def) (simp add: shiftIn_def setShiftReg_def Let_def)
  ultimately show ?thesis using p'(1,5,6) by blast
qed

lemma feedback_ok:
  assumes ok: "bp_ok p"
  shows "\<exists>p'. feedback fb p = Inr p' \<and> bp_ok p' \<and> gs_bits (theGShare p') = gs_bits (theGShare p) \<and> bp_stats p' = stats fb (bp_stats p) \<and>
    (\<exists>b. btb_update (fb_PC fb) (theActualType fb) (theActualTarget fb) (theBTB p) = Inr (b, theBTB p'))"
proof -
  from ok have b: "btb_ok (theBTB p)" "bim_ok (theBimodal p)" "gs_ok (theGShare p)" by (auto simp: bp_ok_def)
  from btb_update_store[OF b(1), of "fb_PC fb" "theActualType fb" "theActualTarget fb"] obtain t where
    t: "btb_update (fb_PC fb) (theActualType fb) (theActualTarget fb) (theBTB p) =
      Inr (btb_entry (theBTB p) (fb_PC fb) = None \<and> theActualType fb \<noteq> kNonBranch, t)" "btb_ok t" by blast
  let ?p = "p\<lparr>bp_stats := stats fb (bp_stats p), theBTB := t\<rparr>"
  have okp: "bp_ok ?p" using ok t(2) by (simp add: bp_ok_def)
  have "\<exists>p'. learn (fb_PC fb) (theActualDirection fb) st ?p = Inr p' \<and> bp_ok p' \<and> gs_bits (theGShare p') = gs_bits (theGShare p) \<and>
      bp_stats p' = stats fb (bp_stats p) \<and> theBTB p' = t" for st
    using learn_ok[OF okp, of "fb_PC fb" "theActualDirection fb" st] by auto
  with ok t b show ?thesis
    by (auto simp: feedback_def Let_def bp_reads bp_ok_def bp_keeps split: option.splits)
qed

section \<open>Any use of the predictor\<close>

datatype bp_op = Predict "64 word" | Feedback BranchFeedback

definition bp_do :: "bp_op \<Rightarrow> Combining \<Rightarrow> Combining res" where
  "bp_do op p = (case op of
     Predict a \<Rightarrow> bindE (predict \<lparr>theAddress = a, fa_BPState = None\<rparr> p) (\<lambda>(_, _, p). Inr p)
   | Feedback fb \<Rightarrow> feedback fb p)"

abbreviation bp_run :: "bp_op list \<Rightarrow> Combining \<Rightarrow> Combining res" where
  "bp_run \<equiv> foldE bp_do"

lemma predict_ok:
  assumes "bp_ok p"
  shows "\<exists>st p'. predict \<lparr>theAddress = a, fa_BPState = o1\<rparr> p = Inr (thePredictedTarget st, \<lparr>theAddress = a, fa_BPState = Some st\<rparr>, p') \<and>
    predict_state a p = Inr (st, p') \<and> bp_ok p'"
  using predict_state_ok[OF assms, of a] by (auto simp: predict_def)

lemma predict_state_bits:
  assumes "bp_ok p" "predict_state a p = Inr (st, p')"
  shows "gs_bits (theGShare p') = gs_bits (theGShare p)"
proof -
  note c = predictConditional_ok[of "p\<lparr>theSerial := theSerial p + 1\<rparr>" a "start_state kConditional (theSerial p)"]
  show ?thesis
    using assms c by (auto simp: predict_state_def bp_ok_def bp_reads predict_jump_def Let_def split: eBranchType.splits option.splits)
qed

lemma bp_do_ok:
  assumes "bp_ok p"
  shows "\<exists>p'. bp_do op p = Inr p' \<and> bp_ok p' \<and> gs_bits (theGShare p') = gs_bits (theGShare p)"
proof (cases op)
  case (Predict a)
  then show ?thesis using predict_ok[OF assms, of a None] predict_state_bits[OF assms, of a] by (auto simp: bp_do_def)
next
  case (Feedback fb)
  then show ?thesis using feedback_ok[OF assms, of fb] by (auto simp: bp_do_def)
qed

lemma bp_run_ok:
  assumes "bp_ok p"
  shows "\<exists>p'. bp_run ops p = Inr p' \<and> bp_ok p' \<and> gs_bits (theGShare p') = gs_bits (theGShare p)"
proof -
  have "\<exists>p'. bp_run ops p = Inr p' \<and> (bp_ok p' \<and> gs_bits (theGShare p') = gs_bits (theGShare p))"
  proof (rule foldE_inv)
    fix op q assume q: "bp_ok q \<and> gs_bits (theGShare q) = gs_bits (theGShare p)"
    from bp_do_ok[of q op] q show "\<exists>s'. bp_do op q = Inr s' \<and> (bp_ok s' \<and> gs_bits (theGShare s') = gs_bits (theGShare p))" by auto
  qed (use assms in simp)
  then show ?thesis by simp
qed

section \<open>Construction\<close>

lemma length_fill_table [simp]: "length (fill_table n d) = n"
  by (induction n arbitrary: d) auto

lemma int_pred_and: "(2 ^ k - 1) AND (2 ^ k :: int) = 0"
  by (rule bit_eqI) (auto simp: bit_simps simp flip: mask_eq_exp_minus_1)

lemma of_int_mask: "(of_int (2 ^ k - 1) :: 64 word) = mask k"
  by (simp add: mask_eq_exp_minus_1)

lemma Bimodal_new_ok:
  assumes "k \<le> 30" "n = 2 ^ k"
  shows "\<exists>b. Bimodal_new n = Inr b \<and> bim_ok b"
  using assms int_pred_and[of k] of_int_mask[of k]
  by (auto simp: Bimodal_new_def Bimodal_reset_def bim_ok_def nat_power_eq)

lemma BTB_new_ok:
  assumes "k \<le> 30" "n = 2 ^ k" "0 < w"
  shows "\<exists>t. BTB_new n w = Inr t \<and> btb_ok t"
  using assms int_pred_and[of k] of_int_mask[of k] by (auto simp: BTB_new_def btb_ok_def btb_set_ok_def)

lemma gShare_new_ok: "0 < n \<Longrightarrow> n \<le> 30 \<Longrightarrow> \<exists>g. gShare_new n = Inr g \<and> gs_ok g"
  by (simp add: gShare_new_def gShare_reset_def gs_ok_def gs_bits_def mask_eq_exp_minus_1)

lemma new_predictor_ok:
  assumes "i \<le> 30" "j \<le> 30" "k \<le> 30"
  shows "\<exists>p. new_predictor (2 ^ i) (2 ^ j) (2 ^ k) = Inr p \<and> bp_ok p"
  using BTB_new_ok[OF assms(1) refl, of 16] Bimodal_new_ok[OF assms(2) refl] Bimodal_new_ok[OF assms(3) refl] gShare_new_ok[of 13]
  by (auto simp: new_predictor_def bp_ok_def)

lemma CombiningImpl_new_ok: "\<exists>p. CombiningImpl_new = Inr p \<and> bp_ok p"
  using new_predictor_ok[of 11 14 14] by (simp add: CombiningImpl_new_def)

lemma FastCombiningImpl_new_ok: "\<exists>p. FastCombiningImpl_new = Inr p \<and> bp_ok p"
  using new_predictor_ok[of 10 15 13] by (simp add: FastCombiningImpl_new_def)

text \<open>Construction of both predictors succeeds, and no sequence of predictions and of feedback, however
  inconsistent with the predictions made, ever leaves a table: every run completes and keeps the invariant.\<close>

theorem bp_run_safe:
  "(\<exists>p q. CombiningImpl_new = Inr p \<and> bp_run ops p = Inr q \<and> bp_ok q) \<and>
   (\<exists>p q. FastCombiningImpl_new = Inr p \<and> bp_run ops p = Inr q \<and> bp_ok q)"
  using CombiningImpl_new_ok FastCombiningImpl_new_ok bp_run_ok by blast

theorem btb_update_correct_witness:
  "\<exists>t t'. BTB_new 4 2 = Inr t \<and> btb_update 4096 kCall 8192 t = Inr (True, t') \<and>
    btb_entry t' 4096 = Some \<lparr>be_PC = 4096, theBranchType = kCall, theTarget = 8192\<rparr>"
proof -
  obtain t where t: "BTB_new 4 2 = Inr t" "btb_ok t" using BTB_new_ok[of 2 4 2] by auto
  then have "btb_sets t = replicate 4 []" by (auto simp: BTB_new_def bindE_Inr_iff)
  then have "btb_entry t 4096 = None"
    using btb_index_bound[OF t(2), of 4096] by (simp add: btb_entry_def btb_set_def)
  with t btb_update_correct[OF t(2), of 4096 kCall 8192] show ?thesis by (auto simp: entry_after_def)
qed

end
