(* ===== verification/BranchLearning.thy ===== *)
theory BranchLearning
  imports BranchPredictor
begin

text \<open>
  What the combining predictor achieves over time: a branch that keeps going the same way is learnt within
  a bounded number of rounds. The counters of the statistics are consistent, the predictor of the trace
  simulator does what the detailed one does, and a checkpoint restores the tables.
\<close>

unbundle bit_operations_syntax

section \<open>Rounds of prediction and feedback\<close>

definition train :: "64 word \<Rightarrow> eDirection \<Rightarrow> 64 word \<Rightarrow> Combining \<Rightarrow> Combining res" where
  "train pc d tg p =
     bindE (predict \<lparr>theAddress = pc, fa_BPState = None\<rparr> p) (\<lambda>(_, fa, p).
     feedback \<lparr>fb_PC = pc, theActualType = kConditional, theActualDirection = d, theActualTarget = tg, fb_BPState = fa_BPState fa\<rparr> p)"

primrec train_rounds :: "nat \<Rightarrow> 64 word \<Rightarrow> eDirection \<Rightarrow> 64 word \<Rightarrow> Combining \<Rightarrow> Combining res" where
  "train_rounds 0 pc d tg p = Inr p"
| "train_rounds (Suc n) pc d tg p = bindE (train pc d tg p) (train_rounds n pc d tg)"

lemma train_rounds_add: "train_rounds (m + n) pc d tg p = bindE (train_rounds m pc d tg p) (train_rounds n pc d tg)"
  by (induction m arbitrary: p) (auto simp: bindE_assoc intro: bindE_cong)

lemma train_rounds_inv:
  assumes step: "\<And>k p. I k p \<Longrightarrow> \<exists>p'. train pc d tg p = Inr p' \<and> I (Suc k) p'" and start: "I k p"
  shows "\<exists>p'. train_rounds n pc d tg p = Inr p' \<and> I (k + n) p'"
  using start
proof (induction n arbitrary: k p)
  case (Suc n)
  from step[OF Suc.prems] obtain p1 where "train pc d tg p = Inr p1" "I (Suc k) p1" by blast
  with Suc.IH[of "Suc k" p1] show ?case by simp
qed simp

text \<open>The branch is known to the buffer.\<close>

definition known :: "64 word \<Rightarrow> 64 word \<Rightarrow> nat \<Rightarrow> Combining \<Rightarrow> bool" where
  "known pc tg n p \<longleftrightarrow> bp_ok p \<and> gs_bits (theGShare p) = n \<and>
     (\<exists>e. btb_entry (theBTB p) pc = Some e \<and> theBranchType e = kConditional \<and> (tg \<noteq> 0 \<longrightarrow> theTarget e = tg))"

lemma train_first:
  assumes "bp_ok p"
  shows "\<exists>p'. train pc d tg p = Inr p' \<and> known pc tg (gs_bits (theGShare p)) p'"
proof -
  obtain st p1 where p1: "predict \<lparr>theAddress = pc, fa_BPState = None\<rparr> p = Inr (thePredictedTarget st, \<lparr>theAddress = pc, fa_BPState = Some st\<rparr>, p1)"
    "predict_state pc p = Inr (st, p1)" "bp_ok p1" using predict_ok[OF assms, of pc None] by auto
  have b: "gs_bits (theGShare p1) = gs_bits (theGShare p)" by (rule predict_state_bits[OF assms p1(2)])
  let ?fb = "\<lparr>fb_PC = pc, theActualType = kConditional, theActualDirection = d, theActualTarget = tg, fb_BPState = Some st\<rparr>"
  from feedback_ok[OF p1(3), of ?fb] obtain p2 x where p2: "feedback ?fb p1 = Inr p2" "bp_ok p2" "gs_bits (theGShare p2) = gs_bits (theGShare p1)"
    "btb_update pc kConditional tg (theBTB p1) = Inr (x, theBTB p2)" by auto
  from btb_update_spec[of "theBTB p1" pc kConditional tg] p1(3) p2(4)
  have "btb_entry (theBTB p2) pc = Some (entry_after pc kConditional tg (btb_entry (theBTB p1) pc))" by (auto simp: bp_ok_def)
  with p1(1) p2 b show ?thesis by (auto simp: train_def known_def entry_after_def)
qed

text \<open>One round with a known branch: the actual direction enters the history and both counters.\<close>

lemma train_step:
  assumes k: "known pc tg n p"
  shows "\<exists>p'. train pc d tg p = Inr p' \<and> known pc tg n p' \<and>
    theShiftReg (theGShare p') = theShiftReg (shiftIn d (theGShare p)) \<and>
    gs_at (theGShare p') pc (theShiftReg (theGShare p)) = apply_dir d (gs_at (theGShare p) pc (theShiftReg (theGShare p))) \<and>
    bim_at (theBimodal p') pc = apply_dir d (bim_at (theBimodal p) pc)"
proof -
  have ok: "bp_ok p" using k by (simp add: known_def)
  from k obtain e where e: "btb_entry (theBTB p) pc = Some e" "theBranchType e = kConditional" by (auto simp: known_def)
  let ?g = "gs_at (theGShare p) pc (theShiftReg (theGShare p))"
  obtain st p1 where p1: "predict_state pc p = Inr (st, p1)" "theGSharePrediction st = ?g" "theGShareShiftReg st = theShiftReg (theGShare p)"
    "theGShare p1 = shiftIn ?g (theGShare p)" "theBimodal p1 = theBimodal p" "theBTB p1 = theBTB p"
    using ok e predictConditional_ok[of "p\<lparr>theSerial := theSerial p + 1\<rparr>" pc "start_state kConditional (theSerial p)"]
    by (auto simp: predict_state_def bp_ok_def bp_reads Let_def)
  have ok1: "bp_ok p1" using predict_state_ok[OF ok, of pc] p1(1) by auto
  have e1: "btb_entry (theBTB p1) pc \<noteq> None" using e p1(6) by simp
  from btb_update_store[of "theBTB p1" pc kConditional tg] ok1 e1 obtain t where
    t: "btb_update pc kConditional tg (theBTB p1) = Inr (False, t)" "btb_ok t" by (auto simp: bp_ok_def)
  let ?fb = "\<lparr>fb_PC = pc, theActualType = kConditional, theActualDirection = d, theActualTarget = tg, fb_BPState = Some st\<rparr>"
  let ?p = "p1\<lparr>bp_stats := stats ?fb (bp_stats p1), theBTB := t\<rparr>"
  have okp: "bp_ok ?p" using ok1 t(2) by (simp add: bp_ok_def)
  from learn_result[OF okp, of pc d st] obtain p2 where p2: "learn pc d st ?p = Inr p2"
    "theGShare p2 = gs_write pc (theShiftReg (theGShare p)) (apply_dir d ?g) (repaired d st (shiftIn ?g (theGShare p)))"
    "theBimodal p2 = bim_write pc (apply_dir d (bim_at (theBimodal p) pc)) (theBimodal p)"
    by (auto simp: p1(3-5))
  have tr: "train pc d tg p = Inr p2" using p1(1) p2(1) t(1) by (simp add: train_def predict_def feedback_def Let_def)
  have gk: "gs_ok (theGShare p)" "bim_ok (theBimodal p)" using ok by (auto simp: bp_ok_def)
  have m: "theShiftReg (theGShare p) AND thePatternMask (theGShare p) = theShiftReg (theGShare p)"
    using gk(1) by (simp add: gs_ok_def flip: take_bit_eq_mask)
  have "theShiftReg (theGShare p2) = theShiftReg (shiftIn d (theGShare p))"
    using m by (auto simp: p2(2) gs_write_def repaired_def p1(2,3) shiftIn_def setShiftReg_def Let_def)
  moreover have ix: "gs_index pc r (repaired d st (shiftIn ?g (theGShare p))) = gs_index pc r (theGShare p)" for r
    by (simp add: repaired_def)
  have "gs_index pc r (theGShare p2) = gs_index pc r (theGShare p)" for r
    using ix by (simp add: p2(2) gs_write_def gs_index_def)
  then have "gs_at (theGShare p2) pc (theShiftReg (theGShare p)) = apply_dir d ?g"
    using gs_index_bound[OF gk(1), of pc "theShiftReg (theGShare p)"] ix
    by (simp add: gs_at_def p2(2) gs_write_def repaired_def)
  moreover have "bim_at (theBimodal p2) pc = apply_dir d (bim_at (theBimodal p) pc)"
    using bim_index_bound[OF gk(2), of pc] by (simp add: p2(3) bim_write_def bim_at_def bim_index_def)
  moreover have "known pc tg n p2"
    using train_first[OF ok, of pc d tg] tr k by (simp add: known_def)
  ultimately show ?thesis using tr by blast
qed

section \<open>The history fills up\<close>

definition full_of :: "nat \<Rightarrow> eDirection \<Rightarrow> 32 word \<Rightarrow> bool" where
  "full_of k d r \<longleftrightarrow> (\<forall>i < k. bit r i \<longleftrightarrow> kNotTaken \<le> d)"

lemma full_of_shiftIn:
  assumes g: "gs_ok g" and f: "full_of k d (theShiftReg g)"
  shows "full_of (min (Suc k) (gs_bits g)) d (theShiftReg (shiftIn d g))"
  unfolding full_of_def
proof (intro allI impI)
  fix i assume i: "i < min (Suc k) (gs_bits g)"
  have n: "thePatternMask g = mask (gs_bits g)" "gs_bits g \<le> 30" using g by (auto simp: gs_ok_def gs_bits_def)
  show "bit (theShiftReg (shiftIn d g)) i \<longleftrightarrow> kNotTaken \<le> d"
    using i f n by (cases i) (auto simp: shiftIn_def Let_def bit_simps full_of_def simp del: push_bit_Suc)
qed

definition steady :: "nat \<Rightarrow> eDirection \<Rightarrow> 32 word" where
  "steady n d = (if kNotTaken \<le> d then mask n else 0)"

lemma full_of_steady:
  assumes "gs_ok g" "full_of (gs_bits g) d (theShiftReg g)"
  shows "theShiftReg g = steady (gs_bits g) d"
proof (rule bit_word_eqI)
  fix i assume i: "i < LENGTH(32)"
  have "bit (theShiftReg g) i \<Longrightarrow> i < gs_bits g"
    using assms(1) by (metis bit_take_bit_iff gs_ok_def)
  with assms(2) i show "bit (theShiftReg g) i = bit (steady (gs_bits g) d) i"
    by (auto simp: steady_def full_of_def bit_simps)
qed

text \<open>The three phases: the history fills up, the counters turn, and then everything stays.\<close>

definition filling :: "64 word \<Rightarrow> eDirection \<Rightarrow> 64 word \<Rightarrow> nat \<Rightarrow> nat \<Rightarrow> Combining \<Rightarrow> bool" where
  "filling pc d tg n k p \<longleftrightarrow> known pc tg n p \<and> full_of (min k n) d (theShiftReg (theGShare p))"

lemma filling_step: "filling pc d tg n k p \<Longrightarrow> \<exists>p'. train pc d tg p = Inr p' \<and> filling pc d tg n (Suc k) p'"
proof -
  assume f: "filling pc d tg n k p"
  then have g: "gs_ok (theGShare p)" "gs_bits (theGShare p) = n" by (auto simp: filling_def known_def bp_ok_def)
  have "full_of (min (Suc (min k n)) n) d (theShiftReg (shiftIn d (theGShare p)))"
    using full_of_shiftIn[OF g(1), of "min k n" d] f g(2) by (simp add: filling_def)
  moreover have "min (Suc (min k n)) n = min (Suc k) n" by simp
  ultimately show ?thesis using train_step[of pc tg n p d] f by (auto simp: filling_def)
qed

definition agree :: "eDirection \<Rightarrow> eDirection \<Rightarrow> bool" where
  "agree d x \<longleftrightarrow> (kNotTaken \<le> x \<longleftrightarrow> kNotTaken \<le> d)"

text \<open>After \<open>k\<close> rounds with a steady history, a counter that has been updated at least twice agrees.\<close>

definition turning :: "64 word \<Rightarrow> eDirection \<Rightarrow> 64 word \<Rightarrow> nat \<Rightarrow> nat \<Rightarrow> Combining \<Rightarrow> bool" where
  "turning pc d tg n k p \<longleftrightarrow> known pc tg n p \<and> theShiftReg (theGShare p) = steady n d \<and>
     (\<exists>x. gs_at (theGShare p) pc (steady n d) = (apply_dir d ^^ k) x) \<and> (\<exists>y. bim_at (theBimodal p) pc = (apply_dir d ^^ k) y)"

lemma turning_step: "turning pc d tg n k p \<Longrightarrow> \<exists>p'. train pc d tg p = Inr p' \<and> turning pc d tg n (Suc k) p'"
proof -
  assume t: "turning pc d tg n k p"
  then have g: "gs_ok (theGShare p)" "gs_bits (theGShare p) = n" "theShiftReg (theGShare p) = steady n d"
    by (auto simp: turning_def known_def bp_ok_def)
  have n: "n \<le> 32" using g(1,2) by (auto simp: gs_ok_def gs_bits_def)
  have "full_of n d (steady n d)" using n by (auto simp: full_of_def steady_def bit_simps)
  with full_of_shiftIn[OF g(1), of n d] g have "full_of n d (theShiftReg (shiftIn d (theGShare p)))" by simp
  with full_of_steady[OF gs_ok_shiftIn[OF g(1)], of d] g(2) have s: "theShiftReg (shiftIn d (theGShare p)) = steady n d"
    by simp
  from t obtain x y where xy: "gs_at (theGShare p) pc (steady n d) = (apply_dir d ^^ k) x" "bim_at (theBimodal p) pc = (apply_dir d ^^ k) y"
    by (auto simp: turning_def)
  from train_step[of pc tg n p d] t obtain p' where "train pc d tg p = Inr p'" "known pc tg n p'" "theShiftReg (theGShare p') = steady n d"
    "gs_at (theGShare p') pc (steady n d) = (apply_dir d ^^ Suc k) x" "bim_at (theBimodal p') pc = (apply_dir d ^^ Suc k) y"
    by (auto simp: turning_def g(3) s xy)
  then show ?thesis unfolding turning_def by blast
qed

lemma agree_iter: "2 \<le> k \<Longrightarrow> agree d ((apply_dir d ^^ k) x)"
proof (induction k)
  case (Suc k)
  show ?case
  proof (cases "2 \<le> k")
    case True
    then show ?thesis using Suc apply_dir_keeps by (auto simp: agree_def)
  next
    case False
    with Suc.prems have "k = Suc 0" by simp
    then show ?thesis using apply_dir_twice by (simp add: agree_def)
  qed
qed simp

lemma agreed_prediction:
  assumes t: "turning pc d tg n k p" and k: "2 \<le> k" and tg: "kNotTaken \<le> d \<or> tg \<noteq> 0"
  shows "\<exists>fa q. predict \<lparr>theAddress = pc, fa_BPState = None\<rparr> p = Inr (if kNotTaken \<le> d then 0 else tg, fa, q)"
proof -
  from t obtain e where e: "btb_entry (theBTB p) pc = Some e" "theBranchType e = kConditional" "tg \<noteq> 0 \<longrightarrow> theTarget e = tg" and ok: "bp_ok p"
    by (auto simp: turning_def known_def)
  have a: "agree d (gs_at (theGShare p) pc (theShiftReg (theGShare p)))" "agree d (bim_at (theBimodal p) pc)"
    using t agree_iter[OF k] by (auto simp: turning_def)
  show ?thesis
    using ok e a tg predictConditional_ok[of "p\<lparr>theSerial := theSerial p + 1\<rparr>" pc "start_state kConditional (theSerial p)"]
    by (auto simp: predict_def predict_state_def bp_ok_def bp_reads Let_def agree_def)
qed

text \<open>C14: A branch that keeps going the same way is learnt. From any state of the predictor, after as many rounds
  of prediction and feedback as the history has bits, and three more, every further prediction of the branch is
  right: its target when it is taken, no target when it is not, whichever table the meta table chooses.\<close>

theorem branch_learnt:
  assumes ok: "bp_ok p" and n: "gs_bits (theGShare p) + 3 \<le> rounds" and tg: "kNotTaken \<le> d \<or> tg \<noteq> 0"
  shows "\<exists>q fa q'. train_rounds rounds pc d tg p = Inr q \<and>
    predict \<lparr>theAddress = pc, fa_BPState = None\<rparr> q = Inr (if kNotTaken \<le> d then 0 else tg, fa, q')"
proof -
  let ?n = "gs_bits (theGShare p)"
  from le_Suc_ex[OF n] obtain m where "rounds = ?n + 3 + m" by blast
  then have r: "rounds = 1 + (?n + (2 + m))" by simp
  from train_first[OF ok, of pc d tg] obtain p1 where p1: "train pc d tg p = Inr p1" "known pc tg ?n p1" by blast
  have "filling pc d tg ?n 0 p1" using p1(2) by (simp add: filling_def full_of_def)
  from train_rounds_inv[of "filling pc d tg ?n", OF filling_step this, of ?n] obtain p2 where
    p2: "train_rounds ?n pc d tg p1 = Inr p2" "known pc tg ?n p2" "full_of ?n d (theShiftReg (theGShare p2))" by (auto simp: filling_def)
  have "theShiftReg (theGShare p2) = steady ?n d"
    using full_of_steady[of "theGShare p2" d] p2(2,3) by (auto simp: known_def bp_ok_def)
  then have "turning pc d tg ?n 0 p2" using p2(2) by (simp add: turning_def)
  from train_rounds_inv[of "turning pc d tg ?n", OF turning_step this, of "2 + m"] obtain p3 where
    p3: "train_rounds (2 + m) pc d tg p2 = Inr p3" "turning pc d tg ?n (2 + m) p3" by auto
  have "train_rounds rounds pc d tg p = Inr p3"
    using p1(1) p2(1) p3(1) unfolding r train_rounds_add by (simp del: add_2_eq_Suc)
  with agreed_prediction[OF p3(2) _ tg] show ?thesis by auto
qed

theorem branch_learnt_witness:
  "\<exists>p q fa q'. CombiningImpl_new = Inr p \<and> train_rounds 16 4096 kTaken 8192 p = Inr q \<and>
    predict \<lparr>theAddress = 4096, fa_BPState = None\<rparr> q = Inr (8192, fa, q')"
proof -
  obtain p where p: "CombiningImpl_new = Inr p" "bp_ok p" using CombiningImpl_new_ok by blast
  have "gs_bits (theGShare p) = 13"
    using p(1) by (auto simp: CombiningImpl_new_def new_predictor_def bindE_Inr_iff gShare_new_def gShare_reset_def gs_bits_def)
  then show ?thesis using p branch_learnt[OF p(2), of 16 kTaken 8192 4096] by auto
qed

section \<open>The branch history\<close>

text \<open>C15: When the history table mispredicted a branch, its feedback puts the history back to what it was when the
  branch was predicted, with the actual direction appended, whatever was predicted and learnt in between.\<close>

theorem history_repaired:
  assumes "bp_ok p" "predict_state pc p = Inr (st, p1)" "thePredictedType st = kConditional"
    and "bp_run ops p1 = Inr p2" "btb_entry (theBTB p2) pc \<noteq> None" "(kNotTaken \<le> theGSharePrediction st) \<noteq> (kNotTaken \<le> d)"
  shows "\<exists>p3. feedback \<lparr>fb_PC = pc, theActualType = kConditional, theActualDirection = d, theActualTarget = tg, fb_BPState = Some st\<rparr> p2 = Inr p3 \<and>
    theShiftReg (theGShare p3) = theShiftReg (shiftIn d (theGShare p))"
proof -
  have p1: "bp_ok p1" "gs_bits (theGShare p1) = gs_bits (theGShare p)"
    using predict_state_ok[OF assms(1), of pc] predict_state_bits[OF assms(1,2)] assms(2) by auto
  with bp_run_ok[OF p1(1), of ops] assms(4) have p2: "bp_ok p2" "gs_bits (theGShare p2) = gs_bits (theGShare p)" by auto
  have r: "theGShareShiftReg st = theShiftReg (theGShare p)"
    using assms(1-3) predictConditional_ok[of "p\<lparr>theSerial := theSerial p + 1\<rparr>" pc "start_state kConditional (theSerial p)"]
    by (auto simp: predict_state_def bp_ok_def bp_reads predict_jump_def start_state_def Let_def split: eBranchType.splits option.splits)
  from btb_update_store[of "theBTB p2" pc kConditional tg] p2(1) assms(5) obtain t where
    t: "btb_update pc kConditional tg (theBTB p2) = Inr (False, t)" "btb_ok t" by (auto simp: bp_ok_def)
  let ?fb = "\<lparr>fb_PC = pc, theActualType = kConditional, theActualDirection = d, theActualTarget = tg, fb_BPState = Some st\<rparr>"
  let ?p = "p2\<lparr>bp_stats := stats ?fb (bp_stats p2), theBTB := t\<rparr>"
  have "bp_ok ?p" using p2(1) t(2) by (simp add: bp_ok_def)
  from learn_ok[OF this, of pc d st] obtain p3 where
    p3: "learn pc d st ?p = Inr p3" "theShiftReg (theGShare p3) = theShiftReg (repaired d st (theGShare p2))" by auto
  have m: "thePatternMask (theGShare p2) = thePatternMask (theGShare p)" and s: "theShiftReg (theGShare p) AND thePatternMask (theGShare p) = theShiftReg (theGShare p)"
    using assms(1) p2 by (auto simp: bp_ok_def gs_ok_def simp flip: take_bit_eq_mask)
  have "theShiftReg (repaired d st (theGShare p2)) = theShiftReg (shiftIn d (theGShare p))"
    using assms(6) by (simp add: repaired_def shiftIn_def setShiftReg_def Let_def m r s)
  with p3 t(1) show ?thesis by (simp add: feedback_def Let_def)
qed

theorem history_repaired_witness:
  "\<exists>p st p1 d p3. predict_state 4096 p = Inr (st, p1) \<and> thePredictedType st = kConditional \<and>
    feedback \<lparr>fb_PC = 4096, theActualType = kConditional, theActualDirection = d, theActualTarget = 8192, fb_BPState = Some st\<rparr> p1 = Inr p3 \<and>
    theShiftReg (theGShare p3) = theShiftReg (shiftIn d (theGShare p))"
proof -
  obtain p0 where p0: "bp_ok p0" using CombiningImpl_new_ok by blast
  from train_first[OF this, of 4096 kTaken 8192] obtain p n where k: "known 4096 8192 n p" by blast
  then have ok: "bp_ok p" by (simp add: known_def)
  from predict_state_ok[OF ok, of 4096] k obtain st p1 where
    p1: "predict_state 4096 p = Inr (st, p1)" "thePredictedType st = kConditional" "theBTB p1 = theBTB p" by (auto simp: known_def)
  obtain d where d: "(kNotTaken \<le> theGSharePrediction st) \<noteq> (kNotTaken \<le> d)" by (metis not_taken_simps(1,3))
  have e: "btb_entry (theBTB p1) 4096 \<noteq> None" using k p1(3) by (auto simp: known_def)
  from history_repaired[OF ok p1(1,2), of "[]" p1 d 8192] e d obtain p3 where
    "feedback \<lparr>fb_PC = 4096, theActualType = kConditional, theActualDirection = d, theActualTarget = 8192, fb_BPState = Some st\<rparr> p1 = Inr p3"
    "theShiftReg (theGShare p3) = theShiftReg (shiftIn d (theGShare p))" by auto
  with p1(1,2) show ?thesis by blast
qed

section \<open>The predictor of the trace simulator\<close>

lemma fast_predict_same: "fast_predict a st p = predict_state a p"
  by (cases st) (simp add: fast_predict_def predict_state_def start_state_def)

lemma fast_feedback_ok:
  assumes ok: "bp_ok p"
  shows "\<exists>p' b. fast_feedback pc ty d tg st p = Inr p' \<and> bp_ok p' \<and> btb_update pc ty tg (theBTB p) = Inr (b, theBTB p')"
proof -
  from ok have b: "btb_ok (theBTB p)" "bim_ok (theBimodal p)" "gs_ok (theGShare p)" by (auto simp: bp_ok_def)
  from btb_update_store[OF b(1), of pc ty tg] obtain t where
    t: "btb_update pc ty tg (theBTB p) = Inr (btb_entry (theBTB p) pc = None \<and> ty \<noteq> kNonBranch, t)" "btb_ok t" by blast
  let ?p = "p\<lparr>bp_stats := fast_stats ty d (ucast tg) st (bp_stats p), theBTB := t\<rparr>"
  have "bp_ok ?p" using ok t(2) by (simp add: bp_ok_def)
  from learn_ok[OF this, of pc d st] have "\<exists>p'. learn pc d st ?p = Inr p' \<and> bp_ok p' \<and> theBTB p' = t" by auto
  with ok t b show ?thesis by (auto simp: fast_feedback_def Let_def bp_reads bp_ok_def bp_keeps)
qed

lemma fast_stats_same:
  assumes "unat tg < 2 ^ 32" "unat (thePredictedTarget st) < 2 ^ 32"
  shows "fast_stats ty d (ucast tg) st s = stats \<lparr>fb_PC = pc, theActualType = ty, theActualDirection = d, theActualTarget = tg, fb_BPState = Some st\<rparr> s"
proof -
  have "unat (ucast w :: 32 word) = unat w" if "unat w < 2 ^ 32" for w :: "64 word"
    by (simp only: unsigned_ucast_eq) (rule take_bit_nat_eq_self, use that in simp)
  with assms have "(ucast tg :: 32 word) = ucast (thePredictedTarget st) \<longleftrightarrow> tg = thePredictedTarget st"
    by (metis word_unat_eq_iff)
  then show ?thesis by (simp add: fast_stats_def stats_def)
qed

text \<open>The predictor of the trace simulator predicts exactly as the detailed one, whatever the state object held
  before, and learns exactly as it does from every branch it predicted, statistics included as long as the
  targets fit 32 bits.\<close>

theorem fast_predictor_equivalent:
  assumes "thePredictedType st \<noteq> kNonBranch" "unat tg < 2 ^ 32" "unat (thePredictedTarget st) < 2 ^ 32"
  shows "fast_predict pc st p = predict_state pc p \<and> fast_feedback pc ty d tg st p =
    feedback \<lparr>fb_PC = pc, theActualType = ty, theActualDirection = d, theActualTarget = tg, fb_BPState = Some st\<rparr> p"
  using assms(1) fast_stats_same[OF assms(2,3), of ty d "bp_stats p" pc]
  by (auto simp: fast_predict_same fast_feedback_def feedback_def Let_def split: prod.splits intro!: bindE_cong)

theorem fast_predictor_equivalent_witness:
  "\<exists>p. FastCombiningImpl_new = Inr p \<and> fast_feedback 4096 kConditional kTaken 8192 (start_state kConditional 0) p =
    feedback \<lparr>fb_PC = 4096, theActualType = kConditional, theActualDirection = kTaken, theActualTarget = 8192,
      fb_BPState = Some (start_state kConditional 0)\<rparr> p"
proof -
  obtain p where "FastCombiningImpl_new = Inr p" using FastCombiningImpl_new_ok by blast
  with fast_predictor_equivalent[of "start_state kConditional 0" 8192 4096 p kConditional kTaken] show ?thesis
    by (auto simp: start_state_def)
qed

text \<open>With longer addresses the statistics of the trace simulator count a wrong target as a correct prediction.\<close>

lemma fast_counts_wrong_target:
  assumes "ty \<noteq> kConditional" "thePredictedType st = ty" "tg \<noteq> thePredictedTarget st"
    "(ucast tg :: 32 word) = ucast (thePredictedTarget st)"
  shows "theCorrect (fast_stats ty d (ucast tg) st s) = theCorrect s + 1"
    "theCorrect (stats \<lparr>fb_PC = pc, theActualType = ty, theActualDirection = d, theActualTarget = tg, fb_BPState = Some st\<rparr> s) = theCorrect s"
  using assms by (auto simp: fast_stats_def stats_def count_branch_def split: eBranchType.splits)

section \<open>The statistics\<close>

definition consistent :: "BPStats \<Rightarrow> bool" where
  "consistent s \<longleftrightarrow>
     theBranches s = theBranches_Unconditional s + theBranches_Conditional s + theBranches_Call s + theBranches_Return s \<and>
     thePredictions s = thePredictions_Bimodal s + thePredictions_GShare s + thePredictions_Unconditional s \<and>
     theCorrect s = theCorrect_Bimodal s + theCorrect_GShare s + theCorrect_Unconditional s \<and>
     theMispredict s = theMispredict_NewBranch s + theMispredict_Direction s + theMispredict_Meta s + theMispredict_Target s \<and>
     theMispredict_Meta s = theMispredict_MetaGShare s + theMispredict_MetaBimod s"

lemma consistent_ticks:
  "consistent (tick theCorrect_GShare_update (tick theCorrect_update s)) = consistent s"
  "consistent (tick theCorrect_Bimodal_update (tick theCorrect_update s)) = consistent s"
  "consistent (tick theCorrect_Unconditional_update (tick theCorrect_update s)) = consistent s"
  "consistent (tick theMispredict_NewBranch_update (tick theMispredict_update s)) = consistent s"
  "consistent (tick theMispredict_Target_update (tick theMispredict_update s)) = consistent s"
  "consistent (tick theMispredict_Direction_update (tick theMispredict_update s)) = consistent s"
  "consistent (tick theMispredict_MetaGShare_update (tick theMispredict_Meta_update (tick theMispredict_update s))) = consistent s"
  "consistent (tick theMispredict_MetaBimod_update (tick theMispredict_Meta_update (tick theMispredict_update s))) = consistent s"
  "consistent (tick theBranches_Conditional_update (tick theBranches_update s)) = consistent s"
  "consistent (tick theBranches_Unconditional_update (tick theBranches_update s)) = consistent s"
  "consistent (tick theBranches_Call_update (tick theBranches_update s)) = consistent s"
  "consistent (tick theBranches_Return_update (tick theBranches_update s)) = consistent s"
  "consistent (tick thePredictions_GShare_update (tick thePredictions_update s)) = consistent s"
  "consistent (tick thePredictions_Bimodal_update (tick thePredictions_update s)) = consistent s"
  "consistent (tick thePredictions_Unconditional_update (tick thePredictions_update s)) = consistent s"
  unfolding consistent_def by (simp_all add: algebra_simps)

lemma count_branch_fields:
  "theCorrect (count_branch ty s) = theCorrect s" "theMispredict (count_branch ty s) = theMispredict s"
  "consistent (count_branch ty s) = consistent s"
  by (cases ty; simp only: count_branch_def eBranchType.case consistent_ticks; simp)+

lemma stats_consistent: "consistent (stats fb s) = consistent s"
  unfolding stats_def count_branch_fields by (auto simp only: consistent_ticks split: option.split if_split)

lemma stats_counted: "theCorrect (stats fb s) + theMispredict (stats fb s) = theCorrect s + theMispredict s + 1"
  unfolding stats_def count_branch_fields by (simp split: option.split)

lemma predict_counts:
  assumes "bp_ok p" "predict_state a p = Inr (st, p')"
  shows "consistent (bp_stats p') = consistent (bp_stats p)"
    "theCorrect (bp_stats p') = theCorrect (bp_stats p)" "theMispredict (bp_stats p') = theMispredict (bp_stats p)"
proof -
  have "bp_stats p' \<in> {bp_stats p, tick thePredictions_GShare_update (tick thePredictions_update (bp_stats p)),
      tick thePredictions_Bimodal_update (tick thePredictions_update (bp_stats p)),
      tick thePredictions_Unconditional_update (tick thePredictions_update (bp_stats p))}"
    using assms predictConditional_ok[of "p\<lparr>theSerial := theSerial p + 1\<rparr>" a "start_state kConditional (theSerial p)"]
    by (auto simp: predict_state_def bp_ok_def bp_reads predict_jump_def Let_def split: eBranchType.splits option.splits)
  then show "consistent (bp_stats p') = consistent (bp_stats p)"
    "theCorrect (bp_stats p') = theCorrect (bp_stats p)" "theMispredict (bp_stats p') = theMispredict (bp_stats p)"
    by (auto simp: consistent_ticks)
qed

text \<open>The statistics stay consistent in every run: each total is the sum of its parts, and every feedback is
  counted once, as a correct or as a wrong prediction.\<close>

theorem statistics_consistent:
  assumes "bp_ok p" "consistent (bp_stats p)" "bp_run ops p = Inr q"
  shows "consistent (bp_stats q) \<and> theCorrect (bp_stats q) + theMispredict (bp_stats q) =
    theCorrect (bp_stats p) + theMispredict (bp_stats p) + int (length (filter (\<lambda>op. \<exists>fb. op = Feedback fb) ops))"
  using assms
proof (induction ops arbitrary: p)
  case (Cons op ops)
  from bp_do_ok[OF Cons.prems(1), of op] Cons.prems(3) obtain p1 where
    p1: "bp_do op p = Inr p1" "bp_ok p1" "bp_run ops p1 = Inr q" by auto
  show ?case
  proof (cases op)
    case (Predict a)
    with p1(1) predict_ok[OF Cons.prems(1), of a None] obtain st where "predict_state a p = Inr (st, p1)"
      by (auto simp: bp_do_def)
    note c = predict_counts[OF Cons.prems(1) this]
    from Cons.IH[OF p1(2) _ p1(3)] Cons.prems(2) show ?thesis by (simp add: Predict c)
  next
    case (Feedback fb)
    with p1(1) feedback_ok[OF Cons.prems(1), of fb] have s: "bp_stats p1 = stats fb (bp_stats p)" by (auto simp: bp_do_def)
    from Cons.IH[OF p1(2) _ p1(3)] Cons.prems(2) stats_counted[of fb "bp_stats p"] show ?thesis
      by (simp add: Feedback s stats_consistent)
  qed
qed simp

theorem statistics_consistent_witness:
  "\<exists>p q. CombiningImpl_new = Inr p \<and>
    bp_run [Predict 4096, Feedback \<lparr>fb_PC = 4096, theActualType = kCall, theActualDirection = kTaken, theActualTarget = 8192, fb_BPState = None\<rparr>] p = Inr q \<and>
    theCorrect (bp_stats q) + theMispredict (bp_stats q) = 1"
proof -
  let ?ops = "[Predict 4096, Feedback \<lparr>fb_PC = 4096, theActualType = kCall, theActualDirection = kTaken, theActualTarget = 8192, fb_BPState = None\<rparr>]"
  obtain p where p: "CombiningImpl_new = Inr p" "bp_ok p" using CombiningImpl_new_ok by blast
  then have n: "bp_stats p = no_stats" by (auto simp: CombiningImpl_new_def new_predictor_def bindE_Inr_iff)
  from bp_run_ok[OF p(2), of ?ops] obtain q where q: "bp_run ?ops p = Inr q" by blast
  from statistics_consistent[OF p(2) _ q] n have "theCorrect (bp_stats q) + theMispredict (bp_stats q) = 1"
    by (simp add: no_stats_def consistent_def)
  with p q show ?thesis by blast
qed

section \<open>Checkpoints\<close>

lemma foldl_append_entry:
  "distinct (map be_PC xs) \<Longrightarrow> be_PC ` set ys \<inter> be_PC ` set xs = {} \<Longrightarrow> foldl append_entry ys xs = ys @ xs"
  by (induction xs arbitrary: ys) (auto simp: append_entry_def)

lemma load_sets_empty:
  assumes "\<forall>xs \<in> set saved. distinct (map be_PC xs)"
  shows "load_sets saved (replicate n []) = saved"
  using assms by (intro nth_equalityI) (simp_all add: load_sets_def foldl_append_entry)

text \<open>Loading a saved state into a predictor with an empty buffer restores the buffer with its recency order and
  all three tables. The history is not restored: the loading predictor keeps its own, and saving as well as
  loading masks it with the number of its bits.\<close>

theorem bp_checkpoint:
  assumes "bp_ok p" "btb_sets (theBTB q) = replicate n []" "saveState p = (ar, p')"
  shows "theBTB (loadState ar q) = theBTB p \<and> theBimodal (loadState ar q) = theBimodal p \<and> theMeta (loadState ar q) = theMeta p \<and>
    thePatternTable (theGShare (loadState ar q)) = thePatternTable (theGShare p) \<and>
    theShiftReg (theGShare (loadState ar q)) = theShiftReg (theGShare q) AND of_nat (gs_bits (theGShare p)) \<and>
    theShiftReg (theGShare p') = theShiftReg (theGShare p) AND of_nat (gs_bits (theGShare p))"
proof -
  have "\<forall>xs \<in> set (btb_sets (theBTB p)). distinct (map be_PC xs)"
    using assms(1) by (auto simp: bp_ok_def btb_ok_def btb_set_ok_def in_set_conv_nth)
  from load_sets_empty[OF this] have "load_sets (btb_sets (theBTB p)) (btb_sets (theBTB q)) = btb_sets (theBTB p)" using assms(2) by simp
  moreover have "of_int (theShiftRegSize (theGShare p)) = (of_nat (gs_bits (theGShare p)) :: 32 word)"
    using assms(1) by (simp add: bp_ok_def gs_ok_def gs_bits_def)
  ultimately show ?thesis
    using assms(3) by (auto simp: saveState_def loadState_def bim_fields_def gShare_serialize_end_def Let_def)
qed

theorem bp_checkpoint_witness:
  "\<exists>p ar p'. CombiningImpl_new = Inr p \<and> saveState p = (ar, p') \<and> theBTB (loadState ar p) = theBTB p"
proof -
  obtain p where p: "CombiningImpl_new = Inr p" "bp_ok p" using CombiningImpl_new_ok by blast
  then have e: "btb_sets (theBTB p) = replicate 2048 []" by (auto simp: CombiningImpl_new_def new_predictor_def bindE_Inr_iff BTB_new_def)
  obtain ar p' where s: "saveState p = (ar, p')" by fastforce
  from bp_checkpoint[OF p(2) e s] p(1) s show ?thesis by blast
qed

end
