(* ===== verification/FetchAddressGenerate.thy ===== *)
theory FetchAddressGenerate
  imports BranchLearning
begin

text \<open>
  Generation of fetch addresses (\<^verbatim>\<open>FetchAddressGenerate/FetchAddressGenerateImpl.cpp\<close>) and the fetch address
  queue it fills (\<^verbatim>\<open>uFetch/uFetchImpl.cpp\<close>, ports \<^verbatim>\<open>FetchAddressIn\<close>, \<^verbatim>\<open>AvailableFAQOut\<close> and \<^verbatim>\<open>SquashIn\<close>), for the
  ARM target. The component uses a branch predictor through the virtual functions of \<^verbatim>\<open>BranchPredictor\<close>; the
  operations take them as arguments, and the locale \<open>branch_predictor\<close> states what they promise.
\<close>

section \<open>The component\<close>

record 'p BranchPredictor =
  m_isBranch :: "64 word \<Rightarrow> 'p \<Rightarrow> bool res"
  m_predict :: "FetchAddr \<Rightarrow> 'p \<Rightarrow> (64 word \<times> FetchAddr \<times> 'p) res"
  m_feedback :: "BranchFeedback \<Rightarrow> 'p \<Rightarrow> 'p res"

record 'p FetchAddressGenerate =
  fag_PC :: "64 word list"
  theRedirectPC :: "64 word list"
  theRedirect :: "bool list"
  theBranchPredictor :: 'p
  cfg_MaxFetchAddress :: "32 word"
  cfg_MaxBPred :: "32 word"


definition push_RedirectIn :: "nat \<Rightarrow> 64 word \<Rightarrow> 'p FetchAddressGenerate \<Rightarrow> 'p FetchAddressGenerate res" where
  "push_RedirectIn anIndex aRedirect f =
     bindE (vec_set (theRedirectPC f) anIndex aRedirect) (\<lambda>rs.
     bindE (vec_set (theRedirect f) anIndex True) (\<lambda>bs. Inr (f\<lparr>theRedirectPC := rs, theRedirect := bs\<rparr>)))"

definition push_BranchFeedbackIn :: "'p BranchPredictor \<Rightarrow> BranchFeedback \<Rightarrow> 'p FetchAddressGenerate \<Rightarrow> 'p FetchAddressGenerate res" where
  "push_BranchFeedbackIn bp aFeedback f =
     bindE (m_feedback bp aFeedback (theBranchPredictor f)) (\<lambda>p. Inr (f\<lparr>theBranchPredictor := p\<rparr>))"

fun gen_addresses :: "'p BranchPredictor \<Rightarrow> nat \<Rightarrow> int \<Rightarrow> 64 word \<Rightarrow> 'p \<Rightarrow> (FetchAddr list \<times> 64 word \<times> 'p) res" where
  "gen_addresses bp 0 max_predicts pc p = Inr ([], pc, p)"
| "gen_addresses bp (Suc max_addrs) max_predicts pc p =
     bindE (m_isBranch bp pc p) (\<lambda>branch.
     if branch then
       if max_predicts = 0 then Inr ([], pc, p)
       else
         bindE (m_predict bp \<lparr>theAddress = pc, fa_BPState = None\<rparr> p) (\<lambda>(prediction, faddr, p).
         bindE (gen_addresses bp max_addrs (max_predicts - 1) (if prediction = 0 then pc + 4 else prediction) p) (\<lambda>(fs, pc', p).
         Inr (faddr # fs, pc', p)))
     else
       bindE (gen_addresses bp max_addrs max_predicts (pc + 4) p) (\<lambda>(fs, pc', p).
       Inr (\<lparr>theAddress = pc, fa_BPState = None\<rparr> # fs, pc', p)))"

text \<open>
  The environment of a cycle: whether the simulator is quiescing, whether the two channels are available, and
  the free space of the fetch address queue. The command sent on \<^verbatim>\<open>FetchAddrOut\<close> is part of the result; an empty
  one is not sent.
\<close>

record fag_env =
  quiescing :: bool
  FetchAddrOut_available :: bool
  AvailableFAQ_available :: bool
  available_faq :: int

definition doAddressGen :: "'p BranchPredictor \<Rightarrow> fag_env \<Rightarrow> nat \<Rightarrow> 'p FetchAddressGenerate \<Rightarrow> (FetchAddr list \<times> 'p FetchAddressGenerate) res" where
  "doAddressGen bp env anIndex f =
     (if quiescing env then Inr ([], f)
      else
        bindE (vec_at (theRedirect f) anIndex) (\<lambda>redirect.
        bindE (if redirect then
                 bindE (vec_at (theRedirectPC f) anIndex) (\<lambda>r.
                 bindE (vec_set (fag_PC f) anIndex r) (\<lambda>pcs.
                 Inr (f\<lparr>fag_PC := pcs, theRedirect := (theRedirect f)[anIndex := False]\<rparr>)))
               else Inr f) (\<lambda>f.
        bindE (dbg_assert (FetchAddrOut_available env)) (\<lambda>_.
        bindE (dbg_assert (AvailableFAQ_available env)) (\<lambda>_.
        let max_addrs = sint (cfg_MaxFetchAddress f);
            max_addrs = (if max_addrs > available_faq env then available_faq env else max_addrs);
            max_predicts = sint (cfg_MaxBPred f) in
        if max_addrs > 0 then
          bindE (vec_at (fag_PC f) anIndex) (\<lambda>pc.
          bindE (gen_addresses bp (nat max_addrs) max_predicts pc (theBranchPredictor f)) (\<lambda>(fetches, pc, p).
          Inr (fetches, f\<lparr>fag_PC := (fag_PC f)[anIndex := pc], theBranchPredictor := p\<rparr>)))
        else Inr ([], f))))))"

definition fag_drive :: "'p BranchPredictor \<Rightarrow> nat \<Rightarrow> (unit \<Rightarrow> nat) \<Rightarrow> (nat \<Rightarrow> fag_env) \<Rightarrow> 'p FetchAddressGenerate \<Rightarrow>
    (FetchAddr list \<times> 'p FetchAddressGenerate) res" where
  "fag_drive bp threads scheduleFAGThread env f =
     (let td = (if threads > 1 then scheduleFAGThread () else 0) in doAddressGen bp (env td) td f)"

definition pull_Stalled :: "fag_env \<Rightarrow> bool res" where
  "pull_Stalled env = bindE (dbg_assert (AvailableFAQ_available env)) (\<lambda>_. Inr (available_faq env = 0))"

section \<open>The fetch address queue\<close>

record FetchQueue =
  theFAQ :: "FetchAddr list list"
  cfg_FAQSize :: "32 word"

definition push_FetchAddressIn :: "nat \<Rightarrow> FetchAddr list \<Rightarrow> 'a FetchQueue_scheme \<Rightarrow> 'a FetchQueue_scheme res" where
  "push_FetchAddressIn anIndex theFetches q =
     bindE (vec_at (theFAQ q) anIndex) (\<lambda>xs. Inr (q\<lparr>theFAQ := (theFAQ q)[anIndex := xs @ theFetches]\<rparr>))"

definition pull_AvailableFAQOut :: "nat \<Rightarrow> 'a FetchQueue_scheme \<Rightarrow> int res" where
  "pull_AvailableFAQOut anIndex q =
     bindE (vec_at (theFAQ q) anIndex) (\<lambda>xs. Inr (sint (cfg_FAQSize q - of_nat (length xs))))"

definition squash_FAQ :: "nat \<Rightarrow> 'a FetchQueue_scheme \<Rightarrow> 'a FetchQueue_scheme res" where
  "squash_FAQ anIndex q = bindE (vec_set (theFAQ q) anIndex []) (\<lambda>qs. Inr (q\<lparr>theFAQ := qs\<rparr>))"

text \<open>One cycle of address generation wired to the queue.\<close>

definition fag_cycle :: "'p BranchPredictor \<Rightarrow> nat \<Rightarrow> 'p FetchAddressGenerate \<times> FetchQueue \<Rightarrow> ('p FetchAddressGenerate \<times> FetchQueue) res" where
  "fag_cycle bp anIndex = (\<lambda>(f, q).
     bindE (pull_AvailableFAQOut anIndex q) (\<lambda>n.
     bindE (doAddressGen bp \<lparr>quiescing = False, FetchAddrOut_available = True, AvailableFAQ_available = True, available_faq = n\<rparr> anIndex f) (\<lambda>(fs, f).
     bindE (if fs \<noteq> [] then push_FetchAddressIn anIndex fs q else Inr q) (\<lambda>q. Inr (f, q)))))"

section \<open>What the predictor promises\<close>

locale branch_predictor =
  fixes bp :: "'p BranchPredictor" and ok :: "'p \<Rightarrow> bool"
  assumes isBranch_total: "ok p \<Longrightarrow> \<exists>b. m_isBranch bp a p = Inr b"
    and predict_total: "ok p \<Longrightarrow> \<exists>st p'. m_predict bp \<lparr>theAddress = a, fa_BPState = None\<rparr> p =
      Inr (thePredictedTarget st, \<lparr>theAddress = a, fa_BPState = Some st\<rparr>, p') \<and> ok p'"
    and feedback_total: "ok p \<Longrightarrow> \<exists>p'. m_feedback bp fb p = Inr p' \<and> ok p'"

text \<open>The address after a fetch, and sequences of fetches in which each one follows the other.\<close>

definition next_pc :: "FetchAddr \<Rightarrow> 64 word" where
  "next_pc f = (case fa_BPState f of Some st \<Rightarrow> if thePredictedTarget st = 0 then theAddress f + 4 else thePredictedTarget st
     | None \<Rightarrow> theAddress f + 4)"

fun fetch_path :: "64 word \<Rightarrow> FetchAddr list \<Rightarrow> 64 word \<Rightarrow> bool" where
  "fetch_path pc [] pc' \<longleftrightarrow> pc' = pc"
| "fetch_path pc (f # fs) pc' \<longleftrightarrow> theAddress f = pc \<and> fetch_path (next_pc f) fs pc'"

definition predicted :: "FetchAddr list \<Rightarrow> nat" where
  "predicted fs = length (filter (\<lambda>f. fa_BPState f \<noteq> None) fs)"

context branch_predictor
begin

lemma gen_addresses_correct:
  assumes "ok p" "0 \<le> k"
  shows "\<exists>fs pc' p'. gen_addresses bp n k pc p = Inr (fs, pc', p') \<and> ok p' \<and> fetch_path pc fs pc' \<and>
    length fs \<le> n \<and> int (predicted fs) \<le> k \<and> (length fs < n \<longrightarrow> m_isBranch bp pc' p' = Inr True \<and> int (predicted fs) = k)"
  using assms
proof (induction n arbitrary: k pc p)
  case 0
  then show ?case by (simp add: predicted_def)
next
  case (Suc n)
  obtain b where b: "m_isBranch bp pc p = Inr b" using isBranch_total[OF Suc.prems(1)] by blast
  show ?case
  proof (cases b)
    case False
    from Suc.IH[OF Suc.prems, of "pc + 4"] b False show ?thesis by (auto simp: next_pc_def predicted_def)
  next
    case True
    show ?thesis
    proof (cases "k = 0")
      case True
      with b \<open>b\<close> Suc.prems show ?thesis by (simp add: predicted_def)
    next
      case False
      obtain st p1 where p1: "m_predict bp \<lparr>theAddress = pc, fa_BPState = None\<rparr> p =
          Inr (thePredictedTarget st, \<lparr>theAddress = pc, fa_BPState = Some st\<rparr>, p1)" "ok p1" using predict_total[OF Suc.prems(1)] by blast
      let ?pc = "if thePredictedTarget st = 0 then pc + 4 else thePredictedTarget st"
      from Suc.IH[OF p1(2), of "k - 1" ?pc] False Suc.prems(2) obtain fs pc' p' where
        "gen_addresses bp n (k - 1) ?pc p1 = Inr (fs, pc', p')" "ok p'" "fetch_path ?pc fs pc'" "length fs \<le> n" "int (predicted fs) \<le> k - 1"
        "length fs < n \<longrightarrow> m_isBranch bp pc' p' = Inr True \<and> int (predicted fs) = k - 1" by auto
      with b \<open>b\<close> False p1 show ?thesis by (auto simp: next_pc_def predicted_def)
    qed
  qed
qed

end

interpretation combining: branch_predictor "\<lparr>m_isBranch = isBranch, m_predict = predict, m_feedback = feedback\<rparr>" bp_ok
proof
  fix p a and fb assume ok: "bp_ok p"
  show "\<exists>b. m_isBranch \<lparr>m_isBranch = isBranch, m_predict = predict, m_feedback = feedback\<rparr> a p = Inr b"
    using ok by (simp add: isBranch_def btb_contains_def btb_reads bp_ok_def)
  show "\<exists>st p'. m_predict \<lparr>m_isBranch = isBranch, m_predict = predict, m_feedback = feedback\<rparr> \<lparr>theAddress = a, fa_BPState = None\<rparr> p =
      Inr (thePredictedTarget st, \<lparr>theAddress = a, fa_BPState = Some st\<rparr>, p') \<and> bp_ok p'"
    using predict_ok[OF ok, of a None] by auto
  show "\<exists>p'. m_feedback \<lparr>m_isBranch = isBranch, m_predict = predict, m_feedback = feedback\<rparr> fb p = Inr p' \<and> bp_ok p'"
    using feedback_ok[OF ok, of fb] by auto
qed

section \<open>A cycle of address generation\<close>

definition combining_methods :: "Combining BranchPredictor" where
  "combining_methods = \<lparr>m_isBranch = isBranch, m_predict = predict, m_feedback = feedback\<rparr>"

lemma combining_isBranch: "m_isBranch combining_methods = isBranch"
  by (simp add: combining_methods_def)

definition fag_ok :: "nat \<Rightarrow> Combining FetchAddressGenerate \<Rightarrow> bool" where
  "fag_ok n f \<longleftrightarrow> bp_ok (theBranchPredictor f) \<and> length (fag_PC f) = n \<and> length (theRedirectPC f) = n \<and> length (theRedirect f) = n \<and>
     0 \<le> sint (cfg_MaxBPred f)"

definition start_pc :: "nat \<Rightarrow> 'p FetchAddressGenerate \<Rightarrow> 64 word" where
  "start_pc i f = (if theRedirect f ! i then theRedirectPC f ! i else fag_PC f ! i)"

definition fag_after :: "nat \<Rightarrow> 64 word \<Rightarrow> 'p \<Rightarrow> 'p FetchAddressGenerate \<Rightarrow> 'p FetchAddressGenerate" where
  "fag_after i pc p f = f\<lparr>fag_PC := (fag_PC f)[i := pc], theRedirect := (theRedirect f)[i := False], theBranchPredictor := p\<rparr>"

lemma doAddressGen_result:
  assumes ok: "fag_ok n f" and i: "i < n"
    and env: "\<not> quiescing env" "FetchAddrOut_available env" "AvailableFAQ_available env"
    and m: "m = min (sint (cfg_MaxFetchAddress f)) (available_faq env)"
  shows "\<exists>fs pc p. doAddressGen combining_methods env i f = Inr (fs, fag_after i pc p f) \<and> bp_ok p \<and>
    fetch_path (start_pc i f) fs pc \<and> int (length fs) \<le> max 0 m \<and> int (predicted fs) \<le> sint (cfg_MaxBPred f) \<and>
    (int (length fs) < m \<longrightarrow> isBranch pc p = Inr True \<and> int (predicted fs) = sint (cfg_MaxBPred f))"
proof -
  have l: "i < length (fag_PC f)" "i < length (theRedirectPC f)" "i < length (theRedirect f)" and k: "0 \<le> sint (cfg_MaxBPred f)"
    and b: "bp_ok (theBranchPredictor f)" using ok i by (auto simp: fag_ok_def)
  have frame: "\<not> theRedirect f ! i \<Longrightarrow> (theRedirect f)[i := False] = theRedirect f"
    using list_update_id[of "theRedirect f" i] by simp
  obtain f1 where f1: "f1 = fag_after i (start_pc i f) (theBranchPredictor f) f" by blast
  have run: "doAddressGen combining_methods env i f =
    (if 0 < m then bindE (gen_addresses combining_methods (nat m) (sint (cfg_MaxBPred f)) (start_pc i f) (theBranchPredictor f))
        (\<lambda>(fs, pc, p). Inr (fs, fag_after i pc p f)) else Inr ([], f1))"
    using l env frame by (cases f) (auto simp: doAddressGen_def Let_def m min_def f1 start_pc_def fag_after_def intro!: bindE_cong)
  show ?thesis
  proof (cases "0 < m")
    case True
    from combining.gen_addresses_correct[OF b k, of "nat m" "start_pc i f", folded combining_methods_def] obtain fs pc p where
      "gen_addresses combining_methods (nat m) (sint (cfg_MaxBPred f)) (start_pc i f) (theBranchPredictor f) = Inr (fs, pc, p)"
      "bp_ok p" "fetch_path (start_pc i f) fs pc" "length fs \<le> nat m" "int (predicted fs) \<le> sint (cfg_MaxBPred f)"
      "length fs < nat m \<longrightarrow> m_isBranch combining_methods pc p = Inr True \<and> int (predicted fs) = sint (cfg_MaxBPred f)" by blast
    with True show ?thesis
      by (intro exI[of _ fs] exI[of _ pc] exI[of _ p]) (auto simp: run combining_isBranch)
  next
    case False
    with b k show ?thesis by (auto simp: run f1 predicted_def intro!: exI[of _ "[]"])
  qed
qed



section \<open>Address generation and the queue\<close>

text \<open>
  The front end as a whole: cycles of address generation, resynchronisations by the core, which squash the queue
  of a thread and redirect it, feedback from resolved branches, and the fetch unit taking the oldest address.
\<close>

datatype fetch_op = Cycle nat | Resync nat "64 word" | Learn BranchFeedback | Consume nat

definition fetch_do :: "fetch_op \<Rightarrow> Combining FetchAddressGenerate \<times> FetchQueue \<Rightarrow> (Combining FetchAddressGenerate \<times> FetchQueue) res" where
  "fetch_do op = (\<lambda>(f, q). case op of
     Cycle i \<Rightarrow> fag_cycle combining_methods i (f, q)
   | Resync i pc \<Rightarrow> bindE (squash_FAQ i q) (\<lambda>q. bindE (push_RedirectIn i pc f) (\<lambda>f. Inr (f, q)))
   | Learn fb \<Rightarrow> bindE (push_BranchFeedbackIn combining_methods fb f) (\<lambda>f. Inr (f, q))
   | Consume i \<Rightarrow> bindE (vec_at (theFAQ q) i) (\<lambda>xs. Inr (f, q\<lparr>theFAQ := (theFAQ q)[i := tl xs]\<rparr>)))"

fun op_thread :: "fetch_op \<Rightarrow> nat \<Rightarrow> bool" where
  "op_thread (Cycle i) n \<longleftrightarrow> i < n"
| "op_thread (Resync i pc) n \<longleftrightarrow> i < n"
| "op_thread (Learn fb) n \<longleftrightarrow> True"
| "op_thread (Consume i) n \<longleftrightarrow> i < n"

definition thread_ok :: "Combining FetchAddressGenerate \<Rightarrow> FetchQueue \<Rightarrow> nat \<Rightarrow> bool" where
  "thread_ok f q i \<longleftrightarrow> length (theFAQ q ! i) \<le> unat (cfg_FAQSize q) \<and>
     (if theRedirect f ! i then theFAQ q ! i = [] else \<exists>pc. fetch_path pc (theFAQ q ! i) (fag_PC f ! i))"

definition fetch_inv :: "nat \<Rightarrow> Combining FetchAddressGenerate \<times> FetchQueue \<Rightarrow> bool" where
  "fetch_inv n = (\<lambda>(f, q). fag_ok n f \<and> length (theFAQ q) = n \<and> unat (cfg_FAQSize q) < 2 ^ 31 \<and> (\<forall>i < n. thread_ok f q i))"

lemma fetch_path_append: "fetch_path a xs b \<Longrightarrow> fetch_path b ys c \<Longrightarrow> fetch_path a (xs @ ys) c"
  by (induction xs arbitrary: a) auto

lemma fetch_path_tl: "fetch_path a xs b \<Longrightarrow> \<exists>a'. fetch_path a' (tl xs) b"
  by (cases xs) auto

lemma free_entries:
  assumes "k \<le> unat w" "unat w < 2 ^ 31"
  shows "sint (w - of_nat k :: 32 word) = int (unat w) - int k"
proof -
  have "w - of_nat k = (of_nat (unat w - k) :: 32 word)" using assms(1) by simp
  moreover have "sint (of_nat m :: 32 word) = int m" if "m < 2 ^ 31" for m
    using that by (simp add: signed_of_nat signed_take_bit_int_eq_self)
  ultimately have "sint (w - of_nat k) = int (unat w - k)" using assms(2) by (metis diff_le_self order_le_less_trans)
  then show ?thesis by (simp only: of_nat_diff[OF assms(1)])
qed

lemma cycle_ok:
  assumes inv: "fetch_inv n (f, q)" and i: "i < n"
  shows "\<exists>s'. fag_cycle combining_methods i (f, q) = Inr s' \<and> fetch_inv n s'"
proof -
  let ?xs = "theFAQ q ! i"
  have ok: "fag_ok n f" and q: "length (theFAQ q) = n" "unat (cfg_FAQSize q) < 2 ^ 31" and t: "\<And>j. j < n \<Longrightarrow> thread_ok f q j"
    using inv by (auto simp: fetch_inv_def)
  let ?a = "int (unat (cfg_FAQSize q)) - int (length ?xs)"
  have a: "pull_AvailableFAQOut i q = Inr ?a"
    using t[OF i] q i by (simp add: pull_AvailableFAQOut_def thread_ok_def free_entries)
  let ?env = "\<lparr>quiescing = False, FetchAddrOut_available = True, AvailableFAQ_available = True, available_faq = ?a\<rparr>"
  obtain fs pc p where g: "doAddressGen combining_methods ?env i f = Inr (fs, fag_after i pc p f)" "bp_ok p" "fetch_path (start_pc i f) fs pc"
      "int (length fs) \<le> max 0 (min (sint (cfg_MaxFetchAddress f)) ?a)"
    using doAddressGen_result[OF ok i, of ?env] by auto
  let ?f = "fag_after i pc p f" and ?q = "q\<lparr>theFAQ := (theFAQ q)[i := ?xs @ fs]\<rparr>"
  have run: "fag_cycle combining_methods i (f, q) = Inr (?f, ?q)"
    using a g(1) q i by (auto simp: fag_cycle_def push_FetchAddressIn_def)
  have "fag_ok n ?f" using ok g(2) by (simp add: fag_ok_def fag_after_def)
  moreover have "thread_ok ?f ?q j" if j: "j < n" for j
  proof (cases "j = i")
    case True
    have l: "i < length (fag_PC f)" "i < length (theRedirect f)" using ok i by (auto simp: fag_ok_def)
    have "int (length fs) \<le> max 0 (min c (int m - int (length ?xs))) \<Longrightarrow> length ?xs \<le> m \<Longrightarrow> length (?xs @ fs) \<le> m" for m c by auto
    from this[OF g(4)] have "length (?xs @ fs) \<le> unat (cfg_FAQSize q)" using t[OF i] by (simp add: thread_ok_def)
    moreover have "\<exists>pc0. fetch_path pc0 (?xs @ fs) pc"
      using t[OF i] g(3) by (auto simp: thread_ok_def start_pc_def split: if_splits dest: fetch_path_append)
    ultimately show ?thesis using True l q i by (simp add: thread_ok_def fag_after_def)
  next
    case False
    then show ?thesis using t[OF j] by (simp add: thread_ok_def fag_after_def)
  qed
  ultimately show ?thesis using run q by (auto simp: fetch_inv_def)
qed

lemma fetch_do_ok:
  assumes inv: "fetch_inv n s" and t: "op_thread op n"
  shows "\<exists>s'. fetch_do op s = Inr s' \<and> fetch_inv n s'"
proof -
  obtain f q where s: "s = (f, q)" by (cases s)
  have ok: "fag_ok n f" and q: "length (theFAQ q) = n" and th: "\<And>j. j < n \<Longrightarrow> thread_ok f q j" using inv by (auto simp: s fetch_inv_def)
  show ?thesis
  proof (cases op)
    case (Cycle i)
    with cycle_ok[of n f q i] inv t show ?thesis by (simp add: fetch_do_def s)
  next
    case (Resync i pc)
    then show ?thesis using inv t ok q
      by (auto simp: fetch_do_def s squash_FAQ_def push_RedirectIn_def fag_ok_def fetch_inv_def thread_ok_def nth_list_update)
  next
    case (Learn fb)
    from feedback_ok[of "theBranchPredictor f" fb] ok obtain p where "feedback fb (theBranchPredictor f) = Inr p" "bp_ok p"
      by (auto simp: fag_ok_def)
    then show ?thesis using inv ok Learn
      by (auto simp: fetch_do_def s push_BranchFeedbackIn_def combining_methods_def fag_ok_def fetch_inv_def thread_ok_def)
  next
    case (Consume i)
    have "thread_ok f (q\<lparr>theFAQ := (theFAQ q)[i := tl (theFAQ q ! i)]\<rparr>) j" if "j < n" for j
      using th[OF that] q t Consume fetch_path_tl that by (cases "j = i") (auto simp: thread_ok_def)
    then show ?thesis using inv t q Consume by (simp add: fetch_do_def s fetch_inv_def)
  qed
qed

text \<open>However cycles, resynchronisations, feedback and consumption interleave, the front end never fails, no queue
  grows beyond its size, and the addresses waiting in a queue always follow one another, up to the address that will
  be generated next.\<close>

theorem front_end_safe:
  assumes "fetch_inv n s" "\<forall>op \<in> set ops. op_thread op n"
  shows "\<exists>f q. foldE fetch_do ops s = Inr (f, q) \<and> fetch_inv n (f, q) \<and>
    (\<forall>i < n. length (theFAQ q ! i) \<le> unat (cfg_FAQSize q) \<and>
      (\<not> theRedirect f ! i \<longrightarrow> (\<exists>pc. fetch_path pc (theFAQ q ! i) (fag_PC f ! i))))"
proof -
  have "\<exists>s'. foldE fetch_do ops s = Inr s' \<and> fetch_inv n s'"
    by (rule foldE_inv) (use fetch_do_ok assms in blast)+
  then obtain f q where "foldE fetch_do ops s = Inr (f, q)" "fetch_inv n (f, q)" by auto
  then show ?thesis by (auto simp: fetch_inv_def thread_ok_def)
qed

theorem front_end_safe_witness:
  "\<exists>p f q. CombiningImpl_new = Inr p \<and>
    foldE fetch_do [Cycle 0, Consume 0, Resync 0 8192, Cycle 0]
      (\<lparr>fag_PC = [4096], theRedirectPC = [0], theRedirect = [False], theBranchPredictor = p, cfg_MaxFetchAddress = 10, cfg_MaxBPred = 2\<rparr>,
       \<lparr>theFAQ = [[]], cfg_FAQSize = 32\<rparr>) = Inr (f, q) \<and> length (theFAQ q ! 0) \<le> unat (cfg_FAQSize q)"
proof -
  obtain p where p: "CombiningImpl_new = Inr p" "bp_ok p" using CombiningImpl_new_ok by blast
  let ?s = "(\<lparr>fag_PC = [4096], theRedirectPC = [0], theRedirect = [False], theBranchPredictor = p, cfg_MaxFetchAddress = 10, cfg_MaxBPred = 2\<rparr>,
       \<lparr>theFAQ = [[]], cfg_FAQSize = 32\<rparr>)"
  have "fetch_inv 1 ?s" using p by (simp add: fetch_inv_def fag_ok_def thread_ok_def)
  from front_end_safe[OF this, of "[Cycle 0, Consume 0, Resync 0 8192, Cycle 0]"] p(1) show ?thesis by auto
qed

end
