(* ===== verification/FetchUnit.thy ===== *)
theory FetchUnit
  imports InstructionCache FetchAddressGenerate MemoryMessages TranslationRequest
begin

text \<open>
  The fetch unit (\<^verbatim>\<open>uFetch/uFetchImpl.cpp\<close>, \<^verbatim>\<open>uFetch/uFetchTypes.hpp\<close>). It takes fetch addresses from its queue,
  looks up their lines in the instruction cache, asks the MMU for their translation, and passes the instructions
  on in bundles once the translations have come back. It also answers the requests of the coherence protocol.

  The members the code keeps as one vector per member, all resized to the number of threads at start, are one
  record per thread here (\<open>FetchThread\<close>); the queue of fetch addresses is the record \<open>FetchQueue\<close> of the address
  generation, which \<open>uFetch\<close> extends. What is sent on an output channel is appended to \<open>sent\<close>. The emulator is a
  parameter: the translation of an address and the instruction word at an address, for each processor, and what
  newly allocated memory holds. A channel that accepts messages for a while is the number of messages it takes.
  Trackers and translation requests are shared by pointer in the code; the unit reads nothing of them after
  handing them on, so they are values here.
\<close>

unbundle bit_operations_syntax

section \<open>Data\<close>

record FetchedOpcode =
  fo_PC :: "64 word"
  theOpcode :: "32 word"
  fo_BPState :: "BPredState option"
  theTransaction :: "TransactionTracker option"

record FetchBundle =
  theOpcodes :: "FetchedOpcode list"
  theFillLevels :: "tFillLevel list"
  coreID :: int

fun updateOpcode :: "64 word \<Rightarrow> 32 word \<Rightarrow> FetchedOpcode list \<Rightarrow> FetchedOpcode list res" where
  "updateOpcode anAddress anOpcode [] = Inl AssertionFailed"
| "updateOpcode anAddress anOpcode (i # is) =
     (if fo_PC i = anAddress then Inr (i\<lparr>theOpcode := anOpcode\<rparr> # is)
      else bindE (updateOpcode anAddress anOpcode is) (\<lambda>is. Inr (i # is)))"

definition bundle_clear :: "FetchBundle \<Rightarrow> FetchBundle" where
  "bundle_clear b = b\<lparr>theOpcodes := [], theFillLevels := []\<rparr>"

record CPUState =
  cs_TL :: int
  cs_PSTATE :: int

record FetchThread =
  theIcacheMiss :: "64 word option"
  theIcacheVMiss :: "64 word option"
  theFetchReplyTransactionTracker :: "TransactionTracker option"
  theLastMiss :: "(64 word \<times> tFillLevel) option"
  theIcachePrefetch :: "64 word option"
  theLastPrefetchVTagSet :: "64 word option"
  theCPUState :: CPUState

datatype fetch_out = ClockTickSeen | InstructionFetchSeen | FetchMissOut MemoryTransport | FetchSnoopOut MemoryTransport
  | FetchReplyOut MemoryTransport | iTranslationOut Translation | FetchBundleOut FetchBundle

record uFetchConfig =
  cfg_MaxFetchLines :: nat
  cfg_MaxFetchInstructions :: "32 word"
  cfg_ICacheLineSize :: "64 word"
  cfg_PerfectICache :: bool
  cfg_PrefetchEnabled :: bool
  cfg_CleanEvict :: bool
  cfg_Size :: int
  cfg_Associativity :: int
  cfg_MissQueueSize :: nat
  cfg_Threads :: nat
  cfg_SendAcks :: bool
  cfg_UseReplyChannel :: bool
  cfg_EvictOnSnoop :: bool

record uFetch = FetchQueue +
  cfg :: uFetchConfig
  flexusIndex :: nat
  theBundle :: FetchBundle
  theI :: SimCache
  theThreads :: "FetchThread list"
  theEvictSet :: "64 word set"
  theLastVTagSet :: "64 word"
  theLastPhysical :: "64 word"
  theIndexShift :: int
  theBlockMask :: "64 word"
  theMissQueueSize :: nat
  theBundleCoreID :: int
  theMissQueue :: "MemoryTransport list"
  theSnoopQueue :: "MemoryTransport list"
  theReplyQueue :: "MemoryTransport list"
  TranslationsFromTLB :: "Translation list"
  translationID :: nat
  sent :: "fetch_out list"

record emulator =
  translateVirtualAddress :: "nat \<Rightarrow> 64 word \<Rightarrow> 64 word"
  fetchInstruction :: "nat \<Rightarrow> 64 word \<Rightarrow> 32 word"
  allocated :: Translation

definition cpu :: "uFetch \<Rightarrow> nat \<Rightarrow> nat" where
  "cpu u anIndex = flexusIndex u * cfg_Threads (cfg u) + anIndex"

definition thread_at :: "nat \<Rightarrow> uFetch \<Rightarrow> FetchThread res" where
  "thread_at anIndex u = vec_at (theThreads u) anIndex"

definition on_thread :: "nat \<Rightarrow> (FetchThread \<Rightarrow> FetchThread) \<Rightarrow> uFetch \<Rightarrow> uFetch res" where
  "on_thread anIndex f u = bindE (thread_at anIndex u) (\<lambda>th. Inr (u\<lparr>theThreads := (theThreads u)[anIndex := f th]\<rparr>))"

definition send :: "fetch_out \<Rightarrow> uFetch \<Rightarrow> uFetch" where
  "send x u = u\<lparr>sent := sent u @ [x]\<rparr>"

section \<open>The instruction cache\<close>

definition uf_lookup :: "64 word \<Rightarrow> uFetch \<Rightarrow> (bool \<times> uFetch) res" where
  "uf_lookup anAddress u = bindE (sc_lookup anAddress (theI u)) (\<lambda>(hit, c). Inr (hit, u\<lparr>theI := c\<rparr>))"

definition uf_insert :: "64 word \<Rightarrow> uFetch \<Rightarrow> (64 word \<times> uFetch) res" where
  "uf_insert anAddress u =
     bindE (uf_lookup anAddress u) (\<lambda>(hit, u).
     if \<not> hit then bindE (sc_insert anAddress (theI u)) (\<lambda>(v, c). Inr (v, u\<lparr>theI := c\<rparr>)) else Inr (0, u))"

definition uf_inval :: "64 word \<Rightarrow> uFetch \<Rightarrow> (bool \<times> uFetch) res" where
  "uf_inval anAddress u = bindE (sc_inval anAddress (theI u)) (\<lambda>(b, c). Inr (b, u\<lparr>theI := c\<rparr>))"

section \<open>Start, state and queue ports\<close>

definition new_thread :: FetchThread where
  "new_thread = \<lparr>theIcacheMiss = None, theIcacheVMiss = None, theFetchReplyTransactionTracker = None, theLastMiss = None,
     theIcachePrefetch = None, theLastPrefetchVTagSet = None, theCPUState = \<lparr>cs_TL = 0, cs_PSTATE = 0\<rparr>\<rparr>"

definition uf_initialize :: "uFetchConfig \<Rightarrow> 32 word \<Rightarrow> nat \<Rightarrow> nat \<Rightarrow> uFetch res" where
  "uf_initialize c faqSize index nextID =
     bindE (SimCache_init (cfg_Size c) (cfg_Associativity c) (sint (ucast (cfg_ICacheLineSize c) :: 32 word))) (\<lambda>i.
     Inr \<lparr>theFAQ = replicate (cfg_Threads c) [], cfg_FAQSize = faqSize, cfg = c, flexusIndex = index,
          theBundle = \<lparr>theOpcodes = [], theFillLevels = [], coreID = int index\<rparr>, theI = i,
          theThreads = replicate (cfg_Threads c) new_thread, theEvictSet = {}, theLastVTagSet = 0, theLastPhysical = 0,
          theIndexShift = LOG2 (uint (cfg_ICacheLineSize c)), theBlockMask = NOT (cfg_ICacheLineSize c - 1),
          theMissQueueSize = cfg_MissQueueSize c, theBundleCoreID = int index, theMissQueue = [], theSnoopQueue = [],
          theReplyQueue = [], TranslationsFromTLB = [], translationID = nextID, sent = []\<rparr>)"

definition uf_loadState :: "token list option \<Rightarrow> uFetch \<Rightarrow> uFetch res" where
  "uf_loadState file u = bindE (sc_loadState file (theI u)) (\<lambda>c. Inr (u\<lparr>theI := c\<rparr>))"

definition uf_isQuiesced :: "uFetch \<Rightarrow> bool" where
  "uf_isQuiesced u \<longleftrightarrow> theMissQueue u = [] \<and> theSnoopQueue u = [] \<and> theReplyQueue u = [] \<and> (\<forall>q \<in> set (theFAQ u). q = [])"

definition push_SquashIn :: "nat \<Rightarrow> uFetch \<Rightarrow> uFetch res" where
  "push_SquashIn anIndex u =
     bindE (squash_FAQ anIndex u) (\<lambda>u.
     bindE (on_thread anIndex (\<lambda>th. th\<lparr>theIcacheMiss := None, theIcacheVMiss := None, theFetchReplyTransactionTracker := None,
              theLastMiss := None, theIcachePrefetch := None, theLastPrefetchVTagSet := Some 0\<rparr>) u) (\<lambda>u.
     Inr (u\<lparr>theBundle := bundle_clear (theBundle u), TranslationsFromTLB := []\<rparr>)))"

definition push_ChangeCPUState :: "nat \<Rightarrow> CPUState \<Rightarrow> uFetch \<Rightarrow> uFetch res" where
  "push_ChangeCPUState anIndex aState u = on_thread anIndex (\<lambda>th. th\<lparr>theCPUState := aState\<rparr>) u"

definition push_ResyncIn :: "int \<Rightarrow> uFetch \<Rightarrow> uFetch" where
  "push_ResyncIn aResync u =
     u\<lparr>TranslationsFromTLB := [], theBundleCoreID := aResync, theBundle := (bundle_clear (theBundle u))\<lparr>coreID := aResync\<rparr>\<rparr>"

definition pull_ICount :: "nat \<Rightarrow> uFetch \<Rightarrow> nat res" where
  "pull_ICount anIndex u = bindE (vec_at (theFAQ u) anIndex) (\<lambda>q. Inr (length q))"

definition pull_uf_Stalled :: "nat \<Rightarrow> int option \<Rightarrow> uFetch \<Rightarrow> bool res" where
  "pull_uf_Stalled anIndex fiq u = (case fiq of None \<Rightarrow> Inl AssertionFailed
     | Some available_fiq \<Rightarrow>
         bindE (vec_at (theFAQ u) anIndex) (\<lambda>q.
         bindE (thread_at anIndex u) (\<lambda>th. Inr (q = [] \<or> available_fiq = 0 \<or> theIcacheMiss th \<noteq> None))))"

section \<open>Misses\<close>

definition own_tracker :: "64 word \<Rightarrow> uFetch \<Rightarrow> TransactionTracker" where
  "own_tracker anAddress u = TransactionTracker_new\<lparr>tt_Address := Some anAddress, tt_Initiator := Some (flexusIndex u)\<rparr>"

definition fetch_transport :: "64 word \<Rightarrow> 64 word \<Rightarrow> uFetch \<Rightarrow> MemoryTransport" where
  "fetch_transport anAddress vPC u =
     \<lparr>mt_msg = (newFetch anAddress vPC)\<lparr>mm_reqSize := 64\<rparr>, mt_dest = None,
      mt_tracker = Some ((own_tracker anAddress u)\<lparr>tt_Fetch := Some True, tt_Source := Some ''uFetch''\<rparr>)\<rparr>"

definition issueFetch :: "64 word \<Rightarrow> 64 word \<Rightarrow> uFetch \<Rightarrow> uFetch res" where
  "issueFetch anAddress vPC u =
     bindE (dbg_assert (anAddress \<noteq> 0)) (\<lambda>_.
     Inr (u\<lparr>theMissQueue := theMissQueue u @ [fetch_transport anAddress vPC u]\<rparr>))"

definition issueEvict :: "64 word \<Rightarrow> uFetch \<Rightarrow> uFetch res" where
  "issueEvict anAddress u =
     (if cfg_CleanEvict (cfg u) \<and> anAddress \<noteq> 0 then
        bindE (dbg_assert (anAddress \<notin> theEvictSet u)) (\<lambda>_.
        let u = u\<lparr>theEvictSet := insert anAddress (theEvictSet u)\<rparr>;
            transport = \<lparr>mt_msg = (MemoryMessage_at EvictClean anAddress)\<lparr>mm_reqSize := 64, mm_ackRequired := True\<rparr>, mt_dest = None,
                         mt_tracker = Some (own_tracker anAddress u)\<rparr>
        in Inr (if cfg_EvictOnSnoop (cfg u) then u\<lparr>theSnoopQueue := theSnoopQueue u @ [transport]\<rparr>
                else u\<lparr>theMissQueue := theMissQueue u @ [transport]\<rparr>))
      else Inr u)"

text \<open>A new translation request takes the next number of a counter all requests share.\<close>

definition new_translation :: "emulator \<Rightarrow> uFetch \<Rightarrow> Translation \<times> uFetch" where
  "new_translation em u = (let (xlat, n) = Translation_new (translationID u) (allocated em) in (xlat, u\<lparr>translationID := n\<rparr>))"

definition shift_ok :: "uFetch \<Rightarrow> unit res" where
  "shift_ok u = (if 0 \<le> theIndexShift u \<and> theIndexShift u < 64 then Inr () else Inl UndefinedBehaviour)"

definition prefetchNext :: "emulator \<Rightarrow> nat \<Rightarrow> uFetch \<Rightarrow> uFetch res" where
  "prefetchNext em anIndex u =
     (if length (theMissQueue u) \<ge> theMissQueueSize u then Inr u
      else bindE (thread_at anIndex u) (\<lambda>th.
      case (if cfg_PrefetchEnabled (cfg u) then theLastPrefetchVTagSet th else None) of
        None \<Rightarrow> Inr u
      | Some vtagset \<Rightarrow>
          let vtagset = vtagset + 1 in
          bindE (on_thread anIndex (\<lambda>th. th\<lparr>theLastPrefetchVTagSet := Some vtagset\<rparr>) u) (\<lambda>u.
          bindE (shift_ok u) (\<lambda>_.
          let vprefetch = push_bit (nat (theIndexShift u)) vtagset;
              (xlat, u) = new_translation em u;
              xlat = xlat\<lparr>theVaddr := vprefetch, thePSTATE := cs_PSTATE (theCPUState th), theType := eFetch,
                          thePaddr := translateVirtualAddress em (cpu u anIndex) vprefetch\<rparr>
          in if thePaddr xlat = 0 then on_thread anIndex (\<lambda>th. th\<lparr>theLastPrefetchVTagSet := None\<rparr>) u
             else bindE (uf_lookup (thePaddr xlat) u) (\<lambda>(hit, u).
               if hit then on_thread anIndex (\<lambda>th. th\<lparr>theLastPrefetchVTagSet := None\<rparr>) u
               else bindE (on_thread anIndex (\<lambda>th. th\<lparr>theIcachePrefetch := Some (thePaddr xlat)\<rparr>) u) (\<lambda>u.
                 issueFetch (thePaddr xlat) vprefetch u))))))"

definition icache_miss :: "emulator \<Rightarrow> nat \<Rightarrow> 64 word \<Rightarrow> 64 word \<Rightarrow> 64 word \<Rightarrow> uFetch \<Rightarrow> uFetch res" where
  "icache_miss em anIndex vaddr tagset paddr u =
     bindE (thread_at anIndex u) (\<lambda>th.
     bindE (dbg_assert (theIcacheMiss th = None)) (\<lambda>_.
     let temp = paddr AND theBlockMask u in
     bindE (on_thread anIndex (\<lambda>th. th\<lparr>theIcacheMiss := Some temp, theIcacheVMiss := Some vaddr, theFetchReplyTransactionTracker := None,
              theIcachePrefetch := None\<rparr>) u) (\<lambda>u.
     if theIcachePrefetch th = Some temp then prefetchNext em anIndex u
     else
       bindE (issueFetch temp vaddr u) (\<lambda>u.
       bindE (on_thread anIndex (\<lambda>th. th\<lparr>theLastPrefetchVTagSet := Some tagset\<rparr>) u) (prefetchNext em anIndex)))))"

definition icacheLookup :: "emulator \<Rightarrow> nat \<Rightarrow> 64 word \<Rightarrow> uFetch \<Rightarrow> (bool \<times> uFetch) res" where
  "icacheLookup em anIndex vaddr u =
     bindE (shift_ok u) (\<lambda>_.
     let tagset = drop_bit (nat (theIndexShift u)) vaddr in
     bindE (if tagset = theLastVTagSet u then Inr (theLastPhysical u, u)
            else bindE (thread_at anIndex u) (\<lambda>th.
              let (xlat, u) = new_translation em u;
                  xlat = xlat\<lparr>theVaddr := vaddr, thePSTATE := cs_PSTATE (theCPUState th), theType := eFetch,
                              thePaddr := translateVirtualAddress em (cpu u anIndex) vaddr\<rparr>
              in bindE (dbg_assert (thePaddr xlat \<noteq> 0)) (\<lambda>_.
                 Inr (thePaddr xlat, u\<lparr>theLastPhysical := thePaddr xlat, theLastVTagSet := tagset\<rparr>)))) (\<lambda>(paddr, u).
     if paddr = 0 then Inr (True, u)
     else
       bindE (uf_lookup paddr u) (\<lambda>(hit, u).
       if hit then
         bindE (thread_at anIndex u) (\<lambda>th.
         bindE (if theLastPrefetchVTagSet th = Some tagset then prefetchNext em anIndex u else Inr u) (\<lambda>u. Inr (True, u)))
       else bindE (icache_miss em anIndex vaddr tagset paddr u) (\<lambda>u. Inr (False, u)))))"

section \<open>Sending\<close>

definition with_core :: "uFetch \<Rightarrow> MemoryTransport \<Rightarrow> MemoryTransport" where
  "with_core u tr = tr\<lparr>mt_msg := (mt_msg tr)\<lparr>mm_coreIdx := int (flexusIndex u)\<rparr>\<rparr>"

fun send_misses :: "nat \<Rightarrow> uFetch \<Rightarrow> uFetch" where
  "send_misses 0 u = u"
| "send_misses (Suc n) u = (case theMissQueue u of
     [] \<Rightarrow> u
   | tr # q \<Rightarrow>
       if \<not> isEvictType (mt_msg tr) \<and> (mm_address (mt_msg tr) AND theBlockMask u) \<in> theEvictSet u then u
       else send_misses n (send (FetchMissOut (with_core u tr)) (u\<lparr>theMissQueue := q\<rparr>)))"

fun send_snoops :: "nat \<Rightarrow> uFetch \<Rightarrow> uFetch" where
  "send_snoops 0 u = u"
| "send_snoops (Suc n) u = (case theSnoopQueue u of
     [] \<Rightarrow> u
   | tr # q \<Rightarrow> send_snoops n (send (FetchSnoopOut (with_core u tr)) (u\<lparr>theSnoopQueue := q\<rparr>)))"

fun send_replies :: "nat \<Rightarrow> uFetch \<Rightarrow> uFetch" where
  "send_replies 0 u = u"
| "send_replies (Suc n) u = (case theReplyQueue u of
     [] \<Rightarrow> u
   | tr # q \<Rightarrow> send_replies n (send (FetchReplyOut (with_core u tr)) (u\<lparr>theReplyQueue := q\<rparr>)))"

record fetch_env =
  available_FIQ :: "int option"
  uf_quiescing :: bool
  iTranslationOut_available :: bool
  FetchMissOut_space :: nat
  FetchSnoopOut_space :: nat
  FetchReplyOut_space :: nat

definition sendMisses :: "fetch_env \<Rightarrow> uFetch \<Rightarrow> uFetch" where
  "sendMisses env u =
     (let u = send_misses (FetchMissOut_space env) u;
          u = send_snoops (FetchSnoopOut_space env) u
      in if cfg_UseReplyChannel (cfg u) then send_replies (FetchReplyOut_space env) u else u)"

definition queueSnoopMessage :: "MemoryTransport \<Rightarrow> MemoryMessageType \<Rightarrow> 64 word \<Rightarrow> bool \<Rightarrow> uFetch \<Rightarrow> uFetch" where
  "queueSnoopMessage aTransport aType anAddress aContainsData u =
     (let msg = (MemoryMessage_at aType anAddress)\<lparr>mm_reqSize := sint (ucast (cfg_ICacheLineSize (cfg u)) :: 32 word)\<rparr>;
          msg = (if aType = FetchAck then msg\<lparr>mm_ackRequiresData := aContainsData\<rparr> else msg);
          aTransport = aTransport\<lparr>mt_msg := msg\<rparr>
      in if cfg_UseReplyChannel (cfg u) then u\<lparr>theReplyQueue := theReplyQueue u @ [aTransport]\<rparr>
         else u\<lparr>theSnoopQueue := theSnoopQueue u @ [aTransport]\<rparr>)"

section \<open>Messages from the memory system\<close>

definition dest_to :: "DestinationType \<Rightarrow> MemoryTransport \<Rightarrow> MemoryTransport res" where
  "dest_to ty aTransport = (case mt_dest aTransport of None \<Rightarrow> Inl UndefinedBehaviour
     | Some d \<Rightarrow> Inr (aTransport\<lparr>mt_dest := Some (d\<lparr>dm_type := ty\<rparr>)\<rparr>))"

definition mark_peer :: "MemoryTransport \<Rightarrow> MemoryTransport res" where
  "mark_peer aTransport =
     bindE (dbg_assert (mt_dest aTransport \<noteq> None)) (\<lambda>_.
     case mt_tracker aTransport of None \<Rightarrow> Inl UndefinedBehaviour
     | Some t \<Rightarrow> Inr (aTransport\<lparr>mt_tracker := Some (t\<lparr>tt_FillLevel := Some ePeerL1Cache, tt_PreviousState := Some eShared\<rparr>)\<rparr>))"

definition fill_thread :: "64 word \<Rightarrow> 64 word \<Rightarrow> TransactionTracker option \<Rightarrow> FetchThread \<Rightarrow> FetchThread" where
  "fill_thread blockMask anAddress tracker th =
     (let th = (if theIcacheMiss th = Some anAddress then
                  th\<lparr>theIcacheMiss := None, theIcacheVMiss := None, theFetchReplyTransactionTracker := tracker,
                     theLastMiss := (case tracker of Some t \<Rightarrow> (case tt_FillLevel t of Some l \<Rightarrow> Some (anAddress AND blockMask, l)
                                                                | None \<Rightarrow> theLastMiss th)
                                     | None \<Rightarrow> theLastMiss th)\<rparr>
                else th)
      in if theIcachePrefetch th = Some anAddress then th\<lparr>theIcachePrefetch := None\<rparr> else th)"

definition reply_fill :: "MemoryTransport \<Rightarrow> uFetch \<Rightarrow> uFetch res" where
  "reply_fill aTransport u =
     (let reply = mt_msg aTransport in
      bindE (uf_insert (mm_address reply) u) (\<lambda>(replacement, u).
      bindE (issueEvict replacement u) (\<lambda>u.
      let u = u\<lparr>theThreads := map (fill_thread (theBlockMask u) (mm_address reply) (mt_tracker aTransport)) (theThreads u)\<rparr> in
      if cfg_SendAcks (cfg u) \<and> mm_ackRequired reply then
        bindE (dbg_assert (mt_dest aTransport \<noteq> None)) (\<lambda>_.
        bindE (dest_to Directory aTransport) (\<lambda>aTransport.
        Inr (if mm_type reply = FwdReplyOwned then queueSnoopMessage aTransport FetchAckDirty (mm_address reply) True u
             else queueSnoopMessage aTransport FetchAck (mm_address reply) (mm_ackRequiresData reply) u)))
      else Inr u)))"

definition reply_forward :: "MemoryTransport \<Rightarrow> bool \<Rightarrow> MemoryMessageType \<Rightarrow> uFetch \<Rightarrow> uFetch res" where
  "reply_forward aTransport have aType u =
     (let a = mm_address (mt_msg aTransport) in
      if have \<or> a \<in> theEvictSet u then
        bindE (dest_to Requester aTransport) (\<lambda>aTransport. Inr (queueSnoopMessage aTransport aType a False u))
      else bindE (dest_to Directory aTransport) (\<lambda>aTransport. Inr (queueSnoopMessage aTransport FwdNAck a False u)))"

definition fetchReply :: "MemoryTransport \<Rightarrow> uFetch \<Rightarrow> uFetch res" where
  "fetchReply aTransport u =
     (let reply = mt_msg aTransport; ty = mm_type reply; a = mm_address reply in
      if ty = FwdReply \<or> ty = FwdReplyOwned \<or> ty = MissReply \<or> ty = FetchReply \<or> ty = MissReplyWritable then reply_fill aTransport u
      else if ty = Invalidate then
        bindE (uf_inval a u) (\<lambda>(_, u).
        bindE (if mt_dest aTransport \<noteq> None then dest_to Requester aTransport else Inr aTransport) (\<lambda>aTransport.
        Inr (queueSnoopMessage aTransport InvalidateAck a False u)))
      else if ty = ReturnReq then Inr (queueSnoopMessage aTransport ReturnReply a False u)
      else if ty = Downgrade then Inr (queueSnoopMessage aTransport DowngradeAck a False u)
      else if ty = ReadFwd \<or> ty = FetchFwd then
        bindE (mark_peer aTransport) (\<lambda>aTransport.
        bindE (uf_lookup a u) (\<lambda>(hit, u). reply_forward aTransport hit FwdReply u))
      else if ty = WriteFwd then
        bindE (mark_peer aTransport) (\<lambda>aTransport.
        bindE (uf_inval a u) (\<lambda>(hit, u). reply_forward aTransport hit FwdReplyWritable u))
      else if ty = BackInvalidate then
        bindE (dest_to Directory aTransport) (\<lambda>aTransport.
        bindE (uf_inval a u) (\<lambda>(_, u). Inr (queueSnoopMessage aTransport InvalidateAck a False u)))
      else if ty = EvictAck then
        bindE (dbg_assert (a \<in> theEvictSet u)) (\<lambda>_. Inr (u\<lparr>theEvictSet := theEvictSet u - {a}\<rparr>))
      else Inl AssertionFailed)"

section \<open>Fetching\<close>

definition sendFetchRequest :: "emulator \<Rightarrow> fetch_env \<Rightarrow> nat \<Rightarrow> 64 word \<Rightarrow> uFetch \<Rightarrow> uFetch res" where
  "sendFetchRequest em env anIndex anAddress u =
     bindE (thread_at anIndex u) (\<lambda>th.
     let (xlat, u) = new_translation em u;
         xlat = setInstr (xlat\<lparr>theVaddr := anAddress, thePSTATE := cs_PSTATE (theCPUState th), theType := eFetch, theException := 0,
                               theIndex := anIndex\<rparr>);
         u = u\<lparr>TranslationsFromTLB := TranslationsFromTLB u @ [xlat]\<rparr>
     in bindE (dbg_assert (iTranslationOut_available env)) (\<lambda>_. Inr (send (iTranslationOut xlat) u)))"

definition fetch_one :: "emulator \<Rightarrow> fetch_env \<Rightarrow> nat \<Rightarrow> FetchAddr \<Rightarrow> uFetch \<Rightarrow> uFetch res" where
  "fetch_one em env anIndex fetch_addr u =
     bindE (sendFetchRequest em env anIndex (theAddress fetch_addr) u) (\<lambda>u.
     bindE (vec_at (theFAQ u) anIndex) (\<lambda>faq.
     bindE (thread_at anIndex u) (\<lambda>th.
     Inr (u\<lparr>theFAQ := (theFAQ u)[anIndex := tl faq],
            theBundle := (theBundle u)\<lparr>
              theOpcodes := theOpcodes (theBundle u) @ [\<lparr>fo_PC = theAddress fetch_addr, theOpcode = 0, fo_BPState = fa_BPState fetch_addr,
                                                         theTransaction = theFetchReplyTransactionTracker th\<rparr>],
              theFillLevels := theFillLevels (theBundle u) @ [eL1I]\<rparr>\<rparr>))))"

definition fetch_line :: "emulator \<Rightarrow> nat \<Rightarrow> 64 word \<Rightarrow> 64 word list \<Rightarrow> uFetch \<Rightarrow> (64 word list option \<times> uFetch) res" where
  "fetch_line em anIndex block_addr available_lines u =
     (if block_addr \<in> set available_lines then Inr (Some available_lines, u)
      else if length available_lines \<ge> cfg_MaxFetchLines (cfg u) then Inr (None, u)
      else
        let u = send InstructionFetchSeen u in
        bindE (if \<not> cfg_PerfectICache (cfg u) then icacheLookup em anIndex block_addr u else Inr (True, u)) (\<lambda>(hit, u).
        Inr (if hit then Some (block_addr # available_lines) else None, u)))"

fun fetch_loop :: "emulator \<Rightarrow> fetch_env \<Rightarrow> nat \<Rightarrow> nat \<Rightarrow> 64 word list \<Rightarrow> uFetch \<Rightarrow> uFetch res" where
  "fetch_loop em env anIndex 0 available_lines u = Inr u"
| "fetch_loop em env anIndex (Suc remaining_fetch) available_lines u =
     bindE (vec_at (theFAQ u) anIndex) (\<lambda>faq.
     if faq \<noteq> [] \<or> uf_quiescing env then
       bindE (front faq) (\<lambda>fetch_addr.
       bindE (fetch_line em anIndex (theAddress fetch_addr AND theBlockMask u) available_lines u) (\<lambda>(lines, u).
       case lines of
         None \<Rightarrow> Inr u
       | Some available_lines \<Rightarrow>
           bindE (fetch_one em env anIndex fetch_addr u) (fetch_loop em env anIndex remaining_fetch available_lines)))
     else Inr u)"

definition processBundle :: "uFetch \<Rightarrow> uFetch" where
  "processBundle u =
     (let ops = theOpcodes (theBundle u) in
      if ops = [] \<or> theOpcode (hd ops) = 0 then u
      else send (FetchBundleOut \<lparr>theOpcodes = takeWhile (\<lambda>i. theOpcode i \<noteq> 0) ops, theFillLevels = [], coreID = theBundleCoreID u\<rparr>)
             (u\<lparr>theBundle := (theBundle u)\<lparr>theOpcodes := dropWhile (\<lambda>i. theOpcode i \<noteq> 0) ops\<rparr>\<rparr>))"

definition doFetch :: "emulator \<Rightarrow> fetch_env \<Rightarrow> nat \<Rightarrow> uFetch \<Rightarrow> uFetch res" where
  "doFetch em env anIndex u =
     bindE (thread_at anIndex u) (\<lambda>th.
     if theIcacheMiss th \<noteq> None then Inr u
     else (case available_FIQ env of
         None \<Rightarrow> Inl AssertionFailed
       | Some available_fiq \<Rightarrow>
           bindE (vec_at (theFAQ u) anIndex) (\<lambda>faq.
           bindE (if length (theOpcodes (theBundle u)) < theMissQueueSize u \<and> available_fiq > 0 \<and> (faq \<noteq> [] \<or> uf_quiescing env) then
                    fetch_loop em env anIndex (nat (min (sint (cfg_MaxFetchInstructions (cfg u))) available_fiq)) [] u
                  else Inr u) (\<lambda>u.
           Inr (processBundle u)))))"

definition uf_drive :: "emulator \<Rightarrow> fetch_env \<Rightarrow> nat \<Rightarrow> uFetch \<Rightarrow> uFetch res" where
  "uf_drive em env scheduled u =
     (let u = send ClockTickSeen u; td = (if cfg_Threads (cfg u) > 1 then scheduled else 0) in
      bindE (doFetch em env td u) (\<lambda>u. Inr (sendMisses env u)))"

section \<open>Translations\<close>

definition getFetchResponse :: "emulator \<Rightarrow> uFetch \<Rightarrow> uFetch res" where
  "getFetchResponse em u =
     (if TranslationsFromTLB u = [] then Inl UndefinedBehaviour
      else
        let tr = last (TranslationsFromTLB u) in
        bindE (dbg_assert (theDone tr \<or> theTLBstatus tr = kTLBhit)) (\<lambda>_.
        let u = u\<lparr>TranslationsFromTLB := butlast (TranslationsFromTLB u)\<rparr>;
            magicTranslation = translateVirtualAddress em (cpu u (theIndex tr)) (theVaddr tr)
        in bindE (dbg_assert (thePaddr tr = magicTranslation \<or> thePageFault tr)) (\<lambda>_.
        let word = fetchInstruction em (cpu u (theIndex tr)) (theVaddr tr);
            opcode = (if thePageFault tr then 1 else word + (if word \<noteq> 0 then 0 else 1))
        in bindE (updateOpcode (theVaddr tr) opcode (theOpcodes (theBundle u))) (\<lambda>ops.
           Inr (u\<lparr>theBundle := (theBundle u)\<lparr>theOpcodes := ops\<rparr>\<rparr>)))))"

definition push_iTranslationIn :: "emulator \<Rightarrow> Translation \<Rightarrow> uFetch \<Rightarrow> uFetch res" where
  "push_iTranslationIn em tr u =
     (let ts = TranslationsFromTLB u; other = (\<lambda>t. theID t \<noteq> theID tr) in
      if \<exists>t \<in> set ts. theID t = theID tr then
        getFetchResponse em (u\<lparr>TranslationsFromTLB := takeWhile other ts @ tl (dropWhile other ts) @ [tr]\<rparr>)
      else Inr u)"

section \<open>The invariant\<close>

definition outstanding :: "64 word \<Rightarrow> uFetch \<Rightarrow> nat" where
  "outstanding v u = length (filter (\<lambda>t. theVaddr t = v) (TranslationsFromTLB u))"

definition unresolved :: "64 word \<Rightarrow> uFetch \<Rightarrow> nat" where
  "unresolved v u = length (filter (\<lambda>i. fo_PC i = v \<and> theOpcode i = 0) (theOpcodes (theBundle u)))"

text \<open>The part about the cache and the misses, and the part about the instructions in flight.\<close>

definition miss_ok :: "64 word \<Rightarrow> FetchThread \<Rightarrow> bool" where
  "miss_ok blockMask th \<longleftrightarrow> (\<forall>a. theIcacheMiss th = Some a \<longrightarrow> a AND blockMask = a \<and> a \<noteq> 0)"

definition side_ok :: "uFetch \<Rightarrow> bool" where
  "side_ok u \<longleftrightarrow> ic_ok (theI u) \<and> theCacheBlockShift (theI u) = theIndexShift u \<and> theBlockMask u = NOT (mask (nat (theIndexShift u))) \<and>
     theMissQueueSize u = cfg_MissQueueSize (cfg u) \<and> length (theThreads u) = cfg_Threads (cfg u) \<and> (\<forall>th \<in> set (theThreads u). miss_ok (theBlockMask u) th) \<and>
     (theLastPhysical u = 0 \<or> theLastPhysical u AND theBlockMask u \<noteq> 0)"

definition uf_ok :: "uFetch \<Rightarrow> bool" where
  "uf_ok u \<longleftrightarrow> side_ok u \<and> 0 < cfg_Threads (cfg u) \<and> length (theFAQ u) = cfg_Threads (cfg u) \<and>
     (\<forall>v. outstanding v u \<le> unresolved v u) \<and> (\<forall>a \<in> theEvictSet u. \<not> cached (theI u) a)"

text \<open>What the cache side of the unit leaves alone.\<close>

definition frame :: "uFetch \<Rightarrow> uFetch \<Rightarrow> bool" where
  "frame u u' \<longleftrightarrow> theFAQ u' = theFAQ u \<and> cfg u' = cfg u \<and> flexusIndex u' = flexusIndex u \<and> theBundle u' = theBundle u \<and>
     theEvictSet u' = theEvictSet u \<and> theIndexShift u' = theIndexShift u \<and> theBlockMask u' = theBlockMask u \<and>
     theMissQueueSize u' = theMissQueueSize u \<and> theBundleCoreID u' = theBundleCoreID u \<and> theSnoopQueue u' = theSnoopQueue u \<and>
     theReplyQueue u' = theReplyQueue u \<and> TranslationsFromTLB u' = TranslationsFromTLB u \<and> sent u' = sent u \<and>
     cached (theI u') = cached (theI u) \<and> ic_line (theI u') = ic_line (theI u)"

lemma frame_refl [simp]: "frame u u"
  by (simp add: frame_def)

lemma frame_trans: "frame u u1 \<Longrightarrow> frame u1 u2 \<Longrightarrow> frame u u2"
  by (simp add: frame_def)

lemma frame_updates [simp]:
  "frame u (u\<lparr>theThreads := ts\<rparr>)" "frame u (u\<lparr>translationID := n\<rparr>)" "frame u (u\<lparr>theMissQueue := q\<rparr>)"
  "frame u (u\<lparr>theLastPhysical := p, theLastVTagSet := t\<rparr>)"
  by (simp_all add: frame_def)

lemma uf_ok_frame:
  assumes "uf_ok u" "frame u u'" "side_ok u'"
  shows "uf_ok u'"
  using assms by (simp add: uf_ok_def frame_def outstanding_def unresolved_def)

lemma on_thread_ok:
  assumes "i < length (theThreads u)"
  shows "on_thread i f u = Inr (u\<lparr>theThreads := (theThreads u)[i := f (theThreads u ! i)]\<rparr>)"
  using assms by (simp add: on_thread_def thread_at_def)

lemma side_ok_thread:
  assumes "side_ok u" "miss_ok (theBlockMask u) th"
  shows "side_ok (u\<lparr>theThreads := (theThreads u)[i := th]\<rparr>)"
  using assms by (auto simp: side_ok_def dest!: set_update_subset_insert[THEN subsetD])

lemma side_ok_nth: "side_ok u \<Longrightarrow> i < length (theThreads u) \<Longrightarrow> miss_ok (theBlockMask u) (theThreads u ! i)"
  by (auto simp: side_ok_def)

lemma side_ok_simps [simp]:
  "side_ok (u\<lparr>translationID := n\<rparr>) = side_ok u" "side_ok (u\<lparr>theMissQueue := q\<rparr>) = side_ok u"
  "side_ok (u\<lparr>theBundle := b\<rparr>) = side_ok u" "side_ok (u\<lparr>sent := s\<rparr>) = side_ok u" "side_ok (u\<lparr>TranslationsFromTLB := ts\<rparr>) = side_ok u"
  "side_ok (u\<lparr>theFAQ := qs\<rparr>) = side_ok u" "side_ok (u\<lparr>theEvictSet := es\<rparr>) = side_ok u" "side_ok (u\<lparr>theSnoopQueue := q\<rparr>) = side_ok u"
  "side_ok (u\<lparr>theReplyQueue := q\<rparr>) = side_ok u" "side_ok (u\<lparr>theBundleCoreID := k\<rparr>) = side_ok u"
  by (simp_all add: side_ok_def)

lemma shift_ok_side: "side_ok u \<Longrightarrow> shift_ok u = Inr ()"
  by (auto simp: shift_ok_def side_ok_def ic_ok_def)

lemma new_translation_eq: "\<exists>x n. new_translation em u = (x, u\<lparr>translationID := n\<rparr>)"
  by (auto simp: new_translation_def Translation_new_def)

text \<open>The cache, through its contract.\<close>

lemma side_ok_cache:
  assumes "side_ok u" "ic_ok c" "ic_geometry c = ic_geometry (theI u)"
  shows "side_ok (u\<lparr>theI := c\<rparr>)"
  using assms by (auto simp: side_ok_def ic_geometry_def)

lemma uf_lookup_ok:
  assumes "side_ok u"
  shows "\<exists>c. uf_lookup a u = Inr (cached (theI u) a, u\<lparr>theI := c\<rparr>) \<and> side_ok (u\<lparr>theI := c\<rparr>) \<and> frame u (u\<lparr>theI := c\<rparr>)"
proof -
  from sim_cache.lookup_law[of "theI u" a] assms obtain c where c: "sc_lookup a (theI u) = Inr (cached (theI u) a, c)" "ic_ok c"
    "ic_geometry c = ic_geometry (theI u)" "cached c = cached (theI u)" by (auto simp: side_ok_def)
  then show ?thesis
    using side_ok_cache[OF assms c(2,3)] ic_geometryD(1)[OF c(3)] by (auto simp: uf_lookup_def frame_def)
qed

lemma uf_inval_ok:
  assumes "side_ok u"
  shows "\<exists>c. uf_inval a u = Inr (cached (theI u) a, u\<lparr>theI := c\<rparr>) \<and> side_ok (u\<lparr>theI := c\<rparr>) \<and>
    (\<forall>b. cached c b \<longleftrightarrow> cached (theI u) b \<and> ic_line (theI u) b \<noteq> ic_line (theI u) a)"
proof -
  from sim_cache.inval_law[of "theI u" a] assms obtain c where c: "sc_inval a (theI u) = Inr (cached (theI u) a, c)" "ic_ok c"
    "ic_geometry c = ic_geometry (theI u)" "\<forall>b. cached c b \<longleftrightarrow> cached (theI u) b \<and> ic_line (theI u) b \<noteq> ic_line (theI u) a"
    by (auto simp: side_ok_def)
  then show ?thesis using side_ok_cache[OF assms c(2,3)] by (auto simp: uf_inval_def)
qed

lemma uf_insert_ok:
  assumes "side_ok u"
  shows "\<exists>v c. uf_insert a u = Inr (v, u\<lparr>theI := c\<rparr>) \<and> side_ok (u\<lparr>theI := c\<rparr>) \<and> cached c a \<and>
    (\<forall>b. cached c b \<longrightarrow> cached (theI u) b \<or> ic_line (theI u) b = ic_line (theI u) a) \<and>
    (\<forall>b. cached (theI u) b \<longrightarrow> cached c b \<or> ic_line (theI u) b = ic_line (theI u) v) \<and>
    (v \<noteq> 0 \<longrightarrow> cached (theI u) v \<and> \<not> cached c v) \<and> ic_line c = ic_line (theI u)"
proof -
  have "ic_ok (theI u)" using assms by (simp add: side_ok_def)
  from sim_cache.fill[OF this, of a] obtain v c where c:
    "bindE (sc_lookup a (theI u)) (\<lambda>(hit, c). if hit then Inr (0, c) else sc_insert a c) = Inr (v, c)" "ic_ok c"
    "ic_geometry c = ic_geometry (theI u)" "cached c a" "\<forall>b. cached c b \<longrightarrow> cached (theI u) b \<or> ic_line (theI u) b = ic_line (theI u) a"
    "\<forall>b. cached (theI u) b \<longrightarrow> cached c b \<or> ic_line (theI u) b = ic_line (theI u) v"
    "v \<noteq> 0 \<longrightarrow> cached (theI u) v \<and> \<not> cached c v" by blast
  have "uf_insert a u = bindE (bindE (sc_lookup a (theI u)) (\<lambda>(hit, c). if hit then Inr (0, c) else sc_insert a c)) (\<lambda>(v, c). Inr (v, u\<lparr>theI := c\<rparr>))"
    by (auto simp: uf_insert_def uf_lookup_def bindE_assoc intro!: bindE_cong)
  then show ?thesis using c side_ok_cache[OF assms c(2,3)] ic_geometryD(1)[OF c(3)] by auto
qed

text \<open>Prefetching and lookups keep the invariant of the cache side and never touch an outstanding miss.\<close>

definition same_misses :: "uFetch \<Rightarrow> uFetch \<Rightarrow> bool" where
  "same_misses u u' \<longleftrightarrow> map theIcacheMiss (theThreads u') = map theIcacheMiss (theThreads u)"

lemma prefetchNext_ok:
  assumes ok: "side_ok u" and i: "i < length (theThreads u)"
  shows "\<exists>u'. prefetchNext em i u = Inr u' \<and> side_ok u' \<and> frame u u' \<and> same_misses u u' \<and> (\<exists>q. theMissQueue u' = theMissQueue u @ q)"
proof -
  let ?th = "theThreads u ! i"
  have m: "miss_ok (theBlockMask u) (?th\<lparr>theLastPrefetchVTagSet := x, theIcachePrefetch := y\<rparr>)" for x y
    using side_ok_nth[OF ok i] by (simp add: miss_ok_def)
  show ?thesis
  proof (cases "length (theMissQueue u) \<ge> theMissQueueSize u \<or> \<not> cfg_PrefetchEnabled (cfg u) \<or> theLastPrefetchVTagSet ?th = None")
    case True
    then show ?thesis using i ok by (auto simp: prefetchNext_def thread_at_def same_misses_def)
  next
    case False
    then obtain vt where vt: "theLastPrefetchVTagSet ?th = Some vt" by auto
    let ?u1 = "u\<lparr>theThreads := (theThreads u)[i := ?th\<lparr>theLastPrefetchVTagSet := Some (vt + 1)\<rparr>]\<rparr>"
    obtain x n where x: "new_translation em ?u1 = (x, ?u1\<lparr>translationID := n\<rparr>)" using new_translation_eq by blast
    let ?u2 = "?u1\<lparr>translationID := n\<rparr>"
    have ok2: "side_ok ?u2" using side_ok_thread[OF ok, of "?th\<lparr>theLastPrefetchVTagSet := Some (vt + 1)\<rparr>" i] side_ok_nth[OF ok i]
      by (simp add: miss_ok_def)
    define va where "va = push_bit (nat (theIndexShift u)) (vt + 1)"
    define p where "p = translateVirtualAddress em (cpu ?u2 i) va"
    have pre: "prefetchNext em i u = (if p = 0 then on_thread i (\<lambda>th. th\<lparr>theLastPrefetchVTagSet := None\<rparr>) ?u2
        else bindE (uf_lookup p ?u2) (\<lambda>(hit, w). if hit then on_thread i (\<lambda>th. th\<lparr>theLastPrefetchVTagSet := None\<rparr>) w
          else bindE (on_thread i (\<lambda>th. th\<lparr>theIcachePrefetch := Some p\<rparr>) w) (issueFetch p va)))"
      using False i vt shift_ok_side[OF ok2]
      by (simp add: prefetchNext_def thread_at_def on_thread_ok x shift_ok_def Let_def va_def p_def cong: if_cong)
    from uf_lookup_ok[OF ok2, of p] obtain c where c: "uf_lookup p ?u2 = Inr (cached (theI u) p, ?u2\<lparr>theI := c\<rparr>)"
      "side_ok (?u2\<lparr>theI := c\<rparr>)" "frame ?u2 (?u2\<lparr>theI := c\<rparr>)" by auto
    define T where "T a b = (theThreads u)[i := ?th\<lparr>theLastPrefetchVTagSet := a, theIcachePrefetch := b\<rparr>]" for a b
    have ot: "on_thread i (\<lambda>th. th\<lparr>theLastPrefetchVTagSet := None\<rparr>) w = Inr (w\<lparr>theThreads := T None (theIcachePrefetch ?th)\<rparr>)"
      "on_thread i (\<lambda>th. th\<lparr>theIcachePrefetch := b\<rparr>) w = Inr (w\<lparr>theThreads := T (Some (vt + 1)) b\<rparr>)"
      if "theThreads w = theThreads ?u1" for w b using that i by (simp_all add: on_thread_ok T_def)
    have side: "side_ok (w\<lparr>theThreads := T a b\<rparr>)"
      if "side_ok w" "theThreads w = theThreads ?u1" "theBlockMask w = theBlockMask u" for w a b
      using side_ok_thread[OF that(1), of _ i] m that(2,3) by (simp add: T_def)
    have sm: "same_misses u u'" if "theThreads u' = T a b" for u' a b
    proof -
      have "(map theIcacheMiss (theThreads u))[i := theIcacheMiss ?th] = map theIcacheMiss (theThreads u)"
        using i by (metis list_update_id nth_map)
      then show ?thesis by (simp add: same_misses_def that map_update T_def)
    qed
    show ?thesis
    proof (cases "p = 0 \<or> cached (theI u) p")
      case True
      define w where "w = (if p = 0 then ?u2 else ?u2\<lparr>theI := c\<rparr>)"
      have "prefetchNext em i u = Inr (w\<lparr>theThreads := T None (theIcachePrefetch ?th)\<rparr>)"
        using True c(1) ot(1) by (auto simp: pre w_def)
      moreover have "frame u w" "side_ok w" "theThreads w = theThreads ?u1" "theBlockMask w = theBlockMask u" "theMissQueue w = theMissQueue u"
        using c(2,3) ok2 by (auto simp: w_def frame_def)
      ultimately show ?thesis using side[of w] sm by (auto intro: frame_trans)
    next
      case False
      let ?w = "?u2\<lparr>theI := c\<rparr>"
      obtain q where "prefetchNext em i u = Inr (?w\<lparr>theThreads := T (Some (vt + 1)) (Some p), theMissQueue := theMissQueue u @ [q]\<rparr>)"
        using False c(1) ot(2)[of ?w "Some p"] by (auto simp: pre issueFetch_def)
      moreover have "frame u ?w" using c(3) by (auto simp: frame_def)
      then have "frame u (?w\<lparr>theThreads := T (Some (vt + 1)) (Some p), theMissQueue := q'\<rparr>)" for q' by (simp add: frame_def)
      moreover have "side_ok (?w\<lparr>theThreads := T (Some (vt + 1)) (Some p), theMissQueue := q'\<rparr>)" for q'
        using side[of ?w "Some (vt + 1)" "Some p"] c(2) by (simp only: side_ok_simps) simp
      ultimately show ?thesis using sm by (intro exI[of _ "?w\<lparr>theThreads := T (Some (vt + 1)) (Some p), theMissQueue := theMissQueue u @ [q]\<rparr>"]) simp
    qed
  qed
qed

text \<open>The physical address a lookup uses, and whether the line counts as present.\<close>

definition lookup_address :: "emulator \<Rightarrow> nat \<Rightarrow> 64 word \<Rightarrow> uFetch \<Rightarrow> 64 word" where
  "lookup_address em i vaddr u =
     (if drop_bit (nat (theIndexShift u)) vaddr = theLastVTagSet u then theLastPhysical u else translateVirtualAddress em (cpu u i) vaddr)"

definition line_hit :: "emulator \<Rightarrow> nat \<Rightarrow> 64 word \<Rightarrow> uFetch \<Rightarrow> bool" where
  "line_hit em i vaddr u \<longleftrightarrow> lookup_address em i vaddr u = 0 \<or> cached (theI u) (lookup_address em i vaddr u)"

definition fetches :: "64 word \<Rightarrow> MemoryTransport list \<Rightarrow> bool" where
  "fetches a q \<longleftrightarrow> (\<exists>t \<in> set q. mm_type (mt_msg t) = FetchReq \<and> mm_address (mt_msg t) = a)"

lemma issueFetch_queue:
  "a \<noteq> 0 \<Longrightarrow> \<exists>t. issueFetch a v u = Inr (u\<lparr>theMissQueue := theMissQueue u @ [t]\<rparr>) \<and> fetches a [t]"
  by (rule exI[of _ "fetch_transport a v u"])
    (simp add: issueFetch_def fetches_def fetch_transport_def newFetch_def MemoryMessage_at_def MemoryMessage_new_def)

lemma same_misses_nth: "same_misses u u' \<Longrightarrow> i < length (theThreads u) \<Longrightarrow> theIcacheMiss (theThreads u' ! i) = theIcacheMiss (theThreads u ! i)"
  unfolding same_misses_def by (metis length_map nth_map)

lemma icache_miss_ok:
  assumes ok: "side_ok u" and i: "i < length (theThreads u)" and m: "theIcacheMiss (theThreads u ! i) = None" and p: "p AND theBlockMask u \<noteq> 0"
  shows "\<exists>u'. icache_miss em i vaddr tagset p u = Inr u' \<and> side_ok u' \<and> frame u u' \<and>
    map theIcacheMiss (theThreads u') = (map theIcacheMiss (theThreads u))[i := Some (p AND theBlockMask u)] \<and>
    (\<exists>q. theMissQueue u' = theMissQueue u @ q \<and> (fetches (p AND theBlockMask u) q \<or> theIcachePrefetch (theThreads u ! i) = Some (p AND theBlockMask u)))"
proof -
  let ?th = "theThreads u ! i" and ?a = "p AND theBlockMask u"
  define f where "f th = th\<lparr>theIcacheMiss := Some ?a, theIcacheVMiss := Some vaddr, theFetchReplyTransactionTracker := None, theIcachePrefetch := None\<rparr>" for th :: FetchThread
  let ?u1 = "u\<lparr>theThreads := (theThreads u)[i := f ?th]\<rparr>"
  have ok1: "side_ok ?u1" by (rule side_ok_thread[OF ok]) (use p in \<open>simp add: miss_ok_def f_def and.assoc\<close>)
  have mi: "map theIcacheMiss (theThreads u') = (map theIcacheMiss (theThreads u))[i := Some ?a]" if "same_misses ?u1 u'" for u'
    using that by (simp add: same_misses_def map_update f_def)
  show ?thesis
  proof (cases "theIcachePrefetch ?th = Some ?a")
    case True
    have "icache_miss em i vaddr tagset p u = prefetchNext em i ?u1"
      using i m True by (simp add: icache_miss_def thread_at_def on_thread_ok Let_def f_def cong: if_cong)
    moreover from prefetchNext_ok[OF ok1, of i em] i obtain u' where "prefetchNext em i ?u1 = Inr u'" "side_ok u'" "frame ?u1 u'" "same_misses ?u1 u'"
      "\<exists>q. theMissQueue u' = theMissQueue u @ q" by auto
    ultimately show ?thesis using True mi by (auto intro: frame_trans[OF frame_updates(1)])
  next
    case False
    from issueFetch_queue[OF p, of vaddr ?u1] obtain t where t: "issueFetch ?a vaddr ?u1 = Inr (?u1\<lparr>theMissQueue := theMissQueue u @ [t]\<rparr>)" "fetches ?a [t]"
      by auto
    let ?u2 = "u\<lparr>theMissQueue := theMissQueue u @ [t], theThreads := (theThreads u)[i := (f ?th)\<lparr>theLastPrefetchVTagSet := Some tagset\<rparr>]\<rparr>"
    have "icache_miss em i vaddr tagset p u = prefetchNext em i ?u2"
      using i m False t(1) by (simp add: icache_miss_def thread_at_def on_thread_ok Let_def f_def cong: if_cong)
    moreover have ok2: "side_ok ?u2"
      by (rule side_ok_thread[of "u\<lparr>theMissQueue := theMissQueue u @ [t]\<rparr>" "(f ?th)\<lparr>theLastPrefetchVTagSet := Some tagset\<rparr>" i, simplified])
        (use ok p in \<open>simp_all add: miss_ok_def f_def and.assoc\<close>)
    from prefetchNext_ok[OF ok2, of i em] i obtain u' q where u': "prefetchNext em i ?u2 = Inr u'" "side_ok u'" "frame ?u2 u'" "same_misses ?u2 u'"
      "theMissQueue u' = theMissQueue u @ t # q" by auto
    moreover have "same_misses ?u1 u'" using u'(4) by (simp add: same_misses_def map_update f_def)
    moreover have "frame u ?u2" by (simp add: frame_def)
    moreover have "fetches ?a (t # q)" using t(2) by (simp add: fetches_def)
    ultimately show ?thesis using mi by (auto intro: frame_trans)
  qed
qed

lemma icacheLookup_ok:
  assumes ok: "side_ok u" and i: "i < length (theThreads u)" and m: "theIcacheMiss (theThreads u ! i) = None"
    and p: "translateVirtualAddress em (cpu u i) vaddr AND theBlockMask u \<noteq> 0"
  shows "\<exists>u'. icacheLookup em i vaddr u = Inr (line_hit em i vaddr u, u') \<and> side_ok u' \<and> frame u u' \<and>
    (\<exists>q. theMissQueue u' = theMissQueue u @ q \<and>
      (if line_hit em i vaddr u then same_misses u u'
       else let a = lookup_address em i vaddr u AND theBlockMask u in
         map theIcacheMiss (theThreads u') = (map theIcacheMiss (theThreads u))[i := Some a] \<and>
         (fetches a q \<or> theIcachePrefetch (theThreads u ! i) = Some a)))"
proof -
  let ?tag = "drop_bit (nat (theIndexShift u)) vaddr" and ?p = "lookup_address em i vaddr u"
  have p0: "translateVirtualAddress em (cpu u i) vaddr \<noteq> 0" using p by auto
  define w where "w = (if ?tag = theLastVTagSet u then u
     else (snd (new_translation em u))\<lparr>theLastPhysical := translateVirtualAddress em (cpu u i) vaddr, theLastVTagSet := ?tag\<rparr>)"
  obtain x n where x: "new_translation em u = (x, u\<lparr>translationID := n\<rparr>)" using new_translation_eq by blast
  have w: "side_ok w" "frame u w" "theThreads w = theThreads u" "theI w = theI u" "theMissQueue w = theMissQueue u" "theBlockMask w = theBlockMask u"
    using ok p by (auto simp: w_def x side_ok_def frame_def)
  have cp: "cpu (u\<lparr>translationID := n\<rparr>) i = cpu u i" by (simp add: cpu_def)
  have pre: "icacheLookup em i vaddr u = (if ?p = 0 then Inr (True, w) else bindE (uf_lookup ?p w) (\<lambda>(hit, w').
      if hit then bindE (thread_at i w') (\<lambda>th. bindE (if theLastPrefetchVTagSet th = Some ?tag then prefetchNext em i w' else Inr w') (\<lambda>u. Inr (True, u)))
      else bindE (icache_miss em i vaddr ?tag ?p w') (\<lambda>u. Inr (False, u))))"
    using p0 i by (simp add: icacheLookup_def shift_ok_side[OF ok] w_def x cp lookup_address_def thread_at_def Let_def cong: if_cong)
  show ?thesis
  proof (cases "?p = 0")
    case True
    then show ?thesis using pre w by (auto simp: line_hit_def same_misses_def)
  next
    case False
    have pb: "?p AND theBlockMask u \<noteq> 0" using False ok p by (auto simp: lookup_address_def side_ok_def)
    from uf_lookup_ok[OF w(1), of ?p] obtain c where c: "uf_lookup ?p w = Inr (cached (theI u) ?p, w\<lparr>theI := c\<rparr>)" "side_ok (w\<lparr>theI := c\<rparr>)"
      "frame w (w\<lparr>theI := c\<rparr>)" using w(4) by auto
    let ?w1 = "w\<lparr>theI := c\<rparr>"
    have f1: "frame u ?w1" using frame_trans[OF w(2) c(3)] .
    show ?thesis
    proof (cases "cached (theI u) ?p")
      case True
      let ?th = "theThreads u ! i"
      obtain u' q where u': "(if theLastPrefetchVTagSet ?th = Some ?tag then prefetchNext em i ?w1 else Inr ?w1) = Inr u'" "side_ok u'" "frame ?w1 u'"
        "same_misses ?w1 u'" "theMissQueue u' = theMissQueue ?w1 @ q"
      proof (cases "theLastPrefetchVTagSet ?th = Some ?tag")
        case True
        then show thesis using prefetchNext_ok[OF c(2), of i em] i w(3) that by auto
      next
        case False
        then show thesis using that[of ?w1 "[]"] c(2) by (simp add: same_misses_def)
      qed
      have "icacheLookup em i vaddr u = Inr (True, u')" using pre False True c(1) u'(1) i w(3) by (simp add: thread_at_def)
      then show ?thesis using u' frame_trans[OF f1 u'(3)] True w by (auto simp: line_hit_def same_misses_def)
    next
      case miss: False
      from icache_miss_ok[OF c(2), of i ?p em vaddr ?tag] i m pb w obtain u' where u': "icache_miss em i vaddr ?tag ?p ?w1 = Inr u'" "side_ok u'"
        "frame ?w1 u'" "map theIcacheMiss (theThreads u') = (map theIcacheMiss (theThreads u))[i := Some (?p AND theBlockMask u)]"
        "\<exists>q. theMissQueue u' = theMissQueue u @ q \<and> (fetches (?p AND theBlockMask u) q \<or> theIcachePrefetch (theThreads u ! i) = Some (?p AND theBlockMask u))"
        by auto
      have "icacheLookup em i vaddr u = Inr (False, u')" using pre False miss c(1) u'(1) by simp
      then show ?thesis using u' frame_trans[OF f1 u'(3)] miss False by (simp add: line_hit_def Let_def)
    qed
  qed
qed

section \<open>The fetch loop\<close>

text \<open>What the loop does: it moves the first \<open>n\<close> addresses of the queue of thread \<open>i\<close> to the end of the bundle, each with
  a request to the MMU, in order.\<close>

abbreviation bundles :: "fetch_out list \<Rightarrow> FetchBundle list" where
  "bundles os \<equiv> List.map_filter (\<lambda>x. case x of FetchBundleOut b \<Rightarrow> Some b | _ \<Rightarrow> None) os"

definition moved :: "nat \<Rightarrow> nat \<Rightarrow> uFetch \<Rightarrow> uFetch \<Rightarrow> bool" where
  "moved i n u u' \<longleftrightarrow> n \<le> length (theFAQ u ! i) \<and> theFAQ u' = (theFAQ u)[i := drop n (theFAQ u ! i)] \<and>
     cfg u' = cfg u \<and> flexusIndex u' = flexusIndex u \<and> theEvictSet u' = theEvictSet u \<and> theIndexShift u' = theIndexShift u \<and>
     theBlockMask u' = theBlockMask u \<and> theMissQueueSize u' = theMissQueueSize u \<and> theBundleCoreID u' = theBundleCoreID u \<and>
     theSnoopQueue u' = theSnoopQueue u \<and> theReplyQueue u' = theReplyQueue u \<and>
     cached (theI u') = cached (theI u) \<and> ic_line (theI u') = ic_line (theI u) \<and> bundles (sent u') = bundles (sent u) \<and>
     (\<exists>ops. theOpcodes (theBundle u') = theOpcodes (theBundle u) @ ops \<and>
        map (\<lambda>x. (fo_PC x, theOpcode x, fo_BPState x)) ops = map (\<lambda>f. (theAddress f, 0, fa_BPState f)) (take n (theFAQ u ! i))) \<and>
     (\<exists>ts. TranslationsFromTLB u' = TranslationsFromTLB u @ ts \<and>
        map (\<lambda>t. (theVaddr t, theIndex t)) ts = map (\<lambda>f. (theAddress f, i)) (take n (theFAQ u ! i))) \<and>
     (\<exists>q. theMissQueue u' = theMissQueue u @ q)"

lemma moved_0: "frame u u' \<Longrightarrow> theMissQueue u' = theMissQueue u @ q \<Longrightarrow> moved i 0 u u'"
  by (simp add: frame_def moved_def)

lemma moved_refl: "moved i 0 u u"
  by (rule moved_0[of _ _ "[]"]) simp_all

lemma moved_trans:
  assumes 1: "moved i n u u1" and 2: "moved i m u1 u2" and i: "i < length (theFAQ u)"
  shows "moved i (n + m) u u2"
proof -
  have q: "theFAQ u1 ! i = drop n (theFAQ u ! i)" and nl: "n \<le> length (theFAQ u ! i)" using 1 i by (auto simp: moved_def)
  have tk: "take (n + m) (theFAQ u ! i) = take n (theFAQ u ! i) @ take m (drop n (theFAQ u ! i))" by (rule take_add)
  from 1 obtain o1 t1 q1 where a: "theOpcodes (theBundle u1) = theOpcodes (theBundle u) @ o1"
      "map (\<lambda>x. (fo_PC x, theOpcode x, fo_BPState x)) o1 = map (\<lambda>f. (theAddress f, 0, fa_BPState f)) (take n (theFAQ u ! i))"
      "TranslationsFromTLB u1 = TranslationsFromTLB u @ t1" "map (\<lambda>t. (theVaddr t, theIndex t)) t1 = map (\<lambda>f. (theAddress f, i)) (take n (theFAQ u ! i))"
      "theMissQueue u1 = theMissQueue u @ q1"
    unfolding moved_def by blast
  from 2 obtain o2 t2 q2 where b: "theOpcodes (theBundle u2) = theOpcodes (theBundle u1) @ o2"
      "map (\<lambda>x. (fo_PC x, theOpcode x, fo_BPState x)) o2 = map (\<lambda>f. (theAddress f, 0, fa_BPState f)) (take m (theFAQ u1 ! i))"
      "TranslationsFromTLB u2 = TranslationsFromTLB u1 @ t2" "map (\<lambda>t. (theVaddr t, theIndex t)) t2 = map (\<lambda>f. (theAddress f, i)) (take m (theFAQ u1 ! i))"
      "theMissQueue u2 = theMissQueue u1 @ q2"
    unfolding moved_def by blast
  have "\<exists>ops. theOpcodes (theBundle u2) = theOpcodes (theBundle u) @ ops \<and>
      map (\<lambda>x. (fo_PC x, theOpcode x, fo_BPState x)) ops = map (\<lambda>f. (theAddress f, 0, fa_BPState f)) (take (n + m) (theFAQ u ! i))"
    by (rule exI[of _ "o1 @ o2"]) (simp add: a(1,2) b(1,2) tk q)
  moreover have "\<exists>ts. TranslationsFromTLB u2 = TranslationsFromTLB u @ ts \<and>
      map (\<lambda>t. (theVaddr t, theIndex t)) ts = map (\<lambda>f. (theAddress f, i)) (take (n + m) (theFAQ u ! i))"
    by (rule exI[of _ "t1 @ t2"]) (simp add: a(3,4) b(3,4) tk q)
  moreover have "m \<le> length (theFAQ u ! i) - n" using 2 unfolding moved_def q by simp
  then have "n + m \<le> length (theFAQ u ! i)" using nl by simp
  ultimately show ?thesis using 1 2 q a(5) b(5) by (simp add: moved_def add.commute)
qed

lemma count_map: "length (filter (\<lambda>x. P (f x)) xs) = length (filter P (map f xs))"
  by (simp add: filter_map comp_def)

lemma moved_ok:
  assumes ok: "uf_ok u" and m: "moved i n u u'" and s: "side_ok u'"
  shows "uf_ok u'"
proof -
  let ?fs = "take n (theFAQ u ! i)"
  from m obtain ops ts where o: "theOpcodes (theBundle u') = theOpcodes (theBundle u) @ ops"
      "map (\<lambda>x. (fo_PC x, theOpcode x, fo_BPState x)) ops = map (\<lambda>f. (theAddress f, 0, fa_BPState f)) ?fs"
    and t: "TranslationsFromTLB u' = TranslationsFromTLB u @ ts" "map (\<lambda>t. (theVaddr t, theIndex t)) ts = map (\<lambda>f. (theAddress f, i)) ?fs"
    unfolding moved_def by blast
  have "outstanding v u' \<le> unresolved v u'" for v
  proof -
    have "length (filter (\<lambda>t. theVaddr t = v) ts) = length (filter (\<lambda>f. theAddress f = v) ?fs)"
      using count_map[of "\<lambda>p. fst p = v" "\<lambda>t. (theVaddr t, theIndex t)" ts] count_map[of "\<lambda>p. fst p = v" "\<lambda>f. (theAddress f, i)" ?fs] t(2) by simp
    moreover have "length (filter (\<lambda>x. fo_PC x = v \<and> theOpcode x = 0) ops) = length (filter (\<lambda>f. theAddress f = v) ?fs)"
      using count_map[of "\<lambda>p. fst p = v \<and> fst (snd p) = 0" "\<lambda>x. (fo_PC x, theOpcode x, fo_BPState x)" ops]
        count_map[of "\<lambda>p. fst p = v \<and> fst (snd p) = (0 :: 32 word)" "\<lambda>f. (theAddress f, 0, fa_BPState f)" ?fs] o(2) by simp
    moreover have "outstanding v u \<le> unresolved v u" using ok by (simp add: uf_ok_def)
    ultimately show ?thesis by (simp add: outstanding_def unresolved_def o(1) t(1))
  qed
  then show ?thesis using ok m s by (simp add: uf_ok_def moved_def)
qed

lemma fetch_one_ok:
  assumes ok: "side_ok u" and i: "i < length (theThreads u)" "i < length (theFAQ u)" and q: "theFAQ u ! i = fa # fs"
    and av: "iTranslationOut_available env"
  shows "\<exists>u'. fetch_one em env i fa u = Inr u' \<and> side_ok u' \<and> moved i 1 u u' \<and> theThreads u' = theThreads u"
proof -
  obtain x n where x: "new_translation em u = (x, u\<lparr>translationID := n\<rparr>)" using new_translation_eq by blast
  show ?thesis
    using assms by (auto simp: fetch_one_def sendFetchRequest_def thread_at_def x Let_def send_def moved_def setInstr_def List.map_filter_def)
qed

lemma fetch_line_ok:
  assumes ok: "side_ok u" and i: "i < length (theThreads u)" and m: "theIcacheMiss (theThreads u ! i) = None"
    and p: "translateVirtualAddress em (cpu u i) b AND theBlockMask u \<noteq> 0"
  shows "\<exists>r u'. fetch_line em i b ls u = Inr (r, u') \<and> side_ok u' \<and> moved i 0 u u' \<and> (r \<noteq> None \<longrightarrow> same_misses u u')"
proof -
  let ?u1 = "send InstructionFetchSeen u"
  have 1: "side_ok ?u1" "moved i 0 u ?u1" "same_misses u ?u1" "theThreads ?u1 = theThreads u" "theBlockMask ?u1 = theBlockMask u" "cpu ?u1 i = cpu u i"
    using ok by (auto simp: send_def moved_def same_misses_def cpu_def List.map_filter_def)
  from icacheLookup_ok[OF 1(1), of i em b] i m p 1(4-6) obtain u' q where u': "icacheLookup em i b ?u1 = Inr (line_hit em i b ?u1, u')" "side_ok u'" "frame ?u1 u'"
    "theMissQueue u' = theMissQueue ?u1 @ q" "line_hit em i b ?u1 \<Longrightarrow> same_misses ?u1 u'" by (auto split: if_splits)
  have "moved i 0 ?u1 u'" using moved_0[OF u'(3,4)] .
  then have "moved i 0 u u'" using 1(2) by (auto simp: moved_def)
  moreover have "same_misses u u'" if "line_hit em i b ?u1" using u'(5)[OF that] 1(4) by (simp add: same_misses_def)
  ultimately show ?thesis using 1 u' ok moved_refl[of i u]
    by (cases "cfg_PerfectICache (cfg u)") (auto simp: fetch_line_def Let_def send_def same_misses_def)
qed

definition translated :: "emulator \<Rightarrow> nat \<Rightarrow> uFetch \<Rightarrow> bool" where
  "translated em i u \<longleftrightarrow> (\<forall>f \<in> set (theFAQ u ! i).
     translateVirtualAddress em (cpu u i) (theAddress f AND theBlockMask u) AND theBlockMask u \<noteq> 0)"

lemma moved_translated: "moved i n u u' \<Longrightarrow> i < length (theFAQ u) \<Longrightarrow> translated em i u \<Longrightarrow> translated em i u'"
  by (auto simp: moved_def translated_def cpu_def dest: in_set_dropD)

lemma moved_index: "moved i n u u' \<Longrightarrow> length (theFAQ u') = length (theFAQ u)"
  by (simp add: moved_def)

lemma fetch_loop_ok:
  assumes "side_ok u" "i < length (theThreads u)" "i < length (theFAQ u)" "theIcacheMiss (theThreads u ! i) = None"
    "iTranslationOut_available env" "uf_quiescing env \<longrightarrow> k \<le> length (theFAQ u ! i)" "translated em i u"
  shows "\<exists>n u'. fetch_loop em env i k ls u = Inr u' \<and> side_ok u' \<and> moved i n u u' \<and> n \<le> k"
  using assms
proof (induction k arbitrary: u ls)
  case 0
  then show ?case using moved_refl by auto
next
  case (Suc k)
  note i = Suc.prems(2,3)
  show ?case
  proof (cases "theFAQ u ! i")
    case Nil
    then show ?thesis using Suc.prems moved_refl[of i u] by (intro exI[of _ 0] exI[of _ u]) simp
  next
    case (Cons fa fs)
    let ?b = "theAddress fa AND theBlockMask u"
    have "translateVirtualAddress em (cpu u i) ?b AND theBlockMask u \<noteq> 0" using Suc.prems(7) Cons by (simp add: translated_def)
    from fetch_line_ok[OF Suc.prems(1,2,4) this, of ls] obtain r u1 where r: "fetch_line em i ?b ls u = Inr (r, u1)" "side_ok u1" "moved i 0 u u1"
      "r \<noteq> None \<longrightarrow> same_misses u u1" by blast
    have q1: "theFAQ u1 ! i = fa # fs" "length (theFAQ u1) = length (theFAQ u)" "length (theThreads u1) = length (theThreads u)"
      using r(2,3) i Cons Suc.prems(1) by (auto simp: moved_def side_ok_def)
    show ?thesis
    proof (cases r)
      case None
      then show ?thesis using r Cons i by (intro exI[of _ 0] exI[of _ u1]) simp
    next
      case (Some ls')
      from fetch_one_ok[OF r(2) _ _ q1(1) Suc.prems(5)] i q1 obtain u2 where u2: "fetch_one em env i fa u1 = Inr u2" "side_ok u2" "moved i 1 u1 u2"
        "theThreads u2 = theThreads u1" by auto
      have m2: "moved i 1 u u2" using moved_trans[OF r(3) u2(3)] i by simp
      have mi: "theIcacheMiss (theThreads u2 ! i) = None" using same_misses_nth[of u u1 i] r(4) Some i Suc.prems(4) u2(4) by simp
      have "uf_quiescing env \<longrightarrow> k \<le> length (theFAQ u2 ! i)" using m2 i Suc.prems(6) Cons by (auto simp: moved_def)
      from Suc.IH[OF u2(2) _ _ mi Suc.prems(5) this moved_translated[OF m2 i(2) Suc.prems(7)], of ls'] i q1 u2(4) moved_index[OF m2]
      obtain n u' where u': "fetch_loop em env i k ls' u2 = Inr u'" "side_ok u'" "moved i n u2 u'" "n \<le> k" by auto
      have "moved i (1 + n) u u'" using moved_trans[OF m2 u'(3)] i by simp
      moreover have "fetch_loop em env i (Suc k) ls u = Inr u'" using Cons i r(1) Some u2(1) u'(1) by simp
      ultimately show ?thesis using u' by (intro exI[of _ "1 + n"] exI[of _ u']) simp
    qed
  qed
qed

text \<open>Passing on the instructions that are resolved.\<close>

lemma processBundle_ok:
  assumes "uf_ok u"
  shows "uf_ok (processBundle u)"
    "concat (map theOpcodes (bundles (sent (processBundle u)))) @ theOpcodes (theBundle (processBundle u)) =
     concat (map theOpcodes (bundles (sent u))) @ theOpcodes (theBundle u)"
proof -
  let ?ops = "theOpcodes (theBundle u)" and ?P = "\<lambda>i. theOpcode i \<noteq> 0"
  have "filter (\<lambda>i. fo_PC i = v \<and> theOpcode i = 0) ?ops =
      filter (\<lambda>i. fo_PC i = v \<and> theOpcode i = 0) (takeWhile ?P ?ops) @ filter (\<lambda>i. fo_PC i = v \<and> theOpcode i = 0) (dropWhile ?P ?ops)" for v
    by (simp flip: filter_append)
  moreover have "filter (\<lambda>i. fo_PC i = v \<and> theOpcode i = 0) (takeWhile ?P ?ops) = []" for v
    by (auto simp: filter_empty_conv dest: set_takeWhileD)
  ultimately have "unresolved v (u\<lparr>theBundle := (theBundle u)\<lparr>theOpcodes := dropWhile ?P ?ops\<rparr>\<rparr>) = unresolved v u" for v
    by (simp add: unresolved_def)
  then show "uf_ok (processBundle u)"
    using assms by (simp add: processBundle_def Let_def send_def uf_ok_def outstanding_def unresolved_def)
  show "concat (map theOpcodes (bundles (sent (processBundle u)))) @ theOpcodes (theBundle (processBundle u)) =
     concat (map theOpcodes (bundles (sent u))) @ ?ops"
    by (simp add: processBundle_def Let_def send_def List.map_filter_def)
qed

text \<open>While the simulation is quiescing the fetch loop runs on with an empty queue. This does no harm when the loop is not
  reached, because the thread waits for a miss or the bundle is full, or when the queue holds enough addresses for the cycle.\<close>

definition fetch_limit :: "fetch_env \<Rightarrow> uFetch \<Rightarrow> nat" where
  "fetch_limit env u = (case available_FIQ env of None \<Rightarrow> 0 | Some available_fiq \<Rightarrow> nat (min (sint (cfg_MaxFetchInstructions (cfg u))) available_fiq))"

definition quiesce_ok :: "fetch_env \<Rightarrow> nat \<Rightarrow> uFetch \<Rightarrow> bool" where
  "quiesce_ok env i u \<longleftrightarrow> theIcacheMiss (theThreads u ! i) \<noteq> None \<or> theMissQueueSize u \<le> length (theOpcodes (theBundle u)) \<or>
     fetch_limit env u \<le> length (theFAQ u ! i)"

definition drive_ok :: "emulator \<Rightarrow> fetch_env \<Rightarrow> nat \<Rightarrow> uFetch \<Rightarrow> bool" where
  "drive_ok em env i u \<longleftrightarrow> i < cfg_Threads (cfg u) \<and> available_FIQ env \<noteq> None \<and> iTranslationOut_available env \<and> translated em i u \<and>
     (uf_quiescing env \<longrightarrow> quiesce_ok env i u)"

text \<open>Otherwise the loop can take the front of an empty queue: this is what a quiescing cycle does to an idle thread.\<close>

lemma quiescing_front:
  assumes "i < length (theThreads u)" "i < length (theFAQ u)" "theFAQ u ! i = []" "uf_quiescing env" "available_FIQ env \<noteq> None" "\<not> quiesce_ok env i u"
  shows "doFetch em env i u = Inl OutOfBounds"
proof -
  from assms(5) obtain k where k: "available_FIQ env = Some k" by blast
  have l: "fetch_limit env u = Suc (fetch_limit env u - 1)" "length (theOpcodes (theBundle u)) < theMissQueueSize u" "theIcacheMiss (theThreads u ! i) = None"
    using assms(6) by (auto simp: quiesce_ok_def assms(3))
  then have "k > 0" by (simp add: fetch_limit_def k)
  moreover have "fetch_loop em env i (fetch_limit env u) [] u = Inl OutOfBounds" using assms by (subst l(1)) (simp add: front_def)
  ultimately show ?thesis using l(2,3) assms k by (simp add: doFetch_def thread_at_def fetch_limit_def)
qed

lemma doFetch_ok:
  assumes ok: "uf_ok u" and d: "drive_ok em env i u"
  shows "\<exists>n u1. doFetch em env i u = Inr (if theIcacheMiss (theThreads u ! i) = None then processBundle u1 else u) \<and> uf_ok u1 \<and> moved i n u u1 \<and>
    (n \<noteq> 0 \<longrightarrow> length (theOpcodes (theBundle u)) < theMissQueueSize u)"
proof -
  have s: "side_ok u" "i < length (theThreads u)" "i < length (theFAQ u)" using ok d by (auto simp: uf_ok_def side_ok_def drive_ok_def)
  from d obtain k where k: "available_FIQ env = Some k" by (auto simp: drive_ok_def)
  show ?thesis
  proof (cases "theIcacheMiss (theThreads u ! i) = None \<and> length (theOpcodes (theBundle u)) < theMissQueueSize u \<and> k > 0 \<and> (theFAQ u ! i \<noteq> [] \<or> uf_quiescing env)")
    case True
    then have "uf_quiescing env \<longrightarrow> fetch_limit env u \<le> length (theFAQ u ! i)" using d by (auto simp: drive_ok_def quiesce_ok_def)
    from fetch_loop_ok[OF s _ _ this, of em "[]"] True d obtain n u1 where
      u1: "fetch_loop em env i (fetch_limit env u) [] u = Inr u1" "side_ok u1" "moved i n u u1"
      by (auto simp: drive_ok_def)
    then show ?thesis using moved_ok[OF ok u1(3,2)] True s k by (auto simp: doFetch_def thread_at_def fetch_limit_def)
  next
    case False
    then show ?thesis using ok s k d moved_refl[of i u]
      by (intro exI[of _ 0] exI[of _ u]) (auto simp: doFetch_def thread_at_def drive_ok_def)
  qed
qed

text \<open>Sending: the messages leave from the front of their queue, up to the space of the channel; a fetch of a block
  whose eviction is not acknowledged blocks the requests behind it.\<close>

definition blocked :: "uFetch \<Rightarrow> MemoryTransport \<Rightarrow> bool" where
  "blocked u t \<longleftrightarrow> \<not> isEvictType (mt_msg t) \<and> (mm_address (mt_msg t) AND theBlockMask u) \<in> theEvictSet u"

lemma send_misses_takeWhile:
  "send_misses n u = (let q = take n (takeWhile (\<lambda>t. \<not> blocked u t) (theMissQueue u)) in
     u\<lparr>theMissQueue := drop (length q) (theMissQueue u), sent := sent u @ map (\<lambda>t. FetchMissOut (with_core u t)) q\<rparr>)"
proof (induction n u rule: send_misses.induct)
  case (2 n u)
  show ?case
  proof (cases "theMissQueue u")
    case (Cons t q)
    let ?u1 = "send (FetchMissOut (with_core u t)) (u\<lparr>theMissQueue := q\<rparr>)"
    have b: "blocked ?u1 = blocked u" "with_core ?u1 = with_core u" by (simp_all add: blocked_def with_core_def send_def fun_eq_iff)
    show ?thesis
    proof (cases "blocked u t")
      case True
      then show ?thesis using Cons by (simp add: blocked_def)
    next
      case False
      then have "send_misses (Suc n) u = send_misses n ?u1" using Cons by (auto simp: blocked_def)
      also have "\<dots> = (let q' = take n (takeWhile (\<lambda>t. \<not> blocked u t) q) in
         ?u1\<lparr>theMissQueue := drop (length q') q, sent := sent ?u1 @ map (\<lambda>t. FetchMissOut (with_core u t)) q'\<rparr>)"
        using 2[OF Cons, of] False b by (simp add: blocked_def send_def)
      finally show ?thesis using Cons False by (simp add: Let_def send_def)
    qed
  qed simp
qed simp

lemma send_snoops_take:
  "send_snoops n u = u\<lparr>theSnoopQueue := drop n (theSnoopQueue u), sent := sent u @ map (\<lambda>t. FetchSnoopOut (with_core u t)) (take n (theSnoopQueue u))\<rparr>"
  by (induction n u rule: send_snoops.induct) (auto simp: send_def with_core_def split: list.split)

lemma send_replies_take:
  "send_replies n u = u\<lparr>theReplyQueue := drop n (theReplyQueue u), sent := sent u @ map (\<lambda>t. FetchReplyOut (with_core u t)) (take n (theReplyQueue u))\<rparr>"
  by (induction n u rule: send_replies.induct) (auto simp: send_def with_core_def split: list.split)

lemma sendMisses_frame:
  "uf_ok (sendMisses env u) = uf_ok u" "bundles (sent (sendMisses env u)) = bundles (sent u)" "theBundle (sendMisses env u) = theBundle u"
  "theFAQ (sendMisses env u) = theFAQ u" "TranslationsFromTLB (sendMisses env u) = TranslationsFromTLB u" "cfg (sendMisses env u) = cfg u"
  "theThreads (sendMisses env u) = theThreads u" "theI (sendMisses env u) = theI u" "theEvictSet (sendMisses env u) = theEvictSet u"
  "flexusIndex (sendMisses env u) = flexusIndex u" "theMissQueueSize (sendMisses env u) = theMissQueueSize u"
  by (simp_all add: sendMisses_def Let_def send_misses_takeWhile send_snoops_take send_replies_take uf_ok_def side_ok_def outstanding_def unresolved_def
      List.map_filter_def filter_map comp_def)

section \<open>Translations and messages\<close>

abbreviation zeros :: "64 word \<Rightarrow> FetchedOpcode list \<Rightarrow> nat" where
  "zeros v ops \<equiv> length (filter (\<lambda>i. fo_PC i = v \<and> theOpcode i = 0) ops)"

lemma updateOpcode_ok:
  "v \<in> fo_PC ` set ops \<Longrightarrow> \<exists>pre x post. ops = pre @ x # post \<and> fo_PC x = v \<and> v \<notin> fo_PC ` set pre \<and>
     updateOpcode v w ops = Inr (pre @ x\<lparr>theOpcode := w\<rparr> # post)"
proof (induction ops)
  case (Cons y ops)
  show ?case
  proof (cases "fo_PC y = v")
    case True
    then show ?thesis by (intro exI[of _ "[]"] exI[of _ y] exI[of _ ops]) simp
  next
    case False
    then obtain pre x post where "ops = pre @ x # post" "fo_PC x = v" "v \<notin> fo_PC ` set pre" "updateOpcode v w ops = Inr (pre @ x\<lparr>theOpcode := w\<rparr> # post)"
      using Cons by auto
    then show ?thesis using False by (intro exI[of _ "y # pre"] exI[of _ x] exI[of _ post]) simp
  qed
qed simp

definition opcode_of :: "emulator \<Rightarrow> uFetch \<Rightarrow> Translation \<Rightarrow> 32 word" where
  "opcode_of em u tr = (if thePageFault tr then 1
     else let w = fetchInstruction em (cpu u (theIndex tr)) (theVaddr tr) in if w \<noteq> 0 then w else 1)"

definition answer_ok :: "emulator \<Rightarrow> Translation \<Rightarrow> uFetch \<Rightarrow> bool" where
  "answer_ok em tr u \<longleftrightarrow> (\<forall>t \<in> set (TranslationsFromTLB u). theID t = theID tr \<longrightarrow> theVaddr t = theVaddr tr \<and> theIndex t = theIndex tr) \<and>
     (theDone tr \<or> theTLBstatus tr = kTLBhit) \<and>
     (thePaddr tr = translateVirtualAddress em (cpu u (theIndex tr)) (theVaddr tr) \<or> thePageFault tr)"

lemma first_match:
  assumes "t \<in> set ts" "theID t = k"
  shows "\<exists>pre x post. ts = pre @ x # post \<and> theID x = k \<and>
    takeWhile (\<lambda>t. theID t \<noteq> k) ts = pre \<and> tl (dropWhile (\<lambda>t. theID t \<noteq> k) ts) = post"
proof -
  let ?P = "\<lambda>t. theID t \<noteq> k"
  have "dropWhile ?P ts \<noteq> []" using assms by auto
  then obtain x post where d: "dropWhile ?P ts = x # post" by (cases "dropWhile ?P ts") auto
  then have "\<not> ?P x" using hd_dropWhile[of ?P ts] by simp
  then show ?thesis using d takeWhile_dropWhile_id[of ?P ts] by (intro exI[of _ "takeWhile ?P ts"] exI[of _ x] exI[of _ post]) simp
qed

lemma push_iTranslationIn_ok:
  assumes ok: "uf_ok u" and a: "answer_ok em tr u" and t: "t \<in> set (TranslationsFromTLB u)" "theID t = theID tr"
  shows "\<exists>pre x post tpre y tpost. theOpcodes (theBundle u) = pre @ x # post \<and> fo_PC x = theVaddr tr \<and> theVaddr tr \<notin> fo_PC ` set pre \<and>
    TranslationsFromTLB u = tpre @ y # tpost \<and> theID y = theID tr \<and> theVaddr y = theVaddr tr \<and>
    push_iTranslationIn em tr u = Inr (u\<lparr>TranslationsFromTLB := tpre @ tpost,
      theBundle := (theBundle u)\<lparr>theOpcodes := pre @ x\<lparr>theOpcode := opcode_of em u tr\<rparr> # post\<rparr>\<rparr>)"
proof -
  from first_match[OF t] obtain tpre y tpost where y: "TranslationsFromTLB u = tpre @ y # tpost" "theID y = theID tr"
    "takeWhile (\<lambda>t. theID t \<noteq> theID tr) (TranslationsFromTLB u) = tpre" "tl (dropWhile (\<lambda>t. theID t \<noteq> theID tr) (TranslationsFromTLB u)) = tpost" by blast
  have v: "theVaddr y = theVaddr tr" using a y(1,2) by (simp add: answer_ok_def)
  then have "outstanding (theVaddr tr) u \<noteq> 0" by (simp add: outstanding_def y(1))
  moreover have "outstanding (theVaddr tr) u \<le> unresolved (theVaddr tr) u" using ok by (simp add: uf_ok_def)
  ultimately have "zeros (theVaddr tr) (theOpcodes (theBundle u)) \<noteq> 0" unfolding unresolved_def by linarith
  then have "theVaddr tr \<in> fo_PC ` set (theOpcodes (theBundle u))" by (auto simp: filter_empty_conv intro: rev_image_eqI)
  from updateOpcode_ok[OF this, of "opcode_of em u tr"] obtain pre x post where x: "theOpcodes (theBundle u) = pre @ x # post" "fo_PC x = theVaddr tr"
    "theVaddr tr \<notin> fo_PC ` set pre" "updateOpcode (theVaddr tr) (opcode_of em u tr) (theOpcodes (theBundle u)) = Inr (pre @ x\<lparr>theOpcode := opcode_of em u tr\<rparr> # post)"
    by blast
  have cp: "cpu (u\<lparr>TranslationsFromTLB := ts\<rparr>) k = cpu u k" for ts k by (simp add: cpu_def)
  have "push_iTranslationIn em tr u = getFetchResponse em (u\<lparr>TranslationsFromTLB := (tpre @ tpost) @ [tr]\<rparr>)"
    unfolding push_iTranslationIn_def Let_def y(3,4) using t by auto
  also have "\<dots> = bindE (updateOpcode (theVaddr tr) (opcode_of em u tr) (theOpcodes (theBundle u))) (\<lambda>ops.
      Inr (u\<lparr>TranslationsFromTLB := tpre @ tpost, theBundle := (theBundle u)\<lparr>theOpcodes := ops\<rparr>\<rparr>))"
    using a unfolding getFetchResponse_def answer_ok_def opcode_of_def
    by (simp add: Let_def cp butlast_append)
  also have "\<dots> = Inr (u\<lparr>TranslationsFromTLB := tpre @ tpost,
      theBundle := (theBundle u)\<lparr>theOpcodes := pre @ x\<lparr>theOpcode := opcode_of em u tr\<rparr> # post\<rparr>\<rparr>)" unfolding x(4) by simp
  finally show ?thesis using x(1-3) y(1,2) v by blast
qed

lemma push_iTranslationIn_uf_ok:
  assumes ok: "uf_ok u" and a: "answer_ok em tr u"
  shows "\<exists>u'. push_iTranslationIn em tr u = Inr u' \<and> uf_ok u'"
proof (cases "\<exists>t \<in> set (TranslationsFromTLB u). theID t = theID tr")
  case False
  then show ?thesis using ok by (auto simp: push_iTranslationIn_def Let_def)
next
  case True
  then obtain t where t: "t \<in> set (TranslationsFromTLB u)" "theID t = theID tr" by blast
  from push_iTranslationIn_ok[OF ok a t] obtain pre x post tpre y tpost where r: "theOpcodes (theBundle u) = pre @ x # post" "fo_PC x = theVaddr tr"
    "TranslationsFromTLB u = tpre @ y # tpost" "theVaddr y = theVaddr tr"
    "push_iTranslationIn em tr u = Inr (u\<lparr>TranslationsFromTLB := tpre @ tpost,
      theBundle := (theBundle u)\<lparr>theOpcodes := pre @ x\<lparr>theOpcode := opcode_of em u tr\<rparr> # post\<rparr>\<rparr>)" by blast
  let ?u = "u\<lparr>TranslationsFromTLB := tpre @ tpost, theBundle := (theBundle u)\<lparr>theOpcodes := pre @ x\<lparr>theOpcode := opcode_of em u tr\<rparr> # post\<rparr>\<rparr>"
  have "outstanding v ?u \<le> unresolved v ?u" for v
  proof -
    have "outstanding v u \<le> unresolved v u" using ok by (simp add: uf_ok_def)
    then show ?thesis using r(2,4) by (auto simp: outstanding_def unresolved_def r(1,3) split: if_splits)
  qed
  then have "uf_ok ?u" using ok by (simp add: uf_ok_def)
  then show ?thesis using r(5) by blast
qed

text \<open>What the memory system owes the unit: a fill does not bring back a block whose eviction is not acknowledged yet, an
  acknowledgement is for an eviction that was sent, and a message that is answered says where the answer goes.\<close>

definition is_fill :: "MemoryMessageType \<Rightarrow> bool" where
  "is_fill ty \<longleftrightarrow> ty = FwdReply \<or> ty = FwdReplyOwned \<or> ty = MissReply \<or> ty = FetchReply \<or> ty = MissReplyWritable"

definition message_ok :: "MemoryTransport \<Rightarrow> uFetch \<Rightarrow> bool" where
  "message_ok t u \<longleftrightarrow> (let ty = mm_type (mt_msg t); a = mm_address (mt_msg t) in
     (is_fill ty \<and> (\<forall>e \<in> theEvictSet u. ic_line (theI u) e \<noteq> ic_line (theI u) a) \<and>
       (cfg_SendAcks (cfg u) \<and> mm_ackRequired (mt_msg t) \<longrightarrow> mt_dest t \<noteq> None)) \<or>
     ty = Invalidate \<or> ty = ReturnReq \<or> ty = Downgrade \<or>
     ((ty = ReadFwd \<or> ty = FetchFwd \<or> ty = WriteFwd) \<and> mt_dest t \<noteq> None \<and> mt_tracker t \<noteq> None) \<or>
     (ty = BackInvalidate \<and> mt_dest t \<noteq> None) \<or> (ty = EvictAck \<and> a \<in> theEvictSet u))"

definition answers :: "uFetch \<Rightarrow> MemoryTransport list" where
  "answers u = (if cfg_UseReplyChannel (cfg u) then theReplyQueue u else theSnoopQueue u)"

definition unqueued :: "uFetch \<Rightarrow> uFetch" where
  "unqueued u = u\<lparr>theReplyQueue := [], theSnoopQueue := []\<rparr>"

lemma unqueuedD:
  assumes "unqueued u' = unqueued u"
  shows "theI u' = theI u" "theThreads u' = theThreads u" "theFAQ u' = theFAQ u" "theBundle u' = theBundle u"
    "TranslationsFromTLB u' = TranslationsFromTLB u" "theEvictSet u' = theEvictSet u" "theMissQueue u' = theMissQueue u" "cfg u' = cfg u"
    "uf_ok u' = uf_ok u" "sent u' = sent u" "flexusIndex u' = flexusIndex u"
proof -
  have f: "f (unqueued u') = f (unqueued u)" for f using assms by simp
  show "theI u' = theI u" "theThreads u' = theThreads u" "theFAQ u' = theFAQ u" "theBundle u' = theBundle u"
    "TranslationsFromTLB u' = TranslationsFromTLB u" "theEvictSet u' = theEvictSet u" "theMissQueue u' = theMissQueue u" "cfg u' = cfg u"
    "sent u' = sent u" "flexusIndex u' = flexusIndex u"
    using f[of theI] f[of theThreads] f[of theFAQ] f[of theBundle] f[of TranslationsFromTLB] f[of theEvictSet] f[of theMissQueue] f[of cfg] f[of sent] f[of flexusIndex]
    by (simp_all add: unqueued_def)
  have "uf_ok w = uf_ok (unqueued w)" for w by (simp add: unqueued_def uf_ok_def outstanding_def unresolved_def)
  then show "uf_ok u' = uf_ok u" using assms by metis
qed

lemma queueSnoopMessage_spec:
  "\<exists>m. answers (queueSnoopMessage t ty a d u) = answers u @ [m] \<and> mm_type (mt_msg m) = ty \<and> mm_address (mt_msg m) = a \<and>
     mt_dest m = mt_dest t \<and> unqueued (queueSnoopMessage t ty a d u) = unqueued u"
  by (simp add: queueSnoopMessage_def Let_def answers_def MemoryMessage_at_def MemoryMessage_new_def unqueued_def)

lemma issueEvict_ok:
  assumes "v \<notin> theEvictSet u"
  shows "\<exists>u'. issueEvict v u = Inr u' \<and> theI u' = theI u \<and> theThreads u' = theThreads u \<and> theFAQ u' = theFAQ u \<and> theBundle u' = theBundle u \<and>
    TranslationsFromTLB u' = TranslationsFromTLB u \<and> cfg u' = cfg u \<and> theBlockMask u' = theBlockMask u \<and> (side_ok u \<longrightarrow> side_ok u') \<and>
    sent u' = sent u \<and> flexusIndex u' = flexusIndex u \<and>
    theEvictSet u' = (if cfg_CleanEvict (cfg u) \<and> v \<noteq> 0 then insert v (theEvictSet u) else theEvictSet u) \<and>
    (if cfg_CleanEvict (cfg u) \<and> v \<noteq> 0 then \<exists>t. mm_type (mt_msg t) = EvictClean \<and> mm_address (mt_msg t) = v \<and>
       theMissQueue u' @ theSnoopQueue u' = (if cfg_EvictOnSnoop (cfg u) then theMissQueue u @ theSnoopQueue u @ [t] else theMissQueue u @ [t] @ theSnoopQueue u)
     else theMissQueue u' = theMissQueue u \<and> theSnoopQueue u' = theSnoopQueue u)"
  using assms by (auto simp: issueEvict_def Let_def MemoryMessage_at_def MemoryMessage_new_def side_ok_def)

lemma fill_thread_miss:
  "theIcacheMiss (fill_thread bm a tr th) = (if theIcacheMiss th = Some a then None else theIcacheMiss th)"
  "miss_ok m th \<Longrightarrow> miss_ok m (fill_thread bm a tr th)"
  by (auto simp: fill_thread_def Let_def miss_ok_def)

lemma fill_ok:
  assumes ok: "uf_ok u" and f: "is_fill (mm_type (mt_msg t))" and m: "message_ok t u" and a: "a = mm_address (mt_msg t)"
  shows "\<exists>u' v. fetchReply t u = Inr u' \<and> uf_ok u' \<and> cached (theI u') a \<and>
    map theIcacheMiss (theThreads u') = map (\<lambda>th. if theIcacheMiss th = Some a then None else theIcacheMiss th) (theThreads u) \<and>
    (\<forall>b. cached (theI u') b \<longrightarrow> cached (theI u) b \<or> ic_line (theI u) b = ic_line (theI u) a) \<and>
    (\<forall>b. cached (theI u) b \<longrightarrow> cached (theI u') b \<or> ic_line (theI u) b = ic_line (theI u) v) \<and>
    theEvictSet u' = (if cfg_CleanEvict (cfg u) \<and> v \<noteq> 0 then insert v (theEvictSet u) else theEvictSet u) \<and>
    theFAQ u' = theFAQ u \<and> theBundle u' = theBundle u \<and> TranslationsFromTLB u' = TranslationsFromTLB u \<and> cfg u' = cfg u \<and>
    sent u' = sent u \<and> flexusIndex u' = flexusIndex u \<and> ic_line (theI u') = ic_line (theI u)"
proof -
  have s: "side_ok u" "\<forall>e \<in> theEvictSet u. \<not> cached (theI u) e" using ok by (auto simp: uf_ok_def)
  have ne: "ic_line (theI u) e \<noteq> ic_line (theI u) a" if "e \<in> theEvictSet u" for e
    using m f that by (auto simp: message_ok_def Let_def is_fill_def a)
  from uf_insert_ok[OF s(1), of a] obtain v c where c: "uf_insert a u = Inr (v, u\<lparr>theI := c\<rparr>)" "side_ok (u\<lparr>theI := c\<rparr>)" "cached c a"
    "\<forall>b. cached c b \<longrightarrow> cached (theI u) b \<or> ic_line (theI u) b = ic_line (theI u) a"
    "\<forall>b. cached (theI u) b \<longrightarrow> cached c b \<or> ic_line (theI u) b = ic_line (theI u) v" "v \<noteq> 0 \<longrightarrow> cached (theI u) v \<and> \<not> cached c v"
    "ic_line c = ic_line (theI u)" by blast
  have "\<exists>u1. issueEvict v (u\<lparr>theI := c\<rparr>) = Inr u1 \<and> theI u1 = c \<and> theThreads u1 = theThreads u \<and> theFAQ u1 = theFAQ u \<and> theBundle u1 = theBundle u \<and>
    TranslationsFromTLB u1 = TranslationsFromTLB u \<and> cfg u1 = cfg u \<and> theBlockMask u1 = theBlockMask u \<and> side_ok u1 \<and> sent u1 = sent u \<and> flexusIndex u1 = flexusIndex u \<and>
    theEvictSet u1 = (if cfg_CleanEvict (cfg u) \<and> v \<noteq> 0 then insert v (theEvictSet u) else theEvictSet u)"
  proof (cases "v = 0")
    case True
    then show ?thesis using c(2) by (simp add: issueEvict_def)
  next
    case False
    then have "v \<notin> theEvictSet (u\<lparr>theI := c\<rparr>)" using s(2) c(6) by auto
    from issueEvict_ok[OF this] show ?thesis using c(2) by auto
  qed
  then obtain u1 where u1: "issueEvict v (u\<lparr>theI := c\<rparr>) = Inr u1" "theI u1 = c" "theThreads u1 = theThreads u" "theFAQ u1 = theFAQ u" "theBundle u1 = theBundle u"
    "TranslationsFromTLB u1 = TranslationsFromTLB u" "cfg u1 = cfg u" "theBlockMask u1 = theBlockMask u" "side_ok u1"
    "theEvictSet u1 = (if cfg_CleanEvict (cfg u) \<and> v \<noteq> 0 then insert v (theEvictSet u) else theEvictSet u)"
    "sent u1 = sent u" "flexusIndex u1 = flexusIndex u" by blast
  let ?u2 = "u1\<lparr>theThreads := map (fill_thread (theBlockMask u1) a (mt_tracker t)) (theThreads u1)\<rparr>"
  have ok2: "uf_ok ?u2"
  proof -
    have "side_ok ?u2" using u1(9) fill_thread_miss(2) by (auto simp: side_ok_def)
    moreover have "\<not> cached c e" if "e \<in> theEvictSet ?u2" for e
      using that u1(10) c(4,6) s(2) ne by (auto split: if_splits)
    ultimately show ?thesis using ok u1 by (simp add: uf_ok_def outstanding_def unresolved_def)
  qed
  obtain u' where u': "fetchReply t u = Inr u'" "unqueued u' = unqueued ?u2"
  proof (cases "cfg_SendAcks (cfg u) \<and> mm_ackRequired (mt_msg t)")
    case True
    then obtain d where "mt_dest t = Some d" using m f by (auto simp: message_ok_def Let_def is_fill_def)
    then obtain t' ty b where "fetchReply t u = Inr (queueSnoopMessage t' ty a b ?u2)"
      using True c(1) u1(1,7) f a by (auto simp: fetchReply_def Let_def is_fill_def reply_fill_def dest_to_def)
    then show thesis using that queueSnoopMessage_spec[of t' ty a b ?u2] by blast
  next
    case False
    then have "fetchReply t u = Inr ?u2"
      using c(1) u1(1,7) f a by (auto simp: fetchReply_def Let_def is_fill_def reply_fill_def)
    then show thesis using that by blast
  qed
  note q = unqueuedD[OF u'(2)]
  have "map theIcacheMiss (theThreads u') = map (\<lambda>th. if theIcacheMiss th = Some a then None else theIcacheMiss th) (theThreads u)"
    by (simp add: q(2) u1(3) comp_def fill_thread_miss(1))
  then show ?thesis
    using u'(1) q ok2 c(3,4,5,7) u1 by (intro exI[of _ u'] exI[of _ v]) simp
qed

definition uf_answer :: "MemoryMessageType \<Rightarrow> bool \<Rightarrow> MemoryMessageType option" where
  "uf_answer ty present =
     (if ty = Invalidate \<or> ty = BackInvalidate then Some InvalidateAck
      else if ty = ReturnReq then Some ReturnReply
      else if ty = Downgrade then Some DowngradeAck
      else if ty = ReadFwd \<or> ty = FetchFwd then Some (if present then FwdReply else FwdNAck)
      else if ty = WriteFwd then Some (if present then FwdReplyWritable else FwdNAck)
      else None)"

definition takes_away :: "MemoryMessageType \<Rightarrow> bool" where
  "takes_away ty \<longleftrightarrow> ty = Invalidate \<or> ty = BackInvalidate \<or> ty = WriteFwd"

lemma uf_ok_shrink:
  assumes "uf_ok u" "side_ok (u\<lparr>theI := c\<rparr>)" "\<forall>b. cached c b \<longrightarrow> cached (theI u) b"
  shows "uf_ok (u\<lparr>theI := c\<rparr>)"
  using assms by (auto simp: uf_ok_def outstanding_def unresolved_def)

text \<open>Every request is answered through a state whose cache is the old one or the one without the block.\<close>

lemma snoop_state:
  assumes ok: "uf_ok u"
  shows "\<exists>c. (if takes_away ty then uf_inval a u else uf_lookup a u) = Inr (cached (theI u) a, u\<lparr>theI := c\<rparr>) \<and> uf_ok (u\<lparr>theI := c\<rparr>) \<and>
    (\<forall>b. cached c b \<longleftrightarrow> cached (theI u) b \<and> \<not> (takes_away ty \<and> ic_line (theI u) b = ic_line (theI u) a))"
proof (cases "takes_away ty")
  case True
  have "side_ok u" using ok by (simp add: uf_ok_def)
  from uf_inval_ok[OF this, of a] obtain c where c: "uf_inval a u = Inr (cached (theI u) a, u\<lparr>theI := c\<rparr>)" "side_ok (u\<lparr>theI := c\<rparr>)"
    "\<forall>b. cached c b \<longleftrightarrow> cached (theI u) b \<and> ic_line (theI u) b \<noteq> ic_line (theI u) a" by blast
  have "uf_ok (u\<lparr>theI := c\<rparr>)" by (rule uf_ok_shrink[OF ok c(2)]) (simp add: c(3))
  then show ?thesis using True c by auto
next
  case False
  from uf_lookup_ok[of u a] ok obtain c where "uf_lookup a u = Inr (cached (theI u) a, u\<lparr>theI := c\<rparr>)" "side_ok (u\<lparr>theI := c\<rparr>)" "cached c = cached (theI u)"
    by (auto simp: uf_ok_def frame_def)
  then show ?thesis using False uf_ok_shrink[OF ok] by auto
qed

definition answered :: "MemoryTransport \<Rightarrow> MemoryMessageType \<Rightarrow> uFetch \<Rightarrow> uFetch \<Rightarrow> bool" where
  "answered t r u u' \<longleftrightarrow> (\<exists>m. answers u' = answers u @ [m] \<and> mm_type (mt_msg m) = r \<and> mm_address (mt_msg m) = mm_address (mt_msg t) \<and>
     (r = FwdNAck \<longrightarrow> map_option dm_type (mt_dest m) = Some Directory) \<and>
     (r = FwdReply \<or> r = FwdReplyWritable \<longrightarrow> map_option dm_type (mt_dest m) = Some Requester))"

lemma answered_queue:
  assumes "(ty = FwdNAck \<longrightarrow> map_option dm_type (mt_dest t') = Some Directory) \<and>
     (ty = FwdReply \<or> ty = FwdReplyWritable \<longrightarrow> map_option dm_type (mt_dest t') = Some Requester)"
  shows "answered t ty u (queueSnoopMessage t' ty (mm_address (mt_msg t)) d u)"
  using queueSnoopMessage_spec[of t' ty "mm_address (mt_msg t)" d u] assms by (auto simp: answered_def)

lemma answered_I: "answered t r (u\<lparr>theI := c\<rparr>) u' = answered t r u u'"
  by (simp add: answered_def answers_def)

lemma forward_queue:
  assumes "mt_dest t = Some d" "mt_tracker t = Some k" "a = mm_address (mt_msg t)"
  shows "\<exists>t'. bindE (mark_peer t) (\<lambda>t. reply_forward t hit ty w) =
      Inr (queueSnoopMessage t' (if hit \<or> a \<in> theEvictSet w then ty else FwdNAck) a False w) \<and>
    map_option dm_type (mt_dest t') = Some (if hit \<or> a \<in> theEvictSet w then Requester else Directory)"
  using assms by (cases "hit \<or> a \<in> theEvictSet w") (auto simp: mark_peer_def reply_forward_def dest_to_def)

lemma snoop_ok:
  assumes ok: "uf_ok u" and m: "message_ok t u" and a: "a = mm_address (mt_msg t)"
    and r: "uf_answer (mm_type (mt_msg t)) (cached (theI u) a \<or> a \<in> theEvictSet u) = Some r"
  shows "\<exists>u' c. fetchReply t u = Inr u' \<and> unqueued u' = unqueued (u\<lparr>theI := c\<rparr>) \<and> uf_ok (u\<lparr>theI := c\<rparr>) \<and> answered t r u u' \<and>
    (\<forall>b. cached c b \<longleftrightarrow> cached (theI u) b \<and> \<not> (takes_away (mm_type (mt_msg t)) \<and> ic_line (theI u) b = ic_line (theI u) a))"
proof -
  let ?ty = "mm_type (mt_msg t)"
  from snoop_state[OF ok, of ?ty a] obtain c where c: "(if takes_away ?ty then uf_inval a u else uf_lookup a u) = Inr (cached (theI u) a, u\<lparr>theI := c\<rparr>)"
    "uf_ok (u\<lparr>theI := c\<rparr>)" "\<forall>b. cached c b \<longleftrightarrow> cached (theI u) b \<and> \<not> (takes_away ?ty \<and> ic_line (theI u) b = ic_line (theI u) a)" by blast
  let ?u1 = "u\<lparr>theI := c\<rparr>"
  have q: ?thesis if "fetchReply t u = Inr (queueSnoopMessage t' r a d w)" "w = ?u1 \<or> w = u \<and> \<not> takes_away ?ty"
    "(r = FwdNAck \<longrightarrow> map_option dm_type (mt_dest t') = Some Directory) \<and> (r = FwdReply \<or> r = FwdReplyWritable \<longrightarrow> map_option dm_type (mt_dest t') = Some Requester)"
    for t' d w
  proof -
    have "answered t r u (queueSnoopMessage t' r a d w)"
      using answered_queue[OF that(3), of t w d] that(2) a by (auto simp: answered_I)
    moreover have "unqueued (queueSnoopMessage t' r a d w) = unqueued w" using queueSnoopMessage_spec[of t' r a d w] by blast
    moreover from that(2) have "\<exists>c. w = u\<lparr>theI := c\<rparr> \<and> uf_ok (u\<lparr>theI := c\<rparr>) \<and>
        (\<forall>b. cached c b \<longleftrightarrow> cached (theI u) b \<and> \<not> (takes_away ?ty \<and> ic_line (theI u) b = ic_line (theI u) a))"
    proof
      assume "w = ?u1"
      then show ?thesis using c(2,3) by blast
    next
      assume "w = u \<and> \<not> takes_away ?ty"
      then show ?thesis using ok by (intro exI[of _ "theI u"]) simp
    qed
    ultimately show ?thesis using that(1) by auto
  qed
  note rep = fetchReply_def Let_def a[symmetric]
  consider "?ty = Invalidate" | "?ty = ReturnReq" | "?ty = Downgrade" | "?ty = ReadFwd \<or> ?ty = FetchFwd" | "?ty = WriteFwd" | "?ty = BackInvalidate"
    using r by (auto simp: uf_answer_def split: if_splits)
  then show ?thesis
  proof cases
    case 1
    then have "uf_inval a u = Inr (cached (theI u) a, ?u1)" using c(1) by (simp add: takes_away_def)
    moreover obtain t' where "(if mt_dest t \<noteq> None then dest_to Requester t else Inr t) = Inr t'" by (cases "mt_dest t") (auto simp: dest_to_def)
    ultimately show ?thesis using q[of t' False ?u1] 1 r by (simp add: rep uf_answer_def)
  next
    case 2
    then show ?thesis using q[of t False u] r by (simp add: rep uf_answer_def takes_away_def)
  next
    case 3
    then show ?thesis using q[of t False u] r by (simp add: rep uf_answer_def takes_away_def)
  next
    case 4
    then have l: "uf_lookup a u = Inr (cached (theI u) a, ?u1)" using c(1) by (auto simp: takes_away_def)
    from 4 m obtain d k where d: "mt_dest t = Some d" "mt_tracker t = Some k" by (auto simp: message_ok_def Let_def is_fill_def)
    have "r = (if cached (theI u) a \<or> a \<in> theEvictSet u then FwdReply else FwdNAck)" using r 4 by (auto simp: uf_answer_def)
    moreover have "fetchReply t u = bindE (mark_peer t) (\<lambda>t. reply_forward t (cached (theI u) a) FwdReply ?u1)" using 4 l by (auto simp: rep)
    moreover from forward_queue[OF d a, of "cached (theI u) a" FwdReply ?u1] obtain t' where
      "bindE (mark_peer t) (\<lambda>t. reply_forward t (cached (theI u) a) FwdReply ?u1) = Inr (queueSnoopMessage t' r a False ?u1)"
      "map_option dm_type (mt_dest t') = Some (if cached (theI u) a \<or> a \<in> theEvictSet u then Requester else Directory)"
      using calculation(1) by auto
    ultimately show ?thesis by (intro q[of t' False ?u1]) auto
  next
    case 5
    then have l: "uf_inval a u = Inr (cached (theI u) a, ?u1)" using c(1) by (auto simp: takes_away_def)
    from 5 m obtain d k where d: "mt_dest t = Some d" "mt_tracker t = Some k" by (auto simp: message_ok_def Let_def is_fill_def)
    have "r = (if cached (theI u) a \<or> a \<in> theEvictSet u then FwdReplyWritable else FwdNAck)" using r 5 by (auto simp: uf_answer_def)
    moreover have "fetchReply t u = bindE (mark_peer t) (\<lambda>t. reply_forward t (cached (theI u) a) FwdReplyWritable ?u1)" using 5 l by (auto simp: rep)
    moreover from forward_queue[OF d a, of "cached (theI u) a" FwdReplyWritable ?u1] obtain t' where
      "bindE (mark_peer t) (\<lambda>t. reply_forward t (cached (theI u) a) FwdReplyWritable ?u1) = Inr (queueSnoopMessage t' r a False ?u1)"
      "map_option dm_type (mt_dest t') = Some (if cached (theI u) a \<or> a \<in> theEvictSet u then Requester else Directory)"
      using calculation(1) by auto
    ultimately show ?thesis by (intro q[of t' False ?u1]) auto
  next
    case 6
    then have "uf_inval a u = Inr (cached (theI u) a, ?u1)" using c(1) by (auto simp: takes_away_def)
    moreover obtain d where "mt_dest t = Some d" using 6 m by (auto simp: message_ok_def Let_def is_fill_def)
    ultimately show ?thesis using q[of "t\<lparr>mt_dest := Some (d\<lparr>dm_type := Directory\<rparr>)\<rparr>" False ?u1] 6 r by (simp add: rep uf_answer_def dest_to_def)
  qed
qed

end
