(* ===== verification/FetchRun.thy ===== *)
theory FetchRun
  imports FetchUnit
begin

text \<open>
  Runs of the fetch unit: its handlers in any order, with what the emulator, the MMU and the memory system owe it
  at each step (\<open>op_ok\<close>). In every run no assertion fails, instructions leave in the order in which their addresses
  came in, every coherence request gets its answer, and a fetch never overtakes the eviction of its block. The
  last section shows how the unit can come to a standstill when an address is in the bundle twice.
\<close>

section \<open>Runs\<close>

datatype uf_op = FetchAddressIn nat "FetchAddr list" | SquashIn nat | ChangeCPUState nat CPUState | FetchMissIn MemoryTransport
  | TranslationIn Translation | ResyncIn int | Drive fetch_env nat | OtherRequests nat

text \<open>Other components take numbers from the counter of translation requests, too.\<close>

definition uf_do :: "emulator \<Rightarrow> uf_op \<Rightarrow> uFetch \<Rightarrow> uFetch res" where
  "uf_do em x u = (case x of
     FetchAddressIn i fs \<Rightarrow> push_FetchAddressIn i fs u
   | SquashIn i \<Rightarrow> push_SquashIn i u
   | ChangeCPUState i s \<Rightarrow> push_ChangeCPUState i s u
   | FetchMissIn t \<Rightarrow> fetchReply t u
   | TranslationIn t \<Rightarrow> push_iTranslationIn em t u
   | ResyncIn k \<Rightarrow> Inr (push_ResyncIn k u)
   | Drive env td \<Rightarrow> uf_drive em env td u
   | OtherRequests n \<Rightarrow> Inr (u\<lparr>translationID := n\<rparr>))"

definition op_ok :: "emulator \<Rightarrow> uf_op \<Rightarrow> uFetch \<Rightarrow> bool" where
  "op_ok em x u = (case x of
     FetchAddressIn i fs \<Rightarrow> i < cfg_Threads (cfg u)
   | SquashIn i \<Rightarrow> i < cfg_Threads (cfg u)
   | ChangeCPUState i s \<Rightarrow> i < cfg_Threads (cfg u)
   | FetchMissIn t \<Rightarrow> message_ok t u
   | TranslationIn t \<Rightarrow> answer_ok em t u
   | Drive env td \<Rightarrow> drive_ok em env (if cfg_Threads (cfg u) > 1 then td else 0) u
   | _ \<Rightarrow> True)"

inductive fetch_run :: "emulator \<Rightarrow> uf_op list \<Rightarrow> uFetch \<Rightarrow> uFetch \<Rightarrow> bool" for em where
  nil: "fetch_run em [] u u"
| cons: "op_ok em x u \<Longrightarrow> uf_do em x u = Inr u1 \<Longrightarrow> fetch_run em xs u1 u2 \<Longrightarrow> fetch_run em (x # xs) u u2"

inductive_cases fetch_run_NilE: "fetch_run em [] u u'"
inductive_cases fetch_run_ConsE: "fetch_run em (x # xs) u u'"

section \<open>One step\<close>

definition delivered :: "uFetch \<Rightarrow> FetchedOpcode list" where
  "delivered u = concat (map theOpcodes (bundles (sent u)))"

text \<open>The instructions of the unit in order: delivered, in the bundle, still in the queue of the first thread.\<close>

definition stream :: "uFetch \<Rightarrow> (64 word \<times> BPredState option) list" where
  "stream u = map (\<lambda>x. (fo_PC x, fo_BPState x)) (delivered u @ theOpcodes (theBundle u)) @ map (\<lambda>f. (theAddress f, fa_BPState f)) (theFAQ u ! 0)"

definition pushed :: "uf_op \<Rightarrow> (64 word \<times> BPredState option) list" where
  "pushed x = (case x of FetchAddressIn i fs \<Rightarrow> map (\<lambda>f. (theAddress f, fa_BPState f)) fs | _ \<Rightarrow> [])"

text \<open>The addresses whose page turns out not to be mapped, and the word an instruction is given: that of the emulator, where
  1 stands for the word 0, which marks an instruction that has no word yet; and 1 if there is no page.\<close>

definition faults :: "uf_op \<Rightarrow> 64 word set" where
  "faults x = (case x of TranslationIn tr \<Rightarrow> if thePageFault tr then {theVaddr tr} else {} | _ \<Rightarrow> {})"

definition word_at :: "emulator \<Rightarrow> uFetch \<Rightarrow> nat \<Rightarrow> 64 word \<Rightarrow> 32 word" where
  "word_at em u i v = (if fetchInstruction em (cpu u i) v = 0 then 1 else fetchInstruction em (cpu u i) v)"

definition opcode_right :: "emulator \<Rightarrow> 64 word set \<Rightarrow> uFetch \<Rightarrow> FetchedOpcode \<Rightarrow> bool" where
  "opcode_right em F u x \<longleftrightarrow> theOpcode x = 1 \<and> fo_PC x \<in> F \<or> (\<exists>i < cfg_Threads (cfg u). theOpcode x = word_at em u i (fo_PC x))"

definition opcodes_ok :: "emulator \<Rightarrow> 64 word set \<Rightarrow> uFetch \<Rightarrow> bool" where
  "opcodes_ok em F u \<longleftrightarrow> (\<forall>t \<in> set (TranslationsFromTLB u). theIndex t < cfg_Threads (cfg u)) \<and>
     (\<forall>x \<in> set (delivered u). theOpcode x \<noteq> 0 \<and> opcode_right em F u x) \<and>
     (\<forall>x \<in> set (theOpcodes (theBundle u)). theOpcode x = 0 \<or> opcode_right em F u x)"

lemma opcodes_ok_mono: "opcodes_ok em F u \<Longrightarrow> F \<subseteq> G \<Longrightarrow> opcodes_ok em G u"
  unfolding opcodes_ok_def opcode_right_def by blast

text \<open>The handlers that take no part in the traffic of instructions, and the ones that drop the instructions in flight.\<close>

definition aside :: "uf_op \<Rightarrow> bool" where
  "aside x \<longleftrightarrow> (case x of FetchAddressIn _ _ \<Rightarrow> True | ChangeCPUState _ _ \<Rightarrow> True | FetchMissIn _ \<Rightarrow> True | OtherRequests _ \<Rightarrow> True | _ \<Rightarrow> False)"

definition flushes :: "uf_op \<Rightarrow> bool" where
  "flushes x \<longleftrightarrow> (case x of SquashIn _ \<Rightarrow> True | ResyncIn _ \<Rightarrow> True | _ \<Rightarrow> False)"

text \<open>Every step keeps the invariant and the opcodes; one that does not flush keeps the order.\<close>

definition good_step :: "emulator \<Rightarrow> uf_op \<Rightarrow> uFetch \<Rightarrow> uFetch \<Rightarrow> bool" where
  "good_step em x u u' \<longleftrightarrow> uf_ok u' \<and> cfg u' = cfg u \<and> flexusIndex u' = flexusIndex u \<and> (\<forall>F. opcodes_ok em F u \<longrightarrow> opcodes_ok em (F \<union> faults x) u') \<and>
     (aside x \<longrightarrow> theBundle u' = theBundle u \<and> TranslationsFromTLB u' = TranslationsFromTLB u \<and> delivered u' = delivered u) \<and>
     (cfg_Threads (cfg u) = 1 \<and> \<not> flushes x \<longrightarrow> stream u' = stream u @ pushed x)"

lemma delivered_frame: "bundles (sent u') = bundles (sent u) \<Longrightarrow> delivered u' = delivered u"
  by (simp add: delivered_def)

lemma opcode_right_frame: "cfg u' = cfg u \<Longrightarrow> flexusIndex u' = flexusIndex u \<Longrightarrow> opcode_right em F u' = opcode_right em F u"
  by (simp add: opcode_right_def word_at_def cpu_def fun_eq_iff)

lemma good_stepI:
  assumes "uf_ok u'" "cfg u' = cfg u" "flexusIndex u' = flexusIndex u" "theBundle u' = theBundle u" "bundles (sent u') = bundles (sent u)"
    "TranslationsFromTLB u' = TranslationsFromTLB u" "\<not> flushes x \<Longrightarrow> cfg_Threads (cfg u) = 1 \<Longrightarrow> map (\<lambda>f. (theAddress f, fa_BPState f)) (theFAQ u' ! 0) =
       map (\<lambda>f. (theAddress f, fa_BPState f)) (theFAQ u ! 0) @ pushed x"
  shows "good_step em x u u'"
proof -
  have "opcodes_ok em (F \<union> faults x) u'" if "opcodes_ok em F u" for F
    using opcodes_ok_mono[OF that, of "F \<union> faults x"] assms delivered_frame[OF assms(5)] opcode_right_frame[OF assms(2,3), of em]
    by (simp add: opcodes_ok_def)
  then show ?thesis using assms delivered_frame[OF assms(5)] by (auto simp: good_step_def stream_def)
qed

lemma uf_ok_fields:
  assumes "uf_ok u"
  shows "0 < cfg_Threads (cfg u)" "length (theFAQ u) = cfg_Threads (cfg u)" "length (theThreads u) = cfg_Threads (cfg u)"
  using assms by (auto simp: uf_ok_def side_ok_def)

lemma uf_ok_thread:
  assumes ok: "uf_ok u" and i: "i < cfg_Threads (cfg u)" and m: "\<And>m th. miss_ok m th \<Longrightarrow> miss_ok m (f th)"
  shows "\<exists>u'. on_thread i f u = Inr u' \<and> uf_ok u' \<and> (\<exists>ts. u' = u\<lparr>theThreads := ts\<rparr>)"
proof -
  have s: "side_ok u" "i < length (theThreads u)" using ok i by (auto simp: uf_ok_def side_ok_def)
  have "side_ok (u\<lparr>theThreads := (theThreads u)[i := f (theThreads u ! i)]\<rparr>)"
    by (rule side_ok_thread[OF s(1)]) (rule m[OF side_ok_nth[OF s]])
  from uf_ok_frame[OF ok frame_updates(1) this] show ?thesis using on_thread_ok[OF s(2), of f] by blast
qed

lemma step_queue_ports:
  assumes ok: "uf_ok u"
  shows "i < cfg_Threads (cfg u) \<Longrightarrow> \<exists>u'. uf_do em (FetchAddressIn i fs) u = Inr u' \<and> good_step em (FetchAddressIn i fs) u u'"
    "i < cfg_Threads (cfg u) \<Longrightarrow> \<exists>u'. uf_do em (ChangeCPUState i s) u = Inr u' \<and> good_step em (ChangeCPUState i s) u u'"
    "i < cfg_Threads (cfg u) \<Longrightarrow> \<exists>u'. uf_do em (SquashIn i) u = Inr u' \<and> good_step em (SquashIn i) u u'"
    "\<exists>u'. uf_do em (ResyncIn k) u = Inr u' \<and> good_step em (ResyncIn k) u u'"
    "\<exists>u'. uf_do em (OtherRequests n) u = Inr u' \<and> good_step em (OtherRequests n) u u'"
proof -
  note len = uf_ok_fields[OF ok]
  show "\<exists>u'. uf_do em (OtherRequests n) u = Inr u' \<and> good_step em (OtherRequests n) u u'"
    using ok by (auto simp: uf_do_def pushed_def uf_ok_def outstanding_def unresolved_def intro!: good_stepI)
  have "uf_ok (push_ResyncIn k u)"
    using ok by (simp add: push_ResyncIn_def uf_ok_def outstanding_def unresolved_def bundle_clear_def)
  then show "\<exists>u'. uf_do em (ResyncIn k) u = Inr u' \<and> good_step em (ResyncIn k) u u'"
    by (auto simp: uf_do_def good_step_def flushes_def aside_def push_ResyncIn_def bundle_clear_def opcodes_ok_def delivered_def opcode_right_def word_at_def cpu_def faults_def)
  {
    assume i: "i < cfg_Threads (cfg u)"
    show "\<exists>u'. uf_do em (FetchAddressIn i fs) u = Inr u' \<and> good_step em (FetchAddressIn i fs) u u'"
      using ok i len by (auto simp: uf_do_def push_FetchAddressIn_def pushed_def uf_ok_def outstanding_def unresolved_def intro!: good_stepI)
    from uf_ok_thread[OF ok i, of "\<lambda>th. th\<lparr>theCPUState := s\<rparr>"] show "\<exists>u'. uf_do em (ChangeCPUState i s) u = Inr u' \<and> good_step em (ChangeCPUState i s) u u'"
      by (auto simp: uf_do_def push_ChangeCPUState_def pushed_def miss_ok_def intro!: good_stepI)
    let ?f = "\<lambda>th. th\<lparr>theIcacheMiss := None, theIcacheVMiss := None, theFetchReplyTransactionTracker := None,
              theLastMiss := None, theIcachePrefetch := None, theLastPrefetchVTagSet := Some 0\<rparr>"
    let ?u1 = "u\<lparr>theFAQ := (theFAQ u)[i := []]\<rparr>"
    have ok1: "uf_ok ?u1" using ok by (simp add: uf_ok_def outstanding_def unresolved_def)
    from uf_ok_thread[OF ok1, of i ?f] i obtain ts where ts: "on_thread i ?f ?u1 = Inr (?u1\<lparr>theThreads := ts\<rparr>)" "uf_ok (?u1\<lparr>theThreads := ts\<rparr>)"
      by (auto simp: miss_ok_def)
    let ?u2 = "?u1\<lparr>theThreads := ts, theBundle := bundle_clear (theBundle u), TranslationsFromTLB := []\<rparr>"
    have "uf_do em (SquashIn i) u = Inr ?u2" using ts(1) i len by (simp add: uf_do_def push_SquashIn_def squash_FAQ_def)
    moreover have "good_step em (SquashIn i) u ?u2"
      using ts(2) by (auto simp: good_step_def flushes_def aside_def uf_ok_def outstanding_def unresolved_def bundle_clear_def opcodes_ok_def delivered_def opcode_right_def word_at_def cpu_def faults_def side_ok_def)
    ultimately show "\<exists>u'. uf_do em (SquashIn i) u = Inr u' \<and> good_step em (SquashIn i) u u'" by blast
  }
qed

lemma step_translation:
  assumes ok: "uf_ok u" and a: "answer_ok em tr u"
  shows "\<exists>u'. uf_do em (TranslationIn tr) u = Inr u' \<and> good_step em (TranslationIn tr) u u'"
proof (cases "\<exists>t \<in> set (TranslationsFromTLB u). theID t = theID tr")
  case False
  then have "push_iTranslationIn em tr u = Inr u" by (auto simp: push_iTranslationIn_def Let_def)
  then show ?thesis using ok by (auto simp: uf_do_def pushed_def intro!: good_stepI)
next
  case True
  then obtain t where t: "t \<in> set (TranslationsFromTLB u)" "theID t = theID tr" by blast
  from push_iTranslationIn_ok[OF ok a t] obtain pre x post tpre y tpost where r: "theOpcodes (theBundle u) = pre @ x # post" "fo_PC x = theVaddr tr"
    "TranslationsFromTLB u = tpre @ y # tpost" "theID y = theID tr"
    "push_iTranslationIn em tr u = Inr (u\<lparr>TranslationsFromTLB := tpre @ tpost,
      theBundle := (theBundle u)\<lparr>theOpcodes := pre @ x\<lparr>theOpcode := opcode_of em u tr\<rparr> # post\<rparr>\<rparr>)" by blast
  let ?u = "u\<lparr>TranslationsFromTLB := tpre @ tpost, theBundle := (theBundle u)\<lparr>theOpcodes := pre @ x\<lparr>theOpcode := opcode_of em u tr\<rparr> # post\<rparr>\<rparr>"
  have ok': "uf_ok ?u" using push_iTranslationIn_uf_ok[OF ok a] r(5) by simp
  have ix: "theIndex y = theIndex tr" using a r(3,4) by (simp add: answer_ok_def)
  let ?x = "x\<lparr>theOpcode := opcode_of em u tr\<rparr>"
  have f: "opcode_right em G ?u = opcode_right em G u" "delivered ?u = delivered u" for G
    by (rule opcode_right_frame) (simp_all add: delivered_def)
  have "opcodes_ok em (F \<union> faults (TranslationIn tr)) ?u" if F: "opcodes_ok em F u" for F
  proof -
    let ?G = "F \<union> faults (TranslationIn tr)"
    have "theIndex tr < cfg_Threads (cfg u)" using F r(3) ix by (simp add: opcodes_ok_def)
    then have "opcode_right em ?G u ?x" by (auto simp: opcode_right_def opcode_of_def word_at_def faults_def Let_def r(2))
    moreover have "opcodes_ok em ?G u" using F by (rule opcodes_ok_mono) simp
    ultimately show ?thesis unfolding opcodes_ok_def f by (auto simp: r(1,3))
  qed
  moreover have "stream ?u = stream u" by (simp add: stream_def delivered_def r(1))
  ultimately have "good_step em (TranslationIn tr) u ?u" using ok' by (simp add: good_step_def pushed_def aside_def)
  then show ?thesis using r(5) by (simp add: uf_do_def)
qed

lemma step_message:
  assumes ok: "uf_ok u" and m: "message_ok t u"
  shows "\<exists>u'. uf_do em (FetchMissIn t) u = Inr u' \<and> good_step em (FetchMissIn t) u u'"
proof -
  let ?ty = "mm_type (mt_msg t)" and ?a = "mm_address (mt_msg t)"
  consider "is_fill ?ty" | r where "uf_answer ?ty (cached (theI u) ?a \<or> ?a \<in> theEvictSet u) = Some r" | "?ty = EvictAck" "?a \<in> theEvictSet u"
    using m by (auto simp: message_ok_def Let_def uf_answer_def)
  then show ?thesis
  proof cases
    case 1
    from fill_ok[OF ok 1 m refl] show ?thesis by (auto simp: uf_do_def pushed_def intro!: good_stepI)
  next
    case (2 r)
    from snoop_ok[OF ok m refl 2] obtain u' c where u': "fetchReply t u = Inr u'" "unqueued u' = unqueued (u\<lparr>theI := c\<rparr>)" "uf_ok (u\<lparr>theI := c\<rparr>)" by blast
    show ?thesis using u'(1,3) unqueuedD[OF u'(2)] by (auto simp: uf_do_def pushed_def intro!: good_stepI)
  next
    case 3
    then have "fetchReply t u = Inr (u\<lparr>theEvictSet := theEvictSet u - {?a}\<rparr>)" by (simp add: fetchReply_def Let_def)
    then show ?thesis using ok by (auto simp: uf_do_def pushed_def uf_ok_def outstanding_def unresolved_def intro!: good_stepI)
  qed
qed

lemma drive_spec:
  assumes ok: "uf_ok u" and d: "drive_ok em env i u" and i: "i = (if cfg_Threads (cfg u) > 1 then td else 0)"
  shows "\<exists>n u1. uf_drive em env td u = Inr (sendMisses env (if theIcacheMiss (theThreads u ! i) = None then processBundle u1 else u1)) \<and>
    uf_ok u1 \<and> moved i n u u1 \<and> (n \<noteq> 0 \<longrightarrow> length (theOpcodes (theBundle u)) < theMissQueueSize u)"
proof -
  let ?u0 = "send ClockTickSeen u"
  have ok0: "uf_ok ?u0" "drive_ok em env i ?u0" "moved i 0 u ?u0" using ok d
    by (auto simp: send_def uf_ok_def outstanding_def unresolved_def drive_ok_def quiesce_ok_def fetch_limit_def translated_def cpu_def moved_def List.map_filter_def)
  from doFetch_ok[OF ok0(1,2)] obtain n u1 where u1: "doFetch em env i ?u0 = Inr (if theIcacheMiss (theThreads u ! i) = None then processBundle u1 else ?u0)"
    "uf_ok u1" "moved i n ?u0 u1" "n \<noteq> 0 \<longrightarrow> length (theOpcodes (theBundle u)) < theMissQueueSize u" by (auto simp: send_def)
  have il: "i < length (theFAQ u)" using d uf_ok_fields[OF ok] by (simp add: drive_ok_def)
  have m: "moved i n u u1" using moved_trans[OF ok0(3) u1(3) il] by simp
  have dr: "uf_drive em env td u = bindE (doFetch em env i ?u0) (\<lambda>u. Inr (sendMisses env u))"
    using i by (simp add: uf_drive_def Let_def send_def)
  show ?thesis
  proof (cases "theIcacheMiss (theThreads u ! i) = None")
    case True
    then show ?thesis using dr u1 m by auto
  next
    case False
    then show ?thesis using dr u1(1) ok0 by (intro exI[of _ 0] exI[of _ ?u0]) auto
  qed
qed

lemma moved_stream:
  assumes "moved 0 n u u'" "0 < length (theFAQ u)"
  shows "stream u' = stream u"
proof -
  from assms(1) obtain ops where o: "theOpcodes (theBundle u') = theOpcodes (theBundle u) @ ops" "delivered u' = delivered u"
      "map (\<lambda>x. (fo_PC x, theOpcode x, fo_BPState x)) ops = map (\<lambda>f. (theAddress f, 0, fa_BPState f)) (take n (theFAQ u ! 0))"
      "theFAQ u' ! 0 = drop n (theFAQ u ! 0)"
    using assms(2) by (auto simp: moved_def delivered_def)
  have "map (\<lambda>x. (fo_PC x, fo_BPState x)) ops = map (\<lambda>p. (fst p, snd (snd p))) (map (\<lambda>x. (fo_PC x, theOpcode x, fo_BPState x)) ops)" by simp
  also have "\<dots> = map (\<lambda>f. (theAddress f, fa_BPState f)) (take n (theFAQ u ! 0))" unfolding o(3) by simp
  finally have e: "map (\<lambda>x. (fo_PC x, fo_BPState x)) ops = map (\<lambda>f. (theAddress f, fa_BPState f)) (take n (theFAQ u ! 0))" .
  have "map (\<lambda>f. (theAddress f, fa_BPState f)) (theFAQ u ! 0) =
      map (\<lambda>f. (theAddress f, fa_BPState f)) (take n (theFAQ u ! 0)) @ map (\<lambda>f. (theAddress f, fa_BPState f)) (drop n (theFAQ u ! 0))"
    by (metis append_take_drop_id map_append)
  then show ?thesis by (simp add: stream_def o(1,2,4) e)
qed

lemma moved_opcodes:
  assumes "moved i n u u'" "i < cfg_Threads (cfg u)" "opcodes_ok em F u"
  shows "opcodes_ok em F u'"
proof -
  from assms(1) obtain ops ts where o: "theOpcodes (theBundle u') = theOpcodes (theBundle u) @ ops" "delivered u' = delivered u"
      "map (\<lambda>x. (fo_PC x, theOpcode x, fo_BPState x)) ops = map (\<lambda>f. (theAddress f, 0, fa_BPState f)) (take n (theFAQ u ! i))"
      "TranslationsFromTLB u' = TranslationsFromTLB u @ ts" "map (\<lambda>t. (theVaddr t, theIndex t)) ts = map (\<lambda>f. (theAddress f, i)) (take n (theFAQ u ! i))"
      "cfg u' = cfg u" "flexusIndex u' = flexusIndex u"
    by (auto simp: moved_def delivered_def)
  have "map theOpcode ops = map (\<lambda>_. 0) (take n (theFAQ u ! i))" using arg_cong[OF o(3), of "map (\<lambda>p. fst (snd p))"] by (simp add: comp_def)
  then have "set (map theOpcode ops) \<subseteq> {0}" by (simp only:) auto
  then have "theOpcode x = 0" if "x \<in> set ops" for x using that by auto
  moreover have "map theIndex ts = map (\<lambda>_. i) (take n (theFAQ u ! i))" using arg_cong[OF o(5), of "map snd"] by (simp add: comp_def)
  then have "set (map theIndex ts) \<subseteq> {i}" by (simp only:) auto
  then have "theIndex t = i" if "t \<in> set ts" for t using that by auto
  ultimately show ?thesis using assms(2,3) o opcode_right_frame[OF o(6,7), of em] by (auto simp: opcodes_ok_def)
qed

lemma processBundle_opcodes: "opcodes_ok em F u \<Longrightarrow> opcodes_ok em F (processBundle u)"
proof -
  assume o: "opcodes_ok em F u"
  let ?P = "\<lambda>i. theOpcode i \<noteq> 0"
  have f: "cfg (processBundle u) = cfg u" "flexusIndex (processBundle u) = flexusIndex u" "TranslationsFromTLB (processBundle u) = TranslationsFromTLB u"
    by (simp_all add: processBundle_def Let_def send_def)
  have "set (delivered (processBundle u)) \<subseteq> set (delivered u) \<union> set (takeWhile ?P (theOpcodes (theBundle u)))"
    "set (theOpcodes (theBundle (processBundle u))) \<subseteq> set (theOpcodes (theBundle u))"
    by (auto simp: processBundle_def Let_def send_def delivered_def List.map_filter_def dest: set_dropWhileD)
  then show ?thesis using o opcode_right_frame[OF f(1,2), of em] f by (fastforce simp: opcodes_ok_def dest: set_takeWhileD)
qed

lemma step_drive:
  assumes ok: "uf_ok u" and d: "drive_ok em env (if cfg_Threads (cfg u) > 1 then td else 0) u"
  shows "\<exists>u'. uf_do em (Drive env td) u = Inr u' \<and> good_step em (Drive env td) u u'"
proof -
  let ?i = "if cfg_Threads (cfg u) > 1 then td else 0"
  from drive_spec[OF ok d refl] obtain n u1 where u1: "uf_drive em env td u = Inr (sendMisses env (if theIcacheMiss (theThreads u ! ?i) = None then processBundle u1 else u1))"
    "uf_ok u1" "moved ?i n u u1" by blast
  define w where "w = (if theIcacheMiss (theThreads u ! ?i) = None then processBundle u1 else u1)"
  have w: "uf_ok w" "cfg w = cfg u" "flexusIndex w = flexusIndex u" "opcodes_ok em F u \<Longrightarrow> opcodes_ok em F w" for F
    using processBundle_ok(1)[OF u1(2)] u1(2,3) moved_opcodes[OF u1(3), of em F] d processBundle_opcodes[of em F u1]
    by (auto simp: w_def moved_def drive_ok_def processBundle_def Let_def send_def)
  have "stream (processBundle u1) = stream u1"
    using processBundle_ok(2)[OF u1(2)] unfolding stream_def delivered_def by (simp only:) (simp add: processBundle_def Let_def send_def)
  then have "stream w = stream u1" by (simp add: w_def)
  then have st: "stream w = stream u" if "cfg_Threads (cfg u) = 1"
    using moved_stream[of n u u1] u1(3) that uf_ok_fields[OF ok] by simp
  have p: "pushed (Drive env td) = []" "\<not> aside (Drive env td)" "faults (Drive env td) = {}" by (simp_all add: pushed_def aside_def faults_def)
  have "good_step em (Drive env td) u w" using w st p by (simp add: good_step_def)
  moreover have "good_step em (Drive env td) w (sendMisses env w)"
    by (rule good_stepI) (simp_all add: sendMisses_frame w(1) p)
  ultimately have "good_step em (Drive env td) u (sendMisses env w)" using p by (simp add: good_step_def)
  then show ?thesis using u1(1) by (auto simp: uf_do_def w_def)
qed

lemma step_ok:
  assumes "uf_ok u" "op_ok em x u"
  shows "\<exists>u'. uf_do em x u = Inr u' \<and> good_step em x u u'"
  using assms step_queue_ports[OF assms(1)] step_translation[OF assms(1)] step_message[OF assms(1)] step_drive[OF assms(1)]
  by (cases x) (auto simp: op_ok_def)

section \<open>Every run\<close>

definition fetch_config :: "nat \<Rightarrow> nat \<Rightarrow> nat \<Rightarrow> uFetchConfig \<Rightarrow> bool" where
  "fetch_config s k assoc c \<longleftrightarrow> s < 27 \<and> k < 27 \<and> 0 < assoc \<and> assoc * 2 ^ k < 2 ^ 31 \<and> cfg_ICacheLineSize c = 2 ^ s \<and>
     cfg_Associativity c = int assoc \<and> cfg_Size c = int (assoc * 2 ^ k * 2 ^ s) \<and> 0 < cfg_Threads c"

lemma line_size_values:
  assumes "s < 27"
  shows "uint (2 ^ s :: 64 word) = 2 ^ s" "sint (ucast (2 ^ s :: 64 word) :: 32 word) = 2 ^ s"
proof -
  have l: "(2 :: int) ^ s < 2 ^ 27" using assms by (intro power_strict_increasing) auto
  have "uint (word_of_int (2 ^ s) :: 64 word) = 2 ^ s" using assms by (simp only: unsigned_of_int) (simp add: take_bit_int_eq_self)
  then show u: "uint (2 ^ s :: 64 word) = 2 ^ s" by simp
  have "uint (ucast (2 ^ s :: 64 word) :: 32 word) = 2 ^ s" using assms u by (simp add: unsigned_ucast_eq take_bit_int_eq_self)
  then show "sint (ucast (2 ^ s :: 64 word) :: 32 word) = 2 ^ s"
    using l signed_take_bit_int_eq_self[of 31 "2 ^ s", OF order_trans[of _ 0]] by (simp add: sint_uint)
qed

lemma uf_initialize_ok:
  assumes "fetch_config s k assoc c"
  shows "\<exists>u. uf_initialize c f x n = Inr u \<and> uf_ok u \<and> opcodes_ok em F u \<and> cfg u = c \<and> stream u = [] \<and> delivered u = []"
proof -
  have c: "s < 27" "k < 27" "0 < assoc" "assoc * 2 ^ k < 2 ^ 31" "cfg_ICacheLineSize c = 2 ^ s" "0 < cfg_Threads c"
    using assms by (auto simp: fetch_config_def)
  from SimCache_init_ok[OF c(3,1,2,4)] obtain i where i: "SimCache_init (int (assoc * 2 ^ k * 2 ^ s)) (int assoc) (2 ^ s) = Inr i" "ic_ok i" "theCacheBlockShift i = int s"
    by blast
  have "NOT (2 ^ s - 1 :: 64 word) = NOT (mask s)" by (simp add: mask_eq_exp_minus_1)
  then show ?thesis
    using assms i line_size_values[OF c(1)] LOG2_power[OF c(1)] c(6)
    by (auto simp: uf_initialize_def fetch_config_def uf_ok_def side_ok_def outstanding_def unresolved_def new_thread_def miss_ok_def opcodes_ok_def
        delivered_def stream_def List.map_filter_def simp del: of_nat_mult of_nat_power)
qed

lemma fetch_run_good:
  assumes "fetch_run em xs u u'" "uf_ok u"
  shows "uf_ok u' \<and> cfg u' = cfg u \<and> flexusIndex u' = flexusIndex u \<and> (\<forall>F. opcodes_ok em F u \<longrightarrow> opcodes_ok em (F \<union> \<Union> (faults ` set xs)) u') \<and>
    (cfg_Threads (cfg u) = 1 \<and> (\<forall>x \<in> set xs. \<not> flushes x) \<longrightarrow> stream u' = stream u @ concat (map pushed xs))"
  using assms
proof (induction rule: fetch_run.induct)
  case (cons x u u1 xs u2)
  from step_ok[OF cons.prems cons.hyps(1)] cons.hyps(2) have "good_step em x u u1" by simp
  then show ?case using cons.IH by (auto simp: good_step_def sup_assoc)
qed simp

lemma fetch_run_append: "fetch_run em xs u u1 \<Longrightarrow> fetch_run em ys u1 u2 \<Longrightarrow> fetch_run em (xs @ ys) u u2"
  by (induction rule: fetch_run.induct) (auto intro: fetch_run.cons)

text \<open>C19: No assertion of the fetch unit fails and no container is accessed outside its range: a sensible configuration
  starts, and whatever sequence of fetch commands, squashes, replies and coherence requests, translations,
  resynchronisations and cycles follows, every handler completes and leaves the invariant: an outstanding translation has
  an instruction waiting for it, and a block whose eviction is not acknowledged is not in the cache. What each step owes
  the unit is \<open>op_ok\<close>: a thread of the core is named; the emulator translates every queued address to a block other than block 0;
  a translation is answered as it was asked, and as the emulator translates it unless it faults; the channels to the
  decoder and to the MMU are connected; a fill is not of a block whose eviction is unacknowledged, an eviction is acknowledged
  once, and a message that is answered says where to. In a quiescing cycle the thread must wait for a miss, have a full bundle,
  or have enough queued addresses: otherwise the fetch loop can take the front of the empty queue (\<open>quiescing_front\<close>).\<close>

theorem fetch_unit_safe:
  assumes "fetch_config s k assoc c"
  shows "\<exists>u0. uf_initialize c f x n = Inr u0 \<and> (\<forall>xs u. fetch_run em xs u0 u \<longrightarrow>
    (\<forall>v. outstanding v u \<le> unresolved v u) \<and> (\<forall>a \<in> theEvictSet u. \<not> cached (theI u) a) \<and>
    (\<forall>y. op_ok em y u \<longrightarrow> (\<exists>u'. uf_do em y u = Inr u')))"
proof -
  from uf_initialize_ok[OF assms] obtain u0 where u0: "uf_initialize c f x n = Inr u0" "uf_ok u0" by blast
  have "uf_ok u" if "fetch_run em xs u0 u" for xs u using fetch_run_good[OF that u0(2)] by blast
  moreover have "\<exists>u'. uf_do em y u = Inr u'" if "uf_ok u" "op_ok em y u" for y u using step_ok[OF that] by blast
  moreover have "(\<forall>v. outstanding v u \<le> unresolved v u) \<and> (\<forall>a \<in> theEvictSet u. \<not> cached (theI u) a)" if "uf_ok u" for u
    using that by (simp add: uf_ok_def)
  ultimately show ?thesis using u0(1) by blast
qed

text \<open>C20: With one thread, instructions leave the fetch unit in the order of their fetch addresses: in every run without a
  squash or resynchronisation, what was delivered, what is in the bundle and what is still queued are together the
  addresses that came in, none lost, none twice, each with its prediction state. A delivered instruction has the
  word the emulator holds at its address, with 1 in place of the word 0; or it is 1, and a translation of its address was
  answered in this run with a page fault.\<close>

theorem fetch_in_order:
  assumes "fetch_config s k assoc c" "cfg_Threads c = 1"
  shows "\<exists>u0. uf_initialize c f x n = Inr u0 \<and> (\<forall>xs u. fetch_run em xs u0 u \<and> (\<forall>y \<in> set xs. \<not> flushes y) \<longrightarrow>
    stream u = concat (map pushed xs) \<and> (\<forall>y \<in> set (delivered u). theOpcode y \<noteq> 0 \<and> opcode_right em (\<Union> (faults ` set xs)) u y))"
proof -
  from uf_initialize_ok[OF assms(1)] obtain u0 where u0: "uf_initialize c f x n = Inr u0" "uf_ok u0" "opcodes_ok em {} u0" "cfg u0 = c" "stream u0 = []" by blast
  have "stream u = concat (map pushed xs) \<and> (\<forall>y \<in> set (delivered u). theOpcode y \<noteq> 0 \<and> opcode_right em (\<Union> (faults ` set xs)) u y)"
    if "fetch_run em xs u0 u" "\<forall>y \<in> set xs. \<not> flushes y" for xs u
  proof -
    note g = fetch_run_good[OF that(1) u0(2)]
    have "opcodes_ok em ({} \<union> \<Union> (faults ` set xs)) u" using g u0(3) by blast
    then have "\<forall>y \<in> set (delivered u). theOpcode y \<noteq> 0 \<and> opcode_right em (\<Union> (faults ` set xs)) u y" unfolding opcodes_ok_def Un_empty_left by blast
    moreover have "stream u = stream u0 @ concat (map pushed xs)" using g that(2) u0(4) assms(2) by blast
    ultimately show ?thesis using u0(5) by simp
  qed
  then show ?thesis using u0(1) by blast
qed

section \<open>Misses, evictions and coherence requests\<close>

text \<open>C22: Every coherence request is answered exactly once, at its address and according to whether the unit has the
  block or is still evicting it: an invalidation with an acknowledgement, a forwarded request with data for the
  requester or a refusal for the directory. Afterwards the cache is as before, without the block if the request takes
  it away; nothing else of the unit changes.\<close>

theorem coherence_answered:
  assumes "uf_ok u" "message_ok t u" "a = mm_address (mt_msg t)"
    "uf_answer (mm_type (mt_msg t)) (cached (theI u) a \<or> a \<in> theEvictSet u) = Some r"
  shows "\<exists>u'. fetchReply t u = Inr u' \<and> uf_ok u' \<and> answered t r u u' \<and>
    (\<forall>b. cached (theI u') b \<longleftrightarrow> cached (theI u) b \<and> \<not> (takes_away (mm_type (mt_msg t)) \<and> ic_line (theI u) b = ic_line (theI u) a)) \<and>
    theThreads u' = theThreads u \<and> theFAQ u' = theFAQ u \<and> theBundle u' = theBundle u \<and> theMissQueue u' = theMissQueue u \<and>
    theEvictSet u' = theEvictSet u \<and> TranslationsFromTLB u' = TranslationsFromTLB u"
proof -
  from snoop_ok[OF assms] obtain u' c where u': "fetchReply t u = Inr u'" "unqueued u' = unqueued (u\<lparr>theI := c\<rparr>)" "uf_ok (u\<lparr>theI := c\<rparr>)" "answered t r u u'"
    "\<forall>b. cached c b \<longleftrightarrow> cached (theI u) b \<and> \<not> (takes_away (mm_type (mt_msg t)) \<and> ic_line (theI u) b = ic_line (theI u) a)" by blast
  show ?thesis using u'(1,3,4,5) unqueuedD[OF u'(2)] by (intro exI[of _ u']) simp
qed


text \<open>C24: A fetch never overtakes the eviction of its block. In a cycle the unit sends a prefix of its miss queue, in order and
  each request once, and stops only when the channel takes no more or at a fetch of a block whose eviction has not
  been acknowledged; snoop messages and, where there is a channel for them, replies leave in order, too.\<close>

theorem sendMisses_interlock:
  "\<exists>n. sent (sendMisses env u) = sent u @ map (\<lambda>t. FetchMissOut (with_core u t)) (take n (theMissQueue u)) @
       map (\<lambda>t. FetchSnoopOut (with_core u t)) (take (FetchSnoopOut_space env) (theSnoopQueue u)) @
       (if cfg_UseReplyChannel (cfg u) then map (\<lambda>t. FetchReplyOut (with_core u t)) (take (FetchReplyOut_space env) (theReplyQueue u)) else []) \<and>
     theMissQueue (sendMisses env u) = drop n (theMissQueue u) \<and>
     (\<forall>t \<in> set (take n (theMissQueue u)). isEvictType (mt_msg t) \<or> (mm_address (mt_msg t) AND theBlockMask u) \<notin> theEvictSet u) \<and>
     n \<le> length (theMissQueue u) \<and> (n < length (theMissQueue u) \<longrightarrow> n = FetchMissOut_space env \<or> blocked u (theMissQueue u ! n))"
proof -
  let ?q = "theMissQueue u" and ?P = "\<lambda>t. \<not> blocked u t" and ?k = "FetchMissOut_space env"
  define n where "n = min ?k (length (takeWhile ?P ?q))"
  have l: "length (takeWhile ?P ?q) \<le> length ?q" by (rule length_takeWhile_le)
  have tk: "take ?k (takeWhile ?P ?q) = take n ?q" unfolding n_def by (subst takeWhile_eq_take) (rule take_take)
  moreover have "length (take ?k (takeWhile ?P ?q)) = n" by (simp add: n_def min.commute)
  moreover have "with_core (u\<lparr>theMissQueue := a, sent := b\<rparr>) = with_core u" "with_core (u\<lparr>theMissQueue := a, sent := b, theSnoopQueue := c, sent := d\<rparr>) = with_core u"
    for a b c d by (simp_all add: with_core_def fun_eq_iff)
  ultimately have "sent (sendMisses env u) = sent u @ map (\<lambda>t. FetchMissOut (with_core u t)) (take n ?q) @
       map (\<lambda>t. FetchSnoopOut (with_core u t)) (take (FetchSnoopOut_space env) (theSnoopQueue u)) @
       (if cfg_UseReplyChannel (cfg u) then map (\<lambda>t. FetchReplyOut (with_core u t)) (take (FetchReplyOut_space env) (theReplyQueue u)) else [])"
    "theMissQueue (sendMisses env u) = drop n ?q"
    by (simp_all add: sendMisses_def Let_def send_misses_takeWhile send_snoops_take send_replies_take with_core_def)
  moreover have "?P t" if "t \<in> set (take n ?q)" for t using that unfolding tk[symmetric] by (auto dest: in_set_takeD set_takeWhileD)
  moreover have "n = ?k \<or> blocked u (?q ! n)" if "n < length ?q"
  proof (cases "?k \<le> length (takeWhile ?P ?q)")
    case False
    then have "n = length (takeWhile ?P ?q)" by (simp add: n_def)
    then show ?thesis using nth_length_takeWhile[of ?P ?q] that by simp
  qed (simp add: n_def)
  moreover have "n \<le> length ?q" using l by (simp add: n_def)
  ultimately show ?thesis unfolding blocked_def by (intro exI[of _ n]) blast
qed

section \<open>Progress\<close>

definition in_flight :: "uFetch \<Rightarrow> bool" where
  "in_flight u \<longleftrightarrow> distinct (map fo_PC (theOpcodes (theBundle u))) \<and> (\<forall>v. outstanding v u = unresolved v u) \<and>
     distinct (map theID (TranslationsFromTLB u))"

definition all_answered :: "emulator \<Rightarrow> Translation list \<Rightarrow> uFetch \<Rightarrow> bool" where
  "all_answered em trs u \<longleftrightarrow> distinct (map theID trs) \<and> theID ` set trs = theID ` set (TranslationsFromTLB u) \<and> (\<forall>tr \<in> set trs. answer_ok em tr u)"

lemma answer_one:
  assumes ok: "uf_ok u" and fl: "in_flight u" and al: "all_answered em (tr # trs) u"
  shows "\<exists>ts ops u1. push_iTranslationIn em tr u = Inr u1 \<and> u1 = u\<lparr>TranslationsFromTLB := ts, theBundle := (theBundle u)\<lparr>theOpcodes := ops\<rparr>\<rparr> \<and>
    map fo_PC ops = map fo_PC (theOpcodes (theBundle u)) \<and> uf_ok u1 \<and> in_flight u1 \<and> all_answered em trs u1 \<and> op_ok em (TranslationIn tr) u"
proof -
  have a: "answer_ok em tr u" using al by (simp add: all_answered_def)
  obtain t where t: "t \<in> set (TranslationsFromTLB u)" "theID t = theID tr" using al by (fastforce simp: all_answered_def)
  from push_iTranslationIn_ok[OF ok a t] obtain pre x post tpre y tpost where r: "theOpcodes (theBundle u) = pre @ x # post" "fo_PC x = theVaddr tr"
    "TranslationsFromTLB u = tpre @ y # tpost" "theID y = theID tr" "theVaddr y = theVaddr tr"
    "push_iTranslationIn em tr u = Inr (u\<lparr>TranslationsFromTLB := tpre @ tpost,
      theBundle := (theBundle u)\<lparr>theOpcodes := pre @ x\<lparr>theOpcode := opcode_of em u tr\<rparr> # post\<rparr>\<rparr>)" by blast
  let ?ops = "pre @ x\<lparr>theOpcode := opcode_of em u tr\<rparr> # post"
  let ?u = "u\<lparr>TranslationsFromTLB := tpre @ tpost, theBundle := (theBundle u)\<lparr>theOpcodes := ?ops\<rparr>\<rparr>"
  have pc: "map fo_PC ?ops = map fo_PC (theOpcodes (theBundle u))" by (simp add: r(1))
  have o0: "opcode_of em u tr \<noteq> 0" by (simp add: opcode_of_def Let_def)
  have d: "distinct (map fo_PC (pre @ x # post))" using fl r(1) by (simp add: in_flight_def)
  have eq: "outstanding v u = unresolved v u" for v using fl by (simp add: in_flight_def)
  have x0: "theOpcode x = 0"
  proof (rule ccontr)
    assume "theOpcode x \<noteq> 0"
    then have "filter (\<lambda>i. fo_PC i = theVaddr tr \<and> theOpcode i = 0) (pre @ x # post) = []" using d r(2) by (force simp: filter_empty_conv)
    then have "unresolved (theVaddr tr) u = 0" by (simp only: unresolved_def r(1)) simp
    moreover have "outstanding (theVaddr tr) u \<noteq> 0" by (simp add: outstanding_def r(3,5))
    ultimately show False using eq by simp
  qed
  have "outstanding v ?u = unresolved v ?u" for v
    using eq[of v] x0 o0 r(2,5) by (auto simp: outstanding_def unresolved_def r(1,3) split: if_splits)
  moreover have di: "distinct (map theID (tpre @ y # tpost))" using fl r(3) by (simp add: in_flight_def)
  ultimately have fl': "in_flight ?u" using d by (auto simp: in_flight_def)
  have "theID tr \<notin> theID ` set (tpre @ tpost)" using di r(4) by auto
  then have ids: "theID ` set (tpre @ tpost) = theID ` set (TranslationsFromTLB u) - {theID tr}" unfolding r(3) using r(4) by (simp add: image_Un)
  have "answer_ok em s ?u" if "answer_ok em s u" for s using that by (auto simp: answer_ok_def r(3) cpu_def)
  moreover have "theID tr \<notin> theID ` set trs" "insert (theID tr) (theID ` set trs) = theID ` set (TranslationsFromTLB u)"
    using al by (simp_all add: all_answered_def)
  then have "theID ` set trs = theID ` set (tpre @ tpost)" unfolding ids by (metis Diff_insert_absorb)
  ultimately have "all_answered em trs ?u" using al by (simp add: all_answered_def)
  moreover have "uf_ok ?u" using push_iTranslationIn_uf_ok[OF ok a] r(6) by simp
  ultimately show ?thesis using r(6) pc fl' a by (intro exI[of _ "tpre @ tpost"] exI[of _ ?ops] exI[of _ ?u]) (simp add: op_ok_def)
qed

lemma answer_rest:
  "uf_ok u \<Longrightarrow> in_flight u \<Longrightarrow> all_answered em trs u \<Longrightarrow>
   \<exists>u'. fetch_run em (map TranslationIn trs) u u' \<and> uf_ok u' \<and> in_flight u' \<and> TranslationsFromTLB u' = [] \<and>
     map fo_PC (theOpcodes (theBundle u')) = map fo_PC (theOpcodes (theBundle u)) \<and> theFAQ u' = theFAQ u \<and> theThreads u' = theThreads u \<and>
     cfg u' = cfg u \<and> flexusIndex u' = flexusIndex u \<and> theBlockMask u' = theBlockMask u \<and> sent u' = sent u"
proof (induction trs arbitrary: u)
  case Nil
  then show ?case by (intro exI[of _ u]) (auto simp: all_answered_def intro: fetch_run.nil)
next
  case (Cons tr trs)
  from answer_one[OF Cons.prems] obtain ts ops u1 where u1: "push_iTranslationIn em tr u = Inr u1"
    "u1 = u\<lparr>TranslationsFromTLB := ts, theBundle := (theBundle u)\<lparr>theOpcodes := ops\<rparr>\<rparr>" "map fo_PC ops = map fo_PC (theOpcodes (theBundle u))"
    "uf_ok u1" "in_flight u1" "all_answered em trs u1" "op_ok em (TranslationIn tr) u" by blast
  from Cons.IH[OF u1(4-6)] obtain u' where "fetch_run em (map TranslationIn trs) u1 u'" and u': "uf_ok u'" "in_flight u'" "TranslationsFromTLB u' = []"
     "map fo_PC (theOpcodes (theBundle u')) = map fo_PC (theOpcodes (theBundle u1))" "theFAQ u' = theFAQ u1" "theThreads u' = theThreads u1"
     "cfg u' = cfg u1" "flexusIndex u' = flexusIndex u1" "theBlockMask u' = theBlockMask u1" "sent u' = sent u1" by blast
  then have "fetch_run em (map TranslationIn (tr # trs)) u u'" using u1(1,7) by (auto simp: uf_do_def intro: fetch_run.cons)
  then show ?case using u' u1(2,3) by (intro exI[of _ u']) simp
qed

text \<open>With every translation answered, the next cycle of a thread without a miss delivers the bundle.\<close>

lemma drive_delivers:
  assumes ok: "uf_ok u" and fl: "in_flight u" and t: "TranslationsFromTLB u = []" and d: "op_ok em (Drive env td) u"
    and m: "theIcacheMiss (theThreads u ! (if cfg_Threads (cfg u) > 1 then td else 0)) = None"
  shows "\<exists>u'. uf_do em (Drive env td) u = Inr u' \<and> delivered u' = delivered u @ theOpcodes (theBundle u)"
proof -
  let ?i = "if cfg_Threads (cfg u) > 1 then td else 0" and ?ops = "theOpcodes (theBundle u)" and ?P = "\<lambda>i. theOpcode i \<noteq> 0"
  have "drive_ok em env ?i u" using d by (simp add: op_ok_def)
  from drive_spec[OF ok this refl] m obtain n u1 where u1: "uf_drive em env td u = Inr (sendMisses env (processBundle u1))" "moved ?i n u u1"
    unfolding if_P[OF m] by blast
  then obtain ops where o: "theOpcodes (theBundle u1) = ?ops @ ops" "delivered u1 = delivered u"
      "map (\<lambda>x. (fo_PC x, theOpcode x, fo_BPState x)) ops = map (\<lambda>f. (theAddress f, 0, fa_BPState f)) (take n (theFAQ u ! ?i))"
    by (auto simp: moved_def delivered_def)
  have "map theOpcode ops = map (\<lambda>_. 0) (take n (theFAQ u ! ?i))" using arg_cong[OF o(3), of "map (\<lambda>p. fst (snd p))"] by (simp add: comp_def)
  then have "set (map theOpcode ops) \<subseteq> {0}" by (simp only:) auto
  then have z: "takeWhile ?P ops = []" by (cases ops) auto
  have "?P x" if "x \<in> set ?ops" for x
  proof
    assume "theOpcode x = 0"
    then have "unresolved (fo_PC x) u \<noteq> 0" using that by (auto simp: unresolved_def filter_empty_conv)
    moreover have "outstanding (fo_PC x) u = 0" by (simp add: outstanding_def t)
    ultimately show False using fl by (simp add: in_flight_def)
  qed
  then have tw: "takeWhile ?P (?ops @ ops) = ?ops" using z by (simp add: takeWhile_append2)
  have "delivered (processBundle u1) = delivered u1 @ takeWhile ?P (theOpcodes (theBundle u1))"
    by (auto simp: processBundle_def Let_def send_def delivered_def List.map_filter_def takeWhile_eq_Nil_iff)
  then have "delivered (sendMisses env (processBundle u1)) = delivered u @ ?ops"
    unfolding o(1) tw o(2) by (simp add: delivered_def sendMisses_frame)
  then show ?thesis using u1(1) by (simp add: uf_do_def)
qed

text \<open>C21: Fetching makes progress: when the addresses in the bundle differ, every instruction without its word has its
  translation request outstanding, and the thread of the cycle does not wait for an instruction cache miss, then answers to
  all of these requests, in any order, and one cycle deliver every instruction of the bundle. (While the thread waits for
  a miss a cycle delivers nothing. The cycle may be a quiescing one if the thread has enough queued addresses or the bundle is full.)\<close>

theorem fetch_progress:
  assumes ok: "uf_ok u" and fl: "in_flight u" and al: "all_answered em trs u" and d: "op_ok em (Drive env td) u"
    and m: "theIcacheMiss (theThreads u ! (if cfg_Threads (cfg u) > 1 then td else 0)) = None"
  shows "\<exists>u'. fetch_run em (map TranslationIn trs @ [Drive env td]) u u' \<and>
    map fo_PC (delivered u') = map fo_PC (delivered u) @ map fo_PC (theOpcodes (theBundle u))"
proof -
  from answer_rest[OF ok fl al] obtain u1 where u1: "fetch_run em (map TranslationIn trs) u u1" "uf_ok u1" "in_flight u1" "TranslationsFromTLB u1 = []"
     "map fo_PC (theOpcodes (theBundle u1)) = map fo_PC (theOpcodes (theBundle u))" "theFAQ u1 = theFAQ u" "theThreads u1 = theThreads u"
     "cfg u1 = cfg u" "flexusIndex u1 = flexusIndex u" "theBlockMask u1 = theBlockMask u" "sent u1 = sent u" by blast
  have same_size: "theMissQueueSize u1 = theMissQueueSize u" "length (theOpcodes (theBundle u1)) = length (theOpcodes (theBundle u))"
    "fetch_limit env u1 = fetch_limit env u"
    using u1(2,5,8) ok map_eq_imp_length_eq[OF u1(5)] by (simp_all add: uf_ok_def side_ok_def fetch_limit_def split: option.split)
  have d1: "op_ok em (Drive env td) u1" using d u1 same_size by (simp add: op_ok_def drive_ok_def quiesce_ok_def translated_def cpu_def)
  from drive_delivers[OF u1(2-4) d1] m u1(7,8) obtain u' where u': "uf_do em (Drive env td) u1 = Inr u'" "delivered u' = delivered u1 @ theOpcodes (theBundle u1)"
    by auto
  have "fetch_run em [Drive env td] u1 u'" using d1 u'(1) by (auto intro: fetch_run.intros)
  then have "fetch_run em (map TranslationIn trs @ [Drive env td]) u u'" using fetch_run_append[OF u1(1)] by blast
  then show ?thesis using u'(2) u1(5) by (intro exI[of _ u']) (simp add: delivered_def u1(11))
qed

section \<open>The same address twice\<close>

definition stuck :: "uFetch \<Rightarrow> bool" where
  "stuck u \<longleftrightarrow> TranslationsFromTLB u = [] \<and> theOpcodes (theBundle u) \<noteq> [] \<and> theOpcode (hd (theOpcodes (theBundle u))) = 0 \<and>
     cfg_MissQueueSize (cfg u) \<le> length (theOpcodes (theBundle u))"

lemma stuck_step:
  assumes ok: "uf_ok u" and st: "stuck u" and x: "op_ok em x u" "\<not> flushes x" and r: "uf_do em x u = Inr u'"
  shows "stuck u' \<and> theOpcodes (theBundle u') = theOpcodes (theBundle u) \<and> delivered u' = delivered u \<and> uf_ok u'"
proof -
  from step_ok[OF ok x(1)] r have g: "good_step em x u u'" by simp
  consider "aside x" | t where "x = TranslationIn t" | env td where "x = Drive env td"
    using x(2) by (cases x) (auto simp: aside_def flushes_def)
  then show ?thesis
  proof cases
    case 1
    then show ?thesis using g st by (simp add: good_step_def stuck_def)
  next
    case (2 t)
    then have "u' = u" using r st by (simp add: uf_do_def push_iTranslationIn_def stuck_def)
    then show ?thesis using ok st by simp
  next
    case (3 env td)
    let ?i = "if cfg_Threads (cfg u) > 1 then td else 0"
    have "drive_ok em env ?i u" using x(1) 3 by (simp add: op_ok_def)
    from drive_spec[OF ok this refl] obtain n u1 where u1: "uf_drive em env td u = Inr (sendMisses env (if theIcacheMiss (theThreads u ! ?i) = None then processBundle u1 else u1))"
      "moved ?i n u u1" "n \<noteq> 0 \<longrightarrow> length (theOpcodes (theBundle u)) < theMissQueueSize u" by blast
    have "n = 0" using u1(3) st ok by (auto simp: stuck_def uf_ok_def side_ok_def)
    then have e: "theOpcodes (theBundle u1) = theOpcodes (theBundle u)" "TranslationsFromTLB u1 = TranslationsFromTLB u" "delivered u1 = delivered u" "cfg u1 = cfg u"
      using u1(2) by (auto simp: moved_def delivered_def)
    then have "processBundle u1 = u1" using st by (simp add: processBundle_def stuck_def Let_def)
    then have "(if theIcacheMiss (theThreads u ! ?i) = None then processBundle u1 else u1) = u1" by simp
    then have "u' = sendMisses env u1" using r u1(1) 3 unfolding uf_do_def by (simp only: uf_op.case sum.inject)
    then have "theBundle u' = theBundle u1" "delivered u' = delivered u1" "TranslationsFromTLB u' = TranslationsFromTLB u1" "cfg u' = cfg u1"
      by (simp_all add: sendMisses_frame delivered_def)
    then show ?thesis using st e g by (simp add: stuck_def good_step_def)
  qed
qed

text \<open>An answered translation is given to the first instruction of the bundle with its address, so when an address is in
  the bundle twice the second one keeps waiting for a translation that is no longer outstanding. Once such an
  instruction heads a bundle of the size of the miss queue, the unit is at a standstill: without a squash or a
  resynchronisation it delivers nothing, whatever comes in.\<close>

theorem duplicate_fetch_stuck:
  assumes "uf_ok u" "stuck u" "fetch_run em xs u u'" "\<forall>x \<in> set xs. \<not> flushes x"
  shows "delivered u' = delivered u \<and> theOpcodes (theBundle u') = theOpcodes (theBundle u)"
proof -
  have "delivered u' = delivered u \<and> theOpcodes (theBundle u') = theOpcodes (theBundle u)"
    if "fetch_run em xs u u'" "uf_ok u" "stuck u" "\<forall>x \<in> set xs. \<not> flushes x" for u u'
    using that
  proof (induction rule: fetch_run.induct)
    case (cons x u u1 xs u2)
    then show ?case using stuck_step[OF cons.prems(1,2) cons.hyps(1) _ cons.hyps(2)] by auto
  qed simp
  then show ?thesis using assms by blast
qed

section \<open>A unit with a small cache\<close>

definition demo_cfg :: uFetchConfig where
  "demo_cfg = \<lparr>cfg_MaxFetchLines = 2, cfg_MaxFetchInstructions = 8, cfg_ICacheLineSize = 64, cfg_PerfectICache = True, cfg_PrefetchEnabled = True,
     cfg_CleanEvict = True, cfg_Size = 256, cfg_Associativity = 2, cfg_MissQueueSize = 4, cfg_Threads = 1, cfg_SendAcks = False,
     cfg_UseReplyChannel = True, cfg_EvictOnSnoop = False\<rparr>"

definition demo_xlat :: Translation where
  "demo_xlat = \<lparr>theVaddr = 0, thePaddr = 0, thePSTATE = 0, theIndex = 0, theType = eFetch, theTLBstatus = kTLBhit, theTLBtype = kINST, theException = 0,
     theTTEEntry = 0, theReady = False, theWaiting = False, theDone = True, theCurrentTranslationLevel = 0, rawTTEValue = 0, theID = 0, theAnnul = False,
     theTimeoutCounter = 0, thePageFault = False, trace_addresses = [], inTraceMode = False, theInstruction = None\<rparr>"

definition demo_em :: emulator where
  "demo_em = \<lparr>translateVirtualAddress = (\<lambda>_ v. v), fetchInstruction = (\<lambda>_ v. ucast v), allocated = demo_xlat\<rparr>"

definition demo_env :: fetch_env where
  "demo_env = \<lparr>available_FIQ = Some 8, uf_quiescing = False, iTranslationOut_available = True, FetchMissOut_space = 1, FetchSnoopOut_space = 1,
     FetchReplyOut_space = 1\<rparr>"

definition demo_msg :: "MemoryMessageType \<Rightarrow> 64 word \<Rightarrow> MemoryTransport" where
  "demo_msg ty a = \<lparr>mt_msg = MemoryMessage_at ty a, mt_dest = None, mt_tracker = None\<rparr>"

definition demo_fetch :: "64 word \<Rightarrow> FetchAddr" where
  "demo_fetch a = \<lparr>theAddress = a, fa_BPState = None\<rparr>"

definition demo_answer :: "nat \<Rightarrow> 64 word \<Rightarrow> uf_op" where
  "demo_answer k a = TranslationIn (demo_xlat\<lparr>theID := k, theVaddr := a, thePaddr := a\<rparr>)"

definition uf_exec :: "emulator \<Rightarrow> uf_op list \<Rightarrow> uFetch \<Rightarrow> uFetch res" where
  "uf_exec em = foldE (\<lambda>x u. if op_ok em x u then uf_do em x u else Inl AssertionFailed)"

lemma uf_exec_run: "uf_exec em xs u = Inr u' \<Longrightarrow> fetch_run em xs u u'"
proof (induction xs arbitrary: u)
  case (Cons x xs)
  then show ?case by (auto simp: uf_exec_def bindE_def split: sum.splits if_splits intro: fetch_run.cons)
qed (simp add: uf_exec_def fetch_run.nil)

definition demo_state :: "SimCache \<Rightarrow> FetchAddr list \<Rightarrow> FetchedOpcode list \<Rightarrow> tFillLevel list \<Rightarrow> Translation list \<Rightarrow> nat \<Rightarrow> fetch_out list \<Rightarrow> uFetch" where
  "demo_state i q ops fl ts n out = \<lparr>theFAQ = [q], cfg_FAQSize = 32, cfg = demo_cfg, flexusIndex = 0,
     theBundle = \<lparr>theOpcodes = ops, theFillLevels = fl, coreID = 0\<rparr>, theI = i,
     theThreads = [new_thread], theEvictSet = {}, theLastVTagSet = 0, theLastPhysical = 0, theIndexShift = 6, theBlockMask = NOT 63,
     theMissQueueSize = 4, theBundleCoreID = 0, theMissQueue = [], theSnoopQueue = [], theReplyQueue = [], TranslationsFromTLB = ts,
     translationID = n, sent = out\<rparr>"

definition demo_request :: "nat \<Rightarrow> 64 word \<Rightarrow> Translation" where
  "demo_request n a = setInstr (demo_xlat\<lparr>theTLBstatus := kTLBunresolved, theTLBtype := kNONE, theID := n, theVaddr := a, theDone := False\<rparr>)"

definition demo_op :: "64 word \<Rightarrow> 32 word \<Rightarrow> FetchedOpcode" where
  "demo_op a w = \<lparr>fo_PC = a, theOpcode = w, fo_BPState = None, theTransaction = None\<rparr>"

lemma demo_state_sel:
  "theFAQ (demo_state i q ops fl ts n out) = [q]" "cfg (demo_state i q ops fl ts n out) = demo_cfg" "flexusIndex (demo_state i q ops fl ts n out) = 0"
  "theOpcodes (theBundle (demo_state i q ops fl ts n out)) = ops" "theThreads (demo_state i q ops fl ts n out) = [new_thread]"
  "theBlockMask (demo_state i q ops fl ts n out) = - 64" "theMissQueueSize (demo_state i q ops fl ts n out) = 4"
  "TranslationsFromTLB (demo_state i q ops fl ts n out) = ts" "sent (demo_state i q ops fl ts n out) = out"
  by (simp_all add: demo_state_def)

lemma demo_cfg_sel:
  "cfg_MaxFetchLines demo_cfg = 2" "cfg_MaxFetchInstructions demo_cfg = 8" "cfg_PerfectICache demo_cfg" "cfg_MissQueueSize demo_cfg = 4" "cfg_Threads demo_cfg = 1"
  "theIcacheMiss new_thread = None" "theCPUState new_thread = \<lparr>cs_TL = 0, cs_PSTATE = 0\<rparr>" "theFetchReplyTransactionTracker new_thread = None"
  "available_FIQ demo_env = Some 8" "\<not> uf_quiescing demo_env" "iTranslationOut_available demo_env"
  "theAddress (demo_fetch a) = a" "fa_BPState (demo_fetch a) = None" "translateVirtualAddress demo_em k a = a"
  by (simp_all add: demo_cfg_def new_thread_def demo_env_def demo_fetch_def demo_em_def)

lemma demo_config: "fetch_config 6 1 2 demo_cfg"
  by (simp add: fetch_config_def demo_cfg_def)

lemma demo_init: "\<exists>i. uf_initialize demo_cfg 32 0 0 = Inr (demo_state i [] [] [] [] 0 []) \<and> uf_ok (demo_state i [] [] [] [] 0 []) \<and> (\<forall>a. \<not> cached i a)"
proof -
  from SimCache_init_ok[of 2 6 1] obtain i where i: "SimCache_init 256 2 64 = Inr i" "keys_of i = replicate 2 []" "ic_ok i" by auto
  moreover have "LOG2 64 = 6" using LOG2_power[of 6] by simp
  ultimately have "uf_initialize demo_cfg 32 0 0 = Inr (demo_state i [] [] [] [] 0 [])" by (simp add: uf_initialize_def demo_cfg_def demo_state_def)
  moreover have "\<not> cached i a" for a using ic_index_less[OF i(3), of "ic_line i a"] i(2) by (simp add: cached_def)
  ultimately show ?thesis using uf_initialize_ok[OF demo_config, of 32 0 0] by auto
qed

lemma demo_push_ok:
  "op_ok demo_em (FetchAddressIn 0 fs) (demo_state i [] [] [] [] 0 [])"
  "uf_do demo_em (FetchAddressIn 0 fs) (demo_state i [] [] [] [] 0 []) = Inr (demo_state i fs [] [] [] 0 [])"
  by (simp_all add: op_ok_def demo_state_sel demo_cfg_sel uf_do_def push_FetchAddressIn_def) (simp add: demo_state_def)

lemma demo_fetch_one: "n < 100 \<Longrightarrow> fetch_one demo_em demo_env 0 (demo_fetch a) (demo_state i (x # q) ops fl ts n out) =
    Inr (demo_state i q (ops @ [demo_op a 0]) (fl @ [eL1I]) (ts @ [demo_request n a]) (n + 1) (out @ [iTranslationOut (demo_request n a)]))"
  by (simp add: fetch_one_def sendFetchRequest_def new_translation_def Translation_new_def demo_em_def demo_env_def demo_xlat_def thread_at_def Let_def
      setInstr_def send_def demo_state_def demo_fetch_def demo_op_def demo_request_def new_thread_def)

lemma demo_fetch_line:
  "fetch_line demo_em 0 b [] (demo_state i q ops fl ts n out) = Inr (Some [b], demo_state i q ops fl ts n (out @ [InstructionFetchSeen]))"
  "fetch_line demo_em 0 b [b] u = Inr (Some [b], u)"
  by (simp_all add: fetch_line_def demo_state_def demo_cfg_def send_def)

lemma demo_processBundle:
  "processBundle (demo_state i q ops fl ts n out) = (if ops = [] \<or> theOpcode (hd ops) = 0 then demo_state i q ops fl ts n out
     else demo_state i q (dropWhile (\<lambda>i. theOpcode i \<noteq> 0) ops) fl ts n (out @ [FetchBundleOut \<lparr>theOpcodes = takeWhile (\<lambda>i. theOpcode i \<noteq> 0) ops, theFillLevels = [], coreID = 0\<rparr>]))"
  by (simp add: processBundle_def demo_state_def send_def Let_def)

lemma demo_send: "sendMisses demo_env (demo_state i q ops fl ts n out) = demo_state i q ops fl ts n out"
  by (simp add: sendMisses_def demo_env_def demo_state_def demo_cfg_def)

lemma demo_tick: "send ClockTickSeen (demo_state i q ops fl ts n out) = demo_state i q ops fl ts n (out @ [ClockTickSeen])"
  by (simp add: send_def demo_state_def)

lemma demo_opcode [simp]:
  "theOpcode (demo_op a w) = w" "fo_PC (demo_op a w) = a" "theID (demo_request n a) = n" "theVaddr (demo_request n a) = a" "theIndex (demo_request n a) = 0"
  by (simp_all add: demo_op_def demo_request_def demo_xlat_def setInstr_def)


fun demo_requests :: "nat \<Rightarrow> 64 word list \<Rightarrow> Translation list" where
  "demo_requests n [] = []"
| "demo_requests n (a # as) = demo_request n a # demo_requests (n + 1) as"

lemma demo_loop:
  "length as \<le> k \<Longrightarrow> n + length as < 100 \<Longrightarrow> \<forall>a \<in> set as. a AND - 64 = b \<Longrightarrow>
   fetch_loop demo_em demo_env 0 k [b] (demo_state i (map demo_fetch as) ops fl ts n out) =
   Inr (demo_state i [] (ops @ map (\<lambda>a. demo_op a 0) as) (fl @ map (\<lambda>_. eL1I) as) (ts @ demo_requests n as) (n + length as) (out @ map iTranslationOut (demo_requests n as)))"
proof (induction as arbitrary: k n ops fl ts out)
  case Nil
  then show ?case by (cases k) (simp_all add: demo_state_sel demo_cfg_sel)
next
  case (Cons a as)
  then obtain k' where "k = Suc k'" by (cases k) auto
  then show ?case using Cons by (simp add: demo_state_sel demo_cfg_sel demo_fetch_line demo_fetch_one)
qed

lemma demo_drive:
  assumes "length (a # as) \<le> 8" "n + length (a # as) < 100" "\<forall>x \<in> set (a # as). x AND - 64 = b" "b \<noteq> 0"
  shows "op_ok demo_em (Drive demo_env 0) (demo_state i (map demo_fetch (a # as)) [] fl ts n out)"
    "uf_do demo_em (Drive demo_env 0) (demo_state i (map demo_fetch (a # as)) [] fl ts n out) =
     Inr (demo_state i [] (map (\<lambda>a. demo_op a 0) (a # as)) (fl @ map (\<lambda>_. eL1I) (a # as)) (ts @ demo_requests n (a # as)) (n + length (a # as))
       (out @ [ClockTickSeen, InstructionFetchSeen] @ map iTranslationOut (demo_requests n (a # as))))"
proof -
  have "b AND - 64 = b" using assms(3) by (auto simp: and.assoc)
  then show "op_ok demo_em (Drive demo_env 0) (demo_state i (map demo_fetch (a # as)) [] fl ts n out)"
    using assms(3,4) by (simp add: op_ok_def drive_ok_def demo_state_sel demo_cfg_sel translated_def)
  have "fetch_loop demo_em demo_env 0 (Suc k) [] (demo_state i (map demo_fetch (a # as)) [] fl ts n (out @ [ClockTickSeen])) =
     Inr (demo_state i [] (map (\<lambda>a. demo_op a 0) (a # as)) (fl @ map (\<lambda>_. eL1I) (a # as)) (ts @ demo_requests n (a # as)) (n + length (a # as))
       (out @ [ClockTickSeen, InstructionFetchSeen] @ map iTranslationOut (demo_requests n (a # as))))"
    if "length as \<le> k" for k
    using that assms by (simp add: demo_state_sel demo_cfg_sel demo_fetch_line demo_fetch_one demo_loop)
  from this[of 7] assms(1) show "uf_do demo_em (Drive demo_env 0) (demo_state i (map demo_fetch (a # as)) [] fl ts n out) =
     Inr (demo_state i [] (map (\<lambda>a. demo_op a 0) (a # as)) (fl @ map (\<lambda>_. eL1I) (a # as)) (ts @ demo_requests n (a # as)) (n + length (a # as))
       (out @ [ClockTickSeen, InstructionFetchSeen] @ map iTranslationOut (demo_requests n (a # as))))"
    by (simp add: uf_do_def uf_drive_def demo_tick demo_state_sel demo_cfg_sel doFetch_def thread_at_def demo_processBundle demo_send del: fetch_loop.simps)
qed

lemma demo_drive_empty:
  "op_ok demo_em (Drive demo_env 0) (demo_state i [] ops fl ts n out)"
  "uf_do demo_em (Drive demo_env 0) (demo_state i [] ops fl ts n out) = Inr (sendMisses demo_env (processBundle (demo_state i [] ops fl ts n (out @ [ClockTickSeen]))))"
  by (simp_all add: op_ok_def drive_ok_def translated_def uf_do_def uf_drive_def demo_tick demo_state_sel demo_cfg_sel doFetch_def thread_at_def)

lemma demo_translation:
  assumes "\<forall>t \<in> set ts. theID t \<noteq> n"
  shows "op_ok demo_em (demo_answer n a) (demo_state i q ops fl (demo_request n a # ts) m out)"
    "a \<in> fo_PC ` set ops \<Longrightarrow> uf_do demo_em (demo_answer n a) (demo_state i q ops fl (demo_request n a # ts) m out) =
       bindE (updateOpcode a (if ucast a = (0 :: 32 word) then 1 else ucast a) ops) (\<lambda>ops. Inr (demo_state i q ops fl ts m out))"
  using assms by (auto simp: op_ok_def demo_answer_def answer_ok_def demo_state_def demo_xlat_def demo_em_def demo_request_def setInstr_def uf_do_def
      push_iTranslationIn_def getFetchResponse_def Let_def cpu_def butlast_append simp del: updateOpcode.simps)

text \<open>Five fetches of one address, of which only the first is ever delivered.\<close>

lemma demo_same_answers:
  "uf_exec demo_em (map (\<lambda>n. demo_answer n 4096) [n ..< n + k]) (demo_state i [] (demo_op 4096 w # ops) fl (demo_requests n (replicate k 4096)) m out) =
     Inr (demo_state i [] (demo_op 4096 (if k = 0 then w else 4096) # ops) fl [] m out)"
proof (induction k arbitrary: n w)
  case 0
  then show ?case by (simp add: uf_exec_def)
next
  case (Suc k)
  have "n < l \<Longrightarrow> t \<in> set (demo_requests l as) \<Longrightarrow> theID t \<noteq> n" for l t as by (induction l as rule: demo_requests.induct) auto
  then have t: "\<forall>t \<in> set (demo_requests (n + 1) (replicate k 4096)). theID t \<noteq> n" by (metis less_add_one)
  have "uf_do demo_em (demo_answer n 4096) (demo_state i [] (demo_op 4096 w # ops) fl (demo_request n 4096 # demo_requests (n + 1) (replicate k 4096)) m out) =
      Inr (demo_state i [] (demo_op 4096 4096 # ops) fl (demo_requests (n + 1) (replicate k 4096)) m out)"
    by (subst demo_translation(2)[OF t]) (simp_all add: demo_op_def)
  then show ?case using demo_translation(1)[OF t] Suc.IH[of "n + 1" 4096] by (simp add: uf_exec_def upt_conv_Cons del: upt_Suc)
qed

lemma demo_stuck:
  "\<exists>xs u. fetch_run demo_em xs (demo_state i [] [] [] [] 0 []) u \<and> stuck u \<and> map fo_PC (delivered u) = [4096] \<and> cfg u = demo_cfg"
proof -
  note d = demo_drive[of 4096 "[4096, 4096, 4096, 4096]" 0 4096 i "[]" "[]" "[]", simplified]
  have five: "[4096, 4096, 4096, 4096, 4096] = replicate 5 (4096 :: 64 word)" by (simp add: numeral_eq_Suc)
  let ?z = "[demo_op 4096 0, demo_op 4096 0, demo_op 4096 0, demo_op 4096 0]" and ?fl = "[eL1I, eL1I, eL1I, eL1I, eL1I]" and ?n = "Suc (Suc (Suc (Suc (Suc 0))))"
  let ?xs = "[FetchAddressIn 0 (map demo_fetch [4096, 4096, 4096, 4096, 4096]), Drive demo_env 0]" and ?ys = "map (\<lambda>n. demo_answer n 4096) [0 ..< 0 + 5]"
  define out where "out = [ClockTickSeen, InstructionFetchSeen] @ map iTranslationOut (demo_requests 0 [4096, 4096, 4096, 4096, 4096])"
  have 1: "uf_exec demo_em ?xs (demo_state i [] [] [] [] 0 []) = Inr (demo_state i [] (demo_op 4096 0 # ?z) ?fl (demo_requests 0 (replicate 5 4096)) ?n out)"
    unfolding five[symmetric] by (simp add: uf_exec_def demo_push_ok d out_def)
  have 2: "uf_exec demo_em ?ys (demo_state i [] (demo_op 4096 0 # ?z) ?fl (demo_requests 0 (replicate 5 4096)) ?n out) =
      Inr (demo_state i [] (demo_op 4096 4096 # ?z) ?fl [] ?n out)" using demo_same_answers[of 0 5 i 0 ?z ?fl ?n out] by simp
  let ?u = "sendMisses demo_env (processBundle (demo_state i [] (demo_op 4096 4096 # ?z) ?fl [] ?n (out @ [ClockTickSeen])))"
  have 3: "fetch_run demo_em [Drive demo_env 0] (demo_state i [] (demo_op 4096 4096 # ?z) ?fl [] ?n out) ?u"
    using demo_drive_empty by (auto intro: fetch_run.intros)
  have "fetch_run demo_em (?xs @ ?ys @ [Drive demo_env 0]) (demo_state i [] [] [] [] 0 []) ?u"
    using fetch_run_append[OF uf_exec_run[OF 1] fetch_run_append[OF uf_exec_run[OF 2] 3]] .
  moreover have "stuck ?u \<and> map fo_PC (delivered ?u) = [4096] \<and> cfg ?u = demo_cfg"
    by (simp add: demo_processBundle demo_send stuck_def demo_state_sel demo_cfg_sel delivered_def out_def List.map_filter_def)
  ultimately show ?thesis by metis
qed

text \<open>Two fetches of different addresses, with their answers outstanding.\<close>

lemma demo_in_flight:
  "\<exists>u. fetch_run demo_em [FetchAddressIn 0 (map demo_fetch [4096, 4100]), Drive demo_env 0] (demo_state i [] [] [] [] 0 []) u \<and> in_flight u \<and>
   all_answered demo_em [demo_xlat\<lparr>theID := 1, theVaddr := 4100, thePaddr := 4100\<rparr>, demo_xlat\<lparr>theVaddr := 4096, thePaddr := 4096\<rparr>] u \<and>
   op_ok demo_em (Drive demo_env 0) u \<and> theIcacheMiss (theThreads u ! 0) = None \<and> cfg u = demo_cfg \<and> delivered u = [] \<and>
   theOpcodes (theBundle u) = [demo_op 4096 0, demo_op 4100 0]"
proof -
  note d = demo_drive[of 4096 "[4100]" 0 4096 i "[]" "[]" "[]", simplified]
  have "\<exists>u. uf_exec demo_em [FetchAddressIn 0 (map demo_fetch [4096, 4100]), Drive demo_env 0] (demo_state i [] [] [] [] 0 []) = Inr u \<and> in_flight u \<and>
   all_answered demo_em [demo_xlat\<lparr>theID := 1, theVaddr := 4100, thePaddr := 4100\<rparr>, demo_xlat\<lparr>theVaddr := 4096, thePaddr := 4096\<rparr>] u \<and>
   op_ok demo_em (Drive demo_env 0) u \<and> theIcacheMiss (theThreads u ! 0) = None \<and> cfg u = demo_cfg \<and> delivered u = [] \<and>
   theOpcodes (theBundle u) = [demo_op 4096 0, demo_op 4100 0]"
    by (auto simp: uf_exec_def demo_push_ok d demo_drive_empty in_flight_def all_answered_def answer_ok_def outstanding_def unresolved_def demo_state_sel
        demo_cfg_sel demo_xlat_def delivered_def List.map_filter_def)
  then show ?thesis using uf_exec_run by blast
qed


theorem fetch_unit_safe_witness:
  "\<exists>u0 xs u u'. uf_initialize demo_cfg 32 0 0 = Inr u0 \<and> fetch_run demo_em xs u0 u \<and> delivered u \<noteq> [] \<and> uf_do demo_em (SquashIn 0) u = Inr u'"
proof -
  from demo_init obtain i where i: "uf_initialize demo_cfg 32 0 0 = Inr (demo_state i [] [] [] [] 0 [])" by blast
  from demo_stuck[of i] obtain xs u where u: "fetch_run demo_em xs (demo_state i [] [] [] [] 0 []) u" "map fo_PC (delivered u) = [4096]" "cfg u = demo_cfg" by metis
  have "op_ok demo_em (SquashIn 0) u" by (simp add: op_ok_def u(3) demo_cfg_sel)
  then obtain u' where "uf_do demo_em (SquashIn 0) u = Inr u'"
    using fetch_unit_safe[OF demo_config, of 32 0 0 demo_em, unfolded i, simplified, THEN spec, THEN spec, THEN mp, OF u(1)] by auto
  then show ?thesis using i u(1,2) by (intro exI conjI) auto
qed

theorem fetch_in_order_witness:
  "\<exists>u0 xs u. uf_initialize demo_cfg 32 0 0 = Inr u0 \<and> fetch_run demo_em xs u0 u \<and> stream u = [(4096, None), (4100, None)]"
proof -
  from demo_init obtain i where i: "uf_initialize demo_cfg 32 0 0 = Inr (demo_state i [] [] [] [] 0 [])" by blast
  let ?xs = "[FetchAddressIn 0 (map demo_fetch [4096, 4100]), Drive demo_env 0]"
  from demo_in_flight[of i] obtain u where u: "fetch_run demo_em ?xs (demo_state i [] [] [] [] 0 []) u" by blast
  have fl: "\<forall>y \<in> set ?xs. \<not> flushes y" by (simp add: flushes_def)
  from u have "stream u = concat (map pushed ?xs)"
    using fetch_in_order[OF demo_config demo_cfg_sel(5), of 32 0 0 demo_em, unfolded i, simplified, THEN spec, THEN spec, THEN mp, OF conjI] fl by simp
  then have "stream u = [(4096, None), (4100, None)]" by (simp add: pushed_def demo_cfg_sel)
  then show ?thesis using i u by (intro exI conjI) auto
qed

theorem coherence_answered_witness:
  "\<exists>u u'. uf_initialize demo_cfg 32 0 0 = Inr u \<and> fetchReply (demo_msg Invalidate 4096) u = Inr u' \<and> answered (demo_msg Invalidate 4096) InvalidateAck u u'"
proof -
  from demo_init obtain i where i: "uf_initialize demo_cfg 32 0 0 = Inr (demo_state i [] [] [] [] 0 [])" "uf_ok (demo_state i [] [] [] [] 0 [])" by blast
  have "message_ok (demo_msg Invalidate 4096) (demo_state i [] [] [] [] 0 [])" "mm_type (mt_msg (demo_msg Invalidate 4096)) = Invalidate"
    by (simp_all add: message_ok_def demo_msg_def MemoryMessage_at_def MemoryMessage_new_def Let_def)
  then show ?thesis using coherence_answered[OF i(2) _ refl, of "demo_msg Invalidate 4096" InvalidateAck] i(1) by (auto simp: uf_answer_def)
qed


theorem fetch_progress_witness:
  "\<exists>u0 xs u. uf_initialize demo_cfg 32 0 0 = Inr u0 \<and> fetch_run demo_em xs u0 u \<and> map fo_PC (delivered u) = [4096, 4100]"
proof -
  from demo_init obtain i where i: "uf_initialize demo_cfg 32 0 0 = Inr (demo_state i [] [] [] [] 0 [])" "uf_ok (demo_state i [] [] [] [] 0 [])" by blast
  from demo_in_flight[of i] obtain u trs where u: "fetch_run demo_em [FetchAddressIn 0 (map demo_fetch [4096, 4100]), Drive demo_env 0] (demo_state i [] [] [] [] 0 []) u"
    "in_flight u" "all_answered demo_em trs u" "op_ok demo_em (Drive demo_env 0) u" "theIcacheMiss (theThreads u ! 0) = None" "cfg u = demo_cfg" "delivered u = []"
    "theOpcodes (theBundle u) = [demo_op 4096 0, demo_op 4100 0]" by metis
  have "uf_ok u" using fetch_run_good[OF u(1) i(2)] by blast
  from fetch_progress[OF this u(2-4)] u(5-8) obtain u' where
    "fetch_run demo_em (map TranslationIn trs @ [Drive demo_env 0]) u u'" "map fo_PC (delivered u') = [4096, 4100]" by auto
  then show ?thesis using i(1) fetch_run_append[OF u(1)] by metis
qed

theorem duplicate_fetch_stuck_witness:
  "\<exists>u0 xs u. uf_initialize demo_cfg 32 0 0 = Inr u0 \<and> fetch_run demo_em xs u0 u \<and> map fo_PC (delivered u) = [4096] \<and> length (theOpcodes (theBundle u)) \<ge> 4 \<and>
     (\<forall>ys u'. fetch_run demo_em ys u u' \<and> (\<forall>y \<in> set ys. \<not> flushes y) \<longrightarrow> map fo_PC (delivered u') = [4096])"
proof -
  from demo_init obtain i where i: "uf_initialize demo_cfg 32 0 0 = Inr (demo_state i [] [] [] [] 0 [])" "uf_ok (demo_state i [] [] [] [] 0 [])" by blast
  from demo_stuck[of i] obtain xs u where u: "fetch_run demo_em xs (demo_state i [] [] [] [] 0 []) u" "stuck u" "map fo_PC (delivered u) = [4096]" "cfg u = demo_cfg" by metis
  have "uf_ok u" using fetch_run_good[OF u(1) i(2)] by blast
  then have "map fo_PC (delivered u') = [4096]" if "fetch_run demo_em ys u u'" "\<forall>y \<in> set ys. \<not> flushes y" for ys u'
    using duplicate_fetch_stuck[OF _ u(2) that] u(3) by simp
  moreover have "length (theOpcodes (theBundle u)) \<ge> 4" using u(2,4) by (simp add: stuck_def demo_cfg_sel)
  ultimately show ?thesis using i(1) u(1,3) by metis
qed

definition demo_wait :: "SimCache \<Rightarrow> uFetch" where
  "demo_wait i = (demo_state i [] [] [] [] 0 [])\<lparr>theMissQueue := [demo_msg EvictClean 4096, demo_msg FetchReq 4100], theEvictSet := {4096}\<rparr>"

theorem sendMisses_interlock_witness:
  "\<forall>i. theMissQueue (sendMisses (demo_env\<lparr>FetchMissOut_space := 5\<rparr>) (demo_wait i)) = [demo_msg FetchReq 4100]"
proof
  fix i
  let ?u = "demo_wait i"
  have b: "\<not> blocked ?u (demo_msg EvictClean 4096)" "blocked ?u (demo_msg FetchReq 4100)"
    by (simp_all add: blocked_def demo_msg_def MemoryMessage_at_def MemoryMessage_new_def isEvictType_def demo_wait_def demo_state_def)
  have q: "theMissQueue ?u = [demo_msg EvictClean 4096, demo_msg FetchReq 4100]" by (simp add: demo_wait_def)
  from sendMisses_interlock[of "demo_env\<lparr>FetchMissOut_space := 5\<rparr>" ?u] obtain n where
    n: "theMissQueue (sendMisses (demo_env\<lparr>FetchMissOut_space := 5\<rparr>) ?u) = drop n (theMissQueue ?u)" "\<forall>t \<in> set (take n (theMissQueue ?u)). \<not> blocked ?u t"
      "n \<le> length (theMissQueue ?u)" "n < length (theMissQueue ?u) \<longrightarrow> n = 5 \<or> blocked ?u (theMissQueue ?u ! n)"
    by (auto simp: blocked_def)
  have "n \<noteq> 2" using n(2) b(2) by (auto simp: q)
  moreover have "n \<noteq> 0" using n(4) b(1) by (cases "n = 0") (simp_all add: q)
  ultimately have "n = 1" using n(3) by (simp add: q)
  then show "theMissQueue (sendMisses (demo_env\<lparr>FetchMissOut_space := 5\<rparr>) ?u) = [demo_msg FetchReq 4100]" using n(1) by (simp add: q)
qed

end
