(* ===== verification/MTFetch.thy ===== *)
theory MTFetch
  imports MTManager FetchRun
begin

text \<open>
  The fetch unit of a multithreaded core under the thread scheduler (\<^verbatim>\<open>uFetchComponent::drive\<close> with
  \<^verbatim>\<open>MTManager::scheduleFThread\<close>): the scheduler chooses the thread to serve and reads the stall signals and the
  queue lengths of the fetch unit through its ports.
\<close>

section \<open>A scheduled cycle\<close>










end
