(* ===== verification/BPWarm.thy ===== *)
theory BPWarm
  imports BranchLearning
begin

text \<open>
  Warming of the branch predictor in the trace simulator (\<^verbatim>\<open>BPWarm/BPWarmImpl.cpp\<close>), for the ARM target. Per core,
  the component remembers the last two instructions: two slots that are used in turn. When an instruction arrives,
  the branch of two instructions ago is resolved against it.
\<close>

section \<open>The component\<close>

record WarmCore =
  theFetchAddress :: "64 word list"
  theFetchState :: "BPredState list"
  theFetchType :: "eBranchType list"
  theFetchAnnul :: "bool list"
  theOne :: bool

record BPWarm =
  warm_cores :: "WarmCore list"
  warm_predictor :: Combining

definition slot :: "bool \<Rightarrow> nat" where
  "slot b = (if b then 1 else 0)"

definition fresh_core :: WarmCore where
  "fresh_core = \<lparr>theFetchAddress = [0, 0], theFetchState = replicate 2 (start_state kNonBranch 0),
     theFetchType = [kNonBranch, kNonBranch], theFetchAnnul = [False, False], theOne = False\<rparr>"

definition warm_initialize :: "nat \<Rightarrow> BPWarm res" where
  "warm_initialize cores = bindE FastCombiningImpl_new (\<lambda>p. Inr \<lparr>warm_cores = replicate cores fresh_core, warm_predictor = p\<rparr>)"

text \<open>Decoding of opcodes is only implemented for another target.\<close>

definition decode :: "32 word \<Rightarrow> eBranchType \<times> bool" where
  "decode opcode = (kNonBranch, False)"

definition doUpdate :: "64 word \<Rightarrow> nat \<Rightarrow> BPWarm \<Rightarrow> BPWarm res" where
  "doUpdate theActual anIndex w =
     bindE (vec_at (warm_cores w) anIndex) (\<lambda>c.
     let anOne = theOne c in
     bindE (vec_at (theFetchAddress c) (slot (\<not> anOne))) (\<lambda>pc.
     bindE (vec_at (theFetchAddress c) (slot anOne)) (\<lambda>other.
     bindE (vec_at (theFetchType c) (slot (\<not> anOne))) (\<lambda>ty.
     bindE (vec_at (theFetchAnnul c) (slot (\<not> anOne))) (\<lambda>annul.
     bindE (vec_at (theFetchState c) (slot (\<not> anOne))) (\<lambda>st.
     let (dir, target) =
       (if ty = kConditional then
          if annul then (if other = pc + 8 then (kNotTaken, 0) else (kTaken, theActual))
          else (if theActual = pc + 8 then (kNotTaken, 0) else (kTaken, theActual))
        else if ty = kNonBranch then (kNotTaken, 0)
        else (kTaken, theActual))
     in bindE (fast_feedback pc ty dir target st (warm_predictor w)) (\<lambda>p. Inr (w\<lparr>warm_predictor := p\<rparr>))))))))"

definition doPredict :: "nat \<Rightarrow> BPWarm \<Rightarrow> BPWarm res" where
  "doPredict anIndex w =
     bindE (vec_at (warm_cores w) anIndex) (\<lambda>c.
     bindE (vec_at (theFetchAddress c) (slot (theOne c))) (\<lambda>pc.
     bindE (vec_at (theFetchState c) (slot (theOne c))) (\<lambda>st.
     bindE (fast_predict pc st (warm_predictor w)) (\<lambda>(st, p).
     Inr (w\<lparr>warm_cores := (warm_cores w)[anIndex := c\<lparr>theFetchState := (theFetchState c)[slot (theOne c) := st]\<rparr>], warm_predictor := p\<rparr>)))))"

definition push_ITraceInModern :: "nat \<Rightarrow> 64 word \<Rightarrow> eBranchType \<Rightarrow> bool \<Rightarrow> BPWarm \<Rightarrow> BPWarm res" where
  "push_ITraceInModern anIndex aVirtualPC aFetchType aFetchAnnul w =
     bindE (vec_at (warm_cores w) anIndex) (\<lambda>c.
     bindE (vec_at (theFetchType c) (slot (\<not> theOne c))) (\<lambda>ty.
     bindE (if ty \<noteq> kNonBranch then doUpdate aVirtualPC anIndex w else Inr w) (\<lambda>w.
     let one = (\<not> theOne c) in
     bindE (vec_set (theFetchType c) (slot one) aFetchType) (\<lambda>tys.
     bindE (vec_set (theFetchAnnul c) (slot one) aFetchAnnul) (\<lambda>ans.
     let c = c\<lparr>theOne := one, theFetchType := tys, theFetchAnnul := ans\<rparr> in
     if aFetchType \<noteq> kNonBranch then
       bindE (vec_set (theFetchAddress c) (slot one) aVirtualPC) (\<lambda>as.
       bindE (vec_at (theFetchState c) (slot one)) (\<lambda>st.
       let c = c\<lparr>theFetchAddress := as, theFetchState := (theFetchState c)[slot one := st\<lparr>thePredictedType := kNonBranch\<rparr>]\<rparr> in
       doPredict anIndex (w\<lparr>warm_cores := (warm_cores w)[anIndex := c]\<rparr>)))
     else Inr (w\<lparr>warm_cores := (warm_cores w)[anIndex := c]\<rparr>))))))"

definition push_ITraceIn :: "nat \<Rightarrow> 64 word \<times> 32 word \<Rightarrow> BPWarm \<Rightarrow> BPWarm res" where
  "push_ITraceIn anIndex aPCOpcodePair w =
     (let (ty, annul) = decode (snd aPCOpcodePair) in push_ITraceInModern anIndex (fst aPCOpcodePair) ty annul w)"

text \<open>The instruction passes on to \<^verbatim>\<open>InsnOut\<close> unchanged.\<close>

definition push_InsnIn :: "nat \<Rightarrow> 64 word \<Rightarrow> 32 word \<Rightarrow> BPWarm \<Rightarrow> BPWarm res" where
  "push_InsnIn anIndex virtualInstructionAddress opcode w =
     (let (ty, annul) = decode opcode in push_ITraceInModern anIndex virtualInstructionAddress ty annul w)"

section \<open>Safety\<close>

definition warm_core_ok :: "WarmCore \<Rightarrow> bool" where
  "warm_core_ok c \<longleftrightarrow> length (theFetchAddress c) = 2 \<and> length (theFetchState c) = 2 \<and> length (theFetchType c) = 2 \<and> length (theFetchAnnul c) = 2"

definition warm_ok :: "BPWarm \<Rightarrow> bool" where
  "warm_ok w \<longleftrightarrow> bp_ok (warm_predictor w) \<and> (\<forall>c \<in> set (warm_cores w). warm_core_ok c)"

lemma slot_bound [simp]: "slot b < 2" "slot b < Suc (Suc 0)"
  by (simp_all add: slot_def)

lemma slot_other [simp]: "slot (\<not> b) \<noteq> slot b" "slot b \<noteq> slot (\<not> b)"
  by (simp_all add: slot_def)

lemma doUpdate_ok:
  assumes "warm_ok w" "i < length (warm_cores w)"
  shows "\<exists>p. doUpdate a i w = Inr (w\<lparr>warm_predictor := p\<rparr>) \<and> bp_ok p"
proof -
  have c: "warm_core_ok (warm_cores w ! i)" and p: "bp_ok (warm_predictor w)" using assms by (auto simp: warm_ok_def)
  have "\<exists>p'. bindE (fast_feedback pc ty d tg st (warm_predictor w)) (\<lambda>p. Inr (w\<lparr>warm_predictor := p\<rparr>)) = Inr (w\<lparr>warm_predictor := p'\<rparr>) \<and> bp_ok p'"
    for pc ty d tg st using fast_feedback_ok[OF p, of pc ty d tg st] by auto
  then show ?thesis using c assms(2) by (simp add: doUpdate_def Let_def warm_core_ok_def split: prod.split)
qed

lemma doPredict_ok:
  assumes "warm_ok w" "i < length (warm_cores w)"
  shows "\<exists>st p. doPredict i w = Inr (w\<lparr>warm_cores := (warm_cores w)[i := (warm_cores w ! i)
      \<lparr>theFetchState := (theFetchState (warm_cores w ! i))[slot (theOne (warm_cores w ! i)) := st]\<rparr>], warm_predictor := p\<rparr>) \<and>
    bp_ok p \<and> theBTB p = theBTB (warm_predictor w)"
proof -
  have c: "warm_core_ok (warm_cores w ! i)" and p: "bp_ok (warm_predictor w)" using assms by (auto simp: warm_ok_def)
  from predict_state_ok[OF p, of "theFetchAddress (warm_cores w ! i) ! slot (theOne (warm_cores w ! i))"] obtain st p' where
    "predict_state (theFetchAddress (warm_cores w ! i) ! slot (theOne (warm_cores w ! i))) (warm_predictor w) = Inr (st, p')"
    "bp_ok p'" "theBTB p' = theBTB (warm_predictor w)" by blast
  then show ?thesis
    using c assms(2) by (intro exI[of _ st] exI[of _ p']) (simp add: doPredict_def warm_core_ok_def fast_predict_same)
qed

definition recorded :: "64 word \<Rightarrow> eBranchType \<Rightarrow> bool \<Rightarrow> WarmCore \<Rightarrow> WarmCore \<Rightarrow> bool" where
  "recorded pc ty annul c c' \<longleftrightarrow> theOne c' = (\<not> theOne c) \<and> theFetchType c' = (theFetchType c)[slot (\<not> theOne c) := ty] \<and>
     theFetchAnnul c' = (theFetchAnnul c)[slot (\<not> theOne c) := annul] \<and>
     theFetchAddress c' = (if ty \<noteq> kNonBranch then (theFetchAddress c)[slot (\<not> theOne c) := pc] else theFetchAddress c)"

text \<open>An instruction is recorded in the slot of the one before the last, whose branch is resolved first.\<close>

lemma push_recorded:
  assumes ok: "warm_ok w" and i: "i < length (warm_cores w)"
  shows "\<exists>w' c'. push_ITraceInModern i pc ty annul w = Inr w' \<and> warm_ok w' \<and> warm_cores w' = (warm_cores w)[i := c'] \<and>
    recorded pc ty annul (warm_cores w ! i) c' \<and>
    (if theFetchType (warm_cores w ! i) ! slot (\<not> theOne (warm_cores w ! i)) \<noteq> kNonBranch
     then \<exists>w1. doUpdate pc i w = Inr w1 \<and> theBTB (warm_predictor w') = theBTB (warm_predictor w1)
     else theBTB (warm_predictor w') = theBTB (warm_predictor w))"
proof -
  let ?c = "warm_cores w ! i" and ?s = "slot (\<not> theOne (warm_cores w ! i))"
  have c: "warm_core_ok ?c" using ok i by (auto simp: warm_ok_def)
  then have l: "length (theFetchAddress ?c) = 2" "length (theFetchState ?c) = 2" "length (theFetchType ?c) = 2" "length (theFetchAnnul ?c) = 2"
    by (auto simp: warm_core_ok_def)
  obtain p1 where p1: "(if theFetchType ?c ! ?s \<noteq> kNonBranch then doUpdate pc i w else Inr w) = Inr (w\<lparr>warm_predictor := p1\<rparr>)" "bp_ok p1"
  proof (cases "theFetchType ?c ! ?s = kNonBranch")
    case True
    then show ?thesis using that[of "warm_predictor w"] ok by (simp add: warm_ok_def)
  next
    case False
    then show ?thesis using that doUpdate_ok[OF ok i, of pc] by auto
  qed
  let ?c1 = "?c\<lparr>theOne := \<not> theOne ?c, theFetchType := (theFetchType ?c)[?s := ty], theFetchAnnul := (theFetchAnnul ?c)[?s := annul]\<rparr>"
  let ?c2 = "?c1\<lparr>theFetchAddress := (theFetchAddress ?c)[?s := pc],
    theFetchState := (theFetchState ?c)[?s := (theFetchState ?c ! ?s)\<lparr>thePredictedType := kNonBranch\<rparr>]\<rparr>"
  let ?w1 = "w\<lparr>warm_predictor := p1, warm_cores := (warm_cores w)[i := ?c1]\<rparr>"
  let ?w2 = "w\<lparr>warm_predictor := p1, warm_cores := (warm_cores w)[i := ?c2]\<rparr>"
  have ok12: "warm_ok ?w1" "warm_ok ?w2"
    using ok p1(2) c by (auto simp: warm_ok_def warm_core_ok_def dest!: set_update_subset_insert[THEN subsetD])
  have run: "push_ITraceInModern i pc ty annul w = (if ty \<noteq> kNonBranch then doPredict i ?w2 else Inr ?w1)"
    using l i by (simp add: push_ITraceInModern_def p1(1) Let_def)
  from doPredict_ok[OF ok12(2), of i] i obtain st p2 where
    p2: "doPredict i ?w2 = Inr (?w2\<lparr>warm_cores := (warm_cores w)[i := ?c2\<lparr>theFetchState := (theFetchState ?c2)[?s := st]\<rparr>], warm_predictor := p2\<rparr>)"
      "bp_ok p2" "theBTB p2 = theBTB p1" by auto
  have bt: "if theFetchType ?c ! ?s \<noteq> kNonBranch then \<exists>w1. doUpdate pc i w = Inr w1 \<and> theBTB p1 = theBTB (warm_predictor w1)
      else theBTB p1 = theBTB (warm_predictor w)"
    using p1(1) by (auto split: if_splits dest: arg_cong[where f = warm_predictor])
  show ?thesis
  proof (cases "ty = kNonBranch")
    case True
    then show ?thesis using run ok12(1) bt by (auto simp: recorded_def)
  next
    case False
    let ?w' = "?w2\<lparr>warm_cores := (warm_cores w)[i := ?c2\<lparr>theFetchState := (theFetchState ?c2)[?s := st]\<rparr>], warm_predictor := p2\<rparr>"
    have "warm_ok ?w'" using ok p2(2) c by (auto simp: warm_ok_def warm_core_ok_def dest!: set_update_subset_insert[THEN subsetD])
    with False run p2 bt show ?thesis
      by (intro exI[of _ ?w'] exI[of _ "?c2\<lparr>theFetchState := (theFetchState ?c2)[?s := st]\<rparr>"]) (simp add: recorded_def)
  qed
qed

lemma warm_initialize_ok: "\<exists>w. warm_initialize n = Inr w \<and> warm_ok w \<and> warm_cores w = replicate n fresh_core"
proof -
  obtain p where p: "FastCombiningImpl_new = Inr p" "bp_ok p" using FastCombiningImpl_new_ok by blast
  have "warm_initialize n = Inr \<lparr>warm_cores = replicate n fresh_core, warm_predictor = p\<rparr>"
    by (simp only: warm_initialize_def p(1) bindE_Inr)
  moreover have "warm_core_ok fresh_core" by (simp add: fresh_core_def warm_core_ok_def)
  ultimately show ?thesis using p(2) by (auto simp: warm_ok_def)
qed

text \<open>Whatever the trace, warming the predictor never fails: every instruction of an existing core is accepted and
  the predictor keeps its invariant.\<close>

theorem warm_run_safe:
  assumes "warm_initialize n = Inr w" "\<forall>(i, pc, ty, annul) \<in> set ops. i < n"
  shows "\<exists>w'. foldE (\<lambda>(i, pc, ty, annul). push_ITraceInModern i pc ty annul) ops w = Inr w' \<and> bp_ok (warm_predictor w')"
proof -
  have "\<exists>w'. foldE (\<lambda>(i, pc, ty, annul). push_ITraceInModern i pc ty annul) ops w = Inr w' \<and> (warm_ok w' \<and> length (warm_cores w') = n)"
  proof (rule foldE_inv)
    fix op w1 assume op: "op \<in> set ops" and w1: "warm_ok w1 \<and> length (warm_cores w1) = n"
    obtain i pc ty annul where o: "op = (i, pc, ty, annul)" by (metis prod_cases4)
    then have "i < length (warm_cores w1)" using assms(2) op w1 by auto
    from push_recorded[OF conjunct1[OF w1] this, of pc ty annul] w1
    show "\<exists>s'. (case op of (i, pc, ty, annul) \<Rightarrow> push_ITraceInModern i pc ty annul) w1 = Inr s' \<and> (warm_ok s' \<and> length (warm_cores s') = n)"
      by (auto simp: o)
  next
    from warm_initialize_ok[of n] assms(1) show "warm_ok w \<and> length (warm_cores w) = n" by auto
  qed
  then show ?thesis by (auto simp: warm_ok_def)
qed

theorem warm_run_safe_witness:
  "\<exists>w w'. warm_initialize 1 = Inr w \<and> foldE (\<lambda>(i, pc, ty, annul). push_ITraceInModern i pc ty annul)
     [(0, 4096, kCall, False), (0, 8192, kNonBranch, False), (0, 8196, kReturn, False)] w = Inr w'"
proof -
  obtain w where w: "warm_initialize 1 = Inr w" using warm_initialize_ok by blast
  with warm_run_safe[OF w, of "[(0, 4096, kCall, False), (0, 8192, kNonBranch, False), (0, 8196, kReturn, False)]"] show ?thesis by auto
qed

section \<open>The target that is learnt\<close>

lemma doUpdate_target:
  assumes ok: "warm_ok w" and i: "i < length (warm_cores w)" and c: "c = warm_cores w ! i" "s = slot (\<not> theOne c)"
    and ty: "theFetchType c ! s \<noteq> kNonBranch" "\<not> theFetchAnnul c ! s" "a \<noteq> 0"
      "theFetchType c ! s = kConditional \<longrightarrow> a \<noteq> theFetchAddress c ! s + 8"
    and run: "doUpdate a i w = Inr w'"
  shows "\<exists>e. btb_entry (theBTB (warm_predictor w')) (theFetchAddress c ! s) = Some e \<and> theTarget e = a"
proof -
  let ?pc = "theFetchAddress c ! s" and ?ty = "theFetchType c ! s"
  have l: "length (theFetchAddress c) = 2" "length (theFetchState c) = 2" "length (theFetchType c) = 2" "length (theFetchAnnul c) = 2"
    and p: "bp_ok (warm_predictor w)"
    using ok i c(1) by (auto simp: warm_ok_def warm_core_ok_def)
  have "doUpdate a i w = bindE (fast_feedback ?pc ?ty kTaken a (theFetchState c ! s) (warm_predictor w)) (\<lambda>p. Inr (w\<lparr>warm_predictor := p\<rparr>))"
    using l ty i unfolding doUpdate_def Let_def c by auto
  with fast_feedback_ok[OF p, of ?pc ?ty kTaken a "theFetchState c ! s"] run obtain b where
    "btb_update ?pc ?ty a (theBTB (warm_predictor w)) = Inr (b, theBTB (warm_predictor w'))" by auto
  with btb_update_spec[of "theBTB (warm_predictor w)" ?pc ?ty a] p ty(1,3) show ?thesis
    by (auto simp: bp_ok_def entry_after_def)
qed

text \<open>On a target without delay slots the buffer is warmed with the wrong target: a taken branch whose target
  instruction is followed by the next instruction in memory leaves the address of that next instruction in the
  buffer, four bytes past the target.\<close>

theorem warm_target_past:
  assumes ok: "warm_ok w" and i: "i < length (warm_cores w)" and idle: "theFetchType (warm_cores w ! i) = [kNonBranch, kNonBranch]"
    and ty: "ty \<noteq> kNonBranch" "tg + 4 \<noteq> 0" "ty = kConditional \<longrightarrow> tg + 4 \<noteq> pc + 8"
  shows "\<exists>w1 w2 w3 e. push_ITraceInModern i pc ty False w = Inr w1 \<and> push_ITraceInModern i tg kNonBranch False w1 = Inr w2 \<and>
    push_ITraceInModern i (tg + 4) kNonBranch False w2 = Inr w3 \<and>
    btb_entry (theBTB (warm_predictor w3)) pc = Some e \<and> theTarget e = tg + 4"
proof -
  let ?c = "warm_cores w ! i" and ?s = "slot (\<not> theOne (warm_cores w ! i))"
  have l: "length (theFetchAddress ?c) = 2" "length (theFetchAnnul ?c) = 2" "length (theFetchType ?c) = 2"
    using ok i by (auto simp: warm_ok_def warm_core_ok_def)
  from push_recorded[OF ok i, of pc ty False] obtain w1 c1 where
    w1: "push_ITraceInModern i pc ty False w = Inr w1" "warm_ok w1" "warm_cores w1 = (warm_cores w)[i := c1]" "recorded pc ty False ?c c1" by blast
  then have i1: "i < length (warm_cores w1)" "warm_cores w1 ! i = c1" using i by auto
  from push_recorded[OF w1(2) i1(1), of tg kNonBranch False] obtain w2 c2 where
    w2: "push_ITraceInModern i tg kNonBranch False w1 = Inr w2" "warm_ok w2" "warm_cores w2 = (warm_cores w1)[i := c2]" "recorded tg kNonBranch False c1 c2"
    by (auto simp: i1)
  then have i2: "i < length (warm_cores w2)" "warm_cores w2 ! i = c2" using i1 by auto
  have c2: "theOne c2 = theOne ?c" "theFetchType c2 ! ?s = ty" "\<not> theFetchAnnul c2 ! ?s" "theFetchAddress c2 ! ?s = pc"
    using w1(4) w2(4) l ty(1) by (auto simp: recorded_def)
  from push_recorded[OF w2(2) i2(1), of "tg + 4" kNonBranch False] c2 ty(1) obtain w3 w4 where
    w3: "push_ITraceInModern i (tg + 4) kNonBranch False w2 = Inr w3" "doUpdate (tg + 4) i w2 = Inr w4" "theBTB (warm_predictor w3) = theBTB (warm_predictor w4)"
    by (auto simp: i2)
  have "\<exists>e. btb_entry (theBTB (warm_predictor w4)) (theFetchAddress c2 ! ?s) = Some e \<and> theTarget e = tg + 4"
    by (rule doUpdate_target[OF w2(2) i2(1) _ _ _ _ _ _ w3(2)]) (use c2 i2(2) ty in auto)
  then show ?thesis using w1(1) w2(1) w3(1,3) c2(4) by auto
qed

theorem warm_target_past_witness:
  "\<exists>w w1 w2 w3 e. warm_initialize 1 = Inr w \<and> push_ITraceInModern 0 4096 kUnconditional False w = Inr w1 \<and>
    push_ITraceInModern 0 8192 kNonBranch False w1 = Inr w2 \<and> push_ITraceInModern 0 8196 kNonBranch False w2 = Inr w3 \<and>
    btb_entry (theBTB (warm_predictor w3)) 4096 = Some e \<and> theTarget e = 8196"
proof -
  obtain w where w: "warm_initialize 1 = Inr w" "warm_ok w" "warm_cores w = [fresh_core]" using warm_initialize_ok[of 1] by auto
  with warm_target_past[of w 0 kUnconditional 8192 4096] show ?thesis by (auto simp: fresh_core_def)
qed

end
