(* ===== verification/MessageQueues.thy ===== *)
theory MessageQueues
  imports Flexus_Prelude
begin

text \<open>
  The queues of \<^verbatim>\<open>CommonQEMU/MessageQueues.hpp\<close>: a bounded queue whose slots can be reserved ahead, a queue of items that
  become ready after a delay, and a queue in front of a number of pipelined servers. Cycle counts are natural numbers; the
  counters of the bounded queue keep their 32 bits, since its checks depend on the wrap-around. The locale \<open>message_fifo\<close>
  is the contract the three share: first in, first out, and nothing lost.
\<close>

section \<open>The contract\<close>

datatype 'a fifo_op = Put nat 'a | Get

fun fifo_run :: "(nat \<Rightarrow> 'a \<Rightarrow> 'q \<Rightarrow> 'q res) \<Rightarrow> ('q \<Rightarrow> ('a \<times> 'q) res) \<Rightarrow> 'a fifo_op list \<Rightarrow> 'q \<Rightarrow> ('a list \<times> 'q) res" where
  "fifo_run put get [] q = Inr ([], q)"
| "fifo_run put get (Put t x # ops) q = bindE (put t x q) (fifo_run put get ops)"
| "fifo_run put get (Get # ops) q = bindE (get q) (\<lambda>(x, q). bindE (fifo_run put get ops q) (\<lambda>(xs, q). Inr (x # xs, q)))"

fun put_items :: "'a fifo_op list \<Rightarrow> 'a list" where
  "put_items [] = []"
| "put_items (Put t x # ops) = x # put_items ops"
| "put_items (Get # ops) = put_items ops"

locale message_fifo =
  fixes contents :: "'q \<Rightarrow> 'a list" and put :: "nat \<Rightarrow> 'a \<Rightarrow> 'q \<Rightarrow> 'q res" and get :: "'q \<Rightarrow> ('a \<times> 'q) res" and valid :: "'q \<Rightarrow> bool"
  assumes put_end: "valid q \<Longrightarrow> put t x q = Inr q' \<Longrightarrow> valid q' \<and> contents q' = contents q @ [x]"
    and get_front: "valid q \<Longrightarrow> contents q = x # xs \<Longrightarrow> \<exists>q'. get q = Inr (x, q') \<and> valid q' \<and> contents q' = xs"
    and get_empty: "valid q \<Longrightarrow> contents q = [] \<Longrightarrow> \<exists>e. get q = Inl e"
begin

lemma get_contents: "valid q \<Longrightarrow> get q = Inr (x, q') \<Longrightarrow> valid q' \<and> contents q = x # contents q'"
  using get_front[of q] get_empty[of q] by (cases "contents q") fastforce+

lemma run_conserves:
  "valid q \<Longrightarrow> fifo_run put get ops q = Inr (out, q') \<Longrightarrow> valid q' \<and> out @ contents q' = contents q @ put_items ops"
proof (induction ops arbitrary: q out)
  case (Cons op ops)
  show ?case
  proof (cases op)
    case (Put t x)
    then obtain q1 where "put t x q = Inr q1" "fifo_run put get ops q1 = Inr (out, q')"
      using Cons.prems(2) by (auto simp: bindE_Inr_iff)
    with put_end[OF Cons.prems(1)] Cons.IH[of q1 out] Put show ?thesis by auto
  next
    case Get
    then obtain x q1 xs where "get q = Inr (x, q1)" "fifo_run put get ops q1 = Inr (xs, q')" "out = x # xs"
      using Cons.prems(2) by (auto simp: bindE_Inr_iff)
    with get_contents[OF Cons.prems(1)] Cons.IH[of q1 xs] Get show ?thesis by auto
  qed
qed simp

end

section \<open>The bounded queue with reservations\<close>

record 'a MessageQueue =
  mq_theQueue :: "('a \<times> nat) list"
  mq_theSize :: "32 word"
  mq_theCurrentUsage :: "32 word"
  mq_theCurrentReserve :: "32 word"

definition MessageQueue_new :: "32 word \<Rightarrow> 'a MessageQueue" where
  "MessageQueue_new aSize = \<lparr>mq_theQueue = [], mq_theSize = aSize, mq_theCurrentUsage = 0, mq_theCurrentReserve = 0\<rparr>"

definition mq_setSize :: "32 word \<Rightarrow> 'a MessageQueue \<Rightarrow> 'a MessageQueue" where
  "mq_setSize aSize q = q\<lparr>mq_theSize := aSize\<rparr>"

definition mq_enqueue :: "nat \<Rightarrow> 'a \<Rightarrow> 'a MessageQueue \<Rightarrow> 'a MessageQueue res" where
  "mq_enqueue cycleCount aMessage q =
     (let q = q\<lparr>mq_theQueue := mq_theQueue q @ [(aMessage, cycleCount)],
                mq_theCurrentUsage := mq_theCurrentUsage q + 1, mq_theCurrentReserve := mq_theCurrentReserve q + 1\<rparr> in
      bindE (dbg_assert (mq_theCurrentReserve q \<ge> mq_theCurrentUsage q)) (\<lambda>_.
      bindE (dbg_assert (mq_theCurrentReserve q \<le> mq_theSize q)) (\<lambda>_. Inr q)))"

definition mq_dequeue :: "'a MessageQueue \<Rightarrow> ('a \<times> 'a MessageQueue) res" where
  "mq_dequeue q =
     (case mq_theQueue q of
        [] \<Rightarrow> Inl AssertionFailed
      | (ret_val, _) # rest \<Rightarrow>
          (let q = q\<lparr>mq_theQueue := rest, mq_theCurrentUsage := mq_theCurrentUsage q - 1,
                     mq_theCurrentReserve := mq_theCurrentReserve q - 1\<rparr> in
           bindE (dbg_assert (mq_theCurrentReserve q \<ge> mq_theCurrentUsage q)) (\<lambda>_.
           bindE (dbg_assert (mq_theCurrentUsage q \<ge> 0)) (\<lambda>_. Inr (ret_val, q)))))"

definition mq_peek :: "'a MessageQueue \<Rightarrow> 'a res" where
  "mq_peek q = bindE (front (mq_theQueue q)) (\<lambda>p. Inr (fst p))"

definition mq_hasSpace :: "32 word \<Rightarrow> 'a MessageQueue \<Rightarrow> bool" where
  "mq_hasSpace msgs q \<longleftrightarrow> mq_theCurrentReserve q + msgs \<le> mq_theSize q"

definition mq_headTimestamp :: "'a MessageQueue \<Rightarrow> nat res" where
  "mq_headTimestamp q = bindE (dbg_assert (mq_theQueue q \<noteq> [])) (\<lambda>_. bindE (front (mq_theQueue q)) (\<lambda>p. Inr (snd p)))"

definition mq_empty :: "'a MessageQueue \<Rightarrow> bool" where
  "mq_empty q \<longleftrightarrow> mq_theQueue q = []"

definition mq_full :: "32 word \<Rightarrow> 'a MessageQueue \<Rightarrow> bool" where
  "mq_full anAdditionalReserve q \<longleftrightarrow> mq_theCurrentReserve q + anAdditionalReserve \<ge> mq_theSize q"

definition mq_reserve_n :: "32 word \<Rightarrow> 'a MessageQueue \<Rightarrow> 'a MessageQueue res" where
  "mq_reserve_n n q =
     (let q = q\<lparr>mq_theCurrentReserve := mq_theCurrentReserve q + n\<rparr> in
      bindE (dbg_assert (mq_theCurrentReserve q \<ge> mq_theCurrentUsage q)) (\<lambda>_.
      bindE (dbg_assert (mq_theCurrentReserve q \<le> mq_theSize q)) (\<lambda>_. Inr q)))"

definition mq_reserve :: "'a MessageQueue \<Rightarrow> 'a MessageQueue res" where
  "mq_reserve q =
     (let q = q\<lparr>mq_theCurrentReserve := mq_theCurrentReserve q + 1\<rparr> in
      bindE (dbg_assert (mq_theCurrentReserve q \<ge> mq_theCurrentUsage q)) (\<lambda>_.
      bindE (dbg_assert (mq_theCurrentReserve q \<le> mq_theSize q)) (\<lambda>_. Inr q)))"

definition mq_unreserve_n :: "32 word \<Rightarrow> 'a MessageQueue \<Rightarrow> 'a MessageQueue res" where
  "mq_unreserve_n n q =
     (let q = q\<lparr>mq_theCurrentReserve := mq_theCurrentReserve q - n\<rparr> in
      bindE (dbg_assert (mq_theCurrentReserve q \<ge> mq_theCurrentUsage q)) (\<lambda>_.
      bindE (dbg_assert (mq_theCurrentReserve q \<ge> 0)) (\<lambda>_. Inr q)))"

definition mq_unreserve :: "'a MessageQueue \<Rightarrow> 'a MessageQueue res" where
  "mq_unreserve q =
     (let q = q\<lparr>mq_theCurrentReserve := mq_theCurrentReserve q - 1\<rparr> in
      bindE (dbg_assert (mq_theCurrentReserve q \<ge> mq_theCurrentUsage q)) (\<lambda>_.
      bindE (dbg_assert (mq_theCurrentReserve q \<ge> 0)) (\<lambda>_. Inr q)))"

definition mq_getReserve :: "'a MessageQueue \<Rightarrow> int" where
  "mq_getReserve q = sint (mq_theCurrentReserve q - mq_theCurrentUsage q)"

definition mq_getSize :: "'a MessageQueue \<Rightarrow> int" where
  "mq_getSize q = sint (mq_theCurrentUsage q)"

definition mq_getFreeSpace :: "'a MessageQueue \<Rightarrow> int" where
  "mq_getFreeSpace q = sint (mq_theSize q - mq_theCurrentReserve q)"

section \<open>The queue with delays\<close>

record 'a DelayFifo =
  df_theQueue :: "('a \<times> nat) list"
  df_theSize :: nat
  df_theCurrentSize :: nat

definition DelayFifo_new :: "nat \<Rightarrow> 'a DelayFifo" where
  "DelayFifo_new aSize = \<lparr>df_theQueue = [], df_theSize = aSize, df_theCurrentSize = 0\<rparr>"

definition df_setSize :: "nat \<Rightarrow> 'a DelayFifo \<Rightarrow> 'a DelayFifo" where
  "df_setSize aSize q = q\<lparr>df_theSize := aSize\<rparr>"

definition df_enqueue :: "nat \<Rightarrow> 'a \<Rightarrow> nat \<Rightarrow> 'a DelayFifo \<Rightarrow> 'a DelayFifo" where
  "df_enqueue cycleCount anItem delay q = q\<lparr>df_theQueue := df_theQueue q @ [(anItem, cycleCount + delay)],
     df_theCurrentSize := df_theCurrentSize q + 1\<rparr>"

definition df_ready :: "nat \<Rightarrow> 'a DelayFifo \<Rightarrow> bool res" where
  "df_ready cycleCount q =
     (if df_theCurrentSize q = 0 then Inr False
      else bindE (front (df_theQueue q)) (\<lambda>p. Inr (cycleCount \<ge> snd p)))"

definition df_dequeue :: "'a DelayFifo \<Rightarrow> ('a \<times> 'a DelayFifo) res" where
  "df_dequeue q = bindE (front (df_theQueue q)) (\<lambda>p.
     Inr (fst p, q\<lparr>df_theQueue := tl (df_theQueue q), df_theCurrentSize := df_theCurrentSize q - 1\<rparr>))"

definition df_peek :: "'a DelayFifo \<Rightarrow> 'a res" where
  "df_peek q = bindE (front (df_theQueue q)) (\<lambda>p. Inr (fst p))"

definition df_empty :: "'a DelayFifo \<Rightarrow> bool" where
  "df_empty q \<longleftrightarrow> df_theCurrentSize q = 0"

definition df_full :: "'a DelayFifo \<Rightarrow> bool" where
  "df_full q \<longleftrightarrow> df_theCurrentSize q \<ge> df_theSize q"

definition df_size :: "'a DelayFifo \<Rightarrow> nat" where
  "df_size q = df_theCurrentSize q"

section \<open>The queue of pipelined servers\<close>

record 'a PipelineFifo =
  pf_theQueue :: "('a \<times> nat) list"
  pf_theServerReadyTimes :: "nat list"
  pf_theCurrentSize :: nat
  pf_theIssueLatency :: nat
  pf_theLatency :: nat

definition PipelineFifo_new :: "nat \<Rightarrow> nat \<Rightarrow> nat \<Rightarrow> 'a PipelineFifo res" where
  "PipelineFifo_new aNumPipelines anIssueLatency aLatency =
     bindE (dbg_assert (aNumPipelines > 0)) (\<lambda>_.
     bindE (dbg_assert (anIssueLatency \<ge> 1)) (\<lambda>_.
     Inr \<lparr>pf_theQueue = [], pf_theServerReadyTimes = replicate aNumPipelines 0, pf_theCurrentSize = 0,
          pf_theIssueLatency = anIssueLatency, pf_theLatency = aLatency\<rparr>))"

definition pf_enqueue :: "nat \<Rightarrow> 'a \<Rightarrow> nat \<Rightarrow> 'a PipelineFifo \<Rightarrow> 'a PipelineFifo res" where
  "pf_enqueue cycle anItem aRepeatCount q =
     bindE (front (pf_theServerReadyTimes q)) (\<lambda>first.
     bindE (dbg_assert (first \<le> cycle)) (\<lambda>_.
     bindE (foldE (\<lambda>i servers. bindE (front servers) (\<lambda>_. Inr (tl servers @ [cycle + pf_theIssueLatency q * (i + 1)])))
              [0..<aRepeatCount] (pf_theServerReadyTimes q)) (\<lambda>servers.
     Inr (q\<lparr>pf_theServerReadyTimes := servers,
            pf_theQueue := pf_theQueue q @ [(anItem, cycle + pf_theLatency q * aRepeatCount)],
            pf_theCurrentSize := pf_theCurrentSize q + 1\<rparr>))))"

definition pf_ready :: "nat \<Rightarrow> 'a PipelineFifo \<Rightarrow> bool res" where
  "pf_ready cycleCount q =
     (if pf_theCurrentSize q = 0 then Inr False
      else bindE (front (pf_theQueue q)) (\<lambda>p. Inr (cycleCount \<ge> snd p)))"

definition pf_dequeue :: "'a PipelineFifo \<Rightarrow> ('a \<times> 'a PipelineFifo) res" where
  "pf_dequeue q = bindE (front (pf_theQueue q)) (\<lambda>p.
     Inr (fst p, q\<lparr>pf_theQueue := tl (pf_theQueue q), pf_theCurrentSize := pf_theCurrentSize q - 1\<rparr>))"

definition pf_peek :: "'a PipelineFifo \<Rightarrow> 'a res" where
  "pf_peek q = bindE (front (pf_theQueue q)) (\<lambda>p. Inr (fst p))"

definition pf_stall :: "'a PipelineFifo \<Rightarrow> 'a PipelineFifo" where
  "pf_stall q = q\<lparr>pf_theServerReadyTimes := map Suc (pf_theServerReadyTimes q)\<rparr>"

definition pf_serverAvail :: "nat \<Rightarrow> 'a PipelineFifo \<Rightarrow> bool res" where
  "pf_serverAvail cycleCount q = bindE (front (pf_theServerReadyTimes q)) (\<lambda>first. Inr (first \<le> cycleCount))"

definition pf_empty :: "'a PipelineFifo \<Rightarrow> bool" where
  "pf_empty q \<longleftrightarrow> pf_theCurrentSize q = 0"

definition pf_size :: "'a PipelineFifo \<Rightarrow> nat" where
  "pf_size q = pf_theCurrentSize q"

section \<open>Each queue keeps its order\<close>

definition mq_ok :: "'a MessageQueue \<Rightarrow> bool" where
  "mq_ok q \<longleftrightarrow> length (mq_theQueue q) = unat (mq_theCurrentUsage q) \<and> mq_theCurrentUsage q \<le> mq_theCurrentReserve q \<and>
     mq_theCurrentReserve q \<le> mq_theSize q \<and> mq_theSize q < - 1"

lemma max32: "(w :: 32 word) < - 1 \<longleftrightarrow> unat w < 4294967295"
  by (simp add: word_less_nat_alt unsigned_minus_1_eq_mask mask_eq_exp_minus_1)

lemma unat_plus_one32: "unat (w :: 32 word) < 4294967295 \<Longrightarrow> unat (w + 1) = unat w + 1"
  by (simp add: unat_word_ariths)

lemma unat_minus_one32: "0 < unat (w :: 32 word) \<Longrightarrow> unat (w - 1) = unat w - 1"
  by (metis unat_eq_zero unat_minus_one less_irrefl)

lemma mq_ok_nat: "mq_ok q \<longleftrightarrow> length (mq_theQueue q) = unat (mq_theCurrentUsage q) \<and> unat (mq_theCurrentUsage q) \<le> unat (mq_theCurrentReserve q) \<and>
     unat (mq_theCurrentReserve q) \<le> unat (mq_theSize q) \<and> unat (mq_theSize q) < 4294967295"
  by (simp add: mq_ok_def max32 word_le_nat_alt)

lemma MessageQueue_new_ok: "s < - 1 \<Longrightarrow> mq_ok (MessageQueue_new s)"
  by (simp add: mq_ok_def MessageQueue_new_def)

text \<open>What the bounded queue promises, over the items, the number of slots that are reserved but not used, and the capacity.
  The specification counts in natural numbers; it gives what the operation returns and the new state, or nothing when
  the operation is not allowed.\<close>

datatype 'a mq_op = Enqueue nat 'a | Dequeue | Peek | HeadTimestamp | IsEmpty | HasSpace nat | Full nat
  | Reserve | ReserveN nat | Unreserve | UnreserveN nat | GetReserve | GetSize | GetFreeSpace | SetSize nat

datatype 'a mq_out = Nothing | Item 'a | Answer bool | Number int

type_synonym 'a mq_state = "('a \<times> nat) list \<times> nat \<times> nat"

definition mq_abs :: "'a MessageQueue \<Rightarrow> 'a mq_state" where
  "mq_abs q = (mq_theQueue q, unat (mq_theCurrentReserve q) - unat (mq_theCurrentUsage q), unat (mq_theSize q))"

fun mq_spec :: "'a mq_op \<Rightarrow> 'a mq_state \<Rightarrow> ('a mq_out \<times> 'a mq_state) option" where
  "mq_spec (Enqueue t x) (xs, r, cap) = (if length xs + r < cap then Some (Nothing, xs @ [(x, t)], r, cap) else None)"
| "mq_spec Dequeue (xs, r, cap) = (case xs of [] \<Rightarrow> None | (x, _) # ys \<Rightarrow> Some (Item x, ys, r, cap))"
| "mq_spec Peek (xs, r, cap) = (case xs of [] \<Rightarrow> None | (x, _) # _ \<Rightarrow> Some (Item x, xs, r, cap))"
| "mq_spec HeadTimestamp (xs, r, cap) = (case xs of [] \<Rightarrow> None | (_, t) # _ \<Rightarrow> Some (Number (int t), xs, r, cap))"
| "mq_spec IsEmpty (xs, r, cap) = Some (Answer (xs = []), xs, r, cap)"
| "mq_spec (HasSpace n) (xs, r, cap) = Some (Answer (length xs + r + n \<le> cap), xs, r, cap)"
| "mq_spec (Full n) (xs, r, cap) = Some (Answer (cap \<le> length xs + r + n), xs, r, cap)"
| "mq_spec Reserve (xs, r, cap) = (if length xs + r < cap then Some (Nothing, xs, r + 1, cap) else None)"
| "mq_spec (ReserveN n) (xs, r, cap) = (if length xs + r + n \<le> cap then Some (Nothing, xs, r + n, cap) else None)"
| "mq_spec Unreserve (xs, r, cap) = (if 0 < r then Some (Nothing, xs, r - 1, cap) else None)"
| "mq_spec (UnreserveN n) (xs, r, cap) = (if n \<le> r then Some (Nothing, xs, r - n, cap) else None)"
| "mq_spec GetReserve (xs, r, cap) = Some (Number (int r), xs, r, cap)"
| "mq_spec GetSize (xs, r, cap) = Some (Number (int (length xs)), xs, r, cap)"
| "mq_spec GetFreeSpace (xs, r, cap) = Some (Number (int cap - int (length xs) - int r), xs, r, cap)"
| "mq_spec (SetSize n) (xs, r, cap) = (if length xs + r \<le> n then Some (Nothing, xs, r, n) else None)"

fun mq_do :: "'a mq_op \<Rightarrow> 'a MessageQueue \<Rightarrow> ('a mq_out \<times> 'a MessageQueue) res" where
  "mq_do (Enqueue t x) q = bindE (mq_enqueue t x q) (\<lambda>q. Inr (Nothing, q))"
| "mq_do Dequeue q = bindE (mq_dequeue q) (\<lambda>(x, q). Inr (Item x, q))"
| "mq_do Peek q = bindE (mq_peek q) (\<lambda>x. Inr (Item x, q))"
| "mq_do HeadTimestamp q = bindE (mq_headTimestamp q) (\<lambda>t. Inr (Number (int t), q))"
| "mq_do IsEmpty q = Inr (Answer (mq_empty q), q)"
| "mq_do (HasSpace n) q = Inr (Answer (mq_hasSpace (word_of_nat n) q), q)"
| "mq_do (Full n) q = Inr (Answer (mq_full (word_of_nat n) q), q)"
| "mq_do Reserve q = bindE (mq_reserve q) (\<lambda>q. Inr (Nothing, q))"
| "mq_do (ReserveN n) q = bindE (mq_reserve_n (word_of_nat n) q) (\<lambda>q. Inr (Nothing, q))"
| "mq_do Unreserve q = bindE (mq_unreserve q) (\<lambda>q. Inr (Nothing, q))"
| "mq_do (UnreserveN n) q = bindE (mq_unreserve_n (word_of_nat n) q) (\<lambda>q. Inr (Nothing, q))"
| "mq_do GetReserve q = Inr (Number (mq_getReserve q), q)"
| "mq_do GetSize q = Inr (Number (mq_getSize q), q)"
| "mq_do GetFreeSpace q = Inr (Number (mq_getFreeSpace q), q)"
| "mq_do (SetSize n) q = Inr (Nothing, mq_setSize (word_of_nat n) q)"

text \<open>The counts the callers pass: one for the operations without an argument.\<close>

fun mq_argument :: "'a mq_op \<Rightarrow> nat" where
  "mq_argument (HasSpace n) = n"
| "mq_argument (Full n) = n"
| "mq_argument (ReserveN n) = n"
| "mq_argument (UnreserveN n) = n"
| "mq_argument (SetSize n) = n"
| "mq_argument _ = 1"

text \<open>The misuse that no check of the code sees: more slots are released than are taken, or the size is set below what is taken.\<close>

fun mq_unnoticed :: "'a mq_op \<Rightarrow> 'a mq_state \<Rightarrow> bool" where
  "mq_unnoticed Unreserve (xs, r, cap) \<longleftrightarrow> length xs + r < 1"
| "mq_unnoticed (UnreserveN n) (xs, r, cap) \<longleftrightarrow> length xs + r < n"
| "mq_unnoticed (SetSize n) (xs, r, cap) \<longleftrightarrow> n < length xs + r"
| "mq_unnoticed _ a \<longleftrightarrow> False"

lemma unat_of_nat32: "n < 2147483648 \<Longrightarrow> unat (word_of_nat n :: 32 word) = n"
  by (simp add: unat_of_nat)

lemma unat_plus32: "unat (v :: 32 word) < 2147483648 \<Longrightarrow> unat w < 2147483648 \<Longrightarrow> unat (v + w) = unat v + unat w"
  by (simp add: unat_word_ariths)

lemma unat_minus32: "unat (w :: 32 word) \<le> unat v \<Longrightarrow> unat (v - w) = unat v - unat w"
  by (simp add: unat_sub word_le_nat_alt)

lemma unat_minus_wraps32:
  assumes "unat (v :: 32 word) < unat w" "unat w < 2147483648"
  shows "2147483648 < unat (v - w)"
proof -
  have "unat (v - w) = unat v + 4294967296 - unat w" using assms by (simp add: unat_sub_if')
  then show ?thesis using assms by simp
qed

lemma sint_small32:
  assumes "unat (w :: 32 word) < 2147483648"
  shows "sint w = int (unat w)"
proof -
  have "uint w < 2147483648" using assms by (metis of_nat_less_iff of_nat_numeral uint_nat)
  then have "- (2147483648) \<le> uint w" "uint w < 2147483648" using uint_ge_0[of w] by linarith+
  then have "- (2 ^ 31) \<le> uint w" "uint w < 2 ^ 31" by simp_all
  then have "signed_take_bit 31 (uint w) = uint w" by (rule signed_take_bit_int_eq_self)
  then show ?thesis by (simp add: sint_uint)
qed

lemma mq_reserve_eq: "mq_reserve q = mq_reserve_n 1 q" "mq_unreserve q = mq_unreserve_n 1 q"
  by (simp_all add: mq_reserve_def mq_reserve_n_def mq_unreserve_def mq_unreserve_n_def)

lemma mq_reserve_n_ok:
  assumes "mq_ok q" "unat (mq_theSize q) < 2147483648" "unat n < 2147483648"
  shows "mq_reserve_n n q = (if unat (mq_theCurrentReserve q) + unat n \<le> unat (mq_theSize q)
    then Inr (q\<lparr>mq_theCurrentReserve := mq_theCurrentReserve q + n\<rparr>) else Inl AssertionFailed)"
  using assms unat_plus32[of "mq_theCurrentReserve q" n] by (simp add: mq_reserve_n_def mq_ok_nat word_le_nat_alt)

lemma mq_unreserve_n_ok:
  assumes "mq_ok q" "unat (mq_theSize q) < 2147483648" "unat n < 2147483648"
  shows "mq_unreserve_n n q = (if unat (mq_theCurrentUsage q) + unat n \<le> unat (mq_theCurrentReserve q) \<or> unat (mq_theCurrentReserve q) < unat n
    then Inr (q\<lparr>mq_theCurrentReserve := mq_theCurrentReserve q - n\<rparr>) else Inl AssertionFailed)"
  using assms unat_minus32[of n "mq_theCurrentReserve q"] unat_minus_wraps32[of "mq_theCurrentReserve q" n]
  by (cases "unat (mq_theCurrentReserve q) < unat n") (auto simp: mq_unreserve_n_def mq_ok_nat word_le_nat_alt)

lemma mq_enqueue_ok:
  assumes "mq_ok q"
  shows "mq_theCurrentReserve q < mq_theSize q \<Longrightarrow> \<exists>q'. mq_enqueue t x q = Inr q' \<and> mq_ok q' \<and> mq_theQueue q' = mq_theQueue q @ [(x, t)] \<and>
      mq_abs q' = (mq_theQueue q @ [(x, t)], snd (mq_abs q))"
    and "\<not> mq_theCurrentReserve q < mq_theSize q \<Longrightarrow> mq_enqueue t x q = Inl AssertionFailed"
proof -
  have u: "unat (mq_theCurrentUsage q) \<le> unat (mq_theCurrentReserve q)" "unat (mq_theCurrentReserve q) \<le> unat (mq_theSize q)" "unat (mq_theSize q) < 4294967295"
    using assms by (auto simp: mq_ok_nat)
  then have p: "unat (mq_theCurrentUsage q + 1) = unat (mq_theCurrentUsage q) + 1" "unat (mq_theCurrentReserve q + 1) = unat (mq_theCurrentReserve q) + 1"
    by (simp_all add: unat_plus_one32)
  show "\<exists>q'. mq_enqueue t x q = Inr q' \<and> mq_ok q' \<and> mq_theQueue q' = mq_theQueue q @ [(x, t)] \<and>
      mq_abs q' = (mq_theQueue q @ [(x, t)], snd (mq_abs q))" if "mq_theCurrentReserve q < mq_theSize q"
    using assms u p that by (simp add: mq_enqueue_def mq_ok_nat word_le_nat_alt word_less_nat_alt mq_abs_def)
  show "mq_enqueue t x q = Inl AssertionFailed" if "\<not> mq_theCurrentReserve q < mq_theSize q"
    using u p that by (simp add: mq_enqueue_def word_le_nat_alt word_less_nat_alt)
qed

lemma mq_dequeue_ok:
  assumes "mq_ok q" "mq_theQueue q = (x, t) # xs"
  shows "\<exists>q'. mq_dequeue q = Inr (x, q') \<and> mq_ok q' \<and> mq_theQueue q' = xs \<and> mq_abs q' = (xs, snd (mq_abs q))"
proof -
  have u: "unat (mq_theCurrentUsage q) = Suc (length xs)" "unat (mq_theCurrentUsage q) \<le> unat (mq_theCurrentReserve q)"
    "unat (mq_theCurrentReserve q) \<le> unat (mq_theSize q)" using assms by (auto simp: mq_ok_nat)
  then have p: "unat (mq_theCurrentUsage q - 1) = unat (mq_theCurrentUsage q) - 1" "unat (mq_theCurrentReserve q - 1) = unat (mq_theCurrentReserve q) - 1"
    by (simp_all add: unat_minus_one32)
  show ?thesis using assms u p by (simp add: mq_dequeue_def mq_ok_nat word_le_nat_alt mq_abs_def) linarith
qed

lemma mq_refines_changes:
  assumes ok: "mq_ok q" "unat (mq_theSize q) < 2147483648" "n < 2147483648"
  shows "if unat (mq_theCurrentReserve q) < n then \<exists>q'. mq_unreserve_n (word_of_nat n) q = Inr q' \<and> \<not> mq_ok q'
     else if length (mq_theQueue q) + n \<le> unat (mq_theCurrentReserve q)
     then \<exists>q'. mq_unreserve_n (word_of_nat n) q = Inr q' \<and> mq_ok q' \<and>
       mq_abs q' = (mq_theQueue q, unat (mq_theCurrentReserve q) - unat (mq_theCurrentUsage q) - n, unat (mq_theSize q))
     else mq_unreserve_n (word_of_nat n) q = Inl AssertionFailed" (is ?u)
    and "if unat (mq_theCurrentReserve q) + n \<le> unat (mq_theSize q)
     then \<exists>q'. mq_reserve_n (word_of_nat n) q = Inr q' \<and> mq_ok q' \<and>
       mq_abs q' = (mq_theQueue q, unat (mq_theCurrentReserve q) - unat (mq_theCurrentUsage q) + n, unat (mq_theSize q))
     else mq_reserve_n (word_of_nat n) q = Inl AssertionFailed" (is ?r)
proof -
  let ?n = "word_of_nat n :: 32 word"
  have n: "unat ?n = n" using ok(3) by (rule unat_of_nat32)
  have f: "length (mq_theQueue q) = unat (mq_theCurrentUsage q)" "unat (mq_theCurrentUsage q) \<le> unat (mq_theCurrentReserve q)"
    "unat (mq_theCurrentReserve q) \<le> unat (mq_theSize q)" using ok(1) by (simp_all add: mq_ok_nat)
  show ?u using mq_unreserve_n_ok[OF ok(1,2), of ?n] unat_minus32[of ?n "mq_theCurrentReserve q"]
      unat_minus_wraps32[of "mq_theCurrentReserve q" ?n] n ok f
    by (cases "unat (mq_theCurrentReserve q) < n") (simp_all add: mq_ok_nat mq_abs_def, linarith)
  show ?r using mq_reserve_n_ok[OF ok(1,2), of ?n] unat_plus32[of "mq_theCurrentReserve q" ?n] n ok f
    by (simp add: mq_ok_nat mq_abs_def)
qed

lemma mq_refines_queries:
  assumes ok: "mq_ok q" "unat (mq_theSize q) < 2147483648" "n < 2147483648"
  shows "mq_hasSpace (word_of_nat n) q \<longleftrightarrow> unat (mq_theCurrentReserve q) + n \<le> unat (mq_theSize q)"
    and "mq_full (word_of_nat n) q \<longleftrightarrow> unat (mq_theSize q) \<le> unat (mq_theCurrentReserve q) + n"
    and "mq_getReserve q = int (unat (mq_theCurrentReserve q) - unat (mq_theCurrentUsage q))"
    and "mq_getSize q = int (unat (mq_theCurrentUsage q))"
    and "mq_getFreeSpace q = int (unat (mq_theSize q)) - int (unat (mq_theCurrentReserve q))"
proof -
  have f: "unat (mq_theCurrentUsage q) \<le> unat (mq_theCurrentReserve q)" "unat (mq_theCurrentReserve q) \<le> unat (mq_theSize q)"
    using ok(1) by (simp_all add: mq_ok_nat)
  note n = unat_of_nat32[OF ok(3)] unat_plus32[of "mq_theCurrentReserve q" "word_of_nat n"]
  show "mq_hasSpace (word_of_nat n) q \<longleftrightarrow> unat (mq_theCurrentReserve q) + n \<le> unat (mq_theSize q)"
    "mq_full (word_of_nat n) q \<longleftrightarrow> unat (mq_theSize q) \<le> unat (mq_theCurrentReserve q) + n"
    using n f ok by (simp_all add: mq_hasSpace_def mq_full_def word_le_nat_alt)
  show "mq_getReserve q = int (unat (mq_theCurrentReserve q) - unat (mq_theCurrentUsage q))"
    unfolding mq_getReserve_def using unat_minus32[OF f(1)] f ok(2) by (subst sint_small32) linarith+
  show "mq_getSize q = int (unat (mq_theCurrentUsage q))"
    unfolding mq_getSize_def using f ok(2) by (subst sint_small32) linarith+
  show "mq_getFreeSpace q = int (unat (mq_theSize q)) - int (unat (mq_theCurrentReserve q))"
    unfolding mq_getFreeSpace_def using unat_minus32[OF f(2)] f ok(2) by (subst sint_small32) linarith+
qed

text \<open>C29: The bounded queue is well formed and does what it promises, for sizes and counts below 2^31. Each operation that
  the specification allows succeeds, returns what the specification returns (the item at the front, the answer to a question),
  has the specified effect and keeps the counters in step with the list (usage at most reserve, reserve at most the size);
  each operation it forbids is caught: by an assertion, or, for a peek into the empty queue, as the read past the end of the
  list that it is. The exception is misuse that no check sees: releasing more slots than are taken wraps the unsigned counter
  past the check against zero, and setting the size below what is taken is not checked at all; the queue is not well formed afterwards.\<close>

theorem mq_refines:
  assumes ok: "mq_ok q" "unat (mq_theSize q) < 2 ^ 31" "mq_argument op < 2 ^ 31"
  shows "if mq_unnoticed op (mq_abs q) then \<exists>q'. mq_do op q = Inr (Nothing, q') \<and> \<not> mq_ok q'
     else (case mq_spec op (mq_abs q) of
         Some (out, a) \<Rightarrow> \<exists>q'. mq_do op q = Inr (out, q') \<and> mq_ok q' \<and> mq_abs q' = a
       | None \<Rightarrow> mq_do op q = Inl (if op = Peek then OutOfBounds else AssertionFailed))"
proof -
  have f: "length (mq_theQueue q) = unat (mq_theCurrentUsage q)" "unat (mq_theCurrentUsage q) \<le> unat (mq_theCurrentReserve q)"
    "unat (mq_theCurrentReserve q) \<le> unat (mq_theSize q)" using ok(1) by (simp_all add: mq_ok_nat)
  have b: "unat (mq_theSize q) < 2147483648" "mq_argument op < 2147483648" using ok by simp_all
  note changes = mq_refines_changes[OF ok(1) b(1)]
  note queries = mq_refines_queries[OF ok(1) b(1)]
  show ?thesis
  proof (cases op)
    case (Enqueue t x)
    then show ?thesis using mq_enqueue_ok[OF ok(1), of t x] f
      by (cases "mq_theCurrentReserve q < mq_theSize q") (auto simp: mq_abs_def word_less_nat_alt)
  next
    case Dequeue
    then show ?thesis using mq_dequeue_ok[OF ok(1)] by (cases "mq_theQueue q") (fastforce simp: mq_abs_def mq_dequeue_def)+
  next
    case Reserve
    then show ?thesis using changes(2)[of 1] f by (auto simp: mq_abs_def mq_reserve_eq)
  next
    case (ReserveN n)
    then show ?thesis using changes(2)[of n] b(2) f by (auto simp: mq_abs_def)
  next
    case Unreserve
    then show ?thesis using changes(1)[of 1] f by (auto simp: mq_abs_def mq_reserve_eq split: if_splits)
  next
    case (UnreserveN n)
    then show ?thesis using changes(1)[of n] b(2) f by (auto simp: mq_abs_def split: if_splits)
  next
    case (SetSize n)
    then show ?thesis using unat_of_nat32[of n] b(2) f by (auto simp: mq_abs_def mq_setSize_def mq_ok_nat)
  next
    case Peek
    then show ?thesis using ok(1) by (cases "mq_theQueue q") (auto simp: mq_abs_def mq_peek_def front_def)
  next
    case HeadTimestamp
    then show ?thesis using ok(1) by (cases "mq_theQueue q") (auto simp: mq_abs_def mq_headTimestamp_def front_def)
  next
    case (HasSpace n)
    then show ?thesis using ok(1) queries(1)[of n] b(2) f by (simp add: mq_abs_def)
  next
    case (Full n)
    then show ?thesis using ok(1) queries(2)[of n] b(2) f by (simp add: mq_abs_def)
  qed (use ok(1) queries(3-5)[of 0] f in \<open>simp_all add: mq_abs_def mq_empty_def\<close>)
qed

theorem mq_refines_witness:
  "\<exists>q'. mq_do Dequeue \<lparr>mq_theQueue = [(''x'', 7), (''y'', 8)], mq_theSize = 4, mq_theCurrentUsage = 2, mq_theCurrentReserve = 3\<rparr> = Inr (Item ''x'', q') \<and>
     mq_abs q' = ([(''y'', 8)], 1, 4)"
proof -
  let ?q = "\<lparr>mq_theQueue = [(''x'', 7), (''y'', 8)], mq_theSize = 4, mq_theCurrentUsage = 2, mq_theCurrentReserve = 3\<rparr> :: string MessageQueue"
  have ok: "mq_ok ?q" by (simp add: mq_ok_nat)
  have "mq_abs ?q = ([(''x'', 7), (''y'', 8)], 1, 4)" by (simp add: mq_abs_def)
  then show ?thesis using mq_refines[OF ok, of Dequeue] by auto
qed

interpretation bounded: message_fifo "\<lambda>q. map fst (mq_theQueue q)" mq_enqueue mq_dequeue mq_ok
proof (unfold_locales, goal_cases)
  case (1 q t x q')
  then show ?case using mq_enqueue_ok[of q t x] by (cases "mq_theCurrentReserve q < mq_theSize q") auto
next
  case (2 q x xs)
  then obtain t ys where "mq_theQueue q = (x, t) # ys" "xs = map fst ys" by auto
  then show ?case using mq_dequeue_ok[OF 2(1)] by blast
next
  case (3 q)
  then show ?case by (simp add: mq_dequeue_def)
qed

definition df_ok :: "'a DelayFifo \<Rightarrow> bool" where
  "df_ok q \<longleftrightarrow> df_theCurrentSize q = length (df_theQueue q)"

interpretation delayed: message_fifo "\<lambda>q. map fst (df_theQueue q)" "\<lambda>t x q. Inr (df_enqueue t x d q)" df_dequeue df_ok for d
  by unfold_locales (auto simp: df_ok_def df_enqueue_def df_dequeue_def front_def)

lemma df_ready_ok: "df_ok q \<Longrightarrow> df_ready c q = Inr (df_theQueue q \<noteq> [] \<and> snd (hd (df_theQueue q)) \<le> c)"
  by (auto simp: df_ready_def df_ok_def front_ok)

definition pf_ok :: "'a PipelineFifo \<Rightarrow> bool" where
  "pf_ok q \<longleftrightarrow> pf_theCurrentSize q = length (pf_theQueue q) \<and> pf_theServerReadyTimes q \<noteq> []"

lemma servers_taken:
  assumes "ss \<noteq> []"
  shows "\<exists>ss'. foldE (\<lambda>i servers. bindE (front servers) (\<lambda>_. Inr (tl servers @ [f i]))) is ss = Inr ss' \<and> length ss' = length ss"
  using assms
proof (induction "is" arbitrary: ss)
  case (Cons i "is")
  from Cons.IH[of "tl ss @ [f i]"] Cons.prems show ?case by (simp add: front_ok)
qed simp

lemma pf_enqueue_ok:
  assumes "pf_ok q"
  shows "hd (pf_theServerReadyTimes q) \<le> t \<Longrightarrow> \<exists>q'. pf_enqueue t x n q = Inr q' \<and> pf_ok q' \<and>
      pf_theQueue q' = pf_theQueue q @ [(x, t + pf_theLatency q * n)]"
    and "\<not> hd (pf_theServerReadyTimes q) \<le> t \<Longrightarrow> pf_enqueue t x n q = Inl AssertionFailed"
proof -
  have ne: "pf_theServerReadyTimes q \<noteq> []" using assms by (simp add: pf_ok_def)
  from servers_taken[OF ne, of "\<lambda>i. t + pf_theIssueLatency q * (i + 1)" "[0..<n]"] obtain ss where
    ss: "foldE (\<lambda>i servers. bindE (front servers) (\<lambda>_. Inr (tl servers @ [t + pf_theIssueLatency q * (i + 1)]))) [0..<n] (pf_theServerReadyTimes q) = Inr ss"
      "length ss = length (pf_theServerReadyTimes q)" by blast
  then have "ss \<noteq> []" using ne by auto
  then show "hd (pf_theServerReadyTimes q) \<le> t \<Longrightarrow> \<exists>q'. pf_enqueue t x n q = Inr q' \<and> pf_ok q' \<and>
      pf_theQueue q' = pf_theQueue q @ [(x, t + pf_theLatency q * n)]"
    "\<not> hd (pf_theServerReadyTimes q) \<le> t \<Longrightarrow> pf_enqueue t x n q = Inl AssertionFailed"
    using assms unfolding pf_enqueue_def ss(1) by (simp_all add: front_ok ne pf_ok_def)
qed

interpretation pipelined: message_fifo "\<lambda>q. map fst (pf_theQueue q)" "\<lambda>t x q. pf_enqueue t x n q" pf_dequeue pf_ok for n
proof (unfold_locales, goal_cases)
  case (1 q t x q')
  then show ?case using pf_enqueue_ok[of q t x n] by (cases "hd (pf_theServerReadyTimes q) \<le> t") auto
next
  case (2 q x xs)
  then show ?case by (auto simp: pf_ok_def pf_dequeue_def)
next
  case (3 q)
  then show ?case by (simp add: pf_dequeue_def front_def)
qed

section \<open>How often a server accepts an item\<close>

datatype 'a pf_event = Arrive nat 'a | Leave | Stall

fun pf_do :: "'a pf_event \<Rightarrow> 'a PipelineFifo \<Rightarrow> 'a PipelineFifo res" where
  "pf_do (Arrive t x) q = pf_enqueue t x 1 q"
| "pf_do Leave q = bindE (pf_dequeue q) (\<lambda>p. Inr (snd p))"
| "pf_do Stall q = Inr (pf_stall q)"

fun arrivals :: "'a pf_event list \<Rightarrow> nat list" where
  "arrivals [] = []"
| "arrivals (Arrive t x # es) = t # arrivals es"
| "arrivals (e # es) = arrivals es"

definition busy_since :: "nat \<Rightarrow> nat \<Rightarrow> nat list \<Rightarrow> nat list \<Rightarrow> bool" where
  "busy_since n l ts ss \<longleftrightarrow> length ss = n \<and> (\<forall>i < n. (replicate n 0 @ map (\<lambda>t. t + l) ts) ! (length ts + i) \<le> ss ! i)"

definition paced :: "nat \<Rightarrow> nat \<Rightarrow> nat list \<Rightarrow> bool" where
  "paced n l ts \<longleftrightarrow> (\<forall>k. k + n < length ts \<longrightarrow> ts ! k + l \<le> ts ! (k + n))"

lemma arrivals_append: "arrivals (es @ fs) = arrivals es @ arrivals fs"
  by (induction es rule: arrivals.induct) auto

lemma busy_arrive:
  assumes b: "busy_since n l ts ss" "0 < n" and p: "paced n l ts" and t: "hd ss \<le> t"
  shows "busy_since n l (ts @ [t]) (tl ss @ [t + l])" "paced n l (ts @ [t])"
proof -
  have len: "length ss = n" and le: "\<And>i. i < n \<Longrightarrow> (replicate n 0 @ map (\<lambda>t. t + l) ts) ! (length ts + i) \<le> ss ! i"
    using b(1) by (auto simp: busy_since_def)
  have ne: "ss \<noteq> []" using len b(2) by auto
  have "(replicate n 0 @ map (\<lambda>t. t + l) (ts @ [t])) ! (length (ts @ [t]) + i) \<le> (tl ss @ [t + l]) ! i" if i: "i < n" for i
  proof (cases "i < n - 1")
    case True
    then have "(replicate n 0 @ map (\<lambda>t. t + l) (ts @ [t])) ! (length (ts @ [t]) + i) = (replicate n 0 @ map (\<lambda>t. t + l) ts) ! (length ts + Suc i)"
      by (simp add: nth_append) arith
    moreover have "(tl ss @ [t + l]) ! i = ss ! Suc i" using True len by (simp add: nth_append nth_tl)
    ultimately show ?thesis using le[of "Suc i"] True by simp
  next
    case False
    then have "i = n - 1" using i by simp
    then show ?thesis using len b(2) by (simp add: nth_append)
  qed
  then show "busy_since n l (ts @ [t]) (tl ss @ [t + l])" using len b(2) by (simp add: busy_since_def)
  have "(replicate n 0 @ map (\<lambda>t. t + l) ts) ! length ts \<le> t" using le[of 0] b(2) t ne by (simp add: hd_conv_nth)
  then have "ts ! k + l \<le> t" if "k + n = length ts" for k using that[symmetric] b(2) by (simp add: nth_append)
  then have "(ts @ [t]) ! k + l \<le> (ts @ [t]) ! (k + n)" if "k + n < length (ts @ [t])" for k
    using that p b(2) by (cases "k + n = length ts") (auto simp: paced_def nth_append)
  then show "paced n l (ts @ [t])" by (simp add: paced_def)
qed

lemma run_paced:
  assumes "0 < n"
  shows "PipelineFifo_new n l w = Inr q0 \<Longrightarrow> foldE pf_do es q0 = Inr q \<Longrightarrow>
    pf_theIssueLatency q = l \<and> busy_since n l (arrivals es) (pf_theServerReadyTimes q) \<and> paced n l (arrivals es)"
proof (induction es arbitrary: q rule: rev_induct)
  case Nil
  then show ?case by (auto simp: PipelineFifo_new_def bindE_Inr_iff busy_since_def paced_def)
next
  case (snoc e es)
  then obtain q1 where q1: "foldE pf_do es q0 = Inr q1" "pf_do e q1 = Inr q" by (auto simp: foldE_append bindE_Inr_iff)
  note ih = snoc.IH[OF snoc.prems(1) q1(1)]
  show ?case
  proof (cases e)
    case (Arrive t x)
    then show ?thesis using q1(2) ih busy_arrive[OF _ assms, of l "arrivals es" "pf_theServerReadyTimes q1" t]
      by (auto simp: pf_enqueue_def bindE_Inr_iff front_Inr_iff arrivals_append)
  next
    case Leave
    then show ?thesis using q1(2) ih by (auto simp: pf_dequeue_def bindE_Inr_iff arrivals_append)
  next
    case Stall
    then show ?thesis using q1(2) ih by (auto simp: pf_stall_def arrivals_append busy_since_def le_SucI)
  qed
qed

text \<open>A group of n pipelined servers with issue latency l accepts at most n items in any l cycles: of two
  items with n - 1 others between them the second arrives at least l cycles after the first, whatever leaves or stalls in between.\<close>

theorem pipeline_throughput:
  assumes "PipelineFifo_new n l w = Inr q0" "foldE pf_do es q0 = Inr q" "k + n < length (arrivals es)"
  shows "arrivals es ! k + l \<le> arrivals es ! (k + n)"
proof -
  have "0 < n" using assms(1) by (auto simp: PipelineFifo_new_def bindE_Inr_iff)
  from run_paced[OF this assms(1,2)] assms(3) show ?thesis by (simp add: paced_def)
qed

text \<open>Whatever is put into one of the three queues leaves it in the order of arrival, and nothing is lost or added: what
  has been taken out, followed by what is still inside, is what was inside at first followed by what was put in.\<close>

theorem queues_keep_order:
  assumes "mq_ok bq" "df_ok dq" "pf_ok pq"
    and "fifo_run mq_enqueue mq_dequeue ops bq = Inr (bo, bq')" "fifo_run (\<lambda>t x q. Inr (df_enqueue t x d q)) df_dequeue ops dq = Inr (do, dq')"
    and "fifo_run (\<lambda>t x q. pf_enqueue t x n q) pf_dequeue ops pq = Inr (po, pq')"
  shows "bo @ map fst (mq_theQueue bq') = map fst (mq_theQueue bq) @ put_items ops \<and>
    do @ map fst (df_theQueue dq') = map fst (df_theQueue dq) @ put_items ops \<and>
    po @ map fst (pf_theQueue pq') = map fst (pf_theQueue pq) @ put_items ops"
  using bounded.run_conserves[OF assms(1,4)] delayed.run_conserves[OF assms(2,5)] pipelined.run_conserves[OF assms(3,6)] by blast

theorem queues_keep_order_witness:
  "\<exists>q'. fifo_run mq_enqueue mq_dequeue [Put 1 ''a'', Put 2 ''b'', Get] (MessageQueue_new 2) = Inr ([''a''], q') \<and> map fst (mq_theQueue q') = [''b'']"
proof -
  let ?ops = "[Put 1 ''a'', Put 2 ''b'', Get]"
  obtain q' where b: "fifo_run mq_enqueue mq_dequeue ?ops (MessageQueue_new 2) = Inr ([''a''], q')"
    by (simp add: MessageQueue_new_def mq_enqueue_def mq_dequeue_def)
  obtain d' where d: "fifo_run (\<lambda>t x q. Inr (df_enqueue t x 3 q)) df_dequeue ?ops (DelayFifo_new 2) = Inr ([''a''], d')"
    by (simp add: DelayFifo_new_def df_enqueue_def df_dequeue_def)
  let ?p = "\<lparr>pf_theQueue = [], pf_theServerReadyTimes = [0], pf_theCurrentSize = 0, pf_theIssueLatency = 1, pf_theLatency = 3\<rparr>"
  obtain p' where p: "fifo_run (\<lambda>t x q. pf_enqueue t x 1 q) pf_dequeue ?ops ?p = Inr ([''a''], p')"
    by (simp add: pf_enqueue_def pf_dequeue_def)
  have "mq_ok (MessageQueue_new 2)" "df_ok (DelayFifo_new 2)" "pf_ok ?p"
    by (simp_all add: mq_ok_nat MessageQueue_new_def df_ok_def DelayFifo_new_def pf_ok_def)
  from queues_keep_order[OF this b d p] b show ?thesis by (simp add: MessageQueue_new_def)
qed

end
