(* ===== verification/MemoryLoopback.thy ===== *)
theory MemoryLoopback
  imports MessageQueues MemoryMessages
begin

text \<open>
  The memory of the timing simulator (\<^verbatim>\<open>MemoryLoopback/MemoryLoopbackImpl.cpp\<close>): every request is answered by a reply of the
  matching type, which waits in a delay queue. The recording of accesses (\<^verbatim>\<open>TRACK_ACCESSES\<close>) is compiled out. The channel
  behind the output port takes a number of messages per cycle that is an argument of the drive function.
\<close>

record MemoryLoopback =
  ml_Delay :: int
  ml_MaxRequests :: nat
  ml_index :: nat
  theFetchReplyType :: MemoryMessageType
  outQueue :: "MemoryTransport DelayFifo"

definition ml_initialize :: "int \<Rightarrow> nat \<Rightarrow> bool \<Rightarrow> nat \<Rightarrow> MemoryLoopback res" where
  "ml_initialize Delay MaxRequests UseFetchReply index =
     (if Delay < 1 then Inl ErrorReturn
      else Inr \<lparr>ml_Delay = Delay, ml_MaxRequests = MaxRequests, ml_index = index,
                theFetchReplyType = (if UseFetchReply then FetchReply else MissReplyWritable),
                outQueue = DelayFifo_new MaxRequests\<rparr>)"

definition ml_isQuiesced :: "MemoryLoopback \<Rightarrow> bool" where
  "ml_isQuiesced ml \<longleftrightarrow> df_empty (outQueue ml)"

definition fillTracker :: "nat \<Rightarrow> MemoryTransport \<Rightarrow> MemoryTransport" where
  "fillTracker index tr = (case mt_tracker tr of None \<Rightarrow> tr | Some tt \<Rightarrow>
     (let tt = tt\<lparr>tt_FillLevel := Some eLocalMem\<rparr>;
          tt = (if tt_FillType tt = None then tt\<lparr>tt_FillType := Some eReplacement\<rparr> else tt)
      in tr\<lparr>mt_tracker := Some (tt\<lparr>tt_Responder := Some index, tt_NetworkTrafficRequired := Some False\<rparr>)\<rparr>))"

definition available_LoopbackIn :: "MemoryLoopback \<Rightarrow> bool" where
  "available_LoopbackIn ml \<longleftrightarrow> \<not> df_full (outQueue ml)"

text \<open>The type and size of the reply to a request that fetches or writes data.\<close>

definition reply_to :: "MemoryMessageType \<Rightarrow> MemoryMessage \<Rightarrow> (MemoryMessageType \<times> int) option" where
  "reply_to fetchReply m =
     (let ty = mm_type m in
      if ty = LoadReq then Some (LoadReply, 64)
      else if ty = FetchReq then Some (fetchReply, 64)
      else if ty = StoreReq then Some (StoreReply, 0)
      else if ty = StorePrefetchReq then Some (StorePrefetchReply, 0)
      else if ty = CmpxReq then Some (CmpxReply, 64)
      else if ty = ReadReq then Some (MissReplyWritable, 64)
      else if ty = WriteReq \<or> ty = WriteAllocate then Some (MissReplyWritable, 64)
      else if ty = NonAllocatingStoreReq then Some (NonAllocatingStoreReply, mm_reqSize m)
      else if ty = UpgradeReq \<or> ty = UpgradeAllocate then Some (UpgradeReply, 0)
      else if ty = PrefetchReadAllocReq \<or> ty = PrefetchReadNoAllocReq then Some (PrefetchWritableReply, 64)
      else if ty = StreamFetch then Some (StreamFetchWritableReply, 64)
      else None)"

definition ml_evicts :: "MemoryMessageType \<Rightarrow> bool" where
  "ml_evicts ty \<longleftrightarrow> ty = FlushReq \<or> ty = Flush \<or> ty = EvictDirty \<or> ty = EvictWritable \<or> ty = EvictClean"

definition ml_reply :: "MemoryMessageType \<Rightarrow> 64 word \<Rightarrow> int \<Rightarrow> MemoryMessage" where
  "ml_reply ty a sz = (MemoryMessage_at ty a)\<lparr>mm_reqSize := sz\<rparr>"

definition completeTracker :: "nat \<Rightarrow> MemoryTransport \<Rightarrow> MemoryTransport" where
  "completeTracker cycleCount tr = (case mt_tracker tr of None \<Rightarrow> tr | Some tt \<Rightarrow>
     tr\<lparr>mt_tracker := Some (tt\<lparr>tt_FillLevel := Some eLocalMem, tt_FillType := Some eReplacement, tt_CompletionCycle := Some cycleCount\<rparr>)\<rparr>)"

definition push_LoopbackIn :: "nat \<Rightarrow> MemoryTransport \<Rightarrow> MemoryLoopback \<Rightarrow> MemoryLoopback res" where
  "push_LoopbackIn cycleCount tr ml =
     (let m = mt_msg tr;
          queue = (\<lambda>tr reply. Inr (ml\<lparr>outQueue := df_enqueue cycleCount (tr\<lparr>mt_msg := reply\<rparr>) (nat (ml_Delay ml - 1)) (outQueue ml)\<rparr>))
      in case reply_to (theFetchReplyType ml) m of
           Some (ty, sz) \<Rightarrow> queue (fillTracker (ml_index ml) tr) (ml_reply ty (mm_address m) sz)
         | None \<Rightarrow>
             if ml_evicts (mm_type m) then
               (if mm_ackRequired m then queue (completeTracker cycleCount tr) (ml_reply EvictAck (mm_address m) 0) else Inr ml)
             else Inl AssertionFailed)"

text \<open>The loop of the drive function; it ends when the channel takes no more or no reply is due.\<close>

function ml_send :: "nat \<Rightarrow> nat \<Rightarrow> MemoryTransport DelayFifo \<Rightarrow> (MemoryTransport list \<times> MemoryTransport DelayFifo) res" where
  "ml_send cycleCount avail q =
     (if avail = 0 then Inr ([], q)
      else case df_ready cycleCount q of
        Inl e \<Rightarrow> Inl e
      | Inr r \<Rightarrow>
          if \<not> r then Inr ([], q)
          else case df_dequeue q of
            Inl e \<Rightarrow> Inl e
          | Inr (tr, q') \<Rightarrow> bindE (ml_send cycleCount (avail - 1) q') (\<lambda>(trs, q). Inr (tr # trs, q)))"
  by pat_completeness auto
termination by (relation "measure (\<lambda>(_, avail, _). avail)") auto

declare ml_send.simps [simp del]

definition drive_LoopbackDrive :: "nat \<Rightarrow> nat \<Rightarrow> MemoryLoopback \<Rightarrow> (MemoryTransport list \<times> MemoryLoopback) res" where
  "drive_LoopbackDrive cycleCount avail ml =
     bindE (ml_send cycleCount avail (outQueue ml)) (\<lambda>(trs, q). Inr (trs, ml\<lparr>outQueue := q\<rparr>))"

section \<open>Replies in order and in time\<close>

text \<open>What memory promises, written down apart from the code: which reply answers which request, how many bytes it carries,
  and what the transaction tracker says afterwards. A request of the processor is answered by the reply of the same name. A
  fetch is answered by a fetch reply if the memory is so configured, and by a miss reply with write permission otherwise (the
  documentation of the parameter has a miss reply there). Memory gives write permission with all the data it returns to a cache.\<close>

definition reply_table :: "bool \<Rightarrow> (MemoryMessageType \<times> MemoryMessageType) list" where
  "reply_table useFetchReply =
     [(LoadReq, LoadReply), (StoreReq, StoreReply), (StorePrefetchReq, StorePrefetchReply), (CmpxReq, CmpxReply),
      (NonAllocatingStoreReq, NonAllocatingStoreReply), (FetchReq, if useFetchReply then FetchReply else MissReplyWritable),
      (ReadReq, MissReplyWritable), (WriteReq, MissReplyWritable), (WriteAllocate, MissReplyWritable),
      (UpgradeReq, UpgradeReply), (UpgradeAllocate, UpgradeReply),
      (PrefetchReadAllocReq, PrefetchWritableReply), (PrefetchReadNoAllocReq, PrefetchWritableReply), (StreamFetch, StreamFetchWritableReply),
      (FlushReq, EvictAck), (Flush, EvictAck), (EvictDirty, EvictAck), (EvictWritable, EvictAck), (EvictClean, EvictAck)]"

definition ml_known :: "MemoryMessage \<Rightarrow> bool" where
  "ml_known m \<longleftrightarrow> mm_type m \<in> fst ` set (reply_table False)"

definition reply_bytes :: "MemoryMessage \<Rightarrow> MemoryMessageType \<Rightarrow> int" where
  "reply_bytes m ty = (if ty \<in> {StoreReply, StorePrefetchReply, UpgradeReply, EvictAck} then 0
     else if ty = NonAllocatingStoreReply then mm_reqSize m else 64)"

definition tracked_reply :: "nat \<Rightarrow> nat \<Rightarrow> MemoryMessageType \<Rightarrow> TransactionTracker \<Rightarrow> TransactionTracker" where
  "tracked_reply i c ty tt =
     (if ty = EvictAck then tt\<lparr>tt_FillLevel := Some eLocalMem, tt_FillType := Some eReplacement, tt_CompletionCycle := Some c\<rparr>
      else tt\<lparr>tt_FillLevel := Some eLocalMem, tt_FillType := Some (case tt_FillType tt of None \<Rightarrow> eReplacement | Some x \<Rightarrow> x),
              tt_Responder := Some i, tt_NetworkTrafficRequired := Some False\<rparr>)"

definition wanted_reply :: "bool \<Rightarrow> nat \<Rightarrow> nat \<Rightarrow> MemoryTransport \<Rightarrow> MemoryTransport option" where
  "wanted_reply f i c tr =
     (let m = mt_msg tr in case map_of (reply_table f) (mm_type m) of
        None \<Rightarrow> None
      | Some ty \<Rightarrow> if ty = EvictAck \<and> \<not> mm_ackRequired m then None
          else Some (tr\<lparr>mt_msg := (MemoryMessage_at ty (mm_address m))\<lparr>mm_reqSize := reply_bytes m ty\<rparr>,
                        mt_tracker := map_option (tracked_reply i c ty) (mt_tracker tr)\<rparr>))"

fun wanted_replies :: "int \<Rightarrow> bool \<Rightarrow> nat \<Rightarrow> nat \<Rightarrow> (MemoryTransport list \<times> nat) list \<Rightarrow> (MemoryTransport \<times> nat) list" where
  "wanted_replies D f i c [] = []"
| "wanted_replies D f i c ((ins, avail) # xs) =
     map (\<lambda>r. (r, c + nat (D - 1))) (List.map_filter (wanted_reply f i c) ins) @ wanted_replies D f i (c + 1) xs"

lemma ml_known_reply: "ml_known m \<longleftrightarrow> reply_to FetchReply m \<noteq> None \<or> ml_evicts (mm_type m)"
  by (cases "mm_type m") (simp_all add: ml_known_def reply_table_def reply_to_def ml_evicts_def)

text \<open>The reply to a request, if there is one: with the address of the request, addressed and tracked as the request was.\<close>

definition answer_to :: "nat \<Rightarrow> MemoryLoopback \<Rightarrow> MemoryTransport \<Rightarrow> MemoryTransport option" where
  "answer_to c ml tr =
     (let m = mt_msg tr in case reply_to (theFetchReplyType ml) m of
        Some (ty, sz) \<Rightarrow> Some ((fillTracker (ml_index ml) tr)\<lparr>mt_msg := ml_reply ty (mm_address m) sz\<rparr>)
      | None \<Rightarrow> if mm_ackRequired m then Some ((completeTracker c tr)\<lparr>mt_msg := ml_reply EvictAck (mm_address m) 0\<rparr>) else None)"

abbreviation waiting :: "MemoryLoopback \<Rightarrow> (MemoryTransport \<times> nat) list" where
  "waiting ml \<equiv> df_theQueue (outQueue ml)"

definition same_memory :: "MemoryLoopback \<Rightarrow> MemoryLoopback \<Rightarrow> bool" where
  "same_memory ml ml' \<longleftrightarrow> ml_Delay ml' = ml_Delay ml \<and> ml_index ml' = ml_index ml \<and> theFetchReplyType ml' = theFetchReplyType ml \<and>
     df_theSize (outQueue ml') = df_theSize (outQueue ml) \<and> df_ok (outQueue ml')"

definition due_at :: "nat \<Rightarrow> MemoryLoopback \<Rightarrow> nat" where
  "due_at c ml = c + nat (ml_Delay ml - 1)"

definition ml_replies :: "nat \<Rightarrow> MemoryLoopback \<Rightarrow> MemoryTransport list \<Rightarrow> (MemoryTransport \<times> nat) list" where
  "ml_replies c ml trs = map (\<lambda>r. (r, due_at c ml)) (List.map_filter (answer_to c ml) trs)"

fun ml_cycles :: "nat \<Rightarrow> (MemoryTransport list \<times> nat) list \<Rightarrow> MemoryLoopback \<Rightarrow> ((MemoryTransport \<times> nat) list \<times> MemoryLoopback) res" where
  "ml_cycles c [] ml = Inr ([], ml)"
| "ml_cycles c ((ins, avail) # xs) ml =
     bindE (foldE (push_LoopbackIn c) ins ml) (\<lambda>ml.
     bindE (drive_LoopbackDrive c avail ml) (\<lambda>(out, ml).
     bindE (ml_cycles (c + 1) xs ml) (\<lambda>(outs, ml). Inr (map (\<lambda>tr. (tr, c)) out @ outs, ml))))"

fun ml_expected :: "nat \<Rightarrow> (MemoryTransport list \<times> nat) list \<Rightarrow> MemoryLoopback \<Rightarrow> (MemoryTransport \<times> nat) list" where
  "ml_expected c [] ml = []"
| "ml_expected c ((ins, avail) # xs) ml = ml_replies c ml ins @ ml_expected (c + 1) xs ml"

lemma same_cong: "same_memory ml ml' \<Longrightarrow> due_at c ml' = due_at c ml \<and> answer_to c ml' = answer_to c ml"
  by (auto simp: same_memory_def due_at_def answer_to_def fun_eq_iff Let_def split: option.splits)

lemma same_trans: "same_memory a b \<Longrightarrow> same_memory b c \<Longrightarrow> same_memory a c"
  by (simp add: same_memory_def)

lemma replies_cong: "same_memory ml ml' \<Longrightarrow> ml_replies c ml' = ml_replies c ml"
  by (simp add: ml_replies_def same_cong fun_eq_iff)

lemma expected_cong: "same_memory ml ml' \<Longrightarrow> ml_expected c xs ml' = ml_expected c xs ml"
  by (induction c xs ml rule: ml_expected.induct) (simp_all add: replies_cong)

lemma reply_to_known: "reply_to x m = None \<longleftrightarrow> reply_to y m = None"
  by (simp add: reply_to_def Let_def)

lemma push_reply:
  assumes "df_ok (outQueue ml)" "ml_known (mt_msg tr)"
  shows "\<exists>ml'. push_LoopbackIn c tr ml = Inr ml' \<and> same_memory ml ml' \<and> waiting ml' = waiting ml @ ml_replies c ml [tr]"
  using assms reply_to_known[of FetchReply "mt_msg tr" "theFetchReplyType ml"]
  by (cases "reply_to (theFetchReplyType ml) (mt_msg tr)")
    (auto simp: push_LoopbackIn_def Let_def ml_known_reply same_memory_def ml_replies_def List.map_filter_def answer_to_def df_enqueue_def df_ok_def due_at_def)

lemma replies_Cons: "ml_replies c ml (tr # trs) = ml_replies c ml [tr] @ ml_replies c ml trs"
  by (simp add: ml_replies_def List.map_filter_def)

lemma push_replies:
  assumes "df_ok (outQueue ml)" "\<forall>tr \<in> set trs. ml_known (mt_msg tr)"
  shows "\<exists>ml'. foldE (push_LoopbackIn c) trs ml = Inr ml' \<and> same_memory ml ml' \<and> waiting ml' = waiting ml @ ml_replies c ml trs"
  using assms
proof (induction trs arbitrary: ml)
  case Nil
  then show ?case by (simp add: same_memory_def ml_replies_def List.map_filter_def)
next
  case (Cons tr trs)
  from push_reply[OF Cons.prems(1), of tr c] Cons.prems(2) obtain ml1 where
    m: "push_LoopbackIn c tr ml = Inr ml1" "same_memory ml ml1" "waiting ml1 = waiting ml @ ml_replies c ml [tr]" by auto
  then have "df_ok (outQueue ml1)" by (simp add: same_memory_def)
  from Cons.IH[OF this] Cons.prems(2) obtain ml' where "foldE (push_LoopbackIn c) trs ml1 = Inr ml'" "same_memory ml1 ml'"
    "waiting ml' = waiting ml1 @ ml_replies c ml1 trs" by auto
  with m show ?case using same_trans[OF m(2)] replies_Cons[of c ml tr trs] by (auto simp: replies_cong[OF m(2)])
qed

lemma ml_send_ok:
  assumes "df_ok q"
  shows "\<exists>q' k. ml_send c n q = Inr (map fst (take k (df_theQueue q)), q') \<and> df_theQueue q' = drop k (df_theQueue q) \<and> df_ok q' \<and>
    df_theSize q' = df_theSize q \<and> k = min n (length (takeWhile (\<lambda>p. snd p \<le> c) (df_theQueue q)))"
  using assms
proof (induction n arbitrary: q)
  case 0
  then show ?case by (simp add: ml_send.simps[of c 0])
next
  case (Suc n)
  show ?case
  proof (cases "df_theQueue q \<noteq> [] \<and> snd (hd (df_theQueue q)) \<le> c")
    case False
    then have "ml_send c (Suc n) q = Inr ([], q)" "takeWhile (\<lambda>p. snd p \<le> c) (df_theQueue q) = []"
      using df_ready_ok[OF Suc.prems, of c] by (auto simp: ml_send.simps[of c "Suc n"] takeWhile_eq_Nil_iff)
    then show ?thesis using Suc.prems by simp
  next
    case True
    then obtain tr d ps where q: "df_theQueue q = (tr, d) # ps" "d \<le> c" by (cases "df_theQueue q") auto
    let ?q = "q\<lparr>df_theQueue := ps, df_theCurrentSize := df_theCurrentSize q - 1\<rparr>"
    have ok: "df_ok ?q" using Suc.prems q by (simp add: df_ok_def)
    have dq: "df_dequeue q = Inr (tr, ?q)" using q by (simp add: df_dequeue_def)
    from Suc.IH[OF ok] obtain q' k where s: "ml_send c n ?q = Inr (map fst (take k ps), q')" "df_theQueue q' = drop k ps" "df_ok q'"
      "df_theSize q' = df_theSize q" "k = min n (length (takeWhile (\<lambda>p. snd p \<le> c) ps))" by auto
    have "ml_send c (Suc n) q = Inr (tr # map fst (take k ps), q')"
      using df_ready_ok[OF Suc.prems, of c] q dq s(1) by (simp add: ml_send.simps[of c "Suc n"])
    then show ?thesis using q s by (intro exI[of _ q'] exI[of _ "Suc k"]) simp
  qed
qed

lemma ml_drive_ok:
  assumes "df_ok (outQueue ml)"
  shows "\<exists>ml' k. drive_LoopbackDrive c n ml = Inr (map fst (take k (waiting ml)), ml') \<and> same_memory ml ml' \<and> waiting ml' = drop k (waiting ml) \<and>
    k = min n (length (takeWhile (\<lambda>p. snd p \<le> c) (waiting ml)))"
proof -
  from ml_send_ok[OF assms, of c n] obtain q' k where s: "ml_send c n (outQueue ml) = Inr (map fst (take k (waiting ml)), q')"
    "df_theQueue q' = drop k (waiting ml)" "df_ok q'" "df_theSize q' = df_theSize (outQueue ml)"
    "k = min n (length (takeWhile (\<lambda>p. snd p \<le> c) (waiting ml)))" by blast
  have "drive_LoopbackDrive c n ml = Inr (map fst (take k (waiting ml)), ml\<lparr>outQueue := q'\<rparr>)"
    unfolding drive_LoopbackDrive_def s(1) by simp
  moreover have "same_memory ml (ml\<lparr>outQueue := q'\<rparr>)" using s by (simp add: same_memory_def)
  ultimately show ?thesis using s(2,5) by (intro exI[of _ "ml\<lparr>outQueue := q'\<rparr>"] exI[of _ k]) simp
qed

lemma taken_due: "p \<in> set (take (min n (length (takeWhile P xs))) xs) \<Longrightarrow> P p"
proof -
  have "take (min n (length (takeWhile P xs))) xs = take n (takeWhile P xs)"
    by (metis min.commute take_take takeWhile_eq_take)
  then show "p \<in> set (take (min n (length (takeWhile P xs))) xs) \<Longrightarrow> P p"
    by (metis in_set_takeD set_takeWhileD)
qed

lemma regroup: "es @ w = drop k xs @ ys \<Longrightarrow> xs = as @ bs \<Longrightarrow> (take k xs @ es) @ w = as @ bs @ ys"
  by (metis append.assoc append_take_drop_id)

definition on_time :: "(MemoryTransport \<times> nat) list \<Rightarrow> (MemoryTransport \<times> nat) list \<Rightarrow> bool" where
  "on_time outs es \<longleftrightarrow> list_all2 (\<lambda>p e. fst p = fst e \<and> snd e \<le> snd p) outs es"

lemma cycles_ok:
  assumes "df_ok (outQueue ml)" "\<forall>x \<in> set xs. \<forall>tr \<in> set (fst x). ml_known (mt_msg tr)"
  shows "\<exists>outs ml' es. ml_cycles c xs ml = Inr (outs, ml') \<and> same_memory ml ml' \<and>
    es @ waiting ml' = waiting ml @ ml_expected c xs ml \<and> on_time outs es \<and> (\<forall>p \<in> set outs. snd p < c + length xs)"
  using assms
proof (induction c xs ml rule: ml_cycles.induct)
  case (1 c ml)
  then show ?case by (simp add: same_memory_def on_time_def)
next
  case (2 c ins avail xs ml)
  from push_replies[OF 2(2), of ins c] 2(3) obtain ml1 where p: "foldE (push_LoopbackIn c) ins ml = Inr ml1" "same_memory ml ml1"
    "waiting ml1 = waiting ml @ ml_replies c ml ins" by auto
  then have "df_ok (outQueue ml1)" by (simp add: same_memory_def)
  from ml_drive_ok[OF this, of c avail] obtain ml2 k where d: "drive_LoopbackDrive c avail ml1 = Inr (map fst (take k (waiting ml1)), ml2)"
    "same_memory ml1 ml2" "waiting ml2 = drop k (waiting ml1)" "k = min avail (length (takeWhile (\<lambda>p. snd p \<le> c) (waiting ml1)))" by blast
  have s: "same_memory ml ml2" by (rule same_trans[OF p(2) d(2)])
  then have "df_ok (outQueue ml2)" by (simp add: same_memory_def)
  from 2(1)[OF p(1) d(1) refl this] 2(3) obtain outs ml' es where r: "ml_cycles (c + 1) xs ml2 = Inr (outs, ml')" "same_memory ml2 ml'"
    "es @ waiting ml' = waiting ml2 @ ml_expected (c + 1) xs ml2" "on_time outs es" "\<forall>p \<in> set outs. snd p < c + 1 + length xs" by auto
  have tk: "\<forall>p \<in> set (take k (waiting ml1)). snd p \<le> c" unfolding d(4) by (intro ballI) (rule taken_due)
  have "on_time (map (\<lambda>tr. (tr, c)) (map fst (take k (waiting ml1)))) (take k (waiting ml1))"
    using tk by (simp add: on_time_def list_all2_map1 list_all2_same)
  then have "on_time (map (\<lambda>tr. (tr, c)) (map fst (take k (waiting ml1))) @ outs) (take k (waiting ml1) @ es)"
    using r(4) by (simp add: on_time_def list_all2_appendI)
  moreover have "(take k (waiting ml1) @ es) @ waiting ml' = waiting ml @ ml_expected c ((ins, avail) # xs) ml"
    using regroup[OF r(3)[unfolded d(3)] p(3)] expected_cong[OF s] by simp
  moreover have "ml_cycles c ((ins, avail) # xs) ml = Inr (map (\<lambda>tr. (tr, c)) (map fst (take k (waiting ml1))) @ outs, ml')"
    using p(1) d(1) r(1) by simp
  moreover have "\<forall>p \<in> set (map (\<lambda>tr. (tr, c)) (map fst (take k (waiting ml1))) @ outs). snd p < c + length ((ins, avail) # xs)"
    using r(5) by auto
  ultimately show ?case using same_trans[OF s r(2)] by blast
qed

text \<open>With a channel that is never full, every reply leaves in the cycle it is due.\<close>

definition punctual :: "nat \<Rightarrow> (MemoryTransport \<times> nat) list \<Rightarrow> bool" where
  "punctual c ps \<longleftrightarrow> sorted (map snd ps) \<and> (\<forall>p \<in> set ps. c \<le> snd p)"

lemma punctual_replies: "punctual c ps \<Longrightarrow> \<forall>p \<in> set ps. snd p \<le> due_at c ml \<Longrightarrow> punctual c (ps @ ml_replies c ml ins)"
  by (auto simp: punctual_def sorted_append ml_replies_def List.map_filter_def due_at_def comp_def sorted_iff_nth_mono nth_append)

lemma punctual_drop: "punctual c ps \<Longrightarrow> punctual (c + 1) (drop (length (takeWhile (\<lambda>p. snd p \<le> c) ps)) ps)"
proof (induction ps)
  case (Cons p ps)
  then show ?case
  proof (cases "snd p \<le> c")
    case True
    then show ?thesis using Cons by (simp add: punctual_def)
  next
    case False
    then show ?thesis using Cons.prems by (auto simp: punctual_def)
  qed
qed (simp add: punctual_def)

lemma cycles_punctual:
  assumes "df_ok (outQueue ml)" "\<forall>x \<in> set xs. \<forall>tr \<in> set (fst x). ml_known (mt_msg tr)"
    and "\<forall>x \<in> set xs. length (waiting ml) + length (ml_expected c xs ml) \<le> snd x" "punctual c (waiting ml)" "\<forall>p \<in> set (waiting ml). snd p \<le> due_at c ml"
  shows "\<exists>outs ml'. ml_cycles c xs ml = Inr (outs, ml') \<and> outs @ waiting ml' = waiting ml @ ml_expected c xs ml \<and>
    (\<forall>p \<in> set (waiting ml'). c + length xs \<le> snd p)"
  using assms
proof (induction c xs ml rule: ml_cycles.induct)
  case (1 c ml)
  then show ?case by (simp add: punctual_def)
next
  case (2 c ins avail xs ml)
  from push_replies[OF 2(2), of ins c] 2(3) obtain ml1 where p: "foldE (push_LoopbackIn c) ins ml = Inr ml1" "same_memory ml ml1"
    "waiting ml1 = waiting ml @ ml_replies c ml ins" by auto
  then have "df_ok (outQueue ml1)" by (simp add: same_memory_def)
  from ml_drive_ok[OF this, of c avail] obtain ml2 k where d: "drive_LoopbackDrive c avail ml1 = Inr (map fst (take k (waiting ml1)), ml2)"
    "same_memory ml1 ml2" "waiting ml2 = drop k (waiting ml1)" "k = min avail (length (takeWhile (\<lambda>p. snd p \<le> c) (waiting ml1)))" by blast
  have s: "same_memory ml ml2" by (rule same_trans[OF p(2) d(2)])
  note ex = expected_cong[OF s, of "c + 1" xs]
  have "length (takeWhile (\<lambda>p. snd p \<le> c) (waiting ml1)) \<le> avail"
    using 2(4) p(3) length_takeWhile_le[of "\<lambda>p. snd p \<le> c" "waiting ml1"] by simp
  then have k: "k = length (takeWhile (\<lambda>p. snd p \<le> c) (waiting ml1))" using d(4) by simp
  have pu: "punctual c (waiting ml1)" using punctual_replies[OF 2(5,6), of ins] p(3) by simp
  have "snd q = c" if "q \<in> set (take k (waiting ml1))" for q
  proof -
    have "snd q \<le> c" using that unfolding k by (metis set_takeWhileD takeWhile_eq_take)
    moreover have "c \<le> snd q" using pu that by (auto simp: punctual_def dest: in_set_takeD)
    ultimately show ?thesis by simp
  qed
  then have out: "map (\<lambda>tr. (tr, c)) (map fst (take k (waiting ml1))) = take k (waiting ml1)"
    by (auto simp: comp_def intro!: map_idI)
  have "df_ok (outQueue ml2)" "punctual (c + 1) (waiting ml2)" "\<forall>q \<in> set (waiting ml2). snd q \<le> due_at (c + 1) ml2"
    "\<forall>x \<in> set xs. length (waiting ml2) + length (ml_expected (c + 1) xs ml2) \<le> snd x"
  proof -
    show "df_ok (outQueue ml2)" using s by (simp add: same_memory_def)
    show "punctual (c + 1) (waiting ml2)" unfolding d(3) k by (rule punctual_drop[OF pu])
    have "snd q \<le> due_at c ml" if "q \<in> set (waiting ml1)" for q using that 2(6) p(3) by (auto simp: ml_replies_def)
    then show "\<forall>q \<in> set (waiting ml2). snd q \<le> due_at (c + 1) ml2"
      using same_cong[OF s, of "c + 1"] d(3) by (auto simp: due_at_def dest!: in_set_dropD) (meson le_SucI)
    show "\<forall>x \<in> set xs. length (waiting ml2) + length (ml_expected (c + 1) xs ml2) \<le> snd x" using 2(4) d(3) p(3) unfolding ex by auto
  qed
  from 2(1)[OF p(1) d(1) refl this(1) _ this(4,2,3)] 2(3) obtain outs ml' where r: "ml_cycles (c + 1) xs ml2 = Inr (outs, ml')"
    "outs @ waiting ml' = waiting ml2 @ ml_expected (c + 1) xs ml2" "\<forall>p \<in> set (waiting ml'). c + 1 + length xs \<le> snd p" by auto
  have "ml_cycles c ((ins, avail) # xs) ml = Inr (take k (waiting ml1) @ outs, ml')"
    using p(1) d(1) r(1) out by simp
  moreover have "(take k (waiting ml1) @ outs) @ waiting ml' = waiting ml @ ml_expected c ((ins, avail) # xs) ml"
    using regroup[OF r(2)[unfolded d(3)] p(3)] ex by simp
  moreover have "\<forall>p \<in> set (waiting ml'). c + length ((ins, avail) # xs) \<le> snd p" using r(3) by simp
  ultimately show ?case by blast
qed

lemma fillTracker_wanted:
  "ty \<noteq> EvictAck \<Longrightarrow> (fillTracker i tr)\<lparr>mt_msg := m\<rparr> = tr\<lparr>mt_msg := m, mt_tracker := map_option (tracked_reply i c ty) (mt_tracker tr)\<rparr>"
  by (cases tr; cases "mt_tracker tr") (auto simp: fillTracker_def tracked_reply_def Let_def split: option.splits)

lemma completeTracker_wanted:
  "(completeTracker c tr)\<lparr>mt_msg := m\<rparr> = tr\<lparr>mt_msg := m, mt_tracker := map_option (tracked_reply i c EvictAck) (mt_tracker tr)\<rparr>"
  by (cases tr; cases "mt_tracker tr") (auto simp: completeTracker_def tracked_reply_def)

lemma reply_to_wanted:
  assumes "ml_known m"
  shows "reply_to (if f then FetchReply else MissReplyWritable) m = (case map_of (reply_table f) (mm_type m) of
      None \<Rightarrow> None | Some ty \<Rightarrow> if ty = EvictAck then None else Some (ty, reply_bytes m ty))"
    "map_of (reply_table f) (mm_type m) \<noteq> None"
  using assms by (cases "mm_type m"; simp add: ml_known_def reply_table_def reply_to_def reply_bytes_def)+

lemma answer_wanted:
  assumes "ml_initialize D n f i = Inr ml" "ml_known (mt_msg tr)"
  shows "answer_to c ml tr = wanted_reply f i c tr"
proof -
  obtain ty where "map_of (reply_table f) (mm_type (mt_msg tr)) = Some ty" using reply_to_wanted(2)[OF assms(2)] by blast
  moreover have "theFetchReplyType ml = (if f then FetchReply else MissReplyWritable)" "ml_index ml = i"
    using assms(1) by (auto simp: ml_initialize_def split: if_splits)
  ultimately show ?thesis using reply_to_wanted(1)[OF assms(2), of f] fillTracker_wanted[of ty _ i tr c] completeTracker_wanted[of _ c tr i]
    by (cases "ty = EvictAck") (simp_all add: answer_to_def wanted_reply_def Let_def ml_reply_def reply_bytes_def)
qed

lemma expected_wanted:
  assumes "ml_initialize D n f i = Inr ml" "\<forall>x \<in> set xs. \<forall>tr \<in> set (fst x). ml_known (mt_msg tr)"
  shows "ml_expected c xs ml = wanted_replies D f i c xs"
  using assms(2)
proof (induction xs arbitrary: c)
  case (Cons x xs)
  obtain ins avail where x: "x = (ins, avail)" by (cases x)
  have "List.map_filter (answer_to c ml) ins = List.map_filter (wanted_reply f i c) ins"
    using Cons.prems answer_wanted[OF assms(1)] by (auto simp: x List.map_filter_def intro!: map_cong filter_cong)
  moreover have "ml_Delay ml = D" using assms(1) by (auto simp: ml_initialize_def split: if_splits)
  ultimately show ?case using Cons by (simp add: x ml_replies_def due_at_def)
qed simp

text \<open>C28: Memory answers every request of a type it knows that needs an answer, in the order of the requests. The reply has
  the type that the table above has for the request, the address of the request and the size that goes with it; no reply is
  lost, added or sent earlier than the configured delay, of which one cycle passes on the way back.
  When the channel takes whatever is due, each reply is sent in exactly the cycle in which it is due.\<close>

theorem loopback_replies:
  assumes "ml_initialize D n f i = Inr ml" "\<forall>x \<in> set xs. \<forall>tr \<in> set (fst x). ml_known (mt_msg tr)"
  shows "\<exists>outs ml' es. ml_cycles c xs ml = Inr (outs, ml') \<and> es @ waiting ml' = wanted_replies D f i c xs \<and> on_time outs es \<and>
    (\<forall>p \<in> set outs. snd p < c + length xs) \<and>
    ((\<forall>x \<in> set xs. length (wanted_replies D f i c xs) \<le> snd x) \<longrightarrow> outs = es \<and> (\<forall>p \<in> set (waiting ml'). c + length xs \<le> snd p))"
  unfolding expected_wanted[OF assms, symmetric]
proof -
  have ok: "df_ok (outQueue ml)" "waiting ml = []"
    using assms(1) by (auto simp: ml_initialize_def DelayFifo_new_def df_ok_def split: if_splits)
  from cycles_ok[OF ok(1) assms(2), of c] obtain outs ml' es where r: "ml_cycles c xs ml = Inr (outs, ml')"
    "es @ waiting ml' = ml_expected c xs ml" "on_time outs es" "\<forall>p \<in> set outs. snd p < c + length xs" by (auto simp: ok(2))
  have "outs = es \<and> (\<forall>p \<in> set (waiting ml'). c + length xs \<le> snd p)" if "\<forall>x \<in> set xs. length (ml_expected c xs ml) \<le> snd x"
  proof -
    from cycles_punctual[OF ok(1) assms(2), of c] that r(1) ok(2) have "outs @ waiting ml' = ml_expected c xs ml" "\<forall>p \<in> set (waiting ml'). c + length xs \<le> snd p"
      by (auto simp: punctual_def)
    then show ?thesis using r(2) by (metis append_same_eq)
  qed
  then show "\<exists>outs ml' es. ml_cycles c xs ml = Inr (outs, ml') \<and> es @ waiting ml' = ml_expected c xs ml \<and> on_time outs es \<and>
    (\<forall>p \<in> set outs. snd p < c + length xs) \<and>
    ((\<forall>x \<in> set xs. length (ml_expected c xs ml) \<le> snd x) \<longrightarrow> outs = es \<and> (\<forall>p \<in> set (waiting ml'). c + length xs \<le> snd p))"
    using r by blast
qed

text \<open>A requester that asks whether memory is available never overfills it.\<close>

lemma push_bounded:
  assumes "df_ok (outQueue ml)" "ml_known (mt_msg tr)" "available_LoopbackIn ml" "push_LoopbackIn c tr ml = Inr ml'"
  shows "length (waiting ml') \<le> df_theSize (outQueue ml')"
  using push_reply[OF assms(1,2), of c] assms
  by (auto simp: available_LoopbackIn_def df_full_def df_ok_def same_memory_def ml_replies_def List.map_filter_def split: option.splits)

definition demo_load :: "64 word \<Rightarrow> MemoryTransport" where
  "demo_load a = \<lparr>mt_msg = MemoryMessage_at LoadReq a, mt_dest = None, mt_tracker = None\<rparr>"

theorem loopback_replies_witness:
  "\<exists>ml outs ml'. ml_initialize 3 64 False 0 = Inr ml \<and> ml_cycles 10 [([demo_load 64], 5), ([demo_load 128], 5), ([], 5)] ml = Inr (outs, ml') \<and>
     map (\<lambda>p. (mm_type (mt_msg (fst p)), mm_address (mt_msg (fst p)), snd p)) outs = [(LoadReply, 64, 12)] \<and>
     map (\<lambda>p. mm_address (mt_msg (fst p))) (waiting ml') = [128]"
proof -
  obtain ml where i: "ml_initialize 3 64 False 0 = Inr ml" by (simp add: ml_initialize_def)
  let ?xs = "[([demo_load 64], 5), ([demo_load 128], 5), ([], 5)]"
  have k: "\<forall>x \<in> set ?xs. \<forall>tr \<in> set (fst x). ml_known (mt_msg tr)"
    by (simp add: demo_load_def ml_known_def reply_table_def MemoryMessage_at_def MemoryMessage_new_def)
  let ?r = "\<lambda>a. (demo_load a)\<lparr>mt_msg := ml_reply LoadReply a 64\<rparr>"
  have a: "wanted_reply False 0 c (demo_load a) = Some (?r a)" for c a
    by (simp add: wanted_reply_def reply_table_def reply_bytes_def demo_load_def ml_reply_def MemoryMessage_at_def MemoryMessage_new_def)
  have e: "wanted_replies 3 False 0 10 ?xs = [(?r 64, 12), (?r 128, 13)]"
    by (simp add: List.map_filter_def a)
  from loopback_replies[OF i k, of 10] obtain outs ml' where r: "ml_cycles 10 ?xs ml = Inr (outs, ml')" "outs @ waiting ml' = [(?r 64, 12), (?r 128, 13)]"
    "\<forall>p \<in> set (waiting ml'). 13 \<le> snd p" "\<forall>p \<in> set outs. snd p < 13" unfolding e by auto
  have "outs = [(?r 64, 12)] \<and> waiting ml' = [(?r 128, 13)]"
    using r(2,3,4) by (auto simp: append_eq_Cons_conv)
  then show ?thesis using i r(1) by (auto simp: ml_reply_def MemoryMessage_at_def MemoryMessage_new_def)
qed

end
