(* ===== verification/MemoryMap.thy ===== *)
theory MemoryMap
  imports Flexus_Prelude
begin

text \<open>
  Placement of physical pages on nodes (\<^verbatim>\<open>MemoryMap/MemoryMapImpl.cpp\<close>): the home of a page is chosen at its first touch and
  kept from then on; the placement can be written to a file and read back. The home map is a \<^verbatim>\<open>std::map\<close>, an association
  list in the order of its keys. The file is the list of its lines, each a node and a page number; the recording
  of accesses (\<^verbatim>\<open>TRACK_ACCESSES\<close>) is compiled out.
\<close>

unbundle bit_operations_syntax

type_synonym home_map = "(64 word \<times> 32 word) list"
type_synonym page_file = "(int \<times> int) list"

record MemoryMapComponent =
  PageSize :: "32 word"
  NumNodes :: "32 word"
  RoundRobin :: bool
  CreatePageMap :: bool
  theNode_shift :: nat
  theNode_mask :: "32 word"
  theMapLoaded :: bool
  theHomeMap :: home_map
  theHomeMapFile :: page_file
  thePageCounts :: "nat list"

definition home_find :: "64 word \<Rightarrow> home_map \<Rightarrow> 32 word option" where
  "home_find a h = map_of h a"

definition home_insert :: "64 word \<Rightarrow> 32 word \<Rightarrow> home_map \<Rightarrow> home_map" where
  "home_insert a n h = insort_key fst (a, n) h"

text \<open>The signed 32-bit loop that computes the logarithm of the page size; on a negative number it does not end.\<close>

partial_function (option) log2_loop :: "int \<Rightarrow> int \<Rightarrow> int option" where
  [code]: "log2_loop temp n = (if temp = 0 then Some n else log2_loop (temp div 2) (n + 1))"

fun read_lines :: "page_file \<Rightarrow> home_map \<Rightarrow> home_map res" where
  "read_lines [] h = Inr h"
| "read_lines ((node, addr) # ls) h =
     (if node \<in> {-(2 ^ 31)..<2 ^ 31} \<and> addr \<in> {-(2 ^ 63)..<2 ^ 63} then
        bindE (dbg_assert (home_find (word_of_int addr) h = None)) (\<lambda>_.
        read_lines ls (home_insert (word_of_int addr) (word_of_int node) h))
      else Inr h)"

definition readPageMap :: "page_file option \<Rightarrow> MemoryMapComponent \<Rightarrow> MemoryMapComponent res" where
  "readPageMap file m =
     bindE (dbg_assert (\<not> theMapLoaded m)) (\<lambda>_.
     case file of None \<Rightarrow> Inr m
     | Some ls \<Rightarrow> bindE (read_lines ls (theHomeMap m)) (\<lambda>h. Inr (m\<lparr>theHomeMap := h, theMapLoaded := True\<rparr>)))"

definition page_line :: "64 word \<Rightarrow> 32 word \<Rightarrow> int \<times> int" where
  "page_line a n = (uint n, sint a)"

definition writePageMap :: "MemoryMapComponent \<Rightarrow> page_file" where
  "writePageMap m = map (\<lambda>(a, n). page_line a n) (theHomeMap m)"

text \<open>Initialisation with the contents of the file in the current directory, if there is one; no result if it does not end.\<close>

definition mm_initialize :: "32 word \<Rightarrow> 32 word \<Rightarrow> bool \<Rightarrow> bool \<Rightarrow> bool \<Rightarrow> page_file option \<Rightarrow> MemoryMapComponent res option" where
  "mm_initialize psize nodes rr create rd file =
     (if psize = 0 \<or> (psize - 1) AND psize \<noteq> 0 \<or> (nodes - 1) AND nodes \<noteq> 0 then Some (Inl AssertionFailed)
      else case log2_loop (sint psize) 0 of
        None \<Rightarrow> None
      | Some l \<Rightarrow>
          (let m = \<lparr>PageSize = psize, NumNodes = nodes, RoundRobin = rr, CreatePageMap = create, theNode_shift = nat (l - 1),
                    theNode_mask = nodes - 1, theMapLoaded = False, theHomeMap = [], theHomeMapFile = [],
                    thePageCounts = replicate (unat nodes) 0\<rparr> in
           Some (bindE (if rd then readPageMap file m else Inr m) (\<lambda>m.
             Inr (m\<lparr>theHomeMapFile := (if create \<and> rd then (case file of None \<Rightarrow> [] | Some ls \<Rightarrow> ls) else [])\<rparr>)))))"

definition newPage :: "64 word \<Rightarrow> 32 word \<Rightarrow> MemoryMapComponent \<Rightarrow> (32 word \<times> MemoryMapComponent) res" where
  "newPage aPageAddr aRequestingNode m =
     (let node = (if RoundRobin m then ucast (aPageAddr AND ucast (theNode_mask m)) else aRequestingNode) in
      bindE (dbg_assert (node < NumNodes m)) (\<lambda>_.
      bindE (vec_at (thePageCounts m) (unat node)) (\<lambda>n.
      bindE (dbg_assert (home_find aPageAddr (theHomeMap m) = None)) (\<lambda>_.
      Inr (node, m\<lparr>thePageCounts := (thePageCounts m)[unat node := n + 1],
                   theHomeMap := home_insert aPageAddr node (theHomeMap m),
                   theHomeMapFile := (if CreatePageMap m then theHomeMapFile m @ [page_line aPageAddr node] else theHomeMapFile m)\<rparr>)))))"

definition mm_page :: "64 word \<Rightarrow> MemoryMapComponent \<Rightarrow> 64 word" where
  "mm_page anAddress m = drop_bit (theNode_shift m) anAddress"

definition mm_node :: "64 word \<Rightarrow> 32 word \<Rightarrow> MemoryMapComponent \<Rightarrow> (32 word \<times> MemoryMapComponent) res" where
  "mm_node anAddress aRequestingNode m =
     (let pageAddr = mm_page anAddress m in
      case home_find pageAddr (theHomeMap m) of
        Some home \<Rightarrow>
          bindE (dbg_assert (home < NumNodes m)) (\<lambda>_.
          Inr (if aRequestingNode mod NumNodes m \<noteq> home then home else aRequestingNode, m))
      | None \<Rightarrow> newPage pageAddr aRequestingNode m)"

text \<open>Every address counts as cacheable memory, and as input/output too.\<close>

definition mm_isCacheable :: "64 word \<Rightarrow> bool" where
  "mm_isCacheable anAddress = True"

definition mm_isMemory :: "64 word \<Rightarrow> bool" where
  "mm_isMemory anAddress = True"

definition mm_isIO :: "64 word \<Rightarrow> bool" where
  "mm_isIO anAddress = True"

section \<open>The home map\<close>

definition home_ok :: "home_map \<Rightarrow> bool" where
  "home_ok h \<longleftrightarrow> sorted (map fst h) \<and> distinct (map fst h)"

lemma home_ok_empty: "home_ok []"
  by (simp add: home_ok_def)

lemma home_insert_ok:
  assumes "home_ok h" "home_find a h = None"
  shows "home_ok (home_insert a n h)" "set (home_insert a n h) = insert (a, n) (set h)"
    "home_find b (home_insert a n h) = (if b = a then Some n else home_find b h)"
proof -
  have a: "a \<notin> fst ` set h" using assms(2) by (simp add: home_find_def map_of_eq_None_iff)
  show st: "set (home_insert a n h) = insert (a, n) (set h)" by (simp add: home_insert_def set_insort_key)
  have "mset (map fst (home_insert a n h)) = mset (a # map fst h)" by (simp add: home_insert_def)
  then have d: "distinct (map fst (home_insert a n h))" using assms(1) a mset_eq_imp_distinct_iff[of "map fst (home_insert a n h)" "a # map fst h"]
    by (simp add: home_ok_def)
  then show "home_ok (home_insert a n h)" using assms(1) by (simp add: home_ok_def home_insert_def sorted_insort_key)
  have dh: "distinct (map fst h)" using assms(1) by (simp add: home_ok_def)
  show "home_find b (home_insert a n h) = (if b = a then Some n else home_find b h)"
  proof (cases "b = a")
    case True
    then show ?thesis using map_of_eq_Some_iff[OF d, of a n] st by (simp add: home_find_def)
  next
    case False
    then have "map_of (home_insert a n h) b = Some v \<longleftrightarrow> map_of h b = Some v" for v
      unfolding map_of_eq_Some_iff[OF d] map_of_eq_Some_iff[OF dh] st by simp
    then show ?thesis using False by (cases "map_of h b"; cases "map_of (home_insert a n h) b") (auto simp: home_find_def)
  qed
qed

lemma home_unique: "home_ok h \<Longrightarrow> home_ok h' \<Longrightarrow> set h = set h' \<Longrightarrow> h = h'"
proof -
  assume "home_ok h" "home_ok h'" "set h = set h'"
  moreover have "inj_on fst (set h \<union> set h')" using calculation by (auto simp: home_ok_def distinct_map)
  ultimately show "h = h'" by (intro map_sorted_distinct_set_unique[of fst]) (auto simp: home_ok_def)
qed

text \<open>The loop of the initialisation.\<close>

lemma log2_loop_power: "log2_loop (2 ^ k) n = Some (n + int k + 1)"
proof (induction k arbitrary: n)
  case 0
  show ?case by (simp add: log2_loop.simps[of 1] log2_loop.simps[of 0])
next
  case (Suc k)
  have "log2_loop (2 ^ Suc k) n = log2_loop (2 ^ k) (n + 1)" by (subst log2_loop.simps) simp
  then show ?case using Suc by simp
qed

lemma log2_loop_negative: "temp < 0 \<Longrightarrow> log2_loop temp n = None"
proof -
  have "0 \<le> temp" if "log2_loop temp n = Some y" for y
    using that by (rule log2_loop.raw_induct[of "\<lambda>t n y. 0 \<le> t", rotated]) (fastforce split: if_splits)
  then show "temp < 0 \<Longrightarrow> log2_loop temp n = None" by (cases "log2_loop temp n") auto
qed

section \<open>A page keeps its home\<close>

definition mm_ok :: "MemoryMapComponent \<Rightarrow> bool" where
  "mm_ok m \<longleftrightarrow> (\<exists>k < 32. NumNodes m = 2 ^ k) \<and> theNode_mask m = NumNodes m - 1 \<and> length (thePageCounts m) = unat (NumNodes m) \<and>
     home_ok (theHomeMap m) \<and> (\<forall>(a, n) \<in> set (theHomeMap m). n < NumNodes m)"

definition settings :: "MemoryMapComponent \<Rightarrow> 32 word \<times> bool \<times> bool \<times> nat \<times> 32 word" where
  "settings m = (NumNodes m, RoundRobin m, CreatePageMap m, theNode_shift m, theNode_mask m)"

definition first_home :: "64 word \<Rightarrow> 32 word \<Rightarrow> MemoryMapComponent \<Rightarrow> 32 word" where
  "first_home p r m = (if RoundRobin m then ucast p mod NumNodes m else r)"

lemma masked_node:
  assumes "k < 32"
  shows "ucast ((p :: 64 word) AND ucast ((2 ^ k :: 32 word) - 1)) = (ucast p :: 32 word) mod 2 ^ k"
proof -
  have "ucast (p AND ucast ((2 ^ k :: 32 word) - 1)) = (ucast p :: 32 word) AND (2 ^ k - 1)"
    by (rule bit_word_eqI) (auto simp: bit_simps)
  also have "\<dots> = take_bit k (ucast p)" by (simp add: take_bit_eq_mask mask_eq_exp_minus_1)
  also have "\<dots> = ucast p mod 2 ^ k" by (simp add: take_bit_eq_mod)
  finally show ?thesis .
qed

lemma home_nodes: "mm_ok m \<Longrightarrow> 0 < NumNodes m" "mm_ok m \<Longrightarrow> home_find p (theHomeMap m) = Some h \<Longrightarrow> h < NumNodes m"
  by (auto simp: mm_ok_def home_find_def word_gt_0 dest!: map_of_SomeD)

lemma newPage_ok:
  assumes ok: "mm_ok m" and n: "home_find p (theHomeMap m) = None" and r: "r < NumNodes m" and h: "h = first_home p r m"
  shows "\<exists>m'. newPage p r m = Inr (h, m') \<and> mm_ok m' \<and> settings m' = settings m \<and> h < NumNodes m \<and>
    theHomeMap m' = home_insert p h (theHomeMap m) \<and> theMapLoaded m' = theMapLoaded m \<and>
    theHomeMapFile m' = (if CreatePageMap m then theHomeMapFile m @ [page_line p h] else theHomeMapFile m)"
proof -
  obtain k where k: "k < 32" "NumNodes m = 2 ^ k" "theNode_mask m = 2 ^ k - 1" using ok by (auto simp: mm_ok_def)
  have "(if RoundRobin m then ucast (p AND ucast (theNode_mask m)) else r) = h"
    using masked_node[OF k(1), of p] by (simp add: h first_home_def k)
  moreover have lt: "h < NumNodes m" using r home_nodes(1)[OF ok] by (simp add: h first_home_def word_mod_less_divisor)
  moreover have "unat h < length (thePageCounts m)" using lt ok by (simp add: mm_ok_def word_less_nat_alt)
  ultimately show ?thesis
    using n ok home_insert_ok(1,2)[of "theHomeMap m" p] by (auto simp: newPage_def Let_def mm_ok_def settings_def)
qed

text \<open>The home of a page after a sequence of accesses: the one it has, or the one its first access gives it.\<close>

definition home_in :: "MemoryMapComponent \<Rightarrow> (64 word \<times> 32 word) list \<Rightarrow> 64 word \<Rightarrow> 32 word option" where
  "home_in m rs p = (case home_find p (theHomeMap m) of Some h \<Rightarrow> Some h
     | None \<Rightarrow> map_option (\<lambda>(a, r). first_home p r m) (find (\<lambda>(a, r). mm_page a m = p) rs))"

fun node_run :: "(64 word \<times> 32 word) list \<Rightarrow> MemoryMapComponent \<Rightarrow> (32 word list \<times> MemoryMapComponent) res" where
  "node_run [] m = Inr ([], m)"
| "node_run ((a, r) # rs) m = bindE (mm_node a r m) (\<lambda>(h, m). bindE (node_run rs m) (\<lambda>(hs, m). Inr (h # hs, m)))"

text \<open>The lines of a page map file and the map they stand for.\<close>

definition lines_of :: "page_file \<Rightarrow> home_map \<Rightarrow> bool" where
  "lines_of ls h \<longleftrightarrow> (\<exists>xs. ls = map (\<lambda>(a, n). page_line a n) xs \<and> distinct (map fst xs) \<and> set xs = set h)"

lemma settings_cong:
  assumes "settings m' = settings m"
  shows "NumNodes m' = NumNodes m" "mm_page a m' = mm_page a m" "first_home p r m' = first_home p r m" "CreatePageMap m' = CreatePageMap m"
  using assms by (simp_all add: settings_def mm_page_def first_home_def)

lemma mm_node_ok:
  assumes ok: "mm_ok m" and r: "r < NumNodes m"
  shows "\<exists>h m'. mm_node a r m = Inr (h, m') \<and> mm_ok m' \<and> settings m' = settings m \<and> home_in m ((a, r) # rs) (mm_page a m) = Some h \<and>
    (\<forall>p. home_find p (theHomeMap m') = (if p = mm_page a m then Some h else home_find p (theHomeMap m))) \<and>
    (CreatePageMap m \<longrightarrow> lines_of (theHomeMapFile m) (theHomeMap m) \<longrightarrow> lines_of (theHomeMapFile m') (theHomeMap m'))"
proof (cases "home_find (mm_page a m) (theHomeMap m)")
  case (Some h)
  have "r mod NumNodes m = r" using r by (simp add: mod_word_less)
  then have "mm_node a r m = Inr (h, m)" using Some home_nodes(2)[OF ok Some] by (simp add: mm_node_def)
  then show ?thesis using Some ok by (auto simp: home_in_def)
next
  case None
  let ?p = "mm_page a m" and ?h = "first_home (mm_page a m) r m"
  from newPage_ok[OF ok None r refl] obtain m' where n: "newPage ?p r m = Inr (?h, m')" "mm_ok m'" "settings m' = settings m"
    "theHomeMap m' = home_insert ?p ?h (theHomeMap m)"
    "theHomeMapFile m' = (if CreatePageMap m then theHomeMapFile m @ [page_line ?p ?h] else theHomeMapFile m)" by blast
  have ho: "home_ok (theHomeMap m)" using ok by (simp add: mm_ok_def)
  have ni: "?p \<notin> fst ` set (theHomeMap m)" using None by (simp add: home_find_def map_of_eq_None_iff)
  have "lines_of (theHomeMapFile m') (theHomeMap m')" if l: "CreatePageMap m" "lines_of (theHomeMapFile m) (theHomeMap m)"
  proof -
    from l(2) obtain xs where xs: "theHomeMapFile m = map (\<lambda>(a, n). page_line a n) xs" "distinct (map fst xs)" "set xs = set (theHomeMap m)"
      unfolding lines_of_def by blast
    have "theHomeMapFile m' = map (\<lambda>(a, n). page_line a n) (xs @ [(?p, ?h)])" using n(5) l(1) xs(1) by simp
    moreover have "distinct (map fst (xs @ [(?p, ?h)]))" using xs(2,3) ni by simp
    moreover have "set (xs @ [(?p, ?h)]) = set (theHomeMap m')" using xs(3) home_insert_ok(2)[OF ho None] n(4) by simp
    ultimately show ?thesis unfolding lines_of_def by blast
  qed
  moreover have "mm_node a r m = Inr (?h, m')" using None n(1) by (simp add: mm_node_def)
  moreover have "home_in m ((a, r) # rs) ?p = Some ?h" using None by (simp add: home_in_def)
  ultimately show ?thesis using n(2,3,4) home_insert_ok(3)[OF ho None] by auto
qed

lemma node_run_ok:
  assumes "mm_ok m" "\<forall>(a, r) \<in> set rs. r < NumNodes m"
  shows "\<exists>hs m'. node_run rs m = Inr (hs, m') \<and> mm_ok m' \<and> settings m' = settings m \<and>
    map Some hs = map (\<lambda>(a, r). home_in m rs (mm_page a m)) rs \<and> (\<forall>p. home_find p (theHomeMap m') = home_in m rs p) \<and>
    (CreatePageMap m \<longrightarrow> lines_of (theHomeMapFile m) (theHomeMap m) \<longrightarrow> lines_of (theHomeMapFile m') (theHomeMap m'))"
  using assms
proof (induction rs arbitrary: m)
  case Nil
  then show ?case by (simp add: home_in_def split: option.split)
next
  case (Cons x rs)
  obtain a r where x: "x = (a, r)" by (cases x)
  from mm_node_ok[OF Cons.prems(1), of r a rs] Cons.prems(2) obtain h m1 where n: "mm_node a r m = Inr (h, m1)" "mm_ok m1" "settings m1 = settings m"
    "home_in m (x # rs) (mm_page a m) = Some h" "\<forall>p. home_find p (theHomeMap m1) = (if p = mm_page a m then Some h else home_find p (theHomeMap m))"
    "CreatePageMap m \<longrightarrow> lines_of (theHomeMapFile m) (theHomeMap m) \<longrightarrow> lines_of (theHomeMapFile m1) (theHomeMap m1)" by (auto simp: x)
  note c = settings_cong[OF n(3)]
  have hi: "home_in m1 rs p = home_in m (x # rs) p" for p
    using n(4,5) by (auto simp: home_in_def c x split: option.split)
  from Cons.IH[OF n(2)] Cons.prems(2) obtain hs m' where m': "node_run rs m1 = Inr (hs, m')" "mm_ok m'" "settings m' = settings m1"
    "map Some hs = map (\<lambda>(a, r). home_in m1 rs (mm_page a m1)) rs" "\<forall>p. home_find p (theHomeMap m') = home_in m1 rs p"
    "CreatePageMap m1 \<longrightarrow> lines_of (theHomeMapFile m1) (theHomeMap m1) \<longrightarrow> lines_of (theHomeMapFile m') (theHomeMap m')" by (auto simp: c)
  have "node_run (x # rs) m = Inr (h # hs, m')" using n(1) m'(1) by (simp add: x)
  moreover have "map Some (h # hs) = map (\<lambda>(a, r). home_in m (x # rs) (mm_page a m)) (x # rs)"
    using n(4) m'(4) by (simp add: hi c x)
  ultimately show ?case using m'(2,3,5,6) n(3,6) by (auto simp: hi c)
qed

text \<open>C30: Every page keeps its home. The accesses of the nodes in any order succeed; each is sent to the home of its page, which is the one
  the page had, or else the one its first access gives it: the accessing node, or under round-robin placement the page number
  modulo the number of nodes.\<close>

theorem page_home_stable:
  assumes "mm_ok m" "\<forall>(a, r) \<in> set rs. r < NumNodes m"
  shows "\<exists>hs m'. node_run rs m = Inr (hs, m') \<and> mm_ok m' \<and> map Some hs = map (\<lambda>(a, r). home_in m rs (mm_page a m)) rs \<and>
    (\<forall>p. home_find p (theHomeMap m') = home_in m rs p)"
  using node_run_ok[OF assms] by blast

section \<open>Saving and loading\<close>

lemma read_lines_ok:
  assumes "\<forall>(a, n) \<in> set xs. unat n < 2 ^ 31" "distinct (map fst xs)" "fst ` set xs \<inter> fst ` set h0 = {}" "home_ok h0"
  shows "\<exists>h. read_lines (map (\<lambda>(a, n). page_line a n) xs) h0 = Inr h \<and> home_ok h \<and> set h = set xs \<union> set h0"
  using assms
proof (induction xs arbitrary: h0)
  case (Cons x xs)
  obtain a n where x: "x = (a, n)" by (cases x)
  have "uint n < 2 ^ 31" using Cons.prems(1) x by (metis case_prodD list.set_intros(1) of_nat_less_numeral_power_cancel_iff of_nat_unat)
  then have fit: "uint n \<in> {-(2 ^ 31)..<2 ^ 31} \<and> sint a \<in> {-(2 ^ 63)..<2 ^ 63}"
    using sint_ge[of a] sint_lt[of a] by (auto intro: order_trans[OF _ uint_ge_0])
  have new: "home_find a h0 = None" using Cons.prems(3) x by (auto simp: home_find_def map_of_eq_None_iff)
  note ins = home_insert_ok(1,2)[OF Cons.prems(4) new, of n]
  have "fst ` set xs \<inter> fst ` set (home_insert a n h0) = {}" using Cons.prems(2,3) x ins(2) by auto
  from Cons.IH[OF _ _ this ins(1)] Cons.prems(1,2) obtain h where
    h: "read_lines (map (\<lambda>(a, n). page_line a n) xs) (home_insert a n h0) = Inr h" "home_ok h" "set h = set xs \<union> insert (a, n) (set h0)"
    unfolding ins(2) by auto
  have "read_lines (map (\<lambda>(a, n). page_line a n) (x # xs)) h0 = Inr h" using fit new h(1) by (simp add: x page_line_def)
  then show ?case using h(2,3) x by auto
qed simp

lemma reads_back:
  assumes "mm_ok m" "unat (NumNodes m) \<le> 2 ^ 31" "lines_of ls (theHomeMap m)"
  shows "read_lines ls [] = Inr (theHomeMap m)"
proof -
  from assms(3) obtain xs where xs: "ls = map (\<lambda>(a, n). page_line a n) xs" "distinct (map fst xs)" "set xs = set (theHomeMap m)"
    unfolding lines_of_def by blast
  have "\<forall>(a, n) \<in> set xs. unat n < 2 ^ 31" using assms(1,2) xs(3) by (fastforce simp: mm_ok_def word_less_nat_alt)
  from read_lines_ok[OF this xs(2), of "[]"] obtain h where h: "read_lines ls [] = Inr h" "home_ok h" "set h = set (theHomeMap m)"
    using home_ok_empty by (auto simp: xs(1,3))
  then show ?thesis using home_unique[OF h(2), of "theHomeMap m"] assms(1) by (simp add: mm_ok_def)
qed

lemma written_lines: "mm_ok m \<Longrightarrow> lines_of (writePageMap m) (theHomeMap m)"
  by (auto simp: lines_of_def writePageMap_def mm_ok_def home_ok_def)

lemma power_of_two_check: "(2 ^ k - 1 :: 32 word) AND 2 ^ k = 0"
proof -
  have "2 ^ k AND mask k = (take_bit k (2 ^ k) :: 32 word)" by (simp add: take_bit_eq_mask)
  also have "\<dots> = 0" by (simp add: take_bit_eq_mod)
  finally show ?thesis by (simp add: mask_eq_exp_minus_1 and.commute)
qed

lemma sint_power: "k < 31 \<Longrightarrow> sint (2 ^ k :: 32 word) = 2 ^ k"
proof -
  assume "k < 31"
  then have "(2 ^ k :: int) < 2 ^ 31" by (rule power_strict_increasing) simp
  then have "signed_take_bit 31 (2 ^ k :: int) = 2 ^ k" by (intro signed_take_bit_int_eq_self) (simp_all add: order_trans[of _ 0])
  moreover have "(2 ^ k :: 32 word) = word_of_int (2 ^ k)" by simp
  ultimately show ?thesis by (simp only: sint_sbintrunc') simp
qed

lemma mm_initialize_ok:
  assumes "k < 31" "j < 32"
  shows "\<exists>m. mm_initialize (2 ^ k) (2 ^ j) rr create False file = Some (Inr m) \<and> mm_ok m \<and> theNode_shift m = k \<and> NumNodes m = 2 ^ j \<and>
    CreatePageMap m = create \<and> RoundRobin m = rr \<and> theHomeMap m = [] \<and> theHomeMapFile m = [] \<and> \<not> theMapLoaded m"
  using assms by (auto simp: mm_initialize_def power_of_two_check sint_power log2_loop_power mm_ok_def home_ok_empty)

lemma mm_initialize_loops: "mm_initialize (2 ^ 31) (2 ^ j) rr create rd file = None"
  using power_of_two_check[of 31] by (simp add: mm_initialize_def power_of_two_check log2_loop_negative)

text \<open>C39: The placement survives being saved. With pages of up to a gigabyte, whatever the nodes access, the file that is written page by page and the
  one that is written at the end both read back, in a fresh component, as exactly the home map.\<close>

theorem page_map_roundtrip:
  assumes "k < 31" "j < 32" "mm_initialize (2 ^ k) (2 ^ j) rr True False fl = Some (Inr m)" "\<forall>(a, r) \<in> set rs. r < 2 ^ j"
    and "mm_initialize (2 ^ k) (2 ^ j) rr create False None = Some (Inr f)"
  shows "\<exists>hs m'. node_run rs m = Inr (hs, m') \<and> readPageMap (Some (theHomeMapFile m')) f = Inr (f\<lparr>theHomeMap := theHomeMap m', theMapLoaded := True\<rparr>) \<and>
    readPageMap (Some (writePageMap m')) f = Inr (f\<lparr>theHomeMap := theHomeMap m', theMapLoaded := True\<rparr>)"
proof -
  from mm_initialize_ok[OF assms(1,2), of rr True fl] assms(3) have m: "mm_ok m" "NumNodes m = 2 ^ j" "CreatePageMap m" "theHomeMap m = []" "theHomeMapFile m = []" by auto
  from mm_initialize_ok[OF assms(1,2), of rr create None] assms(5) have f: "theHomeMap f = []" "\<not> theMapLoaded f" by auto
  from node_run_ok[OF m(1), of rs] assms(4) m obtain hs m' where r: "node_run rs m = Inr (hs, m')" "mm_ok m'" "settings m' = settings m"
    "lines_of (theHomeMapFile m') (theHomeMap m')" by (auto simp: lines_of_def)
  have "j \<le> 31" using assms(2) by simp
  then have "(2 :: nat) ^ j \<le> 2 ^ 31" by (rule power_increasing) simp
  moreover have "unat (2 ^ j :: 32 word) \<le> 2 ^ j" by (metis mod_less_eq_dividend of_nat_numeral of_nat_power unat_of_nat)
  ultimately have n: "unat (NumNodes m') \<le> 2 ^ 31" using settings_cong(1)[OF r(3)] m(2) by simp
  show ?thesis using r(1) reads_back[OF r(2) n r(4)] reads_back[OF r(2) n written_lines[OF r(2)]] f by (simp add: readPageMap_def)
qed

theorem page_home_stable_witness:
  "\<exists>m hs m'. mm_initialize 8192 4 False True False None = Some (Inr m) \<and> node_run [(8192, 3), (8200, 1), (0, 2)] m = Inr (hs, m') \<and> hs = [3, 3, 2]"
proof -
  from mm_initialize_ok[of 13 2 False True None] obtain m where m: "mm_initialize 8192 4 False True False None = Some (Inr m)" "mm_ok m"
    "NumNodes m = 4" "theHomeMap m = []" "theNode_shift m = 13" "RoundRobin m = False" by auto
  have h: "home_in m [(8192, 3), (8200, 1), (0, 2)] (mm_page a m) = map_option (\<lambda>(a, r). r) (find (\<lambda>(b, r). mm_page b m = mm_page a m) [(8192, 3), (8200, 1), (0, 2)])" for a
    by (simp add: home_in_def home_find_def m(4,6) first_home_def)
  have p: "mm_page 8192 m = 1" "mm_page 8200 m = 1" "mm_page 0 m = 0" by (simp_all add: mm_page_def m(5) drop_bit_eq_div)
  from page_home_stable[OF m(2), of "[(8192, 3), (8200, 1), (0, 2)]"] obtain hs m' where "node_run [(8192, 3), (8200, 1), (0, 2)] m = Inr (hs, m')"
    "map Some hs = [Some 3, Some 3, Some 2]" by (auto simp: m(3) h p)
  then show ?thesis using m(1) by auto
qed

theorem page_map_roundtrip_witness:
  "\<exists>m f hs m'. mm_initialize 8192 4 False True False None = Some (Inr m) \<and> node_run [(8192, 3), (0, 2)] m = Inr (hs, m') \<and>
     readPageMap (Some (theHomeMapFile m')) f = Inr (f\<lparr>theHomeMap := theHomeMap m', theMapLoaded := True\<rparr>)"
proof -
  from mm_initialize_ok[of 13 2 False True None] obtain m where m: "mm_initialize (2 ^ 13) (2 ^ 2) False True False None = Some (Inr m)" by auto
  from page_map_roundtrip[OF _ _ m _ m, of "[(8192, 3), (0, 2)]"] m show ?thesis by auto
qed

end
