(* ===== verification/Spec2Isabelle.thy ===== *)
theory Spec2Isabelle
  imports CoreRegisters NetContainer MMU DirectoryState FastMemoryLoopback MTFetch BPWarm MemoryLoopback MemoryMap
begin

text \<open>
  A verification library for Flexus, a component-based full-system computer-architecture simulator.
  All file names below are relative to \<^verbatim>\<open>src/components\<close> unless they start with \<^verbatim>\<open>core\<close>.

  \<^bold>\<open>The program.\<close> A simulator is a graph of components wired through ports. An out-of-order core
  (\<^verbatim>\<open>uArchARM\<close>) renames registers and executes instructions decoded by \<^verbatim>\<open>armDecoder\<close>; its fetch unit and
  memory unit ask the \<^verbatim>\<open>MMU\<close> for translations; caches (\<^verbatim>\<open>Cache\<close>, \<^verbatim>\<open>CMPCache\<close>, and their functional
  counterparts \<^verbatim>\<open>FastCache\<close>, \<^verbatim>\<open>FastCMPCache\<close>) serve memory messages and keep directories of sharers;
  \<^verbatim>\<open>NetShim\<close> carries messages between nodes. The library follows these boundaries.

  \<^bold>\<open>Theories and the code they model.\<close>
  \<^item> \<open>Flexus_Prelude\<close>: failure values, sequencing of fallible operations, checked access, shared
    list, multiset and word facts.
  \<^item> \<open>MapTable\<close>: the rename table \<^verbatim>\<open>PhysicalMap\<close> (\<^verbatim>\<open>uArchARM/MapTable.hpp\<close>). The invariant \<open>pm_inv\<close>
    partitions the physical registers into free and assigned ones; creation, release and restoration
    keep it, a rollback of a sequence of renames in reverse order restores the table, and the
    program's own \<^verbatim>\<open>checkInvariants\<close> holds in every such state. The locale \<open>rename_table\<close> states what a
    client of the table relies on.
  \<^item> \<open>CoreRegisters\<close>: register names and types, the register file, the bypass network and the core's
    register operations (\<^verbatim>\<open>RegisterType.hpp\<close>, \<^verbatim>\<open>RegisterFile.hpp\<close>, \<^verbatim>\<open>BypassNetwork.hpp\<close>,
    \<^verbatim>\<open>CoreModel/registers.cpp\<close>, start-up in \<^verbatim>\<open>construct.cpp\<close> and \<^verbatim>\<open>microArch.cpp\<close>), composed over the
    rename tables; \<open>core_inv\<close> ties register status to the tables.
  \<^item> \<open>NetChannel\<close>: ports with per-channel queues and channels (\<^verbatim>\<open>NetShim/channel.hpp\<close>, \<^verbatim>\<open>channel.cpp\<close>,
    \<^verbatim>\<open>netcommon.hpp\<close>). The locale \<open>vc_fifo\<close> is the contract of a set of first-in-first-out queues.
  \<^item> \<open>NetSwitch\<close>: switches (\<^verbatim>\<open>netswitch.hpp\<close>, \<^verbatim>\<open>netswitch.cpp\<close>): routing tables and policy, the aging
    internal buffer, the crossbar cycle.
  \<^item> \<open>NetContainer\<close>: nodes and the network (\<^verbatim>\<open>netnode.hpp\<close>, \<^verbatim>\<open>netcontainer.hpp\<close>, \<^verbatim>\<open>netcontainer.cpp\<close>):
    building statements, insertion, delivery and the network cycle \<open>nc_drive\<close>, which neither loses,
    duplicates nor misdelivers a message.
  \<^item> \<open>MMUConfig\<close>: bit utilities, system registers and translation granules (\<^verbatim>\<open>MMU/MMUUtil\<close>,
    \<^verbatim>\<open>ARMTranslationGranules\<close>, \<^verbatim>\<open>mmuRegisters.hpp\<close>, \<^verbatim>\<open>core/qemu/bitUtilities.cpp\<close>).
  \<^item> \<open>TranslationRequest\<close>: translation requests (\<^verbatim>\<open>CommonQEMU/Translation.hpp\<close>), shared by MMU and fetch unit.
  \<^item> \<open>PageWalk\<close>: the resolvers of the four levels and the page walker
    (\<^verbatim>\<open>MMU/TTResolvers\<close>, \<^verbatim>\<open>pageWalk.cpp\<close>). The walk of trace mode and the
    walk of timing mode, which waits for memory between levels, both follow \<open>arm_translate\<close>, the table walk
    of the 4KB granule by the low bits of the descriptors, except at reserved descriptors: a block at level 0 trips an assertion and
    level 3 takes any valid descriptor for a page. Attributes of descriptors are not looked at. The locales \<open>table_level\<close> and \<open>block_level\<close> are the
    contract of a level resolver, interpreted for each of the four levels.
  \<^item> \<open>MMU\<close>: TLBs, request queues and the ports of the component (\<^verbatim>\<open>MMU/MMUImpl.cpp\<close>). No request is lost
    by a bus cycle; a TLB never exceeds its size and evicts its oldest entry. The locale \<open>lookaside\<close> is
    the contract of a TLB seen as a cache of a translation.
  \<^item> \<open>DirectoryState\<close>: exact and limited-pointer sharer sets of the directory
    (\<^verbatim>\<open>CMPCache/SimpleDirectoryState.hpp\<close>, \<^verbatim>\<open>LimitedDirectoryState.hpp\<close>). The locale \<open>sharer_tracker\<close> is the
    contract of a conservative sharer set; both classes are interpretations of it.
  \<^item> \<open>MemoryMessages\<close>: memory messages, their destinations, transaction trackers and transports
    (\<^verbatim>\<open>CommonQEMU/Slices/MemoryMessage.hpp\<close>, \<^verbatim>\<open>DestinationMessage.hpp\<close>, \<^verbatim>\<open>TransactionTracker.hpp\<close>,
    \<^verbatim>\<open>Transports/MemoryTransport.hpp\<close>).
  \<^item> \<open>StdCache\<close>: the tag array of the functional cache (\<^verbatim>\<open>FastCache/StdCache.hpp\<close>): a set is a list in
    recency order with unique tags and ways. The locale \<open>abstract_cache\<close> is what the component relies on,
    interpreted by the array.
  \<^item> \<open>FastCache\<close>: both coherence protocols and the component (\<^verbatim>\<open>CoherenceProtocol.hpp\<close>,
    \<^verbatim>\<open>InclusiveMESI.hpp\<close>, \<^verbatim>\<open>InclusiveMOESI.hpp\<close>, \<^verbatim>\<open>FastCacheImpl.cpp\<close>). The level below is a parameter
    that may snoop this cache any number of times before it answers, so a request runs interleaved with
    snoops. The locale \<open>request_logic\<close> carries the case analysis over the request actions once; it is
    interpreted for an arbitrary environment (safety) and for one that does not snoop back (results).
  \<^item> \<open>FastCacheLRU\<close>: sequences of loads against the reference definition of least-recently-used, and
    initialisation. \<open>CacheCheckpoint\<close>: saving and loading of the array, as text and as a binary archive.
  \<^item> \<open>BranchPredictor\<close>: the two-bit counters, the history-indexed and the address-indexed table, the branch
    target buffer and the combining predictor, with its variant for the trace simulator, statistics and
    checkpoint (\<^verbatim>\<open>CommonQEMU/BranchPredictor.cpp\<close>, \<^verbatim>\<open>uFetch/uFetchTypes.hpp\<close>). Every index stays within its
    table (\<open>bp_ok\<close>), and an update of the buffer replaces only the oldest branch of a full set.
  \<^item> \<open>BranchLearning\<close>: what the predictor achieves: it learns a branch that keeps its direction, repairs the
    history after a misprediction, agrees with its variant, counts consistently; and what a checkpoint keeps.
  \<^item> \<open>FetchAddressGenerate\<close>: generation of fetch addresses (\<^verbatim>\<open>FetchAddressGenerate/\<close>) over the locale
    \<open>branch_predictor\<close>, the virtual class of the predictor, which the combining predictor interprets; with the
    queue of fetch addresses of \<^verbatim>\<open>uFetch/uFetchImpl.cpp\<close> it forms the front end.
  \<^item> \<open>InstructionCache\<close>: the cache of the fetch unit (\<^verbatim>\<open>CommonQEMU/seq_map.hpp\<close>, \<^verbatim>\<open>SimCache\<close> in
    \<^verbatim>\<open>uFetch/uFetchImpl.cpp\<close>). The locale \<open>line_cache\<close> is what the fetch unit relies on, interpreted by \<^verbatim>\<open>SimCache\<close>;
    the cache is least-recently-used, and loads what the functional cache saves.
  \<^item> \<open>FetchUnit\<close>: the whole component \<^verbatim>\<open>uFetch/uFetchImpl.cpp\<close>: ports, fetch loop, misses and prefetches,
    translations, answers to coherence requests. The invariant \<open>uf_ok\<close> ties outstanding translations to waiting
    instructions and outstanding evictions to absent blocks.
  \<^item> \<open>FetchRun\<close>: runs of the fetch unit (\<open>fetch_run\<close>, handlers in any order, with what the rest of the system owes each step
    as \<open>op_ok\<close>, which leaves out the quiescing cycles in which the code can take the front of an empty queue): safety, order of delivery, progress,
    misses and fills, and the standstill when an address is in the bundle twice.
  \<^item> \<open>MTManager\<close>: the thread scheduler (\<^verbatim>\<open>MTManager/MTManagerComponentImpl.cpp\<close>). The locale
    \<open>thread_grant\<close> is the contract of a stage that asks whether a thread may run; execution and dispatch
    interpret it. \<open>MTFetch\<close>: the fetch unit driven through the scheduler, so that a cycle
    serves the thread the scheduler picks, under the instruction-count policy one that can fetch if there is any.
  \<^item> \<open>FastMemoryLoopback\<close>: the memory of the trace simulator (\<^verbatim>\<open>FastMemoryLoopback/\<close>), also as the level below a
    functional cache: runs of processor and device accesses.
  \<^item> \<open>MessageQueues\<close>: the bounded queue with reservations, the delay queue and the queue of pipelined servers
    (\<^verbatim>\<open>CommonQEMU/MessageQueues.hpp\<close>). The locale \<open>message_fifo\<close> is their common contract, interpreted three times;
    all operations of the bounded queue refine a specification over lists and natural numbers.
  \<^item> \<open>MemoryLoopback\<close>: the memory of the timing simulator (\<^verbatim>\<open>MemoryLoopback/\<close>) over the delay queue,
    against a table of the replies written apart from the code.
  \<^item> \<open>MemoryMap\<close>: placement of pages on nodes, saved and loaded (\<^verbatim>\<open>MemoryMap/\<close>).
  \<^item> \<open>BPWarm\<close>: training of the predictor from a trace (\<^verbatim>\<open>BPWarm/BPWarmImpl.cpp\<close>).

  \<^bold>\<open>Conventions.\<close> An operation that can stop returns a \<open>fault\<close> or its result. \<^verbatim>\<open>DBG_Assert\<close> and
  \<^verbatim>\<open>assert\<close> are taken to stop the simulation; access outside a container is a fault. Vectors are lists,
  32-bit counters are integers whose range is kept by the invariants where it matters, addresses and
  descriptors are 64-bit words, cycle counts natural numbers. Debug output has no effect on the
  model, and of the statistics only the counters of the branch predictor and of the memory of the trace simulator are kept. The processor is the ARM target. The network is
  modelled with \<^verbatim>\<open>NS_DEBUG\<close> and \<^verbatim>\<open>NS_STANDALONE\<close> off.

  \<^bold>\<open>Parameters.\<close> Code outside the repository or in parts that are not modelled is an argument: the
  emulator's registers, physical memory and address translation; the availability and delivery
  callbacks of the network, which do not re-enter it; the iteration order of an unordered map after an
  insertion, of which only that it is a permutation is used; the caches above and the level below a
  functional cache; for the fetch unit, the emulator's translation and
  instruction words and the number of messages each output channel accepts in a cycle.

  \<^bold>\<open>Loops and bounds.\<close> Loops over a container are recursions on it. The scan of the internal buffer of
  a switch takes one unit of fuel more than the buffer's length, the round over its ports takes as many
  as there are ports, and both are proved never to run out. The trace-mode walk takes fuel; four
  levels suffice, and the equivalence theorem gives its result for any fuel of at least four. The loop over the page size in \<^verbatim>\<open>MemoryMap\<close> is a partial function, which ends for every size below
  \<open>2 ^ 31\<close>. The
  timing-mode walker gives up after 1000 cycles of waiting, which is a theorem.

  \<^bold>\<open>Not modelled.\<close> The text format of the network configuration file (its statements are modelled after
  parsing); saving and loading of TLBs; the region-tracking
  array of the functional cache; the controllers and policies of the detailed caches; the decoder and the
  pipeline around the registers; the files of a predictor checkpoint; prefetching and trace feeding; and the simulator kernel (wiring, configuration, debug output, statistics, emulator
  interface), which is macro and template machinery and input/output.

  \<^bold>\<open>Plan.\<close> Next are the bit manipulation and the operations of the decoder, and the miss
  address file and buffers of \<^verbatim>\<open>CMPCache\<close>.
\<close>

end
